(* ===== verification/Prelude.thy ===== *)
theory Prelude
  imports Main "HOL-Library.Word" "HOL-Library.Monad_Syntax" "HOL-Library.Signed_Division"
begin

text \<open>
  Shared vocabulary of the development: the machine types of the C sources, the error codes of
  libshare, byte memory with \<open>memcpy\<close>-style stores and loads, little-endian encoding of the
  integers that the sources overlay on mapped files, and the collections of rewrite rules that
  the component theories extend.

  A C function that can read or write memory outside an object, or that may never return, is
  modelled with an \<open>option\<close> result: \<^term>\<open>None\<close> is such an undefined execution, and
  \<^term>\<open>Some\<close> holds the return value together with the new state.
\<close>

unbundle bit_operations_syntax

named_theorems mem_simps \<open>loads and stores of byte memory\<close>
named_theorems frame_simps \<open>what an operation leaves unchanged\<close>
named_theorems ok_intros \<open>operations that return success and keep an invariant\<close>

type_synonym u8 = "8 word"
type_synonym u32 = "32 word"
type_synonym u64 = "64 word"
type_synonym path = string
type_synonym mem = "nat \<Rightarrow> u8"

section \<open>Error codes\<close>

text \<open>
  The return codes of libshare that the sources name; the numbers are those of the manual page
  \<^verbatim>\<open>build-aux/man/man3/libshare_error.3\<close>, which are the negated \<open>errno\<close> values of Linux
  (\<open>SHERR_EXIST\<close>, \<open>SHERR_NOLCK\<close>, \<open>SHERR_TIMEDOUT\<close> and \<open>SHERR_INPROGRESS\<close>, which that page
  does not list, follow the same rule).
\<close>

definition SHERR_NOENT :: int where "SHERR_NOENT = -2"
definition SHERR_SRCH :: int where "SHERR_SRCH = -3"
definition SHERR_IO :: int where "SHERR_IO = -5"
definition SHERR_BADF :: int where "SHERR_BADF = -9"
definition SHERR_AGAIN :: int where "SHERR_AGAIN = -11"
definition SHERR_NOMEM :: int where "SHERR_NOMEM = -12"
definition SHERR_EXIST :: int where "SHERR_EXIST = -17"
definition SHERR_ISDIR :: int where "SHERR_ISDIR = -21"
definition SHERR_INVAL :: int where "SHERR_INVAL = -22"
definition SHERR_NOLCK :: int where "SHERR_NOLCK = -37"
definition SHERR_NOTUNIQ :: int where "SHERR_NOTUNIQ = -76"
definition SHERR_ILSEQ :: int where "SHERR_ILSEQ = -84"
definition SHERR_TIMEDOUT :: int where "SHERR_TIMEDOUT = -110"
definition SHERR_INPROGRESS :: int where "SHERR_INPROGRESS = -115"

lemmas sherr_defs = SHERR_NOENT_def SHERR_SRCH_def SHERR_IO_def SHERR_BADF_def SHERR_AGAIN_def
  SHERR_NOMEM_def SHERR_EXIST_def SHERR_ISDIR_def SHERR_INVAL_def SHERR_NOLCK_def
  SHERR_NOTUNIQ_def SHERR_ILSEQ_def SHERR_TIMEDOUT_def SHERR_INPROGRESS_def

section \<open>Byte memory\<close>

definition mem_store :: "mem \<Rightarrow> nat \<Rightarrow> u8 list \<Rightarrow> mem" where
  "mem_store r off bs = (\<lambda>i. if off \<le> i \<and> i < off + length bs then bs ! (i - off) else r i)"

definition mem_load :: "mem \<Rightarrow> nat \<Rightarrow> nat \<Rightarrow> u8 list" where
  "mem_load r off n = map (\<lambda>k. r (off + k)) [0..<n]"

lemma length_mem_load [simp]: "length (mem_load r off n) = n"
  by (simp add: mem_load_def)

lemma nth_mem_load [simp]: "k < n \<Longrightarrow> mem_load r off n ! k = r (off + k)"
  by (simp add: mem_load_def)

lemma mem_load_store_same [mem_simps]:
  "n = length bs \<Longrightarrow> mem_load (mem_store r off bs) off n = bs"
  by (rule nth_equalityI) (simp_all add: mem_store_def)

lemma mem_load_store_disjoint [mem_simps]:
  "off + n \<le> off' \<or> off' + length bs \<le> off \<Longrightarrow>
     mem_load (mem_store r off' bs) off n = mem_load r off n"
  by (rule nth_equalityI) (auto simp: mem_store_def)

lemma mem_load_cong:
  "(\<And>i. off \<le> i \<Longrightarrow> i < off + n \<Longrightarrow> r i = r' i) \<Longrightarrow> mem_load r off n = mem_load r' off n"
  by (rule nth_equalityI) auto

lemma mem_load_add: "mem_load r off (m + n) = mem_load r off m @ mem_load r (off + m) n"
  by (rule nth_equalityI) (auto simp: nth_append)

lemma take_mem_load: "take m (mem_load r off n) = mem_load r off (min m n)"
  by (rule nth_equalityI) auto

lemma drop_mem_load: "drop m (mem_load r off n) = mem_load r (off + m) (n - m)"
  by (rule nth_equalityI) (auto simp: add.assoc)

lemma mem_store_outside: "i < off \<or> off + length bs \<le> i \<Longrightarrow> mem_store r off bs i = r i"
  by (auto simp: mem_store_def)

lemma mem_store_Nil [simp]: "mem_store r off [] = r"
  by (rule ext) (auto simp: mem_store_def)

section \<open>Little-endian integers\<close>

fun le_enc :: "nat \<Rightarrow> nat \<Rightarrow> u8 list" where
  "le_enc 0 x = []"
| "le_enc (Suc n) x = of_nat x # le_enc n (x div 256)"

fun le_dec :: "u8 list \<Rightarrow> nat" where
  "le_dec [] = 0"
| "le_dec (b # bs) = unat b + 256 * le_dec bs"

lemma unat_less_2p: "unat (x :: 'a :: len word) < 2 ^ LENGTH('a)"
  by (rule unsigned_less)

lemma length_le_enc [simp]: "length (le_enc n x) = n"
  by (induction n arbitrary: x) auto

lemma le_dec_enc: "le_dec (le_enc n x) = x mod 256 ^ n"
proof (induction n arbitrary: x)
  case 0
  then show ?case by simp
next
  case (Suc n)
  have "x mod 256 ^ Suc n = x mod 256 + 256 * (x div 256 mod 256 ^ n)"
    by (metis mod_mult2_eq power_Suc add.commute)
  with Suc show ?case by (simp add: unat_of_nat)
qed

lemma le_dec_bound: "le_dec bs < 256 ^ length bs"
proof (induction bs)
  case Nil
  then show ?case by simp
next
  case (Cons b bs)
  have "unat b < 256" using unat_less_2p [of b] by simp
  with Cons show ?case by simp
qed

lemma le_enc_dec: "length bs = n \<Longrightarrow> le_enc n (le_dec bs) = bs"
proof (induction bs arbitrary: n)
  case Nil
  then show ?case by simp
next
  case (Cons b bs)
  have "unat b < 256" using unat_less_2p [of b] by simp
  then have "(unat b + 256 * le_dec bs) div 256 = le_dec bs" by simp
  moreover have "of_nat (unat b + 256 * le_dec bs) = b"
    using \<open>unat b < 256\<close> by (simp only: word_unat_eq_iff unat_of_nat) simp
  ultimately show ?case using Cons by auto
qed

lemma le_dec_zeros: "le_dec (replicate n 0) = 0"
  by (induction n) auto

lemma unat_u32_bound: "unat (x :: u32) < 4294967296"
  using unat_less_2p [of x] by simp

lemma le_dec_enc_u32 [simp]: "le_dec (le_enc 4 (unat (x :: u32))) = unat x"
  using unat_u32_bound [of x] by (simp add: le_dec_enc)

lemma unat_add_u32:
  "unat (a :: u32) + unat b < 4294967296 \<Longrightarrow> unat (a + b) = unat a + unat b"
  by (simp add: unat_word_ariths)

lemma unat_of_nat_u32: "n < 4294967296 \<Longrightarrow> unat (of_nat n :: u32) = n"
  by (simp add: unat_of_nat)

lemma unat_of_nat_u32_mod: "unat (of_nat n :: u32) = n mod 4294967296"
  by (simp add: unat_of_nat)

lemma unat_max_word: "unat (max (a :: 'a :: len word) b) = max (unat a) (unat b)"
  by (auto simp: max_def word_le_nat_alt)

lemma sint_u32_small: "n < 2147483648 \<Longrightarrow> sint (of_nat n :: u32) = int n"
  by (simp add: signed_of_nat signed_take_bit_int_eq_self)

lemma sint_ucast_u32: "unat (v :: u64) < 2147483648 \<Longrightarrow> sint (ucast v :: u32) = int (unat v)"
  using sint_u32_small [of "unat v"] by simp

lemma sint_pred_u32: "n < 2147483648 \<Longrightarrow> sint (of_nat n - 1 :: u32) = int n - 1"
  using sint_u32_small [of "n - 1"] by (cases n) (simp_all add: of_nat_diff)

section \<open>Decimal numbers\<close>

text \<open>\<open>sprintf\<close> with \<open>%u\<close> and \<open>%d\<close>, and the number a string of digits denotes.\<close>

fun nat_str :: "nat \<Rightarrow> string" where
  "nat_str n = (if n < 10 then [char_of (48 + n)] else nat_str (n div 10) @ [char_of (48 + n mod 10)])"

declare nat_str.simps [simp del]

fun str_val :: "string \<Rightarrow> nat \<Rightarrow> nat" where
  "str_val [] a = a"
| "str_val (c # cs) a = str_val cs (10 * a + (of_char c - 48))"

lemma str_val_append: "str_val (xs @ ys) a = str_val ys (str_val xs a)"
  by (induction xs arbitrary: a) auto

lemma str_val_nat_str: "str_val (nat_str n) 0 = n"
proof (induction n rule: nat_str.induct)
  case (1 n)
  show ?case
  proof (cases "n < 10")
    case True
    then show ?thesis by (simp add: nat_str.simps [of n] of_char_of)
  next
    case False
    with 1 have "str_val (nat_str (n div 10)) 0 = n div 10" by simp
    moreover have "(48 + n mod 10) mod 256 = 48 + n mod 10" by (rule mod_less) simp
    ultimately show ?thesis
      using False by (simp add: nat_str.simps [of n] str_val_append of_char_of)
  qed
qed

lemma nat_str_inj: "nat_str m = nat_str n \<longleftrightarrow> m = n"
  by (metis str_val_nat_str)

definition int_str :: "int \<Rightarrow> string" where
  "int_str i = (if i < 0 then ''-'' @ nat_str (nat (- i)) else nat_str (nat i))"

section \<open>Results\<close>

text \<open>
  \<open>returns v r P\<close>: the execution is defined, returns \<open>v\<close>, and its final state satisfies
  \<open>P\<close>. It is the total-correctness judgement of the component lemmas.
\<close>

definition returns :: "'v \<Rightarrow> ('v \<times> 's) option \<Rightarrow> ('s \<Rightarrow> bool) \<Rightarrow> bool" where
  "returns v r P \<longleftrightarrow> (\<exists>s. r = Some (v, s) \<and> P s)"

lemma returnsI: "r = Some (v, s) \<Longrightarrow> P s \<Longrightarrow> returns v r P"
  by (auto simp: returns_def)

lemma returnsE:
  assumes "returns v r P"
  obtains s where "r = Some (v, s)" and "P s"
  using assms by (auto simp: returns_def)

lemma returns_mono: "returns v r P \<Longrightarrow> (\<And>s. P s \<Longrightarrow> Q s) \<Longrightarrow> returns v r Q"
  by (auto simp: returns_def)

lemma returns_Some [simp]: "returns v (Some (v', s)) P \<longleftrightarrow> v' = v \<and> P s"
  by (auto simp: returns_def)

text \<open>Running a function on calls whose results are known, without rewriting its arguments.\<close>

lemmas run_simps = Option.bind.simps prod.case Let_def simp_thms if_True if_False

section \<open>The contract of an append-only log\<close>

text \<open>
  \<open>items\<close> is what a client sees of a state, \<open>add\<close> puts one request behind it and uses up the
  request's cost of a budget. Every sequence of requests that fits the budget succeeds, and the
  items are those of before followed by those of the requests, in their order.
\<close>

fun add_all :: "('r \<Rightarrow> 's \<Rightarrow> 's option) \<Rightarrow> 'r list \<Rightarrow> 's \<Rightarrow> 's option" where
  "add_all add [] s = Some s"
| "add_all add (r # rs) s = Option.bind (add r s) (add_all add rs)"

locale append_log =
  fixes ok :: "nat \<Rightarrow> 's \<Rightarrow> bool"
    and items :: "'s \<Rightarrow> 'b list"
    and item :: "'r \<Rightarrow> 'b"
    and cost :: "'r \<Rightarrow> nat"
    and valid :: "'r \<Rightarrow> bool"
    and add :: "'r \<Rightarrow> 's \<Rightarrow> 's option"
  assumes add_ok: "ok n s \<Longrightarrow> valid r \<Longrightarrow> cost r \<le> n \<Longrightarrow>
    \<exists>s'. add r s = Some s' \<and> ok (n - cost r) s' \<and> items s' = items s @ [item r]"
begin

lemma adds_ok:
  assumes "ok n s" and "\<forall>r\<in>set rs. valid r" and "sum_list (map cost rs) \<le> n"
  shows "\<exists>s'. add_all add rs s = Some s' \<and> ok (n - sum_list (map cost rs)) s' \<and>
    items s' = items s @ map item rs"
  using assms
proof (induction rs arbitrary: n s)
  case Nil
  then show ?case by simp
next
  case (Cons r rs)
  then obtain s1 where "add r s = Some s1" "ok (n - cost r) s1" "items s1 = items s @ [item r]"
    using add_ok [of n s r] by auto
  with Cons.IH [of "n - cost r" s1] Cons.prems show ?case by auto
qed

lemma adds_nth:
  assumes "ok n s" and "\<forall>r\<in>set rs. valid r" and "sum_list (map cost rs) \<le> n"
    and "add_all add rs s = Some s'"
  shows "i < length (items s) \<Longrightarrow> items s' ! i = items s ! i"
    and "j < length rs \<Longrightarrow> items s' ! (length (items s) + j) = item (rs ! j)"
  using adds_ok [OF assms(1-3)] assms(4) by (auto simp: nth_append)

end

section \<open>The contract of a refined state machine\<close>

text \<open>
  A program \<open>exec\<close> that runs requests on concrete states and a specification \<open>spec\<close> that runs them
  on abstract ones: as long as the requests are valid and their cost fits the budget, every run of
  the program returns, gives the specification's answers and ends in a state whose abstraction is
  the specification's state.
\<close>

fun run_all :: "('r \<Rightarrow> 's \<Rightarrow> ('o \<times> 's) option) \<Rightarrow> 'r list \<Rightarrow> 's \<Rightarrow> ('o list \<times> 's) option" where
  "run_all exec [] s = Some ([], s)"
| "run_all exec (r # rs) s = Option.bind (exec r s) (\<lambda>(y, s).
     Option.bind (run_all exec rs s) (\<lambda>(ys, s). Some (y # ys, s)))"

fun spec_all :: "('r \<Rightarrow> 'a \<Rightarrow> 'o \<times> 'a) \<Rightarrow> 'r list \<Rightarrow> 'a \<Rightarrow> 'o list \<times> 'a" where
  "spec_all spec [] a = ([], a)"
| "spec_all spec (r # rs) a = (case spec r a of (y, a) \<Rightarrow> case spec_all spec rs a of (ys, a) \<Rightarrow> (y # ys, a))"

fun cost_all :: "('r \<Rightarrow> 'a \<Rightarrow> 'o \<times> 'a) \<Rightarrow> ('r \<Rightarrow> 'a \<Rightarrow> nat) \<Rightarrow> 'r list \<Rightarrow> 'a \<Rightarrow> nat" where
  "cost_all spec cost [] a = 0"
| "cost_all spec cost (r # rs) a = cost r a + cost_all spec cost rs (snd (spec r a))"

locale refined_machine =
  fixes ok :: "nat \<Rightarrow> 's \<Rightarrow> bool"
    and abs :: "'s \<Rightarrow> 'a"
    and exec :: "'r \<Rightarrow> 's \<Rightarrow> ('o \<times> 's) option"
    and spec :: "'r \<Rightarrow> 'a \<Rightarrow> 'o \<times> 'a"
    and cost :: "'r \<Rightarrow> 'a \<Rightarrow> nat"
    and valid :: "'r \<Rightarrow> bool"
  assumes exec_ok: "ok n s \<Longrightarrow> valid r \<Longrightarrow> cost r (abs s) \<le> n \<Longrightarrow>
    \<exists>s'. exec r s = Some (fst (spec r (abs s)), s') \<and> ok (n - cost r (abs s)) s' \<and> abs s' = snd (spec r (abs s))"
begin

lemma runs_ok:
  assumes "ok n s" and "\<forall>r\<in>set rs. valid r" and "cost_all spec cost rs (abs s) \<le> n"
  shows "\<exists>s'. run_all exec rs s = Some (fst (spec_all spec rs (abs s)), s') \<and>
    ok (n - cost_all spec cost rs (abs s)) s' \<and> abs s' = snd (spec_all spec rs (abs s))"
  using assms
proof (induction rs arbitrary: n s)
  case Nil
  then show ?case by simp
next
  case (Cons r rs)
  then obtain s1 where s1: "exec r s = Some (fst (spec r (abs s)), s1)" "ok (n - cost r (abs s)) s1"
    "abs s1 = snd (spec r (abs s))"
    using exec_ok [of n s r] by auto
  have "cost_all spec cost rs (abs s1) \<le> n - cost r (abs s)" using Cons.prems(3) s1(3) by simp
  with Cons.IH [OF s1(2)] Cons.prems(2) obtain s' where
    "run_all exec rs s1 = Some (fst (spec_all spec rs (abs s1)), s')"
    "ok (n - cost r (abs s) - cost_all spec cost rs (abs s1)) s'" "abs s' = snd (spec_all spec rs (abs s1))"
    by auto
  with s1 show ?case by (simp add: case_prod_beta)
qed

end

end
