(* ===== verification/Os_Model.thy ===== *)
theory Os_Model
  imports Prelude
begin

text \<open>
  What the sources use of POSIX and of libshare. POSIX is modelled: regular files of the
  block-chain directory with the 16-byte header that every file map starts with, the process's
  descriptor table with lowest-free-number allocation, \<open>open\<close>, \<open>close\<close>, \<open>fstat\<close>,
  \<open>ftruncate\<close>. Everything the process cannot determine itself (the failures of system calls,
  the clock, whether the lock of libshare was obtained, the checksum function of libshare and its
  constants) is the record \<open>env\<close>, an argument of every definition that uses it.
\<close>

record env =
  lock_ok :: bool                   \<comment> \<open>\<open>shlock_open\<close> returned a lock\<close>
  e_open :: "path \<Rightarrow> nat"           \<comment> \<open>errno of \<open>open\<close>, 0 when it succeeds\<close>
  e_fstat :: "int \<Rightarrow> nat"           \<comment> \<open>errno of \<open>fstat\<close> on an open descriptor\<close>
  e_isreg :: "path \<Rightarrow> bool"         \<comment> \<open>\<open>S_ISREG\<close> of what the path names\<close>
  e_trunc :: "path \<Rightarrow> nat \<Rightarrow> nat"   \<comment> \<open>errno of \<open>ftruncate\<close> to a size\<close>
  e_mmap :: "path \<Rightarrow> nat \<Rightarrow> bool"   \<comment> \<open>\<open>mmap\<close> of that many bytes succeeds\<close>
  e_time :: int                     \<comment> \<open>\<open>time(NULL)\<close>\<close>
  e_shtime :: u64                   \<comment> \<open>\<open>shtime()\<close>\<close>
  e_undef :: u64                    \<comment> \<open>\<open>SHTIME_UNDEFINED\<close>\<close>
  e_magic :: u32                    \<comment> \<open>\<open>SHMEM32_MAGIC\<close>\<close>
  e_crc32 :: "u8 list \<Rightarrow> u32"       \<comment> \<open>\<open>shcrc32\<close>\<close>
  e_base :: path                    \<comment> \<open>\<open>get_libshare_path()\<close>\<close>
  e_namemax :: nat                  \<comment> \<open>\<open>MAX_SHARE_NAME_LENGTH\<close>\<close>
  e_shaddr :: "int \<Rightarrow> u8 list option" \<comment> \<open>\<open>shaddr\<close>: remote address of a socket\<close>

section \<open>Files\<close>

text \<open>
  A file of the block-chain directory: its size, the three fields of \<^verbatim>\<open>bc_hdr_t\<close> (its first
  16 bytes) and the bytes after them, which read as zero from the end of the file on.
\<close>

record ufile =
  f_size :: nat
  f_stamp :: u64
  f_magic :: u32
  f_of :: u32
  f_raw :: mem

definition empty_file :: ufile where
  "empty_file = \<lparr>f_size = 0, f_stamp = 0, f_magic = 0, f_of = 0, f_raw = (\<lambda>_. 0)\<rparr>"

definition file_trunc :: "nat \<Rightarrow> ufile \<Rightarrow> ufile" where
  "file_trunc n f = f\<lparr>f_size := n,
     f_raw := (\<lambda>i. if i + 16 < f_size f \<and> i + 16 < n then f_raw f i else 0)\<rparr>"

datatype fdobj = FReg path | FSock | FOther

record os =
  w_file :: "path \<Rightarrow> ufile option"
  w_fd :: "fdobj option list"

definition fd_get :: "'a os_scheme \<Rightarrow> int \<Rightarrow> fdobj option" where
  "fd_get w fd = (if 0 \<le> fd \<and> nat fd < length (w_fd w) then w_fd w ! nat fd else None)"

fun first_free :: "'a option list \<Rightarrow> nat" where
  "first_free [] = 0"
| "first_free (None # xs) = 0"
| "first_free (Some x # xs) = Suc (first_free xs)"

definition fd_alloc :: "'a option list \<Rightarrow> 'a \<Rightarrow> 'a option list" where
  "fd_alloc xs x = (let n = first_free xs in
     if n < length xs then xs[n := Some x] else xs @ [Some x])"

definition os_close :: "int \<Rightarrow> 'a os_scheme \<Rightarrow> 'a os_scheme" where
  "os_close fd w = w\<lparr>w_fd := (if 0 \<le> fd then (w_fd w)[nat fd := None] else w_fd w)\<rparr>"

text \<open>\<open>open\<close> with \<open>O_RDWR | O_CREAT\<close>: the new descriptor, or the negated errno.\<close>

definition os_open :: "env \<Rightarrow> path \<Rightarrow> 'a os_scheme \<Rightarrow> int \<times> 'a os_scheme" where
  "os_open e p w =
     (if e_open e p \<noteq> 0 then (- int (e_open e p), w)
      else (int (first_free (w_fd w)),
            w\<lparr>w_fd := fd_alloc (w_fd w) (FReg p),
              w_file := (case w_file w p of None \<Rightarrow> (w_file w)(p \<mapsto> empty_file)
                                          | Some _ \<Rightarrow> w_file w)\<rparr>))"

definition EBADF :: nat where "EBADF = 9"

text \<open>\<open>fstat\<close>: \<open>Inl\<close> the errno, or the kind of object.\<close>

definition os_fstat :: "env \<Rightarrow> 'a os_scheme \<Rightarrow> int \<Rightarrow> nat + fdobj" where
  "os_fstat e w fd =
     (case fd_get w fd of None \<Rightarrow> Inl EBADF
      | Some x \<Rightarrow> if e_fstat e fd \<noteq> 0 then Inl (e_fstat e fd) else Inr x)"

definition file_at :: "'a os_scheme \<Rightarrow> path \<Rightarrow> ufile" where
  "file_at w p = (case w_file w p of None \<Rightarrow> empty_file | Some f \<Rightarrow> f)"

definition file_upd :: "path \<Rightarrow> ufile \<Rightarrow> 'a os_scheme \<Rightarrow> 'a os_scheme" where
  "file_upd p f w = w\<lparr>w_file := (w_file w)(p \<mapsto> f)\<rparr>"

section \<open>Laws of the descriptor table\<close>

lemma first_free_le: "first_free xs \<le> length xs"
  by (induction xs rule: first_free.induct) auto

lemma first_free_None: "first_free xs < length xs \<Longrightarrow> xs ! first_free xs = None"
  by (induction xs rule: first_free.induct) auto

lemma first_free_least: "n < first_free xs \<Longrightarrow> xs ! n \<noteq> None"
  by (induction xs arbitrary: n rule: first_free.induct) (auto simp: nth_Cons split: nat.splits)

lemma fd_alloc_get:
  "fd_get (w\<lparr>w_fd := fd_alloc (w_fd w) x\<rparr>) fd =
     (if fd = int (first_free (w_fd w)) then Some x else fd_get w fd)"
  using first_free_le [of "w_fd w"]
  by (auto simp: fd_get_def fd_alloc_def Let_def nth_append nth_list_update)

lemma fd_get_free [simp]: "fd_get w (int (first_free (w_fd w))) = None"
  using first_free_None [of "w_fd w"] by (auto simp: fd_get_def)

lemma first_free_pos: "fd_get w 0 \<noteq> None \<Longrightarrow> 0 < first_free (w_fd w)"
  by (cases "w_fd w" rule: first_free.cases) (auto simp: fd_get_def)

lemma fd_get_close: "fd_get (os_close fd w) fd' = (if fd' = fd then None else fd_get w fd')"
  by (auto simp: fd_get_def os_close_def nth_list_update)

lemma fd_get_more [simp]:
  "fd_get (w\<lparr>w_file := x\<rparr>) fd = fd_get w fd"
  "fd_get (file_upd p f w) fd = fd_get w fd"
  by (simp_all add: fd_get_def file_upd_def)

lemma w_file_close [simp]: "w_file (os_close fd w) = w_file w"
  by (simp add: os_close_def)

lemma file_at_upd [simp]: "file_at (file_upd p f w) q = (if q = p then f else file_at w q)"
  by (simp add: file_at_def file_upd_def)

lemma file_at_close [simp]: "file_at (os_close fd w) p = file_at w p"
  by (simp add: file_at_def)

lemma file_at_open:
  "os_open e p w = (fd, w') \<Longrightarrow> file_at w' q = file_at w q"
  by (auto simp: os_open_def file_at_def split: if_splits option.splits)

lemma fd_get_open:
  "os_open e p w = (fd, w') \<Longrightarrow> 0 \<le> fd \<Longrightarrow>
     fd = int (first_free (w_fd w)) \<and>
     fd_get w' fd' = (if fd' = fd then Some (FReg p) else fd_get w fd')"
  using fd_alloc_get [of w "FReg p" fd']
  by (auto simp: os_open_def fd_get_def split: if_splits option.splits)

end
