(* ===== verification/Descriptor.thy ===== *)
theory Descriptor
  imports Os_Model
begin

text \<open>
  The descriptor table of \<^verbatim>\<open>shcoind_descriptor.c\<close>: one slot per file descriptor below
  \<open>MAX_DESCRIPTORS\<close>, claimed when a descriptor is opened, marked on activity, released when
  it is closed, with a read and a write buffer per slot. The buffers are those of libshare
  (\<open>shbuf\<close>); a buffer is its contents, a \<open>NULL\<close> buffer is \<^term>\<open>None\<close>, and the two operations
  that compute contents, \<open>shbuf_cat\<close> and \<open>shbuf_trim\<close>, are arguments.
\<close>

definition MAX_DESCRIPTORS :: int where "MAX_DESCRIPTORS = 4096"
definition MAX_UNET_SOCKETS :: int where "MAX_UNET_SOCKETS = 4096"

definition DF_FILE :: u32 where "DF_FILE = 1"
definition DF_SOCK :: u32 where "DF_SOCK = 2"
definition DF_SERVICE :: u32 where "DF_SERVICE = 4"
definition DF_SHUTDOWN :: u32 where "DF_SHUTDOWN = 8"
definition DF_PEER_SCAN :: u32 where "DF_PEER_SCAN = 16"
definition DF_INBOUND :: u32 where "DF_INBOUND = 32"
definition DF_LISTEN :: u32 where "DF_LISTEN = 64"
definition DF_MAP :: u32 where "DF_MAP = 128"
definition DF_SYNC :: u32 where "DF_SYNC = 256"
definition DF_ESL :: u32 where "DF_ESL = 512"

lemmas df_defs = DF_FILE_def DF_SOCK_def DF_SERVICE_def DF_SHUTDOWN_def DF_PEER_SCAN_def
  DF_INBOUND_def DF_LISTEN_def DF_MAP_def DF_SYNC_def DF_ESL_def

record desc_t =
  d_mode :: int
  d_flag :: u32
  d_total :: int
  d_cstamp :: u64
  d_stamp :: u64
  d_rbuff :: "u8 list option"
  d_wbuff :: "u8 list option"
  d_addr :: "u8 list"

definition zero_desc :: desc_t where
  "zero_desc = \<lparr>d_mode = 0, d_flag = 0, d_total = 0, d_cstamp = 0, d_stamp = 0,
     d_rbuff = None, d_wbuff = None, d_addr = replicate 16 0\<rparr>"

text \<open>
  The static variables: the table pointer (\<^term>\<open>None\<close> is \<open>NULL\<close>) and the three counters.
\<close>

record world = os +
  w_desc :: "(nat \<Rightarrow> desc_t) option"
  w_tclaim :: u64
  w_tmark :: u64
  w_trelease :: u64

section \<open>Operations\<close>

definition desc_table :: "world \<Rightarrow> nat \<Rightarrow> desc_t" where
  "desc_table w = (case w_desc w of None \<Rightarrow> (\<lambda>_. zero_desc) | Some t \<Rightarrow> t)"

definition desc_set :: "nat \<Rightarrow> desc_t \<Rightarrow> world \<Rightarrow> world" where
  "desc_set n d w = w\<lparr>w_desc := Some ((desc_table w)(n := d))\<rparr>"

text \<open>
  \<open>descriptor_claim\<close> returns the slot (here its number) or \<open>NULL\<close>. The \<open>memset\<close> in it clears
  \<open>sizeof(d)\<close> bytes of the slot, the size of a pointer: the two leading \<open>int\<close> fields, which are
  assigned next. \<^term>\<open>None\<close> is an access below the table.
\<close>

definition descriptor_claim ::
    "env \<Rightarrow> int \<Rightarrow> int \<Rightarrow> u32 \<Rightarrow> world \<Rightarrow> (nat option \<times> world) option" where
  "descriptor_claim e fd mode flag w =
     (if fd \<ge> MAX_DESCRIPTORS then Some (None, w)
      else if fd < 0 then None
      else
        let d = desc_table w (nat fd);
            d = (if d_flag d \<noteq> 0 then d\<lparr>d_wbuff := None, d_rbuff := None\<rparr> else d);
            flag = (case os_fstat e w fd of
                      Inl _ \<Rightarrow> flag
                    | Inr FSock \<Rightarrow> flag OR DF_SOCK
                    | Inr (FReg _) \<Rightarrow> flag OR DF_FILE
                    | Inr FOther \<Rightarrow> flag);
            d = d\<lparr>d_mode := mode, d_flag := flag, d_cstamp := e_shtime e, d_stamp := e_undef e\<rparr>;
            d = (if flag AND DF_SOCK \<noteq> 0
                 then d\<lparr>d_addr := (case e_shaddr e fd of None \<Rightarrow> replicate 16 0 | Some a \<Rightarrow> a)\<rparr>
                 else d)
        in Some (Some (nat fd), (desc_set (nat fd) d w)\<lparr>w_tclaim := w_tclaim w + 1\<rparr>))"

definition descriptor_mark :: "env \<Rightarrow> int \<Rightarrow> world \<Rightarrow> (nat option \<times> world) option" where
  "descriptor_mark e fd w =
     (if fd \<ge> MAX_DESCRIPTORS then Some (None, w)
      else if fd < 0 then None
      else
        let w = w\<lparr>w_desc := Some (desc_table w)\<rparr>;
            d = desc_table w (nat fd)
        in if d_flag d = 0 then Some (None, w)
           else Some (Some (nat fd),
             (desc_set (nat fd) (d\<lparr>d_total := d_total d + 1, d_stamp := e_shtime e\<rparr>) w)
               \<lparr>w_tmark := w_tmark w + 1\<rparr>))"

text \<open>\<open>shnet_close\<close> and \<open>close\<close> both give the descriptor number back.\<close>

definition descriptor_release :: "env \<Rightarrow> int \<Rightarrow> world \<Rightarrow> world option" where
  "descriptor_release e fd w =
     (if fd \<ge> MAX_UNET_SOCKETS then Some w
      else if fd < 0 then None
      else
        let w = (case os_fstat e w fd of Inl _ \<Rightarrow> w | Inr _ \<Rightarrow> os_close fd w)
        in Some ((desc_set (nat fd) zero_desc w)\<lparr>w_trelease := w_trelease w + 1\<rparr>))"

text \<open>
  \<open>descriptor_get\<close> and the buffer operations do not allocate the table: with no table yet they
  read through a \<open>NULL\<close> pointer.
\<close>

definition descriptor_get :: "int \<Rightarrow> world \<Rightarrow> nat option option" where
  "descriptor_get fd w =
     (if fd \<ge> MAX_UNET_SOCKETS then Some None
      else if fd < 0 then None
      else case w_desc w of None \<Rightarrow> None
           | Some t \<Rightarrow> Some (if d_flag (t (nat fd)) = 0 then None else Some (nat fd)))"

definition descriptor_rbuff_add ::
    "(u8 list \<Rightarrow> u8 list \<Rightarrow> u8 list) \<Rightarrow> int \<Rightarrow> u8 list \<Rightarrow> world \<Rightarrow> world option" where
  "descriptor_rbuff_add shbuf_cat fd data w =
     (if fd \<ge> MAX_UNET_SOCKETS then Some w
      else if fd < 0 then None
      else case w_desc w of None \<Rightarrow> None
           | Some t \<Rightarrow>
               let d = t (nat fd) in
               if d_flag d = 0 then Some w
               else Some (desc_set (nat fd)
                 (d\<lparr>d_rbuff := Some (shbuf_cat (case d_rbuff d of None \<Rightarrow> [] | Some b \<Rightarrow> b) data)\<rparr>) w))"

definition descriptor_wbuff_add ::
    "(u8 list \<Rightarrow> u8 list \<Rightarrow> u8 list) \<Rightarrow> int \<Rightarrow> u8 list \<Rightarrow> world \<Rightarrow> world option" where
  "descriptor_wbuff_add shbuf_cat fd data w =
     (if fd \<ge> MAX_DESCRIPTORS then Some w
      else if fd < 0 then None
      else case w_desc w of None \<Rightarrow> None
           | Some t \<Rightarrow>
               let d = t (nat fd) in
               if d_flag d = 0 then Some w
               else Some (desc_set (nat fd)
                 (d\<lparr>d_wbuff := Some (shbuf_cat (case d_wbuff d of None \<Rightarrow> [] | Some b \<Rightarrow> b) data)\<rparr>) w))"

text \<open>
  \<open>descriptor_rbuff\<close> and \<open>descriptor_wbuff\<close> return the buffer, creating an empty one in a slot in
  use; the result is \<open>NULL\<close> (\<^term>\<open>None\<close> inside) for a slot not in use.
\<close>

definition descriptor_rbuff :: "int \<Rightarrow> world \<Rightarrow> (u8 list option \<times> world) option" where
  "descriptor_rbuff fd w =
     (if fd \<ge> MAX_UNET_SOCKETS then Some (None, w)
      else if fd < 0 then None
      else case w_desc w of None \<Rightarrow> None
           | Some t \<Rightarrow>
               let d = t (nat fd) in
               if d_flag d = 0 then Some (None, w)
               else let b = (case d_rbuff d of None \<Rightarrow> [] | Some b \<Rightarrow> b)
                    in Some (Some b, desc_set (nat fd) (d\<lparr>d_rbuff := Some b\<rparr>) w))"

definition descriptor_wbuff :: "int \<Rightarrow> world \<Rightarrow> (u8 list option \<times> world) option" where
  "descriptor_wbuff fd w =
     (if fd \<ge> MAX_UNET_SOCKETS then Some (None, w)
      else if fd < 0 then None
      else case w_desc w of None \<Rightarrow> None
           | Some t \<Rightarrow>
               let d = t (nat fd) in
               if d_flag d = 0 then Some (None, w)
               else let b = (case d_wbuff d of None \<Rightarrow> [] | Some b \<Rightarrow> b)
                    in Some (Some b, desc_set (nat fd) (d\<lparr>d_wbuff := Some b\<rparr>) w))"

text \<open>
  \<open>descriptor_flag_str\<close>: the labels of the set flags, separated by blanks. The label array has
  \<open>MAX_DESCRIPTOR_FLAGS\<close> entries while the loop tests 32 bits; \<^term>\<open>None\<close> is a read past it.
\<close>

definition descriptor_flag_label :: "string list" where
  "descriptor_flag_label = [''file'', ''sock'', ''service'', ''shutdown'', ''peer-scan'',
     ''inbound'', ''listen'', ''map'', ''sync'', ''esl'']"

fun flag_str_from :: "nat \<Rightarrow> nat \<Rightarrow> u32 \<Rightarrow> string \<Rightarrow> string option" where
  "flag_str_from i 0 flag buf = Some buf"
| "flag_str_from i (Suc n) flag buf =
     (if bit flag i
      then if i < length descriptor_flag_label
           then flag_str_from (Suc i) n flag
                  ((if buf = [] then buf else buf @ '' '') @ descriptor_flag_label ! i)
           else None
      else flag_str_from (Suc i) n flag buf)"

definition descriptor_flag_str :: "u32 \<Rightarrow> string option" where
  "descriptor_flag_str flag = flag_str_from 0 32 flag []"


section \<open>What the operations do\<close>

definition slot_fd :: "int \<Rightarrow> bool" where
  "slot_fd fd \<longleftrightarrow> 0 \<le> fd \<and> fd < MAX_DESCRIPTORS"

lemma socket_limits [simp]: "MAX_UNET_SOCKETS = 4096" "MAX_DESCRIPTORS = 4096"
  by (simp_all add: MAX_UNET_SOCKETS_def MAX_DESCRIPTORS_def)

lemma desc_table_set [simp]: "desc_table (desc_set n d w) = (desc_table w)(n := d)"
  by (simp add: desc_table_def desc_set_def)

lemma desc_table_upd [simp]:
  "desc_table (w\<lparr>w_tclaim := a\<rparr>) = desc_table w" "desc_table (w\<lparr>w_tmark := a\<rparr>) = desc_table w"
  "desc_table (w\<lparr>w_trelease := a\<rparr>) = desc_table w" "desc_table (w\<lparr>w_fd := x\<rparr>) = desc_table w"
  "desc_table (os_close fd w) = desc_table w"
  by (simp_all add: desc_table_def os_close_def)

lemma w_desc_set [simp]: "w_desc (desc_set n d w) = Some ((desc_table w)(n := d))"
  by (simp add: desc_set_def)

lemma w_desc_table: "w_desc w \<noteq> None \<Longrightarrow> w_desc w = Some (desc_table w)"
  by (auto simp: desc_table_def)

lemma w_desc_close [simp]: "w_desc (os_close fd w) = w_desc w"
  by (simp add: os_close_def)

lemma descriptor_get_ok:
  assumes "w_desc w \<noteq> None" and "slot_fd fd"
  shows "descriptor_get fd w = Some (if d_flag (desc_table w (nat fd)) = 0 then None else Some (nat fd))"
  using assms by (auto simp: descriptor_get_def slot_fd_def desc_table_def split: option.splits)

lemma w_fd_desc_set [simp]: "w_fd (desc_set n d w) = w_fd w"
  by (simp add: desc_set_def)

text \<open>The slot a claim leaves, as the source computes it from the slot before.\<close>

definition claimed :: "env \<Rightarrow> int \<Rightarrow> int \<Rightarrow> u32 \<Rightarrow> fdobj option \<Rightarrow> desc_t \<Rightarrow> desc_t" where
  "claimed e fd mode flag ob d =
     (let fl = (case ob of Some FSock \<Rightarrow> flag OR DF_SOCK | Some (FReg _) \<Rightarrow> flag OR DF_FILE | _ \<Rightarrow> flag)
      in \<lparr>d_mode = mode, d_flag = fl, d_total = d_total d, d_cstamp = e_shtime e, d_stamp = e_undef e,
          d_rbuff = (if d_flag d = 0 then d_rbuff d else None),
          d_wbuff = (if d_flag d = 0 then d_wbuff d else None),
          d_addr = (if fl AND DF_SOCK \<noteq> 0
                    then case e_shaddr e fd of None \<Rightarrow> replicate 16 0 | Some a \<Rightarrow> a else d_addr d)\<rparr>)"

definition fd_obj :: "env \<Rightarrow> world \<Rightarrow> int \<Rightarrow> fdobj option" where
  "fd_obj e w fd = (case os_fstat e w fd of Inl _ \<Rightarrow> None | Inr x \<Rightarrow> Some x)"

lemma descriptor_claim_ok:
  assumes "slot_fd fd"
  shows "\<exists>w'. descriptor_claim e fd mode flag w = Some (Some (nat fd), w') \<and> w_desc w' \<noteq> None \<and>
    desc_table w' = (desc_table w)(nat fd := claimed e fd mode flag (fd_obj e w fd) (desc_table w (nat fd))) \<and>
    w_fd w' = w_fd w \<and> w_file w' = w_file w"
  using assms
  by (auto simp: descriptor_claim_def slot_fd_def claimed_def fd_obj_def Let_def desc_set_def desc_table_def
      split: sum.splits fdobj.splits)

lemma descriptor_release_slot:
  assumes "slot_fd fd"
  shows "\<exists>w'. descriptor_release e fd w = Some w' \<and> w_desc w' \<noteq> None \<and>
    desc_table w' = (desc_table w)(nat fd := zero_desc) \<and> w_file w' = w_file w \<and>
    w_fd w' = (if fd_obj e w fd = None then w_fd w else (w_fd w)[nat fd := None])"
  using assms
  by (auto simp: descriptor_release_def slot_fd_def fd_obj_def Let_def desc_set_def desc_table_def
      os_close_def split: sum.splits)

lemma descriptor_mark_ok:
  assumes "slot_fd fd" and "d_flag (desc_table w (nat fd)) \<noteq> 0"
  shows "\<exists>w'. descriptor_mark e fd w = Some (Some (nat fd), w') \<and> w_desc w' \<noteq> None \<and>
    desc_table w' = (desc_table w)(nat fd := (desc_table w (nat fd))
      \<lparr>d_total := d_total (desc_table w (nat fd)) + 1, d_stamp := e_shtime e\<rparr>) \<and>
    w_fd w' = w_fd w \<and> w_file w' = w_file w"
  using assms
  by (auto simp: descriptor_mark_def slot_fd_def Let_def desc_set_def desc_table_def split: option.splits)

text \<open>The contents of a buffer; \<open>NULL\<close> has none.\<close>

definition buf :: "u8 list option \<Rightarrow> u8 list" where
  "buf b = (case b of None \<Rightarrow> [] | Some x \<Rightarrow> x)"

lemma buf_simps [simp]: "buf None = []" "buf (Some x) = x"
  by (simp_all add: buf_def)

lemma descriptor_rbuff_add_ok:
  assumes "slot_fd fd" and "w_desc w \<noteq> None" and "d_flag (desc_table w (nat fd)) \<noteq> 0"
  shows "descriptor_rbuff_add cat fd data w = Some (desc_set (nat fd) ((desc_table w (nat fd))
    \<lparr>d_rbuff := Some (cat (buf (d_rbuff (desc_table w (nat fd)))) data)\<rparr>) w)"
  using assms by (auto simp: descriptor_rbuff_add_def slot_fd_def buf_def Let_def desc_table_def)

lemma descriptor_wbuff_add_ok:
  assumes "slot_fd fd" and "w_desc w \<noteq> None" and "d_flag (desc_table w (nat fd)) \<noteq> 0"
  shows "descriptor_wbuff_add cat fd data w = Some (desc_set (nat fd) ((desc_table w (nat fd))
    \<lparr>d_wbuff := Some (cat (buf (d_wbuff (desc_table w (nat fd)))) data)\<rparr>) w)"
  using assms by (auto simp: descriptor_wbuff_add_def slot_fd_def buf_def Let_def desc_table_def)

lemma descriptor_rbuff_ok:
  assumes "slot_fd fd" and "w_desc w \<noteq> None" and "d_flag (desc_table w (nat fd)) \<noteq> 0"
  shows "\<exists>w'. descriptor_rbuff fd w = Some (Some (buf (d_rbuff (desc_table w (nat fd)))), w')"
  using assms by (auto simp: descriptor_rbuff_def slot_fd_def buf_def Let_def desc_table_def)

lemma descriptor_wbuff_ok:
  assumes "slot_fd fd" and "w_desc w \<noteq> None" and "d_flag (desc_table w (nat fd)) \<noteq> 0"
  shows "\<exists>w'. descriptor_wbuff fd w = Some (Some (buf (d_wbuff (desc_table w (nat fd)))), w')"
  using assms by (auto simp: descriptor_wbuff_def slot_fd_def buf_def Let_def desc_table_def)

end
