(* ===== verification/Bc_Fmap.thy ===== *)
theory Bc_Fmap
  imports Descriptor
begin

text \<open>
  File maps, \<^verbatim>\<open>blockchain/bc_fmap.c\<close>: a file of the block-chain directory, opened on demand,
  memory-mapped and grown in blocks of \<open>BC_MAP_BLOCK_SIZE\<close> bytes, with a 16-byte header whose
  field \<open>of\<close> is the number of content bytes in use. The name of the chain (\<open>bc->name\<close>) and the map
  are arguments, the process state is the \<^typ>\<open>world\<close>. A mapping is shared, so that \<open>hdr\<close> and
  \<open>raw\<close> are the header and the content of the mapped file itself: \<open>m_hdr\<close> is \<open>NULL\<close> or the file
  the pointers refer to. \<^term>\<open>None\<close> is a memory access outside the mapping.
\<close>

definition BC_MAP_BLOCK_SIZE :: nat where "BC_MAP_BLOCK_SIZE = 16384"
definition BCMAP_IDLE_TIME :: int where "BCMAP_IDLE_TIME = 300"

record bc_map =
  m_fd :: int
  m_size :: nat
  m_stamp :: int
  m_ext :: string
  m_hdr :: "path option"

definition zero_map :: bc_map where
  "zero_map = \<lparr>m_fd = 0, m_size = 0, m_stamp = 0, m_ext = [], m_hdr = None\<rparr>"

section \<open>Coin interfaces\<close>

text \<open>
  \<open>GetCoinByIndex\<close> of \<^verbatim>\<open>proto/coin_proto.c\<close> (in a build without \<open>TEST_SHCOIND\<close>) over the names
  of the interface table, and \<open>bc_iface_index\<close>, which compares a name's prefix.
\<close>

definition MAX_COIN_IFACE :: int where "MAX_COIN_IFACE = 4"

definition iface_table :: "string list" where
  "iface_table = [''test'', ''shc'', ''usde'', ''emc2'']"

definition GetCoinByIndex :: "int \<Rightarrow> string option" where
  "GetCoinByIndex index =
     (if index < 0 \<or> index \<ge> MAX_COIN_IFACE then None
      else if index = 0 then None
      else Some (iface_table ! nat index))"

definition strncmp_eq :: "string \<Rightarrow> string \<Rightarrow> nat \<Rightarrow> bool" where
  "strncmp_eq a b n \<longleftrightarrow> take n a = take n b"

fun bc_iface_index_from :: "nat \<Rightarrow> int \<Rightarrow> string \<Rightarrow> int" where
  "bc_iface_index_from 0 idx name = 0"
| "bc_iface_index_from (Suc n) idx name =
     (case GetCoinByIndex idx of
        None \<Rightarrow> 0
      | Some nm \<Rightarrow> if strncmp_eq nm name (length nm) then idx
                   else bc_iface_index_from n (idx + 1) name)"

definition bc_iface_index :: "string \<Rightarrow> int" where
  "bc_iface_index name = bc_iface_index_from 3 1 name"

section \<open>Opening and growing a map\<close>

definition bc_path_base :: "env \<Rightarrow> path" where
  "bc_path_base e = e_base e @ ''/blockchain''"

definition bc_map_path :: "env \<Rightarrow> string \<Rightarrow> bc_map \<Rightarrow> path" where
  "bc_map_path e nm m = bc_path_base e @ ''/'' @ nm @ ''.'' @ m_ext m"

definition bc_map_open_body ::
    "env \<Rightarrow> string \<Rightarrow> bc_map \<Rightarrow> world \<Rightarrow> (int \<times> bc_map \<times> world) option" where
  "bc_map_open_body e nm m w =
     (if m_fd m \<noteq> 0
      then do { (_, w) \<leftarrow> descriptor_mark e (m_fd m) w; Some (0, m, w) }
      else
        let p = bc_map_path e nm m;
            (fd, w) = os_open e p w
        in if fd < 0 then Some (fd, m, w)
           else case os_fstat e w fd of
             Inl errno \<Rightarrow> Some (- int errno, m, os_close fd w)
           | Inr _ \<Rightarrow>
             if \<not> e_isreg e p then Some (SHERR_ISDIR, m, os_close fd w)
             else
               let f = file_at w p;
                   fresh = (f_size f < 16 \<or> f_magic f \<noteq> e_magic e)
               in if fresh \<and> e_trunc e p BC_MAP_BLOCK_SIZE \<noteq> 0
                  then Some (- int (e_trunc e p BC_MAP_BLOCK_SIZE), m, os_close fd w)
                  else
                    let w = (if fresh
                             then file_upd p ((file_trunc BC_MAP_BLOCK_SIZE f)
                               \<lparr>f_stamp := e_shtime e, f_magic := e_magic e, f_of := 0\<rparr>) w
                             else w);
                        m = m\<lparr>m_fd := fd, m_size := f_size (file_at w p), m_hdr := None\<rparr>
                    in do { (_, w) \<leftarrow> descriptor_claim e fd (bc_iface_index nm) DF_MAP w;
                            Some (0, m, w) })"

definition bc_map_open ::
    "env \<Rightarrow> string \<Rightarrow> bc_map \<Rightarrow> world \<Rightarrow> (int \<times> bc_map \<times> world) option" where
  "bc_map_open e nm m w =
     (if \<not> lock_ok e then Some (SHERR_NOLCK, m, w) else bc_map_open_body e nm m w)"

definition bc_map_free :: "env \<Rightarrow> bc_map \<Rightarrow> bc_map" where
  "bc_map_free e m =
     (if m_hdr m \<noteq> None \<and> lock_ok e then m\<lparr>m_hdr := None, m_size := 0\<rparr> else m)"

text \<open>\<open>ftruncate\<close> refuses a descriptor that is not a regular file.\<close>

definition EINVAL :: nat where "EINVAL = 22"

text \<open>
  The size a map is enlarged to: \<open>size\<close> is a 32-bit \<open>bcsize_t\<close>, assigned three times.
\<close>

definition bc_map_grow_size :: "nat \<Rightarrow> u32 \<Rightarrow> u32" where
  "bc_map_grow_size st_size len =
     (let size = of_nat (st_size + unat len);
          size = size + size div 10
      in (size div 16384 + 1) * 16384)"

definition bc_map_alloc_body ::
    "env \<Rightarrow> string \<Rightarrow> bc_map \<Rightarrow> u32 \<Rightarrow> world \<Rightarrow> (int \<times> bc_map \<times> world) option" where
  "bc_map_alloc_body e nm m len w = do {
     (err, m, w) \<leftarrow> bc_map_open e nm m w;
     if err \<noteq> 0 then Some (err, m, w)
     else case os_fstat e w (m_fd m) of
       Inl errno \<Rightarrow> Some (- int errno, m, w)
     | Inr (FReg p) \<Rightarrow>
       let f = file_at w p;
           st_size = f_size f;
           map_of = (case m_hdr m of
                       None \<Rightarrow> (if st_size < 16 then 0 else f_of f)
                     | Some q \<Rightarrow> f_of (file_at w q));
           need = 16 + unat map_of + unat len
       in if m_hdr m \<noteq> None \<and> need < st_size then Some (0, m, w)
          else
            let m = (if m_hdr m \<noteq> None then bc_map_free e m else m);
                grow = (need \<ge> st_size);
                size = (if grow then bc_map_grow_size st_size len
                        else of_nat (st_size div BC_MAP_BLOCK_SIZE * BC_MAP_BLOCK_SIZE));
                errno = (if grow then e_trunc e p (unat size) else 0)
            in if errno \<noteq> 0 then Some (- int errno, m, w)
               else
                 let w = (if grow then file_upd p (file_trunc (unat size) f) w else w)
                 in if \<not> e_mmap e p (unat size) then Some (SHERR_NOMEM, m, w)
                    else Some (0, m\<lparr>m_hdr := Some p, m_size := unat size\<rparr>, w)
     | Inr _ \<Rightarrow> Some (- int EINVAL, bc_map_free e m, w) }"

definition bc_map_alloc ::
    "env \<Rightarrow> string \<Rightarrow> bc_map \<Rightarrow> u32 \<Rightarrow> world \<Rightarrow> (int \<times> bc_map \<times> world) option" where
  "bc_map_alloc e nm m len w =
     (if \<not> lock_ok e then Some (SHERR_NOLCK, m, w) else bc_map_alloc_body e nm m len w)"

section \<open>Access through the mapping\<close>

text \<open>
  A content range is accessible when a file is mapped and the range, which starts 16 bytes into
  the mapping, ends inside it.
\<close>

definition map_file :: "world \<Rightarrow> bc_map \<Rightarrow> ufile option" where
  "map_file w m = (case m_hdr m of None \<Rightarrow> None | Some p \<Rightarrow> w_file w p)"

definition map_inside :: "world \<Rightarrow> bc_map \<Rightarrow> nat \<Rightarrow> nat \<Rightarrow> bool" where
  "map_inside w m off n \<longleftrightarrow>
     (case map_file w m of None \<Rightarrow> False
      | Some f \<Rightarrow> 16 + off + n \<le> m_size m \<and> 16 + off + n \<le> f_size f)"

definition map_load :: "world \<Rightarrow> bc_map \<Rightarrow> nat \<Rightarrow> nat \<Rightarrow> u8 list option" where
  "map_load w m off n =
     (if map_inside w m off n
      then map_option (\<lambda>f. mem_load (f_raw f) off n) (map_file w m) else None)"

definition map_store :: "bc_map \<Rightarrow> nat \<Rightarrow> u8 list \<Rightarrow> world \<Rightarrow> world option" where
  "map_store m off bs w =
     (if map_inside w m off (length bs)
      then map_option (\<lambda>f. file_upd (the (m_hdr m)) (f\<lparr>f_raw := mem_store (f_raw f) off bs\<rparr>) w)
             (map_file w m)
      else None)"

definition hdr_of :: "world \<Rightarrow> bc_map \<Rightarrow> u32 option" where
  "hdr_of w m = map_option f_of (map_file w m)"

definition hdr_of_set :: "bc_map \<Rightarrow> u32 \<Rightarrow> world \<Rightarrow> world option" where
  "hdr_of_set m v w =
     map_option (\<lambda>f. file_upd (the (m_hdr m)) (f\<lparr>f_of := v\<rparr>) w) (map_file w m)"

definition bc_map_trunc_body ::
    "env \<Rightarrow> string \<Rightarrow> bc_map \<Rightarrow> u32 \<Rightarrow> world \<Rightarrow> (int \<times> bc_map \<times> world) option" where
  "bc_map_trunc_body e nm m len w = do {
     (err, m, w) \<leftarrow> bc_map_alloc e nm m 0 w;
     if err \<noteq> 0 then Some (err, m, w)
     else do {
       h \<leftarrow> hdr_of w m;
       w \<leftarrow> (if len < h then hdr_of_set m len w else Some w);
       Some (0, m, w) } }"

definition bc_map_trunc ::
    "env \<Rightarrow> string \<Rightarrow> bc_map \<Rightarrow> u32 \<Rightarrow> world \<Rightarrow> (int \<times> bc_map \<times> world) option" where
  "bc_map_trunc e nm m len w =
     (if \<not> lock_ok e then Some (SHERR_NOLCK, m, w) else bc_map_trunc_body e nm m len w)"

definition bc_map_close ::
    "env \<Rightarrow> bc_map \<Rightarrow> world \<Rightarrow> (bc_map \<times> world) option" where
  "bc_map_close e m w =
     (if \<not> lock_ok e then Some (m, w)
      else do {
        (m, w) \<leftarrow> (if m_fd m \<noteq> 0
                   then do { w \<leftarrow> descriptor_release e (m_fd m) w; Some (m\<lparr>m_fd := 0\<rparr>, w) }
                   else Some (m, w));
        Some (bc_map_free e m, w) })"

text \<open>
  \<open>data_len\<close> is the length of the caller's buffer, converted to a 32-bit \<open>bcsize_t\<close>.
\<close>

definition bc_map_write_body ::
    "env \<Rightarrow> string \<Rightarrow> bc_map \<Rightarrow> u32 \<Rightarrow> u8 list \<Rightarrow> world \<Rightarrow> (int \<times> bc_map \<times> world) option" where
  "bc_map_write_body e nm m off data w =
     (let data_len = of_nat (length data) :: u32 in do {
     (err, m, w) \<leftarrow> bc_map_alloc e nm m data_len w;
     if err \<noteq> 0 then Some (err, m, w)
     else do {
       w \<leftarrow> map_store m (unat off) (take (unat data_len) data) w;
       h \<leftarrow> hdr_of w m;
       w \<leftarrow> hdr_of_set m (max h (off + data_len)) w;
       Some (0, m\<lparr>m_stamp := e_time e\<rparr>, w) } })"

definition bc_map_write ::
    "env \<Rightarrow> string \<Rightarrow> bc_map \<Rightarrow> u32 \<Rightarrow> u8 list \<Rightarrow> world \<Rightarrow> (int \<times> bc_map \<times> world) option" where
  "bc_map_write e nm m off data w =
     (if \<not> lock_ok e then Some (SHERR_NOLCK, m, w) else bc_map_write_body e nm m off data w)"

definition bc_map_append_body ::
    "env \<Rightarrow> string \<Rightarrow> bc_map \<Rightarrow> u8 list \<Rightarrow> world \<Rightarrow> (int \<times> bc_map \<times> world) option" where
  "bc_map_append_body e nm m data w = do {
     (err, m, w) \<leftarrow> bc_map_alloc e nm m (of_nat (length data)) w;
     if err \<noteq> 0 then Some (err, m, w)
     else do { h \<leftarrow> hdr_of w m; bc_map_write e nm m h data w } }"

definition bc_map_append ::
    "env \<Rightarrow> string \<Rightarrow> bc_map \<Rightarrow> u8 list \<Rightarrow> world \<Rightarrow> (int \<times> bc_map \<times> world) option" where
  "bc_map_append e nm m data w =
     (if \<not> lock_ok e then Some (SHERR_NOLCK, m, w) else bc_map_append_body e nm m data w)"

text \<open>\<open>bc_map_read\<close>: the code, the bytes copied when there are any, and the map.\<close>

definition bc_map_read_body ::
    "env \<Rightarrow> bc_map \<Rightarrow> u32 \<Rightarrow> u32 \<Rightarrow> world \<Rightarrow> (int \<times> u8 list option \<times> bc_map) option" where
  "bc_map_read_body e m data_of data_len w = do {
     h \<leftarrow> hdr_of w m;
     if data_of + data_len \<ge> h then Some (SHERR_INVAL, None, m)
     else do {
       bs \<leftarrow> map_load w m (unat data_of) (unat data_len);
       Some (0, Some bs, m\<lparr>m_stamp := e_time e\<rparr>) } }"

definition bc_map_read ::
    "env \<Rightarrow> bc_map \<Rightarrow> u32 \<Rightarrow> u32 \<Rightarrow> world \<Rightarrow> (int \<times> u8 list option \<times> bc_map) option" where
  "bc_map_read e m data_of data_len w =
     (if lock_ok e then bc_map_read_body e m data_of data_len w else Some (0, None, m))"

definition bc_map_idle :: "env \<Rightarrow> bc_map \<Rightarrow> world \<Rightarrow> (int \<times> bc_map \<times> world) option" where
  "bc_map_idle e m w =
     (if m_stamp m + BCMAP_IDLE_TIME > e_time e then Some (1, m, w)
      else if lock_ok e then do { (m, w) \<leftarrow> bc_map_close e m w; Some (0, m, w) }
      else Some (0, m, w))"

definition bc_fmap_total :: "bc_map list \<Rightarrow> nat" where
  "bc_fmap_total maps = length (filter (\<lambda>m. m_fd m \<noteq> 0) maps)"


section \<open>Well-formed maps\<close>

text \<open>
  \<open>os_ok\<close>: the lock is obtained and no system call fails. \<open>file_ok\<close>: what the code keeps of a
  file: its magic number, a size that is a positive multiple of the block size and fits the
  32-bit \<open>bcsize_t\<close>, the used content inside the file. \<open>map_ok\<close>: an open map's descriptor
  refers to its file, and a mapping covers that whole file.
\<close>

definition os_ok :: "env \<Rightarrow> bool" where
  "os_ok e \<longleftrightarrow> lock_ok e \<and> (\<forall>p. e_open e p = 0 \<and> e_isreg e p) \<and> (\<forall>fd. e_fstat e fd = 0) \<and>
     (\<forall>p n. e_trunc e p n = 0 \<and> e_mmap e p n)"

definition file_ok :: "env \<Rightarrow> ufile \<Rightarrow> bool" where
  "file_ok e f \<longleftrightarrow> f_magic f = e_magic e \<and> f_size f mod 16384 = 0 \<and> 0 < f_size f \<and>
     f_size f < 4294967296 \<and> 16 + unat (f_of f) \<le> f_size f \<and>
     (\<forall>i. f_size f \<le> i + 16 \<longrightarrow> f_raw f i = 0)"

definition world_ok :: "env \<Rightarrow> world \<Rightarrow> bool" where
  "world_ok e w \<longleftrightarrow> (\<forall>p f. w_file w p = Some f \<longrightarrow> file_ok e f) \<and> fd_get w 0 \<noteq> None"

definition map_ok :: "env \<Rightarrow> string \<Rightarrow> bc_map \<Rightarrow> world \<Rightarrow> bool" where
  "map_ok e nm m w \<longleftrightarrow>
     (m_fd m \<noteq> 0 \<longrightarrow> 0 < m_fd m \<and> fd_get w (m_fd m) = Some (FReg (bc_map_path e nm m)) \<and>
        w_file w (bc_map_path e nm m) \<noteq> None) \<and>
     (m_hdr m \<noteq> None \<longrightarrow> m_fd m \<noteq> 0 \<and> m_hdr m = Some (bc_map_path e nm m) \<and>
        m_size m = f_size (file_at w (bc_map_path e nm m)))"

text \<open>
  The content of a file, whether or not a map has it open, and the worlds reached by operations
  on one file.
\<close>

definition fof :: "world \<Rightarrow> path \<Rightarrow> u32" where "fof w p = f_of (file_at w p)"
definition fraw :: "world \<Rightarrow> path \<Rightarrow> mem" where "fraw w p = f_raw (file_at w p)"
definition fsize :: "world \<Rightarrow> path \<Rightarrow> nat" where "fsize w p = f_size (file_at w p)"

definition touches :: "path \<Rightarrow> world \<Rightarrow> world \<Rightarrow> bool" where
  "touches p w w' \<longleftrightarrow>
     (\<forall>fd x. fd_get w fd = Some x \<longrightarrow> fd_get w' fd = Some x) \<and>
     (\<forall>q. q \<noteq> p \<longrightarrow> w_file w' q = w_file w q) \<and>
     (w_file w p \<noteq> None \<longrightarrow> w_file w' p \<noteq> None)"

lemma bc_map_path_upd [simp]:
  "bc_map_path e nm (m\<lparr>m_fd := a\<rparr>) = bc_map_path e nm m"
  "bc_map_path e nm (m\<lparr>m_size := b\<rparr>) = bc_map_path e nm m"
  "bc_map_path e nm (m\<lparr>m_stamp := c\<rparr>) = bc_map_path e nm m"
  "bc_map_path e nm (m\<lparr>m_hdr := d\<rparr>) = bc_map_path e nm m"
  by (simp_all add: bc_map_path_def)

lemma touches_refl [simp]: "touches p w w"
  by (simp add: touches_def)

lemma touches_trans: "touches p w w' \<Longrightarrow> touches p w' w'' \<Longrightarrow> touches p w w''"
  by (auto simp: touches_def)

lemma touches_other [frame_simps]:
  "touches p w w' \<Longrightarrow> q \<noteq> p \<Longrightarrow> fof w' q = fof w q"
  "touches p w w' \<Longrightarrow> q \<noteq> p \<Longrightarrow> fraw w' q = fraw w q"
  "touches p w w' \<Longrightarrow> q \<noteq> p \<Longrightarrow> fsize w' q = fsize w q"
  by (simp_all add: touches_def fof_def fraw_def fsize_def file_at_def)

lemma map_ok_touches:
  assumes "touches p w w'" and "map_ok e nm m w" and "bc_map_path e nm m \<noteq> p"
  shows "map_ok e nm m w'"
  using assms by (auto simp: map_ok_def touches_def file_at_def)

lemma file_trunc_sel [simp]:
  "f_size (file_trunc n f) = n" "f_of (file_trunc n f) = f_of f" "f_magic (file_trunc n f) = f_magic f"
  by (simp_all add: file_trunc_def)

lemma w_file_upd [simp]: "w_file (file_upd p f w) = (w_file w)(p \<mapsto> f)"
  by (simp add: file_upd_def)

lemma touches_file_upd [simp]: "touches p w (file_upd p f w)"
  by (simp add: touches_def file_upd_def fd_get_def)

lemma os_okD:
  assumes "os_ok e"
  shows "lock_ok e" "e_open e p = 0" "e_isreg e p" "e_fstat e fd = 0" "e_trunc e p n = 0"
    "e_mmap e p n"
  using assms by (auto simp: os_ok_def)

lemma w_file_desc [simp]:
  "w_file (desc_set n d w) = w_file w" "w_file (w\<lparr>w_desc := x\<rparr>) = w_file w"
  "w_file (w\<lparr>w_tclaim := y\<rparr>) = w_file w" "w_file (w\<lparr>w_tmark := y\<rparr>) = w_file w"
  "w_file (w\<lparr>w_trelease := y\<rparr>) = w_file w"
  by (simp_all add: desc_set_def)

lemma fd_get_desc [simp]:
  "fd_get (desc_set n d w) fd = fd_get w fd" "fd_get (w\<lparr>w_desc := x\<rparr>) fd = fd_get w fd"
  "fd_get (w\<lparr>w_tclaim := y\<rparr>) fd = fd_get w fd" "fd_get (w\<lparr>w_tmark := y\<rparr>) fd = fd_get w fd"
  "fd_get (w\<lparr>w_trelease := y\<rparr>) fd = fd_get w fd"
  by (simp_all add: fd_get_def desc_set_def)

text \<open>Claiming and marking a descriptor changes neither files nor the descriptors themselves.\<close>

definition desc_only :: "world \<Rightarrow> world \<Rightarrow> bool" where
  "desc_only w w' \<longleftrightarrow> w_file w' = w_file w \<and> w_fd w' = w_fd w"

lemma descriptor_claim_frame:
  "0 \<le> fd \<Longrightarrow> \<exists>r w'. descriptor_claim e fd mode flag w = Some (r, w') \<and> desc_only w w'"
  by (simp add: descriptor_claim_def Let_def desc_only_def desc_set_def)

lemma descriptor_mark_frame:
  "0 \<le> fd \<Longrightarrow> \<exists>r w'. descriptor_mark e fd w = Some (r, w') \<and> desc_only w w'"
  by (simp add: descriptor_mark_def Let_def desc_only_def desc_set_def)

lemma desc_onlyD:
  assumes "desc_only w w'"
  shows "w_file w' = w_file w" "fd_get w' fd = fd_get w fd" "file_at w' p = file_at w p"
    "fof w' p = fof w p" "fraw w' p = fraw w p" "fsize w' p = fsize w p"
    "world_ok e w' = world_ok e w" "map_ok e nm m w' = map_ok e nm m w"
    "touches p w0 w' = touches p w0 w"
  using assms
  by (simp_all add: desc_only_def fd_get_def file_at_def fof_def fraw_def fsize_def world_ok_def
      map_ok_def touches_def)

lemma file_ok_trunc:
  assumes "file_ok e f" and "f_size f \<le> n" and "n mod 16384 = 0" and "n < 4294967296"
  shows "file_ok e (file_trunc n f)" and "f_raw (file_trunc n f) = f_raw f"
  using assms by (auto simp: file_ok_def file_trunc_def)

lemma file_ok_fresh:
  "file_ok e ((file_trunc 16384 empty_file)\<lparr>f_stamp := s, f_magic := e_magic e, f_of := 0\<rparr>)"
  by (simp add: file_ok_def file_trunc_def empty_file_def)

lemma file_ok_size: "file_ok e f \<Longrightarrow> 16384 \<le> f_size f"
  by (auto simp: file_ok_def elim!: dvdE simp flip: dvd_eq_mod_eq_0)

lemma file_ok_magic: "file_ok e f \<Longrightarrow> f_magic f = e_magic e"
  by (simp add: file_ok_def)

lemma world_okD: "world_ok e w \<Longrightarrow> w_file w p = Some f \<Longrightarrow> file_ok e f"
  by (simp add: world_ok_def)

lemma fsize_ge: "world_ok e w \<Longrightarrow> w_file w p \<noteq> None \<Longrightarrow> 16384 \<le> fsize w p"
  by (cases "w_file w p") (auto simp: fsize_def file_at_def dest!: world_okD file_ok_size)

section \<open>What opening and allocating guarantee\<close>

definition map_post ::
    "env \<Rightarrow> string \<Rightarrow> bc_map \<Rightarrow> world \<Rightarrow> bc_map \<Rightarrow> world \<Rightarrow> bool" where
  "map_post e nm m w m' w' \<longleftrightarrow> world_ok e w' \<and> map_ok e nm m' w' \<and>
     touches (bc_map_path e nm m) w w' \<and> m_ext m' = m_ext m"

lemma map_post_path: "map_post e nm m w m' w' \<Longrightarrow> bc_map_path e nm m' = bc_map_path e nm m"
  by (simp add: map_post_def bc_map_path_def)

lemma map_post_trans:
  "map_post e nm m w m' w' \<Longrightarrow> map_post e nm m' w' m'' w'' \<Longrightarrow> map_post e nm m w m'' w''"
  by (auto simp: map_post_def bc_map_path_def intro: touches_trans)

lemma bc_map_open_ok:
  assumes os: "os_ok e" and wok: "world_ok e w" and mok: "map_ok e nm m w"
  shows "returns 0 (bc_map_open e nm m w) (\<lambda>(m', w'). map_post e nm m w m' w' \<and> m_fd m' \<noteq> 0 \<and>
     m_hdr m' = m_hdr m \<and>
     fof w' (bc_map_path e nm m) = fof w (bc_map_path e nm m) \<and>
     fraw w' (bc_map_path e nm m) = fraw w (bc_map_path e nm m) \<and>
     fsize w' (bc_map_path e nm m) = max 16384 (fsize w (bc_map_path e nm m)))"
proof (cases "m_fd m = 0")
  case False
  with mok have "0 \<le> m_fd m" by (simp add: map_ok_def)
  then obtain r w' where mark: "descriptor_mark e (m_fd m) w = Some (r, w')"
    and d: "desc_only w w'"
    using descriptor_mark_frame by blast
  from False mok wok have "16384 \<le> fsize w (bc_map_path e nm m)"
    by (auto simp: map_ok_def intro!: fsize_ge)
  with False os wok mok mark show ?thesis
    by (simp add: bc_map_open_def bc_map_open_body_def os_okD map_post_def desc_onlyD [OF d])
next
  case True
  let ?p = "bc_map_path e nm m"
  obtain fd w1 where op: "os_open e ?p w = (fd, w1)" by fastforce
  from op os have fd: "fd = int (first_free (w_fd w))" and fd0: "0 < fd"
    using wok by (auto simp: os_open_def os_okD world_ok_def first_free_pos)
  have get1: "fd_get w1 fd' = (if fd' = fd then Some (FReg ?p) else fd_get w fd')" for fd'
    using fd_get_open [OF op] fd0 by simp
  have file1: "w_file w1 q = (if q = ?p \<and> w_file w q = None then Some empty_file else w_file w q)" for q
    using op os by (auto simp: os_open_def os_okD split: option.splits)
  define f where "f = file_at w1 ?p"
  define fresh where "fresh = (f_size f < 16 \<or> f_magic f \<noteq> e_magic e)"
  define w2 where "w2 = (if fresh then file_upd ?p ((file_trunc BC_MAP_BLOCK_SIZE f)
     \<lparr>f_stamp := e_shtime e, f_magic := e_magic e, f_of := 0\<rparr>) w1 else w1)"
  have f: "f = (case w_file w ?p of None \<Rightarrow> empty_file | Some f \<Rightarrow> f)"
    by (simp add: f_def file_at_def file1 split: option.splits)
  have fresh: "fresh \<longleftrightarrow> w_file w ?p = None"
    using world_okD [OF wok, of ?p]
    by (cases "w_file w ?p") (auto simp: fresh_def f empty_file_def dest: file_ok_magic file_ok_size)
  obtain r w3 where claim: "descriptor_claim e fd (bc_iface_index nm) DF_MAP w2 = Some (r, w3)"
    and d: "desc_only w2 w3"
    using descriptor_claim_frame [of fd e "bc_iface_index nm" DF_MAP w2] fd0 by auto
  let ?m = "m\<lparr>m_fd := fd, m_size := f_size (file_at w2 ?p), m_hdr := None\<rparr>"
  have res: "bc_map_open e nm m w = Some (0, ?m, w3)"
    using True os op fd0 claim
    by (simp add: bc_map_open_def bc_map_open_body_def os_okD os_fstat_def get1 Let_def
        f_def [symmetric] fresh_def [symmetric] w2_def [symmetric])
  have get2: "fd_get w2 fd' = fd_get w1 fd'" for fd'
    by (simp add: w2_def)
  have file2: "w_file w2 q = (if q \<noteq> ?p then w_file w q else if w_file w ?p = None
     then Some ((file_trunc 16384 empty_file)\<lparr>f_stamp := e_shtime e, f_magic := e_magic e, f_of := 0\<rparr>)
     else w_file w ?p)" for q
    by (auto simp: w2_def fresh f file_upd_def file1 BC_MAP_BLOCK_SIZE_def)
  have wok2: "world_ok e w2"
    using wok fd0 by (auto simp: world_ok_def file2 get2 get1 file_ok_fresh split: if_splits)
  have t2: "touches ?p w w2"
    by (auto simp: touches_def get2 get1 file2 fd)
  have mok2: "map_ok e nm ?m w2"
    using fd0 by (auto simp: map_ok_def get2 get1 file2)
  have same: "fof w2 ?p = fof w ?p" "fraw w2 ?p = fraw w ?p"
    "fsize w2 ?p = max 16384 (fsize w ?p)"
    using wok fsize_ge [OF wok, of ?p]
    by (auto simp: fof_def fraw_def fsize_def file_at_def file2 empty_file_def file_trunc_def
        split: option.splits)
  have hdr: "m_hdr m = None"
    using mok True by (auto simp: map_ok_def)
  show ?thesis
    unfolding res using fd0 wok2 t2 mok2 same hdr by (simp add: map_post_def desc_onlyD [OF d])
qed


definition MAP_LIMIT :: nat where "MAP_LIMIT = 3900000000"

text \<open>Below the limit the three 32-bit assignments do not wrap and the map gets larger.\<close>

lemma bc_map_grow_size_ok:
  assumes "s + unat len \<le> MAP_LIMIT"
  shows "unat (bc_map_grow_size s len) = ((s + unat len + (s + unat len) div 10) div 16384 + 1) * 16384"
    and "s + unat len < unat (bc_map_grow_size s len)"
    and "unat (bc_map_grow_size s len) mod 16384 = 0"
    and "unat (bc_map_grow_size s len) \<le> s + unat len + (s + unat len) div 10 + 16384"
proof -
  let ?x = "s + unat len"
  have x: "unat (of_nat ?x :: u32) = ?x"
    using assms by (intro unat_of_nat_u32) (simp add: MAP_LIMIT_def)
  have y: "unat (of_nat ?x + of_nat ?x div 10 :: u32) = ?x + ?x div 10"
    using assms x by (subst unat_add_u32) (auto simp: unat_div MAP_LIMIT_def)
  have "unat ((of_nat ?x + of_nat ?x div 10) div 16384 + 1 :: u32) = (?x + ?x div 10) div 16384 + 1"
    using assms y by (subst unat_add_u32) (auto simp: unat_div MAP_LIMIT_def)
  then show z: "unat (bc_map_grow_size s len) = ((?x + ?x div 10) div 16384 + 1) * 16384"
    using assms by (simp add: bc_map_grow_size_def Let_def unat_word_ariths MAP_LIMIT_def)
  show "?x < unat (bc_map_grow_size s len)" "unat (bc_map_grow_size s len) mod 16384 = 0"
    unfolding z by simp_all
  show "unat (bc_map_grow_size s len) \<le> ?x + ?x div 10 + 16384"
    unfolding z by simp
qed


text \<open>
  \<open>room w p n\<close>: appending \<open>n\<close> bytes to the file fits its present size, or its size is small
  enough to be enlarged.
\<close>

definition room :: "world \<Rightarrow> path \<Rightarrow> nat \<Rightarrow> bool" where
  "room w p n \<longleftrightarrow> 16 + unat (fof w p) + n < fsize w p \<or> max 16384 (fsize w p) + n \<le> MAP_LIMIT"

definition grow_bound :: "nat \<Rightarrow> nat \<Rightarrow> nat" where
  "grow_bound used n = 16 + used + 2 * n + (16 + used + 2 * n) div 10 + 16384"

definition alloc_post ::
    "env \<Rightarrow> string \<Rightarrow> bc_map \<Rightarrow> world \<Rightarrow> nat \<Rightarrow> bc_map \<Rightarrow> world \<Rightarrow> bool" where
  "alloc_post e nm m w n m' w' \<longleftrightarrow>
     (let p = bc_map_path e nm m in
      map_post e nm m w m' w' \<and> m_hdr m' = Some p \<and> fof w' p = fof w p \<and> fraw w' p = fraw w p \<and>
      16 + unat (fof w p) + n < fsize w' p \<and> fsize w p \<le> fsize w' p \<and>
      fsize w' p \<le> max (max 16384 (fsize w p)) (grow_bound (unat (fof w p)) n))"

lemma file_ok_bounds:
  assumes "file_ok e f"
  shows "f_size f < 4294967296" "16 + unat (f_of f) \<le> f_size f" "f_size f mod 16384 = 0"
  using assms by (auto simp: file_ok_def)

lemma world_ok_upd:
  "world_ok e w \<Longrightarrow> file_ok e f \<Longrightarrow> world_ok e (file_upd p f w)"
  by (auto simp: world_ok_def file_upd_def fd_get_def split: if_splits)

lemma bc_map_alloc_ok:
  assumes os: "os_ok e" and wok: "world_ok e w" and mok: "map_ok e nm m w"
    and room: "room w (bc_map_path e nm m) (unat len)"
  shows "returns 0 (bc_map_alloc e nm m len w) (\<lambda>(m', w'). alloc_post e nm m w (unat len) m' w')"
proof -
  let ?p = "bc_map_path e nm m"
  obtain m1 w1 where op: "bc_map_open e nm m w = Some (0, m1, w1)"
    and post: "map_post e nm m w m1 w1" and fd1: "m_fd m1 \<noteq> 0"
    and same: "fof w1 ?p = fof w ?p" "fraw w1 ?p = fraw w ?p" "fsize w1 ?p = max 16384 (fsize w ?p)"
    using bc_map_open_ok [OF os wok mok] by (auto simp: returns_def)
  have path1: "bc_map_path e nm m1 = ?p" using post by (rule map_post_path)
  have wok1: "world_ok e w1" and mok1: "map_ok e nm m1 w1" and t1: "touches ?p w w1"
    and ext1: "m_ext m1 = m_ext m"
    using post by (auto simp: map_post_def)
  have st: "os_fstat e w1 (m_fd m1) = Inr (FReg ?p)"
    using mok1 fd1 os by (simp add: map_ok_def path1 os_fstat_def os_okD)
  obtain f where f: "w_file w1 ?p = Some f" and fok: "file_ok e f"
    using mok1 fd1 wok1 by (auto simp: map_ok_def path1 dest: world_okD)
  have f_at: "file_at w1 ?p = f" using f by (simp add: file_at_def)
  have fv: "f_of f = fof w ?p" "f_raw f = fraw w ?p" "f_size f = max 16384 (fsize w ?p)"
    using same by (simp_all add: fof_def fraw_def fsize_def f_at)
  have hdr1: "m_hdr m1 = Some q \<Longrightarrow> q = ?p \<and> m_size m1 = f_size f" for q
    using mok1 by (auto simp: map_ok_def path1 f_at)
  let ?need = "16 + unat (f_of f) + unat len"
  show ?thesis
  proof (cases "?need < f_size f")
    case True
    have sz: "f_size f div 16384 * 16384 = f_size f" "unat (of_nat (f_size f) :: u32) = f_size f"
      using file_ok_bounds [OF fok] by (auto simp: unat_of_nat_u32)
    let ?m2 = "if m_hdr m1 = None then m1\<lparr>m_hdr := Some ?p, m_size := f_size f\<rparr> else m1"
    have "bc_map_alloc e nm m len w = Some (0, ?m2, w1)"
      using True os op st fok sz
      by (auto simp: bc_map_alloc_def bc_map_alloc_body_def os_okD f_at Let_def
          BC_MAP_BLOCK_SIZE_def dest!: hdr1 dest: file_ok_size split: option.splits)
    moreover have "alloc_post e nm m w (unat len) ?m2 w1"
      using True mok1 wok1 t1 ext1 fd1 same hdr1
      by (auto simp: alloc_post_def map_post_def map_ok_def path1 f_at fv)
    ultimately show ?thesis by simp
  next
    case False
    with room fv have lim: "f_size f + unat len \<le> MAP_LIMIT"
      by (auto simp: room_def)
    let ?n = "unat (bc_map_grow_size (f_size f) len)"
    let ?w2 = "file_upd ?p (file_trunc ?n f) w1"
    let ?m2 = "m1\<lparr>m_hdr := Some ?p, m_size := ?n\<rparr>"
    note grow = bc_map_grow_size_ok [OF lim]
    have tr: "file_ok e (file_trunc ?n f)" "f_raw (file_trunc ?n f) = f_raw f"
      using file_ok_trunc [OF fok, of ?n] grow(2,3) unat_u32_bound by auto
    have "bc_map_alloc e nm m len w = Some (0, ?m2, ?w2)"
      using False os op st fok
      by (auto simp: bc_map_alloc_def bc_map_alloc_body_def bc_map_free_def os_okD f_at Let_def
          dest!: hdr1 dest: file_ok_size split: option.splits)
    moreover have "map_post e nm m w ?m2 ?w2"
      using mok1 ext1 fd1 touches_trans [OF t1 touches_file_upd] world_ok_upd [OF wok1 tr(1)]
      by (auto simp: map_post_def map_ok_def path1)
    moreover have "fof ?w2 ?p = fof w ?p" "fraw ?w2 ?p = fraw w ?p" "fsize ?w2 ?p = ?n"
      using tr(2) fv by (simp_all add: fof_def fraw_def fsize_def)
    moreover have "16 + unat (fof w ?p) + unat len < ?n" "fsize w ?p \<le> ?n"
      using grow(2) file_ok_bounds(2) [OF fok] fv by auto
    moreover have x: "f_size f + unat len \<le> 16 + unat (fof w ?p) + 2 * unat len"
      using False fv by auto
    have "?n \<le> grow_bound (unat (fof w ?p)) (unat len)"
      using grow(4) x div_le_mono [OF x, of 10] by (simp add: grow_bound_def)
    ultimately show ?thesis by (simp add: alloc_post_def Let_def)
  qed
qed


section \<open>Writing and appending\<close>

lemma room_length:
  assumes "world_ok e w" and "room w p n"
  shows "n < 4294967296"
proof -
  have "fsize w p < 4294967296"
    using assms(1) by (cases "w_file w p")
      (auto simp: fsize_def file_at_def empty_file_def dest!: world_okD file_ok_bounds(1))
  with assms(2) show ?thesis by (auto simp: room_def MAP_LIMIT_def)
qed

definition write_post ::
    "env \<Rightarrow> string \<Rightarrow> bc_map \<Rightarrow> world \<Rightarrow> nat \<Rightarrow> u8 list \<Rightarrow> bc_map \<Rightarrow> world \<Rightarrow> bool" where
  "write_post e nm m w off data m' w' \<longleftrightarrow>
     (let p = bc_map_path e nm m in
      map_post e nm m w m' w' \<and> m_hdr m' = Some p \<and>
      fraw w' p = mem_store (fraw w p) off data \<and>
      unat (fof w' p) = max (unat (fof w p)) (off + length data) \<and> fsize w p \<le> fsize w' p \<and>
      16 + unat (fof w p) + length data < fsize w' p \<and>
      fsize w' p \<le> max (max 16384 (fsize w p)) (grow_bound (unat (fof w p)) (length data)))"

lemma file_ok_store:
  assumes "file_ok e f" and "16 + off + length data \<le> f_size f" and "unat h \<le> max (unat (f_of f)) (off + length data)"
  shows "file_ok e (f\<lparr>f_raw := mem_store (f_raw f) off data, f_of := h\<rparr>)"
  using assms by (auto simp: file_ok_def mem_store_def)

lemma bc_map_write_ok:
  assumes os: "os_ok e" and wok: "world_ok e w" and mok: "map_ok e nm m w"
    and room: "room w (bc_map_path e nm m) (length data)"
    and off: "unat off \<le> unat (fof w (bc_map_path e nm m))"
  shows "returns 0 (bc_map_write e nm m off data w)
     (\<lambda>(m', w'). write_post e nm m w (unat off) data m' w')"
proof -
  let ?p = "bc_map_path e nm m" and ?n = "length data"
  have n: "unat (of_nat ?n :: u32) = ?n"
    using room_length [OF wok room] by (rule unat_of_nat_u32)
  obtain m1 w1 where al: "bc_map_alloc e nm m (of_nat ?n) w = Some (0, m1, w1)"
    and post: "alloc_post e nm m w ?n m1 w1"
    using bc_map_alloc_ok [OF os wok mok, of "of_nat ?n"] room by (auto simp: returns_def n)
  then have mp: "map_post e nm m w m1 w1" and hdr: "m_hdr m1 = Some ?p"
    and same: "fof w1 ?p = fof w ?p" "fraw w1 ?p = fraw w ?p"
    and big: "16 + unat (fof w ?p) + ?n < fsize w1 ?p" and mono: "fsize w ?p \<le> fsize w1 ?p"
    and up: "fsize w1 ?p \<le> max (max 16384 (fsize w ?p)) (grow_bound (unat (fof w ?p)) ?n)"
    by (auto simp: alloc_post_def Let_def)
  have path1: "bc_map_path e nm m1 = ?p" using mp by (rule map_post_path)
  from mp hdr obtain f where f: "w_file w1 ?p = Some f" and fok: "file_ok e f"
    by (auto simp: map_post_def map_ok_def path1 dest: world_okD)
  have f_at: "file_at w1 ?p = f" using f by (simp add: file_at_def)
  have fv: "f_of f = fof w ?p" "f_raw f = fraw w ?p" "f_size f = fsize w1 ?p"
    using same by (simp_all add: fof_def fraw_def fsize_def f_at)
  have sz: "m_size m1 = f_size f"
    using mp hdr by (simp add: map_post_def map_ok_def path1 f_at)
  let ?h = "max (f_of f) (off + of_nat ?n)"
  let ?f = "f\<lparr>f_raw := mem_store (f_raw f) (unat off) data, f_of := ?h\<rparr>"
  have h: "unat ?h = max (unat (f_of f)) (unat off + ?n)"
    using off big fv file_ok_bounds(1) [OF fok]
    by (simp add: unat_max_word unat_add_u32 n)
  have inside: "16 + unat off + ?n \<le> f_size f" using off big fv by simp
  have "bc_map_write e nm m off data w = Some (0, m1\<lparr>m_stamp := e_time e\<rparr>, file_upd ?p ?f w1)"
    using os al hdr f inside sz
    by (simp add: bc_map_write_def bc_map_write_body_def os_okD Let_def n map_store_def
        map_inside_def map_file_def hdr_of_def hdr_of_set_def file_upd_def)
  moreover have "file_ok e ?f"
    using fok inside h by (intro file_ok_store) auto
  then have "write_post e nm m w (unat off) data (m1\<lparr>m_stamp := e_time e\<rparr>) (file_upd ?p ?f w1)"
    using mp hdr mono big up h sz fv touches_trans [of ?p w w1, OF _ touches_file_upd]
    by (auto simp: write_post_def map_post_def map_ok_def path1 world_ok_upd fof_def fraw_def fsize_def)
  ultimately show ?thesis by simp
qed

lemma bc_map_append_ok:
  assumes os: "os_ok e" and wok: "world_ok e w" and mok: "map_ok e nm m w"
    and room: "room w (bc_map_path e nm m) (length data)"
  shows "returns 0 (bc_map_append e nm m data w)
     (\<lambda>(m', w'). write_post e nm m w (unat (fof w (bc_map_path e nm m))) data m' w')"
proof -
  let ?p = "bc_map_path e nm m" and ?n = "length data"
  have n: "unat (of_nat ?n :: u32) = ?n"
    using room_length [OF wok room] by (rule unat_of_nat_u32)
  obtain m1 w1 where al: "bc_map_alloc e nm m (of_nat ?n) w = Some (0, m1, w1)"
    and post: "alloc_post e nm m w ?n m1 w1"
    using bc_map_alloc_ok [OF os wok mok, of "of_nat ?n"] room by (auto simp: returns_def n)
  then have mp: "map_post e nm m w m1 w1" and hdr: "m_hdr m1 = Some ?p"
    and same: "fof w1 ?p = fof w ?p" "fraw w1 ?p = fraw w ?p"
    and big: "16 + unat (fof w ?p) + ?n < fsize w1 ?p" and mono: "fsize w ?p \<le> fsize w1 ?p"
    and up: "fsize w1 ?p \<le> max (max 16384 (fsize w ?p)) (grow_bound (unat (fof w ?p)) ?n)"
    by (auto simp: alloc_post_def Let_def)
  have path1: "bc_map_path e nm m1 = ?p" using mp by (rule map_post_path)
  have h: "hdr_of w1 m1 = Some (fof w ?p)"
    using mp hdr same(1) by (auto simp: map_post_def map_ok_def path1 hdr_of_def map_file_def
        fof_def file_at_def)
  obtain m2 w2 where wr: "bc_map_write e nm m1 (fof w ?p) data w1 = Some (0, m2, w2)"
    and post2: "write_post e nm m1 w1 (unat (fof w ?p)) data m2 w2"
    using bc_map_write_ok [OF os, of w1 nm m1 data "fof w ?p"] mp big same
    by (auto simp: returns_def map_post_def path1 room_def)
  have "write_post e nm m w (unat (fof w ?p)) data m2 w2"
    using post2 mono big up same map_post_trans [OF mp] by (auto simp: write_post_def path1 Let_def)
  with al wr h os show ?thesis
    by (simp add: bc_map_append_def bc_map_append_body_def os_okD)
qed


text \<open>
  \<open>capacity w p n\<close>: a gigabyte bound under which \<open>n\<close> more bytes can be added to a file in any
  number of steps. It is kept by allocation and used up by what is appended.
\<close>

definition capacity :: "world \<Rightarrow> path \<Rightarrow> nat \<Rightarrow> bool" where
  "capacity w p n \<longleftrightarrow> unat (fof w p) + n \<le> 1000000000 \<and> fsize w p \<le> 2300000000"

lemma capacity_room: "capacity w p n \<Longrightarrow> k \<le> n \<Longrightarrow> room w p k"
  by (auto simp: capacity_def room_def MAP_LIMIT_def max_def)

lemma capacity_mono: "capacity w p n \<Longrightarrow> k \<le> n \<Longrightarrow> capacity w p k"
  by (simp add: capacity_def)

lemma capacity_cong:
  "fof w' p = fof w p \<Longrightarrow> fsize w' p = fsize w p \<Longrightarrow> capacity w' p n = capacity w p n"
  by (simp add: capacity_def)

lemma capacity_alloc:
  assumes "alloc_post e nm m w k m' w'" and "k \<le> n" and "capacity w (bc_map_path e nm m) n"
  shows "capacity w' (bc_map_path e nm m) n"
  using assms
  by (auto simp: alloc_post_def Let_def capacity_def grow_bound_def max_def split: if_splits)

lemma alloc_postD:
  assumes "alloc_post e nm m w n m' w'"
  shows "map_post e nm m w m' w'" "m_hdr m' = Some (bc_map_path e nm m)"
    "fof w' (bc_map_path e nm m) = fof w (bc_map_path e nm m)"
    "fraw w' (bc_map_path e nm m) = fraw w (bc_map_path e nm m)"
    "16 + unat (fof w (bc_map_path e nm m)) + n < fsize w' (bc_map_path e nm m)"
  using assms by (auto simp: alloc_post_def Let_def)

lemma write_postD:
  assumes "write_post e nm m w off data m' w'"
  shows "map_post e nm m w m' w'" "m_hdr m' = Some (bc_map_path e nm m)"
    "fraw w' (bc_map_path e nm m) = mem_store (fraw w (bc_map_path e nm m)) off data"
    "unat (fof w' (bc_map_path e nm m)) = max (unat (fof w (bc_map_path e nm m))) (off + length data)"
    "fsize w (bc_map_path e nm m) \<le> fsize w' (bc_map_path e nm m)"
    "16 + unat (fof w (bc_map_path e nm m)) + length data < fsize w' (bc_map_path e nm m)"
  using assms by (auto simp: write_post_def Let_def)


lemma capacity_write:
  assumes "write_post e nm m w off data m' w'" and "off \<le> unat (fof w (bc_map_path e nm m))"
    and "capacity w (bc_map_path e nm m) (length data + n)"
  shows "capacity w' (bc_map_path e nm m) n"
  using assms
  by (auto simp: write_post_def Let_def capacity_def grow_bound_def max_def split: if_splits)

end
