(* ===== verification/Coin_Proto.thy ===== *)
theory Coin_Proto
  imports Bc_Fmap
begin

text \<open>
  The lookups of \<^verbatim>\<open>proto/coin_proto.c\<close> over the table of coin interfaces, in a build without
  \<open>TEST_SHCOIND\<close>: by name, by interface and the attributes of an interface. An interface is its
  index in the table. The interfaces' numbers are defined in C++ and are an argument.
  \<open>GetCoinByIndex\<close> stands with the file maps, which use it.
\<close>

section \<open>Operations\<close>

record coin_limits =
  max_block_size :: u64
  min_tx_fee :: u64
  max_money :: u64
  coinbase_maturity :: u64

text \<open>\<open>strcasecmp\<close> in the C locale.\<close>

definition lower :: "char \<Rightarrow> char" where
  "lower c = (if 65 \<le> (of_char c :: nat) \<and> of_char c \<le> (90 :: nat) then char_of ((of_char c :: nat) + 32) else c)"

definition strcasecmp_eq :: "string \<Rightarrow> string \<Rightarrow> bool" where
  "strcasecmp_eq a b \<longleftrightarrow> map lower a = map lower b"

text \<open>The index loops skip the test interface, whose index is 0.\<close>

fun coin_index_from :: "(string \<Rightarrow> bool) \<Rightarrow> nat \<Rightarrow> string list \<Rightarrow> nat option" where
  "coin_index_from P i [] = None"
| "coin_index_from P i (nm # nms) =
     (if i = 0 then coin_index_from P (Suc i) nms
      else if P nm then Some i
      else coin_index_from P (Suc i) nms)"

definition GetCoinIndex :: "string option \<Rightarrow> int" where
  "GetCoinIndex iface = (case iface of
     None \<Rightarrow> -1
   | Some name \<Rightarrow> (case coin_index_from (\<lambda>nm. name = nm) 0 iface_table of None \<Rightarrow> -1 | Some i \<Rightarrow> int i))"

definition GetCoin :: "string option \<Rightarrow> nat option" where
  "GetCoin name = (case name of
     None \<Rightarrow> None
   | Some name \<Rightarrow> coin_index_from (\<lambda>nm. strcasecmp_eq nm name) 0 iface_table)"

text \<open>\<open>GetCoinAttr\<close> returns an \<open>int\<close>: the low 32 bits of the 64-bit number, signed.\<close>

definition narrow :: "u64 \<Rightarrow> int" where
  "narrow v = sint (ucast v :: u32)"

definition GetCoinAttr :: "(nat \<Rightarrow> coin_limits) \<Rightarrow> string option \<Rightarrow> string option \<Rightarrow> int" where
  "GetCoinAttr lims name attr = (case attr of
     None \<Rightarrow> 0
   | Some attr \<Rightarrow> (case GetCoin name of
       None \<Rightarrow> 0
     | Some i \<Rightarrow>
         if strcasecmp_eq attr ''max-block-size'' then narrow (max_block_size (lims i))
         else if strcasecmp_eq attr ''min-tx-fee'' then narrow (min_tx_fee (lims i))
         else if strcasecmp_eq attr ''max-money'' then narrow (max_money (lims i))
         else if strcasecmp_eq attr ''coinbase-maturity'' then narrow (coinbase_maturity (lims i))
         else 0))"

section \<open>What they return\<close>

lemma GetCoin_cases:
  "GetCoin (Some name) =
     (if strcasecmp_eq ''shc'' name then Some 1 else if strcasecmp_eq ''usde'' name then Some 2
      else if strcasecmp_eq ''emc2'' name then Some 3 else None)"
  by (simp add: GetCoin_def iface_table_def)

lemma coin_names_differ:
  "\<not> (strcasecmp_eq ''shc'' x \<and> strcasecmp_eq ''usde'' x)" "\<not> (strcasecmp_eq ''shc'' x \<and> strcasecmp_eq ''emc2'' x)"
  "\<not> (strcasecmp_eq ''usde'' x \<and> strcasecmp_eq ''emc2'' x)"
proof -
  have "strcasecmp_eq a x \<Longrightarrow> strcasecmp_eq b x \<Longrightarrow> map lower a = map lower b" for a b
    by (simp add: strcasecmp_eq_def)
  moreover have "map lower ''shc'' \<noteq> map lower ''usde''" "map lower ''shc'' \<noteq> map lower ''emc2''"
    "map lower ''usde'' \<noteq> map lower ''emc2''" by (simp_all add: lower_def)
  ultimately show "\<not> (strcasecmp_eq ''shc'' x \<and> strcasecmp_eq ''usde'' x)"
    "\<not> (strcasecmp_eq ''shc'' x \<and> strcasecmp_eq ''emc2'' x)"
    "\<not> (strcasecmp_eq ''usde'' x \<and> strcasecmp_eq ''emc2'' x)" by blast+
qed

lemma GetCoinByIndex_Some:
  "GetCoinByIndex (int k) = Some nm \<longleftrightarrow> k = 1 \<and> nm = ''shc'' \<or> k = 2 \<and> nm = ''usde'' \<or> k = 3 \<and> nm = ''emc2''"
proof -
  consider "k = 0" | "k = 1" | "k = 2" | "k = 3" | "4 \<le> k" by linarith
  then show ?thesis by cases (auto simp: GetCoinByIndex_def MAX_COIN_IFACE_def iface_table_def)
qed

lemma GetCoin_iff:
  "GetCoin (Some name) = Some k \<longleftrightarrow> (\<exists>nm. GetCoinByIndex (int k) = Some nm \<and> strcasecmp_eq nm name)"
  using coin_names_differ [of name] by (auto simp: GetCoin_cases GetCoinByIndex_Some)

lemma GetCoinIndex_inverse: "GetCoinByIndex i = Some nm \<Longrightarrow> GetCoinIndex (Some nm) = i"
  using GetCoinByIndex_Some [of "nat i" nm]
  by (cases "0 \<le> i") (auto simp: GetCoinIndex_def iface_table_def GetCoinByIndex_def)

lemma narrow_small: "unat v < 2147483648 \<Longrightarrow> narrow v = int (unat v)"
  unfolding narrow_def by (rule sint_ucast_u32)

end
