(* ===== verification/Unet_State.thy ===== *)
theory Unet_State
  imports Complex_Main Descriptor
begin

text \<open>
  State and environment of the socket engine, \<^verbatim>\<open>unet/\<close>: the table of bound services
  (\<open>_unet_bind\<close>), the event table, the table of local addresses, and the process state of
  \<^verbatim>\<open>Descriptor\<close>. What the engine calls outside the repository (libshare's network, peer-tracking
  and time functions, \<open>select\<close>, \<open>inet_ntop\<close>) and the callbacks other parts register are the fields
  of \<open>nenv\<close>, an argument of every definition. A call that can answer differently each time gets the
  number of calls made before it (\<open>n_tick\<close>). Calls that change the peer database are recorded in
  \<open>n_track\<close> in their order. Doubles are the rationals they denote, rounded by \<open>n_rnd\<close>. Log messages
  are left out.
\<close>

type_synonym addr = "u8 list"  \<comment> \<open>the bytes of a \<open>struct sockaddr\<close>\<close>
type_synonym peer = "u8 list"  \<comment> \<open>a \<open>shpeer_t\<close> of libshare\<close>

definition UNET_SHC :: int where "UNET_SHC = 1"
definition UNET_USDE :: int where "UNET_USDE = 2"
definition UNET_EMC2 :: int where "UNET_EMC2 = 3"
definition MAX_UNET_COIN_MODES :: int where "MAX_UNET_COIN_MODES = 8"
definition UNET_STRATUM :: int where "UNET_STRATUM = 8"
definition UNET_STRATUM_ESL :: int where "UNET_STRATUM_ESL = 9"
definition MAX_UNET_MODES :: int where "MAX_UNET_MODES = 11"
definition MAX_CONNECT_IDLE_TIME :: rat where "MAX_CONNECT_IDLE_TIME = 45"
definition MAX_IDLE_TIME :: rat where "MAX_IDLE_TIME = 3600"
definition UNET_MAX_EVENTS :: nat where "UNET_MAX_EVENTS = 20480"
definition UEVENT_PEER_VERIFY :: int where "UEVENT_PEER_VERIFY = 1"
definition UEVENT_PEER_CONN :: int where "UEVENT_PEER_CONN = 2"
definition MAX_IPADDR_TABLE_SIZE :: nat where "MAX_IPADDR_TABLE_SIZE = 512"
definition MAX_SOCKET_BUFFER_SIZE :: nat where "MAX_SOCKET_BUFFER_SIZE = 40960000"
definition AF_INET :: nat where "AF_INET = 2"
definition AF_INET6 :: nat where "AF_INET6 = 10"

record bind_t =
  b_fd :: int
  b_flag :: u32
  b_port :: int
  b_freq :: rat
  b_peer :: peer
  b_timer_stamp :: u64
  b_scan_stamp :: u64
  b_db :: "string option"       \<comment> \<open>the open track database, by its name\<close>
  b_timer :: "nat option"       \<comment> \<open>the registered callbacks, by a number of theirs\<close>
  b_accept :: "nat option"
  b_close :: "nat option"

definition zero_bind :: bind_t where
  "zero_bind = \<lparr>b_fd = 0, b_flag = 0, b_port = 0, b_freq = 0, b_peer = [], b_timer_stamp = 0,
     b_scan_stamp = 0, b_db = None, b_timer = None, b_accept = None, b_close = None\<rparr>"

record uevent_t =
  u_mode :: int
  u_flag :: int
  u_type :: int
  u_fd :: int
  u_data :: "peer option"

definition zero_uevent :: uevent_t where
  "zero_uevent = \<lparr>u_mode = 0, u_flag = 0, u_type = 0, u_fd = 0, u_data = None\<rparr>"

datatype track_op = TrackMark "string option" peer int | TrackAdd "string option" peer

record net =
  nw :: world
  n_bind :: "nat \<Rightarrow> bind_t"
  n_ev :: "nat \<Rightarrow> uevent_t"
  n_evnew :: nat                \<comment> \<open>\<open>event_idx\<close> of \<open>uevent_new\<close>\<close>
  n_evcur :: nat                \<comment> \<open>\<open>event_idx\<close> of \<open>uevent_cycle\<close>\<close>
  n_ip :: "string list"
  n_primary :: string
  n_track :: "track_op list"
  n_tick :: nat
  n_next_t :: int
  n_idle_t :: rat
  n_start_t :: u64

datatype callback = CbTimer nat | CbAccept nat int addr | CbClose nat int addr

record nenv =
  n_env :: env
  n_clock :: "nat \<Rightarrow> u64"                       \<comment> \<open>\<open>shtime\<close>\<close>
  n_adj :: "u64 \<Rightarrow> rat \<Rightarrow> u64"                  \<comment> \<open>\<open>shtime_adj\<close>\<close>
  n_after :: "u64 \<Rightarrow> u64 \<Rightarrow> bool"               \<comment> \<open>\<open>shtime_after\<close>\<close>
  n_before :: "u64 \<Rightarrow> u64 \<Rightarrow> bool"              \<comment> \<open>\<open>shtime_before\<close>\<close>
  n_timef :: "u64 \<Rightarrow> rat"                       \<comment> \<open>\<open>shtimef\<close>\<close>
  n_rnd :: "rat \<Rightarrow> rat"                         \<comment> \<open>rounding to a double\<close>
  n_sk :: "nat \<Rightarrow> int"                          \<comment> \<open>\<open>shnet_sk\<close>\<close>
  n_bindsk :: "nat \<Rightarrow> bool \<Rightarrow> int \<Rightarrow> int"        \<comment> \<open>\<open>shnet_bindsk\<close>: localhost only, port\<close>
  n_acc :: "nat \<Rightarrow> int \<Rightarrow> int"                  \<comment> \<open>\<open>shnet_accept_nb\<close>\<close>
  n_conn :: "nat \<Rightarrow> int \<Rightarrow> addr \<Rightarrow> int"         \<comment> \<open>\<open>shconnect\<close>\<close>
  n_selw :: "nat \<Rightarrow> int \<Rightarrow> int"                 \<comment> \<open>\<open>shselect\<close> for writing\<close>
  n_errno :: "nat \<Rightarrow> nat"                       \<comment> \<open>\<open>errno\<close> after the call with this number\<close>
  n_peername :: "int \<Rightarrow> addr"                   \<comment> \<open>\<open>getpeername\<close> into a zeroed address of 16 bytes\<close>
  n_ntop :: "nat \<Rightarrow> u8 list \<Rightarrow> string"          \<comment> \<open>\<open>inet_ntop\<close> into a zeroed buffer\<close>
  n_pton :: "nat \<Rightarrow> string \<Rightarrow> u8 list"          \<comment> \<open>\<open>inet_pton\<close> into a zeroed address\<close>
  n_print :: "addr \<Rightarrow> string"                   \<comment> \<open>\<open>shaddr_print\<close>\<close>
  n_peer :: "string option \<Rightarrow> string \<Rightarrow> peer"   \<comment> \<open>\<open>shpeer_init\<close>\<close>
  n_peeraddr :: "peer \<Rightarrow> addr"                  \<comment> \<open>\<open>shpeer_addr\<close>\<close>
  n_mark :: "nat \<Rightarrow> peer \<Rightarrow> int \<Rightarrow> int"         \<comment> \<open>\<open>shnet_track_mark\<close>\<close>
  n_verify :: "nat \<Rightarrow> peer \<Rightarrow> int \<Rightarrow> int \<times> int" \<comment> \<open>\<open>shnet_track_verify\<close>: code and socket\<close>
  n_scan :: "nat \<Rightarrow> string option \<Rightarrow> peer list option" \<comment> \<open>\<open>shnet_track_scan\<close>\<close>
  n_list :: "nat \<Rightarrow> string option \<Rightarrow> peer list option" \<comment> \<open>\<open>shnet_track_list\<close>\<close>
  n_count :: "string option \<Rightarrow> peer \<Rightarrow> nat"     \<comment> \<open>\<open>shnet_track_count\<close>\<close>
  n_seed :: bool                                \<comment> \<open>\<open>opt_bool(OPT_PEER_SEED)\<close>\<close>
  n_junk :: u64                                 \<comment> \<open>the value of an uninitialised variable\<close>
  n_time :: "nat \<Rightarrow> int"                        \<comment> \<open>\<open>time(NULL)\<close>\<close>
  n_sel :: "nat \<Rightarrow> nat list \<Rightarrow> nat list \<Rightarrow> int \<Rightarrow> int \<times> nat list \<times> nat list"
    \<comment> \<open>\<open>select\<close> on sets to read and to write for some microseconds: the code, the ready to read, the failed\<close>
  n_read :: "nat \<Rightarrow> int \<Rightarrow> bool \<Rightarrow> int + u8 list"  \<comment> \<open>\<open>shnet_read\<close>, or \<open>esl_read\<close>\<close>
  n_write :: "nat \<Rightarrow> int \<Rightarrow> bool \<Rightarrow> u8 list \<Rightarrow> int" \<comment> \<open>\<open>shnet_write\<close>, or \<open>esl_write\<close>\<close>
  n_cat :: "u8 list \<Rightarrow> u8 list \<Rightarrow> u8 list"      \<comment> \<open>\<open>shbuf_cat\<close>\<close>
  n_trim :: "u8 list \<Rightarrow> nat \<Rightarrow> u8 list"         \<comment> \<open>\<open>shbuf_trim\<close>\<close>
  n_size :: "u8 list option \<Rightarrow> nat"             \<comment> \<open>\<open>shbuf_size\<close>\<close>
  n_call :: "callback \<Rightarrow> net \<Rightarrow> net option"     \<comment> \<open>the callbacks\<close>

text \<open>One more call was made; the clock at this moment.\<close>

definition tick :: "net \<Rightarrow> net" where
  "tick s = s\<lparr>n_tick := Suc (n_tick s)\<rparr>"

definition now :: "nenv \<Rightarrow> net \<Rightarrow> u64" where
  "now ne s = n_clock ne (n_tick s)"

definition cur :: "nenv \<Rightarrow> net \<Rightarrow> env" where
  "cur ne s = (n_env ne)\<lparr>e_shtime := now ne s\<rparr>"

text \<open>A loop over descriptor numbers or modes.\<close>

fun for_each :: "'i list \<Rightarrow> ('i \<Rightarrow> 's \<Rightarrow> 's option) \<Rightarrow> 's \<Rightarrow> 's option" where
  "for_each [] f s = Some s"
| "for_each (i # js) f s = Option.bind (f i s) (for_each js f)"

lemma for_each_invariant:
  assumes "\<And>i s. i \<in> set js \<Longrightarrow> P s \<Longrightarrow> \<exists>s'. f i s = Some s' \<and> P s'" and "P s"
  shows "\<exists>s'. for_each js f s = Some s' \<and> P s'"
  using assms
proof (induction js arbitrary: s)
  case Nil
  then show ?case by simp
next
  case (Cons i js)
  then obtain s1 where "f i s = Some s1" "P s1" by (metis list.set_intros(1))
  moreover have "\<exists>s'. for_each js f s1 = Some s' \<and> P s'"
    using Cons.IH [of s1] Cons.prems(1) \<open>P s1\<close> by simp
  ultimately show ?case by simp
qed

text \<open>
  A sweep over a table: the step for index \<open>i\<close> changes the entry \<open>i\<close> by \<open>upd\<close> and no other, and
  keeps an invariant. Then the whole loop returns and changes every entry it visits by \<open>upd\<close>.
\<close>

locale slot_sweep =
  fixes inv :: "'s \<Rightarrow> bool" and entry_at :: "'s \<Rightarrow> nat \<Rightarrow> 'd" and upd :: "nat \<Rightarrow> 'd \<Rightarrow> 'd"
    and visit :: "nat \<Rightarrow> 's \<Rightarrow> 's option" and valid :: "nat \<Rightarrow> bool"
  assumes visit_ok: "inv s \<Longrightarrow> valid i \<Longrightarrow> \<exists>s'. visit i s = Some s' \<and> inv s' \<and>
    entry_at s' = (entry_at s)(i := upd i (entry_at s i))"
begin

lemma sweep_ok:
  assumes "inv s" and "\<forall>i\<in>set js. valid i" and "distinct js"
  shows "\<exists>s'. for_each js visit s = Some s' \<and> inv s' \<and>
    entry_at s' = (\<lambda>j. if j \<in> set js then upd j (entry_at s j) else entry_at s j)"
  using assms
proof (induction js arbitrary: s)
  case Nil
  then show ?case by simp
next
  case (Cons i js)
  then obtain s1 where s1: "visit i s = Some s1" "inv s1" "entry_at s1 = (entry_at s)(i := upd i (entry_at s i))"
    using visit_ok [of s i] by auto
  with Cons.IH [of s1] Cons.prems obtain s' where
    "for_each js visit s1 = Some s'" "inv s'"
    "entry_at s' = (\<lambda>j. if j \<in> set js then upd j (entry_at s1 j) else entry_at s1 j)" by auto
  with s1 Cons.prems(3) show ?case by (auto simp: fun_eq_iff)
qed

end

section \<open>Descriptors as sockets\<close>

text \<open>A socket made by the system at a descriptor number that was free.\<close>

definition fd_install :: "int \<Rightarrow> net \<Rightarrow> net" where
  "fd_install fd s = s\<lparr>nw := (nw s)\<lparr>w_fd := (let xs = w_fd (nw s) in
     (xs @ replicate (Suc (nat fd) - length xs) None)[nat fd := Some FSock])\<rparr>\<rparr>"

definition sk_close :: "int \<Rightarrow> net \<Rightarrow> net" where
  "sk_close fd s = s\<lparr>nw := os_close fd (nw s)\<rparr>"

definition get_unet_table :: "int \<Rightarrow> net \<Rightarrow> nat option option" where
  "get_unet_table sk s = descriptor_get sk (nw s)"

definition desc_of :: "net \<Rightarrow> int \<Rightarrow> desc_t" where
  "desc_of s sk = desc_table (nw s) (nat sk)"

definition desc_put :: "int \<Rightarrow> desc_t \<Rightarrow> net \<Rightarrow> net" where
  "desc_put sk d s = s\<lparr>nw := desc_set (nat sk) d (nw s)\<rparr>"

section \<open>The table of services\<close>

text \<open>\<open>unet_bind_table\<close>: the slot of a mode, or \<open>NULL\<close>.\<close>

definition unet_bind_table :: "int \<Rightarrow> nat option" where
  "unet_bind_table mode = (if mode < 0 \<or> mode \<ge> MAX_UNET_MODES then None else Some (nat mode))"

definition bind_upd :: "nat \<Rightarrow> (bind_t \<Rightarrow> bind_t) \<Rightarrow> net \<Rightarrow> net" where
  "bind_upd m f s = s\<lparr>n_bind := (n_bind s)(m := f (n_bind s m))\<rparr>"

definition unet_label :: "string list" where
  "unet_label = [''!NONE!'', ''shc'', ''usde'', ''emc2'', ''!RESERVED!'', ''!RESERVED!'',
     ''!RESERVED!'', ''!RESERVED!'', ''stratum'', ''stratum-esl'', ''rpc'']"

definition unet_mode_label :: "int \<Rightarrow> string option" where
  "unet_mode_label mode =
     (if mode < 0 \<or> mode \<ge> MAX_UNET_MODES then None else Some (unet_label ! nat mode))"

definition unet_connop_set :: "int \<Rightarrow> nat option \<Rightarrow> net \<Rightarrow> net" where
  "unet_connop_set mode accept_op s =
     (if mode < 0 \<or> mode \<ge> MAX_UNET_MODES then s else bind_upd (nat mode) (\<lambda>b. b\<lparr>b_accept := accept_op\<rparr>) s)"

definition unet_disconnop_set :: "int \<Rightarrow> nat option \<Rightarrow> net \<Rightarrow> net" where
  "unet_disconnop_set mode close_op s =
     (if mode < 0 \<or> mode \<ge> MAX_UNET_MODES then s else bind_upd (nat mode) (\<lambda>b. b\<lparr>b_close := close_op\<rparr>) s)"

definition unet_bind_flag_unset :: "int \<Rightarrow> u32 \<Rightarrow> net \<Rightarrow> net" where
  "unet_bind_flag_unset mode flags s =
     (if mode < 0 \<or> mode \<ge> MAX_UNET_MODES then s
      else bind_upd (nat mode) (\<lambda>b. b\<lparr>b_flag := b_flag b AND NOT flags\<rparr>) s)"

section \<open>Timers\<close>

definition unet_timer_set :: "nenv \<Rightarrow> int \<Rightarrow> nat option \<Rightarrow> net \<Rightarrow> int \<times> net" where
  "unet_timer_set ne mode timer_f s = (case unet_bind_table mode of
     None \<Rightarrow> (SHERR_INVAL, s)
   | Some m \<Rightarrow> (0, tick (bind_upd m (\<lambda>b. b\<lparr>b_timer_stamp := now ne s, b_timer := timer_f\<rparr>) s)))"

definition unet_timer_unset :: "int \<Rightarrow> net \<Rightarrow> net" where
  "unet_timer_unset mode s = (case unet_bind_table mode of
     None \<Rightarrow> s | Some m \<Rightarrow> bind_upd m (\<lambda>b. b\<lparr>b_timer_stamp := 0, b_timer := None\<rparr>) s)"

text \<open>
  \<open>unet_timer_cycle\<close> calls every timer each time; the stamp it stores is its uninitialised \<open>now\<close>.
\<close>

definition unet_timer_step :: "nenv \<Rightarrow> nat \<Rightarrow> net \<Rightarrow> net option" where
  "unet_timer_step ne idx s = (case b_timer (n_bind s idx) of
     None \<Rightarrow> Some s
   | Some f \<Rightarrow> n_call ne (CbTimer f) (bind_upd idx (\<lambda>b. b\<lparr>b_timer_stamp := n_junk ne\<rparr>) s))"

definition unet_timer_cycle :: "nenv \<Rightarrow> net \<Rightarrow> net option" where
  "unet_timer_cycle ne s = for_each [0..<nat MAX_UNET_MODES] (unet_timer_step ne) s"

section \<open>Local addresses\<close>

definition unet_local_verify :: "string \<Rightarrow> net \<Rightarrow> bool" where
  "unet_local_verify ipaddr s \<longleftrightarrow> ipaddr \<in> set (n_ip s)"

definition local_canon :: "nenv \<Rightarrow> string \<Rightarrow> string" where
  "local_canon ne ipaddr_in =
     (if CHR '':'' \<in> set ipaddr_in then n_ntop ne AF_INET6 (n_pton ne AF_INET6 ipaddr_in)
      else n_ntop ne AF_INET (n_pton ne AF_INET ipaddr_in))"

definition local_insert :: "string \<Rightarrow> net \<Rightarrow> net" where
  "local_insert ipaddr s =
     (if length (n_ip s) + 1 < MAX_IPADDR_TABLE_SIZE then s\<lparr>n_ip := n_ip s @ [ipaddr]\<rparr> else s)"

text \<open>\<open>unet_local_add\<close> calls itself with the IPv6 form of an IPv4 address.\<close>

partial_function (option) unet_local_add :: "nenv \<Rightarrow> string \<Rightarrow> net \<Rightarrow> net option" where
  "unet_local_add ne ipaddr_in s =
     (if ipaddr_in = [] then Some s
      else
        let ipaddr = local_canon ne ipaddr_in
        in if ipaddr = [] then Some s
           else
             let s = local_insert ipaddr s
             in if CHR '':'' \<in> set ipaddr then Some s
                else
                  let ip6 = n_ntop ne AF_INET6 (n_pton ne AF_INET6 (''::FFFF:'' @ ipaddr))
                  in if ip6 \<noteq> [] \<and> CHR '':'' \<in> set ip6 then unet_local_add ne ip6 s else Some s)"

text \<open>\<open>primary_ipaddr\<close> holds \<open>MAXHOSTNAMELEN\<close> (64) characters, \<open>unet_local_host\<close>'s buffer 255.\<close>

definition unet_local_set :: "nenv \<Rightarrow> string \<Rightarrow> net \<Rightarrow> net option" where
  "unet_local_set ne ipaddr s =
     (if ipaddr = [] then Some s else unet_local_add ne ipaddr (s\<lparr>n_primary := take 64 ipaddr\<rparr>))"

definition unet_local_host :: "net \<Rightarrow> string" where
  "unet_local_host s = take 255 (n_primary s)"


section \<open>The table of local addresses\<close>

text \<open>\<open>inet_ntop\<close> prints an IPv6 address with a colon; an empty result is a failure.\<close>

definition ntop_ok :: "nenv \<Rightarrow> bool" where
  "ntop_ok ne \<longleftrightarrow> (\<forall>x. n_ntop ne AF_INET6 x = [] \<or> CHR '':'' \<in> set (n_ntop ne AF_INET6 x))"

lemma local_insert_ip: "n_ip (local_insert a s) = (if length (n_ip s) < 511 then n_ip s @ [a] else n_ip s)"
  by (auto simp: local_insert_def MAX_IPADDR_TABLE_SIZE_def)

lemma unet_local_add_v6:
  assumes "ntop_ok ne" and "CHR '':'' \<in> set a"
  shows "unet_local_add ne a s = Some (if local_canon ne a = [] then s else local_insert (local_canon ne a) s)"
proof -
  have "local_canon ne a = [] \<or> CHR '':'' \<in> set (local_canon ne a)"
    using assms by (auto simp: local_canon_def ntop_ok_def)
  then show ?thesis using assms(2) by (subst unet_local_add.simps) (auto simp: Let_def)
qed

lemma unet_local_add_ok:
  assumes "ntop_ok ne"
  shows "\<exists>s'. unet_local_add ne a s = Some s' \<and>
    (\<exists>xs. n_ip s' = n_ip s @ xs \<and> length xs \<le> 2 \<and> (xs \<noteq> [] \<longrightarrow> length (n_ip s') \<le> 511)) \<and>
    (a \<noteq> [] \<and> local_canon ne a \<noteq> [] \<and> length (n_ip s) < 511 \<longrightarrow> unet_local_verify (local_canon ne a) s')"
proof (cases "a = [] \<or> local_canon ne a = []")
  case True
  then show ?thesis by (subst unet_local_add.simps) (auto simp: Let_def)
next
  case False
  let ?c = "local_canon ne a"
  let ?ip6 = "n_ntop ne AF_INET6 (n_pton ne AF_INET6 (''::FFFF:'' @ ?c))"
  have "unet_local_add ne a s =
      (if CHR '':'' \<notin> set ?c \<and> ?ip6 \<noteq> [] then unet_local_add ne ?ip6 (local_insert ?c s) else Some (local_insert ?c s))"
    using False assms by (subst unet_local_add.simps) (auto simp: Let_def ntop_ok_def)
  moreover have "unet_local_add ne ?ip6 (local_insert ?c s) =
      Some (if local_canon ne ?ip6 = [] then local_insert ?c s
            else local_insert (local_canon ne ?ip6) (local_insert ?c s))" if "?ip6 \<noteq> []"
    using that assms by (intro unet_local_add_v6) (auto simp: ntop_ok_def)
  ultimately show ?thesis
    by (auto simp: local_insert_ip unet_local_verify_def)
qed

end
