(* ===== verification/Unet_Conn.thy ===== *)
theory Unet_Conn
  imports Unet_State
begin

text \<open>
  Connections of the socket engine: \<^verbatim>\<open>unet_peer.c\<close> (finding and rating peers), \<^verbatim>\<open>unet.c\<close> (adding and
  shutting down sockets), \<^verbatim>\<open>unet_close.c\<close>, \<^verbatim>\<open>unet_accept.c\<close>, \<^verbatim>\<open>unet_connect.c\<close>, \<^verbatim>\<open>unet_bind.c\<close> and
  \<^verbatim>\<open>unet_io.c\<close>. \<^term>\<open>None\<close> is an access outside the tables.
\<close>

section \<open>Peers\<close>

text \<open>
  The address family is the first 16-bit word of a \<open>struct sockaddr\<close>. The variables that \<open>getpeername\<close>
  fills have 16 bytes; for the family \<open>AF_INET6\<close> \<open>inet_ntop\<close> then reads on past them. The address is
  here the bytes that are read, wherever they lie, and what is proved of peers uses only that equal
  bytes print equally.
\<close>

definition addr_fam :: "addr \<Rightarrow> nat" where
  "addr_fam a = le_dec (take 2 a)"

definition unet_netaddr_str :: "nenv \<Rightarrow> addr \<Rightarrow> string" where
  "unet_netaddr_str ne a = n_ntop ne (addr_fam a) (drop 4 a)"

definition unet_hostname :: "nenv \<Rightarrow> addr \<Rightarrow> string" where
  "unet_hostname ne a =
     (if addr_fam a = AF_INET then n_ntop ne AF_INET (drop 4 a)
      else if addr_fam a = AF_INET6 then n_ntop ne AF_INET6 (drop 8 a)
      else [])"

fun unet_peer_find_from :: "nenv \<Rightarrow> int \<Rightarrow> string \<Rightarrow> net \<Rightarrow> nat list \<Rightarrow> nat option" where
  "unet_peer_find_from ne mode peer_ip s [] = Some 0"
| "unet_peer_find_from ne mode peer_ip s (sk # sks) = do {
     t \<leftarrow> get_unet_table (int sk) s;
     if t \<noteq> None \<and> d_mode (desc_of s (int sk)) = mode \<and> d_flag (desc_of s (int sk)) AND DF_SERVICE \<noteq> 0 \<and>
        unet_netaddr_str ne (n_peername ne (int sk)) = peer_ip
     then Some sk
     else unet_peer_find_from ne mode peer_ip s sks }"

definition all_sockets :: "nat list" where
  "all_sockets = [1..<nat MAX_UNET_SOCKETS]"

definition unet_peer_find :: "nenv \<Rightarrow> int \<Rightarrow> addr \<Rightarrow> net \<Rightarrow> nat option" where
  "unet_peer_find ne mode a s = unet_peer_find_from ne mode (unet_netaddr_str ne a) s all_sockets"

definition unet_peer_wait :: "nenv \<Rightarrow> bind_t \<Rightarrow> net \<Rightarrow> bool \<times> net" where
  "unet_peer_wait ne b s =
     (let dur = max 4 (min 600 (n_rnd ne (600 * b_freq b)))
      in (\<not> n_after ne (now ne s) (n_adj ne (b_scan_stamp b) dur), tick s))"

definition track :: "track_op \<Rightarrow> net \<Rightarrow> net" where
  "track c s = tick (s\<lparr>n_track := n_track s @ [c]\<rparr>)"

definition unet_peer_total :: "nenv \<Rightarrow> int \<Rightarrow> net \<Rightarrow> nat" where
  "unet_peer_total ne mode s = (case unet_bind_table mode of
     None \<Rightarrow> 0 | Some m \<Rightarrow> n_count ne (b_db (n_bind s m)) (b_peer (n_bind s m)))"

definition unet_peer_incr :: "nenv \<Rightarrow> int \<Rightarrow> peer \<Rightarrow> net \<Rightarrow> net" where
  "unet_peer_incr ne mode p s = (case unet_bind_table mode of
     None \<Rightarrow> s
   | Some m \<Rightarrow>
       let b = n_bind s m in
       if b_flag b AND DF_PEER_SCAN = 0 then s
       else if n_mark ne (n_tick s) p 1 \<noteq> 0
            then track (TrackAdd (b_db b) p) (track (TrackMark (b_db b) p 1) s)
            else track (TrackMark (b_db b) p 1) s)"

definition unet_peer_decr :: "nenv \<Rightarrow> int \<Rightarrow> peer \<Rightarrow> net \<Rightarrow> net" where
  "unet_peer_decr ne mode p s = (case unet_bind_table mode of
     None \<Rightarrow> s
   | Some m \<Rightarrow>
       let b = n_bind s m in
       if b_flag b AND DF_PEER_SCAN = 0 then s else track (TrackMark (b_db b) p (-1)) s)"

section \<open>Sockets of services\<close>

definition claim :: "nenv \<Rightarrow> int \<Rightarrow> int \<Rightarrow> u32 \<Rightarrow> net \<Rightarrow> (nat option \<times> net) option" where
  "claim ne sk mode flag s = do {
     (r, w) \<leftarrow> descriptor_claim (cur ne s) sk mode flag (nw s);
     Some (r, tick (s\<lparr>nw := w\<rparr>)) }"

definition release :: "nenv \<Rightarrow> int \<Rightarrow> net \<Rightarrow> net option" where
  "release ne sk s = map_option (\<lambda>w. s\<lparr>nw := w\<rparr>) (descriptor_release (cur ne s) sk (nw s))"

definition unet_add :: "nenv \<Rightarrow> int \<Rightarrow> int \<Rightarrow> net \<Rightarrow> (int \<times> net) option" where
  "unet_add ne mode sk s = do {
     (r, s) \<leftarrow> claim ne sk mode DF_SERVICE s;
     if r = None then Some (SHERR_IO, s) else Some (0, s) }"

definition unet_mode :: "int \<Rightarrow> net \<Rightarrow> int option" where
  "unet_mode sk s = do {
     t \<leftarrow> get_unet_table sk s;
     Some (if t = None then 0 else d_mode (desc_of s sk)) }"

definition unet_shutdown :: "int \<Rightarrow> net \<Rightarrow> net option" where
  "unet_shutdown sk s = do {
     t \<leftarrow> get_unet_table sk s;
     Some (if t = None then s
           else desc_put sk ((desc_of s sk)\<lparr>d_flag := d_flag (desc_of s sk) OR DF_SHUTDOWN\<rparr>) s) }"

text \<open>
  \<open>unet_close\<close> returns a variable it never assigned when it closed the socket; that is the result
  \<^term>\<open>None\<close> of the pair.
\<close>

definition unet_close :: "nenv \<Rightarrow> int \<Rightarrow> net \<Rightarrow> (int option \<times> net) option" where
  "unet_close ne sk s = do {
     t \<leftarrow> get_unet_table sk s;
     if t = None then Some (Some SHERR_INVAL, s)
     else
       let d = desc_of s sk
       in do {
         s \<leftarrow> (case unet_bind_table (d_mode d) of
                None \<Rightarrow> Some s
              | Some m \<Rightarrow> (case b_close (n_bind s m) of
                             None \<Rightarrow> Some s
                           | Some f \<Rightarrow> n_call ne (CbClose f sk (d_addr d)) s));
         s \<leftarrow> release ne sk s;
         Some (None, s) } }"

definition unet_close_all_step :: "nenv \<Rightarrow> int \<Rightarrow> nat \<Rightarrow> net \<Rightarrow> net option" where
  "unet_close_all_step ne mode sk s = do {
     t \<leftarrow> get_unet_table (int sk) s;
     if t = None \<or> d_mode (desc_of s (int sk)) \<noteq> mode \<or> d_flag (desc_of s (int sk)) AND DF_SERVICE = 0
     then Some s
     else map_option snd (unet_close ne (int sk) s) }"

definition unet_close_all :: "nenv \<Rightarrow> int \<Rightarrow> net \<Rightarrow> (int \<times> net) option" where
  "unet_close_all ne mode s = map_option (Pair 0) (for_each all_sockets (unet_close_all_step ne mode) s)"

text \<open>Why \<open>unet_close_idle\<close> closes a socket.\<close>

definition idle_socket :: "nenv \<Rightarrow> u64 \<Rightarrow> desc_t \<Rightarrow> bool" where
  "idle_socket ne t d \<longleftrightarrow> d_flag d AND DF_SOCK \<noteq> 0 \<and> d_flag d AND DF_LISTEN = 0 \<and>
     (d_stamp d = e_undef (n_env ne) \<and> n_before ne (n_adj ne (d_cstamp d) MAX_CONNECT_IDLE_TIME) t \<or>
      (d_mode d = UNET_STRATUM \<or> d_mode d = UNET_STRATUM_ESL) \<and>
        d_stamp d \<noteq> e_undef (n_env ne) \<and> n_before ne (n_adj ne (d_stamp d) MAX_IDLE_TIME) t \<or>
      n_size ne (d_wbuff d) > MAX_SOCKET_BUFFER_SIZE \<or> n_size ne (d_rbuff d) > MAX_SOCKET_BUFFER_SIZE)"

definition unet_close_idle_step :: "nenv \<Rightarrow> u64 \<Rightarrow> nat \<Rightarrow> net \<Rightarrow> net option" where
  "unet_close_idle_step ne t sk s = do {
     r \<leftarrow> get_unet_table (int sk) s;
     if r \<noteq> None \<and> idle_socket ne t (desc_of s (int sk))
     then map_option snd (unet_close ne (int sk) s) else Some s }"

definition unet_close_idle :: "nenv \<Rightarrow> net \<Rightarrow> net option" where
  "unet_close_idle ne s = for_each all_sockets (unet_close_idle_step ne (now ne s)) (tick s)"

definition unet_idle :: "nenv \<Rightarrow> net \<Rightarrow> net option" where
  "unet_idle ne s = unet_close_idle ne s"

text \<open>\<open>unet_write\<close>: \<open>null\<close> says that the data pointer is \<open>NULL\<close>.\<close>

definition unet_write :: "nenv \<Rightarrow> int \<Rightarrow> bool \<Rightarrow> u8 list \<Rightarrow> net \<Rightarrow> (int \<times> net) option" where
  "unet_write ne sk null data s =
     (if data = [] then Some (0, s)
      else if null then Some (SHERR_INVAL, s)
      else do {
        t \<leftarrow> get_unet_table sk s;
        if t = None \<or> d_flag (desc_of s sk) AND DF_SERVICE = 0 then Some (SHERR_BADF, s)
        else do {
          w \<leftarrow> descriptor_wbuff_add (n_cat ne) sk data (nw s);
          Some (0, s\<lparr>nw := w\<rparr>) } })"

section \<open>Accepting and connecting\<close>

definition run_accept :: "nenv \<Rightarrow> nat option \<Rightarrow> int \<Rightarrow> addr \<Rightarrow> net \<Rightarrow> net option" where
  "run_accept ne m sk a s = (case m of None \<Rightarrow> Some s | Some i \<Rightarrow>
     (case b_accept (n_bind s i) of None \<Rightarrow> Some s | Some f \<Rightarrow> n_call ne (CbAccept f sk a) s))"

definition unet_local_verify_fd :: "nenv \<Rightarrow> int \<Rightarrow> net \<Rightarrow> bool" where
  "unet_local_verify_fd ne fd s = unet_local_verify (unet_hostname ne (n_peername ne fd)) s"

text \<open>
  \<open>unet_accept\<close> returns the code and the accepted socket; the address of the socket is read through
  the pointer \<open>shaddr\<close> returns.
\<close>

definition unet_accept :: "nenv \<Rightarrow> int \<Rightarrow> net \<Rightarrow> ((int \<times> int option) \<times> net) option" where
  "unet_accept ne mode s = (case unet_bind_table mode of
     None \<Rightarrow> Some ((SHERR_INVAL, None), s)
   | Some m \<Rightarrow>
     if b_fd (n_bind s m) = 0 then Some ((SHERR_BADF, None), s)
     else
       let fd = n_acc ne (n_tick s) (b_fd (n_bind s m));
           s = tick s
       in if fd = 0 then Some ((SHERR_AGAIN, None), s)
          else if fd < 0 then Some ((fd, None), s)
          else
            let s = fd_install fd s
            in if fd \<ge> MAX_UNET_SOCKETS then Some ((SHERR_AGAIN, None), sk_close fd s)
               else do {
                 dup \<leftarrow> (if mode < MAX_UNET_COIN_MODES
                        then do { a \<leftarrow> e_shaddr (n_env ne) fd; unet_peer_find ne mode a s }
                        else Some 0);
                 if mode < MAX_UNET_COIN_MODES \<and> (dup \<noteq> 0 \<or> unet_local_verify_fd ne fd s)
                 then Some ((SHERR_NOTUNIQ, None), sk_close fd s)
                 else do {
                   (_, s) \<leftarrow> unet_add ne mode fd s;
                   t \<leftarrow> get_unet_table fd s;
                   let s = (if t = None then s
                            else desc_put fd ((desc_of s fd)\<lparr>d_flag := d_flag (desc_of s fd) OR DF_INBOUND\<rparr>) s)
                   in do {
                     s \<leftarrow> (if b_accept (n_bind s m) = None then Some s
                          else do { a \<leftarrow> e_shaddr (n_env ne) fd; run_accept ne (Some m) fd a s });
                     Some ((0, Some fd), s) } } })"

text \<open>
  \<open>unet_connect\<close> keeps the result of \<open>shnet_sk\<close> in an unsigned variable, so that its failure is
  found by the comparison with \<open>MAX_UNET_SOCKETS\<close>.
\<close>

definition unet_connect :: "nenv \<Rightarrow> int \<Rightarrow> addr \<Rightarrow> net \<Rightarrow> ((int \<times> int option) \<times> net) option" where
  "unet_connect ne mode a s =
     (let fd = n_sk ne (n_tick s);
          s = tick s;
          s = (if fd < 0 then s else fd_install fd s)
      in if fd < 0 \<or> fd \<ge> MAX_UNET_SOCKETS then Some ((SHERR_AGAIN, None), sk_close fd s)
         else
           let err = n_conn ne (n_tick s) fd a;
               s = tick s;
               (err, s) = (if err = SHERR_INPROGRESS
                  then let r = n_selw ne (n_tick s) fd
                       in (if r > 0 then 0 else if r = 0 then SHERR_TIMEDOUT
                           else - int (n_errno ne (n_tick s)), tick s)
                  else (err, s))
           in if err \<noteq> 0 then Some ((err, None), sk_close fd s)
              else do {
                (_, s) \<leftarrow> unet_add ne mode fd s;
                s \<leftarrow> run_accept ne (unet_bind_table mode) fd a s;
                m \<leftarrow> unet_bind_table mode;
                let s = (if b_flag (n_bind s m) AND DF_PEER_SCAN \<noteq> 0
                         then unet_peer_incr ne mode (n_peer ne (unet_mode_label mode) (n_print ne a)) s
                         else s)
                in Some ((0, Some fd), s) })"

section \<open>Binding\<close>

text \<open>
  \<open>unet_bind\<close>, its flag reduced to \<open>UNET_BIND_LOCAL\<close>. A socket that cannot be bound stays open.
\<close>

definition unet_bind :: "nenv \<Rightarrow> int \<Rightarrow> int \<Rightarrow> bool \<Rightarrow> net \<Rightarrow> (int \<times> net) option" where
  "unet_bind ne mode port local s = do {
     m \<leftarrow> unet_bind_table mode;
     if b_fd (n_bind s m) \<noteq> 0 then Some (0, s)
     else
       let sk = n_sk ne (n_tick s)
       in if sk = -1 then Some (- int (n_errno ne (n_tick s)), tick s)
          else
            let s = fd_install sk (tick s);
                err = n_bindsk ne (n_tick s) local port;
                s = tick s
            in if err \<noteq> 0 then Some (err, s)
               else
                 let s = tick (bind_upd m (\<lambda>b. b\<lparr>b_fd := sk, b_port := port, b_scan_stamp := now ne s,
                       b_freq := n_rnd ne (1 / 40),
                       b_peer := n_peer ne (unet_mode_label mode) (''127.0.0.1 '' @ int_str port),
                       b_db := unet_mode_label mode\<rparr>) s)
                 in do {
                   (_, s) \<leftarrow> claim ne sk mode DF_LISTEN s;
                   Some (0, s) } }"

definition unet_unbind :: "nenv \<Rightarrow> int \<Rightarrow> net \<Rightarrow> (int option \<times> net) option" where
  "unet_unbind ne mode s = do {
     m \<leftarrow> unet_bind_table mode;
     if b_fd (n_bind s m) = 0 then Some (Some SHERR_INVAL, s)
     else do {
       (_, s) \<leftarrow> unet_close_all ne mode s;
       s \<leftarrow> release ne (b_fd (n_bind s m)) s;
       Some (None, bind_upd m (\<lambda>b. b\<lparr>b_db := None, b_fd := 0\<rparr>) s) } }"


section \<open>What the operations do\<close>

abbreviation socks :: "net \<Rightarrow> nat \<Rightarrow> desc_t" where
  "socks s \<equiv> desc_table (nw s)"

abbreviation has_table :: "net \<Rightarrow> bool" where
  "has_table s \<equiv> w_desc (nw s) \<noteq> None"

text \<open>
  Callbacks for closed sockets return and leave the descriptors and the services alone: those of the
  program (\<open>shc_server_close\<close>, \<open>usde_server_close\<close> and \<open>emc2_server_close\<close> of \<^verbatim>\<open>server_iface.cpp\<close>,
  \<open>stratum_close\<close> of \<^verbatim>\<open>stratum/stratum.c\<close>) only mark the peer in the lists of the server.
\<close>

definition closers_ok :: "nenv \<Rightarrow> bool" where
  "closers_ok ne \<longleftrightarrow> (\<forall>f sk a s. \<exists>s'. n_call ne (CbClose f sk a) s = Some s' \<and> nw s' = nw s \<and> n_bind s' = n_bind s)"

lemma nw_upd [simp]:
  "nw (tick s) = nw s" "nw (bind_upd m f s) = nw s" "nw (track c s) = nw s"
  by (simp_all add: tick_def bind_upd_def track_def)

lemma n_bind_upd [simp]:
  "n_bind (tick s) = n_bind s" "n_bind (sk_close fd s) = n_bind s" "n_bind (fd_install fd s) = n_bind s"
  "n_bind (desc_put sk d s) = n_bind s" "n_bind (track c s) = n_bind s"
  "n_bind (bind_upd m f s) = (n_bind s)(m := f (n_bind s m))"
  by (simp_all add: tick_def sk_close_def fd_install_def desc_put_def track_def bind_upd_def)

lemma fd_install_table [simp]:
  "w_desc (nw (fd_install fd s)) = w_desc (nw s)" "desc_table (nw (fd_install fd s)) = desc_table (nw s)"
  by (simp_all add: fd_install_def desc_table_def)

lemma sk_close_table [simp]:
  "w_desc (nw (sk_close fd s)) = w_desc (nw s)" "desc_table (nw (sk_close fd s)) = desc_table (nw s)"
  by (simp_all add: sk_close_def os_close_def desc_table_def)

lemma desc_put_table [simp]:
  "w_desc (nw (desc_put sk d s)) \<noteq> None" "desc_table (nw (desc_put sk d s)) = (desc_table (nw s))(nat sk := d)"
  by (simp_all add: desc_put_def)

lemma fd_install_get: "0 \<le> fd \<Longrightarrow> fd_get (nw (fd_install fd s)) fd = Some FSock"
  by (auto simp: fd_install_def fd_get_def Let_def)

lemma sk_close_get: "fd_get (nw (sk_close fd s)) fd = None"
  by (simp add: sk_close_def os_close_def fd_get_def)

lemma fd_get_put [simp]: "fd_get (nw (desc_put sk d s)) fd = fd_get (nw s) fd"
  by (simp add: desc_put_def desc_set_def fd_get_def)

lemma get_unet_table_ok:
  assumes "has_table s" and "slot_fd sk"
  shows "get_unet_table sk s = Some (if d_flag (socks s (nat sk)) = 0 then None else Some (nat sk))"
  unfolding get_unet_table_def using assms by (rule descriptor_get_ok)

lemma all_sockets_iff [simp]: "sk \<in> set all_sockets \<longleftrightarrow> 1 \<le> sk \<and> sk < 4096"
  by (auto simp: all_sockets_def)

lemma slot_fd_int: "sk < 4096 \<Longrightarrow> slot_fd (int sk)"
  by (simp add: slot_fd_def)

subsection \<open>Closing\<close>

lemma release_ok:
  assumes "slot_fd sk"
  shows "\<exists>s'. release ne sk s = Some s' \<and> has_table s' \<and> socks s' = (socks s)(nat sk := zero_desc) \<and>
    n_bind s' = n_bind s \<and> w_fd (nw s') = (if fd_obj (n_env ne) (nw s) sk = None then w_fd (nw s) else (w_fd (nw s))[nat sk := None])"
proof -
  have "fd_obj (cur ne s) (nw s) sk = fd_obj (n_env ne) (nw s) sk"
    by (auto simp: fd_obj_def os_fstat_def cur_def split: option.splits)
  with descriptor_release_slot [OF assms, of "cur ne s" "nw s"] show ?thesis
    by (auto simp: release_def)
qed

lemma unet_close_ok:
  assumes "closers_ok ne" and "has_table s" and "slot_fd sk" and "d_flag (socks s (nat sk)) \<noteq> 0"
  shows "\<exists>s'. unet_close ne sk s = Some (None, s') \<and> has_table s' \<and> n_bind s' = n_bind s \<and>
    socks s' = (socks s)(nat sk := zero_desc) \<and>
    w_fd (nw s') = (if fd_obj (n_env ne) (nw s) sk = None then w_fd (nw s) else (w_fd (nw s))[nat sk := None])"
proof -
  obtain s1 where s1: "(case unet_bind_table (d_mode (desc_of s sk)) of None \<Rightarrow> Some s
      | Some m \<Rightarrow> (case b_close (n_bind s m) of None \<Rightarrow> Some s
          | Some f \<Rightarrow> n_call ne (CbClose f sk (d_addr (desc_of s sk))) s)) = Some s1"
    and eq: "nw s1 = nw s" "n_bind s1 = n_bind s"
    using assms(1) by (cases "unet_bind_table (d_mode (desc_of s sk))"; cases "b_close (n_bind s (the (unet_bind_table (d_mode (desc_of s sk)))))")
      (auto simp: closers_ok_def, metis)
  show ?thesis
    using release_ok [OF assms(3), of ne s1] s1 eq
    by (auto simp: unet_close_def get_unet_table_ok [OF assms(2,3)] assms(4) Let_def)
qed

definition service_of :: "int \<Rightarrow> desc_t \<Rightarrow> bool" where
  "service_of mode d \<longleftrightarrow> d_mode d = mode \<and> d_flag d AND DF_SERVICE \<noteq> 0"

lemma service_of_used: "service_of mode d \<Longrightarrow> d_flag d \<noteq> 0"
  by (auto simp: service_of_def)

definition closing :: "nenv \<Rightarrow> net \<Rightarrow> bool" where
  "closing ne s \<longleftrightarrow> closers_ok ne \<and> has_table s"

text \<open>The loops that close sockets are sweeps over the descriptor table.\<close>

interpretation close_all: slot_sweep "closing ne" socks
  "\<lambda>_ d. if service_of mode d then zero_desc else d" "unet_close_all_step ne mode" "\<lambda>i. i < 4096"
proof
  fix s i assume inv: "closing ne s" and i: "i < (4096 :: nat)"
  show "\<exists>s'. unet_close_all_step ne mode i s = Some s' \<and> closing ne s' \<and>
    socks s' = (socks s)(i := if service_of mode (socks s i) then zero_desc else socks s i)"
    using unet_close_ok [of ne s "int i"] inv i
    by (auto simp: unet_close_all_step_def closing_def get_unet_table_ok slot_fd_int desc_of_def
        service_of_def service_of_used)
qed

interpretation close_idle: slot_sweep "closing ne" socks
  "\<lambda>_ d. if idle_socket ne t d then zero_desc else d" "unet_close_idle_step ne t" "\<lambda>i. i < 4096"
proof
  fix s i assume inv: "closing ne s" and i: "i < (4096 :: nat)"
  have "d_flag (socks s i) \<noteq> 0" if "idle_socket ne t (socks s i)"
    using that by (auto simp: idle_socket_def)
  then show "\<exists>s'. unet_close_idle_step ne t i s = Some s' \<and> closing ne s' \<and>
    socks s' = (socks s)(i := if idle_socket ne t (socks s i) then zero_desc else socks s i)"
    using unet_close_ok [of ne s "int i"] inv i
    by (auto simp: unet_close_idle_step_def closing_def get_unet_table_ok slot_fd_int desc_of_def)
qed

lemma distinct_all_sockets [simp]: "distinct all_sockets"
  by (simp add: all_sockets_def)

lemma unet_close_all_ok:
  assumes "closing ne s"
  shows "\<exists>s'. unet_close_all ne mode s = Some (0, s') \<and> closing ne s' \<and>
    socks s' = (\<lambda>j. if 1 \<le> j \<and> j < 4096 \<and> service_of mode (socks s j) then zero_desc else socks s j)"
  using close_all.sweep_ok [OF assms, of all_sockets mode]
  by (auto simp: unet_close_all_def fun_eq_iff)

lemma unet_close_idle_ok:
  assumes "closing ne s"
  shows "\<exists>s'. unet_close_idle ne s = Some s' \<and> closing ne s' \<and>
    socks s' = (\<lambda>j. if 1 \<le> j \<and> j < 4096 \<and> idle_socket ne (now ne s) (socks s j) then zero_desc else socks s j)"
proof -
  have "closing ne (tick s)" using assms by (simp add: closing_def)
  from close_idle.sweep_ok [OF this, of all_sockets "now ne s"] show ?thesis
    by (auto simp: unet_close_idle_def fun_eq_iff)
qed

subsection \<open>Finding a peer\<close>

definition peer_sock :: "nenv \<Rightarrow> int \<Rightarrow> string \<Rightarrow> net \<Rightarrow> nat \<Rightarrow> bool" where
  "peer_sock ne mode ip s sk \<longleftrightarrow> 1 \<le> sk \<and> sk < 4096 \<and> service_of mode (socks s sk) \<and>
     unet_netaddr_str ne (n_peername ne (int sk)) = ip"

lemma unet_peer_find_from_ok:
  assumes "has_table s" and "\<forall>sk\<in>set sks. 1 \<le> sk \<and> sk < 4096"
  shows "unet_peer_find_from ne mode ip s sks =
    Some (case find (peer_sock ne mode ip s) sks of None \<Rightarrow> 0 | Some sk \<Rightarrow> sk)"
  using assms
  by (induction sks)
    (auto simp: get_unet_table_ok slot_fd_int peer_sock_def service_of_def desc_of_def)

lemma unet_peer_find_ok:
  assumes "has_table s"
  shows "\<exists>sk. unet_peer_find ne mode a s = Some sk \<and>
    (if sk = 0 then \<forall>j. \<not> peer_sock ne mode (unet_netaddr_str ne a) s j
     else peer_sock ne mode (unet_netaddr_str ne a) s sk)"
proof -
  let ?P = "peer_sock ne mode (unet_netaddr_str ne a) s"
  have eq: "unet_peer_find ne mode a s = Some (case find ?P all_sockets of None \<Rightarrow> 0 | Some sk \<Rightarrow> sk)"
    unfolding unet_peer_find_def using assms by (intro unet_peer_find_from_ok) auto
  show ?thesis
  proof (cases "find ?P all_sockets")
    case None
    then have "\<not> ?P j" for j
      by (cases "1 \<le> j \<and> j < 4096") (auto simp: find_None_iff peer_sock_def)
    with eq None show ?thesis by simp
  next
    case (Some sk)
    then have "?P sk" by (metis find_Some_iff)
    with eq Some show ?thesis by (auto simp: peer_sock_def)
  qed
qed

subsection \<open>Adding a socket\<close>

lemma fd_obj_cur [simp]: "fd_obj (cur ne s) w fd = fd_obj (n_env ne) w fd"
  by (auto simp: fd_obj_def os_fstat_def cur_def split: option.splits)

lemma fd_obj_get: "e_fstat e fd = 0 \<Longrightarrow> fd_obj e w fd = fd_get w fd"
  by (auto simp: fd_obj_def os_fstat_def split: option.splits)

lemma claim_ok:
  assumes "slot_fd sk"
  shows "\<exists>s'. claim ne sk mode flag s = Some (Some (nat sk), s') \<and> has_table s' \<and>
    socks s' = (socks s)(nat sk := claimed (cur ne s) sk mode flag (fd_obj (n_env ne) (nw s) sk) (socks s (nat sk))) \<and>
    n_bind s' = n_bind s \<and> w_fd (nw s') = w_fd (nw s)"
  using descriptor_claim_ok [OF assms, of "cur ne s" mode flag "nw s"]
  by (auto simp: claim_def)

lemma claim_any:
  assumes "0 \<le> sk" and "has_table s"
  shows "\<exists>r s'. claim ne sk mode flag s = Some (r, s') \<and> has_table s' \<and> n_bind s' = n_bind s \<and>
    (\<forall>j. j \<noteq> nat sk \<longrightarrow> socks s' j = socks s j)"
proof (cases "slot_fd sk")
  case True
  from claim_ok [OF this, of ne mode flag s] show ?thesis by auto
next
  case False
  with assms show ?thesis by (auto simp: claim_def descriptor_claim_def slot_fd_def)
qed

text \<open>The slot of a new connection.\<close>

definition new_sock :: "nenv \<Rightarrow> net \<Rightarrow> int \<Rightarrow> int \<Rightarrow> desc_t \<Rightarrow> desc_t" where
  "new_sock ne s fd mode d = claimed (cur ne s) fd mode DF_SERVICE (Some FSock) d"

lemma new_sock_flag [simp]: "d_flag (new_sock ne s fd mode d) = DF_SERVICE OR DF_SOCK"
  by (simp add: new_sock_def claimed_def)

lemma new_sock_sel [simp]: "d_mode (new_sock ne s fd mode d) = mode"
  by (simp add: new_sock_def claimed_def)

lemma unet_add_ok:
  assumes "slot_fd fd" and "fd_get (nw s) fd = Some FSock" and "e_fstat (n_env ne) fd = 0"
  shows "\<exists>s'. unet_add ne mode fd s = Some (0, s') \<and> has_table s' \<and> n_bind s' = n_bind s \<and>
    socks s' = (socks s)(nat fd := new_sock ne s fd mode (socks s (nat fd))) \<and> w_fd (nw s') = w_fd (nw s)"
  using claim_ok [OF assms(1), of ne mode DF_SERVICE s] assms(2,3)
  by (auto simp: unet_add_def new_sock_def fd_obj_get)

subsection \<open>Accepting\<close>

text \<open>A pending connection of a service: its socket and its address.\<close>

definition incoming :: "nenv \<Rightarrow> int \<Rightarrow> net \<Rightarrow> int \<Rightarrow> addr \<Rightarrow> bool" where
  "incoming ne mode s fd a \<longleftrightarrow> 0 \<le> mode \<and> mode < MAX_UNET_MODES \<and> b_fd (n_bind s (nat mode)) \<noteq> 0 \<and>
     n_acc ne (n_tick s) (b_fd (n_bind s (nat mode))) = fd \<and> 0 < fd \<and> fd < 4096 \<and>
     e_shaddr (n_env ne) fd = Some a \<and> e_fstat (n_env ne) fd = 0 \<and> has_table s"

lemma peer_sock_cong: "socks s = socks s' \<Longrightarrow> peer_sock ne mode ip s = peer_sock ne mode ip s'"
  by (simp add: peer_sock_def fun_eq_iff)

definition refused :: "nenv \<Rightarrow> int \<Rightarrow> net \<Rightarrow> int \<Rightarrow> addr \<Rightarrow> bool" where
  "refused ne mode s fd a \<longleftrightarrow> mode < MAX_UNET_COIN_MODES \<and>
     ((\<exists>sk. peer_sock ne mode (unet_netaddr_str ne a) s sk) \<or>
      unet_hostname ne (n_peername ne fd) \<in> set (n_ip s))"

lemma n_ip_upd [simp]: "n_ip (fd_install fd s) = n_ip s" "n_ip (tick s) = n_ip s"
  by (simp_all add: fd_install_def tick_def)

lemma unet_accept_found:
  assumes "incoming ne mode s fd a"
  shows "\<exists>dup. (if mode < MAX_UNET_COIN_MODES
      then do { a \<leftarrow> e_shaddr (n_env ne) fd; unet_peer_find ne mode a (fd_install fd (tick s)) } else Some 0) = Some dup \<and>
    (mode < MAX_UNET_COIN_MODES \<and> (dup \<noteq> 0 \<or> unet_local_verify_fd ne fd (fd_install fd (tick s)))
      \<longleftrightarrow> refused ne mode s fd a)"
proof -
  let ?s = "fd_install fd (tick s)"
  have "has_table ?s" using assms by (simp add: incoming_def)
  from unet_peer_find_ok [OF this, of ne mode a] obtain sk where
    "unet_peer_find ne mode a ?s = Some sk"
    "if sk = 0 then \<forall>j. \<not> peer_sock ne mode (unet_netaddr_str ne a) ?s j
     else peer_sock ne mode (unet_netaddr_str ne a) ?s sk" by blast
  moreover have "peer_sock ne mode ip ?s = peer_sock ne mode ip s" for ip
    by (rule peer_sock_cong) simp
  ultimately show ?thesis
    using assms by (auto simp: incoming_def refused_def unet_local_verify_fd_def unet_local_verify_def split: if_splits)
qed

lemma unet_accept_refused:
  assumes "incoming ne mode s fd a" and "refused ne mode s fd a"
  shows "\<exists>s'. unet_accept ne mode s = Some ((SHERR_NOTUNIQ, None), s') \<and> has_table s' \<and> socks s' = socks s \<and>
    n_bind s' = n_bind s \<and> fd_get (nw s') fd = None"
  using unet_accept_found [OF assms(1)] assms
  by (auto simp: unet_accept_def unet_bind_table_def incoming_def Let_def sk_close_get)

lemma unet_accept_ok:
  assumes "incoming ne mode s fd a" and "\<not> refused ne mode s fd a"
  shows "\<exists>s'. unet_accept ne mode s = map_option (Pair (0, Some fd)) (run_accept ne (Some (nat mode)) fd a s') \<and>
    has_table s' \<and> n_bind s' = n_bind s \<and> fd_get (nw s') fd = Some FSock \<and>
    socks s' = (socks s)(nat fd := (new_sock ne (tick s) fd mode (socks s (nat fd)))
      \<lparr>d_flag := DF_SERVICE OR DF_SOCK OR DF_INBOUND\<rparr>)"
proof -
  let ?s = "fd_install fd (tick s)"
  have fd: "slot_fd fd" "0 \<le> fd" using assms(1) by (auto simp: incoming_def slot_fd_def)
  have "new_sock ne ?s = new_sock ne (tick s)"
    by (simp add: new_sock_def cur_def now_def fd_install_def fun_eq_iff)
  with unet_add_ok [OF fd(1) fd_install_get [OF fd(2), of "tick s"], of ne mode] assms(1) obtain s1 where
    s1: "unet_add ne mode fd ?s = Some (0, s1)" "has_table s1" "n_bind s1 = n_bind s"
      "socks s1 = (socks s)(nat fd := new_sock ne (tick s) fd mode (socks s (nat fd)))"
      "w_fd (nw s1) = w_fd (nw ?s)"
    by (auto simp: incoming_def)
  let ?s' = "desc_put fd ((desc_of s1 fd)\<lparr>d_flag := d_flag (desc_of s1 fd) OR DF_INBOUND\<rparr>) s1"
  have get: "get_unet_table fd s1 = Some (Some (nat fd))"
    by (simp add: get_unet_table_ok s1 fd df_defs)
  have open_fd: "fd_get (nw ?s') fd = Some FSock"
    using fd_install_get [OF fd(2), of "tick s"] s1(5) by (simp only: fd_get_put) (auto simp: fd_get_def split: if_splits)
  obtain dup where dup: "(if mode < MAX_UNET_COIN_MODES
      then do { a \<leftarrow> e_shaddr (n_env ne) fd; unet_peer_find ne mode a ?s } else Some 0) = Some dup"
    "\<not> (mode < MAX_UNET_COIN_MODES \<and> (dup \<noteq> 0 \<or> unet_local_verify_fd ne fd ?s))"
    using unet_accept_found [OF assms(1)] assms(2) by metis
  have bt: "unet_bind_table mode = Some (nat mode)"
    using assms(1) by (simp add: incoming_def unet_bind_table_def)
  have "unet_accept ne mode s = map_option (Pair (0, Some fd)) (run_accept ne (Some (nat mode)) fd a ?s')"
    using assms(1) dup bt get s1(1)
    by (auto simp: unet_accept_def incoming_def Let_def run_accept_def map_option_case
        split: option.splits)
  moreover have "socks ?s' = (socks s)(nat fd := (new_sock ne (tick s) fd mode (socks s (nat fd)))
      \<lparr>d_flag := DF_SERVICE OR DF_SOCK OR DF_INBOUND\<rparr>)"
    by (simp add: s1(4) desc_of_def or.assoc)
  ultimately show ?thesis using s1(2,3) open_fd
    by (intro exI [of _ ?s']) simp
qed

subsection \<open>Connecting\<close>

text \<open>The outcome of \<open>shconnect\<close> and, when it is in progress, of the wait for it.\<close>

definition conn_result :: "nenv \<Rightarrow> int \<Rightarrow> addr \<Rightarrow> nat \<Rightarrow> int" where
  "conn_result ne fd a t =
     (let err = n_conn ne t fd a; r = n_selw ne (Suc t) fd
      in if err = SHERR_INPROGRESS
         then if r > 0 then 0 else if r = 0 then SHERR_TIMEDOUT else - int (n_errno ne (Suc t)) else err)"

lemma n_tick_upd [simp]: "n_tick (tick s) = Suc (n_tick s)" "n_tick (fd_install fd s) = n_tick s"
  by (simp_all add: tick_def fd_install_def)

lemma unet_connect_failed:
  assumes "n_sk ne (n_tick s) = fd" and "0 \<le> fd" and "fd < 4096"
    and "conn_result ne fd a (Suc (n_tick s)) \<noteq> 0"
  shows "\<exists>s'. unet_connect ne mode a s = Some ((conn_result ne fd a (Suc (n_tick s)), None), s') \<and>
    socks s' = socks s \<and> w_desc (nw s') = w_desc (nw s) \<and> n_bind s' = n_bind s \<and> fd_get (nw s') fd = None"
  using assms by (auto simp: unet_connect_def conn_result_def Let_def sk_close_get)

lemma unet_connect_no_socket:
  assumes "n_sk ne (n_tick s) < 0 \<or> 4096 \<le> n_sk ne (n_tick s)"
  shows "\<exists>s'. unet_connect ne mode a s = Some ((SHERR_AGAIN, None), s') \<and> socks s' = socks s \<and>
    w_desc (nw s') = w_desc (nw s) \<and> n_bind s' = n_bind s"
  using assms by (auto simp: unet_connect_def Let_def)

text \<open>What follows the registration of the socket: the callback and the rating of the peer.\<close>

definition connected :: "nenv \<Rightarrow> int \<Rightarrow> int \<Rightarrow> addr \<Rightarrow> net \<Rightarrow> ((int \<times> int option) \<times> net) option" where
  "connected ne mode fd a s = do {
     s \<leftarrow> run_accept ne (unet_bind_table mode) fd a s;
     m \<leftarrow> unet_bind_table mode;
     Some ((0, Some fd), if b_flag (n_bind s m) AND DF_PEER_SCAN \<noteq> 0
       then unet_peer_incr ne mode (n_peer ne (unet_mode_label mode) (n_print ne a)) s else s) }"

lemma unet_connect_ok:
  assumes "n_sk ne (n_tick s) = fd" and "0 \<le> fd" and "fd < 4096" and "e_fstat (n_env ne) fd = 0"
    and "conn_result ne fd a (Suc (n_tick s)) = 0"
  shows "\<exists>s'. unet_connect ne mode a s = connected ne mode fd a s' \<and> has_table s' \<and> n_bind s' = n_bind s \<and>
    (\<forall>j. j \<noteq> nat fd \<longrightarrow> socks s' j = socks s j) \<and>
    d_mode (socks s' (nat fd)) = mode \<and> d_flag (socks s' (nat fd)) = DF_SERVICE OR DF_SOCK \<and>
    fd_get (nw s') fd = Some FSock"
proof -
  let ?s = "tick (fd_install fd (tick s))"
  let ?s1 = "if n_conn ne (n_tick (fd_install fd (tick s))) fd a = SHERR_INPROGRESS then tick ?s else ?s"
  have fd: "slot_fd fd" using assms by (simp add: slot_fd_def)
  have nw1: "nw ?s1 = nw (fd_install fd (tick s))" "n_bind ?s1 = n_bind s" by simp_all
  have "fd_get (nw ?s1) fd = Some FSock" unfolding nw1 by (rule fd_install_get [OF assms(2)])
  from unet_add_ok [OF fd this assms(4), of mode] obtain s' where
    s': "unet_add ne mode fd ?s1 = Some (0, s')" "has_table s'" "n_bind s' = n_bind s"
      "socks s' = (socks s)(nat fd := new_sock ne ?s1 fd mode (socks s (nat fd)))"
      "w_fd (nw s') = w_fd (nw (fd_install fd (tick s)))"
    by (auto simp: nw1)
  have "unet_connect ne mode a s = connected ne mode fd a s'"
    using assms s'(1) by (auto simp: unet_connect_def conn_result_def Let_def connected_def split: if_splits)
  moreover have "fd_get (nw s') fd = Some FSock"
    using fd_install_get [OF assms(2), of "tick s"] s'(5) by (auto simp: fd_get_def split: if_splits)
  ultimately show ?thesis using s' by (intro exI [of _ s']) simp
qed

subsection \<open>Writing and unbinding\<close>

lemma unet_write_ok:
  assumes "has_table s" and "slot_fd sk" and "data \<noteq> []"
  shows "\<exists>s'. unet_write ne sk False data s =
      Some (if d_flag (socks s (nat sk)) AND DF_SERVICE \<noteq> 0 then 0 else SHERR_BADF, s') \<and>
    has_table s' \<and> n_bind s' = n_bind s \<and> w_fd (nw s') = w_fd (nw s) \<and>
    socks s' = (if d_flag (socks s (nat sk)) AND DF_SERVICE \<noteq> 0
      then (socks s)(nat sk := (socks s (nat sk))\<lparr>d_wbuff := Some (n_cat ne (buf (d_wbuff (socks s (nat sk)))) data)\<rparr>)
      else socks s)"
proof (cases "d_flag (socks s (nat sk)) AND DF_SERVICE = 0")
  case True
  with assms show ?thesis by (simp add: unet_write_def get_unet_table_ok desc_of_def)
next
  case False
  then have "d_flag (socks s (nat sk)) \<noteq> 0" by auto
  with False assms show ?thesis
    by (simp add: unet_write_def get_unet_table_ok desc_of_def descriptor_wbuff_add_ok)
qed

lemma unet_unbind_ok:
  assumes "closing ne s" and "0 \<le> mode" and "mode < MAX_UNET_MODES"
    and "fd = b_fd (n_bind s (nat mode))" and "fd \<noteq> 0" and "slot_fd fd"
  shows "\<exists>s'. unet_unbind ne mode s = Some (None, s') \<and> closing ne s' \<and>
    n_bind s' = (n_bind s)(nat mode := (n_bind s (nat mode))\<lparr>b_db := None, b_fd := 0\<rparr>) \<and>
    socks s' = (\<lambda>j. if j = nat fd \<or> 1 \<le> j \<and> j < 4096 \<and> service_of mode (socks s j) then zero_desc else socks s j)"
proof -
  have step: "\<exists>s'. unet_close_all_step ne mode sk s1 = Some s' \<and> closing ne s' \<and> n_bind s' = n_bind s"
    if "sk \<in> set all_sockets" "closing ne s1 \<and> n_bind s1 = n_bind s" for sk s1
    using that unet_close_ok [of ne s1 "int sk"]
    by (auto simp: unet_close_all_step_def closing_def get_unet_table_ok slot_fd_int desc_of_def
        service_of_def service_of_used)
  obtain s1 where s1: "unet_close_all ne mode s = Some (0, s1)" "closing ne s1"
      "socks s1 = (\<lambda>j. if 1 \<le> j \<and> j < 4096 \<and> service_of mode (socks s j) then zero_desc else socks s j)"
    using unet_close_all_ok [OF assms(1)] by blast
  have "n_bind s1 = n_bind s"
    using for_each_invariant [where P = "\<lambda>s1. closing ne s1 \<and> n_bind s1 = n_bind s" and s = s and f = "unet_close_all_step ne mode" and js = all_sockets]
      step
      assms(1) s1(1) by (auto simp: unet_close_all_def)
  with release_ok [OF assms(6), of ne s1] s1 assms show ?thesis
    by (auto simp: unet_unbind_def unet_bind_table_def closing_def fun_eq_iff)
qed

end
