(* ===== verification/Unet_Event.thy ===== *)
theory Unet_Event
  imports Unet_Conn
begin

text \<open>
  The event queue of the socket engine, \<^verbatim>\<open>unet_event.c\<close>, with the parts of \<^verbatim>\<open>unet_peer.c\<close> that put
  events into it: peers to be verified and peers to be connected. The table has
  \<open>UNET_MAX_EVENTS\<close> slots; a slot of type 0 is free. An event is named by its slot.
\<close>

section \<open>Slots\<close>

definition ev_put :: "nat \<Rightarrow> uevent_t \<Rightarrow> net \<Rightarrow> net" where
  "ev_put i u s = s\<lparr>n_ev := (n_ev s)(i := u)\<rparr>"

definition ev_slot :: "nat \<Rightarrow> nat \<Rightarrow> nat" where
  "ev_slot start off = (start + off) mod UNET_MAX_EVENTS"

definition uevent_new :: "int \<Rightarrow> int \<Rightarrow> peer option \<Rightarrow> net \<Rightarrow> nat option \<times> net" where
  "uevent_new umode type data s =
     (if type = 0 then (None, s)
      else case find (\<lambda>off. u_type (n_ev s (ev_slot (n_evnew s) off)) = 0) [1..<Suc UNET_MAX_EVENTS] of
        None \<Rightarrow> (None, s)
      | Some off \<Rightarrow>
          let i = ev_slot (n_evnew s) off
          in (Some i, ev_put i ((n_ev s i)\<lparr>u_type := type, u_data := data, u_mode := umode\<rparr>)
                        (s\<lparr>n_evnew := i\<rparr>)))"

definition create_uevent_verify_peer :: "int \<Rightarrow> peer \<Rightarrow> net \<Rightarrow> nat option \<times> net" where
  "create_uevent_verify_peer umode p s = uevent_new umode UEVENT_PEER_VERIFY (Some p) s"

definition create_uevent_connect_peer :: "int \<Rightarrow> peer \<Rightarrow> net \<Rightarrow> nat option \<times> net" where
  "create_uevent_connect_peer umode p s = uevent_new umode UEVENT_PEER_CONN (Some p) s"

text \<open>The bound check of \<open>uevent_clear_pos\<close> admits the position behind the table.\<close>

definition uevent_clear_pos :: "int \<Rightarrow> net \<Rightarrow> net option" where
  "uevent_clear_pos idx s =
     (if idx < 0 \<or> idx > int UNET_MAX_EVENTS then Some s
      else if idx = int UNET_MAX_EVENTS then None
      else Some (ev_put (nat idx) zero_uevent s))"

definition uevent_clear :: "nat \<Rightarrow> net \<Rightarrow> net" where
  "uevent_clear i s = (if i < UNET_MAX_EVENTS then ev_put i zero_uevent s else s)"

definition uevent_type_count :: "int \<Rightarrow> net \<Rightarrow> nat" where
  "uevent_type_count type s = length (filter (\<lambda>i. u_type (n_ev s i) = type) [0..<UNET_MAX_EVENTS])"

section \<open>Handling an event\<close>

definition freq_scaled :: "nenv \<Rightarrow> rat \<Rightarrow> bind_t \<Rightarrow> bind_t" where
  "freq_scaled ne f b = b\<lparr>b_freq := max (n_rnd ne (1 / 1000)) (n_rnd ne (b_freq b * n_rnd ne f))\<rparr>"

text \<open>A peer that failed: it is marked down, the service scans less often, the event loses its socket.\<close>

definition verify_failed :: "nenv \<Rightarrow> nat \<Rightarrow> nat \<Rightarrow> peer \<Rightarrow> net \<Rightarrow> net" where
  "verify_failed ne i m p s =
     (let s = unet_peer_decr ne (u_mode (n_ev s i)) p s;
          s = bind_upd m (freq_scaled ne (9 / 10)) s
      in ev_put i ((n_ev s i)\<lparr>u_fd := 0\<rparr>) s)"

definition uevent_peer_verify :: "nenv \<Rightarrow> nat \<Rightarrow> net \<Rightarrow> int \<times> net" where
  "uevent_peer_verify ne i s =
     (let s = tick s in
      case u_data (n_ev s i) of
        None \<Rightarrow> (0, s)
      | Some p \<Rightarrow>
        (case unet_bind_table (u_mode (n_ev s i)) of
           None \<Rightarrow> (0, s)
         | Some m \<Rightarrow>
           let (err, fd) = n_verify ne (n_tick s) p (u_fd (n_ev s i));
               s = tick (ev_put i ((n_ev s i)\<lparr>u_fd := fd\<rparr>) s)
           in if err = 0 then
                let s = unet_peer_incr ne (u_mode (n_ev s i)) p s;
                    s = bind_upd m (freq_scaled ne (11 / 10)) s;
                    s = snd (create_uevent_connect_peer (u_mode (n_ev s i)) p s)
                in (0, ev_put i ((n_ev s i)\<lparr>u_data := None, u_fd := 0\<rparr>) s)
              else if err \<noteq> SHERR_INPROGRESS then (0, verify_failed ne i m p s)
              else if n_after ne (now ne s) (n_adj ne (b_scan_stamp (n_bind s m)) 3) then
                let s = tick s;
                    s = (if fd \<noteq> 0 then sk_close fd s else s)
                in (0, verify_failed ne i m p s)
              else (SHERR_AGAIN, tick s)))"

text \<open>
  \<open>uevent_cycle_peer_verify\<close>; freeing the peer at its end is left to the clearing of the event,
  which follows whenever it returns 0.
\<close>

definition uevent_cycle_peer_verify :: "nenv \<Rightarrow> nat \<Rightarrow> net \<Rightarrow> (int \<times> net) option" where
  "uevent_cycle_peer_verify ne i s = (case u_data (n_ev s i) of
     None \<Rightarrow> Some (0, s)
   | Some p \<Rightarrow>
     if u_fd (n_ev s i) \<noteq> 0 then Some (uevent_peer_verify ne i s)
     else case unet_bind_table (u_mode (n_ev s i)) of
       None \<Rightarrow> Some (0, s)
     | Some m \<Rightarrow>
       if b_flag (n_bind s m) AND DF_PEER_SCAN = 0 then Some (0, s)
       else
         let (wait, s) = unet_peer_wait ne (n_bind s m) s
         in if wait then Some (SHERR_AGAIN, s)
            else
              let s = tick (bind_upd m (\<lambda>b. b\<lparr>b_scan_stamp := now ne s\<rparr>) s);
                  s = unet_peer_incr ne (u_mode (n_ev s i)) p s
              in do {
                sk \<leftarrow> unet_peer_find ne (u_mode (n_ev s i)) (n_peeraddr ne p) s;
                Some (if sk \<noteq> 0 then (0, s) else uevent_peer_verify ne i s) })"

definition uevent_cycle_peer_conn :: "nenv \<Rightarrow> nat \<Rightarrow> net \<Rightarrow> (int \<times> net) option" where
  "uevent_cycle_peer_conn ne i s = (case u_data (n_ev s i) of
     None \<Rightarrow> Some (0, s)
   | Some p \<Rightarrow> do {
       sk \<leftarrow> unet_peer_find ne (u_mode (n_ev s i)) (n_peeraddr ne p) s;
       if sk \<noteq> 0 then Some (0, s)
       else do {
         (_, s) \<leftarrow> unet_connect ne (u_mode (n_ev s i)) (n_peeraddr ne p) s;
         Some (0, s) } })"

text \<open>One event: handled by its type and cleared when its handler returned 0.\<close>

definition uevent_handle :: "nenv \<Rightarrow> nat \<Rightarrow> net \<Rightarrow> net option" where
  "uevent_handle ne i s = do {
     (err, s) \<leftarrow>
       (if u_type (n_ev s i) = UEVENT_PEER_VERIFY then uevent_cycle_peer_verify ne i s
        else if u_type (n_ev s i) = UEVENT_PEER_CONN then uevent_cycle_peer_conn ne i s
        else Some (0, s));
     if err = 0 then uevent_clear_pos (int i) s else Some s }"

section \<open>The event loop\<close>

text \<open>
  \<open>uevent_cycle\<close> from the slot it stopped at last time: it ends at \<open>e_max\<close>, or after an event when
  more than 0.2 seconds have passed, in which case it stays at that event's slot. \<open>e_max\<close> is
  computed with an unsigned \<open>event_idx - 1\<close>.
\<close>

function uevent_cycle_from :: "nenv \<Rightarrow> u64 \<Rightarrow> nat \<Rightarrow> nat \<Rightarrow> net \<Rightarrow> net option" where
  "uevent_cycle_from ne start e_max i s =
     (if i \<ge> UNET_MAX_EVENTS \<or> e_max \<ge> UNET_MAX_EVENTS then None
      else if i = e_max then Some (s\<lparr>n_evcur := i\<rparr>)
      else if u_type (n_ev s i) = 0 then uevent_cycle_from ne start e_max (Suc i mod UNET_MAX_EVENTS) s
      else do {
        s \<leftarrow> uevent_handle ne i s;
        if n_after ne (now ne s) (n_adj ne start (n_rnd ne (1 / 5))) then Some ((tick s)\<lparr>n_evcur := i\<rparr>)
        else uevent_cycle_from ne start e_max (Suc i mod UNET_MAX_EVENTS) (tick s) })"
  by pat_completeness auto

lemma cycle_dist_less:
  assumes "i < UNET_MAX_EVENTS" and "m < UNET_MAX_EVENTS" and "i \<noteq> m"
  shows "(m + UNET_MAX_EVENTS - Suc i mod UNET_MAX_EVENTS) mod UNET_MAX_EVENTS <
    (m + UNET_MAX_EVENTS - i) mod UNET_MAX_EVENTS"
proof -
  let ?N = UNET_MAX_EVENTS
  have dist: "(m + ?N - k) mod ?N = (if k \<le> m then m - k else m + ?N - k)" if "k < ?N" for k
    using that assms(2) by (auto simp: mod_if)
  show ?thesis
  proof (cases "Suc i = ?N")
    case True
    with assms show ?thesis by (simp add: dist)
  next
    case False
    with assms(1) have "Suc i < ?N" by simp
    with assms show ?thesis by (auto simp: dist)
  qed
qed

termination uevent_cycle_from
  by (relation "measure (\<lambda>(ne, start, e_max, i, s). (e_max + UNET_MAX_EVENTS - i) mod UNET_MAX_EVENTS)")
    (auto intro: cycle_dist_less)

declare uevent_cycle_from.simps [simp del]

definition uevent_cycle :: "nenv \<Rightarrow> net \<Rightarrow> net option" where
  "uevent_cycle ne s =
     (let e_max = unat (of_nat (n_evcur s) - 1 :: u32) mod UNET_MAX_EVENTS
      in uevent_cycle_from ne (now ne s) e_max (n_evcur s) (tick s))"

section \<open>Filling the queue\<close>

definition shc_seed_list :: "string list" where
  "shc_seed_list = [''45.79.197.174'', ''45.79.195.108'']"

definition usde_seed_list :: "string list" where
  "usde_seed_list = [''45.79.197.174'', ''45.79.195.108'', ''69.41.171.40'']"

definition emc2_seed_list :: "string list" where
  "emc2_seed_list = [''45.79.197.174'', ''45.79.195.108'', ''98.115.147.74'']"

definition add_events :: "(int \<Rightarrow> peer \<Rightarrow> net \<Rightarrow> nat option \<times> net) \<Rightarrow> int \<Rightarrow> peer list \<Rightarrow> net \<Rightarrow> net" where
  "add_events create mode ps s = fold (\<lambda>p s. snd (create mode p s)) ps s"

text \<open>The lists of peers end at their first \<open>NULL\<close> or at the size asked for.\<close>

definition unet_peer_scan_step :: "nenv \<Rightarrow> nat \<Rightarrow> net \<Rightarrow> net option" where
  "unet_peer_scan_step ne m s =
     (if b_flag (n_bind s m) AND DF_PEER_SCAN = 0 then Some s
      else
        let (wait, s) = unet_peer_wait ne (n_bind s m) s
        in if wait then Some s
           else Some (case n_scan ne (n_tick s) (b_db (n_bind s m)) of
             None \<Rightarrow> tick s
           | Some ps \<Rightarrow> add_events create_uevent_verify_peer (int m) (take 64 ps) (tick s)))"

definition unet_peer_scan :: "nenv \<Rightarrow> net \<Rightarrow> net option" where
  "unet_peer_scan ne s = for_each [0..<nat MAX_UNET_MODES] (unet_peer_scan_step ne) s"

definition unet_peer_fill_seed :: "nenv \<Rightarrow> int \<Rightarrow> net \<Rightarrow> net" where
  "unet_peer_fill_seed ne mode s = (case unet_bind_table mode of
     None \<Rightarrow> s
   | Some m \<Rightarrow>
       let seeds = (if mode = UNET_SHC then shc_seed_list else if mode = UNET_USDE then usde_seed_list
                    else if mode = UNET_EMC2 then emc2_seed_list else []);
           mk = (\<lambda>h. n_peer ne (unet_mode_label mode) (h @ '' '' @ int_str (b_port (n_bind s m))))
       in add_events create_uevent_verify_peer mode (map mk seeds) s)"

definition unet_peer_fill :: "nenv \<Rightarrow> int \<Rightarrow> net \<Rightarrow> net" where
  "unet_peer_fill ne mode s = (case unet_bind_table mode of
     None \<Rightarrow> s
   | Some m \<Rightarrow>
       let ps = (case n_list ne (n_tick s) (b_db (n_bind s m)) of None \<Rightarrow> [] | Some ps \<Rightarrow> take 8 ps);
           s = add_events create_uevent_connect_peer mode ps (tick s)
       in if ps = [] \<and> n_seed ne then unet_peer_fill_seed ne mode s else s)"

definition unet_bind_flag_set :: "nenv \<Rightarrow> int \<Rightarrow> u32 \<Rightarrow> net \<Rightarrow> net" where
  "unet_bind_flag_set ne mode flags s =
     (if mode < 0 \<or> mode \<ge> MAX_UNET_MODES then s
      else
        let s = bind_upd (nat mode) (\<lambda>b. b\<lparr>b_flag := b_flag b OR flags\<rparr>) s
        in if flags AND DF_PEER_SCAN \<noteq> 0 then unet_peer_fill ne mode s else s)"


section \<open>What the queue operations do\<close>

lemma max_events [simp]: "UNET_MAX_EVENTS = 20480"
  by (simp add: UNET_MAX_EVENTS_def)

lemma n_ev_put [simp]: "n_ev (ev_put i u s) = (n_ev s)(i := u)"
  by (simp add: ev_put_def)

text \<open>The search of \<open>uevent_new\<close> visits every slot once.\<close>

lemma ev_slot_surj:
  assumes "start < 20480" and "i < 20480"
  shows "\<exists>off\<in>set [1..<Suc UNET_MAX_EVENTS]. ev_slot start off = i"
proof (cases "start < i")
  case True
  with assms show ?thesis by (intro bexI [of _ "i - start"]) (auto simp: ev_slot_def)
next
  case False
  then have "start + (i + 20480 - start) = i + 20480" using assms by simp
  then have "ev_slot start (i + 20480 - start) = i"
    using assms by (simp add: ev_slot_def)
  moreover have "i + 20480 - start \<in> set [1..<Suc UNET_MAX_EVENTS]" using False assms by auto
  ultimately show ?thesis by blast
qed

lemma uevent_new_ok:
  assumes "type \<noteq> 0" and "n_evnew s < 20480"
  shows "if \<exists>i < 20480. u_type (n_ev s i) = 0
    then \<exists>i. i < 20480 \<and> u_type (n_ev s i) = 0 \<and> uevent_new mode type data s =
      (Some i, ev_put i ((n_ev s i)\<lparr>u_type := type, u_data := data, u_mode := mode\<rparr>) (s\<lparr>n_evnew := i\<rparr>))
    else uevent_new mode type data s = (None, s)"
proof (cases "find (\<lambda>off. u_type (n_ev s (ev_slot (n_evnew s) off)) = 0) [1..<Suc UNET_MAX_EVENTS]")
  case None
  have "u_type (n_ev s i) \<noteq> 0" if "i < 20480" for i
    using ev_slot_surj [OF assms(2) that] None by (auto simp: find_None_iff)
  with None assms show ?thesis by (auto simp: uevent_new_def)
next
  case (Some off)
  let ?i = "ev_slot (n_evnew s) off"
  have "u_type (n_ev s ?i) = 0" "?i < 20480"
    using Some by (auto simp: find_Some_iff ev_slot_def)
  moreover have "uevent_new mode type data s =
      (Some ?i, ev_put ?i ((n_ev s ?i)\<lparr>u_type := type, u_data := data, u_mode := mode\<rparr>) (s\<lparr>n_evnew := ?i\<rparr>))"
    using Some assms(1) by (simp add: uevent_new_def Let_def)
  ultimately show ?thesis by auto
qed

section \<open>The engine stays inside its tables\<close>

text \<open>
  The invariant of the engine: there is a descriptor table, the positions in the event table are
  inside it, and the events in it belong to a service.
\<close>

definition eng_inv :: "net \<Rightarrow> bool" where
  "eng_inv s \<longleftrightarrow> has_table s \<and> n_evnew s < 20480 \<and> n_evcur s < 20480 \<and>
     (\<forall>i < 20480. u_type (n_ev s i) \<noteq> 0 \<longrightarrow> 0 \<le> u_mode (n_ev s i) \<and> u_mode (n_ev s i) < MAX_UNET_MODES)"

text \<open>
  What code outside the engine can do to it between call and return: anything that leaves the
  descriptor table in place, which nothing deallocates, and the event table alone, whose variables
  are static; and creating events of a service with the two functions that \<^verbatim>\<open>unet.h\<close> exports.
\<close>

inductive outside :: "net \<Rightarrow> net \<Rightarrow> bool" where
  other: "has_table s' \<Longrightarrow> n_evnew s' = n_evnew s \<Longrightarrow> n_evcur s' = n_evcur s \<Longrightarrow> n_ev s' = n_ev s \<Longrightarrow> outside s s'"
| verify: "0 \<le> mode \<Longrightarrow> mode < MAX_UNET_MODES \<Longrightarrow> outside s (snd (create_uevent_verify_peer mode p s))"
| connect: "0 \<le> mode \<Longrightarrow> mode < MAX_UNET_MODES \<Longrightarrow> outside s (snd (create_uevent_connect_peer mode p s))"
| step: "outside s s' \<Longrightarrow> outside s' s'' \<Longrightarrow> outside s s''"

text \<open>
  What the engine needs of its environment: the callbacks return, and an accepted socket has an
  address.
\<close>

definition ne_ok :: "nenv \<Rightarrow> bool" where
  "ne_ok ne \<longleftrightarrow> (\<forall>c s. has_table s \<longrightarrow> (\<exists>s'. n_call ne c s = Some s' \<and> outside s s')) \<and>
     (\<forall>fd > 0. e_shaddr (n_env ne) fd \<noteq> None)"

lemma eng_inv_upd [simp]:
  "eng_inv (tick s) = eng_inv s" "eng_inv (track c s) = eng_inv s" "eng_inv (bind_upd m f s) = eng_inv s"
  "eng_inv (sk_close fd s) = eng_inv s" "eng_inv (fd_install fd s) = eng_inv s"
  "eng_inv (s\<lparr>n_next_t := x\<rparr>) = eng_inv s" "eng_inv (s\<lparr>n_idle_t := y\<rparr>) = eng_inv s"
  "eng_inv (s\<lparr>n_start_t := z\<rparr>) = eng_inv s"
  unfolding eng_inv_def
  by (simp_all add: tick_def track_def bind_upd_def sk_close_def fd_install_def os_close_def desc_table_def)

lemma eng_inv_peer [simp]:
  "eng_inv (unet_peer_incr ne mode p s) = eng_inv s" "eng_inv (unet_peer_decr ne mode p s) = eng_inv s"
  by (auto simp: unet_peer_incr_def unet_peer_decr_def Let_def split: option.splits)

lemma n_ev_upd [simp]:
  "n_ev (tick s) = n_ev s" "n_ev (track c s) = n_ev s" "n_ev (bind_upd m f s) = n_ev s" "n_ev (sk_close fd s) = n_ev s"
  by (simp_all add: tick_def track_def bind_upd_def sk_close_def)

lemma n_ev_peer [simp]:
  "n_ev (unet_peer_incr ne mode p s) = n_ev s" "n_ev (unet_peer_decr ne mode p s) = n_ev s"
  by (auto simp: unet_peer_incr_def unet_peer_decr_def Let_def split: option.splits)

lemma eng_inv_put:
  assumes "eng_inv s" and "u_type u = u_type (n_ev s i)" and "u_mode u = u_mode (n_ev s i)"
  shows "eng_inv (ev_put i u s)"
  using assms by (auto simp: eng_inv_def ev_put_def)

lemma eng_inv_new:
  assumes "eng_inv s" and "type \<noteq> 0" and "0 \<le> mode" and "mode < MAX_UNET_MODES"
  shows "eng_inv (snd (uevent_new mode type data s))"
proof -
  have "n_evnew s < 20480" using assms(1) by (simp add: eng_inv_def)
  from uevent_new_ok [OF assms(2) this, of mode data] assms show ?thesis
    by (auto simp: eng_inv_def ev_put_def split: if_splits)
qed

lemma eng_inv_outside: "outside s s' \<Longrightarrow> eng_inv s \<Longrightarrow> eng_inv s'"
proof (induction rule: outside.induct)
  case (other s' s)
  then show ?case by (simp add: eng_inv_def)
qed (simp_all add: create_uevent_verify_peer_def create_uevent_connect_peer_def UEVENT_PEER_VERIFY_def UEVENT_PEER_CONN_def
  eng_inv_new)

lemma eng_inv_call:
  assumes "ne_ok ne" and "eng_inv s"
  shows "\<exists>s'. n_call ne c s = Some s' \<and> eng_inv s'"
proof -
  have "has_table s" using assms(2) by (simp add: eng_inv_def)
  then obtain s' where "n_call ne c s = Some s'" "outside s s'" using assms(1) unfolding ne_ok_def by blast
  with assms(2) eng_inv_outside show ?thesis by blast
qed

lemma eng_inv_clear: "eng_inv s \<Longrightarrow> i < 20480 \<Longrightarrow> \<exists>s'. uevent_clear_pos (int i) s = Some s' \<and> eng_inv s'"
  by (auto simp: uevent_clear_pos_def eng_inv_def ev_put_def zero_uevent_def)

lemma eng_inv_slot:
  assumes "eng_inv s" and "w_desc (nw s') \<noteq> None" and "\<forall>j. j \<noteq> sk \<longrightarrow> socks s' j = socks s j"
    and "n_evnew s' = n_evnew s" "n_evcur s' = n_evcur s" "n_ev s' = n_ev s"
  shows "eng_inv s'"
  using assms unfolding eng_inv_def by metis

lemma eng_inv_close:
  assumes "ne_ok ne" and "eng_inv s" and "slot_fd sk"
  shows "\<exists>r s'. unet_close ne sk s = Some (r, s') \<and> eng_inv s'"
proof (cases "d_flag (socks s (nat sk)) = 0")
  case True
  with assms show ?thesis by (simp add: unet_close_def get_unet_table_ok eng_inv_def)
next
  case False
  obtain s1 where s1: "(case unet_bind_table (d_mode (desc_of s sk)) of None \<Rightarrow> Some s
      | Some m \<Rightarrow> (case b_close (n_bind s m) of None \<Rightarrow> Some s
          | Some f \<Rightarrow> n_call ne (CbClose f sk (d_addr (desc_of s sk))) s)) = Some s1" and inv: "eng_inv s1"
    using assms(2) eng_inv_call [OF assms(1,2)] by (atomize_elim) (simp split: option.split)
  obtain w' where w': "descriptor_release (cur ne s1) sk (nw s1) = Some w'" "w_desc w' \<noteq> None"
      "desc_table w' = (socks s1)(nat sk := zero_desc)"
    using descriptor_release_slot [OF assms(3)] by blast
  have "eng_inv (s1\<lparr>nw := w'\<rparr>)"
    by (rule eng_inv_slot [OF inv, where sk = "nat sk"]) (simp_all add: w' zero_desc_def)
  with s1 w' False assms(2,3) show ?thesis
    by (auto simp: unet_close_def get_unet_table_ok eng_inv_def release_def Let_def)
qed

lemma eng_inv_add:
  assumes "eng_inv s" and "slot_fd fd"
  shows "\<exists>r s'. unet_add ne mode fd s = Some (r, s') \<and> eng_inv s'"
proof -
  from descriptor_claim_ok [OF assms(2), of "cur ne s" mode DF_SERVICE "nw s"] obtain w' where
    w': "descriptor_claim (cur ne s) fd mode DF_SERVICE (nw s) = Some (Some (nat fd), w')" "w_desc w' \<noteq> None"
      "\<forall>j. j \<noteq> nat fd \<longrightarrow> desc_table w' j = socks s j" by auto
  have "eng_inv (s\<lparr>nw := w'\<rparr>)"
    by (rule eng_inv_slot [OF assms(1), where sk = "nat fd"]) (use w' in auto)
  with w' show ?thesis by (simp add: unet_add_def claim_def)
qed

lemma eng_inv_accept_call:
  assumes "ne_ok ne" and "eng_inv s"
  shows "\<exists>s'. run_accept ne m fd a s = Some s' \<and> eng_inv s'"
  using assms(2) eng_inv_call [OF assms] by (auto simp: run_accept_def split: option.splits)

lemma eng_inv_connect:
  assumes ne: "ne_ok ne" and inv: "eng_inv s" and mode: "0 \<le> mode" "mode < MAX_UNET_MODES"
  shows "\<exists>r s'. unet_connect ne mode a s = Some (r, s') \<and> eng_inv s'"
proof -
  let ?fd = "n_sk ne (n_tick s)"
  show ?thesis
  proof (cases "?fd < 0 \<or> ?fd \<ge> MAX_UNET_SOCKETS")
    case True
    with inv show ?thesis by (auto simp: unet_connect_def Let_def)
  next
    case False
    then have fd: "slot_fd ?fd" by (simp add: slot_fd_def)
    let ?s = "tick (fd_install ?fd (tick s))"
    let ?s1 = "if n_conn ne (n_tick (fd_install ?fd (tick s))) ?fd a = SHERR_INPROGRESS then tick ?s else ?s"
    have "eng_inv ?s1" using inv by simp
    from eng_inv_add [OF this fd, of ne mode] obtain r s2 where
      s2: "unet_add ne mode ?fd ?s1 = Some (r, s2)" "eng_inv s2" by auto
    obtain s3 where s3: "run_accept ne (unet_bind_table mode) ?fd a s2 = Some s3" "eng_inv s3"
      using eng_inv_accept_call [OF ne s2(2)] by blast
    have bt: "unet_bind_table mode = Some (nat mode)" using mode by (simp add: unet_bind_table_def)
    show ?thesis
      using False inv s2 s3 bt by (auto simp: unet_connect_def Let_def split: if_splits)
  qed
qed

lemma eng_inv_mode:
  assumes "eng_inv s" and "i < 20480" and "u_type (n_ev s i) \<noteq> 0"
  shows "0 \<le> u_mode (n_ev s i)" "u_mode (n_ev s i) < MAX_UNET_MODES"
  using assms by (auto simp: eng_inv_def)

lemma eng_inv_verify_failed: "eng_inv s \<Longrightarrow> eng_inv (verify_failed ne i m p s)"
  by (simp add: verify_failed_def Let_def eng_inv_put)

lemma eng_inv_peer_verify:
  assumes "eng_inv s"
  shows "eng_inv (snd (uevent_peer_verify ne i s))"
proof (cases "u_data (n_ev s i) = None \<or> unet_bind_table (u_mode (n_ev s i)) = None")
  case True
  with assms show ?thesis by (auto simp: uevent_peer_verify_def Let_def split: option.splits)
next
  case False
  then obtain p m where p: "u_data (n_ev s i) = Some p" and m: "unet_bind_table (u_mode (n_ev s i)) = Some m" by auto
  have mode: "0 \<le> u_mode (n_ev s i)" "u_mode (n_ev s i) < MAX_UNET_MODES"
    using m by (auto simp: unet_bind_table_def split: if_splits)
  obtain err fd where v: "n_verify ne (n_tick (tick s)) p (u_fd (n_ev s i)) = (err, fd)" by fastforce
  define s1 where "s1 = tick (ev_put i ((n_ev s i)\<lparr>u_fd := fd\<rparr>) (tick s))"
  have s1: "eng_inv s1" "u_mode (n_ev s1 i) = u_mode (n_ev s i)"
    using assms by (simp_all add: s1_def eng_inv_put)
  have "eng_inv (snd (uevent_new (u_mode (n_ev s i)) UEVENT_PEER_CONN (Some p)
      (bind_upd m (freq_scaled ne (11 / 10)) (unet_peer_incr ne (u_mode (n_ev s i)) p s1))))"
    by (rule eng_inv_new) (use s1 mode in \<open>simp_all add: UEVENT_PEER_CONN_def\<close>)
  then show ?thesis
    using s1 p m v eng_inv_verify_failed
    by (auto simp: uevent_peer_verify_def Let_def create_uevent_connect_peer_def eng_inv_put simp flip: s1_def)
qed

lemma eng_inv_find:
  assumes "eng_inv s"
  shows "\<exists>sk. unet_peer_find ne mode a s = Some sk"
  using assms unet_peer_find_ok [of s ne mode a] by (auto simp: eng_inv_def)

lemma eng_inv_handle:
  assumes ne: "ne_ok ne" and inv: "eng_inv s" and i: "i < 20480" and ty: "u_type (n_ev s i) \<noteq> 0"
  shows "\<exists>s'. uevent_handle ne i s = Some s' \<and> eng_inv s'"
proof -
  let ?u = "n_ev s i"
  have verify: "\<exists>r s'. uevent_cycle_peer_verify ne i s = Some (r, s') \<and> eng_inv s'"
  proof -
    have out: "\<exists>r s''. uevent_peer_verify ne i s' = (r, s'') \<and> eng_inv s''" if "eng_inv s'" for s'
      using eng_inv_peer_verify [OF that, of ne i] by (metis surj_pair snd_conv)
    define s1 where "s1 m = unet_peer_incr ne (u_mode ?u) (the (u_data ?u))
      (tick (bind_upd m (\<lambda>b. b\<lparr>b_scan_stamp := now ne (tick s)\<rparr>) (tick s)))" for m
    have s1: "eng_inv (s1 m)" for m using inv by (simp add: s1_def)
    show ?thesis
    proof (cases "u_data ?u")
      case None
      with inv show ?thesis by (simp add: uevent_cycle_peer_verify_def)
    next
      case (Some p)
      show ?thesis
      proof (cases "u_fd ?u \<noteq> 0")
        case True
        with Some out [OF inv] show ?thesis by (auto simp: uevent_cycle_peer_verify_def)
      next
        case False
        have bt: "unet_bind_table (u_mode ?u) = Some (nat (u_mode ?u))"
          using eng_inv_mode [OF inv i ty] by (simp add: unet_bind_table_def)
        obtain sk where sk: "unet_peer_find ne (u_mode ?u) (n_peeraddr ne p) (s1 (nat (u_mode ?u))) = Some sk"
          using eng_inv_find [OF s1] by blast
        from Some False bt sk inv s1 out [OF s1, of "nat (u_mode ?u)"] show ?thesis
          by (auto simp: uevent_cycle_peer_verify_def unet_peer_wait_def Let_def s1_def)
      qed
    qed
  qed
  have conn: "\<exists>r s'. uevent_cycle_peer_conn ne i s = Some (r, s') \<and> eng_inv s'"
  proof (cases "u_data ?u")
    case None
    with inv show ?thesis by (simp add: uevent_cycle_peer_conn_def)
  next
    case (Some p)
    obtain sk where "unet_peer_find ne (u_mode ?u) (n_peeraddr ne p) s = Some sk"
      using eng_inv_find [OF inv] by blast
    moreover obtain r s' where "unet_connect ne (u_mode ?u) (n_peeraddr ne p) s = Some (r, s')" "eng_inv s'"
      using eng_inv_connect [OF ne inv eng_inv_mode [OF inv i ty]] by blast
    ultimately show ?thesis using Some inv by (simp add: uevent_cycle_peer_conn_def)
  qed
  obtain err s1 where "(if u_type ?u = UEVENT_PEER_VERIFY then uevent_cycle_peer_verify ne i s
      else if u_type ?u = UEVENT_PEER_CONN then uevent_cycle_peer_conn ne i s else Some (0, s)) = Some (err, s1)" "eng_inv s1"
    using verify conn inv by (metis (full_types))
  with eng_inv_clear [OF this(2) i] show ?thesis by (auto simp: uevent_handle_def)
qed

lemma eng_inv_cycle_from:
  assumes "ne_ok ne" and "e_max < 20480" and "i < 20480" and "eng_inv s"
  shows "\<exists>s'. uevent_cycle_from ne start e_max i s = Some s' \<and> eng_inv s'"
  using assms
proof (induction ne start e_max i s rule: uevent_cycle_from.induct)
  case (1 ne start e_max i s)
  have done_at: "eng_inv (s'\<lparr>n_evcur := i\<rparr>)" if "eng_inv s'" for s'
    using that "1.prems"(3) by (simp add: eng_inv_def)
  show ?case
  proof (cases "i = e_max \<or> u_type (n_ev s i) = 0")
    case True
    with "1.prems" "1.IH"(1) done_at [OF "1.prems"(4)] show ?thesis
      by (subst uevent_cycle_from.simps) auto
  next
    case False
    then obtain s' where s': "uevent_handle ne i s = Some s'" "eng_inv s'"
      using eng_inv_handle [OF "1.prems"(1,4,3)] by blast
    with "1.prems" "1.IH"(2) [OF _ _ _ s'(1)] False done_at [of "tick s'"] show ?thesis
      by (subst uevent_cycle_from.simps) auto
  qed
qed

lemma eng_inv_cycle:
  assumes "ne_ok ne" and "eng_inv s"
  shows "\<exists>s'. uevent_cycle ne s = Some s' \<and> eng_inv s'"
  unfolding uevent_cycle_def Let_def
proof (rule eng_inv_cycle_from)
  show "n_evcur s < 20480" using assms(2) by (simp add: eng_inv_def)
qed (use assms in simp_all)

end
