(* ===== verification/Unet_Cycle.thy ===== *)
theory Unet_Cycle
  imports Unet_Event
begin

text \<open>
  \<open>unet_cycle\<close> of \<^verbatim>\<open>unet.c\<close>, the main loop's step: timers, events, the scan every fifteen seconds,
  the marking of sockets for \<open>select\<close>, the transfer of data and the accepting of connections. The
  static variables \<open>start_t\<close>, \<open>next_t\<close> and \<open>idle_t\<close> are fields of \<^typ>\<open>net\<close>.
\<close>

section \<open>Marking\<close>

text \<open>\<open>FD_SET\<close> past the \<open>FD_SETSIZE\<close> bits of an \<open>fd_set\<close> writes outside it.\<close>

definition FD_SETSIZE :: nat where "FD_SETSIZE = 1024"

record marks =
  m_r :: "nat list"
  m_w :: "nat list"
  m_max :: nat

definition cycle_mark_step :: "nenv \<Rightarrow> nat \<Rightarrow> marks \<times> net \<Rightarrow> (marks \<times> net) option" where
  "cycle_mark_step ne fd = (\<lambda>(k, s). do {
     t \<leftarrow> get_unet_table (int fd) s;
     let d = desc_of s (int fd)
     in if t = None then Some (k, s)
        else if d_flag d AND DF_SOCK \<noteq> 0 \<and> d_flag d AND DF_SHUTDOWN \<noteq> 0 \<and> n_size ne (d_wbuff d) = 0
        then do { (_, s) \<leftarrow> unet_close ne (int fd) s; Some (k, s) }
        else if d_flag d AND DF_SERVICE = 0 then Some (k, s)
        else if fd \<ge> FD_SETSIZE then None
        else Some (\<lparr>m_r = m_r k @ [fd],
                    m_w = (if n_size ne (d_wbuff d) \<noteq> 0 then m_w k @ [fd] else m_w k),
                    m_max = max fd (m_max k)\<rparr>, s) })"

definition cycle_mark :: "nenv \<Rightarrow> net \<Rightarrow> (marks \<times> net) option" where
  "cycle_mark ne s = for_each all_sockets (cycle_mark_step ne) (\<lparr>m_r = [], m_w = [], m_max = 0\<rparr>, s)"

section \<open>The time to wait\<close>

definition idle_next :: "nenv \<Rightarrow> rat \<Rightarrow> rat \<Rightarrow> rat \<Rightarrow> rat" where
  "idle_next ne max_t wait_t idle_t =
     (let idle_t = (if wait_t \<le> idle_t then n_rnd ne (idle_t + n_rnd ne (1 / 1000))
                    else n_rnd ne (idle_t - wait_t))
      in max (n_rnd ne (1 / 100)) (min max_t idle_t))"

definition select_usec :: "nenv \<Rightarrow> rat \<Rightarrow> int" where
  "select_usec ne idle_t = \<lfloor>min 999000 (n_rnd ne (1000000 * idle_t))\<rfloor>"

section \<open>Input and output\<close>

definition desc_mark :: "nenv \<Rightarrow> int \<Rightarrow> net \<Rightarrow> net option" where
  "desc_mark ne fd s = do {
     (_, w) \<leftarrow> descriptor_mark (cur ne s) fd (nw s);
     Some (tick (s\<lparr>nw := w\<rparr>)) }"

text \<open>Reading: the result says whether the socket was closed.\<close>

definition cycle_read :: "nenv \<Rightarrow> int \<Rightarrow> net \<Rightarrow> (bool \<times> net) option" where
  "cycle_read ne fd s =
     (case n_read ne (n_tick s) fd (d_flag (desc_of s fd) AND DF_ESL \<noteq> 0) of
        Inl err \<Rightarrow>
          if err = SHERR_AGAIN then Some (False, tick s)
          else do { (_, s) \<leftarrow> unet_close ne fd (tick s); Some (True, s) }
      | Inr data \<Rightarrow>
          if data = [] then Some (False, tick s)
          else do {
            w \<leftarrow> descriptor_rbuff_add (n_cat ne) fd data (nw s);
            s \<leftarrow> desc_mark ne fd (tick (s\<lparr>nw := w\<rparr>));
            Some (False, s) })"

definition cycle_write :: "nenv \<Rightarrow> int \<Rightarrow> net \<Rightarrow> net option" where
  "cycle_write ne fd s =
     (let d = desc_of s fd in
      case d_wbuff d of
        None \<Rightarrow> Some s
      | Some b \<Rightarrow>
          let w_tot = n_size ne (Some b) in
          if w_tot = 0 then Some s
          else
            let w_len = n_write ne (n_tick s) fd (d_flag d AND DF_ESL \<noteq> 0) (take w_tot b);
                s = tick s
            in if w_len < 0 then
                 if w_len = SHERR_AGAIN then Some s else map_option snd (unet_close ne fd s)
               else if w_len = 0 then Some s
               else desc_mark ne fd (desc_put fd (d\<lparr>d_wbuff := Some (n_trim ne b (nat w_len))\<rparr>) s))"

definition cycle_io_step :: "nenv \<Rightarrow> nat list \<Rightarrow> nat list \<Rightarrow> nat \<Rightarrow> net \<Rightarrow> net option" where
  "cycle_io_step ne rs xs fd s = do {
     t \<leftarrow> get_unet_table (int fd) s;
     if t = None then Some s
     else if fd \<in> set xs then map_option snd (unet_close ne (int fd) s)
     else do {
       (closed, s) \<leftarrow> (if fd \<in> set rs then cycle_read ne (int fd) s else Some (False, s));
       if closed then Some s else cycle_write ne (int fd) s } }"

definition cycle_accept_step :: "nenv \<Rightarrow> nat \<Rightarrow> net \<Rightarrow> net option" where
  "cycle_accept_step ne mode s = (case unet_bind_table (int mode) of
     None \<Rightarrow> Some s
   | Some m \<Rightarrow> if b_fd (n_bind s m) = 0 then Some s else map_option snd (unet_accept ne (int mode) s))"

section \<open>The cycle\<close>

definition cycle_scan :: "nenv \<Rightarrow> net \<Rightarrow> net option" where
  "cycle_scan ne s =
     (let t = n_time ne (n_tick s);
          s = tick s
      in if n_next_t s < t then do {
           s \<leftarrow> (if uevent_type_count UEVENT_PEER_VERIFY s = 0 then unet_peer_scan ne s else Some s);
           s \<leftarrow> unet_idle ne s;
           Some (s\<lparr>n_next_t := t + 15\<rparr>) }
         else Some s)"

definition cycle_select :: "nenv \<Rightarrow> rat \<Rightarrow> marks \<Rightarrow> net \<Rightarrow> net option" where
  "cycle_select ne max_t k s =
     (let wait_t = n_rnd ne (n_timef ne (now ne s) - n_timef ne (n_start_t s));
          s = tick s;
          idle_t = idle_next ne max_t wait_t (n_idle_t s);
          s = s\<lparr>n_idle_t := idle_t\<rparr>;
          (err, rs, xs) = n_sel ne (n_tick s) (m_r k) (m_w k) (select_usec ne idle_t);
          s = tick s
      in if err > 0 then for_each [1..<Suc (m_max k)] (cycle_io_step ne rs xs) s else Some s)"

definition unet_cycle :: "nenv \<Rightarrow> rat \<Rightarrow> net \<Rightarrow> net option" where
  "unet_cycle ne max_t s =
     (let s = (if n_start_t s = e_undef (n_env ne) then tick (s\<lparr>n_start_t := now ne s\<rparr>) else s)
      in do {
        s \<leftarrow> unet_timer_cycle ne s;
        s \<leftarrow> uevent_cycle ne s;
        s \<leftarrow> cycle_scan ne s;
        (k, s) \<leftarrow> cycle_mark ne s;
        s \<leftarrow> cycle_select ne max_t k s;
        s \<leftarrow> for_each [1..<nat MAX_UNET_MODES] (cycle_accept_step ne) s;
        Some (tick (s\<lparr>n_start_t := now ne s\<rparr>)) })"


section \<open>The cycle stays inside its tables\<close>

lemma eng_inv_timers:
  assumes "ne_ok ne" and "eng_inv s"
  shows "\<exists>s'. unet_timer_cycle ne s = Some s' \<and> eng_inv s'"
  unfolding unet_timer_cycle_def
  by (rule for_each_invariant)
    (use assms eng_inv_call [OF assms(1)] in \<open>auto simp: unet_timer_step_def split: option.splits\<close>)

lemma eng_inv_events:
  assumes "eng_inv s" and "0 \<le> mode" and "mode < MAX_UNET_MODES"
  shows "eng_inv (add_events create_uevent_verify_peer mode ps s)"
  using assms
  by (induction ps arbitrary: s)
    (auto simp: add_events_def create_uevent_verify_peer_def UEVENT_PEER_VERIFY_def eng_inv_new)

lemma eng_inv_scan:
  assumes "eng_inv s"
  shows "\<exists>s'. unet_peer_scan ne s = Some s' \<and> eng_inv s'"
  unfolding unet_peer_scan_def
proof (rule for_each_invariant [where P = eng_inv, OF _ assms])
  fix m s assume "m \<in> set [0..<nat MAX_UNET_MODES]" and inv: "eng_inv s"
  then have "int m < MAX_UNET_MODES" by (simp add: MAX_UNET_MODES_def)
  with inv show "\<exists>s'. unet_peer_scan_step ne m s = Some s' \<and> eng_inv s'"
    by (auto simp: unet_peer_scan_step_def unet_peer_wait_def Let_def eng_inv_events split: option.split)
qed

lemma eng_inv_idle:
  assumes "ne_ok ne" and "eng_inv s"
  shows "\<exists>s'. unet_idle ne s = Some s' \<and> eng_inv s'"
  unfolding unet_idle_def unet_close_idle_def
proof (rule for_each_invariant [where P = eng_inv])
  fix sk s' assume "sk \<in> set all_sockets" and inv: "eng_inv s'"
  then have fd: "slot_fd (int sk)" by (simp add: slot_fd_int)
  have "has_table s'" using inv by (simp add: eng_inv_def)
  with eng_inv_close [OF assms(1) inv fd] inv fd
  show "\<exists>s''. unet_close_idle_step ne (now ne s) sk s' = Some s'' \<and> eng_inv s''"
    by (auto simp: unet_close_idle_step_def get_unet_table_ok)
qed (use assms in simp)

lemma eng_inv_cycle_scan:
  assumes "ne_ok ne" and "eng_inv s"
  shows "\<exists>s'. cycle_scan ne s = Some s' \<and> eng_inv s'"
proof -
  obtain s1 where s1: "(if uevent_type_count UEVENT_PEER_VERIFY (tick s) = 0 then unet_peer_scan ne (tick s)
      else Some (tick s)) = Some s1" "eng_inv s1"
    using eng_inv_scan [of "tick s" ne] assms(2) by (metis eng_inv_upd(1))
  with eng_inv_idle [OF assms(1) s1(2)] assms(2) show ?thesis
    by (auto simp: cycle_scan_def Let_def)
qed

definition shut :: "nenv \<Rightarrow> desc_t \<Rightarrow> bool" where
  "shut ne d \<longleftrightarrow> d_flag d AND DF_SOCK \<noteq> 0 \<and> d_flag d AND DF_SHUTDOWN \<noteq> 0 \<and> n_size ne (d_wbuff d) = 0"

definition pollable :: "nenv \<Rightarrow> desc_t \<Rightarrow> bool" where
  "pollable ne d \<longleftrightarrow> \<not> shut ne d \<and> d_flag d AND DF_SERVICE \<noteq> 0"

definition no_marks :: marks where
  "no_marks = \<lparr>m_r = [], m_w = [], m_max = 0\<rparr>"

text \<open>One step of the marking fails only at a service socket that the sets have no room for.\<close>

lemma eng_inv_mark_step:
  assumes "ne_ok ne" and "eng_inv s" and "m_max k < 1024" and "slot_fd (int fd)"
  shows "(\<exists>k' s'. cycle_mark_step ne fd (k, s) = Some (k', s') \<and> eng_inv s' \<and> m_max k' < 1024) \<or>
    1024 \<le> fd \<and> pollable ne (socks s fd) \<and> cycle_mark_step ne fd (k, s) = None"
proof -
  have get: "get_unet_table (int fd) s = Some (if d_flag (socks s fd) = 0 then None else Some fd)"
    using assms(2,4) by (simp add: get_unet_table_ok eng_inv_def)
  obtain r s' where "unet_close ne (int fd) s = Some (r, s')" "eng_inv s'"
    using eng_inv_close [OF assms(1,2,4)] by blast
  then show ?thesis
    using get assms(2,3)
    by (auto simp: cycle_mark_step_def desc_of_def Let_def FD_SETSIZE_def pollable_def shut_def)
qed

lemma eng_inv_mark_from:
  assumes "ne_ok ne" and "eng_inv s" and "m_max k < 1024" and "j \<le> 4096" and "i \<le> j"
  shows "(\<exists>k' s'. for_each [i..<j] (cycle_mark_step ne) (k, s) = Some (k', s') \<and> eng_inv s' \<and> m_max k' < 1024) \<or>
    for_each [i..<j] (cycle_mark_step ne) (k, s) = None \<and>
    (\<exists>fd k' s'. 1024 \<le> fd \<and> i \<le> fd \<and> fd < j \<and> for_each [i..<fd] (cycle_mark_step ne) (k, s) = Some (k', s') \<and> pollable ne (socks s' fd))"
  using assms(2,3,5)
proof (induction "j - i" arbitrary: i k s)
  case 0
  then show ?case by simp
next
  case (Suc n)
  then have ij: "[i..<j] = i # [Suc i..<j]" "slot_fd (int i)" using assms(4) by (simp_all add: upt_rec slot_fd_def)
  consider (ok) k1 s1 where "cycle_mark_step ne i (k, s) = Some (k1, s1)" "eng_inv s1" "m_max k1 < 1024"
    | (bad) "1024 \<le> i" "pollable ne (socks s i)" "cycle_mark_step ne i (k, s) = None"
    using eng_inv_mark_step [OF assms(1) Suc.prems(1,2) ij(2)] by (elim disjE exE conjE)
  then show ?case
  proof cases
    case ok
    have "[i..<fd] = i # [Suc i..<fd]" if "Suc i \<le> fd" for fd using that by (simp add: upt_rec)
    then have r: "for_each [i..<fd] (cycle_mark_step ne) (k, s) = for_each [Suc i..<fd] (cycle_mark_step ne) (k1, s1)"
      if "Suc i \<le> fd" for fd using that ok(1) by simp
    have sj: "n = j - Suc i" "Suc i \<le> j" using Suc.hyps(2) by simp_all
    from Suc.hyps(1) [OF sj(1) ok(2,3) sj(2)] show ?thesis
    proof (elim disjE exE conjE)
      fix fd k' s' assume f: "Suc i \<le> fd" "1024 \<le> fd" "fd < j" "pollable ne (socks s' fd)"
        "for_each [Suc i..<fd] (cycle_mark_step ne) (k1, s1) = Some (k', s')"
        "for_each [Suc i..<j] (cycle_mark_step ne) (k1, s1) = None"
      then show ?thesis by (intro disjI2 conjI exI [of _ fd] exI [of _ k'] exI [of _ s']) (simp_all add: r sj(2))
    qed (simp add: r sj(2))
  next
    case bad
    then have "for_each [i..<j] (cycle_mark_step ne) (k, s) = None" by (simp add: ij)
    moreover have "i < j" using Suc.hyps(2) by simp
    ultimately show ?thesis using bad by (intro disjI2 conjI exI [of _ i]) simp_all
  qed
qed

lemma eng_inv_desc_mark:
  assumes "eng_inv s" and "slot_fd fd" and "d_flag (socks s (nat fd)) \<noteq> 0"
  shows "\<exists>s'. desc_mark ne fd s = Some s' \<and> eng_inv s'"
proof -
  from descriptor_mark_ok [OF assms(2,3), of "cur ne s"] obtain w' where
    w': "descriptor_mark (cur ne s) fd (nw s) = Some (Some (nat fd), w')" "w_desc w' \<noteq> None"
      "desc_table w' = (socks s)(nat fd := (socks s (nat fd))
        \<lparr>d_total := d_total (socks s (nat fd)) + 1, d_stamp := e_shtime (cur ne s)\<rparr>)" by blast
  have "eng_inv (s\<lparr>nw := w'\<rparr>)"
    by (rule eng_inv_slot [OF assms(1), where sk = "nat fd"])
      (use w' in auto)
  with w' show ?thesis by (simp add: desc_mark_def)
qed

text \<open>Replacing a buffer of a slot.\<close>

lemma eng_inv_buffer:
  assumes "eng_inv s" and "d_flag d = d_flag (socks s n)"
  shows "eng_inv (s\<lparr>nw := desc_set n d (nw s)\<rparr>)"
  by (rule eng_inv_slot [OF assms(1), where sk = n]) (use assms in auto)

lemma eng_inv_read:
  assumes "ne_ok ne" and inv: "eng_inv s" and fd: "slot_fd fd" and use: "d_flag (socks s (nat fd)) \<noteq> 0"
  shows "\<exists>c s'. cycle_read ne fd s = Some (c, s') \<and> eng_inv s' \<and>
    (\<not> c \<longrightarrow> d_flag (socks s' (nat fd)) \<noteq> 0)"
proof (cases "n_read ne (n_tick s) fd (d_flag (desc_of s fd) AND DF_ESL \<noteq> 0)")
  case (Inl err)
  have "eng_inv (tick s)" using inv by simp
  from eng_inv_close [OF assms(1) this fd] inv use Inl show ?thesis by (auto simp: cycle_read_def)
next
  case (Inr data)
  let ?d = "(socks s (nat fd))\<lparr>d_rbuff := Some (n_cat ne (buf (d_rbuff (socks s (nat fd)))) data)\<rparr>"
  let ?s = "tick (s\<lparr>nw := desc_set (nat fd) ?d (nw s)\<rparr>)"
  have add: "descriptor_rbuff_add (n_cat ne) fd data (nw s) = Some (desc_set (nat fd) ?d (nw s))"
    using inv by (intro descriptor_rbuff_add_ok fd use) (simp add: eng_inv_def)
  have s: "eng_inv ?s" "d_flag (socks ?s (nat fd)) \<noteq> 0"
    using use by (simp_all add: eng_inv_buffer [OF inv])
  from eng_inv_desc_mark [OF s(1) fd s(2), of ne] obtain s' where
    s': "desc_mark ne fd ?s = Some s'" "eng_inv s'" by blast
  have "d_flag (socks s' (nat fd)) \<noteq> 0"
    using s' descriptor_mark_ok [OF fd s(2), of "cur ne ?s"] use by (auto simp: desc_mark_def)
  with s' add inv use Inr show ?thesis by (auto simp: cycle_read_def)
qed

lemma eng_inv_write:
  assumes "ne_ok ne" and inv: "eng_inv s" and fd: "slot_fd fd" and use: "d_flag (socks s (nat fd)) \<noteq> 0"
  shows "\<exists>s'. cycle_write ne fd s = Some s' \<and> eng_inv s'"
proof (cases "d_wbuff (desc_of s fd)")
  case None
  with inv show ?thesis by (simp add: cycle_write_def)
next
  case (Some b)
  have put: "\<exists>s'. desc_mark ne fd (desc_put fd ((desc_of s fd)\<lparr>d_wbuff := x\<rparr>) (tick s)) = Some s' \<and> eng_inv s'" for x
  proof (rule eng_inv_desc_mark [OF _ fd])
    show "eng_inv (desc_put fd ((desc_of s fd)\<lparr>d_wbuff := x\<rparr>) (tick s))"
      unfolding desc_put_def using inv by (intro eng_inv_buffer) (simp_all add: desc_of_def)
  qed (use use in \<open>simp add: desc_of_def\<close>)
  have "eng_inv (tick s)" using inv by simp
  from eng_inv_close [OF assms(1) this fd] put inv Some show ?thesis
    by (auto simp: cycle_write_def Let_def)
qed

lemma eng_inv_io:
  assumes "ne_ok ne" and "eng_inv s" and "fd < 1024"
  shows "\<exists>s'. cycle_io_step ne rs xs fd s = Some s' \<and> eng_inv s'"
proof -
  have fd: "slot_fd (int fd)" using assms(3) by (simp add: slot_fd_def)
  have get: "get_unet_table (int fd) s = Some (if d_flag (socks s fd) = 0 then None else Some fd)"
    using assms(2) fd by (simp add: get_unet_table_ok eng_inv_def)
  show ?thesis
  proof (cases "d_flag (socks s fd) = 0")
    case True
    with get assms(2) show ?thesis by (simp add: cycle_io_step_def)
  next
    case False
    obtain c s1 where s1: "(if fd \<in> set rs then cycle_read ne (int fd) s else Some (False, s)) = Some (c, s1)"
      "eng_inv s1" "\<not> c \<longrightarrow> d_flag (socks s1 fd) \<noteq> 0"
      using eng_inv_read [OF assms(1,2) fd] False assms(2) by (cases "fd \<in> set rs") auto
    with eng_inv_write [OF assms(1) s1(2) fd] get False eng_inv_close [OF assms(1,2) fd] show ?thesis
      by (auto simp: cycle_io_step_def)
  qed
qed

lemma eng_inv_select:
  assumes "ne_ok ne" and "eng_inv s" and "m_max k < 1024"
  shows "\<exists>s'. cycle_select ne max_t k s = Some s' \<and> eng_inv s'"
proof -
  have loop: "\<exists>s'. for_each [1..<Suc (m_max k)] (cycle_io_step ne rs xs) s1 = Some s' \<and> eng_inv s'"
    if "eng_inv s1" for rs xs s1
    by (rule for_each_invariant [where P = eng_inv])
      (use that assms(3) eng_inv_io [OF assms(1)] in auto)
  show ?thesis
    unfolding cycle_select_def Let_def
    by (auto split: prod.split simp: assms(2) loop simp del: upt_Suc One_nat_def)
qed

lemma eng_inv_accept:
  assumes ne: "ne_ok ne" and inv: "eng_inv s"
  shows "\<exists>r s'. unet_accept ne mode s = Some (r, s') \<and> eng_inv s'"
proof (cases "unet_bind_table mode = None \<or> b_fd (n_bind s (the (unet_bind_table mode))) = 0")
  case True
  with inv show ?thesis by (auto simp: unet_accept_def split: option.splits)
next
  case False
  then obtain m where m: "unet_bind_table mode = Some m" "b_fd (n_bind s m) \<noteq> 0" by auto
  let ?fd = "n_acc ne (n_tick s) (b_fd (n_bind s m))"
  let ?s = "fd_install ?fd (tick s)"
  show ?thesis
  proof (cases "?fd \<le> 0 \<or> ?fd \<ge> MAX_UNET_SOCKETS")
    case True
    with m inv show ?thesis by (auto simp: unet_accept_def Let_def)
  next
    case pos: False
    have fd: "slot_fd ?fd" using pos by (simp add: slot_fd_def)
    obtain a where a: "e_shaddr (n_env ne) ?fd = Some a" using ne pos by (force simp: ne_ok_def)
    have inv1: "eng_inv ?s" using inv by simp
    obtain dup where dup: "unet_peer_find ne mode a ?s = Some dup" using eng_inv_find [OF inv1] by blast
    obtain r s1 where s1: "unet_add ne mode ?fd ?s = Some (r, s1)" "eng_inv s1"
      using eng_inv_add [OF inv1 fd] by blast
    obtain t where t: "get_unet_table ?fd s1 = Some t"
      using s1(2) fd by (auto simp: get_unet_table_ok eng_inv_def)
    let ?s2 = "if t = None then s1 else desc_put ?fd ((desc_of s1 ?fd)\<lparr>d_flag := d_flag (desc_of s1 ?fd) OR DF_INBOUND\<rparr>) s1"
    have "eng_inv (desc_put ?fd d s1)" for d
      by (intro eng_inv_slot [OF s1(2), where sk = "nat ?fd"]) (auto simp: desc_put_def)
    then have inv2: "eng_inv ?s2" using s1(2) by simp
    obtain s3 where "run_accept ne (Some m) ?fd a ?s2 = Some s3" "eng_inv s3"
      using eng_inv_accept_call [OF ne inv2] by blast
    with m a dup s1 t pos inv inv2 show ?thesis
      by (auto simp: unet_accept_def Let_def)
  qed
qed

text \<open>What the cycle does before it marks sockets.\<close>

definition before_mark :: "nenv \<Rightarrow> net \<Rightarrow> net option" where
  "before_mark ne s = do {
     s \<leftarrow> unet_timer_cycle ne (if n_start_t s = e_undef (n_env ne) then tick (s\<lparr>n_start_t := now ne s\<rparr>) else s);
     s \<leftarrow> uevent_cycle ne s;
     cycle_scan ne s }"

text \<open>The cycle meets a service socket that does not fit into the sets of \<open>select\<close>.\<close>

definition overflows :: "nenv \<Rightarrow> net \<Rightarrow> bool" where
  "overflows ne s \<longleftrightarrow> (\<exists>s1 fd k s2. before_mark ne s = Some s1 \<and> 1024 \<le> fd \<and> fd < 4096 \<and>
     for_each [1..<fd] (cycle_mark_step ne) (no_marks, s1) = Some (k, s2) \<and> pollable ne (socks s2 fd))"

lemma unet_cycle_inv:
  assumes "ne_ok ne" and "eng_inv s"
  shows "(\<exists>s'. unet_cycle ne max_t s = Some s' \<and> eng_inv s') \<or> unet_cycle ne max_t s = None \<and> overflows ne s"
proof -
  let ?s = "if n_start_t s = e_undef (n_env ne) then tick (s\<lparr>n_start_t := now ne s\<rparr>) else s"
  have "eng_inv ?s" using assms(2) by simp
  then obtain s1 where s1: "unet_timer_cycle ne ?s = Some s1" "eng_inv s1"
    using eng_inv_timers [OF assms(1)] by blast
  obtain s2 where s2: "uevent_cycle ne s1 = Some s2" "eng_inv s2"
    using eng_inv_cycle [OF assms(1) s1(2)] by blast
  obtain s3 where s3: "cycle_scan ne s2 = Some s3" "eng_inv s3"
    using eng_inv_cycle_scan [OF assms(1) s2(2)] by blast
  have b: "before_mark ne s = Some s3" by (simp add: before_mark_def s1 s2 s3)
  have mk: "cycle_mark ne s3 = for_each [1..<4096] (cycle_mark_step ne) (no_marks, s3)"
    by (simp add: cycle_mark_def all_sockets_def no_marks_def)
  consider (ok) k s4 where "cycle_mark ne s3 = Some (k, s4)" "eng_inv s4" "m_max k < 1024"
    | (bad) "cycle_mark ne s3 = None" "overflows ne s"
    using eng_inv_mark_from [OF assms(1) s3(2), of no_marks 4096 1] unfolding mk overflows_def b
    by (auto simp: no_marks_def simp del: One_nat_def)
  then show ?thesis
  proof cases
    case (ok k s4)
    obtain s5 where s5: "cycle_select ne max_t k s4 = Some s5" "eng_inv s5"
      using eng_inv_select [OF assms(1) ok(2,3)] by blast
    have "\<exists>s'. cycle_accept_step ne m s = Some s' \<and> eng_inv s'" if "eng_inv s" for m s
      using eng_inv_accept [OF assms(1) that, of "int m"] that
      by (auto simp: cycle_accept_step_def split: option.split)
    then obtain s6 where "for_each [1..<nat MAX_UNET_MODES] (cycle_accept_step ne) s5 = Some s6" "eng_inv s6"
      using for_each_invariant [where P = eng_inv] s5(2) by metis
    with s1 s2 s3 ok s5 show ?thesis by (simp add: unet_cycle_def Let_def)
  next
    case bad
    with s1 s2 s3 show ?thesis by (simp add: unet_cycle_def Let_def)
  qed
qed

lemma unet_cycles_inv:
  assumes "ne_ok ne" and "eng_inv s"
  shows "(\<exists>s'. for_each max_ts (unet_cycle ne) s = Some s' \<and> eng_inv s') \<or>
    for_each max_ts (unet_cycle ne) s = None \<and>
    (\<exists>n s'. n < length max_ts \<and> for_each (take n max_ts) (unet_cycle ne) s = Some s' \<and> eng_inv s' \<and> overflows ne s')"
  using assms(2)
proof (induction max_ts arbitrary: s)
  case Nil
  then show ?case by simp
next
  case (Cons t ts)
  from unet_cycle_inv [OF assms(1) Cons.prems, of t] show ?case
  proof (elim disjE exE conjE)
    fix s1 assume s1: "unet_cycle ne t s = Some s1" "eng_inv s1"
    from Cons.IH [OF s1(2)] show ?thesis
    proof (elim disjE exE conjE)
      fix n s' assume "n < length ts" "for_each (take n ts) (unet_cycle ne) s1 = Some s'" "eng_inv s'" "overflows ne s'"
        "for_each ts (unet_cycle ne) s1 = None"
      with s1(1) show ?thesis by (intro disjI2 conjI exI [of _ "Suc n"] exI [of _ s']) simp_all
    qed (simp add: s1(1))
  next
    assume "unet_cycle ne t s = None" "overflows ne s"
    with Cons.prems show ?thesis by (intro disjI2 conjI exI [of _ 0] exI [of _ s]) simp_all
  qed
qed

section \<open>What is marked\<close>

lemma cycle_mark_step_ok:
  assumes "closing ne s" and "fd < 4096" and "pollable ne (socks s fd) \<longrightarrow> fd < 1024"
  shows "\<exists>s'. cycle_mark_step ne fd (k, s) =
      Some (if pollable ne (socks s fd)
        then \<lparr>m_r = m_r k @ [fd], m_w = (if n_size ne (d_wbuff (socks s fd)) \<noteq> 0 then m_w k @ [fd] else m_w k),
              m_max = max fd (m_max k)\<rparr> else k, s') \<and>
    closing ne s' \<and> socks s' = (socks s)(fd := if shut ne (socks s fd) then zero_desc else socks s fd)"
proof -
  have fd: "slot_fd (int fd)" "has_table s" "closers_ok ne"
    using assms by (simp_all add: slot_fd_int closing_def)
  show ?thesis
  proof (cases "shut ne (socks s fd)")
    case True
    then have use: "d_flag (socks s fd) \<noteq> 0" by (auto simp: shut_def)
    with True unet_close_ok [OF fd(3,2,1)] show ?thesis
      by (auto simp: cycle_mark_step_def get_unet_table_ok fd desc_of_def pollable_def shut_def closing_def Let_def)
  next
    case False
    with assms fd show ?thesis
      by (auto simp: cycle_mark_step_def get_unet_table_ok desc_of_def pollable_def shut_def closing_def Let_def
          FD_SETSIZE_def)
  qed
qed

lemma cycle_mark_from:
  assumes "closing ne s" and "distinct sks" and "\<forall>sk\<in>set sks. sk < 4096 \<and> (pollable ne (socks s sk) \<longrightarrow> sk < 1024)"
  shows "\<exists>k' s'. for_each sks (cycle_mark_step ne) (k, s) = Some (k', s') \<and>
    m_r k' = m_r k @ filter (\<lambda>sk. pollable ne (socks s sk)) sks \<and>
    m_w k' = m_w k @ filter (\<lambda>sk. pollable ne (socks s sk) \<and> n_size ne (d_wbuff (socks s sk)) \<noteq> 0) sks \<and>
    (\<forall>fd. fd \<le> m_max k' \<longleftrightarrow> fd \<le> m_max k \<or> (\<exists>sk\<in>set sks. pollable ne (socks s sk) \<and> fd \<le> sk)) \<and>
    closing ne s' \<and>
    socks s' = (\<lambda>j. if j \<in> set sks \<and> shut ne (socks s j) then zero_desc else socks s j)"
  using assms
proof (induction sks arbitrary: k s)
  case Nil
  then show ?case by simp
next
  case (Cons fd sks)
  let ?k = "if pollable ne (socks s fd)
        then \<lparr>m_r = m_r k @ [fd], m_w = (if n_size ne (d_wbuff (socks s fd)) \<noteq> 0 then m_w k @ [fd] else m_w k),
              m_max = max fd (m_max k)\<rparr> else k"
  obtain s1 where s1: "cycle_mark_step ne fd (k, s) = Some (?k, s1)" "closing ne s1"
      "socks s1 = (socks s)(fd := if shut ne (socks s fd) then zero_desc else socks s fd)"
    using cycle_mark_step_ok [of ne s fd k] Cons.prems by auto
  have same: "socks s1 sk = socks s sk" if "sk \<in> set sks" for sk
    using that Cons.prems(2) s1(3) by auto
  have "\<forall>sk\<in>set sks. sk < 4096 \<and> (pollable ne (socks s1 sk) \<longrightarrow> sk < 1024)"
    using Cons.prems(3) same by auto
  from Cons.IH [OF s1(2) _ this, of ?k] Cons.prems(2) obtain k' s' where
    run: "for_each sks (cycle_mark_step ne) (?k, s1) = Some (k', s')" and
    r: "m_r k' = m_r ?k @ filter (\<lambda>sk. pollable ne (socks s1 sk)) sks" and
    wr: "m_w k' = m_w ?k @ filter (\<lambda>sk. pollable ne (socks s1 sk) \<and> n_size ne (d_wbuff (socks s1 sk)) \<noteq> 0) sks" and
    mx: "\<forall>fd. fd \<le> m_max k' \<longleftrightarrow> fd \<le> m_max ?k \<or> (\<exists>sk\<in>set sks. pollable ne (socks s1 sk) \<and> fd \<le> sk)" and
    rest: "closing ne s'" "socks s' = (\<lambda>j. if j \<in> set sks \<and> shut ne (socks s1 j) then zero_desc else socks s1 j)"
    by auto
  have fr: "filter (\<lambda>sk. pollable ne (socks s1 sk)) sks = filter (\<lambda>sk. pollable ne (socks s sk)) sks"
    "filter (\<lambda>sk. pollable ne (socks s1 sk) \<and> n_size ne (d_wbuff (socks s1 sk)) \<noteq> 0) sks =
     filter (\<lambda>sk. pollable ne (socks s sk) \<and> n_size ne (d_wbuff (socks s sk)) \<noteq> 0) sks"
    using same by (auto intro: filter_cong)
  have m: "(\<exists>sk\<in>set sks. pollable ne (socks s1 sk) \<and> x \<le> sk) \<longleftrightarrow> (\<exists>sk\<in>set sks. pollable ne (socks s sk) \<and> x \<le> sk)" for x
    using same by auto
  have "socks s' = (\<lambda>j. if j \<in> set (fd # sks) \<and> shut ne (socks s j) then zero_desc else socks s j)"
    using rest(2) s1(3) Cons.prems(2) by (auto simp: fun_eq_iff)
  then show ?case
    using s1(1) run r wr mx rest(1) unfolding fr m by auto
qed

lemma cycle_mark_ok:
  assumes "closing ne s" and "\<forall>sk < 4096. pollable ne (socks s sk) \<longrightarrow> sk < 1024"
  shows "\<exists>k s'. cycle_mark ne s = Some (k, s') \<and>
    m_r k = filter (\<lambda>sk. pollable ne (socks s sk)) all_sockets \<and>
    m_w k = filter (\<lambda>sk. pollable ne (socks s sk) \<and> n_size ne (d_wbuff (socks s sk)) \<noteq> 0) all_sockets \<and>
    (\<forall>sk \<in> set (m_r k). sk \<le> m_max k) \<and> closing ne s' \<and>
    socks s' = (\<lambda>j. if 1 \<le> j \<and> j < 4096 \<and> shut ne (socks s j) then zero_desc else socks s j)"
proof -
  have "\<forall>sk\<in>set all_sockets. sk < 4096 \<and> (pollable ne (socks s sk) \<longrightarrow> sk < 1024)" using assms(2) by simp
  from cycle_mark_from [OF assms(1) distinct_all_sockets this, of "\<lparr>m_r = [], m_w = [], m_max = 0\<rparr>"]
  obtain k' s' where c: "for_each all_sockets (cycle_mark_step ne) (\<lparr>m_r = [], m_w = [], m_max = 0\<rparr>, s) = Some (k', s')"
    "m_r k' = filter (\<lambda>sk. pollable ne (socks s sk)) all_sockets"
    "m_w k' = filter (\<lambda>sk. pollable ne (socks s sk) \<and> n_size ne (d_wbuff (socks s sk)) \<noteq> 0) all_sockets"
    "\<forall>fd. fd \<le> m_max k' \<longleftrightarrow> fd \<le> 0 \<or> (\<exists>sk\<in>set all_sockets. pollable ne (socks s sk) \<and> fd \<le> sk)"
    "closing ne s'" "socks s' = (\<lambda>j. if j \<in> set all_sockets \<and> shut ne (socks s j) then zero_desc else socks s j)"
    by auto
  then show ?thesis unfolding cycle_mark_def
    by (intro exI [of _ k'] exI [of _ s']) (auto simp: fun_eq_iff)
qed

text \<open>A service socket from number 1024 on overflows the sets.\<close>

lemma cycle_mark_overflow:
  assumes "closing ne s" and "1024 \<le> sk" and "sk < 4096" and "pollable ne (socks s sk)"
  shows "cycle_mark ne s = None"
proof -
  have "for_each sks (cycle_mark_step ne) (k, s) = None"
    if "sk \<in> set sks" "distinct sks" "set sks \<subseteq> {..<4096}" "closing ne s" "pollable ne (socks s sk)" for sks k s
    using that
  proof (induction sks arbitrary: k s)
    case (Cons fd sks)
    show ?case
    proof (cases "pollable ne (socks s fd) \<and> 1024 \<le> fd")
      case True
      then have "d_flag (socks s fd) \<noteq> 0" by (auto simp: pollable_def)
      moreover have "slot_fd (int fd)" "has_table s" using Cons.prems by (auto simp: slot_fd_def closing_def)
      ultimately have "cycle_mark_step ne fd (k, s) = None" using True
        by (auto simp: cycle_mark_step_def get_unet_table_ok desc_of_def pollable_def shut_def Let_def FD_SETSIZE_def)
      then show ?thesis by simp
    next
      case False
      with Cons.prems assms(2) have "fd \<noteq> sk" by auto
      moreover obtain k1 s1 where "cycle_mark_step ne fd (k, s) = Some (k1, s1)" "closing ne s1"
        "socks s1 = (socks s)(fd := if shut ne (socks s fd) then zero_desc else socks s fd)"
        using cycle_mark_step_ok [of ne s fd k] Cons.prems False by auto
      ultimately show ?thesis using Cons.IH [of s1 k1] Cons.prems by auto
    qed
  qed simp
  moreover have "set all_sockets \<subseteq> {..<4096}" by auto
  ultimately show ?thesis
    unfolding cycle_mark_def using assms by simp
qed

section \<open>Byte streams\<close>

text \<open>What libshare documents of its buffers: \<open>shbuf_cat\<close> appends, \<open>shbuf_trim\<close> removes from the front.\<close>

definition shbuf_ok :: "nenv \<Rightarrow> bool" where
  "shbuf_ok ne \<longleftrightarrow> n_size ne None = 0 \<and> (\<forall>b. n_size ne (Some b) = length b) \<and>
     (\<forall>a b. n_cat ne a b = a @ b) \<and> (\<forall>b n. n_trim ne b n = drop n b)"

definition esl :: "net \<Rightarrow> int \<Rightarrow> bool" where
  "esl s fd \<longleftrightarrow> d_flag (socks s (nat fd)) AND DF_ESL \<noteq> 0"

lemma desc_mark_buffers:
  assumes "slot_fd fd" and "d_flag (socks s (nat fd)) \<noteq> 0"
  shows "\<exists>s'. desc_mark ne fd s = Some s' \<and> has_table s' \<and>
    (\<forall>j. d_wbuff (socks s' j) = d_wbuff (socks s j) \<and> d_rbuff (socks s' j) = d_rbuff (socks s j) \<and>
         d_flag (socks s' j) = d_flag (socks s j))"
  using descriptor_mark_ok [OF assms, of "cur ne s"] by (auto simp: desc_mark_def)

lemma cycle_write_stream:
  assumes "shbuf_ok ne" and "has_table s" and "slot_fd fd" and "d_flag (socks s (nat fd)) \<noteq> 0"
    and "n = n_write ne (n_tick s) fd (esl s fd) (buf (d_wbuff (socks s (nat fd))))"
    and "buf (d_wbuff (socks s (nat fd))) \<noteq> []" and "0 \<le> n"
  shows "\<exists>s'. cycle_write ne fd s = Some s' \<and> has_table s' \<and>
    buf (d_wbuff (socks s' (nat fd))) = drop (nat n) (buf (d_wbuff (socks s (nat fd)))) \<and>
    (\<forall>j. j \<noteq> nat fd \<longrightarrow> d_wbuff (socks s' j) = d_wbuff (socks s j)) \<and>
    (\<forall>j. d_rbuff (socks s' j) = d_rbuff (socks s j) \<and> d_flag (socks s' j) = d_flag (socks s j))"
proof -
  let ?d = "socks s (nat fd)"
  obtain b where b: "d_wbuff ?d = Some b" "b \<noteq> []" using assms(6) by (cases "d_wbuff ?d") auto
  let ?s = "desc_put fd (?d\<lparr>d_wbuff := Some (drop (nat n) b)\<rparr>) (tick s)"
  obtain s' where s': "desc_mark ne fd ?s = Some s'" "has_table s'"
    "\<forall>j. d_wbuff (socks s' j) = d_wbuff (socks ?s j) \<and> d_rbuff (socks s' j) = d_rbuff (socks ?s j) \<and>
         d_flag (socks s' j) = d_flag (socks ?s j)"
    using desc_mark_buffers [OF assms(3), of ?s ne] assms(4) by auto
  have n: "n_write ne (n_tick s) fd (d_flag ?d AND DF_ESL \<noteq> 0) b = n"
    using assms(5) b by (simp add: esl_def)
  show ?thesis
  proof (cases "n = 0")
    case True
    with b n assms(1,2) show ?thesis
      by (auto simp: cycle_write_def desc_of_def shbuf_ok_def Let_def)
  next
    case False
    then have "cycle_write ne fd s = desc_mark ne fd ?s"
      using b n assms(1,7) by (simp add: cycle_write_def desc_of_def shbuf_ok_def Let_def)
    with s' b show ?thesis by auto
  qed
qed

lemma cycle_write_empty:
  assumes "shbuf_ok ne" and "buf (d_wbuff (socks s (nat fd))) = []"
  shows "cycle_write ne fd s = Some s"
  using assms by (cases "d_wbuff (socks s (nat fd))") (auto simp: cycle_write_def desc_of_def shbuf_ok_def)

lemma cycle_read_stream:
  assumes "shbuf_ok ne" and "has_table s" and "slot_fd fd" and "d_flag (socks s (nat fd)) \<noteq> 0"
    and "n_read ne (n_tick s) fd (esl s fd) = Inr data"
  shows "\<exists>s'. cycle_read ne fd s = Some (False, s') \<and> has_table s' \<and>
    buf (d_rbuff (socks s' (nat fd))) = buf (d_rbuff (socks s (nat fd))) @ data \<and>
    (\<forall>j. j \<noteq> nat fd \<longrightarrow> d_rbuff (socks s' j) = d_rbuff (socks s j)) \<and>
    (\<forall>j. d_wbuff (socks s' j) = d_wbuff (socks s j) \<and> d_flag (socks s' j) = d_flag (socks s j))"
proof (cases "data = []")
  case True
  with assms show ?thesis by (auto simp: cycle_read_def desc_of_def esl_def)
next
  case False
  let ?d = "(socks s (nat fd))\<lparr>d_rbuff := Some (buf (d_rbuff (socks s (nat fd))) @ data)\<rparr>"
  let ?s = "tick (s\<lparr>nw := desc_set (nat fd) ?d (nw s)\<rparr>)"
  have add: "descriptor_rbuff_add (n_cat ne) fd data (nw s) = Some (desc_set (nat fd) ?d (nw s))"
    using descriptor_rbuff_add_ok [OF assms(3,2,4), of "n_cat ne" data] assms(1) by (simp add: shbuf_ok_def)
  have "d_flag (socks ?s (nat fd)) \<noteq> 0" using assms(4) by simp
  from desc_mark_buffers [OF assms(3) this, of ne] add False assms(5) show ?thesis
    by (auto simp: cycle_read_def desc_of_def esl_def)
qed

text \<open>A write that would block leaves everything but the number of calls as it was.\<close>

lemma cycle_write_again:
  assumes "shbuf_ok ne" and "buf (d_wbuff (socks s (nat fd))) \<noteq> []"
    and "n_write ne (n_tick s) fd (esl s fd) (buf (d_wbuff (socks s (nat fd)))) = SHERR_AGAIN"
  shows "cycle_write ne fd s = Some (tick s)"
proof -
  obtain b where "d_wbuff (socks s (nat fd)) = Some b" "b \<noteq> []" using assms(2) by (cases "d_wbuff (socks s (nat fd))") auto
  then show ?thesis using assms(1,3) by (simp add: cycle_write_def desc_of_def shbuf_ok_def esl_def Let_def sherr_defs)
qed

text \<open>
  The output of one socket: data queued by \<open>unet_write\<close> (\<^term>\<open>Some\<close>) and passes of the main loop's
  write step (\<^term>\<open>None\<close>), until a write fails for good, which closes the socket. The result has what
  the socket took and whether it was closed.
\<close>

fun run_output :: "nenv \<Rightarrow> int \<Rightarrow> u8 list option list \<Rightarrow> net \<times> u8 list \<Rightarrow> (net \<times> u8 list \<times> bool) option" where
  "run_output ne fd [] (s, out) = Some (s, out, False)"
| "run_output ne fd (Some data # ops) (s, out) = do {
     (_, s) \<leftarrow> unet_write ne fd False data s;
     run_output ne fd ops (s, out) }"
| "run_output ne fd (None # ops) (s, out) = do {
     let b = buf (d_wbuff (socks s (nat fd)));
     let n = (if b = [] then 0 else n_write ne (n_tick s) fd (esl s fd) b);
     s \<leftarrow> cycle_write ne fd s;
     if n < 0 \<and> n \<noteq> SHERR_AGAIN then Some (s, out, True)
     else run_output ne fd ops (s, out @ take (nat n) b) }"

text \<open>One pass that does not close the socket.\<close>

lemma cycle_write_pass:
  assumes "shbuf_ok ne" and "has_table s" and "slot_fd fd" and "d_flag (socks s (nat fd)) \<noteq> 0"
    and "n = (if buf (d_wbuff (socks s (nat fd))) = [] then 0
      else n_write ne (n_tick s) fd (esl s fd) (buf (d_wbuff (socks s (nat fd)))))"
    and "0 \<le> n \<or> n = SHERR_AGAIN"
  shows "\<exists>s1. cycle_write ne fd s = Some s1 \<and> has_table s1 \<and> d_flag (socks s1 (nat fd)) = d_flag (socks s (nat fd)) \<and>
    take (nat n) (buf (d_wbuff (socks s (nat fd)))) @ buf (d_wbuff (socks s1 (nat fd))) = buf (d_wbuff (socks s (nat fd))) \<and>
    (\<forall>j. j \<noteq> nat fd \<longrightarrow> d_wbuff (socks s1 j) = d_wbuff (socks s j))"
proof (cases "buf (d_wbuff (socks s (nat fd))) = []")
  case True
  with cycle_write_empty [OF assms(1) True] assms(2) show ?thesis by simp
next
  case False
  show ?thesis
  proof (cases "0 \<le> n")
    case True
    from cycle_write_stream [OF assms(1-4) refl False] True False assms(5) show ?thesis by auto
  next
    case neg: False
    with False assms(5,6) cycle_write_again [OF assms(1) False] assms(2) show ?thesis by auto
  qed
qed

lemma unet_write_stream:
  assumes "shbuf_ok ne" and "has_table s" and "slot_fd fd" and "d_flag (socks s (nat fd)) AND DF_SERVICE \<noteq> 0"
  shows "\<exists>r s1. unet_write ne fd False data s = Some (r, s1) \<and> has_table s1 \<and>
    d_flag (socks s1 (nat fd)) = d_flag (socks s (nat fd)) \<and>
    buf (d_wbuff (socks s1 (nat fd))) = buf (d_wbuff (socks s (nat fd))) @ data \<and>
    (\<forall>j. j \<noteq> nat fd \<longrightarrow> d_wbuff (socks s1 j) = d_wbuff (socks s j))"
proof (cases "data = []")
  case True
  with assms show ?thesis by (simp add: unet_write_def)
next
  case False
  from unet_write_ok [OF assms(2,3) False, of ne] assms(1,4) show ?thesis by (auto simp: shbuf_ok_def)
qed

lemma run_output_ok:
  assumes "shbuf_ok ne" and "closing ne s" and "slot_fd fd" and "d_flag (socks s (nat fd)) AND DF_SERVICE \<noteq> 0"
  shows "\<exists>s' out' closed left n. run_output ne fd ops (s, out) = Some (s', out', closed) \<and>
    out' @ left = out @ buf (d_wbuff (socks s (nat fd))) @ concat (map buf (take n ops)) \<and>
    (if closed then n < length ops \<and> ops ! n = None else n = length ops) \<and>
    buf (d_wbuff (socks s' (nat fd))) = (if closed then [] else left) \<and>
    (\<forall>j. j \<noteq> nat fd \<longrightarrow> d_wbuff (socks s' j) = d_wbuff (socks s j))"
  using assms(2,4)
proof (induction ops arbitrary: s out)
  case Nil
  show ?case
    by (intro exI [of _ s] exI [of _ out] exI [of _ False] exI [of _ "buf (d_wbuff (socks s (nat fd)))"] exI [of _ 0]) simp
next
  case (Cons p ops)
  have use: "d_flag (socks s (nat fd)) \<noteq> 0" using Cons.prems(2) by auto
  have tab: "has_table s" "closers_ok ne" using Cons.prems(1) by (simp_all add: closing_def)
  let ?b = "buf (d_wbuff (socks s (nat fd)))"
  show ?case
  proof (cases p)
    case (Some data)
    obtain r s1 where s1: "unet_write ne fd False data s = Some (r, s1)" "has_table s1"
        "d_flag (socks s1 (nat fd)) = d_flag (socks s (nat fd))" "buf (d_wbuff (socks s1 (nat fd))) = ?b @ data"
        "\<forall>j. j \<noteq> nat fd \<longrightarrow> d_wbuff (socks s1 j) = d_wbuff (socks s j)"
      using unet_write_stream [OF assms(1) tab(1) assms(3) Cons.prems(2)] by blast
    have "closing ne s1" using s1(2) tab(2) by (simp add: closing_def)
    from Cons.IH [OF this, of out] s1(3) Cons.prems(2) obtain s' out' closed left n where
      "run_output ne fd ops (s1, out) = Some (s', out', closed)"
      "out' @ left = out @ buf (d_wbuff (socks s1 (nat fd))) @ concat (map buf (take n ops))"
      "if closed then n < length ops \<and> ops ! n = None else n = length ops"
      "buf (d_wbuff (socks s' (nat fd))) = (if closed then [] else left)"
      "\<forall>j. j \<noteq> nat fd \<longrightarrow> d_wbuff (socks s' j) = d_wbuff (socks s1 j)" by auto
    with s1 Some show ?thesis
      by (intro exI [of _ s'] exI [of _ out'] exI [of _ closed] exI [of _ left] exI [of _ "Suc n"]) auto
  next
    case None
    define m where "m = (if ?b = [] then 0 else n_write ne (n_tick s) fd (esl s fd) ?b)"
    show ?thesis
    proof (cases "0 \<le> m \<or> m = SHERR_AGAIN")
      case True
      obtain s1 where s1: "cycle_write ne fd s = Some s1" "has_table s1" "d_flag (socks s1 (nat fd)) = d_flag (socks s (nat fd))"
        "take (nat m) ?b @ buf (d_wbuff (socks s1 (nat fd))) = ?b" "\<forall>j. j \<noteq> nat fd \<longrightarrow> d_wbuff (socks s1 j) = d_wbuff (socks s j)"
        using cycle_write_pass [OF assms(1) tab(1) assms(3) use m_def True] by blast
      have "closing ne s1" using s1(2) tab(2) by (simp add: closing_def)
      from Cons.IH [OF this, of "out @ take (nat m) ?b"] s1(3) Cons.prems(2) obtain s' out' closed left n where
        r: "run_output ne fd ops (s1, out @ take (nat m) ?b) = Some (s', out', closed)"
        "out' @ left = (out @ take (nat m) ?b) @ buf (d_wbuff (socks s1 (nat fd))) @ concat (map buf (take n ops))"
        "if closed then n < length ops \<and> ops ! n = None else n = length ops"
        "buf (d_wbuff (socks s' (nat fd))) = (if closed then [] else left)"
        "\<forall>j. j \<noteq> nat fd \<longrightarrow> d_wbuff (socks s' j) = d_wbuff (socks s1 j)" by auto
      have "out' @ left = out @ ?b @ concat (map buf (take (Suc n) (p # ops)))"
        unfolding r(2) None by (subst s1(4) [symmetric]) simp
      moreover have "run_output ne fd (p # ops) (s, out) = Some (s', out', closed)"
        using s1(1) True None r(1) m_def by (auto simp: Let_def)
      ultimately show ?thesis using r(3-5) s1(5)
        by (intro exI [of _ s'] exI [of _ out'] exI [of _ closed] exI [of _ left] exI [of _ "Suc n"]) auto
    next
      case False
      then have ne0: "?b \<noteq> []" by (auto simp: m_def)
      have tk: "has_table (tick s)" "d_flag (socks (tick s) (nat fd)) \<noteq> 0" using tab(1) use by simp_all
      obtain b where b: "d_wbuff (socks s (nat fd)) = Some b" "b \<noteq> []" using ne0 by (cases "d_wbuff (socks s (nat fd))") auto
      obtain s1 where s1: "unet_close ne fd (tick s) = Some (None, s1)" "socks s1 = (socks s)(nat fd := zero_desc)"
        using unet_close_ok [OF tab(2) tk(1) assms(3) tk(2)] by auto
      have "cycle_write ne fd s = Some s1"
        using b False s1(1) assms(1) by (auto simp: cycle_write_def desc_of_def shbuf_ok_def esl_def Let_def m_def)
      then have "run_output ne fd (p # ops) (s, out) = Some (s1, out, True)"
        using False None m_def ne0 by (auto simp: Let_def)
      then show ?thesis using None s1(2)
        by (intro exI [of _ s1] exI [of _ out] exI [of _ True] exI [of _ ?b] exI [of _ 0]) (auto simp: zero_desc_def)
    qed
  qed
qed

section \<open>The time to wait\<close>

lemma idle_next_bounds:
  "n_rnd ne (1 / 100) \<le> idle_next ne max_t wait_t idle_t \<and>
   idle_next ne max_t wait_t idle_t \<le> max (n_rnd ne (1 / 100)) max_t"
  by (auto simp: idle_next_def Let_def)

lemma select_usec_bounds:
  assumes "\<And>x. 0 \<le> x \<Longrightarrow> 0 \<le> n_rnd ne x" and "0 \<le> idle_t"
  shows "0 \<le> select_usec ne idle_t \<and> select_usec ne idle_t < 1000000"
proof -
  have "0 \<le> n_rnd ne (1000000 * idle_t)" using assms by simp
  moreover have "min 999000 (n_rnd ne (1000000 * idle_t)) \<le> 999000" by simp
  ultimately show ?thesis unfolding select_usec_def by (simp add: floor_less_iff)
qed

end
