(* ===== verification/Merkle.thy ===== *)
theory Merkle
  imports Prelude
begin

text \<open>
  The merkle trees of \<^verbatim>\<open>server/block_merkle.cpp\<close> (the table of all rows, branches into it and their
  check) and of \<^verbatim>\<open>server/wit_merkle.cpp\<close> (the computation of root and branch in constant space, with
  the detection of repeated subtrees). The double hash of two concatenated values, which comes from a
  cryptographic library, is the argument \<open>H\<close>. A transaction is its hash.
\<close>

type_synonym u256 = "256 word"
type_synonym hash2 = "u256 \<Rightarrow> u256 \<Rightarrow> u256"

section \<open>The table of rows\<close>

text \<open>
  The loops of \<open>BuildMerkleTree\<close>: one row of pairs, and the rows up to the root. The \<open>int\<close> indices of
  the source are natural numbers here and in \<open>merkle_branch\<close>; both agree up to $2^{30}$ leaves, from
  where on the source's indices overflow.
\<close>

function build_row :: "hash2 \<Rightarrow> nat \<Rightarrow> nat \<Rightarrow> nat \<Rightarrow> u256 list \<Rightarrow> u256 list" where
  "build_row H j nSize i vMerkleTree =
     (if i < nSize then
        let i2 = min (i + 1) (nSize - 1)
        in build_row H j nSize (i + 2) (vMerkleTree @ [H (vMerkleTree ! (j + i)) (vMerkleTree ! (j + i2))])
      else vMerkleTree)"
  by pat_completeness auto
termination
  by (relation "measure (\<lambda>(H, j, nSize, i, t). nSize - i)") auto

function build_rows :: "hash2 \<Rightarrow> nat \<Rightarrow> nat \<Rightarrow> u256 list \<Rightarrow> u256 list" where
  "build_rows H j nSize vMerkleTree =
     (if nSize > 1 then build_rows H (j + nSize) ((nSize + 1) div 2) (build_row H j nSize 0 vMerkleTree)
      else vMerkleTree)"
  by pat_completeness auto
termination
  by (relation "measure (\<lambda>(H, j, nSize, t). nSize)") auto

declare build_row.simps [simp del] build_rows.simps [simp del]

definition BuildMerkleTree :: "hash2 \<Rightarrow> u256 list \<Rightarrow> u256 \<times> u256 list" where
  "BuildMerkleTree H vtx =
     (let vMerkleTree = build_rows H 0 (length vtx) vtx
      in (if vMerkleTree = [] then 0 else last vMerkleTree, vMerkleTree))"

text \<open>
  The loop of \<open>GetMerkleBranch\<close> over the rows; \<^term>\<open>None\<close> is a read outside the table, which a negative
  index gives.
\<close>

function merkle_branch :: "u256 list \<Rightarrow> nat \<Rightarrow> nat \<Rightarrow> int \<Rightarrow> u256 list option" where
  "merkle_branch vMerkleTree j nSize nIndex =
     (if nSize > 1 then
        let i = min (nIndex XOR 1) (int nSize - 1)
        in if int j + i < 0 \<or> nat (int j + i) \<ge> length vMerkleTree then None
           else map_option ((#) (vMerkleTree ! nat (int j + i)))
                  (merkle_branch vMerkleTree (j + nSize) ((nSize + 1) div 2) (nIndex div 2))
      else Some [])"
  by pat_completeness auto
termination
  by (relation "measure (\<lambda>(t, j, nSize, k). nSize)") auto

declare merkle_branch.simps [simp del]

definition GetMerkleBranch :: "hash2 \<Rightarrow> u256 list \<Rightarrow> u256 list \<Rightarrow> int \<Rightarrow> u256 list option" where
  "GetMerkleBranch H vtx vMerkleTree nIndex =
     (let vMerkleTree = (if vMerkleTree = [] then snd (BuildMerkleTree H vtx) else vMerkleTree)
      in merkle_branch vMerkleTree 0 (length vtx) nIndex)"

fun check_branch :: "hash2 \<Rightarrow> u256 \<Rightarrow> u256 list \<Rightarrow> int \<Rightarrow> u256" where
  "check_branch H h [] nIndex = h"
| "check_branch H h (otherside # vMerkleBranch) nIndex =
     check_branch H (if odd nIndex then H otherside h else H h otherside) vMerkleBranch (nIndex div 2)"

definition CheckMerkleBranch :: "hash2 \<Rightarrow> u256 \<Rightarrow> u256 list \<Rightarrow> int \<Rightarrow> u256" where
  "CheckMerkleBranch H h vMerkleBranch nIndex =
     (if nIndex = -1 then 0 else check_branch H h vMerkleBranch nIndex)"

section \<open>The computation in constant space\<close>

text \<open>The local variables of \<open>MerkleComputation\<close> that live through its loops.\<close>

record merkle =
  inner :: "nat \<Rightarrow> u256"
  mutated :: bool
  matchlevel :: int
  branch :: "u256 list"

text \<open>
  The two inner loops are one: from a level with a clear bit of \<open>count\<close> to the next with a set one.
  \<open>track\<close> says whether equal halves set \<open>mutated\<close> (the first loop does, the sweep does not), \<open>br\<close>
  whether a branch is asked for. \<^term>\<open>None\<close> is a level past the 32 bits of \<open>count\<close>.
\<close>

function climb :: "hash2 \<Rightarrow> bool \<Rightarrow> bool \<Rightarrow> nat \<Rightarrow> nat \<Rightarrow> u256 \<Rightarrow> bool \<Rightarrow> merkle \<Rightarrow>
    (nat \<times> u256 \<times> bool \<times> merkle) option" where
  "climb H br track count level h matchh st =
     (if level \<ge> 32 then None
      else if bit count level then Some (level, h, matchh, st)
      else
        let (matchh, bs) =
              (if br \<and> matchh then (True, branch st @ [inner st level])
               else if br \<and> matchlevel st = int level then (True, branch st @ [h])
               else (matchh, branch st))
        in climb H br track count (Suc level) (H (inner st level) h) matchh
             (st\<lparr>branch := bs, mutated := mutated st \<or> track \<and> inner st level = h\<rparr>))"
  by pat_completeness auto
termination
  by (relation "measure (\<lambda>(H, br, track, count, level, h, m, st). 32 - level)") auto

declare climb.simps [simp del]

fun merkle_leaves :: "hash2 \<Rightarrow> bool \<Rightarrow> nat \<Rightarrow> nat \<Rightarrow> u256 list \<Rightarrow> merkle \<Rightarrow> merkle option" where
  "merkle_leaves H br branchpos count [] st = Some st"
| "merkle_leaves H br branchpos count (leaf # leaves) st = do {
     let next = (count + 1) mod 2 ^ 32;
     (level, h, matchh, st) \<leftarrow> climb H br True next 0 leaf (count = branchpos) st;
     merkle_leaves H br branchpos next leaves
       (st\<lparr>inner := (inner st)(level := h), matchlevel := (if matchh then int level else matchlevel st)\<rparr>) }"

function lowest :: "nat \<Rightarrow> nat \<Rightarrow> nat option" where
  "lowest count level =
     (if level \<ge> 32 then None else if bit count level then Some level else lowest count (Suc level))"
  by pat_completeness auto
termination
  by (relation "measure (\<lambda>(count, level). 32 - level)") auto

declare lowest.simps [simp del]

lemma climb_level:
  assumes "climb H br track count level h m st = Some r"
  shows "level \<le> fst r \<and> fst r < 32"
  using assms
proof (induction "32 - level" arbitrary: br level h m st)
  case 0
  then show ?case by (subst (asm) climb.simps) simp
next
  case (Suc k)
  have step: "\<And>br h' m' st'. climb H br track count (Suc level) h' m' st' = Some r \<Longrightarrow> level \<le> fst r \<and> fst r < 32"
    using Suc.hyps(1) [of "Suc level"] Suc.hyps(2) by fastforce
  show ?case
    using Suc.prems Suc.hyps(2)
    by (subst (asm) climb.simps) (auto simp: Let_def split: if_splits dest: step)
qed

function sweep :: "hash2 \<Rightarrow> bool \<Rightarrow> nat \<Rightarrow> nat \<Rightarrow> u256 \<Rightarrow> bool \<Rightarrow> merkle \<Rightarrow> (u256 \<times> merkle) option" where
  "sweep H br count level h matchh st =
     (if level \<ge> 32 then None
      else if count = 2 ^ level then Some (h, st)
      else
        let st = (if br \<and> matchh then st\<lparr>branch := branch st @ [h]\<rparr> else st);
            count = (count + 2 ^ level) mod 2 ^ 32
        in do {
          (level, h, matchh, st) \<leftarrow> climb H br False count (Suc level) (H h h) matchh st;
          sweep H br count level h matchh st })"
  by pat_completeness auto
termination
  by (relation "measure (\<lambda>(H, br, count, level, h, m, st). 32 - level)") (auto dest!: climb_level)

declare sweep.simps [simp del]

definition merkle0 :: merkle where
  "merkle0 = \<lparr>inner = (\<lambda>_. 0), mutated = False, matchlevel = -1, branch = []\<rparr>"

definition MerkleComputation :: "hash2 \<Rightarrow> u256 list \<Rightarrow> nat \<Rightarrow> bool \<Rightarrow> (u256 \<times> bool \<times> u256 list) option" where
  "MerkleComputation H leaves branchpos br =
     (if leaves = [] then Some (0, False, [])
      else do {
        st \<leftarrow> merkle_leaves H br branchpos 0 leaves merkle0;
        let count = length leaves mod 2 ^ 32;
        level \<leftarrow> lowest count 0;
        (h, st) \<leftarrow> sweep H br count level (inner st level) (matchlevel st = int level) st;
        Some (h, mutated st, branch st) })"

definition ComputeMerkleRoot :: "hash2 \<Rightarrow> u256 list \<Rightarrow> (u256 \<times> bool) option" where
  "ComputeMerkleRoot H leaves =
     map_option (\<lambda>(root, mut, _). (root, mut)) (MerkleComputation H leaves (2 ^ 32 - 1) False)"

definition ComputeMerkleBranch :: "hash2 \<Rightarrow> u256 list \<Rightarrow> nat \<Rightarrow> u256 list option" where
  "ComputeMerkleBranch H leaves position =
     map_option (\<lambda>(_, _, bs). bs) (MerkleComputation H leaves position True)"

definition ComputeMerkleRootFromBranch :: "hash2 \<Rightarrow> u256 \<Rightarrow> u256 list \<Rightarrow> nat \<Rightarrow> u256" where
  "ComputeMerkleRootFromBranch H leaf vMerkleBranch nIndex = check_branch H leaf vMerkleBranch (int nIndex)"

definition BlockMerkleRoot :: "hash2 \<Rightarrow> u256 list \<Rightarrow> (u256 \<times> bool) option" where
  "BlockMerkleRoot H vtx = ComputeMerkleRoot H vtx"

text \<open>
  \<open>BlockWitnessMerkleRoot\<close> puts zero for the first transaction; with no transaction it writes outside
  the empty vector.
\<close>

definition BlockWitnessMerkleRoot :: "hash2 \<Rightarrow> u256 list \<Rightarrow> (u256 \<times> bool) option" where
  "BlockWitnessMerkleRoot H witness = (if witness = [] then None else ComputeMerkleRoot H (0 # tl witness))"

definition BlockMerkleBranch :: "hash2 \<Rightarrow> u256 list \<Rightarrow> nat \<Rightarrow> u256 list option" where
  "BlockMerkleBranch H vtx position = ComputeMerkleBranch H vtx position"

section \<open>The reference: rows of pairs\<close>

text \<open>
  \<open>up\<close> is the next row, \<open>row l\<close> the row \<open>l\<close> steps above the leaves, \<open>mroot\<close> the only value of the first
  row that has one, \<open>siblings\<close> the partners met on the way up from a position.
\<close>

fun up :: "hash2 \<Rightarrow> u256 list \<Rightarrow> u256 list" where
  "up H [] = []"
| "up H [a] = [H a a]"
| "up H (a # b # xs) = H a b # up H xs"

lemma length_up [simp]: "length (up H xs) = Suc (length xs) div 2"
  by (induction H xs rule: up.induct) auto

function mroot :: "hash2 \<Rightarrow> u256 list \<Rightarrow> u256" where
  "mroot H xs = (case xs of [] \<Rightarrow> 0 | [a] \<Rightarrow> a | _ \<Rightarrow> mroot H (up H xs))"
  by pat_completeness auto
termination
  by (relation "measure (\<lambda>(H, xs). length xs)") auto

declare mroot.simps [simp del]

lemma mroot_single [simp]: "mroot H [a] = a"
  by (subst mroot.simps) simp

lemma mroot_up: "1 < length xs \<Longrightarrow> mroot H xs = mroot H (up H xs)"
  by (subst mroot.simps) (auto split: list.splits)

definition row :: "hash2 \<Rightarrow> u256 list \<Rightarrow> nat \<Rightarrow> u256 list" where
  "row H xs l = (up H ^^ l) xs"

fun width :: "nat \<Rightarrow> nat \<Rightarrow> nat" where
  "width n 0 = n"
| "width n (Suc l) = Suc (width n l) div 2"

definition partner :: "nat \<Rightarrow> nat" where
  "partner k = (if even k then k + 1 else k - 1)"

definition siblings :: "hash2 \<Rightarrow> u256 list \<Rightarrow> nat \<Rightarrow> nat \<Rightarrow> u256 list" where
  "siblings H xs pos d =
     map (\<lambda>l. row H xs l ! min (partner (pos div 2 ^ l)) (width (length xs) l - 1)) [0..<d]"

lemma row_0 [simp]: "row H xs 0 = xs"
  by (simp add: row_def)

lemma row_Suc: "row H xs (Suc l) = up H (row H xs l)"
  by (simp add: row_def)

lemma length_row [simp]: "length (row H xs l) = width (length xs) l"
  by (induction l) (auto simp: row_Suc)

lemma nth_up:
  "k < length (up H xs) \<Longrightarrow> up H xs ! k = H (xs ! (2 * k)) (xs ! min (2 * k + 1) (length xs - 1))"
proof (induction H xs arbitrary: k rule: up.induct)
  case (3 H a b xs)
  then show ?case
    by (cases k) (auto simp: nth_Cons' min_def)
qed auto

lemma width_div: "width n l = n div 2 ^ l + (if 2 ^ l dvd n then 0 else 1)"
proof (induction l)
  case (Suc l)
  have q: "n div 2 ^ Suc l = n div 2 ^ l div 2"
    by (metis div_mult2_eq power_Suc2)
  have d: "2 ^ Suc l dvd n \<longleftrightarrow> 2 ^ l dvd n \<and> even (n div 2 ^ l)"
    by (metis dvd_div_iff_mult dvd_mult_left mult.commute power_Suc power_eq_0_iff zero_neq_numeral dvd_mult_right)
  show ?case
    unfolding width.simps Suc.IH q d by (auto elim!: oddE evenE)
qed simp

lemma width_ge: "c \<le> n \<Longrightarrow> c div 2 ^ l \<le> width n l"
  by (simp add: width_div div_le_mono trans_le_add1)

lemma width_pos: "0 < n \<Longrightarrow> 0 < width n l"
  by (induction l) auto

lemma width_le: "n \<le> 2 ^ d \<Longrightarrow> l \<le> d \<Longrightarrow> width n l * 2 ^ l \<le> 2 ^ d"
proof -
  assume a: "n \<le> 2 ^ d" "l \<le> d"
  then obtain e where e: "d = l + e" using le_Suc_ex by blast
  have "width n l \<le> 2 ^ e"
    using a(1) unfolding e
  proof (induction l arbitrary: e)
    case (Suc l)
    from Suc.IH [of "Suc e"] Suc.prems show ?case by simp
  qed simp
  then show ?thesis unfolding e power_add by (simp add: mult.commute)
qed

lemma row_step:
  assumes "k < width (length xs) (Suc l)"
  shows "row H xs (Suc l) ! k =
    H (row H xs l ! (2 * k)) (row H xs l ! min (2 * k + 1) (width (length xs) l - 1))"
  using assms by (simp add: row_Suc nth_up)

lemma row_pair:
  assumes "q \<le> width (length xs) l" "even q" "0 < q"
  shows "row H xs (Suc l) ! (q div 2 - 1) = H (row H xs l ! (q - 2)) (row H xs l ! (q - 1))"
proof -
  from assms(2,3) obtain b where q: "q = 2 * Suc b" by (metis dvdE gr0_implies_Suc mult_0_right nat_neq_iff not_gr_zero)
  show ?thesis
    using row_step [of b xs l H] assms(1) by (simp add: q min_absorb1)
qed

lemma row_last:
  assumes "odd (width (length xs) l)"
  shows "row H xs (Suc l) ! (width (length xs) (Suc l) - 1) =
    H (row H xs l ! (width (length xs) l - 1)) (row H xs l ! (width (length xs) l - 1))"
  using assms row_step [of "width (length xs) (Suc l) - 1" xs l H] by (auto elim!: oddE)

lemma mroot_row:
  "(\<forall>i<l. 1 < width (length xs) i) \<Longrightarrow> mroot H xs = mroot H (row H xs l)"
  by (induction l) (auto simp: row_Suc mroot_up)

lemma mroot_top:
  assumes "\<forall>i<l. 1 < width (length xs) i" "width (length xs) l = 1"
  shows "mroot H xs = row H xs l ! 0"
proof -
  have "length (row H xs l) = 1" using assms(2) by simp
  then show ?thesis
    using mroot_row [OF assms(1), of H] by (cases "row H xs l") auto
qed

section \<open>The table of rows computes the reference\<close>

function table :: "hash2 \<Rightarrow> u256 list \<Rightarrow> u256 list" where
  "table H xs = (if 1 < length xs then xs @ table H (up H xs) else xs)"
  by pat_completeness auto
termination
  by (relation "measure (\<lambda>(H, xs). length xs)") auto

declare table.simps [simp del]

lemma table_Nil [simp]: "table H xs = [] \<longleftrightarrow> xs = []"
  by (subst table.simps) auto

lemma last_table: "xs \<noteq> [] \<Longrightarrow> last (table H xs) = mroot H xs"
proof (induction H xs rule: table.induct)
  case (1 H xs)
  show ?case
  proof (cases "1 < length xs")
    case True
    then have "up H xs \<noteq> []" by (metis length_up list.size(3) div_eq_0_iff Suc_1 not_less_eq numeral_2_eq_2 less_Suc_eq_0_disj not_less0)
    with True 1 show ?thesis by (subst table.simps) (simp add: mroot_up)
  next
    case False
    with "1.prems" show ?thesis by (subst table.simps) (cases xs; auto)
  qed
qed

lemma build_row_up:
  "length pre = j \<Longrightarrow> length xs = n \<Longrightarrow>
   build_row H j n i (pre @ xs @ acc) = pre @ xs @ acc @ up H (drop i xs)"
proof (induction "n - i" arbitrary: i acc rule: less_induct)
  case less
  show ?case
  proof (cases "i < n")
    case True
    have u: "up H (drop i xs) = H (xs ! i) (xs ! min (i + 1) (n - 1)) # up H (drop (i + 2) xs)"
    proof (cases "i + 1 < n")
      case True
      then have "drop i xs = xs ! i # xs ! (i + 1) # drop (i + 2) xs"
        using less.prems by (simp add: Cons_nth_drop_Suc)
      with True show ?thesis by simp
    next
      case False
      then have "drop i xs = [xs ! i]" "i = n - 1" "drop (i + 2) xs = []"
        using less.prems \<open>i < n\<close> by (auto simp: Cons_nth_drop_Suc [symmetric])
      then show ?thesis by simp
    qed
    have "build_row H j n (i + 2) (pre @ xs @ (acc @ [H (xs ! i) (xs ! min (i + 1) (n - 1))])) =
        pre @ xs @ (acc @ [H (xs ! i) (xs ! min (i + 1) (n - 1))]) @ up H (drop (i + 2) xs)"
      using less.prems True by (intro less.hyps) auto
    with True less.prems show ?thesis
      by (subst build_row.simps) (simp add: u nth_append Let_def min_less_iff_disj)
  next
    case False
    with less.prems show ?thesis by (subst build_row.simps) simp
  qed
qed

lemma build_rows_table:
  "length pre = j \<Longrightarrow> length xs = n \<Longrightarrow> build_rows H j n (pre @ xs) = pre @ table H xs"
proof (induction n arbitrary: j pre xs rule: less_induct)
  case (less n)
  show ?case
  proof (cases "1 < n")
    case True
    have r: "build_row H j n 0 (pre @ xs) = (pre @ xs) @ up H xs"
      using build_row_up [of pre j xs n H 0 "[]"] less.prems by simp
    have "build_rows H (j + n) ((n + 1) div 2) ((pre @ xs) @ up H xs) = (pre @ xs) @ table H (up H xs)"
      using less.prems True by (intro less.IH) auto
    with True less.prems show ?thesis
      by (subst build_rows.simps, subst table.simps) (simp add: r)
  next
    case False
    with less.prems show ?thesis by (subst build_rows.simps, subst table.simps) simp
  qed
qed

lemma BuildMerkleTree_table: "BuildMerkleTree H vtx = (mroot H vtx, table H vtx)"
proof -
  have "mroot H [] = 0" by (subst mroot.simps) simp
  then show ?thesis
    using build_rows_table [of "[]" 0 vtx "length vtx" H]
    by (cases "vtx = []") (auto simp: BuildMerkleTree_def last_table)
qed

text \<open>The branch that the table gives, read off row by row.\<close>

function tbranch :: "hash2 \<Rightarrow> u256 list \<Rightarrow> nat \<Rightarrow> u256 list" where
  "tbranch H xs k =
     (if 1 < length xs then xs ! min (partner k) (length xs - 1) # tbranch H (up H xs) (k div 2) else [])"
  by pat_completeness auto
termination
  by (relation "measure (\<lambda>(H, xs, k). length xs)") auto

declare tbranch.simps [simp del]

lemma xor_1_partner: "int k XOR 1 = int (partner k)"
  by (auto simp: partner_def xor_one_eq elim!: oddE)

lemma merkle_branch_table:
  "length pre = j \<Longrightarrow> length xs = n \<Longrightarrow> merkle_branch (pre @ table H xs) j n (int k) = Some (tbranch H xs k)"
proof (induction n arbitrary: j pre xs k rule: less_induct)
  case (less n)
  show ?case
  proof (cases "1 < n")
    case True
    have "merkle_branch ((pre @ xs) @ table H (up H xs)) (j + n) ((n + 1) div 2) (int (k div 2)) =
        Some (tbranch H (up H xs) (k div 2))"
      using less.prems True by (intro less.IH) auto
    moreover define i where "i = min (partner k) (n - 1)"
    moreover have "min (int k XOR 1) (int n - 1) = int i" "i < n"
      using True by (auto simp: xor_1_partner i_def)
    moreover have "table H xs = xs @ table H (up H xs)"
      using True less.prems by (subst table.simps) simp
    moreover have "nat (int j + int i) = j + i" by simp
    ultimately show ?thesis
      using True less.prems
      by (subst merkle_branch.simps, subst tbranch.simps)
         (simp only: Let_def, auto simp: zdiv_int nth_append)
  next
    case False
    with less.prems show ?thesis by (subst merkle_branch.simps, subst tbranch.simps) simp
  qed
qed

lemma check_tbranch:
  "k < length xs \<Longrightarrow> check_branch H (xs ! k) (tbranch H xs k) (int k) = mroot H xs"
proof (induction H xs k rule: tbranch.induct)
  case (1 H xs k)
  show ?case
  proof (cases "1 < length xs")
    case True
    have lt: "k div 2 < length (up H xs)" using "1.prems" by simp
    have "(if odd k then H (xs ! min (partner k) (length xs - 1)) (xs ! k)
           else H (xs ! k) (xs ! min (partner k) (length xs - 1))) = up H xs ! (k div 2)"
      using nth_up [OF lt] "1.prems" by (auto simp: partner_def min_def elim!: oddE evenE)
    with 1 True lt show ?thesis
      by (subst tbranch.simps) (auto simp: mroot_up zdiv_int split: if_splits)
  next
    case False
    with "1.prems" have "length xs = 1" "k = 0" by auto
    then show ?thesis by (subst tbranch.simps) (cases xs; auto)
  qed
qed

section \<open>The constant-space computation computes the reference\<close>

lemma bit_div: "bit (n::nat) l \<longleftrightarrow> odd (n div 2 ^ l)"
  by (simp add: bit_iff_odd)

lemma div_Suc_pow: "(n::nat) div 2 ^ Suc l = n div 2 ^ l div 2"
  by (metis div_mult2_eq power_Suc2)

lemma dvd_Suc_pow: "2 ^ Suc l dvd (n::nat) \<longleftrightarrow> 2 ^ l dvd n \<and> even (n div 2 ^ l)"
  by (metis dvd_div_iff_mult dvd_mult_left mult.commute power_Suc power_eq_0_iff zero_neq_numeral dvd_mult_right)

text \<open>
  What a climb needs of the stored values (\<open>climbs\<close>), and what it keeps of the branch (\<open>tracked\<close>), at
  the node that ends at leaf number \<open>count\<close> on \<open>level\<close>.
\<close>

definition climbs :: "hash2 \<Rightarrow> u256 list \<Rightarrow> nat \<Rightarrow> nat \<Rightarrow> u256 \<Rightarrow> merkle \<Rightarrow> bool" where
  "climbs H xs count level h st \<longleftrightarrow>
     0 < count \<and> 2 ^ level dvd count \<and> h = row H xs level ! (count div 2 ^ level - 1) \<and>
     (\<forall>l\<ge>level. count div 2 ^ l \<le> width (length xs) l) \<and>
     (\<forall>l\<ge>level. 2 ^ Suc l dvd count \<longrightarrow> inner st l = row H xs l ! (count div 2 ^ l - 2))"

definition tracked :: "hash2 \<Rightarrow> u256 list \<Rightarrow> nat \<Rightarrow> nat \<Rightarrow> u256 list \<Rightarrow> nat \<Rightarrow> bool \<Rightarrow> merkle \<Rightarrow> bool" where
  "tracked H xs pos count bs level matchh st \<longleftrightarrow>
     (matchh \<longleftrightarrow> pos div 2 ^ level = count div 2 ^ level - 1) \<and>
     (if matchh then branch st = siblings H xs pos level
      else branch st = bs \<and> (0 \<le> matchlevel st \<longrightarrow> bs = siblings H xs pos (nat (matchlevel st))) \<and>
        (\<forall>l\<ge>level. 2 ^ Suc l dvd count \<longrightarrow> matchlevel st = int l \<longleftrightarrow> pos div 2 ^ l = count div 2 ^ l - 2))"

lemma siblings_Suc:
  "siblings H xs pos (Suc d) =
   siblings H xs pos d @ [row H xs d ! min (partner (pos div 2 ^ d)) (width (length xs) d - 1)]"
  by (simp add: siblings_def)

lemma climbs_step:
  assumes "climbs H xs count level h st" "\<not> bit count level"
  shows "climbs H xs count (Suc level) (H (inner st level) h) (st\<lparr>branch := bs, mutated := mu\<rparr>)"
    "2 ^ Suc level dvd count"
proof -
  let ?q = "count div 2 ^ level"
  have d: "2 ^ Suc level dvd count"
    using assms unfolding climbs_def dvd_Suc_pow bit_div by blast
  then have "even ?q" "0 < ?q"
    using assms by (auto simp: climbs_def bit_div dvd_imp_le div_greater_zero_iff)
  moreover have "?q \<le> width (length xs) level" "inner st level = row H xs level ! (?q - 2)"
    "h = row H xs level ! (?q - 1)"
    using assms d by (auto simp: climbs_def)
  ultimately have "row H xs (Suc level) ! (count div 2 ^ Suc level - 1) = H (inner st level) h"
    by (simp only: div_Suc_pow row_pair)
  with d assms(1) show "climbs H xs count (Suc level) (H (inner st level) h) (st\<lparr>branch := bs, mutated := mu\<rparr>)"
    by (simp add: climbs_def)
  show "2 ^ Suc level dvd count" by fact
qed

lemma climbs_even:
  assumes "climbs H xs count level h st" "\<not> bit count level"
  obtains e where "count div 2 ^ level = 2 * Suc e"
proof -
  have "0 < count div 2 ^ level"
    using assms(1) by (auto simp: climbs_def div_greater_zero_iff intro: dvd_imp_le)
  moreover obtain a where "count div 2 ^ level = 2 * a" using assms(2) unfolding bit_div by blast
  ultimately show ?thesis using that [of "a - 1"] by simp
qed

lemma tracked_step:
  assumes c: "climbs H xs count level h st" "\<not> bit count level"
    and t: "tracked H xs pos count bs level matchh st"
    and s: "(m', b') = (if matchh then (True, branch st @ [inner st level])
             else if matchlevel st = int level then (True, branch st @ [h]) else (matchh, branch st))"
  shows "tracked H xs pos count bs (Suc level) m' (st\<lparr>branch := b', mutated := mu\<rparr>)"
proof -
  let ?q = "count div 2 ^ level" and ?k = "pos div 2 ^ level"
  have d: "2 ^ Suc level dvd count" by (rule climbs_step [OF c])
  obtain e where e: "?q = 2 * Suc e"
    by (rule climbs_even [OF c])
  have w: "?q \<le> width (length xs) level" and i: "inner st level = row H xs level ! (?q - 2)"
    and h: "h = row H xs level ! (?q - 1)"
    using c d by (auto simp: climbs_def)
  have up: "count div 2 ^ Suc level = Suc e" "pos div 2 ^ Suc level = ?k div 2"
    by (simp_all only: div_Suc_pow e, simp)
  have k: "matchh \<longleftrightarrow> ?k = 2 * e + 1" using t by (auto simp: tracked_def e)
  consider (h) matchh | (m) "\<not> matchh" "?k = 2 * e" | (n) "\<not> matchh" "?k \<noteq> 2 * e" "?k \<noteq> 2 * e + 1"
    using k by blast
  then show ?thesis
  proof cases
    case h
    then have "min (partner ?k) (width (length xs) level - 1) = ?q - 2"
      using k w by (simp add: partner_def e)
    with h t s k i up e show ?thesis by (simp add: tracked_def siblings_Suc del: power_Suc)
  next
    case m
    then have "min (partner ?k) (width (length xs) level - 1) = ?q - 1"
      using w by (simp add: partner_def e)
    moreover have "matchlevel st = int level" using m t d by (simp add: tracked_def e del: power_Suc)
    ultimately show ?thesis
      using m t s up h by (simp add: tracked_def siblings_Suc del: power_Suc)
  next
    case n
    then have "matchlevel st \<noteq> int level" using t d by (simp add: tracked_def e del: power_Suc)
    moreover have "?k div 2 \<noteq> e" using n by auto
    ultimately show ?thesis
      using n t s up by (simp add: tracked_def del: power_Suc)
  qed
qed

lemma climbs_level:
  assumes "climbs H xs count level h st" "count < 2 ^ 32"
  shows "level < 32"
proof (rule ccontr)
  assume "\<not> level < 32"
  then have "(2::nat) ^ 32 \<le> 2 ^ level" by (intro power_increasing) auto
  moreover have "2 ^ level \<le> count" using assms(1) by (auto simp: climbs_def intro: dvd_imp_le)
  ultimately show False using assms(2) by linarith
qed

text \<open>A climb ends, at the lowest set bit, with the node that ends there.\<close>

lemma climb_spec:
  assumes "climbs H xs count level h st" "count < 2 ^ 32"
    and "br \<longrightarrow> tracked H xs pos count bs level matchh st"
  shows "\<exists>level' h' m' st'. climb H br track count level h matchh st = Some (level', h', m', st') \<and>
    level \<le> level' \<and> bit count level' \<and> climbs H xs count level' h' st' \<and>
    (br \<longrightarrow> tracked H xs pos count bs level' m' st') \<and>
    inner st' = inner st \<and> matchlevel st' = matchlevel st \<and>
    (mutated st' \<longleftrightarrow> mutated st \<or> track \<and>
       (\<exists>l. level \<le> l \<and> l < level' \<and> inner st l = row H xs l ! (count div 2 ^ l - 1)))"
  using assms
proof (induction "32 - level" arbitrary: level h matchh st)
  case 0
  with climbs_level [OF 0(2,3)] show ?case by simp
next
  case (Suc d)
  note lv = climbs_level [OF Suc.prems(1,2)]
  show ?case
  proof (cases "bit count level")
    case True
    with lv Suc.prems show ?thesis
      by (subst climb.simps) (auto intro!: exI [where x = level])
  next
    case False
    define r where "r = (if br \<and> matchh then (True, branch st @ [inner st level])
               else if br \<and> matchlevel st = int level then (True, branch st @ [h]) else (matchh, branch st))"
    define st2 where "st2 = st\<lparr>branch := snd r, mutated := mutated st \<or> track \<and> inner st level = h\<rparr>"
    have c: "climbs H xs count (Suc level) (H (inner st level) h) st2"
      unfolding st2_def by (rule climbs_step [OF Suc.prems(1) False])
    have t: "br \<longrightarrow> tracked H xs pos count bs (Suc level) (fst r) st2"
      unfolding st2_def
      by (intro impI, rule tracked_step [OF Suc.prems(1) False Suc.prems(3) [THEN mp]]) (auto simp: r_def)
    have e: "climb H br track count level h matchh st =
        climb H br track count (Suc level) (H (inner st level) h) (fst r) st2"
      using lv False by (subst climb.simps) (simp add: r_def st2_def)
    have hh: "h = row H xs level ! (count div 2 ^ level - 1)" using Suc.prems(1) by (simp add: climbs_def)
    have "d = 32 - Suc level" using Suc.hyps(2) by simp
    from Suc.hyps(1) [OF this c Suc.prems(2) t] obtain level' h' m' st' where
      r: "climb H br track count level h matchh st = Some (level', h', m', st')"
        "Suc level \<le> level'" "bit count level'" "climbs H xs count level' h' st'"
        "br \<longrightarrow> tracked H xs pos count bs level' m' st'" "inner st' = inner st2" "matchlevel st' = matchlevel st2"
      and m: "mutated st' \<longleftrightarrow> mutated st2 \<or> track \<and>
       (\<exists>l. Suc level \<le> l \<and> l < level' \<and> inner st2 l = row H xs l ! (count div 2 ^ l - 1))"
      unfolding e by blast
    have i: "inner st2 = inner st" "matchlevel st2 = matchlevel st"
      "mutated st2 \<longleftrightarrow> mutated st \<or> track \<and> inner st level = h"
      by (simp_all add: st2_def)
    have "mutated st' \<longleftrightarrow> mutated st \<or> track \<and>
       (\<exists>l. level \<le> l \<and> l < level' \<and> inner st l = row H xs l ! (count div 2 ^ l - 1))"
      unfolding m i using r(2) hh by (metis Suc_le_lessD le_eq_less_or_eq Suc_leI)
    with r i show ?thesis by auto
  qed
qed

text \<open>
  The state after \<open>c\<close> leaves: the stored value of every set bit, the branch up to the stored node above
  the position, and \<open>mutated\<close> exactly when two halves of a complete node were equal.
\<close>

definition twins :: "hash2 \<Rightarrow> u256 list \<Rightarrow> nat \<Rightarrow> bool" where
  "twins H xs c \<longleftrightarrow> (\<exists>l k. (2 * k + 2) * 2 ^ l \<le> c \<and> row H xs l ! (2 * k) = row H xs l ! (2 * k + 1))"

definition stored :: "hash2 \<Rightarrow> u256 list \<Rightarrow> nat \<Rightarrow> merkle \<Rightarrow> bool" where
  "stored H xs c st \<longleftrightarrow> (\<forall>l. bit c l \<longrightarrow> inner st l = row H xs l ! (c div 2 ^ l - 1))"

definition placed :: "hash2 \<Rightarrow> u256 list \<Rightarrow> nat \<Rightarrow> nat \<Rightarrow> merkle \<Rightarrow> bool" where
  "placed H xs pos c st \<longleftrightarrow>
     (if pos < c then \<exists>l. matchlevel st = int l \<and> bit c l \<and> pos div 2 ^ l = c div 2 ^ l - 1 \<and>
                          branch st = siblings H xs pos l
      else matchlevel st = -1 \<and> branch st = [])"

lemma div_pow_add: "(n::nat) div 2 ^ (l + d) = n div 2 ^ l div 2 ^ d"
  by (simp add: power_add div_mult2_eq)

lemma placed_unique:
  assumes "bit (c::nat) l" "pos div 2 ^ l = c div 2 ^ l - 1" "bit c l'" "pos div 2 ^ l' = c div 2 ^ l' - 1"
  shows "l = l'"
proof -
  have lt: False
    if b: "bit c a" "pos div 2 ^ a = c div 2 ^ a - 1" "bit c b" "pos div 2 ^ b = c div 2 ^ b - 1" "a < b" for a b
  proof -
    obtain d where d: "b = a + Suc d" using \<open>a < b\<close> less_iff_Suc_add by auto
    obtain e where e: "c div 2 ^ a = 2 * e + 1" using b(1) unfolding bit_div by (rule oddE)
    have "pos div 2 ^ b = e div 2 ^ d" "c div 2 ^ b = e div 2 ^ d"
      unfolding d div_pow_add b(2) e by (simp_all add: div_mult2_eq)
    moreover have "0 < c div 2 ^ b" using b(3) unfolding bit_div by (metis dvd_0_right gr0I)
    ultimately show False using b(4) by simp
  qed
  show ?thesis
  proof (cases l l' rule: linorder_cases)
    case less with lt assms show ?thesis by blast
  next
    case greater with lt assms show ?thesis by blast
  qed
qed

lemma Suc_div_pow:
  assumes "2 ^ l dvd Suc c"
  shows "c div 2 ^ l = Suc c div 2 ^ l - 1"
proof -
  obtain a where a: "Suc c = 2 ^ l * a" using assms by blast
  then obtain b where b: "a = Suc b" by (cases a) auto
  have "c = 2 ^ l * b + (2 ^ l - 1)" using a b by (simp add: algebra_simps)
  then have "c div 2 ^ l = b" by (metis div_mult_self2 add.commute add_0 div_less diff_less less_numeral_extra(1) power_not_zero zero_less_numeral zero_less_power zero_neq_numeral)
  with a b show ?thesis by simp
qed

lemma Suc_div_above:
  assumes "2 ^ m dvd Suc c" "bit (Suc c) m" "m < l"
  shows "Suc c div 2 ^ l = c div 2 ^ l"
proof -
  obtain d where d: "l = m + Suc d" using \<open>m < l\<close> less_iff_Suc_add by auto
  obtain e where e: "Suc c div 2 ^ m = 2 * e + 1" using assms(2) unfolding bit_div by (rule oddE)
  show ?thesis
    unfolding d div_pow_add Suc_div_pow [OF assms(1)] e by (simp add: div_mult2_eq)
qed

lemma bit_Suc_dvd:
  assumes "2 ^ Suc l dvd Suc c"
  shows "bit c l" "c div 2 ^ l = Suc c div 2 ^ l - 1" "1 < Suc c div 2 ^ l"
proof -
  have d: "2 ^ l dvd Suc c" "even (Suc c div 2 ^ l)"
    using assms unfolding dvd_Suc_pow by auto
  then have p: "0 < Suc c div 2 ^ l" by (auto simp: div_greater_zero_iff intro: dvd_imp_le)
  have "Suc c div 2 ^ l \<noteq> 1" using d(2) by (metis odd_one)
  with p show "1 < Suc c div 2 ^ l" by linarith
  show "c div 2 ^ l = Suc c div 2 ^ l - 1" by (rule Suc_div_pow [OF d(1)])
  with d(2) p show "bit c l" unfolding bit_div by simp
qed

lemma stored_climbs:
  assumes "stored H xs c st" "c < length xs"
  shows "climbs H xs (Suc c) 0 (xs ! c) st"
proof -
  have "inner st l = row H xs l ! (Suc c div 2 ^ l - 2)" if "2 ^ Suc l dvd Suc c" for l
  proof -
    note b = bit_Suc_dvd [OF that]
    have "Suc c div 2 ^ l - 2 = c div 2 ^ l - 1" using b(2) by simp
    with assms(1) b(1) show ?thesis by (simp add: stored_def)
  qed
  then show ?thesis using assms(2) by (auto simp: climbs_def intro: width_ge simp del: power_Suc)
qed

lemma placed_tracked:
  assumes "placed H xs pos c st"
  shows "tracked H xs pos (Suc c) (branch st) 0 (c = pos) st"
proof -
  have m: "matchlevel st = int l \<longleftrightarrow> pos div 2 ^ l = Suc c div 2 ^ l - 2"
    if l: "2 ^ Suc l dvd Suc c" "c \<noteq> pos" for l
  proof (cases "pos < c")
    case True
    with assms obtain j where j: "matchlevel st = int j" "bit c j" "pos div 2 ^ j = c div 2 ^ j - 1"
      by (auto simp: placed_def)
    note b = bit_Suc_dvd [OF l(1)]
    have "Suc c div 2 ^ l - 2 = c div 2 ^ l - 1" using b(2) by simp
    then have "pos div 2 ^ l = Suc c div 2 ^ l - 2 \<longleftrightarrow> j = l"
      using j b(1) placed_unique [OF b(1) _ j(2,3)] by metis
    with j(1) show ?thesis by simp
  next
    case False
    then have "Suc c \<le> pos" using l(2) by simp
    then have "Suc c div 2 ^ l \<le> pos div 2 ^ l" by (rule div_le_mono)
    then show ?thesis using assms False bit_Suc_dvd(3) [OF l(1)] by (simp add: placed_def)
  qed
  show ?thesis
    using assms m by (auto simp: tracked_def placed_def siblings_def simp del: power_Suc split: if_splits)
qed

lemma stored_Suc:
  assumes "stored H xs c st" "climbs H xs (Suc c) level h st" "bit (Suc c) level"
  shows "stored H xs (Suc c) (st\<lparr>inner := (inner st)(level := h), matchlevel := m\<rparr>)"
  unfolding stored_def
proof (intro allI impI)
  fix l assume l: "bit (Suc c) l"
  have d: "2 ^ level dvd Suc c" using assms(2) by (simp add: climbs_def)
  consider "l = level" | "l < level" | "level < l" by linarith
  then show "inner (st\<lparr>inner := (inner st)(level := h), matchlevel := m\<rparr>) l = row H xs l ! (Suc c div 2 ^ l - 1)"
  proof cases
    case 1
    then show ?thesis using assms(2) by (simp add: climbs_def)
  next
    case 2
    then have "2 ^ Suc l dvd Suc c" using d by (metis Suc_leI dvd_trans le_imp_power_dvd)
    with l show ?thesis unfolding dvd_Suc_pow bit_div by simp
  next
    case 3
    have "Suc c div 2 ^ l = c div 2 ^ l" by (rule Suc_div_above [OF d assms(3) 3])
    moreover from this have "bit c l" using l by (simp add: bit_div)
    ultimately show ?thesis using assms(1) 3 by (simp add: stored_def)
  qed
qed

lemma match_below:
  assumes "bit c l" "pos div 2 ^ l = c div 2 ^ l - 1" "2 ^ level dvd Suc c" "bit (Suc c) level"
    and "pos div 2 ^ level \<noteq> Suc c div 2 ^ level - 1"
  shows "level < l"
proof (cases level l rule: linorder_cases)
  case equal
  then show ?thesis using assms(1,4) Suc_div_pow [OF assms(3)] by (simp add: bit_div)
next
  case greater
  then obtain d where d: "level = l + Suc d" using less_iff_Suc_add by auto
  have s: "2 ^ Suc l dvd Suc c" using assms(3) d by (metis add_Suc_right add_Suc dvd_trans le_add1 le_imp_power_dvd)
  note b = bit_Suc_dvd [OF s]
  have "even (Suc c div 2 ^ l)" using s unfolding dvd_Suc_pow by simp
  then obtain a where a: "Suc c div 2 ^ l = 2 * a" by blast
  then obtain e where e: "Suc c div 2 ^ l = 2 * Suc e" using b(3) by (cases a) auto
  have "Suc c = 2 ^ l * (2 * Suc e)" using s e unfolding dvd_Suc_pow by (metis dvd_mult_div_cancel)
  then have "Suc c = 2 ^ Suc l * Suc e" by simp
  moreover have "2 ^ level = (2 ^ Suc l * 2 ^ d :: nat)" by (simp add: d power_add)
  ultimately have "(2::nat) ^ Suc l * 2 ^ d dvd 2 ^ Suc l * Suc e" using assms(3) by (simp only:)
  then have "2 ^ d dvd Suc e" by (rule dvd_times_left_cancel_iff [THEN iffD1, rotated]) simp
  from Suc_div_pow [OF this] have "pos div 2 ^ level = Suc c div 2 ^ level - 1"
    unfolding d div_pow_add assms(2) b(2) e by (simp add: div_mult2_eq)
  with assms(5) show ?thesis by simp
qed

lemma placed_Suc:
  assumes "placed H xs pos c st0" "matchlevel st = matchlevel st0"
    and t: "tracked H xs pos (Suc c) (branch st0) level matchh st"
    and d: "2 ^ level dvd Suc c" "bit (Suc c) level"
  shows "placed H xs pos (Suc c)
    (st\<lparr>inner := i, matchlevel := (if matchh then int level else matchlevel st)\<rparr>)"
proof (cases matchh)
  case True
  have "0 < Suc c div 2 ^ level" using d by (metis bit_div even_zero gr0I)
  with True t have "pos div 2 ^ level < Suc c div 2 ^ level" by (simp add: tracked_def)
  then have "pos < Suc c" by (metis div_le_mono linorder_not_le)
  with True t d(2) show ?thesis by (auto simp: placed_def tracked_def)
next
  case False
  have b: "branch st = branch st0" using False t by (simp add: tracked_def)
  have n: "pos div 2 ^ level \<noteq> Suc c div 2 ^ level - 1" using False t by (simp add: tracked_def)
  have "pos \<noteq> c" using n Suc_div_pow [OF d(1)] by auto
  show ?thesis
  proof (cases "pos < c")
    case True
    then obtain l where l: "matchlevel st0 = int l" "bit c l" "pos div 2 ^ l = c div 2 ^ l - 1"
      "branch st0 = siblings H xs pos l"
      using assms(1) by (auto simp: placed_def)
    have "Suc c div 2 ^ l = c div 2 ^ l"
      using match_below [OF l(2,3) d n] by (rule Suc_div_above [OF d])
    with l True False b assms(2) show ?thesis by (auto simp: placed_def bit_div)
  next
    case False
    with \<open>pos \<noteq> c\<close> \<open>\<not> matchh\<close> b assms(1,2) show ?thesis by (simp add: placed_def)
  qed
qed

lemma twins_Suc:
  assumes "c < length xs" "2 ^ level dvd Suc c" "bit (Suc c) level" "stored H xs c st"
  shows "twins H xs (Suc c) \<longleftrightarrow>
    twins H xs c \<or> (\<exists>l<level. inner st l = row H xs l ! (Suc c div 2 ^ l - 1))"
proof -
  have lv: "l < level \<longleftrightarrow> 2 ^ Suc l dvd Suc c" for l
  proof
    assume "l < level"
    then show "2 ^ Suc l dvd Suc c" using assms(2) by (metis Suc_leI dvd_trans le_imp_power_dvd)
  next
    assume "2 ^ Suc l dvd Suc c"
    then show "l < level" using assms(3) unfolding bit_div
      by (metis Suc_leI bit_div dvd_Suc_pow dvd_trans le_imp_power_dvd linorder_not_le le_SucI not_less_eq_eq)
  qed
  have new: "(\<exists>k. (2 * k + 2) * 2 ^ l = Suc c \<and> row H xs l ! (2 * k) = row H xs l ! (2 * k + 1)) \<longleftrightarrow>
      l < level \<and> inner st l = row H xs l ! (Suc c div 2 ^ l - 1)" (is "?L \<longleftrightarrow> ?R") for l
  proof
    assume ?L
    then obtain k where k: "(2 * k + 2) * 2 ^ l = Suc c" "row H xs l ! (2 * k) = row H xs l ! (2 * k + 1)" by blast
    have "2 ^ Suc l * (k + 1) = Suc c" using k(1) by (simp add: algebra_simps)
    then have d: "2 ^ Suc l dvd Suc c" by (metis dvd_triv_left)
    note b = bit_Suc_dvd [OF d]
    have q: "Suc c div 2 ^ l = 2 * k + 2" unfolding k(1) [symmetric] by simp
    have "inner st l = row H xs l ! (2 * k)" using assms(4) b(1,2) by (simp add: stored_def q)
    with d k(2) show ?R by (simp add: lv q)
  next
    assume r: ?R
    then have d: "2 ^ Suc l dvd Suc c" by (simp add: lv)
    note b = bit_Suc_dvd [OF d]
    obtain a where a: "Suc c = 2 ^ Suc l * a" using d by blast
    then obtain k where k: "a = k + 1" by (cases a) auto
    have m: "(2 * k + 2) * 2 ^ l = Suc c" using a k by (simp add: algebra_simps)
    have q: "Suc c div 2 ^ l = 2 * k + 2" unfolding m [symmetric] by simp
    have "inner st l = row H xs l ! (2 * k)" using assms(4) b(1,2) by (simp add: stored_def q)
    with r m show ?L by (auto simp: q)
  qed
  show ?thesis
    unfolding twins_def le_Suc_eq using new by blast
qed

lemma merkle_leaves_spec:
  assumes "stored H xs c st" "br \<Longrightarrow> placed H xs pos c st" "mutated st \<longleftrightarrow> twins H xs c"
    and "drop c xs = ls" "c \<le> length xs" "length xs < 2 ^ 32"
  shows "\<exists>st'. merkle_leaves H br pos c ls st = Some st' \<and> stored H xs (length xs) st' \<and>
    (br \<longrightarrow> placed H xs pos (length xs) st') \<and> (mutated st' \<longleftrightarrow> twins H xs (length xs))"
  using assms
proof (induction ls arbitrary: c st)
  case Nil
  then show ?case by auto
next
  case (Cons x ls)
  have c: "c < length xs" using Cons.prems(4) by (metis drop_all linorder_not_le neq_Nil_conv)
  then have x: "x = xs ! c" and ls: "drop (Suc c) xs = ls"
    using Cons.prems(4) by (metis Cons_nth_drop_Suc list.inject)+
  have n: "(c + 1) mod 2 ^ 32 = Suc c" using c Cons.prems(6) by simp
  have k1: "climbs H xs (Suc c) 0 x st" using stored_climbs [OF Cons.prems(1) c] x by simp
  have k2: "Suc c < 2 ^ 32" using c Cons.prems(6) by linarith
  have "br \<longrightarrow> tracked H xs pos (Suc c) (branch st) 0 (c = pos) st"
    using Cons.prems(2) by (blast intro: placed_tracked)
  from climb_spec [OF k1 k2 this, of True] obtain lv h m st1 where r: "climb H br True (Suc c) 0 x (c = pos) st = Some (lv, h, m, st1)"
      "bit (Suc c) lv" "climbs H xs (Suc c) lv h st1" "br \<longrightarrow> tracked H xs pos (Suc c) (branch st) lv m st1"
      "inner st1 = inner st" "matchlevel st1 = matchlevel st"
      "mutated st1 \<longleftrightarrow> mutated st \<or> True \<and> (\<exists>l. 0 \<le> l \<and> l < lv \<and> inner st l = row H xs l ! (Suc c div 2 ^ l - 1))"
    by blast
  define st2 where "st2 = st1\<lparr>inner := (inner st1)(lv := h), matchlevel := (if m then int lv else matchlevel st1)\<rparr>"
  have d: "2 ^ lv dvd Suc c" using r(3) by (simp add: climbs_def)
  have s1: "stored H xs c st1" using Cons.prems(1) r(5) by (simp add: stored_def)
  have "stored H xs (Suc c) st2" unfolding st2_def by (rule stored_Suc [OF s1 r(3,2)])
  moreover have "br \<Longrightarrow> placed H xs pos (Suc c) st2"
    unfolding st2_def by (rule placed_Suc [OF Cons.prems(2) r(6) _ d r(2)]) (use r(4) in auto)
  moreover have "mutated st2 \<longleftrightarrow> twins H xs (Suc c)"
    using twins_Suc [OF c d r(2) Cons.prems(1)] Cons.prems(3) r(7) by (simp add: st2_def)
  ultimately obtain st' where "merkle_leaves H br pos (Suc c) ls st2 = Some st'" "stored H xs (length xs) st'"
    "br \<longrightarrow> placed H xs pos (length xs) st'" "mutated st' \<longleftrightarrow> twins H xs (length xs)"
    using Cons.IH [OF _ _ _ ls _ Cons.prems(6), of st2] c by auto
  then show ?case
    using r(1) n by (simp add: st2_def Let_def)
qed

lemma lowest_spec:
  assumes "0 < c" "c < 2 ^ 32" "2 ^ level dvd c"
  shows "\<exists>l. lowest c level = Some l \<and> bit c l \<and> 2 ^ l dvd c"
  using assms
proof (induction "32 - level" arbitrary: level)
  case 0
  then have "32 \<le> level" by simp
  then have "(2::nat) ^ 32 \<le> 2 ^ level" by (intro power_increasing) auto
  moreover have "2 ^ level \<le> c" using 0 by (intro dvd_imp_le) auto
  ultimately show ?case using 0 by linarith
next
  case (Suc d)
  have s: "lowest c level = (if bit c level then Some level else lowest c (Suc level))"
    using Suc.hyps(2) by (subst lowest.simps) auto
  show ?case
  proof (cases "bit c level")
    case False
    then have "2 ^ Suc level dvd c" using Suc.prems(3) unfolding dvd_Suc_pow bit_div by simp
    with Suc.hyps(1) [of "Suc level"] Suc.hyps(2) Suc.prems False show ?thesis unfolding s by simp
  qed (use Suc.prems s in auto)
qed

lemma width_add: "width n (l + d) = width (width n l) d"
  by (induction d) auto

lemma width_exact:
  assumes "2 ^ l dvd width n a * 2 ^ a" "a \<le> l"
  shows "width n a * 2 ^ a = width n l * 2 ^ l" "width n a * 2 ^ a div 2 ^ l = width n l"
proof -
  obtain d where d: "l = a + d" using assms(2) le_Suc_ex by blast
  have "2 ^ d dvd width n a" using assms(1) unfolding d power_add by (simp add: mult.commute)
  then have w: "width n l * 2 ^ d = width n a" unfolding d width_add width_div [of "width n a"] by simp
  then show "width n a * 2 ^ a = width n l * 2 ^ l" unfolding d power_add by (metis mult.assoc mult.commute)
  then show "width n a * 2 ^ a div 2 ^ l = width n l" by simp
qed

lemma width_below:
  assumes "a \<le> l"
  shows "width n a * 2 ^ a div 2 ^ l \<le> width n l"
proof -
  obtain d where d: "l = a + d" using assms le_Suc_ex by blast
  show ?thesis unfolding d power_add width_add width_div [of "width n a"] by (simp add: div_mult2_eq mult.commute)
qed

lemma width_incomplete:
  assumes "odd (width n a)" "a < l"
  shows "width n l = n div 2 ^ l + 1"
proof -
  have "\<not> 2 ^ Suc a dvd n"
  proof
    assume "2 ^ Suc a dvd n"
    then have "width n a = n div 2 ^ a" "even (n div 2 ^ a)" unfolding dvd_Suc_pow width_div by auto
    with assms(1) show False by simp
  qed
  then have "\<not> 2 ^ l dvd n" using assms(2) by (metis Suc_leI dvd_trans le_imp_power_dvd)
  then show ?thesis unfolding width_div by simp
qed

text \<open>
  The sweep: \<open>count\<close> is the number of leaves rounded up to whole nodes of \<open>level\<close>, and \<open>h\<close> the last
  value of that row; every row below has more than one value.
\<close>

definition sweeps :: "hash2 \<Rightarrow> u256 list \<Rightarrow> nat \<Rightarrow> nat \<Rightarrow> u256 \<Rightarrow> merkle \<Rightarrow> bool" where
  "sweeps H xs count level h st \<longleftrightarrow>
     count = width (length xs) level * 2 ^ level \<and> odd (width (length xs) level) \<and> level < 32 \<and>
     h = row H xs level ! (width (length xs) level - 1) \<and> stored H xs (length xs) st \<and>
     (\<forall>i<level. 1 < width (length xs) i)"

lemma sweep_climbs:
  assumes s: "sweeps H xs count level h st" and n: "xs \<noteq> []"
  shows "climbs H xs (width (length xs) (Suc level) * 2 ^ Suc level) (Suc level) (H h h) (st\<lparr>branch := bs\<rparr>)"
    (is "climbs H xs ?c _ _ _")
proof -
  let ?w = "width (length xs)"
  have o: "odd (?w level)" and st: "stored H xs (length xs) st" using s by (auto simp: sweeps_def)
  have "inner st l = row H xs l ! (?c div 2 ^ l - 2)" if l: "Suc level \<le> l" "2 ^ Suc l dvd ?c" for l
  proof -
    have d: "2 ^ l dvd ?c" "even (?c div 2 ^ l)" using l(2) unfolding dvd_Suc_pow by auto
    have e: "?c div 2 ^ l = ?w l" by (rule width_exact [OF d(1) l(1)])
    have "?w l = length xs div 2 ^ l + 1" using width_incomplete [OF o] l(1) by auto
    with d e have "bit (length xs) l" "length xs div 2 ^ l - 1 = ?c div 2 ^ l - 2" unfolding bit_div by auto
    with st show ?thesis unfolding stored_def by metis
  qed
  moreover have "?c div 2 ^ l \<le> ?w l" if "Suc level \<le> l" for l using width_below [OF that] .
  moreover have "H h h = row H xs (Suc level) ! (?c div 2 ^ Suc level - 1)"
    using s row_last [OF o, of H] by (simp add: sweeps_def)
  moreover have "0 < ?c" using width_pos [of "length xs" "Suc level"] n by simp
  ultimately show ?thesis unfolding climbs_def by simp
qed

lemma pos_width: "pos < n \<Longrightarrow> pos div 2 ^ l < width n l"
proof (induction l)
  case (Suc l)
  then show ?case unfolding div_Suc_pow width.simps by linarith
qed simp

lemma sweep_tracked:
  assumes s: "sweeps H xs count level h st" and n: "pos < length xs"
    and t: "tracked H xs pos count bs level matchh st"
    and m: "matchlevel st = int j" "bit (length xs) j" "pos div 2 ^ j = length xs div 2 ^ j - 1"
  shows "tracked H xs pos (width (length xs) (Suc level) * 2 ^ Suc level) bs (Suc level) matchh
    (if matchh then st\<lparr>branch := branch st @ [h]\<rparr> else st)"
    (is "tracked H xs pos ?c bs _ _ _")
proof -
  let ?w = "width (length xs)" and ?k = "pos div 2 ^ level"
  obtain e where w: "?w level = 2 * e + 1" using s by (auto simp: sweeps_def elim: oddE)
  have q: "?c div 2 ^ Suc level - 1 = e" by (simp add: w)
  have c: "count div 2 ^ level - 1 = 2 * e" using s w by (simp add: sweeps_def)
  have k: "pos div 2 ^ Suc level = ?k div 2" by (simp only: div_Suc_pow)
  show ?thesis
  proof (cases matchh)
    case True
    then have "?k = 2 * e" using t c by (simp add: tracked_def)
    then have "h = row H xs level ! min (partner ?k) (?w level - 1)"
      using s w by (simp add: sweeps_def partner_def)
    with True t c \<open>?k = 2 * e\<close> show ?thesis
      by (simp only: tracked_def if_True q k siblings_Suc) simp
  next
    case False
    have "?k < ?w level" using n by (rule pos_width)
    then have "?k \<le> 2 * e" using w by simp
    moreover have "?k \<noteq> 2 * e" using False t c by (simp add: tracked_def)
    ultimately have "?k div 2 \<noteq> e" by auto
    moreover have "matchlevel st = int l \<longleftrightarrow> pos div 2 ^ l = ?c div 2 ^ l - 2"
      if l: "Suc level \<le> l" "2 ^ Suc l dvd ?c" for l
    proof -
      have d: "2 ^ l dvd ?c" "even (?c div 2 ^ l)" using l(2) unfolding dvd_Suc_pow by auto
      have e: "?c div 2 ^ l = ?w l" by (rule width_exact [OF d(1) l(1)])
      have "?w l = length xs div 2 ^ l + 1" using width_incomplete [of "length xs" level] w l(1) by auto
      with d e have "bit (length xs) l" "?c div 2 ^ l - 2 = length xs div 2 ^ l - 1" unfolding bit_div by auto
      with m placed_unique [OF _ _ m(2,3), of l] show ?thesis by (metis of_nat_eq_iff)
    qed
    ultimately show ?thesis
      using False t by (simp only: tracked_def if_False q k) simp
  qed
qed

lemma width_mult_le31:
  assumes "n \<le> 2 ^ 31" "0 < n" "odd (width n level)" "level < 32" "width n level \<noteq> 1"
  shows "width n (Suc level) * 2 ^ Suc level \<le> 2 ^ 31"
proof -
  have "width n level * 2 ^ level \<le> 2 ^ 31" using width_le [OF assms(1)] assms(4) by simp
  moreover have "1 < width n level" using assms(3,5) by (cases "width n level") auto
  ultimately have "level < 31" using assms(4) by (cases "level = 31") auto
  then show ?thesis using width_le [OF assms(1), of "Suc level"] by simp
qed

lemma sweep_spec:
  assumes "sweeps H xs count level h st" "xs \<noteq> []" "length xs \<le> 2 ^ 31"
    and "br \<longrightarrow> pos < length xs \<and> tracked H xs pos count bs level matchh st \<and>
      matchlevel st = int j \<and> bit (length xs) j \<and> pos div 2 ^ j = length xs div 2 ^ j - 1"
  shows "\<exists>st'. sweep H br count level h matchh st = Some (mroot H xs, st') \<and> mutated st' = mutated st \<and>
    (br \<longrightarrow> (\<exists>d. (\<forall>i<d. 1 < width (length xs) i) \<and> width (length xs) d = 1 \<and> branch st' = siblings H xs pos d))"
  using assms
proof (induction "32 - level" arbitrary: count level h matchh st rule: less_induct)
  case less
  let ?w = "width (length xs)"
  note s = less.prems(1)
  have lv: "level < 32" "count = ?w level * 2 ^ level" "odd (?w level)" using s by (auto simp: sweeps_def)
  show ?case
  proof (cases "?w level = 1")
    case True
    have "mroot H xs = h" using mroot_top [of level xs H] True s by (simp add: sweeps_def)
    moreover have "branch st = siblings H xs pos level" if br
    proof -
      have "pos div 2 ^ level < ?w level" using that less.prems(4) by (blast intro: pos_width)
      then have matchh using True less.prems(4) that lv by (simp add: tracked_def)
      with less.prems(4) that show ?thesis by (simp add: tracked_def)
    qed
    ultimately show ?thesis
      using lv True s by (subst sweep.simps) (auto simp: sweeps_def)
  next
    case False
    let ?c = "?w (Suc level) * 2 ^ Suc level"
    define st1 where "st1 = (if br \<and> matchh then st\<lparr>branch := branch st @ [h]\<rparr> else st)"
    have c31: "?c \<le> 2 ^ 31" using width_mult_le31 [OF less.prems(3) _ lv(3,1) False] less.prems(2) by simp
    have cc: "(count + 2 ^ level) mod 2 ^ 32 = ?c"
    proof -
      have "count + 2 ^ level = ?c" using lv(2,3) by (auto elim!: oddE simp: algebra_simps)
      with c31 show ?thesis by simp
    qed
    have "st1 = st\<lparr>branch := branch st1\<rparr>" by (simp add: st1_def)
    then have k1: "climbs H xs ?c (Suc level) (H h h) st1"
      using sweep_climbs [OF s less.prems(2), of "branch st1"] by simp
    have k2: "?c < 2 ^ 32" using c31 by simp
    have k3: "br \<longrightarrow> tracked H xs pos ?c bs (Suc level) matchh st1"
      using sweep_tracked [OF s, of pos bs matchh j] less.prems(4) by (simp add: st1_def)
    from climb_spec [OF k1 k2 k3, of False] obtain lv' h' m' st2 where
      r: "climb H br False ?c (Suc level) (H h h) matchh st1 = Some (lv', h', m', st2)"
        "Suc level \<le> lv'" "bit ?c lv'" "climbs H xs ?c lv' h' st2"
        "br \<longrightarrow> tracked H xs pos ?c bs lv' m' st2" "inner st2 = inner st1" "matchlevel st2 = matchlevel st1"
        "mutated st2 = mutated st1"
      by blast
    have e: "sweep H br count level h matchh st = sweep H br ?c lv' h' m' st2"
    proof -
      have "count \<noteq> 2 ^ level" using False lv by simp
      with lv(1) r(1) cc show ?thesis by (subst sweep.simps) (simp add: st1_def Let_def del: width.simps power_Suc)
    qed
    have st2: "inner st2 = inner st" "matchlevel st2 = matchlevel st" "mutated st2 = mutated st"
      using r(6-8) by (simp_all add: st1_def)
    have d: "2 ^ lv' dvd ?c" using r(4) by (simp add: climbs_def)
    note x = width_exact [OF d r(2)]
    have "lv' < 32" by (rule climbs_level [OF r(4) k2])
    moreover have "1 < ?w i" if "i < lv'" for i
    proof (cases "i \<le> level")
      case True
      then show ?thesis using s False lv(3) width_pos [of "length xs" level] less.prems(2)
        by (cases "i = level") (auto simp: sweeps_def nat_neq_iff)
    next
      case False
      then have i: "2 ^ Suc i dvd ?c" "Suc level \<le> i" using that d by (metis Suc_leI dvd_trans le_imp_power_dvd, simp)
      then have "even (?c div 2 ^ i)" "2 ^ i dvd ?c" unfolding dvd_Suc_pow by auto
      with width_exact(2) [OF _ i(2)] have "even (?w i)" by metis
      with width_pos [of "length xs" i] less.prems(2) show ?thesis by (cases "?w i = 1") auto
    qed
    ultimately have s2: "sweeps H xs ?c lv' h' st2"
      using r(3,4) x s st2 unfolding sweeps_def climbs_def bit_div by (simp add: stored_def del: width.simps power_Suc)
    have "32 - lv' < 32 - level" using r(2) lv(1) \<open>lv' < 32\<close> by simp
    from less.hyps [OF this s2 less.prems(2,3)] r(5) less.prems(4) st2 show ?thesis
      unfolding e by simp
  qed
qed

lemma siblings_tbranch:
  assumes "\<forall>i<d. 1 < width (length xs) i" "width (length xs) d = 1"
  shows "siblings H xs pos d = tbranch H xs pos"
  using assms
proof (induction d arbitrary: xs pos)
  case 0
  then show ?case by (subst tbranch.simps) (simp add: siblings_def)
next
  case (Suc d)
  have r: "row H xs (Suc l) = row H (up H xs) l" for l by (simp add: row_def funpow_swap1)
  have w: "width (length xs) (Suc l) = width (length (up H xs)) l" for l
    using width_add [of "length xs" 1 l] by simp
  have "siblings H (up H xs) (pos div 2) d = tbranch H (up H xs) (pos div 2)"
    using Suc.prems by (intro Suc.IH) (auto simp: w [symmetric] simp del: length_up width.simps)
  moreover have "1 < length xs" using Suc.prems(1) by (metis width.simps(1) zero_less_Suc)
  moreover have "siblings H xs pos (Suc d) = xs ! min (partner pos) (length xs - 1) # siblings H (up H xs) (pos div 2) d"
    unfolding siblings_def upt_conv_Cons [OF zero_less_Suc] map_Suc_upt [symmetric] list.map map_map
    by (simp add: r w div_mult2_eq del: width.simps(2) length_up)
  ultimately show ?case by (subst tbranch.simps) simp
qed

lemma MerkleComputation_spec:
  assumes "xs \<noteq> []" "length xs \<le> 2 ^ 31" "br \<longrightarrow> pos < length xs"
  shows "\<exists>bs. MerkleComputation H xs pos br = Some (mroot H xs, twins H xs (length xs), bs) \<and>
    (br \<longrightarrow> bs = tbranch H xs pos)"
proof -
  let ?n = "length xs"
  have n: "0 < ?n" "?n < 2 ^ 32" "?n mod 2 ^ 32 = ?n" using assms by auto
  have "\<not> twins H xs 0" by (simp add: twins_def)
  then obtain st where st: "merkle_leaves H br pos 0 xs merkle0 = Some st" "stored H xs ?n st"
      "br \<longrightarrow> placed H xs pos ?n st" "mutated st \<longleftrightarrow> twins H xs ?n"
    using merkle_leaves_spec [of H xs 0 merkle0 br pos xs] n(2)
    by (auto simp: stored_def placed_def merkle0_def)
  obtain l where l: "lowest ?n 0 = Some l" "bit ?n l" "2 ^ l dvd ?n"
    using lowest_spec [OF n(1,2), of 0] by auto
  have w: "width ?n l * 2 ^ l = ?n" "width ?n l = ?n div 2 ^ l" using l(3) by (auto simp: width_div)
  have "1 < width ?n i" if "i < l" for i
  proof -
    have "2 ^ Suc i dvd ?n" using l(3) that by (metis Suc_leI dvd_trans le_imp_power_dvd)
    then have "width ?n i = ?n div 2 ^ i" "even (?n div 2 ^ i)" unfolding dvd_Suc_pow width_div by auto
    with width_pos [OF n(1), of i] show ?thesis by (cases "width ?n i = 1") auto
  qed
  moreover have "l < 32"
  proof (rule ccontr)
    assume "\<not> l < 32"
    then have "(2::nat) ^ 32 \<le> 2 ^ l" by (intro power_increasing) auto
    with dvd_imp_le [OF l(3) n(1)] n(2) show False by linarith
  qed
  ultimately have s: "sweeps H xs ?n l (inner st l) st"
    using w l st(2) by (auto simp: sweeps_def stored_def bit_div)
  have "\<exists>j. br \<longrightarrow> pos < ?n \<and> tracked H xs pos ?n (branch st) l (matchlevel st = int l) st \<and>
      matchlevel st = int j \<and> bit ?n j \<and> pos div 2 ^ j = ?n div 2 ^ j - 1"
  proof (cases br)
    case True
    with assms(3) st(3) obtain j where j: "matchlevel st = int j" "bit ?n j" "pos div 2 ^ j = ?n div 2 ^ j - 1"
        "branch st = siblings H xs pos j"
      by (auto simp: placed_def)
    have "matchlevel st = int l \<longleftrightarrow> pos div 2 ^ l = ?n div 2 ^ l - 1"
      using j placed_unique [OF l(2) _ j(2,3)] by auto
    moreover have "\<not> 2 ^ Suc i dvd ?n" if "l \<le> i" for i
    proof
      assume "2 ^ Suc i dvd ?n"
      then have "2 ^ Suc l dvd ?n" using that by (metis Suc_le_mono dvd_trans le_imp_power_dvd)
      with l(2) show False unfolding dvd_Suc_pow bit_div by simp
    qed
    ultimately show ?thesis using j assms(3) True by (auto simp: tracked_def simp del: power_Suc)
  qed simp
  then obtain j where "br \<longrightarrow> pos < ?n \<and> tracked H xs pos ?n (branch st) l (matchlevel st = int l) st \<and>
      matchlevel st = int j \<and> bit ?n j \<and> pos div 2 ^ j = ?n div 2 ^ j - 1" by blast
  from sweep_spec [OF s assms(1,2) this] obtain st' where
    "sweep H br ?n l (inner st l) (matchlevel st = int l) st = Some (mroot H xs, st')" "mutated st' = mutated st"
    "br \<longrightarrow> branch st' = tbranch H xs pos"
    using siblings_tbranch by metis
  then show ?thesis
    using assms(1) st(1,4) l(1) n(3) by (simp add: MerkleComputation_def Let_def)
qed

text \<open>
  The last value of an odd row may be written twice without changing the root; the constant-space
  computation sees it.
\<close>

lemma up_repeat: "odd (length xs) \<Longrightarrow> up H (xs @ [last xs]) = up H xs"
  by (induction H xs rule: up.induct) auto

lemma mroot_repeat:
  assumes "odd (length xs)" "1 < length xs"
  shows "mroot H (xs @ [last xs]) = mroot H xs"
proof -
  have "1 < length (xs @ [last xs])" using assms(2) by auto
  from mroot_up [OF this, of H] show ?thesis
    by (simp only: mroot_up [OF assms(2)] up_repeat [OF assms(1)])
qed

lemma twins_repeat:
  assumes "odd (length xs)"
  shows "twins H (xs @ [last xs]) (length xs + 1)"
proof -
  obtain k where k: "length xs = 2 * k + 1" using assms by (rule oddE)
  then have "xs \<noteq> []" by auto
  then have "xs ! (2 * k) = last xs" using k by (simp add: last_conv_nth)
  then have "(2 * k + 2) * 2 ^ 0 \<le> length xs + 1 \<and>
      row H (xs @ [last xs]) 0 ! (2 * k) = row H (xs @ [last xs]) 0 ! (2 * k + 1)"
    using k by (simp add: nth_append)
  then show ?thesis unfolding twins_def by blast
qed

section \<open>Properties\<close>

text \<open>
  C18: for up to 2147483648 transactions the computation in constant space returns, with the same
  root as the table of rows and, at every position, the same branch as read from the table; the
  table is that of the code up to 1073741824 transactions, above which the code's \<open>int\<close> indices
  overflow and the model's do not.
\<close>

theorem merkle_computations_agree:
  assumes "vtx \<noteq> []" and "length vtx \<le> 2 ^ 31" and "position < length vtx"
  shows "map_option fst (BlockMerkleRoot H vtx) = Some (fst (BuildMerkleTree H vtx)) \<and>
    BlockMerkleBranch H vtx position = GetMerkleBranch H vtx [] (int position)"
proof -
  have "GetMerkleBranch H vtx [] (int position) = Some (tbranch H vtx position)"
    using merkle_branch_table [of "[]" 0 vtx "length vtx" H position]
    by (simp add: GetMerkleBranch_def BuildMerkleTree_table)
  moreover have "BlockMerkleBranch H vtx position = Some (tbranch H vtx position)"
    using MerkleComputation_spec [of vtx True position H] assms
    by (auto simp: BlockMerkleBranch_def ComputeMerkleBranch_def)
  moreover have "map_option fst (BlockMerkleRoot H vtx) = Some (mroot H vtx)"
    using MerkleComputation_spec [of vtx False "2 ^ 32 - 1" H] assms
    by (auto simp: BlockMerkleRoot_def ComputeMerkleRoot_def)
  ultimately show ?thesis by (simp add: BuildMerkleTree_table)
qed

theorem merkle_computations_agree_witness:
  "map_option fst (BlockMerkleRoot (\<lambda>a b. 2 * a + 3 * b) [5, 6, 7]) = Some (fst (BuildMerkleTree (\<lambda>a b. 2 * a + 3 * b) [5, 6, 7])) \<and>
   BlockMerkleBranch (\<lambda>a b. 2 * a + 3 * b) [5, 6, 7] 2 = GetMerkleBranch (\<lambda>a b. 2 * a + 3 * b) [5, 6, 7] [] 2"
  using merkle_computations_agree [of "[5, 6, 7]" 2] by simp

text \<open>
  C24: a branch proves membership: hashing a transaction of the block with its branch gives the
  block's merkle root, with both check functions.
\<close>

theorem merkle_branch_proves:
  assumes "i < length vtx"
  shows "\<exists>bs. GetMerkleBranch H vtx [] (int i) = Some bs \<and>
    CheckMerkleBranch H (vtx ! i) bs (int i) = fst (BuildMerkleTree H vtx) \<and>
    ComputeMerkleRootFromBranch H (vtx ! i) bs i = fst (BuildMerkleTree H vtx)"
proof -
  have "GetMerkleBranch H vtx [] (int i) = Some (tbranch H vtx i)"
    using merkle_branch_table [of "[]" 0 vtx "length vtx" H i]
    by (simp add: GetMerkleBranch_def BuildMerkleTree_table)
  with check_tbranch [OF assms, of H] show ?thesis
    by (simp add: CheckMerkleBranch_def ComputeMerkleRootFromBranch_def BuildMerkleTree_table)
qed

theorem merkle_branch_proves_witness:
  "\<exists>bs. GetMerkleBranch (\<lambda>a b. 2 * a + 3 * b) [5, 6, 7] [] 1 = Some bs \<and>
     CheckMerkleBranch (\<lambda>a b. 2 * a + 3 * b) 6 bs 1 = fst (BuildMerkleTree (\<lambda>a b. 2 * a + 3 * b) [5, 6, 7])"
  using merkle_branch_proves [of 1 "[5, 6, 7]" "\<lambda>a b. 2 * a + 3 * b"] by auto

text \<open>
  Writing the last of an odd number of transactions twice gives the same merkle root with both
  computations, whatever the hash; the one in constant space reports it as mutated.
\<close>

lemma merkle_repeat_same_root:
  assumes "odd (length vtx)" and "1 < length vtx" and "length vtx < 2 ^ 31"
  shows "fst (BuildMerkleTree H (vtx @ [last vtx])) = fst (BuildMerkleTree H vtx) \<and>
    BlockMerkleRoot H (vtx @ [last vtx]) = Some (fst (BuildMerkleTree H vtx), True)"
proof -
  have m: "mroot H (vtx @ [last vtx]) = mroot H vtx" by (rule mroot_repeat [OF assms(1,2)])
  have "vtx @ [last vtx] \<noteq> []" "length (vtx @ [last vtx]) \<le> 2 ^ 31" using assms(3) by simp_all
  from MerkleComputation_spec [OF this, of False "2 ^ 32 - 1" H] twins_repeat [OF assms(1), of H]
  have "BlockMerkleRoot H (vtx @ [last vtx]) = Some (mroot H (vtx @ [last vtx]), True)"
    by (auto simp: BlockMerkleRoot_def ComputeMerkleRoot_def)
  with m show ?thesis by (simp add: BuildMerkleTree_table)
qed

lemma merkle_repeat_same_root_witness:
  "fst (BuildMerkleTree (\<lambda>a b. 2 * a + 3 * b) [5, 6, 7, 7]) = fst (BuildMerkleTree (\<lambda>a b. 2 * a + 3 * b) [5, 6, 7])"
  using merkle_repeat_same_root [of "[5, 6, 7]" "\<lambda>a b. 2 * a + 3 * b"] by simp

end
