(* ===== verification/Chain_Index.thy ===== *)
theory Chain_Index
  imports Merkle "HOL-Library.Monad_Syntax"
begin

text \<open>
  The index of the blocks (\<^verbatim>\<open>CBlockIndex\<close> of \<^verbatim>\<open>server/block.h\<close>, \<^verbatim>\<open>server/block.cpp\<close>): a tree of nodes
  that point to their parent and, to reach far ancestors fast, to one ancestor further down; the
  median time, the insertion of a block, and the two ways in which the coins fill the index from
  their database when the daemon starts. A node's address is the hash that is its key in the map.
  The height, an \<open>int\<close> of 32 bits in the source, is unbounded; a chain has fewer than $2^{31}$ blocks.
\<close>

section \<open>Nodes\<close>

record CBlockIndex =
  pprev :: "u256 option"
  pnext :: "u256 option"
  pskip :: "u256 option"
  nHeight :: int
  nStatus :: "32 word"
  bnChainWork :: int
  nVersion :: "32 word"
  hashMerkleRoot :: u256
  nTime :: "32 word"
  nBits :: "32 word"
  nNonce :: "32 word"

record CBlockHeader =
  blk_nVersion :: "32 word"
  blk_hashPrevBlock :: u256
  blk_hashMerkleRoot :: u256
  blk_nTime :: "32 word"
  blk_nBits :: "32 word"
  blk_nNonce :: "32 word"

type_synonym blkidx_t = "u256 \<rightharpoonup> CBlockIndex"

definition new_CBlockIndex :: CBlockIndex where
  "new_CBlockIndex = \<lparr>pprev = None, pnext = None, pskip = None, nHeight = 0, nStatus = 0, bnChainWork = 0,
     nVersion = 0, hashMerkleRoot = 0, nTime = 0, nBits = 0, nNonce = 0\<rparr>"

definition set_header :: "CBlockHeader \<Rightarrow> CBlockIndex \<Rightarrow> CBlockIndex" where
  "set_header block b = b\<lparr>nVersion := blk_nVersion block, hashMerkleRoot := blk_hashMerkleRoot block,
     nTime := blk_nTime block, nBits := blk_nBits block, nNonce := blk_nNonce block\<rparr>"

text \<open>The constructor from a block leaves \<open>pskip\<close> as it finds it; \<open>junk\<close> is what the memory held.\<close>

definition CBlockIndex_of :: "u256 option \<Rightarrow> CBlockHeader \<Rightarrow> CBlockIndex" where
  "CBlockIndex_of junk block = set_header block (new_CBlockIndex\<lparr>pskip := junk\<rparr>)"

section \<open>Ancestors\<close>

definition InvertLowestOne :: "int \<Rightarrow> int" where
  "InvertLowestOne n = n AND (n - 1)"

definition GetSkipHeight :: "int \<Rightarrow> int" where
  "GetSkipHeight height =
     (if height < 2 then 0
      else if odd height then InvertLowestOne (InvertLowestOne (height - 1)) + 1
      else InvertLowestOne height)"

lemma InvertLowestOne_bounds: "0 \<le> n \<Longrightarrow> 0 \<le> InvertLowestOne n" "0 < n \<Longrightarrow> InvertLowestOne n < n"
proof -
  show "0 \<le> n \<Longrightarrow> 0 \<le> InvertLowestOne n" by (simp add: InvertLowestOne_def)
  show "0 < n \<Longrightarrow> InvertLowestOne n < n"
    using AND_upper2 [of "n - 1" n] by (simp add: InvertLowestOne_def)
qed

lemma InvertLowestOne_le: "0 \<le> n \<Longrightarrow> InvertLowestOne n \<le> n"
  by (simp add: InvertLowestOne_def AND_upper1)

lemma GetSkipHeight_nonneg: "0 \<le> GetSkipHeight height"
  by (auto simp: GetSkipHeight_def InvertLowestOne_bounds)

lemma GetSkipHeight_less: "0 < height \<Longrightarrow> GetSkipHeight height < height"
proof (cases "height < 2")
  case False
  have "InvertLowestOne (height - 1) < height - 1" using False by (intro InvertLowestOne_bounds) auto
  moreover have "InvertLowestOne (InvertLowestOne (height - 1)) \<le> InvertLowestOne (height - 1)"
    using False by (intro InvertLowestOne_le InvertLowestOne_bounds) auto
  ultimately show ?thesis
    using False InvertLowestOne_bounds(2) [of height] by (auto simp: GetSkipHeight_def)
qed (simp add: GetSkipHeight_def)

text \<open>
  The loop of \<open>GetAncestor\<close>. \<^term>\<open>None\<close> is the failed assertion that there is a parent. A negative
  height was refused before the loop.
\<close>

function anc_walk :: "blkidx_t \<Rightarrow> int \<Rightarrow> u256 \<Rightarrow> int \<Rightarrow> u256 option" where
  "anc_walk T height pindexWalk heightWalk =
     (if heightWalk > height \<and> 0 \<le> height then do {
        node \<leftarrow> T pindexWalk;
        let heightSkip = GetSkipHeight heightWalk;
        let heightSkipPrev = GetSkipHeight (heightWalk - 1);
        if pskip node \<noteq> None \<and>
           (heightSkip = height \<or>
            heightSkip > height \<and> \<not> (heightSkipPrev < heightSkip - 2 \<and> heightSkipPrev \<ge> height))
        then anc_walk T height (the (pskip node)) heightSkip
        else do {
          p \<leftarrow> pprev node;
          anc_walk T height p (heightWalk - 1) } }
      else Some pindexWalk)"
  by pat_completeness auto
termination
proof (relation "measure (\<lambda>(T, height, p, heightWalk). nat heightWalk)", goal_cases)
  case (2 T height p heightWalk)
  then show ?case using GetSkipHeight_less [of heightWalk] GetSkipHeight_nonneg [of heightWalk] by simp
qed auto

declare anc_walk.simps [simp del]

text \<open>\<^term>\<open>Some None\<close> is the result \<open>NULL\<close>.\<close>

definition GetAncestor :: "blkidx_t \<Rightarrow> u256 \<Rightarrow> int \<Rightarrow> u256 option option" where
  "GetAncestor T this height = do {
     node \<leftarrow> T this;
     if height > nHeight node \<or> height < 0 then Some None
     else map_option Some (anc_walk T height this (nHeight node)) }"

definition BuildSkip :: "blkidx_t \<Rightarrow> u256 \<Rightarrow> blkidx_t option" where
  "BuildSkip T this = do {
     node \<leftarrow> T this;
     case pprev node of
       None \<Rightarrow> Some T
     | Some p \<Rightarrow> do {
         s \<leftarrow> GetAncestor T p (GetSkipHeight (nHeight node));
         Some (T(this \<mapsto> node\<lparr>pskip := s\<rparr>)) } }"

section \<open>The median time\<close>

fun past_times :: "blkidx_t \<Rightarrow> nat \<Rightarrow> u256 option \<Rightarrow> int list" where
  "past_times T 0 pindex = []"
| "past_times T (Suc n) None = []"
| "past_times T (Suc n) (Some p) =
     (case T p of None \<Rightarrow> [] | Some node \<Rightarrow> past_times T n (pprev node) @ [uint (nTime node)])"

definition GetMedianTimePast :: "blkidx_t \<Rightarrow> u256 \<Rightarrow> int" where
  "GetMedianTimePast T this =
     (let pmedian = sort (past_times T 11 (Some this)) in pmedian ! (length pmedian div 2))"

fun next_n :: "blkidx_t \<Rightarrow> nat \<Rightarrow> u256 \<Rightarrow> u256 option" where
  "next_n T 0 p = Some p"
| "next_n T (Suc n) p = do { node \<leftarrow> T p; q \<leftarrow> pnext node; next_n T n q }"

definition GetMedianTime :: "blkidx_t \<Rightarrow> u256 \<Rightarrow> int" where
  "GetMedianTime T this =
     (case next_n T 5 this of
        None \<Rightarrow> uint (nTime (the (T this)))
      | Some p \<Rightarrow> GetMedianTimePast T p)"

section \<open>Work\<close>

text \<open>
  \<open>mpi2bn\<close> is the conversion \<^verbatim>\<open>BN_mpi2bn\<close> of the cryptographic library: four bytes of length, most
  significant first, then a sign bit and the magnitude.
\<close>

definition SetCompact :: "(8 word list \<Rightarrow> int) \<Rightarrow> 32 word \<Rightarrow> int" where
  "SetCompact mpi2bn nCompact =
     (let nSize = unat (drop_bit 24 nCompact);
          byte = (\<lambda>k. ucast (drop_bit k nCompact) :: 8 word);
          body = take nSize [byte 16, byte 8, byte 0]
      in mpi2bn ([0, 0, 0, of_nat nSize] @ body @ replicate (nSize - length body) 0))"

definition GetBlockWork :: "(8 word list \<Rightarrow> int) \<Rightarrow> 32 word \<Rightarrow> int" where
  "GetBlockWork mpi2bn bits =
     (let bnTarget = SetCompact mpi2bn bits in if bnTarget \<le> 0 then 0 else 2 ^ 256 div (bnTarget + 1))"

section \<open>Insertion of a block\<close>

text \<open>
  The part of \<open>AddToBlockIndex\<close> that links the new node; \<open>Inl\<close> is the refusal of a known hash.
\<close>

definition link_block :: "(8 word list \<Rightarrow> int) \<Rightarrow> u256 option \<Rightarrow> u256 \<Rightarrow> CBlockHeader \<Rightarrow> blkidx_t \<Rightarrow>
    (unit + blkidx_t) option" where
  "link_block mpi2bn junk hash block T =
     (if T hash \<noteq> None then Some (Inl ())
      else do {
        let node = CBlockIndex_of junk block;
        let T = T(hash \<mapsto> node);
        T \<leftarrow> (case T (blk_hashPrevBlock block) of
                None \<Rightarrow> Some T
              | Some prev \<Rightarrow>
                  BuildSkip (T(hash \<mapsto> node\<lparr>pprev := Some (blk_hashPrevBlock block), nHeight := nHeight prev + 1\<rparr>)) hash);
        node \<leftarrow> T hash;
        let work = (case pprev node of None \<Rightarrow> 0 | Some p \<Rightarrow> bnChainWork (the (T p))) + GetBlockWork mpi2bn (nBits node);
        Some (Inr (T(hash \<mapsto> node\<lparr>bnChainWork := work\<rparr>))) })"

section \<open>Filling the index at the start\<close>

definition InsertBlockIndex :: "blkidx_t \<Rightarrow> u256 \<Rightarrow> blkidx_t \<times> u256 option" where
  "InsertBlockIndex T hash =
     (if hash = 0 then (T, None)
      else if T hash \<noteq> None then (T, Some hash)
      else (T(hash \<mapsto> new_CBlockIndex), Some hash))"

text \<open>
  The loop of \<open>usde_FillBlockIndex\<close> and \<open>emc2_FillBlockIndex\<close> over the heights, upwards. \<open>rd\<close> reads a
  block of the main chain with its hash; \<^term>\<open>None\<close> is a dereferenced null pointer. The result is the
  index and its last node; the pointer to the genesis block is left out.
\<close>

fun fill_up :: "(nat \<Rightarrow> (u256 \<times> CBlockHeader) option) \<Rightarrow> u256 \<Rightarrow> nat list \<Rightarrow> u256 option \<Rightarrow> blkidx_t \<Rightarrow>
    (blkidx_t \<times> u256 option) option" where
  "fill_up rd genesis [] lastIndex T = Some (T, lastIndex)"
| "fill_up rd genesis (h # hs) lastIndex T =
     (case rd h of
        None \<Rightarrow> Some (T, lastIndex)
      | Some (hash, block) \<Rightarrow>
          if (if h = 0 then hash \<noteq> genesis else T (blk_hashPrevBlock block) = None) then Some (T, lastIndex)
          else do {
            let (T, p) = InsertBlockIndex T hash;
            pindexNew \<leftarrow> p;
            node \<leftarrow> T pindexNew;
            let T = T(pindexNew \<mapsto> node\<lparr>pprev := lastIndex\<rparr>);
            T \<leftarrow> (case lastIndex of
                    None \<Rightarrow> Some T
                  | Some l \<Rightarrow> do { ln \<leftarrow> T l; Some (T(l \<mapsto> ln\<lparr>pnext := Some pindexNew\<rparr>)) });
            node \<leftarrow> T pindexNew;
            let T = T(pindexNew \<mapsto> set_header block (node\<lparr>nHeight := int h\<rparr>));
            T \<leftarrow> (if lastIndex = None then Some T else BuildSkip T pindexNew);
            fill_up rd genesis hs (Some pindexNew) T })"

definition usde_FillBlockIndex :: "(nat \<Rightarrow> (u256 \<times> CBlockHeader) option) \<Rightarrow> u256 \<Rightarrow> nat \<Rightarrow> blkidx_t \<Rightarrow>
    (blkidx_t \<times> u256 option) option" where
  "usde_FillBlockIndex rd genesis nMaxIndex T = fill_up rd genesis [0..<nMaxIndex] None T"

text \<open>
  The loop of \<open>shc_FillBlockIndex\<close>, which goes down from the top; the lists of blocks with extended
  transactions, which it collects on the way, are left out.
\<close>

fun fill_down :: "(nat \<Rightarrow> (u256 \<times> CBlockHeader) option) \<Rightarrow> nat list \<Rightarrow> u256 option \<Rightarrow> u256 option \<Rightarrow> blkidx_t \<Rightarrow>
    (blkidx_t \<times> u256 option) option" where
  "fill_down rd [] lastIndex pindexBest T = Some (T, pindexBest)"
| "fill_down rd (h # hs) lastIndex pindexBest T =
     (case rd h of
        None \<Rightarrow> fill_down rd hs lastIndex pindexBest T
      | Some (hash, block) \<Rightarrow> do {
          let (T, p) = InsertBlockIndex T hash;
          pindexNew \<leftarrow> p;
          let (T, q) = InsertBlockIndex T (blk_hashPrevBlock block);
          node \<leftarrow> T pindexNew;
          let T = T(pindexNew \<mapsto> node\<lparr>pprev := q\<rparr>);
          let linked = (case lastIndex of None \<Rightarrow> False | Some l \<Rightarrow> pprev (the (T l)) = Some pindexNew);
          node \<leftarrow> T pindexNew;
          let node = (if linked then node\<lparr>pnext := lastIndex\<rparr> else node);
          let T = T(pindexNew \<mapsto> set_header block (node\<lparr>nHeight := int h\<rparr>));
          T \<leftarrow> (if lastIndex = None then Some T else BuildSkip T pindexNew);
          fill_down rd hs (Some pindexNew) (if pindexBest = None \<and> linked then lastIndex else pindexBest) T })"

fun best_index :: "(nat \<Rightarrow> bool) \<Rightarrow> nat \<Rightarrow> nat \<Rightarrow> nat" where
  "best_index have 0 n = n"
| "best_index have (Suc k) n = (if have n then best_index have k (Suc n) else n)"

text \<open>The database has entries for the heights below \<open>nMax\<close> that \<open>have\<close> says.\<close>

definition shc_FillBlockIndex :: "(nat \<Rightarrow> (u256 \<times> CBlockHeader) option) \<Rightarrow> (nat \<Rightarrow> bool) \<Rightarrow> nat \<Rightarrow> blkidx_t \<Rightarrow>
    (blkidx_t \<times> u256 option) option" where
  "shc_FillBlockIndex rd have nMax T = fill_down rd (rev [0..<best_index have nMax 0]) None None T"

section \<open>Ancestors by the plain walk\<close>

text \<open>The reference: \<open>n\<close> steps from child to parent. \<open>tree_ok\<close> is the invariant of the index.\<close>

fun parent :: "blkidx_t \<Rightarrow> nat \<Rightarrow> u256 \<Rightarrow> u256 option" where
  "parent T 0 p = Some p"
| "parent T (Suc n) p = do { node \<leftarrow> T p; q \<leftarrow> pprev node; parent T n q }"

definition node_ok :: "blkidx_t \<Rightarrow> CBlockIndex \<Rightarrow> bool" where
  "node_ok T node \<longleftrightarrow>
     (case pprev node of
        None \<Rightarrow> nHeight node = 0
      | Some q \<Rightarrow> (\<exists>prev. T q = Some prev \<and> 0 \<le> nHeight prev \<and> nHeight node = nHeight prev + 1) \<and>
          (pskip node = None \<or>
           pskip node = parent T (nat (nHeight node - 1 - GetSkipHeight (nHeight node))) q))"

definition tree_ok :: "blkidx_t \<Rightarrow> bool" where
  "tree_ok T \<longleftrightarrow> (\<forall>p node. T p = Some node \<longrightarrow> node_ok T node)"

lemma tree_okD: "tree_ok T \<Longrightarrow> T p = Some node \<Longrightarrow> node_ok T node"
  by (auto simp: tree_ok_def)

lemma tree_ok_height: "tree_ok T \<Longrightarrow> T p = Some node \<Longrightarrow> 0 \<le> nHeight node"
  by (drule (1) tree_okD) (auto simp: node_ok_def split: option.splits)

lemma tree_ok_parent:
  assumes "tree_ok T" "T p = Some node" "0 < nHeight node"
  obtains q prev where "pprev node = Some q" "T q = Some prev" "nHeight prev = nHeight node - 1"
  using tree_okD [OF assms(1,2)] assms(3) by (auto simp: node_ok_def split: option.splits)

lemma parent_height:
  "tree_ok T \<Longrightarrow> T p = Some node \<Longrightarrow> int n \<le> nHeight node \<Longrightarrow>
   \<exists>q anc. parent T n p = Some q \<and> T q = Some anc \<and> nHeight anc = nHeight node - int n"
proof (induction n arbitrary: p node)
  case (Suc n)
  obtain q prev where q: "pprev node = Some q" "T q = Some prev" "nHeight prev = nHeight node - 1"
    by (rule tree_ok_parent [OF Suc.prems(1,2)]) (use Suc.prems(3) in auto)
  with Suc.IH [OF Suc.prems(1) q(2)] Suc.prems show ?case by auto
qed auto

lemma parent_add: "parent T (m + n) p = Option.bind (parent T m p) (parent T n)"
  by (induction m arbitrary: p) (auto split: bind_splits)

abbreviation height_of :: "blkidx_t \<Rightarrow> u256 \<Rightarrow> int" where
  "height_of T p \<equiv> nHeight (the (T p))"

lemma parent_bound:
  assumes "tree_ok T" "T p = Some node" "parent T n p = Some c"
  shows "c \<in> dom T \<and> int n \<le> nHeight node \<and> height_of T c = nHeight node - int n"
  using assms(2,3)
proof (induction n arbitrary: p node)
  case (Suc n)
  then obtain q where q: "pprev node = Some q" "parent T n q = Some c" by (auto split: bind_splits)
  then obtain prev where prev: "T q = Some prev" "nHeight node = nHeight prev + 1"
    using tree_okD [OF assms(1) Suc.prems(1)] by (auto simp: node_ok_def)
  from Suc.IH [OF prev(1) q(2)] prev(2) show ?case by auto
qed (use tree_ok_height [OF assms(1)] in auto)

text \<open>The walk with the far pointers ends where the plain walk ends.\<close>

lemma anc_walk_parent:
  "tree_ok T \<Longrightarrow> T p = Some node \<Longrightarrow> 0 \<le> height \<Longrightarrow> height \<le> nHeight node \<Longrightarrow>
   anc_walk T height p (nHeight node) = parent T (nat (nHeight node - height)) p"
proof (induction "nat (nHeight node)" arbitrary: p node rule: less_induct)
  case less
  let ?h = "nHeight node"
  show ?case
  proof (cases "height < ?h")
    case False
    with less.prems show ?thesis by (subst anc_walk.simps) simp
  next
    case True
    then have pos: "0 < ?h" using less.prems by simp
    obtain q prev where q: "pprev node = Some q" "T q = Some prev" "nHeight prev = ?h - 1"
      by (rule tree_ok_parent [OF less.prems(1,2) pos])
    have ih_prev: "anc_walk T height q (?h - 1) = parent T (nat (?h - 1 - height)) q"
      using less.hyps [of prev q] q less.prems True by simp
    have step: "parent T (nat (?h - height)) p = parent T (nat (?h - 1 - height)) q"
    proof -
      have "nat (?h - height) = Suc (nat (?h - 1 - height))" using True by simp
      then show ?thesis using less.prems(2) q(1) by simp
    qed
    let ?s = "GetSkipHeight ?h"
    have s: "0 \<le> ?s" "?s < ?h" using GetSkipHeight_nonneg GetSkipHeight_less [OF pos] by auto
    have ih_skip: "anc_walk T height sk ?s = parent T (nat (?h - height)) p"
      if sk: "pskip node = Some sk" "height \<le> ?s" for sk
    proof -
      have "pskip node = parent T (nat (?h - 1 - ?s)) q"
        using tree_okD [OF less.prems(1,2)] q(1) sk(1) by (auto simp: node_ok_def)
      then have e: "parent T (nat (?h - 1 - ?s)) q = Some sk" using sk(1) by simp
      obtain sn where sn: "T sk = Some sn" "nHeight sn = ?s"
        using parent_height [OF less.prems(1) q(2), of "nat (?h - 1 - ?s)"] e q(3) s by auto
      have "anc_walk T height sk ?s = parent T (nat (?s - height)) sk"
        using less.hyps [of sn sk] sn s less.prems sk(2) by simp
      moreover have "nat (?h - 1 - height) = nat (?h - 1 - ?s) + nat (?s - height)"
        using s sk(2) by simp
      ultimately show ?thesis unfolding step by (simp add: parent_add e)
    qed
    show ?thesis
      using True less.prems(2,3) q(1) ih_prev ih_skip step
      by (subst anc_walk.simps) (auto simp: Let_def)
  qed
qed

lemma GetAncestor_parent:
  assumes "tree_ok T" "T p = Some node" "0 \<le> height" "height \<le> nHeight node"
  obtains q anc where "GetAncestor T p height = Some (Some q)"
    "parent T (nat (nHeight node - height)) p = Some q" "T q = Some anc" "nHeight anc = height"
proof -
  from parent_height [OF assms(1,2), of "nat (nHeight node - height)"] assms(3,4)
  obtain q anc where q: "parent T (nat (nHeight node - height)) p = Some q" "T q = Some anc" "nHeight anc = height"
    by auto
  with anc_walk_parent [OF assms] assms show ?thesis
    by (intro that) (auto simp: GetAncestor_def)
qed

section \<open>Insertion keeps the invariant\<close>

lemma parent_update:
  assumes "tree_ok T" "p \<in> dom T" "h \<notin> dom T"
  shows "parent (T(h \<mapsto> node)) n p = parent T n p"
  using assms(2)
proof (induction n arbitrary: p)
  case (Suc n)
  then obtain b where b: "T p = Some b" by blast
  have "p \<noteq> h" using Suc.prems assms(3) by auto
  moreover have "q \<in> dom T" if "pprev b = Some q" for q
    using tree_okD [OF assms(1) b] that by (auto simp: node_ok_def)
  ultimately show ?case using Suc.IH b by (cases "pprev b") auto
qed simp

lemma node_ok_update:
  assumes "tree_ok T" "h \<notin> dom T" "node_ok T b"
  shows "node_ok (T(h \<mapsto> node)) b"
proof (cases "pprev b")
  case (Some q)
  then obtain prev where "T q = Some prev" using assms(3) by (auto simp: node_ok_def)
  then have "q \<in> dom T" "q \<noteq> h" using assms(2) by auto
  with Some assms parent_update [OF assms(1) \<open>q \<in> dom T\<close> assms(2)] show ?thesis
    by (auto simp: node_ok_def)
qed (use assms(3) in \<open>simp add: node_ok_def\<close>)

lemma tree_ok_update:
  assumes "tree_ok T" "h \<notin> dom T" "node_ok T node"
  shows "tree_ok (T(h \<mapsto> node))"
  using assms node_ok_update [OF assms(1,2)] tree_okD [OF assms(1)] by (auto simp: tree_ok_def)

lemma set_header_simps [simp]:
  "pprev (set_header blk b) = pprev b" "pskip (set_header blk b) = pskip b" "pnext (set_header blk b) = pnext b"
  "nHeight (set_header blk b) = nHeight b" "bnChainWork (set_header blk b) = bnChainWork b"
  "set_header blk b\<lparr>pskip := s\<rparr> = set_header blk (b\<lparr>pskip := s\<rparr>)"
  by (simp_all add: set_header_def)

lemma node_ok_cong [simp]:
  "node_ok T (b\<lparr>bnChainWork := w\<rparr>) = node_ok T b" "node_ok T (b\<lparr>pnext := x\<rparr>) = node_ok T b"
  "node_ok T (b\<lparr>nStatus := s\<rparr>) = node_ok T b" "node_ok T (set_header blk b) = node_ok T b"
  by (cases "pprev b"; simp add: node_ok_def)+

lemma new_simps [simp]:
  "pprev new_CBlockIndex = None" "pnext new_CBlockIndex = None" "pskip new_CBlockIndex = None"
  "nHeight new_CBlockIndex = 0" "bnChainWork new_CBlockIndex = 0"
  by (simp_all add: new_CBlockIndex_def)

text \<open>\<open>BuildSkip\<close> on a new node whose parent is in the index.\<close>

lemma skip_target:
  assumes "tree_ok T" "T p = Some node" "pskip node = Some sk" "pprev node \<noteq> None"
  obtains sn where "T sk = Some sn" "nHeight sn = GetSkipHeight (nHeight node)"
proof -
  let ?h = "nHeight node"
  from assms obtain q prev where q: "pprev node = Some q" "T q = Some prev" "0 \<le> nHeight prev" "?h = nHeight prev + 1"
    "Some sk = parent T (nat (?h - 1 - GetSkipHeight ?h)) q"
    using tree_okD [OF assms(1,2)] by (auto simp: node_ok_def)
  have "GetSkipHeight ?h < ?h" using GetSkipHeight_less [of ?h] q by simp
  with parent_height [OF assms(1) q(2), of "nat (?h - 1 - GetSkipHeight ?h)"] q GetSkipHeight_nonneg [of ?h] that
  show ?thesis by auto
qed

lemma anc_walk_update:
  assumes "tree_ok T" "h \<notin> dom T" "0 \<le> height"
  shows "T p = Some node \<Longrightarrow>
    anc_walk (T(h \<mapsto> x)) height p (nHeight node) = anc_walk T height p (nHeight node)"
proof (induction "nat (nHeight node)" arbitrary: p node rule: less_induct)
  case less
  let ?T = "T(h \<mapsto> x)"
  have p: "?T p = Some node" using less.prems assms(2) by auto
  show ?case
  proof (cases "height < nHeight node")
    case False
    then show ?thesis by (simp add: anc_walk.simps)
  next
    case True
    then have pos: "0 < nHeight node" using assms(3) by simp
    obtain q prev where q: "pprev node = Some q" "T q = Some prev" "nHeight prev = nHeight node - 1"
      by (rule tree_ok_parent [OF assms(1) less.prems pos])
    have a: "anc_walk ?T height q (nHeight node - 1) = anc_walk T height q (nHeight node - 1)"
      using less.hyps [of prev q] q pos by simp
    have b: "anc_walk ?T height sk (GetSkipHeight (nHeight node)) = anc_walk T height sk (GetSkipHeight (nHeight node))"
      if sk: "pskip node = Some sk" for sk
    proof -
      from q(1) have "pprev node \<noteq> None" by simp
      from skip_target [OF assms(1) less.prems sk this] obtain sn
        where "T sk = Some sn" "nHeight sn = GetSkipHeight (nHeight node)" .
      with less.hyps [of sn sk] GetSkipHeight_less [OF pos] pos show ?thesis by simp
    qed
    show ?thesis
      by (subst (1 2) anc_walk.simps) (use less.prems p q(1) a b in \<open>auto simp: Let_def\<close>)
  qed
qed

lemma BuildSkip_new:
  assumes "tree_ok T" "h \<notin> dom T" "T q = Some prev" "pprev node = Some q" "nHeight node = nHeight prev + 1"
  shows "\<exists>s. BuildSkip (T(h \<mapsto> node)) h = Some (T(h \<mapsto> node\<lparr>pskip := s\<rparr>)) \<and> node_ok T (node\<lparr>pskip := s\<rparr>)"
proof -
  let ?s = "GetSkipHeight (nHeight node)"
  have h: "0 \<le> nHeight prev" by (rule tree_ok_height [OF assms(1,3)])
  have s: "0 \<le> ?s" "?s \<le> nHeight prev"
    using GetSkipHeight_nonneg GetSkipHeight_less [of "nHeight node"] assms(5) h by auto
  from GetAncestor_parent [OF assms(1,3) s] obtain sk where
    sk: "GetAncestor T q ?s = Some (Some sk)" "parent T (nat (nHeight prev - ?s)) q = Some sk" by blast
  have "q \<noteq> h" using assms(2,3) by auto
  then have "GetAncestor (T(h \<mapsto> node)) q ?s = Some (Some sk)"
    using sk(1) anc_walk_update [OF assms(1,2) s(1) assms(3)] assms(3) s by (simp add: GetAncestor_def)
  then have "BuildSkip (T(h \<mapsto> node)) h = Some (T(h \<mapsto> node\<lparr>pskip := Some sk\<rparr>))"
    using assms(4) by (simp add: BuildSkip_def)
  moreover have "node_ok T (node\<lparr>pskip := Some sk\<rparr>)"
    using assms sk(2) h by (simp add: node_ok_def)
  ultimately show ?thesis by blast
qed

lemma link_block_new:
  assumes "tree_ok T" "T hash = None" "blk_hashPrevBlock block \<noteq> hash"
  obtains node where "link_block mpi2bn junk hash block T = Some (Inr (T(hash \<mapsto> node)))" "node_ok T node"
    "pprev node = (if T (blk_hashPrevBlock block) = None then None else Some (blk_hashPrevBlock block))"
    "bnChainWork node = (case T (blk_hashPrevBlock block) of None \<Rightarrow> 0 | Some prev \<Rightarrow> bnChainWork prev) +
       GetBlockWork mpi2bn (blk_nBits block)"
proof (cases "T (blk_hashPrevBlock block)")
  case None
  let ?node = "CBlockIndex_of junk block"
  have "link_block mpi2bn junk hash block T =
      Some (Inr (T(hash \<mapsto> ?node\<lparr>bnChainWork := GetBlockWork mpi2bn (blk_nBits block)\<rparr>)))"
    using None assms(2,3) by (simp add: link_block_def Let_def CBlockIndex_of_def set_header_def)
  moreover have "node_ok T ?node" by (simp add: CBlockIndex_of_def node_ok_def)
  ultimately show ?thesis
    using None by (intro that [of "?node\<lparr>bnChainWork := GetBlockWork mpi2bn (blk_nBits block)\<rparr>"])
      (simp_all add: CBlockIndex_of_def)
next
  case (Some prev)
  let ?q = "blk_hashPrevBlock block"
  let ?node = "CBlockIndex_of junk block\<lparr>pprev := Some ?q, nHeight := nHeight prev + 1\<rparr>"
  have d: "hash \<notin> dom T" and q: "?q \<noteq> hash" using assms(2) Some by auto
  have "pprev ?node = Some ?q" "nHeight ?node = nHeight prev + 1" by simp_all
  from BuildSkip_new [OF assms(1) d Some this] obtain s where
    s: "BuildSkip (T(hash \<mapsto> ?node)) hash = Some (T(hash \<mapsto> ?node\<lparr>pskip := s\<rparr>))" "node_ok T (?node\<lparr>pskip := s\<rparr>)" by blast
  let ?new = "?node\<lparr>pskip := s, bnChainWork := bnChainWork prev + GetBlockWork mpi2bn (blk_nBits block)\<rparr>"
  have "link_block mpi2bn junk hash block T = Some (Inr (T(hash \<mapsto> ?new)))"
    using Some assms(2) q s(1)
    by (simp add: link_block_def Let_def) (simp add: CBlockIndex_of_def set_header_def new_CBlockIndex_def)
  then show ?thesis using s(2) Some by (intro that [of ?new]) simp_all
qed

lemma GetBlockWork_nonneg: "0 \<le> GetBlockWork mpi2bn bits"
  by (simp add: GetBlockWork_def Let_def pos_imp_zdiv_nonneg_iff)

section \<open>Filling the index upwards\<close>

text \<open>
  \<open>chain_of rd hs\<close>: reading gives, from height 0 on, the blocks with the hashes \<open>hs\<close>, each of which
  names the one before.
\<close>

definition chain_of :: "(nat \<Rightarrow> (u256 \<times> CBlockHeader) option) \<Rightarrow> u256 list \<Rightarrow> bool" where
  "chain_of rd hs \<longleftrightarrow> distinct hs \<and> 0 \<notin> set hs \<and>
     (\<forall>i<length hs. \<exists>block. rd i = Some (hs ! i, block) \<and>
        blk_hashPrevBlock block = (if i = 0 then 0 else hs ! (i - 1)))"

definition filled :: "u256 list \<Rightarrow> nat \<Rightarrow> blkidx_t \<Rightarrow> bool" where
  "filled hs k T \<longleftrightarrow> tree_ok T \<and> dom T = set (take k hs) \<and>
     (\<forall>i<k. \<exists>node. T (hs ! i) = Some node \<and> nHeight node = int i \<and>
        pprev node = (if i = 0 then None else Some (hs ! (i - 1))))"

lemma tree_ok_pnext:
  assumes "tree_ok T" "T l = Some ln"
  shows "tree_ok (T(l \<mapsto> ln\<lparr>pnext := x\<rparr>))"
proof -
  have p: "parent (T(l \<mapsto> ln\<lparr>pnext := x\<rparr>)) n p = parent T n p" for n p
  proof (induction n arbitrary: p)
    case (Suc n)
    then have "parent (T(l \<mapsto> ln\<lparr>pnext := x\<rparr>)) n = parent T n" by blast
    with assms(2) show ?case by (cases "p = l") (simp_all del: fun_upd_apply add: fun_upd_same fun_upd_other)
  qed simp
  have "node_ok (T(l \<mapsto> ln\<lparr>pnext := x\<rparr>)) b = node_ok T b" for b
    using assms(2) by (cases "pprev b") (auto simp: node_ok_def p)
  with assms show ?thesis by (auto simp: tree_ok_def)
qed

lemma fill_up_link:
  assumes "rd k = Some (h, block)" "k \<noteq> 0" "h \<noteq> 0" "T h = None" "T (blk_hashPrevBlock block) \<noteq> None"
    and "T l = Some ln" "l \<noteq> h"
  shows "fill_up rd genesis (k # ks) (Some l) T =
    Option.bind (BuildSkip (T(l \<mapsto> ln\<lparr>pnext := Some h\<rparr>,
        h \<mapsto> set_header block (new_CBlockIndex\<lparr>pprev := Some l, nHeight := int k\<rparr>))) h)
      (fill_up rd genesis ks (Some h))"
proof -
  have ins: "InsertBlockIndex T h = (T(h \<mapsto> new_CBlockIndex), Some h)"
    using assms by (simp add: InsertBlockIndex_def)
  have "T(h \<mapsto> y, l \<mapsto> z, h \<mapsto> w) = T(l \<mapsto> z, h \<mapsto> w)" for y z w
    using assms(7) by (simp add: fun_eq_iff)
  then show ?thesis
    using assms by (auto simp: ins Let_def)
qed

lemma fill_up_step:
  assumes c: "chain_of rd hs" "k < length hs" "hs ! 0 = genesis" and f: "filled hs k T"
  shows "\<exists>T'. fill_up rd genesis (k # ks) (if k = 0 then None else Some (hs ! (k - 1))) T =
      fill_up rd genesis ks (Some (hs ! k)) T' \<and> filled hs (Suc k) T'"
proof -
  let ?h = "hs ! k"
  obtain block where b: "rd k = Some (?h, block)" "blk_hashPrevBlock block = (if k = 0 then 0 else hs ! (k - 1))"
    using c by (auto simp: chain_of_def)
  have h0: "?h \<noteq> 0" using c(1,2) nth_mem by (fastforce simp: chain_of_def)
  have new: "?h \<notin> dom T"
    using f c by (auto simp: filled_def chain_of_def in_set_conv_nth nth_eq_iff_index_eq)
  have t: "tree_ok T" using f by (simp add: filled_def)
  have ins: "InsertBlockIndex T ?h = (T(?h \<mapsto> new_CBlockIndex), Some ?h)"
    using h0 new by (auto simp: InsertBlockIndex_def)
  have dom: "dom (T(?h \<mapsto> x)) = set (take (Suc k) hs)" for x
    using f c(2) by (simp add: filled_def take_Suc_conv_app_nth)
  have other: "hs ! i \<noteq> ?h" if "i < k" for i using c that by (simp add: chain_of_def nth_eq_iff_index_eq)
  show ?thesis
  proof (cases "k = 0")
    case True
    let ?n = "set_header block (new_CBlockIndex\<lparr>pprev := None, nHeight := 0\<rparr>)"
    have "fill_up rd genesis (k # ks) None T = fill_up rd genesis ks (Some ?h) (T(?h \<mapsto> ?n))"
      using True b c(3) ins by simp
    moreover have "node_ok T ?n" by (simp add: node_ok_def)
    then have "tree_ok (T(?h \<mapsto> ?n))" by (rule tree_ok_update [OF t new])
    then have "filled hs (Suc k) (T(?h \<mapsto> ?n))" using True dom by (simp add: filled_def)
    ultimately show ?thesis using True by auto
  next
    case False
    let ?l = "hs ! (k - 1)"
    from f have all: "\<forall>i<k. \<exists>node. T (hs ! i) = Some node \<and> nHeight node = int i \<and>
        pprev node = (if i = 0 then None else Some (hs ! (i - 1)))" by (simp add: filled_def)
    from all [rule_format, of "k - 1"] False obtain ln where
      ln: "T ?l = Some ln" "nHeight ln = int (k - 1)" "pprev ln = (if k - 1 = 0 then None else Some (hs ! (k - 1 - 1)))"
      by auto
    have lh: "?l \<noteq> ?h" using other False by simp
    let ?n = "set_header block (new_CBlockIndex\<lparr>pprev := Some ?l, nHeight := int k\<rparr>)"
    let ?T = "T(?l \<mapsto> ln\<lparr>pnext := Some ?h\<rparr>)"
    have t2: "tree_ok ?T" by (rule tree_ok_pnext [OF t ln(1)])
    have d2: "?h \<notin> dom ?T" using new lh by auto
    have "?T ?l = Some (ln\<lparr>pnext := Some ?h\<rparr>)" "pprev ?n = Some ?l" "nHeight ?n = nHeight (ln\<lparr>pnext := Some ?h\<rparr>) + 1"
      using ln False by auto
    from BuildSkip_new [OF t2 d2 this] obtain s where
      s: "BuildSkip (?T(?h \<mapsto> ?n)) ?h = Some (?T(?h \<mapsto> ?n\<lparr>pskip := s\<rparr>))" "node_ok ?T (?n\<lparr>pskip := s\<rparr>)" by blast
    let ?R = "?T(?h \<mapsto> ?n\<lparr>pskip := s\<rparr>)"
    have "T (blk_hashPrevBlock block) \<noteq> None" using b(2) False ln(1) by simp
    then have "fill_up rd genesis (k # ks) (Some ?l) T = fill_up rd genesis ks (Some ?h) ?R"
      using fill_up_link [of rd k ?h block T ?l ln genesis ks] b(1) False h0 ln(1) lh new s(1) by (simp add: domIff)
    moreover have "tree_ok ?R" by (rule tree_ok_update [OF t2 d2 s(2)])
    moreover have "dom ?R = set (take (Suc k) hs)"
      using f c(2) ln(1) by (auto simp: filled_def take_Suc_conv_app_nth)
    moreover have "\<exists>node. ?R (hs ! i) = Some node \<and> nHeight node = int i \<and> pprev node = (if i = 0 then None else Some (hs ! (i - 1)))"
      if i: "i < Suc k" for i
    proof -
      consider "i = k" | "i = k - 1" "i < k" | "i < k - 1" using i False by linarith
      then show ?thesis
      proof cases
        case 1
        then show ?thesis using False by simp
      next
        case 2
        then show ?thesis using ln lh by simp
      next
        case 3
        then have "hs ! i \<noteq> ?h" "hs ! i \<noteq> ?l"
          using c(1,2) by (auto simp: chain_of_def nth_eq_iff_index_eq)
        with all [rule_format, of i] 3 show ?thesis by simp
      qed
    qed
    ultimately show ?thesis using False unfolding filled_def by (intro exI [of _ ?R]) simp
  qed
qed

lemma fill_up_all:
  assumes "chain_of rd hs" "hs \<noteq> []" "hs ! 0 = genesis" "rd (length hs) = None"
  shows "k \<le> length hs \<Longrightarrow> filled hs k T \<Longrightarrow> length hs \<le> nMax \<Longrightarrow>
    \<exists>T'. fill_up rd genesis [k..<nMax] (if k = 0 then None else Some (hs ! (k - 1))) T =
      Some (T', Some (last hs)) \<and> filled hs (length hs) T'"
proof (induction "length hs - k" arbitrary: k T)
  case 0
  then have k: "k = length hs" by simp
  have "fill_up rd genesis [k..<nMax] (Some (last hs)) T = Some (T, Some (last hs))"
    using assms(4) k by (cases "k < nMax") (simp_all add: upt_conv_Cons)
  with 0 k assms(2) show ?case by (auto simp: last_conv_nth)
next
  case (Suc d)
  then have k: "k < length hs" by simp
  then have "[k..<nMax] = k # [Suc k..<nMax]" using Suc.prems(3) by (simp add: upt_conv_Cons)
  with fill_up_step [OF assms(1) k assms(3) Suc.prems(2), of "[Suc k..<nMax]"] obtain T' where
    T': "fill_up rd genesis [k..<nMax] (if k = 0 then None else Some (hs ! (k - 1))) T =
      fill_up rd genesis [Suc k..<nMax] (Some (hs ! k)) T'" "filled hs (Suc k) T'" by auto
  have "d = length hs - Suc k" using Suc.hyps(2) by simp
  from Suc.hyps(1) [OF this _ T'(2) Suc.prems(3)] k T'(1) show ?case by simp
qed

lemma filled_parent:
  assumes "filled hs n T" "i < n" "k \<le> i"
  shows "parent T k (hs ! i) = Some (hs ! (i - k))"
  using assms(2,3)
proof (induction k arbitrary: i)
  case (Suc k)
  then obtain node where "T (hs ! i) = Some node" "pprev node = Some (hs ! (i - 1))"
    using assms(1) by (auto simp: filled_def)
  with Suc.IH [of "i - 1"] Suc.prems show ?case by simp
qed simp

lemma filled_ancestor:
  assumes "filled hs n T" "i < n" "h \<le> i"
  shows "GetAncestor T (hs ! i) (int h) = Some (Some (hs ! h))"
proof -
  obtain node where node: "T (hs ! i) = Some node" "nHeight node = int i" and t: "tree_ok T"
    using assms by (auto simp: filled_def)
  have "parent T (nat (int i - int h)) (hs ! i) = Some (hs ! h)"
    using filled_parent [OF assms(1,2), of "i - h"] assms(3) by (simp add: nat_diff_distrib')
  moreover have "0 \<le> int h" "int h \<le> nHeight node" using assms(3) node(2) by simp_all
  ultimately show ?thesis using GetAncestor_parent [OF t node(1)] node(2) by (metis option.inject)
qed

section \<open>Filling the index downwards\<close>

text \<open>
  When a node is linked its parent has been inserted but not read: its height is still 0. So
  \<open>BuildSkip\<close> stores no far pointer where one above height 0 is wanted, and the parent where the
  ancestor at height 0 is wanted.
\<close>

definition down_node :: "u256 list \<Rightarrow> nat \<Rightarrow> CBlockIndex \<Rightarrow> bool" where
  "down_node hs i node \<longleftrightarrow> nHeight node = int i \<and> pprev node = (if i = 0 then None else Some (hs ! (i - 1))) \<and>
     pskip node = (if 0 < i \<and> i + 1 < length hs \<and> GetSkipHeight (int i) = 0 then Some (hs ! (i - 1)) else None)"

definition filling :: "u256 list \<Rightarrow> nat \<Rightarrow> blkidx_t \<Rightarrow> bool" where
  "filling hs k T \<longleftrightarrow> (\<forall>i. k \<le> i \<and> i < length hs \<longrightarrow> (\<exists>node. T (hs ! i) = Some node \<and> down_node hs i node)) \<and>
     (\<forall>i<k. T (hs ! i) = (if k < length hs \<and> i + 1 = k then Some new_CBlockIndex else None))"

lemma BuildSkip_fresh:
  assumes "T h = Some node" "pprev node = Some q" "T q = Some new_CBlockIndex"
  shows "BuildSkip T h = Some (T(h \<mapsto> node\<lparr>pskip := (if GetSkipHeight (nHeight node) = 0 then Some q else None)\<rparr>))"
proof -
  have "anc_walk T 0 q 0 = Some q" by (subst anc_walk.simps) simp
  then show ?thesis
    using assms GetSkipHeight_nonneg [of "nHeight node"] by (auto simp: BuildSkip_def GetAncestor_def)
qed

lemma fill_down_link:
  assumes "rd k = Some (h, block)" "h \<noteq> 0" "blk_hashPrevBlock block = q" "q \<noteq> h"
    and "T h = Some new_CBlockIndex \<or> T h = None" "q = 0 \<or> T q = None"
    and "lst = None \<or> (\<exists>l ln. lst = Some l \<and> l \<noteq> h \<and> l \<noteq> q \<and> T l = Some ln \<and> pprev ln = Some h)"
  shows "fill_down rd (k # ks) lst best T =
    Option.bind ((if lst = None then Some else (\<lambda>T. BuildSkip T h))
       ((if q = 0 then T else T(q \<mapsto> new_CBlockIndex))
         (h \<mapsto> set_header block ((if lst = None then new_CBlockIndex\<lparr>pprev := (if q = 0 then None else Some q)\<rparr>
            else new_CBlockIndex\<lparr>pprev := (if q = 0 then None else Some q), pnext := lst\<rparr>)\<lparr>nHeight := int k\<rparr>))))
     (fill_down rd ks (Some h) (if best = None then lst else best))"
proof -
  let ?T = "if q = 0 then T else T(q \<mapsto> new_CBlockIndex)"
  have ins: "InsertBlockIndex T h = (T(h \<mapsto> new_CBlockIndex), Some h)"
    using assms(2,5) by (auto simp: InsertBlockIndex_def)
  have ins2: "InsertBlockIndex (T(h \<mapsto> new_CBlockIndex)) q =
      (?T(h \<mapsto> new_CBlockIndex), if q = 0 then None else Some q)"
    using assms(4,6) by (auto simp: InsertBlockIndex_def fun_upd_twist)
  show ?thesis
  proof (cases lst)
    case None
    then show ?thesis using assms(1,3) by (simp add: ins ins2 Let_def)
  next
    case (Some l)
    then obtain ln where l: "l \<noteq> h" "l \<noteq> q" "T l = Some ln" "pprev ln = Some h" using assms(7) by auto
    have "(?T(h \<mapsto> x)) l = Some ln" for x using l by simp
    with Some l assms(1,3) show ?thesis by (simp add: ins ins2 Let_def)
  qed
qed

lemma fill_down_step:
  assumes c: "chain_of rd hs" "k < length hs" and f: "filling hs (Suc k) T"
    and lst: "lst = (if Suc k < length hs then Some (hs ! Suc k) else None)"
  shows "\<exists>T'. fill_down rd (k # ks) lst best T =
    fill_down rd ks (Some (hs ! k)) (if best = None then lst else best) T' \<and> filling hs k T'"
proof -
  let ?h = "hs ! k" and ?q = "if k = 0 then 0 else hs ! (k - 1)"
  have ne: "hs ! i \<noteq> hs ! j" if "i \<noteq> j" "i < length hs" "j < length hs" for i j
    using c that by (simp add: chain_of_def nth_eq_iff_index_eq)
  have nz: "hs ! i \<noteq> 0" if "i < length hs" for i using c(1) that nth_mem by (fastforce simp: chain_of_def)
  obtain block where b: "rd k = Some (?h, block)" "blk_hashPrevBlock block = ?q" using c by (auto simp: chain_of_def)
  define q where "q = ?q"
  define T1 where "T1 = (if q = 0 then T else T(q \<mapsto> new_CBlockIndex))"
  define node where "node = set_header block ((if lst = None then new_CBlockIndex\<lparr>pprev := (if q = 0 then None else Some q)\<rparr>
            else new_CBlockIndex\<lparr>pprev := (if q = 0 then None else Some q), pnext := lst\<rparr>)\<lparr>nHeight := int k\<rparr>)"
  have q: "q \<noteq> ?h" "q = 0 \<longleftrightarrow> k = 0" using nz c(2) ne [of "k - 1" k] by (auto simp: q_def)
  have qT: "q = 0 \<or> T q = None" using f q by (auto simp: filling_def q_def)
  have "T ?h = Some new_CBlockIndex \<or> T ?h = None" using f by (auto simp: filling_def)
  moreover have "lst = None \<or> (\<exists>l ln. lst = Some l \<and> l \<noteq> ?h \<and> l \<noteq> q \<and> T l = Some ln \<and> pprev ln = Some ?h)"
  proof (cases "Suc k < length hs")
    case True
    then obtain ln where "T (hs ! Suc k) = Some ln" "down_node hs (Suc k) ln" using f by (auto simp: filling_def)
    moreover have "hs ! Suc k \<noteq> q" using True nz ne [of "Suc k" "k - 1"] by (auto simp: q_def)
    ultimately show ?thesis using True ne [of "Suc k" k] lst by (simp add: down_node_def)
  qed (simp add: lst)
  ultimately have e: "fill_down rd (k # ks) lst best T =
      Option.bind ((if lst = None then Some else (\<lambda>T. BuildSkip T ?h)) (T1(?h \<mapsto> node)))
        (fill_down rd ks (Some ?h) (if best = None then lst else best))"
    using fill_down_link [of rd k ?h block q T lst ks best] b nz [OF c(2)] q(1) qT
    unfolding T1_def node_def q_def by blast
  have nd: "nHeight node = int k" "pprev node = (if q = 0 then None else Some q)" "pskip node = None"
    by (simp_all add: node_def)
  define s where "s = (if lst \<noteq> None \<and> 0 < k \<and> GetSkipHeight (int k) = 0 then Some q else None)"
  have "(if lst = None then Some else (\<lambda>T. BuildSkip T ?h)) (T1(?h \<mapsto> node)) = Some (T1(?h \<mapsto> node\<lparr>pskip := s\<rparr>))"
  proof (cases "lst \<noteq> None \<and> 0 < k")
    case True
    have "BuildSkip (T1(?h \<mapsto> node)) ?h = Some (T1(?h \<mapsto> node, ?h \<mapsto> node\<lparr>pskip := (if GetSkipHeight (nHeight node) = 0 then Some q else None)\<rparr>))"
      by (rule BuildSkip_fresh) (use True q in \<open>auto simp: nd T1_def\<close>)
    then show ?thesis using True by (auto simp: s_def nd)
  next
    case False
    have n: "node\<lparr>pskip := s\<rparr> = node" using False nd(3) by (auto simp: s_def)
    have "BuildSkip (T1(?h \<mapsto> node)) ?h = Some (T1(?h \<mapsto> node))" if "k = 0"
      using that q by (simp add: BuildSkip_def nd)
    with False n show ?thesis by auto
  qed
  moreover have "filling hs k (T1(?h \<mapsto> node\<lparr>pskip := s\<rparr>))"
  proof -
    have "down_node hs k (node\<lparr>pskip := s\<rparr>)"
      using q lst by (auto simp: down_node_def nd s_def q_def)
    moreover have "\<exists>n. T1 (hs ! i) = Some n \<and> down_node hs i n" if "k < i" "i < length hs" for i
    proof -
      have "hs ! i \<noteq> q" using that nz ne [of i "k - 1"] by (auto simp: q_def)
      then show ?thesis using f that by (auto simp: filling_def T1_def)
    qed
    moreover have "T1 (hs ! i) = (if i + 1 = k then Some new_CBlockIndex else None)" if "i < k" for i
      using f that c(2) q ne [of i "k - 1"] by (auto simp: filling_def T1_def q_def)
    ultimately show ?thesis
      using c(2) ne [of _ k] by (auto simp: filling_def order_le_less)
  qed
  ultimately show ?thesis unfolding e by auto
qed

lemma fill_down_all:
  assumes "chain_of rd hs"
  shows "k \<le> length hs \<Longrightarrow> filling hs k T \<Longrightarrow>
    lst = (if k < length hs then Some (hs ! k) else None) \<Longrightarrow>
    best = (if k + 1 < length hs then Some (last hs) else None) \<Longrightarrow>
    \<exists>T'. fill_down rd (rev [0..<k]) lst best T =
      Some (T', if 1 < length hs then Some (last hs) else None) \<and> filling hs 0 T'"
proof (induction k arbitrary: T lst best)
  case 0
  then show ?case by simp
next
  case (Suc k)
  then have k: "k < length hs" by simp
  from fill_down_step [OF assms k Suc.prems(2,3), of "rev [0..<k]" best] obtain T' where
    T': "fill_down rd (rev [0..<Suc k]) lst best T =
      fill_down rd (rev [0..<k]) (Some (hs ! k)) (if best = None then lst else best) T'" "filling hs k T'"
    by auto
  have "(if best = None then lst else best) = (if k + 1 < length hs then Some (last hs) else None)"
  proof (cases "k + 2 = length hs")
    case True
    then have "hs \<noteq> []" "length hs - 1 = Suc k" by auto
    then have "last hs = hs ! Suc k" by (metis last_conv_nth)
    with True Suc.prems(3,4) show ?thesis by simp
  qed (use Suc.prems(3,4) in auto)
  from Suc.IH [OF _ T'(2) _ this] k T'(1) show ?case by simp
qed

lemma fill_down_index:
  assumes "chain_of rd hs"
  shows "\<exists>T. fill_down rd (rev [0..<length hs]) None None Map.empty =
    Some (T, if 1 < length hs then Some (last hs) else None) \<and> filling hs 0 T"
  using fill_down_all [OF assms order_refl, of Map.empty] by (simp add: filling_def)

lemma filling_node:
  assumes "filling hs 0 T" "i < length hs"
  obtains node where "T (hs ! i) = Some node" "down_node hs i node"
  using assms by (auto simp: filling_def)

text \<open>Ancestors above height 0 are found, the one at height 0 is not.\<close>

lemma anc_walk_down:
  assumes "filling hs 0 T" "0 < h"
  shows "i < length hs \<Longrightarrow> h \<le> i \<Longrightarrow> anc_walk T (int h) (hs ! i) (int i) = Some (hs ! h)"
proof (induction i)
  case 0
  with assms(2) show ?case by simp
next
  case (Suc i)
  show ?case
  proof (cases "h = Suc i")
    case True
    then show ?thesis by (subst anc_walk.simps) simp
  next
    case False
    obtain node where "T (hs ! Suc i) = Some node" "down_node hs (Suc i) node"
      by (rule filling_node [OF assms(1) Suc.prems(1)])
    with Suc False assms(2) show ?thesis
      by (subst anc_walk.simps) (auto simp: down_node_def Let_def)
  qed
qed

lemma GetSkipHeight_pow: "GetSkipHeight (2 ^ k) = 0"
proof -
  have "(2::int) ^ k AND (2 ^ k - 1) = 0"
    by (simp add: take_bit_eq_mask [symmetric] flip: mask_eq_exp_minus_1)
  then show ?thesis by (cases k) (simp_all add: GetSkipHeight_def InvertLowestOne_def)
qed

lemma GetSkipHeight_between:
  assumes "2 ^ k < i" "i < 2 ^ Suc k" "0 < k"
  shows "0 < GetSkipHeight i"
proof (cases "odd i")
  case True
  have "(2::int) \<le> 2 ^ k" using assms(3) by (cases k) auto
  with assms(1) True have "2 \<le> i" by simp
  then have "0 \<le> InvertLowestOne (i - 1)" by (intro InvertLowestOne_bounds) simp
  then have "0 \<le> InvertLowestOne (InvertLowestOne (i - 1))" by (rule InvertLowestOne_bounds)
  with True \<open>2 \<le> i\<close> show ?thesis by (simp add: GetSkipHeight_def)
next
  case False
  have two: "(2::int) \<le> 2 ^ k" using assms(3) by (cases k) auto
  have b: "bit x k" if "2 ^ k \<le> x" "x < 2 ^ Suc k" for x :: int
  proof -
    have "x div 2 ^ k = 1" using that by (intro div_pos_geq [THEN trans]) (auto simp: div_pos_pos_trivial)
    then show ?thesis by (simp add: bit_iff_odd)
  qed
  have "bit (i AND (i - 1)) k" using b [of i] b [of "i - 1"] assms by (simp add: bit_and_iff)
  then have "InvertLowestOne i \<noteq> 0" by (auto simp: InvertLowestOne_def)
  moreover have "0 \<le> InvertLowestOne i" using assms(1) two by (intro InvertLowestOne_bounds) simp
  ultimately show ?thesis using False two assms(1) by (simp add: GetSkipHeight_def)
qed

lemma anc_walk_down_0:
  assumes "filling hs 0 T" "0 < k" "2 ^ k + 1 < length hs"
  shows "i < length hs \<Longrightarrow> 2 ^ k \<le> i \<Longrightarrow> i < 2 ^ Suc k \<Longrightarrow>
    anc_walk T 0 (hs ! i) (int i) = Some (hs ! (2 ^ k - 1))"
proof (induction i)
  case 0
  then show ?case by simp
next
  case (Suc i)
  obtain node where n: "T (hs ! Suc i) = Some node" "down_node hs (Suc i) node"
    by (rule filling_node [OF assms(1) Suc.prems(1)])
  show ?case
  proof (cases "Suc i = 2 ^ k")
    case True
    have "GetSkipHeight (int (Suc i)) = 0" using GetSkipHeight_pow [of k] True by (metis of_nat_numeral of_nat_power)
    moreover have "Suc i + 1 < length hs" using assms(3) True by linarith
    then have "pskip node = Some (hs ! i)" using n(2) calculation by (simp only: down_node_def) simp
    moreover have "anc_walk T 0 (hs ! i) 0 = Some (hs ! i)" by (subst anc_walk.simps) simp
    ultimately have "anc_walk T 0 (hs ! Suc i) (int (Suc i)) = Some (hs ! i)"
      using n(1) by (subst anc_walk.simps) (simp add: Let_def)
    then show ?thesis using True by (metis diff_Suc_1)
  next
    case False
    then have i: "2 ^ k \<le> i" "2 ^ k < Suc i" using Suc.prems by auto
    have "(2::int) ^ k < int (Suc i)" "int (Suc i) < 2 ^ Suc k"
      using i(2) Suc.prems(3) by (metis of_nat_less_iff of_nat_numeral of_nat_power)+
    then have "0 < GetSkipHeight (int (Suc i))" by (rule GetSkipHeight_between [OF _ _ assms(2)])
    then have "pskip node = None" using n(2) by (simp add: down_node_def)
    then have "anc_walk T 0 (hs ! Suc i) (int (Suc i)) = anc_walk T 0 (hs ! i) (int i)"
      using n by (subst anc_walk.simps) (simp add: Let_def down_node_def)
    with Suc.IH Suc.prems i(1) show ?thesis by simp
  qed
qed

section \<open>Sequences of insertions\<close>

fun link_all :: "(8 word list \<Rightarrow> int) \<Rightarrow> (u256 option \<times> u256 \<times> CBlockHeader) list \<Rightarrow> blkidx_t \<Rightarrow> blkidx_t option" where
  "link_all mpi2bn [] T = Some T"
| "link_all mpi2bn ((junk, hash, block) # bs) T = do {
     r \<leftarrow> link_block mpi2bn junk hash block T;
     link_all mpi2bn bs (case r of Inl _ \<Rightarrow> T | Inr T' \<Rightarrow> T') }"

definition work_ok :: "blkidx_t \<Rightarrow> bool" where
  "work_ok T \<longleftrightarrow> (\<forall>p node q. T p = Some node \<longrightarrow> pprev node = Some q \<longrightarrow>
     (\<exists>prev. T q = Some prev \<and> bnChainWork prev \<le> bnChainWork node))"

lemma link_block_ok:
  assumes "tree_ok T" "work_ok T" "blk_hashPrevBlock block \<noteq> hash"
  obtains r where "link_block mpi2bn junk hash block T = Some r"
    "tree_ok (case r of Inl _ \<Rightarrow> T | Inr T' \<Rightarrow> T')" "work_ok (case r of Inl _ \<Rightarrow> T | Inr T' \<Rightarrow> T')"
proof (cases "T hash")
  case (Some node)
  with assms(1,2) that [of "Inl ()"] show ?thesis by (simp add: link_block_def)
next
  case None
  obtain node where n: "link_block mpi2bn junk hash block T = Some (Inr (T(hash \<mapsto> node)))" "node_ok T node"
    "pprev node = (if T (blk_hashPrevBlock block) = None then None else Some (blk_hashPrevBlock block))"
    "bnChainWork node = (case T (blk_hashPrevBlock block) of None \<Rightarrow> 0 | Some prev \<Rightarrow> bnChainWork prev) +
       GetBlockWork mpi2bn (blk_nBits block)"
    by (rule link_block_new [OF assms(1) None assms(3)])
  have "tree_ok (T(hash \<mapsto> node))" by (rule tree_ok_update [OF assms(1) _ n(2)]) (use None in auto)
  moreover have "work_ok (T(hash \<mapsto> node))"
    unfolding work_ok_def
  proof (intro allI impI)
    fix p nd q
    assume p: "(T(hash \<mapsto> node)) p = Some nd" "pprev nd = Some q"
    have "\<exists>prev. T q = Some prev \<and> bnChainWork prev \<le> bnChainWork nd"
    proof (cases "p = hash")
      case True
      then show ?thesis using p n(3,4) GetBlockWork_nonneg [of mpi2bn "blk_nBits block"] by (auto split: if_splits)
    next
      case False
      then show ?thesis using p assms(2) by (simp add: work_ok_def)
    qed
    moreover from this None have "q \<noteq> hash" by auto
    ultimately show "\<exists>prev. (T(hash \<mapsto> node)) q = Some prev \<and> bnChainWork prev \<le> bnChainWork nd" by simp
  qed
  ultimately show ?thesis using that n(1) by simp
qed

lemma link_all_ok:
  "tree_ok T \<Longrightarrow> work_ok T \<Longrightarrow> \<forall>(junk, hash, block)\<in>set bs. blk_hashPrevBlock block \<noteq> hash \<Longrightarrow>
   \<exists>T'. link_all mpi2bn bs T = Some T' \<and> tree_ok T' \<and> work_ok T'"
proof (induction bs arbitrary: T)
  case (Cons b bs)
  obtain junk hash block where b: "b = (junk, hash, block)" by (cases b)
  have ne: "blk_hashPrevBlock block \<noteq> hash" using Cons.prems(3) b by simp
  obtain r where "link_block mpi2bn junk hash block T = Some r"
    "tree_ok (case r of Inl _ \<Rightarrow> T | Inr T' \<Rightarrow> T')" "work_ok (case r of Inl _ \<Rightarrow> T | Inr T' \<Rightarrow> T')"
    by (rule link_block_ok [OF Cons.prems(1,2) ne])
  with Cons.IH Cons.prems(3) b show ?case by simp
qed simp

lemma tree_ok_empty [simp]: "tree_ok Map.empty" "work_ok Map.empty"
  by (simp_all add: tree_ok_def work_ok_def)

lemma filled_0 [simp]: "filled hs 0 Map.empty"
  by (simp add: filled_def)

section \<open>Properties\<close>

text \<open>A chain of blocks for the concrete instances: block \<open>n\<close> has the hash \<open>n + 1\<close>.\<close>

definition hdr :: "u256 \<Rightarrow> CBlockHeader" where
  "hdr prev = \<lparr>blk_nVersion = 0x20000002, blk_hashPrevBlock = prev, blk_hashMerkleRoot = 0, blk_nTime = 1000,
     blk_nBits = 0x1e0fffff, blk_nNonce = 0\<rparr>"

definition rd0 :: "nat \<Rightarrow> nat \<Rightarrow> (u256 \<times> CBlockHeader) option" where
  "rd0 n i = (if i < n then Some (of_nat (i + 1), hdr (of_nat i)) else None)"

lemma chain_of_rd0:
  assumes "n < 1000"
  shows "chain_of (rd0 n) (map (\<lambda>i. of_nat (i + 1)) [0..<n])"
proof -
  have inj: "(of_nat (i + 1) :: u256) = of_nat (j + 1) \<longleftrightarrow> i = j" if "i < n" "j < n" for i j
    using that assms by (simp add: word_of_nat_eq_iff take_bit_nat_eq_self)
  have nz: "(of_nat (i + 1) :: u256) \<noteq> 0" if "i < n" for i
    using that assms by (auto simp: word_of_nat_eq_0_iff simp del: of_nat_add of_nat_Suc dest!: dvd_imp_le)
  have "distinct (map (\<lambda>i. of_nat (i + 1) :: u256) [0..<n])"
    using inj by (auto simp: distinct_map inj_on_def simp del: of_nat_add)
  moreover have "0 \<notin> set (map (\<lambda>i. of_nat (i + 1) :: u256) [0..<n])" using nz by (auto simp del: of_nat_add)
  ultimately show ?thesis by (auto simp: chain_of_def rd0_def hdr_def)
qed

text \<open>
  C15: however blocks are inserted, in any order and with any garbage in a fresh node, as long as none
  names itself as its parent, the index stays well-formed: \<open>GetAncestor\<close> with its far pointers returns exactly the node that single steps to the
  parent reach, and a node has at least the chain work of its parent.
\<close>

theorem ancestors_after_insertions:
  assumes "\<forall>(junk, hash, block) \<in> set bs. blk_hashPrevBlock block \<noteq> hash"
  shows "\<exists>T. link_all mpi2bn bs Map.empty = Some T \<and>
    (\<forall>p node h. T p = Some node \<and> 0 \<le> h \<and> h \<le> nHeight node \<longrightarrow>
       (\<exists>q. GetAncestor T p h = Some (Some q) \<and> parent T (nat (nHeight node - h)) p = Some q)) \<and>
    (\<forall>p node q. T p = Some node \<and> pprev node = Some q \<longrightarrow>
       (\<exists>prev. T q = Some prev \<and> nHeight node = nHeight prev + 1 \<and> bnChainWork prev \<le> bnChainWork node))"
proof -
  obtain T where T: "link_all mpi2bn bs Map.empty = Some T" "tree_ok T" "work_ok T"
    using link_all_ok [OF tree_ok_empty assms] by blast
  have "\<exists>prev. T q = Some prev \<and> nHeight node = nHeight prev + 1 \<and> bnChainWork prev \<le> bnChainWork node"
    if p: "T p = Some node" "pprev node = Some q" for p node q
    using tree_okD [OF T(2) p(1)] T(3) p by (fastforce simp: node_ok_def work_ok_def)
  moreover have "\<exists>q. GetAncestor T p h = Some (Some q) \<and> parent T (nat (nHeight node - h)) p = Some q"
    if "T p = Some node" "0 \<le> h" "h \<le> nHeight node" for p node h
    using GetAncestor_parent [OF T(2) that] by blast
  ultimately show ?thesis using T(1) by blast
qed

theorem ancestors_after_insertions_witness:
  "\<exists>T node. link_all (\<lambda>_. 7) [(None, 1, hdr 0), (Some 9, 2, hdr 1)] Map.empty = Some T \<and> T 2 = Some node \<and>
     GetAncestor T 2 (nHeight node) = Some (Some 2)"
proof -
  let ?bs = "[(None, 1, hdr 0), (Some 9, 2, hdr 1)]"
  have h: "blk_hashPrevBlock (hdr x) = x" for x by (simp add: hdr_def)
  then have "\<forall>(junk, hash, block)\<in>set ?bs. blk_hashPrevBlock block \<noteq> hash" by simp
  from ancestors_after_insertions [OF this, of "\<lambda>_. 7"] obtain T where
    T: "link_all (\<lambda>_. 7) ?bs Map.empty = Some T" "\<forall>p node h. T p = Some node \<and> 0 \<le> h \<and> h \<le> nHeight node \<longrightarrow>
       (\<exists>q. GetAncestor T p h = Some (Some q) \<and> parent T (nat (nHeight node - h)) p = Some q)" by blast
  have "2 \<in> dom T \<and> tree_ok T"
  proof -
    obtain r where r: "link_block (\<lambda>_. 7) None 1 (hdr 0) Map.empty = Some (Inr (Map.empty(1 \<mapsto> r)))" "node_ok Map.empty r"
      by (rule link_block_new [OF tree_ok_empty(1)]) (auto simp: h)
    have t: "tree_ok (Map.empty(1 \<mapsto> r))" by (rule tree_ok_update [OF tree_ok_empty(1) _ r(2)]) simp
    have none: "(Map.empty(1 \<mapsto> r)) (2::u256) = None" by simp
    have h2: "blk_hashPrevBlock (hdr 1) \<noteq> 2" by (simp add: h)
    obtain s where s: "link_block (\<lambda>_. 7) (Some 9) 2 (hdr 1) (Map.empty(1 \<mapsto> r)) = Some (Inr (Map.empty(1 \<mapsto> r, 2 \<mapsto> s)))"
        "node_ok (Map.empty(1 \<mapsto> r)) s"
      by (rule link_block_new [OF t none h2])
    have "T = Map.empty(1 \<mapsto> r, 2 \<mapsto> s)" using T(1) r(1) s(1) by simp
    with tree_ok_update [OF t _ s(2), of 2] none show ?thesis by (simp add: domIff)
  qed
  then obtain node where "T 2 = Some node" "0 \<le> nHeight node" using tree_ok_height by blast
  with T(2) [rule_format, of 2 node "nHeight node"] T(1) show ?thesis by auto
qed

text \<open>
  When the index is filled upwards from the database, as for USDE and EMC2, the last block is the
  result and \<open>GetAncestor\<close> finds for every block of the chain the block of every lower height.
\<close>

lemma fill_up_finds_ancestors:
  assumes "chain_of rd hs" and "hs \<noteq> []" and "rd (length hs) = None" and "length hs \<le> nMaxIndex"
  shows "\<exists>T. usde_FillBlockIndex rd (hs ! 0) nMaxIndex Map.empty = Some (T, Some (last hs)) \<and>
    dom T = set hs \<and>
    (\<forall>i < length hs. \<forall>h \<le> i. GetAncestor T (hs ! i) (int h) = Some (Some (hs ! h)))"
proof -
  from fill_up_all [OF assms(1,2) refl assms(3), of 0 Map.empty nMaxIndex] assms(4) obtain T where
    T: "fill_up rd (hs ! 0) [0..<nMaxIndex] None Map.empty = Some (T, Some (last hs))" "filled hs (length hs) T"
    by auto
  then have "dom T = set hs" by (simp add: filled_def)
  with T filled_ancestor [OF T(2)] show ?thesis by (auto simp: usde_FillBlockIndex_def)
qed

lemma fill_up_finds_ancestors_witness:
  "\<exists>T. usde_FillBlockIndex (rd0 6) 1 6 Map.empty = Some (T, Some 6) \<and> GetAncestor T 5 0 = Some (Some 1)"
proof -
  let ?hs = "map (\<lambda>i. of_nat (i + 1)) [0..<6] :: u256 list"
  have hs: "?hs = [1, 2, 3, 4, 5, 6]" by (simp add: upt_rec)
  have c: "chain_of (rd0 6) ?hs" by (rule chain_of_rd0) simp
  have "rd0 6 (length ?hs) = None" by (simp add: rd0_def)
  from fill_up_finds_ancestors [OF c _ this, of 6]
  have "\<exists>T. usde_FillBlockIndex (rd0 6) (?hs ! 0) 6 Map.empty = Some (T, Some (last ?hs)) \<and>
    (\<forall>i < length ?hs. \<forall>h \<le> i. GetAncestor T (?hs ! i) (int h) = Some (Some (?hs ! h)))" by auto
  then obtain T where T: "usde_FillBlockIndex (rd0 6) (?hs ! 0) 6 Map.empty = Some (T, Some (last ?hs))"
    "\<forall>i < length ?hs. \<forall>h \<le> i. GetAncestor T (?hs ! i) (int h) = Some (Some (?hs ! h))" by blast
  have "GetAncestor T (?hs ! 4) (int 0) = Some (Some (?hs ! 0))" using T(2) [rule_format, of 4 0] by simp
  with T(1) show ?thesis unfolding hs by auto
qed

text \<open>
  When the index is filled downwards, as for SHC, \<open>GetAncestor\<close> finds the ancestors above height
  0; but asked for the ancestor at height 0 of a block whose height is at least \<open>2 ^ k\<close> and below
  \<open>2 ^ (k + 1)\<close> it returns the block at height \<open>2 ^ k - 1\<close>, not the genesis block.
\<close>

lemma fill_down_misses_genesis:
  assumes "chain_of rd hs" and "1 < length hs" and "best_index have nMax 0 = length hs"
  shows "\<exists>T. shc_FillBlockIndex rd have nMax Map.empty = Some (T, Some (last hs)) \<and>
    (\<forall>i < length hs. \<forall>h. 0 < h \<and> h \<le> i \<longrightarrow> GetAncestor T (hs ! i) (int h) = Some (Some (hs ! h))) \<and>
    (\<forall>i < length hs. \<forall>k. 0 < k \<and> 2 ^ k \<le> i \<and> i < 2 ^ Suc k \<and> 2 ^ k + 1 < length hs \<longrightarrow>
       GetAncestor T (hs ! i) 0 = Some (Some (hs ! (2 ^ k - 1))) \<and> hs ! (2 ^ k - 1) \<noteq> hs ! 0)"
proof -
  from fill_down_index [OF assms(1)] assms(2) obtain T where
    T: "fill_down rd (rev [0..<length hs]) None None Map.empty = Some (T, Some (last hs))" "filling hs 0 T" by auto
  have a: "GetAncestor T (hs ! i) h = map_option Some (anc_walk T h (hs ! i) (int i))"
    if i: "i < length hs" "0 \<le> h" "h \<le> int i" for i h
  proof -
    obtain node where "T (hs ! i) = Some node" "down_node hs i node" by (rule filling_node [OF T(2) i(1)])
    with i show ?thesis by (simp add: GetAncestor_def down_node_def)
  qed
  have "GetAncestor T (hs ! i) (int h) = Some (Some (hs ! h))" if "i < length hs" "0 < h" "h \<le> i" for i h
    using a [of i "int h"] anc_walk_down [OF T(2) that(2,1,3)] that by simp
  moreover have "GetAncestor T (hs ! i) 0 = Some (Some (hs ! (2 ^ k - 1))) \<and> hs ! (2 ^ k - 1) \<noteq> hs ! 0"
    if k: "i < length hs" "0 < k" "2 ^ k \<le> i" "i < 2 ^ Suc k" "2 ^ k + 1 < length hs" for i k
  proof -
    have "(2::nat) \<le> 2 ^ k" using k(2) by (cases k) auto
    then have "2 ^ k - 1 \<noteq> (0::nat)" "2 ^ k - 1 < length hs" "0 < length hs" using k by auto
    then have "hs ! (2 ^ k - 1) \<noteq> hs ! 0" using assms(1) nth_eq_iff_index_eq unfolding chain_of_def by metis
    with a [of i 0] anc_walk_down_0 [OF T(2) k(2,5,1,3,4)] k show ?thesis by simp
  qed
  ultimately show ?thesis using T(1) assms(3) by (auto simp: shc_FillBlockIndex_def)
qed

lemma fill_down_misses_genesis_witness:
  "\<exists>T. shc_FillBlockIndex (rd0 7) (\<lambda>i. i < 7) 7 Map.empty = Some (T, Some 7) \<and> GetAncestor T 6 0 = Some (Some 4)"
proof -
  let ?hs = "map (\<lambda>i. of_nat (i + 1)) [0..<7] :: u256 list"
  have hs: "?hs = [1, 2, 3, 4, 5, 6, 7]" by (simp add: upt_rec)
  have b: "best_index (\<lambda>i. i < 7) 7 0 = length ?hs" by (simp add: eval_nat_numeral)
  have c: "chain_of (rd0 7) ?hs" by (rule chain_of_rd0) simp
  from fill_down_misses_genesis [OF c _ b] obtain T where
    T: "shc_FillBlockIndex (rd0 7) (\<lambda>i. i < 7) 7 Map.empty = Some (T, Some (last ?hs))"
      "\<forall>i < length ?hs. \<forall>k. 0 < k \<and> 2 ^ k \<le> i \<and> i < 2 ^ Suc k \<and> 2 ^ k + 1 < length ?hs \<longrightarrow>
       GetAncestor T (?hs ! i) 0 = Some (Some (?hs ! (2 ^ k - 1))) \<and> ?hs ! (2 ^ k - 1) \<noteq> ?hs ! 0" by auto
  have "GetAncestor T (?hs ! 5) 0 = Some (Some (?hs ! (2 ^ 2 - 1)))" using T(2) [rule_format, of 5 2] by simp
  with T(1) show ?thesis unfolding hs by auto
qed

end
