(* ===== verification/Version_Bits.thy ===== *)
theory Version_Bits
  imports Chain_Index "HOL-Library.Signed_Division"
begin

text \<open>
  The deployment of rule changes by votes in block versions (\<^verbatim>\<open>server/versionbits.cpp\<close>): the state of a
  deployment is computed once per period from the states before and remembered in a cache.
\<close>

datatype ThresholdState =
  THRESHOLD_DEFINED | THRESHOLD_STARTED | THRESHOLD_LOCKED_IN | THRESHOLD_ACTIVE | THRESHOLD_FAILED

datatype DeploymentPos = DEPLOYMENT_TESTDUMMY | DEPLOYMENT_CSV | DEPLOYMENT_SEGWIT

record BIP9Deployment =
  dep_bit :: nat
  nStartTime :: int
  nTimeout :: int

record vb_params =
  nRuleChangeActivationThreshold :: "32 word"
  nMinerConfirmationWindow :: "32 word"
  vDeployments :: "DeploymentPos \<Rightarrow> BIP9Deployment"

text \<open>The virtual methods of \<open>AbstractThresholdConditionChecker\<close>.\<close>

record checker =
  Condition :: "CBlockIndex \<Rightarrow> bool"
  BeginTime :: int
  EndTime :: int
  Period :: int
  Threshold :: int

type_synonym vb_cache = "u256 option \<rightharpoonup> ThresholdState"

section \<open>GetStateFor\<close>

text \<open>
  The walk back to a block whose state is known, with the blocks passed as a stack. \<^term>\<open>None\<close> is a
  walk that does not end or meets a node that is not in the index.
\<close>

partial_function (option) vb_back :: "blkidx_t \<Rightarrow> checker \<Rightarrow> vb_cache \<Rightarrow> u256 option \<Rightarrow> u256 list \<Rightarrow>
    (vb_cache \<times> u256 option \<times> u256 list) option" where
  "vb_back T ck cache pindexPrev vToCompute =
     (if cache pindexPrev \<noteq> None then Some (cache, pindexPrev, vToCompute)
      else case pindexPrev of
        None \<Rightarrow> Some (cache(None \<mapsto> THRESHOLD_DEFINED), None, vToCompute)
      | Some p \<Rightarrow>
          if GetMedianTimePast T p < BeginTime ck
          then Some (cache(Some p \<mapsto> THRESHOLD_DEFINED), Some p, vToCompute)
          else do {
            node \<leftarrow> T p;
            q \<leftarrow> GetAncestor T p (nHeight node - Period ck);
            vb_back T ck cache q (p # vToCompute) })"

text \<open>The count over a period; \<^term>\<open>None\<close> is a dereferenced null pointer.\<close>

fun vb_count :: "blkidx_t \<Rightarrow> (CBlockIndex \<Rightarrow> bool) \<Rightarrow> nat \<Rightarrow> u256 option \<Rightarrow> nat option" where
  "vb_count T cond 0 pindexCount = Some 0"
| "vb_count T cond (Suc n) pindexCount = do {
     p \<leftarrow> pindexCount;
     node \<leftarrow> T p;
     k \<leftarrow> vb_count T cond n (pprev node);
     Some ((if cond node then 1 else 0) + k) }"

definition vb_next :: "blkidx_t \<Rightarrow> checker \<Rightarrow> ThresholdState \<Rightarrow> u256 \<Rightarrow> ThresholdState option" where
  "vb_next T ck state p =
     (case state of
        THRESHOLD_DEFINED \<Rightarrow>
          Some (if GetMedianTimePast T p \<ge> EndTime ck then THRESHOLD_FAILED
                else if GetMedianTimePast T p \<ge> BeginTime ck then THRESHOLD_STARTED
                else THRESHOLD_DEFINED)
      | THRESHOLD_STARTED \<Rightarrow>
          if GetMedianTimePast T p \<ge> EndTime ck then Some THRESHOLD_FAILED
          else do {
            count \<leftarrow> vb_count T (Condition ck) (nat (Period ck)) (Some p);
            Some (if int count \<ge> Threshold ck then THRESHOLD_LOCKED_IN else THRESHOLD_STARTED) }
      | THRESHOLD_LOCKED_IN \<Rightarrow> Some THRESHOLD_ACTIVE
      | THRESHOLD_FAILED \<Rightarrow> Some THRESHOLD_FAILED
      | THRESHOLD_ACTIVE \<Rightarrow> Some THRESHOLD_ACTIVE)"

fun vb_forward :: "blkidx_t \<Rightarrow> checker \<Rightarrow> vb_cache \<Rightarrow> ThresholdState \<Rightarrow> u256 list \<Rightarrow>
    (ThresholdState \<times> vb_cache) option" where
  "vb_forward T ck cache state [] = Some (state, cache)"
| "vb_forward T ck cache state (p # vToCompute) = do {
     stateNext \<leftarrow> vb_next T ck state p;
     vb_forward T ck (cache(Some p \<mapsto> stateNext)) stateNext vToCompute }"

text \<open>A period of 0 divides by zero.\<close>

definition GetStateFor :: "blkidx_t \<Rightarrow> checker \<Rightarrow> u256 option \<Rightarrow> vb_cache \<Rightarrow> (ThresholdState \<times> vb_cache) option" where
  "GetStateFor T ck pindexPrev cache = do {
     pindexPrev \<leftarrow> (case pindexPrev of
        None \<Rightarrow> Some None
      | Some p \<Rightarrow> do {
          node \<leftarrow> T p;
          if Period ck = 0 then None
          else GetAncestor T p (nHeight node - ((nHeight node + 1) smod Period ck)) });
     (cache, pindexPrev, vToCompute) \<leftarrow> vb_back T ck cache pindexPrev [];
     state \<leftarrow> cache pindexPrev;
     vb_forward T ck cache state vToCompute }"

section \<open>Deployments\<close>

definition VersionBitsMask :: "vb_params \<Rightarrow> DeploymentPos \<Rightarrow> 32 word" where
  "VersionBitsMask params pos = push_bit (dep_bit (vDeployments params pos)) 1"

definition VersionBitsConditionChecker :: "vb_params \<Rightarrow> DeploymentPos \<Rightarrow> checker" where
  "VersionBitsConditionChecker params pos = \<lparr>
     Condition = (\<lambda>pindex. nVersion pindex AND 0xE0000000 = 0x20000000 \<and>
                    nVersion pindex AND VersionBitsMask params pos \<noteq> 0),
     BeginTime = nStartTime (vDeployments params pos),
     EndTime = nTimeout (vDeployments params pos),
     Period = sint (nMinerConfirmationWindow params),
     Threshold = sint (nRuleChangeActivationThreshold params)\<rparr>"

type_synonym VersionBitsCache = "DeploymentPos \<Rightarrow> vb_cache"

definition VersionBitsState :: "blkidx_t \<Rightarrow> u256 option \<Rightarrow> vb_params \<Rightarrow> DeploymentPos \<Rightarrow> VersionBitsCache \<Rightarrow>
    (ThresholdState \<times> VersionBitsCache) option" where
  "VersionBitsState T pindexPrev params pos caches =
     map_option (\<lambda>(state, cache). (state, caches(pos := cache)))
       (GetStateFor T (VersionBitsConditionChecker params pos) pindexPrev (caches pos))"

definition VersionBitsCache_Clear :: "VersionBitsCache \<Rightarrow> VersionBitsCache" where
  "VersionBitsCache_Clear caches = (\<lambda>_. Map.empty)"

text \<open>\<open>IsWitnessEnabled\<close>; the coin without a cache of its own (USDE) is the case \<open>None\<close>.\<close>

definition IsWitnessEnabled :: "blkidx_t \<Rightarrow> vb_params \<Rightarrow> VersionBitsCache option \<Rightarrow> u256 option \<Rightarrow>
    (bool \<times> VersionBitsCache option) option" where
  "IsWitnessEnabled T params cache pindexPrev =
     (case cache of
        None \<Rightarrow> Some (False, None)
      | Some caches \<Rightarrow>
          map_option (\<lambda>(state, caches). (state = THRESHOLD_ACTIVE, Some caches))
            (VersionBitsState T pindexPrev params DEPLOYMENT_SEGWIT caches))"

section \<open>The reference\<close>

text \<open>
  The state after the \<open>n\<close>-th period, that is for a block whose parent ends it: from the state of the
  period before, without a cache. A period whose last median is before the start counts as defined.
\<close>

fun vb_state :: "blkidx_t \<Rightarrow> checker \<Rightarrow> nat \<Rightarrow> u256 option \<Rightarrow> ThresholdState option" where
  "vb_state T ck 0 b = Some THRESHOLD_DEFINED"
| "vb_state T ck (Suc n) b = do {
     p \<leftarrow> b;
     if GetMedianTimePast T p < BeginTime ck then Some THRESHOLD_DEFINED
     else do {
       s \<leftarrow> vb_state T ck n (if n = 0 then None else parent T (nat (Period ck)) p);
       vb_next T ck s p } }"

text \<open>\<open>boundary T ck n b\<close>: \<open>b\<close> is the last block of the \<open>n\<close>-th period, or \<open>NULL\<close> before the first.\<close>

definition boundary :: "blkidx_t \<Rightarrow> checker \<Rightarrow> nat \<Rightarrow> u256 option \<Rightarrow> bool" where
  "boundary T ck n b \<longleftrightarrow>
     (case b of None \<Rightarrow> n = 0
      | Some p \<Rightarrow> 0 < n \<and> (\<exists>node. T p = Some node \<and> nHeight node = int n * Period ck - 1))"

definition vb_cache_ok :: "blkidx_t \<Rightarrow> checker \<Rightarrow> vb_cache \<Rightarrow> bool" where
  "vb_cache_ok T ck cache \<longleftrightarrow>
     (\<forall>b s. cache b = Some s \<longrightarrow> (\<exists>n. boundary T ck n b \<and> vb_state T ck n b = Some s))"

section \<open>The cached computation computes the reference\<close>

lemma boundary_None [simp]: "boundary T ck n None \<longleftrightarrow> n = 0"
  by (simp add: boundary_def)

lemma boundary_Some:
  "boundary T ck n (Some p) \<longleftrightarrow> 0 < n \<and> (\<exists>node. T p = Some node \<and> nHeight node = int n * Period ck - 1)"
  by (simp add: boundary_def)

lemma boundary_unique: "0 < Period ck \<Longrightarrow> boundary T ck n b \<Longrightarrow> boundary T ck m b \<Longrightarrow> n = m"
  by (cases b) (auto simp: boundary_Some)

lemma vb_count_total:
  "tree_ok T \<Longrightarrow> T p = Some node \<Longrightarrow> int n \<le> nHeight node + 1 \<Longrightarrow> \<exists>k. vb_count T c n (Some p) = Some k \<and> k \<le> n"
proof (induction n arbitrary: p node)
  case (Suc n)
  show ?case
  proof (cases "nHeight node = 0")
    case True
    then have "n = 0" using Suc.prems(3) by simp
    with Suc.prems(2) show ?thesis by simp
  next
    case False
    then have "0 < nHeight node" using tree_ok_height [OF Suc.prems(1,2)] by simp
    from tree_ok_parent [OF Suc.prems(1,2) this] obtain q prev where
      q: "pprev node = Some q" "T q = Some prev" "nHeight prev = nHeight node - 1" .
    with Suc.IH [OF Suc.prems(1) q(2)] Suc.prems(3) obtain k where
      "vb_count T c n (Some q) = Some k" "k \<le> n" by auto
    with q Suc.prems(2) show ?thesis by auto
  qed
qed simp

lemma vb_next_total:
  assumes "tree_ok T" "boundary T ck n (Some p)" "0 < Period ck"
  obtains s' where "vb_next T ck s p = Some s'"
proof -
  obtain node where n: "0 < n" "T p = Some node" "nHeight node = int n * Period ck - 1"
    using assms(2) by (auto simp: boundary_Some)
  have "1 * Period ck \<le> int n * Period ck" using n(1) assms(3) by (intro mult_right_mono) auto
  then have "int (nat (Period ck)) \<le> nHeight node + 1" using n(3) assms(3) by simp
  from vb_count_total [OF assms(1) n(2) this, of "Condition ck"] obtain k where
    "vb_count T (Condition ck) (nat (Period ck)) (Some p) = Some k" by blast
  then have "\<exists>s'. vb_next T ck s p = Some s'" by (cases s) (simp_all add: vb_next_def)
  with that show ?thesis by blast
qed

text \<open>The step from one boundary to the one before.\<close>

lemma boundary_back:
  assumes "tree_ok T" "0 < Period ck" "T p = Some node" "nHeight node = int (Suc n) * Period ck - 1"
  shows "GetAncestor T p (nHeight node - Period ck) = Some (if n = 0 then None else parent T (nat (Period ck)) p)"
    "boundary T ck n (if n = 0 then None else parent T (nat (Period ck)) p)"
proof -
  have h: "nHeight node - Period ck = int n * Period ck - 1" using assms(4) by (simp add: algebra_simps)
  have g: "0 \<le> int n * Period ck - 1" if "n \<noteq> 0"
  proof -
    have "1 * Period ck \<le> int n * Period ck" using that assms(2) by (intro mult_right_mono) auto
    then show ?thesis using assms(2) by simp
  qed
  have *: "GetAncestor T p (nHeight node - Period ck) = Some (if n = 0 then None else parent T (nat (Period ck)) p) \<and>
      boundary T ck n (if n = 0 then None else parent T (nat (Period ck)) p)"
  proof (cases "n = 0")
    case True
    then show ?thesis using assms(3) h by (simp add: GetAncestor_def)
  next
    case False
    have "nHeight node - Period ck \<le> nHeight node" "0 \<le> nHeight node - Period ck" using g [OF False] assms(2) h by auto
    from GetAncestor_parent [OF assms(1,3) this(2,1)] obtain q anc where q:
      "GetAncestor T p (nHeight node - Period ck) = Some (Some q)"
      "parent T (nat (nHeight node - (nHeight node - Period ck))) p = Some q"
      "T q = Some anc" "nHeight anc = nHeight node - Period ck" .
    have "parent T (nat (Period ck)) p = Some q" using q(2) by simp
    with False h q show ?thesis by (simp add: boundary_Some)
  qed
  then show "GetAncestor T p (nHeight node - Period ck) = Some (if n = 0 then None else parent T (nat (Period ck)) p)"
    "boundary T ck n (if n = 0 then None else parent T (nat (Period ck)) p)" by blast+
qed

lemma vb_state_total:
  assumes "tree_ok T" "0 < Period ck"
  shows "boundary T ck n b \<Longrightarrow> \<exists>s. vb_state T ck n b = Some s"
proof (induction n arbitrary: b)
  case (Suc n)
  then obtain p node where p: "b = Some p" "T p = Some node" "nHeight node = int (Suc n) * Period ck - 1"
    by (cases b) (auto simp: boundary_Some)
  obtain s where s: "vb_state T ck n (if n = 0 then None else parent T (nat (Period ck)) p) = Some s"
    using Suc.IH boundary_back(2) [OF assms p(2,3)] by blast
  obtain s' where "vb_next T ck s p = Some s'"
    by (rule vb_next_total [OF assms(1) _ assms(2), of "Suc n"]) (use Suc.prems p(1) in auto)
  with p(1) s show ?case by simp
qed simp

lemma vb_cache_ok_update:
  "vb_cache_ok T ck cache \<Longrightarrow> boundary T ck n b \<Longrightarrow> vb_state T ck n b = Some s \<Longrightarrow> vb_cache_ok T ck (cache(b \<mapsto> s))"
  by (auto simp: vb_cache_ok_def)

lemma vb_back_forward:
  assumes "tree_ok T" "0 < Period ck" "vb_cache_ok T ck cache"
  shows "boundary T ck n b \<Longrightarrow> \<exists>cache1 b1 st1 s1 s cache2.
    vb_back T ck cache b st = Some (cache1, b1, st1) \<and> cache1 b1 = Some s1 \<and>
    vb_state T ck n b = Some s \<and> vb_cache_ok T ck cache2 \<and> cache2 b = Some s \<and>
    vb_forward T ck cache1 s1 st1 = vb_forward T ck cache2 s st"
proof (induction n arbitrary: b st)
  case 0
  then have b: "b = None" by (cases b) (auto simp: boundary_Some)
  show ?case
  proof (cases "cache None")
    case None
    then show ?thesis
      using b vb_cache_ok_update [OF assms(3), of 0 None THRESHOLD_DEFINED]
      by (subst vb_back.simps) auto
  next
    case (Some s)
    then have "s = THRESHOLD_DEFINED" using assms(3) by (fastforce simp: vb_cache_ok_def)
    with Some b assms(3) show ?thesis by (subst vb_back.simps) auto
  qed
next
  case (Suc n)
  then obtain p node where p: "b = Some p" "T p = Some node" "nHeight node = int (Suc n) * Period ck - 1"
    by (cases b) (auto simp: boundary_Some)
  let ?a = "if n = 0 then None else parent T (nat (Period ck)) p"
  note a = boundary_back [OF assms(1,2) p(2,3)]
  show ?case
  proof (cases "cache b")
    case (Some s)
    then obtain m where "boundary T ck m b" "vb_state T ck m b = Some s" using assms(3) by (auto simp: vb_cache_ok_def)
    moreover from this have "m = Suc n" using boundary_unique [OF assms(2)] Suc.prems by blast
    ultimately show ?thesis using Some assms(3) by (subst vb_back.simps) auto
  next
    case None
    show ?thesis
    proof (cases "GetMedianTimePast T p < BeginTime ck")
      case True
      then have s: "vb_state T ck (Suc n) b = Some THRESHOLD_DEFINED" using p(1) by simp
      from vb_cache_ok_update [OF assms(3) Suc.prems s] s None True p(1) show ?thesis
        by (subst vb_back.simps) auto
    next
      case False
      from Suc.IH [OF a(2), of "p # st"] obtain cache1 b1 st1 s1 s cache2 where
        i: "vb_back T ck cache ?a (p # st) = Some (cache1, b1, st1)" "cache1 b1 = Some s1"
          "vb_state T ck n ?a = Some s" "vb_cache_ok T ck cache2"
          "vb_forward T ck cache1 s1 st1 = vb_forward T ck cache2 s (p # st)" by blast
      obtain s' where s': "vb_next T ck s p = Some s'"
        by (rule vb_next_total [OF assms(1) _ assms(2), of "Suc n"]) (use Suc.prems p(1) in auto)
      have st: "vb_state T ck (Suc n) b = Some s'" using False p(1) i(3) s' by simp
      have "vb_back T ck cache b st = Some (cache1, b1, st1)"
        using None False p i(1) a(1) by (subst vb_back.simps) (simp add: p(3) [symmetric])
      moreover have "vb_cache_ok T ck (cache2(b \<mapsto> s'))" by (rule vb_cache_ok_update [OF i(4) Suc.prems st])
      moreover have "vb_forward T ck cache1 s1 st1 = vb_forward T ck (cache2(b \<mapsto> s')) s' st"
        using i(5) s' p(1) by simp
      ultimately show ?thesis using i(2) st by (metis fun_upd_same)
    qed
  qed
qed

definition period_state :: "blkidx_t \<Rightarrow> checker \<Rightarrow> u256 option \<Rightarrow> ThresholdState option" where
  "period_state T ck b =
     (case b of
        None \<Rightarrow> Some THRESHOLD_DEFINED
      | Some p \<Rightarrow> do {
          node \<leftarrow> T p;
          let n = nat ((nHeight node + 1) div Period ck);
          vb_state T ck n (if n = 0 then None else parent T (nat ((nHeight node + 1) mod Period ck)) p) })"

lemma smod_pos: "0 \<le> a \<Longrightarrow> 0 < b \<Longrightarrow> a smod (b::int) = a mod b"
  by (cases "a = 0") (simp_all add: signed_modulo_int_def signed_divide_int_def minus_div_mult_eq_mod)

lemma GetStateFor_spec:
  assumes "tree_ok T" "0 < Period ck" "vb_cache_ok T ck cache" "\<forall>p. b = Some p \<longrightarrow> p \<in> dom T"
  obtains s cache' where "GetStateFor T ck b cache = Some (s, cache')" "period_state T ck b = Some s"
    "vb_cache_ok T ck cache'"
proof -
  have "\<exists>n a. (case b of None \<Rightarrow> Some None
      | Some p \<Rightarrow> do { node \<leftarrow> T p;
          if Period ck = 0 then None
          else GetAncestor T p (nHeight node - ((nHeight node + 1) smod Period ck)) }) = Some a \<and>
      boundary T ck n a \<and> period_state T ck b = vb_state T ck n a"
  proof (cases b)
    case None
    then show ?thesis by (intro exI [of _ 0]) (simp add: period_state_def)
  next
    case (Some p)
    then obtain node where p: "T p = Some node" using assms(4) by blast
    let ?h = "nHeight node" and ?P = "Period ck"
    have h: "0 \<le> ?h" by (rule tree_ok_height [OF assms(1) p])
    define n where "n = nat ((?h + 1) div ?P)"
    have d: "?h - ((?h + 1) smod ?P) = int n * ?P - 1"
      using h assms(2) minus_mod_eq_div_mult [of "?h + 1" ?P]
      by (simp add: smod_pos n_def pos_imp_zdiv_nonneg_iff)
    show ?thesis
    proof (cases "n = 0")
      case True
      then show ?thesis using Some p assms(2) d
        by (intro exI [of _ 0] exI [of _ None]) (simp add: GetAncestor_def period_state_def n_def)
    next
      case False
      have "1 * ?P \<le> int n * ?P" using False assms(2) by (intro mult_right_mono) auto
      then have g: "0 \<le> ?h - ((?h + 1) smod ?P)" using assms(2) d by simp
      have l: "?h - ((?h + 1) smod ?P) \<le> ?h" using h assms(2) by (simp add: smod_pos)
      from GetAncestor_parent [OF assms(1) p g l] obtain q anc where q:
        "GetAncestor T p (?h - ((?h + 1) smod ?P)) = Some (Some q)"
        "parent T (nat (?h - (?h - ((?h + 1) smod ?P)))) p = Some q"
        "T q = Some anc" "nHeight anc = ?h - ((?h + 1) smod ?P)" .
      have "parent T (nat ((?h + 1) mod ?P)) p = Some q" using q(2) h assms(2) by (simp add: smod_pos)
      then have "period_state T ck b = vb_state T ck n (Some q)"
        using Some p False by (simp add: period_state_def n_def)
      moreover have "boundary T ck n (Some q)" using False q(3,4) d by (simp add: boundary_Some)
      ultimately show ?thesis using Some p q(1) assms(2) by (intro exI [of _ n] exI [of _ "Some q"]) simp
    qed
  qed
  then obtain n a where a: "(case b of None \<Rightarrow> Some None
      | Some p \<Rightarrow> do { node \<leftarrow> T p;
          if Period ck = 0 then None
          else GetAncestor T p (nHeight node - ((nHeight node + 1) smod Period ck)) }) = Some a"
    "boundary T ck n a" "period_state T ck b = vb_state T ck n a" by blast
  from vb_back_forward [OF assms(1-3) a(2), of "[]"] obtain cache1 b1 st1 s1 s cache2 where
    "vb_back T ck cache a [] = Some (cache1, b1, st1)" "cache1 b1 = Some s1" "vb_state T ck n a = Some s"
    "vb_cache_ok T ck cache2" "vb_forward T ck cache1 s1 st1 = Some (s, cache2)" by auto
  then show ?thesis using that a(1,3) by (simp add: GetStateFor_def)
qed

section \<open>The median of the past\<close>

text \<open>In a sorted list the values below a bound come first.\<close>

lemma sorted_nth_ge:
  assumes "sorted ys" "i < length ys" "length (filter (\<lambda>x. x < m) ys) \<le> i"
  shows "(m::int) \<le> ys ! i"
proof (rule ccontr)
  assume a: "\<not> m \<le> ys ! i"
  have "ys ! j < m" if "j \<le> i" for j
    using sorted_nth_mono [OF assms(1) that assms(2)] a by simp
  then have "{..i} \<subseteq> {j. j < length ys \<and> ys ! j < m}" using assms(2) by auto
  from card_mono [OF _ this] have "Suc i \<le> length (filter (\<lambda>x. x < m) ys)"
    by (simp add: length_filter_conv_card)
  with assms(3) show False by simp
qed

lemma sorted_filter_less:
  assumes "sorted ys" "i < length ys"
  shows "length (filter (\<lambda>x. x < ys ! i) ys) \<le> i"
proof -
  have "{j. j < length ys \<and> ys ! j < ys ! i} \<subseteq> {..<i}"
    using sorted_nth_mono [OF assms(1)] by (force simp: not_less [symmetric])
  from card_mono [OF _ this] show ?thesis by (simp add: length_filter_conv_card)
qed

lemma filter_sort_length: "length (filter P (sort xs)) = length (filter P (xs::int list))"
  by (simp add: filter_sort)

lemma median_ge:
  assumes "xs \<noteq> []" "length (filter (\<lambda>x. x < m) xs) \<le> length xs div 2"
  shows "(m::int) \<le> sort xs ! (length (sort xs) div 2)"
  using assms by (intro sorted_nth_ge) (auto simp: filter_sort_length)

lemma median_below:
  assumes "xs \<noteq> []"
  shows "length (filter (\<lambda>x. x < sort xs ! (length (sort xs) div 2)) xs) \<le> length (xs::int list) div 2"
  using sorted_filter_less [of "sort xs" "length (sort xs) div 2"] assms by (simp add: filter_sort_length)

lemma past_times_Suc:
  "past_times T n b = drop (length (past_times T (Suc n) b) - length (past_times T n b)) (past_times T (Suc n) b) \<and>
   length (past_times T n b) \<le> length (past_times T (Suc n) b) \<and> length (past_times T (Suc n) b) \<le> Suc (length (past_times T n b))"
proof (induction n arbitrary: b)
  case 0
  then show ?case by (cases b) (auto split: option.splits)
next
  case (Suc n)
  then show ?case by (cases b) (auto split: option.splits)
qed

lemma past_times_length: "length (past_times T n b) \<le> n"
  by (induction T n b rule: past_times.induct) (auto split: option.splits)

text \<open>When every block is later than its parent's median, medians never decrease.\<close>

definition times_ok :: "blkidx_t \<Rightarrow> bool" where
  "times_ok T \<longleftrightarrow> (\<forall>p node q. T p = Some node \<longrightarrow> pprev node = Some q \<longrightarrow>
     q \<in> dom T \<longrightarrow> GetMedianTimePast T q < uint (nTime node))"

lemma median_step:
  assumes "times_ok T" "T p = Some node" "pprev node = Some q" "T q = Some prev"
  shows "GetMedianTimePast T q \<le> GetMedianTimePast T p"
proof -
  let ?m = "GetMedianTimePast T q"
  let ?old = "past_times T 11 (Some q)" and ?cut = "past_times T 10 (Some q)"
  have w: "past_times T 11 (Some p) = ?cut @ [uint (nTime node)]"
    using assms(2,3) by (simp add: eval_nat_numeral)
  have e: "(11::nat) = Suc 10" by simp
  note s = past_times_Suc [of T 10 "Some q", folded e]
  have ne: "?old \<noteq> []" using assms(4) by (simp add: eval_nat_numeral)
  have "?m = sort ?old ! (length (sort ?old) div 2)" by (simp add: GetMedianTimePast_def Let_def)
  then have "length (filter (\<lambda>x. x < ?m) ?old) \<le> length ?old div 2" using median_below [OF ne] by simp
  moreover have "length (filter (\<lambda>x. x < ?m) ?cut) \<le> length (filter (\<lambda>x. x < ?m) ?old)"
  proof -
    have "?old = take (length ?old - length ?cut) ?old @ ?cut" using s by (metis append_take_drop_id)
    then have "filter (\<lambda>x. x < ?m) ?old = filter (\<lambda>x. x < ?m) (take (length ?old - length ?cut) ?old) @ filter (\<lambda>x. x < ?m) ?cut"
      by (metis filter_append)
    then show ?thesis by simp
  qed
  moreover have "\<not> uint (nTime node) < ?m"
    using assms by (force simp: times_ok_def)
  moreover have "length ?old \<le> length (?cut @ [uint (nTime node)])" using s by simp
  ultimately have "length (filter (\<lambda>x. x < ?m) (past_times T 11 (Some p))) \<le> length (past_times T 11 (Some p)) div 2"
    unfolding w filter_append length_append
    by (auto intro: order_trans [OF _ div_le_mono])
  from median_ge [OF _ this] w show ?thesis by (simp add: GetMedianTimePast_def Let_def)
qed

lemma median_mono:
  assumes "tree_ok T" "times_ok T"
  shows "T p = Some node \<Longrightarrow> parent T n p = Some q \<Longrightarrow> GetMedianTimePast T q \<le> GetMedianTimePast T p"
proof (induction n arbitrary: p node)
  case (Suc n)
  then obtain r where r: "pprev node = Some r" "parent T n r = Some q" by (auto split: bind_splits)
  then obtain prev where prev: "T r = Some prev"
    using tree_okD [OF assms(1) Suc.prems(1)] by (auto simp: node_ok_def)
  from Suc.IH [OF prev r(2)] median_step [OF assms(2) Suc.prems(1) r(1) prev] show ?case by simp
qed simp

section \<open>Transitions\<close>

inductive vb_step :: "ThresholdState \<Rightarrow> ThresholdState \<Rightarrow> bool" where
  wait: "vb_step THRESHOLD_DEFINED THRESHOLD_DEFINED"
| start: "vb_step THRESHOLD_DEFINED THRESHOLD_STARTED"
| late: "vb_step THRESHOLD_DEFINED THRESHOLD_FAILED"
| vote: "vb_step THRESHOLD_STARTED THRESHOLD_STARTED"
| lock: "vb_step THRESHOLD_STARTED THRESHOLD_LOCKED_IN"
| expire: "vb_step THRESHOLD_STARTED THRESHOLD_FAILED"
| activate: "vb_step THRESHOLD_LOCKED_IN THRESHOLD_ACTIVE"
| active: "vb_step THRESHOLD_ACTIVE THRESHOLD_ACTIVE"
| failed: "vb_step THRESHOLD_FAILED THRESHOLD_FAILED"

inductive_cases vb_step_activeE: "vb_step THRESHOLD_ACTIVE s"
inductive_cases vb_step_failedE: "vb_step THRESHOLD_FAILED s"

lemma vb_next_step: "vb_next T ck s p = Some s' \<Longrightarrow> vb_step s s'"
  by (cases s) (auto simp: vb_next_def intro: vb_step.intros split: if_splits bind_splits)

lemma vb_terminal:
  assumes "vb_step\<^sup>*\<^sup>* s s'"
  shows "s = THRESHOLD_ACTIVE \<or> s = THRESHOLD_FAILED \<Longrightarrow> s' = s"
  using assms by (induction rule: rtranclp_induct) (auto elim: vb_step_activeE vb_step_failedE)

text \<open>The state of one boundary and that of the next.\<close>

lemma vb_state_step:
  assumes "tree_ok T" "times_ok T" "0 < Period ck" "boundary T ck (Suc (Suc n)) (Some p)"
    and "parent T (nat (Period ck)) p = Some a"
    and "vb_state T ck (Suc n) (Some a) = Some s" "vb_state T ck (Suc (Suc n)) (Some p) = Some s'"
  shows "vb_step s s'"
proof (cases "GetMedianTimePast T p < BeginTime ck")
  case True
  obtain node where "T p = Some node" using assms(4) by (auto simp: boundary_Some)
  from median_mono [OF assms(1,2) this assms(5)] True have "GetMedianTimePast T a < BeginTime ck" by simp
  with assms(6,7) True show ?thesis by (auto intro: vb_step.intros)
next
  case False
  with assms(5-7) have "vb_next T ck s p = Some s'" by (auto split: bind_splits if_splits)
  then show ?thesis by (rule vb_next_step)
qed

text \<open>A deployment that is locked in was voted for in some period before its timeout.\<close>

lemma vb_locked_voted:
  "vb_state T ck n b = Some s \<Longrightarrow> s = THRESHOLD_LOCKED_IN \<or> s = THRESHOLD_ACTIVE \<Longrightarrow>
   \<exists>p c. vb_count T (Condition ck) (nat (Period ck)) (Some p) = Some c \<and> Threshold ck \<le> int c \<and>
     GetMedianTimePast T p < EndTime ck \<and> (\<exists>d r. b = Some r \<and> parent T d r = Some p)"
proof (induction n arbitrary: b s)
  case (Suc n)
  then obtain r s0 where r: "b = Some r" "\<not> GetMedianTimePast T r < BeginTime ck"
      "vb_state T ck n (if n = 0 then None else parent T (nat (Period ck)) r) = Some s0" "vb_next T ck s0 r = Some s"
    by (auto split: bind_splits if_splits)
  show ?case
  proof (cases "s0 = THRESHOLD_LOCKED_IN \<or> s0 = THRESHOLD_ACTIVE")
    case True
    from Suc.IH [OF r(3) True] obtain p c d r' where
      p: "vb_count T (Condition ck) (nat (Period ck)) (Some p) = Some c" "Threshold ck \<le> int c"
        "GetMedianTimePast T p < EndTime ck" "(if n = 0 then None else parent T (nat (Period ck)) r) = Some r'"
        "parent T d r' = Some p" by blast
    then have "parent T (nat (Period ck) + d) r = Some p" by (auto simp: parent_add split: if_splits)
    with p r(1) show ?thesis by blast
  next
    case False
    then have s0: "s0 = THRESHOLD_STARTED" using r(4) Suc.prems(2)
      by (cases s0) (auto simp: vb_next_def split: if_splits)
    then obtain c where "vb_count T (Condition ck) (nat (Period ck)) (Some r) = Some c" "Threshold ck \<le> int c"
        "GetMedianTimePast T r < EndTime ck"
      using r(4) Suc.prems(2) by (auto simp: vb_next_def split: bind_splits if_splits)
    moreover have "parent T 0 r = Some r" by simp
    ultimately show ?thesis using r(1) by blast
  qed
qed simp

section \<open>Concrete chains\<close>

text \<open>A single chain of blocks with the times \<open>ts\<close>; block \<open>i\<close> has the hash \<open>i + 1\<close> and votes.\<close>

definition chain_idx :: "32 word list \<Rightarrow> blkidx_t" where
  "chain_idx ts = (\<lambda>p. let n = unat p in
     if 0 < n \<and> n \<le> length ts
     then Some (new_CBlockIndex\<lparr>pprev := (if n = 1 then None else Some (p - 1)), nHeight := int n - 1,
       nVersion := 0x20000002, nTime := ts ! (n - 1)\<rparr>)
     else None)"

lemma tree_ok_chain_idx: "tree_ok (chain_idx ts)"
  unfolding tree_ok_def
proof (intro allI impI)
  fix p node assume p: "chain_idx ts p = Some node"
  then have n: "0 < unat p" "unat p \<le> length ts"
    and node: "node = new_CBlockIndex\<lparr>pprev := (if unat p = 1 then None else Some (p - 1)), nHeight := int (unat p) - 1,
       nVersion := 0x20000002, nTime := ts ! (unat p - 1)\<rparr>"
    by (auto simp: chain_idx_def Let_def split: if_splits)
  have "unat (p - 1) = unat p - 1" using n(1) by (simp add: unat_minus_one unat_gt_0)
  then have "\<exists>prev. chain_idx ts (p - 1) = Some prev \<and> nHeight prev = int (unat p) - 2" if "unat p \<noteq> 1"
    using n that by (simp add: chain_idx_def Let_def)
  moreover have "0 \<le> int (unat p) - 2" if "unat p \<noteq> 1" using n(1) that by linarith
  ultimately have "\<exists>prev. chain_idx ts (p - 1) = Some prev \<and> 0 \<le> nHeight prev \<and> int (unat p) - 1 = nHeight prev + 1"
    if "unat p \<noteq> 1" using that by auto
  then show "node_ok (chain_idx ts) node" using n unfolding node_ok_def node by (cases "unat p = 1") auto
qed

definition ck0 :: checker where
  "ck0 = \<lparr>Condition = (\<lambda>node. nVersion node AND 2 \<noteq> 0), BeginTime = 50, EndTime = 1000000, Period = 1, Threshold = 1\<rparr>"

definition ts_back :: "32 word list" where
  "ts_back = [100, 100, 100, 0, 0, 0, 0]"

lemma times_ok_chain_idx:
  assumes "\<forall>i<length ts. 0 < i \<longrightarrow> GetMedianTimePast (chain_idx ts) (of_nat i) < uint (ts ! i)"
  shows "times_ok (chain_idx ts)"
  unfolding times_ok_def
proof (intro allI impI)
  fix p node q assume p: "chain_idx ts p = Some node" "pprev node = Some q"
  then have n: "1 < unat p" "unat p \<le> length ts" "q = p - 1" "nTime node = ts ! (unat p - 1)"
    by (auto simp: chain_idx_def Let_def split: if_splits)
  have "q = of_nat (unat p - 1)" using n(1,3) by (simp add: of_nat_diff)
  with assms [rule_format, of "unat p - 1"] n(1,2,4) show "GetMedianTimePast (chain_idx ts) q < uint (nTime node)" by simp
qed

definition ts_up :: "32 word list" where
  "ts_up = [100, 200, 300, 400]"

lemma times_ok_up: "times_ok (chain_idx ts_up)"
proof (rule times_ok_chain_idx)
  have "GetMedianTimePast (chain_idx ts_up) 1 = 100" "GetMedianTimePast (chain_idx ts_up) 2 = 200"
    "GetMedianTimePast (chain_idx ts_up) 3 = 200" by code_simp+
  moreover have "i = 1 \<or> i = 2 \<or> i = 3" if "i < length ts_up" "0 < i" for i
    using that by (auto simp: ts_up_def)
  moreover have "uint (ts_up ! 1) = 200" "uint (ts_up ! 2) = 300" "uint (ts_up ! 3) = 400"
    by (simp_all add: ts_up_def)
  ultimately show "\<forall>i<length ts_up. 0 < i \<longrightarrow> GetMedianTimePast (chain_idx ts_up) (of_nat i) < uint (ts_up ! i)"
    by fastforce
qed

text \<open>The states of a sequence of queries that share a cache.\<close>

fun vb_queries :: "blkidx_t \<Rightarrow> checker \<Rightarrow> u256 option list \<Rightarrow> vb_cache \<Rightarrow> ThresholdState list option" where
  "vb_queries T ck [] cache = Some []"
| "vb_queries T ck (b # bs) cache = do {
     (s, cache) \<leftarrow> GetStateFor T ck b cache;
     ss \<leftarrow> vb_queries T ck bs cache;
     Some (s # ss) }"

lemma vb_queries_spec:
  assumes "tree_ok T" "0 < Period ck"
  shows "vb_cache_ok T ck cache \<Longrightarrow> \<forall>b\<in>set bs. \<forall>p. b = Some p \<longrightarrow> p \<in> dom T \<Longrightarrow>
    \<exists>ss. vb_queries T ck bs cache = Some ss \<and> map (period_state T ck) bs = map Some ss"
proof (induction bs arbitrary: cache)
  case (Cons b bs)
  obtain s cache' where s: "GetStateFor T ck b cache = Some (s, cache')" "period_state T ck b = Some s" "vb_cache_ok T ck cache'"
    by (rule GetStateFor_spec [OF assms Cons.prems(1), of b]) (use Cons.prems(2) in simp_all)
  from Cons.IH [OF s(3)] Cons.prems(2) obtain ss where
    "vb_queries T ck bs cache' = Some ss" "map (period_state T ck) bs = map Some ss" by auto
  with s show ?case by auto
qed simp

lemma vb_state_later:
  assumes "tree_ok T" "times_ok T" "0 < Period ck"
  shows "boundary T ck (Suc n + k) (Some q) \<Longrightarrow> parent T (k * nat (Period ck)) q = Some a \<Longrightarrow>
    vb_state T ck (Suc n) (Some a) = Some s \<Longrightarrow> \<exists>s'. vb_state T ck (Suc n + k) (Some q) = Some s' \<and> vb_step\<^sup>*\<^sup>* s s'"
proof (induction k arbitrary: q)
  case (Suc k)
  obtain node where q: "T q = Some node" "nHeight node = int (Suc (Suc n + k)) * Period ck - 1"
    using Suc.prems(1) by (auto simp: boundary_Some)
  note b = boundary_back(2) [OF assms(1,3) q]
  obtain r where r: "parent T (nat (Period ck)) q = Some r" "parent T (k * nat (Period ck)) r = Some a"
    using Suc.prems(2) by (auto simp: parent_add split: bind_splits)
  from b r(1) have "boundary T ck (Suc n + k) (Some r)" by simp
  from Suc.IH [OF this r(2) Suc.prems(3)] obtain s1 where
    s1: "vb_state T ck (Suc n + k) (Some r) = Some s1" "vb_step\<^sup>*\<^sup>* s s1" by blast
  obtain s2 where s2: "vb_state T ck (Suc n + Suc k) (Some q) = Some s2"
    using vb_state_total [OF assms(1,3) Suc.prems(1)] by blast
  have "vb_step s1 s2"
    using vb_state_step [OF assms _ r(1), of "n + k" s1 s2] Suc.prems(1) s1(1) s2 by (simp del: vb_state.simps)
  with s1(2) s2 show ?case by (metis rtranclp.rtrancl_into_rtrancl)
qed auto

lemma period_state_boundary:
  assumes "tree_ok T" "0 < Period ck" "T p = Some node" "Period ck \<le> nHeight node + 1"
  obtains n q where "boundary T ck (Suc n) (Some q)" "period_state T ck (Some p) = vb_state T ck (Suc n) (Some q)"
    "parent T (nat ((nHeight node + 1) mod Period ck)) p = Some q" "int (Suc n) = (nHeight node + 1) div Period ck"
proof -
  let ?P = "Period ck" and ?h = "nHeight node"
  have h: "0 \<le> ?h" by (rule tree_ok_height [OF assms(1,3)])
  define m where "m = nat ((?h + 1) div ?P)"
  have "1 \<le> (?h + 1) div ?P" using assms(2,4) zdiv_mono1 [of ?P "?h + 1" ?P] by simp
  then have m: "0 < m" "int m = (?h + 1) div ?P" by (simp_all add: m_def)
  then obtain n where n: "m = Suc n" by (cases m) auto
  have r: "0 \<le> (?h + 1) mod ?P" "(?h + 1) mod ?P \<le> ?h"
    using assms(2,4) h minus_mod_eq_div_mult [of "?h + 1" ?P] m(1) by (simp_all add: pos_mod_bound) (metis add1_zle_eq assms(4) order.strict_trans2 pos_mod_bound zle_add1_eq_le)
  from parent_height [OF assms(1,3), of "nat ((?h + 1) mod ?P)"] r obtain q qn where
    q: "parent T (nat ((?h + 1) mod ?P)) p = Some q" "T q = Some qn" "nHeight qn = ?h - (?h + 1) mod ?P" by auto
  have "nHeight qn = int m * ?P - 1" using q(3) m(2) minus_mod_eq_div_mult [of "?h + 1" ?P] by simp
  then have "boundary T ck (Suc n) (Some q)" using q(2) n by (simp add: boundary_Some)
  moreover have "period_state T ck (Some p) = vb_state T ck (Suc n) (Some q)"
    using assms(3) q(1) unfolding period_state_def Let_def m_def [symmetric] n option.case
    by (simp only: bind.bind_lunit m_def [symmetric] n) simp
  ultimately show ?thesis using that q(1) m(2) n by blast
qed

lemma vb_count_le: "vb_count T c n b = Some k \<Longrightarrow> k \<le> n"
proof (induction n arbitrary: b k)
  case (Suc n)
  then obtain b' k' where "vb_count T c n b' = Some k'" "k \<le> Suc k'" by (auto split: bind_splits if_splits)
  with Suc.IH show ?case by fastforce
qed simp

lemma GetStateFor_uncached:
  assumes "tree_ok T" "0 < Period ck" "T p = Some node"
  shows "\<exists>s cache'. GetStateFor T ck (Some p) Map.empty = Some (s, cache') \<and> period_state T ck (Some p) = Some s"
proof -
  have c: "vb_cache_ok T ck Map.empty" by (simp add: vb_cache_ok_def)
  have "\<forall>x. Some p = Some x \<longrightarrow> x \<in> dom T" using assms(3) by auto
  from GetStateFor_spec [OF assms(1,2) c this] show ?thesis by blast
qed

section \<open>Properties\<close>

text \<open>
  C14: the cache changes no answer. On a well-formed index any sequence of queries that share a cache
  returns, and each answer is the state that the reference computes without one.
\<close>

theorem vb_cache_transparent:
  assumes "tree_ok T" and "0 < Period ck" and "\<forall>b \<in> set bs. \<forall>p. b = Some p \<longrightarrow> p \<in> dom T"
  shows "\<exists>ss. vb_queries T ck bs Map.empty = Some ss \<and> map (period_state T ck) bs = map Some ss"
  using vb_queries_spec [OF assms(1,2) _ assms(3)] by (simp add: vb_cache_ok_def)

theorem vb_cache_transparent_witness:
  "\<exists>ss. vb_queries (chain_idx ts_up) ck0 [Some 4, None, Some 2] Map.empty = Some ss \<and>
     map (period_state (chain_idx ts_up) ck0) [Some 4, None, Some 2] = map Some ss"
proof (rule vb_cache_transparent [OF tree_ok_chain_idx])
  show "0 < Period ck0" by (simp add: ck0_def)
  have "chain_idx ts_up 4 \<noteq> None" "chain_idx ts_up 2 \<noteq> None" by code_simp+
  then show "\<forall>b\<in>set [Some 4, None, Some 2]. \<forall>p. b = Some p \<longrightarrow> p \<in> dom (chain_idx ts_up)" by auto
qed

text \<open>
  Where every block is later than its parent's median time, active and failed are final: once a
  period ends in one of them, every block above it has that state.
\<close>

lemma vb_terminal_final:
  assumes "tree_ok T" and "times_ok T" and "0 < Period ck" and "boundary T ck (Suc n) (Some a)"
    and "vb_state T ck (Suc n) (Some a) = Some s" and "s = THRESHOLD_ACTIVE \<or> s = THRESHOLD_FAILED"
    and "T p = Some node" and "parent T d p = Some a"
  shows "\<exists>cache'. GetStateFor T ck (Some p) Map.empty = Some (s, cache')"
proof -
  let ?P = "Period ck" and ?h = "nHeight node"
  obtain an where a: "T a = Some an" "nHeight an = int (Suc n) * ?P - 1" using assms(4) by (auto simp: boundary_Some)
  have "nHeight an = ?h - int d" using parent_bound [OF assms(1,7,8)] a(1) by simp
  then have d: "int d = (?h + 1) - int (Suc n) * ?P" using a(2) by simp
  have "1 * ?P \<le> int (Suc n) * ?P" using assms(3) by (intro mult_right_mono) auto
  then have "?P \<le> ?h + 1" using d by linarith
  from period_state_boundary [OF assms(1,3,7) this] obtain m q where
    q: "boundary T ck (Suc m) (Some q)" "period_state T ck (Some p) = vb_state T ck (Suc m) (Some q)"
      "parent T (nat ((?h + 1) mod ?P)) p = Some q" "int (Suc m) = (?h + 1) div ?P" .
  have e: "?h + 1 = int (Suc m) * ?P + (?h + 1) mod ?P" unfolding q(4) by simp
  have "int (Suc n) * ?P \<le> ?h + 1" using d by simp
  then have "n \<le> m" using q(4) assms(3) zdiv_mono1 [of "int (Suc n) * ?P" "?h + 1" ?P] by simp
  then obtain k where k: "m = n + k" using le_Suc_ex by blast
  have "int d = int k * ?P + (?h + 1) mod ?P" using d e by (simp add: k algebra_simps)
  then have "int d = int (nat ((?h + 1) mod ?P) + k * nat ?P)" using assms(3) by simp
  then have "d = nat ((?h + 1) mod ?P) + k * nat ?P" by (simp only: of_nat_eq_iff)
  with assms(8) q(3) have "parent T (k * nat ?P) q = Some a" by (simp add: parent_add)
  from vb_state_later [OF assms(1-3) _ this assms(5)] q(1) k obtain s' where
    s': "vb_state T ck (Suc n + k) (Some q) = Some s'" "vb_step\<^sup>*\<^sup>* s s'" by auto
  then have "period_state T ck (Some p) = Some s" using vb_terminal [OF s'(2) assms(6)] q(2) k by simp
  with GetStateFor_uncached [OF assms(1,3,7)] show ?thesis by auto
qed

lemma vb_terminal_final_witness:
  "\<exists>cache'. GetStateFor (chain_idx ts_up) ck0 (Some 4) Map.empty = Some (THRESHOLD_ACTIVE, cache')"
proof -
  let ?T = "chain_idx ts_up"
  have p: "0 < Period ck0" by (simp add: ck0_def)
  have "map_option nHeight (?T 3) = Some 2" by code_simp
  then have b: "boundary ?T ck0 (Suc 2) (Some 3)" by (auto simp: boundary_Some ck0_def)
  have s: "vb_state ?T ck0 (Suc 2) (Some 3) = Some THRESHOLD_ACTIVE" by code_simp
  have d: "parent ?T 1 4 = Some 3" by code_simp
  have "?T 4 \<noteq> None" by code_simp
  then obtain node where node: "?T 4 = Some node" by blast
  show ?thesis by (rule vb_terminal_final [OF tree_ok_chain_idx times_ok_up p b s _ node d]) simp
qed

text \<open>The check of a block's time against its parent's time alone.\<close>

definition drift_ok :: "int \<Rightarrow> blkidx_t \<Rightarrow> bool" where
  "drift_ok drift T \<longleftrightarrow> (\<forall>p node q prev. T p = Some node \<and> pprev node = Some q \<and> T q = Some prev \<longrightarrow>
     uint (nTime prev) - drift < uint (nTime node))"

text \<open>
  The check that SHC and EMC2 make of a block's time, later than the parent's time less a drift
  of at least 900 seconds, does not keep medians from falling: a deployment that was active can be
  defined again further up the same chain.
\<close>

lemma vb_active_can_regress:
  "\<exists>T ck. tree_ok T \<and> drift_ok 900 T \<and> 0 < Period ck \<and> parent T 4 7 = Some 3 \<and>
     vb_state T ck 3 (Some 3) = Some THRESHOLD_ACTIVE \<and> boundary T ck 3 (Some 3) \<and>
     vb_state T ck 7 (Some 7) = Some THRESHOLD_DEFINED \<and> boundary T ck 7 (Some 7) \<and>
     (\<exists>cache'. GetStateFor T ck (Some 7) Map.empty = Some (THRESHOLD_DEFINED, cache'))"
proof -
  let ?T = "chain_idx ts_back"
  have p: "0 < Period ck0" by (simp add: ck0_def)
  have n: "map_option nHeight (?T 3) = Some 2" "map_option nHeight (?T 7) = Some 6" by code_simp+
  have b: "boundary ?T ck0 3 (Some 3)" "boundary ?T ck0 7 (Some 7)" using n by (auto simp: boundary_Some ck0_def)
  have s: "vb_state ?T ck0 3 (Some 3) = Some THRESHOLD_ACTIVE" "vb_state ?T ck0 7 (Some 7) = Some THRESHOLD_DEFINED"
    "parent ?T 4 7 = Some 3" "period_state ?T ck0 (Some 7) = Some THRESHOLD_DEFINED" by code_simp+
  have "\<forall>x\<in>set ts_back. uint x < 101" by (simp add: ts_back_def)
  then have all: "uint (ts_back ! i) < 101" if "i < length ts_back" for i using that by simp
  have "uint (nTime node) < 101" if "?T q = Some node" for q node
  proof -
    have "0 < unat q" "unat q \<le> length ts_back" "nTime node = ts_back ! (unat q - 1)"
      using that by (auto simp: chain_idx_def Let_def split: if_splits)
    with all [of "unat q - 1"] show ?thesis by simp
  qed
  moreover have "0 \<le> uint (nTime node)" for node :: CBlockIndex by simp
  ultimately have "drift_ok 900 ?T" unfolding drift_ok_def by (smt (verit))
  moreover have "\<exists>cache'. GetStateFor ?T ck0 (Some 7) Map.empty = Some (THRESHOLD_DEFINED, cache')"
  proof -
    obtain node where "?T 7 = Some node" using n(2) by auto
    from GetStateFor_uncached [OF tree_ok_chain_idx p this] s(4) show ?thesis by auto
  qed
  ultimately show ?thesis using tree_ok_chain_idx p b s by blast
qed

text \<open>
  C32: no activation without votes: when the answer is locked in or active, some period on the chain
  below had at least the threshold of votes and ended before the timeout.
\<close>

theorem vb_active_was_voted:
  assumes "tree_ok T" and "0 < Period ck" and "T p = Some node"
    and "GetStateFor T ck (Some p) Map.empty = Some (s, cache')" and "s = THRESHOLD_LOCKED_IN \<or> s = THRESHOLD_ACTIVE"
  shows "\<exists>d q c. parent T d p = Some q \<and> vb_count T (Condition ck) (nat (Period ck)) (Some q) = Some c \<and>
    Threshold ck \<le> int c \<and> c \<le> nat (Period ck) \<and> GetMedianTimePast T q < EndTime ck"
proof -
  have ps: "period_state T ck (Some p) = Some s" using GetStateFor_uncached [OF assms(1-3)] assms(4) by auto
  have big: "Period ck \<le> nHeight node + 1"
  proof (rule ccontr)
    assume "\<not> Period ck \<le> nHeight node + 1"
    then have "(nHeight node + 1) div Period ck = 0" using tree_ok_height [OF assms(1,3)] by simp
    with ps assms(3,5) show False by (auto simp: period_state_def)
  qed
  from period_state_boundary [OF assms(1-3) big] obtain n q where
    q: "period_state T ck (Some p) = vb_state T ck (Suc n) (Some q)" "parent T (nat ((nHeight node + 1) mod Period ck)) p = Some q" by blast
  with ps have "vb_state T ck (Suc n) (Some q) = Some s" by simp
  from vb_locked_voted [OF this assms(5)] obtain r c d where
    r: "vb_count T (Condition ck) (nat (Period ck)) (Some r) = Some c" "Threshold ck \<le> int c"
      "GetMedianTimePast T r < EndTime ck" "parent T d q = Some r" by blast
  have "parent T (nat ((nHeight node + 1) mod Period ck) + d) p = Some r" using q(2) r(4) by (simp add: parent_add)
  moreover have "c \<le> nat (Period ck)" using r(1)
    by (metis vb_count_le)
  ultimately show ?thesis using r by blast
qed

theorem vb_active_was_voted_witness:
  "\<exists>d q c. parent (chain_idx ts_up) d 4 = Some q \<and> vb_count (chain_idx ts_up) (Condition ck0) 1 (Some q) = Some c \<and> 1 \<le> c"
proof -
  let ?T = "chain_idx ts_up"
  have p: "0 < Period ck0" by (simp add: ck0_def)
  have "?T 4 \<noteq> None" by code_simp
  then obtain node where node: "?T 4 = Some node" by blast
  have ps: "period_state ?T ck0 (Some 4) = Some THRESHOLD_ACTIVE" by code_simp
  from GetStateFor_uncached [OF tree_ok_chain_idx p node] ps obtain cache' where
    "GetStateFor ?T ck0 (Some 4) Map.empty = Some (THRESHOLD_ACTIVE, cache')" by auto
  from vb_active_was_voted [OF tree_ok_chain_idx p node this] show ?thesis by (force simp: ck0_def)
qed

end
