(* ===== verification/Reorg.thy ===== *)
theory Reorg
  imports Chain_Index "HOL-Library.Multiset"
begin

text \<open>
  The change of the best chain (\<^verbatim>\<open>GetCommitBranches\<close> and \<^verbatim>\<open>core_CommitBlock\<close> of \<^verbatim>\<open>server/block.cpp\<close>, the
  build without LevelDB): the blocks from the old tip to the fork are disconnected, those from the
  fork to the new tip connected, and the forward pointers of the index follow the new branch.
\<close>

section \<open>The branches\<close>

text \<open>
  A result of \<^term>\<open>Some None\<close> is the return value \<open>false\<close>; \<^term>\<open>None\<close> is a loop that does not end or a
  dereferenced null pointer.
\<close>

partial_function (option) lower_to :: "blkidx_t \<Rightarrow> int \<Rightarrow> u256 \<Rightarrow> u256 option option" where
  "lower_to T height plonger = do {
     node \<leftarrow> T plonger;
     if nHeight node > height then
       (case pprev node of None \<Rightarrow> Some None | Some p \<Rightarrow> lower_to T height p)
     else Some (Some plonger) }"

partial_function (option) find_fork :: "blkidx_t \<Rightarrow> u256 \<Rightarrow> u256 \<Rightarrow> u256 option option" where
  "find_fork T pfork plonger =
     (if pfork = plonger then Some (Some pfork)
      else do {
        node \<leftarrow> T pfork;
        r \<leftarrow> lower_to T (nHeight node) plonger;
        case r of
          None \<Rightarrow> Some None
        | Some plonger \<Rightarrow>
            if pfork = plonger then Some (Some pfork)
            else case pprev node of None \<Rightarrow> Some None | Some pfork \<Rightarrow> find_fork T pfork plonger })"

partial_function (option) branch_to :: "blkidx_t \<Rightarrow> u256 option \<Rightarrow> u256 option \<Rightarrow> u256 list option" where
  "branch_to T pfork pindex =
     (if pindex = pfork then Some []
      else do {
        p \<leftarrow> pindex;
        node \<leftarrow> T p;
        rest \<leftarrow> branch_to T pfork (pprev node);
        Some (p # rest) })"

text \<open>The result is the pair of \<open>vConnect\<close> and \<open>vDisconnect\<close>.\<close>

definition GetCommitBranches :: "blkidx_t \<Rightarrow> u256 option \<Rightarrow> u256 \<Rightarrow> (u256 list \<times> u256 list) option option" where
  "GetCommitBranches T pbest pindexNew = do {
     r \<leftarrow> (case pbest of None \<Rightarrow> Some (Some None)
           | Some b \<Rightarrow> map_option (map_option Some) (find_fork T b pindexNew));
     case r of
       None \<Rightarrow> Some None
     | Some pfork \<Rightarrow> do {
         vDisconnect \<leftarrow> branch_to T pfork pbest;
         vConnect \<leftarrow> branch_to T pfork (Some pindexNew);
         Some (Some (rev vConnect, vDisconnect)) } }"

section \<open>The commit\<close>

text \<open>
  What the commit calls: the databases and the pool of pending transactions are the state \<open>'s\<close>, and
  the methods of the coin's block class act on it. \<open>op_addr\<close> is the address of an index node in
  memory.
\<close>

record ('blk, 's) commit_ops =
  op_block :: "'s \<Rightarrow> u256 \<Rightarrow> 'blk option"
  op_arch_block :: "'s \<Rightarrow> u256 \<Rightarrow> 'blk option"
  op_write_arch :: "'blk \<Rightarrow> 's \<Rightarrow> 's"
  op_disconnect :: "u256 \<Rightarrow> 'blk \<Rightarrow> 's \<Rightarrow> bool \<times> 's"
  op_connect :: "u256 \<Rightarrow> 'blk \<Rightarrow> 's \<Rightarrow> bool \<times> 's"
  op_write_best :: "u256 \<Rightarrow> 's \<Rightarrow> 's"
  op_pool_add :: "'blk \<Rightarrow> 's \<Rightarrow> 's"
  op_pool_commit :: "'blk \<Rightarrow> 's \<Rightarrow> 's"
  op_invalid :: "u256 \<Rightarrow> 's \<Rightarrow> 's"
  op_addr :: "u256 \<Rightarrow> nat"

definition commit_read :: "('blk, 's) commit_ops \<Rightarrow> 's \<Rightarrow> u256 \<Rightarrow> 'blk option" where
  "commit_read ops s hash = (case op_block ops s hash of None \<Rightarrow> op_arch_block ops s hash | Some b \<Rightarrow> Some b)"

fun commit_load :: "(u256 \<Rightarrow> 'blk option) \<Rightarrow> u256 list \<Rightarrow> (u256 \<times> 'blk) list option" where
  "commit_load read [] = Some []"
| "commit_load read (p # ps) = do { b \<leftarrow> read p; rest \<leftarrow> commit_load read ps; Some ((p, b) # rest) }"

text \<open>The loops over a \<open>map\<close> from nodes to blocks visit the nodes in the order of their addresses.\<close>

definition by_address :: "('blk, 's) commit_ops \<Rightarrow> (u256 \<times> 'blk) list \<Rightarrow> (u256 \<times> 'blk) list" where
  "by_address ops = sort_key (\<lambda>(p, b). op_addr ops p)"

fun commit_each :: "(u256 \<Rightarrow> 'blk \<Rightarrow> 's \<Rightarrow> bool \<times> 's) \<Rightarrow> (u256 \<times> 'blk) list \<Rightarrow> 's \<Rightarrow> bool \<times> 's" where
  "commit_each f [] s = (True, s)"
| "commit_each f ((p, b) # rs) s = (case f p b s of (ok, s) \<Rightarrow> if ok then commit_each f rs s else (False, s))"

fun unlink_next :: "u256 list \<Rightarrow> blkidx_t \<Rightarrow> blkidx_t" where
  "unlink_next [] T = T"
| "unlink_next (p # ps) T =
     unlink_next ps
       (case Option.bind (T p) pprev of
          None \<Rightarrow> T
        | Some q \<Rightarrow> T(q := map_option (\<lambda>n. n\<lparr>pnext := None\<rparr>) (T q)))"

fun link_next :: "u256 list \<Rightarrow> blkidx_t \<Rightarrow> blkidx_t" where
  "link_next [] T = T"
| "link_next (p # ps) T =
     link_next ps
       (case Option.bind (T p) pprev of
          None \<Rightarrow> T
        | Some q \<Rightarrow> T(q := map_option (\<lambda>n. n\<lparr>pnext := Some p\<rparr>) (T q)))"

definition commit_fail :: "('blk, 's) commit_ops \<Rightarrow> u256 \<Rightarrow> blkidx_t \<Rightarrow> 's \<Rightarrow> (bool \<times> blkidx_t \<times> 's) option" where
  "commit_fail ops pindexNew T s = Some (False, T, op_invalid ops pindexNew s)"

definition core_CommitBlock :: "('blk, 's) commit_ops \<Rightarrow> u256 option \<Rightarrow> 'blk \<Rightarrow> u256 \<Rightarrow> u256 \<Rightarrow> blkidx_t \<Rightarrow> 's \<Rightarrow>
    (bool \<times> blkidx_t \<times> 's) option" where
  "core_CommitBlock ops pbest pblock hashPrevBlock pindexNew T s = do {
     branches \<leftarrow> GetCommitBranches T pbest pindexNew;
     case branches of
       None \<Rightarrow> Some (False, T, s)
     | Some (vConnect, vDisconnect) \<Rightarrow> do {
         best \<leftarrow> pbest;
         let s = (if hashPrevBlock \<noteq> best then op_write_arch ops pblock s else s);
         case commit_load (commit_read ops s) vDisconnect of
           None \<Rightarrow> commit_fail ops pindexNew T s
         | Some mDiscon \<Rightarrow>
             case commit_load (\<lambda>p. if p = pindexNew then Some pblock else commit_read ops s p) vConnect of
               None \<Rightarrow> commit_fail ops pindexNew T s
             | Some mConnect \<Rightarrow>
                 let (ok, s) = commit_each (op_disconnect ops) (by_address ops mDiscon) s
                 in if \<not> ok then commit_fail ops pindexNew T s
                    else let (ok, s) = commit_each (op_connect ops) (by_address ops mConnect) s
                      in if \<not> ok then commit_fail ops pindexNew T s
                         else let s = op_write_best ops pindexNew s;
                                  T = link_next vConnect (unlink_next vDisconnect T);
                                  s = fold (\<lambda>(p, b). op_pool_add ops b) (by_address ops mDiscon) s;
                                  s = fold (\<lambda>(p, b). op_pool_commit ops b) (by_address ops mConnect) s
                              in Some (True, T, s) } }"

section \<open>The branches meet at the fork\<close>

text \<open>
  \<open>anc T p c\<close>: \<open>c\<close> is \<open>p\<close> or one of its ancestors. \<open>path T p n\<close>: the \<open>n\<close> nodes from \<open>p\<close> downwards.
\<close>

definition anc :: "blkidx_t \<Rightarrow> u256 \<Rightarrow> u256 \<Rightarrow> bool" where
  "anc T p c \<longleftrightarrow> (\<exists>n. parent T n p = Some c)"

definition path :: "blkidx_t \<Rightarrow> u256 \<Rightarrow> nat \<Rightarrow> u256 list" where
  "path T p n = map (\<lambda>k. the (parent T k p)) [0..<n]"

lemma anc_refl [simp]: "anc T p p"
  unfolding anc_def by (rule exI [of _ 0]) simp

lemma ancE:
  assumes "tree_ok T" "T p = Some node" "anc T p c"
  obtains cn where "T c = Some cn" "0 \<le> nHeight cn" "nHeight cn \<le> nHeight node"
    "parent T (nat (nHeight node - nHeight cn)) p = Some c"
proof -
  obtain n where n: "parent T n p = Some c" using assms(3) by (auto simp: anc_def)
  from parent_bound [OF assms(1,2) n] obtain cn where
    cn: "T c = Some cn" "int n \<le> nHeight node" "nHeight cn = nHeight node - int n" by auto
  then have "nat (nHeight node - nHeight cn) = n" by simp
  with cn n tree_ok_height [OF assms(1) cn(1)] that show ?thesis by simp
qed

lemma anc_eq:
  assumes "tree_ok T" "T p = Some node" "anc T p c" "anc T p d" "height_of T c = height_of T d"
  shows "c = d"
proof -
  obtain cn where c: "T c = Some cn" "parent T (nat (nHeight node - nHeight cn)) p = Some c"
    by (rule ancE [OF assms(1-3)])
  obtain dn where d: "T d = Some dn" "parent T (nat (nHeight node - nHeight dn)) p = Some d"
    by (rule ancE [OF assms(1,2,4)])
  from assms(5) c d show ?thesis by simp
qed

lemma anc_trans: "anc T p c \<Longrightarrow> anc T c d \<Longrightarrow> anc T p d"
  unfolding anc_def by (metis bind.bind_lunit parent_add)

lemma anc_below:
  assumes "tree_ok T" "T p = Some node" "anc T p c" "anc T p d" "height_of T d \<le> height_of T c"
  shows "anc T c d"
proof -
  obtain cn where c: "T c = Some cn" "nHeight cn \<le> nHeight node" "parent T (nat (nHeight node - nHeight cn)) p = Some c"
    by (rule ancE [OF assms(1-3)])
  obtain dn where d: "T d = Some dn" "parent T (nat (nHeight node - nHeight dn)) p = Some d"
    by (rule ancE [OF assms(1,2,4)])
  have "nat (nHeight node - nHeight dn) = nat (nHeight node - nHeight cn) + nat (nHeight cn - nHeight dn)"
    using assms(5) c(1,2) d(1) by simp
  with c(3) d(2) have "parent T (nat (nHeight cn - nHeight dn)) c = Some d" by (simp add: parent_add)
  then show ?thesis by (auto simp: anc_def)
qed

lemma lower_to_spec:
  assumes "tree_ok T" "0 \<le> height"
  shows "T p = Some node \<Longrightarrow> \<exists>q qn. lower_to T height p = Some (Some q) \<and> anc T p q \<and> T q = Some qn \<and>
    nHeight qn = min height (nHeight node)"
proof (induction "nat (nHeight node)" arbitrary: p node rule: less_induct)
  case less
  show ?case
  proof (cases "nHeight node > height")
    case False
    with less.prems show ?thesis by (subst lower_to.simps) (auto simp: min_def)
  next
    case True
    then have pos: "0 < nHeight node" using assms(2) by simp
    obtain r prev where r: "pprev node = Some r" "T r = Some prev" "nHeight prev = nHeight node - 1"
      by (rule tree_ok_parent [OF assms(1) less.prems pos])
    have a: "anc T p r" unfolding anc_def by (rule exI [of _ 1]) (simp add: less.prems r(1))
    from less.hyps [of prev r] r pos obtain q qn where
      q: "lower_to T height r = Some (Some q)" "anc T r q" "T q = Some qn" "nHeight qn = min height (nHeight prev)" by auto
    have "lower_to T height p = Some (Some q)" using True less.prems r(1) q(1) by (subst lower_to.simps) simp
    moreover have "nHeight qn = min height (nHeight node)" using q(4) r(3) True by simp
    ultimately show ?thesis using anc_trans [OF a q(2)] q(3) by blast
  qed
qed

text \<open>With a common ancestor the search ends at the highest one.\<close>

lemma find_fork_spec:
  assumes "tree_ok T"
  shows "T f = Some fn \<Longrightarrow> T l = Some ln \<Longrightarrow> anc T f c \<Longrightarrow> anc T l c \<Longrightarrow>
    \<exists>g. find_fork T f l = Some (Some g) \<and> anc T f g \<and> anc T l g \<and>
      (\<forall>d. anc T f d \<longrightarrow> anc T l d \<longrightarrow> height_of T d \<le> height_of T g)"
proof (induction "nat (nHeight fn)" arbitrary: f fn l ln rule: less_induct)
  case less
  have top: "height_of T d \<le> nHeight fn" if "anc T f d" for d
    by (rule ancE [OF assms less.prems(1) that]) simp
  show ?case
  proof (cases "f = l")
    case True
    then show ?thesis using less.prems top by (subst find_fork.simps) auto
  next
    case False
    have h: "0 \<le> nHeight fn" by (rule tree_ok_height [OF assms less.prems(1)])
    from lower_to_spec [OF assms h less.prems(2)] obtain m mn where
      m: "lower_to T (nHeight fn) l = Some (Some m)" "anc T l m" "T m = Some mn" "nHeight mn = min (nHeight fn) (nHeight ln)"
      by blast
    have e: "find_fork T f l = (if f = m then Some (Some f)
        else case pprev fn of None \<Rightarrow> Some None | Some p \<Rightarrow> find_fork T p m)"
      using False less.prems(1) m(1) by (subst find_fork.simps) simp
    show ?thesis
    proof (cases "f = m")
      case True
      then show ?thesis using e less.prems(1) m(2) top by auto
    next
      case ne: False
      have com: "anc T m d" if d: "anc T f d" "anc T l d" for d
      proof (rule anc_below [OF assms less.prems(2) m(2) d(2)])
        have "height_of T d \<le> nHeight ln" by (rule ancE [OF assms less.prems(2) d(2)]) simp
        then show "height_of T d \<le> height_of T m" using top [OF d(1)] m(3,4) by simp
      qed
      have low: "height_of T d < nHeight fn" if d: "anc T f d" "anc T l d" for d
      proof (rule ccontr)
        assume "\<not> height_of T d < nHeight fn"
        then have hd: "height_of T d = nHeight fn" using top [OF d(1)] by simp
        then have "d = f" using anc_eq [OF assms less.prems(1) d(1) anc_refl] less.prems(1) by simp
        moreover have "height_of T d \<le> height_of T m" by (rule ancE [OF assms m(3) com [OF d]]) (simp add: m(3))
        then have "height_of T m = height_of T d" using hd m(3,4) by simp
        then have "m = d" using anc_eq [OF assms less.prems(2) m(2) d(2)] by simp
        ultimately show False using ne by simp
      qed
      have "0 \<le> height_of T c" by (rule ancE [OF assms less.prems(1,3)]) simp
      then have pos: "0 < nHeight fn" using low [OF less.prems(3,4)] by simp
      obtain r prev where r: "pprev fn = Some r" "T r = Some prev" "nHeight prev = nHeight fn - 1"
        by (rule tree_ok_parent [OF assms less.prems(1) pos])
      have fr: "anc T f r" unfolding anc_def by (rule exI [of _ 1]) (simp add: less.prems(1) r(1))
      have com': "anc T r d" if d: "anc T f d" "anc T l d" for d
        by (rule anc_below [OF assms less.prems(1) fr d(1)]) (use low [OF d] r in simp)
      from less.hyps [OF _ r(2) m(3) com' [OF less.prems(3,4)] com [OF less.prems(3,4)]] r(3) pos obtain g where
        g: "find_fork T r m = Some (Some g)" "anc T r g" "anc T m g"
          "\<forall>d. anc T r d \<longrightarrow> anc T m d \<longrightarrow> height_of T d \<le> height_of T g" by auto
      have "find_fork T f l = Some (Some g)" using e ne r(1) g(1) by simp
      moreover have "anc T f g" "anc T l g" using anc_trans fr m(2) g(2,3) by blast+
      ultimately show ?thesis using g(4) com com' by blast
    qed
  qed
qed

lemma branch_to_path:
  assumes "tree_ok T"
  shows "T p = Some node \<Longrightarrow> parent T n p = Some g \<Longrightarrow> branch_to T (Some g) (Some p) = Some (path T p n)"
proof (induction n arbitrary: p node)
  case 0
  then show ?case by (subst branch_to.simps) (simp add: path_def)
next
  case (Suc n)
  then obtain q where q: "pprev node = Some q" "parent T n q = Some g" by (auto split: bind_splits)
  then obtain prev where prev: "T q = Some prev"
    using tree_okD [OF assms Suc.prems(1)] by (auto simp: node_ok_def)
  have "p \<noteq> g"
    using parent_bound [OF assms Suc.prems] Suc.prems(1) by auto
  moreover have "path T p (Suc n) = p # path T q n"
    using Suc.prems(1) q(1) unfolding path_def upt_conv_Cons [OF zero_less_Suc] map_Suc_upt [symmetric] by simp
  ultimately show ?case
    using Suc.IH [OF prev q(2)] Suc.prems(1) q(1) by (subst branch_to.simps) simp
qed

lemma parent_defined:
  assumes "tree_ok T" "T p = Some node" "parent T n p = Some g" "k \<le> n"
  obtains q where "parent T k p = Some q" "q \<in> dom T" "height_of T q = nHeight node - int k"
proof -
  have "int k \<le> nHeight node" using parent_bound [OF assms(1-3)] assms(4) by simp
  from parent_height [OF assms(1,2) this] that show ?thesis by fastforce
qed

lemma path_height:
  assumes "tree_ok T" "T p = Some node" "parent T n p = Some g" "k < n"
  shows "path T p n ! k \<in> dom T" "height_of T (path T p n ! k) = nHeight node - int k"
    "parent T k p = Some (path T p n ! k)"
proof -
  have kn: "k \<le> n" using assms(4) by simp
  obtain q where "parent T k p = Some q" "q \<in> dom T" "height_of T q = nHeight node - int k"
    by (rule parent_defined [OF assms(1-3) kn])
  with assms(4) show "path T p n ! k \<in> dom T" "height_of T (path T p n ! k) = nHeight node - int k"
    "parent T k p = Some (path T p n ! k)" by (simp_all add: path_def)
qed

lemma length_path [simp]: "length (path T p n) = n"
  by (simp add: path_def)

lemma GetCommitBranches_spec:
  assumes "tree_ok T" "T b = Some bn" "T p = Some pn" "anc T b c" "anc T p c"
  obtains i j g where "GetCommitBranches T (Some b) p = Some (Some (rev (path T p j), path T b i))"
    "parent T i b = Some g" "parent T j p = Some g" "set (path T p j) \<inter> set (path T b i) = {}"
proof -
  from find_fork_spec [OF assms] obtain g where
    g: "find_fork T b p = Some (Some g)" "anc T b g" "anc T p g"
      "\<forall>d. anc T b d \<longrightarrow> anc T p d \<longrightarrow> height_of T d \<le> height_of T g" by blast
  obtain i j where ij: "parent T i b = Some g" "parent T j p = Some g" using g(2,3) by (auto simp: anc_def)
  have "GetCommitBranches T (Some b) p = Some (Some (rev (path T p j), path T b i))"
    using g(1) branch_to_path [OF assms(1,2) ij(1)] branch_to_path [OF assms(1,3) ij(2)]
    by (simp add: GetCommitBranches_def)
  moreover have "set (path T p j) \<inter> set (path T b i) = {}"
  proof (rule ccontr)
    assume "set (path T p j) \<inter> set (path T b i) \<noteq> {}"
    then obtain x k l where x: "x = path T b i ! k" "k < i" "x = path T p j ! l" "l < j"
      by (fastforce simp: in_set_conv_nth)
    have "anc T b x" "anc T p x"
      using path_height(3) [OF assms(1,2) ij(1) x(2)] path_height(3) [OF assms(1,3) ij(2) x(4)] x
      by (auto simp: anc_def)
    then have "height_of T x \<le> height_of T g" using g(4) by blast
    moreover have "height_of T x = nHeight bn - int k" using path_height(2) [OF assms(1,2) ij(1) x(2)] x(1) by simp
    moreover have "height_of T g = nHeight bn - int i" using parent_bound [OF assms(1,2) ij(1)] by simp
    ultimately show False using x(2) by simp
  qed
  ultimately show ?thesis using that ij by blast
qed

section \<open>The order of the calls\<close>

lemma commit_load_fst: "commit_load read ps = Some rs \<Longrightarrow> map fst rs = ps"
  by (induction ps arbitrary: rs) (auto split: bind_splits)

text \<open>Every node was allocated at a higher address than its parent, which is in the index before it.\<close>

definition allocated_upwards :: "('blk, 's) commit_ops \<Rightarrow> blkidx_t \<Rightarrow> bool" where
  "allocated_upwards ops T \<longleftrightarrow>
     (\<forall>p node q. T p = Some node \<and> pprev node = Some q \<longrightarrow> op_addr ops q < op_addr ops p)"

lemma path_addresses:
  assumes "tree_ok T" "T p = Some node" "parent T n p = Some g" "allocated_upwards ops T"
  shows "sorted_wrt (\<lambda>x y. op_addr ops y < op_addr ops x) (path T p n)"
proof -
  have "op_addr ops (path T p n ! Suc k) < op_addr ops (path T p n ! k)" if k: "Suc k < n" for k
  proof -
    have k': "k < n" using k by simp
    obtain kn where kn: "T (path T p n ! k) = Some kn" using path_height(1) [OF assms(1-3) k'] by blast
    have "parent T (Suc k) p = Some (path T p n ! Suc k)" by (rule path_height(3) [OF assms(1-3) k])
    then have "pprev kn = Some (path T p n ! Suc k)"
      using path_height(3) [OF assms(1-3) k'] parent_add [of T k "Suc 0" p] kn by (auto split: bind_splits)
    with kn assms(4) show ?thesis by (simp add: allocated_upwards_def)
  qed
  moreover have "transp (\<lambda>x y. op_addr ops y < op_addr ops x)" by (rule transpI) simp
  ultimately show ?thesis by (simp add: sorted_wrt_iff_nth_Suc_transp)
qed

lemma by_address_down:
  assumes "sorted_wrt (\<lambda>x y. op_addr ops y < op_addr ops x) (map fst rs)"
  shows "by_address ops rs = rev rs" "by_address ops (rev rs) = rev rs"
proof -
  let ?f = "\<lambda>(p, b). op_addr ops p"
  have w: "sorted_wrt (\<lambda>x y. ?f y < ?f x) rs" using assms by (simp add: sorted_wrt_map case_prod_beta)
  then have "sorted_wrt (\<lambda>x y. ?f x < ?f y) (rev rs)" by (simp add: sorted_wrt_rev)
  then have s: "sorted_wrt (<) (map ?f (rev rs))" by (simp only: sorted_wrt_map)
  then have "distinct (map ?f (rev rs))" "sorted (map ?f (rev rs))" by (auto simp: strict_sorted_iff)
  then have i: "inj_on ?f (set rs)" and o: "sorted (map ?f (rev rs))"
    by (simp_all only: distinct_map set_rev)
  show "by_address ops rs = rev rs" unfolding by_address_def
    by (rule sort_key_inj_key_eq [OF _ i o]) simp
  show "by_address ops (rev rs) = rev rs" unfolding by_address_def
    by (rule sort_key_inj_key_eq [OF _ _ o]) (use i in simp_all)
qed

text \<open>
  A coin whose methods only record their calls: \<open>Inl\<close> a disconnected, \<open>Inr\<close> a connected node.
\<close>

definition log_ops :: "(u256 \<Rightarrow> nat) \<Rightarrow> (unit, (u256 + u256) list) commit_ops" where
  "log_ops addr = \<lparr>op_block = (\<lambda>_ _. Some ()), op_arch_block = (\<lambda>_ _. None), op_write_arch = (\<lambda>_ s. s),
     op_disconnect = (\<lambda>p _ s. (True, s @ [Inl p])), op_connect = (\<lambda>p _ s. (True, s @ [Inr p])),
     op_write_best = (\<lambda>_ s. s), op_pool_add = (\<lambda>_ s. s), op_pool_commit = (\<lambda>_ s. s),
     op_invalid = (\<lambda>_ s. s), op_addr = addr\<rparr>"

lemma commit_each_log:
  "commit_each (op_disconnect (log_ops addr)) rs s = (True, s @ map (Inl \<circ> fst) rs)"
  "commit_each (op_connect (log_ops addr)) rs s = (True, s @ map (Inr \<circ> fst) rs)"
  by (induction rs arbitrary: s) (auto simp: log_ops_def)

lemma commit_load_log:
  "commit_load (commit_read (log_ops addr) s) ps = Some (map (\<lambda>p. (p, ())) ps)"
  "commit_load (\<lambda>p. if p = x then Some () else commit_read (log_ops addr) s p) ps = Some (map (\<lambda>p. (p, ())) ps)"
  by (induction ps) (auto simp: commit_read_def log_ops_def)

lemma core_CommitBlock_log:
  assumes "GetCommitBranches T (Some b) p = Some (Some (vC, vD))"
  shows "core_CommitBlock (log_ops addr) (Some b) () prev p T [] =
    Some (True, link_next vC (unlink_next vD T),
      map (Inl \<circ> fst) (by_address (log_ops addr) (map (\<lambda>p. (p, ())) vD)) @
      map (Inr \<circ> fst) (by_address (log_ops addr) (map (\<lambda>p. (p, ())) vC)))"
proof -
  have f: "fold (\<lambda>(p, b). op_pool_add (log_ops addr) b) rs s = s" "fold (\<lambda>(p, b). op_pool_commit (log_ops addr) b) rs s = s"
    for rs s by (induction rs) (auto simp: log_ops_def)
  have w: "op_write_arch (log_ops addr) x s = s" "op_write_best (log_ops addr) h s = s" for x s h
    by (simp_all add: log_ops_def)
  show ?thesis
    using assms by (simp add: core_CommitBlock_def commit_load_log commit_each_log f w)
qed

lemma commit_order_log:
  assumes "tree_ok T" "T b = Some bn" "T p = Some pn" "parent T i b = Some g" "parent T j p = Some g"
    and "GetCommitBranches T (Some b) p = Some (Some (rev (path T p j), path T b i))"
    and "allocated_upwards (log_ops addr) T"
  shows "\<exists>T'. core_CommitBlock (log_ops addr) (Some b) () prev p T [] =
    Some (True, T', map Inl (rev (path T b i)) @ map Inr (rev (path T p j)))"
proof -
  have m: "map fst (map (\<lambda>p. (p, ())) xs) = xs" for xs :: "u256 list" by (induction xs) auto
  have d: "by_address (log_ops addr) (map (\<lambda>p. (p, ())) (path T b i)) = rev (map (\<lambda>p. (p, ())) (path T b i))"
    by (rule by_address_down) (simp only: m path_addresses [OF assms(1,2,4,7)])
  have c: "by_address (log_ops addr) (rev (map (\<lambda>p. (p, ())) (path T p j))) = rev (map (\<lambda>p. (p, ())) (path T p j))"
    by (rule by_address_down) (simp only: m path_addresses [OF assms(1,3,5,7)])
  show ?thesis
    using core_CommitBlock_log [OF assms(6), of addr prev] d c by (simp add: rev_map comp_def)
qed

section \<open>The forward pointers\<close>

text \<open>What the two loops change is only \<open>pnext\<close>.\<close>

definition same_but_next :: "blkidx_t \<Rightarrow> blkidx_t \<Rightarrow> bool" where
  "same_but_next T T' \<longleftrightarrow> (\<forall>p. map_option (pnext_update (\<lambda>_. None)) (T' p) = map_option (pnext_update (\<lambda>_. None)) (T p))"

lemma same_but_next_refl [simp]: "same_but_next T T"
  by (simp add: same_but_next_def)

lemma same_but_next_trans: "same_but_next T T1 \<Longrightarrow> same_but_next T1 T2 \<Longrightarrow> same_but_next T T2"
  by (simp add: same_but_next_def)

lemma same_but_next_update: "same_but_next T (T(q := map_option (\<lambda>n. n\<lparr>pnext := x\<rparr>) (T q)))"
  by (simp add: same_but_next_def option.map_comp comp_def)

lemma same_but_nextD:
  assumes "same_but_next T T'"
  shows "Option.bind (T' p) pprev = Option.bind (T p) pprev" "p \<in> dom T' \<longleftrightarrow> p \<in> dom T"
    "map_option nHeight (T' p) = map_option nHeight (T p)"
proof -
  have e: "map_option (pnext_update (\<lambda>_. None)) (T' p) = map_option (pnext_update (\<lambda>_. None)) (T p)"
    using assms by (simp add: same_but_next_def)
  have f: "pprev n' = pprev n" "nHeight n' = nHeight n" if "n'\<lparr>pnext := None\<rparr> = n\<lparr>pnext := None\<rparr>" for n n' :: CBlockIndex
    using arg_cong [OF that, of pprev] arg_cong [OF that, of nHeight] by simp_all
  have "(T p = None \<and> T' p = None) \<or> (\<exists>n n'. T p = Some n \<and> T' p = Some n' \<and> pprev n' = pprev n \<and> nHeight n' = nHeight n)"
  proof (cases "T p")
    case None
    then have "map_option (pnext_update (\<lambda>_. None)) (T' p) = None" using e by simp
    with None show ?thesis by (simp only: option.map_disc_iff simp_thms)
  next
    case (Some n)
    then have "map_option (pnext_update (\<lambda>_. None)) (T' p) = Some (n\<lparr>pnext := None\<rparr>)" using e by simp
    then obtain n' where n': "T' p = Some n'" "n'\<lparr>pnext := None\<rparr> = n\<lparr>pnext := None\<rparr>" by (rule map_option_eq_Some [THEN iffD1, THEN exE]) blast
    with Some f [OF n'(2)] show ?thesis by blast
  qed
  then show "p \<in> dom T' \<longleftrightarrow> p \<in> dom T" "Option.bind (T' p) pprev = Option.bind (T p) pprev"
    "map_option nHeight (T' p) = map_option nHeight (T p)" by auto
qed

lemma unlink_next_same: "same_but_next T (unlink_next ps T)"
  by (induction ps T rule: unlink_next.induct)
     (auto simp del: fun_upd_apply split: option.split intro: same_but_next_trans [OF same_but_next_update])

lemma link_next_same: "same_but_next T (link_next ps T)"
  by (induction ps T rule: link_next.induct)
     (auto simp del: fun_upd_apply split: option.split intro: same_but_next_trans [OF same_but_next_update])

lemma link_next_other: "(\<forall>p\<in>set ps. Option.bind (T p) pprev \<noteq> Some q) \<Longrightarrow> link_next ps T q = T q"
proof (induction ps T rule: link_next.induct)
  case (2 p ps T)
  let ?T = "case Option.bind (T p) pprev of None \<Rightarrow> T | Some q \<Rightarrow> T(q := map_option (\<lambda>n. n\<lparr>pnext := Some p\<rparr>) (T q))"
  have "same_but_next T ?T" by (auto split: option.split intro: same_but_next_update)
  then have "\<forall>p\<in>set ps. Option.bind (?T p) pprev \<noteq> Some q" using 2 by (simp add: same_but_nextD(1))
  from 2(1) [OF this] 2(2) show ?case by (auto split: option.split)
qed simp

lemma link_next_sets:
  "distinct (map (\<lambda>p. Option.bind (T p) pprev) ps) \<Longrightarrow> p \<in> set ps \<Longrightarrow> Option.bind (T p) pprev = Some q \<Longrightarrow>
   q \<in> dom T \<Longrightarrow> Option.bind (link_next ps T q) pnext = Some p"
proof (induction ps T rule: link_next.induct)
  case (2 r ps T)
  let ?T = "case Option.bind (T r) pprev of None \<Rightarrow> T | Some q \<Rightarrow> T(q := map_option (\<lambda>n. n\<lparr>pnext := Some r\<rparr>) (T q))"
  have s: "same_but_next T ?T" by (auto split: option.split intro: same_but_next_update)
  note sd = same_but_nextD [OF s]
  show ?case
  proof (cases "p = r")
    case True
    have "Some q \<notin> (\<lambda>p. Option.bind (T p) pprev) ` set ps" using 2(2,4) True by simp
    then have "\<forall>x\<in>set ps. Option.bind (T x) pprev \<noteq> Some q" by (metis imageI)
    then have "link_next ps ?T q = ?T q" by (intro link_next_other) (simp add: sd(1))
    moreover obtain qn where "T q = Some qn" using 2(5) by blast
    ultimately show ?thesis using 2(4) True by simp
  next
    case False
    have "Option.bind (link_next ps ?T q) pnext = Some p"
    proof (rule 2(1))
      show "distinct (map (\<lambda>p. Option.bind (?T p) pprev) ps)" using 2(2) by (simp only: sd list.map distinct.simps)
      show "p \<in> set ps" using 2(3) False by simp
      show "Option.bind (?T p) pprev = Some q" using 2(4) by (simp only: sd)
      show "q \<in> dom ?T" using 2(5) by (simp only: sd)
    qed
    then show ?thesis by simp
  qed
qed simp

lemma parent_1: "parent T (Suc 0) p = Option.bind (T p) pprev"
  by (cases "T p") (auto split: bind_splits)

lemma path_parents_distinct:
  assumes "tree_ok T" "T p = Some node" "parent T n p = Some g"
  shows "distinct (map (\<lambda>p. Option.bind (T p) pprev) (path T p n))"
    "\<And>k. k < n \<Longrightarrow> Option.bind (T (path T p n ! k)) pprev = parent T (Suc k) p"
proof -
  show st: "Option.bind (T (path T p n ! k)) pprev = parent T (Suc k) p" if "k < n" for k
    using path_height(3) [OF assms that] parent_add [of T k "Suc 0" p] by (simp add: parent_1 del: parent.simps)
  have "map (\<lambda>p. Option.bind (T p) pprev) (path T p n) = map (\<lambda>k. parent T (Suc k) p) [0..<n]"
    by (rule nth_equalityI) (simp_all add: st del: parent.simps)
  moreover have "inj_on (\<lambda>k. parent T (Suc k) p) (set [0..<n])"
  proof (rule inj_onI)
    fix k l assume k: "k \<in> set [0..<n]" and l: "l \<in> set [0..<n]" and e: "parent T (Suc k) p = parent T (Suc l) p"
    have kn: "Suc k \<le> n" and ln: "Suc l \<le> n" using k l by auto
    obtain a where a: "parent T (Suc k) p = Some a" "height_of T a = nHeight node - int (Suc k)"
      by (rule parent_defined [OF assms kn])
    obtain b where b: "parent T (Suc l) p = Some b" "height_of T b = nHeight node - int (Suc l)"
      by (rule parent_defined [OF assms ln])
    from a b e show "k = l" by simp
  qed
  ultimately show "distinct (map (\<lambda>p. Option.bind (T p) pprev) (path T p n))"
    by (simp add: distinct_map del: parent.simps)
qed

lemma link_path:
  assumes "tree_ok T" "T p = Some node" "parent T n p = Some g" "same_but_next T T1" "k < n" "parent T (Suc k) p = Some q"
  shows "Option.bind (link_next (rev (path T p n)) T1 q) pnext = parent T k p"
proof -
  have "Suc k \<le> n" using assms(5) by simp
  then have q: "q \<in> dom T" by (rule parent_defined [OF assms(1-3)]) (use assms(6) in simp)
  note sd = same_but_nextD [OF assms(4)] and pd = path_parents_distinct [OF assms(1-3)]
  have "Option.bind (link_next (rev (path T p n)) T1 q) pnext = Some (path T p n ! k)"
  proof (rule link_next_sets)
    have "distinct (rev (map (\<lambda>p. Option.bind (T p) pprev) (path T p n)))" by (simp only: distinct_rev pd(1))
    then show "distinct (map (\<lambda>p. Option.bind (T1 p) pprev) (rev (path T p n)))" by (simp only: sd rev_map)
    show "path T p n ! k \<in> set (rev (path T p n))" using assms(5) by simp
    show "Option.bind (T1 (path T p n ! k)) pprev = Some q" by (simp only: sd pd(2) [OF assms(5)] assms(6))
    show "q \<in> dom T1" using q by (simp only: sd)
  qed
  then show ?thesis by (simp only: path_height(3) [OF assms(1-3,5)])
qed

lemma next_path:
  assumes "tree_ok T" "T p = Some node" "parent T n p = Some g" "same_but_next T T1"
  shows "k \<le> n \<Longrightarrow> Option.bind (parent T k p) (next_n (link_next (rev (path T p n)) T1) k) = Some p"
proof (induction k)
  case (Suc k)
  have k: "k < n" using Suc.prems by simp
  obtain q where q: "parent T (Suc k) p = Some q" by (rule parent_defined [OF assms(1-3) Suc.prems])
  from link_path [OF assms k q] obtain y where "parent T k p = Some y" "Option.bind (link_next (rev (path T p n)) T1 q) pnext = Some y"
    using path_height(3) [OF assms(1-3) k] by simp
  then obtain qn where "link_next (rev (path T p n)) T1 q = Some qn" "pnext qn = Some y" by (auto split: bind_splits)
  with Suc.IH k \<open>parent T k p = Some y\<close> q show ?case by simp
qed simp

lemma core_CommitBlock_result:
  assumes "GetCommitBranches T (Some b) p = Some (Some (vC, vD))"
  obtains ok T' s' where "core_CommitBlock ops (Some b) blk prev p T s = Some (ok, T', s')"
    "T' = (if ok then link_next vC (unlink_next vD T) else T)"
proof -
  have "\<exists>ok T' s'. core_CommitBlock ops (Some b) blk prev p T s = Some (ok, T', s') \<and>
      T' = (if ok then link_next vC (unlink_next vD T) else T)"
    using assms by (auto simp: core_CommitBlock_def commit_fail_def Let_def split: option.split prod.split)
  with that show ?thesis by blast
qed

section \<open>The best chain\<close>

text \<open>
  The forward pointers mark the chain of the block \<open>b\<close>: a node points to a block exactly when that
  block is \<open>b\<close> or one of its ancestors and the node is its parent.
\<close>

definition main_chain :: "blkidx_t \<Rightarrow> u256 \<Rightarrow> bool" where
  "main_chain T b \<longleftrightarrow> (\<forall>q y. Option.bind (T q) pnext = Some y \<longleftrightarrow> (\<exists>k. parent T k b = Some y \<and> parent T (Suc k) b = Some q))"

lemma main_chainD:
  "main_chain T b \<Longrightarrow> Option.bind (T q) pnext = Some y \<longleftrightarrow> (\<exists>k. parent T k b = Some y \<and> parent T (Suc k) b = Some q)"
  unfolding main_chain_def by blast

lemma same_but_next_parent:
  assumes "same_but_next T T'"
  shows "parent T' k p = parent T k p"
proof (induction k arbitrary: p)
  case (Suc k)
  have "parent S (Suc k) p = Option.bind (parent S (Suc 0) p) (parent S k)" for S
    using parent_add [of S "Suc 0" k p] by simp
  then show ?case by (simp only: parent_1 same_but_nextD(1) [OF assms] Suc.IH [abs_def])
qed simp

lemma parent_unique:
  assumes "tree_ok T" "T p = Some node" "parent T k p = Some q" "parent T l p = Some q"
  shows "k = l"
  using parent_bound [OF assms(1-3)] parent_bound [OF assms(1,2,4)] by simp

text \<open>From the fork on the two chains are one.\<close>

lemma parent_below_fork:
  assumes "parent T i b = Some g" "parent T j p = Some g"
  shows "parent T (i + n) b = parent T (j + n) p"
  by (simp only: parent_add assms)

lemma unlink_next_clears:
  "q \<in> dom T \<Longrightarrow> Option.bind (unlink_next ps T q) pnext =
     (if \<exists>p\<in>set ps. Option.bind (T p) pprev = Some q then None else Option.bind (T q) pnext)"
proof (induction ps T rule: unlink_next.induct)
  case (2 p ps T)
  let ?T = "case Option.bind (T p) pprev of None \<Rightarrow> T | Some q \<Rightarrow> T(q := map_option (\<lambda>n. n\<lparr>pnext := None\<rparr>) (T q))"
  have s: "same_but_next T ?T" by (auto split: option.split intro: same_but_next_update)
  have "Option.bind (?T q) pnext = (if Option.bind (T p) pprev = Some q then None else Option.bind (T q) pnext)"
    using 2(2) by (auto split: option.split)
  moreover have "q \<in> dom ?T" using 2(2) by (simp only: same_but_nextD(2) [OF s])
  ultimately have "Option.bind (unlink_next ps ?T q) pnext = (if \<exists>p\<in>set ps. Option.bind (T p) pprev = Some q then None
      else if Option.bind (T p) pprev = Some q then None else Option.bind (T q) pnext)"
    using 2(1) by (simp only: same_but_nextD(1) [OF s])
  then show ?case by simp
qed simp

lemma path_parents:
  assumes "tree_ok T" "T p = Some node" "parent T n p = Some g"
  shows "(\<exists>y\<in>set (path T p n). Option.bind (T y) pprev = Some q) \<longleftrightarrow> (\<exists>k<n. parent T (Suc k) p = Some q)"
proof -
  have "(\<exists>y\<in>set (path T p n). Option.bind (T y) pprev = Some q) \<longleftrightarrow>
      (\<exists>k<n. Option.bind (T (path T p n ! k)) pprev = Some q)"
    unfolding Bex_set_list_ex list_ex_length by simp
  then show ?thesis by (simp only: path_parents_distinct(2) [OF assms] cong: conj_cong)
qed

text \<open>A node that is not a parent on the new branch has the pointer of the chain below the fork, or none.\<close>

lemma chain_pointers_shared:
  assumes "tree_ok T" "T b = Some bn" "parent T i b = Some g" "parent T j p = Some g" "\<not> (\<exists>k<j. parent T (Suc k) p = Some q)"
  shows "(\<exists>k. parent T k p = Some y \<and> parent T (Suc k) p = Some q) \<longleftrightarrow>
    \<not> (\<exists>k<i. parent T (Suc k) b = Some q) \<and> (\<exists>k. parent T k b = Some y \<and> parent T (Suc k) b = Some q)"
proof -
  have below: "(\<exists>k. parent T k a = Some y \<and> parent T (Suc k) a = Some q) \<longleftrightarrow>
      (\<exists>n. parent T (m + n) a = Some y \<and> parent T (m + Suc n) a = Some q)"
    if "\<not> (\<exists>k<m. parent T (Suc k) a = Some q)" for a m
    using that by (metis add_Suc_right le_Suc_ex not_le)
  note p = below [OF assms(5), folded parent_below_fork [OF assms(3,4)]]
  show ?thesis
  proof (cases "\<exists>k<i. parent T (Suc k) b = Some q")
    case True
    then obtain k where k: "k < i" "parent T (Suc k) b = Some q" by blast
    have "parent T (i + Suc n) b \<noteq> Some q" for n
      using parent_unique [OF assms(1,2) k(2), of "i + Suc n"] k(1) by auto
    with True p show ?thesis by blast
  next
    case False
    with below [OF False] p show ?thesis by blast
  qed
qed

lemma commit_main_chain:
  assumes "tree_ok T" "T b = Some bn" "T p = Some pn" "parent T i b = Some g" "parent T j p = Some g" "main_chain T b"
  shows "main_chain (link_next (rev (path T p j)) (unlink_next (path T b i) T)) p"
proof -
  let ?U = "unlink_next (path T b i) T" and ?L = "link_next (rev (path T p j)) (unlink_next (path T b i) T)"
  note u = unlink_next_same [of T "path T b i"]
  note l = same_but_next_trans [OF u link_next_same [of ?U "rev (path T p j)"]]
  have "Option.bind (?L q) pnext = Some y \<longleftrightarrow> (\<exists>k. parent T k p = Some y \<and> parent T (Suc k) p = Some q)" for q y
  proof (cases "\<exists>k<j. parent T (Suc k) p = Some q")
    case True
    then obtain k where k: "k < j" "parent T (Suc k) p = Some q" by blast
    show ?thesis
      using link_path [OF assms(1,3,5) u k] k(2) parent_unique [OF assms(1,3) k(2)] by (metis Suc_inject)
  next
    case False
    have f: "?L q = ?U q"
      using False path_parents [OF assms(1,3,5), of q] by (intro link_next_other) (simp only: same_but_nextD [OF u] set_rev, blast)
    note sh = chain_pointers_shared [OF assms(1,2,4,5) False, of y]
    show ?thesis
    proof (cases "q \<in> dom T")
      case True
      have "Option.bind (?U q) pnext = (if \<exists>k<i. parent T (Suc k) b = Some q then None else Option.bind (T q) pnext)"
        using unlink_next_clears [OF True, of "path T b i"] by (simp only: path_parents [OF assms(1,2,4)])
      then show ?thesis unfolding f sh main_chainD [OF assms(6), symmetric] by (metis option.distinct(1))
    next
      case nd: False
      have "?L q = None" using nd same_but_nextD(2) [OF l, of q] by blast
      moreover have "parent T (Suc k) p \<noteq> Some q" for k using nd parent_bound [OF assms(1,3), of "Suc k" q] by blast
      ultimately show ?thesis by simp
    qed
  qed
  then show ?thesis unfolding main_chain_def by (simp only: same_but_next_parent [OF l] simp_thms)
qed

lemma commit_abandons:
  assumes "tree_ok T" "T b = Some bn" "parent T i b = Some g" "parent T j p = Some g" "set (path T p j) \<inter> set (path T b i) = {}"
    and "k < i" "main_chain T' p" "same_but_next T T'"
  shows "Option.bind (T' (path T b i ! k)) pnext = None"
proof (rule ccontr)
  let ?q = "path T b i ! k"
  assume "Option.bind (T' ?q) pnext \<noteq> None"
  then obtain m where m: "parent T m p = Some ?q"
    using main_chainD [OF assms(7), of ?q] by (metis not_None_eq same_but_next_parent [OF assms(8)])
  have k: "parent T k b = Some ?q" by (rule path_height(3) [OF assms(1-3,6)])
  show False
  proof (cases "m < j")
    case True
    then have "?q \<in> set (path T p j)" using m by (force simp: path_def simp del: parent.simps)
    then show False using assms(5,6) by auto
  next
    case False
    then have "parent T (i + (m - j)) b = Some ?q" using m parent_below_fork [OF assms(3,4), of "m - j"] by simp
    from parent_unique [OF assms(1,2) k this] assms(6) show False by simp
  qed
qed

section \<open>A concrete fork\<close>

text \<open>Blocks 2 and 3 on the best branch above the genesis block 1, blocks 4, 5 and 6 on another.\<close>

definition tnode :: "u256 option \<Rightarrow> int \<Rightarrow> u256 option \<Rightarrow> CBlockIndex" where
  "tnode p h n = new_CBlockIndex\<lparr>pprev := p, pnext := n, nHeight := h\<rparr>"

definition fork_idx :: blkidx_t where
  "fork_idx = [1 \<mapsto> tnode None 0 (Some 2), 2 \<mapsto> tnode (Some 1) 1 (Some 3), 3 \<mapsto> tnode (Some 2) 2 None,
     4 \<mapsto> tnode (Some 1) 1 None, 5 \<mapsto> tnode (Some 4) 2 None, 6 \<mapsto> tnode (Some 5) 3 None]"

lemma tree_ok_fork: "tree_ok fork_idx"
  unfolding fork_idx_def by (intro tree_ok_update tree_ok_empty) (auto simp: node_ok_def tnode_def)

lemma fork_nodes: "fork_idx 3 = Some (tnode (Some 2) 2 None)" "fork_idx 6 = Some (tnode (Some 5) 3 None)"
  by (simp_all add: fork_idx_def)

lemma fork_parents: "parent fork_idx 2 3 = Some 1" "parent fork_idx 3 6 = Some 1"
  by (simp_all add: fork_idx_def tnode_def numeral_eq_Suc)

lemma fork_anc: "anc fork_idx 3 1" "anc fork_idx 6 1"
  using fork_parents by (auto simp: anc_def)

lemma fork_chain:
  "parent fork_idx k 3 = (case k of 0 \<Rightarrow> Some 3 | Suc 0 \<Rightarrow> Some 2 | Suc (Suc 0) \<Rightarrow> Some 1 | _ \<Rightarrow> None)"
proof -
  have "parent fork_idx (Suc k) 3 = parent fork_idx k 2" "parent fork_idx (Suc k) 2 = parent fork_idx k 1"
    "parent fork_idx (Suc k) 1 = None" for k
    by (simp_all add: fork_idx_def tnode_def)
  then show ?thesis by (simp del: parent.simps(2) split: nat.split)
qed

lemma fork_main_chain: "main_chain fork_idx 3"
proof -
  have "Option.bind (fork_idx q) pnext = (if q = 1 then Some 2 else if q = 2 then Some 3 else None)" for q
    by (auto simp: fork_idx_def tnode_def)
  moreover have "(\<exists>k. P k) \<longleftrightarrow> P 0 \<or> P (Suc 0) \<or> (\<exists>k. P (Suc (Suc k)))" for P :: "nat \<Rightarrow> bool"
    by (metis not0_implies_Suc)
  ultimately show ?thesis unfolding main_chain_def fork_chain by auto
qed

lemma allocated_update:
  assumes "allocated_upwards ops T" "\<forall>q. pprev node = Some q \<longrightarrow> op_addr ops q < op_addr ops h"
  shows "allocated_upwards ops (T(h \<mapsto> node))"
  using assms by (auto simp: allocated_upwards_def)

lemma fork_allocated: "allocated_upwards (log_ops unat) fork_idx"
  unfolding fork_idx_def
  by (intro allocated_update) (simp_all add: allocated_upwards_def log_ops_def tnode_def)

section \<open>Properties\<close>

text \<open>
  C9: on a well-formed index whose tips have a common ancestor \<open>GetCommitBranches\<close> returns: it
  disconnects the blocks from the best block down to the fork, newest first, and connects those from
  the fork up to the new block, oldest first; no block is in both lists.
\<close>

theorem commit_branches_meet:
  assumes "tree_ok T" and "T b = Some bn" and "T p = Some pn" and "anc T b c" and "anc T p c"
  shows "\<exists>i j g. GetCommitBranches T (Some b) p = Some (Some (rev (path T p j), path T b i)) \<and>
    parent T i b = Some g \<and> parent T j p = Some g \<and> set (path T p j) \<inter> set (path T b i) = {}"
proof -
  obtain i j g where "GetCommitBranches T (Some b) p = Some (Some (rev (path T p j), path T b i))"
      "parent T i b = Some g" "parent T j p = Some g" "set (path T p j) \<inter> set (path T b i) = {}"
    by (rule GetCommitBranches_spec [OF assms])
  then show ?thesis by blast
qed

theorem commit_branches_meet_witness:
  "\<exists>i j g. GetCommitBranches fork_idx (Some 3) 6 = Some (Some (rev (path fork_idx 6 j), path fork_idx 3 i)) \<and>
    parent fork_idx i 3 = Some g \<and> parent fork_idx j 6 = Some g"
  using commit_branches_meet [OF tree_ok_fork fork_nodes fork_anc] by blast

text \<open>
  The calls on the databases follow the addresses of the nodes, since the branches are put into maps
  keyed by them. Nothing says how the addresses of two nodes compare; if the nodes of the branches
  happen to lie above their parents, the blocks are connected in the right order, but also
  disconnected from the fork upwards: a block is disconnected before the blocks built on it.
\<close>

lemma commit_disconnects_oldest_first:
  assumes "tree_ok T" and "T b = Some bn" and "T p = Some pn" and "anc T b c" and "anc T p c"
    and "allocated_upwards (log_ops addr) T"
  shows "\<exists>i j g T'. parent T i b = Some g \<and> parent T j p = Some g \<and>
    GetCommitBranches T (Some b) p = Some (Some (rev (path T p j), path T b i)) \<and>
    core_CommitBlock (log_ops addr) (Some b) () prev p T [] =
      Some (True, T', map Inl (rev (path T b i)) @ map Inr (rev (path T p j)))"
proof -
  obtain i j g where g: "GetCommitBranches T (Some b) p = Some (Some (rev (path T p j), path T b i))"
      "parent T i b = Some g" "parent T j p = Some g"
    by (rule GetCommitBranches_spec [OF assms(1-5)])
  from commit_order_log [OF assms(1-3) g(2,3,1) assms(6), of prev] g show ?thesis by blast
qed

lemma commit_oldest_first_fork:
  "\<exists>i j T'. core_CommitBlock (log_ops unat) (Some 3) () 5 6 fork_idx [] =
     Some (True, T', map Inl (rev (path fork_idx 3 i)) @ map Inr (rev (path fork_idx 6 j)))"
  using commit_disconnects_oldest_first [OF tree_ok_fork fork_nodes fork_anc fork_allocated, of 5] by blast



end
