(* ===== verification/Bc_State.thy ===== *)
theory Bc_State
  imports Bc_Fmap
begin

text \<open>
  The handle of a block database, \<open>bc_t\<close> of \<^verbatim>\<open>blockchain/bc.h\<close>, the files that belong to it, and
  the well-formedness of the handle with respect to the process state: \<open>bc_ok\<close>. Each of its maps
  is a \<open>slot\<close>, closed or open on the file with the slot's extension. The lemmas of this theory are
  the ones every component above relies on: an operation that touches the file of one slot keeps
  the handle well formed and the content of every other file.
\<close>

record bc_t =
  bc_name :: string
  idx_map :: bc_map
  tab_map :: bc_map
  arch_map :: bc_map
  data_map :: "bc_map list"

section \<open>Decimal extensions\<close>

text \<open>\<open>sprintf(map->ext, "%u", jrnl)\<close> is \<^const>\<open>nat_str\<close>.\<close>

lemma nat_str_digits: "\<forall>c\<in>set (nat_str n). 48 \<le> (of_char c :: nat) \<and> of_char c < (58 :: nat)"
proof (induction n rule: nat_str.induct)
  case (1 n)
  have d: "(48 + k) mod 256 = 48 + k" if "k < 10" for k :: nat
    using that by simp
  show ?case
  proof (cases "n < 10")
    case True
    then show ?thesis by (simp add: nat_str.simps [of n] of_char_of d)
  next
    case False
    with 1 show ?thesis
      by (auto simp: nat_str.simps [of n] of_char_of d)
  qed
qed

lemma nat_str_nonempty: "nat_str n \<noteq> []"
  by (subst nat_str.simps) simp

lemma nat_str_neq_ext [simp]:
  "nat_str n \<noteq> ''idx''" "nat_str n \<noteq> ''tab''" "nat_str n \<noteq> ''arch''" "nat_str n \<noteq> []"
  "''idx'' \<noteq> nat_str n" "''tab'' \<noteq> nat_str n" "''arch'' \<noteq> nat_str n" "[] \<noteq> nat_str n"
proof -
  have neq: "nat_str n \<noteq> c # cs" if "\<not> (of_char c < (58 :: nat))" for c cs
    using that nat_str_digits [of n] by auto
  show "nat_str n \<noteq> ''idx''" "nat_str n \<noteq> ''tab''" "nat_str n \<noteq> ''arch''"
    by (rule neq, simp)+
  then show "''idx'' \<noteq> nat_str n" "''tab'' \<noteq> nat_str n" "''arch'' \<noteq> nat_str n" by metis+
  show "nat_str n \<noteq> []" by (rule nat_str_nonempty)
  then show "[] \<noteq> nat_str n" by metis
qed

section \<open>Slots\<close>

definition ext_path :: "env \<Rightarrow> string \<Rightarrow> string \<Rightarrow> path" where
  "ext_path e nm ext = bc_path_base e @ ''/'' @ nm @ ''.'' @ ext"

lemma bc_map_path_ext: "bc_map_path e nm m = ext_path e nm (m_ext m)"
  by (simp add: bc_map_path_def ext_path_def)

lemma ext_path_inj [simp]: "ext_path e nm a = ext_path e nm b \<longleftrightarrow> a = b"
  by (simp add: ext_path_def)

definition slot_ok :: "env \<Rightarrow> string \<Rightarrow> string \<Rightarrow> bc_map \<Rightarrow> world \<Rightarrow> bool" where
  "slot_ok e nm ext m w \<longleftrightarrow> (m_ext m = [] \<or> m_ext m = ext) \<and>
     (m_fd m \<noteq> 0 \<longrightarrow> m_ext m = ext \<and> m_hdr m \<noteq> None) \<and> map_ok e nm (m\<lparr>m_ext := ext\<rparr>) w"

definition TAB_BYTES :: nat where "TAB_BYTES = 2097152"

definition bc_ok :: "env \<Rightarrow> bc_t \<Rightarrow> world \<Rightarrow> bool" where
  "bc_ok e bc w \<longleftrightarrow> world_ok e w \<and>
     slot_ok e (bc_name bc) ''idx'' (idx_map bc) w \<and>
     slot_ok e (bc_name bc) ''tab'' (tab_map bc) w \<and>
     slot_ok e (bc_name bc) ''arch'' (arch_map bc) w \<and>
     (\<forall>j < length (data_map bc). slot_ok e (bc_name bc) (nat_str j) (data_map bc ! j) w) \<and>
     (m_fd (tab_map bc) \<noteq> 0 \<longrightarrow> 16 + TAB_BYTES \<le> fsize w (ext_path e (bc_name bc) ''tab'')) \<and>
     capacity w (ext_path e (bc_name bc) ''tab'') TAB_BYTES"

lemma slot_ok_zero: "slot_ok e nm ext zero_map w"
  by (simp add: slot_ok_def zero_map_def map_ok_def)

lemma slot_ok_map: "slot_ok e nm ext m w \<Longrightarrow> map_ok e nm (m\<lparr>m_ext := ext\<rparr>) w"
  by (simp add: slot_ok_def)

lemma slot_ok_mapped: "slot_ok e nm ext m w \<Longrightarrow> m_fd m \<noteq> 0 \<Longrightarrow>
   m_hdr m = Some (ext_path e nm ext) \<and> m_size m = fsize w (ext_path e nm ext) \<and>
   w_file w (ext_path e nm ext) \<noteq> None"
  by (auto simp: slot_ok_def map_ok_def bc_map_path_ext fsize_def)

lemma slot_ok_touches:
  "touches (ext_path e nm a) w w' \<Longrightarrow> slot_ok e nm ext m w \<Longrightarrow> ext \<noteq> a \<Longrightarrow> slot_ok e nm ext m w'"
  by (auto simp: slot_ok_def bc_map_path_ext intro: map_ok_touches)

lemma map_post_slot:
  assumes "map_post e nm m w m' w'" and "m_ext m = ext" and "m_hdr m' \<noteq> None"
  shows "slot_ok e nm ext m' w'" and "touches (ext_path e nm ext) w w'"
proof -
  have "m_ext m' = ext" using assms by (simp add: map_post_def)
  then have eq: "m'\<lparr>m_ext := ext\<rparr> = m'" by simp
  show "slot_ok e nm ext m' w'"
    unfolding slot_ok_def eq using assms by (simp add: map_post_def)
  show "touches (ext_path e nm ext) w w'"
    using assms by (simp add: map_post_def bc_map_path_ext)
qed

text \<open>Replacing one map after an operation on its file keeps the handle well formed.\<close>

lemma bc_ok_idx:
  assumes "bc_ok e bc w" and "slot_ok e (bc_name bc) ''idx'' m' w'" and "world_ok e w'"
    and "touches (ext_path e (bc_name bc) ''idx'') w w'"
  shows "bc_ok e (bc\<lparr>idx_map := m'\<rparr>) w'"
  using assms by (auto simp: bc_ok_def touches_other capacity_def intro: slot_ok_touches)

lemma bc_ok_arch:
  assumes "bc_ok e bc w" and "slot_ok e (bc_name bc) ''arch'' m' w'" and "world_ok e w'"
    and "touches (ext_path e (bc_name bc) ''arch'') w w'"
  shows "bc_ok e (bc\<lparr>arch_map := m'\<rparr>) w'"
  using assms by (auto simp: bc_ok_def touches_other capacity_def intro: slot_ok_touches)

lemma bc_ok_tab:
  assumes "bc_ok e bc w" and "slot_ok e (bc_name bc) ''tab'' m' w'" and "world_ok e w'"
    and "touches (ext_path e (bc_name bc) ''tab'') w w'"
    and "16 + TAB_BYTES \<le> fsize w' (ext_path e (bc_name bc) ''tab'')"
    and "capacity w' (ext_path e (bc_name bc) ''tab'') TAB_BYTES"
  shows "bc_ok e (bc\<lparr>tab_map := m'\<rparr>) w'"
  using assms by (auto simp: bc_ok_def intro: slot_ok_touches)

lemma bc_ok_data:
  assumes "bc_ok e bc w" and "slot_ok e (bc_name bc) (nat_str j) m' w'" and "world_ok e w'"
    and "touches (ext_path e (bc_name bc) (nat_str j)) w w'" and "j < length (data_map bc)"
  shows "bc_ok e (bc\<lparr>data_map := (data_map bc)[j := m']\<rparr>) w'"
  using assms
  by (auto simp: bc_ok_def touches_other capacity_def nth_list_update nat_str_inj
      intro: slot_ok_touches)


section \<open>Steps of the database\<close>

text \<open>
  \<open>bc_step e P Q\<close>: the handle stays well formed, only the files with an extension in \<open>P\<close> change
  content, and only the maps of those with an extension in \<open>Q\<close> and their file sizes change.
\<close>

definition same_maps :: "string set \<Rightarrow> bc_t \<Rightarrow> bc_t \<Rightarrow> bool" where
  "same_maps Q bc bc' \<longleftrightarrow> bc_name bc' = bc_name bc \<and>
     (''idx'' \<notin> Q \<longrightarrow> idx_map bc' = idx_map bc) \<and> (''tab'' \<notin> Q \<longrightarrow> tab_map bc' = tab_map bc) \<and>
     (''arch'' \<notin> Q \<longrightarrow> arch_map bc' = arch_map bc) \<and>
     length (data_map bc) \<le> length (data_map bc') \<and>
     (\<forall>j < length (data_map bc). nat_str j \<notin> Q \<longrightarrow> data_map bc' ! j = data_map bc ! j)"

lemma same_maps_refl [simp]: "same_maps Q bc bc"
  by (simp add: same_maps_def)

lemma same_maps_trans:
  assumes "same_maps Q bc bc'" and "same_maps Q' bc' bc''" and "Q \<union> Q' \<subseteq> S"
  shows "same_maps S bc bc''"
proof -
  have "x \<notin> Q \<and> x \<notin> Q'" if "x \<notin> S" for x using assms(3) that by auto
  with assms(1,2) show ?thesis by (simp add: same_maps_def)
qed

lemma same_maps_upd [simp]:
  "same_maps Q bc (bc\<lparr>idx_map := m\<rparr>) \<longleftrightarrow> ''idx'' \<in> Q \<or> m = idx_map bc"
  "same_maps Q bc (bc\<lparr>tab_map := m\<rparr>) \<longleftrightarrow> ''tab'' \<in> Q \<or> m = tab_map bc"
  "same_maps Q bc (bc\<lparr>arch_map := m\<rparr>) \<longleftrightarrow> ''arch'' \<in> Q \<or> m = arch_map bc"
  by (auto simp: same_maps_def)

lemma same_maps_data:
  "j < length (data_map bc) \<Longrightarrow> nat_str j \<in> Q \<Longrightarrow>
     same_maps Q bc (bc\<lparr>data_map := (data_map bc)[j := m]\<rparr>)"
  by (auto simp: same_maps_def nth_list_update)

definition bc_step ::
    "env \<Rightarrow> string set \<Rightarrow> string set \<Rightarrow> bc_t \<Rightarrow> world \<Rightarrow> bc_t \<Rightarrow> world \<Rightarrow> bool" where
  "bc_step e P Q bc w bc' w' \<longleftrightarrow> bc_ok e bc' w' \<and> same_maps Q bc bc' \<and>
     (\<forall>p. p \<notin> ext_path e (bc_name bc) ` P \<longrightarrow> fof w' p = fof w p \<and> fraw w' p = fraw w p) \<and>
     (\<forall>p. p \<notin> ext_path e (bc_name bc) ` Q \<longrightarrow> fsize w' p = fsize w p)"

lemma ext_path_image [simp]: "ext_path e nm x \<in> ext_path e nm ` P \<longleftrightarrow> x \<in> P"
  by auto

lemma bc_step_refl: "bc_ok e bc w \<Longrightarrow> bc_step e P Q bc w bc w"
  by (simp add: bc_step_def)

lemma bc_step_trans:
  assumes "bc_step e P Q bc w bc' w'" and "bc_step e P' Q' bc' w' bc'' w''"
    and "P \<union> P' \<subseteq> R" and "Q \<union> Q' \<subseteq> S"
  shows "bc_step e R S bc w bc'' w''"
proof -
  have "p \<notin> f ` A" if "p \<notin> f ` B" "A \<subseteq> B" for p :: path and f and A B :: "string set"
    using that by auto
  moreover have "bc_name bc' = bc_name bc" using assms(1) by (simp add: bc_step_def same_maps_def)
  ultimately show ?thesis
    using assms same_maps_trans [of Q bc bc' Q' bc'' S] by (auto simp: bc_step_def)
qed

lemma bc_stepD:
  assumes "bc_step e P Q bc w bc' w'"
  shows "bc_ok e bc' w'" "bc_name bc' = bc_name bc"
    "x \<notin> P \<Longrightarrow> fof w' (ext_path e (bc_name bc) x) = fof w (ext_path e (bc_name bc) x)"
    "x \<notin> P \<Longrightarrow> fraw w' (ext_path e (bc_name bc) x) = fraw w (ext_path e (bc_name bc) x)"
    "x \<notin> Q \<Longrightarrow> fsize w' (ext_path e (bc_name bc) x) = fsize w (ext_path e (bc_name bc) x)"
    "length (data_map bc) \<le> length (data_map bc')"
    "''idx'' \<notin> Q \<Longrightarrow> idx_map bc' = idx_map bc" "''arch'' \<notin> Q \<Longrightarrow> arch_map bc' = arch_map bc"
    "''tab'' \<notin> Q \<Longrightarrow> tab_map bc' = tab_map bc"
    "j < length (data_map bc) \<Longrightarrow> nat_str j \<notin> Q \<Longrightarrow> data_map bc' ! j = data_map bc ! j"
  using assms by (auto simp: bc_step_def same_maps_def)

lemma bc_step_capacity:
  "bc_step e P Q bc w bc' w' \<Longrightarrow> x \<notin> P \<Longrightarrow> x \<notin> Q \<Longrightarrow>
     capacity w' (ext_path e (bc_name bc) x) n = capacity w (ext_path e (bc_name bc) x) n"
  by (simp add: capacity_def bc_stepD)

lemma bc_stepI:
  assumes "bc_ok e bc' w'" and "same_maps Q bc bc'"
    and t: "touches (ext_path e (bc_name bc) x) w w'" and "x \<in> Q"
    and "x \<notin> P \<Longrightarrow> fof w' (ext_path e (bc_name bc) x) = fof w (ext_path e (bc_name bc) x) \<and>
      fraw w' (ext_path e (bc_name bc) x) = fraw w (ext_path e (bc_name bc) x)"
  shows "bc_step e P Q bc w bc' w'"
  unfolding bc_step_def
proof (intro conjI allI impI)
  fix p
  assume "p \<notin> ext_path e (bc_name bc) ` P"
  then show "fof w' p = fof w p" "fraw w' p = fraw w p"
    using assms touches_other [OF t, of p] by (cases "p = ext_path e (bc_name bc) x"; auto)+
next
  fix p
  assume "p \<notin> ext_path e (bc_name bc) ` Q"
  then show "fsize w' p = fsize w p"
    using assms(4) touches_other [OF t, of p] by (cases "p = ext_path e (bc_name bc) x") auto
qed (use assms in auto)

lemma bc_step_same_size:
  assumes "bc_step e P {x} bc w bc w'"
    and "fsize w' (ext_path e (bc_name bc) x) = fsize w (ext_path e (bc_name bc) x)"
  shows "bc_step e P {} bc w bc w'"
proof -
  have "fsize w' p = fsize w p" for p
    using assms by (cases "p = ext_path e (bc_name bc) x") (auto simp: bc_step_def)
  with assms(1) show ?thesis by (simp add: bc_step_def)
qed

text \<open>Opening a closed slot: \<open>bc_map_open\<close> followed by \<open>bc_map_alloc\<close>.\<close>

lemma slot_open_alloc:
  assumes os: "os_ok e" and wok: "world_ok e w" and slot: "slot_ok e nm ext m w"
    and cap: "capacity w (ext_path e nm ext) (unat n)"
  obtains m1 w1 m2 w2 where "bc_map_open e nm (m\<lparr>m_ext := ext\<rparr>) w = Some (0, m1, w1)"
    and "bc_map_alloc e nm m1 n w1 = Some (0, m2, w2)"
    and "alloc_post e nm (m\<lparr>m_ext := ext\<rparr>) w (unat n) m2 w2"
proof -
  let ?m = "m\<lparr>m_ext := ext\<rparr>" and ?p = "ext_path e nm ext"
  have path: "bc_map_path e nm ?m = ?p" by (simp add: bc_map_path_ext)
  obtain m1 w1 where op: "bc_map_open e nm ?m w = Some (0, m1, w1)"
    and mp: "map_post e nm ?m w m1 w1"
    and same: "fof w1 ?p = fof w ?p" "fraw w1 ?p = fraw w ?p"
      "fsize w1 ?p = max 16384 (fsize w ?p)"
    using bc_map_open_ok [OF os wok slot_ok_map [OF slot]] by (auto simp: returns_def path)
  have path1: "bc_map_path e nm m1 = ?p" using map_post_path [OF mp] path by simp
  have "capacity w1 ?p (unat n)" using cap same by (auto simp: capacity_def)
  then obtain m2 w2 where al: "bc_map_alloc e nm m1 n w1 = Some (0, m2, w2)"
    and ap: "alloc_post e nm m1 w1 (unat n) m2 w2"
    using bc_map_alloc_ok [OF os, of w1 nm m1 n] mp
    by (auto simp: returns_def map_post_def path1 dest: capacity_room)
  have "alloc_post e nm ?m w (unat n) m2 w2"
    using ap same map_post_trans [OF mp] by (auto simp: alloc_post_def path path1 Let_def)
  with op al that show ?thesis by blast
qed

text \<open>
  \<open>slot_post\<close>: an operation on the map of a slot opened it, touched its file only and kept what
  the file holds, having made sure of \<open>k\<close> free bytes.
\<close>

definition slot_post ::
    "env \<Rightarrow> string \<Rightarrow> string \<Rightarrow> nat \<Rightarrow> world \<Rightarrow> bc_map \<Rightarrow> world \<Rightarrow> bool" where
  "slot_post e nm ext k w m' w' \<longleftrightarrow> world_ok e w' \<and> slot_ok e nm ext m' w' \<and> m_fd m' \<noteq> 0 \<and>
     touches (ext_path e nm ext) w w' \<and>
     fof w' (ext_path e nm ext) = fof w (ext_path e nm ext) \<and>
     fraw w' (ext_path e nm ext) = fraw w (ext_path e nm ext) \<and>
     (\<forall>n \<ge> k. capacity w (ext_path e nm ext) n \<longrightarrow> capacity w' (ext_path e nm ext) n)"

lemma slot_postD:
  assumes "slot_post e nm ext k w m' w'"
  shows "world_ok e w'" "slot_ok e nm ext m' w'" "m_fd m' \<noteq> 0"
    "touches (ext_path e nm ext) w w'"
    "fof w' (ext_path e nm ext) = fof w (ext_path e nm ext)"
    "fraw w' (ext_path e nm ext) = fraw w (ext_path e nm ext)"
    "k \<le> n \<Longrightarrow> capacity w (ext_path e nm ext) n \<Longrightarrow> capacity w' (ext_path e nm ext) n"
  using assms by (auto simp: slot_post_def)

lemma alloc_post_slot:
  assumes post: "alloc_post e nm m w k m' w'" and ext: "m_ext m = ext"
  shows "slot_post e nm ext k w m' w'"
proof -
  have path: "bc_map_path e nm m = ext_path e nm ext" using ext by (simp add: bc_map_path_ext)
  note ap = alloc_postD [OF post, unfolded path]
  have slot: "slot_ok e nm ext m' w'" and t: "touches (ext_path e nm ext) w w'"
    using map_post_slot [OF ap(1) ext] ap(2) by auto
  moreover have "m_fd m' \<noteq> 0" using slot ap(2) by (auto simp: slot_ok_def map_ok_def)
  moreover have "\<forall>n \<ge> k. capacity w (ext_path e nm ext) n \<longrightarrow> capacity w' (ext_path e nm ext) n"
    using capacity_alloc [OF post] by (simp add: path)
  ultimately show ?thesis
    using ap by (simp add: slot_post_def map_post_def)
qed

lemma slot_opened:
  assumes os: "os_ok e" and wok: "world_ok e w" and slot: "slot_ok e nm ext m w"
    and cap: "capacity w (ext_path e nm ext) n"
  obtains m1 w1 m2 w2 where "bc_map_open e nm (m\<lparr>m_ext := ext\<rparr>) w = Some (0, m1, w1)"
    and "bc_map_alloc e nm m1 0 w1 = Some (0, m2, w2)" and "slot_post e nm ext 0 w m2 w2"
proof -
  have cap0: "capacity w (ext_path e nm ext) (unat (0 :: u32))"
    using cap by (rule capacity_mono) simp
  obtain m1 w1 m2 w2 where op: "bc_map_open e nm (m\<lparr>m_ext := ext\<rparr>) w = Some (0, m1, w1)"
    and al: "bc_map_alloc e nm m1 0 w1 = Some (0, m2, w2)"
    and post: "alloc_post e nm (m\<lparr>m_ext := ext\<rparr>) w (unat (0 :: u32)) m2 w2"
    by (rule slot_open_alloc [OF os wok slot cap0])
  show ?thesis
    by (rule that [OF op al]) (use alloc_post_slot [OF post] in simp)
qed

lemma slot_ok_map_ok: "slot_ok e nm ext m w \<Longrightarrow> m_ext m = ext \<Longrightarrow> map_ok e nm m w"
  by (auto simp: slot_ok_def)

lemma slot_alloc:
  assumes os: "os_ok e" and wok: "world_ok e w" and slot: "slot_ok e nm ext m w"
    and ext: "m_ext m = ext" and cap: "capacity w (ext_path e nm ext) (unat k)"
  obtains m' w' where "bc_map_alloc e nm m k w = Some (0, m', w')"
    and "slot_post e nm ext (unat k) w m' w'"
proof -
  have path: "bc_map_path e nm m = ext_path e nm ext" using ext by (simp add: bc_map_path_ext)
  obtain m' w' where "bc_map_alloc e nm m k w = Some (0, m', w')"
    and "alloc_post e nm m w (unat k) m' w'"
    using bc_map_alloc_ok [OF os wok slot_ok_map_ok [OF slot ext], of k]
      capacity_room [OF cap order_refl]
    by (auto simp: returns_def path)
  with that alloc_post_slot [OF _ ext] show ?thesis by blast
qed

text \<open>\<open>slot_written\<close>: bytes were stored at an offset of the slot's file.\<close>

definition slot_written ::
    "env \<Rightarrow> string \<Rightarrow> string \<Rightarrow> nat \<Rightarrow> u8 list \<Rightarrow> world \<Rightarrow> bc_map \<Rightarrow> world \<Rightarrow> bool" where
  "slot_written e nm ext off data w m' w' \<longleftrightarrow> world_ok e w' \<and> slot_ok e nm ext m' w' \<and> m_fd m' \<noteq> 0 \<and>
     touches (ext_path e nm ext) w w' \<and>
     fraw w' (ext_path e nm ext) = mem_store (fraw w (ext_path e nm ext)) off data \<and>
     unat (fof w' (ext_path e nm ext)) = max (unat (fof w (ext_path e nm ext))) (off + length data) \<and>
     (\<forall>n. capacity w (ext_path e nm ext) (length data + n) \<longrightarrow> capacity w' (ext_path e nm ext) n) \<and>
     (\<forall>n. off + length data \<le> unat (fof w (ext_path e nm ext)) \<longrightarrow> length data \<le> n \<longrightarrow>
        capacity w (ext_path e nm ext) n \<longrightarrow> capacity w' (ext_path e nm ext) n)"

lemma slot_writtenD:
  assumes "slot_written e nm ext off data w m' w'"
  shows "world_ok e w'" "slot_ok e nm ext m' w'" "m_fd m' \<noteq> 0" "touches (ext_path e nm ext) w w'"
    "fraw w' (ext_path e nm ext) = mem_store (fraw w (ext_path e nm ext)) off data"
    "unat (fof w' (ext_path e nm ext)) = max (unat (fof w (ext_path e nm ext))) (off + length data)"
    "capacity w (ext_path e nm ext) (length data + n) \<Longrightarrow> capacity w' (ext_path e nm ext) n"
    "off + length data \<le> unat (fof w (ext_path e nm ext)) \<Longrightarrow> length data \<le> n \<Longrightarrow>
        capacity w (ext_path e nm ext) n \<Longrightarrow> capacity w' (ext_path e nm ext) n"
  using assms by (auto simp: slot_written_def)

lemma slot_post_written:
  assumes post: "slot_post e nm ext k w m1 w1" and wr: "slot_written e nm ext off data w1 m2 w2"
    and k: "k \<le> length data"
  shows "slot_written e nm ext off data w m2 w2"
  using slot_postD [OF post] slot_writtenD [OF wr] k
  by (auto simp: slot_written_def intro: touches_trans)

lemma write_post_slot:
  assumes post: "write_post e nm m w off data m' w'" and ext: "m_ext m = ext"
    and off: "off \<le> unat (fof w (ext_path e nm ext))"
  shows "slot_written e nm ext off data w m' w'"
proof -
  let ?p = "ext_path e nm ext"
  have path: "bc_map_path e nm m = ?p" using ext by (simp add: bc_map_path_ext)
  note wp = write_postD [OF post, unfolded path]
  have slot: "slot_ok e nm ext m' w'" and t: "touches ?p w w'"
    using map_post_slot [OF wp(1) ext] wp(2) by auto
  moreover have "m_fd m' \<noteq> 0" using slot wp(2) by (auto simp: slot_ok_def map_ok_def)
  moreover have "capacity w' ?p n" if "capacity w ?p (length data + n)" for n
    using capacity_write [OF post, of n] off that by (simp add: path)
  moreover have "capacity w' ?p n"
    if "off + length data \<le> unat (fof w ?p)" "length data \<le> n" "capacity w ?p n" for n
    using post that unfolding write_post_def path
    by (auto simp: Let_def capacity_def grow_bound_def max_def split: if_splits)
  ultimately show ?thesis
    using wp by (simp add: slot_written_def map_post_def)
qed

lemma slot_write:
  assumes os: "os_ok e" and wok: "world_ok e w" and slot: "slot_ok e nm ext m w" and ext: "m_ext m = ext"
    and cap: "capacity w (ext_path e nm ext) (length data)"
    and off: "unat off \<le> unat (fof w (ext_path e nm ext))"
  obtains m' w' where "bc_map_write e nm m off data w = Some (0, m', w')"
    and "slot_written e nm ext (unat off) data w m' w'"
proof -
  have path: "bc_map_path e nm m = ext_path e nm ext" using ext by (simp add: bc_map_path_ext)
  obtain m' w' where "bc_map_write e nm m off data w = Some (0, m', w')"
    and "write_post e nm m w (unat off) data m' w'"
    using bc_map_write_ok [OF os wok slot_ok_map_ok [OF slot ext], of data off]
      capacity_room [OF cap order_refl] off
    by (auto simp: returns_def path)
  with that write_post_slot [OF _ ext off] show ?thesis by blast
qed

lemma slot_append:
  assumes os: "os_ok e" and wok: "world_ok e w" and slot: "slot_ok e nm ext m w" and ext: "m_ext m = ext"
    and cap: "capacity w (ext_path e nm ext) (length data)"
  obtains m' w' where "bc_map_append e nm m data w = Some (0, m', w')"
    and "slot_written e nm ext (unat (fof w (ext_path e nm ext))) data w m' w'"
proof -
  have path: "bc_map_path e nm m = ext_path e nm ext" using ext by (simp add: bc_map_path_ext)
  obtain m' w' where "bc_map_append e nm m data w = Some (0, m', w')"
    and "write_post e nm m w (unat (fof w (ext_path e nm ext))) data m' w'"
    using bc_map_append_ok [OF os wok slot_ok_map_ok [OF slot ext], of data]
      capacity_room [OF cap order_refl]
    by (auto simp: returns_def path)
  with that write_post_slot [OF _ ext order_refl] show ?thesis by blast
qed

end
