(* ===== verification/Bc_Table.thy ===== *)
theory Bc_Table
  imports Bc_State
begin

text \<open>
  The hash table of a block database, \<^verbatim>\<open>blockchain/bc_table.c\<close>: a mapped array of 64-bit cells,
  one per value of \<open>bc_table_hash\<close>. A cell is \<open>BC_TABLE_SEARCH_POS\<close> (nothing known, the index must
  be searched), \<open>BC_TABLE_NULL_POS\<close> (no record of the index has this table hash) or the highest
  index position with this table hash. The lock of these functions is taken and released without
  looking at whether it was obtained, so that the locked functions and their bodies coincide.
\<close>

type_synonym bc_hash_t = "u32 list"

definition BC_TABLE_SIZE :: nat where "BC_TABLE_SIZE = 262144"
definition BC_TABLE_POS_MASK :: u64 where "BC_TABLE_POS_MASK = 0xFFFFFFFFFFFFFFF0"
definition BC_TABLE_NULL_POS :: u64 where "BC_TABLE_NULL_POS = 0xFFFFFFFFFFFFFFF1"
definition BC_TABLE_SEARCH_POS :: u64 where "BC_TABLE_SEARCH_POS = 0"

lemmas tab_consts = BC_TABLE_POS_MASK_def BC_TABLE_NULL_POS_def BC_TABLE_SEARCH_POS_def

section \<open>Operations\<close>

fun hash_sum :: "bc_hash_t \<Rightarrow> nat \<Rightarrow> u32 \<Rightarrow> u32" where
  "hash_sum (x # xs) (Suc n) val = hash_sum xs n (val + x)"
| "hash_sum xs n val = val"

definition bc_table_hash :: "bc_hash_t \<Rightarrow> nat" where
  "bc_table_hash hash = unat (hash_sum hash 8 0) mod BC_TABLE_SIZE"

definition bc_table_pos :: "bc_t \<Rightarrow> bc_hash_t \<Rightarrow> nat option" where
  "bc_table_pos bc hash = (if m_hdr (tab_map bc) = None then None else Some (bc_table_hash hash))"

definition cell_load :: "bc_t \<Rightarrow> nat \<Rightarrow> world \<Rightarrow> u64 option" where
  "cell_load bc k w = map_option (\<lambda>bs. of_nat (le_dec bs)) (map_load w (tab_map bc) (8 * k) 8)"

definition cell_store :: "bc_t \<Rightarrow> nat \<Rightarrow> u64 \<Rightarrow> world \<Rightarrow> world option" where
  "cell_store bc k v w = map_store (tab_map bc) (8 * k) (le_enc 8 (unat v)) w"

definition bc_table_open :: "env \<Rightarrow> bc_t \<Rightarrow> world \<Rightarrow> (int \<times> bc_t \<times> world) option" where
  "bc_table_open e bc w =
     (if m_fd (tab_map bc) \<noteq> 0 then Some (0, bc, w)
      else do {
        (err, m, w) \<leftarrow> bc_map_open e (bc_name bc) ((tab_map bc)\<lparr>m_ext := ''tab''\<rparr>) w;
        if err \<noteq> 0 then Some (err, bc\<lparr>tab_map := m\<rparr>, w)
        else do {
          (err, m, w) \<leftarrow> bc_map_alloc e (bc_name bc) m (of_nat (BC_TABLE_SIZE * 8)) w;
          if err \<noteq> 0 then Some (err, bc\<lparr>tab_map := m\<rparr>, w)
          else Some (0, bc\<lparr>tab_map := m\<rparr>, w) } })"

text \<open>
  \<open>bc_table_get\<close> returns the code and the value left in the caller's \<open>ret_pos\<close>, which is not
  written when the table cannot be opened: \<open>pos0\<close> is its value before the call.
\<close>

definition bc_table_get ::
    "env \<Rightarrow> bc_t \<Rightarrow> bc_hash_t \<Rightarrow> u64 \<Rightarrow> world \<Rightarrow> ((int \<times> u64) \<times> bc_t \<times> world) option" where
  "bc_table_get e bc hash pos0 w = do {
     (err, bc, w) \<leftarrow> bc_table_open e bc w;
     if err \<noteq> 0 then Some ((err, pos0), bc, w)
     else case bc_table_pos bc hash of
       None \<Rightarrow> Some ((SHERR_INVAL, BC_TABLE_NULL_POS), bc, w)
     | Some k \<Rightarrow> do {
         v \<leftarrow> cell_load bc k w;
         if v = BC_TABLE_SEARCH_POS then Some ((SHERR_SRCH, BC_TABLE_NULL_POS), bc, w)
         else if v = BC_TABLE_NULL_POS then Some ((SHERR_NOENT, BC_TABLE_NULL_POS), bc, w)
         else Some ((0, v), bc, w) } }"

text \<open>The cell after \<open>bc_table_set\<close>: the highest position is retained.\<close>

definition cell_set :: "u64 \<Rightarrow> u64 \<Rightarrow> u64" where
  "cell_set old pos = (if old < pos \<or> old \<ge> BC_TABLE_POS_MASK then pos else old)"

definition bc_table_set ::
    "env \<Rightarrow> bc_t \<Rightarrow> bc_hash_t \<Rightarrow> u64 \<Rightarrow> world \<Rightarrow> (int \<times> bc_t \<times> world) option" where
  "bc_table_set e bc hash pos w =
     (if pos \<ge> BC_TABLE_POS_MASK then Some (SHERR_INVAL, bc, w)
      else do {
        (err, bc, w) \<leftarrow> bc_table_open e bc w;
        if err \<noteq> 0 then Some (err, bc, w)
        else case bc_table_pos bc hash of
          None \<Rightarrow> Some (SHERR_INVAL, bc, w)
        | Some k \<Rightarrow> do {
            v \<leftarrow> cell_load bc k w;
            w \<leftarrow> cell_store bc k (cell_set v pos) w;
            Some (0, bc, w) } })"

definition bc_table_put ::
    "env \<Rightarrow> bc_t \<Rightarrow> bc_hash_t \<Rightarrow> u64 \<Rightarrow> world \<Rightarrow> (int \<times> bc_t \<times> world) option" where
  "bc_table_put e bc hash v w = do {
     (err, bc, w) \<leftarrow> bc_table_open e bc w;
     if err \<noteq> 0 then Some (err, bc, w)
     else case bc_table_pos bc hash of
       None \<Rightarrow> Some (SHERR_INVAL, bc, w)
     | Some k \<Rightarrow> do { w \<leftarrow> cell_store bc k v w; Some (0, bc, w) } }"

definition bc_table_unset ::
    "env \<Rightarrow> bc_t \<Rightarrow> bc_hash_t \<Rightarrow> world \<Rightarrow> (int \<times> bc_t \<times> world) option" where
  "bc_table_unset e bc hash w = bc_table_put e bc hash BC_TABLE_NULL_POS w"

definition bc_table_reset ::
    "env \<Rightarrow> bc_t \<Rightarrow> bc_hash_t \<Rightarrow> world \<Rightarrow> (int \<times> bc_t \<times> world) option" where
  "bc_table_reset e bc hash w = bc_table_put e bc hash BC_TABLE_SEARCH_POS w"

definition bc_table_close :: "env \<Rightarrow> bc_t \<Rightarrow> world \<Rightarrow> (bc_t \<times> world) option" where
  "bc_table_close e bc w =
     (if m_fd (tab_map bc) \<noteq> 0
      then do { (m, w) \<leftarrow> bc_map_close e (tab_map bc) w; Some (bc\<lparr>tab_map := m\<rparr>, w) }
      else Some (bc, w))"

text \<open>\<open>bc_table_clear\<close> overwrites the whole mapped content with zero bytes.\<close>

definition bc_table_clear :: "env \<Rightarrow> bc_t \<Rightarrow> world \<Rightarrow> (int \<times> bc_t \<times> world) option" where
  "bc_table_clear e bc w = do {
     (err, bc, w) \<leftarrow> bc_table_open e bc w;
     if err \<noteq> 0 then Some (err, bc, w)
     else do {
       f \<leftarrow> map_file w (tab_map bc);
       _ \<leftarrow> map_load w (tab_map bc) 0 (m_size (tab_map bc) - 16);
       Some (0, bc, file_upd (the (m_hdr (tab_map bc)))
         (f\<lparr>f_raw := (\<lambda>i. if i < m_size (tab_map bc) - 16 then 0 else f_raw f i)\<rparr>) w) } }"

section \<open>The cells\<close>

definition tab_at :: "env \<Rightarrow> string \<Rightarrow> world \<Rightarrow> nat \<Rightarrow> u64" where
  "tab_at e nm w k = of_nat (le_dec (mem_load (fraw w (ext_path e nm ''tab'')) (8 * k) 8))"

lemma bc_table_hash_less: "bc_table_hash h < BC_TABLE_SIZE"
  by (simp add: bc_table_hash_def BC_TABLE_SIZE_def)

text \<open>The table is open: its slot is mapped with room for every cell.\<close>

lemma tab_mapped:
  assumes "bc_ok e bc w" and "m_fd (tab_map bc) \<noteq> 0"
  shows "m_hdr (tab_map bc) = Some (ext_path e (bc_name bc) ''tab'')"
    and "map_file w (tab_map bc) = Some (file_at w (ext_path e (bc_name bc) ''tab''))"
    and "k < BC_TABLE_SIZE \<Longrightarrow> map_inside w (tab_map bc) (8 * k) 8"
proof -
  have "m_hdr (tab_map bc) = Some (ext_path e (bc_name bc) ''tab'') \<and>
    m_size (tab_map bc) = fsize w (ext_path e (bc_name bc) ''tab'') \<and>
    w_file w (ext_path e (bc_name bc) ''tab'') \<noteq> None"
    using assms by (intro slot_ok_mapped) (auto simp: bc_ok_def)
  moreover from this show mf: "map_file w (tab_map bc) = Some (file_at w (ext_path e (bc_name bc) ''tab''))"
    by (auto simp: map_file_def file_at_def)
  moreover have "16 + TAB_BYTES \<le> fsize w (ext_path e (bc_name bc) ''tab'')"
    using assms by (simp add: bc_ok_def)
  ultimately show "m_hdr (tab_map bc) = Some (ext_path e (bc_name bc) ''tab'')"
    and "k < BC_TABLE_SIZE \<Longrightarrow> map_inside w (tab_map bc) (8 * k) 8"
    by (auto simp: map_inside_def TAB_BYTES_def BC_TABLE_SIZE_def fsize_def)
qed

lemma cell_load_ok:
  assumes "bc_ok e bc w" and "m_fd (tab_map bc) \<noteq> 0" and "k < BC_TABLE_SIZE"
  shows "cell_load bc k w = Some (tab_at e (bc_name bc) w k)"
  using tab_mapped [OF assms(1,2)] assms(3)
  by (simp add: cell_load_def map_load_def tab_at_def fraw_def)

lemma le_dec_u64: "of_nat (le_dec (le_enc 8 (unat (v :: u64)))) = v"
  using unat_less_2p [of v] by (simp add: le_dec_enc)

lemma file_ok_raw_same:
  "file_ok e f \<Longrightarrow> 16 + off + length bs \<le> f_size f \<Longrightarrow>
     file_ok e (f\<lparr>f_raw := mem_store (f_raw f) off bs\<rparr>)"
  by (auto simp: file_ok_def mem_store_def)

text \<open>
  Storing a cell of an open table: every other cell and every other file keep their content.
\<close>

lemma slot_ok_same_size:
  assumes "slot_ok e nm ext m w" and "m_fd m \<noteq> 0"
    and "f_size f = fsize w (ext_path e nm ext)"
  shows "slot_ok e nm ext m (file_upd (ext_path e nm ext) f w)"
  using assms by (auto simp: slot_ok_def map_ok_def bc_map_path_ext fsize_def)

lemma cell_store_ok:
  assumes ok: "bc_ok e bc w" and fd: "m_fd (tab_map bc) \<noteq> 0" and k: "k < BC_TABLE_SIZE"
  shows "\<exists>w'. cell_store bc k v w = Some w' \<and> bc_step e {''tab''} {} bc w bc w' \<and>
     (\<forall>j. tab_at e (bc_name bc) w' j = (if j = k then v else tab_at e (bc_name bc) w j))"
proof -
  let ?p = "ext_path e (bc_name bc) ''tab''"
  let ?f = "file_at w ?p"
  let ?g = "?f\<lparr>f_raw := mem_store (f_raw ?f) (8 * k) (le_enc 8 (unat v))\<rparr>"
  let ?w = "file_upd ?p ?g w"
  note tm = tab_mapped [OF ok fd]
  have st: "cell_store bc k v w = Some ?w"
    using tm k by (simp add: cell_store_def map_store_def)
  have fok: "file_ok e ?f"
    using tm(2) ok by (auto simp: map_file_def bc_ok_def file_at_def tm(1) dest: world_okD)
  have "16 + 8 * k + 8 \<le> f_size ?f" using tm(2) tm(3) [OF k] by (simp add: map_inside_def)
  then have gok: "file_ok e ?g" using fok by (intro file_ok_raw_same) auto
  have t: "touches ?p w ?w" by simp
  have sz: "fsize ?w ?p = fsize w ?p" "fof ?w ?p = fof w ?p" by (simp_all add: fsize_def fof_def)
  have slot: "slot_ok e (bc_name bc) ''tab'' (tab_map bc) ?w"
    using ok fd by (intro slot_ok_same_size) (auto simp: bc_ok_def fsize_def)
  have "bc_ok e (bc\<lparr>tab_map := tab_map bc\<rparr>) ?w"
    using ok fd slot gok t sz
    by (intro bc_ok_tab) (auto simp: bc_ok_def world_ok_upd capacity_def)
  then have "bc_ok e bc ?w" by simp
  then have "bc_step e {''tab''} {''tab''} bc w bc ?w"
    using t by (intro bc_stepI [where x = "''tab''"]) auto
  then have step: "bc_step e {''tab''} {} bc w bc ?w"
    using sz(1) by (rule bc_step_same_size)
  have "tab_at e (bc_name bc) ?w j = (if j = k then v else tab_at e (bc_name bc) w j)" for j
    by (cases "j = k"; cases "j < k")
      (auto simp: tab_at_def fraw_def mem_simps le_dec_u64)
  with st step show ?thesis by blast
qed

lemma bc_table_open_ok:
  assumes os: "os_ok e" and ok: "bc_ok e bc w"
  shows "returns 0 (bc_table_open e bc w)
     (\<lambda>(bc', w'). bc_step e {} {''tab''} bc w bc' w' \<and> m_fd (tab_map bc') \<noteq> 0)"
proof (cases "m_fd (tab_map bc) = 0")
  case False
  with ok show ?thesis by (simp add: bc_table_open_def bc_step_refl)
next
  case True
  let ?m = "(tab_map bc)\<lparr>m_ext := ''tab''\<rparr>" and ?p = "ext_path e (bc_name bc) ''tab''"
  define n where "n = (of_nat (BC_TABLE_SIZE * 8) :: u32)"
  have n: "unat n = TAB_BYTES" by (simp add: n_def BC_TABLE_SIZE_def TAB_BYTES_def)
  have wok: "world_ok e w" and slot0: "slot_ok e (bc_name bc) ''tab'' (tab_map bc) w"
    and cap: "capacity w ?p (unat n)"
    using ok by (auto simp: bc_ok_def n)
  obtain m1 w1 m2 w2 where op: "bc_map_open e (bc_name bc) ?m w = Some (0, m1, w1)"
    and al: "bc_map_alloc e (bc_name bc) m1 n w1 = Some (0, m2, w2)"
    and post: "alloc_post e (bc_name bc) ?m w (unat n) m2 w2"
    using slot_open_alloc [OF os wok slot0 cap] by metis
  have path: "bc_map_path e (bc_name bc) ?m = ?p" by (simp add: bc_map_path_ext)
  note ap = alloc_postD [OF post, unfolded path n]
  have slot: "slot_ok e (bc_name bc) ''tab'' m2 w2" and t: "touches ?p w w2"
    using map_post_slot [OF ap(1), of "''tab''"] ap(2) by auto
  have "capacity w2 ?p TAB_BYTES"
    using capacity_alloc [OF post, of TAB_BYTES, unfolded path n] ok by (simp add: bc_ok_def)
  then have ok2: "bc_ok e (bc\<lparr>tab_map := m2\<rparr>) w2"
    using ok slot t ap(1,5) by (intro bc_ok_tab) (auto simp: map_post_def)
  have "bc_step e {} {''tab''} bc w (bc\<lparr>tab_map := m2\<rparr>) w2"
    using ok2 t ap(3,4) by (intro bc_stepI [where x = "''tab''"]) auto
  moreover have "m_fd m2 \<noteq> 0"
    using slot ap(2) by (auto simp: slot_ok_def map_ok_def)
  ultimately show ?thesis
    using True op al by (simp add: bc_table_open_def n_def)
qed


section \<open>What the operations do to the cells\<close>

definition cell_status :: "u64 \<Rightarrow> int \<times> u64" where
  "cell_status v = (if v = BC_TABLE_SEARCH_POS then (SHERR_SRCH, BC_TABLE_NULL_POS)
     else if v = BC_TABLE_NULL_POS then (SHERR_NOENT, BC_TABLE_NULL_POS) else (0, v))"

lemma bc_table_pos_mapped:
  "bc_ok e bc w \<Longrightarrow> m_fd (tab_map bc) \<noteq> 0 \<Longrightarrow> bc_table_pos bc h = Some (bc_table_hash h)"
  by (simp add: bc_table_pos_def tab_mapped)

lemma tab_at_step:
  "bc_step e P Q bc w bc' w' \<Longrightarrow> ''tab'' \<notin> P \<Longrightarrow> tab_at e (bc_name bc) w' k = tab_at e (bc_name bc) w k"
  by (simp add: tab_at_def bc_stepD)

lemma bc_table_get_ok:
  assumes os: "os_ok e" and ok: "bc_ok e bc w"
  shows "returns (cell_status (tab_at e (bc_name bc) w (bc_table_hash h)))
     (bc_table_get e bc h pos0 w) (\<lambda>(bc', w'). bc_step e {} {''tab''} bc w bc' w')"
proof -
  obtain bc1 w1 where op: "bc_table_open e bc w = Some (0, bc1, w1)"
    and st: "bc_step e {} {''tab''} bc w bc1 w1" and fd: "m_fd (tab_map bc1) \<noteq> 0"
    using bc_table_open_ok [OF os ok] by (auto simp: returns_def)
  note ok1 = bc_stepD(1) [OF st]
  have "cell_load bc1 (bc_table_hash h) w1 = Some (tab_at e (bc_name bc) w (bc_table_hash h))"
    using cell_load_ok [OF ok1 fd bc_table_hash_less] tab_at_step [OF st] bc_stepD(2) [OF st]
    by simp
  with op st show ?thesis
    by (auto simp: bc_table_get_def cell_status_def bc_table_pos_mapped [OF ok1 fd])
qed

lemma bc_table_store_ok:
  assumes os: "os_ok e" and ok: "bc_ok e bc w"
  obtains bc1 w1 w2 where "bc_table_open e bc w = Some (0, bc1, w1)"
    and "bc_table_pos bc1 h = Some (bc_table_hash h)"
    and "cell_load bc1 (bc_table_hash h) w1 = Some (tab_at e (bc_name bc) w (bc_table_hash h))"
    and "cell_store bc1 (bc_table_hash h) v w1 = Some w2"
    and "bc_step e {''tab''} {''tab''} bc w bc1 w2"
    and "\<And>j. tab_at e (bc_name bc) w2 j =
       (if j = bc_table_hash h then v else tab_at e (bc_name bc) w j)"
proof -
  obtain bc1 w1 where op: "bc_table_open e bc w = Some (0, bc1, w1)"
    and st: "bc_step e {} {''tab''} bc w bc1 w1" and fd: "m_fd (tab_map bc1) \<noteq> 0"
    using bc_table_open_ok [OF os ok] by (auto simp: returns_def)
  note ok1 = bc_stepD(1) [OF st] and nm = bc_stepD(2) [OF st]
  obtain w2 where cs: "cell_store bc1 (bc_table_hash h) v w1 = Some w2"
    and st2: "bc_step e {''tab''} {} bc1 w1 bc1 w2"
    and cells: "\<forall>j. tab_at e (bc_name bc1) w2 j =
       (if j = bc_table_hash h then v else tab_at e (bc_name bc1) w1 j)"
    using cell_store_ok [OF ok1 fd bc_table_hash_less] by blast
  have "cell_load bc1 (bc_table_hash h) w1 = Some (tab_at e (bc_name bc) w (bc_table_hash h))"
    using cell_load_ok [OF ok1 fd bc_table_hash_less] tab_at_step [OF st] nm by simp
  moreover have "bc_step e {''tab''} {''tab''} bc w bc1 w2"
    by (rule bc_step_trans [OF st st2]) auto
  moreover have "tab_at e (bc_name bc) w2 j =
       (if j = bc_table_hash h then v else tab_at e (bc_name bc) w j)" for j
    using cells tab_at_step [OF st] nm by simp
  ultimately show ?thesis
    using that op cs bc_table_pos_mapped [OF ok1 fd] by blast
qed

lemma bc_table_put_ok:
  assumes os: "os_ok e" and ok: "bc_ok e bc w"
  shows "returns 0 (bc_table_put e bc h v w) (\<lambda>(bc', w'). bc_step e {''tab''} {''tab''} bc w bc' w' \<and>
     (\<forall>j. tab_at e (bc_name bc) w' j =
        (if j = bc_table_hash h then v else tab_at e (bc_name bc) w j)))"
  by (rule bc_table_store_ok [OF os ok, of h v]) (auto simp: bc_table_put_def)

lemma bc_table_set_ok:
  assumes os: "os_ok e" and ok: "bc_ok e bc w" and pos: "pos < BC_TABLE_POS_MASK"
  shows "returns 0 (bc_table_set e bc h pos w) (\<lambda>(bc', w'). bc_step e {''tab''} {''tab''} bc w bc' w' \<and>
     (\<forall>j. tab_at e (bc_name bc) w' j = (if j = bc_table_hash h
        then cell_set (tab_at e (bc_name bc) w j) pos else tab_at e (bc_name bc) w j)))"
proof -
  have np: "\<not> BC_TABLE_POS_MASK \<le> pos" using pos by simp
  show ?thesis
    by (rule bc_table_store_ok
        [OF os ok, of h "cell_set (tab_at e (bc_name bc) w (bc_table_hash h)) pos"])
      (simp add: bc_table_set_def np)
qed

section \<open>The contract of a position cache\<close>

text \<open>
  What the index relies on: a cache cell may be unknown, may say that no position is used, or may
  give an upper bound of the positions used. \<open>sound S c\<close>: the cell \<open>c\<close> tells the truth about the set
  \<open>S\<close> of the positions in use. The client's three steps are lemmas of the locale: an insertion
  followed by a reset, a removal, and the bound recorded by a search.
\<close>

locale pos_cache =
  fixes unknown absent :: 'c
    and bound :: "'c \<Rightarrow> nat option"
    and put :: "'c \<Rightarrow> nat \<Rightarrow> 'c"
    and limit :: nat
  assumes bound_unknown: "bound unknown = None"
    and bound_absent: "bound absent = None"
    and unknown_absent: "unknown \<noteq> absent"
    and put_bound: "n < limit \<Longrightarrow> put c n \<noteq> absent \<and>
      (put c n = unknown \<or> (\<exists>b. bound (put c n) = Some b \<and> n \<le> b))"
begin

definition sound :: "nat set \<Rightarrow> 'c \<Rightarrow> bool" where
  "sound S c \<longleftrightarrow> c = unknown \<or> (c = absent \<and> S = {}) \<or>
     (c \<noteq> absent \<and> (\<exists>b. bound c = Some b \<and> (\<forall>i\<in>S. i \<le> b)))"

lemma sound_unknown: "sound S unknown"
  by (simp add: sound_def)

lemma sound_absent: "sound {} absent"
  by (simp add: sound_def)

lemma sound_absent_iff: "sound S absent \<longleftrightarrow> S = {}"
  using unknown_absent by (auto simp: sound_def)

lemma sound_bound: "sound S c \<Longrightarrow> bound c = Some b \<Longrightarrow> i \<in> S \<Longrightarrow> i \<le> b"
  using bound_unknown by (auto simp: sound_def)

lemma sound_subset: "sound S c \<Longrightarrow> T \<subseteq> S \<Longrightarrow> sound T c"
  by (fastforce simp: sound_def)

lemma sound_put:
  assumes "n < limit" and "\<forall>i\<in>S. i \<le> n"
  shows "sound S (put c n)"
  using put_bound [OF assms(1), of c] assms(2) order_trans unfolding sound_def by blast

end

definition cell_bound :: "u64 \<Rightarrow> nat option" where
  "cell_bound v = (if v = BC_TABLE_SEARCH_POS \<or> v = BC_TABLE_NULL_POS then None else Some (unat v))"

definition cell_put :: "u64 \<Rightarrow> nat \<Rightarrow> u64" where
  "cell_put v n = cell_set v (of_nat n)"

lemma cell_put_bound:
  assumes "n < 2147483648"
  shows "cell_put c n \<noteq> BC_TABLE_NULL_POS \<and> (cell_put c n = BC_TABLE_SEARCH_POS \<or>
     (\<exists>b. cell_bound (cell_put c n) = Some b \<and> n \<le> b))"
proof -
  have n: "unat (of_nat n :: u64) = n" using assms by (simp add: unat_of_nat)
  have m: "unat BC_TABLE_POS_MASK = 18446744073709551600" "unat BC_TABLE_NULL_POS = 18446744073709551601"
    by (simp_all add: tab_consts)
  show ?thesis
    using assms n m
    by (auto simp: cell_put_def cell_set_def cell_bound_def word_less_nat_alt word_le_nat_alt
        word_unat_eq_iff BC_TABLE_SEARCH_POS_def)
qed


interpretation tab: pos_cache BC_TABLE_SEARCH_POS BC_TABLE_NULL_POS cell_bound cell_put 2147483648
proof unfold_locales
  show "cell_bound BC_TABLE_SEARCH_POS = None" "cell_bound BC_TABLE_NULL_POS = None"
    by (simp_all add: cell_bound_def)
  show "BC_TABLE_SEARCH_POS \<noteq> BC_TABLE_NULL_POS" by (simp add: tab_consts)
qed (rule cell_put_bound)

end
