(* ===== verification/Bc_Index.thy ===== *)
theory Bc_Index
  imports Bc_Table
begin

text \<open>
  The index of a block database, \<^verbatim>\<open>blockchain/bc_index.c\<close>: a mapped array of 64-byte records
  \<open>bc_idx_t\<close>, one per block position, each giving journal, offset, size and checksum of the block's
  data and its hash. A record of size zero is a hole. \<open>bc_idx_find\<close> looks a hash up from the highest
  position down, using and maintaining the cells of the hash table.
\<close>

record bc_idx =
  i_jrnl :: u32
  i_of :: u32
  i_size :: u32
  i_crc :: u32
  i_res0 :: u64
  i_res1 :: u64
  i_hash :: bc_hash_t

definition zero_idx :: bc_idx where
  "zero_idx = \<lparr>i_jrnl = 0, i_of = 0, i_size = 0, i_crc = 0, i_res0 = 0, i_res1 = 0,
     i_hash = replicate 8 0\<rparr>"

text \<open>The 64 bytes of a record in memory, and the record that 64 bytes hold.\<close>

definition idx_enc :: "bc_idx \<Rightarrow> u8 list" where
  "idx_enc x = le_enc 4 (unat (i_jrnl x)) @ le_enc 4 (unat (i_of x)) @ le_enc 4 (unat (i_size x)) @
     le_enc 4 (unat (i_crc x)) @ le_enc 8 (unat (i_res0 x)) @ le_enc 8 (unat (i_res1 x)) @
     concat (map (\<lambda>h. le_enc 4 (unat h)) (i_hash x))"

fun hash_dec :: "nat \<Rightarrow> u8 list \<Rightarrow> bc_hash_t" where
  "hash_dec 0 bs = []"
| "hash_dec (Suc n) bs = of_nat (le_dec (take 4 bs)) # hash_dec n (drop 4 bs)"

definition idx_dec :: "u8 list \<Rightarrow> bc_idx" where
  "idx_dec bs = \<lparr>
     i_jrnl = of_nat (le_dec (take 4 bs)),
     i_of = of_nat (le_dec (take 4 (drop 4 bs))),
     i_size = of_nat (le_dec (take 4 (drop 8 bs))),
     i_crc = of_nat (le_dec (take 4 (drop 12 bs))),
     i_res0 = of_nat (le_dec (take 8 (drop 16 bs))),
     i_res1 = of_nat (le_dec (take 8 (drop 24 bs))),
     i_hash = hash_dec 8 (drop 32 bs)\<rparr>"

section \<open>Operations\<close>

definition bc_hash_cmp :: "bc_hash_t \<Rightarrow> bc_hash_t \<Rightarrow> bool" where
  "bc_hash_cmp a b \<longleftrightarrow> concat (map (\<lambda>h. le_enc 4 (unat h)) a) = concat (map (\<lambda>h. le_enc 4 (unat h)) b)"

definition idx_load :: "world \<Rightarrow> bc_map \<Rightarrow> nat \<Rightarrow> bc_idx option" where
  "idx_load w m i = map_option idx_dec (map_load w m (64 * i) 64)"

definition bc_idx_open :: "env \<Rightarrow> bc_t \<Rightarrow> world \<Rightarrow> (int \<times> bc_t \<times> world) option" where
  "bc_idx_open e bc w =
     (if m_fd (idx_map bc) \<noteq> 0 then Some (0, bc, w)
      else do {
        (err, m, w) \<leftarrow> bc_map_open e (bc_name bc) ((idx_map bc)\<lparr>m_ext := ''idx''\<rparr>) w;
        if err \<noteq> 0 then Some (err, bc\<lparr>idx_map := m\<rparr>, w)
        else do {
          (err, m, w) \<leftarrow> bc_map_alloc e (bc_name bc) m 0 w;
          if err \<noteq> 0 then Some (err, bc\<lparr>idx_map := m\<rparr>, w)
          else Some (0, bc\<lparr>idx_map := m\<rparr>, w) } })"

definition bc_idx_close :: "env \<Rightarrow> bc_t \<Rightarrow> world \<Rightarrow> (bc_t \<times> world) option" where
  "bc_idx_close e bc w =
     (if m_fd (idx_map bc) \<noteq> 0
      then do { (m, w) \<leftarrow> bc_map_close e (idx_map bc) w; Some (bc\<lparr>idx_map := m\<rparr>, w) }
      else Some (bc, w))"

text \<open>
  The loop of \<open>bc_idx_find\<close> over \<open>i = n-1, \<dots>, 0\<close>: the index it stops at (-1 when it runs out) and
  the final \<open>pos_high\<close>.
\<close>

fun bc_idx_scan ::
    "world \<Rightarrow> bc_map \<Rightarrow> bc_hash_t \<Rightarrow> nat \<Rightarrow> nat \<Rightarrow> int \<Rightarrow> (int \<times> int) option" where
  "bc_idx_scan w m hash tab_hash 0 pos_high = Some (-1, pos_high)"
| "bc_idx_scan w m hash tab_hash (Suc i) pos_high = do {
     x \<leftarrow> idx_load w m i;
     if i_size x = 0 then bc_idx_scan w m hash tab_hash i pos_high
     else
       let pos_high = (if bc_table_hash (i_hash x) = tab_hash then max pos_high (int i) else pos_high)
       in if bc_hash_cmp hash (i_hash x) then Some (int i, pos_high)
          else bc_idx_scan w m hash tab_hash i pos_high }"

text \<open>\<open>bc_idx_find\<close> from the reading of the length on, with the index open.\<close>

definition bc_idx_find_from ::
    "env \<Rightarrow> bc_t \<Rightarrow> bc_hash_t \<Rightarrow> u64 \<Rightarrow> int \<Rightarrow> world \<Rightarrow>
       ((int \<times> (bc_idx \<times> nat) option) \<times> bc_t \<times> world) option" where
  "bc_idx_find_from e bc hash pos pos_high w = do {
     h \<leftarrow> hdr_of w (idx_map bc);
     let len = of_nat (unat h div 64) - 1 :: u32;
         pos_high = (if (word_of_int pos_high :: u32) > len then -1 else pos_high);
         len = (if pos_high \<noteq> -1 then word_of_int pos_high else len)
     in do {
       (i, pos_high) \<leftarrow> bc_idx_scan w (idx_map bc) hash (bc_table_hash hash) (nat (sint len + 1)) pos_high;
       (_, bc, w) \<leftarrow>
         (if pos_high \<noteq> -1
          then if pos \<noteq> word_of_int pos_high
               then bc_table_set e bc hash (word_of_int pos_high) w
               else Some (0, bc, w)
          else if i < 0 then bc_table_unset e bc hash w
          else Some (0, bc, w));
       if i < 0 then Some ((SHERR_NOENT, None), bc, w)
       else do {
         x \<leftarrow> idx_load w (idx_map bc) (nat i);
         Some ((0, Some (x, nat i)), bc, w) } } }"

definition bc_idx_find ::
    "env \<Rightarrow> bc_t \<Rightarrow> bc_hash_t \<Rightarrow> world \<Rightarrow> ((int \<times> (bc_idx \<times> nat) option) \<times> bc_t \<times> world) option" where
  "bc_idx_find e bc hash w = do {
     ((err, pos), bc, w) \<leftarrow> bc_table_get e bc hash BC_TABLE_NULL_POS w;
     if err = SHERR_NOENT then Some ((SHERR_NOENT, None), bc, w)
     else
       let pos_high = (if err = 0 then sint (ucast pos :: u32) else -1)
       in do {
         (err, bc, w) \<leftarrow> bc_idx_open e bc w;
         if err \<noteq> 0 then Some ((err, None), bc, w)
         else bc_idx_find_from e bc hash pos pos_high w } }"

definition bc_idx_get ::
    "env \<Rightarrow> bc_t \<Rightarrow> u32 \<Rightarrow> world \<Rightarrow> ((int \<times> bc_idx option) \<times> bc_t \<times> world) option" where
  "bc_idx_get e bc pos w = do {
     (err, bc, w) \<leftarrow> bc_idx_open e bc w;
     if err \<noteq> 0 then Some ((err, None), bc, w)
     else do {
       h \<leftarrow> hdr_of w (idx_map bc);
       if unat pos \<ge> unat h div 64 then Some ((SHERR_NOENT, None), bc, w)
       else do {
         x \<leftarrow> idx_load w (idx_map bc) (unat pos);
         if i_size x = 0 then Some ((SHERR_NOENT, None), bc, w)
         else Some ((0, Some x), bc, w) } } }"

definition bc_idx_set ::
    "env \<Rightarrow> bc_t \<Rightarrow> u32 \<Rightarrow> bc_idx \<Rightarrow> world \<Rightarrow> (int \<times> bc_t \<times> world) option" where
  "bc_idx_set e bc pos idx w = do {
     (err, bc, w) \<leftarrow> bc_idx_open e bc w;
     if err \<noteq> 0 then Some (err, bc, w)
     else do {
       ((err, _), bc, w) \<leftarrow> bc_idx_get e bc pos w;
       if err \<noteq> SHERR_NOENT then Some (SHERR_EXIST, bc, w)
       else do {
         h \<leftarrow> hdr_of w (idx_map bc);
         let off = of_nat (unat pos * 64) :: u32;
             size = m_size (idx_map bc)
         in do {
           (err, m, w) \<leftarrow>
             (if unat pos \<ge> unat h div 64 \<and> unat off + 64 > size
              then bc_map_alloc e (bc_name bc) (idx_map bc) (of_nat (unat off + 64 - size)) w
              else Some (0, idx_map bc, w));
           if err \<noteq> 0 then Some (err, bc\<lparr>idx_map := m\<rparr>, w)
           else do {
             (err, m, w) \<leftarrow> bc_map_write e (bc_name bc) m off (idx_enc idx) w;
             let bc = bc\<lparr>idx_map := m\<rparr>
             in if err \<noteq> 0 then Some (err, bc, w)
                else do {
                  (_, bc, w) \<leftarrow> bc_table_reset e bc (i_hash idx) w;
                  Some (0, bc, w) } } } } } }"

definition bc_idx_reset ::
    "env \<Rightarrow> bc_t \<Rightarrow> u32 \<Rightarrow> bc_idx \<Rightarrow> world \<Rightarrow> (int \<times> bc_t \<times> world) option" where
  "bc_idx_reset e bc pos idx w = do {
     (err, bc, w) \<leftarrow> bc_idx_open e bc w;
     if err \<noteq> 0 then Some (err, bc, w)
     else do {
       ((err, _), bc, w) \<leftarrow> bc_idx_get e bc pos w;
       if err \<noteq> 0 then Some (SHERR_NOENT, bc, w)
       else do {
         h \<leftarrow> hdr_of w (idx_map bc);
         let off = of_nat (unat pos * 64) :: u32
         in if unat pos \<ge> unat h div 64 \<or> unat off + 64 > m_size (idx_map bc)
            then Some (SHERR_IO, bc, w)
            else do {
              (err, m, w) \<leftarrow> bc_map_write e (bc_name bc) (idx_map bc) off (idx_enc idx) w;
              Some (err, bc\<lparr>idx_map := m\<rparr>, w) } } } }"

definition bc_idx_clear :: "env \<Rightarrow> bc_t \<Rightarrow> u32 \<Rightarrow> world \<Rightarrow> (int \<times> bc_t \<times> world) option" where
  "bc_idx_clear e bc pos w = do {
     (err, bc, w) \<leftarrow> bc_idx_open e bc w;
     if err \<noteq> 0 then Some (err, bc, w)
     else do {
       h \<leftarrow> hdr_of w (idx_map bc);
       let off = of_nat (unat pos * 64) :: u32
       in if unat pos \<ge> unat h div 64 \<and> unat off + 64 > m_size (idx_map bc)
          then Some (0, bc, w)
          else do {
            (err, m, w) \<leftarrow> bc_map_write e (bc_name bc) (idx_map bc) off (idx_enc zero_idx) w;
            Some (err, bc\<lparr>idx_map := m\<rparr>, w) } } }"

text \<open>\<open>bc_idx_next\<close> returns a \<open>bcsize_t\<close>, so that an error code becomes a large position.\<close>

definition bc_idx_next :: "env \<Rightarrow> bc_t \<Rightarrow> world \<Rightarrow> (u32 \<times> bc_t \<times> world) option" where
  "bc_idx_next e bc w = do {
     (err, bc, w) \<leftarrow> bc_idx_open e bc w;
     if err \<noteq> 0 then Some (word_of_int err, bc, w)
     else do {
       h \<leftarrow> hdr_of w (idx_map bc);
       Some (of_nat (unat h div 64), bc, w) } }"

section \<open>Encoding of a record\<close>

lemma length_concat_le: "length (concat (map (\<lambda>h. le_enc 4 (unat (h :: u32))) hs)) = 4 * length hs"
  by (induction hs) auto

lemma hash_dec_enc:
  "hash_dec (length hs) (concat (map (\<lambda>h. le_enc 4 (unat h)) hs)) = (hs :: bc_hash_t)"
  by (induction hs) auto

lemma length_idx_enc: "length (i_hash x) = 8 \<Longrightarrow> length (idx_enc x) = 64"
  by (simp add: idx_enc_def length_concat_le)

lemma bc_hash_cmp_eq: "length a = length b \<Longrightarrow> bc_hash_cmp a b \<longleftrightarrow> a = b"
  unfolding bc_hash_cmp_def by (metis hash_dec_enc)

lemma idx_dec_enc:
  assumes "length (i_hash x) = 8"
  shows "idx_dec (idx_enc x) = x"
proof -
  have "hash_dec 8 (concat (map (\<lambda>h. le_enc 4 (unat h)) (i_hash x))) = i_hash x"
    using hash_dec_enc [of "i_hash x"] assms by simp
  then show ?thesis
    by (simp add: idx_dec_def idx_enc_def le_dec_u64)
qed

lemma length_hash_dec [simp]: "length (hash_dec n bs) = n"
  by (induction n arbitrary: bs) auto

lemma length_i_hash_dec [simp]: "length (i_hash (idx_dec bs)) = 8"
  by (simp add: idx_dec_def)


lemma word_enc: "length bs = 4 \<Longrightarrow> le_enc 4 (unat (of_nat (le_dec bs) :: u32)) = bs"
  using le_enc_dec [of bs 4] le_dec_bound [of bs] by (simp add: unat_of_nat_u32)

lemma word_enc8: "length bs = 8 \<Longrightarrow> le_enc 8 (unat (of_nat (le_dec bs) :: u64)) = bs"
  using le_enc_dec [of bs 8] le_dec_bound [of bs] by (simp add: unat_of_nat take_bit_nat_eq_self)

lemma hash_enc: "length bs = 4 * n \<Longrightarrow> concat (map (\<lambda>h. le_enc 4 (unat h)) (hash_dec n bs)) = bs"
  by (induction n arbitrary: bs) (simp_all add: word_enc)

lemma idx_enc_dec:
  assumes "length bs = 64"
  shows "idx_enc (idx_dec bs) = bs"
proof -
  have cut: "drop n bs = take k (drop n bs) @ drop (n + k) bs" for n k
    by (metis add.commute append_take_drop_id drop_drop)
  have "bs = take 4 bs @ take 4 (drop 4 bs) @ take 4 (drop 8 bs) @ take 4 (drop 12 bs) @
      take 8 (drop 16 bs) @ take 8 (drop 24 bs) @ drop 32 bs"
    using cut [of 0 4] cut [of 4 4] cut [of 8 4] cut [of 12 4] cut [of 16 8] cut [of 24 8] by simp
  then show ?thesis
    using assms by (simp add: idx_enc_def idx_dec_def word_enc word_enc8 hash_enc)
qed

section \<open>The records of the index\<close>

text \<open>
  The records of an index file, by the extension of the file: the archive of \<^verbatim>\<open>bc_arch.c\<close> has the
  same format.
\<close>

definition rec_at :: "env \<Rightarrow> string \<Rightarrow> string \<Rightarrow> world \<Rightarrow> nat \<Rightarrow> bc_idx" where
  "rec_at e nm ext w i = idx_dec (mem_load (fraw w (ext_path e nm ext)) (64 * i) 64)"

definition rec_count :: "env \<Rightarrow> string \<Rightarrow> string \<Rightarrow> world \<Rightarrow> nat" where
  "rec_count e nm ext w = unat (fof w (ext_path e nm ext)) div 64"

abbreviation idx_at :: "env \<Rightarrow> string \<Rightarrow> world \<Rightarrow> nat \<Rightarrow> bc_idx" where
  "idx_at e nm w \<equiv> rec_at e nm ''idx'' w"

abbreviation idx_count :: "env \<Rightarrow> string \<Rightarrow> world \<Rightarrow> nat" where
  "idx_count e nm w \<equiv> rec_count e nm ''idx'' w"

definition live :: "env \<Rightarrow> string \<Rightarrow> world \<Rightarrow> nat \<Rightarrow> bool" where
  "live e nm w i \<longleftrightarrow> i < idx_count e nm w \<and> i_size (idx_at e nm w i) \<noteq> 0"

lemma length_idx_hash [simp]: "length (i_hash (rec_at e nm ext w i)) = 8"
  by (simp add: rec_at_def)

lemma rec_step:
  assumes "bc_step e P Q bc w bc' w'" and "ext \<notin> P"
  shows "rec_at e (bc_name bc) ext w' i = rec_at e (bc_name bc) ext w i"
    and "rec_count e (bc_name bc) ext w' = rec_count e (bc_name bc) ext w"
  using assms by (simp_all add: rec_at_def rec_count_def bc_stepD)

lemma idx_step:
  assumes "bc_step e P Q bc w bc' w'" and "''idx'' \<notin> P"
  shows "idx_at e (bc_name bc) w' i = idx_at e (bc_name bc) w i"
    and "idx_count e (bc_name bc) w' = idx_count e (bc_name bc) w"
    and "live e (bc_name bc) w' i = live e (bc_name bc) w i"
  using rec_step [OF assms] by (simp_all add: live_def)

lemma world_ok_fof: "world_ok e w \<Longrightarrow> w_file w p \<noteq> None \<Longrightarrow> 16 + unat (fof w p) \<le> fsize w p"
  by (auto simp: fof_def fsize_def file_at_def dest!: world_okD file_ok_bounds(2))

lemma rec_mapped:
  assumes wok: "world_ok e w" and slot: "slot_ok e nm ext m w" and fd: "m_fd m \<noteq> 0"
  shows "hdr_of w m = Some (fof w (ext_path e nm ext))" and "m_size m = fsize w (ext_path e nm ext)"
    and "16 + unat (fof w (ext_path e nm ext)) \<le> m_size m"
    and "i < rec_count e nm ext w \<Longrightarrow> idx_load w m i = Some (rec_at e nm ext w i)"
proof -
  let ?p = "ext_path e nm ext"
  have m: "m_hdr m = Some ?p" "m_size m = fsize w ?p" "w_file w ?p \<noteq> None"
    using slot_ok_mapped [OF slot fd] by auto
  then have f: "map_file w m = Some (file_at w ?p)"
    by (auto simp: map_file_def file_at_def)
  show "hdr_of w m = Some (fof w ?p)" by (simp add: hdr_of_def f fof_def)
  show "m_size m = fsize w ?p" by (rule m)
  show b: "16 + unat (fof w ?p) \<le> m_size m" using wok m world_ok_fof by auto
  show "idx_load w m i = Some (rec_at e nm ext w i)" if "i < rec_count e nm ext w"
  proof -
    have "64 * Suc i \<le> unat (fof w ?p)" using that by (simp add: rec_count_def)
    with b m(2) have "map_inside w m (64 * i) 64"
      by (simp add: map_inside_def f fsize_def)
    then show ?thesis by (simp add: idx_load_def map_load_def f rec_at_def fraw_def)
  qed
qed

lemmas idx_mapped = rec_mapped [where ext = "''idx''"]

lemma bc_ok_parts:
  assumes "bc_ok e bc w"
  shows "world_ok e w" "slot_ok e (bc_name bc) ''idx'' (idx_map bc) w"
    "slot_ok e (bc_name bc) ''arch'' (arch_map bc) w"
    "j < length (data_map bc) \<Longrightarrow> slot_ok e (bc_name bc) (nat_str j) (data_map bc ! j) w"
  using assms by (auto simp: bc_ok_def)

text \<open>A change of one map that keeps the content of its file, as a step of the database.\<close>

lemma slot_post_idx:
  "bc_ok e bc w \<Longrightarrow> slot_post e (bc_name bc) ''idx'' n w m w' \<Longrightarrow>
     bc_step e {} {''idx''} bc w (bc\<lparr>idx_map := m\<rparr>) w'"
  by (rule bc_stepI [where x = "''idx''"]) (auto simp: slot_post_def intro: bc_ok_idx)

lemma slot_post_arch:
  "bc_ok e bc w \<Longrightarrow> slot_post e (bc_name bc) ''arch'' n w m w' \<Longrightarrow>
     bc_step e {} {''arch''} bc w (bc\<lparr>arch_map := m\<rparr>) w'"
  by (rule bc_stepI [where x = "''arch''"]) (auto simp: slot_post_def intro: bc_ok_arch)

lemma bc_idx_open_ok:
  assumes os: "os_ok e" and ok: "bc_ok e bc w"
    and cap: "capacity w (ext_path e (bc_name bc) ''idx'') n"
  shows "returns 0 (bc_idx_open e bc w) (\<lambda>(bc', w'). bc_step e {} {''idx''} bc w bc' w' \<and>
     m_fd (idx_map bc') \<noteq> 0 \<and> (\<forall>k. capacity w (ext_path e (bc_name bc) ''idx'') k \<longrightarrow>
       capacity w' (ext_path e (bc_name bc) ''idx'') k))"
proof (cases "m_fd (idx_map bc) = 0")
  case False
  with ok cap show ?thesis by (simp add: bc_idx_open_def bc_step_refl)
next
  case True
  show ?thesis
    by (rule slot_opened [OF os bc_ok_parts(1,2) [OF ok] cap])
      (simp add: bc_idx_open_def True slot_post_idx [OF ok] slot_postD(3) slot_postD(7))
qed

text \<open>The state every index operation works in, after its call of \<open>bc_idx_open\<close>.\<close>

lemma idx_opened:
  assumes os: "os_ok e" and ok: "bc_ok e bc w"
    and cap: "capacity w (ext_path e (bc_name bc) ''idx'') n"
  obtains bc1 w1 h where "bc_idx_open e bc w = Some (0, bc1, w1)"
    and "bc_step e {} {''idx''} bc w bc1 w1" and "m_fd (idx_map bc1) \<noteq> 0"
    and "capacity w1 (ext_path e (bc_name bc) ''idx'') n"
    and "hdr_of w1 (idx_map bc1) = Some h" and "unat h div 64 = idx_count e (bc_name bc) w"
    and "h = fof w (ext_path e (bc_name bc) ''idx'')"
    and "\<And>i. i < idx_count e (bc_name bc) w \<Longrightarrow>
       idx_load w1 (idx_map bc1) i = Some (idx_at e (bc_name bc) w i)"
    and "m_fd (idx_map bc) \<noteq> 0 \<Longrightarrow> bc1 = bc \<and> w1 = w"
    and "\<And>k. capacity w (ext_path e (bc_name bc) ''idx'') k \<Longrightarrow>
       capacity w1 (ext_path e (bc_name bc) ''idx'') k"
proof -
  obtain bc1 w1 where op: "bc_idx_open e bc w = Some (0, bc1, w1)"
    and st: "bc_step e {} {''idx''} bc w bc1 w1" and fd: "m_fd (idx_map bc1) \<noteq> 0"
    and caps: "\<And>k. capacity w (ext_path e (bc_name bc) ''idx'') k \<Longrightarrow>
       capacity w1 (ext_path e (bc_name bc) ''idx'') k"
    using bc_idx_open_ok [OF os ok cap] by (auto simp: returns_def)
  note cap1 = caps [OF cap]
  note ok1 = bc_stepD(1) [OF st] and nm = bc_stepD(2) [OF st] and ix = idx_step [OF st]
  have same: "m_fd (idx_map bc) \<noteq> 0 \<Longrightarrow> bc1 = bc \<and> w1 = w"
    using op by (auto simp: bc_idx_open_def)
  have "hdr_of w1 (idx_map bc1) = Some (fof w (ext_path e (bc_name bc) ''idx''))"
    using idx_mapped(1) [OF bc_ok_parts(1,2) [OF ok1] fd] bc_stepD(3) [OF st] by (simp add: nm)
  then show ?thesis
    using that [OF op st fd cap1 _ _ refl] same caps ix idx_mapped(4) [OF bc_ok_parts(1,2) [OF ok1] fd]
    by (simp add: nm rec_count_def)
qed

section \<open>Reading the index\<close>

definition get_result :: "env \<Rightarrow> string \<Rightarrow> world \<Rightarrow> nat \<Rightarrow> int \<times> bc_idx option" where
  "get_result e nm w i = (if live e nm w i then (0, Some (idx_at e nm w i)) else (SHERR_NOENT, None))"

lemma bc_idx_get_ok:
  assumes os: "os_ok e" and ok: "bc_ok e bc w"
    and cap: "capacity w (ext_path e (bc_name bc) ''idx'') n"
  shows "returns (get_result e (bc_name bc) w (unat pos)) (bc_idx_get e bc pos w)
     (\<lambda>(bc', w'). bc_step e {} {''idx''} bc w bc' w' \<and> m_fd (idx_map bc') \<noteq> 0 \<and>
        (\<forall>k. capacity w (ext_path e (bc_name bc) ''idx'') k \<longrightarrow> capacity w' (ext_path e (bc_name bc) ''idx'') k) \<and>
        (m_fd (idx_map bc) \<noteq> 0 \<longrightarrow> bc' = bc \<and> w' = w))"
  by (rule idx_opened [OF os ok cap], cases "unat pos < idx_count e (bc_name bc) w")
    (simp_all add: bc_idx_get_def get_result_def live_def)

lemma bc_idx_next_ok:
  assumes os: "os_ok e" and ok: "bc_ok e bc w"
    and cap: "capacity w (ext_path e (bc_name bc) ''idx'') n"
  shows "returns (of_nat (idx_count e (bc_name bc) w)) (bc_idx_next e bc w)
     (\<lambda>(bc', w'). bc_step e {} {''idx''} bc w bc' w' \<and> m_fd (idx_map bc') \<noteq> 0 \<and>
        (\<forall>k. capacity w (ext_path e (bc_name bc) ''idx'') k \<longrightarrow> capacity w' (ext_path e (bc_name bc) ''idx'') k))"
  by (rule idx_opened [OF os ok cap]) (simp add: bc_idx_next_def)


section \<open>Looking a hash up\<close>

text \<open>
  The specification of \<open>bc_idx_find\<close>: a search of the whole index from its end, without a table.
\<close>

fun idx_search :: "(nat \<Rightarrow> bc_idx) \<Rightarrow> bc_hash_t \<Rightarrow> nat \<Rightarrow> nat option" where
  "idx_search xs hash 0 = None"
| "idx_search xs hash (Suc i) =
     (if i_size (xs i) \<noteq> 0 \<and> i_hash (xs i) = hash then Some i else idx_search xs hash i)"

definition find_result :: "env \<Rightarrow> string \<Rightarrow> world \<Rightarrow> bc_hash_t \<Rightarrow> int \<times> (bc_idx \<times> nat) option" where
  "find_result e nm w hash = (case idx_search (idx_at e nm w) hash (idx_count e nm w) of
     None \<Rightarrow> (SHERR_NOENT, None) | Some i \<Rightarrow> (0, Some (idx_at e nm w i, i)))"

definition bucket :: "env \<Rightarrow> string \<Rightarrow> world \<Rightarrow> nat \<Rightarrow> nat set" where
  "bucket e nm w k = {i. live e nm w i \<and> bc_table_hash (i_hash (idx_at e nm w i)) = k}"

text \<open>The table tells the truth about the index.\<close>

definition tab_inv :: "env \<Rightarrow> string \<Rightarrow> world \<Rightarrow> bool" where
  "tab_inv e nm w \<longleftrightarrow> (\<forall>k < BC_TABLE_SIZE. tab.sound (bucket e nm w k) (tab_at e nm w k) \<and>
     (\<forall>b. cell_bound (tab_at e nm w k) = Some b \<longrightarrow> b < idx_count e nm w))"

lemma idx_search_Some:
  "idx_search xs hash n = Some i \<Longrightarrow> i < n \<and> i_size (xs i) \<noteq> 0 \<and> i_hash (xs i) = hash"
  by (induction n) (auto split: if_splits)

lemma idx_search_highest:
  "idx_search xs hash n = Some i \<Longrightarrow> i < j \<Longrightarrow> j < n \<Longrightarrow> i_size (xs j) = 0 \<or> i_hash (xs j) \<noteq> hash"
  by (induction n) (auto split: if_splits elim: less_SucE)

lemma idx_search_None:
  "idx_search xs hash n = None \<longleftrightarrow> (\<forall>i < n. i_size (xs i) = 0 \<or> i_hash (xs i) \<noteq> hash)"
  by (induction n) (auto simp: less_Suc_eq)

lemma idx_search_shorter:
  "n \<le> m \<Longrightarrow> (\<And>i. n \<le> i \<Longrightarrow> i < m \<Longrightarrow> i_size (xs i) = 0 \<or> i_hash (xs i) \<noteq> hash) \<Longrightarrow>
     idx_search xs hash m = idx_search xs hash n"
  by (induction m) (auto simp: le_Suc_eq)

lemma idx_count_less: "idx_count e nm w < 67108864"
  using unat_u32_bound [of "fof w (ext_path e nm ''idx'')"] by (simp add: rec_count_def)

text \<open>The loop finds what the plain search finds, and its bound covers the bucket searched.\<close>

lemma bc_idx_scan_ok:
  assumes "\<And>i. i < n \<Longrightarrow> idx_load w m i = Some (xs i) \<and> length (i_hash (xs i)) = 8"
    and "length hash = 8" and "-1 \<le> ph"
  shows "\<exists>ph'. bc_idx_scan w m hash (bc_table_hash hash) n ph =
       Some (case idx_search xs hash n of None \<Rightarrow> -1 | Some i \<Rightarrow> int i, ph') \<and> ph \<le> ph' \<and>
     (\<forall>i < n. i_size (xs i) \<noteq> 0 \<longrightarrow> bc_table_hash (i_hash (xs i)) = bc_table_hash hash \<longrightarrow> int i \<le> ph') \<and>
     (ph' = ph \<or> (\<exists>i < n. ph' = int i))"
  using assms
proof (induction n arbitrary: ph)
  case 0
  then show ?case by simp
next
  case (Suc i)
  have ld: "idx_load w m i = Some (xs i)" and len: "length (i_hash (xs i)) = 8"
    using Suc.prems(1) [of i] by auto
  have IH: "\<exists>ph'. bc_idx_scan w m hash (bc_table_hash hash) i p =
       Some (case idx_search xs hash i of None \<Rightarrow> -1 | Some i \<Rightarrow> int i, ph') \<and> p \<le> ph' \<and>
     (\<forall>j < i. i_size (xs j) \<noteq> 0 \<longrightarrow> bc_table_hash (i_hash (xs j)) = bc_table_hash hash \<longrightarrow> int j \<le> ph') \<and>
     (ph' = p \<or> (\<exists>j < i. ph' = int j))" if "-1 \<le> p" for p
    using Suc.IH [of p] Suc.prems(1,2) that by simp
  consider (hole) "i_size (xs i) = 0"
    | (hit) "i_size (xs i) \<noteq> 0" "i_hash (xs i) = hash"
    | (miss) "i_size (xs i) \<noteq> 0" "i_hash (xs i) \<noteq> hash" by blast
  then show ?case
  proof cases
    case hole
    with ld IH [OF Suc.prems(3)] show ?thesis by (fastforce simp: less_Suc_eq)
  next
    case hit
    with ld len Suc.prems(2) show ?thesis
      by (auto simp: bc_hash_cmp_eq Let_def less_Suc_eq max_def)
  next
    case miss
    let ?p = "if bc_table_hash (i_hash (xs i)) = bc_table_hash hash then max ph (int i) else ph"
    have "-1 \<le> ?p" using Suc.prems(3) by (simp add: le_max_iff_disj)
    from IH [OF this] obtain ph' where ph': "bc_idx_scan w m hash (bc_table_hash hash) i ?p =
       Some (case idx_search xs hash i of None \<Rightarrow> -1 | Some i \<Rightarrow> int i, ph')" "?p \<le> ph'"
      "\<forall>j < i. i_size (xs j) \<noteq> 0 \<longrightarrow> bc_table_hash (i_hash (xs j)) = bc_table_hash hash \<longrightarrow> int j \<le> ph'"
      "ph' = ?p \<or> (\<exists>j < i. ph' = int j)"
      by blast
    have "bc_idx_scan w m hash (bc_table_hash hash) (Suc i) ph =
       Some (case idx_search xs hash (Suc i) of None \<Rightarrow> -1 | Some i \<Rightarrow> int i, ph')"
      using miss ld len Suc.prems(2) ph'(1) by (simp add: bc_hash_cmp_eq Let_def)
    moreover have "ph \<le> ph'" using ph'(2) by (simp split: if_splits)
    moreover have "\<forall>j < Suc i. i_size (xs j) \<noteq> 0 \<longrightarrow>
       bc_table_hash (i_hash (xs j)) = bc_table_hash hash \<longrightarrow> int j \<le> ph'"
      using ph'(2,3) by (auto simp: less_Suc_eq)
    moreover have "ph' = ph \<or> (\<exists>j < Suc i. ph' = int j)"
      using ph'(4) by (auto simp: less_Suc_eq max_def split: if_splits)
    ultimately show ?thesis by blast
  qed
qed


lemma bucket_step:
  "bc_step e P Q bc w bc' w' \<Longrightarrow> ''idx'' \<notin> P \<Longrightarrow>
     bucket e (bc_name bc) w' k = bucket e (bc_name bc) w k"
  by (simp add: bucket_def idx_step)

lemma tab_inv_step:
  assumes "tab_inv e (bc_name bc) w" and "bc_step e P Q bc w bc' w'" and "''idx'' \<notin> P" and "''tab'' \<notin> P"
  shows "tab_inv e (bc_name bc) w'"
  using assms by (simp add: tab_inv_def tab_at_step bucket_step idx_step)

lemma tab_inv_cell:
  assumes "tab_inv e (bc_name bc) w" and "bc_step e P Q bc w bc' w'" and "''idx'' \<notin> P"
    and "\<forall>j. tab_at e (bc_name bc) w' j = (if j = k then c else tab_at e (bc_name bc) w j)"
    and "tab.sound (bucket e (bc_name bc) w k) c"
    and "\<forall>b. cell_bound c = Some b \<longrightarrow> b < idx_count e (bc_name bc) w"
  shows "tab_inv e (bc_name bc) w'"
  using assms by (simp add: tab_inv_def bucket_step idx_step)

text \<open>The start of the search: the bound of the cell, or the end of the index.\<close>

lemma find_start:
  assumes v: "v \<noteq> BC_TABLE_NULL_POS" and b: "\<forall>b. cell_bound v = Some b \<longrightarrow> b < c" and c: "c < 67108864"
  defines "ph0 \<equiv> if v = BC_TABLE_SEARCH_POS then -1 else int (unat v)"
  shows "(if fst (cell_status v) = 0 then sint (ucast (snd (cell_status v)) :: u32) else -1) = ph0"
    and "(if (word_of_int ph0 :: u32) > of_nat c - 1 then -1 else ph0) = ph0"
    and "nat (sint (if ph0 \<noteq> -1 then word_of_int ph0 else of_nat c - 1 :: u32) + 1) =
      (if v = BC_TABLE_SEARCH_POS then c else Suc (unat v))"
proof -
  have small: "v \<noteq> BC_TABLE_SEARCH_POS \<Longrightarrow> unat v < c"
    using v b by (simp add: cell_bound_def)
  show "(if fst (cell_status v) = 0 then sint (ucast (snd (cell_status v)) :: u32) else -1) = ph0"
    using v small c by (auto simp: ph0_def cell_status_def sherr_defs sint_ucast_u32)
  show "(if (word_of_int ph0 :: u32) > of_nat c - 1 then -1 else ph0) = ph0"
  proof (cases "v = BC_TABLE_SEARCH_POS")
    case True
    then show ?thesis by (simp add: ph0_def)
  next
    case False
    with small have le: "unat v \<le> c - 1" "0 < c" by simp_all
    then have "(of_nat c - 1 :: u32) = of_nat (c - 1)" by (simp add: of_nat_diff)
    moreover have "unat (of_nat (c - 1) :: u32) = c - 1" "unat (of_nat (unat v) :: u32) = unat v"
      using c small [OF False] by (intro unat_of_nat_u32, simp)+
    ultimately show ?thesis
      using False le by (simp add: ph0_def word_less_nat_alt)
  qed
  show "nat (sint (if ph0 \<noteq> -1 then word_of_int ph0 else of_nat c - 1 :: u32) + 1) =
      (if v = BC_TABLE_SEARCH_POS then c else Suc (unat v))"
  proof (cases "v = BC_TABLE_SEARCH_POS")
    case True
    then show ?thesis using c sint_pred_u32 [of c] by (simp add: ph0_def)
  next
    case False
    define n where "n = unat v"
    have "n < c" "ph0 = int n" using small [OF False] False by (simp_all add: n_def ph0_def)
    then show ?thesis using c sint_u32_small [of n] False by (simp flip: n_def)
  qed
qed

text \<open>The loop from the start given by the cell: it finds what the whole search finds.\<close>

lemma find_scan:
  assumes inv: "tab_inv e nm w" and v: "tab_at e nm w (bc_table_hash hash) = v" "v \<noteq> BC_TABLE_NULL_POS"
    and ld: "\<And>i. i < idx_count e nm w \<Longrightarrow> idx_load w1 m i = Some (idx_at e nm w i)"
    and len: "length hash = 8"
  defines "ph0 \<equiv> if v = BC_TABLE_SEARCH_POS then -1 else int (unat v)"
    and "n \<equiv> if v = BC_TABLE_SEARCH_POS then idx_count e nm w else Suc (unat v)"
  obtains ph where "bc_idx_scan w1 m hash (bc_table_hash hash) n ph0 =
      Some (case idx_search (idx_at e nm w) hash (idx_count e nm w) of None \<Rightarrow> -1 | Some i \<Rightarrow> int i, ph)"
    and "ph = -1 \<or> (\<exists>b < idx_count e nm w. ph = int b)"
    and "\<forall>i\<in>bucket e nm w (bc_table_hash hash). int i \<le> ph"
    and "ph0 \<le> ph"
proof -
  let ?c = "idx_count e nm w" and ?k = "bc_table_hash hash" and ?xs = "idx_at e nm w"
  have s: "tab.sound (bucket e nm w ?k) v" and bd: "\<And>b. cell_bound v = Some b \<Longrightarrow> b < ?c"
    using inv v(1) bc_table_hash_less [of hash] by (auto simp: tab_inv_def)
  have cb: "v \<noteq> BC_TABLE_SEARCH_POS \<Longrightarrow> cell_bound v = Some (unat v)"
    using v(2) by (simp add: cell_bound_def)
  have nc: "n \<le> ?c" using cb bd by (auto simp: n_def Suc_le_eq)
  have out: "i < n" if "i \<in> bucket e nm w ?k" for i
    using that tab.sound_bound [OF s cb that] by (auto simp: n_def bucket_def live_def less_Suc_eq_le)
  have srch: "idx_search ?xs hash ?c = idx_search ?xs hash n"
  proof (rule idx_search_shorter [OF nc], rule ccontr)
    fix i
    assume "n \<le> i" "i < ?c" "\<not> (i_size (?xs i) = 0 \<or> i_hash (?xs i) \<noteq> hash)"
    then show False using out [of i] by (simp add: bucket_def live_def)
  qed
  have "-1 \<le> ph0" using order_trans [of "-1" 0 "uint v"] by (simp add: ph0_def)
  then obtain ph where sc: "bc_idx_scan w1 m hash ?k n ph0 =
       Some (case idx_search ?xs hash n of None \<Rightarrow> -1 | Some i \<Rightarrow> int i, ph)" and le: "ph0 \<le> ph"
     and up: "\<forall>i < n. i_size (?xs i) \<noteq> 0 \<longrightarrow> bc_table_hash (i_hash (?xs i)) = ?k \<longrightarrow> int i \<le> ph"
     and val: "ph = ph0 \<or> (\<exists>i < n. ph = int i)"
    using bc_idx_scan_ok [of n w1 m ?xs hash ph0] ld len nc by auto
  show ?thesis
  proof (rule that)
    show "ph = -1 \<or> (\<exists>b < ?c. ph = int b)"
      using val nc cb bd by (auto simp: ph0_def split: if_splits dest: less_le_trans)
    show "\<forall>i\<in>bucket e nm w ?k. int i \<le> ph"
      using up out by (auto simp: bucket_def live_def)
  qed (use sc srch le in simp_all)
qed


lemma cell_set_less:
  assumes "\<forall>b. cell_bound v = Some b \<longrightarrow> b < c" and "b < c" and "c < 67108864"
  shows "\<forall>b'. cell_bound (cell_put v b) = Some b' \<longrightarrow> b' < c"
  using assms by (auto simp: cell_put_def cell_set_def cell_bound_def unat_of_nat)

text \<open>What \<open>bc_idx_find\<close> records in the table after its loop.\<close>

lemma find_record:
  assumes os: "os_ok e" and ok: "bc_ok e bc w" and inv: "tab_inv e (bc_name bc) w"
    and ph: "ph = -1 \<or> (\<exists>b < idx_count e (bc_name bc) w. ph = int b)"
    and up: "\<forall>i\<in>bucket e (bc_name bc) w (bc_table_hash hash). int i \<le> ph"
  obtains err bc' w' where "(if ph \<noteq> -1
        then if pos \<noteq> word_of_int ph then bc_table_set e bc hash (word_of_int ph) w else Some (0, bc, w)
        else if i < 0 then bc_table_unset e bc hash w else Some (0, bc, w)) = Some (err, bc', w')"
    and "bc_step e {''tab''} {''tab''} bc w bc' w'" and "tab_inv e (bc_name bc) w'"
proof -
  let ?nm = "bc_name bc" and ?k = "bc_table_hash hash"
  let ?v = "tab_at e ?nm w ?k" and ?c = "idx_count e ?nm w"
  have bd: "\<forall>b. cell_bound ?v = Some b \<longrightarrow> b < ?c"
    using inv bc_table_hash_less [of hash] by (simp add: tab_inv_def)
  consider (put) b where "ph = int b" "b < ?c" "pos \<noteq> word_of_int ph"
    | (unset) "ph = -1" "i < 0" | (skip) "ph = -1 \<and> \<not> i < 0 \<or> ph \<noteq> -1 \<and> pos = word_of_int ph"
    using ph by blast
  then show ?thesis
  proof cases
    case put
    have small: "b < 67108864" using put(2) idx_count_less [of e ?nm w] by simp
    have lt: "(word_of_int ph :: u64) < BC_TABLE_POS_MASK"
      using small put(1) by (simp add: BC_TABLE_POS_MASK_def word_less_nat_alt unat_of_nat)
    obtain bc' w' where r: "bc_table_set e bc hash (word_of_int ph) w = Some (0, bc', w')"
      and st: "bc_step e {''tab''} {''tab''} bc w bc' w'"
      and cell: "\<forall>j. tab_at e ?nm w' j = (if j = ?k then cell_put ?v b else tab_at e ?nm w j)"
      using bc_table_set_ok [OF os ok lt, of hash] put(1)
      by (auto simp: returns_def cell_put_def if_distrib cong: if_cong)
    have "tab.sound (bucket e ?nm w ?k) (cell_put ?v b)"
      using small up put(1) by (intro tab.sound_put) auto
    moreover have "\<forall>b'. cell_bound (cell_put ?v b) = Some b' \<longrightarrow> b' < ?c"
      using bd put(2) idx_count_less by (rule cell_set_less)
    ultimately have "tab_inv e ?nm w'"
      using tab_inv_cell [OF inv st _ cell] by simp
    with that r st put show ?thesis by auto
  next
    case unset
    obtain bc' w' where r: "bc_table_unset e bc hash w = Some (0, bc', w')"
      and st: "bc_step e {''tab''} {''tab''} bc w bc' w'"
      and cell: "\<forall>j. tab_at e ?nm w' j = (if j = ?k then BC_TABLE_NULL_POS else tab_at e ?nm w j)"
      using bc_table_put_ok [OF os ok, of hash BC_TABLE_NULL_POS]
      by (auto simp: returns_def bc_table_unset_def)
    have "bucket e ?nm w ?k = {}" using up unset by force
    then have "tab_inv e ?nm w'"
      using tab_inv_cell [OF inv st _ cell] by (simp add: tab.sound_absent_iff cell_bound_def)
    with that r st unset show ?thesis by auto
  next
    case skip
    with that [of 0 bc w] ok inv show ?thesis by (auto simp: bc_step_refl)
  qed
qed

lemma find_result_absent:
  assumes "tab_inv e nm w" and "tab_at e nm w (bc_table_hash hash) = BC_TABLE_NULL_POS"
  shows "find_result e nm w hash = (SHERR_NOENT, None)"
proof -
  have "tab.sound (bucket e nm w (bc_table_hash hash)) BC_TABLE_NULL_POS"
    using assms bc_table_hash_less [of hash] by (metis tab_inv_def)
  then have "bucket e nm w (bc_table_hash hash) = {}" by (simp add: tab.sound_absent_iff)
  then have "idx_search (idx_at e nm w) hash (idx_count e nm w) = None"
    by (auto simp: idx_search_None bucket_def live_def)
  then show ?thesis by (simp add: find_result_def)
qed

lemma find_result_step:
  assumes "bc_step e P Q bc w bc' w'" and "''idx'' \<notin> P"
  shows "find_result e (bc_name bc) w' hash = find_result e (bc_name bc) w hash"
proof -
  have "idx_at e (bc_name bc) w' = idx_at e (bc_name bc) w" using idx_step(1) [OF assms] by blast
  then show ?thesis by (simp only: find_result_def idx_step(2) [OF assms])
qed

lemma bc_idx_find_from_ok:
  assumes os: "os_ok e" and ok: "bc_ok e bc w" and inv: "tab_inv e (bc_name bc) w"
    and fd: "m_fd (idx_map bc) \<noteq> 0" and len: "length hash = 8"
    and v: "tab_at e (bc_name bc) w (bc_table_hash hash) = v" "v \<noteq> BC_TABLE_NULL_POS"
  shows "returns (find_result e (bc_name bc) w hash) (bc_idx_find_from e bc hash pos
       (if fst (cell_status v) = 0 then sint (ucast (snd (cell_status v)) :: u32) else -1) w)
     (\<lambda>(bc', w'). bc_step e {''tab''} {''tab''} bc w bc' w' \<and> tab_inv e (bc_name bc) w')"
proof -
  let ?nm = "bc_name bc" and ?c = "idx_count e (bc_name bc) w"
  define ph0 where "ph0 = (if v = BC_TABLE_SEARCH_POS then -1 else int (unat v))"
  define i where "i = (case idx_search (idx_at e ?nm w) hash ?c of None \<Rightarrow> -1 | Some i \<Rightarrow> int i)"
  have bd: "\<forall>b. cell_bound v = Some b \<longrightarrow> b < ?c"
    using inv v(1) bc_table_hash_less [of hash] by (auto simp: tab_inv_def)
  note fs = find_start [OF v(2) bd idx_count_less, folded ph0_def]
  obtain h where h: "hdr_of w (idx_map bc) = Some h" and hc: "unat h div 64 = ?c"
    using idx_mapped(1) [OF bc_ok_parts(1,2) [OF ok] fd] by (auto simp: rec_count_def)
  obtain ph where sc: "bc_idx_scan w (idx_map bc) hash (bc_table_hash hash)
       (if v = BC_TABLE_SEARCH_POS then ?c else Suc (unat v)) ph0 = Some (i, ph)"
    and ph: "ph = -1 \<or> (\<exists>b < ?c. ph = int b)"
    and up: "\<forall>i\<in>bucket e ?nm w (bc_table_hash hash). int i \<le> ph"
    unfolding i_def ph0_def by (rule find_scan [OF inv v idx_mapped(4) [OF bc_ok_parts(1,2) [OF ok] fd] len])
  obtain err bc' w' where rec: "(if ph \<noteq> -1
      then if pos \<noteq> word_of_int ph then bc_table_set e bc hash (word_of_int ph) w else Some (0, bc, w)
      else if i < 0 then bc_table_unset e bc hash w else Some (0, bc, w)) = Some (err, bc', w')"
    and st: "bc_step e {''tab''} {''tab''} bc w bc' w'" and inv': "tab_inv e ?nm w'"
    by (rule find_record [OF os ok inv ph up])
  have "idx_load w' (idx_map bc') j = Some (idx_at e ?nm w j)" if "j < ?c" for j
    using idx_mapped(4) [OF bc_ok_parts(1,2) [OF bc_stepD(1) [OF st]], of j] that fd bc_stepD(7) [OF st]
    by (simp add: bc_stepD(2) [OF st] idx_step [OF st])
  moreover have "bc_idx_find_from e bc hash pos
       (if fst (cell_status v) = 0 then sint (ucast (snd (cell_status v)) :: u32) else -1) w =
     (if i < 0 then Some ((SHERR_NOENT, None), bc', w') else do {
        x \<leftarrow> idx_load w' (idx_map bc') (nat i); Some ((0, Some (x, nat i)), bc', w') })"
    unfolding bc_idx_find_from_def fs(1)
    by (simp only: h hc fs(2,3) sc rec Let_def Option.bind.simps prod.case)
  ultimately show ?thesis
    using st inv' idx_search_Some [of "idx_at e ?nm w" hash ?c]
    by (auto simp: find_result_def i_def split: option.split)
qed

lemma bc_idx_find_ok:
  assumes os: "os_ok e" and ok: "bc_ok e bc w" and inv: "tab_inv e (bc_name bc) w"
    and cap: "capacity w (ext_path e (bc_name bc) ''idx'') n" and len: "length hash = 8"
  shows "returns (find_result e (bc_name bc) w hash) (bc_idx_find e bc hash w)
     (\<lambda>(bc', w'). bc_step e {''tab''} {''tab'', ''idx''} bc w bc' w' \<and> tab_inv e (bc_name bc) w' \<and>
        capacity w' (ext_path e (bc_name bc) ''idx'') n)"
proof -
  let ?nm = "bc_name bc"
  define v where "v = tab_at e ?nm w (bc_table_hash hash)"
  obtain bc1 w1 where tg: "bc_table_get e bc hash BC_TABLE_NULL_POS w = Some (cell_status v, bc1, w1)"
    and st1: "bc_step e {} {''tab''} bc w bc1 w1"
    using bc_table_get_ok [OF os ok, of hash BC_TABLE_NULL_POS] by (auto simp: returns_def v_def)
  note nm1 = bc_stepD(2) [OF st1]
  have cap1: "capacity w1 (ext_path e (bc_name bc1) ''idx'') n"
    using cap by (simp add: nm1 bc_step_capacity [OF st1])
  have inv1: "tab_inv e ?nm w1" using tab_inv_step [OF inv st1] by simp
  show ?thesis
  proof (cases "v = BC_TABLE_NULL_POS")
    case True
    have "bc_step e {''tab''} {''tab'', ''idx''} bc w bc1 w1"
      by (rule bc_step_trans [OF st1 bc_step_refl [OF bc_stepD(1) [OF st1]]]) auto
    with True tg inv1 cap1 find_result_absent [OF inv, of hash] show ?thesis
      by (simp add: bc_idx_find_def cell_status_def tab_consts v_def [symmetric] nm1)
  next
    case False
    obtain bc2 w2 where op: "bc_idx_open e bc1 w1 = Some (0, bc2, w2)"
      and st2: "bc_step e {} {''idx''} bc1 w1 bc2 w2" and fd: "m_fd (idx_map bc2) \<noteq> 0"
      and cap2: "capacity w2 (ext_path e (bc_name bc1) ''idx'') n"
      by (rule idx_opened [OF os bc_stepD(1) [OF st1] cap1])
    note ok2 = bc_stepD(1) [OF st2]
    have st12: "bc_step e {} {''tab'', ''idx''} bc w bc2 w2"
      by (rule bc_step_trans [OF st1 st2]) auto
    note nm2 = bc_stepD(2) [OF st12]
    have inv2: "tab_inv e (bc_name bc2) w2" using tab_inv_step [OF inv st12] nm2 by simp
    have v2: "tab_at e (bc_name bc2) w2 (bc_table_hash hash) = v"
      using tab_at_step [OF st12] nm2 by (simp add: v_def)
    obtain err pos where cs: "cell_status v = (err, pos)" by fastforce
    have err: "err \<noteq> SHERR_NOENT"
      using cs False by (auto simp: cell_status_def sherr_defs split: if_splits)
    obtain bc3 w3 where ff: "bc_idx_find_from e bc2 hash pos
        (if err = 0 then sint (ucast pos :: u32) else -1) w2 = Some (find_result e ?nm w hash, bc3, w3)"
      and st3: "bc_step e {''tab''} {''tab''} bc2 w2 bc3 w3" and inv3: "tab_inv e ?nm w3"
      using bc_idx_find_from_ok [OF os ok2 inv2 fd len v2 False, of pos]
      unfolding cs fst_conv snd_conv nm2 by (auto simp: returns_def find_result_step [OF st12])
    have "bc_step e {''tab''} {''tab'', ''idx''} bc w bc3 w3"
      by (rule bc_step_trans [OF st12 st3]) auto
    moreover have "capacity w3 (ext_path e ?nm ''idx'') n"
      using cap2 by (simp add: bc_step_capacity [OF st3, unfolded nm2] nm1)
    ultimately show ?thesis
      using inv3 tg cs err op ff by (simp add: bc_idx_find_def)
  qed
qed

section \<open>Writing records\<close>

lemma slot_written_rec:
  assumes wr: "slot_written e nm ext (64 * i) (idx_enc x) w m' w'" and len: "length (i_hash x) = 8"
    and i: "i \<le> rec_count e nm ext w"
  shows "rec_at e nm ext w' j = (if j = i then x else rec_at e nm ext w j)"
    and "rec_count e nm ext w' = max (rec_count e nm ext w) (Suc i)"
proof -
  note wd = slot_writtenD [OF wr] and l = length_idx_enc [OF len]
  show "rec_at e nm ext w' j = (if j = i then x else rec_at e nm ext w j)"
    using l idx_dec_enc [OF len] unfolding rec_at_def wd(5)
    by (cases "j = i"; cases "j < i") (auto simp: mem_simps)
  show "rec_count e nm ext w' = max (rec_count e nm ext w) (Suc i)"
    using i unfolding rec_count_def wd(6) l by (auto simp: max_def)
qed

lemma unat_rec_off:
  assumes "i \<le> rec_count e nm ext w"
  shows "unat (of_nat (i * 64) :: u32) = 64 * i" and "64 * i \<le> unat (fof w (ext_path e nm ext))"
proof -
  show le: "64 * i \<le> unat (fof w (ext_path e nm ext))"
    using assms by (simp add: rec_count_def)
  then show "unat (of_nat (i * 64) :: u32) = 64 * i"
    using unat_u32_bound [of "fof w (ext_path e nm ext)"] by (subst unat_of_nat_u32) auto
qed

lemma slot_ok_open_ext: "slot_ok e nm ext m w \<Longrightarrow> m_fd m \<noteq> 0 \<Longrightarrow> m_ext m = ext"
  by (simp add: slot_ok_def)

lemma rec_write:
  assumes os: "os_ok e" and wok: "world_ok e w" and slot: "slot_ok e nm ext m w" and fd: "m_fd m \<noteq> 0"
    and cap: "capacity w (ext_path e nm ext) 64" and len: "length (i_hash x) = 8"
    and i: "i \<le> rec_count e nm ext w"
  obtains m' w' where "bc_map_write e nm m (of_nat (i * 64)) (idx_enc x) w = Some (0, m', w')"
    and "slot_written e nm ext (64 * i) (idx_enc x) w m' w'"
proof -
  have "capacity w (ext_path e nm ext) (length (idx_enc x))" using cap length_idx_enc [OF len] by simp
  from slot_write [OF os wok slot slot_ok_open_ext [OF slot fd] this, of "of_nat (i * 64)"]
  show ?thesis using that unat_rec_off [OF i] by auto
qed

text \<open>
  The common part of \<open>bc_idx_set\<close> and \<open>bc_arch_set\<close> after their checks, on an open map: a file too
  short for the record is enlarged first.
\<close>

lemma rec_alloc_write:
  assumes os: "os_ok e" and wok: "world_ok e w" and slot: "slot_ok e nm ext m w" and fd: "m_fd m \<noteq> 0"
    and cap: "capacity w (ext_path e nm ext) 64" and len: "length (i_hash x) = 8"
    and i: "i \<le> rec_count e nm ext w"
  obtains m1 w1 m2 w2 where
    "(if c \<and> 64 * i + 64 > m_size m then bc_map_alloc e nm m (of_nat (64 * i + 64 - m_size m)) w
      else Some (0, m, w)) = Some (0, m1, w1)"
    and "bc_map_write e nm m1 (of_nat (i * 64)) (idx_enc x) w1 = Some (0, m2, w2)"
    and "slot_written e nm ext (64 * i) (idx_enc x) w m2 w2"
proof -
  let ?p = "ext_path e nm ext" and ?k = "of_nat (64 * i + 64 - m_size m) :: u32"
  have k: "unat ?k \<le> 64"
    using unat_rec_off(2) [OF i] rec_mapped(3) [OF wok slot fd]
    by (subst unat_of_nat_u32) auto
  obtain m1 w1 where al: "(if c \<and> 64 * i + 64 > m_size m then bc_map_alloc e nm m ?k w
        else Some (0, m, w)) = Some (0, m1, w1)"
    and post: "slot_post e nm ext (unat ?k) w m1 w1"
  proof (cases "c \<and> 64 * i + 64 > m_size m")
    case True
    with that show ?thesis
      using slot_alloc [OF os wok slot slot_ok_open_ext [OF slot fd] capacity_mono [OF cap k]] by auto
  next
    case False
    with that wok slot fd show ?thesis by (auto simp: slot_post_def)
  qed
  note sp = slot_postD [OF post]
  have i1: "i \<le> rec_count e nm ext w1" using i by (simp add: rec_count_def sp)
  obtain m2 w2 where wr: "bc_map_write e nm m1 (of_nat (i * 64)) (idx_enc x) w1 = Some (0, m2, w2)"
    and sw: "slot_written e nm ext (64 * i) (idx_enc x) w1 m2 w2"
    by (rule rec_write [OF os sp(1,2,3) sp(7) [OF k cap] len i1])
  have "slot_written e nm ext (64 * i) (idx_enc x) w m2 w2"
    using slot_post_written [OF post sw] k length_idx_enc [OF len] by simp
  with that al wr show ?thesis by blast
qed

lemma slot_written_idx:
  "bc_ok e bc w \<Longrightarrow> slot_written e (bc_name bc) ''idx'' off data w m w' \<Longrightarrow>
     bc_step e {''idx''} {''idx''} bc w (bc\<lparr>idx_map := m\<rparr>) w'"
  by (rule bc_stepI [where x = "''idx''"]) (auto simp: slot_written_def intro: bc_ok_idx)

text \<open>The table and the three changes of the index: a record added, removed, or changed in place.\<close>

lemma tab_inv_add:
  assumes inv: "tab_inv e nm w" and i: "\<not> live e nm w i" and mono: "idx_count e nm w' = max (idx_count e nm w) (Suc i)"
    and recs: "\<forall>j. idx_at e nm w' j = (if j = i then x else idx_at e nm w j)"
    and le: "i \<le> idx_count e nm w"
    and cells: "\<forall>j. tab_at e nm w' j =
      (if j = bc_table_hash (i_hash x) then BC_TABLE_SEARCH_POS else tab_at e nm w j)"
  shows "tab_inv e nm w'"
  unfolding tab_inv_def
proof (intro allI impI)
  fix k
  assume k: "k < BC_TABLE_SIZE"
  show "tab.sound (bucket e nm w' k) (tab_at e nm w' k) \<and>
     (\<forall>b. cell_bound (tab_at e nm w' k) = Some b \<longrightarrow> b < idx_count e nm w')"
  proof (cases "k = bc_table_hash (i_hash x)")
    case True
    then show ?thesis using cells by (simp add: tab.sound_unknown cell_bound_def)
  next
    case False
    have "bucket e nm w' k \<subseteq> bucket e nm w k"
      using False i le mono recs by (auto simp: bucket_def live_def split: if_splits)
    with inv k cells False mono show ?thesis
      by (auto simp: tab_inv_def less_max_iff_disj intro: tab.sound_subset)
  qed
qed

lemma tab_inv_shrink:
  assumes inv: "tab_inv e nm w" and cnt: "idx_count e nm w' = idx_count e nm w"
    and recs: "\<forall>j. idx_at e nm w' j = (if j = i then x else idx_at e nm w j)"
    and x: "i_size x = 0 \<or> (i_size (idx_at e nm w i) \<noteq> 0 \<and> i_hash x = i_hash (idx_at e nm w i))"
    and cells: "\<forall>j. tab_at e nm w' j = tab_at e nm w j"
  shows "tab_inv e nm w'"
proof -
  have sub: "bucket e nm w' k \<subseteq> bucket e nm w k" for k
    using x recs cnt by (auto simp: bucket_def live_def split: if_splits)
  from inv cnt cells show ?thesis
    by (auto simp: tab_inv_def tab.sound_subset [OF _ sub])
qed

definition set_result :: "env \<Rightarrow> string \<Rightarrow> world \<Rightarrow> nat \<Rightarrow> int" where
  "set_result e nm w i = (if live e nm w i then SHERR_EXIST else 0)"

text \<open>
  \<open>bc_idx_set\<close> at a position that is not beyond the end of the index: an existing record is
  refused; otherwise the record is stored, every other record stays, and the table stays sound.
\<close>

lemma bc_idx_set_exist:
  assumes os: "os_ok e" and ok: "bc_ok e bc w"
    and cap: "capacity w (ext_path e (bc_name bc) ''idx'') n"
    and live: "live e (bc_name bc) w (unat pos)"
  shows "returns SHERR_EXIST (bc_idx_set e bc pos x w) (\<lambda>(bc', w').
     bc_step e {} {''idx''} bc w bc' w' \<and> m_fd (idx_map bc') \<noteq> 0 \<and>
     (\<forall>k. capacity w (ext_path e (bc_name bc) ''idx'') k \<longrightarrow> capacity w' (ext_path e (bc_name bc) ''idx'') k))"
proof -
  obtain bc1 w1 where op: "bc_idx_open e bc w = Some (0, bc1, w1)"
    and st: "bc_step e {} {''idx''} bc w bc1 w1" and fd: "m_fd (idx_map bc1) \<noteq> 0"
    and caps: "\<And>k. capacity w (ext_path e (bc_name bc) ''idx'') k \<Longrightarrow>
       capacity w1 (ext_path e (bc_name bc) ''idx'') k"
    by (rule idx_opened [OF os ok cap]) blast
  note nm = bc_stepD(2) [OF st]
  have "bc_idx_get e bc1 pos w1 = Some (get_result e (bc_name bc1) w1 (unat pos), bc1, w1)"
    using bc_idx_get_ok [OF os bc_stepD(1) [OF st], of n pos] caps [OF cap] fd by (auto simp: returns_def nm)
  with op st fd caps live show ?thesis
    by (simp add: bc_idx_set_def get_result_def nm idx_step [OF st] sherr_defs)
qed

lemma bc_idx_set_ok:
  assumes os: "os_ok e" and ok: "bc_ok e bc w" and inv: "tab_inv e (bc_name bc) w"
    and cap: "capacity w (ext_path e (bc_name bc) ''idx'') (64 + n)"
    and len: "length (i_hash x) = 8" and i: "unat pos \<le> idx_count e (bc_name bc) w"
    and hole: "\<not> live e (bc_name bc) w (unat pos)"
  shows "returns 0 (bc_idx_set e bc pos x w) (\<lambda>(bc', w').
     bc_step e {''idx'', ''tab''} {''idx'', ''tab''} bc w bc' w' \<and> tab_inv e (bc_name bc) w' \<and>
     (\<forall>j. idx_at e (bc_name bc) w' j = (if j = unat pos then x else idx_at e (bc_name bc) w j)) \<and>
     idx_count e (bc_name bc) w' = max (idx_count e (bc_name bc) w) (Suc (unat pos)) \<and>
     capacity w' (ext_path e (bc_name bc) ''idx'') n)"
proof -
  let ?nm = "bc_name bc" and ?i = "unat pos" and ?p = "ext_path e (bc_name bc) ''idx''"
  obtain bc1 w1 h where op: "bc_idx_open e bc w = Some (0, bc1, w1)"
    and st: "bc_step e {} {''idx''} bc w bc1 w1" and fd: "m_fd (idx_map bc1) \<noteq> 0"
    and cap1: "capacity w1 ?p (64 + n)" and h: "hdr_of w1 (idx_map bc1) = Some h"
    by (rule idx_opened [OF os ok cap])
  note ok1 = bc_stepD(1) [OF st] and nm = bc_stepD(2) [OF st] and ix = idx_step [OF st]
  have get: "bc_idx_get e bc1 pos w1 = Some ((SHERR_NOENT, None), bc1, w1)"
    using bc_idx_get_ok [OF os ok1, of "64 + n" pos] cap1 fd hole
    by (auto simp: returns_def nm get_result_def ix)
  have i1: "?i \<le> rec_count e (bc_name bc1) ''idx'' w1" using i by (simp add: nm ix)
  have cap64: "capacity w1 (ext_path e (bc_name bc1) ''idx'') 64"
    using capacity_mono [OF cap1, of 64] by (simp add: nm)
  obtain m2 w2 m3 w3 where
    al: "(if ?i \<ge> unat h div 64 \<and> 64 * ?i + 64 > m_size (idx_map bc1)
      then bc_map_alloc e (bc_name bc1) (idx_map bc1) (of_nat (64 * ?i + 64 - m_size (idx_map bc1))) w1
      else Some (0, idx_map bc1, w1)) = Some (0, m2, w2)"
    and wr: "bc_map_write e (bc_name bc1) m2 (of_nat (?i * 64)) (idx_enc x) w2 = Some (0, m3, w3)"
    and sw: "slot_written e (bc_name bc1) ''idx'' (64 * ?i) (idx_enc x) w1 m3 w3"
    by (rule rec_alloc_write [OF os bc_ok_parts(1,2) [OF ok1] fd cap64 len i1])
  let ?bc3 = "bc1\<lparr>idx_map := m3\<rparr>"
  have st3: "bc_step e {''idx''} {''idx''} bc1 w1 ?bc3 w3" by (rule slot_written_idx [OF ok1 sw])
  obtain bc4 w4 where rs: "bc_table_reset e ?bc3 (i_hash x) w3 = Some (0, bc4, w4)"
    and st4: "bc_step e {''tab''} {''tab''} ?bc3 w3 bc4 w4"
    and cells: "\<forall>j. tab_at e ?nm w4 j = (if j = bc_table_hash (i_hash x) then BC_TABLE_SEARCH_POS
       else tab_at e ?nm w3 j)"
    using bc_table_put_ok [OF os bc_stepD(1) [OF st3], of "i_hash x" BC_TABLE_SEARCH_POS]
    by (auto simp: returns_def bc_table_reset_def nm)
  have st13: "bc_step e {''idx''} {''idx''} bc w ?bc3 w3"
    by (rule bc_step_trans [OF st st3]) auto
  have st14: "bc_step e {''idx'', ''tab''} {''idx'', ''tab''} bc w bc4 w4"
    by (rule bc_step_trans [OF st13 st4]) auto
  have recs: "\<forall>j. idx_at e ?nm w4 j = (if j = ?i then x else idx_at e ?nm w j)"
    using slot_written_rec(1) [OF sw len i1] idx_step(1) [OF st4] ix by (simp add: nm)
  have cnt: "idx_count e ?nm w4 = max (idx_count e ?nm w) (Suc ?i)"
    using slot_written_rec(2) [OF sw len i1] idx_step(2) [OF st4] ix by (simp add: nm)
  have "tab_inv e ?nm w4"
    using tab_inv_add [OF inv hole cnt recs i] cells tab_at_step [OF st13] by simp
  moreover have "capacity w4 ?p n"
    using slot_writtenD(7) [OF sw, of n] cap1 bc_step_capacity [OF st4, of "''idx''"]
    by (simp add: nm length_idx_enc [OF len])
  moreover have "bc_idx_set e bc pos x w = Some (0, bc4, w4)"
    unfolding bc_idx_set_def
    by (simp only: op get h al wr rs unat_rec_off(1) [OF i1] run_simps)
  ultimately show ?thesis using st14 recs cnt by simp
qed

text \<open>A record of the index overwritten in place: by \<open>bc_idx_reset\<close>, or with zeros by \<open>bc_idx_clear\<close>.\<close>

definition idx_replaced :: "env \<Rightarrow> bc_t \<Rightarrow> world \<Rightarrow> nat \<Rightarrow> bc_idx \<Rightarrow> bc_t \<Rightarrow> world \<Rightarrow> bool" where
  "idx_replaced e bc w i x bc' w' \<longleftrightarrow>
     bc_step e {''idx''} {''idx''} bc w bc' w' \<and> tab_inv e (bc_name bc) w' \<and>
     (\<forall>j. idx_at e (bc_name bc) w' j = (if j = i then x else idx_at e (bc_name bc) w j)) \<and>
     idx_count e (bc_name bc) w' = idx_count e (bc_name bc) w \<and>
     (\<forall>n \<ge> 64. capacity w (ext_path e (bc_name bc) ''idx'') n \<longrightarrow>
        capacity w' (ext_path e (bc_name bc) ''idx'') n)"

lemma idx_overwrite:
  assumes os: "os_ok e" and ok: "bc_ok e bc w" and inv: "tab_inv e (bc_name bc) w"
    and fd: "m_fd (idx_map bc) \<noteq> 0" and cap: "capacity w (ext_path e (bc_name bc) ''idx'') 64"
    and len: "length (i_hash x) = 8" and i: "i < idx_count e (bc_name bc) w"
    and x: "i_size x = 0 \<or> (i_size (idx_at e (bc_name bc) w i) \<noteq> 0 \<and> i_hash x = i_hash (idx_at e (bc_name bc) w i))"
  obtains m' w' where "bc_map_write e (bc_name bc) (idx_map bc) (of_nat (i * 64)) (idx_enc x) w = Some (0, m', w')"
    and "idx_replaced e bc w i x (bc\<lparr>idx_map := m'\<rparr>) w'"
proof -
  let ?nm = "bc_name bc"
  have i': "i \<le> rec_count e ?nm ''idx'' w" using i by simp
  obtain m' w' where wr: "bc_map_write e ?nm (idx_map bc) (of_nat (i * 64)) (idx_enc x) w = Some (0, m', w')"
    and sw: "slot_written e ?nm ''idx'' (64 * i) (idx_enc x) w m' w'"
    by (rule rec_write [OF os bc_ok_parts(1,2) [OF ok] fd cap len i'])
  have st: "bc_step e {''idx''} {''idx''} bc w (bc\<lparr>idx_map := m'\<rparr>) w'"
    by (rule slot_written_idx [OF ok sw])
  have cnt: "idx_count e ?nm w' = idx_count e ?nm w"
    using slot_written_rec(2) [OF sw len i'] i by simp
  have recs: "\<forall>j. idx_at e ?nm w' j = (if j = i then x else idx_at e ?nm w j)"
    using slot_written_rec(1) [OF sw len i'] by simp
  have "64 * i + 64 \<le> unat (fof w (ext_path e ?nm ''idx''))" using i by (simp add: rec_count_def)
  then have "capacity w' (ext_path e ?nm ''idx'') n" if "64 \<le> n" "capacity w (ext_path e ?nm ''idx'') n" for n
    using slot_writtenD(8) [OF sw, of n] that length_idx_enc [OF len] by simp
  moreover have "tab_inv e ?nm w'"
    using tab_inv_shrink [OF inv cnt recs x] tab_at_step [OF st] by simp
  ultimately show ?thesis
    using that wr st cnt recs by (simp add: idx_replaced_def)
qed

lemma idx_replaced_after:
  assumes st: "bc_step e {} {''idx''} bc w bc1 w1" and r: "idx_replaced e bc1 w1 i x bc' w'"
    and cap: "\<And>n. capacity w (ext_path e (bc_name bc) ''idx'') n \<Longrightarrow> capacity w1 (ext_path e (bc_name bc) ''idx'') n"
  shows "idx_replaced e bc w i x bc' w'"
proof -
  have "bc_step e {''idx''} {''idx''} bc w bc' w'"
    by (rule bc_step_trans [OF st]) (use r in \<open>auto simp: idx_replaced_def\<close>)
  with r cap show ?thesis
    by (simp add: idx_replaced_def bc_stepD(2) [OF st] idx_step [OF st])
qed

lemma bc_idx_clear_ok:
  assumes os: "os_ok e" and ok: "bc_ok e bc w" and inv: "tab_inv e (bc_name bc) w"
    and cap: "capacity w (ext_path e (bc_name bc) ''idx'') 64"
    and i: "unat pos < idx_count e (bc_name bc) w"
  shows "returns 0 (bc_idx_clear e bc pos w) (\<lambda>(bc', w'). idx_replaced e bc w (unat pos) zero_idx bc' w')"
proof -
  obtain bc1 w1 h where op: "bc_idx_open e bc w = Some (0, bc1, w1)"
    and st: "bc_step e {} {''idx''} bc w bc1 w1" and fd: "m_fd (idx_map bc1) \<noteq> 0"
    and h: "hdr_of w1 (idx_map bc1) = Some h" "unat h div 64 = idx_count e (bc_name bc) w"
    and caps: "\<And>k. capacity w (ext_path e (bc_name bc) ''idx'') k \<Longrightarrow>
       capacity w1 (ext_path e (bc_name bc) ''idx'') k"
    by (rule idx_opened [OF os ok cap]) blast
  note nm = bc_stepD(2) [OF st] and ix = idx_step [OF st]
  have inv1: "tab_inv e (bc_name bc1) w1" using tab_inv_step [OF inv st] nm by simp
  obtain m' w' where wr: "bc_map_write e (bc_name bc1) (idx_map bc1) (of_nat (unat pos * 64)) (idx_enc zero_idx) w1
      = Some (0, m', w')" and r: "idx_replaced e bc1 w1 (unat pos) zero_idx (bc1\<lparr>idx_map := m'\<rparr>) w'"
    by (rule idx_overwrite [OF os bc_stepD(1) [OF st] inv1 fd, where i = "unat pos" and x = zero_idx])
      (use caps [OF cap] i in \<open>auto simp: nm ix zero_idx_def\<close>)
  have "bc_idx_clear e bc pos w = Some (0, bc1\<lparr>idx_map := m'\<rparr>, w')"
    using i unfolding bc_idx_clear_def by (simp only: op h wr run_simps not_le) simp
  with idx_replaced_after [OF st r caps] show ?thesis by simp
qed

lemma bc_idx_reset_ok:
  assumes os: "os_ok e" and ok: "bc_ok e bc w" and inv: "tab_inv e (bc_name bc) w"
    and cap: "capacity w (ext_path e (bc_name bc) ''idx'') 64"
    and live: "live e (bc_name bc) w (unat pos)" and len: "length (i_hash x) = 8"
    and same: "i_hash x = i_hash (idx_at e (bc_name bc) w (unat pos))"
  shows "returns 0 (bc_idx_reset e bc pos x w) (\<lambda>(bc', w'). idx_replaced e bc w (unat pos) x bc' w')"
proof -
  let ?i = "unat pos"
  obtain bc1 w1 h where op: "bc_idx_open e bc w = Some (0, bc1, w1)"
    and st: "bc_step e {} {''idx''} bc w bc1 w1" and fd: "m_fd (idx_map bc1) \<noteq> 0"
    and h: "hdr_of w1 (idx_map bc1) = Some h" "unat h div 64 = idx_count e (bc_name bc) w"
    and caps: "\<And>k. capacity w (ext_path e (bc_name bc) ''idx'') k \<Longrightarrow>
       capacity w1 (ext_path e (bc_name bc) ''idx'') k"
    by (rule idx_opened [OF os ok cap]) blast
  note ok1 = bc_stepD(1) [OF st] and nm = bc_stepD(2) [OF st] and ix = idx_step [OF st]
  have inv1: "tab_inv e (bc_name bc1) w1" using tab_inv_step [OF inv st] nm by simp
  have i: "?i \<le> rec_count e (bc_name bc1) ''idx'' w1" "?i < idx_count e (bc_name bc) w"
    using live by (simp_all add: live_def nm ix)
  have get: "bc_idx_get e bc1 pos w1 = Some ((0, Some (idx_at e (bc_name bc) w ?i)), bc1, w1)"
    using bc_idx_get_ok [OF os ok1, of 64 pos] caps [OF cap] fd live
    by (auto simp: returns_def nm get_result_def ix)
  obtain m' w' where wr: "bc_map_write e (bc_name bc1) (idx_map bc1) (of_nat (?i * 64)) (idx_enc x) w1
      = Some (0, m', w')" and r: "idx_replaced e bc1 w1 ?i x (bc1\<lparr>idx_map := m'\<rparr>) w'"
    by (rule idx_overwrite [OF os ok1 inv1 fd _ len, where i = ?i])
      (use caps [OF cap] live same in \<open>auto simp: nm ix live_def\<close>)
  have "64 * ?i + 64 \<le> unat (fof w1 (ext_path e (bc_name bc1) ''idx''))"
    using i(2) rec_step(2) [OF st, of "''idx''"] by (simp add: rec_count_def nm)
  then have sz: "\<not> (?i \<ge> idx_count e (bc_name bc) w \<or> unat (of_nat (?i * 64) :: u32) + 64 > m_size (idx_map bc1))"
    unfolding unat_rec_off(1) [OF i(1)]
    using idx_mapped(3) [OF bc_ok_parts(1,2) [OF ok1] fd] i(2) by simp
  have "bc_idx_reset e bc pos x w = Some (0, bc1\<lparr>idx_map := m'\<rparr>, w')"
    unfolding bc_idx_reset_def by (simp only: op get h wr sz run_simps)
  with idx_replaced_after [OF st r caps] show ?thesis by simp
qed

end
