(* ===== verification/Bc_Arch.thy ===== *)
theory Bc_Arch
  imports Bc_Index
begin

text \<open>
  The archive of a block database, \<^verbatim>\<open>blockchain/bc_arch.c\<close>: index records of blocks that left the
  main chain, in a file of the same format as the index, without a hash table.
\<close>

section \<open>Operations\<close>

definition bc_arch_open :: "env \<Rightarrow> bc_t \<Rightarrow> world \<Rightarrow> (int \<times> bc_t \<times> world) option" where
  "bc_arch_open e bc w =
     (if m_fd (arch_map bc) \<noteq> 0 then Some (0, bc, w)
      else do {
        (err, m, w) \<leftarrow> bc_map_open e (bc_name bc) ((arch_map bc)\<lparr>m_ext := ''arch''\<rparr>) w;
        if err \<noteq> 0 then Some (err, bc\<lparr>arch_map := m\<rparr>, w)
        else do {
          (err, m, w) \<leftarrow> bc_map_alloc e (bc_name bc) m 0 w;
          if err \<noteq> 0 then Some (err, bc\<lparr>arch_map := m\<rparr>, w)
          else Some (0, bc\<lparr>arch_map := m\<rparr>, w) } })"

definition bc_arch_close :: "env \<Rightarrow> bc_t \<Rightarrow> world \<Rightarrow> (bc_t \<times> world) option" where
  "bc_arch_close e bc w =
     (if m_fd (arch_map bc) \<noteq> 0
      then do { (m, w) \<leftarrow> bc_map_close e (arch_map bc) w; Some (bc\<lparr>arch_map := m\<rparr>, w) }
      else Some (bc, w))"

text \<open>\<open>shcrc\<close> of libshare is an argument.\<close>

definition bc_arch_crc :: "(u8 list \<Rightarrow> u64) \<Rightarrow> bc_hash_t \<Rightarrow> u32" where
  "bc_arch_crc shcrc hash = ucast (shcrc (concat (map (\<lambda>h. le_enc 4 (unat h)) hash)))"

fun bc_arch_scan :: "world \<Rightarrow> bc_map \<Rightarrow> bc_hash_t \<Rightarrow> nat \<Rightarrow> (bc_idx \<times> nat) option option" where
  "bc_arch_scan w m hash 0 = Some None"
| "bc_arch_scan w m hash (Suc i) = do {
     x \<leftarrow> idx_load w m i;
     if i_size x \<noteq> 0 \<and> bc_hash_cmp hash (i_hash x) then Some (Some (x, i))
     else bc_arch_scan w m hash i }"

definition bc_arch_find ::
    "env \<Rightarrow> bc_t \<Rightarrow> bc_hash_t \<Rightarrow> world \<Rightarrow> ((int \<times> (bc_idx \<times> nat) option) \<times> bc_t \<times> world) option" where
  "bc_arch_find e bc hash w = do {
     (err, bc, w) \<leftarrow> bc_arch_open e bc w;
     if err \<noteq> 0 then Some ((err, None), bc, w)
     else do {
       h \<leftarrow> hdr_of w (arch_map bc);
       r \<leftarrow> bc_arch_scan w (arch_map bc) hash (nat (sint (of_nat (unat h div 64) - 1 :: u32) + 1));
       Some ((if r = None then SHERR_NOENT else 0, r), bc, w) } }"

definition bc_arch_get ::
    "env \<Rightarrow> bc_t \<Rightarrow> u32 \<Rightarrow> world \<Rightarrow> ((int \<times> bc_idx option) \<times> bc_t \<times> world) option" where
  "bc_arch_get e bc pos w = do {
     (err, bc, w) \<leftarrow> bc_arch_open e bc w;
     if err \<noteq> 0 then Some ((err, None), bc, w)
     else do {
       h \<leftarrow> hdr_of w (arch_map bc);
       if unat pos \<ge> unat h div 64 then Some ((SHERR_NOENT, None), bc, w)
       else do {
         x \<leftarrow> idx_load w (arch_map bc) (unat pos);
         if i_size x = 0 then Some ((SHERR_NOENT, None), bc, w)
         else Some ((0, Some x), bc, w) } } }"

definition bc_arch_next :: "env \<Rightarrow> bc_t \<Rightarrow> world \<Rightarrow> (u32 \<times> bc_t \<times> world) option" where
  "bc_arch_next e bc w = do {
     (err, bc, w) \<leftarrow> bc_arch_open e bc w;
     if err \<noteq> 0 then Some (word_of_int err, bc, w)
     else do {
       h \<leftarrow> hdr_of w (arch_map bc);
       Some (of_nat (unat h div 64), bc, w) } }"

definition bc_arch_set ::
    "env \<Rightarrow> bc_t \<Rightarrow> u32 \<Rightarrow> bc_idx \<Rightarrow> world \<Rightarrow> (int \<times> bc_t \<times> world) option" where
  "bc_arch_set e bc pos arch w = do {
     (err, bc, w) \<leftarrow> bc_arch_open e bc w;
     if err \<noteq> 0 then Some (err, bc, w)
     else do {
       ((err, _), bc, w) \<leftarrow> bc_arch_get e bc pos w;
       if err \<noteq> SHERR_NOENT then Some (SHERR_EXIST, bc, w)
       else do {
         h \<leftarrow> hdr_of w (arch_map bc);
         let off = of_nat (unat pos * 64) :: u32;
             size = m_size (arch_map bc)
         in do {
           (err, m, w) \<leftarrow>
             (if unat pos \<ge> unat h div 64 \<and> unat off + 64 > size
              then bc_map_alloc e (bc_name bc) (arch_map bc) (of_nat (unat off + 64 - size)) w
              else Some (0, arch_map bc, w));
           if err \<noteq> 0 then Some (err, bc\<lparr>arch_map := m\<rparr>, w)
           else do {
             (err, m, w) \<leftarrow> bc_map_write e (bc_name bc) m off (idx_enc arch) w;
             if err \<noteq> 0 then Some (err, bc\<lparr>arch_map := m\<rparr>, w)
             else Some (0, bc\<lparr>arch_map := m\<rparr>, w) } } } } }"

definition bc_arch_add :: "env \<Rightarrow> bc_t \<Rightarrow> bc_idx \<Rightarrow> world \<Rightarrow> (int \<times> bc_t \<times> world) option" where
  "bc_arch_add e bc arch w = do {
     (pos, bc, w) \<leftarrow> bc_arch_next e bc w;
     bc_arch_set e bc pos arch w }"

section \<open>The records of the archive\<close>

abbreviation arch_at :: "env \<Rightarrow> string \<Rightarrow> world \<Rightarrow> nat \<Rightarrow> bc_idx" where
  "arch_at e nm w \<equiv> rec_at e nm ''arch'' w"

abbreviation arch_count :: "env \<Rightarrow> string \<Rightarrow> world \<Rightarrow> nat" where
  "arch_count e nm w \<equiv> rec_count e nm ''arch'' w"

lemma arch_opened:
  assumes os: "os_ok e" and ok: "bc_ok e bc w"
    and cap: "capacity w (ext_path e (bc_name bc) ''arch'') n"
  obtains bc1 w1 h where "bc_arch_open e bc w = Some (0, bc1, w1)"
    and "bc_step e {} {''arch''} bc w bc1 w1" and "m_fd (arch_map bc1) \<noteq> 0"
    and "hdr_of w1 (arch_map bc1) = Some h" and "unat h div 64 = arch_count e (bc_name bc) w"
    and "\<And>i. i < arch_count e (bc_name bc) w \<Longrightarrow>
       idx_load w1 (arch_map bc1) i = Some (arch_at e (bc_name bc) w i)"
    and "m_fd (arch_map bc) \<noteq> 0 \<Longrightarrow> bc1 = bc \<and> w1 = w"
    and "\<And>k. capacity w (ext_path e (bc_name bc) ''arch'') k \<Longrightarrow>
       capacity w1 (ext_path e (bc_name bc) ''arch'') k"
proof -
  let ?p = "ext_path e (bc_name bc) ''arch''"
  obtain bc1 w1 where op: "bc_arch_open e bc w = Some (0, bc1, w1)"
    and st: "bc_step e {} {''arch''} bc w bc1 w1" and fd: "m_fd (arch_map bc1) \<noteq> 0"
    and caps: "\<And>k. capacity w ?p k \<Longrightarrow> capacity w1 ?p k"
  proof (cases "m_fd (arch_map bc) = 0")
    case False
    with that ok show ?thesis by (simp add: bc_arch_open_def bc_step_refl)
  next
    case True
    obtain m1 w1 m2 w2 where "bc_map_open e (bc_name bc) ((arch_map bc)\<lparr>m_ext := ''arch''\<rparr>) w = Some (0, m1, w1)"
      and "bc_map_alloc e (bc_name bc) m1 0 w1 = Some (0, m2, w2)"
      and post: "slot_post e (bc_name bc) ''arch'' 0 w m2 w2"
      by (rule slot_opened [OF os bc_ok_parts(1,3) [OF ok] cap])
    with that [of "bc\<lparr>arch_map := m2\<rparr>" w2] True slot_post_arch [OF ok post] slot_postD(3,7) [OF post]
    show ?thesis by (simp add: bc_arch_open_def)
  qed
  note nm = bc_stepD(2) [OF st]
  note rm = rec_mapped [OF bc_ok_parts(1,3) [OF bc_stepD(1) [OF st]] fd, unfolded nm]
  have same: "m_fd (arch_map bc) \<noteq> 0 \<Longrightarrow> bc1 = bc \<and> w1 = w"
    using op by (auto simp: bc_arch_open_def)
  show ?thesis
    by (rule that [OF op st fd rm(1) _ _ same caps])
      (use rm(4) rec_step [OF st, of "''arch''"] in \<open>simp_all add: rec_count_def\<close>)
qed

lemma bc_arch_get_ok:
  assumes os: "os_ok e" and ok: "bc_ok e bc w"
    and cap: "capacity w (ext_path e (bc_name bc) ''arch'') n"
  shows "returns (if unat pos < arch_count e (bc_name bc) w \<and> i_size (arch_at e (bc_name bc) w (unat pos)) \<noteq> 0
       then (0, Some (arch_at e (bc_name bc) w (unat pos))) else (SHERR_NOENT, None)) (bc_arch_get e bc pos w)
     (\<lambda>(bc', w'). bc_step e {} {''arch''} bc w bc' w' \<and> m_fd (arch_map bc') \<noteq> 0 \<and>
        (\<forall>k. capacity w (ext_path e (bc_name bc) ''arch'') k \<longrightarrow> capacity w' (ext_path e (bc_name bc) ''arch'') k) \<and>
        (m_fd (arch_map bc) \<noteq> 0 \<longrightarrow> bc' = bc \<and> w' = w))"
  by (rule arch_opened [OF os ok cap], cases "unat pos < arch_count e (bc_name bc) w")
    (simp_all add: bc_arch_get_def)

lemma bc_arch_scan_ok:
  assumes "\<And>i. i < n \<Longrightarrow> idx_load w m i = Some (xs i) \<and> length (i_hash (xs i)) = 8"
    and "length hash = 8"
  shows "bc_arch_scan w m hash n = Some (map_option (\<lambda>i. (xs i, i)) (idx_search xs hash n))"
  using assms by (induction n) (auto simp: bc_hash_cmp_eq)

lemma bc_arch_find_ok:
  assumes os: "os_ok e" and ok: "bc_ok e bc w"
    and cap: "capacity w (ext_path e (bc_name bc) ''arch'') n" and len: "length hash = 8"
  shows "returns (case idx_search (arch_at e (bc_name bc) w) hash (arch_count e (bc_name bc) w) of
       None \<Rightarrow> (SHERR_NOENT, None) | Some i \<Rightarrow> (0, Some (arch_at e (bc_name bc) w i, i)))
     (bc_arch_find e bc hash w) (\<lambda>(bc', w'). bc_step e {} {''arch''} bc w bc' w')"
proof -
  let ?c = "arch_count e (bc_name bc) w" and ?xs = "arch_at e (bc_name bc) w"
  obtain bc1 w1 h where op: "bc_arch_open e bc w = Some (0, bc1, w1)"
    and st: "bc_step e {} {''arch''} bc w bc1 w1"
    and h: "hdr_of w1 (arch_map bc1) = Some h" "unat h div 64 = ?c"
    and ld: "\<And>i. i < ?c \<Longrightarrow> idx_load w1 (arch_map bc1) i = Some (?xs i)"
    by (rule arch_opened [OF os ok cap]) blast
  have n: "nat (sint (of_nat ?c - 1 :: u32) + 1) = ?c"
    using unat_u32_bound [of h] h(2) by (subst sint_pred_u32) auto
  have "bc_arch_scan w1 (arch_map bc1) hash ?c = Some (map_option (\<lambda>i. (?xs i, i)) (idx_search ?xs hash ?c))"
    by (rule bc_arch_scan_ok) (simp_all add: ld len)
  with op st h n show ?thesis
    by (auto simp: bc_arch_find_def split: option.split)
qed

lemma slot_written_arch:
  "bc_ok e bc w \<Longrightarrow> slot_written e (bc_name bc) ''arch'' off data w m w' \<Longrightarrow>
     bc_step e {''arch''} {''arch''} bc w (bc\<lparr>arch_map := m\<rparr>) w'"
  by (rule bc_stepI [where x = "''arch''"]) (auto simp: slot_written_def intro: bc_ok_arch)

text \<open>\<open>bc_arch_add\<close> stores the record behind the last one.\<close>

definition arch_added :: "env \<Rightarrow> bc_t \<Rightarrow> world \<Rightarrow> bc_idx \<Rightarrow> bc_t \<Rightarrow> world \<Rightarrow> bool" where
  "arch_added e bc w x bc' w' \<longleftrightarrow> bc_step e {''arch''} {''arch''} bc w bc' w' \<and>
     (\<forall>j. arch_at e (bc_name bc) w' j =
       (if j = arch_count e (bc_name bc) w then x else arch_at e (bc_name bc) w j)) \<and>
     arch_count e (bc_name bc) w' = Suc (arch_count e (bc_name bc) w) \<and>
     (\<forall>n. capacity w (ext_path e (bc_name bc) ''arch'') (64 + n) \<longrightarrow>
        capacity w' (ext_path e (bc_name bc) ''arch'') n)"

lemma arch_set_end:
  assumes os: "os_ok e" and ok: "bc_ok e bc w" and fd: "m_fd (arch_map bc) \<noteq> 0"
    and cap: "capacity w (ext_path e (bc_name bc) ''arch'') 64" and len: "length (i_hash x) = 8"
    and pos: "unat pos = arch_count e (bc_name bc) w"
  shows "returns 0 (bc_arch_set e bc pos x w) (\<lambda>(bc', w'). arch_added e bc w x bc' w')"
proof -
  let ?nm = "bc_name bc" and ?m = "arch_map bc"
  obtain h where op: "bc_arch_open e bc w = Some (0, bc, w)" and h: "hdr_of w ?m = Some h"
    by (rule arch_opened [OF os ok cap]) (use fd in blast)
  have get: "bc_arch_get e bc pos w = Some ((SHERR_NOENT, None), bc, w)"
    using bc_arch_get_ok [OF os ok cap, of pos] fd pos by (auto simp: returns_def)
  have i: "unat pos \<le> rec_count e ?nm ''arch'' w" using pos by simp
  obtain m1 w1 m2 w2 where
    al: "(if unat pos \<ge> unat h div 64 \<and> 64 * unat pos + 64 > m_size ?m
      then bc_map_alloc e ?nm ?m (of_nat (64 * unat pos + 64 - m_size ?m)) w
      else Some (0, ?m, w)) = Some (0, m1, w1)"
    and wr: "bc_map_write e ?nm m1 (of_nat (unat pos * 64)) (idx_enc x) w1 = Some (0, m2, w2)"
    and sw: "slot_written e ?nm ''arch'' (64 * unat pos) (idx_enc x) w m2 w2"
    by (rule rec_alloc_write [OF os bc_ok_parts(1,3) [OF ok] fd cap len i])
  have "bc_arch_set e bc pos x w = Some (0, bc\<lparr>arch_map := m2\<rparr>, w2)"
    unfolding bc_arch_set_def
    by (simp only: op get h al wr unat_rec_off(1) [OF i] run_simps)
  moreover have "arch_added e bc w x (bc\<lparr>arch_map := m2\<rparr>) w2"
    using slot_written_arch [OF ok sw] slot_written_rec [OF sw len i] slot_writtenD(7) [OF sw] pos
    by (simp add: arch_added_def length_idx_enc [OF len])
  ultimately show ?thesis by simp
qed

lemma bc_arch_add_ok:
  assumes os: "os_ok e" and ok: "bc_ok e bc w"
    and cap: "capacity w (ext_path e (bc_name bc) ''arch'') 64" and len: "length (i_hash x) = 8"
  shows "returns 0 (bc_arch_add e bc x w) (\<lambda>(bc', w'). arch_added e bc w x bc' w')"
proof -
  obtain bc1 w1 h where op: "bc_arch_open e bc w = Some (0, bc1, w1)"
    and st: "bc_step e {} {''arch''} bc w bc1 w1" and fd: "m_fd (arch_map bc1) \<noteq> 0"
    and h: "hdr_of w1 (arch_map bc1) = Some h" "unat h div 64 = arch_count e (bc_name bc) w"
    and caps: "\<And>k. capacity w (ext_path e (bc_name bc) ''arch'') k \<Longrightarrow>
       capacity w1 (ext_path e (bc_name bc) ''arch'') k"
    by (rule arch_opened [OF os ok cap]) blast
  note nm = bc_stepD(2) [OF st] and rs = rec_step [OF st, of "''arch''", simplified]
  have nx: "bc_arch_next e bc w = Some (of_nat (arch_count e (bc_name bc) w), bc1, w1)"
    by (simp add: bc_arch_next_def op h)
  have "unat (of_nat (arch_count e (bc_name bc) w) :: u32) = arch_count e (bc_name bc1) w1"
    using unat_u32_bound [of h] h(2) by (subst unat_of_nat_u32) (auto simp: nm rs)
  from arch_set_end [OF os bc_stepD(1) [OF st] fd _ len this] caps [OF cap]
  obtain bc2 w2 where "bc_arch_set e bc1 (of_nat (arch_count e (bc_name bc) w)) x w1 = Some (0, bc2, w2)"
    and ad: "arch_added e bc1 w1 x bc2 w2"
    by (auto simp: returns_def nm)
  moreover have "bc_step e {''arch''} {''arch''} bc w bc2 w2"
    by (rule bc_step_trans [OF st]) (use ad in \<open>auto simp: arch_added_def\<close>)
  then have "arch_added e bc w x bc2 w2"
    using ad caps by (simp add: arch_added_def nm rs)
  ultimately show ?thesis by (simp add: bc_arch_add_def nx)
qed

end
