(* ===== verification/Bc_Block.thy ===== *)
theory Bc_Block
  imports Bc_Arch
begin

text \<open>
  The block database itself, \<^verbatim>\<open>blockchain/bc_block.c\<close>: records of arbitrary bytes under 256-bit
  hashes, appended to journal files (65536 positions per journal) and found by position through the
  index or by hash through index and table. A record taken off the chain moves to the archive and
  its bytes stay in the journal.

  A \<open>data\<close> argument is the caller's buffer; its length is an \<open>int\<close>, so that the functions are not
  defined (\<^term>\<open>None\<close>) on buffers of two gigabytes and more. The \<open>sprintf\<close> of a journal's extension
  after a successful \<open>bc_alloc\<close> is not reached, since \<open>bc_alloc\<close> has set the extension.
\<close>

definition BC_BLOCKS_PER_JOURNAL :: int where "BC_BLOCKS_PER_JOURNAL = 65536"

section \<open>Opening, closing and journals\<close>

definition bc_journal :: "u32 \<Rightarrow> u32" where
  "bc_journal pos = word_of_int (sint pos sdiv BC_BLOCKS_PER_JOURNAL + 1)"

definition new_bc :: "env \<Rightarrow> string \<Rightarrow> bc_t" where
  "new_bc e name = \<lparr>bc_name = take (e_namemax e - 1) name, idx_map = zero_map, tab_map = zero_map,
     arch_map = zero_map, data_map = []\<rparr>"

text \<open>\<open>bc_open\<close>: the code and, on success, the handle.\<close>

definition bc_open :: "env \<Rightarrow> string \<Rightarrow> world \<Rightarrow> (int \<times> bc_t option \<times> world) option" where
  "bc_open e name w = do {
     (err, bc, w) \<leftarrow> bc_idx_open e (new_bc e name) w;
     if err \<noteq> 0 then Some (err, None, w) else Some (0, Some bc, w) }"

fun close_maps :: "env \<Rightarrow> bc_map list \<Rightarrow> world \<Rightarrow> world option" where
  "close_maps e [] w = Some w"
| "close_maps e (m # ms) w = do { (_, w) \<leftarrow> bc_map_close e m w; close_maps e ms w }"

text \<open>\<open>bc_close\<close> frees the handle; the archive map is not closed.\<close>

definition bc_close :: "env \<Rightarrow> bc_t \<Rightarrow> world \<Rightarrow> world option" where
  "bc_close e bc w = do {
     (bc, w) \<leftarrow> bc_idx_close e bc w;
     (bc, w) \<leftarrow> bc_table_close e bc w;
     close_maps e (data_map bc) w }"

text \<open>
  \<open>bc_alloc\<close> makes a journal's map available. \<open>jrnl+1\<close> is computed in 32 bits: the last journal
  number would leave an empty array behind and the access after it is out of bounds.
\<close>

definition bc_alloc :: "env \<Rightarrow> bc_t \<Rightarrow> u32 \<Rightarrow> world \<Rightarrow> (int \<times> bc_t \<times> world) option" where
  "bc_alloc e bc jrnl w =
     (let n = length (data_map bc);
          maps = (if unat jrnl \<ge> n then data_map bc @ replicate (unat jrnl + 1 - n) zero_map
                  else data_map bc)
      in if unat jrnl \<ge> n \<and> jrnl + 1 = 0 then None
         else
           let m = maps ! unat jrnl;
               m = (if m_ext m = [] then m\<lparr>m_ext := nat_str (unat jrnl)\<rparr> else m)
           in do {
             (err, m, w) \<leftarrow> bc_map_alloc e (bc_name bc) m 0 w;
             Some (err, bc\<lparr>data_map := maps[unat jrnl := m]\<rparr>, w) })"

definition jmap :: "bc_t \<Rightarrow> u32 \<Rightarrow> bc_map" where
  "jmap bc jrnl = data_map bc ! unat jrnl"

definition jmap_set :: "u32 \<Rightarrow> bc_map \<Rightarrow> bc_t \<Rightarrow> bc_t" where
  "jmap_set jrnl m bc = bc\<lparr>data_map := (data_map bc)[unat jrnl := m]\<rparr>"

section \<open>Writing\<close>

text \<open>What both writers do when the journal cannot be written: the index record is withdrawn.\<close>

definition bc_undo ::
    "env \<Rightarrow> bc_t \<Rightarrow> u32 \<Rightarrow> bc_hash_t \<Rightarrow> int \<Rightarrow> world \<Rightarrow> (int \<times> bc_t \<times> world) option" where
  "bc_undo e bc pos hash err w = do {
     (_, bc, w) \<leftarrow> bc_idx_clear e bc pos w;
     (_, bc, w) \<leftarrow> bc_table_reset e bc hash w;
     Some (err, bc, w) }"

definition bc_rewrite_body ::
    "env \<Rightarrow> bc_t \<Rightarrow> u32 \<Rightarrow> bc_hash_t \<Rightarrow> u8 list \<Rightarrow> world \<Rightarrow> (int \<times> bc_t \<times> world) option" where
  "bc_rewrite_body e bc pos hash data w =
     (if length data \<ge> 2147483648 then None
      else let jrnl = bc_journal pos in do {
        (err, bc, w) \<leftarrow> bc_alloc e bc jrnl w;
        if err \<noteq> 0 then Some (err, bc, w)
        else do {
          ((err, r), bc, w) \<leftarrow> bc_idx_get e bc pos w;
          if err \<noteq> 0 then Some (err, bc, w)
          else do {
            idx \<leftarrow> r;
            if i_size idx \<noteq> of_nat (length data) then Some (SHERR_EXIST, bc, w)
            else do {
              (err, bc, w) \<leftarrow> bc_idx_reset e bc pos (idx\<lparr>i_crc := e_crc32 e data\<rparr>) w;
              if err \<noteq> 0 then Some (err, bc, w)
              else do {
                (err, m, w) \<leftarrow> bc_map_write e (bc_name bc) (jmap bc jrnl) (i_of idx) data w;
                let bc = jmap_set jrnl m bc
                in if err \<noteq> 0 then bc_undo e bc pos hash err w
                   else Some (0, bc, w) } } } } })"

definition bc_rewrite ::
    "env \<Rightarrow> bc_t \<Rightarrow> u32 \<Rightarrow> bc_hash_t \<Rightarrow> u8 list \<Rightarrow> world \<Rightarrow> (int \<times> bc_t \<times> world) option" where
  "bc_rewrite e bc pos hash data w =
     (if \<not> lock_ok e then Some (SHERR_NOLCK, bc, w) else bc_rewrite_body e bc pos hash data w)"

definition new_idx :: "env \<Rightarrow> u32 \<Rightarrow> u32 \<Rightarrow> bc_hash_t \<Rightarrow> u8 list \<Rightarrow> bc_idx" where
  "new_idx e jrnl off hash data = zero_idx\<lparr>i_jrnl := jrnl, i_size := of_nat (length data), i_of := off,
     i_crc := e_crc32 e data, i_hash := hash\<rparr>"

definition bc_write_body ::
    "env \<Rightarrow> bc_t \<Rightarrow> u32 \<Rightarrow> bc_hash_t \<Rightarrow> u8 list \<Rightarrow> world \<Rightarrow> (int \<times> bc_t \<times> world) option" where
  "bc_write_body e bc pos hash data w =
     (if length data \<ge> 2147483648 then None
      else let jrnl = bc_journal pos in do {
        (err, bc, w) \<leftarrow> bc_alloc e bc jrnl w;
        if err \<noteq> 0 then Some (err, bc, w)
        else do {
          off \<leftarrow> hdr_of w (jmap bc jrnl);
          (err, bc, w) \<leftarrow> bc_idx_set e bc pos (new_idx e jrnl off hash data) w;
          (err, bc, w) \<leftarrow>
            (if err = SHERR_EXIST then bc_rewrite_body e bc pos hash data w else Some (err, bc, w));
          if err \<noteq> 0 then Some (err, bc, w)
          else do {
            (err, m, w) \<leftarrow> bc_map_append e (bc_name bc) (jmap bc jrnl) data w;
            let bc = jmap_set jrnl m bc
            in if err \<noteq> 0 then bc_undo e bc pos hash err w
               else Some (0, bc, w) } } })"

definition bc_write ::
    "env \<Rightarrow> bc_t \<Rightarrow> u32 \<Rightarrow> bc_hash_t \<Rightarrow> u8 list \<Rightarrow> world \<Rightarrow> (int \<times> bc_t \<times> world) option" where
  "bc_write e bc pos hash data w =
     (if \<not> lock_ok e then Some (SHERR_NOLCK, bc, w) else bc_write_body e bc pos hash data w)"

text \<open>\<open>bc_append\<close> returns the new position or a negative code.\<close>

definition bc_append ::
    "env \<Rightarrow> bc_t \<Rightarrow> bc_hash_t \<Rightarrow> u8 list \<Rightarrow> world \<Rightarrow> (int \<times> bc_t \<times> world) option" where
  "bc_append e bc hash data w = do {
     (err, bc, w) \<leftarrow> bc_idx_open e bc w;
     if err \<noteq> 0 then Some (err, bc, w)
     else do {
       (pos, bc, w) \<leftarrow> bc_idx_next e bc w;
       if sint pos < 0 then Some (sint pos, bc, w)
       else do {
         (err, bc, w) \<leftarrow> bc_write e bc pos hash data w;
         if err \<noteq> 0 then Some (err, bc, w) else Some (sint pos, bc, w) } } }"

section \<open>Reading\<close>

text \<open>
  The bytes of a record, checked against its checksum: what \<open>bc_read\<close>, \<open>bc_arch\<close> and \<open>bc_purge\<close>
  do after they have the index record and the journal. \<open>Inl\<close> is the error code.
\<close>

definition bc_extent :: "env \<Rightarrow> bc_t \<Rightarrow> bc_idx \<Rightarrow> world \<Rightarrow> (int + u8 list) option" where
  "bc_extent e bc idx w = do {
     bs \<leftarrow> map_load w (jmap bc (i_jrnl idx)) (unat (i_of idx)) (unat (i_size idx));
     Some (if e_crc32 e bs \<noteq> i_crc idx then Inl SHERR_ILSEQ else Inr bs) }"

text \<open>
  \<open>bc_read\<close> fills a buffer of \<open>data_len\<close> bytes; \<^term>\<open>None\<close> as its content is a buffer it did not
  touch. \<open>bc_get\<close> and \<open>bc_arch\<close> return a buffer of the record's size.
\<close>

definition bc_read_body ::
    "env \<Rightarrow> bc_t \<Rightarrow> u32 \<Rightarrow> u32 \<Rightarrow> world \<Rightarrow> ((int \<times> u8 list option) \<times> bc_t \<times> world) option" where
  "bc_read_body e bc pos data_len w = do {
     ((err, r), bc, w) \<leftarrow> bc_idx_get e bc pos w;
     if err \<noteq> 0 then Some ((err, None), bc, w)
     else do {
       idx \<leftarrow> r;
       (err, bc, w) \<leftarrow> bc_alloc e bc (i_jrnl idx) w;
       if err \<noteq> 0 then Some ((err, None), bc, w)
       else
         let buf = replicate (unat data_len) 0;
             data_len = min data_len (i_size idx)
         in do {
           x \<leftarrow> bc_extent e bc idx w;
           Some (case x of
             Inl err \<Rightarrow> ((err, Some buf), bc, w)
           | Inr bs \<Rightarrow> ((0, Some (take (unat data_len) bs @ drop (unat data_len) buf)), bc, w)) } } }"

definition bc_read ::
    "env \<Rightarrow> bc_t \<Rightarrow> u32 \<Rightarrow> u32 \<Rightarrow> world \<Rightarrow> ((int \<times> u8 list option) \<times> bc_t \<times> world) option" where
  "bc_read e bc pos data_len w =
     (if \<not> lock_ok e then Some ((SHERR_NOLCK, None), bc, w) else bc_read_body e bc pos data_len w)"

definition bc_get ::
    "env \<Rightarrow> bc_t \<Rightarrow> u32 \<Rightarrow> world \<Rightarrow> ((int \<times> u8 list option) \<times> bc_t \<times> world) option" where
  "bc_get e bc pos w = do {
     ((err, r), bc, w) \<leftarrow> bc_idx_get e bc pos w;
     if err \<noteq> 0 then Some ((err, None), bc, w)
     else do {
       idx \<leftarrow> r;
       ((err, data), bc, w) \<leftarrow> bc_read e bc pos (i_size idx) w;
       if err \<noteq> 0 then Some ((err, None), bc, w) else Some ((0, data), bc, w) } }"

definition bc_arch ::
    "env \<Rightarrow> bc_t \<Rightarrow> u32 \<Rightarrow> world \<Rightarrow> ((int \<times> u8 list option) \<times> bc_t \<times> world) option" where
  "bc_arch e bc pos w = do {
     ((err, r), bc, w) \<leftarrow> bc_arch_get e bc pos w;
     if err \<noteq> 0 then Some ((err, None), bc, w)
     else do {
       idx \<leftarrow> r;
       (err, bc, w) \<leftarrow> bc_alloc e bc (i_jrnl idx) w;
       if err \<noteq> 0 then Some ((err, None), bc, w)
       else do {
         x \<leftarrow> bc_extent e bc idx w;
         Some (case x of Inl err \<Rightarrow> ((err, None), bc, w) | Inr bs \<Rightarrow> ((0, Some bs), bc, w)) } } }"

definition bc_get_hash ::
    "env \<Rightarrow> bc_t \<Rightarrow> u32 \<Rightarrow> world \<Rightarrow> ((int \<times> bc_hash_t option) \<times> bc_t \<times> world) option" where
  "bc_get_hash e bc pos w = do {
     ((err, r), bc, w) \<leftarrow> bc_idx_get e bc pos w;
     if err \<noteq> 0 then Some ((err, None), bc, w) else Some ((0, map_option i_hash r), bc, w) }"

definition bc_find ::
    "env \<Rightarrow> bc_t \<Rightarrow> bc_hash_t \<Rightarrow> world \<Rightarrow> ((int \<times> nat option) \<times> bc_t \<times> world) option" where
  "bc_find e bc hash w = do {
     ((err, r), bc, w) \<leftarrow> bc_idx_find e bc hash w;
     if err \<noteq> 0 then Some ((err, None), bc, w) else Some ((0, map_option snd r), bc, w) }"

section \<open>Taking records off the chain\<close>

definition bc_clear :: "env \<Rightarrow> bc_t \<Rightarrow> u32 \<Rightarrow> world \<Rightarrow> (int \<times> bc_t \<times> world) option" where
  "bc_clear e bc pos w = do {
     ((err, r), bc, w) \<leftarrow> bc_idx_get e bc pos w;
     if err \<noteq> 0 then Some (err, bc, w)
     else do {
       idx \<leftarrow> r;
       (err, bc, w) \<leftarrow> bc_arch_add e bc idx w;
       if err \<noteq> 0 then Some (err, bc, w)
       else do {
         (err, bc, w) \<leftarrow> bc_idx_clear e bc pos w;
         if err \<noteq> 0 then Some (err, bc, w) else Some (0, bc, w) } } }"

text \<open>
  The loop of \<open>bc_purge\<close>: \<open>i >= pos\<close> compares the \<open>int\<close> \<open>i\<close> with an unsigned position, so that
  \<open>i\<close> is compared as the word it is.
\<close>

definition bc_purge_step :: "env \<Rightarrow> u32 \<Rightarrow> u32 \<Rightarrow> bc_t \<Rightarrow> world \<Rightarrow> (bc_t \<times> world) option" where
  "bc_purge_step e pos i bc w = do {
     (_, bc, w) \<leftarrow> bc_clear e bc i w;
     ((err, r), bc, w) \<leftarrow> bc_idx_get e bc pos w;
     if err = 0 then do {
       t_idx \<leftarrow> r;
       (_, bc, w) \<leftarrow> bc_table_reset e bc (i_hash t_idx) w;
       Some (bc, w) }
     else Some (bc, w) }"

partial_function (option) bc_purge_loop ::
    "env \<Rightarrow> u32 \<Rightarrow> u32 \<Rightarrow> bc_t \<Rightarrow> world \<Rightarrow> (bc_t \<times> world) option" where
  "bc_purge_loop e pos i bc w =
     (if i \<ge> pos then do {
        (bc, w) \<leftarrow> bc_purge_step e pos i bc w;
        bc_purge_loop e pos (i - 1) bc w }
      else Some (bc, w))"

definition bc_purge_body :: "env \<Rightarrow> bc_t \<Rightarrow> u32 \<Rightarrow> world \<Rightarrow> (int \<times> bc_t \<times> world) option" where
  "bc_purge_body e bc pos w = do {
     ((err, r), bc, w) \<leftarrow> bc_idx_get e bc pos w;
     if err \<noteq> 0 then Some (err, bc, w)
     else do {
       idx \<leftarrow> r;
       (err, bc, w) \<leftarrow> bc_alloc e bc (i_jrnl idx) w;
       if err \<noteq> 0 then Some (err, bc, w)
       else do {
         x \<leftarrow> bc_extent e bc idx w;
         case x of
           Inl err \<Rightarrow> Some (err, bc, w)
         | Inr _ \<Rightarrow> do {
             (n, bc, w) \<leftarrow> bc_idx_next e bc w;
             (bc, w) \<leftarrow> bc_purge_loop e pos (n - 1) bc w;
             Some (0, bc, w) } } } }"

definition bc_purge :: "env \<Rightarrow> bc_t \<Rightarrow> u32 \<Rightarrow> world \<Rightarrow> (int \<times> bc_t \<times> world) option" where
  "bc_purge e bc pos w =
     (if \<not> lock_ok e then Some (SHERR_NOLCK, bc, w) else bc_purge_body e bc pos w)"

definition bc_arch_write_body ::
    "env \<Rightarrow> bc_t \<Rightarrow> bc_hash_t \<Rightarrow> u8 list \<Rightarrow> world \<Rightarrow> (int \<times> bc_t \<times> world) option" where
  "bc_arch_write_body e bc hash data w =
     (if length data \<ge> 2147483648 then None
      else do {
        (n, bc, w) \<leftarrow> bc_idx_next e bc w;
        let jrnl = bc_journal n
        in do {
          (err, bc, w) \<leftarrow> bc_alloc e bc jrnl w;
          if err \<noteq> 0 then Some (err, bc, w)
          else do {
            off \<leftarrow> hdr_of w (jmap bc jrnl);
            (err, m, w) \<leftarrow> bc_map_append e (bc_name bc) (jmap bc jrnl) data w;
            let bc = jmap_set jrnl m bc
            in if err < 0 then Some (err, bc, w)
               else do {
                 (err, bc, w) \<leftarrow> bc_arch_add e bc (new_idx e jrnl off hash data) w;
                 if err < 0 then Some (err, bc, w) else Some (0, bc, w) } } } })"

definition bc_arch_write ::
    "env \<Rightarrow> bc_t \<Rightarrow> bc_hash_t \<Rightarrow> u8 list \<Rightarrow> world \<Rightarrow> (int \<times> bc_t \<times> world) option" where
  "bc_arch_write e bc hash data w =
     (if \<not> lock_ok e then Some (SHERR_NOLCK, bc, w) else bc_arch_write_body e bc hash data w)"

section \<open>Idle maps and the chains of a coin\<close>

text \<open>\<open>bc_idle\<close> closes at most one idle journal per call.\<close>

fun idle_maps :: "env \<Rightarrow> bc_map list \<Rightarrow> world \<Rightarrow> (bc_map list \<times> world) option" where
  "idle_maps e [] w = Some ([], w)"
| "idle_maps e (m # ms) w =
     (if m_fd m \<noteq> 0 then do {
        (r, m, w) \<leftarrow> bc_map_idle e m w;
        if r = 0 then Some (m # ms, w)
        else do { (ms, w) \<leftarrow> idle_maps e ms w; Some (m # ms, w) } }
      else do { (ms, w) \<leftarrow> idle_maps e ms w; Some (m # ms, w) })"

definition bc_idle :: "env \<Rightarrow> bc_t \<Rightarrow> world \<Rightarrow> (bc_t \<times> world) option" where
  "bc_idle e bc w =
     (if lock_ok e then do { (ms, w) \<leftarrow> idle_maps e (data_map bc) w; Some (bc\<lparr>data_map := ms\<rparr>, w) }
      else Some (bc, w))"

text \<open>The fields of \<open>CIface\<close> (\<^verbatim>\<open>proto/coin_proto.h\<close>) that the chain functions use.\<close>

record ciface =
  ci_name :: string
  ci_enabled :: bool
  ci_block :: "bc_t option"
  ci_tx :: "bc_t option"
  ci_coin :: "bc_t option"

definition GetBlockChain :: "env \<Rightarrow> ciface \<Rightarrow> world \<Rightarrow> (bc_t option \<times> ciface \<times> world) option" where
  "GetBlockChain e f w = (case ci_block f of
     Some bc \<Rightarrow> Some (Some bc, f, w)
   | None \<Rightarrow> do { (_, b, w) \<leftarrow> bc_open e (ci_name f @ ''_block'') w; Some (b, f\<lparr>ci_block := b\<rparr>, w) })"

definition GetBlockTxChain :: "env \<Rightarrow> ciface \<Rightarrow> world \<Rightarrow> (bc_t option \<times> ciface \<times> world) option" where
  "GetBlockTxChain e f w = (case ci_tx f of
     Some bc \<Rightarrow> Some (Some bc, f, w)
   | None \<Rightarrow> do { (_, b, w) \<leftarrow> bc_open e (ci_name f @ ''_tx'') w; Some (b, f\<lparr>ci_tx := b\<rparr>, w) })"

definition GetBlockCoinChain :: "env \<Rightarrow> ciface \<Rightarrow> world \<Rightarrow> (bc_t option \<times> ciface \<times> world) option" where
  "GetBlockCoinChain e f w = (case ci_coin f of
     Some bc \<Rightarrow> Some (Some bc, f, w)
   | None \<Rightarrow> do { (_, b, w) \<leftarrow> bc_open e (ci_name f @ ''_coin'') w; Some (b, f\<lparr>ci_coin := b\<rparr>, w) })"

definition idle_opt :: "env \<Rightarrow> bc_t option \<Rightarrow> world \<Rightarrow> (bc_t option \<times> world) option" where
  "idle_opt e b w = (case b of None \<Rightarrow> Some (None, w)
     | Some bc \<Rightarrow> do { (bc, w) \<leftarrow> bc_idle e bc w; Some (Some bc, w) })"

definition bc_iface_idle :: "env \<Rightarrow> ciface \<Rightarrow> world \<Rightarrow> (ciface \<times> world) option" where
  "bc_iface_idle e f w = do {
     (b, f, w) \<leftarrow> GetBlockChain e f w;
     (b, w) \<leftarrow> idle_opt e b w;
     let f = f\<lparr>ci_block := b\<rparr> in do {
       (b, f, w) \<leftarrow> GetBlockTxChain e f w;
       (b, w) \<leftarrow> idle_opt e b w;
       let f = f\<lparr>ci_tx := b\<rparr> in do {
         (b, f, w) \<leftarrow> GetBlockCoinChain e f w;
         (b, w) \<leftarrow> idle_opt e b w;
         Some (f\<lparr>ci_coin := b\<rparr>, w) } } }"

text \<open>
  \<open>bc_chain_idle\<close> over the \<open>MAX_COIN_IFACE\<close> interfaces of the interface table, given in the order of
  their indices; \<open>GetCoinByIndex\<close> returns no interface for some of them.
\<close>

fun bc_chain_idle_from :: "env \<Rightarrow> int \<Rightarrow> ciface list \<Rightarrow> world \<Rightarrow> (ciface list \<times> world) option" where
  "bc_chain_idle_from e i [] w = Some ([], w)"
| "bc_chain_idle_from e i (f # fs) w =
     (if GetCoinByIndex i = None \<or> \<not> ci_enabled f
      then do { (fs, w) \<leftarrow> bc_chain_idle_from e (i + 1) fs w; Some (f # fs, w) }
      else do {
        (f, w) \<leftarrow> bc_iface_idle e f w;
        (fs, w) \<leftarrow> bc_chain_idle_from e (i + 1) fs w;
        Some (f # fs, w) })"

definition bc_chain_idle :: "env \<Rightarrow> ciface list \<Rightarrow> world \<Rightarrow> (ciface list \<times> world) option" where
  "bc_chain_idle e fs w = bc_chain_idle_from e 0 fs w"

section \<open>The extent of a record\<close>

definition jrnl_path :: "env \<Rightarrow> string \<Rightarrow> u32 \<Rightarrow> path" where
  "jrnl_path e nm j = ext_path e nm (nat_str (unat j))"

definition extent :: "env \<Rightarrow> string \<Rightarrow> world \<Rightarrow> bc_idx \<Rightarrow> u8 list" where
  "extent e nm w x = mem_load (fraw w (jrnl_path e nm (i_jrnl x))) (unat (i_of x)) (unat (i_size x))"

definition extent_ok :: "env \<Rightarrow> string \<Rightarrow> world \<Rightarrow> bc_idx \<Rightarrow> bool" where
  "extent_ok e nm w x \<longleftrightarrow> i_jrnl x + 1 \<noteq> 0 \<and>
     unat (i_of x) + unat (i_size x) \<le> unat (fof w (jrnl_path e nm (i_jrnl x))) \<and>
     e_crc32 e (extent e nm w x) = i_crc x"

definition apart :: "bc_idx \<Rightarrow> bc_idx \<Rightarrow> bool" where
  "apart x y \<longleftrightarrow> i_jrnl x \<noteq> i_jrnl y \<or> unat (i_of x) + unat (i_size x) \<le> unat (i_of y) \<or>
     unat (i_of y) + unat (i_size y) \<le> unat (i_of x)"

lemma bc_ok_grow:
  "bc_ok e bc w \<Longrightarrow> bc_ok e (bc\<lparr>data_map := data_map bc @ replicate k zero_map\<rparr>) w"
  by (auto simp: bc_ok_def nth_append slot_ok_zero)

lemma slot_ok_set_ext: "slot_ok e nm ext m w \<Longrightarrow> slot_ok e nm ext (m\<lparr>m_ext := ext\<rparr>) w"
  by (auto simp: slot_ok_def)

lemma slot_post_data:
  assumes "bc_ok e bc w" and "slot_post e (bc_name bc) (nat_str j) k w m w'" and "j < length (data_map bc)"
  shows "bc_step e {} {nat_str j} bc w (bc\<lparr>data_map := (data_map bc)[j := m]\<rparr>) w'"
  by (rule bc_stepI [where x = "nat_str j"])
    (use assms in \<open>auto simp: slot_post_def intro: bc_ok_data same_maps_data\<close>)

lemma bc_step_grow:
  assumes "bc_step e P Q (bc\<lparr>data_map := data_map bc @ xs\<rparr>) w bc' w'"
  shows "bc_step e P Q bc w bc' w'"
  using assms by (auto simp: bc_step_def same_maps_def nth_append)

lemma bc_alloc_ok:
  assumes os: "os_ok e" and ok: "bc_ok e bc w" and j: "jrnl + 1 \<noteq> 0"
    and cap: "capacity w (jrnl_path e (bc_name bc) jrnl) n"
  shows "returns 0 (bc_alloc e bc jrnl w) (\<lambda>(bc', w'). bc_step e {} {nat_str (unat jrnl)} bc w bc' w' \<and>
     unat jrnl < length (data_map bc') \<and> m_fd (jmap bc' jrnl) \<noteq> 0 \<and>
     (\<forall>k. capacity w (jrnl_path e (bc_name bc) jrnl) k \<longrightarrow> capacity w' (jrnl_path e (bc_name bc) jrnl) k))"
proof -
  let ?j = "unat jrnl" and ?nm = "bc_name bc"
  define xs where "xs = replicate (?j + 1 - length (data_map bc)) zero_map"
  define bc1 where "bc1 = bc\<lparr>data_map := data_map bc @ xs\<rparr>"
  let ?m = "data_map bc1 ! ?j"
  have maps: "(if ?j \<ge> length (data_map bc)
      then data_map bc @ replicate (?j + 1 - length (data_map bc)) zero_map else data_map bc) = data_map bc1"
    by (auto simp: bc1_def xs_def)
  have len: "?j < length (data_map bc1)" by (auto simp: bc1_def xs_def)
  have ok1: "bc_ok e bc1 w" using bc_ok_grow [OF ok] by (simp add: bc1_def xs_def)
  have nm1: "bc_name bc1 = ?nm" by (simp add: bc1_def)
  have slot: "slot_ok e ?nm (nat_str ?j) ?m w" using bc_ok_parts(4) [OF ok1 len] nm1 by simp
  have m: "(if m_ext ?m = [] then ?m\<lparr>m_ext := nat_str ?j\<rparr> else ?m) = ?m\<lparr>m_ext := nat_str ?j\<rparr>"
    using slot by (auto simp: slot_ok_def)
  obtain m' w' where al: "bc_map_alloc e ?nm (?m\<lparr>m_ext := nat_str ?j\<rparr>) 0 w = Some (0, m', w')"
    and post: "slot_post e ?nm (nat_str ?j) (unat (0 :: u32)) w m' w'"
    by (rule slot_alloc [OF os bc_ok_parts(1) [OF ok] slot_ok_set_ext [OF slot], of 0])
      (use cap in \<open>auto simp: jrnl_path_def intro: capacity_mono\<close>)
  let ?bc' = "bc\<lparr>data_map := (data_map bc1)[?j := m']\<rparr>"
  have eq: "bc1\<lparr>data_map := (data_map bc1)[?j := m']\<rparr> = ?bc'" by (simp add: bc1_def)
  have "bc_alloc e bc jrnl w = Some (0, ?bc', w')"
    using j unfolding bc_alloc_def by (simp only: maps m al run_simps)
  moreover have "bc_step e {} {nat_str ?j} bc w ?bc' w'"
    using slot_post_data [OF ok1, of ?j 0 m' w'] post len nm1 eq
    by (auto simp: bc1_def intro: bc_step_grow)
  ultimately show ?thesis
    using len slot_postD(3,7) [OF post] by (simp add: jmap_def jrnl_path_def)
qed

text \<open>Reading an extent of an open journal.\<close>

lemma bc_extent_ok:
  assumes ok: "bc_ok e bc w" and j: "unat (i_jrnl x) < length (data_map bc)"
    and fd: "m_fd (jmap bc (i_jrnl x)) \<noteq> 0"
    and in_of: "unat (i_of x) + unat (i_size x) \<le> unat (fof w (jrnl_path e (bc_name bc) (i_jrnl x)))"
  shows "bc_extent e bc x w = Some (if e_crc32 e (extent e (bc_name bc) w x) \<noteq> i_crc x
     then Inl SHERR_ILSEQ else Inr (extent e (bc_name bc) w x))"
proof -
  let ?p = "jrnl_path e (bc_name bc) (i_jrnl x)" and ?m = "jmap bc (i_jrnl x)"
  have slot: "slot_ok e (bc_name bc) (nat_str (unat (i_jrnl x))) ?m w"
    using bc_ok_parts(4) [OF ok j] by (simp add: jmap_def)
  have m: "m_hdr ?m = Some ?p" "m_size ?m = fsize w ?p" "w_file w ?p \<noteq> None"
    using slot_ok_mapped [OF slot fd] by (auto simp: jrnl_path_def)
  then have f: "map_file w ?m = Some (file_at w ?p)" by (auto simp: map_file_def file_at_def)
  have "16 + unat (fof w ?p) \<le> fsize w ?p"
    using world_ok_fof [OF bc_ok_parts(1) [OF ok] m(3)] .
  then have "map_inside w ?m (unat (i_of x)) (unat (i_size x))"
    using in_of m(2) by (simp add: map_inside_def f fsize_def)
  then show ?thesis
    by (simp add: bc_extent_def map_load_def f extent_def fraw_def)
qed

section \<open>The database and its abstract view\<close>

text \<open>
  \<open>recs\<close>: what an index file stands for, position by position: a hash with the bytes stored under
  it, or a hole. The chain is the list of the index, the archive that of the archive file.
\<close>

definition entry :: "env \<Rightarrow> string \<Rightarrow> string \<Rightarrow> world \<Rightarrow> nat \<Rightarrow> (bc_hash_t \<times> u8 list) option" where
  "entry e nm ext w i = (let x = rec_at e nm ext w i in
     if i_size x = 0 then None else Some (i_hash x, extent e nm w x))"

definition recs :: "env \<Rightarrow> string \<Rightarrow> string \<Rightarrow> world \<Rightarrow> (bc_hash_t \<times> u8 list) option list" where
  "recs e nm ext w = map (entry e nm ext w) [0..<rec_count e nm ext w]"

abbreviation chain :: "env \<Rightarrow> string \<Rightarrow> world \<Rightarrow> (bc_hash_t \<times> u8 list) option list" where
  "chain e nm w \<equiv> recs e nm ''idx'' w"

abbreviation archive :: "env \<Rightarrow> string \<Rightarrow> world \<Rightarrow> (bc_hash_t \<times> u8 list) option list" where
  "archive e nm w \<equiv> recs e nm ''arch'' w"

definition lookup :: "'a option list \<Rightarrow> nat \<Rightarrow> 'a option" where
  "lookup xs i = (if i < length xs then xs ! i else None)"

text \<open>The records that refer to journal bytes, from the index and from the archive.\<close>

definition refs :: "env \<Rightarrow> string \<Rightarrow> world \<Rightarrow> (string \<times> nat) set" where
  "refs e nm w = {(ext, i). (ext = ''idx'' \<or> ext = ''arch'') \<and> i < rec_count e nm ext w \<and>
     i_size (rec_at e nm ext w i) \<noteq> 0}"

definition rec_of :: "env \<Rightarrow> string \<Rightarrow> world \<Rightarrow> string \<times> nat \<Rightarrow> bc_idx" where
  "rec_of e nm w r = rec_at e nm (fst r) w (snd r)"

text \<open>
  The invariant: the table is sound for the index; every record's bytes lie in the used part of
  its journal and have its checksum; no two records share a byte; a record of the index is in the
  journal of its position.
\<close>

definition db_inv :: "env \<Rightarrow> string \<Rightarrow> world \<Rightarrow> bool" where
  "db_inv e nm w \<longleftrightarrow> tab_inv e nm w \<and>
     (\<forall>r\<in>refs e nm w. extent_ok e nm w (rec_of e nm w r)) \<and>
     (\<forall>r\<in>refs e nm w. \<forall>s\<in>refs e nm w. r \<noteq> s \<longrightarrow> apart (rec_of e nm w r) (rec_of e nm w s)) \<and>
     (\<forall>i. live e nm w i \<longrightarrow> i_jrnl (idx_at e nm w i) = bc_journal (of_nat i))"

text \<open>\<open>db_room n\<close>: every file but the table, which does not grow, can take \<open>n\<close> more bytes.\<close>

definition db_room :: "env \<Rightarrow> string \<Rightarrow> world \<Rightarrow> nat \<Rightarrow> bool" where
  "db_room e nm w n \<longleftrightarrow> (\<forall>ext. ext \<noteq> ''tab'' \<longrightarrow> capacity w (ext_path e nm ext) n)"

definition db_open :: "env \<Rightarrow> bc_t \<Rightarrow> world \<Rightarrow> nat \<Rightarrow> bool" where
  "db_open e bc w n \<longleftrightarrow> bc_ok e bc w \<and> db_room e (bc_name bc) w n"

definition db_ok :: "env \<Rightarrow> bc_t \<Rightarrow> world \<Rightarrow> nat \<Rightarrow> bool" where
  "db_ok e bc w n \<longleftrightarrow> db_open e bc w n \<and> db_inv e (bc_name bc) w"

lemma db_okD:
  assumes "db_ok e bc w n"
  shows "db_open e bc w n" "bc_ok e bc w" "db_inv e (bc_name bc) w" "db_room e (bc_name bc) w n"
    "tab_inv e (bc_name bc) w"
  using assms by (auto simp: db_ok_def db_open_def db_inv_def)

lemma length_recs [simp]: "length (recs e nm ext w) = rec_count e nm ext w"
  by (simp add: recs_def)

lemma nth_recs [simp]: "i < rec_count e nm ext w \<Longrightarrow> recs e nm ext w ! i = entry e nm ext w i"
  by (simp add: recs_def)

lemma recs_eqI:
  "rec_count e nm ext w = length xs \<Longrightarrow> (\<And>i. i < length xs \<Longrightarrow> entry e nm ext w i = xs ! i) \<Longrightarrow>
     recs e nm ext w = xs"
  by (rule nth_equalityI) simp_all

lemma lookup_chain: "lookup (chain e nm w) i =
   (if live e nm w i then Some (i_hash (idx_at e nm w i), extent e nm w (idx_at e nm w i)) else None)"
  by (simp add: lookup_def live_def entry_def Let_def)

lemma live_refs: "live e nm w i \<longleftrightarrow> (''idx'', i) \<in> refs e nm w"
  by (auto simp: live_def refs_def)

lemma db_inv_live:
  assumes "db_inv e nm w" and "live e nm w i"
  shows "extent_ok e nm w (idx_at e nm w i)" and "i_jrnl (idx_at e nm w i) = bc_journal (of_nat i)"
proof -
  have "(''idx'', i) \<in> refs e nm w" using assms(2) by (simp add: live_refs)
  then have "extent_ok e nm w (rec_of e nm w (''idx'', i))" using assms(1) by (auto simp: db_inv_def)
  then show "extent_ok e nm w (idx_at e nm w i)" by (simp add: rec_of_def)
  show "i_jrnl (idx_at e nm w i) = bc_journal (of_nat i)" using assms by (simp add: db_inv_def)
qed

lemma db_room_mono: "db_room e nm w n \<Longrightarrow> k \<le> n \<Longrightarrow> db_room e nm w k"
  by (auto simp: db_room_def intro: capacity_mono)

lemma db_roomD:
  assumes "db_room e nm w n"
  shows "capacity w (ext_path e nm ''idx'') n" "capacity w (ext_path e nm ''arch'') n"
    "capacity w (jrnl_path e nm j) n"
  using assms by (auto simp: db_room_def jrnl_path_def)

text \<open>Steps that change no index and no journal keep the view and the invariant.\<close>

lemma view_step:
  assumes st: "bc_step e P Q bc w bc' w'" and P: "P \<subseteq> {''tab''}"
  shows "chain e (bc_name bc) w' = chain e (bc_name bc) w"
    and "archive e (bc_name bc) w' = archive e (bc_name bc) w"
    and "refs e (bc_name bc) w' = refs e (bc_name bc) w"
    and "r \<in> refs e (bc_name bc) w \<Longrightarrow> rec_of e (bc_name bc) w' r = rec_of e (bc_name bc) w r"
    and "extent e (bc_name bc) w' x = extent e (bc_name bc) w x"
    and "extent_ok e (bc_name bc) w' x = extent_ok e (bc_name bc) w x"
proof -
  have P': "''idx'' \<notin> P" "''arch'' \<notin> P" "nat_str j \<notin> P" for j using P by auto
  note rs = rec_step [OF st P'(1)] rec_step [OF st P'(2)]
  have ex: "extent e (bc_name bc) w' x = extent e (bc_name bc) w x" for x
    by (simp add: extent_def jrnl_path_def bc_stepD(4) [OF st P'(3)])
  have en: "entry e (bc_name bc) ext w' = entry e (bc_name bc) ext w" if "ext = ''idx'' \<or> ext = ''arch''" for ext
    using that by (auto simp: entry_def Let_def rs ex)
  show "chain e (bc_name bc) w' = chain e (bc_name bc) w" "archive e (bc_name bc) w' = archive e (bc_name bc) w"
    by (simp_all add: recs_def rs en)
  show refs: "refs e (bc_name bc) w' = refs e (bc_name bc) w"
    by (auto simp: refs_def rs)
  show "extent e (bc_name bc) w' x = extent e (bc_name bc) w x" by (rule ex)
  then show "extent_ok e (bc_name bc) w' x = extent_ok e (bc_name bc) w x"
    by (simp add: extent_ok_def jrnl_path_def bc_stepD(3) [OF st P'(3)])
  show "r \<in> refs e (bc_name bc) w \<Longrightarrow> rec_of e (bc_name bc) w' r = rec_of e (bc_name bc) w r"
    by (auto simp: refs_def rec_of_def rs)
qed

lemma db_inv_step:
  assumes inv: "db_inv e (bc_name bc) w" and st: "bc_step e P Q bc w bc' w'" and P: "P \<subseteq> {''tab''}"
    and tab: "tab_inv e (bc_name bc) w'"
  shows "db_inv e (bc_name bc) w'"
proof -
  note vs = view_step [OF st P]
  have "''idx'' \<notin> P" using P by auto
  then show ?thesis
    using inv tab by (auto simp: db_inv_def vs idx_step [OF st])
qed

text \<open>
  \<open>db_keep\<close>: an operation that only opens maps; the files keep their content and there is as much
  room as before.
\<close>

definition db_keep :: "env \<Rightarrow> bc_t \<Rightarrow> world \<Rightarrow> bc_t \<Rightarrow> world \<Rightarrow> bool" where
  "db_keep e bc w bc' w' \<longleftrightarrow> bc_step e {} UNIV bc w bc' w' \<and>
     (\<forall>n. db_room e (bc_name bc) w n \<longrightarrow> db_room e (bc_name bc) w' n)"

lemma bc_step_mono:
  "bc_step e P Q bc w bc' w' \<Longrightarrow> P \<subseteq> P' \<Longrightarrow> Q \<subseteq> Q' \<Longrightarrow> bc_step e P' Q' bc w bc' w'"
  by (rule bc_step_trans [where P' = "{}" and Q' = "{}"]) (auto dest: bc_stepD(1) intro: bc_step_refl)

lemma db_keepI:
  assumes st: "bc_step e {} {x} bc w bc' w'"
    and cap: "\<And>k. capacity w (ext_path e (bc_name bc) x) k \<Longrightarrow> capacity w' (ext_path e (bc_name bc) x) k"
  shows "db_keep e bc w bc' w'"
proof -
  have "capacity w' (ext_path e (bc_name bc) ext) n"
    if "capacity w (ext_path e (bc_name bc) ext) n" for ext n
    using that cap bc_step_capacity [OF st, of ext] by (cases "ext = x") auto
  then show ?thesis
    using bc_step_mono [OF st] by (auto simp: db_keep_def db_room_def)
qed

lemma db_keep_trans: "db_keep e bc w bc1 w1 \<Longrightarrow> db_keep e bc1 w1 bc2 w2 \<Longrightarrow> db_keep e bc w bc2 w2"
  using bc_step_trans [of e "{}" UNIV bc w bc1 w1 "{}" UNIV bc2 w2 "{}" UNIV]
  by (auto simp: db_keep_def bc_stepD(2))

lemma db_keepD:
  assumes keep: "db_keep e bc w bc' w'"
  shows "bc_name bc' = bc_name bc" and "chain e (bc_name bc) w' = chain e (bc_name bc) w"
    and "archive e (bc_name bc) w' = archive e (bc_name bc) w"
    and "db_open e bc w n \<Longrightarrow> db_open e bc' w' n"
    and "db_ok e bc w n \<Longrightarrow> db_ok e bc' w' n"
    and "idx_at e (bc_name bc) w' i = idx_at e (bc_name bc) w i"
    and "idx_count e (bc_name bc) w' = idx_count e (bc_name bc) w"
    and "live e (bc_name bc) w' i = live e (bc_name bc) w i"
    and "extent e (bc_name bc) w' x = extent e (bc_name bc) w x"
    and "extent_ok e (bc_name bc) w' x = extent_ok e (bc_name bc) w x"
proof -
  have st: "bc_step e {} UNIV bc w bc' w'" using keep by (simp add: db_keep_def)
  note vs = view_step [OF st] and nm = bc_stepD(2) [OF st]
  show "bc_name bc' = bc_name bc" by (rule nm)
  show "chain e (bc_name bc) w' = chain e (bc_name bc) w"
    "archive e (bc_name bc) w' = archive e (bc_name bc) w"
    "extent e (bc_name bc) w' x = extent e (bc_name bc) w x"
    "extent_ok e (bc_name bc) w' x = extent_ok e (bc_name bc) w x"
    by (simp_all add: vs)
  show "idx_at e (bc_name bc) w' i = idx_at e (bc_name bc) w i"
    "idx_count e (bc_name bc) w' = idx_count e (bc_name bc) w"
    "live e (bc_name bc) w' i = live e (bc_name bc) w i"
    by (simp_all add: idx_step [OF st])
  show "db_open e bc w n \<Longrightarrow> db_open e bc' w' n"
    using keep bc_stepD(1) [OF st] by (auto simp: db_open_def db_keep_def nm)
  then show "db_ok e bc w n \<Longrightarrow> db_ok e bc' w' n"
    using db_inv_step [OF _ st] tab_inv_step [OF _ st] by (auto simp: db_ok_def nm db_inv_def)
qed

lemma idx_get_keep:
  assumes os: "os_ok e" and db: "db_open e bc w n"
  obtains bc' w' where "bc_idx_get e bc pos w = Some (get_result e (bc_name bc) w (unat pos), bc', w')"
    and "db_keep e bc w bc' w'" and "m_fd (idx_map bc') \<noteq> 0"
  using bc_idx_get_ok [OF os, of bc w n pos] db db_roomD(1) [of e "bc_name bc" w n]
  by (auto simp: returns_def db_open_def intro: db_keepI)

lemma idx_next_keep:
  assumes os: "os_ok e" and db: "db_open e bc w n"
  obtains bc' w' where "bc_idx_next e bc w = Some (of_nat (idx_count e (bc_name bc) w), bc', w')"
    and "db_keep e bc w bc' w'"
  using bc_idx_next_ok [OF os, of bc w n] db db_roomD(1) [of e "bc_name bc" w n]
  by (auto simp: returns_def db_open_def intro: db_keepI)

lemma alloc_keep:
  assumes os: "os_ok e" and db: "db_open e bc w n" and j: "j + 1 \<noteq> 0"
  obtains bc' w' where "bc_alloc e bc j w = Some (0, bc', w')" and "db_keep e bc w bc' w'"
    and "unat j < length (data_map bc')" and "m_fd (jmap bc' j) \<noteq> 0"
  using bc_alloc_ok [OF os _ j, of bc w n] db db_roomD(3) [of e "bc_name bc" w n j]
  by (auto simp: returns_def db_open_def jrnl_path_def intro: db_keepI)

section \<open>Reading a record\<close>

lemma bc_extent_keep:
  assumes db: "db_open e bc w n" and keep: "db_keep e bc w bc' w'"
    and j: "unat (i_jrnl x) < length (data_map bc')" and fd: "m_fd (jmap bc' (i_jrnl x)) \<noteq> 0"
    and in_of: "unat (i_of x) + unat (i_size x) \<le> unat (fof w (jrnl_path e (bc_name bc) (i_jrnl x)))"
  shows "bc_extent e bc' x w' = Some (if e_crc32 e (extent e (bc_name bc) w x) \<noteq> i_crc x
     then Inl SHERR_ILSEQ else Inr (extent e (bc_name bc) w x))"
proof -
  have st: "bc_step e {} UNIV bc w bc' w'" using keep by (simp add: db_keep_def)
  have "fof w' (jrnl_path e (bc_name bc) (i_jrnl x)) = fof w (jrnl_path e (bc_name bc) (i_jrnl x))"
    using bc_stepD(3) [OF st] by (simp add: jrnl_path_def)
  with bc_extent_ok [OF bc_stepD(1) [OF st] j fd] in_of show ?thesis
    by (simp add: db_keepD [OF keep])
qed

lemma extent_keep:
  assumes "db_open e bc w n" and "db_keep e bc w bc' w'" and "extent_ok e (bc_name bc) w x"
    and "unat (i_jrnl x) < length (data_map bc')" and "m_fd (jmap bc' (i_jrnl x)) \<noteq> 0"
  shows "bc_extent e bc' x w' = Some (Inr (extent e (bc_name bc) w x))"
  using assms bc_extent_keep [OF assms(1,2,4,5)] by (simp add: extent_ok_def)

lemma length_extent [simp]: "length (extent e nm w x) = unat (i_size x)"
  by (simp add: extent_def)

text \<open>What a read into a buffer of a given length finds.\<close>

definition read_result :: "(bc_hash_t \<times> u8 list) option \<Rightarrow> nat \<Rightarrow> int \<times> u8 list option" where
  "read_result r n = (case r of None \<Rightarrow> (SHERR_NOENT, None)
     | Some (h, d) \<Rightarrow> (0, Some (take n d @ replicate (n - length d) 0)))"

lemma bc_read_ok:
  assumes os: "os_ok e" and db: "db_ok e bc w n"
  shows "returns (read_result (lookup (chain e (bc_name bc) w) (unat pos)) (unat len)) (bc_read e bc pos len w)
     (\<lambda>(bc', w'). db_keep e bc w bc' w')"
proof -
  let ?nm = "bc_name bc" and ?i = "unat pos"
  let ?x = "idx_at e (bc_name bc) w (unat pos)"
  have lk: "lock_ok e" using os by (simp add: os_ok_def)
  obtain bc1 w1 where get: "bc_idx_get e bc pos w = Some (get_result e ?nm w ?i, bc1, w1)"
    and k1: "db_keep e bc w bc1 w1"
    by (rule idx_get_keep [OF os db_okD(1) [OF db]])
  show ?thesis
  proof (cases "live e ?nm w ?i")
    case False
    then show ?thesis
      using get k1 lk by (simp add: bc_read_def bc_read_body_def get_result_def lookup_chain read_result_def sherr_defs)
  next
    case True
    have ext: "extent_ok e ?nm w ?x" using db True by (auto simp: db_ok_def dest: db_inv_live)
    obtain bc2 w2 where al: "bc_alloc e bc1 (i_jrnl ?x) w1 = Some (0, bc2, w2)" and k2: "db_keep e bc1 w1 bc2 w2"
      and j: "unat (i_jrnl ?x) < length (data_map bc2)" "m_fd (jmap bc2 (i_jrnl ?x)) \<noteq> 0"
      by (rule alloc_keep [OF os db_keepD(4) [OF k1 db_okD(1) [OF db]]]) (use ext in \<open>auto simp: extent_ok_def\<close>)
    note k = db_keep_trans [OF k1 k2]
    have "bc_extent e bc2 ?x w2 = Some (Inr (extent e ?nm w ?x))"
      by (rule extent_keep [OF db_okD(1) [OF db] k ext j])
    then show ?thesis
      using True get al k lk
      by (auto simp: bc_read_def bc_read_body_def get_result_def lookup_chain read_result_def
          Let_def min_def word_le_nat_alt)
  qed
qed

lemma bc_get_ok:
  assumes os: "os_ok e" and db: "db_ok e bc w n"
  shows "returns (case lookup (chain e (bc_name bc) w) (unat pos) of
       None \<Rightarrow> (SHERR_NOENT, None) | Some (h, d) \<Rightarrow> (0, Some d)) (bc_get e bc pos w)
     (\<lambda>(bc', w'). db_keep e bc w bc' w')"
proof -
  let ?nm = "bc_name bc" and ?x = "idx_at e (bc_name bc) w (unat pos)"
  obtain bc1 w1 where get: "bc_idx_get e bc pos w = Some (get_result e ?nm w (unat pos), bc1, w1)"
    and k1: "db_keep e bc w bc1 w1"
    by (rule idx_get_keep [OF os db_okD(1) [OF db]])
  obtain bc2 w2 where rd: "bc_read e bc1 pos (i_size ?x) w1 =
      Some (read_result (lookup (chain e ?nm w) (unat pos)) (unat (i_size ?x)), bc2, w2)"
    and k2: "db_keep e bc1 w1 bc2 w2"
    using bc_read_ok [OF os db_keepD(5) [OF k1 db], of pos "i_size ?x"]
    by (auto simp: returns_def db_keepD [OF k1])
  show ?thesis
    using get k1 rd db_keep_trans [OF k1 k2]
    by (cases "live e ?nm w (unat pos)")
      (simp_all add: bc_get_def get_result_def lookup_chain read_result_def sherr_defs)
qed

text \<open>Bytes that do not have the checksum of their record are not handed out.\<close>

lemma read_ilseq:
  assumes os: "os_ok e" and db: "db_open e bc w n"
    and live: "live e (bc_name bc) w (unat pos)" and j: "i_jrnl (idx_at e (bc_name bc) w (unat pos)) + 1 \<noteq> 0"
    and in_of: "unat (i_of (idx_at e (bc_name bc) w (unat pos))) + unat (i_size (idx_at e (bc_name bc) w (unat pos)))
      \<le> unat (fof w (jrnl_path e (bc_name bc) (i_jrnl (idx_at e (bc_name bc) w (unat pos)))))"
    and bad: "e_crc32 e (extent e (bc_name bc) w (idx_at e (bc_name bc) w (unat pos)))
      \<noteq> i_crc (idx_at e (bc_name bc) w (unat pos))"
  shows "returns (SHERR_ILSEQ, Some (replicate (unat len) 0)) (bc_read e bc pos len w)
    (\<lambda>(bc', w'). db_keep e bc w bc' w')"
proof -
  let ?nm = "bc_name bc" and ?x = "idx_at e (bc_name bc) w (unat pos)"
  have lk: "lock_ok e" using os by (simp add: os_ok_def)
  obtain bc1 w1 where get: "bc_idx_get e bc pos w = Some (get_result e ?nm w (unat pos), bc1, w1)"
    and k1: "db_keep e bc w bc1 w1"
    by (rule idx_get_keep [OF os db])
  obtain bc2 w2 where al: "bc_alloc e bc1 (i_jrnl ?x) w1 = Some (0, bc2, w2)" and k2: "db_keep e bc1 w1 bc2 w2"
    and jj: "unat (i_jrnl ?x) < length (data_map bc2)" "m_fd (jmap bc2 (i_jrnl ?x)) \<noteq> 0"
    by (rule alloc_keep [OF os db_keepD(4) [OF k1 db] j])
  note k = db_keep_trans [OF k1 k2]
  have "bc_extent e bc2 ?x w2 = Some (Inl SHERR_ILSEQ)"
    using bc_extent_keep [OF db k jj in_of] bad by simp
  then show ?thesis
    using live get al k lk by (simp add: bc_read_def bc_read_body_def get_result_def Let_def)
qed

section \<open>Adding a record\<close>

definition put :: "'a list \<Rightarrow> nat \<Rightarrow> 'a \<Rightarrow> 'a list" where
  "put xs i v = (if i < length xs then xs[i := v] else xs @ [v])"

text \<open>An empty record is a hole.\<close>

definition block :: "bc_hash_t \<Rightarrow> u8 list \<Rightarrow> (bc_hash_t \<times> u8 list) option" where
  "block hash data = (if data = [] then None else Some (hash, data))"

text \<open>
  The journal of \<open>x\<close> gets the bytes of \<open>x\<close> at its end: no other record notices.
\<close>

definition jrnl_added :: "env \<Rightarrow> string \<Rightarrow> world \<Rightarrow> u32 \<Rightarrow> u8 list \<Rightarrow> world \<Rightarrow> bool" where
  "jrnl_added e nm w j data w' \<longleftrightarrow>
     fraw w' (jrnl_path e nm j) = mem_store (fraw w (jrnl_path e nm j)) (unat (fof w (jrnl_path e nm j))) data \<and>
     unat (fof w' (jrnl_path e nm j)) = unat (fof w (jrnl_path e nm j)) + length data \<and>
     (\<forall>k. k \<noteq> j \<longrightarrow> fraw w' (jrnl_path e nm k) = fraw w (jrnl_path e nm k) \<and>
        fof w' (jrnl_path e nm k) = fof w (jrnl_path e nm k))"

lemma extent_added:
  assumes jr: "jrnl_added e nm w j data w'" and y: "extent_ok e nm w y"
  shows "extent e nm w' y = extent e nm w y" and "extent_ok e nm w' y"
proof -
  let ?p = "jrnl_path e nm (i_jrnl y)"
  have le: "unat (i_of y) + unat (i_size y) \<le> unat (fof w ?p)" using y by (simp add: extent_ok_def)
  show eq: "extent e nm w' y = extent e nm w y"
    using jr le by (cases "i_jrnl y = j") (auto simp: jrnl_added_def extent_def mem_simps)
  have "unat (fof w ?p) \<le> unat (fof w' ?p)"
    using jr by (cases "i_jrnl y = j") (auto simp: jrnl_added_def)
  then show "extent_ok e nm w' y" using y eq le by (simp add: extent_ok_def)
qed

lemma extent_new:
  fixes hash :: bc_hash_t
  assumes jr: "jrnl_added e nm w j data w'" and j: "j + 1 \<noteq> 0" and len: "length data < 2147483648"
  defines "x \<equiv> new_idx e j (fof w (jrnl_path e nm j)) hash data"
  shows "extent e nm w' x = data" and "extent_ok e nm w' x"
    and "\<And>y. extent_ok e nm w y \<Longrightarrow> apart x y \<and> apart y x"
proof -
  have n: "unat (of_nat (length data) :: u32) = length data" using len by (intro unat_of_nat_u32) simp
  show ex: "extent e nm w' x = data"
    using jr n by (auto simp: x_def extent_def new_idx_def jrnl_added_def mem_simps)
  have "extent e nm w' (new_idx e j (fof w (jrnl_path e nm j)) hash data) = data"
    using ex by (simp add: x_def)
  then show "extent_ok e nm w' x"
    using jr j n by (simp add: x_def extent_ok_def new_idx_def jrnl_added_def)
  show "apart x y \<and> apart y x" if "extent_ok e nm w y" for y
    using that n by (auto simp: extent_ok_def apart_def x_def new_idx_def)
qed

text \<open>A record put at position \<open>i\<close> of the index file \<open>ext\<close>.\<close>

definition rec_put :: "env \<Rightarrow> string \<Rightarrow> string \<Rightarrow> nat \<Rightarrow> bc_idx \<Rightarrow> world \<Rightarrow> world \<Rightarrow> bool" where
  "rec_put e nm ext i x w w' \<longleftrightarrow> i \<le> rec_count e nm ext w \<and>
     (\<forall>j. rec_at e nm ext w' j = (if j = i then x else rec_at e nm ext w j)) \<and>
     rec_count e nm ext w' = max (rec_count e nm ext w) (Suc i)"

definition rec_same :: "env \<Rightarrow> string \<Rightarrow> string \<Rightarrow> world \<Rightarrow> world \<Rightarrow> bool" where
  "rec_same e nm ext w w' \<longleftrightarrow> (\<forall>j. rec_at e nm ext w' j = rec_at e nm ext w j) \<and>
     rec_count e nm ext w' = rec_count e nm ext w"

definition other_ext :: "string \<Rightarrow> string" where
  "other_ext ext = (if ext = ''idx'' then ''arch'' else ''idx'')"

lemma refs_put:
  assumes ext: "ext = ''idx'' \<or> ext = ''arch''" and hole: "(ext, i) \<notin> refs e nm w"
    and pt: "rec_put e nm ext i x w w'" and same: "rec_same e nm (other_ext ext) w w'"
  shows "refs e nm w' = refs e nm w \<union> (if i_size x = 0 then {} else {(ext, i)})"
    and "\<And>r. r \<in> refs e nm w \<Longrightarrow> rec_of e nm w' r = rec_of e nm w r"
    and "rec_of e nm w' (ext, i) = x"
proof -
  have other: "a = other_ext ext" if "(a, k) \<in> refs e nm u" "a \<noteq> ext" for a k u
    using that ext by (auto simp: refs_def other_ext_def)
  have ne: "other_ext ext \<noteq> ext" using ext by (auto simp: other_ext_def)
  have mem: "(a, k) \<in> refs e nm w' \<longleftrightarrow> (a, k) \<in> refs e nm w \<or> (a, k) = (ext, i) \<and> i_size x \<noteq> 0" for a k
  proof (cases "a = ext")
    case True
    then show ?thesis using pt hole ext
      by (cases "k = i") (auto simp: refs_def rec_put_def less_max_iff_disj less_Suc_eq)
  next
    case False
    then show ?thesis using other [of a k] same by (auto simp: refs_def rec_same_def)
  qed
  then show "refs e nm w' = refs e nm w \<union> (if i_size x = 0 then {} else {(ext, i)})" by auto
  show "rec_of e nm w' r = rec_of e nm w r" if "r \<in> refs e nm w" for r
  proof (cases r)
    case (Pair a k)
    then show ?thesis using that other [of a k w] hole pt same
      by (cases "a = ext") (auto simp: rec_of_def rec_put_def rec_same_def)
  qed
  show "rec_of e nm w' (ext, i) = x" using pt by (simp add: rec_of_def rec_put_def)
qed

lemma db_inv_new:
  assumes inv: "db_inv e nm w" and tab: "tab_inv e nm w'"
    and ext: "ext = ''idx'' \<or> ext = ''arch''" and hole: "(ext, i) \<notin> refs e nm w"
    and pt: "rec_put e nm ext i (new_idx e j (fof w (jrnl_path e nm j)) hash data) w w'"
    and same: "rec_same e nm (other_ext ext) w w'"
    and jr: "jrnl_added e nm w j data w'" and j: "j + 1 \<noteq> 0" and len: "length data < 2147483648"
    and pos: "ext = ''idx'' \<Longrightarrow> j = bc_journal (of_nat i)"
  shows "db_inv e nm w'"
proof -
  let ?x = "new_idx e j (fof w (jrnl_path e nm j)) hash data"
  note rp = refs_put [OF ext hole pt same] and en = extent_new [OF jr j len, where hash = hash]
  have old: "extent_ok e nm w (rec_of e nm w r)" if "r \<in> refs e nm w" for r
    using inv that by (simp add: db_inv_def)
  have new: "r \<in> refs e nm w \<or> r = (ext, i)" if "r \<in> refs e nm w'" for r
    using that rp(1) by (simp split: if_splits)
  have "extent_ok e nm w' (rec_of e nm w' r)" if "r \<in> refs e nm w'" for r
    using new [OF that] rp(2,3) en(2) old extent_added(2) [OF jr] by metis
  moreover have "apart (rec_of e nm w' r) (rec_of e nm w' s)"
    if "r \<in> refs e nm w'" "s \<in> refs e nm w'" "r \<noteq> s" for r s
  proof -
    have "apart (rec_of e nm w r) (rec_of e nm w s)" if "r \<in> refs e nm w" "s \<in> refs e nm w"
      using inv that \<open>r \<noteq> s\<close> by (simp add: db_inv_def)
    then show ?thesis
      using new [OF that(1)] new [OF that(2)] that(3) rp(2,3) en(3) old by metis
  qed
  moreover have "i_jrnl (idx_at e nm w' k) = bc_journal (of_nat k)" if "live e nm w' k" for k
  proof -
    have "(''idx'', k) \<in> refs e nm w'" using that by (simp add: live_refs)
    then consider "(''idx'', k) \<in> refs e nm w" | "ext = ''idx''" "k = i"
      using rp(1) by (auto split: if_splits)
    then show ?thesis
    proof cases
      case 1
      with rp(2) inv show ?thesis by (auto simp: db_inv_def live_refs rec_of_def)
    next
      case 2
      with rp(3) pos show ?thesis by (simp add: rec_of_def new_idx_def)
    qed
  qed
  ultimately show ?thesis using tab by (simp add: db_inv_def)
qed

lemma entry_ref:
  "entry e nm ext w i = (if i_size (rec_at e nm ext w i) = 0 then None
     else Some (i_hash (rec_at e nm ext w i), extent e nm w (rec_at e nm ext w i)))"
  by (simp add: entry_def Let_def)

lemma recs_new:
  assumes inv: "db_inv e nm w"
    and ext: "ext = ''idx'' \<or> ext = ''arch''" and hole: "(ext, i) \<notin> refs e nm w"
    and pt: "rec_put e nm ext i (new_idx e j (fof w (jrnl_path e nm j)) hash data) w w'"
    and same: "rec_same e nm (other_ext ext) w w'"
    and jr: "jrnl_added e nm w j data w'" and j: "j + 1 \<noteq> 0" and len: "length data < 2147483648"
  shows "recs e nm ext w' = put (recs e nm ext w) i (block hash data)"
    and "recs e nm (other_ext ext) w' = recs e nm (other_ext ext) w"
proof -
  let ?x = "new_idx e j (fof w (jrnl_path e nm j)) hash data"
  have keep: "entry e nm ext' w' k = entry e nm ext' w k"
    if "rec_at e nm ext' w' k = rec_at e nm ext' w k" "k < rec_count e nm ext' w"
      "ext' = ''idx'' \<or> ext' = ''arch''" for ext' k
  proof (cases "i_size (rec_at e nm ext' w k) = 0")
    case False
    then have "(ext', k) \<in> refs e nm w" using that by (auto simp: refs_def)
    then have "extent_ok e nm w (rec_at e nm ext' w k)" using inv by (auto simp: db_inv_def rec_of_def)
    from extent_added(1) [OF jr this] that show ?thesis by (simp add: entry_ref)
  qed (use that in \<open>simp add: entry_ref\<close>)
  have n: "i_size ?x = 0 \<longleftrightarrow> data = []"
    using len unat_of_nat_u32 [of "length data"] by (auto simp: new_idx_def unat_eq_0 [symmetric])
  have "entry e nm ext w' i = block hash data"
    using pt n extent_new(1) [OF jr j len, where hash = hash]
    by (auto simp: entry_ref rec_put_def block_def) (simp add: new_idx_def)
  then show "recs e nm ext w' = put (recs e nm ext w) i (block hash data)"
    using pt keep ext by (intro recs_eqI) (auto simp: rec_put_def put_def nth_append nth_list_update less_Suc_eq)
  show "recs e nm (other_ext ext) w' = recs e nm (other_ext ext) w"
    using same keep by (intro recs_eqI) (auto simp: rec_same_def other_ext_def)
qed

lemma slot_written_data:
  assumes "bc_ok e bc w" and "slot_written e (bc_name bc) (nat_str (unat j)) off data w m w'"
    and "unat j < length (data_map bc)"
  shows "bc_step e {nat_str (unat j)} {nat_str (unat j)} bc w (jmap_set j m bc) w'"
  unfolding jmap_set_def
  by (rule bc_stepI [where x = "nat_str (unat j)"])
    (use assms in \<open>auto simp: slot_written_def intro: bc_ok_data same_maps_data\<close>)

lemma jrnl_path_inj [simp]: "jrnl_path e nm j = jrnl_path e nm k \<longleftrightarrow> j = k"
  by (simp add: jrnl_path_def nat_str_inj word_unat_eq_iff)

text \<open>Appending to a journal that is open.\<close>

lemma jrnl_append:
  assumes os: "os_ok e" and ok: "bc_ok e bc w" and j: "unat j < length (data_map bc)" "m_fd (jmap bc j) \<noteq> 0"
    and room: "db_room e (bc_name bc) w n" and len: "length data \<le> n"
  obtains m w' where "bc_map_append e (bc_name bc) (jmap bc j) data w = Some (0, m, w')"
    and "bc_step e {nat_str (unat j)} {nat_str (unat j)} bc w (jmap_set j m bc) w'"
    and "jrnl_added e (bc_name bc) w j data w'" and "db_room e (bc_name bc) w' (n - length data)"
proof -
  let ?nm = "bc_name bc" and ?x = "nat_str (unat j)"
  have slot: "slot_ok e ?nm ?x (jmap bc j) w" using bc_ok_parts(4) [OF ok j(1)] by (simp add: jmap_def)
  have cap: "capacity w (ext_path e ?nm ?x) (length data)"
    using db_roomD(3) [OF db_room_mono [OF room len], of j] by (simp add: jrnl_path_def)
  obtain m w' where ap: "bc_map_append e ?nm (jmap bc j) data w = Some (0, m, w')"
    and sw: "slot_written e ?nm ?x (unat (fof w (ext_path e ?nm ?x))) data w m w'"
    by (rule slot_append [OF os bc_ok_parts(1) [OF ok] slot slot_ok_open_ext [OF slot j(2)] cap])
  note wd = slot_writtenD [OF sw] and st = slot_written_data [OF ok sw j(1)]
  have "jrnl_added e ?nm w j data w'"
    using wd(5,6) touches_other(1,2) [OF wd(4)] by (auto simp: jrnl_added_def jrnl_path_def nat_str_inj word_unat_eq_iff)
  moreover have "capacity w' (ext_path e ?nm ext) (n - length data)" if "ext \<noteq> ''tab''" for ext
  proof (cases "ext = ?x")
    case True
    then show ?thesis
      using wd(7) [of "n - length data"] db_roomD(3) [OF room, of j] len by (simp add: jrnl_path_def)
  next
    case False
    then show ?thesis
      using room that bc_step_capacity [OF st, of ext] by (auto simp: db_room_def intro: capacity_mono)
  qed
  ultimately show ?thesis using that ap st by (simp add: db_room_def)
qed

lemma bc_journal_small:
  assumes "unat pos < 2147483648"
  shows "unat (bc_journal pos) = unat pos div 65536 + 1" and "bc_journal pos + 1 \<noteq> 0"
proof -
  define n where "n = unat pos"
  have "sint pos = int n" using sint_u32_small [OF assms] by (simp add: n_def)
  moreover have "int n sdiv 65536 = int (n div 65536)"
    by (cases "n = 0") (simp_all add: signed_divide_int_def zdiv_int)
  ultimately have "bc_journal pos = word_of_int (int (n div 65536 + 1))"
    by (simp add: bc_journal_def BC_BLOCKS_PER_JOURNAL_def)
  then have "bc_journal pos = of_nat (unat pos div 65536 + 1)"
    by (simp only: n_def of_int_of_nat_eq)
  then show u: "unat (bc_journal pos) = unat pos div 65536 + 1"
    using assms by (simp only:) (rule unat_of_nat_u32, simp)
  have "unat (bc_journal pos + 1) = unat pos div 65536 + 2"
    using assms u by (subst unat_add_u32) auto
  then show "bc_journal pos + 1 \<noteq> 0" by auto
qed

text \<open>\<open>bc_write\<close> at a hole of the index or at its end.\<close>

definition db_written ::
    "env \<Rightarrow> bc_t \<Rightarrow> world \<Rightarrow> nat \<Rightarrow> nat \<Rightarrow> (bc_hash_t \<times> u8 list) option \<Rightarrow> bc_t \<Rightarrow> world \<Rightarrow> bool" where
  "db_written e bc w n i b bc' w' \<longleftrightarrow> bc_name bc' = bc_name bc \<and> db_ok e bc' w' n \<and>
     chain e (bc_name bc) w' = put (chain e (bc_name bc) w) i b \<and>
     archive e (bc_name bc) w' = archive e (bc_name bc) w"

lemma hdr_of_jmap:
  assumes "bc_ok e bc w" and "unat j < length (data_map bc)" and "m_fd (jmap bc j) \<noteq> 0"
  shows "hdr_of w (jmap bc j) = Some (fof w (jrnl_path e (bc_name bc) j))"
  using rec_mapped(1) [OF bc_ok_parts(1) [OF assms(1)], of "bc_name bc" "nat_str (unat j)" "jmap bc j"]
    bc_ok_parts(4) [OF assms(1,2)] assms(3)
  by (simp add: jmap_def jrnl_path_def)

lemma db_room_step:
  assumes st: "bc_step e P Q bc w bc' w'" and room: "db_room e (bc_name bc) w n" and k: "k \<le> n"
    and PQ: "\<And>ext. ext \<in> P \<union> Q \<Longrightarrow> ext \<noteq> ''tab'' \<Longrightarrow> capacity w' (ext_path e (bc_name bc) ext) k"
  shows "db_room e (bc_name bc) w' k"
  unfolding db_room_def
proof (intro allI impI)
  fix ext assume "ext \<noteq> ''tab''"
  then show "capacity w' (ext_path e (bc_name bc) ext) k"
    using PQ [of ext] bc_step_capacity [OF st, of ext n] room capacity_mono [OF _ k]
    by (cases "ext \<in> P \<union> Q") (auto simp: db_room_def)
qed

lemma bc_write_new_ok:
  assumes os: "os_ok e" and db: "db_ok e bc w n" and len: "length hash = 8"
    and pos: "unat pos \<le> idx_count e (bc_name bc) w" and hole: "\<not> live e (bc_name bc) w (unat pos)"
    and n: "64 + length data \<le> n"
  shows "returns 0 (bc_write e bc pos hash data w)
     (\<lambda>(bc', w'). db_written e bc w (n - 64 - length data) (unat pos) (block hash data) bc' w')"
proof -
  let ?nm = "bc_name bc" and ?j = "bc_journal pos" and ?i = "unat pos"
  let ?x = "new_idx e ?j (fof w (jrnl_path e ?nm ?j)) hash data"
  have small: "?i < 67108865" using pos idx_count_less [of e ?nm w] by simp
  have j1: "?j + 1 \<noteq> 0" using bc_journal_small(2) small by simp
  have dl: "length data < 2147483648"
    using db_roomD(1) [OF db_okD(4) [OF db]] n by (auto simp: capacity_def)
  obtain bc1 w1 where al: "bc_alloc e bc ?j w = Some (0, bc1, w1)" and k1: "db_keep e bc w bc1 w1"
    and j: "unat ?j < length (data_map bc1)" "m_fd (jmap bc1 ?j) \<noteq> 0"
    by (rule alloc_keep [OF os db_okD(1) [OF db] j1])
  note db1 = db_keepD(5) [OF k1 db] and kd = db_keepD [OF k1]
  have st1: "bc_step e {} UNIV bc w bc1 w1" using k1 by (simp add: db_keep_def)
  have hd: "hdr_of w1 (jmap bc1 ?j) = Some (fof w (jrnl_path e ?nm ?j))"
    using hdr_of_jmap [OF db_okD(2) [OF db1] j] bc_stepD(3) [OF st1] by (simp add: kd(1) jrnl_path_def)
  have xl: "length (i_hash ?x) = 8" using len by (simp add: new_idx_def)
  have cap: "capacity w1 (ext_path e (bc_name bc1) ''idx'') (64 + (n - 64))"
    using db_roomD(1) [OF db_okD(4) [OF db1]] n by simp
  obtain bc2 w2 where ss: "bc_idx_set e bc1 pos ?x w1 = Some (0, bc2, w2)"
    and st2: "bc_step e {''idx'', ''tab''} {''idx'', ''tab''} bc1 w1 bc2 w2" and tab2: "tab_inv e ?nm w2"
    and pt: "rec_put e ?nm ''idx'' ?i ?x w w2" and cap2: "capacity w2 (ext_path e ?nm ''idx'') (n - 64)"
    using bc_idx_set_ok [OF os db_okD(2) [OF db1] db_okD(5) [OF db1] cap xl, of pos] pos hole
    by (auto simp: returns_def kd rec_put_def)
  note nm2 = bc_stepD(2) [OF st2, unfolded kd(1)]
  have room2: "db_room e (bc_name bc2) w2 (n - 64)"
    using db_room_step [OF st2 db_okD(4) [OF db1], of "n - 64"] cap2 by (auto simp: kd(1) nm2)
  have jm: "jmap bc2 ?j = jmap bc1 ?j" "unat ?j < length (data_map bc2)"
    using bc_stepD(10) [OF st2 j(1)] bc_stepD(6) [OF st2] j(1) by (auto simp: jmap_def)
  obtain m w3 where ap: "bc_map_append e (bc_name bc2) (jmap bc2 ?j) data w2 = Some (0, m, w3)"
    and st3: "bc_step e {nat_str (unat ?j)} {nat_str (unat ?j)} bc2 w2 (jmap_set ?j m bc2) w3"
    and ja: "jrnl_added e (bc_name bc2) w2 ?j data w3" and room3: "db_room e (bc_name bc2) w3 (n - 64 - length data)"
    by (rule jrnl_append [OF os bc_stepD(1) [OF st2] jm(2) _ room2]) (use j(2) jm n in auto)
  note nm3 = bc_stepD(2) [OF st3, unfolded nm2]
  have jr: "jrnl_added e ?nm w ?j data w3"
    using ja bc_stepD(3,4) [OF st1] bc_stepD(3,4) [OF st2]
    by (simp add: jrnl_added_def jrnl_path_def nm2 kd(1))
  have pt3: "rec_put e ?nm ''idx'' ?i ?x w w3"
    using pt rec_step [OF st3, of "''idx''"] by (simp add: rec_put_def nm2)
  have same: "rec_same e ?nm (other_ext ''idx'') w w3"
    using rec_step [OF st1, of "''arch''"] rec_step [OF st2, of "''arch''"] rec_step [OF st3, of "''arch''"]
    by (simp add: rec_same_def other_ext_def nm2 kd(1))
  have tab3: "tab_inv e ?nm w3" using tab_inv_step [OF _ st3] tab2 by (simp add: nm2)
  have hole': "(''idx'', ?i) \<notin> refs e ?nm w" using hole by (simp add: live_refs)
  note args = disjI1 [OF refl] hole' pt3 same jr j1 dl
  have "db_inv e ?nm w3" by (rule db_inv_new [OF db_okD(3) [OF db] tab3 args]) simp
  then have "db_ok e (jmap_set ?j m bc2) w3 (n - 64 - length data)"
    using bc_stepD(1) [OF st3] room3 by (simp add: db_ok_def db_open_def nm3 nm2)
  then have "db_written e bc w (n - 64 - length data) ?i (block hash data) (jmap_set ?j m bc2) w3"
    using recs_new [OF db_okD(3) [OF db] args] by (simp add: db_written_def nm3 other_ext_def)
  moreover have "bc_write e bc pos hash data w = Some (0, jmap_set ?j m bc2, w3)"
    using os dl al hd ss ap jm(1)
    by (simp add: bc_write_def bc_write_body_def os_ok_def Let_def sherr_defs)
  ultimately show ?thesis by simp
qed

lemma put_end: "put xs (length xs) v = xs @ [v]"
  by (simp add: put_def)

lemma bc_append_ok:
  assumes os: "os_ok e" and db: "db_ok e bc w n" and len: "length hash = 8" and n: "64 + length data \<le> n"
  shows "returns (int (length (chain e (bc_name bc) w))) (bc_append e bc hash data w) (\<lambda>(bc', w').
     bc_name bc' = bc_name bc \<and> db_ok e bc' w' (n - 64 - length data) \<and>
     chain e (bc_name bc) w' = chain e (bc_name bc) w @ [block hash data] \<and>
     archive e (bc_name bc) w' = archive e (bc_name bc) w)"
proof -
  let ?c = "idx_count e (bc_name bc) w"
  note ok = db_okD(2) [OF db] and cap = db_roomD(1) [OF db_okD(4) [OF db]]
  obtain bc1 w1 where op: "bc_idx_open e bc w = Some (0, bc1, w1)" and k1: "db_keep e bc w bc1 w1"
    by (rule idx_opened [OF os ok cap]) (blast intro: db_keepI)
  obtain bc2 w2 where nx: "bc_idx_next e bc1 w1 = Some (of_nat ?c, bc2, w2)" and k2: "db_keep e bc1 w1 bc2 w2"
    using idx_next_keep [OF os db_keepD(4) [OF k1 db_okD(1) [OF db]]] by (metis db_keepD(1,7) [OF k1])
  note k = db_keep_trans [OF k1 k2]
  note kd = db_keepD [OF k]
  have c: "unat (of_nat ?c :: u32) = ?c" "sint (of_nat ?c :: u32) = int ?c"
    using idx_count_less [of e "bc_name bc" w] by (auto intro: unat_of_nat_u32 sint_u32_small)
  obtain bc3 w3 where wr: "bc_write e bc2 (of_nat ?c) hash data w2 = Some (0, bc3, w3)"
    and post: "db_written e bc2 w2 (n - 64 - length data) ?c (block hash data) bc3 w3"
    using bc_write_new_ok [OF os kd(5) [OF db] len, of "of_nat ?c" data] n
    by (auto simp: returns_def c kd live_def)
  have "put (chain e (bc_name bc) w) ?c (block hash data) = chain e (bc_name bc) w @ [block hash data]"
    using put_end [of "chain e (bc_name bc) w"] by simp
  with post op nx wr c show ?thesis by (simp add: bc_append_def db_written_def kd)
qed

section \<open>Finding a record by its hash\<close>

text \<open>The specification: the highest position whose record has the hash.\<close>

definition has_hash :: "bc_hash_t \<Rightarrow> (bc_hash_t \<times> u8 list) option \<Rightarrow> bool" where
  "has_hash hash r = (case r of None \<Rightarrow> False | Some (h, d) \<Rightarrow> h = hash)"

definition chain_find :: "(bc_hash_t \<times> u8 list) option list \<Rightarrow> bc_hash_t \<Rightarrow> nat option" where
  "chain_find xs hash = (let is = filter (\<lambda>i. has_hash hash (xs ! i)) [0..<length xs] in
     if is = [] then None else Some (last is))"

lemma idx_search_chain_find:
  "chain_find (recs e nm ext w) hash = idx_search (rec_at e nm ext w) hash (rec_count e nm ext w)"
proof -
  have hh: "has_hash hash (entry e nm ext w i) \<longleftrightarrow>
      i_size (rec_at e nm ext w i) \<noteq> 0 \<and> i_hash (rec_at e nm ext w i) = hash" for i
    by (simp add: has_hash_def entry_ref)
  have "(let is = filter (\<lambda>i. has_hash hash (entry e nm ext w i)) [0..<n] in if is = [] then None else Some (last is))
     = idx_search (rec_at e nm ext w) hash n" for n
    unfolding hh by (induction n) (auto simp: Let_def)
  moreover have "filter (\<lambda>i. has_hash hash (recs e nm ext w ! i)) [0..<rec_count e nm ext w] =
      filter (\<lambda>i. has_hash hash (entry e nm ext w i)) [0..<rec_count e nm ext w]"
    by (rule filter_cong) auto
  ultimately show ?thesis by (simp add: chain_find_def)
qed

lemma bc_find_ok:
  assumes os: "os_ok e" and db: "db_ok e bc w n" and len: "length hash = 8"
  shows "returns (case chain_find (chain e (bc_name bc) w) hash of
       None \<Rightarrow> (SHERR_NOENT, None) | Some i \<Rightarrow> (0, Some i)) (bc_find e bc hash w)
     (\<lambda>(bc', w'). bc_name bc' = bc_name bc \<and> db_ok e bc' w' n \<and>
        chain e (bc_name bc) w' = chain e (bc_name bc) w \<and> archive e (bc_name bc) w' = archive e (bc_name bc) w)"
proof -
  let ?nm = "bc_name bc"
  obtain bc' w' where fd: "bc_idx_find e bc hash w = Some (find_result e ?nm w hash, bc', w')"
    and st: "bc_step e {''tab''} {''tab'', ''idx''} bc w bc' w'" and tab: "tab_inv e ?nm w'"
    and cap: "capacity w' (ext_path e ?nm ''idx'') n"
    using bc_idx_find_ok [OF os db_okD(2,5) [OF db] db_roomD(1) [OF db_okD(4) [OF db]] len]
    by (auto simp: returns_def)
  have "db_room e ?nm w' n"
    using db_room_step [OF st db_okD(4) [OF db] order_refl] cap by auto
  then have "db_ok e bc' w' n"
    using bc_stepD(1,2) [OF st] db_inv_step [OF db_okD(3) [OF db] st _ tab] by (simp add: db_ok_def db_open_def)
  with st fd show ?thesis
    by (auto simp: bc_find_def find_result_def idx_search_chain_find sherr_defs bc_stepD(2) [OF st]
        view_step [OF st] split: option.split)
qed

lemma chain_find_append:
  "chain_find (xs @ [b]) hash = (if has_hash hash b then Some (length xs) else chain_find xs hash)"
proof -
  have "filter (\<lambda>i. has_hash hash ((xs @ [b]) ! i)) [0..<length xs] = filter (\<lambda>i. has_hash hash (xs ! i)) [0..<length xs]"
    by (rule filter_cong) (auto simp: nth_append)
  then show ?thesis by (simp add: chain_find_def)
qed

lemma bc_get_hash_ok:
  assumes os: "os_ok e" and db: "db_ok e bc w n"
  shows "returns (case lookup (chain e (bc_name bc) w) (unat pos) of
       None \<Rightarrow> (SHERR_NOENT, None) | Some (h, d) \<Rightarrow> (0, Some h)) (bc_get_hash e bc pos w)
     (\<lambda>(bc', w'). db_keep e bc w bc' w')"
proof -
  obtain bc1 w1 where "bc_idx_get e bc pos w = Some (get_result e (bc_name bc) w (unat pos), bc1, w1)"
    and "db_keep e bc w bc1 w1"
    by (rule idx_get_keep [OF os db_okD(1) [OF db]])
  then show ?thesis
    by (simp add: bc_get_hash_def get_result_def lookup_chain sherr_defs)
qed

section \<open>Taking a record off the chain\<close>

definition jrnl_same :: "env \<Rightarrow> string \<Rightarrow> world \<Rightarrow> world \<Rightarrow> bool" where
  "jrnl_same e nm w w' \<longleftrightarrow> (\<forall>j. fraw w' (jrnl_path e nm j) = fraw w (jrnl_path e nm j) \<and>
     fof w' (jrnl_path e nm j) = fof w (jrnl_path e nm j))"

lemma jrnl_same_extent:
  "jrnl_same e nm w w' \<Longrightarrow> extent e nm w' x = extent e nm w x"
  "jrnl_same e nm w w' \<Longrightarrow> extent_ok e nm w' x = extent_ok e nm w x"
  by (simp_all add: jrnl_same_def extent_def extent_ok_def)

definition idx_cleared :: "env \<Rightarrow> string \<Rightarrow> nat \<Rightarrow> world \<Rightarrow> world \<Rightarrow> bool" where
  "idx_cleared e nm i w w' \<longleftrightarrow>
     (\<forall>j. idx_at e nm w' j = (if j = i then zero_idx else idx_at e nm w j)) \<and>
     idx_count e nm w' = idx_count e nm w"

lemma db_inv_move:
  assumes inv: "db_inv e nm w" and tab: "tab_inv e nm w'" and live: "live e nm w i"
    and arch: "rec_put e nm ''arch'' (arch_count e nm w) (idx_at e nm w i) w w'"
    and idx: "idx_cleared e nm i w w'" and jr: "jrnl_same e nm w w'"
  shows "db_inv e nm w'"
proof -
  define orig where "orig r = (if r = (''arch'', arch_count e nm w) then (''idx'', i) else r)" for r
  have refs: "orig r \<in> refs e nm w \<and> r \<noteq> (''idx'', i)" if "r \<in> refs e nm w'" for r
    using that live arch idx
    by (auto simp: orig_def refs_def rec_put_def idx_cleared_def live_def zero_idx_def less_max_iff_disj
        split: if_splits)
  have rec: "rec_of e nm w' r = rec_of e nm w (orig r)" if "r \<in> refs e nm w'" for r
    using that arch idx refs [OF that]
    by (cases r) (auto simp: orig_def refs_def rec_of_def rec_put_def idx_cleared_def split: if_splits)
  have "extent_ok e nm w' (rec_of e nm w' r)" if "r \<in> refs e nm w'" for r
    using inv refs [OF that] rec [OF that] by (auto simp: db_inv_def jrnl_same_extent [OF jr])
  moreover have "apart (rec_of e nm w' r) (rec_of e nm w' s)"
    if "r \<in> refs e nm w'" "s \<in> refs e nm w'" "r \<noteq> s" for r s
  proof -
    have "orig r \<noteq> orig s" using refs that by (auto simp: orig_def split: if_splits)
    then show ?thesis using inv refs that by (auto simp: db_inv_def rec)
  qed
  moreover have "i_jrnl (idx_at e nm w' k) = bc_journal (of_nat k)" if "live e nm w' k" for k
  proof -
    have "k \<noteq> i" "live e nm w k"
      using that idx by (auto simp: live_def idx_cleared_def zero_idx_def split: if_splits)
    then show ?thesis using inv idx by (simp add: db_inv_def idx_cleared_def)
  qed
  ultimately show ?thesis using tab by (simp add: db_inv_def)
qed

lemma recs_move:
  assumes live: "live e nm w i"
    and arch: "rec_put e nm ''arch'' (arch_count e nm w) (idx_at e nm w i) w w'"
    and idx: "idx_cleared e nm i w w'" and jr: "jrnl_same e nm w w'"
  shows "chain e nm w' = (chain e nm w)[i := None]"
    and "archive e nm w' = archive e nm w @ [chain e nm w ! i]"
proof -
  note ex = jrnl_same_extent(1) [OF jr]
  show "chain e nm w' = (chain e nm w)[i := None]"
    using idx by (intro recs_eqI) (auto simp: idx_cleared_def entry_ref ex nth_list_update zero_idx_def)
  show "archive e nm w' = archive e nm w @ [chain e nm w ! i]"
    using arch live by (intro recs_eqI) (auto simp: rec_put_def entry_ref ex nth_append less_Suc_eq live_def)
qed

definition db_cleared :: "env \<Rightarrow> bc_t \<Rightarrow> world \<Rightarrow> nat \<Rightarrow> nat \<Rightarrow> bc_t \<Rightarrow> world \<Rightarrow> bool" where
  "db_cleared e bc w n i bc' w' \<longleftrightarrow> bc_name bc' = bc_name bc \<and> db_ok e bc' w' n \<and>
     chain e (bc_name bc) w' = (chain e (bc_name bc) w)[i := None] \<and>
     archive e (bc_name bc) w' = archive e (bc_name bc) w @ [chain e (bc_name bc) w ! i]"

lemma bc_clear_noent:
  assumes os: "os_ok e" and db: "db_ok e bc w n" and dead: "\<not> live e (bc_name bc) w (unat pos)"
  shows "returns SHERR_NOENT (bc_clear e bc pos w) (\<lambda>(bc', w'). db_keep e bc w bc' w')"
proof -
  obtain bc1 w1 where "bc_idx_get e bc pos w = Some (get_result e (bc_name bc) w (unat pos), bc1, w1)"
    and "db_keep e bc w bc1 w1"
    by (rule idx_get_keep [OF os db_okD(1) [OF db]])
  with dead show ?thesis by (simp add: bc_clear_def get_result_def sherr_defs)
qed

lemma bc_clear_ok:
  assumes os: "os_ok e" and db: "db_ok e bc w n" and live: "live e (bc_name bc) w (unat pos)"
    and n: "128 \<le> n"
  shows "returns 0 (bc_clear e bc pos w) (\<lambda>(bc', w'). db_cleared e bc w (n - 64) (unat pos) bc' w')"
proof -
  let ?nm = "bc_name bc" and ?i = "unat pos" and ?x = "idx_at e (bc_name bc) w (unat pos)"
  obtain bc1 w1 where get: "bc_idx_get e bc pos w = Some (get_result e ?nm w ?i, bc1, w1)"
    and k1: "db_keep e bc w bc1 w1"
    by (rule idx_get_keep [OF os db_okD(1) [OF db]])
  note kd = db_keepD [OF k1] and db1 = db_keepD(5) [OF k1 db]
  have st1: "bc_step e {} UNIV bc w bc1 w1" using k1 by (simp add: db_keep_def)
  have cap: "capacity w1 (ext_path e (bc_name bc1) ''arch'') 64"
    using db_roomD(2) [OF db_okD(4) [OF db1]] n by (auto intro: capacity_mono)
  obtain bc2 w2 where add: "bc_arch_add e bc1 ?x w1 = Some (0, bc2, w2)" and ad: "arch_added e bc1 w1 ?x bc2 w2"
    using bc_arch_add_ok [OF os db_okD(2) [OF db1] cap, of ?x] by (auto simp: returns_def)
  have st2: "bc_step e {''arch''} {''arch''} bc1 w1 bc2 w2" using ad by (simp add: arch_added_def)
  note nm2 = bc_stepD(2) [OF st2, unfolded kd(1)]
  have room2: "db_room e (bc_name bc1) w2 (n - 64)"
    using db_room_step [OF st2 db_okD(4) [OF db1], of "n - 64"] ad db_roomD(2) [OF db_okD(4) [OF db1]] n
    by (auto simp: arch_added_def)
  have tab2: "tab_inv e (bc_name bc2) w2"
    using tab_inv_step [OF db_okD(5) [OF db1] st2] by (simp add: nm2 kd(1))
  have cap2: "capacity w2 (ext_path e (bc_name bc2) ''idx'') 64"
    using db_roomD(1) [OF room2] n by (auto simp: nm2 kd(1) intro: capacity_mono)
  obtain bc3 w3 where cl: "bc_idx_clear e bc2 pos w2 = Some (0, bc3, w3)"
    and rp: "idx_replaced e bc2 w2 ?i zero_idx bc3 w3"
    using bc_idx_clear_ok [OF os bc_stepD(1) [OF st2] tab2 cap2, of pos] live
    by (auto simp: returns_def nm2 kd(1) live_def idx_step [OF st2, unfolded kd(1)] kd)
  have st3: "bc_step e {''idx''} {''idx''} bc2 w2 bc3 w3" using rp by (simp add: idx_replaced_def)
  note nm3 = bc_stepD(2) [OF st3, unfolded nm2]
  have room3: "db_room e ?nm w3 (n - 64)"
    using db_room_step [OF st3, of "n - 64" "n - 64"] room2 rp db_roomD(1) [OF room2] n
    by (auto simp: idx_replaced_def nm2 kd(1))
  have idx: "idx_cleared e ?nm ?i w w3"
    using rp idx_step(1,2) [OF st2, unfolded kd(1)] idx_step(1,2) [OF st1]
    by (simp add: idx_replaced_def idx_cleared_def nm2)
  have arch: "rec_put e ?nm ''arch'' (arch_count e ?nm w) ?x w w3"
    using ad rec_step [OF st3, of "''arch''", unfolded nm2] rec_step [OF st1, of "''arch''"]
    by (simp add: arch_added_def rec_put_def kd(1))
  have jr: "jrnl_same e ?nm w w3"
    using bc_stepD(3,4) [OF st1] bc_stepD(3,4) [OF st2, unfolded kd(1)] bc_stepD(3,4) [OF st3, unfolded nm2]
    by (simp add: jrnl_same_def jrnl_path_def)
  have "db_inv e ?nm w3"
    by (rule db_inv_move [OF db_okD(3) [OF db] _ live arch idx jr]) (use rp nm2 in \<open>simp add: idx_replaced_def\<close>)
  then have "db_cleared e bc w (n - 64) ?i bc3 w3"
    using recs_move [OF live arch idx jr] room3 bc_stepD(1) [OF st3]
    by (simp add: db_cleared_def db_ok_def db_open_def nm3)
  with get live add cl show ?thesis
    by (simp add: bc_clear_def get_result_def)
qed

section \<open>Purging the end of the chain\<close>

definition wipe :: "'a option list \<Rightarrow> nat \<Rightarrow> nat \<Rightarrow> 'a option list" where
  "wipe xs a b = map (\<lambda>i. if a \<le> i \<and> i < b then None else xs ! i) [0..<length xs]"

definition wiped :: "'a option list \<Rightarrow> nat \<Rightarrow> nat \<Rightarrow> 'a option list" where
  "wiped xs a b = filter (\<lambda>r. r \<noteq> None) (rev (map (\<lambda>i. xs ! i) [a..<b]))"

lemma wipe_Suc: "a \<le> b \<Longrightarrow> b < length xs \<Longrightarrow> wipe (xs[b := None]) a b = wipe xs a (Suc b)"
  by (rule nth_equalityI) (auto simp: wipe_def nth_list_update)

lemma wiped_Suc:
  assumes "a \<le> b" and "b < length xs"
  shows "wiped xs a (Suc b) = (if xs ! b = None then [] else [xs ! b]) @ wiped (xs[b := None]) a b"
proof -
  have eq: "map ((!) (xs[b := None])) [a..<b] = map ((!) xs) [a..<b]"
    by (rule map_cong) auto
  show ?thesis using assms by (simp add: wiped_def eq)
qed

lemma wipe_empty: "wipe xs a a = xs"
  by (rule nth_equalityI) (auto simp: wipe_def)

lemma wipe_tail: "a \<le> length xs \<Longrightarrow> wipe xs a (length xs) = take a xs @ replicate (length xs - a) None"
  by (rule nth_equalityI) (auto simp: wipe_def nth_append)

lemma wiped_tail: "wiped xs a (length xs) = filter (\<lambda>r. r \<noteq> None) (rev (drop a xs))"
proof -
  have "map (\<lambda>i. xs ! i) [a..<length xs] = drop a xs"
    by (rule nth_equalityI) auto
  then show ?thesis by (simp add: wiped_def)
qed

lemma table_reset_keep:
  assumes os: "os_ok e" and db: "db_ok e bc w n"
  obtains bc' w' where "bc_table_reset e bc hash w = Some (0, bc', w')" and "bc_name bc' = bc_name bc"
    and "db_ok e bc' w' n" and "chain e (bc_name bc) w' = chain e (bc_name bc) w"
    and "archive e (bc_name bc) w' = archive e (bc_name bc) w"
proof -
  obtain bc' w' where rs: "bc_table_reset e bc hash w = Some (0, bc', w')"
    and st: "bc_step e {''tab''} {''tab''} bc w bc' w'"
    and cell: "\<forall>j. tab_at e (bc_name bc) w' j =
      (if j = bc_table_hash hash then BC_TABLE_SEARCH_POS else tab_at e (bc_name bc) w j)"
    using bc_table_put_ok [OF os db_okD(2) [OF db], of hash BC_TABLE_SEARCH_POS]
    by (auto simp: returns_def bc_table_reset_def)
  have "tab_inv e (bc_name bc) w'"
    using tab_inv_cell [OF db_okD(5) [OF db] st _ cell] by (simp add: tab.sound_unknown cell_bound_def)
  then have "db_inv e (bc_name bc) w'" using db_inv_step [OF db_okD(3) [OF db] st] by simp
  moreover have "db_room e (bc_name bc) w' n"
    using db_room_step [OF st db_okD(4) [OF db] order_refl] by auto
  ultimately have "db_ok e bc' w' n"
    using bc_stepD(1,2) [OF st] by (simp add: db_ok_def db_open_def)
  with that rs st show ?thesis by (simp add: view_step [OF st] bc_stepD(2) [OF st])
qed

lemma bc_purge_step_ok:
  assumes os: "os_ok e" and db: "db_ok e bc w n" and n: "128 \<le> n"
    and i: "unat i < length (chain e (bc_name bc) w)"
  obtains bc' w' where "bc_purge_step e pos i bc w = Some (bc', w')" and "bc_name bc' = bc_name bc"
    and "db_ok e bc' w' (n - 64)" and "chain e (bc_name bc) w' = (chain e (bc_name bc) w)[unat i := None]"
    and "archive e (bc_name bc) w' = archive e (bc_name bc) w @
       (if chain e (bc_name bc) w ! unat i = None then [] else [chain e (bc_name bc) w ! unat i])"
proof -
  let ?nm = "bc_name bc" and ?xs = "chain e (bc_name bc) w"
  have live: "live e ?nm w (unat i) \<longleftrightarrow> ?xs ! unat i \<noteq> None" using i by (simp add: live_def entry_ref)
  obtain r bc1 w1 where cl: "bc_clear e bc i w = Some (r, bc1, w1)" and nm1: "bc_name bc1 = ?nm"
    and db1: "db_ok e bc1 w1 (n - 64)" and ch1: "chain e ?nm w1 = ?xs[unat i := None]"
    and ar1: "archive e ?nm w1 = archive e ?nm w @ (if ?xs ! unat i = None then [] else [?xs ! unat i])"
  proof (cases "live e ?nm w (unat i)")
    case True
    with that bc_clear_ok [OF os db True n] live show ?thesis by (auto simp: returns_def db_cleared_def)
  next
    case False
    obtain bc1 w1 where r: "bc_clear e bc i w = Some (SHERR_NOENT, bc1, w1)" and k: "db_keep e bc w bc1 w1"
      using bc_clear_noent [OF os db False] by (auto simp: returns_def)
    have "db_ok e bc1 w1 (n - 64)"
      using db_keepD(5) [OF k db] by (auto simp: db_ok_def db_open_def intro: db_room_mono)
    moreover have "?xs[unat i := None] = ?xs" using False live by (metis list_update_id)
    ultimately show ?thesis using that [OF r] db_keepD [OF k] False live by simp
  qed
  obtain bc2 w2 where get: "bc_idx_get e bc1 pos w1 = Some (get_result e (bc_name bc1) w1 (unat pos), bc2, w2)"
    and k2: "db_keep e bc1 w1 bc2 w2"
    by (rule idx_get_keep [OF os db_okD(1) [OF db1]])
  note kd2 = db_keepD [OF k2, unfolded nm1] and db2 = db_keepD(5) [OF k2 db1]
  show ?thesis
  proof (cases "live e ?nm w1 (unat pos)")
    case False
    with cl get have "bc_purge_step e pos i bc w = Some (bc2, w2)"
      by (simp add: bc_purge_step_def get_result_def nm1 sherr_defs)
    with that kd2 db2 ch1 ar1 show ?thesis by simp
  next
    case True
    obtain bc3 w3 where rs: "bc_table_reset e bc2 (i_hash (idx_at e ?nm w1 (unat pos))) w2 = Some (0, bc3, w3)"
      and "bc_name bc3 = bc_name bc2" "db_ok e bc3 w3 (n - 64)" "chain e (bc_name bc2) w3 = chain e (bc_name bc2) w2"
      "archive e (bc_name bc2) w3 = archive e (bc_name bc2) w2"
      by (rule table_reset_keep [OF os db2])
    moreover from True cl get rs have "bc_purge_step e pos i bc w = Some (bc3, w3)"
      by (simp add: bc_purge_step_def get_result_def nm1)
    ultimately show ?thesis using that kd2 ch1 ar1 by simp
  qed
qed

lemma bc_purge_loop_ok:
  assumes os: "os_ok e" and pos: "pos \<noteq> 0" and db: "db_ok e bc w (n + 64 * d)" and n: "64 \<le> n"
    and le: "unat pos + d \<le> length (chain e (bc_name bc) w)"
  shows "\<exists>bc' w'. bc_purge_loop e pos (pos + of_nat d - 1) bc w = Some (bc', w') \<and> bc_name bc' = bc_name bc \<and>
     db_ok e bc' w' n \<and> chain e (bc_name bc) w' = wipe (chain e (bc_name bc) w) (unat pos) (unat pos + d) \<and>
     archive e (bc_name bc) w' = archive e (bc_name bc) w @ wiped (chain e (bc_name bc) w) (unat pos) (unat pos + d)"
  using db le
proof (induction d arbitrary: bc w)
  case 0
  have "\<not> pos \<le> pos - 1" using pos by (simp add: word_le_nat_alt not_le measure_unat)
  then show ?case
    using 0 by (subst bc_purge_loop.simps) (simp add: wipe_empty wiped_def)
next
  case (Suc d)
  let ?nm = "bc_name bc" and ?xs = "chain e (bc_name bc) w" and ?i = "pos + of_nat d"
  have small: "unat pos + d < 67108864" using Suc.prems(2) idx_count_less [of e ?nm w] by simp
  then have u: "unat ?i = unat pos + d" by (subst unat_add_u32) (auto simp: unat_of_nat_u32)
  obtain bc1 w1 where st: "bc_purge_step e pos ?i bc w = Some (bc1, w1)" and nm1: "bc_name bc1 = ?nm"
    and db1: "db_ok e bc1 w1 (n + 64 * Suc d - 64)" and ch1: "chain e ?nm w1 = ?xs[unat ?i := None]"
    and ar1: "archive e ?nm w1 = archive e ?nm w @ (if ?xs ! unat ?i = None then [] else [?xs ! unat ?i])"
    by (rule bc_purge_step_ok [OF os Suc.prems(1), of ?i]) (use n Suc.prems(2) u in auto)
  obtain bc2 w2 where lp: "bc_purge_loop e pos (?i - 1) bc1 w1 = Some (bc2, w2)" and nm2: "bc_name bc2 = ?nm"
    and db2: "db_ok e bc2 w2 n" and ch2: "chain e ?nm w2 = wipe (chain e ?nm w1) (unat pos) (unat pos + d)"
    and ar2: "archive e ?nm w2 = archive e ?nm w1 @ wiped (chain e ?nm w1) (unat pos) (unat pos + d)"
    using Suc.IH [of bc1 w1] db1 Suc.prems(2) ch1 nm1 by (auto simp: algebra_simps)
  have "bc_purge_loop e pos ?i bc w = Some (bc2, w2)"
    using st lp u by (subst bc_purge_loop.simps) (simp add: word_le_nat_alt)
  moreover have "chain e ?nm w2 = wipe ?xs (unat pos) (unat pos + Suc d)"
    using ch2 ch1 u Suc.prems(2) wipe_Suc [of "unat pos" "unat pos + d" ?xs] by simp
  moreover have "archive e ?nm w2 = archive e ?nm w @ wiped ?xs (unat pos) (unat pos + Suc d)"
    using ar2 ar1 ch1 u Suc.prems(2) wiped_Suc [of "unat pos" "unat pos + d" ?xs] by simp
  ultimately show ?case using nm2 db2 by (simp add: algebra_simps)
qed

text \<open>\<open>bc_purge\<close> on a record, up to its loop.\<close>

lemma bc_purge_start:
  assumes os: "os_ok e" and db: "db_ok e bc w n" and live: "live e (bc_name bc) w (unat pos)"
  obtains bc1 w1 where "db_keep e bc w bc1 w1" and "bc_purge e bc pos w =
    Option.bind (bc_purge_loop e pos (of_nat (idx_count e (bc_name bc) w) - 1) bc1 w1) (\<lambda>(bc, w). Some (0, bc, w))"
proof -
  let ?nm = "bc_name bc" and ?x = "idx_at e (bc_name bc) w (unat pos)"
  have lk: "lock_ok e" using os by (simp add: os_ok_def)
  have ext: "extent_ok e ?nm w ?x" using db_inv_live(1) [OF db_okD(3) [OF db] live] .
  obtain bc1 w1 where get: "bc_idx_get e bc pos w = Some (get_result e ?nm w (unat pos), bc1, w1)"
    and k1: "db_keep e bc w bc1 w1"
    by (rule idx_get_keep [OF os db_okD(1) [OF db]])
  obtain bc2 w2 where al: "bc_alloc e bc1 (i_jrnl ?x) w1 = Some (0, bc2, w2)" and k2: "db_keep e bc1 w1 bc2 w2"
    and j: "unat (i_jrnl ?x) < length (data_map bc2)" "m_fd (jmap bc2 (i_jrnl ?x)) \<noteq> 0"
    by (rule alloc_keep [OF os db_keepD(4) [OF k1 db_okD(1) [OF db]]]) (use ext in \<open>auto simp: extent_ok_def\<close>)
  note k12 = db_keep_trans [OF k1 k2]
  have ex: "bc_extent e bc2 ?x w2 = Some (Inr (extent e ?nm w ?x))"
    by (rule extent_keep [OF db_okD(1) [OF db] k12 ext j])
  obtain bc3 w3 where nx: "bc_idx_next e bc2 w2 = Some (of_nat (idx_count e ?nm w), bc3, w3)"
    and k3: "db_keep e bc2 w2 bc3 w3"
    using idx_next_keep [OF os db_keepD(4) [OF k12 db_okD(1) [OF db]]] by (metis db_keepD(1,7) [OF k12])
  show ?thesis
    using that [OF db_keep_trans [OF k12 k3]] get live al ex nx lk
    by (simp add: bc_purge_def bc_purge_body_def get_result_def)
qed

lemma bc_purge_ok:
  assumes os: "os_ok e" and db: "db_ok e bc w (n + 64 * (length (chain e (bc_name bc) w) - unat pos))"
    and n: "64 \<le> n" and pos: "pos \<noteq> 0" and live: "lookup (chain e (bc_name bc) w) (unat pos) \<noteq> None"
  shows "returns 0 (bc_purge e bc pos w) (\<lambda>(bc', w'). bc_name bc' = bc_name bc \<and> db_ok e bc' w' n \<and>
     chain e (bc_name bc) w' = take (unat pos) (chain e (bc_name bc) w) @
       replicate (length (chain e (bc_name bc) w) - unat pos) None \<and>
     archive e (bc_name bc) w' = archive e (bc_name bc) w @
       filter (\<lambda>r. r \<noteq> None) (rev (drop (unat pos) (chain e (bc_name bc) w))))"
proof -
  let ?nm = "bc_name bc" and ?xs = "chain e (bc_name bc) w"
  let ?d = "length ?xs - unat pos"
  have lv: "live e ?nm w (unat pos)" using live by (simp add: lookup_chain split: if_splits)
  obtain bc1 w1 where k: "db_keep e bc w bc1 w1" and pg: "bc_purge e bc pos w =
      Option.bind (bc_purge_loop e pos (of_nat (idx_count e ?nm w) - 1) bc1 w1) (\<lambda>(bc, w). Some (0, bc, w))"
    by (rule bc_purge_start [OF os db lv])
  note kd = db_keepD [OF k]
  have le: "unat pos < length ?xs" using lv by (simp add: live_def)
  then have start: "of_nat (idx_count e ?nm w) - 1 = pos + of_nat ?d - (1 :: u32)"
    by (simp add: of_nat_diff)
  obtain bc4 w4 where lp: "bc_purge_loop e pos (pos + of_nat ?d - 1) bc1 w1 = Some (bc4, w4)"
    and post: "bc_name bc4 = ?nm" "db_ok e bc4 w4 n" "chain e ?nm w4 = wipe ?xs (unat pos) (unat pos + ?d)"
      "archive e ?nm w4 = archive e ?nm w @ wiped ?xs (unat pos) (unat pos + ?d)"
    using bc_purge_loop_ok [OF os pos kd(5) [OF db] n] le by (auto simp: kd)
  have "bc_purge e bc pos w = Some (0, bc4, w4)" using pg lp start by simp
  with post le wipe_tail [of "unat pos" ?xs] wiped_tail [of ?xs "unat pos"] show ?thesis by simp
qed

lemma bc_purge_noent:
  assumes os: "os_ok e" and db: "db_ok e bc w n" and dead: "lookup (chain e (bc_name bc) w) (unat pos) = None"
  shows "returns SHERR_NOENT (bc_purge e bc pos w) (\<lambda>(bc', w'). db_keep e bc w bc' w')"
proof -
  have lv: "\<not> live e (bc_name bc) w (unat pos)" using dead by (simp add: lookup_chain split: if_splits)
  obtain bc1 w1 where "bc_idx_get e bc pos w = Some (get_result e (bc_name bc) w (unat pos), bc1, w1)"
    and "db_keep e bc w bc1 w1"
    by (rule idx_get_keep [OF os db_okD(1) [OF db]])
  with lv os show ?thesis
    by (simp add: bc_purge_def bc_purge_body_def get_result_def sherr_defs os_ok_def)
qed

text \<open>Every word is at least zero: the loop that goes down to position zero does not end.\<close>

lemma purge_loop_diverges: "bc_purge_loop e 0 i bc w = None"
proof -
  have "pos \<noteq> 0" if r: "bc_purge_loop e pos i bc w = Some y" for e pos i bc w y
    by (rule bc_purge_loop.raw_induct [where P = "\<lambda>e pos i bc w y. pos \<noteq> 0", OF _ r])
      (force simp: bind_eq_Some_conv split: if_splits)
  then show ?thesis by (metis not_None_eq)
qed

lemma bc_purge_zero:
  assumes "os_ok e" and "db_ok e bc w n" and "lookup (chain e (bc_name bc) w) 0 \<noteq> None"
  shows "bc_purge e bc 0 w = None"
proof -
  have "live e (bc_name bc) w (unat (0 :: u32))" using assms(3) by (simp add: lookup_chain split: if_splits)
  then show ?thesis
    by (rule bc_purge_start [OF assms(1,2)]) (simp add: purge_loop_diverges)
qed

section \<open>Rewriting a record\<close>

definition jrnl_stored :: "env \<Rightarrow> string \<Rightarrow> world \<Rightarrow> u32 \<Rightarrow> nat \<Rightarrow> u8 list \<Rightarrow> world \<Rightarrow> bool" where
  "jrnl_stored e nm w j off data w' \<longleftrightarrow>
     fraw w' (jrnl_path e nm j) = mem_store (fraw w (jrnl_path e nm j)) off data \<and>
     (\<forall>k. k \<noteq> j \<longrightarrow> fraw w' (jrnl_path e nm k) = fraw w (jrnl_path e nm k)) \<and>
     (\<forall>k. fof w' (jrnl_path e nm k) = fof w (jrnl_path e nm k))"

lemma extent_stored:
  assumes jr: "jrnl_stored e nm w (i_jrnl x) (unat (i_of x)) data w'" and len: "length data = unat (i_size x)"
  shows "extent e nm w' (x\<lparr>i_crc := c\<rparr>) = data" and "apart x y \<Longrightarrow> extent e nm w' y = extent e nm w y"
proof -
  show "extent e nm w' (x\<lparr>i_crc := c\<rparr>) = data"
    using jr len by (simp add: extent_def jrnl_stored_def mem_simps)
  show "extent e nm w' y = extent e nm w y" if "apart x y"
    using jr len that by (cases "i_jrnl y = i_jrnl x") (auto simp: extent_def jrnl_stored_def apart_def mem_simps)
qed

lemma db_overwrite:
  assumes inv: "db_inv e nm w" and tab: "tab_inv e nm w'" and live: "live e nm w i"
    and x: "x = idx_at e nm w i" and len: "length data = unat (i_size x)"
    and idx: "\<forall>k. idx_at e nm w' k = (if k = i then x\<lparr>i_crc := e_crc32 e data\<rparr> else idx_at e nm w k)"
      "idx_count e nm w' = idx_count e nm w"
    and arch: "rec_same e nm ''arch'' w w'"
    and jr: "jrnl_stored e nm w (i_jrnl x) (unat (i_of x)) data w'"
  shows "db_inv e nm w'" and "chain e nm w' = (chain e nm w)[i := Some (i_hash x, data)]"
    and "archive e nm w' = archive e nm w"
proof -
  let ?x = "x\<lparr>i_crc := e_crc32 e data\<rparr>"
  note es = extent_stored [OF jr len]
  have i: "(''idx'', i) \<in> refs e nm w" using live by (simp add: live_refs)
  have refs: "refs e nm w' = refs e nm w"
  proof -
    have "i_size (idx_at e nm w' k) = i_size (idx_at e nm w k)" for k
      using idx(1) x by (cases "k = i") auto
    then show ?thesis using idx(2) arch by (auto simp: refs_def rec_same_def)
  qed
  have rec: "rec_of e nm w' r = (if r = (''idx'', i) then ?x else rec_of e nm w r)" if "r \<in> refs e nm w" for r
    using that idx arch by (auto simp: refs_def rec_of_def rec_same_def split: if_splits)
  have xr: "rec_of e nm w (''idx'', i) = x" by (simp add: rec_of_def x)
  have ap: "apart x (rec_of e nm w r)" if "r \<in> refs e nm w" "r \<noteq> (''idx'', i)" for r
    using inv i that xr unfolding db_inv_def by metis
  have old: "extent_ok e nm w (rec_of e nm w r)" if "r \<in> refs e nm w" for r
    using inv that by (simp add: db_inv_def)
  have fo: "fof w' (jrnl_path e nm k) = fof w (jrnl_path e nm k)" for k
    using jr by (simp add: jrnl_stored_def)
  have "extent_ok e nm w' (rec_of e nm w' r)" if "r \<in> refs e nm w'" for r
  proof (cases "r = (''idx'', i)")
    case True
    have "e_crc32 e (extent e nm w' ?x) = i_crc ?x" by (simp add: es(1))
    moreover have "extent_ok e nm w x" using old [OF i] xr by simp
    ultimately show ?thesis using rec [OF i] True by (simp add: extent_ok_def fo)
  next
    case False
    with that refs have r: "r \<in> refs e nm w" by simp
    show ?thesis using old [OF r] es(2) [OF ap [OF r False]] rec [OF r] False by (simp add: extent_ok_def fo)
  qed
  moreover have "apart (rec_of e nm w' r) (rec_of e nm w' s)"
    if "r \<in> refs e nm w'" "s \<in> refs e nm w'" "r \<noteq> s" for r s
  proof -
    have "apart (rec_of e nm w r) (rec_of e nm w s)" using inv that refs by (simp add: db_inv_def)
    then show ?thesis using that refs rec xr by (auto simp: apart_def split: if_splits)
  qed
  moreover have "i_jrnl (idx_at e nm w' k) = bc_journal (of_nat k)" if "live e nm w' k" for k
  proof -
    have "live e nm w k" using that refs by (simp add: live_refs)
    then show ?thesis using db_inv_live(2) [OF inv] idx(1) x by auto
  qed
  ultimately show "db_inv e nm w'" using tab by (simp add: db_inv_def)
  have keep: "entry e nm ext w' k = entry e nm ext w k"
    if "rec_at e nm ext w' k = rec_at e nm ext w k" "k < rec_count e nm ext w"
      "ext = ''idx'' \<or> ext = ''arch''" "(ext, k) \<noteq> (''idx'', i)" for ext k
  proof (cases "i_size (rec_at e nm ext w k) = 0")
    case False
    then have "(ext, k) \<in> refs e nm w" using that by (auto simp: refs_def)
    from es(2) [OF ap [OF this that(4)]] that(1) show ?thesis by (simp add: entry_ref rec_of_def)
  qed (use that in \<open>simp add: entry_ref\<close>)
  have "entry e nm ''idx'' w' i = Some (i_hash x, data)"
    using live x idx es(1) by (simp add: entry_ref live_def)
  then show "chain e nm w' = (chain e nm w)[i := Some (i_hash x, data)]"
    using idx keep live by (intro recs_eqI) (auto simp: nth_list_update live_def)
  show "archive e nm w' = archive e nm w"
    using arch keep by (intro recs_eqI) (auto simp: rec_same_def)
qed


text \<open>What \<open>bc_rewrite\<close> finds: no record, a record of another size, or one that it replaces.\<close>

lemma bc_rewrite_refused:
  assumes os: "os_ok e" and db: "db_ok e bc w n" and pos: "unat pos < 2147483648" and dl: "length data < 2147483648"
    and r: "lookup (chain e (bc_name bc) w) (unat pos) = r"
      "\<And>h d. r = Some (h, d) \<Longrightarrow> length d \<noteq> length data"
  shows "returns (if r = None then SHERR_NOENT else SHERR_EXIST) (bc_rewrite e bc pos hash data w)
     (\<lambda>(bc', w'). db_keep e bc w bc' w')"
proof -
  let ?nm = "bc_name bc" and ?x = "idx_at e (bc_name bc) w (unat pos)"
  have lk: "lock_ok e" using os by (simp add: os_ok_def)
  obtain bc1 w1 where al: "bc_alloc e bc (bc_journal pos) w = Some (0, bc1, w1)" and k1: "db_keep e bc w bc1 w1"
    by (rule alloc_keep [OF os db_okD(1) [OF db] bc_journal_small(2) [OF pos]])
  obtain bc2 w2 where get: "bc_idx_get e bc1 pos w1 = Some (get_result e ?nm w (unat pos), bc2, w2)"
    and k2: "db_keep e bc1 w1 bc2 w2"
    using idx_get_keep [OF os db_keepD(4) [OF k1 db_okD(1) [OF db]], of pos]
    by (metis db_keepD(1,6,8) [OF k1] get_result_def)
  show ?thesis
  proof (cases "live e ?nm w (unat pos)")
    case False
    with r(1) have "r = None" by (simp add: lookup_chain)
    with False al get lk db_keep_trans [OF k1 k2] dl show ?thesis
      by (simp add: bc_rewrite_def bc_rewrite_body_def get_result_def sherr_defs Let_def)
  next
    case True
    then have rs: "r = Some (i_hash ?x, extent e ?nm w ?x)" using r(1) by (simp add: lookup_chain)
    have "i_size ?x \<noteq> of_nat (length data)"
      using r(2) [OF rs] dl unat_of_nat_u32 [of "length data"] by auto
    with True rs al get lk db_keep_trans [OF k1 k2] dl show ?thesis
      by (simp add: bc_rewrite_def bc_rewrite_body_def get_result_def Let_def)
  qed
qed

text \<open>Storing bytes inside the used part of an open journal.\<close>

lemma jrnl_store:
  assumes os: "os_ok e" and ok: "bc_ok e bc w" and j: "unat j < length (data_map bc)" "m_fd (jmap bc j) \<noteq> 0"
    and room: "db_room e (bc_name bc) w n" and len: "length data \<le> n"
    and off: "unat off + length data \<le> unat (fof w (jrnl_path e (bc_name bc) j))"
  obtains m w' where "bc_map_write e (bc_name bc) (jmap bc j) off data w = Some (0, m, w')"
    and "bc_step e {nat_str (unat j)} {nat_str (unat j)} bc w (jmap_set j m bc) w'"
    and "jrnl_stored e (bc_name bc) w j (unat off) data w'" and "db_room e (bc_name bc) w' n"
    and "m_fd m \<noteq> 0"
proof -
  let ?nm = "bc_name bc" and ?x = "nat_str (unat j)"
  have slot: "slot_ok e ?nm ?x (jmap bc j) w" using bc_ok_parts(4) [OF ok j(1)] by (simp add: jmap_def)
  have cap: "capacity w (ext_path e ?nm ?x) (length data)"
    using db_roomD(3) [OF db_room_mono [OF room len], of j] by (simp add: jrnl_path_def)
  have le: "unat off \<le> unat (fof w (ext_path e ?nm ?x))" using off by (simp add: jrnl_path_def)
  obtain m w' where wr: "bc_map_write e ?nm (jmap bc j) off data w = Some (0, m, w')"
    and sw: "slot_written e ?nm ?x (unat off) data w m w'"
    by (rule slot_write [OF os bc_ok_parts(1) [OF ok] slot slot_ok_open_ext [OF slot j(2)] cap le])
  note wd = slot_writtenD [OF sw] and st = slot_written_data [OF ok sw j(1)]
  have "fof w' (ext_path e ?nm ?x) = fof w (ext_path e ?nm ?x)"
    using wd(6) off by (simp add: jrnl_path_def word_unat_eq_iff)
  then have "jrnl_stored e ?nm w j (unat off) data w'"
    using wd(5) touches_other(1,2) [OF wd(4)]
    unfolding jrnl_stored_def jrnl_path_def
    by (metis ext_path_inj nat_str_inj word_unat_eq_iff)
  moreover have "db_room e ?nm w' n"
    using db_room_step [OF st room order_refl] wd(8) [of n] off len db_roomD(3) [OF room, of j]
    by (auto simp: jrnl_path_def)
  ultimately show ?thesis using that wr st wd(3) by simp
qed

definition db_rewritten :: "env \<Rightarrow> bc_t \<Rightarrow> world \<Rightarrow> nat \<Rightarrow> nat \<Rightarrow> u8 list \<Rightarrow> bc_t \<Rightarrow> world \<Rightarrow> bool" where
  "db_rewritten e bc w n i data bc' w' \<longleftrightarrow> bc_name bc' = bc_name bc \<and> db_ok e bc' w' n \<and>
     chain e (bc_name bc) w' = (chain e (bc_name bc) w)[i :=
       map_option (\<lambda>(h, d). (h, data)) (chain e (bc_name bc) w ! i)] \<and>
     archive e (bc_name bc) w' = archive e (bc_name bc) w \<and>
     unat (bc_journal (of_nat i)) < length (data_map bc') \<and> m_fd (jmap bc' (bc_journal (of_nat i))) \<noteq> 0"

text \<open>\<open>bc_rewrite\<close> up to the new checksum in the index.\<close>

lemma rewrite_index:
  assumes os: "os_ok e" and db: "db_ok e bc w n" and n: "64 \<le> n"
    and lv: "live e (bc_name bc) w (unat pos)"
  defines "x \<equiv> idx_at e (bc_name bc) w (unat pos)"
  obtains bc1 w1 bc2 w2 bc3 w3 where "bc_alloc e bc (bc_journal pos) w = Some (0, bc1, w1)"
    and "bc_idx_get e bc1 pos w1 = Some ((0, Some x), bc2, w2)"
    and "bc_idx_reset e bc2 pos (x\<lparr>i_crc := c\<rparr>) w2 = Some (0, bc3, w3)"
    and "bc_step e {''idx''} UNIV bc w bc3 w3" and "tab_inv e (bc_name bc) w3"
    and "\<forall>k. idx_at e (bc_name bc) w3 k = (if k = unat pos then x\<lparr>i_crc := c\<rparr> else idx_at e (bc_name bc) w k)"
    and "idx_count e (bc_name bc) w3 = idx_count e (bc_name bc) w"
    and "db_room e (bc_name bc) w3 n"
    and "unat (bc_journal pos) < length (data_map bc3)" and "m_fd (jmap bc3 (bc_journal pos)) \<noteq> 0"
proof -
  let ?nm = "bc_name bc" and ?j = "bc_journal pos" and ?y = "x\<lparr>i_crc := c\<rparr>"
  have jx: "i_jrnl x = ?j" and ext: "extent_ok e ?nm w x"
    using db_inv_live [OF db_okD(3) [OF db] lv] by (auto simp: x_def)
  obtain bc1 w1 where al: "bc_alloc e bc ?j w = Some (0, bc1, w1)" and k1: "db_keep e bc w bc1 w1"
    and j1: "unat ?j < length (data_map bc1)" "m_fd (jmap bc1 ?j) \<noteq> 0"
    by (rule alloc_keep [OF os db_okD(1) [OF db]]) (use ext jx in \<open>auto simp: extent_ok_def\<close>)
  note kd1 = db_keepD [OF k1] and db1 = db_keepD(5) [OF k1 db]
  have cap1: "capacity w1 (ext_path e (bc_name bc1) ''idx'') n" using db_roomD(1) [OF db_okD(4) [OF db1]] .
  obtain bc2 w2 where get: "bc_idx_get e bc1 pos w1 = Some ((0, Some x), bc2, w2)"
    and st2: "bc_step e {} {''idx''} bc1 w1 bc2 w2"
    and caps: "\<And>k. capacity w1 (ext_path e (bc_name bc1) ''idx'') k \<Longrightarrow> capacity w2 (ext_path e (bc_name bc1) ''idx'') k"
    using bc_idx_get_ok [OF os db_okD(2) [OF db1] cap1, of pos] lv
    by (auto simp: returns_def get_result_def kd1 x_def)
  note k = db_keep_trans [OF k1 db_keepI [OF st2 caps]]
  note kd = db_keepD [OF k] and db2 = db_keepD(5) [OF k db]
  have cap2: "capacity w2 (ext_path e (bc_name bc2) ''idx'') 64"
    using db_roomD(1) [OF db_okD(4) [OF db2]] n by (auto intro: capacity_mono)
  obtain bc3 w3 where rs: "bc_idx_reset e bc2 pos ?y w2 = Some (0, bc3, w3)"
    and rp: "idx_replaced e bc2 w2 (unat pos) ?y bc3 w3"
    using bc_idx_reset_ok [OF os db_okD(2,5) [OF db2] cap2, of pos ?y] lv by (auto simp: returns_def kd x_def)
  have st3: "bc_step e {''idx''} {''idx''} bc2 w2 bc3 w3" using rp by (simp add: idx_replaced_def)
  have "bc_step e {} UNIV bc w bc2 w2" using k by (simp add: db_keep_def)
  then have st: "bc_step e {''idx''} UNIV bc w bc3 w3" using bc_step_trans st3 by auto
  have "db_room e ?nm w3 n"
    using db_room_step [OF st3 db_okD(4) [OF db2] order_refl] rp n db_roomD(1) [OF db_okD(4) [OF db2]]
    by (auto simp: idx_replaced_def kd(1))
  moreover have "unat ?j < length (data_map bc3)" "jmap bc3 ?j = jmap bc1 ?j"
    using bc_stepD(6) [OF st2] bc_stepD(6) [OF st3] bc_stepD(10) [OF st2 j1(1)] j1(1)
      bc_stepD(10) [OF st3, of "unat ?j"] by (auto simp: jmap_def)
  moreover have "tab_inv e ?nm w3" "idx_count e ?nm w3 = idx_count e ?nm w"
    "\<forall>k. idx_at e ?nm w3 k = (if k = unat pos then ?y else idx_at e ?nm w k)"
    using rp by (simp_all add: idx_replaced_def kd)
  ultimately show ?thesis using that al get rs st j1(2) by simp
qed

lemma bc_rewrite_ok:
  assumes os: "os_ok e" and db: "db_ok e bc w n" and n: "64 + length data \<le> n"
    and r: "lookup (chain e (bc_name bc) w) (unat pos) = Some (h, d)" and len: "length d = length data"
  shows "returns 0 (bc_rewrite_body e bc pos hash data w)
    (\<lambda>(bc', w'). db_rewritten e bc w n (unat pos) data bc' w')"
proof -
  let ?nm = "bc_name bc" and ?i = "unat pos" and ?j = "bc_journal pos"
  define x where "x = idx_at e ?nm w ?i"
  let ?y = "x\<lparr>i_crc := e_crc32 e data\<rparr>"
  have lv: "live e ?nm w ?i" and hx: "h = i_hash x" and sz: "length data = unat (i_size x)"
    using r len by (auto simp: lookup_chain x_def split: if_splits)
  have jx: "i_jrnl x = ?j" and ext: "extent_ok e ?nm w x"
    using db_inv_live [OF db_okD(3) [OF db] lv] by (auto simp: x_def)
  have dl: "length data < 2147483648"
    using db_roomD(1) [OF db_okD(4) [OF db]] n by (auto simp: capacity_def)
  obtain bc1 w1 bc2 w2 bc3 w3 where al: "bc_alloc e bc ?j w = Some (0, bc1, w1)"
    and get: "bc_idx_get e bc1 pos w1 = Some ((0, Some x), bc2, w2)"
    and rs: "bc_idx_reset e bc2 pos ?y w2 = Some (0, bc3, w3)"
    and st3: "bc_step e {''idx''} UNIV bc w bc3 w3" and tab3: "tab_inv e ?nm w3"
    and ix3: "\<forall>k. idx_at e ?nm w3 k = (if k = ?i then ?y else idx_at e ?nm w k)"
      "idx_count e ?nm w3 = idx_count e ?nm w"
    and room3: "db_room e ?nm w3 n" and j3: "unat ?j < length (data_map bc3)" "m_fd (jmap bc3 ?j) \<noteq> 0"
    unfolding x_def by (rule rewrite_index [OF os db _ lv, of "e_crc32 e data"]) (use n in auto)
  note nm3 = bc_stepD(2) [OF st3]
  have jf: "fof w3 (jrnl_path e ?nm k) = fof w (jrnl_path e ?nm k)" "fraw w3 (jrnl_path e ?nm k) = fraw w (jrnl_path e ?nm k)" for k
    using bc_stepD(3,4) [OF st3] by (simp_all add: jrnl_path_def)
  obtain m w4 where wr: "bc_map_write e (bc_name bc3) (jmap bc3 ?j) (i_of x) data w3 = Some (0, m, w4)"
    and st4: "bc_step e {nat_str (unat ?j)} {nat_str (unat ?j)} bc3 w3 (jmap_set ?j m bc3) w4"
    and jw: "jrnl_stored e ?nm w3 ?j (unat (i_of x)) data w4" and room4: "db_room e ?nm w4 n"
    and fd4: "m_fd m \<noteq> 0"
    using jrnl_store [OF os bc_stepD(1) [OF st3] j3, of n data "i_of x"] room3 n ext jx sz
    unfolding extent_ok_def jf nm3 by auto
  note nm4 = bc_stepD(2) [OF st4, unfolded nm3] and rs4 = rec_step [OF st4, unfolded nm3]
  have jr: "jrnl_stored e ?nm w (i_jrnl x) (unat (i_of x)) data w4"
    using jw by (simp add: jrnl_stored_def jf jx)
  have arch: "rec_same e ?nm ''arch'' w w4"
    using rec_step [OF st3, of "''arch''"] rs4 [of "''arch''"] by (simp add: rec_same_def)
  have ix: "\<forall>k. idx_at e ?nm w4 k = (if k = ?i then ?y else idx_at e ?nm w k)"
    "idx_count e ?nm w4 = idx_count e ?nm w"
    using ix3 rs4 [of "''idx''"] by simp_all
  have tab: "tab_inv e ?nm w4" using tab_inv_step [OF _ st4] tab3 by (simp add: nm3)
  note ow = db_overwrite [OF db_okD(3) [OF db] tab lv x_def sz ix arch jr]
  have "chain e ?nm w ! ?i = Some (h, d)" using r by (simp add: lookup_def split: if_splits)
  then have "db_rewritten e bc w n ?i data (jmap_set ?j m bc3) w4"
    using ow room4 hx bc_stepD(1) [OF st4] j3 fd4
    by (simp add: db_rewritten_def db_ok_def db_open_def nm4) (simp add: jmap_set_def jmap_def)
  moreover have "bc_rewrite_body e bc pos hash data w = Some (0, jmap_set ?j m bc3, w4)"
    using al get rs wr sz dl by (simp add: bc_rewrite_body_def Let_def)
  ultimately show ?thesis by simp
qed

text \<open>Bytes at the end of a journal that no record refers to change nothing.\<close>

lemma jrnl_added_view:
  assumes inv: "db_inv e (bc_name bc) w" and st: "bc_step e {nat_str j'} Q bc w bc' w'"
    and jr: "jrnl_added e (bc_name bc) w j data w'"
  shows "db_inv e (bc_name bc) w'" and "chain e (bc_name bc) w' = chain e (bc_name bc) w"
    and "archive e (bc_name bc) w' = archive e (bc_name bc) w"
proof -
  let ?nm = "bc_name bc"
  have rs: "rec_at e ?nm ext w' i = rec_at e ?nm ext w i" "rec_count e ?nm ext w' = rec_count e ?nm ext w"
    if "ext = ''idx'' \<or> ext = ''arch''" for ext i
    using rec_step [OF st, of ext] that by auto
  have refs: "refs e ?nm w' = refs e ?nm w" by (auto simp: refs_def rs)
  have rec: "rec_of e ?nm w' r = rec_of e ?nm w r" if "r \<in> refs e ?nm w" for r
    using that by (auto simp: refs_def rec_of_def rs)
  have old: "extent_ok e ?nm w (rec_of e ?nm w r)" if "r \<in> refs e ?nm w" for r
    using inv that by (simp add: db_inv_def)
  have "tab_inv e ?nm w'" using inv tab_inv_step [OF _ st] by (simp add: db_inv_def)
  moreover have "\<forall>r\<in>refs e ?nm w'. extent_ok e ?nm w' (rec_of e ?nm w' r)"
    using refs rec old extent_added(2) [OF jr] by metis
  moreover have "\<forall>r\<in>refs e ?nm w'. \<forall>s\<in>refs e ?nm w'. r \<noteq> s \<longrightarrow> apart (rec_of e ?nm w' r) (rec_of e ?nm w' s)"
    using inv refs rec unfolding db_inv_def by metis
  moreover have "\<forall>i. live e ?nm w' i \<longrightarrow> i_jrnl (idx_at e ?nm w' i) = bc_journal (of_nat i)"
    using inv by (simp add: db_inv_def rs live_def)
  ultimately show "db_inv e ?nm w'" unfolding db_inv_def by blast
  have "entry e ?nm ext w' i = entry e ?nm ext w i"
    if "ext = ''idx'' \<or> ext = ''arch''" "i < rec_count e ?nm ext w" for ext i
  proof (cases "i_size (rec_at e ?nm ext w i) = 0")
    case False
    then have "(ext, i) \<in> refs e ?nm w" using that by (auto simp: refs_def)
    from extent_added(1) [OF jr old [OF this]] that show ?thesis by (simp add: entry_ref rs rec_of_def)
  qed (use that in \<open>simp add: entry_ref rs\<close>)
  then show "chain e ?nm w' = chain e ?nm w" "archive e ?nm w' = archive e ?nm w"
    by (auto intro!: recs_eqI simp: rs)
qed

lemma map_option_hash: "r = Some (h, d) \<Longrightarrow> map_option (\<lambda>(h, d). (h, data)) r = Some (h, data)"
  by simp

text \<open>
  \<open>bc_write\<close> at a position in use: \<open>bc_idx_set\<close> refuses, the record is rewritten under its old hash,
  and the data is appended to the journal a second time, where no record refers to it.
\<close>

lemma bc_write_exist:
  assumes os: "os_ok e" and db: "db_ok e bc w n" and n: "64 + length data \<le> n"
    and r: "lookup (chain e (bc_name bc) w) (unat pos) = Some (h, d)" and len: "length d = length data"
  shows "returns 0 (bc_write e bc pos hash data w) (\<lambda>(bc', w').
     bc_name bc' = bc_name bc \<and> db_ok e bc' w' (n - length data) \<and>
     chain e (bc_name bc) w' = (chain e (bc_name bc) w)[unat pos := Some (h, data)] \<and>
     archive e (bc_name bc) w' = archive e (bc_name bc) w)"
proof -
  let ?nm = "bc_name bc" and ?j = "bc_journal pos" and ?i = "unat pos"
  have lv: "live e ?nm w ?i" using r by (auto simp: lookup_chain split: if_splits)
  have jx: "?j + 1 \<noteq> 0" using db_inv_live [OF db_okD(3) [OF db] lv] by (auto simp: extent_ok_def)
  have dl: "length data < 2147483648"
    using db_roomD(1) [OF db_okD(4) [OF db]] n by (auto simp: capacity_def)
  obtain bc1 w1 where al: "bc_alloc e bc ?j w = Some (0, bc1, w1)" and k1: "db_keep e bc w bc1 w1"
    and j1: "unat ?j < length (data_map bc1)" "m_fd (jmap bc1 ?j) \<noteq> 0"
    by (rule alloc_keep [OF os db_okD(1) [OF db] jx])
  note kd1 = db_keepD [OF k1] and db1 = db_keepD(5) [OF k1 db]
  obtain off where hd: "hdr_of w1 (jmap bc1 ?j) = Some off"
    using hdr_of_jmap [OF db_okD(2) [OF db1] j1] by blast
  have cap1: "capacity w1 (ext_path e (bc_name bc1) ''idx'') n" using db_roomD(1) [OF db_okD(4) [OF db1]] .
  obtain bc2 w2 where ss: "bc_idx_set e bc1 pos (new_idx e ?j off hash data) w1 = Some (SHERR_EXIST, bc2, w2)"
    and k2: "db_keep e bc1 w1 bc2 w2"
  proof -
    obtain bc2 w2 where "bc_idx_set e bc1 pos (new_idx e ?j off hash data) w1 = Some (SHERR_EXIST, bc2, w2)"
      and "bc_step e {} {''idx''} bc1 w1 bc2 w2"
      and "\<forall>k. capacity w1 (ext_path e (bc_name bc1) ''idx'') k \<longrightarrow> capacity w2 (ext_path e (bc_name bc1) ''idx'') k"
      using bc_idx_set_exist [OF os db_okD(2) [OF db1] cap1, of pos "new_idx e ?j off hash data"] lv by (auto simp: returns_def kd1)
    with that db_keepI show ?thesis by blast
  qed
  note k = db_keep_trans [OF k1 k2]
  note kd = db_keepD [OF k] and db2 = db_keepD(5) [OF k db]
  obtain bc3 w3 where rw: "bc_rewrite_body e bc2 pos hash data w2 = Some (0, bc3, w3)"
    and rp: "db_rewritten e bc2 w2 n ?i data bc3 w3"
    using bc_rewrite_ok [OF os db2 n, of pos h d hash] r len by (auto simp: returns_def kd)
  have rd: "bc_name bc3 = ?nm" "db_ok e bc3 w3 n" "archive e ?nm w3 = archive e ?nm w"
    "chain e ?nm w3 = (chain e ?nm w)[?i := Some (h, data)]"
    "unat ?j < length (data_map bc3)" "m_fd (jmap bc3 ?j) \<noteq> 0"
    using rp r by (auto simp: db_rewritten_def kd lookup_def map_option_hash split: if_splits)
  obtain m w4 where ap: "bc_map_append e (bc_name bc3) (jmap bc3 ?j) data w3 = Some (0, m, w4)"
    and st4: "bc_step e {nat_str (unat ?j)} {nat_str (unat ?j)} bc3 w3 (jmap_set ?j m bc3) w4"
    and ja: "jrnl_added e (bc_name bc3) w3 ?j data w4" and room4: "db_room e (bc_name bc3) w4 (n - length data)"
    by (rule jrnl_append [OF os db_okD(2) [OF rd(2)] rd(5,6) db_okD(4) [OF rd(2)], where data = data]) (use n in auto)
  note jv = jrnl_added_view [OF db_okD(3) [OF rd(2)] st4 ja] and nm4 = bc_stepD(2) [OF st4]
  have "bc_write e bc pos hash data w = Some (0, jmap_set ?j m bc3, w4)"
    using os dl al hd ss rw ap by (simp add: bc_write_def bc_write_body_def os_ok_def Let_def)
  then show ?thesis
    using jv room4 bc_stepD(1) [OF st4] rd by (simp add: db_ok_def db_open_def nm4)
qed

section \<open>The archive\<close>

lemma lookup_archive: "lookup (archive e nm w) i =
   (if (''arch'', i) \<in> refs e nm w then Some (i_hash (arch_at e nm w i), extent e nm w (arch_at e nm w i)) else None)"
  by (simp add: lookup_def refs_def entry_ref)

lemma bc_arch_ok:
  assumes os: "os_ok e" and db: "db_ok e bc w n"
  shows "returns (case lookup (archive e (bc_name bc) w) (unat pos) of
       None \<Rightarrow> (SHERR_NOENT, None) | Some (h, d) \<Rightarrow> (0, Some d)) (bc_arch e bc pos w)
     (\<lambda>(bc', w'). db_keep e bc w bc' w')"
proof -
  let ?nm = "bc_name bc" and ?x = "arch_at e (bc_name bc) w (unat pos)"
  let ?live = "(''arch'', unat pos) \<in> refs e (bc_name bc) w"
  obtain bc1 w1 where get: "bc_arch_get e bc pos w =
      Some (if ?live then (0, Some ?x) else (SHERR_NOENT, None), bc1, w1)" and k1: "db_keep e bc w bc1 w1"
    using bc_arch_get_ok [OF os db_okD(2) [OF db] db_roomD(2) [OF db_okD(4) [OF db]], of pos]
    by (auto simp: returns_def refs_def intro: db_keepI)
  show ?thesis
  proof (cases ?live)
    case False
    with get k1 show ?thesis by (simp add: bc_arch_def lookup_archive sherr_defs)
  next
    case True
    have ext: "extent_ok e ?nm w ?x"
      using True db_okD(3) [OF db] by (auto simp: db_inv_def rec_of_def)
    obtain bc2 w2 where al: "bc_alloc e bc1 (i_jrnl ?x) w1 = Some (0, bc2, w2)" and k2: "db_keep e bc1 w1 bc2 w2"
      and j: "unat (i_jrnl ?x) < length (data_map bc2)" "m_fd (jmap bc2 (i_jrnl ?x)) \<noteq> 0"
      by (rule alloc_keep [OF os db_keepD(4) [OF k1 db_okD(1) [OF db]]]) (use ext in \<open>auto simp: extent_ok_def\<close>)
    note k = db_keep_trans [OF k1 k2]
    have "bc_extent e bc2 ?x w2 = Some (Inr (extent e ?nm w ?x))"
      by (rule extent_keep [OF db_okD(1) [OF db] k ext j])
    with True get al k show ?thesis by (simp add: bc_arch_def lookup_archive)
  qed
qed

lemma arch_add_room:
  assumes "arch_added e bc w x bc' w'" and room: "db_room e (bc_name bc) w n" and n: "64 \<le> n"
  shows "db_room e (bc_name bc) w' (n - 64)"
proof -
  have "bc_step e {''arch''} {''arch''} bc w bc' w'" using assms(1) by (simp add: arch_added_def)
  from db_room_step [OF this room, of "n - 64"] show ?thesis
    using assms(1) db_roomD(2) [OF room] n by (auto simp: arch_added_def)
qed

lemma bc_arch_write_ok:
  assumes os: "os_ok e" and db: "db_ok e bc w n" and len: "length hash = 8" and n: "64 + length data \<le> n"
  shows "returns 0 (bc_arch_write e bc hash data w) (\<lambda>(bc', w').
     bc_name bc' = bc_name bc \<and> db_ok e bc' w' (n - length data - 64) \<and>
     chain e (bc_name bc) w' = chain e (bc_name bc) w \<and>
     archive e (bc_name bc) w' = archive e (bc_name bc) w @ [block hash data])"
proof -
  let ?nm = "bc_name bc"
  define c where "c = idx_count e ?nm w"
  define j where "j = bc_journal (of_nat c)"
  define x where "x = new_idx e j (fof w (jrnl_path e ?nm j)) hash data"
  have "unat (of_nat c :: u32) = c" using idx_count_less [of e ?nm w] by (intro unat_of_nat_u32) (simp add: c_def)
  then have j1: "j + 1 \<noteq> 0"
    using idx_count_less [of e ?nm w] bc_journal_small(2) [of "of_nat c"] by (simp add: j_def c_def)
  have dl: "length data < 2147483648"
    using db_roomD(1) [OF db_okD(4) [OF db]] n by (auto simp: capacity_def)
  obtain bc1 w1 where nx: "bc_idx_next e bc w = Some (of_nat c, bc1, w1)" and k1: "db_keep e bc w bc1 w1"
    unfolding c_def by (rule idx_next_keep [OF os db_okD(1) [OF db]])
  obtain bc2 w2 where al: "bc_alloc e bc1 j w1 = Some (0, bc2, w2)" and k2: "db_keep e bc1 w1 bc2 w2"
    and jm: "unat j < length (data_map bc2)" "m_fd (jmap bc2 j) \<noteq> 0"
    by (rule alloc_keep [OF os db_keepD(4) [OF k1 db_okD(1) [OF db]] j1])
  note k = db_keep_trans [OF k1 k2]
  note kd = db_keepD [OF k] and db2 = db_keepD(5) [OF k db]
  have st2: "bc_step e {} UNIV bc w bc2 w2" using k by (simp add: db_keep_def)
  have hd: "hdr_of w2 (jmap bc2 j) = Some (fof w (jrnl_path e ?nm j))"
    using hdr_of_jmap [OF db_okD(2) [OF db2] jm] bc_stepD(3) [OF st2] by (simp add: kd(1) jrnl_path_def)
  obtain m w3 where ap: "bc_map_append e (bc_name bc2) (jmap bc2 j) data w2 = Some (0, m, w3)"
    and st3: "bc_step e {nat_str (unat j)} {nat_str (unat j)} bc2 w2 (jmap_set j m bc2) w3"
    and ja: "jrnl_added e (bc_name bc2) w2 j data w3" and room3: "db_room e (bc_name bc2) w3 (n - length data)"
    by (rule jrnl_append [OF os db_okD(2) [OF db2] jm db_okD(4) [OF db2], where data = data]) (use n in auto)
  let ?bc3 = "jmap_set j m bc2"
  note nm3 = bc_stepD(2) [OF st3, unfolded kd(1)]
  have xl: "length (i_hash x) = 8" using len by (simp add: x_def new_idx_def)
  have cap3: "capacity w3 (ext_path e (bc_name ?bc3) ''arch'') 64"
    using db_roomD(2) [OF room3] n by (auto simp: nm3 kd(1) intro: capacity_mono)
  obtain bc4 w4 where aa: "bc_arch_add e ?bc3 x w3 = Some (0, bc4, w4)" and ad: "arch_added e ?bc3 w3 x bc4 w4"
    using bc_arch_add_ok [OF os bc_stepD(1) [OF st3] cap3 xl] by (auto simp: returns_def)
  have st4: "bc_step e {''arch''} {''arch''} ?bc3 w3 bc4 w4" using ad by (simp add: arch_added_def)
  note nm4 = bc_stepD(2) [OF st4, unfolded nm3]
  have room4: "db_room e ?nm w4 (n - length data - 64)"
    using arch_add_room [OF ad, of "n - length data"] room3 n by (simp add: nm3 kd(1))
  have jr: "jrnl_added e ?nm w j data w4"
    using ja bc_stepD(3,4) [OF st2] bc_stepD(3,4) [OF st4]
    by (simp add: jrnl_added_def jrnl_path_def kd(1) nm3)
  have pt: "rec_put e ?nm ''arch'' (arch_count e ?nm w) x w w4"
    using ad rec_step [OF st2, of "''arch''"] rec_step [OF st3, of "''arch''"]
    by (simp add: rec_put_def arch_added_def nm3 kd(1))
  have same: "rec_same e ?nm (other_ext ''arch'') w w4"
    using rec_step [OF st2, of "''idx''"] rec_step [OF st3, of "''idx''"] rec_step [OF st4, of "''idx''"]
    by (simp add: rec_same_def other_ext_def nm3 kd(1))
  have tab: "tab_inv e ?nm w4"
    using tab_inv_step [OF db_okD(5) [OF db2] st3] tab_inv_step [OF _ st4] by (simp add: nm3 kd(1))
  have hole: "(''arch'', arch_count e ?nm w) \<notin> refs e ?nm w" by (simp add: refs_def)
  note args = disjI2 [OF refl] hole pt [unfolded x_def] same jr j1 dl
  have "db_inv e ?nm w4" by (rule db_inv_new [OF db_okD(3) [OF db] tab args]) simp
  then have "db_ok e bc4 w4 (n - length data - 64)"
    using bc_stepD(1) [OF st4] room4 by (simp add: db_ok_def db_open_def nm4)
  moreover have "archive e ?nm w4 = archive e ?nm w @ [block hash data]" "chain e ?nm w4 = chain e ?nm w"
    using recs_new [OF db_okD(3) [OF db] args] put_end [of "archive e ?nm w"] by (simp_all add: other_ext_def)
  moreover have "bc_arch_write e bc hash data w = Some (0, bc4, w4)"
    using os dl nx al hd ap aa
    by (simp add: bc_arch_write_def bc_arch_write_body_def os_ok_def Let_def j_def [symmetric] x_def)
  ultimately show ?thesis by (simp add: nm4)
qed

end
