(* ===== verification/Bc_Life.thy ===== *)
theory Bc_Life
  imports Bc_Block
begin

text \<open>
  The life of a block database: a new one is empty, any number of records can be appended within
  the room there is, closing gives the descriptors back, idle journals are closed one at a time,
  and clearing the table repairs it.
\<close>

section \<open>A new database\<close>

text \<open>No file of the database exists.\<close>

definition no_files :: "env \<Rightarrow> string \<Rightarrow> world \<Rightarrow> bool" where
  "no_files e nm w \<longleftrightarrow> (\<forall>ext. w_file w (ext_path e nm ext) = None)"

lemma no_files_empty:
  assumes "no_files e nm w"
  shows "fof w (ext_path e nm ext) = 0" "fraw w (ext_path e nm ext) = (\<lambda>_. 0)" "fsize w (ext_path e nm ext) = 0"
  using assms by (simp_all add: no_files_def fof_def fraw_def fsize_def file_at_def empty_file_def)

lemma no_files_tab_inv:
  assumes "no_files e nm w"
  shows "tab_inv e nm w"
proof -
  have "mem_load (\<lambda>_. 0) a 8 = replicate 8 0" for a by (rule nth_equalityI) auto
  then have "tab_at e nm w k = BC_TABLE_SEARCH_POS" for k
    by (simp add: tab_at_def no_files_empty [OF assms] le_dec_zeros BC_TABLE_SEARCH_POS_def)
  then show ?thesis by (simp add: tab_inv_def tab.sound_unknown cell_bound_def)
qed

lemma new_db_ok:
  assumes wok: "world_ok e w" and none: "no_files e (bc_name (new_bc e name)) w" and n: "n \<le> 1000000000"
  shows "db_ok e (new_bc e name) w n" and "chain e (bc_name (new_bc e name)) w = []"
    and "archive e (bc_name (new_bc e name)) w = []"
proof -
  let ?nm = "bc_name (new_bc e name)"
  note ne = no_files_empty [OF none]
  have cnt: "rec_count e ?nm ext w = 0" for ext by (simp add: rec_count_def ne)
  then show "chain e ?nm w = []" "archive e ?nm w = []" by (simp_all add: recs_def)
  have "m_fd zero_map = 0" by (simp add: zero_map_def)
  then have "bc_ok e (new_bc e name) w"
    using wok ne by (simp add: bc_ok_def slot_ok_zero new_bc_def capacity_def TAB_BYTES_def)
  moreover have "db_inv e ?nm w"
    using no_files_tab_inv [OF none] cnt by (simp add: db_inv_def refs_def live_def)
  ultimately show "db_ok e (new_bc e name) w n"
    using n by (simp add: db_ok_def db_open_def db_room_def capacity_def ne)
qed

lemma bc_open_ok:
  assumes os: "os_ok e" and db: "db_ok e (new_bc e name) w n"
  obtains bc w' where "bc_open e name w = Some (0, Some bc, w')" and "db_keep e (new_bc e name) w bc w'"
    and "m_fd (idx_map bc) \<noteq> 0"
proof -
  obtain bc w' where "bc_idx_open e (new_bc e name) w = Some (0, bc, w')"
    and "db_keep e (new_bc e name) w bc w'" "m_fd (idx_map bc) \<noteq> 0"
    by (rule idx_opened [OF os db_okD(2) [OF db] db_roomD(1) [OF db_okD(4) [OF db]]])
      (blast intro: db_keepI)
  with that show ?thesis by (simp add: bc_open_def)
qed

section \<open>Sequences of appends\<close>

definition append_req :: "env \<Rightarrow> bc_hash_t \<times> u8 list \<Rightarrow> bc_t \<times> world \<Rightarrow> (bc_t \<times> world) option" where
  "append_req e r s = map_option snd (bc_append e (fst s) (fst r) (snd r) (snd s))"

definition arch_req :: "env \<Rightarrow> bc_hash_t \<times> u8 list \<Rightarrow> bc_t \<times> world \<Rightarrow> (bc_t \<times> world) option" where
  "arch_req e r s = map_option snd (bc_arch_write e (fst s) (fst r) (snd r) (snd s))"

definition db_state :: "env \<Rightarrow> string \<Rightarrow> nat \<Rightarrow> bc_t \<times> world \<Rightarrow> bool" where
  "db_state e nm n s \<longleftrightarrow> os_ok e \<and> db_ok e (fst s) (snd s) n \<and> bc_name (fst s) = nm"

definition req_cost :: "bc_hash_t \<times> u8 list \<Rightarrow> nat" where
  "req_cost r = 64 + length (snd r)"

definition req_valid :: "bc_hash_t \<times> u8 list \<Rightarrow> bool" where
  "req_valid r \<longleftrightarrow> length (fst r) = 8"

definition req_block :: "bc_hash_t \<times> u8 list \<Rightarrow> (bc_hash_t \<times> u8 list) option" where
  "req_block r = block (fst r) (snd r)"

interpretation blk: append_log "db_state e nm" "\<lambda>s. chain e nm (snd s)" req_block req_cost req_valid "append_req e"
  for e nm
proof
  fix n s r
  assume s: "db_state e nm n s" and r: "req_valid r" "req_cost r \<le> n"
  then show "\<exists>s'. append_req e r s = Some s' \<and> db_state e nm (n - req_cost r) s' \<and>
      chain e nm (snd s') = chain e nm (snd s) @ [req_block r]"
    using bc_append_ok [of e "fst s" "snd s" n "fst r" "snd r"]
    by (auto simp: db_state_def returns_def append_req_def req_cost_def req_valid_def req_block_def)
qed

interpretation arc: append_log "db_state e nm" "\<lambda>s. archive e nm (snd s)" req_block req_cost req_valid "arch_req e"
  for e nm
proof
  fix n s r
  assume s: "db_state e nm n s" and r: "req_valid r" "req_cost r \<le> n"
  then show "\<exists>s'. arch_req e r s = Some s' \<and> db_state e nm (n - req_cost r) s' \<and>
      archive e nm (snd s') = archive e nm (snd s) @ [req_block r]"
    using bc_arch_write_ok [of e "fst s" "snd s" n "fst r" "snd r"]
    by (auto simp: db_state_def returns_def arch_req_def req_cost_def req_valid_def req_block_def diff_diff_eq
        add.commute)
qed

section \<open>Closing\<close>

text \<open>
  The descriptors a close gives back: those of the maps that are open, below the limit of the
  descriptor table (\<open>descriptor_release\<close> ignores the others, which stay open).
\<close>

definition released :: "bc_map list \<Rightarrow> int \<Rightarrow> bool" where
  "released ms fd \<longleftrightarrow> (\<exists>m\<in>set ms. m_fd m = fd \<and> m_fd m \<noteq> 0 \<and> m_fd m < MAX_UNET_SOCKETS)"

definition closes :: "bc_map list \<Rightarrow> world \<Rightarrow> world \<Rightarrow> bool" where
  "closes ms w w' \<longleftrightarrow> w_file w' = w_file w \<and>
     (\<forall>fd. fd_get w' fd = (if released ms fd then None else fd_get w fd))"

lemma closes_trans: "closes ms w w1 \<Longrightarrow> closes ns w1 w2 \<Longrightarrow> closes (ms @ ns) w w2"
  by (auto simp: closes_def released_def)

lemma descriptor_release_ok:
  assumes "os_ok e" and "0 \<le> fd"
  shows "\<exists>w'. descriptor_release e fd w = Some w' \<and> w_file w' = w_file w \<and>
     (\<forall>f. fd_get w' f = (if f = fd \<and> fd < MAX_UNET_SOCKETS then None else fd_get w f))"
  using assms
  by (auto simp: descriptor_release_def Let_def os_fstat_def os_okD fd_get_close
      MAX_UNET_SOCKETS_def split: option.splits)

lemma bc_map_close_ok:
  assumes os: "os_ok e" and fd: "0 \<le> m_fd m"
  shows "\<exists>m' w'. bc_map_close e m w = Some (m', w') \<and> m_fd m' = 0 \<and> m_hdr m' = None \<and> closes [m] w w'"
proof (cases "m_fd m = 0")
  case True
  with os show ?thesis by (simp add: bc_map_close_def bc_map_free_def closes_def released_def os_okD)
next
  case False
  obtain w' where "descriptor_release e (m_fd m) w = Some w'" "w_file w' = w_file w"
     "\<forall>f. fd_get w' f = (if f = m_fd m \<and> m_fd m < MAX_UNET_SOCKETS then None else fd_get w f)"
    using descriptor_release_ok [OF os fd] by metis
  with False os show ?thesis
    by (auto simp: bc_map_close_def bc_map_free_def closes_def released_def os_okD)
qed

lemma close_maps_ok:
  assumes "os_ok e" and "\<forall>m\<in>set ms. 0 \<le> m_fd m"
  shows "\<exists>w'. close_maps e ms w = Some w' \<and> closes ms w w'"
  using assms(2)
proof (induction ms arbitrary: w)
  case Nil
  then show ?case by (simp add: closes_def released_def)
next
  case (Cons m ms)
  obtain m' w1 where m: "bc_map_close e m w = Some (m', w1)" "closes [m] w w1"
    using bc_map_close_ok [OF assms(1), of m w] Cons.prems by auto
  obtain w2 where "close_maps e ms w1 = Some w2" "closes ms w1 w2"
    using Cons by auto
  with m closes_trans [OF m(2), of ms w2] show ?case by auto
qed

lemma slot_ok_fd: "slot_ok e nm ext m w \<Longrightarrow> 0 \<le> m_fd m"
  by (cases "m_fd m = 0") (auto simp: slot_ok_def map_ok_def)

lemma bc_ok_fds:
  assumes "bc_ok e bc w"
  shows "\<forall>m\<in>set (idx_map bc # tab_map bc # data_map bc). 0 \<le> m_fd m"
proof -
  have "0 \<le> m_fd m" if "m \<in> set (data_map bc)" for m
    using that bc_ok_parts(4) [OF assms] slot_ok_fd by (metis in_set_conv_nth)
  then show ?thesis using assms by (auto simp: bc_ok_def dest: slot_ok_fd)
qed

lemma bc_close_ok:
  assumes os: "os_ok e" and ok: "bc_ok e bc w"
  shows "\<exists>w'. bc_close e bc w = Some w' \<and> closes (idx_map bc # tab_map bc # data_map bc) w w'"
proof -
  note fds = bc_ok_fds [OF ok]
  have none: "closes [m] u u" if "m_fd m = 0" for m u using that by (simp add: closes_def released_def)
  obtain bc1 w1 where c1: "bc_idx_close e bc w = Some (bc1, w1)" "closes [idx_map bc] w w1"
    "tab_map bc1 = tab_map bc" "data_map bc1 = data_map bc"
    using bc_map_close_ok [OF os, of "idx_map bc" w] fds none [of "idx_map bc"]
    by (cases "m_fd (idx_map bc) = 0") (auto simp: bc_idx_close_def)
  obtain bc2 w2 where c2: "bc_table_close e bc1 w1 = Some (bc2, w2)" "closes [tab_map bc] w1 w2"
    "data_map bc2 = data_map bc"
    using bc_map_close_ok [OF os, of "tab_map bc" w1] fds c1(3,4) none [of "tab_map bc"]
    by (cases "m_fd (tab_map bc) = 0") (auto simp: bc_table_close_def)
  obtain w3 where "close_maps e (data_map bc) w2 = Some w3" "closes (data_map bc) w2 w3"
    using close_maps_ok [OF os, of "data_map bc" w2] fds by auto
  with c1 c2 closes_trans [OF closes_trans [OF c1(2) c2(2)]] show ?thesis
    by (simp add: bc_close_def)
qed

section \<open>Idle journals\<close>

definition idle :: "env \<Rightarrow> bc_map \<Rightarrow> bool" where
  "idle e m \<longleftrightarrow> m_fd m \<noteq> 0 \<and> m_stamp m + BCMAP_IDLE_TIME \<le> e_time e"

text \<open>The \<open>i\<close>-th map, the first that is idle, was closed, and no other.\<close>

definition idled :: "env \<Rightarrow> bc_map list \<Rightarrow> world \<Rightarrow> nat \<Rightarrow> bc_map list \<Rightarrow> world \<Rightarrow> bool" where
  "idled e ms w i ms' w' \<longleftrightarrow> i < length ms \<and> idle e (ms ! i) \<and> (\<forall>j < i. \<not> idle e (ms ! j)) \<and>
     (\<exists>m'. ms' = ms[i := m'] \<and> m_fd m' = 0) \<and> closes [ms ! i] w w'"

lemma idled_Suc:
  "idled e ms w i ms' w' \<Longrightarrow> \<not> idle e m \<Longrightarrow> idled e (m # ms) w (Suc i) (m # ms') w'"
  by (auto simp: idled_def less_Suc_eq_0_disj)

lemma idle_maps_ok:
  assumes "os_ok e" and "\<forall>m\<in>set ms. 0 \<le> m_fd m"
  shows "\<exists>ms' w'. idle_maps e ms w = Some (ms', w') \<and>
     (if \<exists>m\<in>set ms. idle e m then \<exists>i. idled e ms w i ms' w' else ms' = ms \<and> w' = w)"
  using assms(2)
proof (induction ms arbitrary: w)
  case Nil
  then show ?case by simp
next
  case (Cons m ms)
  show ?case
  proof (cases "idle e m")
    case True
    obtain m' w' where r: "bc_map_close e m w = Some (m', w')" "m_fd m' = 0" "closes [m] w w'"
      using bc_map_close_ok [OF assms(1), of m w] Cons.prems by auto
    then have "idled e (m # ms) w 0 (m' # ms) w'" using True by (simp add: idled_def)
    moreover have "idle_maps e (m # ms) w = Some (m' # ms, w')"
      using True assms(1) r by (simp add: idle_def bc_map_idle_def os_okD)
    ultimately show ?thesis using True by auto
  next
    case False
    obtain ms' w' where rec: "idle_maps e ms w = Some (ms', w')"
      and post: "if \<exists>m\<in>set ms. idle e m then \<exists>i. idled e ms w i ms' w' else ms' = ms \<and> w' = w"
      using Cons.IH [of w] Cons.prems by auto
    have "idle_maps e (m # ms) w = Some (m # ms', w')"
      using False rec by (auto simp: idle_def bc_map_idle_def)
    moreover have "if \<exists>m\<in>set (m # ms). idle e m then \<exists>i. idled e (m # ms) w i (m # ms') w'
        else m # ms' = m # ms \<and> w' = w"
      using post False by (cases "\<exists>m\<in>set ms. idle e m") (auto dest: idled_Suc [OF _ False])
    ultimately show ?thesis by blast
  qed
qed


section \<open>Clearing the table\<close>

text \<open>
  \<open>bc_table_clear\<close> makes the table sound again, whatever it held: every cell is unknown.
\<close>

lemma bc_table_clear_ok:
  assumes os: "os_ok e" and ok: "bc_ok e bc w"
  shows "returns 0 (bc_table_clear e bc w) (\<lambda>(bc', w'). bc_step e {''tab''} {''tab''} bc w bc' w' \<and>
     (\<forall>k < BC_TABLE_SIZE. tab_at e (bc_name bc) w' k = BC_TABLE_SEARCH_POS) \<and> tab_inv e (bc_name bc) w')"
proof -
  let ?p = "ext_path e (bc_name bc) ''tab''"
  obtain bc1 w1 where op: "bc_table_open e bc w = Some (0, bc1, w1)"
    and st: "bc_step e {} {''tab''} bc w bc1 w1" and fd: "m_fd (tab_map bc1) \<noteq> 0"
    using bc_table_open_ok [OF os ok] by (auto simp: returns_def)
  note ok1 = bc_stepD(1) [OF st] and nm = bc_stepD(2) [OF st]
  note tm = tab_mapped [OF ok1 fd, unfolded nm]
  let ?n = "m_size (tab_map bc1) - 16"
  let ?f = "file_at w1 ?p"
  define g where "g = ?f\<lparr>f_raw := (\<lambda>i. if i < ?n then 0 else f_raw ?f i)\<rparr>"
  let ?w = "file_upd ?p g w1"
  have sz: "m_size (tab_map bc1) = f_size ?f" "16 + TAB_BYTES \<le> f_size ?f" "w_file w1 ?p \<noteq> None"
    using ok1 fd slot_ok_mapped [of e "bc_name bc1" "''tab''" "tab_map bc1" w1]
    by (auto simp: bc_ok_def nm fsize_def)
  have fok: "file_ok e ?f" using sz(3) ok1 by (auto simp: file_at_def bc_ok_def dest: world_okD)
  then have gok: "file_ok e g" by (auto simp: file_ok_def g_def)
  have gs: "f_size g = f_size ?f" "f_of g = f_of ?f" by (simp_all add: g_def)
  have slot: "slot_ok e (bc_name bc1) ''tab'' (tab_map bc1) ?w"
    using slot_ok_same_size [of e "bc_name bc1" "''tab''" "tab_map bc1" w1 g] ok1 fd gs
    by (simp add: bc_ok_def nm fsize_def)
  have "bc_ok e (bc1\<lparr>tab_map := tab_map bc1\<rparr>) ?w"
    by (rule bc_ok_tab [OF ok1 slot])
      (use ok1 gok gs sz in \<open>auto simp: bc_ok_def world_ok_upd nm capacity_def fof_def fsize_def\<close>)
  then have st1: "bc_step e {''tab''} {''tab''} bc1 w1 bc1 ?w"
    by (intro bc_stepI [where x = "''tab''"]) (auto simp: nm)
  have step: "bc_step e {''tab''} {''tab''} bc w bc1 ?w" by (rule bc_step_trans [OF st st1]) auto
  have cells: "tab_at e (bc_name bc) ?w k = BC_TABLE_SEARCH_POS" if "k < BC_TABLE_SIZE" for k
  proof -
    have "mem_load (f_raw g) (8 * k) 8 = replicate 8 0"
      using that sz by (intro nth_equalityI) (auto simp: g_def TAB_BYTES_def BC_TABLE_SIZE_def)
    then show ?thesis by (simp add: tab_at_def fraw_def le_dec_zeros BC_TABLE_SEARCH_POS_def)
  qed
  then have "tab_inv e (bc_name bc) ?w" by (simp add: tab_inv_def tab.sound_unknown cell_bound_def)
  moreover have "map_load w1 (tab_map bc1) 0 ?n \<noteq> None"
    using tm sz by (auto simp: map_load_def map_inside_def)
  then have "bc_table_clear e bc w = Some (0, bc1, ?w)"
    using op tm by (auto simp: bc_table_clear_def g_def)
  ultimately show ?thesis using step cells by simp
qed

end
