(* ===== verification/Bc_Ops.thy ===== *)
theory Bc_Ops
  imports Bc_Life
begin

text \<open>
  The block database as an abstract data type: its calls as requests, a specification of every
  request on two lists (the chain and the archive), and the proof that any sequence of calls
  answers as the specification does. Also what outlives a handle: closing the database and opening
  it again.
\<close>

section \<open>Requests\<close>

datatype bc_req =
    Append bc_hash_t "u8 list"
  | Get u32
  | GetHash u32
  | Find bc_hash_t
  | Clear u32
  | Purge u32
  | Arch u32
  | ArchWrite bc_hash_t "u8 list"

datatype bc_ans = Code int | Bytes int "u8 list option" | Hash int "bc_hash_t option" | Pos int "nat option"

fun bc_exec :: "env \<Rightarrow> bc_req \<Rightarrow> bc_t \<times> world \<Rightarrow> (bc_ans \<times> bc_t \<times> world) option" where
  "bc_exec e (Append hash data) (bc, w) = map_option (\<lambda>(r, s). (Code r, s)) (bc_append e bc hash data w)"
| "bc_exec e (Get pos) (bc, w) = map_option (\<lambda>((r, d), s). (Bytes r d, s)) (bc_get e bc pos w)"
| "bc_exec e (GetHash pos) (bc, w) = map_option (\<lambda>((r, h), s). (Hash r h, s)) (bc_get_hash e bc pos w)"
| "bc_exec e (Find hash) (bc, w) = map_option (\<lambda>((r, i), s). (Pos r i, s)) (bc_find e bc hash w)"
| "bc_exec e (Clear pos) (bc, w) = map_option (\<lambda>(r, s). (Code r, s)) (bc_clear e bc pos w)"
| "bc_exec e (Purge pos) (bc, w) = map_option (\<lambda>(r, s). (Code r, s)) (bc_purge e bc pos w)"
| "bc_exec e (Arch pos) (bc, w) = map_option (\<lambda>((r, d), s). (Bytes r d, s)) (bc_arch e bc pos w)"
| "bc_exec e (ArchWrite hash data) (bc, w) = map_option (\<lambda>(r, s). (Code r, s)) (bc_arch_write e bc hash data w)"

section \<open>The specification\<close>

type_synonym records = "(bc_hash_t \<times> u8 list) option list"

definition bytes_at :: "records \<Rightarrow> nat \<Rightarrow> bc_ans" where
  "bytes_at xs i = (case lookup xs i of None \<Rightarrow> Bytes SHERR_NOENT None | Some (h, d) \<Rightarrow> Bytes 0 (Some d))"

fun bc_spec :: "bc_req \<Rightarrow> records \<times> records \<Rightarrow> bc_ans \<times> records \<times> records" where
  "bc_spec (Append hash data) (c, a) = (Code (int (length c)), c @ [block hash data], a)"
| "bc_spec (Get pos) (c, a) = (bytes_at c (unat pos), c, a)"
| "bc_spec (GetHash pos) (c, a) =
     (case lookup c (unat pos) of None \<Rightarrow> Hash SHERR_NOENT None | Some (h, d) \<Rightarrow> Hash 0 (Some h), c, a)"
| "bc_spec (Find hash) (c, a) =
     (case chain_find c hash of None \<Rightarrow> Pos SHERR_NOENT None | Some i \<Rightarrow> Pos 0 (Some i), c, a)"
| "bc_spec (Clear pos) (c, a) =
     (if lookup c (unat pos) = None then (Code SHERR_NOENT, c, a)
      else (Code 0, c[unat pos := None], a @ [c ! unat pos]))"
| "bc_spec (Purge pos) (c, a) =
     (if lookup c (unat pos) = None then (Code SHERR_NOENT, c, a)
      else (Code 0, take (unat pos) c @ replicate (length c - unat pos) None,
            a @ filter (\<lambda>r. r \<noteq> None) (rev (drop (unat pos) c))))"
| "bc_spec (Arch pos) (c, a) = (bytes_at a (unat pos), c, a)"
| "bc_spec (ArchWrite hash data) (c, a) = (Code 0, c, a @ [block hash data])"

text \<open>The bytes of the files a request may use up.\<close>

fun bc_cost :: "bc_req \<Rightarrow> records \<times> records \<Rightarrow> nat" where
  "bc_cost (Append hash data) s = 64 + length data"
| "bc_cost (ArchWrite hash data) s = 64 + length data"
| "bc_cost (Clear pos) s = 128"
| "bc_cost (Purge pos) s = 64 + 64 * (length (fst s) - unat pos)"
| "bc_cost _ s = 0"

fun bc_valid :: "bc_req \<Rightarrow> bool" where
  "bc_valid (Append hash data) = (length hash = 8)"
| "bc_valid (ArchWrite hash data) = (length hash = 8)"
| "bc_valid (Find hash) = (length hash = 8)"
| "bc_valid (Purge pos) = (pos \<noteq> 0)"
| "bc_valid _ = True"

definition bc_view :: "env \<Rightarrow> string \<Rightarrow> bc_t \<times> world \<Rightarrow> records \<times> records" where
  "bc_view e nm s = (chain e nm (snd s), archive e nm (snd s))"

section \<open>The refinement\<close>

lemma db_ok_mono: "db_ok e bc w n \<Longrightarrow> m \<le> n \<Longrightarrow> db_ok e bc w m"
  by (auto simp: db_ok_def db_open_def intro: db_room_mono)

lemma db_ok_less: "db_ok e bc w n \<Longrightarrow> db_ok e bc w (n - k)"
  by (erule db_ok_mono) simp

lemma live_lookup: "live e nm w i \<longleftrightarrow> lookup (chain e nm w) i \<noteq> None"
  by (simp add: lookup_chain)

lemma lookup_update: "j \<noteq> i \<Longrightarrow> lookup (xs[i := v]) j = lookup xs j"
  by (simp add: lookup_def)

lemma rec_count_less: "rec_count e nm ext w < 4294967296"
  using unat_u32_bound [of "fof w (ext_path e nm ext)"] by (simp add: rec_count_def)

text \<open>Requests that read.\<close>

lemma read_ok:
  assumes "returns v r (\<lambda>(bc', w'). db_keep e bc w bc' w')" and "os_ok e" and "db_ok e bc w n" and "bc_name bc = nm"
  shows "\<exists>s'. r = Some (v, s') \<and> db_state e nm n s' \<and> bc_view e nm s' = bc_view e nm (bc, w)"
proof -
  obtain bc' w' where r: "r = Some (v, bc', w')" and k: "db_keep e bc w bc' w'"
    using assms(1) by (auto simp: returns_def)
  show ?thesis
    using r assms(2,4) db_keepD(1-3) [OF k] db_keepD(5) [OF k assms(3)]
    by (auto simp: db_state_def bc_view_def)
qed

text \<open>Requests that change the database.\<close>

lemma change_ok:
  assumes "returns v r (\<lambda>(bc', w'). bc_name bc' = nm \<and> db_ok e bc' w' n \<and> chain e nm w' = c \<and> archive e nm w' = a)"
    and "os_ok e" and "m \<le> n"
  shows "\<exists>s'. r = Some (v, s') \<and> db_state e nm m s' \<and> bc_view e nm s' = (c, a)"
  using assms by (auto simp: returns_def db_state_def bc_view_def intro: db_ok_mono)

definition refines :: "env \<Rightarrow> string \<Rightarrow> nat \<Rightarrow> bc_req \<Rightarrow> bc_t \<times> world \<Rightarrow> bool" where
  "refines e nm m r s \<longleftrightarrow> (\<exists>s'. bc_exec e r s = Some (fst (bc_spec r (bc_view e nm s)), s') \<and>
     db_state e nm m s' \<and> bc_view e nm s' = snd (bc_spec r (bc_view e nm s)))"

lemma refines_reads:
  assumes os: "os_ok e" and db: "db_ok e bc w n" and nm: "bc_name bc = nm"
  shows "refines e nm n (Get pos) (bc, w)" "refines e nm n (GetHash pos) (bc, w)" "refines e nm n (Arch pos) (bc, w)"
proof -
  show "refines e nm n (Get pos) (bc, w)"
    using read_ok [OF bc_get_ok [OF os db, of pos] os db nm]
    by (auto simp: refines_def bc_view_def bytes_at_def nm split: option.splits)
  show "refines e nm n (GetHash pos) (bc, w)"
    using read_ok [OF bc_get_hash_ok [OF os db, of pos] os db nm]
    by (auto simp: refines_def bc_view_def nm split: option.splits)
  show "refines e nm n (Arch pos) (bc, w)"
    using read_ok [OF bc_arch_ok [OF os db, of pos] os db nm]
    by (auto simp: refines_def bc_view_def bytes_at_def nm split: option.splits)
qed

lemma refines_find:
  assumes os: "os_ok e" and db: "db_ok e bc w n" and nm: "bc_name bc = nm" and len: "length hash = 8"
  shows "refines e nm n (Find hash) (bc, w)"
  using change_ok [OF bc_find_ok [OF os db len, unfolded nm] os order_refl]
  by (auto simp: refines_def bc_view_def nm split: option.splits)

lemma refines_adds:
  assumes os: "os_ok e" and db: "db_ok e bc w n" and nm: "bc_name bc = nm" and len: "length hash = 8"
    and n: "64 + length data \<le> n"
  shows "refines e nm (n - (64 + length data)) (Append hash data) (bc, w)"
    and "refines e nm (n - (64 + length data)) (ArchWrite hash data) (bc, w)"
proof -
  show "refines e nm (n - (64 + length data)) (Append hash data) (bc, w)"
    using change_ok [OF bc_append_ok [OF os db len n, unfolded nm] os, of "n - (64 + length data)"]
    by (auto simp: refines_def bc_view_def)
  show "refines e nm (n - (64 + length data)) (ArchWrite hash data) (bc, w)"
    using change_ok [OF bc_arch_write_ok [OF os db len n, unfolded nm] os, of "n - (64 + length data)"]
    by (auto simp: refines_def bc_view_def)
qed

lemma refines_clear:
  assumes os: "os_ok e" and db: "db_ok e bc w n" and nm: "bc_name bc = nm" and n: "128 \<le> n"
  shows "refines e nm (n - 128) (Clear pos) (bc, w)"
proof (cases "lookup (chain e nm w) (unat pos) = None")
  case True
  have "\<not> live e (bc_name bc) w (unat pos)" using True nm by (simp add: live_lookup)
  from read_ok [OF bc_clear_noent [OF os db this] os db nm] True show ?thesis
    by (auto simp: refines_def bc_view_def db_state_def intro: db_ok_less)
next
  case False
  then have "live e (bc_name bc) w (unat pos)" using nm by (simp add: live_lookup)
  from change_ok [OF bc_clear_ok [OF os db this n, unfolded db_cleared_def nm] os, of "n - 128"] False
  show ?thesis by (auto simp: refines_def bc_view_def)
qed

lemma refines_purge:
  assumes os: "os_ok e" and db: "db_ok e bc w n" and nm: "bc_name bc = nm" and pos: "pos \<noteq> 0"
    and n: "64 + 64 * (length (chain e nm w) - unat pos) \<le> n"
  shows "refines e nm (n - (64 + 64 * (length (chain e nm w) - unat pos))) (Purge pos) (bc, w)"
proof (cases "lookup (chain e nm w) (unat pos) = None")
  case True
  from read_ok [OF bc_purge_noent [OF os db True [folded nm]] os db nm] True show ?thesis
    by (auto simp: refines_def bc_view_def db_state_def intro: db_ok_less)
next
  case False
  let ?k = "64 * (length (chain e nm w) - unat pos)"
  have db': "db_ok e bc w (n - ?k + 64 * (length (chain e (bc_name bc) w) - unat pos))"
    using db n nm by simp
  have n': "64 \<le> n - ?k" using n by linarith
  from change_ok [OF bc_purge_ok [OF os db' n' pos False [folded nm], unfolded nm] os, of "n - (64 + ?k)"] False
  show ?thesis by (auto simp: refines_def bc_view_def)
qed

interpretation db: refined_machine "db_state e nm" "bc_view e nm" "bc_exec e" bc_spec bc_cost bc_valid
  for e nm
proof
  fix n s r
  assume st: "db_state e nm n s" and v: "bc_valid r" and c: "bc_cost r (bc_view e nm s) \<le> n"
  obtain bc w where s: "s = (bc, w)" by fastforce
  have pre: "os_ok e" "db_ok e bc w n" "bc_name bc = nm" using st by (simp_all add: s db_state_def)
  have "refines e nm (n - bc_cost r (bc_view e nm s)) r s"
    using v c refines_reads [OF pre] refines_find [OF pre] refines_adds [OF pre] refines_clear [OF pre]
      refines_purge [OF pre]
    by (cases r) (simp_all add: s bc_view_def)
  then show "\<exists>s'. bc_exec e r s = Some (fst (bc_spec r (bc_view e nm s)), s') \<and>
      db_state e nm (n - bc_cost r (bc_view e nm s)) s' \<and> bc_view e nm s' = snd (bc_spec r (bc_view e nm s))"
    by (simp add: refines_def)
qed

section \<open>Closing and opening again\<close>

lemma closes_files:
  assumes "closes ms w w'"
  shows "fof w' = fof w" "fraw w' = fraw w" "fsize w' = fsize w"
  using assms by (simp_all add: closes_def fof_def fraw_def fsize_def file_at_def fun_eq_iff)

lemma closes_view:
  assumes "closes ms w w'"
  shows "rec_at e nm ext w' = rec_at e nm ext w" "rec_count e nm ext w' = rec_count e nm ext w"
    "extent e nm w' = extent e nm w" "tab_at e nm w' = tab_at e nm w" "bucket e nm w' = bucket e nm w"
    "recs e nm ext w' = recs e nm ext w"
  unfolding rec_at_def rec_count_def extent_def tab_at_def recs_def entry_def bucket_def live_def
    closes_files [OF assms] by simp_all

lemma closes_world: "closes ms w w' \<Longrightarrow> world_ok e w \<Longrightarrow> world_ok e w'"
  by (auto simp: closes_def world_ok_def released_def)

lemma closes_db_inv:
  assumes "closes ms w w'" and "db_inv e nm w"
  shows "db_inv e nm w'"
  using assms(2) closes_view [OF assms(1)] closes_files [OF assms(1)]
  by (simp add: db_inv_def tab_inv_def refs_def rec_of_def extent_ok_def live_def)

text \<open>A fresh handle on the files a handle leaves behind.\<close>

lemma reopen_db_ok:
  assumes db: "db_ok e bc w n" and cl: "closes ms w w'" and nm: "bc_name (new_bc e name) = bc_name bc"
  shows "db_ok e (new_bc e name) w' n"
proof -
  have cap: "capacity w' p k = capacity w p k" for p k
    by (simp add: capacity_def closes_files [OF cl])
  have "world_ok e w" "capacity w (ext_path e (bc_name bc) ''tab'') TAB_BYTES"
    using db_okD(2) [OF db] by (simp_all add: bc_ok_def)
  then have "bc_ok e (new_bc e name) w'"
    using closes_world [OF cl] nm
    by (simp add: bc_ok_def slot_ok_zero new_bc_def cap zero_map_def)
      (use slot_ok_zero in \<open>simp add: zero_map_def\<close>)
  moreover have "db_room e (bc_name bc) w' n" using db_okD(4) [OF db] by (simp add: db_room_def cap)
  ultimately show ?thesis
    using closes_db_inv [OF cl db_okD(3) [OF db]] nm by (simp add: db_ok_def db_open_def)
qed

lemma close_open_ok:
  assumes os: "os_ok e" and db: "db_ok e bc w n" and nm: "bc_name (new_bc e name) = bc_name bc"
  shows "\<exists>w1 bc' w'. bc_close e bc w = Some w1 \<and> bc_open e name w1 = Some (0, Some bc', w') \<and>
    db_ok e bc' w' n \<and> bc_name bc' = bc_name bc \<and>
    chain e (bc_name bc) w' = chain e (bc_name bc) w \<and> archive e (bc_name bc) w' = archive e (bc_name bc) w"
proof -
  obtain w1 where w1: "bc_close e bc w = Some w1" "closes (idx_map bc # tab_map bc # data_map bc) w w1"
    using bc_close_ok [OF os db_okD(2) [OF db]] by blast
  have db1: "db_ok e (new_bc e name) w1 n" by (rule reopen_db_ok [OF db w1(2) nm])
  from bc_open_ok [OF os db1] obtain bc' w' where
    op: "bc_open e name w1 = Some (0, Some bc', w')" "db_keep e (new_bc e name) w1 bc' w'" .
  from db_keepD [OF op(2), unfolded nm] db1 closes_view [OF w1(2)] w1(1) op(1) show ?thesis
    by (auto simp: db_keepD(5) [OF op(2) db1])
qed

text \<open>The archive's descriptor is none of those that closing gives back.\<close>

lemma slot_ok_get:
  assumes "slot_ok e nm ext m w" and "m_fd m \<noteq> 0"
  shows "fd_get w (m_fd m) = Some (FReg (ext_path e nm ext))"
  using assms by (auto simp: slot_ok_def map_ok_def bc_map_path_ext)

lemma arch_not_released:
  assumes ok: "bc_ok e bc w" and fd: "m_fd (arch_map bc) \<noteq> 0"
  shows "\<not> released (idx_map bc # tab_map bc # data_map bc) (m_fd (arch_map bc))"
    and "fd_get w (m_fd (arch_map bc)) \<noteq> None"
proof -
  let ?nm = "bc_name bc"
  have arch: "fd_get w (m_fd (arch_map bc)) = Some (FReg (ext_path e ?nm ''arch''))"
    using ok fd by (intro slot_ok_get) (simp_all add: bc_ok_def)
  then show "fd_get w (m_fd (arch_map bc)) \<noteq> None" by simp
  have other: "m_fd m \<noteq> m_fd (arch_map bc)" if "slot_ok e ?nm ext m w" "ext \<noteq> ''arch''" for m ext
    using slot_ok_get [OF that(1)] arch that(2) fd by force
  have "m_fd (idx_map bc) \<noteq> m_fd (arch_map bc)" "m_fd (tab_map bc) \<noteq> m_fd (arch_map bc)"
    using ok other [of "''idx''" "idx_map bc"] other [of "''tab''" "tab_map bc"] by (simp_all add: bc_ok_def)
  moreover have "m_fd m \<noteq> m_fd (arch_map bc)" if "m \<in> set (data_map bc)" for m
  proof -
    obtain j where "j < length (data_map bc)" "m = data_map bc ! j" using \<open>m \<in> set (data_map bc)\<close> by (metis in_set_conv_nth)
    with ok show ?thesis by (intro other [of "nat_str j"]) (simp_all add: bc_ok_def)
  qed
  ultimately show "\<not> released (idx_map bc # tab_map bc # data_map bc) (m_fd (arch_map bc))"
    by (auto simp: released_def)
qed

section \<open>Rebuilding the hash table\<close>

lemma table_clear_find:
  assumes os: "os_ok e" and db: "db_ok e bc w n" and len: "length hash = 8"
  shows "\<exists>bc1 w1. bc_table_clear e bc w = Some (0, bc1, w1) \<and>
    returns (case chain_find (chain e (bc_name bc) w) hash of
       None \<Rightarrow> (SHERR_NOENT, None) | Some i \<Rightarrow> (0, Some i)) (bc_find e bc1 hash w1)
     (\<lambda>(bc', w'). db_ok e bc' w' n \<and> chain e (bc_name bc) w' = chain e (bc_name bc) w)"
proof -
  obtain bc1 w1 where t: "bc_table_clear e bc w = Some (0, bc1, w1)"
      "bc_step e {''tab''} {''tab''} bc w bc1 w1" "tab_inv e (bc_name bc) w1"
    using bc_table_clear_ok [OF os db_okD(2) [OF db]] by (auto simp: returns_def)
  have "db_inv e (bc_name bc) w1" using db_inv_step [OF db_okD(3) [OF db] t(2)] t(3) by simp
  moreover have "db_room e (bc_name bc) w1 n"
    using db_room_step [OF t(2) db_okD(4) [OF db] order_refl] by auto
  ultimately have "db_ok e bc1 w1 n"
    using bc_stepD(1,2) [OF t(2)] by (simp add: db_ok_def db_open_def)
  from bc_find_ok [OF os this len] t(1) show ?thesis
    by (auto simp: returns_def view_step [OF t(2)] bc_stepD(2) [OF t(2)])
qed

end
