(* ===== verification/Bc_Example.thy ===== *)
theory Bc_Example
  imports Bc_Ops
begin

text \<open>
  A concrete environment, process state and database, at which the properties of the block database
  and of the components that keep their data in one are instantiated.
\<close>

section \<open>A concrete process\<close>

text \<open>
  The environment and the process state at which the properties are instantiated: every system
  call succeeds, no file exists yet, descriptor 0 is the standard input.
\<close>

definition env0 :: env where
  "env0 = \<lparr>lock_ok = True, e_open = (\<lambda>_. 0), e_fstat = (\<lambda>_. 0), e_isreg = (\<lambda>_. True),
     e_trunc = (\<lambda>_ _. 0), e_mmap = (\<lambda>_ _. True), e_time = 1000, e_shtime = 7, e_undef = 0,
     e_magic = 12345, e_crc32 = (\<lambda>bs. of_nat (le_dec bs)), e_base = ''/share'', e_namemax = 256,
     e_shaddr = (\<lambda>_. None)\<rparr>"

definition world0 :: world where
  "world0 = \<lparr>w_file = Map.empty, w_fd = [Some FOther], w_desc = None, w_tclaim = 0, w_tmark = 0,
     w_trelease = 0\<rparr>"

definition hash1 :: bc_hash_t where "hash1 = [1, 2, 3, 4, 5, 6, 7, 8]"

definition bc0 :: bc_t where "bc0 = new_bc env0 ''shc_block''"

lemma os_ok0: "os_ok env0"
  by (simp add: os_ok_def env0_def)

lemma world_ok0: "world_ok env0 world0"
  by (simp add: world_ok_def world0_def fd_get_def)

lemma no_files0: "no_files env0 nm world0"
  by (simp add: no_files_def world0_def)

lemma db_ok0: "n \<le> 1000000000 \<Longrightarrow> db_ok env0 bc0 world0 n"
  unfolding bc0_def by (rule new_db_ok [OF world_ok0 no_files0])

lemma chain0: "chain env0 (bc_name bc0) world0 = []" "archive env0 (bc_name bc0) world0 = []"
  unfolding bc0_def by (rule new_db_ok [OF world_ok0 no_files0, where n = 0], simp)+

lemma length_hash1 [simp]: "length hash1 = 8"
  by (simp add: hash1_def)

text \<open>A state with one record of two bytes, reached by an append.\<close>

lemma one_record:
  obtains bc w where "db_ok env0 bc w 999999934" and "bc_name bc = bc_name bc0"
    and "chain env0 (bc_name bc0) w = [Some (hash1, [5, 6])]" and "archive env0 (bc_name bc0) w = []"
  using bc_append_ok [OF os_ok0 db_ok0 [OF order_refl] length_hash1, of "[5, 6]"] that
  by (auto simp: returns_def chain0 block_def)

lemma two_records:
  obtains bc w where "db_ok env0 bc w 999999868" and "bc_name bc = bc_name bc0"
    and "chain env0 (bc_name bc0) w = [Some (hash1, [5, 6]), Some (rev hash1, [7, 8])]"
    and "archive env0 (bc_name bc0) w = []"
proof (rule one_record)
  fix bc w
  assume db: "db_ok env0 bc w 999999934" and nm: "bc_name bc = bc_name bc0"
    and ch: "chain env0 (bc_name bc0) w = [Some (hash1, [5, 6])]" and ar: "archive env0 (bc_name bc0) w = []"
  have "length (rev hash1) = 8" by simp
  from bc_append_ok [OF os_ok0 db this, of "[7, 8]"] show ?thesis
    using that by (auto simp: returns_def nm ch ar block_def)
qed

end
