(* ===== verification/Bignum.thy ===== *)
theory Bignum
  imports Prelude
begin

text \<open>
  The numbers of the script interpreter (\<^verbatim>\<open>server/bignum.h\<close>, \<^verbatim>\<open>CastToBigNum\<close> and
  \<^verbatim>\<open>CastToBool\<close> of \<^verbatim>\<open>server/script.cpp\<close>).  A \<open>BIGNUM\<close> is an \<^typ>\<open>int\<close>; the four functions of
  the cryptographic library which convert it are the fields of \<open>bnlib\<close>, and \<open>bn_lib_ok\<close> states
  what its manual promises of them.  The theory shows which integer a byte string of the stack
  stands for, that \<open>getvch\<close> gives the shortest such string, and when the two are inverse.
\<close>

section \<open>The library\<close>

record bnlib =
  BN_mpi2bn :: "u8 list \<Rightarrow> int"
  BN_num_bits :: "int \<Rightarrow> nat"
  BN_bn2bin :: "int \<Rightarrow> u8 list"
  BN_get_word :: "int \<Rightarrow> nat"

definition be_dec :: "u8 list \<Rightarrow> nat" where
  "be_dec bs = le_dec (rev bs)"

definition be_enc :: "nat \<Rightarrow> nat \<Rightarrow> u8 list" where
  "be_enc n x = rev (le_enc n x)"

text \<open>
  The value of the number part of the MPI format: a big-endian magnitude whose most significant
  bit is the sign.
\<close>

fun mpi_val :: "u8 list \<Rightarrow> int" where
  "mpi_val [] = 0"
| "mpi_val (b # bs) =
     (if unat b < 128 then int (be_dec (b # bs)) else - int (be_dec ((b AND 0x7f) # bs)))"

definition bn_lib_ok :: "bnlib \<Rightarrow> bool" where
  "bn_lib_ok lib \<longleftrightarrow>
     (\<forall>hdr body. length hdr = 4 \<longrightarrow> be_dec hdr = length body \<longrightarrow> BN_mpi2bn lib (hdr @ body) = mpi_val body) \<and>
     (\<forall>n. nat \<bar>n\<bar> < 2 ^ BN_num_bits lib n \<and> (0 < BN_num_bits lib n \<longrightarrow> 2 ^ (BN_num_bits lib n - 1) \<le> nat \<bar>n\<bar>)) \<and>
     (\<forall>n. length (BN_bn2bin lib n) = (BN_num_bits lib n + 7) div 8 \<and> be_dec (BN_bn2bin lib n) = nat \<bar>n\<bar>) \<and>
     (\<forall>n. BN_get_word lib n = (if nat \<bar>n\<bar> < 2 ^ 64 then nat \<bar>n\<bar> else 2 ^ 64 - 1))"

section \<open>Conversions of CBigNum\<close>

text \<open>The integer that \<open>setvch\<close> reads from a little-endian byte string.\<close>

definition setvch :: "bnlib \<Rightarrow> u8 list \<Rightarrow> int" where
  "setvch lib vch = BN_mpi2bn lib (be_enc 4 (length vch) @ rev vch)"

text \<open>
  \<^verbatim>\<open>_BN_bn2mpi\<close> with a null buffer gives the size of the encoding, \<open>mpi_size\<close>, and with a buffer
  fills it, \<open>bn2mpi\<close>.
\<close>

definition mpi_ext :: "bnlib \<Rightarrow> int \<Rightarrow> nat" where
  "mpi_ext lib a = (let bits = BN_num_bits lib a in if bits > 0 \<and> bits mod 8 = 0 then 1 else 0)"

definition mpi_size :: "bnlib \<Rightarrow> int \<Rightarrow> nat" where
  "mpi_size lib a = (BN_num_bits lib a + 7) div 8 + 4 + mpi_ext lib a"

definition bn2mpi :: "bnlib \<Rightarrow> int \<Rightarrow> u8 list" where
  "bn2mpi lib a =
     (let num = (BN_num_bits lib a + 7) div 8;
          ext = mpi_ext lib a;
          d = be_enc 4 (num + ext) @ replicate ext 0 @ BN_bn2bin lib a
      in if a < 0 then d[4 := d ! 4 OR 0x80] else d)"

definition getvch :: "bnlib \<Rightarrow> int \<Rightarrow> u8 list" where
  "getvch lib a = (if mpi_size lib a \<le> 4 then [] else rev (drop 4 (bn2mpi lib a)))"

definition getint :: "bnlib \<Rightarrow> int \<Rightarrow> int" where
  "getint lib a =
     (let n = BN_get_word lib a; int_max = 2 ^ 31 - 1
      in if \<not> a < 0 then (if n > nat int_max then int_max else int n)
         else (if n > nat int_max then - (2 ^ 31) else - int n))"

section \<open>Reading the elements of the stack\<close>

definition nMaxNumSize :: nat where "nMaxNumSize = 4"

text \<open>\<open>None\<close> is the exception \<open>CastToBigNum() : overflow\<close>.\<close>

definition CastToBigNum :: "bnlib \<Rightarrow> u8 list \<Rightarrow> int option" where
  "CastToBigNum lib vch =
     (if length vch > nMaxNumSize then None else Some (setvch lib (getvch lib (setvch lib vch))))"

fun CastToBool :: "u8 list \<Rightarrow> bool" where
  "CastToBool [] = False"
| "CastToBool (b # bs) = (if b \<noteq> 0 then \<not> (bs = [] \<and> b = 0x80) else CastToBool bs)"

section \<open>The integer of a byte string\<close>

text \<open>
  Reference: the last byte carries the sign in its top bit, the rest is the magnitude, least
  significant byte first.
\<close>

definition snum :: "u8 list \<Rightarrow> int" where
  "snum vch = mpi_val (rev vch)"

lemma be_dec_Nil [simp]: "be_dec [] = 0"
  by (simp add: be_dec_def)

lemma le_dec_append: "le_dec (as @ bs) = le_dec as + 256 ^ length as * le_dec bs"
  by (induction as) (simp_all add: algebra_simps)

lemma be_dec_Cons: "be_dec (b # bs) = unat b * 256 ^ length bs + be_dec bs"
  by (simp add: be_dec_def le_dec_append)

lemma be_dec_bound: "be_dec bs < 256 ^ length bs"
  unfolding be_dec_def using le_dec_bound [of "rev bs"] by simp

lemma be_dec_enc: "x < 256 ^ n \<Longrightarrow> be_dec (be_enc n x) = x"
  by (simp add: be_dec_def be_enc_def le_dec_enc)

lemma length_be_enc [simp]: "length (be_enc n x) = n"
  by (simp add: be_enc_def)

lemma setvch_snum:
  assumes "bn_lib_ok lib" and "length vch < 2 ^ 32"
  shows "setvch lib vch = snum vch"
proof -
  have "be_dec (be_enc 4 (length vch)) = length (rev vch)" using assms(2) by (simp add: be_dec_enc)
  then show ?thesis
    using assms(1) unfolding bn_lib_ok_def setvch_def snum_def by simp
qed

lemma and_7f_small: "unat (b :: u8) < 128 \<Longrightarrow> b AND 0x7f = b"
proof -
  assume "unat b < 128"
  then have "take_bit 7 b = b"
    by (simp add: word_unat_eq_iff unsigned_take_bit_eq take_bit_nat_eq_self)
  then show ?thesis by (simp add: take_bit_eq_mask mask_eq_exp_minus_1)
qed

lemma or_80_and_7f: "unat (b :: u8) < 128 \<Longrightarrow> (b OR 0x80) AND 0x7f = b"
  using and_7f_small [of b] by (simp add: bit.conj_disj_distrib2)

lemma or_80_large: "\<not> unat ((b :: u8) OR 0x80) < 128"
proof
  assume "unat (b OR 0x80) < 128"
  then have "(b OR 0x80) AND 0x7f = b OR 0x80" by (rule and_7f_small)
  then have "((b OR 0x80) AND 0x7f) AND 0x80 = (b OR 0x80) AND 0x80" by simp
  then show False by (simp add: bit.conj_disj_distrib2 and.assoc)
qed

lemma mpi_val_sign:
  assumes "unat b < 128"
  shows "mpi_val (b # bs) = int (be_dec (b # bs))"
    and "mpi_val ((b OR 0x80) # bs) = - int (be_dec (b # bs))"
  using assms or_80_large [of b] by (simp_all add: or_80_and_7f)

lemma div8_up:
  assumes "k mod 8 \<noteq> (0 :: nat)"
  shows "(k + 7) div 8 = k div 8 + 1"
proof -
  obtain r where r: "k mod 8 = Suc r" "r < 7" using assms by (cases "k mod 8") (auto dest: sym)
  have "k + 7 = r + 8 * (k div 8 + 1)" using mult_div_mod_eq [of 8 k] r(1) by simp
  then show ?thesis using r(2) by simp
qed

text \<open>The magnitude that \<open>bn2mpi\<close> writes, and that its first byte leaves room for the sign.\<close>

lemma mpi_body:
  assumes "bn_lib_ok lib" and "n \<noteq> 0"
  obtains b bs where "replicate (mpi_ext lib n) 0 @ BN_bn2bin lib n = b # bs"
    and "unat b < 128" and "be_dec (b # bs) = nat \<bar>n\<bar>"
    and "length (b # bs) = BN_num_bits lib n div 8 + 1"
proof -
  let ?k = "BN_num_bits lib n"
  have lt: "nat \<bar>n\<bar> < 2 ^ ?k" and len: "length (BN_bn2bin lib n) = (?k + 7) div 8"
    and val: "be_dec (BN_bn2bin lib n) = nat \<bar>n\<bar>"
    using assms(1) unfolding bn_lib_ok_def by auto
  have pos: "0 < ?k" using lt assms(2) by (cases "?k") auto
  show thesis
  proof (cases "?k mod 8 = 0")
    case True
    then have "(?k + 7) div 8 = ?k div 8" by (simp add: div_add1_eq)
    with True pos that [of 0 "BN_bn2bin lib n"] val len show thesis by (simp add: mpi_ext_def be_dec_Cons)
  next
    case False
    then have num: "(?k + 7) div 8 = ?k div 8 + 1" by (rule div8_up)
    with len obtain b bs where bb: "BN_bn2bin lib n = b # bs" and lbs: "length bs = ?k div 8"
      by (cases "BN_bn2bin lib n") auto
    have "unat b * 256 ^ length bs \<le> nat \<bar>n\<bar>" using val bb by (simp add: be_dec_Cons)
    also have "\<dots> < 2 ^ ?k" by (rule lt)
    also have "\<dots> \<le> (2 :: nat) ^ (8 * (?k div 8) + 7)"
    proof (rule power_increasing)
      show "?k \<le> 8 * (?k div 8) + 7" by linarith
    qed simp
    also have "\<dots> = 128 * 256 ^ length bs" using lbs by (simp add: power_add power_mult)
    finally have "unat b < 128" by simp
    with bb lbs val False pos that [of b bs] show thesis by (simp add: mpi_ext_def)
  qed
qed

lemma mpi_size_nonzero:
  assumes "bn_lib_ok lib" and "n \<noteq> 0"
  shows "mpi_size lib n = BN_num_bits lib n div 8 + 5"
proof -
  obtain b bs where "replicate (mpi_ext lib n) 0 @ BN_bn2bin lib n = b # bs"
    and "length (b # bs) = BN_num_bits lib n div 8 + 1"
    using mpi_body [OF assms] .
  then have "length (replicate (mpi_ext lib n) (0 :: u8) @ BN_bn2bin lib n) = BN_num_bits lib n div 8 + 1"
    by simp
  with assms(1) show ?thesis by (simp add: mpi_size_def bn_lib_ok_def)
qed

lemma num_bits_0: "bn_lib_ok lib \<Longrightarrow> BN_num_bits lib 0 = 0"
  by (rule ccontr) (auto simp: bn_lib_ok_def dest!: spec [of _ 0])

lemma getvch_0: "bn_lib_ok lib \<Longrightarrow> getvch lib 0 = []"
  by (simp add: getvch_def mpi_size_def mpi_ext_def num_bits_0)

lemma getvch_nonzero:
  assumes "bn_lib_ok lib" and "n \<noteq> 0"
  obtains b bs where "getvch lib n = rev ((if n < 0 then b OR 0x80 else b) # bs)"
    and "unat b < 128" and "be_dec (b # bs) = nat \<bar>n\<bar>"
    and "length (b # bs) = BN_num_bits lib n div 8 + 1"
proof -
  obtain b bs where bb: "replicate (mpi_ext lib n) 0 @ BN_bn2bin lib n = b # bs" "unat b < 128"
    "be_dec (b # bs) = nat \<bar>n\<bar>" "length (b # bs) = BN_num_bits lib n div 8 + 1"
    using mpi_body [OF assms] .
  have "drop 4 (bn2mpi lib n) = (if n < 0 then b OR 0x80 else b) # bs"
    using bb(1) by (simp add: bn2mpi_def Let_def nth_append list_update_append)
  then show thesis
    using that [of b bs] bb mpi_size_nonzero [OF assms] by (simp add: getvch_def)
qed

lemma snum_getvch:
  assumes "bn_lib_ok lib"
  shows "snum (getvch lib n) = n"
proof (cases "n = 0")
  case True
  then show ?thesis using assms by (simp add: getvch_0 snum_def)
next
  case False
  obtain b bs where "getvch lib n = rev ((if n < 0 then b OR 0x80 else b) # bs)"
    "unat b < 128" "be_dec (b # bs) = nat \<bar>n\<bar>"
    using getvch_nonzero [OF assms False] by blast
  then show ?thesis using mpi_val_sign [of b bs] by (simp add: snum_def del: mpi_val.simps)
qed

lemma length_getvch:
  assumes "bn_lib_ok lib"
  shows "length (getvch lib n) = (if n = 0 then 0 else BN_num_bits lib n div 8 + 1)"
proof (cases "n = 0")
  case True
  then show ?thesis using getvch_0 [OF assms] by simp
next
  case False
  obtain b bs where "getvch lib n = rev ((if n < 0 then b OR 0x80 else b) # bs)"
    and "length (b # bs) = BN_num_bits lib n div 8 + 1"
    using getvch_nonzero [OF assms False] .
  then show ?thesis using False by simp
qed

text \<open>How many bytes a number takes: \<open>k\<close> bytes hold the numbers below \<open>2 ^ (8 * k - 1)\<close>.\<close>

lemma length_getvch_le:
  assumes "bn_lib_ok lib" and "0 < k"
  shows "length (getvch lib n) \<le> k \<longleftrightarrow> \<bar>n\<bar> < 2 ^ (8 * k - 1)"
proof (cases "n = 0")
  case True
  then show ?thesis using length_getvch [OF assms(1)] by simp
next
  case False
  let ?b = "BN_num_bits lib n"
  have lt: "nat \<bar>n\<bar> < 2 ^ ?b" and ge: "0 < ?b \<Longrightarrow> 2 ^ (?b - 1) \<le> nat \<bar>n\<bar>"
    using assms(1) unfolding bn_lib_ok_def by auto
  have "length (getvch lib n) \<le> k \<longleftrightarrow> ?b \<le> 8 * k - 1"
    using length_getvch [OF assms(1)] False assms(2) by auto
  also have "\<dots> \<longleftrightarrow> nat \<bar>n\<bar> < 2 ^ (8 * k - 1)"
  proof
    assume "?b \<le> 8 * k - 1"
    then have "(2 :: nat) ^ ?b \<le> 2 ^ (8 * k - 1)" by (rule power_increasing) simp
    with lt show "nat \<bar>n\<bar> < 2 ^ (8 * k - 1)" by (rule less_le_trans)
  next
    assume a: "nat \<bar>n\<bar> < 2 ^ (8 * k - 1)"
    show "?b \<le> 8 * k - 1"
    proof (rule ccontr)
      assume "\<not> ?b \<le> 8 * k - 1"
      then have "8 * k - 1 \<le> ?b - 1" "0 < ?b" by auto
      have "(2 :: nat) ^ (8 * k - 1) \<le> 2 ^ (?b - 1)"
        using \<open>8 * k - 1 \<le> ?b - 1\<close> by (rule power_increasing) simp
      also note ge [OF \<open>0 < ?b\<close>]
      finally show False using a by linarith
    qed
  qed
  also have "\<dots> \<longleftrightarrow> \<bar>n\<bar> < 2 ^ (8 * k - 1)" by (simp add: nat_less_iff)
  finally show ?thesis .
qed

lemma snum_bound: "vch \<noteq> [] \<Longrightarrow> \<bar>snum vch\<bar> < 2 ^ (8 * length vch - 1)"
proof (cases vch rule: rev_cases)
  case (snoc bs b)
  let ?c = "if unat b < 128 then b else b AND 0x7f"
  have "unat (b AND 0x7f) \<le> 127"
    using word_and_le1 [of b "0x7f"] by (simp add: word_le_nat_alt)
  then have c: "unat ?c < 128" by simp
  have "unat ?c * 256 ^ length bs + be_dec (rev bs) < (unat ?c + 1) * 256 ^ length bs"
    using be_dec_bound [of "rev bs"] by simp
  also have "\<dots> \<le> 128 * 256 ^ length bs" using c by (intro mult_right_mono) auto
  finally have "be_dec (?c # rev bs) < 2 ^ (8 * length vch - 1)"
    using snoc by (simp add: be_dec_Cons power_mult power_add)
  moreover have "\<bar>snum vch\<bar> = int (be_dec (?c # rev bs))" using snoc by (simp add: snum_def)
  ultimately show ?thesis
    by (metis of_nat_less_iff of_nat_numeral of_nat_power)
qed simp

lemma CastToBigNum_snum:
  assumes "bn_lib_ok lib"
  shows "CastToBigNum lib vch = (if length vch \<le> 4 then Some (snum vch) else None)"
proof (cases "length vch \<le> 4")
  case True
  have "length (getvch lib (snum vch)) \<le> 4"
  proof (cases "vch = []")
    case True
    then show ?thesis by (simp add: snum_def getvch_0 [OF assms])
  next
    case False
    have "(2 :: int) ^ (8 * length vch - 1) \<le> 2 ^ 31"
      using \<open>length vch \<le> 4\<close> by (intro power_increasing) auto
    with snum_bound [OF False] length_getvch_le [OF assms, of 4 "snum vch"] show ?thesis by simp
  qed
  with True assms show ?thesis
    by (simp add: CastToBigNum_def nMaxNumSize_def setvch_snum snum_getvch)
next
  case False
  then show ?thesis by (simp add: CastToBigNum_def nMaxNumSize_def)
qed

lemma CastToBigNum_getvch:
  assumes "bn_lib_ok lib"
  shows "CastToBigNum lib (getvch lib n) = (if \<bar>n\<bar> < 2 ^ 31 then Some n else None)"
  using CastToBigNum_snum [OF assms] length_getvch_le [OF assms, of 4 n]
  by (simp add: snum_getvch [OF assms])

lemma getint_exact:
  assumes "bn_lib_ok lib" and "\<bar>n\<bar> < 2 ^ 31"
  shows "getint lib n = n"
proof -
  have "BN_get_word lib n = nat \<bar>n\<bar>" using assms unfolding bn_lib_ok_def by auto
  with assms(2) show ?thesis by (auto simp: getint_def Let_def nat_less_iff)
qed

text \<open>The truth of a string is that of the number it stands for, negative zero included.\<close>

lemma le_dec_eq_0: "le_dec bs = 0 \<longleftrightarrow> set bs \<subseteq> {0}"
  by (induction bs) (auto simp: unat_eq_0)

lemma CastToBool_append:
  "CastToBool (bs @ [b]) \<longleftrightarrow> \<not> set bs \<subseteq> {0} \<or> b \<noteq> 0 \<and> b \<noteq> 0x80"
  by (induction bs) auto

lemma CastToBool_snum: "CastToBool vch \<longleftrightarrow> snum vch \<noteq> 0"
proof (cases vch rule: rev_cases)
  case Nil
  then show ?thesis by (simp add: snum_def)
next
  case (snoc bs b)
  have b: "b AND 0x7f = 0 \<longleftrightarrow> b = 0x80" if "\<not> unat b < 128"
  proof -
    have "b AND 0x7f = take_bit 7 b" by (simp add: take_bit_eq_mask mask_eq_exp_minus_1)
    then have "unat (b AND 0x7f) = unat b mod 128" by (simp add: take_bit_eq_mod unat_mod)
    moreover have "unat b < 256" using unat_less_2p [of b] by simp
    ultimately have "unat (b AND 0x7f) = 0 \<longleftrightarrow> unat b = 128" using that by presburger
    then show ?thesis by (simp add: word_unat_eq_iff)
  qed
  have z: "be_dec (c # rev bs) = 0 \<longleftrightarrow> set bs \<subseteq> {0} \<and> c = 0" for c
    unfolding be_dec_def le_dec_eq_0 by auto
  have "snum vch = 0 \<longleftrightarrow> set bs \<subseteq> {0} \<and> (b = 0 \<or> b = 0x80)"
  proof (cases "unat b < 128")
    case True
    then have "b \<noteq> 0x80" by auto
    with True snoc z [of b] show ?thesis by (simp add: snum_def)
  next
    case False
    then have "b \<noteq> 0" by auto
    with False snoc z [of "b AND 0x7f"] b show ?thesis by (simp add: snum_def)
  qed
  then show ?thesis using snoc by (auto simp: CastToBool_append)
qed

lemma snum_4:
  assumes "length vch \<le> 4"
  shows "\<bar>snum vch\<bar> < 2 ^ 31"
proof (cases "vch = []")
  case False
  have "(2 :: int) ^ (8 * length vch - 1) \<le> 2 ^ 31"
    using assms by (intro power_increasing) auto
  with snum_bound [OF False] show ?thesis by linarith
qed (simp add: snum_def)

section \<open>A library with the documented behaviour\<close>

fun bitlen :: "nat \<Rightarrow> nat" where
  "bitlen n = (if n = 0 then 0 else Suc (bitlen (n div 2)))"

declare bitlen.simps [simp del]

lemma bitlen_bounds: "n < 2 ^ bitlen n \<and> (0 < n \<longrightarrow> 2 ^ (bitlen n - 1) \<le> n)"
proof (induction n rule: bitlen.induct)
  case (1 n)
  show ?case
  proof (cases "n = 0")
    case False
    have IH: "n div 2 < 2 ^ bitlen (n div 2)" "0 < n div 2 \<longrightarrow> 2 ^ (bitlen (n div 2) - 1) \<le> n div 2"
      using 1 [OF False] by auto
    have "n < 2 * 2 ^ bitlen (n div 2)" using IH(1) by linarith
    moreover have "2 ^ bitlen (n div 2) \<le> n"
    proof (cases "n div 2 = 0")
      case True
      then show ?thesis using False by (simp add: bitlen.simps)
    next
      case F: False
      then have "bitlen (n div 2) = Suc (bitlen (n div 2) - 1)" by (subst (1) bitlen.simps) (simp add: bitlen.simps [of "n div 2"])
      then have "(2 :: nat) ^ bitlen (n div 2) = 2 * 2 ^ (bitlen (n div 2) - 1)" by (metis power_Suc)
      then show ?thesis using IH(2) F by linarith
    qed
    ultimately show ?thesis using False by (subst (1 2) bitlen.simps) simp
  qed (simp add: bitlen.simps)
qed

lemma bitlen_pos: "0 < bitlen n \<longleftrightarrow> 0 < n"
  by (subst bitlen.simps) auto

definition bn_ref :: bnlib where
  "bn_ref = \<lparr>BN_mpi2bn = \<lambda>m. mpi_val (drop 4 m),
     BN_num_bits = \<lambda>n. bitlen (nat \<bar>n\<bar>),
     BN_bn2bin = \<lambda>n. be_enc ((bitlen (nat \<bar>n\<bar>) + 7) div 8) (nat \<bar>n\<bar>),
     BN_get_word = \<lambda>n. if nat \<bar>n\<bar> < 2 ^ 64 then nat \<bar>n\<bar> else 2 ^ 64 - 1\<rparr>"

lemma bitlen_fits: "m < 256 ^ ((bitlen m + 7) div 8)"
proof -
  have "m < 2 ^ bitlen m" using bitlen_bounds by blast
  also have "\<dots> \<le> 2 ^ (8 * ((bitlen m + 7) div 8))" by (rule power_increasing) auto
  finally show ?thesis by (simp add: power_mult)
qed

lemma bn_ref_ok: "bn_lib_ok bn_ref"
proof -
  have "n \<noteq> 0 \<longrightarrow> 2 ^ (bitlen (nat \<bar>n\<bar>) - Suc 0) \<le> \<bar>n\<bar>" for n
    using bitlen_bounds [of "nat \<bar>n\<bar>"] by (simp add: le_nat_iff)
  then show ?thesis
    unfolding bn_lib_ok_def bn_ref_def
    using bitlen_bounds by (simp add: be_dec_enc [OF bitlen_fits] bitlen_pos)
qed

text \<open>
  The numbers of the script language.  With a library that behaves as documented, a stack
  element of at most four bytes is read as the number that its bytes denote (little-endian with
  a sign bit), which \<open>getint\<close> returns exactly; the element written for a number is read back as
  this number when its magnitude is below \<open>2^31\<close>, and is refused with an exception otherwise,
  which is what limits the operands but not the results of the arithmetic; and an element is
  true as a condition exactly when it is a non-zero number.
\<close>

lemma script_numbers:
  assumes "bn_lib_ok lib"
  shows "CastToBigNum lib vch = (if length vch \<le> 4 then Some (snum vch) else None) \<and>
    (length vch \<le> 4 \<longrightarrow> getint lib (snum vch) = snum vch) \<and>
    CastToBigNum lib (getvch lib n) = (if \<bar>n\<bar> < 2 ^ 31 then Some n else None) \<and>
    (CastToBool vch \<longleftrightarrow> snum vch \<noteq> 0) \<and> (CastToBool (getvch lib n) \<longleftrightarrow> n \<noteq> 0)"
  using CastToBigNum_snum [OF assms] CastToBigNum_getvch [OF assms] getint_exact [OF assms snum_4]
  by (simp add: CastToBool_snum snum_getvch [OF assms])

text \<open>Concrete instance: the encodings of -255 and of \<open>2^31\<close>, and negative zero.\<close>

lemma script_numbers_witness:
  "CastToBigNum bn_ref [0xff, 0x80] = Some (-255) \<and> getint bn_ref (snum [0xff, 0x80]) = -255 \<and>
   CastToBigNum bn_ref (getvch bn_ref (2 ^ 31)) = None \<and> \<not> CastToBool [0, 0x80]"
proof -
  have "snum [0xff, 0x80] = -255" and z: "snum [0, 0x80] = 0" by (simp_all add: snum_def be_dec_def)
  with script_numbers [OF bn_ref_ok, of "[0xff, 0x80]" "2 ^ 31"] script_numbers [OF bn_ref_ok, of "[0, 0x80]" 0]
  show ?thesis by simp
qed

end
