(* ===== verification/Script.thy ===== *)
theory Script
  imports Bignum "HOL-Library.Sublist"
begin

text \<open>
  Serialised scripts (class \<open>CScript\<close> of \<^verbatim>\<open>server/script.h\<close> and the members of
  \<^verbatim>\<open>server/script.cpp\<close>): the opcodes, reading one instruction, appending pushes, deleting a
  signature from a script, counting signature operations and recognising the pay-to-script-hash
  and witness templates.  A script is the list of its bytes and an iterator is the suffix of
  the script that starts at it.
\<close>

type_synonym valtype = "u8 list"
type_synonym script = "u8 list"

section \<open>Opcodes\<close>

abbreviation (input) OP_0 :: nat where "OP_0 \<equiv> 0x00"
abbreviation (input) OP_PUSHDATA1 :: nat where "OP_PUSHDATA1 \<equiv> 0x4c"
abbreviation (input) OP_PUSHDATA2 :: nat where "OP_PUSHDATA2 \<equiv> 0x4d"
abbreviation (input) OP_PUSHDATA4 :: nat where "OP_PUSHDATA4 \<equiv> 0x4e"
abbreviation (input) OP_1NEGATE :: nat where "OP_1NEGATE \<equiv> 0x4f"
abbreviation (input) OP_1 :: nat where "OP_1 \<equiv> 0x51"
abbreviation (input) OP_16 :: nat where "OP_16 \<equiv> 0x60"
abbreviation (input) OP_NOP :: nat where "OP_NOP \<equiv> 0x61"
abbreviation (input) OP_IF :: nat where "OP_IF \<equiv> 0x63"
abbreviation (input) OP_NOTIF :: nat where "OP_NOTIF \<equiv> 0x64"
abbreviation (input) OP_ELSE :: nat where "OP_ELSE \<equiv> 0x67"
abbreviation (input) OP_ENDIF :: nat where "OP_ENDIF \<equiv> 0x68"
abbreviation (input) OP_VERIFY :: nat where "OP_VERIFY \<equiv> 0x69"
abbreviation (input) OP_RETURN :: nat where "OP_RETURN \<equiv> 0x6a"
abbreviation (input) OP_TOALTSTACK :: nat where "OP_TOALTSTACK \<equiv> 0x6b"
abbreviation (input) OP_FROMALTSTACK :: nat where "OP_FROMALTSTACK \<equiv> 0x6c"
abbreviation (input) OP_2DROP :: nat where "OP_2DROP \<equiv> 0x6d"
abbreviation (input) OP_2DUP :: nat where "OP_2DUP \<equiv> 0x6e"
abbreviation (input) OP_3DUP :: nat where "OP_3DUP \<equiv> 0x6f"
abbreviation (input) OP_2OVER :: nat where "OP_2OVER \<equiv> 0x70"
abbreviation (input) OP_2ROT :: nat where "OP_2ROT \<equiv> 0x71"
abbreviation (input) OP_2SWAP :: nat where "OP_2SWAP \<equiv> 0x72"
abbreviation (input) OP_IFDUP :: nat where "OP_IFDUP \<equiv> 0x73"
abbreviation (input) OP_DEPTH :: nat where "OP_DEPTH \<equiv> 0x74"
abbreviation (input) OP_DROP :: nat where "OP_DROP \<equiv> 0x75"
abbreviation (input) OP_DUP :: nat where "OP_DUP \<equiv> 0x76"
abbreviation (input) OP_NIP :: nat where "OP_NIP \<equiv> 0x77"
abbreviation (input) OP_OVER :: nat where "OP_OVER \<equiv> 0x78"
abbreviation (input) OP_PICK :: nat where "OP_PICK \<equiv> 0x79"
abbreviation (input) OP_ROLL :: nat where "OP_ROLL \<equiv> 0x7a"
abbreviation (input) OP_ROT :: nat where "OP_ROT \<equiv> 0x7b"
abbreviation (input) OP_SWAP :: nat where "OP_SWAP \<equiv> 0x7c"
abbreviation (input) OP_TUCK :: nat where "OP_TUCK \<equiv> 0x7d"
abbreviation (input) OP_CAT :: nat where "OP_CAT \<equiv> 0x7e"
abbreviation (input) OP_SUBSTR :: nat where "OP_SUBSTR \<equiv> 0x7f"
abbreviation (input) OP_LEFT :: nat where "OP_LEFT \<equiv> 0x80"
abbreviation (input) OP_RIGHT :: nat where "OP_RIGHT \<equiv> 0x81"
abbreviation (input) OP_SIZE :: nat where "OP_SIZE \<equiv> 0x82"
abbreviation (input) OP_INVERT :: nat where "OP_INVERT \<equiv> 0x83"
abbreviation (input) OP_AND :: nat where "OP_AND \<equiv> 0x84"
abbreviation (input) OP_OR :: nat where "OP_OR \<equiv> 0x85"
abbreviation (input) OP_XOR :: nat where "OP_XOR \<equiv> 0x86"
abbreviation (input) OP_EQUAL :: nat where "OP_EQUAL \<equiv> 0x87"
abbreviation (input) OP_EQUALVERIFY :: nat where "OP_EQUALVERIFY \<equiv> 0x88"
abbreviation (input) OP_1ADD :: nat where "OP_1ADD \<equiv> 0x8b"
abbreviation (input) OP_1SUB :: nat where "OP_1SUB \<equiv> 0x8c"
abbreviation (input) OP_2MUL :: nat where "OP_2MUL \<equiv> 0x8d"
abbreviation (input) OP_2DIV :: nat where "OP_2DIV \<equiv> 0x8e"
abbreviation (input) OP_NEGATE :: nat where "OP_NEGATE \<equiv> 0x8f"
abbreviation (input) OP_ABS :: nat where "OP_ABS \<equiv> 0x90"
abbreviation (input) OP_NOT :: nat where "OP_NOT \<equiv> 0x91"
abbreviation (input) OP_0NOTEQUAL :: nat where "OP_0NOTEQUAL \<equiv> 0x92"
abbreviation (input) OP_ADD :: nat where "OP_ADD \<equiv> 0x93"
abbreviation (input) OP_SUB :: nat where "OP_SUB \<equiv> 0x94"
abbreviation (input) OP_MUL :: nat where "OP_MUL \<equiv> 0x95"
abbreviation (input) OP_DIV :: nat where "OP_DIV \<equiv> 0x96"
abbreviation (input) OP_MOD :: nat where "OP_MOD \<equiv> 0x97"
abbreviation (input) OP_LSHIFT :: nat where "OP_LSHIFT \<equiv> 0x98"
abbreviation (input) OP_RSHIFT :: nat where "OP_RSHIFT \<equiv> 0x99"
abbreviation (input) OP_BOOLAND :: nat where "OP_BOOLAND \<equiv> 0x9a"
abbreviation (input) OP_BOOLOR :: nat where "OP_BOOLOR \<equiv> 0x9b"
abbreviation (input) OP_NUMEQUAL :: nat where "OP_NUMEQUAL \<equiv> 0x9c"
abbreviation (input) OP_NUMEQUALVERIFY :: nat where "OP_NUMEQUALVERIFY \<equiv> 0x9d"
abbreviation (input) OP_NUMNOTEQUAL :: nat where "OP_NUMNOTEQUAL \<equiv> 0x9e"
abbreviation (input) OP_LESSTHAN :: nat where "OP_LESSTHAN \<equiv> 0x9f"
abbreviation (input) OP_GREATERTHAN :: nat where "OP_GREATERTHAN \<equiv> 0xa0"
abbreviation (input) OP_LESSTHANOREQUAL :: nat where "OP_LESSTHANOREQUAL \<equiv> 0xa1"
abbreviation (input) OP_GREATERTHANOREQUAL :: nat where "OP_GREATERTHANOREQUAL \<equiv> 0xa2"
abbreviation (input) OP_MIN :: nat where "OP_MIN \<equiv> 0xa3"
abbreviation (input) OP_MAX :: nat where "OP_MAX \<equiv> 0xa4"
abbreviation (input) OP_WITHIN :: nat where "OP_WITHIN \<equiv> 0xa5"
abbreviation (input) OP_RIPEMD160 :: nat where "OP_RIPEMD160 \<equiv> 0xa6"
abbreviation (input) OP_SHA1 :: nat where "OP_SHA1 \<equiv> 0xa7"
abbreviation (input) OP_SHA256 :: nat where "OP_SHA256 \<equiv> 0xa8"
abbreviation (input) OP_HASH160 :: nat where "OP_HASH160 \<equiv> 0xa9"
abbreviation (input) OP_HASH256 :: nat where "OP_HASH256 \<equiv> 0xaa"
abbreviation (input) OP_CODESEPARATOR :: nat where "OP_CODESEPARATOR \<equiv> 0xab"
abbreviation (input) OP_CHECKSIG :: nat where "OP_CHECKSIG \<equiv> 0xac"
abbreviation (input) OP_CHECKSIGVERIFY :: nat where "OP_CHECKSIGVERIFY \<equiv> 0xad"
abbreviation (input) OP_CHECKMULTISIG :: nat where "OP_CHECKMULTISIG \<equiv> 0xae"
abbreviation (input) OP_CHECKMULTISIGVERIFY :: nat where "OP_CHECKMULTISIGVERIFY \<equiv> 0xaf"
abbreviation (input) OP_NOP1 :: nat where "OP_NOP1 \<equiv> 0xb0"
abbreviation (input) OP_NOP10 :: nat where "OP_NOP10 \<equiv> 0xb9"
abbreviation (input) OP_INVALIDOPCODE :: nat where "OP_INVALIDOPCODE \<equiv> 0xff"

section \<open>Reading an instruction\<close>

text \<open>
  \<open>GetOp2\<close>: the size of the immediate operand with the bytes that follow the size, then the
  opcode, the operand and the iterator behind it; \<open>None\<close> is the result false.  The difference of
  two iterators is cast to \<^verbatim>\<open>unsigned int\<close> before it is compared.
\<close>

definition GetOp_size :: "nat \<Rightarrow> u8 list \<Rightarrow> (nat \<times> u8 list) option" where
  "GetOp_size opcode pc =
     (if opcode < OP_PUSHDATA1 then Some (opcode, pc)
      else if opcode = OP_PUSHDATA1 then
        (if length pc < 1 then None else Some (le_dec (take 1 pc), drop 1 pc))
      else if opcode = OP_PUSHDATA2 then
        (if length pc < 2 then None else Some (le_dec (take 2 pc), drop 2 pc))
      else
        (if length pc < 4 then None else Some (le_dec (take 4 pc), drop 4 pc)))"

fun GetOp :: "script \<Rightarrow> (nat \<times> valtype \<times> script) option" where
  "GetOp [] = None"
| "GetOp (b # pc) =
     (let opcode = unat b in
      if opcode \<le> OP_PUSHDATA4 then
        (case GetOp_size opcode pc of None \<Rightarrow> None
         | Some (nSize, pc1) \<Rightarrow>
             if length pc1 mod 2 ^ 32 < nSize then None
             else Some (opcode, take nSize pc1, drop nSize pc1))
      else Some (opcode, [], pc))"

lemma GetOp_size_le: "GetOp_size opcode pc = Some (n, pc1) \<Longrightarrow> length pc1 \<le> length pc"
  by (auto simp: GetOp_size_def split: if_splits)

lemma GetOp_shrinks: "GetOp pc = Some (opcode, vch, pc') \<Longrightarrow> length pc' < length pc"
  by (cases pc) (auto simp: Let_def split: if_splits option.splits dest!: GetOp_size_le)

section \<open>Appending to a script\<close>

definition push_vch :: "valtype \<Rightarrow> script" where
  "push_vch b =
     (if length b < OP_PUSHDATA1 then [of_nat (length b)]
      else if length b \<le> 0xff then [of_nat OP_PUSHDATA1, of_nat (length b)]
      else if length b \<le> 0xffff then of_nat OP_PUSHDATA2 # le_enc 2 (length b)
      else of_nat OP_PUSHDATA4 # le_enc 4 (length b)) @ b"

definition push_op :: "nat \<Rightarrow> script" where
  "push_op opcode = [of_nat opcode]"

definition push_int64 :: "bnlib \<Rightarrow> int \<Rightarrow> script" where
  "push_int64 lib n =
     (if n = -1 \<or> n \<ge> 1 \<and> n \<le> 16 then [of_int (n + int (OP_1 - 1))] else push_vch (getvch lib n))"

text \<open>\<open>None\<close> is a failed assertion.\<close>

definition DecodeOP_N :: "nat \<Rightarrow> nat option" where
  "DecodeOP_N opcode =
     (if opcode = OP_0 then Some 0
      else if opcode \<ge> OP_1 \<and> opcode \<le> OP_16 then Some (opcode - (OP_1 - 1)) else None)"

definition EncodeOP_N :: "int \<Rightarrow> nat option" where
  "EncodeOP_N n =
     (if \<not> (n \<ge> 0 \<and> n \<le> 16) then None
      else if n = 0 then Some OP_0 else Some (OP_1 + nat n - 1))"

section \<open>Deleting from a script\<close>

function erase_prefix :: "script \<Rightarrow> script \<Rightarrow> script" where
  "erase_prefix b pc =
     (if b \<noteq> [] \<and> length pc \<ge> length b \<and> take (length b) pc = b
      then erase_prefix b (drop (length b) pc) else pc)"
  by pat_completeness auto
termination
  by (relation "measure (\<lambda>(b, pc). length pc)") (auto simp flip: length_greater_0_conv)

declare erase_prefix.simps [simp del]

lemma erase_prefix_le: "length (erase_prefix b pc) \<le> length pc"
  by (induction b pc rule: erase_prefix.induct) (subst erase_prefix.simps, auto)

text \<open>
  \<open>FindAndDelete\<close> from the iterator on: the occurrences at the iterator are erased, then the
  iterator moves over one instruction, until no instruction can be read.
\<close>

function FindAndDelete_from :: "script \<Rightarrow> script \<Rightarrow> script" where
  "FindAndDelete_from b pc =
     (let pc1 = erase_prefix b pc in
      case GetOp pc1 of None \<Rightarrow> pc1
      | Some (opcode, vch, pc2) \<Rightarrow>
          take (length pc1 - length pc2) pc1 @ FindAndDelete_from b pc2)"
  by pat_completeness auto
termination
proof (relation "measure (\<lambda>(b, pc). length pc)", simp)
  fix b pc pc1 p opcode q vch pc2
  assume "pc1 = erase_prefix b pc" "GetOp pc1 = Some p" "(opcode, q) = p" "(vch, pc2) = q"
  then show "((b, pc2), b, pc) \<in> measure (\<lambda>(b, pc). length pc)"
    using GetOp_shrinks [of pc1 opcode vch pc2] erase_prefix_le [of b pc] by auto
qed

declare FindAndDelete_from.simps [simp del]

definition FindAndDelete :: "script \<Rightarrow> script \<Rightarrow> script" where
  "FindAndDelete b s = (if b = [] then s else FindAndDelete_from b s)"

section \<open>Scans over a script\<close>

function IsPushOnly :: "script \<Rightarrow> bool" where
  "IsPushOnly pc =
     (if pc = [] then True
      else case GetOp pc of None \<Rightarrow> False
      | Some (opcode, vch, pc') \<Rightarrow> if opcode > OP_16 then False else IsPushOnly pc')"
  by pat_completeness auto
termination by (relation "measure length") (auto dest: GetOp_shrinks)

declare IsPushOnly.simps [simp del]

text \<open>
  \<open>GetSigOpCount (bool)\<close>: \<open>n\<close> is an \<^verbatim>\<open>unsigned int\<close> and \<open>lastOpcode\<close> the opcode before.
\<close>

function sigop_loop :: "bool \<Rightarrow> script \<Rightarrow> nat \<Rightarrow> u32 \<Rightarrow> u32" where
  "sigop_loop fAccurate pc lastOpcode n =
     (case GetOp pc of None \<Rightarrow> n
      | Some (opcode, vch, pc') \<Rightarrow>
          sigop_loop fAccurate pc' opcode
            (if opcode = OP_CHECKSIG \<or> opcode = OP_CHECKSIGVERIFY then n + 1
             else if opcode = OP_CHECKMULTISIG \<or> opcode = OP_CHECKMULTISIGVERIFY then
               (if fAccurate \<and> lastOpcode \<ge> OP_1 \<and> lastOpcode \<le> OP_16
                then n + of_nat (the (DecodeOP_N lastOpcode)) else n + 20)
             else n))"
  by pat_completeness auto
termination by (relation "measure (\<lambda>(_, pc, _, _). length pc)") (auto dest: GetOp_shrinks)

declare sigop_loop.simps [simp del]

definition GetSigOpCount :: "script \<Rightarrow> bool \<Rightarrow> u32" where
  "GetSigOpCount s fAccurate = sigop_loop fAccurate s OP_INVALIDOPCODE 0"

definition IsPayToScriptHash :: "script \<Rightarrow> bool" where
  "IsPayToScriptHash s \<longleftrightarrow>
     length s = 23 \<and> s ! 0 = of_nat OP_HASH160 \<and> s ! 1 = 0x14 \<and> s ! 22 = of_nat OP_EQUAL"

text \<open>The operand of the last instruction of a script of pushes.\<close>

function last_push :: "script \<Rightarrow> valtype \<Rightarrow> valtype option" where
  "last_push pc data =
     (if pc = [] then Some data
      else case GetOp pc of None \<Rightarrow> None
      | Some (opcode, vch, pc') \<Rightarrow> if opcode > OP_16 then None else last_push pc' vch)"
  by pat_completeness auto
termination by (relation "measure (\<lambda>(pc, _). length pc)") (auto dest: GetOp_shrinks)

declare last_push.simps [simp del]

definition GetSigOpCount_for :: "script \<Rightarrow> script \<Rightarrow> u32" where
  "GetSigOpCount_for s scriptSig =
     (if \<not> IsPayToScriptHash s then GetSigOpCount s True
      else case last_push scriptSig [] of None \<Rightarrow> 0
      | Some data \<Rightarrow> GetSigOpCount data True)"

definition IsWitnessProgram :: "script \<Rightarrow> (nat \<times> valtype) option" where
  "IsWitnessProgram s =
     (if length s < 4 \<or> length s > 42 then None
      else let op = unat (s ! 0) in
        if op \<noteq> OP_0 \<and> (op < OP_1 \<or> op > OP_16) then None
        else if unat (s ! 1) + 2 = length s then
          (case DecodeOP_N op of None \<Rightarrow> None | Some version \<Rightarrow> Some (version, drop 2 s))
        else None)"

section \<open>Scripts for destinations\<close>

definition key_script :: "valtype \<Rightarrow> script" where
  "key_script keyID = push_op OP_DUP @ push_op OP_HASH160 @ (of_nat (length keyID) # keyID) @
     push_op OP_EQUALVERIFY @ push_op OP_CHECKSIG"

definition hash_script :: "valtype \<Rightarrow> script" where
  "hash_script scriptID = push_op OP_HASH160 @ (of_nat (length scriptID) # scriptID) @ push_op OP_EQUAL"

definition SetMultisig :: "int \<Rightarrow> valtype list \<Rightarrow> script option" where
  "SetMultisig nRequired keys = do {
     m \<leftarrow> EncodeOP_N nRequired;
     n \<leftarrow> EncodeOP_N (int (length keys));
     Some (push_op m @ concat (map push_vch keys) @ push_op n @ push_op OP_CHECKMULTISIG) }"

section \<open>Instructions of a script\<close>

lemma GetOp_size_split:
  assumes "GetOp_size opcode pc = Some (n, pc1)"
  obtains l where "pc = l @ pc1" and "\<And>pc2. GetOp_size opcode (l @ pc2) = Some (n, pc2)"
proof -
  consider "opcode < 0x4c" | "opcode = 0x4c" | "opcode = 0x4d" | "0x4d < opcode" by linarith
  then show thesis
  proof cases
    case 1
    with assms that [of "[]"] show thesis by (simp add: GetOp_size_def)
  next
    case 2
    with assms that [of "take 1 pc"] show thesis by (cases pc) (auto simp: GetOp_size_def split: if_splits)
  next
    case 3
    with assms that [of "take 2 pc"] show thesis by (auto simp: GetOp_size_def split: if_splits)
  next
    case 4
    with assms that [of "take 4 pc"] show thesis by (auto simp: GetOp_size_def split: if_splits)
  qed
qed

text \<open>An instruction is read the same way whatever follows it.\<close>

lemma GetOp_split:
  assumes "GetOp pc = Some (opcode, vch, pc')" and "length pc < 2 ^ 32"
  obtains i where "pc = i @ pc'" and "i \<noteq> []"
    and "\<And>r. length (i @ r) < 2 ^ 32 \<Longrightarrow> GetOp (i @ r) = Some (opcode, vch, r)"
proof -
  obtain b pc0 where pc: "pc = b # pc0" using assms(1) by (cases pc) auto
  show thesis
  proof (cases "unat b \<le> 0x4e")
    case False
    with assms(1) pc show thesis by (intro that [of "[b]"]) auto
  next
    case True
    with assms(1) pc obtain n pc1 where g: "GetOp_size (unat b) pc0 = Some (n, pc1)"
      and v: "\<not> length pc1 mod 2 ^ 32 < n" "opcode = unat b" "vch = take n pc1" "pc' = drop n pc1"
      by (auto simp: Let_def split: option.splits if_splits)
    obtain l where l: "pc0 = l @ pc1" "\<And>pc2. GetOp_size (unat b) (l @ pc2) = Some (n, pc2)"
      using GetOp_size_split [OF g] by blast
    have n: "n \<le> length pc1" using v(1) mod_less_eq_dividend [of "length pc1" "2 ^ 32"] by linarith
    show thesis
    proof (rule that [of "b # l @ take n pc1"])
      show "pc = (b # l @ take n pc1) @ pc'" using pc l v by simp
      show "GetOp ((b # l @ take n pc1) @ r) = Some (opcode, vch, r)"
        if "length ((b # l @ take n pc1) @ r) < 2 ^ 32" for r
        using True v n that l(2) [of "take n pc1 @ r"] by (simp add: Let_def)
    qed simp
  qed
qed

function instrs :: "script \<Rightarrow> script list \<times> script" where
  "instrs pc =
     (case GetOp pc of None \<Rightarrow> ([], pc)
      | Some (opcode, vch, pc') \<Rightarrow>
          let (is, tail) = instrs pc' in (take (length pc - length pc') pc # is, tail))"
  by pat_completeness auto
termination by (relation "measure length") (auto dest: GetOp_shrinks)

declare instrs.simps [simp del]

lemma instrs_None: "GetOp pc = None \<Longrightarrow> instrs pc = ([], pc)"
  by (subst instrs.simps) simp

lemma instrs_Some:
  "GetOp pc = Some (opcode, vch, pc') \<Longrightarrow>
   instrs pc = (take (length pc - length pc') pc # fst (instrs pc'), snd (instrs pc'))"
  by (subst instrs.simps) (simp add: case_prod_beta Let_def)

lemma instrs_concat: "length pc < 2 ^ 32 \<Longrightarrow> concat (fst (instrs pc)) @ snd (instrs pc) = pc"
proof (induction pc rule: length_induct)
  case (1 pc)
  show ?case
  proof (cases "GetOp pc")
    case (Some p)
    obtain opcode vch pc' where p: "GetOp pc = Some (opcode, vch, pc')" using Some by (cases p) auto
    then obtain i where i: "pc = i @ pc'" using GetOp_split 1(2) by metis
    have "concat (fst (instrs pc')) @ snd (instrs pc') = pc'"
      using 1 GetOp_shrinks [OF p] by simp
    then show ?thesis unfolding instrs_Some [OF p] using i by simp
  qed (simp add: instrs_None)
qed

text \<open>\<open>is_instr b\<close>: the script \<open>b\<close> consists of one instruction.\<close>

definition is_instr :: "script \<Rightarrow> bool" where
  "is_instr b \<longleftrightarrow> (\<exists>opcode vch. GetOp b = Some (opcode, vch, []))"

lemma GetOp_is_instr:
  assumes "is_instr b" and "length (b @ r) < 2 ^ 32"
  obtains opcode vch where "GetOp (b @ r) = Some (opcode, vch, r)"
proof -
  obtain opcode vch where g: "GetOp b = Some (opcode, vch, [])" using assms(1) by (auto simp: is_instr_def)
  have "length b < 2 ^ 32" using assms(2) by simp
  then obtain i where "b = i @ []" "GetOp (i @ r) = Some (opcode, vch, r)"
    using GetOp_split [OF g] assms(2) by (metis append_Nil2)
  then show thesis using that by simp
qed

lemma GetOp_push:
  assumes "length (push_vch b @ r) < 2 ^ 32"
  obtains opcode where "opcode \<le> 0x4e" and "GetOp (push_vch b @ r) = Some (opcode, b, r)"
proof -
  have len: "length (b @ r) < 2 ^ 32" using assms by (auto simp: push_vch_def split: if_splits)
  have nat_of: "unat (of_nat n :: u8) = n" if "n < 256" for n
    using that by (simp add: unat_of_nat)
  show thesis
  proof (cases "length b < 0x4c")
    case True
    with len that [of "length b"] show thesis by (simp add: push_vch_def GetOp_size_def nat_of Let_def)
  next
    case False
    consider "length b \<le> 0xff" | "0xff < length b" "length b \<le> 0xffff" | "0xffff < length b" by linarith
    then show thesis
    proof cases
      case 1
      with False len that [of "0x4c"] show thesis by (simp add: push_vch_def GetOp_size_def nat_of Let_def)
    next
      case 2
      with False len that [of "0x4d"] show thesis
        by (simp add: push_vch_def GetOp_size_def Let_def le_dec_enc)
    next
      case 3
      with False len that [of "0x4e"] show thesis
        by (simp add: push_vch_def GetOp_size_def Let_def le_dec_enc)
    qed
  qed
qed

lemma is_instr_push: "length (push_vch b) < 2 ^ 32 \<Longrightarrow> is_instr (push_vch b)"
  by (rule GetOp_push [of b "[]"]) (auto simp: is_instr_def)

lemma erase_prefix_step: "b \<noteq> [] \<Longrightarrow> erase_prefix b (b @ r) = erase_prefix b r"
  by (subst erase_prefix.simps) simp

lemma FindAndDelete_from_prefix: "b \<noteq> [] \<Longrightarrow> FindAndDelete_from b (b @ r) = FindAndDelete_from b r"
  by (subst (1 2) FindAndDelete_from.simps) (simp add: erase_prefix_step)

lemma erase_prefix_none: "\<not> prefix b pc \<Longrightarrow> erase_prefix b pc = pc"
  by (subst erase_prefix.simps) (auto simp: prefix_def, metis append_take_drop_id)

lemma FindAndDelete_from_filter:
  assumes "is_instr b" and "length s < 2 ^ 32"
  shows "FindAndDelete_from b s = concat (filter (\<lambda>i. i \<noteq> b) (fst (instrs s))) @ snd (instrs s)"
  using assms(2)
proof (induction s rule: length_induct)
  case (1 s)
  have b: "b \<noteq> []" using assms(1) by (auto simp: is_instr_def)
  show ?case
  proof (cases "prefix b s")
    case True
    then obtain r where s: "s = b @ r" by (auto simp: prefix_def)
    obtain opcode vch where "GetOp (b @ r) = Some (opcode, vch, r)"
      using GetOp_is_instr [OF assms(1)] 1(2) s by blast
    then have "instrs s = (b # fst (instrs r), snd (instrs r))" using s by (simp add: instrs_Some)
    then show ?thesis using 1 s b by (simp add: FindAndDelete_from_prefix)
  next
    case no: False
    show ?thesis
    proof (cases "GetOp s")
      case None
      then show ?thesis
        by (subst FindAndDelete_from.simps) (simp add: erase_prefix_none [OF no] instrs_None)
    next
      case (Some p)
      obtain opcode vch r where p: "GetOp s = Some (opcode, vch, r)" using Some by (cases p) auto
      then obtain i where i: "s = i @ r" using GetOp_split 1(2) by metis
      have "i \<noteq> b" using no i by (auto simp: prefix_def)
      moreover have "FindAndDelete_from b s = i @ FindAndDelete_from b r"
      proof -
        have "take (length s - length r) s = i" using i by simp
        then show ?thesis by (subst FindAndDelete_from.simps) (simp add: erase_prefix_none [OF no] p)
      qed
      moreover have "instrs s = (i # fst (instrs r), snd (instrs r))" using instrs_Some [OF p] i by simp
      ultimately show ?thesis using 1 GetOp_shrinks [OF p] by simp
    qed
  qed
qed

lemma FindAndDelete_filter:
  assumes "is_instr b" and "length s < 2 ^ 32"
  shows "FindAndDelete b s = concat (filter (\<lambda>i. i \<noteq> b) (fst (instrs s))) @ snd (instrs s)"
  using FindAndDelete_from_filter [OF assms] assms(1) by (auto simp: FindAndDelete_def is_instr_def)

lemma concat_filter_absent: "b \<notin> set is \<Longrightarrow> concat (filter (\<lambda>i. i \<noteq> b) is) = concat is"
  by (induction "is") auto

lemma FindAndDelete_absent:
  assumes "is_instr b" and "length s < 2 ^ 32" and "b \<notin> set (fst (instrs s))"
  shows "FindAndDelete b s = s"
  using FindAndDelete_filter [OF assms(1,2)] instrs_concat [OF assms(2)]
  by (simp add: concat_filter_absent [OF assms(3)])

section \<open>Counting signature operations\<close>

lemma sigop_loop_bound:
  "unat n + 20 * length pc < 2 ^ 32 \<Longrightarrow> unat (sigop_loop acc pc lop n) \<le> unat n + 20 * length pc"
proof (induction acc pc lop n rule: sigop_loop.induct)
  case (1 acc pc lop n)
  show ?case
  proof (cases "GetOp pc")
    case None
    then show ?thesis by (subst sigop_loop.simps) simp
  next
    case (Some p)
    obtain opcode vch pc' where p: "GetOp pc = Some (opcode, vch, pc')" using Some by (cases p) auto
    let ?n = "if opcode = 0xac \<or> opcode = 0xad then n + 1
       else if opcode = 0xae \<or> opcode = 0xaf then
         (if acc \<and> lop \<ge> 0x51 \<and> lop \<le> 0x60 then n + of_nat (the (DecodeOP_N lop)) else n + 20)
       else n"
    have add: "unat (n + of_nat k) \<le> unat n + k" for k :: nat
      by (simp add: unat_word_ariths unat_of_nat)
    have "unat ?n \<le> unat n + 20"
      using add [of 1] add [of 20] add [of "the (DecodeOP_N lop)"] by (auto simp: DecodeOP_N_def)
    moreover have "20 * length pc' + 20 \<le> 20 * length pc" using GetOp_shrinks [OF p] by simp
    ultimately show ?thesis
      using "1.IH" [OF p refl refl] "1.prems" p by (subst sigop_loop.simps) simp
  qed
qed

definition sigop_cost :: "bool \<Rightarrow> nat \<Rightarrow> nat \<Rightarrow> nat" where
  "sigop_cost acc lop opcode =
     (if opcode = OP_CHECKSIG \<or> opcode = OP_CHECKSIGVERIFY then 1
      else if opcode = OP_CHECKMULTISIG \<or> opcode = OP_CHECKMULTISIGVERIFY then
        (if acc \<and> lop \<ge> OP_1 \<and> lop \<le> OP_16 then the (DecodeOP_N lop) else 20)
      else 0)"

lemma sigop_loop_Some:
  assumes "GetOp pc = Some (opcode, vch, pc')"
  shows "sigop_loop acc pc lop n = sigop_loop acc pc' opcode (n + of_nat (sigop_cost acc lop opcode))"
  using assms by (subst sigop_loop.simps) (simp add: sigop_cost_def)

lemma sigop_cost_mono: "sigop_cost True lop opcode \<le> sigop_cost False lop opcode"
  by (auto simp: sigop_cost_def DecodeOP_N_def)

lemma sigop_cost_20: "sigop_cost acc lop opcode \<le> 20"
  by (auto simp: sigop_cost_def DecodeOP_N_def)

lemma unat_plus_small: "unat (n :: u32) + k < 2 ^ 32 \<Longrightarrow> unat (n + of_nat k) = unat n + k"
  by (simp add: unat_word_ariths unat_of_nat)

lemma sigop_loop_mono:
  "unat n \<le> unat n' \<Longrightarrow> unat n' + 20 * length pc < 2 ^ 32 \<Longrightarrow>
   unat (sigop_loop True pc lop n) \<le> unat (sigop_loop False pc lop n')"
proof (induction pc arbitrary: lop n n' rule: length_induct)
  case (1 pc)
  show ?case
  proof (cases "GetOp pc")
    case None
    then show ?thesis using 1 by (simp add: sigop_loop.simps [of _ pc])
  next
    case (Some p)
    obtain opcode vch pc' where p: "GetOp pc = Some (opcode, vch, pc')" using Some by (cases p) auto
    let ?c = "\<lambda>acc. sigop_cost acc lop opcode"
    have len: "20 * length pc' + 20 \<le> 20 * length pc" "length pc' < length pc" using GetOp_shrinks [OF p] by auto
    have "unat (n + of_nat (?c True)) = unat n + ?c True" "unat (n' + of_nat (?c False)) = unat n' + ?c False"
      using "1.prems" len(1) sigop_cost_20 [of True lop opcode] sigop_cost_20 [of False lop opcode]
      by (auto intro!: unat_plus_small)
    then show ?thesis
      unfolding sigop_loop_Some [OF p]
      using "1.IH" [rule_format, OF len(2)] "1.prems" len(1) sigop_cost_mono [of lop opcode]
        sigop_cost_20 [of False lop opcode] by simp
  qed
qed

text \<open>
  The number of signature operations.  As long as twenty times the length of a script fits
  into the counter of 32 bits, \<open>GetSigOpCount\<close> does not wrap: a script of \<open>n\<close> bytes has at most
  \<open>20 n\<close> signature operations, and the accurate count never exceeds the count from before
  pay-to-script-hash.
\<close>

lemma sigop_count_bounds:
  assumes "20 * length s < 2 ^ 32"
  shows "unat (GetSigOpCount s True) \<le> unat (GetSigOpCount s False) \<and> unat (GetSigOpCount s False) \<le> 20 * length s"
  using assms sigop_loop_mono [of 0 0 s] sigop_loop_bound [of 0 s False] by (simp add: GetSigOpCount_def)

text \<open>Concrete instance: \<open>OP_2\<close> and \<open>OP_CHECKMULTISIG\<close> count 2 or 20.\<close>

lemma sigop_count_bounds_witness:
  "unat (GetSigOpCount [0x52, 0xae] True) \<le> unat (GetSigOpCount [0x52, 0xae] False) \<and>
   GetSigOpCount [0x52, 0xae] True = 2 \<and> GetSigOpCount [0x52, 0xae] False = 20"
  using sigop_count_bounds [of "[0x52, 0xae]"]
  by (simp add: GetSigOpCount_def sigop_loop.simps DecodeOP_N_def)

text \<open>
  Deleting a signature from the script it signs.  For the push \<open>b\<close> of any data, \<open>FindAndDelete\<close>
  removes from a script exactly the instructions that equal \<open>b\<close> and keeps the others, also an
  unreadable rest, in their order; bytes equal to \<open>b\<close> inside the data of a push are not touched.
\<close>

lemma find_and_delete_filter:
  assumes "length s < 2 ^ 32" and "length (push_vch data) < 2 ^ 32"
  shows "FindAndDelete (push_vch data) s =
    concat (filter (\<lambda>i. i \<noteq> push_vch data) (fst (instrs s))) @ snd (instrs s) \<and>
    concat (fst (instrs s)) @ snd (instrs s) = s"
  using FindAndDelete_filter [OF is_instr_push [OF assms(2)] assms(1)] instrs_concat [OF assms(1)] by simp

text \<open>Concrete instance: the push of 7 is deleted, the same bytes inside a longer push are not.\<close>

lemma find_and_delete_filter_witness:
  "FindAndDelete (push_vch [7]) [2, 1, 7, 1, 7, 0xac] = [2, 1, 7, 0xac]"
proof -
  have "instrs [2, 1, 7, 1, 7, 0xac] = ([[2, 1, 7], [1, 7], [0xac]], [])"
    by (simp add: instrs.simps GetOp_size_def)
  moreover have "push_vch [7] = [1, 7]" by (simp add: push_vch_def)
  ultimately show ?thesis using find_and_delete_filter [of "[2, 1, 7, 1, 7, 0xac]" "[7]"] by simp
qed

end
