(* ===== verification/Serialize.thy ===== *)
theory Serialize
  imports Merkle Script
begin

text \<open>
  Serialization (\<^verbatim>\<open>server/serialize.h\<close>): integers, compact sizes, byte vectors and vectors of
  objects.  A stream is the list of the bytes left to read; a reader returns \<^term>\<open>None\<close> where the
  code throws \<open>ios_base::failure\<close>.  The size of an object is an \<open>unsigned int\<close> and wraps.

  An object with its writer, its reader and its size is an instance of the locale \<open>codec\<close>, in
  which vectors are proved once; the classes of transactions are its instances in the theory of
  transactions.
\<close>

type_synonym 'a reader = "u8 list \<Rightarrow> ('a \<times> u8 list) option"
type_synonym i64 = "64 word"

section \<open>Streams, integers and compact sizes\<close>

definition read_data :: "nat \<Rightarrow> u8 list reader" where
  "read_data k s = (if k \<le> length s then Some (take k s, drop k s) else None)"

definition ser_int :: "nat \<Rightarrow> 'a :: len word \<Rightarrow> u8 list" where
  "ser_int k x = le_enc k (unat x)"

definition de_int :: "nat \<Rightarrow> 'a :: len word reader" where
  "de_int k s = map_option (\<lambda>(bs, s). (of_nat (le_dec bs), s)) (read_data k s)"

definition MAX_SIZE :: nat where "MAX_SIZE = 0x05000000"

definition GetSizeOfCompactSize :: "nat \<Rightarrow> u32" where
  "GetSizeOfCompactSize nSize =
     (if nSize < 253 then 1
      else if nSize \<le> 65535 then 1 + 2
      else if nSize \<le> 4294967295 then 1 + 4
      else 1 + 8)"

definition WriteCompactSize :: "nat \<Rightarrow> u8 list" where
  "WriteCompactSize nSize =
     (if nSize < 253 then [of_nat nSize]
      else if nSize \<le> 65535 then 253 # le_enc 2 nSize
      else if nSize \<le> 4294967295 then 254 # le_enc 4 nSize
      else 255 # le_enc 8 nSize)"

definition ReadCompactSize :: "nat reader" where
  "ReadCompactSize s = do {
     (chSize, s) \<leftarrow> read_data 1 s;
     let chSize = hd chSize;
     (nSizeRet, s) \<leftarrow>
       (if chSize < 253 then Some (unat chSize, s)
        else map_option (\<lambda>(bs, s). (le_dec bs, s))
          (read_data (if chSize = 253 then 2 else if chSize = 254 then 4 else 8) s));
     if nSizeRet > MAX_SIZE then None else Some (nSizeRet, s) }"

section \<open>Vectors\<close>

text \<open>A vector of bytes is read in blocks of five million.\<close>

function read_blocks :: "nat \<Rightarrow> u8 list reader" where
  "read_blocks left s =
     (if left = 0 then Some ([], s)
      else do {
        (bs, s) \<leftarrow> read_data (min left 5000000) s;
        (rest, s) \<leftarrow> read_blocks (left - min left 5000000) s;
        Some (bs @ rest, s) })"
  by pat_completeness auto
termination by (relation "measure fst") auto

declare read_blocks.simps [simp del]

definition ser_bytes :: "u8 list \<Rightarrow> u8 list" where
  "ser_bytes v = WriteCompactSize (length v) @ v"

definition de_bytes :: "u8 list reader" where
  "de_bytes s = do { (nSize, s) \<leftarrow> ReadCompactSize s; read_blocks nSize s }"

definition size_bytes :: "u8 list \<Rightarrow> u32" where
  "size_bytes v = GetSizeOfCompactSize (length v) + of_nat (length v)"

text \<open>Elements that are objects are read one after the other; the batches in which the vector is
  resized do not show.\<close>

fun read_list :: "'a reader \<Rightarrow> nat \<Rightarrow> 'a list reader" where
  "read_list de 0 s = Some ([], s)"
| "read_list de (Suc k) s = do {
     (x, s) \<leftarrow> de s;
     (xs, s) \<leftarrow> read_list de k s;
     Some (x # xs, s) }"

definition ser_vec :: "('a \<Rightarrow> u8 list) \<Rightarrow> 'a list \<Rightarrow> u8 list" where
  "ser_vec ser v = WriteCompactSize (length v) @ concat (map ser v)"

definition de_vec :: "'a reader \<Rightarrow> 'a list reader" where
  "de_vec de s = do { (nSize, s) \<leftarrow> ReadCompactSize s; read_list de nSize s }"

definition size_vec :: "('a \<Rightarrow> u32) \<Rightarrow> 'a list \<Rightarrow> u32" where
  "size_vec sz v = GetSizeOfCompactSize (length v) + sum_list (map sz v)"

definition vec_ok :: "('a \<Rightarrow> bool) \<Rightarrow> 'a list \<Rightarrow> bool" where
  "vec_ok ok v \<longleftrightarrow> length v \<le> MAX_SIZE \<and> list_all ok v"

section \<open>The contract of a serialized type\<close>

lemma read_data_append [simp]: "length bs = k \<Longrightarrow> read_data k (bs @ s) = Some (bs, s)"
  by (simp add: read_data_def)

lemma read_data_Cons: "read_data (Suc 0) (b # s) = Some ([b], s)"
  by (simp add: read_data_def)

lemma le_dec_enc_less: "x < 256 ^ k \<Longrightarrow> le_dec (le_enc k x) = x"
  by (simp add: le_dec_enc)

lemma compact_size_round_trip:
  assumes "k \<le> MAX_SIZE"
  shows "ReadCompactSize (WriteCompactSize k @ s) = Some (k, s)"
proof -
  have k: "k \<le> 4294967295" using assms by (simp add: MAX_SIZE_def)
  consider "k < 253" | "253 \<le> k" "k \<le> 65535" | "65535 < k" by linarith
  then show ?thesis
  proof cases
    case 1
    then have u: "unat (of_nat k :: u8) = k" by (simp add: unat_of_nat)
    then have "(of_nat k :: u8) < 253" using 1 by (simp add: word_less_nat_alt)
    with 1 u assms show ?thesis by (simp add: ReadCompactSize_def WriteCompactSize_def read_data_Cons)
  next
    case 2
    then have "le_dec (le_enc 2 k) = k" by (intro le_dec_enc_less) simp
    with 2 assms show ?thesis by (simp add: ReadCompactSize_def WriteCompactSize_def read_data_Cons)
  next
    case 3
    then have "le_dec (le_enc 4 k) = k" using k by (intro le_dec_enc_less) simp
    with 3 k assms show ?thesis by (simp add: ReadCompactSize_def WriteCompactSize_def read_data_Cons)
  qed
qed

lemma compact_size_size: "GetSizeOfCompactSize k = of_nat (length (WriteCompactSize k))"
  by (simp add: GetSizeOfCompactSize_def WriteCompactSize_def)

lemma read_blocks_append: "length bs = k \<Longrightarrow> read_blocks k (bs @ s) = Some (bs, s)"
proof (induction k arbitrary: bs rule: less_induct)
  case (less k)
  let ?m = "min k 5000000"
  show ?case
  proof (cases "k = 0")
    case False
    have "read_data ?m (bs @ s) = Some (take ?m bs, drop ?m bs @ s)"
      using less.prems by (simp add: read_data_def)
    moreover have "read_blocks (k - ?m) (drop ?m bs @ s) = Some (drop ?m bs, s)"
      by (rule less.IH) (use False less.prems in auto)
    ultimately show ?thesis using False by (subst read_blocks.simps) simp
  qed (use less.prems in \<open>simp add: read_blocks.simps\<close>)
qed

text \<open>
  A reader takes at least the bytes that the writer would write for the value it returns: sizes are
  also read in longer forms than the one that is written.
\<close>

lemma read_data_consumes: "read_data k s = Some (bs, t) \<Longrightarrow> length bs = k \<and> k + length t = length s"
  by (auto simp: read_data_def split: if_splits)

lemma compact_size_consumes:
  assumes "ReadCompactSize s = Some (k, t)"
  shows "length (WriteCompactSize k) + length t \<le> length s"
proof -
  from assms obtain c s1 where c: "read_data 1 s = Some (c, s1)" and
    r: "(if hd c < 253 then Some (unat (hd c), s1)
        else map_option (\<lambda>(bs, s). (le_dec bs, s)) (read_data (if hd c = 253 then 2 else if hd c = 254 then 4 else 8) s1)) = Some (k, t)"
    by (auto simp: ReadCompactSize_def Let_def split: bind_splits if_split_asm)
  have s1: "length s = 1 + length s1" using read_data_consumes [OF c] by simp
  show ?thesis
  proof (cases "hd c < 253")
    case True
    then have "k < 253" "t = s1" using r by (auto simp: word_less_nat_alt)
    then show ?thesis using s1 by (simp add: WriteCompactSize_def)
  next
    case False
    define n :: nat where "n = (if hd c = 253 then 2 else if hd c = 254 then 4 else 8)"
    from r False obtain bs where b: "read_data n s1 = Some (bs, t)" "k = le_dec bs" by (auto simp: n_def)
    have "k < 256 ^ n" "length s1 = n + length t" using read_data_consumes [OF b(1)] le_dec_bound [of bs] b(2) by auto
    moreover have "n \<in> {2, 4, 8}" by (simp add: n_def)
    ultimately show ?thesis using s1 by (auto simp: WriteCompactSize_def)
  qed
qed

lemma read_blocks_consumes: "read_blocks k s = Some (bs, t) \<Longrightarrow> length bs = k \<and> k + length t = length s"
proof (induction k s arbitrary: bs t rule: read_blocks.induct)
  case (1 k s)
  show ?case
  proof (cases "k = 0")
    case False
    with "1.prems" obtain cs s1 ds where c: "read_data (min k 5000000) s = Some (cs, s1)"
      "read_blocks (k - min k 5000000) s1 = Some (ds, t)" "bs = cs @ ds"
      by (subst (asm) read_blocks.simps) (auto split: bind_splits)
    from "1.IH" [OF False c(1) refl c(2)] read_data_consumes [OF c(1)] c(3) show ?thesis by auto
  qed (use "1.prems" in \<open>simp add: read_blocks.simps\<close>)
qed

locale codec =
  fixes ser :: "'a \<Rightarrow> u8 list" and de :: "'a reader" and sz :: "'a \<Rightarrow> u32" and ok :: "'a \<Rightarrow> bool"
  assumes round_trip: "ok x \<Longrightarrow> de (ser x @ s) = Some (x, s)"
    and size: "ok x \<Longrightarrow> sz x = of_nat (length (ser x))"
    and consumes: "de s = Some (x, t) \<Longrightarrow> length (ser x) + length t \<le> length s"
begin

lemma prefix_free:
  assumes "ok x" and "ok y" and "ser x @ s = ser y @ t"
  shows "x = y \<and> s = t"
proof -
  have "de (ser x @ s) = Some (x, s)" by (rule round_trip) (rule assms)
  moreover have "de (ser x @ s) = Some (y, t)" unfolding assms(3) by (rule round_trip) (rule assms)
  ultimately show ?thesis by simp
qed

lemma list_round_trip:
  "list_all ok xs \<Longrightarrow> read_list de (length xs) (concat (map ser xs) @ s) = Some (xs, s)"
  by (induction xs) (simp_all add: round_trip)

lemma list_size: "list_all ok xs \<Longrightarrow> sum_list (map sz xs) = of_nat (length (concat (map ser xs)))"
  by (induction xs) (simp_all add: size)

lemma list_consumes:
  "read_list de k s = Some (xs, t) \<Longrightarrow> length xs = k \<and> length (concat (map ser xs)) + length t \<le> length s"
proof (induction k arbitrary: s xs)
  case (Suc k)
  then obtain x s1 ys where x: "de s = Some (x, s1)" "read_list de k s1 = Some (ys, t)" "xs = x # ys"
    by (auto split: bind_splits)
  from Suc.IH [OF x(2)] consumes [OF x(1)] x(3) show ?case by simp
qed simp

lemma vec_consumes:
  assumes "de_vec de s = Some (xs, t)"
  shows "length (ser_vec ser xs) + length t \<le> length s"
proof -
  from assms obtain k s1 where "ReadCompactSize s = Some (k, s1)" "read_list de k s1 = Some (xs, t)"
    by (auto simp: de_vec_def split: bind_splits)
  with compact_size_consumes list_consumes show ?thesis by (fastforce simp: ser_vec_def)
qed

lemma vec_codec: "codec (ser_vec ser) (de_vec de) (size_vec sz) (vec_ok ok)"
  by unfold_locales
    (simp_all add: vec_consumes, simp_all add: ser_vec_def de_vec_def size_vec_def vec_ok_def compact_size_round_trip
      list_round_trip compact_size_size list_size)

end

lemma bytes_consume:
  assumes "de_bytes s = Some (bs, t)"
  shows "length (ser_bytes bs) + length t \<le> length s"
proof -
  from assms obtain k s1 where "ReadCompactSize s = Some (k, s1)" "read_blocks k s1 = Some (bs, t)"
    by (auto simp: de_bytes_def split: bind_splits)
  with compact_size_consumes read_blocks_consumes show ?thesis by (fastforce simp: ser_bytes_def)
qed

interpretation bytes: codec ser_bytes de_bytes size_bytes "\<lambda>v. length v \<le> MAX_SIZE"
  by unfold_locales
    (simp_all add: bytes_consume, simp_all add: ser_bytes_def de_bytes_def size_bytes_def compact_size_round_trip
      read_blocks_append compact_size_size)

lemma int_codec:
  assumes "8 * k = LENGTH('a :: len)"
  shows "codec (ser_int k :: 'a word \<Rightarrow> u8 list) (de_int k) (\<lambda>_. of_nat k) (\<lambda>_. True)"
proof
  fix x :: "'a word" and s
  have "(256 :: nat) ^ k = 2 ^ (8 * k)" by (simp add: power_mult)
  then have "unat x < 256 ^ k" using unat_less_2p [of x] assms by simp
  then show "de_int k (ser_int k x @ s) = Some (x, s)"
    by (simp add: ser_int_def de_int_def le_dec_enc_less)
  show "of_nat k = of_nat (length (ser_int k x))" by (simp add: ser_int_def)
  fix t assume "de_int k s = Some (x, t)"
  then show "length (ser_int k x) + length t \<le> length s"
    by (auto simp: de_int_def ser_int_def dest: read_data_consumes)
qed

end
