(* ===== verification/Script_Eval.thy ===== *)
theory Script_Eval
  imports Script
begin

text \<open>
  The script interpreter of \<^verbatim>\<open>server/script.cpp\<close>: \<open>EvalScript\<close>, the check of witness programs
  and \<open>VerifyScript\<close>.  The vectors \<open>stack\<close>, \<open>altstack\<close> and \<open>vfExec\<close> are lists whose head is the
  back of the vector, so that \<^verbatim>\<open>stacktop(-i)\<close> is the element \<open>i - 1\<close>.  The branches of the opcodes
  which the interpreter refuses before its switch are dead code and not modelled.

  The hash functions, the signature check of the transaction (\<open>CSignature::CheckSig\<close>) and the
  functions of the elliptic curve library are the fields of the environment \<open>senv\<close>.  So is
  \<open>front_of_empty\<close>: whether \<^verbatim>\<open>&v[0]\<close> of an empty vector can be passed on with a length of zero.  C++
  leaves it undefined; a library whose vectors do not check the index makes a pointer of it that
  is never followed.
\<close>

section \<open>Environment, state and results\<close>

record senv =
  bn :: bnlib
  RIPEMD160 :: "u8 list \<Rightarrow> u8 list"
  SHA1 :: "u8 list \<Rightarrow> u8 list"
  SHA256 :: "u8 list \<Rightarrow> u8 list"
  CheckSig :: "valtype \<Rightarrow> valtype \<Rightarrow> script \<Rightarrow> nat \<Rightarrow> bool"
  parse_der_lax :: "u8 list \<Rightarrow> u8 list option"
  needs_normalize :: "u8 list \<Rightarrow> bool"
  front_of_empty :: bool

text \<open>
  \<open>Hash160\<close> takes \<^verbatim>\<open>&vch[0]\<close>: its value is used for a vector that is not empty, or where
  \<open>front_of_empty\<close> holds; \<open>op_hash\<close> makes the distinction, all other callers hash keys of at least 33
  bytes and scripts that are not empty.
\<close>

definition Hash160 :: "senv \<Rightarrow> u8 list \<Rightarrow> u8 list" where
  "Hash160 E vch = RIPEMD160 E (SHA256 E vch)"

definition Hash :: "senv \<Rightarrow> u8 list \<Rightarrow> u8 list" where
  "Hash E vch = SHA256 E (SHA256 E vch)"

record smachine =
  stack :: "valtype list"
  altstack :: "valtype list"
  vfExec :: "bool list"
  nOpCount :: nat
  pbegincodehash :: script

text \<open>
  The outcomes of a function that returns a \<open>bool\<close>: \<open>Fail\<close> is false (also after an exception,
  which the interpreter catches), \<open>Ok\<close> is true with the new state, and \<open>Undef\<close> is an execution
  that the language leaves undefined.
\<close>

datatype 'a outcome = Undef | Fail | Ok 'a

definition SIGVERSION_BASE :: nat where "SIGVERSION_BASE = 0"
definition SIGVERSION_WITNESS_V0 :: nat where "SIGVERSION_WITNESS_V0 = 1"
definition SCRIPT_VERIFY_LOW_S :: u32 where "SCRIPT_VERIFY_LOW_S = push_bit 3 1"
definition SCRIPT_VERIFY_SIGPUSHONLY :: u32 where "SCRIPT_VERIFY_SIGPUSHONLY = push_bit 5 1"
definition SCRIPT_VERIFY_WITNESS :: u32 where "SCRIPT_VERIFY_WITNESS = push_bit 11 1"
definition SCRIPT_VERIFY_DISCOURAGE_UPGRADABLE_WITNESS_PROGRAM :: u32 where
  "SCRIPT_VERIFY_DISCOURAGE_UPGRADABLE_WITNESS_PROGRAM = push_bit 12 1"
definition SCRIPT_VERIFY_MINIMALIF :: u32 where "SCRIPT_VERIFY_MINIMALIF = push_bit 13 1"

lemmas sv_defs = SIGVERSION_BASE_def SIGVERSION_WITNESS_V0_def SCRIPT_VERIFY_LOW_S_def
  SCRIPT_VERIFY_SIGPUSHONLY_def SCRIPT_VERIFY_WITNESS_def
  SCRIPT_VERIFY_DISCOURAGE_UPGRADABLE_WITNESS_PROGRAM_def SCRIPT_VERIFY_MINIMALIF_def

definition vchFalse :: valtype where "vchFalse = []"
definition vchTrue :: valtype where "vchTrue = [1]"

definition vch_bool :: "bool \<Rightarrow> valtype" where
  "vch_bool f = (if f then vchTrue else vchFalse)"

definition bn_bool :: "bool \<Rightarrow> int" where
  "bn_bool f = (if f then 1 else 0)"

text \<open>An operation that touches nothing but the stack.\<close>

definition on_stack :: "(valtype list \<Rightarrow> valtype list option) \<Rightarrow> smachine \<Rightarrow> smachine outcome" where
  "on_stack f st = (case f (stack st) of None \<Rightarrow> Fail | Some s \<Rightarrow> Ok (st\<lparr>stack := s\<rparr>))"

section \<open>Control\<close>

definition op_value :: "senv \<Rightarrow> nat \<Rightarrow> valtype list \<Rightarrow> valtype list option" where
  "op_value E opcode s = Some (getvch (bn E) (int opcode - int (OP_1 - 1)) # s)"

definition op_if :: "nat \<Rightarrow> u32 \<Rightarrow> bool \<Rightarrow> nat \<Rightarrow> smachine \<Rightarrow> smachine outcome" where
  "op_if sigver flags fExec opcode st =
     (if fExec then
        (case stack st of [] \<Rightarrow> Fail
         | vch # s \<Rightarrow>
             if sigver = SIGVERSION_WITNESS_V0 \<and> flags AND SCRIPT_VERIFY_MINIMALIF \<noteq> 0 \<and>
                (length vch > 1 \<or> length vch = 1 \<and> vch ! 0 \<noteq> 1) then Fail
             else let fValue = CastToBool vch;
                      fValue = (if opcode = OP_NOTIF then \<not> fValue else fValue)
                  in Ok (st\<lparr>stack := s, vfExec := fValue # vfExec st\<rparr>))
      else Ok (st\<lparr>vfExec := False # vfExec st\<rparr>))"

definition op_else :: "smachine \<Rightarrow> smachine outcome" where
  "op_else st = (case vfExec st of [] \<Rightarrow> Fail | f # fs \<Rightarrow> Ok (st\<lparr>vfExec := (\<not> f) # fs\<rparr>))"

definition op_endif :: "smachine \<Rightarrow> smachine outcome" where
  "op_endif st = (case vfExec st of [] \<Rightarrow> Fail | f # fs \<Rightarrow> Ok (st\<lparr>vfExec := fs\<rparr>))"

fun op_verify :: "valtype list \<Rightarrow> valtype list option" where
  "op_verify [] = None"
| "op_verify (vch # s) = (if CastToBool vch then Some s else None)"

section \<open>Stack\<close>

definition op_toalt :: "smachine \<Rightarrow> smachine outcome" where
  "op_toalt st = (case stack st of [] \<Rightarrow> Fail
     | vch # s \<Rightarrow> Ok (st\<lparr>stack := s, altstack := vch # altstack st\<rparr>))"

definition op_fromalt :: "smachine \<Rightarrow> smachine outcome" where
  "op_fromalt st = (case altstack st of [] \<Rightarrow> Fail
     | vch # s \<Rightarrow> Ok (st\<lparr>stack := vch # stack st, altstack := s\<rparr>))"

fun op_2drop :: "valtype list \<Rightarrow> valtype list option" where
  "op_2drop (x2 # x1 # s) = Some s" | "op_2drop s = None"

fun op_2dup :: "valtype list \<Rightarrow> valtype list option" where
  "op_2dup (x2 # x1 # s) = Some (x2 # x1 # x2 # x1 # s)" | "op_2dup s = None"

fun op_3dup :: "valtype list \<Rightarrow> valtype list option" where
  "op_3dup (x3 # x2 # x1 # s) = Some (x3 # x2 # x1 # x3 # x2 # x1 # s)" | "op_3dup s = None"

fun op_2over :: "valtype list \<Rightarrow> valtype list option" where
  "op_2over (x4 # x3 # x2 # x1 # s) = Some (x2 # x1 # x4 # x3 # x2 # x1 # s)" | "op_2over s = None"

fun op_2rot :: "valtype list \<Rightarrow> valtype list option" where
  "op_2rot (x6 # x5 # x4 # x3 # x2 # x1 # s) = Some (x2 # x1 # x6 # x5 # x4 # x3 # s)" | "op_2rot s = None"

fun op_2swap :: "valtype list \<Rightarrow> valtype list option" where
  "op_2swap (x4 # x3 # x2 # x1 # s) = Some (x2 # x1 # x4 # x3 # s)" | "op_2swap s = None"

fun op_ifdup :: "valtype list \<Rightarrow> valtype list option" where
  "op_ifdup (x # s) = Some (if CastToBool x then x # x # s else x # s)" | "op_ifdup [] = None"

definition op_depth :: "senv \<Rightarrow> valtype list \<Rightarrow> valtype list option" where
  "op_depth E s = Some (getvch (bn E) (int (length s)) # s)"

fun op_drop :: "valtype list \<Rightarrow> valtype list option" where
  "op_drop (x # s) = Some s" | "op_drop [] = None"

fun op_dup :: "valtype list \<Rightarrow> valtype list option" where
  "op_dup (x # s) = Some (x # x # s)" | "op_dup [] = None"

fun op_nip :: "valtype list \<Rightarrow> valtype list option" where
  "op_nip (x2 # x1 # s) = Some (x2 # s)" | "op_nip s = None"

fun op_over :: "valtype list \<Rightarrow> valtype list option" where
  "op_over (x2 # x1 # s) = Some (x1 # x2 # x1 # s)" | "op_over s = None"

definition op_pick_roll :: "senv \<Rightarrow> nat \<Rightarrow> valtype list \<Rightarrow> valtype list option" where
  "op_pick_roll E opcode st =
     (if length st < 2 then None
      else case CastToBigNum (bn E) (hd st) of None \<Rightarrow> None
      | Some b \<Rightarrow>
          let n = getint (bn E) b; s = tl st in
          if n < 0 \<or> n \<ge> int (length s) then None
          else let vch = s ! nat n in
            Some (vch # (if opcode = OP_ROLL then take (nat n) s @ drop (nat n + 1) s else s)))"

fun op_rot :: "valtype list \<Rightarrow> valtype list option" where
  "op_rot (x3 # x2 # x1 # s) = Some (x1 # x3 # x2 # s)" | "op_rot s = None"

fun op_swap :: "valtype list \<Rightarrow> valtype list option" where
  "op_swap (x2 # x1 # s) = Some (x1 # x2 # s)" | "op_swap s = None"

fun op_tuck :: "valtype list \<Rightarrow> valtype list option" where
  "op_tuck (x2 # x1 # s) = Some (x2 # x1 # x2 # s)" | "op_tuck s = None"

fun op_size :: "senv \<Rightarrow> valtype list \<Rightarrow> valtype list option" where
  "op_size E (x # s) = Some (getvch (bn E) (int (length x)) # x # s)" | "op_size E [] = None"

fun op_equal :: "nat \<Rightarrow> valtype list \<Rightarrow> valtype list option" where
  "op_equal opcode (x2 # x1 # s) =
     (let fEqual = (x1 = x2) in
      if opcode = OP_EQUALVERIFY then (if fEqual then Some s else None)
      else Some (vch_bool fEqual # s))"
| "op_equal opcode s = None"

section \<open>Numbers\<close>

definition bn_unary :: "nat \<Rightarrow> int \<Rightarrow> int" where
  "bn_unary opcode b =
     (if opcode = OP_1ADD then b + 1
      else if opcode = OP_1SUB then b - 1
      else if opcode = OP_NEGATE then - b
      else if opcode = OP_ABS then (if b < 0 then - b else b)
      else if opcode = OP_NOT then bn_bool (b = 0)
      else bn_bool (b \<noteq> 0))"

fun op_unary :: "senv \<Rightarrow> nat \<Rightarrow> valtype list \<Rightarrow> valtype list option" where
  "op_unary E opcode [] = None"
| "op_unary E opcode (x # s) =
     (case CastToBigNum (bn E) x of None \<Rightarrow> None
      | Some b \<Rightarrow> Some (getvch (bn E) (bn_unary opcode b) # s))"

definition bn_binary :: "nat \<Rightarrow> int \<Rightarrow> int \<Rightarrow> int" where
  "bn_binary opcode b1 b2 =
     (if opcode = OP_ADD then b1 + b2
      else if opcode = OP_SUB then b1 - b2
      else if opcode = OP_BOOLAND then bn_bool (b1 \<noteq> 0 \<and> b2 \<noteq> 0)
      else if opcode = OP_BOOLOR then bn_bool (b1 \<noteq> 0 \<or> b2 \<noteq> 0)
      else if opcode = OP_NUMEQUAL \<or> opcode = OP_NUMEQUALVERIFY then bn_bool (b1 = b2)
      else if opcode = OP_NUMNOTEQUAL then bn_bool (b1 \<noteq> b2)
      else if opcode = OP_LESSTHAN then bn_bool (b1 < b2)
      else if opcode = OP_GREATERTHAN then bn_bool (b1 > b2)
      else if opcode = OP_LESSTHANOREQUAL then bn_bool (b1 \<le> b2)
      else if opcode = OP_GREATERTHANOREQUAL then bn_bool (b1 \<ge> b2)
      else if opcode = OP_MIN then (if b1 < b2 then b1 else b2)
      else (if b1 > b2 then b1 else b2))"

fun op_binary :: "senv \<Rightarrow> nat \<Rightarrow> valtype list \<Rightarrow> valtype list option" where
  "op_binary E opcode (x2 # x1 # s) =
     (case (CastToBigNum (bn E) x1, CastToBigNum (bn E) x2) of
        (Some b1, Some b2) \<Rightarrow>
          let vch = getvch (bn E) (bn_binary opcode b1 b2) in
          if opcode = OP_NUMEQUALVERIFY then (if CastToBool vch then Some s else None)
          else Some (vch # s)
      | _ \<Rightarrow> None)"
| "op_binary E opcode s = None"

fun op_within :: "senv \<Rightarrow> valtype list \<Rightarrow> valtype list option" where
  "op_within E (x3 # x2 # x1 # s) =
     (case (CastToBigNum (bn E) x1, CastToBigNum (bn E) x2, CastToBigNum (bn E) x3) of
        (Some b1, Some b2, Some b3) \<Rightarrow> Some (vch_bool (b2 \<le> b1 \<and> b1 < b3) # s)
      | _ \<Rightarrow> None)"
| "op_within E s = None"

section \<open>Hashes and signatures\<close>

text \<open>Only \<open>OP_HASH256\<close> hashes through iterators; the others take the address of the first byte.\<close>

definition op_hash :: "senv \<Rightarrow> nat \<Rightarrow> smachine \<Rightarrow> smachine outcome" where
  "op_hash E opcode st =
     (case stack st of
        [] \<Rightarrow> Fail
      | vch # s \<Rightarrow>
          if vch = [] \<and> opcode \<noteq> OP_HASH256 \<and> \<not> front_of_empty E then Undef
          else Ok (st\<lparr>stack := (if opcode = OP_RIPEMD160 then RIPEMD160 E vch
                              else if opcode = OP_SHA1 then SHA1 E vch
                              else if opcode = OP_SHA256 then SHA256 E vch
                              else if opcode = OP_HASH160 then Hash160 E vch
                              else Hash E vch) # s\<rparr>))"

definition CheckLowS :: "senv \<Rightarrow> valtype \<Rightarrow> bool" where
  "CheckLowS E vchSig =
     (if length vchSig = 0 then True
      else case parse_der_lax E vchSig of None \<Rightarrow> False
      | Some sig \<Rightarrow> \<not> needs_normalize E sig)"

text \<open>
  With \<open>SCRIPT_VERIFY_LOW_S\<close> a copy of the signature without its last byte is made from the
  iterators \<^verbatim>\<open>begin()\<close> and \<^verbatim>\<open>begin() + size() - 1\<close>; for an empty signature the second one lies
  before the first.
\<close>

definition op_checksig :: "senv \<Rightarrow> nat \<Rightarrow> u32 \<Rightarrow> nat \<Rightarrow> smachine \<Rightarrow> smachine outcome" where
  "op_checksig E sigver flags opcode st =
     (case stack st of
        vchPubKey # vchSig # s \<Rightarrow>
          let scriptCode = (if sigver = SIGVERSION_BASE then FindAndDelete (push_vch vchSig) (pbegincodehash st)
                            else pbegincodehash st);
              low_s = flags AND SCRIPT_VERIFY_LOW_S \<noteq> 0 in
          if low_s \<and> vchSig = [] then Undef
          else if low_s \<and> \<not> CheckLowS E (butlast vchSig) then Fail
          else let fSuccess = CheckSig E vchSig vchPubKey scriptCode sigver in
            if opcode = OP_CHECKSIGVERIFY then (if fSuccess then Ok (st\<lparr>stack := s\<rparr>) else Fail)
            else Ok (st\<lparr>stack := vch_bool fSuccess # s\<rparr>)
      | _ \<Rightarrow> Fail)"

text \<open>
  The loop over the signatures: \<open>isig\<close> and \<open>ikey\<close> are the distances of the current signature and
  key from the top of the stack.
\<close>

function multisig_loop :: "(valtype \<Rightarrow> valtype \<Rightarrow> bool) \<Rightarrow> valtype list \<Rightarrow> nat \<Rightarrow> nat \<Rightarrow> nat \<Rightarrow> nat \<Rightarrow> bool" where
  "multisig_loop chk s isig ikey nSigsCount nKeysCount =
     (if nSigsCount = 0 then True
      else let ok = chk (s ! (isig - 1)) (s ! (ikey - 1));
               isig' = (if ok then isig + 1 else isig);
               nSigs' = (if ok then nSigsCount - 1 else nSigsCount);
               nKeys' = nKeysCount - 1
           in if nSigs' > nKeys' then False else multisig_loop chk s isig' (ikey + 1) nSigs' nKeys')"
  by pat_completeness auto
termination
  by (relation "measure (\<lambda>(chk, s, isig, ikey, nSigs, nKeys). nSigs + nKeys)") (auto split: if_splits)

declare multisig_loop.simps [simp del]

definition multisig_code :: "nat \<Rightarrow> valtype list \<Rightarrow> script \<Rightarrow> script" where
  "multisig_code sigver sigs code =
     (if sigver = SIGVERSION_BASE then fold (\<lambda>vchSig c. FindAndDelete (push_vch vchSig) c) sigs code else code)"

definition op_multisig :: "senv \<Rightarrow> nat \<Rightarrow> nat \<Rightarrow> smachine \<Rightarrow> smachine outcome" where
  "op_multisig E sigver opcode st =
     (let s = stack st in
      if length s < 1 then Fail
      else case CastToBigNum (bn E) (s ! 0) of None \<Rightarrow> Fail
      | Some bk \<Rightarrow>
          let nKeys = getint (bn E) bk in
          if nKeys < 0 \<or> nKeys > 20 then Fail
          else let nKeysCount = nat nKeys; nOps = nOpCount st + nKeysCount in
          if nOps > 201 then Fail
          else let ikey = 2; i = 2 + nKeysCount in
          if length s < i then Fail
          else case CastToBigNum (bn E) (s ! (i - 1)) of None \<Rightarrow> Fail
          | Some bs \<Rightarrow>
              let nSigs = getint (bn E) bs in
              if nSigs < 0 \<or> nSigs > nKeys then Fail
              else let nSigsCount = nat nSigs; isig = i + 1; i = i + 1 + nSigsCount in
              if length s < i then Fail
              else let scriptCode = multisig_code sigver (map (\<lambda>k. s ! (isig + k - 1)) [0..<nSigsCount]) (pbegincodehash st);
                       fSuccess = multisig_loop (\<lambda>sg k. CheckSig E sg k scriptCode sigver) s isig ikey nSigsCount nKeysCount;
                       st' = st\<lparr>nOpCount := nOps\<rparr> in
                if opcode = OP_CHECKMULTISIGVERIFY then
                  (if fSuccess then Ok (st'\<lparr>stack := drop i s\<rparr>) else Fail)
                else Ok (st'\<lparr>stack := vch_bool fSuccess # drop i s\<rparr>))"

section \<open>The interpreter\<close>

text \<open>The opcodes from \<open>OP_2DROP\<close> to \<open>OP_TUCK\<close>.\<close>

definition stack_op :: "senv \<Rightarrow> nat \<Rightarrow> valtype list \<Rightarrow> valtype list option" where
  "stack_op E opcode =
     (if opcode = OP_2DROP then op_2drop
      else if opcode = OP_2DUP then op_2dup
      else if opcode = OP_3DUP then op_3dup
      else if opcode = OP_2OVER then op_2over
      else if opcode = OP_2ROT then op_2rot
      else if opcode = OP_2SWAP then op_2swap
      else if opcode = OP_IFDUP then op_ifdup
      else if opcode = OP_DEPTH then op_depth E
      else if opcode = OP_DROP then op_drop
      else if opcode = OP_DUP then op_dup
      else if opcode = OP_NIP then op_nip
      else if opcode = OP_OVER then op_over
      else if opcode = OP_PICK \<or> opcode = OP_ROLL then op_pick_roll E opcode
      else if opcode = OP_ROT then op_rot
      else if opcode = OP_SWAP then op_swap
      else op_tuck)"

definition disabled_op :: "nat \<Rightarrow> bool" where
  "disabled_op opcode \<longleftrightarrow> opcode \<in> {OP_CAT, OP_SUBSTR, OP_LEFT, OP_RIGHT, OP_INVERT, OP_AND, OP_OR, OP_XOR,
     OP_2MUL, OP_2DIV, OP_MUL, OP_DIV, OP_MOD, OP_LSHIFT, OP_RSHIFT}"

text \<open>The switch; \<open>pc\<close> is the iterator behind the instruction.\<close>

definition exec_op :: "senv \<Rightarrow> nat \<Rightarrow> u32 \<Rightarrow> bool \<Rightarrow> nat \<Rightarrow> script \<Rightarrow> smachine \<Rightarrow> smachine outcome" where
  "exec_op E sigver flags fExec opcode pc st =
     (if opcode = OP_1NEGATE \<or> OP_1 \<le> opcode \<and> opcode \<le> OP_16 then on_stack (op_value E opcode) st
      else if opcode = OP_NOP \<or> OP_NOP1 \<le> opcode \<and> opcode \<le> OP_NOP10 then Ok st
      else if opcode = OP_IF \<or> opcode = OP_NOTIF then op_if sigver flags fExec opcode st
      else if opcode = OP_ELSE then op_else st
      else if opcode = OP_ENDIF then op_endif st
      else if opcode = OP_VERIFY then on_stack op_verify st
      else if opcode = OP_RETURN then Fail
      else if opcode = OP_TOALTSTACK then op_toalt st
      else if opcode = OP_FROMALTSTACK then op_fromalt st
      else if OP_2DROP \<le> opcode \<and> opcode \<le> OP_TUCK then on_stack (stack_op E opcode) st
      else if opcode = OP_SIZE then on_stack (op_size E) st
      else if opcode = OP_EQUAL \<or> opcode = OP_EQUALVERIFY then on_stack (op_equal opcode) st
      else if opcode \<in> {OP_1ADD, OP_1SUB, OP_NEGATE, OP_ABS, OP_NOT, OP_0NOTEQUAL} then on_stack (op_unary E opcode) st
      else if opcode = OP_ADD \<or> opcode = OP_SUB \<or> OP_BOOLAND \<le> opcode \<and> opcode \<le> OP_MAX
        then on_stack (op_binary E opcode) st
      else if opcode = OP_WITHIN then on_stack (op_within E) st
      else if OP_RIPEMD160 \<le> opcode \<and> opcode \<le> OP_HASH256 then op_hash E opcode st
      else if opcode = OP_CODESEPARATOR then Ok (st\<lparr>pbegincodehash := pc\<rparr>)
      else if opcode = OP_CHECKSIG \<or> opcode = OP_CHECKSIGVERIFY then op_checksig E sigver flags opcode st
      else if opcode = OP_CHECKMULTISIG \<or> opcode = OP_CHECKMULTISIGVERIFY then op_multisig E sigver opcode st
      else if opcode \<ge> 0xf0 \<and> opcode \<le> 0xf9 then Ok st
      else Fail)"

text \<open>One turn of the loop for the instruction \<open>(opcode, vchPushValue)\<close>.\<close>

definition step_op :: "senv \<Rightarrow> nat \<Rightarrow> u32 \<Rightarrow> nat \<Rightarrow> valtype \<Rightarrow> script \<Rightarrow> smachine \<Rightarrow> smachine outcome" where
  "step_op E sigver flags opcode vchPushValue pc st =
     (let fExec = (False \<notin> set (vfExec st));
          st1 = (if opcode > OP_16 then st\<lparr>nOpCount := nOpCount st + 1\<rparr> else st) in
      if length vchPushValue > 520 then Fail
      else if opcode > OP_16 \<and> nOpCount st1 > 201 then Fail
      else if disabled_op opcode then Fail
      else case (if fExec \<and> opcode \<le> OP_PUSHDATA4 then Ok (st1\<lparr>stack := vchPushValue # stack st1\<rparr>)
                 else if fExec \<or> OP_IF \<le> opcode \<and> opcode \<le> OP_ENDIF then exec_op E sigver flags fExec opcode pc st1
                 else Ok st1) of
        Ok st2 \<Rightarrow> if length (stack st2) + length (altstack st2) > 1000 then Fail else Ok st2
      | r \<Rightarrow> r)"

function run_script :: "senv \<Rightarrow> nat \<Rightarrow> u32 \<Rightarrow> script \<Rightarrow> smachine \<Rightarrow> smachine outcome" where
  "run_script E sigver flags pc st =
     (if pc = [] then Ok st
      else case GetOp pc of None \<Rightarrow> Fail
      | Some (opcode, vch, pc') \<Rightarrow>
          (case step_op E sigver flags opcode vch pc' st of
             Ok st' \<Rightarrow> run_script E sigver flags pc' st'
           | r \<Rightarrow> r))"
  by pat_completeness auto
termination
  by (relation "measure (\<lambda>(E, sigver, flags, pc, st). length pc)") (auto dest: GetOp_shrinks)

declare run_script.simps [simp del]

definition EvalScript :: "senv \<Rightarrow> valtype list \<Rightarrow> script \<Rightarrow> nat \<Rightarrow> u32 \<Rightarrow> valtype list outcome" where
  "EvalScript E stk script sigver flags =
     (if length script > 10000 then Fail
      else case run_script E sigver flags script
             \<lparr>stack = stk, altstack = [], vfExec = [], nOpCount = 0, pbegincodehash = script\<rparr> of
        Undef \<Rightarrow> Undef
      | Fail \<Rightarrow> Fail
      | Ok st \<Rightarrow> if vfExec st \<noteq> [] then Fail else Ok (stack st))"

section \<open>Verifying the script of an input\<close>

definition MAX_SCRIPT_ELEMENT_SIZE :: nat where "MAX_SCRIPT_ELEMENT_SIZE = 520"

text \<open>
  The witness is a vector as it is, its first element at the head; the stack starts as its
  reverse.
\<close>

definition witness_script :: "senv \<Rightarrow> valtype list \<Rightarrow> nat \<Rightarrow> valtype \<Rightarrow> u32 \<Rightarrow> (script \<times> valtype list) option" where
  "witness_script E witness witversion program flags =
     (if witversion = 0 then
        (if length program = 32 then
           (if length witness = 0 then None
            else if Hash E (last witness) \<noteq> program then None
            else Some (last witness, rev (butlast witness)))
         else if length program = 20 then
           (if length witness \<noteq> 2 then None
            else Some (push_op OP_DUP @ push_op OP_HASH160 @ push_vch program @ push_op OP_EQUALVERIFY @
                         push_op OP_CHECKSIG, rev witness))
         else None)
      else if flags AND SCRIPT_VERIFY_DISCOURAGE_UPGRADABLE_WITNESS_PROGRAM \<noteq> 0 then None
      else None)"

definition VerifyWitnessProgram :: "senv \<Rightarrow> valtype list \<Rightarrow> nat \<Rightarrow> valtype \<Rightarrow> u32 \<Rightarrow> unit outcome" where
  "VerifyWitnessProgram E witness witversion program flags =
     (case witness_script E witness witversion program flags of None \<Rightarrow> Fail
      | Some (scriptPubKey, stk) \<Rightarrow>
          if \<exists>vch\<in>set stk. length vch > MAX_SCRIPT_ELEMENT_SIZE then Fail
          else case EvalScript E stk scriptPubKey SIGVERSION_WITNESS_V0 (SCRIPT_VERIFY_MINIMALIF OR flags) of
            Undef \<Rightarrow> Undef
          | Fail \<Rightarrow> Fail
          | Ok s \<Rightarrow> if length s \<noteq> 1 then Fail else if \<not> CastToBool (hd s) then Fail else Ok ())"

text \<open>
  The part of \<open>VerifyScript\<close> behind the evaluation of both scripts for a bare witness program:
  the result tells whether there was one.
\<close>

definition verify_bare_witness :: "senv \<Rightarrow> script \<Rightarrow> valtype list \<Rightarrow> script \<Rightarrow> u32 \<Rightarrow> bool outcome" where
  "verify_bare_witness E scriptSig witness scriptPubKey flags =
     (if flags AND SCRIPT_VERIFY_WITNESS = 0 then Ok False
      else case IsWitnessProgram scriptPubKey of None \<Rightarrow> Ok False
      | Some (version, program) \<Rightarrow>
          if length scriptSig \<noteq> 0 then Fail
          else case VerifyWitnessProgram E witness version program flags of
            Undef \<Rightarrow> Undef | Fail \<Rightarrow> Fail | Ok _ \<Rightarrow> Ok True)"

text \<open>
  The part for pay-to-script-hash; \<open>stackCopy.back()\<close> of an empty stack is undefined.
\<close>

definition verify_p2sh :: "senv \<Rightarrow> script \<Rightarrow> valtype list \<Rightarrow> valtype list \<Rightarrow> u32 \<Rightarrow> bool outcome" where
  "verify_p2sh E scriptSig witness stackCopy flags =
     (if \<not> IsPushOnly scriptSig then Fail
      else case stackCopy of [] \<Rightarrow> Undef
      | pubKey2 # stk \<Rightarrow>
          (case EvalScript E stk pubKey2 SIGVERSION_BASE 0 of
             Undef \<Rightarrow> Undef
           | Fail \<Rightarrow> Fail
           | Ok [] \<Rightarrow> Fail
           | Ok (vch # _) \<Rightarrow>
               if \<not> CastToBool vch then Fail
               else if flags AND SCRIPT_VERIFY_WITNESS = 0 then Ok False
               else case IsWitnessProgram pubKey2 of None \<Rightarrow> Ok False
               | Some (version, program) \<Rightarrow>
                   if scriptSig \<noteq> push_vch pubKey2 then Fail
                   else case VerifyWitnessProgram E witness version program flags of
                     Undef \<Rightarrow> Undef | Fail \<Rightarrow> Fail | Ok _ \<Rightarrow> Ok True))"

definition VerifyScript :: "senv \<Rightarrow> script \<Rightarrow> valtype list \<Rightarrow> script \<Rightarrow> bool \<Rightarrow> u32 \<Rightarrow> unit outcome" where
  "VerifyScript E scriptSig witness scriptPubKey fValidatePayToScriptHash flags =
     (if flags AND SCRIPT_VERIFY_SIGPUSHONLY \<noteq> 0 \<and> \<not> IsPushOnly scriptSig then Fail
      else case EvalScript E [] scriptSig SIGVERSION_BASE 0 of
        Undef \<Rightarrow> Undef
      | Fail \<Rightarrow> Fail
      | Ok stackCopy \<Rightarrow>
          (case EvalScript E stackCopy scriptPubKey SIGVERSION_BASE 0 of
             Undef \<Rightarrow> Undef
           | Fail \<Rightarrow> Fail
           | Ok [] \<Rightarrow> Fail
           | Ok (vch # _) \<Rightarrow>
               if \<not> CastToBool vch then Fail
               else case verify_bare_witness E scriptSig witness scriptPubKey flags of
                 Undef \<Rightarrow> Undef
               | Fail \<Rightarrow> Fail
               | Ok hadWitness \<Rightarrow>
                   (case (if fValidatePayToScriptHash \<and> IsPayToScriptHash scriptPubKey
                          then verify_p2sh E scriptSig witness stackCopy flags else Ok False) of
                      Undef \<Rightarrow> Undef
                    | Fail \<Rightarrow> Fail
                    | Ok hadWitness2 \<Rightarrow>
                        if flags AND SCRIPT_VERIFY_WITNESS \<noteq> 0 \<and> \<not> (hadWitness \<or> hadWitness2) \<and> witness \<noteq> []
                        then Fail else Ok ())))"

section \<open>What one instruction changes\<close>

lemma on_stack_Ok:
  "on_stack f st = Ok st' \<longleftrightarrow> (\<exists>s. f (stack st) = Some s \<and> st' = st\<lparr>stack := s\<rparr>)"
  by (auto simp: on_stack_def split: option.splits)

lemma on_stack_not_Undef [simp]: "on_stack f st \<noteq> Undef"
  by (auto simp: on_stack_def split: option.splits)

text \<open>\<open>keeps st r\<close>: the outcome leaves the stack of conditions of \<open>st\<close> and the limit of operations alone.\<close>

definition keeps :: "smachine \<Rightarrow> smachine outcome \<Rightarrow> bool" where
  "keeps st r \<longleftrightarrow> (\<forall>st'. r = Ok st' \<longrightarrow>
     vfExec st' = vfExec st \<and> nOpCount st \<le> nOpCount st' \<and> (nOpCount st' = nOpCount st \<or> nOpCount st' \<le> 201))"

lemma keeps_if: "(c \<Longrightarrow> keeps st a) \<Longrightarrow> (\<not> c \<Longrightarrow> keeps st b) \<Longrightarrow> keeps st (if c then a else b)"
  by simp

lemma keeps_ops:
  "keeps st Fail" "keeps st (Ok st)" "keeps st (on_stack f st)" "keeps st (Ok (st\<lparr>pbegincodehash := pc\<rparr>))"
  "keeps st (op_toalt st)" "keeps st (op_fromalt st)"
  by (auto simp: keeps_def on_stack_Ok op_toalt_def op_fromalt_def split: list.splits)

lemma keeps_checksig: "keeps st (op_checksig E sigver flags opcode st)"
  by (auto simp: keeps_def op_checksig_def Let_def split: list.splits if_splits)

lemma keeps_hash: "keeps st (op_hash E opcode st)"
  by (auto simp: keeps_def op_hash_def split: list.splits if_splits)

lemma keeps_multisig: "keeps st (op_multisig E sigver opcode st)"
  by (auto simp: keeps_def op_multisig_def Let_def split: option.splits if_splits)

text \<open>Only the four conditional opcodes change the stack of conditions.\<close>

lemma exec_op_frame:
  assumes "exec_op E sigver flags fExec opcode pc st = Ok st'" and "opcode \<notin> {0x63, 0x64, 0x67, 0x68}"
  shows "vfExec st' = vfExec st \<and> nOpCount st \<le> nOpCount st' \<and> (nOpCount st' = nOpCount st \<or> nOpCount st' \<le> 201)"
proof -
  have ne: "opcode \<noteq> 0x63" "opcode \<noteq> 0x64" "opcode \<noteq> 0x67" "opcode \<noteq> 0x68" using assms(2) by auto
  have "keeps st (exec_op E sigver flags fExec opcode pc st)"
    unfolding exec_op_def
    by (simp only: ne if_False simp_thms) (intro keeps_if keeps_ops keeps_checksig keeps_multisig keeps_hash)
  then show ?thesis using assms(1) unfolding keeps_def by blast
qed

lemma exec_op_cond:
  "exec_op E sigver flags fExec 0x63 pc st = op_if sigver flags fExec 0x63 st"
  "exec_op E sigver flags fExec 0x64 pc st = op_if sigver flags fExec 0x64 st"
  "exec_op E sigver flags fExec 0x67 pc st = op_else st"
  "exec_op E sigver flags fExec 0x68 pc st = op_endif st"
  by (simp_all add: exec_op_def)

text \<open>How many conditions are open after an opcode; \<open>None\<close> when it closes one that is not open.\<close>

definition depth_after :: "nat \<Rightarrow> nat \<Rightarrow> nat option" where
  "depth_after opcode d =
     (if opcode = OP_IF \<or> opcode = OP_NOTIF then Some (d + 1)
      else if opcode = OP_ENDIF then (if d = 0 then None else Some (d - 1))
      else if opcode = OP_ELSE then (if d = 0 then None else Some d)
      else Some d)"

lemma exec_op_depth:
  assumes "exec_op E sigver flags fExec opcode pc st = Ok st'"
  shows "depth_after opcode (length (vfExec st)) = Some (length (vfExec st'))"
proof (cases "opcode \<in> {0x63, 0x64, 0x67, 0x68}")
  case False
  then show ?thesis using exec_op_frame [OF assms] by (simp add: depth_after_def)
next
  case True
  then show ?thesis
    using assms
    by (auto simp: exec_op_cond op_if_def op_else_def op_endif_def depth_after_def Let_def
        split: list.splits if_splits)
qed

lemma exec_op_count:
  assumes "exec_op E sigver flags fExec opcode pc st = Ok st'"
  shows "nOpCount st \<le> nOpCount st' \<and> (nOpCount st' = nOpCount st \<or> nOpCount st' \<le> 201)"
proof (cases "opcode \<in> {0x63, 0x64, 0x67, 0x68}")
  case False
  then show ?thesis using exec_op_frame [OF assms] by simp
next
  case True
  then show ?thesis
    using assms
    by (auto simp: exec_op_cond op_if_def op_else_def op_endif_def Let_def split: list.splits if_splits)
qed

lemma op_checksig_defined:
  "flags AND SCRIPT_VERIFY_LOW_S = 0 \<Longrightarrow> op_checksig E sigver flags opcode st \<noteq> Undef"
  by (auto simp: op_checksig_def Let_def split: list.splits)

lemma op_multisig_defined: "op_multisig E sigver opcode st \<noteq> Undef"
  by (auto simp: op_multisig_def Let_def split: option.splits)

lemma op_hash_defined: "front_of_empty E \<Longrightarrow> op_hash E opcode st \<noteq> Undef"
  by (auto simp: op_hash_def split: list.splits)

lemma exec_op_defined:
  "front_of_empty E \<Longrightarrow> flags AND SCRIPT_VERIFY_LOW_S = 0 \<Longrightarrow> exec_op E sigver flags fExec opcode pc st \<noteq> Undef"
  using op_checksig_defined [of flags E sigver opcode st] op_multisig_defined [of E sigver opcode st]
    op_hash_defined [of E opcode st]
  unfolding exec_op_def
  by (auto simp: op_if_def op_else_def op_endif_def op_toalt_def op_fromalt_def Let_def split: list.splits)

section \<open>What every successful evaluation satisfies\<close>

text \<open>The instructions of a script, \<open>None\<close> when one of them cannot be read.\<close>

function decode :: "script \<Rightarrow> (nat \<times> valtype) list option" where
  "decode pc =
     (if pc = [] then Some []
      else case GetOp pc of None \<Rightarrow> None
      | Some (opcode, vch, pc') \<Rightarrow> map_option (Cons (opcode, vch)) (decode pc'))"
  by pat_completeness auto
termination by (relation "measure length") (auto dest: GetOp_shrinks)

declare decode.simps [simp del]

text \<open>
  Nesting of conditionals: \<open>depth_run\<close> follows the number of open conditions through a list of
  opcodes.
\<close>

fun depth_run :: "nat list \<Rightarrow> nat \<Rightarrow> nat option" where
  "depth_run [] d = Some d"
| "depth_run (opcode # ops) d = (case depth_after opcode d of None \<Rightarrow> None | Some d' \<Rightarrow> depth_run ops d')"

definition instr_ok :: "nat \<times> valtype \<Rightarrow> bool" where
  "instr_ok i \<longleftrightarrow> length (snd i) \<le> 520 \<and> \<not> disabled_op (fst i) \<and> fst i \<noteq> 0x65 \<and> fst i \<noteq> 0x66"

lemma step_op_Ok:
  assumes "step_op E sigver flags opcode vch pc st = Ok st'"
  shows "instr_ok (opcode, vch)"
    and "depth_after opcode (length (vfExec st)) = Some (length (vfExec st'))"
    and "nOpCount st + (if opcode > 0x60 then 1 else 0) \<le> nOpCount st'"
    and "nOpCount st \<le> 201 \<Longrightarrow> nOpCount st' \<le> 201"
    and "length (stack st') + length (altstack st') \<le> 1000"
proof -
  let ?fx = "False \<notin> set (vfExec st)"
  let ?st1 = "if opcode > 0x60 then st\<lparr>nOpCount := nOpCount st + 1\<rparr> else st"
  have g: "length vch \<le> 520" "\<not> disabled_op opcode" "opcode > 0x60 \<Longrightarrow> nOpCount st < 201"
    using assms by (auto simp: step_op_def Let_def split: if_splits)
  have size: "length (stack st') + length (altstack st') \<le> 1000"
    using assms by (auto simp: step_op_def Let_def split: if_splits outcome.splits)
  consider (push) "?fx" "opcode \<le> 0x4e" "st' = ?st1\<lparr>stack := vch # stack ?st1\<rparr>"
    | (exec) "?fx \<and> 0x4e < opcode \<or> 0x63 \<le> opcode \<and> opcode \<le> 0x68" "exec_op E sigver flags ?fx opcode pc ?st1 = Ok st'"
    | (skip) "\<not> (0x63 \<le> opcode \<and> opcode \<le> 0x68)" "st' = ?st1"
    using assms by (auto simp: step_op_def Let_def split: if_splits outcome.splits)
  then have "opcode \<noteq> 0x65 \<and> opcode \<noteq> 0x66 \<and> depth_after opcode (length (vfExec ?st1)) = Some (length (vfExec st')) \<and>
    nOpCount ?st1 \<le> nOpCount st' \<and> (nOpCount st' = nOpCount ?st1 \<or> nOpCount st' \<le> 201)"
  proof cases
    case push
    then show ?thesis by (simp add: depth_after_def)
  next
    case exec
    then have "opcode \<noteq> 0x65 \<and> opcode \<noteq> 0x66" by (auto simp: exec_op_def)
    with exec_op_depth [OF exec(2)] exec_op_count [OF exec(2)] show ?thesis by blast
  next
    case skip
    then have "opcode < 0x63 \<or> 0x68 < opcode" by linarith
    with skip(2) show ?thesis by (auto simp: depth_after_def)
  qed
  with g size show "instr_ok (opcode, vch)"
    and "depth_after opcode (length (vfExec st)) = Some (length (vfExec st'))"
    and "nOpCount st + (if opcode > 0x60 then 1 else 0) \<le> nOpCount st'"
    and "nOpCount st \<le> 201 \<Longrightarrow> nOpCount st' \<le> 201"
    and "length (stack st') + length (altstack st') \<le> 1000"
    by (auto simp: instr_ok_def split: if_splits)
qed

lemma run_script_Cons:
  assumes "GetOp pc = Some (opcode, vch, pc')"
  shows "run_script E sigver flags pc st =
    (case step_op E sigver flags opcode vch pc' st of Ok st' \<Rightarrow> run_script E sigver flags pc' st' | r \<Rightarrow> r)"
  using assms by (subst run_script.simps) auto

lemma run_script_Nil [simp]: "run_script E sigver flags [] st = Ok st"
  by (subst run_script.simps) simp

lemma run_script_Ok:
  assumes "run_script E sigver flags pc st = Ok st'" and "nOpCount st \<le> 201"
    and "length (stack st) + length (altstack st) \<le> 1000"
  shows "\<exists>is. decode pc = Some is \<and> (\<forall>i\<in>set is. instr_ok i) \<and>
    depth_run (map fst is) (length (vfExec st)) = Some (length (vfExec st')) \<and>
    nOpCount st + length (filter (\<lambda>i. fst i > 0x60) is) \<le> nOpCount st' \<and> nOpCount st' \<le> 201 \<and>
    length (stack st') + length (altstack st') \<le> 1000"
  using assms
proof (induction E sigver flags pc st rule: run_script.induct)
  case (1 E sigver flags pc st)
  show ?case
  proof (cases "pc = []")
    case True
    then show ?thesis using "1.prems" by (simp add: decode.simps)
  next
    case False
    with "1.prems"(1) obtain opcode vch pc' where g: "GetOp pc = Some (opcode, vch, pc')"
      by (subst (asm) run_script.simps) (auto split: option.splits)
    with "1.prems"(1) obtain st1 where s: "step_op E sigver flags opcode vch pc' st = Ok st1"
      and r: "run_script E sigver flags pc' st1 = Ok st'"
      by (auto simp: run_script_Cons split: outcome.splits)
    note step = step_op_Ok [OF s]
    from "1.IH" [OF False g refl refl s r step(4) step(5)] "1.prems"(2)
    obtain "is" where "decode pc' = Some is" "\<forall>i\<in>set is. instr_ok i"
      "depth_run (map fst is) (length (vfExec st1)) = Some (length (vfExec st'))"
      "nOpCount st1 + length (filter (\<lambda>i. fst i > 0x60) is) \<le> nOpCount st'" "nOpCount st' \<le> 201"
      "length (stack st') + length (altstack st') \<le> 1000" by blast
    with False g step(1-3) show ?thesis
      by (intro exI [of _ "(opcode, vch) # is"]) (auto simp: decode.simps [of pc] split: if_splits)
  qed
qed

lemma EvalScript_Ok:
  assumes "EvalScript E stk s sigver flags = Ok stk'"
  obtains st where "run_script E sigver flags s
      \<lparr>stack = stk, altstack = [], vfExec = [], nOpCount = 0, pbegincodehash = s\<rparr> = Ok st"
    and "vfExec st = []" and "stk' = stack st" and "length s \<le> 10000"
  using assms by (auto simp: EvalScript_def split: if_splits outcome.splits)

lemma EvalScript_limits:
  assumes "EvalScript E stk s sigver flags = Ok stk'" and "length stk \<le> 1000"
  shows "length s \<le> 10000 \<and> length stk' \<le> 1000 \<and>
    (\<exists>is. decode s = Some is \<and> (\<forall>i\<in>set is. instr_ok i) \<and> depth_run (map fst is) 0 = Some 0 \<and>
       length (filter (\<lambda>i. fst i > 0x60) is) \<le> 201)"
proof -
  obtain st where st: "run_script E sigver flags s
      \<lparr>stack = stk, altstack = [], vfExec = [], nOpCount = 0, pbegincodehash = s\<rparr> = Ok st"
    "vfExec st = []" "stk' = stack st" "length s \<le> 10000"
    using EvalScript_Ok [OF assms(1)] by blast
  from run_script_Ok [OF st(1)] assms(2) st(2-) show ?thesis by auto
qed

lemma step_op_defined:
  assumes "front_of_empty E" "flags AND SCRIPT_VERIFY_LOW_S = 0"
  shows "step_op E sigver flags opcode vch pc st \<noteq> Undef"
  using exec_op_defined [OF assms] by (auto simp: step_op_def Let_def split: outcome.splits)

lemma run_script_defined:
  assumes "front_of_empty E" "flags AND SCRIPT_VERIFY_LOW_S = 0"
  shows "run_script E sigver flags pc st \<noteq> Undef"
  using assms
proof (induction E sigver flags pc st rule: run_script.induct)
  case (1 E sigver flags pc st)
  show ?case
  proof (cases "pc = [] \<or> GetOp pc = None")
    case True
    then show ?thesis by (subst run_script.simps) auto
  next
    case False
    then obtain opcode vch pc' where g: "GetOp pc = Some (opcode, vch, pc')" by auto
    then show ?thesis
      using "1.IH" [OF _ g refl refl] "1.prems" False step_op_defined [OF "1.prems", of sigver opcode vch pc' st]
      by (cases "step_op E sigver flags opcode vch pc' st") (auto simp: run_script_Cons)
  qed
qed

lemma EvalScript_defined:
  "front_of_empty E \<Longrightarrow> flags AND SCRIPT_VERIFY_LOW_S = 0 \<Longrightarrow> EvalScript E stk s sigver flags \<noteq> Undef"
  using run_script_defined [of E flags sigver s] by (auto simp: EvalScript_def split: outcome.splits)

section \<open>Running known instructions\<close>

lemma run_push:
  assumes "length (push_vch v @ r) < 2 ^ 32" and "length v \<le> 520" and "False \<notin> set (vfExec st)"
    and "length (stack st) + length (altstack st) < 1000"
  shows "run_script E sigver flags (push_vch v @ r) st = run_script E sigver flags r (st\<lparr>stack := v # stack st\<rparr>)"
proof -
  obtain opcode where op: "opcode \<le> 0x4e" "GetOp (push_vch v @ r) = Some (opcode, v, r)"
    using GetOp_push [OF assms(1)] .
  have "step_op E sigver flags opcode v r st = Ok (st\<lparr>stack := v # stack st\<rparr>)"
    using op(1) assms(2-) by (auto simp: step_op_def disabled_op_def)
  then show ?thesis by (simp add: run_script_Cons [OF op(2)])
qed

lemma GetOp_op: "0x4e < opcode \<Longrightarrow> opcode < 256 \<Longrightarrow> GetOp (of_nat opcode # r) = Some (opcode, [], r)"
  by (simp add: unat_of_nat)

text \<open>An opcode above \<open>OP_16\<close> in an executed branch.\<close>

lemma run_op:
  assumes "0x60 < opcode" and "opcode < 256" and "\<not> disabled_op opcode" and "False \<notin> set (vfExec st)"
    and "nOpCount st < 201"
  shows "run_script E sigver flags (of_nat opcode # r) st =
    (case exec_op E sigver flags True opcode r (st\<lparr>nOpCount := nOpCount st + 1\<rparr>) of
       Ok st2 \<Rightarrow> if length (stack st2) + length (altstack st2) > 1000 then Fail else run_script E sigver flags r st2
     | r \<Rightarrow> r)"
  using assms by (simp add: run_script_Cons [OF GetOp_op] step_op_def Let_def split: outcome.splits)

lemma run_small:
  assumes "0x51 \<le> opcode" and "opcode \<le> 0x60" and "False \<notin> set (vfExec st)"
    and "length (stack st) + length (altstack st) < 1000"
  shows "run_script E sigver flags (of_nat opcode # r) st =
    run_script E sigver flags r (st\<lparr>stack := getvch (bn E) (int opcode - 0x50) # stack st\<rparr>)"
proof -
  have "exec_op E sigver flags True opcode r st = Ok (st\<lparr>stack := getvch (bn E) (int opcode - 0x50) # stack st\<rparr>)"
    using assms(1,2) by (simp add: exec_op_def on_stack_def op_value_def)
  moreover have "\<not> disabled_op opcode" using assms(1,2) by (auto simp: disabled_op_def)
  ultimately show ?thesis
    using assms by (simp add: run_script_Cons [OF GetOp_op] step_op_def Let_def)
qed

end
