(* ===== verification/Script_Std.thy ===== *)
theory Script_Std
  imports Script_Eval
begin

text \<open>
  The standard ways to spend an output, run through the interpreter of \<^verbatim>\<open>Script_Eval\<close>: a stack
  turned into a script and back (\<open>PushAll\<close> of \<^verbatim>\<open>server/txsignature.cpp\<close>), payment to a key hash,
  to a script hash and to witness programs, and the check of several signatures against several
  keys.
\<close>

section \<open>From a stack to a script and back\<close>

definition push_min :: "valtype \<Rightarrow> script" where
  "push_min v =
     (if length v = 0 then push_op OP_0
      else if length v = 1 \<and> unat (v ! 0) \<ge> 1 \<and> unat (v ! 0) \<le> 16
        then push_op (the (EncodeOP_N (int (unat (v ! 0)))))
      else push_vch v)"

definition PushAll :: "valtype list \<Rightarrow> script" where
  "PushAll values = concat (map push_min values)"

lemma length_push_vch_le: "length (push_vch v) \<le> length v + 5"
  by (simp add: push_vch_def)

lemma push_min_small: "1 \<le> n \<Longrightarrow> n \<le> 16 \<Longrightarrow> push_min [of_nat n] = [of_nat (0x50 + n)]"
  by (simp add: push_min_def push_op_def EncodeOP_N_def unat_of_nat)

lemma push_min_cases:
  obtains "push_min v = push_vch v"
  | n where "1 \<le> n" "n \<le> 16" "v = [of_nat n]" "push_min v = [of_nat (0x50 + n)]"
proof (cases "length v = 1 \<and> unat (v ! 0) \<ge> 1 \<and> unat (v ! 0) \<le> 16")
  case True
  then obtain b where b: "v = [b]" by (auto simp: length_Suc_conv)
  with True that(2) [of "unat b"] push_min_small [of "unat b"] show thesis by simp
next
  case False
  then have "push_min v = push_vch v" by (auto simp: push_min_def push_op_def push_vch_def)
  then show thesis by (rule that(1))
qed

lemma getvch_small:
  assumes "bn_lib_ok lib" and "1 \<le> n" and "n \<le> 16"
  shows "getvch lib (int n) = [of_nat n]"
proof -
  have len: "length (getvch lib (int n)) = 1"
    using length_getvch_le [OF assms(1), of 1 "int n"] getvch_nonzero [OF assms(1), of "int n"] assms(2,3)
    by (cases "getvch lib (int n)") auto
  then obtain b where b: "getvch lib (int n) = [b]" by (auto simp: length_Suc_conv)
  then have "snum [b] = int n" using snum_getvch [OF assms(1), of "int n"] by simp
  then have "uint b = int n" using assms(2) by (auto simp: snum_def be_dec_def split: if_splits)
  then have "unat b = n" by (metis nat_int unat_eq_nat_uint)
  then show ?thesis using b by auto
qed

lemma run_push_min:
  assumes "bn_lib_ok (bn E)" and "length v \<le> 520" and "length r < 2 ^ 31" and "False \<notin> set (vfExec st)"
    and "length (stack st) + length (altstack st) < 1000"
  shows "run_script E sigver flags (push_min v @ r) st = run_script E sigver flags r (st\<lparr>stack := v # stack st\<rparr>)"
proof (cases v rule: push_min_cases)
  case 1
  have "length (push_vch v @ r) < 2 ^ 32" using length_push_vch_le [of v] assms(2,3) by simp
  then show ?thesis using 1 run_push assms(2,4,5) by simp
next
  case (2 n)
  then show ?thesis
    using run_small [of "0x50 + n" st E sigver flags r] assms(4,5) getvch_small [OF assms(1) 2(1,2)] by simp
qed

lemma run_PushAll:
  assumes "bn_lib_ok (bn E)" and "\<forall>v\<in>set vs. length v \<le> 520" and "length (PushAll vs @ r) < 2 ^ 31"
    and "False \<notin> set (vfExec st)" and "length (stack st) + length (altstack st) + length vs \<le> 1000"
  shows "run_script E sigver flags (PushAll vs @ r) st = run_script E sigver flags r (st\<lparr>stack := rev vs @ stack st\<rparr>)"
  using assms(2-)
proof (induction vs arbitrary: st)
  case Nil
  then show ?case by (simp add: PushAll_def)
next
  case (Cons v vs)
  have "run_script E sigver flags (push_min v @ (PushAll vs @ r)) st =
      run_script E sigver flags (PushAll vs @ r) (st\<lparr>stack := v # stack st\<rparr>)"
    using Cons.prems by (intro run_push_min [OF assms(1)]) (auto simp: PushAll_def)
  also have "\<dots> = run_script E sigver flags r (st\<lparr>stack := rev vs @ v # stack st\<rparr>)"
    using Cons.prems by (subst Cons.IH) (auto simp: PushAll_def)
  finally show ?case by (simp add: PushAll_def)
qed

text \<open>
  What signing puts into an input is what verifying takes out of it.  A stack of at most
  1000 elements of at most 520 bytes, written as a script by \<open>PushAll\<close>, evaluates to this very
  stack as long as the script keeps to its limit of 10000 bytes, in whatever mode and with
  whatever flags the interpreter is called.
\<close>

lemma push_all_round_trip:
  assumes "bn_lib_ok (bn E)" and "\<forall>v\<in>set vs. length v \<le> 520" and "length vs \<le> 1000"
    and "length (PushAll vs) \<le> 10000"
  shows "EvalScript E [] (PushAll vs) sigver flags = Ok (rev vs)"
  using run_PushAll [OF assms(1,2), of "[]" _ sigver flags] assms(3,4) by (simp add: EvalScript_def)

section \<open>Payment to the hash of a key\<close>

lemma CastToBool_vch_bool [simp]: "CastToBool (vch_bool f) = f"
  by (simp add: vch_bool_def vchTrue_def vchFalse_def)

lemma push_vch_20: "length h = 20 \<Longrightarrow> push_vch h = of_nat (length h) # h"
  by (simp add: push_vch_def)

lemma key_script_ops:
  "length h = 20 \<Longrightarrow> key_script h = of_nat 0x76 # of_nat 0xa9 # push_vch h @ [of_nat 0x88, of_nat 0xac]"
  by (simp add: key_script_def push_op_def push_vch_20)

lemma length_key_script: "length h = 20 \<Longrightarrow> length (key_script h) = 25"
  by (simp add: key_script_def push_op_def)

definition sig_code :: "nat \<Rightarrow> valtype \<Rightarrow> script \<Rightarrow> script" where
  "sig_code sigver sig s = (if sigver = SIGVERSION_BASE then FindAndDelete (push_vch sig) s else s)"

lemmas exec_simps = exec_op_def on_stack_def stack_op_def disabled_op_def op_hash_def

text \<open>\<open>hashable\<close>: the interpreter can hash the element.\<close>

definition hashable :: "senv \<Rightarrow> valtype \<Rightarrow> bool" where
  "hashable E v \<longleftrightarrow> v \<noteq> [] \<or> front_of_empty E"

lemma run_key_script:
  assumes "length h = 20" and "flags AND SCRIPT_VERIFY_LOW_S = 0"
    and "st = \<lparr>stack = [pk, sig], altstack = [], vfExec = [], nOpCount = 0, pbegincodehash = s\<rparr>"
  shows "run_script E sigver flags (key_script h) st =
    (if \<not> hashable E pk then Undef
     else if Hash160 E pk = h
     then Ok \<lparr>stack = [vch_bool (CheckSig E sig pk (sig_code sigver sig s) sigver)], altstack = [],
       vfExec = [], nOpCount = 4, pbegincodehash = s\<rparr> else Fail)"
proof -
  let ?st = "\<lambda>stk n. \<lparr>stack = stk, altstack = [], vfExec = [], nOpCount = n, pbegincodehash = s\<rparr>"
  let ?tail = "[of_nat 0x88, of_nat 0xac]"
  have dup: "run_script E sigver flags (key_script h) st =
      run_script E sigver flags (of_nat 0xa9 # push_vch h @ ?tail) (?st [pk, pk, sig] 1)"
    unfolding key_script_ops [OF assms(1)] assms(3) by (subst run_op) (simp_all add: exec_simps)
  show ?thesis
  proof (cases "hashable E pk")
    case False
    then have "run_script E sigver flags (of_nat 0xa9 # push_vch h @ ?tail) (?st [pk, pk, sig] 1) = Undef"
      by (subst run_op) (simp_all add: exec_simps hashable_def)
    then show ?thesis using dup False by simp
  next
    case True
    note dup
    also have "run_script E sigver flags (of_nat 0xa9 # push_vch h @ ?tail) (?st [pk, pk, sig] 1) =
        run_script E sigver flags (push_vch h @ ?tail) (?st [Hash160 E pk, pk, sig] 2)"
      using True by (subst run_op) (auto simp: exec_simps numeral_2_eq_2 hashable_def)
    also have "\<dots> = run_script E sigver flags ?tail (?st [h, Hash160 E pk, pk, sig] 2)"
      using assms(1) length_push_vch_le [of h] by (subst run_push) simp_all
    also have "\<dots> = (if Hash160 E pk = h then run_script E sigver flags [of_nat 0xac] (?st [pk, sig] 3) else Fail)"
      by (subst run_op) (simp_all add: exec_simps)
    also have "run_script E sigver flags [of_nat 0xac] (?st [pk, sig] 3) =
        Ok (?st [vch_bool (CheckSig E sig pk (sig_code sigver sig s) sigver)] 4)"
      using assms(2) by (subst run_op) (simp_all add: exec_simps op_checksig_def sig_code_def Let_def)
    finally show ?thesis using True by simp
  qed
qed

lemma eval_key_script:
  assumes "length h = 20" and "flags AND SCRIPT_VERIFY_LOW_S = 0"
  shows "EvalScript E [pk, sig] (key_script h) sigver flags =
    (if \<not> hashable E pk then Undef
     else if Hash160 E pk = h then Ok [vch_bool (CheckSig E sig pk (sig_code sigver sig (key_script h)) sigver)] else Fail)"
  using run_key_script [OF assms refl, where E = E and sigver = sigver] length_key_script [OF assms(1)]
  by (simp add: EvalScript_def)

lemma push_vch_inj:
  assumes "push_vch a = push_vch b" and "length a \<le> 520"
  shows "a = b"
proof -
  have "length (push_vch a @ []) < 2 ^ 32" using length_push_vch_le [of a] assms(2) by simp
  moreover from this have "length (push_vch b @ []) < 2 ^ 32" using assms(1) by simp
  ultimately obtain oa ob where "GetOp (push_vch a @ []) = Some (oa, a, [])" "GetOp (push_vch b @ []) = Some (ob, b, [])"
    by (metis GetOp_push)
  with assms(1) show ?thesis by simp
qed

lemma instrs_key_script:
  assumes "length h = 20"
  shows "instrs (key_script h) = ([[of_nat 0x76], [of_nat 0xa9], push_vch h, [of_nat 0x88], [of_nat 0xac]], [])"
proof -
  let ?t = "[of_nat 0x88, of_nat 0xac]"
  have g: "GetOp (of_nat 0x76 # r) = Some (0x76, [], r)" "GetOp (of_nat 0xa9 # r) = Some (0xa9, [], r)"
    "GetOp (of_nat 0x88 # r) = Some (0x88, [], r)" "GetOp (of_nat 0xac # r) = Some (0xac, [], r)" for r
    by (rule GetOp_op; simp)+
  obtain opcode where p: "GetOp (push_vch h @ ?t) = Some (opcode, h, ?t)"
    using GetOp_push [of h ?t] length_push_vch_le [of h] assms by auto
  have "instrs ?t = ([[of_nat 0x88], [of_nat 0xac]], [])"
    using instrs_Some [OF g(3), of "[of_nat 0xac]"] instrs_Some [OF g(4), of "[]"] by (simp add: instrs_None)
  then have "instrs (push_vch h @ ?t) = ([push_vch h, [of_nat 0x88], [of_nat 0xac]], [])"
    using instrs_Some [OF p] by simp
  then show ?thesis
    unfolding key_script_ops [OF assms]
    using instrs_Some [OF g(1), of "of_nat 0xa9 # push_vch h @ ?t"] instrs_Some [OF g(2), of "push_vch h @ ?t"]
    by simp
qed

lemma sig_code_key_script:
  assumes "length h = 20" and "length sig \<le> 520" and "sig \<noteq> h"
  shows "sig_code sigver sig (key_script h) = key_script h"
proof -
  have len: "length (push_vch sig) < 2 ^ 32" using length_push_vch_le [of sig] assms(2) by simp
  obtain opcode where op: "opcode \<le> 0x4e" "GetOp (push_vch sig) = Some (opcode, sig, [])"
    using GetOp_push [of sig "[]"] len by auto
  have ne: "push_vch sig \<noteq> [of_nat c]" if "0x4e < c" "c < 256" for c
    using op GetOp_op [OF that, of "[]"] that by auto
  have "push_vch sig \<notin> set (fst (instrs (key_script h)))"
    using ne [of "0x76"] ne [of "0xa9"] ne [of "0x88"] ne [of "0xac"] push_vch_inj [of sig h] assms
    by (auto simp: instrs_key_script)
  moreover have "is_instr (push_vch sig)" using is_instr_push [OF len] .
  ultimately show ?thesis
    using FindAndDelete_absent length_key_script [OF assms(1)] by (simp add: sig_code_def)
qed

lemma IsPushOnly_push:
  assumes "length (push_vch v @ r) < 2 ^ 32"
  shows "IsPushOnly (push_vch v @ r) = IsPushOnly r"
proof -
  obtain opcode where "opcode \<le> 0x4e" "GetOp (push_vch v @ r) = Some (opcode, v, r)"
    using GetOp_push [OF assms] .
  moreover have "push_vch v @ r \<noteq> []" by (auto simp: push_vch_def)
  ultimately show ?thesis by (subst IsPushOnly.simps) auto
qed

lemma IsPushOnly_Nil [simp]: "IsPushOnly []"
  by (subst IsPushOnly.simps) simp

lemma two_pushes:
  assumes "length a \<le> 520" and "length b \<le> 520"
  shows "EvalScript E [] (push_vch a @ push_vch b) sigver flags = Ok [b, a]"
    and "IsPushOnly (push_vch a @ push_vch b)"
proof -
  have len: "length (push_vch a @ push_vch b) \<le> 1050" "length (push_vch b @ []) \<le> 525"
    using length_push_vch_le [of a] length_push_vch_le [of b] assms by auto
  show "EvalScript E [] (push_vch a @ push_vch b) sigver flags = Ok [b, a]"
    using len assms run_push [of b "[]"] by (simp add: EvalScript_def run_push)
  show "IsPushOnly (push_vch a @ push_vch b)"
    using len IsPushOnly_push [of a "push_vch b"] IsPushOnly_push [of b "[]"] by simp
qed

lemma key_script_not_special:
  assumes "length h = 20"
  shows "IsWitnessProgram (key_script h) = None" and "\<not> IsPayToScriptHash (key_script h)"
  using length_key_script [OF assms]
  by (simp_all add: IsWitnessProgram_def IsPayToScriptHash_def key_script_ops [OF assms])

text \<open>
  C11: payment to the hash of a key.  An input that pushes a signature and a key spends an output
  to the hash \<open>h\<close> exactly when the key hashes to \<open>h\<close> and the signature checks against the key and
  the unchanged script of the output, for all flags and whether or not pay-to-script-hash is
  enforced; and an empty key, whose first byte the interpreter takes the address of, makes the
  execution undefined where the library of the language checks that.
\<close>

theorem p2pkh_spend:
  assumes "length h = 20" and "length sig \<le> 520" and "length pk \<le> 520" and "sig \<noteq> h"
  shows "VerifyScript E (push_vch sig @ push_vch pk) [] (key_script h) p2sh flags =
    (if pk = [] \<and> \<not> front_of_empty E then Undef
     else if Hash160 E pk = h \<and> CheckSig E sig pk (key_script h) SIGVERSION_BASE then Ok () else Fail)"
  using two_pushes [OF assms(2,3)] eval_key_script [OF assms(1), of 0 E pk sig SIGVERSION_BASE]
    key_script_not_special [OF assms(1)] sig_code_key_script [OF assms(1,2,4)]
  by (auto simp: VerifyScript_def verify_bare_witness_def hashable_def)

text \<open>
  Concrete instance: identity functions as hashes, a check that accepts one signature for one key.
\<close>

definition ref_env :: senv where
  "ref_env = \<lparr>bn = bn_ref, RIPEMD160 = take 20, SHA1 = take 20, SHA256 = \<lambda>v. take 32 (v @ replicate 32 0),
     CheckSig = \<lambda>sig pk code sigver. sig = 0x30 # pk, parse_der_lax = Some, needs_normalize = \<lambda>_. False, front_of_empty = False\<rparr>"

theorem p2pkh_spend_witness:
  "VerifyScript ref_env (push_vch (0x30 # replicate 33 2) @ push_vch (replicate 33 2)) [] (key_script (replicate 20 2)) True 0 = Ok () \<and>
   VerifyScript ref_env (push_vch [7] @ push_vch (replicate 33 2)) [] (key_script (replicate 20 2)) True 0 = Fail"
proof -
  have "replicate 33 (2 :: u8) = replicate 20 2 @ replicate 13 2" by (simp flip: replicate_add)
  then have h: "Hash160 ref_env (replicate 33 2) = replicate 20 2" by (simp add: Hash160_def ref_env_def)
  have "[7] \<noteq> replicate 20 (2 :: u8)" "0x30 # replicate 33 2 \<noteq> replicate 20 (2 :: u8)" by (simp_all add: numeral_eq_Suc)
  then show ?thesis
    using p2pkh_spend [of "replicate 20 2" "0x30 # replicate 33 2" "replicate 33 2" ref_env True 0] h
      p2pkh_spend [of "replicate 20 2" "[7]" "replicate 33 2" ref_env True 0]
    by (simp add: ref_env_def)
qed

text \<open>Concrete instance: an empty element, a small number and a string.\<close>

lemma push_all_round_trip_witness:
  "EvalScript ref_env [] (PushAll [[], [5], [0xab, 0xcd]]) 0 0 = Ok [[0xab, 0xcd], [5], []] \<and>
   PushAll [[], [5], [0xab, 0xcd]] = [0, 0x55, 2, 0xab, 0xcd]"
proof -
  have p: "PushAll [[], [5], [0xab, 0xcd]] = [0, 0x55, 2, 0xab, 0xcd]"
    by (simp add: PushAll_def push_min_def push_op_def EncodeOP_N_def push_vch_def)
  show ?thesis
    using push_all_round_trip [of ref_env "[[], [5], [0xab, 0xcd]]" 0 0] bn_ref_ok p
    by (simp add: ref_env_def)
qed

section \<open>Payment to a witness program\<close>

definition wit_script :: "valtype \<Rightarrow> script" where
  "wit_script program = push_op OP_0 @ push_vch program"

lemma push_op_0: "push_op 0 = push_vch []"
  by (simp add: push_op_def push_vch_def)

lemma IsWitnessProgram_wit_script:
  assumes "length program = 20 \<or> length program = 32"
  shows "IsWitnessProgram (wit_script program) = Some (0, program)"
proof -
  have "push_vch program = of_nat (length program) # program" using assms by (auto simp: push_vch_def)
  with assms show ?thesis
    by (auto simp: IsWitnessProgram_def wit_script_def push_op_def DecodeOP_N_def Let_def)
qed

lemma wit_script_not_p2sh: "length program = 20 \<or> length program = 32 \<Longrightarrow> \<not> IsPayToScriptHash (wit_script program)"
  by (auto simp: IsPayToScriptHash_def wit_script_def push_op_def push_vch_def)

lemma eval_wit_script:
  "length program \<le> 520 \<Longrightarrow> EvalScript E [] (wit_script program) sigver flags = Ok [program, []]"
  unfolding wit_script_def push_op_0 by (rule two_pushes(1)) simp_all

lemma EvalScript_Nil [simp]: "EvalScript E stk [] sigver flags = Ok stk"
  by (simp add: EvalScript_def)

lemma verify_wit_script:
  assumes "flags AND SCRIPT_VERIFY_WITNESS \<noteq> 0" and "length program = 20 \<or> length program = 32"
  shows "VerifyScript E [] witness (wit_script program) p2sh flags =
    (if CastToBool program then VerifyWitnessProgram E witness 0 program flags else Fail)"
  using assms IsWitnessProgram_wit_script [OF assms(2)] wit_script_not_p2sh [OF assms(2)]
    eval_wit_script [of program E SIGVERSION_BASE 0]
  by (auto simp: VerifyScript_def verify_bare_witness_def split: outcome.splits)

lemma minimalif_low_s:
  "flags AND SCRIPT_VERIFY_LOW_S = 0 \<Longrightarrow> (SCRIPT_VERIFY_MINIMALIF OR flags) AND SCRIPT_VERIFY_LOW_S = 0"
  by (simp add: bit.conj_disj_distrib2 sv_defs)

text \<open>
  Payment to the witness hash of a key.  With witness verification on (and the check of low
  signatures off), an empty input script and a witness of a signature and a key spend the
  output \<open>OP_0 program\<close> exactly when the key hashes to the program, the signature checks in
  witness mode against the script of a payment to the key, and the program is not a string that
  is false as a condition: an output to an all-zero hash cannot be spent.
\<close>

lemma p2wpkh_spend:
  assumes "length program = 20" and "length sig \<le> 520" and "length pk \<le> 520"
    and "flags AND SCRIPT_VERIFY_WITNESS \<noteq> 0" and "flags AND SCRIPT_VERIFY_LOW_S = 0"
  shows "VerifyScript E [] [sig, pk] (wit_script program) p2sh flags =
    (if CastToBool program \<and> \<not> hashable E pk then Undef
     else if CastToBool program \<and> Hash160 E pk = program \<and>
        CheckSig E sig pk (key_script program) SIGVERSION_WITNESS_V0 then Ok () else Fail)"
proof -
  have "witness_script E [sig, pk] 0 program flags = Some (key_script program, [pk, sig])"
    using assms(1) by (simp add: witness_script_def key_script_def push_vch_20)
  then show ?thesis
    using eval_key_script [OF assms(1) minimalif_low_s [OF assms(5)], of E pk sig SIGVERSION_WITNESS_V0] assms(1-3)
    by (simp add: verify_wit_script [OF assms(4)] VerifyWitnessProgram_def MAX_SCRIPT_ELEMENT_SIZE_def
        sig_code_def sv_defs)
qed

text \<open>Concrete instance.\<close>

lemma p2wpkh_spend_witness:
  "VerifyScript ref_env [] [0x30 # replicate 33 2, replicate 33 2] (wit_script (replicate 20 2)) True SCRIPT_VERIFY_WITNESS = Ok ()"
proof -
  have "replicate 33 (2 :: u8) = replicate 20 2 @ replicate 13 2" by (simp flip: replicate_add)
  then have h: "Hash160 ref_env (replicate 33 2) = replicate 20 2" by (simp add: Hash160_def ref_env_def)
  have "CastToBool (replicate 20 2)" by (simp add: numeral_eq_Suc)
  then show ?thesis
    using p2wpkh_spend [of "replicate 20 2" "0x30 # replicate 33 2" "replicate 33 2" SCRIPT_VERIFY_WITNESS ref_env True] h
    by (simp add: sv_defs hashable_def ref_env_def)
qed

text \<open>
  Witness programs of a version above zero.  With witness verification on, an output whose
  script is a witness program of version 1 to 16 can never be spent, with or without the flag
  that discourages such programs, although the comment in the code promises success for them.
\<close>

lemma future_witness_fails:
  assumes "flags AND SCRIPT_VERIFY_WITNESS \<noteq> 0" and "IsWitnessProgram s = Some (version, program)" and "0 < version"
  shows "\<forall>u. VerifyScript E scriptSig witness s p2sh flags \<noteq> Ok u"
  using assms
  by (auto simp: VerifyScript_def verify_bare_witness_def VerifyWitnessProgram_def witness_script_def
      split: if_splits outcome.splits list.splits option.splits)

lemma future_witness_fails_witness:
  "\<forall>u. VerifyScript ref_env [] [[1]] [0x51, 2, 7, 7] True SCRIPT_VERIFY_WITNESS \<noteq> Ok u"
  using future_witness_fails [of SCRIPT_VERIFY_WITNESS "[0x51, 2, 7, 7]" 1 "[7, 7]" ref_env "[]" "[[1]]" True]
  by (simp add: sv_defs IsWitnessProgram_def DecodeOP_N_def)

section \<open>Payment to the hash of a script\<close>

lemma hash_script_ops:
  "length h = 20 \<Longrightarrow> hash_script h = of_nat 0xa9 # push_vch h @ [of_nat 0x87]"
  by (simp add: hash_script_def push_op_def push_vch_20)

lemma length_hash_script: "length h = 20 \<Longrightarrow> length (hash_script h) = 23"
  by (simp add: hash_script_def push_op_def)

lemma p2sh_iff: "IsPayToScriptHash s \<longleftrightarrow> (\<exists>h. length h = 20 \<and> s = hash_script h)"
proof
  assume p: "IsPayToScriptHash s"
  then have len: "length s = 23" by (simp add: IsPayToScriptHash_def)
  let ?h = "take 20 (drop 2 s)"
  have "s = hash_script ?h"
  proof (rule nth_equalityI)
    show "length s = length (hash_script ?h)" using len by (simp add: hash_script_def push_op_def)
    fix i
    assume "i < length s"
    then consider "i = 0" | "i = 1" | j where "i = Suc (Suc j)" "j < 20" | "i = 22"
      using len by (cases i; cases "i - 1") (auto, linarith)
    then show "s ! i = hash_script ?h ! i"
      using p len by cases (auto simp: IsPayToScriptHash_def hash_script_def push_op_def nth_append)
  qed
  then show "\<exists>h. length h = 20 \<and> s = hash_script h" using len by (intro exI [of _ ?h]) simp
next
  assume "\<exists>h. length h = 20 \<and> s = hash_script h"
  then show "IsPayToScriptHash s"
    by (auto simp: IsPayToScriptHash_def hash_script_def push_op_def nth_append)
qed

lemma eval_hash_script:
  assumes "length h = 20" and "length stk < 999"
  shows "EvalScript E (rs # stk) (hash_script h) sigver flags =
    (if hashable E rs then Ok (vch_bool (Hash160 E rs = h) # stk) else Undef)"
proof (cases "hashable E rs")
  case False
  have "run_script E sigver flags (hash_script h)
      \<lparr>stack = rs # stk, altstack = [], vfExec = [], nOpCount = 0, pbegincodehash = hash_script h\<rparr> = Undef"
    using False by (subst (1) hash_script_ops [OF assms(1)], subst run_op) (simp_all add: exec_simps hashable_def)
  then show ?thesis using False length_hash_script [OF assms(1)] by (simp add: EvalScript_def)
next
  case True
  let ?s = "hash_script h"
  let ?st = "\<lambda>stk n. \<lparr>stack = stk, altstack = [], vfExec = [], nOpCount = n, pbegincodehash = ?s\<rparr>"
  have "run_script E sigver flags ?s (?st (rs # stk) 0) =
      run_script E sigver flags (push_vch h @ [of_nat 0x87]) (?st (Hash160 E rs # stk) 1)"
    using assms(2) True by (subst (1) hash_script_ops [OF assms(1)], subst run_op) (auto simp: exec_simps hashable_def)
  also have "\<dots> = run_script E sigver flags [of_nat 0x87] (?st (h # Hash160 E rs # stk) 1)"
    using assms length_push_vch_le [of h] by (subst run_push) simp_all
  also have "\<dots> = Ok (?st (vch_bool (Hash160 E rs = h) # stk) 2)"
    using assms(2) by (subst run_op) (simp_all add: exec_simps numeral_2_eq_2)
  finally show ?thesis using True length_hash_script [OF assms(1)] by (simp add: EvalScript_def)
qed

lemma eval_hash_script_empty:
  assumes "length h = 20"
  shows "EvalScript E [] (hash_script h) sigver flags = Fail"
proof -
  have "run_script E sigver flags (hash_script h)
      \<lparr>stack = [], altstack = [], vfExec = [], nOpCount = 0, pbegincodehash = hash_script h\<rparr> = Fail"
    by (subst (1) hash_script_ops [OF assms], subst run_op) (simp_all add: exec_simps)
  then show ?thesis using length_hash_script [OF assms] by (simp add: EvalScript_def)
qed

lemma IsPushOnly_min:
  assumes "length v \<le> 520" and "length r < 2 ^ 31"
  shows "IsPushOnly (push_min v @ r) = IsPushOnly r"
proof (cases v rule: push_min_cases)
  case 1
  then show ?thesis using length_push_vch_le [of v] assms IsPushOnly_push [of v r] by simp
next
  case (2 n)
  then have "GetOp (push_min v @ r) = Some (0x50 + n, [], r)" using GetOp_op [of "0x50 + n" r] by simp
  then show ?thesis using 2 by (subst IsPushOnly.simps) simp
qed

lemma IsPushOnly_PushAll:
  "\<forall>v\<in>set vs. length v \<le> 520 \<Longrightarrow> length (PushAll vs) < 2 ^ 31 \<Longrightarrow> IsPushOnly (PushAll vs)"
  by (induction vs) (simp_all add: PushAll_def IsPushOnly_min)

text \<open>
  C20: payment to the hash of a script.  An input made of pushed arguments and a pushed script
  \<open>rs\<close> spends an output to the script hash \<open>h\<close>, without witness verification, exactly when \<open>rs\<close>
  hashes to \<open>h\<close> and evaluates on the arguments to a stack with a true element on top; and a
  node that does not enforce pay-to-script-hash looks at the hash only.  An empty \<open>rs\<close> can only be
  hashed where \<open>front_of_empty\<close> holds.
\<close>

theorem p2sh_spend:
  assumes "bn_lib_ok (bn E)" and "length h = 20" and "\<forall>v\<in>set (args @ [rs]). length v \<le> 520"
    and "length args < 999" and "length (PushAll (args @ [rs])) \<le> 10000" and "flags AND SCRIPT_VERIFY_WITNESS = 0"
  shows "VerifyScript E (PushAll (args @ [rs])) [] (hash_script h) p2sh flags = Ok () \<longleftrightarrow>
    (rs \<noteq> [] \<or> front_of_empty E) \<and> Hash160 E rs = h \<and>
    (p2sh \<longrightarrow> (\<exists>v s. EvalScript E (rev args) rs SIGVERSION_BASE 0 = Ok (v # s) \<and> CastToBool v))"
proof -
  let ?ss = "PushAll (args @ [rs])"
  have sig: "EvalScript E [] ?ss SIGVERSION_BASE 0 = Ok (rs # rev args)"
    using run_PushAll [OF assms(1,3), of "[]" _ SIGVERSION_BASE 0] assms(4,5) by (simp add: EvalScript_def)
  have po: "IsPushOnly ?ss" using IsPushOnly_PushAll [OF assms(3)] assms(5) by simp
  have pk: "EvalScript E (rs # rev args) (hash_script h) SIGVERSION_BASE 0 =
      (if hashable E rs then Ok (vch_bool (Hash160 E rs = h) # rev args) else Undef)"
    using eval_hash_script [OF assms(2)] assms(4) by simp
  have "IsPayToScriptHash (hash_script h)" using assms(2) p2sh_iff by blast
  then show ?thesis
    using sig po pk assms(6)
    by (auto simp: VerifyScript_def verify_bare_witness_def verify_p2sh_def hashable_def split: outcome.splits list.splits if_splits)
qed

text \<open>Concrete instance: the pushed script is \<open>OP_1\<close>.\<close>

theorem p2sh_spend_witness:
  "VerifyScript ref_env (PushAll [[0x51]]) [] (hash_script (take 20 (0x51 # replicate 32 0))) True 0 = Ok () \<and>
   VerifyScript ref_env (PushAll [[0x6a]]) [] (hash_script (take 20 (0x6a # replicate 32 0))) True 0 \<noteq> Ok ()"
proof -
  let ?h = "\<lambda>b :: u8. take 20 (b # replicate 32 0)"
  have h: "Hash160 ref_env [b] = ?h b" for b by (simp add: Hash160_def ref_env_def)
  have ok: "bn_lib_ok (bn ref_env)" using bn_ref_ok by (simp add: ref_env_def)
  have one: "EvalScript ref_env [] [0x51] SIGVERSION_BASE 0 = Ok [[1]]"
    using run_small [of "0x51" _ ref_env SIGVERSION_BASE 0 "[]"] getvch_small [OF ok, of 1] by (simp add: EvalScript_def)
  have ret: "EvalScript ref_env [] [0x6a] SIGVERSION_BASE 0 = Fail"
    using run_op [of "0x6a" _ ref_env SIGVERSION_BASE 0 "[]"] by (simp add: EvalScript_def exec_simps)
  have l: "length (PushAll ([] @ [[b]])) \<le> 10000" for b
    by (auto simp: PushAll_def push_min_def push_op_def push_vch_def)
  show ?thesis
    using p2sh_spend [OF ok, of "?h 0x51" "[]" "[0x51]" 0 True] p2sh_spend [OF ok, of "?h 0x6a" "[]" "[0x6a]" 0 True]
      h [of "0x51"] h [of "0x6a"] one ret l [of "0x51"] l [of "0x6a"] by simp
qed

section \<open>Undefined executions\<close>

lemma base_defined: "front_of_empty E \<Longrightarrow> EvalScript E stk s sigver 0 \<noteq> Undef"
  by (rule EvalScript_defined) simp_all

lemma VerifyWitnessProgram_defined:
  assumes "front_of_empty E" "flags AND SCRIPT_VERIFY_LOW_S = 0"
  shows "VerifyWitnessProgram E witness version program flags \<noteq> Undef"
  using EvalScript_defined [OF assms(1) minimalif_low_s [OF assms(2)]]
  by (auto simp: VerifyWitnessProgram_def split: option.splits outcome.splits)

lemma verify_parts_defined:
  assumes "front_of_empty E" "flags AND SCRIPT_VERIFY_LOW_S = 0"
  shows "verify_bare_witness E scriptSig witness s flags \<noteq> Undef"
    and "stk \<noteq> [] \<Longrightarrow> verify_p2sh E scriptSig witness stk flags \<noteq> Undef"
  using VerifyWitnessProgram_defined [OF assms, of witness] base_defined [OF assms(1)]
  by (auto simp: verify_bare_witness_def verify_p2sh_def split: option.splits outcome.splits list.splits)

lemma p2sh_needs_stack:
  assumes "IsPayToScriptHash s" and "EvalScript E stk s sigver flags = Ok stk'"
  shows "stk \<noteq> []"
  using assms eval_hash_script_empty [of _ E sigver flags] by (auto simp: p2sh_iff)

text \<open>\<open>OP_0\<close> and an opcode that hashes.\<close>

lemma hash_of_empty:
  assumes "\<not> front_of_empty E" "opcode \<in> {0xa6, 0xa7, 0xa8, 0xa9}"
  shows "EvalScript E [] [0, of_nat opcode] SIGVERSION_BASE 0 = Undef"
proof -
  let ?st = "\<lambda>stk. \<lparr>stack = stk, altstack = [], vfExec = [], nOpCount = 0, pbegincodehash = [0, of_nat opcode]\<rparr>"
  have "run_script E SIGVERSION_BASE 0 [0, of_nat opcode] (?st []) =
      run_script E SIGVERSION_BASE 0 [of_nat opcode] (?st [[]])"
    using run_push [of "[]" "[of_nat opcode]" "?st []" E SIGVERSION_BASE 0] by (simp add: push_vch_def)
  also have "\<dots> = Undef"
    using assms(2) by (elim insertE emptyE; hypsubst; subst run_op) (simp_all add: exec_simps assms(1))
  finally show ?thesis by (simp add: EvalScript_def)
qed



text \<open>
  The flag for low signatures.  An input script that checks an empty signature
  (\<open>OP_0 OP_0 OP_CHECKSIG\<close>) makes the interpreter, as the memory pools call it for every
  transaction they receive, copy the range from the begin of the empty signature to the byte
  before it: the execution is undefined in every environment.
\<close>

lemma low_s_empty_signature:
  "EvalScript E [] [0, 0, 0xac] SIGVERSION_BASE SCRIPT_VERIFY_LOW_S = Undef"
proof -
  let ?st = "\<lambda>stk. \<lparr>stack = stk, altstack = [], vfExec = [], nOpCount = 0, pbegincodehash = [0, 0, 0xac]\<rparr>"
  have "run_script E SIGVERSION_BASE SCRIPT_VERIFY_LOW_S [0, 0, 0xac] (?st []) =
      run_script E SIGVERSION_BASE SCRIPT_VERIFY_LOW_S [of_nat 0xac] (?st [[], []])"
    using run_push [of "[]" "[0, 0xac]" "?st []" E SIGVERSION_BASE SCRIPT_VERIFY_LOW_S]
      run_push [of "[]" "[0xac]" "?st [[]]" E SIGVERSION_BASE SCRIPT_VERIFY_LOW_S] by (simp add: push_vch_def)
  also have "\<dots> = Undef"
    by (subst run_op) (simp_all add: exec_simps op_checksig_def sv_defs)
  finally show ?thesis by (simp add: EvalScript_def)
qed

section \<open>Several signatures\<close>

text \<open>
  Reference for the loop of \<open>OP_CHECKMULTISIG\<close>: the signatures match a subsequence of the keys.
\<close>

definition sigs_match :: "('s \<Rightarrow> 'k \<Rightarrow> bool) \<Rightarrow> 's list \<Rightarrow> 'k list \<Rightarrow> bool" where
  "sigs_match chk sigs keys \<longleftrightarrow> (\<exists>ks. subseq ks keys \<and> list_all2 chk sigs ks)"

lemma sigs_match_Nil [simp]: "sigs_match chk [] keys"
  by (simp add: sigs_match_def)

lemma sigs_match_length: "sigs_match chk sigs keys \<Longrightarrow> length sigs \<le> length keys"
  by (auto simp: sigs_match_def dest!: list_all2_lengthD list_emb_length)

lemma sigs_match_no_keys [simp]: "sigs_match chk (sg # sigs) [] = False"
  using sigs_match_length [of chk "sg # sigs" "[]"] by auto

text \<open>Taking the first key that accepts a signature loses nothing.\<close>

lemma sigs_match_step:
  "sigs_match chk (sg # sigs) (k # keys) \<longleftrightarrow>
     (if chk sg k then sigs_match chk sigs keys else sigs_match chk (sg # sigs) keys)"
proof (cases "chk sg k")
  case True
  show ?thesis
  proof
    assume "sigs_match chk (sg # sigs) (k # keys)"
    then obtain k' ks where "subseq (k' # ks) (k # keys)" "list_all2 chk sigs ks"
      by (auto simp: sigs_match_def list_all2_Cons1)
    moreover from this have "subseq ks keys" by (cases "k' = k") (auto dest: subseq_Cons')
    ultimately show "if chk sg k then sigs_match chk sigs keys else sigs_match chk (sg # sigs) keys"
      using True by (auto simp: sigs_match_def)
  next
    assume "if chk sg k then sigs_match chk sigs keys else sigs_match chk (sg # sigs) keys"
    then obtain ks where "subseq ks keys" "list_all2 chk sigs ks" using True by (auto simp: sigs_match_def)
    then show "sigs_match chk (sg # sigs) (k # keys)"
      using True by (auto simp: sigs_match_def intro!: exI [of _ "k # ks"])
  qed
next
  case False
  show ?thesis
  proof
    assume "sigs_match chk (sg # sigs) (k # keys)"
    then obtain k' ks where "subseq (k' # ks) (k # keys)" "chk sg k'" "list_all2 chk sigs ks"
      by (auto simp: sigs_match_def list_all2_Cons1)
    then show "if chk sg k then sigs_match chk sigs keys else sigs_match chk (sg # sigs) keys"
      using False by (auto simp: sigs_match_def intro!: exI [of _ "k' # ks"] split: if_splits)
  next
    assume "if chk sg k then sigs_match chk sigs keys else sigs_match chk (sg # sigs) keys"
    then show "sigs_match chk (sg # sigs) (k # keys)"
      using False by (auto simp: sigs_match_def)
  qed
qed

lemma multisig_loop_match:
  assumes "nS \<le> nK" and "isig + nS \<le> length s" and "ikey + nK \<le> length s"
  shows "multisig_loop chk s (Suc isig) (Suc ikey) nS nK =
    sigs_match chk (take nS (drop isig s)) (take nK (drop ikey s))"
  using assms
proof (induction nK arbitrary: nS isig ikey)
  case 0
  then show ?case by (simp add: multisig_loop.simps)
next
  case (Suc nK)
  show ?case
  proof (cases nS)
    case 0
    then show ?thesis by (simp add: multisig_loop.simps)
  next
    case nS: (Suc n)
    have sg: "take nS (drop isig s) = s ! isig # take n (drop (Suc isig) s)"
      using nS Suc.prems(2) by (simp flip: Cons_nth_drop_Suc)
    have k: "take (Suc nK) (drop ikey s) = s ! ikey # take nK (drop (Suc ikey) s)"
      using Suc.prems(3) by (simp flip: Cons_nth_drop_Suc)
    have IH: "multisig_loop chk s (Suc i) (Suc (Suc ikey)) m nK = sigs_match chk (take m (drop i s)) (take nK (drop (Suc ikey) s))"
      if "m \<le> nK" "i + m \<le> length s" for m i
      using Suc.IH [OF that] Suc.prems(3) by simp
    show ?thesis
    proof (cases "chk (s ! isig) (s ! ikey)")
      case True
      then have "multisig_loop chk s (Suc isig) (Suc ikey) nS (Suc nK) = multisig_loop chk s (Suc (Suc isig)) (Suc (Suc ikey)) n nK"
        using nS Suc.prems(1) by (subst multisig_loop.simps) simp
      then show ?thesis using IH [of n "Suc isig"] True nS Suc.prems unfolding sg k sigs_match_step by simp
    next
      case False
      show ?thesis
      proof (cases "nS \<le> nK")
        case True
        then have "multisig_loop chk s (Suc isig) (Suc ikey) nS (Suc nK) = multisig_loop chk s (Suc isig) (Suc (Suc ikey)) nS nK"
          using nS False by (subst multisig_loop.simps) simp
        then show ?thesis using IH [of nS isig] True False nS Suc.prems unfolding sg k sigs_match_step by simp
      next
        case more: False
        then have "\<not> multisig_loop chk s (Suc isig) (Suc ikey) nS (Suc nK)"
          using nS False by (subst multisig_loop.simps) simp
        moreover have "\<not> sigs_match chk (take nS (drop isig s)) (take nK (drop (Suc ikey) s))"
          using more Suc.prems sigs_match_length [of chk "take nS (drop isig s)" "take nK (drop (Suc ikey) s)"] by auto
        ultimately show ?thesis using False unfolding sg k sigs_match_step by (simp add: sg)
      qed
    qed
  qed
qed

lemma cast_count:
  assumes "bn_lib_ok lib" and "n \<le> 20"
  shows "CastToBigNum lib (getvch lib (int n)) = Some (int n)" and "getint lib (int n) = int n"
  using assms CastToBigNum_getvch [OF assms(1), of "int n"] getint_exact [OF assms(1), of "int n"] by simp_all

lemma op_multisig_match:
  assumes "bn_lib_ok (bn E)" and "length keys \<le> 20" and "length sigs \<le> length keys"
    and "nOpCount st + length keys \<le> 201"
    and "stack st = getvch (bn E) (int (length keys)) # keys @ getvch (bn E) (int (length sigs)) # sigs @ dummy # rest"
  shows "op_multisig E sigver 0xae st =
    Ok (st\<lparr>nOpCount := nOpCount st + length keys,
      stack := vch_bool (sigs_match (\<lambda>sg k. CheckSig E sg k (multisig_code sigver sigs (pbegincodehash st)) sigver) sigs keys) # rest\<rparr>)"
proof -
  let ?n = "length keys" and ?m = "length sigs" and ?s = "stack st"
  have c1: "CastToBigNum (bn E) (?s ! 0) = Some (int ?n)"
    using cast_count(1) [OF assms(1,2)] assms(5) by simp
  have c2: "CastToBigNum (bn E) (?s ! (2 + ?n - 1)) = Some (int ?m)"
    using cast_count(1) [OF assms(1), of ?m] assms(2,3,5) by (simp add: nth_append)
  have len: "length ?s = ?n + ?m + 3 + length rest" using assms(5) by simp
  have sigs: "map (\<lambda>k. ?s ! (2 + ?n + 1 + k - 1)) [0..<?m] = sigs"
    using assms(5) by (intro nth_equalityI) (auto simp: nth_append)
  have loop: "multisig_loop chk ?s (2 + ?n + 1) 2 ?m ?n = sigs_match chk sigs keys" for chk
  proof -
    have "take ?m (drop (?n + 2) ?s) = sigs" "take ?n (drop 1 ?s) = keys" using assms(5) by simp_all
    then show ?thesis
      using multisig_loop_match [of ?m ?n "?n + 2" ?s 1 chk] assms(3) len by (simp add: numeral_2_eq_2)
  qed
  have rest: "drop (2 + ?n + 1 + ?m) ?s = rest" using assms(5) by simp
  show ?thesis
    using assms(2-4) len c1 c2 sigs loop rest cast_count(2) [OF assms(1), of ?n] cast_count(2) [OF assms(1), of ?m]
    unfolding op_multisig_def Let_def by (simp add: nat_diff_distrib)
qed

lemma run_pushes:
  assumes "\<forall>v\<in>set vs. length v \<le> 520" and "length (concat (map push_vch vs) @ r) < 2 ^ 32"
    and "False \<notin> set (vfExec st)" and "length (stack st) + length (altstack st) + length vs \<le> 1000"
  shows "run_script E sigver flags (concat (map push_vch vs) @ r) st =
    run_script E sigver flags r (st\<lparr>stack := rev vs @ stack st\<rparr>)"
  using assms
proof (induction vs arbitrary: st)
  case (Cons v vs)
  have "run_script E sigver flags (push_vch v @ (concat (map push_vch vs) @ r)) st =
      run_script E sigver flags (concat (map push_vch vs) @ r) (st\<lparr>stack := v # stack st\<rparr>)"
    using Cons.prems by (intro run_push) auto
  also have "\<dots> = run_script E sigver flags r (st\<lparr>stack := rev vs @ v # stack st\<rparr>)"
    using Cons.prems by (subst Cons.IH) auto
  finally show ?case by simp
qed simp

lemma length_pushes: "\<forall>v\<in>set vs. length v \<le> 520 \<Longrightarrow> length (concat (map push_vch vs)) \<le> 525 * length vs"
proof (induction vs)
  case (Cons v vs)
  then show ?case using length_push_vch_le [of v] by simp
qed simp

lemma SetMultisig_Some:
  assumes "1 \<le> m" and "m \<le> length keys" and "length keys \<le> 16"
  shows "SetMultisig (int m) keys =
    Some (of_nat (0x50 + m) # concat (map push_vch keys) @ [of_nat (0x50 + length keys), of_nat 0xae])"
  using assms by (auto simp: SetMultisig_def EncodeOP_N_def push_op_def nat_add_distrib)

lemma eval_multisig_script:
  assumes "bn_lib_ok (bn E)" and "SetMultisig (int (length sigs)) keys = Some s" and "sigs \<noteq> []"
    and "length sigs \<le> length keys" and "length keys \<le> 16" and "\<forall>k\<in>set keys. length k \<le> 520"
  shows "EvalScript E (rev sigs @ [dummy]) s SIGVERSION_BASE 0 =
    Ok [vch_bool (sigs_match (\<lambda>sg k. CheckSig E sg k (multisig_code SIGVERSION_BASE (rev sigs) s) SIGVERSION_BASE) (rev sigs) (rev keys))]"
proof -
  let ?m = "length sigs" and ?n = "length keys"
  let ?st = "\<lambda>stk k. \<lparr>stack = stk, altstack = [], vfExec = [], nOpCount = k, pbegincodehash = s\<rparr>"
  have m: "1 \<le> ?m" using assms(3) by (simp add: Suc_leI)
  have s: "s = of_nat (0x50 + ?m) # concat (map push_vch keys) @ [of_nat (0x50 + ?n), of_nat 0xae]"
    using SetMultisig_Some [OF m assms(4,5)] assms(2) by simp
  have len: "length (concat (map push_vch keys)) \<le> 8400" using length_pushes [OF assms(6)] assms(5) by simp
  let ?stk = "rev sigs @ [dummy]"
  have "run_script E SIGVERSION_BASE 0 s (?st ?stk 0) =
      run_script E SIGVERSION_BASE 0 (concat (map push_vch keys) @ [of_nat (0x50 + ?n), of_nat 0xae])
        (?st (getvch (bn E) (int ?m) # ?stk) 0)"
    using m assms(4,5) by (subst (1) s, subst run_small) auto
  also have "\<dots> = run_script E SIGVERSION_BASE 0 [of_nat (0x50 + ?n), of_nat 0xae]
        (?st (rev keys @ getvch (bn E) (int ?m) # ?stk) 0)"
    using assms(4-6) len by (subst run_pushes) auto
  also have "\<dots> = run_script E SIGVERSION_BASE 0 [of_nat 0xae]
        (?st (getvch (bn E) (int ?n) # rev keys @ getvch (bn E) (int ?m) # ?stk) 0)"
    using m assms(4,5) by (subst run_small) auto
  also have "\<dots> = Ok (?st [vch_bool (sigs_match (\<lambda>sg k. CheckSig E sg k (multisig_code SIGVERSION_BASE (rev sigs) s) SIGVERSION_BASE) (rev sigs) (rev keys))] (1 + ?n))"
    using assms(4,5)
      op_multisig_match [OF assms(1), of "rev keys" "rev sigs" "?st (getvch (bn E) (int ?n) # rev keys @ getvch (bn E) (int ?m) # ?stk) 1" dummy "[]"]
    by (subst run_op) (simp_all add: exec_op_def disabled_op_def)
  finally show ?thesis using s len by (simp add: EvalScript_def)
qed

lemma length_PushAll:
  assumes "\<forall>v\<in>set vs. length v \<le> 520"
  shows "length (PushAll vs) \<le> 525 * length vs"
  using assms
proof (induction vs)
  case (Cons v vs)
  have "length (push_min v) \<le> 525"
    using Cons.prems length_push_vch_le [of v] by (auto simp: push_min_def push_op_def)
  with Cons show ?case by (simp add: PushAll_def)
qed (simp add: PushAll_def)

lemma subseq_revI: "subseq xs ys \<Longrightarrow> subseq (rev xs) (rev ys)"
proof (induction rule: list_emb.induct)
  case (list_emb_Cons2 x y xs ys)
  then show ?case by (simp add: list_emb_append_mono)
qed (auto intro: subseq_rev_drop_many)

lemma sigs_match_rev: "sigs_match chk (rev sigs) (rev keys) = sigs_match chk sigs keys"
proof -
  have "sigs_match chk (rev a) (rev b)" if "sigs_match chk a b" for a b
    using that unfolding sigs_match_def by (metis list_all2_rev subseq_revI)
  from this [of sigs keys] this [of "rev sigs" "rev keys"] show ?thesis by auto
qed

lemma multisig_not_p2sh:
  "SetMultisig (int m) keys = Some s \<Longrightarrow> 1 \<le> m \<Longrightarrow> m \<le> length keys \<Longrightarrow> length keys \<le> 16 \<Longrightarrow>
   \<not> IsPayToScriptHash s"
proof
  assume s: "SetMultisig (int m) keys = Some s" "1 \<le> m" "m \<le> length keys" "length keys \<le> 16" "IsPayToScriptHash s"
  have "s ! 0 = of_nat (0x50 + m)" using SetMultisig_Some [OF s(2-4)] s(1) by auto
  then have "of_nat (0x50 + m) = (of_nat 0xa9 :: u8)" using s(5) by (simp add: IsPayToScriptHash_def)
  then have "unat (of_nat (0x50 + m) :: u8) = unat (of_nat 0xa9 :: u8)" by simp
  then have "(0x50 + m) mod 256 = 0xa9" unfolding unat_of_nat by simp
  then show False using s(3,4) by simp
qed

text \<open>
  C19: several signatures.  The script that \<open>SetMultisig\<close> builds for \<open>m\<close> of up to sixteen keys is
  spent, without witness verification, by an input of a dummy element and \<open>m\<close> signatures exactly
  when the signatures, in their order, belong to distinct keys, in the order of the keys: the
  single pass of the interpreter over the keys finds such an assignment whenever there is one.
\<close>

theorem multisig_spend:
  assumes "bn_lib_ok (bn E)" and "SetMultisig (int (length sigs)) keys = Some s" and "sigs \<noteq> []"
    and "length sigs \<le> length keys" and "length keys \<le> 16"
    and "\<forall>v\<in>set (keys @ dummy # sigs). length v \<le> 520" and "flags AND SCRIPT_VERIFY_WITNESS = 0"
  shows "VerifyScript E (PushAll (dummy # sigs)) [] s p2sh flags =
    (if \<exists>ks. subseq ks keys \<and>
        list_all2 (\<lambda>sig key. CheckSig E sig key (multisig_code SIGVERSION_BASE (rev sigs) s) SIGVERSION_BASE) sigs ks
     then Ok () else Fail)"
proof -
  have v: "\<forall>v\<in>set (dummy # sigs). length v \<le> 520" and k: "\<forall>k\<in>set keys. length k \<le> 520" using assms(6) by auto
  have m: "1 \<le> length sigs" using assms(3) by (simp add: Suc_leI)
  have len: "length (PushAll (dummy # sigs)) \<le> 10000"
    using length_PushAll [OF v] assms(4,5) by simp
  have sig: "EvalScript E [] (PushAll (dummy # sigs)) SIGVERSION_BASE 0 = Ok (rev sigs @ [dummy])"
    using run_PushAll [OF assms(1) v, of "[]" _ SIGVERSION_BASE 0] len assms(4,5) by (simp add: EvalScript_def)
  have po: "IsPushOnly (PushAll (dummy # sigs))" using IsPushOnly_PushAll [OF v] len by simp
  show ?thesis
    using sig po eval_multisig_script [OF assms(1-5) k, of dummy] multisig_not_p2sh [OF assms(2) m assms(4,5)] assms(7)
    by (simp add: VerifyScript_def verify_bare_witness_def sigs_match_rev) (simp add: sigs_match_def)
qed

text \<open>Concrete instance: two of three keys, with the signatures in the order of the keys and not.\<close>

theorem multisig_spend_witness:
  "\<exists>s. SetMultisig 2 [[1], [2], [3]] = Some s \<and>
     VerifyScript ref_env (PushAll [[], [0x30, 1], [0x30, 3]]) [] s True 0 = Ok () \<and>
     VerifyScript ref_env (PushAll [[], [0x30, 3], [0x30, 1]]) [] s True 0 = Fail"
proof -
  obtain s where s: "SetMultisig 2 [[1], [2], [3]] = Some s" by (simp add: SetMultisig_def EncodeOP_N_def)
  have ok: "bn_lib_ok (bn ref_env)" using bn_ref_ok by (simp add: ref_env_def)
  have a: "sigs_match (\<lambda>sig key. sig = 0x30 # key) [[0x30, 1], [0x30, 3 :: u8]] [[1], [2], [3]]"
    and b: "\<not> sigs_match (\<lambda>sig key. sig = 0x30 # key) [[0x30, 3], [0x30, 1 :: u8]] [[1], [2], [3]]"
    by (simp_all add: sigs_match_step)
  show ?thesis
    using s a b multisig_spend [OF ok, of "[[0x30, 1], [0x30, 3]]" "[[1], [2], [3]]" s "[]" 0 True]
      multisig_spend [OF ok, of "[[0x30, 3], [0x30, 1]]" "[[1], [2], [3]]" s "[]" 0 True]
    by (simp add: ref_env_def sigs_match_def)
qed

section \<open>Limits of scripts\<close>

text \<open>
  C22: what an accepted script may look like.  When the evaluation of a script succeeds from a
  stack of at most 1000 elements, the script has at most 10000 bytes and can be read to its end,
  no push in it, executed or not, has more than 520 bytes, none of the fifteen refused opcodes
  and neither \<open>OP_VERIF\<close> nor \<open>OP_VERNOTIF\<close> occurs anywhere, at most 201 of its opcodes count as
  operations, its conditionals are properly nested and closed, and the resulting stack has at
  most 1000 elements.
\<close>

theorem script_limits:
  assumes "EvalScript E stk s sigver flags = Ok stk'" and "length stk \<le> 1000"
  shows "length s \<le> 10000 \<and> length stk' \<le> 1000 \<and>
    (\<exists>is. decode s = Some is \<and> (\<forall>i\<in>set is. instr_ok i) \<and> depth_run (map fst is) 0 = Some 0 \<and>
       length (filter (\<lambda>i. fst i > 0x60) is) \<le> 201)"
  by (rule EvalScript_limits [OF assms])

text \<open>Concrete instance: a conditional inside which nothing is executed.\<close>

theorem script_limits_witness:
  "EvalScript ref_env [[]] [0x63, 0x51, 0x68] 0 0 = Ok [] \<and>
   (\<exists>is. decode [0x63, 0x51, 0x68] = Some is \<and> (\<forall>i\<in>set is. instr_ok i) \<and> depth_run (map fst is) 0 = Some 0)"
proof -
  have "EvalScript ref_env [[]] [0x63, 0x51, 0x68] 0 0 = Ok []"
    by (simp add: EvalScript_def run_script_Cons step_op_def exec_op_cond op_if_def op_endif_def disabled_op_def)
  with script_limits [of ref_env "[[]]" "[0x63, 0x51, 0x68]" 0 0 "[]"] show ?thesis by auto
qed

end
