(* ===== verification/Solver.thy ===== *)
theory Solver
  imports Script_Std
begin

text \<open>
  The standard forms of an output's script (\<open>Solver\<close> of \<^verbatim>\<open>server/script.cpp\<close>), what the other
  functions read from them (the arguments an input must push, whether a script is standard, its
  destinations) and the wallet's question whether an output is its own (\<open>IsMine\<close>).  The key
  store of the wallet is an argument.
\<close>

section \<open>Types\<close>

datatype txnouttype = TX_NONSTANDARD | TX_PUBKEY | TX_PUBKEYHASH | TX_SCRIPTHASH | TX_MULTISIG | TX_RETURN
  | TX_WITNESS_V0_SCRIPTHASH | TX_WITNESS_V0_KEYHASH

datatype CTxDestination = CNoDestination | CKeyID valtype | CScriptID valtype

abbreviation (input) OP_SMALLINTEGER :: nat where "OP_SMALLINTEGER \<equiv> 0xfa"
abbreviation (input) OP_PUBKEYS :: nat where "OP_PUBKEYS \<equiv> 0xfb"
abbreviation (input) OP_EXT_HASH :: nat where "OP_EXT_HASH \<equiv> 0xfc"
abbreviation (input) OP_PUBKEYHASH :: nat where "OP_PUBKEYHASH \<equiv> 0xfd"
abbreviation (input) OP_PUBKEY :: nat where "OP_PUBKEY \<equiv> 0xfe"

text \<open>The templates, in the order in which the map over the types is traversed.\<close>

definition mTemplates :: "(txnouttype \<times> script) list" where
  "mTemplates =
     [(TX_PUBKEY, push_op OP_PUBKEY @ push_op OP_CHECKSIG),
      (TX_PUBKEYHASH, push_op OP_DUP @ push_op OP_HASH160 @ push_op OP_PUBKEYHASH @ push_op OP_EQUALVERIFY @ push_op OP_CHECKSIG),
      (TX_MULTISIG, push_op OP_SMALLINTEGER @ push_op OP_PUBKEYS @ push_op OP_SMALLINTEGER @ push_op OP_CHECKMULTISIG),
      (TX_RETURN, push_op OP_RETURN)]"

section \<open>Matching a template\<close>

text \<open>
  The operations of an extended transaction in front of the script: everything up to a drop and
  the drops.  An instruction that cannot be read gives \<open>OP_INVALIDOPCODE\<close> and an empty operand,
  with which no template matches.
\<close>

function skip_to_drop :: "nat \<Rightarrow> valtype \<Rightarrow> script \<Rightarrow> nat \<times> valtype \<times> script" where
  "skip_to_drop opcode1 vch1 pc1 =
     (if opcode1 \<noteq> OP_2DROP \<and> opcode1 \<noteq> OP_DROP then
        (case GetOp pc1 of None \<Rightarrow> (OP_INVALIDOPCODE, [], [])
         | Some (opcode, vch, pc) \<Rightarrow> skip_to_drop opcode vch pc)
      else (opcode1, vch1, pc1))"
  by pat_completeness auto
termination by (relation "measure (\<lambda>(_, _, pc). length pc)") (auto dest: GetOp_shrinks)

function skip_drops :: "nat \<Rightarrow> valtype \<Rightarrow> script \<Rightarrow> nat \<times> valtype \<times> script" where
  "skip_drops opcode1 vch1 pc1 =
     (if opcode1 = OP_2DROP \<or> opcode1 = OP_DROP then
        (case GetOp pc1 of None \<Rightarrow> (OP_INVALIDOPCODE, [], [])
         | Some (opcode, vch, pc) \<Rightarrow> skip_drops opcode vch pc)
      else (opcode1, vch1, pc1))"
  by pat_completeness auto
termination by (relation "measure (\<lambda>(_, _, pc). length pc)") (auto dest: GetOp_shrinks)

declare skip_to_drop.simps [simp del] skip_drops.simps [simp del]

definition skip_ext :: "nat \<Rightarrow> valtype \<Rightarrow> script \<Rightarrow> nat \<times> valtype \<times> script" where
  "skip_ext opcode1 vch1 pc1 =
     (if opcode1 \<ge> 0xf0 \<and> opcode1 < 0xfa then
        let (op, vch, pc) = skip_to_drop opcode1 vch1 pc1 in skip_drops op vch pc
      else (opcode1, vch1, pc1))"

text \<open>The keys that \<open>OP_PUBKEYS\<close> stands for, and the instruction behind them.\<close>

function take_keys :: "nat \<Rightarrow> valtype \<Rightarrow> script \<Rightarrow> valtype list \<times> nat \<times> valtype \<times> script" where
  "take_keys opcode1 vch1 pc1 =
     (if length vch1 \<ge> 33 \<and> length vch1 \<le> 120 then
        (case GetOp pc1 of None \<Rightarrow> ([vch1], OP_INVALIDOPCODE, [], [])
         | Some (opcode, vch, pc) \<Rightarrow>
             let (keys, r) = take_keys opcode vch pc in (vch1 # keys, r))
      else ([], opcode1, vch1, pc1))"
  by pat_completeness auto
termination by (relation "measure (\<lambda>(_, _, pc). length pc)") (auto dest: GetOp_shrinks)

declare take_keys.simps [simp del]

text \<open>One instruction against one of the template; \<open>None\<close> is a mismatch.\<close>

definition match_op :: "nat \<Rightarrow> valtype \<Rightarrow> nat \<Rightarrow> valtype \<Rightarrow> valtype list option" where
  "match_op opcode1 vch1 opcode2 vch2 =
     (if opcode2 = OP_PUBKEY then (if length vch1 < 33 \<or> length vch1 > 120 then None else Some [vch1])
      else if opcode2 = OP_PUBKEYHASH then (if length vch1 \<noteq> 20 then None else Some [vch1])
      else if opcode2 = OP_EXT_HASH then (if length vch1 \<noteq> 20 then None else Some [])
      else if opcode2 = OP_SMALLINTEGER then
        (if opcode1 = OP_0 \<or> opcode1 \<ge> OP_1 \<and> opcode1 \<le> OP_16
         then Some [[of_nat (the (DecodeOP_N opcode1))]] else None)
      else if opcode1 \<noteq> opcode2 \<or> vch1 \<noteq> vch2 then None else Some [])"

function match_loop :: "script \<Rightarrow> script \<Rightarrow> valtype list \<Rightarrow> valtype list option" where
  "match_loop pc1 pc2 sols =
     (if pc1 = [] \<and> pc2 = [] then Some sols
      else case GetOp pc1 of None \<Rightarrow> None
      | Some (op1, v1, pc1') \<Rightarrow>
          let (opcode1, vch1, pc1) = skip_ext op1 v1 pc1' in
          (case GetOp pc2 of None \<Rightarrow> None
           | Some (opcode2, vch2, pc2) \<Rightarrow>
               if opcode2 = OP_PUBKEYS then
                 let (keys, opcode1, vch1, pc1) = take_keys opcode1 vch1 pc1 in
                 (case GetOp pc2 of None \<Rightarrow> None
                  | Some (opcode2, vch2, pc2) \<Rightarrow>
                      (case match_op opcode1 vch1 opcode2 vch2 of None \<Rightarrow> None
                       | Some new \<Rightarrow> match_loop pc1 pc2 (sols @ keys @ new)))
               else
                 (case match_op opcode1 vch1 opcode2 vch2 of None \<Rightarrow> None
                  | Some new \<Rightarrow> match_loop pc1 pc2 (sols @ new))))"
  by pat_completeness auto
termination
  by (relation "measure (\<lambda>(pc1, pc2, sols). length pc2)") (auto dest!: GetOp_shrinks)

declare match_loop.simps [simp del]

text \<open>The additional checks for several keys; the count is compared as a size.\<close>

definition multisig_ok :: "valtype list \<Rightarrow> bool" where
  "multisig_ok sols \<longleftrightarrow>
     (let m = unat (hd sols ! 0); n = unat (last sols ! 0) in
      \<not> (m < 1 \<or> n < 1 \<or> m > n \<or> length sols - 2 \<noteq> n))"

fun scan_templates :: "script \<Rightarrow> (txnouttype \<times> script) list \<Rightarrow> (txnouttype \<times> valtype list) option option" where
  "scan_templates s [] = None"
| "scan_templates s ((t, tplate) # ts) =
     (case match_loop s tplate [] of
        Some sols \<Rightarrow> Some (if t = TX_MULTISIG \<and> \<not> multisig_ok sols then None else Some (t, sols))
      | None \<Rightarrow> scan_templates s ts)"

text \<open>\<open>None\<close> is false; the type that is stored for a refused script is not used by any caller.\<close>

definition Solver :: "script \<Rightarrow> (txnouttype \<times> valtype list) option" where
  "Solver s =
     (if IsPayToScriptHash s then Some (TX_SCRIPTHASH, [take 20 (drop 2 s)])
      else case IsWitnessProgram s of
        Some (version, program) \<Rightarrow>
          (if version = 0 \<and> length program = 20 then Some (TX_WITNESS_V0_KEYHASH, [program])
           else if version = 0 \<and> length program = 32 then Some (TX_WITNESS_V0_SCRIPTHASH, [program])
           else None)
      | None \<Rightarrow>
          (case scan_templates s mTemplates of
             Some r \<Rightarrow> r
           | None \<Rightarrow>
               if length s > 1 \<and> s ! 0 = of_nat OP_RETURN \<and> IsPushOnly (drop 1 s)
               then Some (TX_RETURN, []) else None))"

section \<open>What is read from a standard script\<close>

definition ScriptSigArgsExpected :: "txnouttype \<Rightarrow> valtype list \<Rightarrow> int" where
  "ScriptSigArgsExpected t sols =
     (case t of
        TX_NONSTANDARD \<Rightarrow> -1
      | TX_PUBKEY \<Rightarrow> 1
      | TX_PUBKEYHASH \<Rightarrow> 2
      | TX_MULTISIG \<Rightarrow> if length sols < 1 \<or> length (sols ! 0) < 1 then -1 else int (unat (sols ! 0 ! 0)) + 1
      | TX_SCRIPTHASH \<Rightarrow> 1
      | TX_WITNESS_V0_SCRIPTHASH \<Rightarrow> 0
      | TX_WITNESS_V0_KEYHASH \<Rightarrow> 0
      | TX_RETURN \<Rightarrow> -1)"

definition IsStandard :: "script \<Rightarrow> bool" where
  "IsStandard s =
     (case Solver s of None \<Rightarrow> False
      | Some (t, sols) \<Rightarrow>
          if t = TX_MULTISIG \<and>
             (let m = unat (hd sols ! 0); n = unat (last sols ! 0) in n < 1 \<or> n > 3 \<or> m < 1 \<or> m > n)
          then False else t \<noteq> TX_NONSTANDARD)"

text \<open>\<open>CPubKey(vch).GetID()\<close> is the hash of the key.\<close>

definition ExtractDestination :: "senv \<Rightarrow> script \<Rightarrow> CTxDestination option" where
  "ExtractDestination E s =
     (case Solver s of None \<Rightarrow> None
      | Some (t, sols) \<Rightarrow>
          if t = TX_PUBKEY then Some (CKeyID (Hash160 E (sols ! 0)))
          else if t = TX_PUBKEYHASH then Some (CKeyID (sols ! 0))
          else if t = TX_SCRIPTHASH then Some (CScriptID (sols ! 0))
          else if t = TX_RETURN then Some (CKeyID (replicate 20 0))
          else None)"

definition ExtractDestinations :: "senv \<Rightarrow> script \<Rightarrow> (txnouttype \<times> CTxDestination list \<times> int) option" where
  "ExtractDestinations E s =
     (case Solver s of None \<Rightarrow> None
      | Some (t, sols) \<Rightarrow>
          if t = TX_MULTISIG then
            Some (t, map (\<lambda>i. CKeyID (Hash160 E (sols ! i))) [1..<length sols - 1], int (unat (hd sols ! 0)))
          else (case ExtractDestination E s of None \<Rightarrow> None | Some d \<Rightarrow> Some (t, [d], 1)))"

definition GetScriptForDestination :: "CTxDestination \<Rightarrow> script" where
  "GetScriptForDestination d =
     (case d of CNoDestination \<Rightarrow> [] | CKeyID k \<Rightarrow> key_script k | CScriptID k \<Rightarrow> hash_script k)"

section \<open>The forms that the code itself builds\<close>

lemma match_loop_step:
  assumes "GetOp pc1 = Some (op1, v1, r1)" and "op1 < 0xf0" and "GetOp pc2 = Some (op2, v2, r2)" and "op2 \<noteq> 0xfb"
  shows "match_loop pc1 pc2 sols =
    (case match_op op1 v1 op2 v2 of None \<Rightarrow> None | Some new \<Rightarrow> match_loop r1 r2 (sols @ new))"
proof -
  have "pc1 \<noteq> []" using assms(1) by auto
  then show ?thesis using assms by (subst match_loop.simps) (simp add: skip_ext_def)
qed

lemma match_loop_Nil [simp]: "match_loop [] [] sols = Some sols"
  by (subst match_loop.simps) simp

text \<open>Without extended operations and \<open>OP_PUBKEYS\<close> the decoded instructions are compared one by one.\<close>

fun match_list :: "(nat \<times> valtype) list \<Rightarrow> (nat \<times> valtype) list \<Rightarrow> valtype list \<Rightarrow> valtype list option" where
  "match_list [] [] sols = Some sols"
| "match_list ((op1, v1) # is) ((op2, v2) # ts) sols =
     (case match_op op1 v1 op2 v2 of None \<Rightarrow> None | Some new \<Rightarrow> match_list is ts (sols @ new))"
| "match_list _ _ sols = None"

lemma decode_Cons:
  assumes "decode s = Some is" and "s \<noteq> []"
  obtains opcode vch r js where "GetOp s = Some (opcode, vch, r)" "decode r = Some js" "is = (opcode, vch) # js"
  using assms by (subst (asm) decode.simps) (auto split: option.splits)

lemma decode_Nil: "decode [] = Some []"
  by (subst decode.simps) simp

lemma match_loop_list:
  assumes "decode s = Some is" and "decode t = Some ts"
    and "\<forall>i\<in>set is. fst i < 0xf0" and "\<forall>i\<in>set ts. fst i \<noteq> 0xfb"
  shows "match_loop s t sols = match_list is ts sols"
  using assms
proof (induction t arbitrary: s "is" ts sols rule: length_induct)
  case (1 t)
  show ?case
  proof (cases "s = [] \<or> t = []")
    case True
    then show ?thesis
    proof (cases "s = []")
      case True
      then have "is = []" using "1.prems"(1) by (simp add: decode_Nil)
      moreover have "ts \<noteq> []" if "t \<noteq> []" using decode_Cons [OF "1.prems"(2) that] by blast
      ultimately show ?thesis
        using True "1.prems"(2) by (cases ts; subst match_loop.simps) (auto simp: decode_Nil)
    next
      case F: False
      then obtain opcode vch r js where "GetOp s = Some (opcode, vch, r)" "is = (opcode, vch) # js"
        using decode_Cons [OF "1.prems"(1)] by metis
      then show ?thesis
        using True F "1.prems"(2) by (subst match_loop.simps) (auto simp: decode_Nil split: prod.splits)
    qed
  next
    case False
    obtain o1 v1 r1 i1 where d1: "GetOp s = Some (o1, v1, r1)" "decode r1 = Some i1" "is = (o1, v1) # i1"
      using decode_Cons [OF "1.prems"(1)] False by metis
    obtain o2 v2 r2 i2 where d2: "GetOp t = Some (o2, v2, r2)" "decode r2 = Some i2" "ts = (o2, v2) # i2"
      using decode_Cons [OF "1.prems"(2)] False by metis
    have "match_loop r1 r2 sols' = match_list i1 i2 sols'" for sols'
      using "1.IH" [rule_format, OF GetOp_shrinks [OF d2(1)] d1(2) d2(2)] "1.prems"(3,4) d1(3) d2(3) by simp
    then show ?thesis
      using match_loop_step [OF d1(1) _ d2(1)] "1.prems"(3,4) d1(3) d2(3) by (simp split: option.splits)
  qed
qed

lemma decode_op: "0x4e < opcode \<Longrightarrow> opcode < 256 \<Longrightarrow> decode (of_nat opcode # r) = map_option (Cons (opcode, [])) (decode r)"
  using GetOp_op [of opcode r] by (subst decode.simps) simp

lemma decode_push:
  assumes "length (push_vch v @ r) < 2 ^ 32"
  obtains opcode where "opcode \<le> 0x4e" "decode (push_vch v @ r) = map_option (Cons (opcode, v)) (decode r)"
proof -
  obtain opcode where "opcode \<le> 0x4e" "GetOp (push_vch v @ r) = Some (opcode, v, r)"
    using GetOp_push [OF assms] .
  moreover have "push_vch v @ r \<noteq> []" by (simp add: push_vch_def)
  ultimately have "decode (push_vch v @ r) = map_option (Cons (opcode, v)) (decode r)"
    by (subst decode.simps) auto
  with \<open>opcode \<le> 0x4e\<close> show thesis by (rule that)
qed

lemma decode_templates:
  "decode (push_op 0xfe @ push_op 0xac) = Some [(0xfe, []), (0xac, [])]"
  "decode (push_op 0x76 @ push_op 0xa9 @ push_op 0xfd @ push_op 0x88 @ push_op 0xac) =
     Some [(0x76, []), (0xa9, []), (0xfd, []), (0x88, []), (0xac, [])]"
  by (simp_all add: decode.simps push_op_def)

lemma Solver_templates:
  assumes "\<not> IsPayToScriptHash s" and "IsWitnessProgram s = None" and "decode s = Some is" and "\<forall>i\<in>set is. fst i < 0xf0"
  shows "Solver s =
    (case match_list is [(0xfe, []), (0xac, [])] [] of
       Some sols \<Rightarrow> Some (TX_PUBKEY, sols)
     | None \<Rightarrow>
         (case match_list is [(0x76, []), (0xa9, []), (0xfd, []), (0x88, []), (0xac, [])] [] of
            Some sols \<Rightarrow> Some (TX_PUBKEYHASH, sols)
          | None \<Rightarrow>
              (case scan_templates s (drop 2 mTemplates) of
                 Some r \<Rightarrow> r
               | None \<Rightarrow>
                   if length s > 1 \<and> s ! 0 = of_nat 0x6a \<and> IsPushOnly (drop 1 s)
                   then Some (TX_RETURN, []) else None)))"
  using match_loop_list [OF assms(3) decode_templates(1) assms(4)] match_loop_list [OF assms(3) decode_templates(2) assms(4)]
    assms(1,2)
  by (simp add: Solver_def mTemplates_def split: option.splits)

lemma Solver_key_script:
  assumes "length h = 20"
  shows "Solver (key_script h) = Some (TX_PUBKEYHASH, [h])"
proof -
  have "length (push_vch h @ [of_nat 0x88, of_nat 0xac]) < 2 ^ 32" using length_push_vch_le [of h] assms by simp
  then obtain opcode where op: "opcode \<le> 0x4e"
    "decode (push_vch h @ [of_nat 0x88, of_nat 0xac]) = map_option (Cons (opcode, h)) (decode [of_nat 0x88, of_nat 0xac])"
    using decode_push by blast
  have tail: "decode [of_nat 0x88, of_nat 0xac] = Some [(0x88, []), (0xac, [])]"
    by (subst decode_op, simp, simp)+ (simp add: decode_Nil)
  have "decode (key_script h) = Some [(0x76, []), (0xa9, []), (opcode, h), (0x88, []), (0xac, [])]"
    unfolding key_script_ops [OF assms]
    by (subst decode_op, simp, simp)+ (simp add: op(2) tail del: of_nat_numeral)
  from Solver_templates [OF _ _ this] show ?thesis
    using key_script_not_special [OF assms] op(1) assms by (simp add: match_op_def)
qed

lemma Solver_hash_script:
  assumes "length h = 20"
  shows "Solver (hash_script h) = Some (TX_SCRIPTHASH, [h])"
proof -
  have "IsPayToScriptHash (hash_script h)" using assms p2sh_iff by blast
  then show ?thesis using assms by (simp add: Solver_def hash_script_def push_op_def)
qed

lemma Solver_wit_script:
  assumes "length program = 20 \<or> length program = 32"
  shows "Solver (wit_script program) =
    Some (if length program = 20 then TX_WITNESS_V0_KEYHASH else TX_WITNESS_V0_SCRIPTHASH, [program])"
  using IsWitnessProgram_wit_script [OF assms] wit_script_not_p2sh [OF assms] assms by (auto simp: Solver_def)

lemma take_keys_pushes:
  assumes "\<forall>k\<in>set (vch1 # keys). length k \<ge> 33 \<and> length k \<le> 120"
    and "length (concat (map push_vch keys) @ r) < 2 ^ 32" and "GetOp r = Some (opcode, [], r')"
  shows "take_keys op1 vch1 (concat (map push_vch keys) @ r) = (vch1 # keys, opcode, [], r')"
  using assms
proof (induction keys arbitrary: op1 vch1)
  case Nil
  then show ?case by (subst take_keys.simps) (simp add: take_keys.simps [of opcode "[]"])
next
  case (Cons k keys)
  have "length (push_vch k @ (concat (map push_vch keys) @ r)) < 2 ^ 32" using Cons.prems(2) by simp
  then obtain o2 where "GetOp (push_vch k @ (concat (map push_vch keys) @ r)) = Some (o2, k, concat (map push_vch keys) @ r)"
    using GetOp_push by blast
  then show ?case using Cons by (subst take_keys.simps) simp
qed

text \<open>The script that \<open>SetMultisig\<close> builds, matched against the template for several keys.\<close>

lemma match_multisig:
  assumes "1 \<le> m" and "m \<le> length keys" and "length keys \<le> 16"
    and "\<forall>k\<in>set keys. length k \<ge> 33 \<and> length k \<le> 120"
  shows "match_loop (of_nat (0x50 + m) # concat (map push_vch keys) @ [of_nat (0x50 + length keys), of_nat 0xae])
      (push_op 0xfa @ push_op 0xfb @ push_op 0xfa @ push_op 0xae) [] =
    Some ([of_nat m] # keys @ [[of_nat (length keys)]])"
proof -
  let ?n = "length keys" and ?t = "[of_nat (0x50 + length keys), of_nat 0xae] :: script"
  obtain k ks where keys: "keys = k # ks" using assms(1,2) by (cases keys) auto
  have len: "length (concat (map push_vch keys)) \<le> 525 * ?n"
    using length_pushes [of keys] assms(4) by fastforce
  then have len: "length (push_vch k @ (concat (map push_vch ks) @ ?t)) < 2 ^ 32" using keys assms(3) by simp
  have g1: "GetOp (of_nat (0x50 + m) # concat (map push_vch keys) @ ?t) = Some (0x50 + m, [], concat (map push_vch keys) @ ?t)"
    using assms(2,3) by (intro GetOp_op) simp_all
  obtain op where op: "op \<le> 0x4e" and g2: "GetOp (concat (map push_vch keys) @ ?t) = Some (op, k, concat (map push_vch ks) @ ?t)"
    using GetOp_push [OF len] keys by auto
  have g3: "GetOp ?t = Some (0x50 + ?n, [], [of_nat 0xae])" using assms(3) by (intro GetOp_op) simp_all
  have g4: "GetOp [of_nat 0xae :: u8] = Some (0xae, [], [])" by (rule GetOp_op) simp_all
  have tk: "take_keys op k (concat (map push_vch ks) @ ?t) = (keys, 0x50 + ?n, [], [of_nat 0xae])"
    using take_keys_pushes [OF _ _ g3, of k ks op] assms(4) keys len by simp
  let ?t3 = "[of_nat 0xfa, of_nat 0xae] :: script"
  have ts: "GetOp (of_nat 0xfa # r) = Some (0xfa, [], r)" "GetOp (of_nat 0xfb # r) = Some (0xfb, [], r)" for r
    by (rule GetOp_op; simp)+
  have "match_loop [of_nat 0xae] [of_nat 0xae] sols = Some sols" for sols
    using match_loop_step [OF g4 _ g4] by (simp add: match_op_def)
  then have step2: "match_loop (concat (map push_vch keys) @ ?t) (of_nat 0xfb # ?t3) sols = Some (sols @ keys @ [[of_nat ?n]])" for sols
    using g2 tk op keys assms(1-3) ts(1) [of "[of_nat 0xae]"] ts(2) [of ?t3]
    by (subst match_loop.simps) (simp add: skip_ext_def match_op_def DecodeOP_N_def del: GetOp.simps of_nat_numeral)
  show ?thesis
    unfolding push_op_def append.simps
    using match_loop_step [OF g1 _ ts(1), of "of_nat 0xfb # ?t3" "[]"] assms(1-3) step2
    by (simp add: match_op_def DecodeOP_N_def del: of_nat_numeral)
qed

lemma match_first:
  assumes "GetOp s = Some (op1, v1, r1)" and "op1 < 0xf0" and "match_op op1 v1 op2 [] = None"
    and "0x4e < op2" and "op2 < 256" and "op2 \<noteq> 0xfb"
  shows "match_loop s (push_op op2 @ t) sols = None"
  using match_loop_step [OF assms(1,2) _ assms(6), of "push_op op2 @ t" "[]" t] GetOp_op [OF assms(4,5), of t] assms(3)
  by (simp add: push_op_def)

lemma multisig_not_witness:
  assumes "keys \<noteq> []" and "\<forall>k\<in>set keys. length k \<ge> 33 \<and> length k \<le> 120"
  shows "IsWitnessProgram (b # concat (map push_vch keys) @ [c, d]) = None"
proof -
  obtain k ks where keys: "keys = k # ks" using assms(1) by (cases keys) auto
  have k: "33 \<le> length k" "length k \<le> 120" using assms(2) keys by auto
  show ?thesis
  proof (cases "length k < 0x4c")
    case True
    then have "push_vch k = of_nat (length k) # k" by (simp add: push_vch_def)
    moreover have "unat (of_nat (length k) :: u8) = length k" using True by (simp add: unat_of_nat)
    ultimately show ?thesis using keys by (simp add: IsWitnessProgram_def Let_def)
  next
    case False
    then have "length (push_vch k) > 42" by (simp add: push_vch_def)
    then show ?thesis using keys by (simp add: IsWitnessProgram_def)
  qed
qed

lemma Solver_multisig:
  assumes "1 \<le> m" and "m \<le> length keys" and "length keys \<le> 16"
    and "\<forall>k\<in>set keys. length k \<ge> 33 \<and> length k \<le> 120" and "SetMultisig (int m) keys = Some s"
  shows "Solver s = Some (TX_MULTISIG, [of_nat m] # keys @ [[of_nat (length keys)]])"
proof -
  have s: "s = of_nat (0x50 + m) # concat (map push_vch keys) @ [of_nat (0x50 + length keys), of_nat 0xae]"
    using SetMultisig_Some [OF assms(1-3)] assms(5) by simp
  have g: "GetOp s = Some (0x50 + m, [], concat (map push_vch keys) @ [of_nat (0x50 + length keys), of_nat 0xae])"
    unfolding s using assms(2,3) by (intro GetOp_op) simp_all
  have "match_loop s (push_op 0xfe @ t) [] = None" "match_loop s (push_op 0x76 @ t) [] = None" for t
    using assms(2,3) by (auto intro!: match_first [OF g] simp: match_op_def)
  moreover have "match_loop s (push_op 0xfa @ push_op 0xfb @ push_op 0xfa @ push_op 0xae) [] =
      Some ([of_nat m] # keys @ [[of_nat (length keys)]])"
    using match_multisig [OF assms(1-4)] s by simp
  moreover have "multisig_ok ([of_nat m] # keys @ [[of_nat (length keys)]])"
    using assms(1-3) by (auto simp: multisig_ok_def unat_of_nat Let_def)
  moreover have "IsWitnessProgram s = None"
    unfolding s using multisig_not_witness [OF _ assms(4)] assms(1,2) by fastforce
  ultimately show ?thesis
    using multisig_not_p2sh [OF assms(5,1-3)] by (simp add: Solver_def mTemplates_def)
qed

text \<open>
  C26: addresses and scripts.  The script that is built for a destination of 20 bytes, a key or a
  script, is recognised as of its form and gives back the same destination; the script built for
  \<open>m\<close> of up to 16 keys of 33 to 120 bytes gives back the keys in order, the number \<open>m\<close> of
  signatures and, with the dummy element, \<open>m + 1\<close> expected arguments, and is standard exactly up
  to three keys.
\<close>

theorem destinations_round_trip:
  assumes "length h = 20" and "1 \<le> m" and "m \<le> length keys" and "length keys \<le> 16"
    and "\<forall>k\<in>set keys. length k \<ge> 33 \<and> length k \<le> 120" and "SetMultisig (int m) keys = Some s"
  shows "ExtractDestination E (GetScriptForDestination (CKeyID h)) = Some (CKeyID h) \<and>
    ExtractDestination E (GetScriptForDestination (CScriptID h)) = Some (CScriptID h) \<and>
    Solver s = Some (TX_MULTISIG, [of_nat m] # keys @ [[of_nat (length keys)]]) \<and>
    ExtractDestinations E s = Some (TX_MULTISIG, map (\<lambda>k. CKeyID (Hash160 E k)) keys, int m) \<and>
    ScriptSigArgsExpected TX_MULTISIG ([of_nat m] # keys @ [[of_nat (length keys)]]) = int m + 1 \<and>
    (IsStandard s \<longleftrightarrow> length keys \<le> 3)"
proof -
  let ?sols = "[of_nat m] # keys @ [[of_nat (length keys)]] :: valtype list"
  have keys: "map (\<lambda>i. CKeyID (Hash160 E (?sols ! i))) [1..<length ?sols - 1] = map (\<lambda>k. CKeyID (Hash160 E k)) keys"
  proof -
    have "[1..<length ?sols - 1] = map Suc [0..<length keys]" by (simp add: map_Suc_upt)
    then show ?thesis by (simp only: map_map o_def nth_Cons_Suc) (rule nth_equalityI, auto simp: nth_append)
  qed
  have um: "unat (of_nat m :: u8) = m" using assms(3,4) by (simp add: unat_of_nat)
  then have ui: "uint (of_nat m :: u8) = int m" by (metis uint_nat)
  show ?thesis
    using ui um Solver_multisig [OF assms(2-6)] Solver_key_script [OF assms(1)] Solver_hash_script [OF assms(1)] keys assms(2-4)
    by (auto simp: ExtractDestination_def ExtractDestinations_def GetScriptForDestination_def ScriptSigArgsExpected_def
        IsStandard_def Let_def unat_of_nat)
qed

text \<open>Concrete instance: two of two keys of 33 bytes.\<close>

theorem destinations_round_trip_witness:
  "\<exists>s. SetMultisig 2 [replicate 33 2, replicate 33 3] = Some s \<and> IsStandard s \<and>
     ExtractDestination ref_env (key_script (replicate 20 7)) = Some (CKeyID (replicate 20 7))"
proof -
  obtain s where s: "SetMultisig 2 [replicate 33 2, replicate 33 3] = Some s" by (simp add: SetMultisig_def EncodeOP_N_def)
  with destinations_round_trip [of "replicate 20 7" 2 "[replicate 33 2, replicate 33 3]" s ref_env]
  show ?thesis by (simp add: GetScriptForDestination_def)
qed

section \<open>Outputs of the wallet\<close>

text \<open>The keys and the scripts that the wallet knows, by their identifiers.\<close>

record keystore =
  ks_pubkey :: "valtype \<rightharpoonup> valtype"
  ks_script :: "valtype \<rightharpoonup> script"

definition HaveKey :: "keystore \<Rightarrow> valtype \<Rightarrow> bool" where
  "HaveKey ks keyID \<longleftrightarrow> ks_pubkey ks keyID \<noteq> None"

definition HaveKeys :: "senv \<Rightarrow> valtype list \<Rightarrow> keystore \<Rightarrow> nat" where
  "HaveKeys E pubkeys ks = length (filter (\<lambda>k. HaveKey ks (Hash160 E k)) pubkeys)"

text \<open>
  \<open>None\<close> is a recursion that never ends, \<open>Undef\<close> the write through the address of the first
  element of an empty vector in the branch for witness script hashes.
\<close>

partial_function (option) IsMine :: "senv \<Rightarrow> keystore \<Rightarrow> script \<Rightarrow> bool \<Rightarrow> bool outcome option" where
  "IsMine E ks s fWitnessFlag =
     (case Solver s of None \<Rightarrow> Some (Ok False)
      | Some p \<Rightarrow>
          (case fst p of
             TX_NONSTANDARD \<Rightarrow> Some (Ok False)
           | TX_PUBKEY \<Rightarrow>
               if fWitnessFlag \<and> length (snd p ! 0) \<noteq> 33 then Some (Ok False)
               else Some (Ok (HaveKey ks (Hash160 E (snd p ! 0))))
           | TX_PUBKEYHASH \<Rightarrow>
               if fWitnessFlag \<and> (case ks_pubkey ks (snd p ! 0) of None \<Rightarrow> False | Some pubkey \<Rightarrow> length pubkey \<noteq> 33)
               then Some (Ok False)
               else Some (Ok (HaveKey ks (snd p ! 0)))
           | TX_SCRIPTHASH \<Rightarrow>
               (case ks_script ks (snd p ! 0) of None \<Rightarrow> Some (Ok False)
                | Some subscript \<Rightarrow> IsMine E ks subscript False)
           | TX_MULTISIG \<Rightarrow>
               (let keys = butlast (tl (snd p)) in Some (Ok (HaveKeys E keys ks = length keys)))
           | TX_RETURN \<Rightarrow> Some (Ok False)
           | TX_WITNESS_V0_KEYHASH \<Rightarrow>
               if ks_script ks (Hash160 E (push_op OP_0 @ push_vch (snd p ! 0))) = None then Some (Ok False)
               else IsMine E ks (GetScriptForDestination (CKeyID (snd p ! 0))) True
           | TX_WITNESS_V0_SCRIPTHASH \<Rightarrow>
               if ks_script ks (Hash160 E (push_op OP_0 @ push_vch (snd p ! 0))) = None then Some (Ok False)
               else Some Undef))"

lemma HaveKeys_all: "HaveKeys E keys ks = length keys \<longleftrightarrow> (\<forall>k\<in>set keys. HaveKey ks (Hash160 E k))"
proof -
  have "length (filter P xs) = length xs \<longleftrightarrow> (\<forall>x\<in>set xs. P x)" for P and xs :: "valtype list"
    by (induction xs) (auto dest: length_filter_less)
  then show ?thesis by (simp add: HaveKeys_def)
qed

text \<open>
  C27: which outputs the wallet counts as its own.  An output to a key hash is its own exactly
  when it has the key; an output to the hash of a script only when it knows the script and, for
  a script of several keys, when it has every one of them, not just enough to spend it; an
  output to a witness key hash only when it also knows the script of the witness program and the
  key is a compressed one.
\<close>

theorem is_mine_exact:
  assumes "length h = 20" and "1 \<le> m" and "m \<le> length keys" and "length keys \<le> 16"
    and "\<forall>k\<in>set keys. length k \<ge> 33 \<and> length k \<le> 120" and "SetMultisig (int m) keys = Some s"
  shows "IsMine E ks (key_script h) False = Some (Ok (HaveKey ks h)) \<and>
    IsMine E ks (hash_script h) w =
      (if ks_script ks h = None then Some (Ok False) else IsMine E ks (the (ks_script ks h)) False) \<and>
    IsMine E ks s w = Some (Ok (\<forall>k\<in>set keys. HaveKey ks (Hash160 E k))) \<and>
    IsMine E ks (wit_script h) w =
      Some (Ok (ks_script ks (Hash160 E (wit_script h)) \<noteq> None \<and>
        (\<exists>pubkey. ks_pubkey ks h = Some pubkey \<and> length pubkey = 33)))"
proof -
  have wit: "push_op 0 @ push_vch h = wit_script h" by (simp add: wit_script_def)
  have key: "IsMine E ks (key_script h) v =
      Some (Ok (HaveKey ks h \<and> (v \<longrightarrow> (\<exists>pubkey. ks_pubkey ks h = Some pubkey \<and> length pubkey = 33))))" for v
    by (subst IsMine.simps) (auto simp: Solver_key_script [OF assms(1)] HaveKey_def split: option.splits)
  have "IsMine E ks (hash_script h) w =
      (if ks_script ks h = None then Some (Ok False) else IsMine E ks (the (ks_script ks h)) False)"
    by (subst IsMine.simps) (auto simp: Solver_hash_script [OF assms(1)] split: option.splits)
  moreover have "IsMine E ks s w = Some (Ok (\<forall>k\<in>set keys. HaveKey ks (Hash160 E k)))"
    by (subst IsMine.simps) (simp add: Solver_multisig [OF assms(2-6)] HaveKeys_all)
  moreover have "IsMine E ks (wit_script h) w =
      Some (Ok (ks_script ks (Hash160 E (wit_script h)) \<noteq> None \<and>
        (\<exists>pubkey. ks_pubkey ks h = Some pubkey \<and> length pubkey = 33)))"
    using key [of True] assms(1)
    by (subst IsMine.simps) (auto simp: Solver_wit_script wit GetScriptForDestination_def HaveKey_def)
  ultimately show ?thesis using key [of False] by simp
qed

text \<open>Concrete instance: a wallet that has one of the two keys of a script.\<close>

theorem is_mine_exact_witness:
  "\<exists>s. SetMultisig 1 [replicate 33 2, replicate 33 3] = Some s \<and>
     IsMine ref_env \<lparr>ks_pubkey = [replicate 20 2 \<mapsto> replicate 33 2], ks_script = Map.empty\<rparr> s False = Some (Ok False)"
proof -
  let ?ks = "\<lparr>ks_pubkey = [replicate 20 2 \<mapsto> replicate 33 2], ks_script = Map.empty\<rparr> :: keystore"
  obtain s where s: "SetMultisig 1 [replicate 33 2, replicate 33 3] = Some s" by (simp add: SetMultisig_def EncodeOP_N_def)
  have "replicate 33 (3 :: u8) = replicate 20 3 @ replicate 13 3" by (simp flip: replicate_add)
  then have "Hash160 ref_env (replicate 33 3) = replicate 20 3" by (simp add: Hash160_def ref_env_def)
  moreover have "replicate 20 (3 :: u8) \<noteq> replicate 20 2" by (simp add: numeral_eq_Suc)
  ultimately have "\<not> HaveKey ?ks (Hash160 ref_env (replicate 33 3))" by (simp add: HaveKey_def)
  with is_mine_exact [of "replicate 20 7" 1 "[replicate 33 2, replicate 33 3]" s ref_env ?ks False] s show ?thesis by simp
qed

text \<open>
  An output to the hash of a witness script.  As soon as the wallet knows the script of the
  witness program, asking whether the output is its own writes the 20 bytes of a hash into a
  vector without elements.
\<close>

lemma is_mine_witness_script_undefined:
  assumes "length program = 32" and "ks_script ks (Hash160 E (wit_script program)) \<noteq> None"
  shows "IsMine E ks (wit_script program) w = Some Undef"
  using assms by (subst IsMine.simps) (simp add: Solver_wit_script flip: wit_script_def)

lemma is_mine_witness_script_undefined_witness:
  "IsMine ref_env \<lparr>ks_pubkey = Map.empty, ks_script = (\<lambda>_. Some [])\<rparr> (wit_script (replicate 32 1)) False = Some Undef"
  by (rule is_mine_witness_script_undefined) simp_all

end
