(* ===== verification/Tx.thy ===== *)
theory Tx
  imports Serialize Solver Coin_Proto
begin

text \<open>
  Transactions: the classes \<open>COutPoint\<close>, \<open>CTxIn\<close>, \<open>CTxOut\<close>, \<open>CTxInWitness\<close>, \<open>CTransactionCore\<close> and
  \<open>CTransaction\<close> of \<^verbatim>\<open>server/block.h\<close>, their serialization and hashes, and the checks of
  \<^verbatim>\<open>server/block.cpp\<close> and \<^verbatim>\<open>server/main.cpp\<close> that need no chain.

  The objects a transaction carries for the extensions (certificate, alias, offer, matrix, channel)
  are kept as the bytes they serialize to, in the field \<open>payload\<close>; the objects themselves, their
  bytes and the serialization of a whole transaction are in the theory \<open>Tx_Ext\<close>.  A signed integer is a word and is
  read with \<^term>\<open>sint\<close>.
\<close>

section \<open>Data\<close>

record COutPoint =
  prev_hash :: u256
  prev_n :: u32

record CTxIn =
  prevout :: COutPoint
  scriptSig :: script
  nSequence :: u32

record CTxOut =
  nValue :: i64
  scriptPubKey :: script

text \<open>The witness of an input is its stack, the last element on top.\<close>

type_synonym witness = "valtype list"

record CTransaction =
  nFlag :: u32
  vin :: "CTxIn list"
  vout :: "CTxOut list"
  wit :: "witness list"
  nLockTime :: u32
  payload :: "u8 list"

definition TXF_VERSION :: u32 where "TXF_VERSION = 1"

definition SetNull :: CTransaction where
  "SetNull = \<lparr>nFlag = TXF_VERSION, vin = [], vout = [], wit = [], nLockTime = 0, payload = []\<rparr>"

definition outpoint_IsNull :: "COutPoint \<Rightarrow> bool" where
  "outpoint_IsNull p \<longleftrightarrow> prev_hash p = 0 \<and> prev_n p = -1"

definition outpoint_less :: "COutPoint \<Rightarrow> COutPoint \<Rightarrow> bool" where
  "outpoint_less a b \<longleftrightarrow> prev_hash a < prev_hash b \<or> prev_hash a = prev_hash b \<and> prev_n a < prev_n b"

definition txin_IsFinal :: "CTxIn \<Rightarrow> bool" where
  "txin_IsFinal i \<longleftrightarrow> nSequence i = -1"

definition wit_IsNull :: "witness list \<Rightarrow> bool" where
  "wit_IsNull ws \<longleftrightarrow> list_all (\<lambda>s. s = []) ws"

definition IsCoinBase :: "CTransaction \<Rightarrow> bool" where
  "IsCoinBase tx \<longleftrightarrow> length (vin tx) = 1 \<and> outpoint_IsNull (prevout (vin tx ! 0))"

definition isFlag :: "CTransaction \<Rightarrow> u32 \<Rightarrow> bool" where
  "isFlag tx flag \<longleftrightarrow> nFlag tx AND flag \<noteq> 0"

section \<open>Serialization\<close>

definition ser_outpoint :: "COutPoint \<Rightarrow> u8 list" where
  "ser_outpoint p = ser_int 32 (prev_hash p) @ ser_int 4 (prev_n p)"

definition de_outpoint :: "COutPoint reader" where
  "de_outpoint s = do {
     (bs, s) \<leftarrow> read_data 36 s;
     Some (\<lparr>prev_hash = of_nat (le_dec (take 32 bs)), prev_n = of_nat (le_dec (drop 32 bs))\<rparr>, s) }"

definition size_outpoint :: "COutPoint \<Rightarrow> u32" where
  "size_outpoint p = 36"

definition ser_txin :: "CTxIn \<Rightarrow> u8 list" where
  "ser_txin i = ser_outpoint (prevout i) @ ser_bytes (scriptSig i) @ ser_int 4 (nSequence i)"

definition de_txin :: "CTxIn reader" where
  "de_txin s = do {
     (p, s) \<leftarrow> de_outpoint s;
     (sc, s) \<leftarrow> de_bytes s;
     (q, s) \<leftarrow> de_int 4 s;
     Some (\<lparr>prevout = p, scriptSig = sc, nSequence = q\<rparr>, s) }"

definition size_txin :: "CTxIn \<Rightarrow> u32" where
  "size_txin i = size_outpoint (prevout i) + size_bytes (scriptSig i) + 4"

definition ser_txout :: "CTxOut \<Rightarrow> u8 list" where
  "ser_txout t = ser_int 8 (nValue t) @ ser_bytes (scriptPubKey t)"

definition de_txout :: "CTxOut reader" where
  "de_txout s = do {
     (v, s) \<leftarrow> de_int 8 s;
     (sc, s) \<leftarrow> de_bytes s;
     Some (\<lparr>nValue = v, scriptPubKey = sc\<rparr>, s) }"

definition size_txout :: "CTxOut \<Rightarrow> u32" where
  "size_txout t = 8 + size_bytes (scriptPubKey t)"

definition SERIALIZE_TRANSACTION_NO_WITNESS :: u32 where
  "SERIALIZE_TRANSACTION_NO_WITNESS = 0x40000000"

definition no_witness :: "u32 \<Rightarrow> bool" where
  "no_witness nVersion \<longleftrightarrow> nVersion AND SERIALIZE_TRANSACTION_NO_WITNESS \<noteq> 0"

definition resize :: "nat \<Rightarrow> 'a \<Rightarrow> 'a list \<Rightarrow> 'a list" where
  "resize k d xs = take k xs @ replicate (k - length xs) d"

text \<open>The flag byte is written when there is a witness to write.  Writing resizes the witness of the
  object, whose \<open>const\<close> is cast away, to one stack per input.\<close>

definition write_flag :: "u32 \<Rightarrow> CTransaction \<Rightarrow> bool" where
  "write_flag nVersion tx \<longleftrightarrow> \<not> no_witness nVersion \<and> \<not> wit_IsNull (wit tx)"

definition written :: "u32 \<Rightarrow> CTransaction \<Rightarrow> CTransaction" where
  "written nVersion tx =
     (if write_flag nVersion tx then tx\<lparr>wit := resize (length (vin tx)) [] (wit tx)\<rparr> else tx)"

definition ser_core :: "u32 \<Rightarrow> CTransaction \<Rightarrow> u8 list" where
  "ser_core nVersion tx =
     ser_int 4 (nFlag tx) @
     (if write_flag nVersion tx then ser_vec ser_txin [] @ [1] else []) @
     ser_vec ser_txin (vin tx) @ ser_vec ser_txout (vout tx) @
     (if write_flag nVersion tx then concat (map (ser_vec ser_bytes) (wit (written nVersion tx))) else []) @
     ser_int 4 (nLockTime tx)"

definition size_core :: "u32 \<Rightarrow> CTransaction \<Rightarrow> u32" where
  "size_core nVersion tx =
     4 + (if write_flag nVersion tx then size_vec size_txin [] + 1 else 0) +
     size_vec size_txin (vin tx) + size_vec size_txout (vout tx) +
     (if write_flag nVersion tx then sum_list (map (size_vec size_bytes) (wit (written nVersion tx))) else 0) + 4"

text \<open>Reading changes the object \<open>old\<close>; what the stream does not hold stays.\<close>

definition de_core :: "u32 \<Rightarrow> CTransaction \<Rightarrow> CTransaction reader" where
  "de_core nVersion old s = do {
     (fl, s) \<leftarrow> de_int 4 s;
     (is, s) \<leftarrow> de_vec de_txin s;
     ((flag, is, os), s) \<leftarrow>
       (if is = [] \<and> \<not> no_witness nVersion then do {
          (flag, s) \<leftarrow> (de_int 1 :: u8 reader) s;
          if flag \<noteq> 0 then do {
            (is, s) \<leftarrow> de_vec de_txin s;
            (os, s) \<leftarrow> de_vec de_txout s;
            Some ((flag, is, os), s) }
          else Some ((flag, is, vout old), s) }
        else do {
          (os, s) \<leftarrow> de_vec de_txout s;
          Some ((0, is, os), s) });
     (ws, s) \<leftarrow>
       (if flag AND 1 \<noteq> 0 \<and> \<not> no_witness nVersion then read_list (de_vec de_bytes) (length is) s
        else Some (wit old, s));
     (lt, s) \<leftarrow> de_int 4 s;
     Some (old\<lparr>nFlag := fl, vin := is, vout := os, wit := ws, nLockTime := lt\<rparr>, s) }"

text \<open>\<open>CTransaction::GetHash\<close> and \<open>GetWitnessHash\<close>: \<open>SerializeHash\<close> hashes the bytes twice.\<close>

definition SerializeHash :: "senv \<Rightarrow> u32 \<Rightarrow> CTransaction \<Rightarrow> u256" where
  "SerializeHash E nVersion tx = of_nat (le_dec (Hash E (ser_core nVersion tx @ payload tx)))"

definition GetHash :: "senv \<Rightarrow> CTransaction \<Rightarrow> u256" where
  "GetHash E tx = SerializeHash E SERIALIZE_TRANSACTION_NO_WITNESS tx"

definition GetWitnessHash :: "senv \<Rightarrow> CTransaction \<Rightarrow> u256" where
  "GetWitnessHash E tx = SerializeHash E 1 tx"

section \<open>Serialization reads back\<close>

definition txin_ok :: "CTxIn \<Rightarrow> bool" where
  "txin_ok i \<longleftrightarrow> length (scriptSig i) \<le> MAX_SIZE"

definition txout_ok :: "CTxOut \<Rightarrow> bool" where
  "txout_ok t \<longleftrightarrow> length (scriptPubKey t) \<le> MAX_SIZE"

abbreviation stack_ok :: "witness \<Rightarrow> bool" where
  "stack_ok \<equiv> vec_ok (\<lambda>v. length v \<le> MAX_SIZE)"

definition tx_ok :: "CTransaction \<Rightarrow> bool" where
  "tx_ok tx \<longleftrightarrow> vec_ok txin_ok (vin tx) \<and> vec_ok txout_ok (vout tx) \<and> list_all stack_ok (wit tx)"

interpretation int4: codec "ser_int 4 :: u32 \<Rightarrow> u8 list" "de_int 4" "\<lambda>_. of_nat 4" "\<lambda>_. True"
  by (rule int_codec) simp

interpretation int8: codec "ser_int 8 :: u64 \<Rightarrow> u8 list" "de_int 8" "\<lambda>_. of_nat 8" "\<lambda>_. True"
  by (rule int_codec) simp

interpretation int32: codec "ser_int 32 :: u256 \<Rightarrow> u8 list" "de_int 32" "\<lambda>_. of_nat 32" "\<lambda>_. True"
  by (rule int_codec) simp

lemma length_ser_int [simp]: "length (ser_int k x) = k"
  by (simp add: ser_int_def)

lemma of_nat_le_dec_ser_int:
  fixes x :: "'a :: len word"
  assumes "8 * k = LENGTH('a)"
  shows "of_nat (le_dec (ser_int k x)) = x"
proof -
  have "de_int k (ser_int k x @ []) = Some (x, [])" by (rule codec.round_trip [OF int_codec]) (use assms in simp_all)
  then show ?thesis by (simp add: de_int_def read_data_def)
qed

interpretation outpoint: codec ser_outpoint de_outpoint size_outpoint "\<lambda>_. True"
proof
  fix x s
  have "de_outpoint (ser_outpoint x @ s) =
      Some (\<lparr>prev_hash = of_nat (le_dec (ser_int 32 (prev_hash x))), prev_n = of_nat (le_dec (ser_int 4 (prev_n x)))\<rparr>, s)"
    unfolding de_outpoint_def by (subst read_data_append) (simp_all add: ser_outpoint_def)
  then show "de_outpoint (ser_outpoint x @ s) = Some (x, s)" by (simp add: of_nat_le_dec_ser_int)
  show "size_outpoint x = of_nat (length (ser_outpoint x))"
    by (simp add: size_outpoint_def ser_outpoint_def)
  fix t assume "de_outpoint s = Some (x, t)"
  then show "length (ser_outpoint x) + length t \<le> length s"
    by (auto simp: de_outpoint_def ser_outpoint_def split: bind_splits dest!: read_data_consumes)
qed

interpretation txin: codec ser_txin de_txin size_txin txin_ok
proof
  show "de_txin (ser_txin x @ s) = Some (x, s)" if "txin_ok x" for x s
    using that by (simp add: ser_txin_def de_txin_def txin_ok_def outpoint.round_trip bytes.round_trip int4.round_trip)
  show "size_txin x = of_nat (length (ser_txin x))" if "txin_ok x" for x
    using that by (simp add: ser_txin_def size_txin_def txin_ok_def outpoint.size bytes.size)
  show "length (ser_txin x) + length t \<le> length s" if "de_txin s = Some (x, t)" for x s t
    using that by (auto simp: de_txin_def ser_txin_def split: bind_splits
      dest!: outpoint.consumes bytes.consumes int4.consumes)
qed

interpretation txout: codec ser_txout de_txout size_txout txout_ok
proof
  show "de_txout (ser_txout x @ s) = Some (x, s)" if "txout_ok x" for x s
    using that by (simp add: ser_txout_def de_txout_def txout_ok_def bytes.round_trip int8.round_trip)
  show "size_txout x = of_nat (length (ser_txout x))" if "txout_ok x" for x
    using that by (simp add: ser_txout_def size_txout_def txout_ok_def bytes.size)
  show "length (ser_txout x) + length t \<le> length s" if "de_txout s = Some (x, t)" for x s t
    using that by (auto simp: de_txout_def ser_txout_def split: bind_splits dest!: bytes.consumes int8.consumes)
qed

interpretation inputs: codec "ser_vec ser_txin" "de_vec de_txin" "size_vec size_txin" "vec_ok txin_ok"
  by (rule txin.vec_codec)

interpretation outputs: codec "ser_vec ser_txout" "de_vec de_txout" "size_vec size_txout" "vec_ok txout_ok"
  by (rule txout.vec_codec)

interpretation stack: codec "ser_vec ser_bytes" "de_vec de_bytes" "size_vec size_bytes" stack_ok
  by (rule bytes.vec_codec)

lemma vec_ok_Nil [simp]: "vec_ok ok []"
  by (simp add: vec_ok_def)

lemma length_resize [simp]: "length (resize k d xs) = k"
  by (simp add: resize_def)

lemma list_all_resize: "list_all P xs \<Longrightarrow> P d \<Longrightarrow> list_all P (resize k d xs)"
  by (auto simp: resize_def list_all_iff dest: in_set_takeD)

lemma written_simps [simp]:
  "vin (written v tx) = vin tx" "vout (written v tx) = vout tx" "nFlag (written v tx) = nFlag tx"
  "nLockTime (written v tx) = nLockTime tx" "payload (written v tx) = payload tx"
  by (simp_all add: written_def)

lemma wit_written: "tx_ok tx \<Longrightarrow> list_all stack_ok (wit (written v tx))"
  by (auto simp: written_def tx_ok_def intro: list_all_resize)

lemma length_wit_written: "write_flag v tx \<Longrightarrow> length (wit (written v tx)) = length (vin tx)"
  by (simp add: written_def)

lemma de_flag: "(de_int 1 :: u8 reader) (1 # s) = Some (1, s)"
  by (simp add: de_int_def read_data_def)

lemma ser_core_flag:
  assumes "write_flag v tx"
  shows "ser_core v tx @ s = ser_int 4 (nFlag tx) @ ser_vec ser_txin [] @ 1 # ser_vec ser_txin (vin tx) @
     ser_vec ser_txout (vout tx) @ concat (map (ser_vec ser_bytes) (wit (written v tx))) @ ser_int 4 (nLockTime tx) @ s"
  using assms by (simp add: ser_core_def)

lemma ser_core_plain:
  assumes "\<not> write_flag v tx"
  shows "ser_core v tx @ s = ser_int 4 (nFlag tx) @ ser_vec ser_txin (vin tx) @
     ser_vec ser_txout (vout tx) @ ser_int 4 (nLockTime tx) @ s"
  using assms by (simp add: ser_core_def)

lemma de_ser_core_flag:
  assumes "tx_ok tx" and "write_flag v tx"
  shows "de_core v old (ser_core v tx @ s) = Some ((written v tx)\<lparr>payload := payload old\<rparr>, s)"
proof -
  have n: "\<not> no_witness v" using assms(2) by (simp add: write_flag_def)
  have ok: "vec_ok txin_ok (vin tx)" "vec_ok txout_ok (vout tx)" using assms(1) by (simp_all add: tx_ok_def)
  have w: "read_list (de_vec de_bytes) (length (vin tx))
      (concat (map (ser_vec ser_bytes) (wit (written v tx))) @ t) = Some (wit (written v tx), t)" for t
    using stack.list_round_trip [OF wit_written [OF assms(1), of v]] length_wit_written [OF assms(2)] by simp
  show ?thesis
    unfolding ser_core_flag [OF assms(2)] de_core_def
    by (simp add: int4.round_trip inputs.round_trip outputs.round_trip ok n de_flag [simplified] w)
qed

lemma de_ser_core_plain:
  assumes "tx_ok tx" and "\<not> write_flag v tx" and "vin tx \<noteq> [] \<or> no_witness v"
  shows "de_core v old (ser_core v tx @ s) = Some (tx\<lparr>wit := wit old, payload := payload old\<rparr>, s)"
proof -
  have ok: "vec_ok txin_ok (vin tx)" "vec_ok txout_ok (vout tx)" using assms(1) by (simp_all add: tx_ok_def)
  have "\<not> (vin tx = [] \<and> \<not> no_witness v)" using assms(3) by blast
  then have c: "(vin tx = [] \<and> \<not> no_witness v) = False" by simp
  show ?thesis
    unfolding ser_core_plain [OF assms(2)] de_core_def
    by (simp add: int4.round_trip inputs.round_trip outputs.round_trip ok c)
qed

lemma size_core_bytes:
  assumes "tx_ok tx"
  shows "size_core v tx = of_nat (length (ser_core v tx))"
  using assms stack.list_size [OF wit_written [OF assms, of v]]
  by (simp add: size_core_def ser_core_def tx_ok_def inputs.size outputs.size)

definition tx1 :: CTransaction where
  "tx1 = SetNull\<lparr>vin := [\<lparr>prevout = \<lparr>prev_hash = 7, prev_n = 1\<rparr>, scriptSig = [0x51], nSequence = -1\<rparr>],
     vout := [\<lparr>nValue = 5, scriptPubKey = [0x51]\<rparr>], wit := [[[9]]]\<rparr>"

lemma tx1_ok: "tx_ok tx1" "vin tx1 \<noteq> []"
  by (simp_all add: tx1_def SetNull_def tx_ok_def vec_ok_def txin_ok_def txout_ok_def MAX_SIZE_def)

lemma no_witness_flag: "no_witness SERIALIZE_TRANSACTION_NO_WITNESS"
  by (simp add: no_witness_def SERIALIZE_TRANSACTION_NO_WITNESS_def)

end
