(* ===== verification/Tx_Check.thy ===== *)
theory Tx_Check
  imports Tx
begin

text \<open>
  The checks of a transaction that need no chain: \<open>CheckTransaction\<close>, \<open>CheckTransactionInputs\<close>,
  \<open>IsFinal\<close>, \<open>IsNewerThan\<close>, \<open>IsStandard\<close>, \<open>AreInputsStandard\<close>, the values of inputs and outputs
  and the counts of signature operations (\<^verbatim>\<open>server/block.cpp\<close>, \<^verbatim>\<open>server/block.h\<close>,
  \<^verbatim>\<open>server/main.cpp\<close>).  Sums of amounts wrap at 64 bits and counts of signature operations at 32.

  The transactions whose outputs are spent are a map from hashes; that a hash is in the database of
  transactions (\<open>VerifyTxHash\<close>) is a predicate.
\<close>

section \<open>Amounts\<close>

definition MoneyRange :: "coin_limits \<Rightarrow> i64 \<Rightarrow> bool" where
  "MoneyRange lims v \<longleftrightarrow> 0 \<le> sint v \<and> v \<le> max_money lims"

definition GetValueOut :: "CTransaction \<Rightarrow> i64" where
  "GetValueOut tx = foldl (\<lambda>a t. a + nValue t) 0 (vout tx)"

section \<open>\<open>CheckTransaction\<close>\<close>

fun check_outputs :: "coin_limits \<Rightarrow> i64 \<Rightarrow> CTxOut list \<Rightarrow> bool" where
  "check_outputs lims nValueOut [] = True"
| "check_outputs lims nValueOut (t # ts) =
     (if sint (nValue t) < 0 then False
      else if nValue t > max_money lims then False
      else if \<not> MoneyRange lims (nValueOut + nValue t) then False
      else check_outputs lims (nValueOut + nValue t) ts)"

text \<open>The set of the outpoints seen is ordered by \<open>operator<\<close>: an element counts when neither
  is less than the other.\<close>

definition outpoint_count :: "COutPoint list \<Rightarrow> COutPoint \<Rightarrow> bool" where
  "outpoint_count seen p \<longleftrightarrow> list_ex (\<lambda>q. \<not> outpoint_less p q \<and> \<not> outpoint_less q p) seen"

fun check_inputs :: "COutPoint list \<Rightarrow> CTxIn list \<Rightarrow> bool" where
  "check_inputs seen [] = True"
| "check_inputs seen (i # is) =
     (if outpoint_count seen (prevout i) then False else check_inputs (prevout i # seen) is)"

definition GetSerializeSize :: "u32 \<Rightarrow> CTransaction \<Rightarrow> u32" where
  "GetSerializeSize nVersion tx = size_core nVersion tx + of_nat (length (payload tx))"

definition CheckTransaction :: "coin_limits \<Rightarrow> u32 \<Rightarrow> CTransaction \<Rightarrow> bool" where
  "CheckTransaction lims nVersion tx =
     (if vin tx = [] then False
      else if vout tx = [] then False
      else if ucast (GetSerializeSize nVersion tx) > max_block_size lims then False
      else if \<not> check_outputs lims 0 (vout tx) then False
      else if \<not> check_inputs [] (vin tx) then False
      else if IsCoinBase tx then
        \<not> (length (scriptSig (vin tx ! 0)) < 2 \<or> length (scriptSig (vin tx ! 0)) > 100)
      else list_all (\<lambda>i. \<not> outpoint_IsNull (prevout i)) (vin tx))"

section \<open>\<open>CheckTransactionInputs\<close>\<close>

definition CheckTransactionInputs :: "(u256 \<Rightarrow> bool) \<Rightarrow> CTransaction \<Rightarrow> bool" where
  "CheckTransactionInputs VerifyTxHash tx =
     (if IsCoinBase tx then True
      else if vin tx = [] then False
      else list_all (\<lambda>i. \<not> outpoint_IsNull (prevout i) \<and> VerifyTxHash (prev_hash (prevout i))) (vin tx))"

definition tx_eq :: "CTransaction \<Rightarrow> CTransaction \<Rightarrow> bool" where
  "tx_eq a b \<longleftrightarrow> nFlag a = nFlag b \<and> vin a = vin b \<and> vout a = vout b \<and> nLockTime a = nLockTime b"

definition in_block :: "senv \<Rightarrow> CTransaction list \<Rightarrow> CTransaction \<Rightarrow> bool" where
  "in_block E vtx tx \<longleftrightarrow>
     list_ex (\<lambda>i. list_ex (\<lambda>t. \<not> tx_eq tx t \<and> GetHash E t = prev_hash (prevout i)) vtx) (vin tx)"

definition block_CheckTransactionInputs :: "senv \<Rightarrow> (u256 \<Rightarrow> bool) \<Rightarrow> CTransaction list \<Rightarrow> bool" where
  "block_CheckTransactionInputs E VerifyTxHash vtx \<longleftrightarrow>
     list_all (\<lambda>tx. in_block E vtx tx \<or> CheckTransactionInputs VerifyTxHash tx) vtx"

section \<open>Lock times and replacement\<close>

definition LOCKTIME_THRESHOLD :: int where "LOCKTIME_THRESHOLD = 500000000"

definition IsFinal :: "int \<Rightarrow> int \<Rightarrow> CTransaction \<Rightarrow> int \<Rightarrow> int \<Rightarrow> bool" where
  "IsFinal GetBestHeight GetAdjustedTime tx nBlockHeight nBlockTime =
     (let lock = int (unat (nLockTime tx));
          nBlockHeight = (if nBlockHeight = 0 then GetBestHeight else nBlockHeight);
          nBlockTime = (if nBlockTime = 0 then GetAdjustedTime else nBlockTime)
      in if nLockTime tx = 0 then True
         else if lock < (if lock < LOCKTIME_THRESHOLD then nBlockHeight else nBlockTime) then True
         else list_all txin_IsFinal (vin tx))"

fun newer_loop :: "(CTxIn \<times> CTxIn) list \<Rightarrow> bool \<Rightarrow> u32 \<Rightarrow> bool" where
  "newer_loop [] fNewer nLowest = fNewer"
| "newer_loop ((i, old) # ps) fNewer nLowest =
     (if nSequence i \<noteq> nSequence old then
        let (fNewer, nLowest) =
              (if nSequence i \<le> nLowest then (False, nSequence i) else (fNewer, nLowest));
            (fNewer, nLowest) =
              (if nSequence old < nLowest then (True, nSequence old) else (fNewer, nLowest))
        in newer_loop ps fNewer nLowest
      else newer_loop ps fNewer nLowest)"

definition IsNewerThan :: "CTransaction \<Rightarrow> CTransaction \<Rightarrow> bool" where
  "IsNewerThan tx old =
     (if length (vin tx) \<noteq> length (vin old) then False
      else if map prevout (vin tx) \<noteq> map prevout (vin old) then False
      else newer_loop (zip (vin tx) (vin old)) False (-1))"

section \<open>Standard transactions\<close>

definition tx_IsStandard :: "CTransaction \<Rightarrow> bool" where
  "tx_IsStandard tx =
     (if \<not> isFlag tx 1 \<and> \<not> isFlag tx 2 then False
      else if \<not> list_all (\<lambda>i. \<not> length (scriptSig i) > 500 \<and> IsPushOnly (scriptSig i)) (vin tx) then False
      else list_all (\<lambda>t. IsStandard (scriptPubKey t)) (vout tx))"

text \<open>\<open>GetOutputFor\<close>: \<^term>\<open>None\<close> is the exception of the one version and \<open>false\<close> of the other.\<close>

type_synonym tx_cache = "u256 \<rightharpoonup> CTransaction"

definition GetOutputFor :: "tx_cache \<Rightarrow> CTxIn \<Rightarrow> CTxOut option" where
  "GetOutputFor inputs i =
     (case inputs (prev_hash (prevout i)) of None \<Rightarrow> None
      | Some txPrev \<Rightarrow>
          if unat (prev_n (prevout i)) \<ge> length (vout txPrev) then None
          else Some (vout txPrev ! unat (prev_n (prevout i))))"

datatype answer = Yes | No | Thrown | Undefined

text \<open>
  One round of the loop of \<open>AreInputsStandard\<close>: \<^term>\<open>None\<close> goes on with the next input.  Too many
  signature operations leave through \<^verbatim>\<open>return (SHERR_INVAL, "...")\<close>, a comma expression whose value
  is the string, which converts to \<open>true\<close>.
\<close>

definition redeem_standard :: "valtype list \<Rightarrow> int \<Rightarrow> answer + int" where
  "redeem_standard stk nArgsExpected =
     (if stk = [] then Inl No
      else case Solver (hd stk) of None \<Rightarrow> Inl No
      | Some (whichType2, vSolutions2) \<Rightarrow>
          if whichType2 = TX_SCRIPTHASH then Inl No
          else if GetSigOpCount (hd stk) True > 15 then Inl Yes
          else let tmpExpected = ScriptSigArgsExpected whichType2 vSolutions2 in
            if tmpExpected < 0 then Inl No else Inr (nArgsExpected + tmpExpected))"

definition input_standard :: "senv \<Rightarrow> tx_cache \<Rightarrow> CTxIn \<Rightarrow> answer option" where
  "input_standard E mapInputs i =
     (case GetOutputFor mapInputs i of None \<Rightarrow> Some Thrown
      | Some prev \<Rightarrow>
          (case Solver (scriptPubKey prev) of None \<Rightarrow> Some No
           | Some (whichType, vSolutions) \<Rightarrow>
               let nArgsExpected = ScriptSigArgsExpected whichType vSolutions in
               if nArgsExpected < 0 then Some No
               else case EvalScript E [] (scriptSig i) SIGVERSION_BASE 0 of
                 Undef \<Rightarrow> Some Undefined
               | Fail \<Rightarrow> Some No
               | Ok stk \<Rightarrow>
                   (case (if whichType = TX_SCRIPTHASH then redeem_standard stk nArgsExpected else Inr nArgsExpected) of
                      Inl a \<Rightarrow> Some a
                    | Inr nArgsExpected \<Rightarrow> if int (length stk) > nArgsExpected then Some No else None)))"

text \<open>The environment of the script interpreter depends on the input that is signed.\<close>

fun inputs_standard :: "(nat \<Rightarrow> senv) \<Rightarrow> tx_cache \<Rightarrow> nat \<Rightarrow> CTxIn list \<Rightarrow> answer" where
  "inputs_standard E mapInputs k [] = Yes"
| "inputs_standard E mapInputs k (i # is) =
     (case input_standard (E k) mapInputs i of
        Some a \<Rightarrow> a
      | None \<Rightarrow> inputs_standard E mapInputs (Suc k) is)"

definition AreInputsStandard :: "(nat \<Rightarrow> senv) \<Rightarrow> tx_cache \<Rightarrow> CTransaction \<Rightarrow> answer" where
  "AreInputsStandard E mapInputs tx =
     (if IsCoinBase tx then Yes else inputs_standard E mapInputs 0 (vin tx))"

section \<open>Values of the inputs\<close>

definition GetValueIn :: "tx_cache \<Rightarrow> CTransaction \<Rightarrow> i64" where
  "GetValueIn inputs tx =
     (if IsCoinBase tx then 0
      else foldl (\<lambda>a i. case GetOutputFor inputs i of None \<Rightarrow> a | Some out \<Rightarrow> a + nValue out) 0 (vin tx))"

fun value_in_loop :: "tx_cache \<Rightarrow> i64 \<Rightarrow> CTxIn list \<Rightarrow> i64 option" where
  "value_in_loop inputs nResult [] = Some nResult"
| "value_in_loop inputs nResult (i # is) =
     (case GetOutputFor inputs i of None \<Rightarrow> None
      | Some out \<Rightarrow> value_in_loop inputs (nResult + nValue out) is)"

definition GetValueIn_map :: "tx_cache \<Rightarrow> CTransaction \<Rightarrow> i64 option" where
  "GetValueIn_map inputs tx = value_in_loop inputs 0 (vin tx)"

section \<open>Signature operations\<close>

definition GetLegacySigOpCount :: "CTransaction \<Rightarrow> u32" where
  "GetLegacySigOpCount tx =
     foldl (\<lambda>a t. a + GetSigOpCount (scriptPubKey t) False)
       (foldl (\<lambda>a i. a + GetSigOpCount (scriptSig i) False) 0 (vin tx)) (vout tx)"

fun p2sh_loop :: "tx_cache \<Rightarrow> u32 \<Rightarrow> CTxIn list \<Rightarrow> u32 option" where
  "p2sh_loop inputs nSigOps [] = Some nSigOps"
| "p2sh_loop inputs nSigOps (i # is) =
     (case GetOutputFor inputs i of None \<Rightarrow> None
      | Some out \<Rightarrow> p2sh_loop inputs
          (if IsPayToScriptHash (scriptPubKey out) then nSigOps + GetSigOpCount_for (scriptPubKey out) (scriptSig i)
           else nSigOps) is)"

definition GetP2SHSigOpCount :: "tx_cache \<Rightarrow> CTransaction \<Rightarrow> u32 option" where
  "GetP2SHSigOpCount inputs tx = (if IsCoinBase tx then Some 0 else p2sh_loop inputs 0 (vin tx))"

definition WitnessSigOps :: "nat \<Rightarrow> valtype \<Rightarrow> witness \<Rightarrow> u64" where
  "WitnessSigOps witversion witprogram witness =
     (if witversion = 0 \<and> length witprogram = 20 then 1
      else if witversion = 0 \<and> length witprogram = 32 \<and> witness \<noteq> [] then ucast (GetSigOpCount (last witness) True)
      else 0)"

text \<open>The operand of the last instruction of the signature script, which is known to be of pushes.\<close>

definition CountWitnessSigOps :: "script \<Rightarrow> script \<Rightarrow> witness \<Rightarrow> u32 \<Rightarrow> u64" where
  "CountWitnessSigOps sig pubKey witness flags =
     (if flags \<noteq> 0 \<and> flags AND SCRIPT_VERIFY_WITNESS = 0 then 0
      else case IsWitnessProgram pubKey of
        Some (ver, prog) \<Rightarrow> WitnessSigOps ver prog witness
      | None \<Rightarrow>
          if IsPayToScriptHash pubKey \<and> IsPushOnly sig then
            (case last_push sig [] of None \<Rightarrow> 0
             | Some subscript \<Rightarrow>
                 (case IsWitnessProgram subscript of
                    Some (ver, prog) \<Rightarrow> WitnessSigOps ver prog witness
                  | None \<Rightarrow> 0))
          else 0)"

definition SCALE_FACTOR :: u32 where "SCALE_FACTOR = 4"
definition SCRIPT_VERIFY_P2SH :: u32 where "SCRIPT_VERIFY_P2SH = 1"

text \<open>A missing witness is an empty one.\<close>

definition input_wit :: "CTransaction \<Rightarrow> nat \<Rightarrow> witness" where
  "input_wit tx k = (if k < length (wit tx) then wit tx ! k else [])"

fun witness_loop :: "tx_cache \<Rightarrow> CTransaction \<Rightarrow> u32 \<Rightarrow> u64 \<Rightarrow> nat \<Rightarrow> CTxIn list \<Rightarrow> u64" where
  "witness_loop inputs tx flags nSigOps k [] = nSigOps"
| "witness_loop inputs tx flags nSigOps k (i # is) =
     witness_loop inputs tx flags
       (case GetOutputFor inputs i of None \<Rightarrow> nSigOps
        | Some out \<Rightarrow> nSigOps + CountWitnessSigOps (scriptSig i) (scriptPubKey out) (input_wit tx k) flags) (Suc k) is"

text \<open>
  \<open>GetSigOpCost\<close> on a cache: the loop over the pay-to-script-hash inputs adds to a second variable
  \<open>nSigOps\<close> which ends with the block, so it leaves nothing behind.
\<close>

definition GetSigOpCost :: "tx_cache \<Rightarrow> CTransaction \<Rightarrow> u32 \<Rightarrow> u64" where
  "GetSigOpCost inputs tx flags =
     (let nSigOps = ucast (GetLegacySigOpCount tx * SCALE_FACTOR) in
      if IsCoinBase tx then nSigOps
      else if flags = 0 \<or> flags AND SCRIPT_VERIFY_WITNESS \<noteq> 0
        then witness_loop inputs tx flags nSigOps 0 (vin tx)
      else nSigOps)"

fun witness_loop_map :: "tx_cache \<Rightarrow> CTransaction \<Rightarrow> u32 \<Rightarrow> u64 \<Rightarrow> nat \<Rightarrow> CTxIn list \<Rightarrow> u64 option" where
  "witness_loop_map inputs tx flags nSigOps k [] = Some nSigOps"
| "witness_loop_map inputs tx flags nSigOps k (i # is) =
     (case GetOutputFor inputs i of None \<Rightarrow> None
      | Some out \<Rightarrow> witness_loop_map inputs tx flags
          (nSigOps + CountWitnessSigOps (scriptSig i) (scriptPubKey out) (input_wit tx k) flags) (Suc k) is)"

definition GetSigOpCost_map :: "tx_cache \<Rightarrow> CTransaction \<Rightarrow> u32 \<Rightarrow> u64 option" where
  "GetSigOpCost_map inputs tx flags =
     (let nSigOps = ucast (GetLegacySigOpCount tx * SCALE_FACTOR) in
      if IsCoinBase tx then Some nSigOps
      else do {
        p \<leftarrow> (if flags \<noteq> 0 \<and> flags AND SCRIPT_VERIFY_P2SH \<noteq> 0
              then map_option (\<lambda>c. ucast (c * SCALE_FACTOR)) (GetP2SHSigOpCount inputs tx) else Some 0);
        witness_loop_map inputs tx flags (nSigOps + p) 0 (vin tx) })"

section \<open>What \<open>CheckTransaction\<close> accepts\<close>

lemma uint_u64: "uint (x :: i64) < 2 ^ 64" "0 \<le> uint x"
  using uint_range_size [of x] by (simp_all add: word_size)

lemma sint_u64: "sint (x :: i64) = (if uint x < 2 ^ 63 then uint x else uint x - 2 ^ 64)"
proof -
  have "bit (uint x) 63 \<longleftrightarrow> \<not> uint x < 2 ^ 63"
  proof
    assume "bit (uint x) 63"
    then have "odd (uint x div 2 ^ 63)" by (simp add: bit_iff_odd)
    then show "\<not> uint x < 2 ^ 63" using uint_u64 [of x] by auto
  next
    assume "\<not> uint x < 2 ^ 63"
    then have "uint x div 2 ^ 63 = 1" using uint_u64 [of x] by simp
    then show "bit (uint x) 63" by (simp add: bit_iff_odd)
  qed
  moreover have "take_bit 64 (uint x) = uint x" using uint_u64 [of x] by (simp add: take_bit_int_eq_self)
  moreover have "sint x = take_bit 64 (uint x) - 2 ^ 64 * of_bool (bit (uint x) 63)"
    using signed_take_bit_eq_take_bit_minus [of 63 "uint x"] by (simp add: sint_uint numeral_eq_Suc)
  ultimately show ?thesis by simp
qed

lemma sint_nonneg: "0 \<le> sint (x :: i64) \<longleftrightarrow> uint x < 2 ^ 63"
  using uint_u64 [of x] by (auto simp: sint_u64)

lemma sint_uint_nonneg: "0 \<le> sint (x :: i64) \<Longrightarrow> sint x = uint x"
  by (simp only: sint_nonneg) (simp add: sint_u64)

lemma uint_add_small: "uint (a :: i64) + uint b < 2 ^ 64 \<Longrightarrow> uint (a + b) = uint a + uint b"
  using uint_u64 [of a] uint_u64 [of b] by (simp add: uint_word_ariths)

lemma MoneyRange_uint:
  "uint (max_money lims) < 2 ^ 62 \<Longrightarrow> MoneyRange lims v \<longleftrightarrow> uint v \<le> uint (max_money lims)"
  by (auto simp: MoneyRange_def sint_nonneg word_le_def)

lemma check_outputs_iff:
  assumes m: "uint (max_money lims) < 2 ^ 62"
  shows "uint a \<le> uint (max_money lims) \<Longrightarrow> check_outputs lims a ts \<longleftrightarrow>
     (\<forall>t\<in>set ts. 0 \<le> sint (nValue t)) \<and> uint a + (\<Sum>t\<leftarrow>ts. sint (nValue t)) \<le> uint (max_money lims)"
proof (induction ts arbitrary: a)
  case (Cons t ts)
  let ?v = "nValue t"
  have nn: "0 \<le> (\<Sum>t\<leftarrow>ts. sint (nValue t))" if "\<forall>t\<in>set ts. 0 \<le> sint (nValue t)"
    using that by (auto intro!: sum_list_nonneg)
  show ?case
  proof (cases "0 \<le> sint ?v \<and> ?v \<le> max_money lims")
    case True
    then have v: "sint ?v = uint ?v" "uint ?v \<le> uint (max_money lims)"
      by (auto simp: sint_uint_nonneg word_le_def)
    have ad: "uint (a + ?v) = uint a + uint ?v" using v(2) Cons.prems m by (intro uint_add_small) simp
    show ?thesis
    proof (cases "uint a + uint ?v \<le> uint (max_money lims)")
      case True
      then have "uint (a + ?v) \<le> uint (max_money lims)" by (simp add: ad)
      then have "check_outputs lims a (t # ts) \<longleftrightarrow> (\<forall>t\<in>set ts. 0 \<le> sint (nValue t)) \<and>
          uint (a + ?v) + (\<Sum>t\<leftarrow>ts. sint (nValue t)) \<le> uint (max_money lims)"
        using Cons.IH [of "a + ?v"] \<open>0 \<le> sint ?v \<and> ?v \<le> max_money lims\<close>
        by (simp add: MoneyRange_uint [OF m] not_le [symmetric])
      then show ?thesis using True \<open>0 \<le> sint ?v \<and> ?v \<le> max_money lims\<close>
        by (simp add: ad v(1) add.assoc del: check_outputs.simps)
    next
      case False
      then have "\<not> check_outputs lims a (t # ts)" by (simp add: MoneyRange_uint [OF m] ad)
      with False nn v(1) show ?thesis by fastforce
    qed
  next
    case False
    then have "\<not> check_outputs lims a (t # ts)" by (auto simp: not_le)
    moreover have "\<not> uint a + sint ?v \<le> uint (max_money lims)" if "0 \<le> sint ?v"
      using that False order_trans [of "uint ?v" "uint a + uint ?v" "uint (max_money lims)"]
      by (auto simp: sint_uint_nonneg word_le_def)
    ultimately show ?thesis using nn by fastforce
  qed
qed simp

lemma outpoint_count_iff: "outpoint_count seen p \<longleftrightarrow> p \<in> set seen"
proof -
  have "\<not> outpoint_less p q \<and> \<not> outpoint_less q p \<longleftrightarrow> q = p" for q
    by (cases p; cases q) (auto simp: outpoint_less_def)
  then show ?thesis by (auto simp: outpoint_count_def list_ex_iff)
qed

lemma check_inputs_iff:
  "check_inputs seen is \<longleftrightarrow> distinct (map prevout is) \<and> set (map prevout is) \<inter> set seen = {}"
  by (induction "is" arbitrary: seen) (auto simp: outpoint_count_iff)

lemma foldl_values:
  "(\<forall>t\<in>set ts. 0 \<le> sint (nValue t)) \<Longrightarrow> uint a + (\<Sum>t\<leftarrow>ts. sint (nValue t)) < 2 ^ 63 \<Longrightarrow>
     uint (foldl (\<lambda>a t. a + nValue t) a ts) = uint a + (\<Sum>t\<leftarrow>ts. sint (nValue t))"
proof (induction ts arbitrary: a)
  case (Cons t ts)
  have v: "sint (nValue t) = uint (nValue t)" using Cons.prems(1) by (auto simp: sint_uint_nonneg)
  have nn: "0 \<le> (\<Sum>t\<leftarrow>ts. sint (nValue t))" using Cons.prems(1) by (auto intro!: sum_list_nonneg)
  have ad: "uint (a + nValue t) = uint a + uint (nValue t)" using Cons.prems(2) nn v by (intro uint_add_small) simp
  show ?case using Cons.IH [of "a + nValue t"] Cons.prems by (simp add: ad v)
qed simp

text \<open>
  C7: \<open>CheckTransaction\<close> accepts a transaction exactly when it has inputs and outputs, fits a block,
  no output is negative, the outputs add up, as integers, to no more than the coin's supply, no
  outpoint is spent twice, the script of a coinbase has 2 to 100 bytes and only a coinbase has a null
  outpoint.  In this case \<open>GetValueOut\<close> is the exact sum: no addition of the loops overflows.  The
  supply of each coin is below $2^{62}$.
\<close>

theorem check_transaction_exact:
  assumes "uint (max_money lims) < 2 ^ 62"
  shows "(CheckTransaction lims v tx \<longleftrightarrow>
      vin tx \<noteq> [] \<and> vout tx \<noteq> [] \<and> unat (GetSerializeSize v tx) \<le> unat (max_block_size lims) \<and>
      (\<forall>t\<in>set (vout tx). 0 \<le> sint (nValue t)) \<and>
      (\<Sum>t\<leftarrow>vout tx. sint (nValue t)) \<le> int (unat (max_money lims)) \<and>
      distinct (map prevout (vin tx)) \<and>
      (if IsCoinBase tx then length (scriptSig (vin tx ! 0)) \<in> {2..100}
       else \<forall>i\<in>set (vin tx). \<not> outpoint_IsNull (prevout i))) \<and>
    (CheckTransaction lims v tx \<longrightarrow> sint (GetValueOut tx) = (\<Sum>t\<leftarrow>vout tx. sint (nValue t)))"
proof -
  have sz: "max_block_size lims < ucast (GetSerializeSize v tx) \<longleftrightarrow>
      \<not> unat (GetSerializeSize v tx) \<le> unat (max_block_size lims)"
    using unat_less_2p [of "GetSerializeSize v tx"]
    by (simp add: word_less_nat_alt unsigned_ucast_eq take_bit_nat_eq_self not_le)
  note outs = check_outputs_iff [OF assms, of 0 "vout tx"]
  have main: "CheckTransaction lims v tx \<longleftrightarrow>
      vin tx \<noteq> [] \<and> vout tx \<noteq> [] \<and> unat (GetSerializeSize v tx) \<le> unat (max_block_size lims) \<and>
      (\<forall>t\<in>set (vout tx). 0 \<le> sint (nValue t)) \<and>
      (\<Sum>t\<leftarrow>vout tx. sint (nValue t)) \<le> int (unat (max_money lims)) \<and> distinct (map prevout (vin tx)) \<and>
      (if IsCoinBase tx then length (scriptSig (vin tx ! 0)) \<in> {2..100}
       else \<forall>i\<in>set (vin tx). \<not> outpoint_IsNull (prevout i))"
    using outs by (auto simp: CheckTransaction_def check_inputs_iff sz list_all_iff)
  moreover have "sint (GetValueOut tx) = (\<Sum>t\<leftarrow>vout tx. sint (nValue t))" if "CheckTransaction lims v tx"
  proof -
    have "(\<forall>t\<in>set (vout tx). 0 \<le> sint (nValue t))" "(\<Sum>t\<leftarrow>vout tx. sint (nValue t)) \<le> uint (max_money lims)"
      using that main by auto
    then show ?thesis using foldl_values [of "vout tx" 0] assms by (simp add: GetValueOut_def sint_u64)
  qed
  ultimately show ?thesis by blast
qed

definition lims1 :: coin_limits where
  "lims1 = \<lparr>max_block_size = 4096, min_tx_fee = 0, max_money = 1000, coinbase_maturity = 60\<rparr>"

text \<open>Concrete instance: a payment of 5 of a supply of 1000 passes, one of 1001 does not.\<close>

theorem check_transaction_exact_witness:
  "CheckTransaction lims1 1 tx1 \<and> sint (GetValueOut tx1) = 5 \<and>
   \<not> CheckTransaction lims1 1 (tx1\<lparr>vout := [\<lparr>nValue = 1001, scriptPubKey = []\<rparr>]\<rparr>)"
proof -
  have m: "uint (max_money lims1) < 2 ^ 62" by (simp add: lims1_def)
  have s: "unat (GetSerializeSize 1 tx1) \<le> unat (max_block_size lims1)"
    by (simp add: lims1_def GetSerializeSize_def size_core_def tx1_def SetNull_def write_flag_def written_def
        no_witness_def SERIALIZE_TRANSACTION_NO_WITNESS_def wit_IsNull_def size_vec_def size_txin_def size_txout_def
        size_bytes_def GetSizeOfCompactSize_def size_outpoint_def resize_def)
  show ?thesis
    using check_transaction_exact [OF m, of 1 tx1]
      check_transaction_exact [OF m, of 1 "tx1\<lparr>vout := [\<lparr>nValue = 1001, scriptPubKey = []\<rparr>]\<rparr>"] s
    by (simp add: tx1_def SetNull_def lims1_def IsCoinBase_def outpoint_IsNull_def)
qed

section \<open>Replacement, lock times and signature operations\<close>

definition differing :: "(CTxIn \<times> CTxIn) list \<Rightarrow> (u32 \<times> u32) list" where
  "differing ps = filter (\<lambda>(s, t). s \<noteq> t) (map (\<lambda>(i, old). (nSequence i, nSequence old)) ps)"

text \<open>The loop keeps the lower of two minima, and whether it is that of the old transaction.\<close>

lemma newer_loop_fold:
  "low = min nmin omin \<Longrightarrow> f = (omin < nmin) \<Longrightarrow>
     newer_loop ps f low \<longleftrightarrow> fold min (map snd (differing ps)) omin < fold min (map fst (differing ps)) nmin"
proof (induction ps arbitrary: f low nmin omin)
  case (Cons p ps)
  obtain i old where p: "p = (i, old)" by fastforce
  show ?case
  proof (cases "nSequence i = nSequence old")
    case False
    let ?s = "if nSequence i \<le> low then (False, nSequence i) else (f, low)"
    let ?t = "if nSequence old < snd ?s then (True, nSequence old) else ?s"
    have l: "newer_loop (p # ps) f low = newer_loop ps (fst ?t) (snd ?t)"
      using False by (simp add: p Let_def split: prod.splits if_splits)
    have "snd ?t = min (min (nSequence i) nmin) (min (nSequence old) omin)"
      "fst ?t = (min (nSequence old) omin < min (nSequence i) nmin)"
      using Cons.prems False by (auto simp: min_def)
    from Cons.IH [OF this] l show ?thesis using False by (simp add: p differing_def)
  qed (use Cons in \<open>simp add: p differing_def\<close>)
qed (simp add: differing_def)

lemma fold_min_less: "fold min xs a < b \<longleftrightarrow> a < b \<or> (\<exists>x\<in>set xs. x < b)" for a :: "'a :: linorder"
  by (induction xs arbitrary: a) (auto simp: min_less_iff_disj)

lemma less_fold_min: "b < fold min xs a \<longleftrightarrow> b < a \<and> (\<forall>x\<in>set xs. b < x)" for a :: "'a :: linorder"
  by (induction xs arbitrary: a) auto

lemma newer_loop_iff:
  "newer_loop ps False (-1) \<longleftrightarrow>
     (\<exists>p\<in>set (differing ps). \<forall>q\<in>set (differing ps). snd p < fst q)" (is "?L \<longleftrightarrow> ?R")
proof -
  have "?L \<longleftrightarrow> fold min (map snd (differing ps)) (-1) < fold min (map fst (differing ps)) (-1)"
    by (rule newer_loop_fold) simp_all
  also have "\<dots> \<longleftrightarrow> (\<exists>p\<in>set (differing ps). snd p < -1 \<and> (\<forall>q\<in>set (differing ps). snd p < fst q))"
    by (subst fold_min_less) (auto simp: less_fold_min)
  also have "\<dots> \<longleftrightarrow> ?R"
  proof -
    have "snd p < -1" if "p \<in> set (differing ps)" "\<forall>q\<in>set (differing ps). snd p < fst q" for p
      using that order_less_le_trans [of "snd p" "fst p" "-1"] by simp
    then show ?thesis by blast
  qed
  finally show ?thesis .
qed


text \<open>
  \<open>IsNewerThan\<close> decides replacement in the memory pool: a transaction is newer than an old one
  exactly when both spend the same outpoints in the same order and, among the inputs with different
  sequence numbers, the old transaction has one that is less than all those of the new transaction.
  Of two transactions at most one is newer than the other.
\<close>

lemma is_newer_exact:
  "(IsNewerThan tx old \<longleftrightarrow> map prevout (vin tx) = map prevout (vin old) \<and>
     (\<exists>k < length (vin old). nSequence (vin tx ! k) \<noteq> nSequence (vin old ! k) \<and>
       (\<forall>j < length (vin old). nSequence (vin tx ! j) \<noteq> nSequence (vin old ! j) \<longrightarrow>
          nSequence (vin old ! k) < nSequence (vin tx ! j)))) \<and>
   \<not> (IsNewerThan tx old \<and> IsNewerThan old tx)"
proof -
  have iff: "IsNewerThan tx old \<longleftrightarrow> map prevout (vin tx) = map prevout (vin old) \<and>
     (\<exists>k < length (vin old). nSequence (vin tx ! k) \<noteq> nSequence (vin old ! k) \<and>
       (\<forall>j < length (vin old). nSequence (vin tx ! j) \<noteq> nSequence (vin old ! j) \<longrightarrow>
          nSequence (vin old ! k) < nSequence (vin tx ! j)))" for tx old
  proof (cases "length (vin tx) = length (vin old)")
    case True
    have s: "set (differing (zip (vin tx) (vin old))) =
        {(nSequence (vin tx ! k), nSequence (vin old ! k)) |k. k < length (vin old) \<and>
          nSequence (vin tx ! k) \<noteq> nSequence (vin old ! k)}"
      using True by (force simp: differing_def set_zip)
    show ?thesis unfolding IsNewerThan_def newer_loop_iff s using True by (auto 4 4)
  qed (auto simp: IsNewerThan_def dest: map_eq_imp_length_eq)
  have "\<not> (IsNewerThan tx old \<and> IsNewerThan old tx)"
  proof
    assume "IsNewerThan tx old \<and> IsNewerThan old tx"
    then obtain k m where
      "k < length (vin old)" "nSequence (vin tx ! k) \<noteq> nSequence (vin old ! k)"
      "\<forall>j < length (vin old). nSequence (vin tx ! j) \<noteq> nSequence (vin old ! j) \<longrightarrow>
         nSequence (vin old ! k) < nSequence (vin tx ! j)"
      "m < length (vin tx)" "nSequence (vin old ! m) \<noteq> nSequence (vin tx ! m)"
      "\<forall>j < length (vin tx). nSequence (vin old ! j) \<noteq> nSequence (vin tx ! j) \<longrightarrow>
         nSequence (vin tx ! m) < nSequence (vin old ! j)"
      "length (vin tx) = length (vin old)"
      unfolding iff by (auto dest: map_eq_imp_length_eq)
    then have "nSequence (vin old ! k) < nSequence (vin tx ! m)" "nSequence (vin tx ! m) < nSequence (vin old ! k)"
      by auto
    then show False by simp
  qed
  with iff [of tx old] show ?thesis by blast
qed


definition tx_seq :: "u32 \<Rightarrow> CTransaction" where
  "tx_seq s = SetNull\<lparr>vin := [\<lparr>prevout = \<lparr>prev_hash = 7, prev_n = 1\<rparr>, scriptSig = [], nSequence = s\<rparr>]\<rparr>"

lemma is_newer_exact_witness: "IsNewerThan (tx_seq 2) (tx_seq 1) \<and> \<not> IsNewerThan (tx_seq 1) (tx_seq 2)"
  using is_newer_exact [of "tx_seq 2" "tx_seq 1"] by (simp add: tx_seq_def SetNull_def)

text \<open>A transaction that is final for a block stays final for later ones.\<close>

lemma final_stays_final:
  assumes "IsFinal best now tx h t" and "h \<le> h'" and "t \<le> t'" and "0 < h" and "0 < t"
  shows "IsFinal best now tx h' t'"
  using assms by (auto simp: IsFinal_def Let_def split: if_splits)

text \<open>The two versions of \<open>GetValueIn\<close> agree where every input is known.\<close>

lemma value_in_loop_fold:
  "list_all (\<lambda>i. GetOutputFor inputs i \<noteq> None) is \<Longrightarrow> value_in_loop inputs a is =
     Some (foldl (\<lambda>a i. case GetOutputFor inputs i of None \<Rightarrow> a | Some out \<Rightarrow> a + nValue out) a is)"
  by (induction "is" arbitrary: a) auto

lemma value_in_agree:
  assumes "list_all (\<lambda>i. GetOutputFor inputs i \<noteq> None) (vin tx)" and "\<not> IsCoinBase tx"
  shows "GetValueIn_map inputs tx = Some (GetValueIn inputs tx)"
  using assms by (simp add: GetValueIn_map_def GetValueIn_def value_in_loop_fold)

lemma witness_loop_none:
  "list_all (\<lambda>i. \<forall>out w. GetOutputFor inputs i = Some out \<longrightarrow> CountWitnessSigOps (scriptSig i) (scriptPubKey out) w flags = 0) is
   \<Longrightarrow> witness_loop inputs tx flags c k is = c"
  by (induction "is" arbitrary: k) (auto split: option.splits)

lemma witness_loop_map_none:
  "list_all (\<lambda>i. \<exists>out. GetOutputFor inputs i = Some out \<and> (\<forall>w. CountWitnessSigOps (scriptSig i) (scriptPubKey out) w flags = 0)) is
   \<Longrightarrow> witness_loop_map inputs tx flags c k is = Some c"
  by (induction "is" arbitrary: k) auto

text \<open>
  With the flags all callers use (none), the signature operations of the redeem scripts of
  pay-to-script-hash inputs are never counted, in neither version of \<open>GetSigOpCost\<close>: as long as no
  input is a witness program, the cost of a transaction is four times its legacy count, whatever its
  redeem scripts hold.  (One version adds them to a variable that shadows the result; the other
  counts them only when the flags ask for it.)
\<close>

lemma p2sh_sigops_uncounted:
  assumes "\<forall>i\<in>set (vin tx). \<exists>out. GetOutputFor inputs i = Some out \<and>
      (\<forall>w. CountWitnessSigOps (scriptSig i) (scriptPubKey out) w 0 = 0)"
  shows "GetSigOpCost inputs tx 0 = ucast (4 * GetLegacySigOpCount tx) \<and>
    GetSigOpCost_map inputs tx 0 = Some (ucast (4 * GetLegacySigOpCount tx))"
proof -
  have a: "list_all (\<lambda>i. \<exists>out. GetOutputFor inputs i = Some out \<and>
      (\<forall>w. CountWitnessSigOps (scriptSig i) (scriptPubKey out) w 0 = 0)) (vin tx)"
    using assms by (simp add: list_all_iff)
  have b: "list_all (\<lambda>i. \<forall>out w. GetOutputFor inputs i = Some out \<longrightarrow>
      CountWitnessSigOps (scriptSig i) (scriptPubKey out) w 0 = 0) (vin tx)"
    using assms by (fastforce simp: list_all_iff)
  show ?thesis
    using witness_loop_map_none [OF a] witness_loop_none [OF b]
    by (simp add: GetSigOpCost_def GetSigOpCost_map_def SCALE_FACTOR_def Let_def mult.commute)
qed

text \<open>Concrete instance: an input that redeems a script of 15 signature checks costs nothing.\<close>

definition many_sigs :: script where "many_sigs = replicate 15 0xac"

definition prev_p2sh :: CTransaction where
  "prev_p2sh = SetNull\<lparr>vout := [\<lparr>nValue = 5, scriptPubKey = hash_script (replicate 20 0)\<rparr>]\<rparr>"

definition spend_p2sh :: CTransaction where
  "spend_p2sh = SetNull\<lparr>vin := [\<lparr>prevout = \<lparr>prev_hash = 7, prev_n = 0\<rparr>, scriptSig = push_vch many_sigs, nSequence = -1\<rparr>]\<rparr>"

lemma GetOp_checksig: "GetOp (0xac # r) = Some (0xac, [], r)"
  by simp

lemma sigops_checksigs:
  "sigop_loop f (replicate k 0xac @ r) op c = sigop_loop f r (if k = 0 then op else 0xac) (c + of_nat k)"
proof (induction k arbitrary: op c)
  case (Suc k)
  have "sigop_loop f (replicate (Suc k) 0xac @ r) op c = sigop_loop f (replicate k 0xac @ r) 0xac (c + 1)"
    by (subst sigop_loop.simps) simp
  with Suc show ?case by (simp add: add.assoc)
qed simp

lemma sigop_loop_Nil: "sigop_loop f [] op c = c"
  by (subst sigop_loop.simps) simp

lemma last_push_vch:
  assumes "length v \<le> 520"
  shows "last_push (push_vch v) d = Some v"
proof -
  have l: "length (push_vch v @ []) < 2 ^ 32" using length_push_vch_le [of v] assms by simp
  then obtain opcode where "opcode \<le> 0x4e" "GetOp (push_vch v) = Some (opcode, v, [])"
    using GetOp_push [OF l] by auto
  moreover have "push_vch v \<noteq> []" by (simp add: push_vch_def)
  ultimately show ?thesis by (subst last_push.simps) (simp add: last_push.simps)
qed

lemma hash_script_0: "IsPayToScriptHash (hash_script (replicate 20 0))" "IsWitnessProgram (hash_script (replicate 20 0)) = None"
proof -
  show "IsPayToScriptHash (hash_script (replicate 20 0))" by (subst p2sh_iff) (rule exI [of _ "replicate 20 0"], simp)
  show "IsWitnessProgram (hash_script (replicate 20 0)) = None"
    by (simp add: IsWitnessProgram_def hash_script_def push_op_def)
qed

lemma p2sh_sigops_uncounted_witness:
  "GetSigOpCost [7 \<mapsto> prev_p2sh] spend_p2sh 0 = 0 \<and>
   GetSigOpCount_for (scriptPubKey (vout prev_p2sh ! 0)) (scriptSig (vin spend_p2sh ! 0)) = 15"
proof -
  have lp: "last_push (push_vch many_sigs) [] = Some many_sigs" by (rule last_push_vch) (simp add: many_sigs_def)
  have nw: "IsWitnessProgram many_sigs = None" by (simp add: IsWitnessProgram_def many_sigs_def)
  have c: "GetSigOpCount many_sigs True = 15"
    using sigops_checksigs [of True 15 "[]"] by (simp add: GetSigOpCount_def many_sigs_def sigop_loop_Nil)
  obtain opcode where "opcode \<le> 0x4e" "GetOp (push_vch many_sigs) = Some (opcode, many_sigs, [])"
    using GetOp_push [of many_sigs "[]"] by (auto simp: many_sigs_def push_vch_def)
  then have "sigop_loop False (push_vch many_sigs) op 0 = 0" for op
    by (subst sigop_loop.simps) (simp add: sigop_loop_Nil)
  then have l: "GetLegacySigOpCount spend_p2sh = 0"
    by (simp add: GetLegacySigOpCount_def spend_p2sh_def SetNull_def GetSigOpCount_def)
  have "\<forall>i\<in>set (vin spend_p2sh). \<exists>out. GetOutputFor [7 \<mapsto> prev_p2sh] i = Some out \<and>
      (\<forall>w. CountWitnessSigOps (scriptSig i) (scriptPubKey out) w 0 = 0)"
    using lp nw hash_script_0
    by (simp add: spend_p2sh_def prev_p2sh_def SetNull_def GetOutputFor_def CountWitnessSigOps_def)
  from p2sh_sigops_uncounted [OF this] lp hash_script_0 c l show ?thesis
    by (simp add: prev_p2sh_def spend_p2sh_def SetNull_def GetSigOpCount_for_def)
qed

text \<open>
  \<open>AreInputsStandard\<close> answers \<open>true\<close> for a transaction whose first input redeems a script with
  more than 15 signature operations, whatever its other inputs are: the refusal
  \<^verbatim>\<open>return (SHERR_INVAL, "...")\<close> has the value of a string.
\<close>

lemma excess_sigops_accepted:
  assumes "\<not> IsCoinBase tx" and "vin tx = i # is"
    and "GetOutputFor mapInputs i = Some prev" and "IsPayToScriptHash (scriptPubKey prev)"
    and "EvalScript (E 0) [] (scriptSig i) SIGVERSION_BASE 0 = Ok (redeem # stk)"
    and "Solver redeem = Some (t, sols)" and "t \<noteq> TX_SCRIPTHASH" and "15 < GetSigOpCount redeem True"
  shows "AreInputsStandard E mapInputs tx = Yes"
proof -
  have "redeem_standard (redeem # stk) k = Inl Yes" for k
    using assms(6-8) by (simp add: redeem_standard_def)
  moreover have "ScriptSigArgsExpected TX_SCRIPTHASH [take 20 (drop 2 (scriptPubKey prev))] = 1"
    by (simp add: ScriptSigArgsExpected_def)
  ultimately have "input_standard (E 0) mapInputs i = Some Yes"
    using assms(3-5) by (simp add: input_standard_def Solver_def)
  with assms(1,2) show ?thesis by (simp add: AreInputsStandard_def)
qed

text \<open>Concrete instance: the operations of an extension in front of the script hold 16 checks.\<close>

definition ext_redeem :: script where
  "ext_redeem = 0xf1 # replicate 16 0xac @ [0x75] @ push_vch (replicate 33 2) @ [0xac]"

lemma skip_checksigs:
  "op \<noteq> 0x75 \<Longrightarrow> op \<noteq> 0x6d \<Longrightarrow> skip_to_drop op v (replicate k 0xac @ 0x75 # r) = (0x75, [], r)"
proof (induction k arbitrary: op v)
  case 0
  then show ?case by (subst skip_to_drop.simps) (simp add: skip_to_drop.simps)
next
  case (Suc k)
  then show ?case by (subst skip_to_drop.simps) simp
qed

lemma length_ext_redeem: "length ext_redeem = 53"
  by (simp add: ext_redeem_def push_vch_def)

lemma Solver_ext_redeem: "Solver ext_redeem = Some (TX_PUBKEY, [replicate 33 2])"
proof -
  have l: "length (push_vch (replicate 33 2) @ [0xac]) < 2 ^ 32" by (simp add: push_vch_def)
  obtain opcode where op: "opcode \<le> 0x4e" "GetOp (push_vch (replicate 33 2) @ [0xac]) = Some (opcode, replicate 33 2, [0xac])"
    by (rule GetOp_push [OF l])
  have d: "skip_drops 0x75 [] (push_vch (replicate 33 2) @ [0xac]) = (opcode, replicate 33 2, [0xac])"
    using op by (subst skip_drops.simps) (simp add: skip_drops.simps)
  have sk: "skip_ext 0xf1 [] (replicate 16 0xac @ 0x75 # push_vch (replicate 33 2) @ [0xac]) = (opcode, replicate 33 2, [0xac])"
    using d by (simp add: skip_ext_def skip_checksigs)
  have m: "match_loop ext_redeem (push_op OP_PUBKEY @ push_op OP_CHECKSIG) [] = Some [replicate 33 2]"
    using sk by (subst match_loop.simps)
      (simp add: ext_redeem_def push_op_def match_op_def match_loop.simps skip_ext_def)
  from m length_ext_redeem show ?thesis by (simp add: Solver_def IsPayToScriptHash_def IsWitnessProgram_def mTemplates_def)
qed

lemma excess_sigops_accepted_witness:
  "AreInputsStandard (\<lambda>_. ref_env) [7 \<mapsto> prev_p2sh]
     (SetNull\<lparr>vin := [\<lparr>prevout = \<lparr>prev_hash = 7, prev_n = 0\<rparr>, scriptSig = push_vch ext_redeem, nSequence = -1\<rparr>]\<rparr>) = Yes"
proof (rule excess_sigops_accepted)
  show "Solver ext_redeem = Some (TX_PUBKEY, [replicate 33 2])" by (rule Solver_ext_redeem)
  have l: "length (push_vch (replicate 33 2) @ [0xac]) < 2 ^ 32" by (simp add: push_vch_def)
  obtain opcode where "opcode \<le> 0x4e" "GetOp (push_vch (replicate 33 2) @ [0xac]) = Some (opcode, replicate 33 2, [0xac])"
    by (rule GetOp_push [OF l])
  then have "sigop_loop True (push_vch (replicate 33 2) @ [0xac]) 0x75 16 = sigop_loop True [0xac] opcode 16"
    by (subst sigop_loop.simps) simp
  also have "\<dots> = 17" by (subst sigop_loop.simps) (simp add: sigop_loop_Nil)
  finally have "sigop_loop True (0x75 # push_vch (replicate 33 2) @ [0xac]) 0xac 16 = 17"
    by (subst sigop_loop.simps) simp
  moreover have "sigop_loop True ext_redeem 0xff 0 = sigop_loop True (replicate 16 0xac @ 0x75 # push_vch (replicate 33 2) @ [0xac]) 0xf1 0"
    by (subst sigop_loop.simps) (simp add: ext_redeem_def)
  ultimately show "15 < GetSigOpCount ext_redeem True"
    by (simp add: GetSigOpCount_def sigops_checksigs)
  have "EvalScript ref_env [] (push_vch ext_redeem) SIGVERSION_BASE 0 = Ok [ext_redeem]"
    using length_ext_redeem length_push_vch_le [of ext_redeem] run_push [of ext_redeem "[]"]
    by (simp add: EvalScript_def)
  then show "EvalScript ref_env [] (scriptSig \<lparr>prevout = \<lparr>prev_hash = 7, prev_n = 0\<rparr>, scriptSig = push_vch ext_redeem, nSequence = -1\<rparr>)
      SIGVERSION_BASE 0 = Ok [ext_redeem]" by simp
  show "IsPayToScriptHash (scriptPubKey \<lparr>nValue = 5, scriptPubKey = hash_script (replicate 20 0)\<rparr>)"
    by (simp add: hash_script_0)
qed (simp_all add: SetNull_def IsCoinBase_def outpoint_IsNull_def GetOutputFor_def prev_p2sh_def)

end
