(* ===== verification/Coins.thy ===== *)
theory Coins
  imports Bc_Example Tx_Check
begin

text \<open>
  The coin database of \<^verbatim>\<open>server/coin.cpp\<close>: for a transaction, which transaction has spent each of its
  outputs.  A record of the chain \<open>coin\<close>, under the hash of the transaction, holds 32 bytes for each
  output, zero where it is not spent; a transaction without a record has all its outputs unspent.

  The operations work on the chain's handle and the process state, through the calls of the block
  database; \<open>GetBlockCoinChain\<close> opens the handle.  The specification is a map from hashes to lists
  of spenders; the operations refine it.
\<close>

section \<open>Hashes as records' keys and contents\<close>

text \<open>\<open>uint256::GetRaw\<close>: the eight words of the number; the bytes of a hash and back.\<close>

definition GetRaw :: "u256 \<Rightarrow> bc_hash_t" where
  "GetRaw h = hash_dec 8 (ser_int 32 h)"

definition slot :: "u8 list \<Rightarrow> nat \<Rightarrow> u256" where
  "slot d k = of_nat (le_dec (take 32 (drop (32 * k) d)))"

definition put_slot :: "u8 list \<Rightarrow> nat \<Rightarrow> u256 \<Rightarrow> u8 list" where
  "put_slot d k h = take (32 * k) d @ ser_int 32 h @ drop (32 * k + 32) d"

section \<open>Operations\<close>

text \<open>
  What the operations begin with: the record of the hash.  \<^term>\<open>None\<close> is the return of \<open>false\<close>
  (the record cannot be read, or is shorter than \<open>need\<close>), \<^term>\<open>Some None\<close> no record.
\<close>

definition find_coins :: "env \<Rightarrow> bc_t \<Rightarrow> u256 \<Rightarrow> nat \<Rightarrow> world \<Rightarrow>
    ((u32 \<times> u8 list) option option \<times> bc_t \<times> world) option" where
  "find_coins e bc h need w = do {
     ((err, r), bc, w) \<leftarrow> bc_idx_find e bc (GetRaw h) w;
     if err \<noteq> 0 then Some (Some None, bc, w)
     else do {
       (x, txPos) \<leftarrow> r;
       ((err, d), bc, w) \<leftarrow> bc_get e bc (of_nat txPos) w;
       if err \<noteq> 0 then Some (None, bc, w)
       else do {
         d \<leftarrow> d;
         if length d < need then Some (None, bc, w)
         else Some (Some (Some (of_nat txPos, d)), bc, w) } } }"

text \<open>Storing the changed record: at its position, or as a new one.\<close>

definition store_coins :: "env \<Rightarrow> bc_t \<Rightarrow> u256 \<Rightarrow> u32 option \<Rightarrow> u8 list \<Rightarrow> world \<Rightarrow> (bool \<times> bc_t \<times> world) option" where
  "store_coins e bc h txPos d w = do {
     (err, bc, w) \<leftarrow> (case txPos of None \<Rightarrow> bc_append e bc (GetRaw h) d w | Some p \<Rightarrow> bc_write e bc p (GetRaw h) d w);
     Some (\<not> err < 0, bc, w) }"

fun put_outs :: "u8 list \<Rightarrow> nat \<Rightarrow> u256 list \<Rightarrow> bool \<Rightarrow> u8 list \<times> bool" where
  "put_outs d k [] fChanged = (d, fChanged)"
| "put_outs d k (h # hs) fChanged =
     (if take 32 (drop (32 * k) d) = ser_int 32 h then put_outs d (Suc k) hs fChanged
      else put_outs (put_slot d k h) (Suc k) hs True)"

definition WriteTxCoins :: "env \<Rightarrow> bc_t \<Rightarrow> u256 \<Rightarrow> u256 list \<Rightarrow> world \<Rightarrow> (bool \<times> bc_t \<times> world) option" where
  "WriteTxCoins e bc h vOuts w = do {
     (r, bc, w) \<leftarrow> find_coins e bc h (32 * length vOuts) w;
     case r of None \<Rightarrow> Some (False, bc, w)
     | Some found \<Rightarrow>
         if found = None \<and> list_all (\<lambda>h. h = 0) vOuts then Some (True, bc, w)
         else
           let data = (case found of None \<Rightarrow> replicate (32 * length vOuts) 0 | Some (p, d) \<Rightarrow> d);
               (data, fChanged) = put_outs data 0 vOuts False
           in if \<not> fChanged then Some (True, bc, w)
              else store_coins e bc h (map_option fst found) data w }"

definition WriteCoins :: "env \<Rightarrow> bc_t \<Rightarrow> senv \<Rightarrow> CTransaction \<Rightarrow> u256 list \<Rightarrow> world \<Rightarrow> (bool \<times> bc_t \<times> world) option" where
  "WriteCoins e bc E tx vOuts w =
     (if length vOuts \<noteq> length (vout tx) then Some (False, bc, w)
      else WriteTxCoins e bc (Tx.GetHash E tx) vOuts w)"

definition WriteCoins_out ::
    "env \<Rightarrow> bc_t \<Rightarrow> senv \<Rightarrow> CTransaction \<Rightarrow> int \<Rightarrow> u256 \<Rightarrow> world \<Rightarrow> (bool \<times> bc_t \<times> world) option" where
  "WriteCoins_out e bc E tx nOut hashTxOut w =
     (if nOut < 0 \<or> nOut \<ge> int (length (vout tx)) then Some (False, bc, w)
      else do {
        (r, bc, w) \<leftarrow> find_coins e bc (Tx.GetHash E tx) (32 * length (vout tx)) w;
        case r of None \<Rightarrow> Some (False, bc, w)
        | Some found \<Rightarrow>
            if found = None \<and> hashTxOut = 0 then Some (True, bc, w)
            else
              let data = (case found of None \<Rightarrow> replicate (32 * length (vout tx)) 0 | Some (p, d) \<Rightarrow> d)
              in if take 32 (drop (32 * nat nOut) data) = ser_int 32 hashTxOut then Some (True, bc, w)
                 else store_coins e bc (Tx.GetHash E tx) (map_option fst found) (put_slot data (nat nOut) hashTxOut) w })"

definition ReadCoins ::
    "env \<Rightarrow> bc_t \<Rightarrow> senv \<Rightarrow> CTransaction \<Rightarrow> world \<Rightarrow> (u256 list option \<times> bc_t \<times> world) option" where
  "ReadCoins e bc E tx w = do {
     (r, bc, w) \<leftarrow> find_coins e bc (Tx.GetHash E tx) (32 * length (vout tx)) w;
     case r of None \<Rightarrow> Some (None, bc, w)
     | Some None \<Rightarrow> Some (Some (replicate (length (vout tx)) 0), bc, w)
     | Some (Some (p, d)) \<Rightarrow> Some (Some (map (slot d) [0..<length (vout tx)]), bc, w) }"

definition HasTxCoins :: "env \<Rightarrow> bc_t \<Rightarrow> u256 \<Rightarrow> world \<Rightarrow> (bool \<times> bc_t \<times> world) option" where
  "HasTxCoins e bc h w = do {
     ((err, r), bc, w) \<leftarrow> bc_idx_find e bc (GetRaw h) w;
     Some (err = 0, bc, w) }"

definition EraseTxCoins :: "env \<Rightarrow> bc_t \<Rightarrow> u256 \<Rightarrow> world \<Rightarrow> (bool \<times> bc_t \<times> world) option" where
  "EraseTxCoins e bc h w = do {
     ((err, r), bc, w) \<leftarrow> bc_idx_find e bc (GetRaw h) w;
     if err \<noteq> 0 then Some (True, bc, w)
     else do {
       (x, txPos) \<leftarrow> r;
       (err, bc, w) \<leftarrow> bc_clear e bc (of_nat txPos) w;
       if err \<noteq> 0 then Some (False, bc, w)
       else do {
         (_, bc, w) \<leftarrow> bc_table_reset e bc (GetRaw h) w;
         Some (True, bc, w) } } }"

section \<open>The specification\<close>

definition coin_rec :: "(bc_hash_t \<times> u8 list) option list \<Rightarrow> u256 \<Rightarrow> u8 list option" where
  "coin_rec c h = (case chain_find c (GetRaw h) of None \<Rightarrow> None | Some i \<Rightarrow> map_option snd (lookup c i))"

text \<open>No two records have the same hash.\<close>

definition coins_unique :: "(bc_hash_t \<times> u8 list) option list \<Rightarrow> bool" where
  "coins_unique c \<longleftrightarrow> (\<forall>k i j. i < length c \<longrightarrow> j < length c \<longrightarrow> has_hash k (c ! i) \<longrightarrow> has_hash k (c ! j) \<longrightarrow> i = j)"

text \<open>The spenders of the first \<open>n\<close> outputs.\<close>

definition spenders :: "nat \<Rightarrow> u8 list option \<Rightarrow> u256 list" where
  "spenders n r = (case r of None \<Rightarrow> replicate n 0 | Some d \<Rightarrow> map (slot d) [0..<n])"

definition enc_outs :: "u256 list \<Rightarrow> u8 list" where
  "enc_outs hs = concat (map (ser_int 32) hs)"

section \<open>Records\<close>

lemma length_GetRaw [simp]: "length (GetRaw h) = 8"
proof -
  have "length (hash_dec k bs) = k" for k bs by (induction k arbitrary: bs) auto
  then show ?thesis by (simp add: GetRaw_def)
qed

lemma ser_int32_inj: "ser_int 32 (a :: u256) = ser_int 32 b \<longleftrightarrow> a = b"
  using int32.prefix_free [where x = a and y = b and s = "[]" and t = "[]"] by auto

lemma GetRaw_inj: "GetRaw a = GetRaw b \<longleftrightarrow> a = b"
proof
  assume ab: "GetRaw a = GetRaw b"
  have raw: "concat (map (\<lambda>h. le_enc 4 (unat h)) (GetRaw h)) = ser_int 32 h" for h
    unfolding GetRaw_def by (rule hash_enc) simp
  have "ser_int 32 a = ser_int 32 b" using raw [of a] raw [of b] by (simp only: ab)
  then show "a = b" by (simp add: ser_int32_inj)
qed simp

lemma length_enc_outs [simp]: "length (enc_outs hs) = 32 * length hs"
  by (induction hs) (simp_all add: enc_outs_def)

lemma enc_outs_split:
  assumes "k < length hs"
  shows "enc_outs hs = enc_outs (take k hs) @ ser_int 32 (hs ! k) @ enc_outs (drop (Suc k) hs)"
proof -
  have "hs = take k hs @ hs ! k # drop (Suc k) hs" using assms by (simp add: id_take_nth_drop)
  then have "enc_outs hs = enc_outs (take k hs @ hs ! k # drop (Suc k) hs)" by simp
  then show ?thesis by (simp add: enc_outs_def)
qed

lemma enc_outs_drop:
  "k < length hs \<Longrightarrow> drop (32 * k) (enc_outs hs) = ser_int 32 (hs ! k) @ enc_outs (drop (Suc k) hs)"
  using enc_outs_split [of k hs] by simp

lemma slot_enc_outs: "k < length hs \<Longrightarrow> slot (enc_outs hs) k = hs ! k"
  by (simp add: slot_def enc_outs_drop of_nat_le_dec_ser_int)

lemma spenders_enc_outs: "spenders (length hs) (Some (enc_outs hs)) = hs"
  by (simp add: spenders_def) (rule nth_equalityI, simp_all add: slot_enc_outs)

lemma spenders_zeros: "spenders n (Some (replicate (32 * n) 0)) = replicate n 0"
proof -
  have "slot (replicate (32 * n) 0) k = 0" for k
    by (simp add: slot_def le_dec_zeros)
  then show ?thesis by (simp add: spenders_def) (rule nth_equalityI, simp_all)
qed

lemma length_put_slot: "32 * k + 32 \<le> length d \<Longrightarrow> length (put_slot d k h) = length d"
  by (simp add: put_slot_def)

text \<open>A record of \<open>n\<close> slots is the encoding of its slots.\<close>

lemma enc_outs_slots: "length d = 32 * n \<Longrightarrow> enc_outs (map (slot d) [0..<n]) = d"
proof (induction n arbitrary: d)
  case (Suc n)
  have t: "enc_outs (map (slot (take (32 * n) d)) [0..<n]) = take (32 * n) d" by (rule Suc.IH) (use Suc.prems in simp)
  have "map (slot (take (32 * n) d)) [0..<n] = map (slot d) [0..<n]"
    by (rule map_cong) (simp_all add: slot_def drop_take min_def)
  with t have "enc_outs (map (slot d) [0..<n]) = take (32 * n) d" by simp
  moreover have "ser_int 32 (slot d n) = drop (32 * n) d"
  proof -
    have l: "length (drop (32 * n) d) = 32" using Suc.prems by simp
    then have "le_dec (drop (32 * n) d) < 2 ^ 256" using le_dec_bound [of "drop (32 * n) d"] by simp
    then show ?thesis using le_enc_dec [OF l] l by (simp add: slot_def ser_int_def unat_of_nat take_bit_nat_eq_self)
  qed
  ultimately show ?case by (simp add: enc_outs_def)
qed (simp add: enc_outs_def)

lemma put_slot_enc_outs: "k < length hs \<Longrightarrow> put_slot (enc_outs hs) k h = enc_outs (hs[k := h])"
  using enc_outs_split [of k hs] enc_outs_split [of k "hs[k := h]"] by (simp add: put_slot_def)

lemma slot_bytes: "k < length hs \<Longrightarrow> take 32 (drop (32 * k) (enc_outs hs)) = ser_int 32 (hs ! k)"
  by (simp add: enc_outs_drop)

text \<open>The loop of \<open>WriteTxCoins\<close> writes the new spenders and tells whether that changed anything.\<close>

lemma put_outs_spec:
  "k + length hs = length xs \<Longrightarrow>
     put_outs (enc_outs xs) k hs f = (enc_outs (take k xs @ hs), f \<or> take k xs @ hs \<noteq> xs)"
proof (induction hs arbitrary: k xs f)
  case (Cons h hs)
  have k: "k < length xs" using Cons.prems by simp
  show ?case
  proof (cases "xs ! k = h")
    case True
    then have "take (Suc k) xs @ hs = take k xs @ h # hs" using k by (simp add: take_Suc_conv_app_nth)
    with True k Cons show ?thesis by (simp add: slot_bytes)
  next
    case False
    have "take (Suc k) (xs[k := h]) @ hs = take k xs @ h # hs" using k by (simp add: take_Suc_conv_app_nth)
    moreover have "take k xs @ h # hs \<noteq> xs" using False k nth_append_length [of "take k xs" h hs] by auto
    ultimately show ?thesis
      using False k Cons.IH [of "Suc k" "xs[k := h]" True] Cons.prems by (simp add: slot_bytes ser_int32_inj put_slot_enc_outs)
  qed
qed simp

section \<open>What the map of records becomes\<close>

lemma has_hash_iff: "has_hash k r \<longleftrightarrow> (\<exists>d. r = Some (k, d))"
  by (auto simp: has_hash_def split: option.splits)

lemma chain_find_SomeD: "chain_find c k = Some i \<Longrightarrow> i < length c \<and> has_hash k (c ! i)"
proof -
  let ?is = "filter (\<lambda>i. has_hash k (c ! i)) [0..<length c]"
  assume "chain_find c k = Some i"
  then have "i \<in> set ?is" by (auto simp: chain_find_def Let_def split: if_splits dest: last_in_set)
  then show ?thesis by simp
qed

lemma chain_find_None: "chain_find c k = None \<longleftrightarrow> (\<forall>i<length c. \<not> has_hash k (c ! i))"
  by (auto simp: chain_find_def Let_def filter_empty_conv)

lemma coins_uniqueD:
  "coins_unique c \<Longrightarrow> i < length c \<Longrightarrow> c ! i = Some (k, d) \<Longrightarrow> j < length c \<Longrightarrow> c ! j = Some (k, d') \<Longrightarrow> i = j \<and> d = d'"
  unfolding coins_unique_def has_hash_iff by (metis option.inject prod.inject)

lemma coin_rec_Some:
  assumes "coins_unique c"
  shows "coin_rec c h = Some d \<longleftrightarrow> Some (GetRaw h, d) \<in> set c"
proof
  assume "coin_rec c h = Some d"
  then obtain i where "chain_find c (GetRaw h) = Some i" "map_option snd (lookup c i) = Some d"
    by (auto simp: coin_rec_def split: option.splits)
  with chain_find_SomeD [of c "GetRaw h" i] show "Some (GetRaw h, d) \<in> set c"
    by (auto simp: has_hash_iff lookup_def in_set_conv_nth)
next
  assume "Some (GetRaw h, d) \<in> set c"
  then obtain i where i: "i < length c" "c ! i = Some (GetRaw h, d)" by (auto simp: in_set_conv_nth)
  then obtain j where j: "chain_find c (GetRaw h) = Some j"
    using chain_find_None [of c "GetRaw h"] by (auto simp: has_hash_iff)
  then obtain d' where d': "j < length c" "c ! j = Some (GetRaw h, d')"
    using chain_find_SomeD [OF j] by (auto simp: has_hash_iff)
  have "d = d'" using coins_uniqueD [OF assms i d'] by simp
  then show "coin_rec c h = Some d" by (simp add: coin_rec_def j lookup_def d')
qed

lemma coin_rec_eqI:
  assumes "coins_unique c" and "\<And>h d. Some (GetRaw h, d) \<in> set c \<longleftrightarrow> m h = Some d"
  shows "coin_rec c = m"
proof
  fix h
  show "coin_rec c h = m h"
    using coin_rec_Some [OF assms(1), of h] assms(2) [of h] by (cases "m h"; cases "coin_rec c h") auto
qed

lemma coin_rec_None: "coins_unique c \<Longrightarrow> coin_rec c h = None \<longleftrightarrow> (\<forall>d. Some (GetRaw h, d) \<notin> set c)"
  using coin_rec_Some [of c h] by (metis not_Some_eq)

lemma coins_append:
  assumes "coins_unique c" and "coin_rec c h = None"
  shows "coins_unique (c @ [Some (GetRaw h, d)])" and "coin_rec (c @ [Some (GetRaw h, d)]) = (coin_rec c)(h \<mapsto> d)"
proof -
  have no: "\<forall>i<length c. \<forall>d. c ! i \<noteq> Some (GetRaw h, d)"
    using coin_rec_None [OF assms(1)] assms(2) by (metis nth_mem)
  show u: "coins_unique (c @ [Some (GetRaw h, d)])"
    unfolding coins_unique_def has_hash_iff
  proof (intro allI impI)
    fix k i j
    assume "i < length (c @ [Some (GetRaw h, d)])" "j < length (c @ [Some (GetRaw h, d)])"
      and "\<exists>d'. (c @ [Some (GetRaw h, d)]) ! i = Some (k, d')" "\<exists>d'. (c @ [Some (GetRaw h, d)]) ! j = Some (k, d')"
    then show "i = j" using no assms(1) by (auto simp: nth_append less_Suc_eq dest: coins_uniqueD split: if_splits)
  qed
  show "coin_rec (c @ [Some (GetRaw h, d)]) = (coin_rec c)(h \<mapsto> d)"
    by (rule coin_rec_eqI [OF u])
      (use assms(2) coin_rec_Some [OF assms(1)] coin_rec_None [OF assms(1)] in \<open>auto simp: GetRaw_inj\<close>)
qed

lemma coins_update:
  assumes u: "coins_unique c" and i: "i < length c" and r: "c ! i = Some (GetRaw h, d)" and x: "x = None \<or> x = Some (GetRaw h, d')"
  shows "coins_unique (c[i := x])" and "coin_rec (c[i := x]) = (coin_rec c)(h := map_option snd x)"
proof -
  have other: "c ! j \<noteq> Some (GetRaw h, d2)" if "j < length c" "j \<noteq> i" for j d2
    using coins_uniqueD [OF u i r that(1)] that(2) by auto
  show u': "coins_unique (c[i := x])"
    using x u other i r unfolding coins_unique_def has_hash_iff by (auto simp: nth_list_update)
  have m: "Some (GetRaw h2, d2) \<in> set (c[i := x]) \<longleftrightarrow> (if h2 = h then x = Some (GetRaw h, d2) else Some (GetRaw h2, d2) \<in> set c)" for h2 d2
  proof (cases "h2 = h")
    case True
    then show ?thesis using x i other by (auto simp: in_set_conv_nth nth_list_update)
  next
    case False
    then have "c ! i \<noteq> Some (GetRaw h2, d2)" "x \<noteq> Some (GetRaw h2, d2)" using r x by (auto simp: GetRaw_inj)
    then show ?thesis using False i by (auto simp: in_set_conv_nth nth_list_update)
  qed
  show "coin_rec (c[i := x]) = (coin_rec c)(h := map_option snd x)"
    by (rule coin_rec_eqI [OF u']) (use x coin_rec_Some [OF u] m in auto)
qed

lemma coins_unique_Nil: "coins_unique []" "coin_rec [] = Map.empty"
  by (auto simp: coins_unique_def coin_rec_def chain_find_def fun_eq_iff)

section \<open>The operations refine the map\<close>

definition coins_state :: "env \<Rightarrow> string \<Rightarrow> nat \<Rightarrow> (u256 \<rightharpoonup> u8 list) \<Rightarrow> bc_t \<Rightarrow> world \<Rightarrow> bool" where
  "coins_state e nm n m bc w \<longleftrightarrow> db_ok e bc w n \<and> bc_name bc = nm \<and>
     coins_unique (chain e nm w) \<and> coin_rec (chain e nm w) = m"

lemma coins_state_mono: "coins_state e nm n m bc w \<Longrightarrow> k \<le> n \<Longrightarrow> coins_state e nm k m bc w"
  by (auto simp: coins_state_def intro: db_ok_mono)

text \<open>\<open>bc_idx_find\<close> is \<open>bc_find\<close> with the index entry.\<close>

lemma idx_find_coins:
  assumes os: "os_ok e" and st: "coins_state e nm n m bc w"
  shows "\<exists>err r bc' w'. bc_idx_find e bc (GetRaw h) w = Some ((err, r), bc', w') \<and> coins_state e nm n m bc' w' \<and>
     chain e nm w' = chain e nm w \<and>
     (case chain_find (chain e nm w) (GetRaw h) of None \<Rightarrow> err \<noteq> 0 | Some i \<Rightarrow> err = 0 \<and> (\<exists>x. r = Some (x, i)))"
proof -
  have db: "db_ok e bc w n" and nm: "bc_name bc = nm" using st by (simp_all add: coins_state_def)
  obtain bc' w' where f: "bc_find e bc (GetRaw h) w = Some (case chain_find (chain e nm w) (GetRaw h) of
      None \<Rightarrow> (SHERR_NOENT, None) | Some i \<Rightarrow> (0, Some i), bc', w')"
    and k: "bc_name bc' = nm" "db_ok e bc' w' n" "chain e nm w' = chain e nm w"
    using bc_find_ok [OF os db length_GetRaw, of h] by (auto simp: returns_def nm)
  have st': "coins_state e nm n m bc' w'" using st k by (simp add: coins_state_def)
  obtain err r bc1 w1 where i: "bc_idx_find e bc (GetRaw h) w = Some ((err, r), bc1, w1)"
    using f by (cases "bc_idx_find e bc (GetRaw h) w") (auto simp: bc_find_def)
  with f have "bc1 = bc' \<and> w1 = w' \<and> (case chain_find (chain e nm w) (GetRaw h) of None \<Rightarrow> err \<noteq> 0
      | Some i \<Rightarrow> err = 0 \<and> (\<exists>x. r = Some (x, i)))"
    by (auto simp: bc_find_def SHERR_NOENT_def split: if_splits option.splits)
  with i st' k(3) show ?thesis by blast
qed

definition found_coins :: "(bc_hash_t \<times> u8 list) option list \<Rightarrow> u256 \<Rightarrow> (u32 \<times> u8 list) option \<Rightarrow> bool" where
  "found_coins c h r \<longleftrightarrow> (case r of None \<Rightarrow> coin_rec c h = None
     | Some (p, d) \<Rightarrow> unat p < length c \<and> c ! unat p = Some (GetRaw h, d) \<and> coin_rec c h = Some d)"

lemma find_coins_ok:
  assumes os: "os_ok e" and st: "coins_state e nm n m bc w" and len: "\<And>d. m h = Some d \<Longrightarrow> need \<le> length d"
  shows "\<exists>r bc' w'. find_coins e bc h need w = Some (Some r, bc', w') \<and> coins_state e nm n m bc' w' \<and>
     chain e nm w' = chain e nm w \<and> found_coins (chain e nm w) h r"
proof -
  let ?c = "chain e nm w"
  obtain err r bc1 w1 where i: "bc_idx_find e bc (GetRaw h) w = Some ((err, r), bc1, w1)"
    and st1: "coins_state e nm n m bc1 w1" and c1: "chain e nm w1 = ?c"
    and cf: "case chain_find ?c (GetRaw h) of None \<Rightarrow> err \<noteq> 0 | Some i \<Rightarrow> err = 0 \<and> (\<exists>x. r = Some (x, i))"
    using idx_find_coins [OF os st, of h] by blast
  show ?thesis
  proof (cases "chain_find ?c (GetRaw h)")
    case None
    with cf i st1 c1 show ?thesis by (simp add: find_coins_def found_coins_def coin_rec_def)
  next
    case (Some j)
    then obtain d where j: "j < length ?c" "?c ! j = Some (GetRaw h, d)"
      using chain_find_SomeD [OF Some] by (auto simp: has_hash_iff)
    then have rec: "coin_rec ?c h = Some d" by (simp add: coin_rec_def Some lookup_def)
    have "length ?c < 67108864" using idx_count_less [of e nm w] by simp
    then have u: "unat (of_nat j :: u32) = j" using j(1) by (intro unat_of_nat_u32) simp
    obtain x where r: "err = 0" "r = Some (x, j)" using cf Some by auto
    have db1: "db_ok e bc1 w1 n" "bc_name bc1 = nm" using st1 by (simp_all add: coins_state_def)
    have "lookup (chain e (bc_name bc1) w1) (unat (of_nat j :: u32)) = Some (GetRaw h, d)"
      using j by (simp add: u db1(2) c1 lookup_def)
    then obtain bc2 w2 where g: "bc_get e bc1 (of_nat j) w1 = Some ((0, Some d), bc2, w2)" and k: "db_keep e bc1 w1 bc2 w2"
      using bc_get_ok [OF os db1(1), of "of_nat j"] by (auto simp: returns_def)
    have c2: "chain e nm w2 = ?c" "bc_name bc2 = nm" "db_ok e bc2 w2 n"
      using db_keepD(1,2) [OF k] db_keepD(5) [OF k db1(1)] by (simp_all add: db1(2) c1)
    have "need \<le> length d" using len [of d] rec st by (simp add: coins_state_def)
    then have "find_coins e bc h need w = Some (Some (Some (of_nat j, d)), bc2, w2)"
      by (simp add: find_coins_def i r g)
    moreover have "coins_state e nm n m bc2 w2" using st c2 by (simp add: coins_state_def)
    moreover have "found_coins ?c h (Some (of_nat j, d))" using j rec by (simp add: found_coins_def u)
    ultimately show ?thesis using c2(1) by blast
  qed
qed

lemma store_coins_ok:
  assumes os: "os_ok e" and st: "coins_state e nm n m bc w" and r: "found_coins (chain e nm w) h r"
    and d: "d \<noteq> []" "64 + length d \<le> n" and len: "\<And>p d0. r = Some (p, d0) \<Longrightarrow> length d0 = length d"
  shows "\<exists>bc' w'. store_coins e bc h (map_option fst r) d w = Some (True, bc', w') \<and>
     coins_state e nm (n - (64 + length d)) (m(h \<mapsto> d)) bc' w'"
proof -
  let ?c = "chain e nm w"
  have db: "db_ok e bc w n" and nm: "bc_name bc = nm" and u: "coins_unique ?c" and m: "coin_rec ?c = m"
    using st by (simp_all add: coins_state_def)
  show ?thesis
  proof (cases r)
    case None
    then have no: "coin_rec ?c h = None" using r by (simp add: found_coins_def)
    obtain bc' w' where ap: "bc_append e bc (GetRaw h) d w = Some (int (length ?c), bc', w')"
      and k: "bc_name bc' = nm" "db_ok e bc' w' (n - (64 + length d))" "chain e nm w' = ?c @ [Some (GetRaw h, d)]"
      using bc_append_ok [OF os db length_GetRaw d(2), of h] d(1) by (auto simp: returns_def nm block_def)
    have "coins_state e nm (n - (64 + length d)) (m(h \<mapsto> d)) bc' w'"
      using k coins_append [OF u no, of d] by (simp add: coins_state_def m)
    then show ?thesis using ap by (simp add: store_coins_def None)
  next
    case (Some pd)
    obtain p d0 where pd: "pd = (p, d0)" by fastforce
    have c: "unat p < length ?c" "?c ! unat p = Some (GetRaw h, d0)" using r by (simp_all add: found_coins_def Some pd)
    then have "lookup (chain e (bc_name bc) w) (unat p) = Some (GetRaw h, d0)" by (simp add: lookup_def nm)
    from bc_write_exist [OF os db d(2) this, of "GetRaw h"] len [of p d0] obtain bc' w'
      where wr: "bc_write e bc p (GetRaw h) d w = Some (0, bc', w')"
        and k: "bc_name bc' = nm" "db_ok e bc' w' (n - length d)" "chain e nm w' = ?c[unat p := Some (GetRaw h, d)]"
      by (auto simp: returns_def nm Some pd)
    have "coins_state e nm (n - length d) (m(h \<mapsto> d)) bc' w'"
      using k coins_update [OF u c, of "Some (GetRaw h, d)" d] by (simp add: coins_state_def m)
    then show ?thesis using wr coins_state_mono by (fastforce simp: store_coins_def Some pd)
  qed
qed

lemma data_found:
  assumes "found_coins c h r" and "\<And>d. coin_rec c h = Some d \<Longrightarrow> length d = 32 * k"
  shows "(case r of None \<Rightarrow> replicate (32 * k) 0 | Some (p, d) \<Rightarrow> d) = enc_outs (spenders k (coin_rec c h))"
proof (cases r)
  case None
  then have "spenders k (coin_rec c h) = map (slot (replicate (32 * k) 0)) [0..<k]"
    using assms(1) spenders_zeros [of k] by (simp add: found_coins_def spenders_def)
  then show ?thesis using None enc_outs_slots [of "replicate (32 * k) 0" k] by simp
next
  case (Some pd)
  then obtain p d where "r = Some (p, d)" "coin_rec c h = Some d" using assms(1)
    by (cases pd) (simp add: found_coins_def)
  then show ?thesis using assms(2) enc_outs_slots [of d k] by (simp add: spenders_def)
qed

lemma length_spenders [simp]: "length (spenders k r) = k"
  by (simp add: spenders_def split: option.splits)

lemma found_length:
  assumes "found_coins c h r" and "r = Some (p, d)" and "\<And>d. coin_rec c h = Some d \<Longrightarrow> length d = l"
  shows "length d = l"
  using assms by (simp add: found_coins_def)

lemma found_None_iff: "found_coins c h r \<Longrightarrow> r = None \<longleftrightarrow> coin_rec c h = None"
  by (auto simp: found_coins_def split: option.splits)

lemma WriteTxCoins_ok:
  assumes os: "os_ok e" and st: "coins_state e nm n m bc w" and n: "64 + 32 * length outs \<le> n"
    and len: "\<And>d. m h = Some d \<Longrightarrow> length d = 32 * length outs"
  shows "\<exists>bc' w'. WriteTxCoins e bc h outs w = Some (True, bc', w') \<and>
     coins_state e nm (n - (64 + 32 * length outs))
       (if m h = None \<and> set outs \<subseteq> {0} then m else m(h \<mapsto> enc_outs outs)) bc' w'"
proof -
  let ?c = "chain e nm w" and ?k = "length outs"
  have m: "coin_rec ?c = m" using st by (simp add: coins_state_def)
  obtain r bc1 w1 where f: "find_coins e bc h (32 * ?k) w = Some (Some r, bc1, w1)"
    and st1: "coins_state e nm n m bc1 w1" and c1: "chain e nm w1 = ?c" and fc: "found_coins ?c h r"
    using find_coins_ok [OF os st, of h "32 * ?k"] len by fastforce
  have l: "length d = 32 * ?k" if "coin_rec ?c h = Some d" for d using len that by (simp add: m)
  have r0: "r = None \<longleftrightarrow> m h = None" using found_None_iff [OF fc] by (simp add: m)
  have z: "list_all (\<lambda>h. h = 0) outs \<longleftrightarrow> set outs \<subseteq> {0}" by (auto simp: list_all_iff)
  show ?thesis
  proof (cases "m h = None \<and> set outs \<subseteq> {0}")
    case True
    then show ?thesis using f r0 z coins_state_mono [OF st1] by (simp add: WriteTxCoins_def)
  next
    case False
    let ?old = "spenders ?k (m h)"
    have po: "put_outs (case r of None \<Rightarrow> replicate (32 * ?k) 0 | Some (p, d) \<Rightarrow> d) 0 outs False = (enc_outs outs, outs \<noteq> ?old)"
      using data_found [OF fc l] put_outs_spec [of 0 outs ?old False] by (simp add: m)
    show ?thesis
    proof (cases "outs = ?old")
      case True
      have "m h = Some (enc_outs outs)"
      proof (cases "m h")
        case None
        then have "?old = replicate ?k 0" by (simp add: spenders_def)
        then have "set outs \<subseteq> {0}" using True by (metis set_replicate_conv_if empty_subsetI subset_refl)
        with False None show ?thesis by simp
      next
        case (Some d)
        then show ?thesis using True enc_outs_slots [OF len [OF Some]] by (simp add: spenders_def)
      qed
      then have "m(h \<mapsto> enc_outs outs) = m" by auto
      moreover have "WriteTxCoins e bc h outs w = Some (True, bc1, w1)"
        using f po False r0 z True by (simp add: WriteTxCoins_def)
      ultimately show ?thesis using False coins_state_mono [OF st1, of "n - (64 + 32 * ?k)"] by simp
    next
      case changed: False
      have "outs \<noteq> []" using changed by (auto simp: spenders_def split: option.splits)
      then have d: "enc_outs outs \<noteq> []" by (metis length_0_conv length_enc_outs mult_eq_0_iff zero_neq_numeral)
      have "length d0 = length (enc_outs outs)" if "r = Some (p, d0)" for p d0
        using found_length [OF fc that l] by simp
      from store_coins_ok [OF os st1 fc [folded c1] d _ this] n f po False r0 z changed show ?thesis
        by (auto simp: WriteTxCoins_def)
    qed
  qed
qed

lemma WriteCoins_out_ok:
  assumes os: "os_ok e" and st: "coins_state e nm n m bc w" and n: "64 + 32 * length (vout tx) \<le> n"
    and len: "\<And>d. m (Tx.GetHash E tx) = Some d \<Longrightarrow> length d = 32 * length (vout tx)"
    and k: "k < length (vout tx)"
  shows "\<exists>bc' w'. WriteCoins_out e bc E tx (int k) hs w = Some (True, bc', w') \<and>
     coins_state e nm (n - (64 + 32 * length (vout tx)))
       (if m (Tx.GetHash E tx) = None \<and> hs = 0 then m
        else m(Tx.GetHash E tx \<mapsto> enc_outs ((spenders (length (vout tx)) (m (Tx.GetHash E tx)))[k := hs]))) bc' w'"
proof -
  let ?c = "chain e nm w" and ?k = "length (vout tx)" and ?h = "Tx.GetHash E tx"
  have m: "coin_rec ?c = m" using st by (simp add: coins_state_def)
  obtain r bc1 w1 where f: "find_coins e bc ?h (32 * ?k) w = Some (Some r, bc1, w1)"
    and st1: "coins_state e nm n m bc1 w1" and c1: "chain e nm w1 = ?c" and fc: "found_coins ?c ?h r"
    using find_coins_ok [OF os st, of ?h "32 * ?k"] len by fastforce
  have l: "length d = 32 * ?k" if "coin_rec ?c ?h = Some d" for d using len that by (simp add: m)
  have r0: "r = None \<longleftrightarrow> m ?h = None" using found_None_iff [OF fc] by (simp add: m)
  let ?old = "spenders ?k (m ?h)" and ?data = "case r of None \<Rightarrow> replicate (32 * ?k) 0 | Some (p, d) \<Rightarrow> d"
  have data: "?data = enc_outs ?old" using data_found [OF fc l] by (simp add: m)
  have cmp: "take 32 (drop (32 * k) ?data) = ser_int 32 hs \<longleftrightarrow> ?old ! k = hs"
    using k by (simp add: data slot_bytes ser_int32_inj)
  have body: "WriteCoins_out e bc E tx (int k) hs w =
      (if m ?h = None \<and> hs = 0 then Some (True, bc1, w1) else if ?old ! k = hs then Some (True, bc1, w1)
       else store_coins e bc1 ?h (map_option fst r) (enc_outs (?old[k := hs])) w1)"
    using k f r0 cmp data by (simp add: WriteCoins_out_def put_slot_enc_outs)
  show ?thesis
  proof (cases "m ?h = None \<and> hs = 0 \<or> ?old ! k = hs")
    case True
    have "m(?h \<mapsto> enc_outs (?old[k := hs])) = m" if "?old ! k = hs" "\<not> (m ?h = None \<and> hs = 0)"
    proof (cases "m ?h")
      case None
      then show ?thesis using that k by (simp add: spenders_def)
    next
      case (Some d)
      then show ?thesis using that(1) enc_outs_slots [OF len [OF Some]] by (auto simp: spenders_def)
    qed
    then show ?thesis using True body coins_state_mono [OF st1, of "n - (64 + 32 * ?k)"] by auto
  next
    case False
    have len': "length (enc_outs (?old[k := hs])) = 32 * ?k" by simp
    then have d: "enc_outs (?old[k := hs]) \<noteq> []" using k by fastforce
    have "length d0 = length (enc_outs (?old[k := hs]))" if "r = Some (p, d0)" for p d0
      using found_length [OF fc that l] by simp
    from store_coins_ok [OF os st1 fc [folded c1] d _ this] n False body show ?thesis by auto
  qed
qed

lemma ReadCoins_ok:
  assumes os: "os_ok e" and st: "coins_state e nm n m bc w"
    and len: "\<And>d. m (Tx.GetHash E tx) = Some d \<Longrightarrow> 32 * length (vout tx) \<le> length d"
  shows "\<exists>bc' w'. ReadCoins e bc E tx w =
      Some (Some (spenders (length (vout tx)) (m (Tx.GetHash E tx))), bc', w') \<and> coins_state e nm n m bc' w'"
proof -
  have m: "coin_rec (chain e nm w) = m" using st by (simp add: coins_state_def)
  obtain r bc1 w1 where "find_coins e bc (Tx.GetHash E tx) (32 * length (vout tx)) w = Some (Some r, bc1, w1)"
    "coins_state e nm n m bc1 w1" "found_coins (chain e nm w) (Tx.GetHash E tx) r"
    using find_coins_ok [OF os st len] by blast
  then show ?thesis
    by (auto simp: ReadCoins_def found_coins_def m spenders_def split: option.splits)
qed

lemma HasTxCoins_ok:
  assumes os: "os_ok e" and st: "coins_state e nm n m bc w"
  shows "\<exists>bc' w'. HasTxCoins e bc h w = Some (m h \<noteq> None, bc', w') \<and> coins_state e nm n m bc' w'"
proof -
  have m: "coin_rec (chain e nm w) = m" using st by (simp add: coins_state_def)
  obtain err r bc' w' where i: "bc_idx_find e bc (GetRaw h) w = Some ((err, r), bc', w')" "coins_state e nm n m bc' w'"
    and cf: "case chain_find (chain e nm w) (GetRaw h) of None \<Rightarrow> err \<noteq> 0 | Some i \<Rightarrow> err = 0 \<and> (\<exists>x. r = Some (x, i))"
    using idx_find_coins [OF os st, of h] by blast
  have "err = 0 \<longleftrightarrow> m h \<noteq> None"
    using cf chain_find_SomeD [of "chain e nm w" "GetRaw h"]
    by (auto simp: m [symmetric] coin_rec_def lookup_def has_hash_iff split: option.splits)
  with i show ?thesis by (simp add: HasTxCoins_def)
qed

lemma EraseTxCoins_ok:
  assumes os: "os_ok e" and st: "coins_state e nm n m bc w" and n: "128 \<le> n"
  shows "\<exists>bc' w'. EraseTxCoins e bc h w = Some (True, bc', w') \<and> coins_state e nm (n - 64) (m(h := None)) bc' w'"
proof -
  let ?c = "chain e nm w"
  have m: "coin_rec ?c = m" and u: "coins_unique ?c" using st by (simp_all add: coins_state_def)
  obtain err r bc1 w1 where i: "bc_idx_find e bc (GetRaw h) w = Some ((err, r), bc1, w1)"
    and st1: "coins_state e nm n m bc1 w1" and c1: "chain e nm w1 = ?c"
    and cf: "case chain_find ?c (GetRaw h) of None \<Rightarrow> err \<noteq> 0 | Some i \<Rightarrow> err = 0 \<and> (\<exists>x. r = Some (x, i))"
    using idx_find_coins [OF os st, of h] by blast
  show ?thesis
  proof (cases "chain_find ?c (GetRaw h)")
    case None
    then have "m(h := None) = m" by (auto simp: m [symmetric] coin_rec_def)
    then show ?thesis using None cf i coins_state_mono [OF st1, of "n - 64"] by (simp add: EraseTxCoins_def)
  next
    case (Some j)
    then obtain d where j: "j < length ?c" "?c ! j = Some (GetRaw h, d)"
      using chain_find_SomeD [OF Some] by (auto simp: has_hash_iff)
    have "length ?c < 67108864" using idx_count_less [of e nm w] by simp
    then have uj: "unat (of_nat j :: u32) = j" using j(1) by (intro unat_of_nat_u32) simp
    have db1: "db_ok e bc1 w1 n" "bc_name bc1 = nm" using st1 by (simp_all add: coins_state_def)
    have lv: "live e (bc_name bc1) w1 (unat (of_nat j :: u32))"
      using j by (simp add: live_lookup uj db1(2) c1 lookup_def)
    obtain bc2 w2 where cl: "bc_clear e bc1 (of_nat j) w1 = Some (0, bc2, w2)"
      and k2: "bc_name bc2 = nm" "db_ok e bc2 w2 (n - 64)" "chain e nm w2 = ?c[j := None]"
      using bc_clear_ok [OF os db1(1) lv n] by (auto simp: returns_def db_cleared_def uj db1(2) c1)
    obtain bc3 w3 where rs: "bc_table_reset e bc2 (GetRaw h) w2 = Some (0, bc3, w3)"
      and k3: "bc_name bc3 = nm" "db_ok e bc3 w3 (n - 64)" "chain e nm w3 = ?c[j := None]"
      by (rule table_reset_keep [OF os k2(2), of "GetRaw h"]) (simp add: k2)
    have "coins_state e nm (n - 64) (m(h := None)) bc3 w3"
      using k3 coins_update [OF u j, of None] by (simp add: coins_state_def m)
    moreover have "EraseTxCoins e bc h w = Some (True, bc3, w3)"
      using cf Some by (auto simp: EraseTxCoins_def i cl rs)
    ultimately show ?thesis by blast
  qed
qed

section \<open>Sequences of calls\<close>

text \<open>
  The calls as requests and their specification on a map from hashes to lists of spenders.
  \<open>nout\<close> is the number of outputs of the transaction with a hash.
\<close>

datatype coin_req =
    PutCoins u256 "u256 list"
  | SpendCoin CTransaction nat u256
  | QueryCoins CTransaction
  | HasCoins u256
  | DropCoins u256

datatype coin_ans = Flag bool | Outs "u256 list option"

fun coin_exec :: "env \<Rightarrow> senv \<Rightarrow> coin_req \<Rightarrow> bc_t \<times> world \<Rightarrow> (coin_ans \<times> bc_t \<times> world) option" where
  "coin_exec e E (PutCoins h outs) (bc, w) = map_option (\<lambda>(r, s). (Flag r, s)) (WriteTxCoins e bc h outs w)"
| "coin_exec e E (SpendCoin tx k h) (bc, w) = map_option (\<lambda>(r, s). (Flag r, s)) (WriteCoins_out e bc E tx (int k) h w)"
| "coin_exec e E (QueryCoins tx) (bc, w) = map_option (\<lambda>(r, s). (Outs r, s)) (ReadCoins e bc E tx w)"
| "coin_exec e E (HasCoins h) (bc, w) = map_option (\<lambda>(r, s). (Flag r, s)) (HasTxCoins e bc h w)"
| "coin_exec e E (DropCoins h) (bc, w) = map_option (\<lambda>(r, s). (Flag r, s)) (EraseTxCoins e bc h w)"

type_synonym coin_map = "u256 \<rightharpoonup> u256 list"

definition outs_in :: "coin_map \<Rightarrow> u256 \<Rightarrow> nat \<Rightarrow> u256 list" where
  "outs_in m h k = (case m h of None \<Rightarrow> replicate k 0 | Some os \<Rightarrow> os)"

fun coin_spec :: "senv \<Rightarrow> coin_req \<Rightarrow> coin_map \<Rightarrow> coin_ans \<times> coin_map" where
  "coin_spec E (PutCoins h outs) m =
     (Flag True, if m h = None \<and> set outs \<subseteq> {0} then m else m(h \<mapsto> outs))"
| "coin_spec E (SpendCoin tx k s) m =
     (Flag True, let h = Tx.GetHash E tx in
        if m h = None \<and> s = 0 then m else m(h \<mapsto> (outs_in m h (length (vout tx)))[k := s]))"
| "coin_spec E (QueryCoins tx) m = (Outs (Some (outs_in m (Tx.GetHash E tx) (length (vout tx)))), m)"
| "coin_spec E (HasCoins h) m = (Flag (m h \<noteq> None), m)"
| "coin_spec E (DropCoins h) m = (Flag True, m(h := None))"

fun coin_cost :: "coin_req \<Rightarrow> coin_map \<Rightarrow> nat" where
  "coin_cost (PutCoins h outs) m = 64 + 32 * length outs"
| "coin_cost (SpendCoin tx k h) m = 64 + 32 * length (vout tx)"
| "coin_cost (DropCoins h) m = 128"
| "coin_cost _ m = 0"

fun coin_valid :: "senv \<Rightarrow> (u256 \<Rightarrow> nat) \<Rightarrow> coin_req \<Rightarrow> bool" where
  "coin_valid E nout (PutCoins h outs) = (length outs = nout h)"
| "coin_valid E nout (SpendCoin tx k h) = (length (vout tx) = nout (Tx.GetHash E tx) \<and> k < length (vout tx))"
| "coin_valid E nout (QueryCoins tx) = (length (vout tx) = nout (Tx.GetHash E tx))"
| "coin_valid E nout _ = True"

definition coin_dec :: "(u256 \<Rightarrow> nat) \<Rightarrow> (u256 \<rightharpoonup> u8 list) \<Rightarrow> coin_map" where
  "coin_dec nout m h = map_option (\<lambda>d. map (slot d) [0..<nout h]) (m h)"

definition sized :: "(u256 \<Rightarrow> nat) \<Rightarrow> (u256 \<rightharpoonup> u8 list) \<Rightarrow> bool" where
  "sized nout m \<longleftrightarrow> (\<forall>h d. m h = Some d \<longrightarrow> length d = 32 * nout h)"

definition coin_view :: "env \<Rightarrow> string \<Rightarrow> (u256 \<Rightarrow> nat) \<Rightarrow> bc_t \<times> world \<Rightarrow> coin_map" where
  "coin_view e nm nout s = coin_dec nout (coin_rec (chain e nm (snd s)))"

definition coin_state :: "env \<Rightarrow> string \<Rightarrow> (u256 \<Rightarrow> nat) \<Rightarrow> nat \<Rightarrow> bc_t \<times> world \<Rightarrow> bool" where
  "coin_state e nm nout n s \<longleftrightarrow> os_ok e \<and>
     (\<exists>m. coins_state e nm n m (fst s) (snd s) \<and> sized nout m)"

lemma coin_dec_upd:
  "length outs = nout h \<Longrightarrow> coin_dec nout (m(h \<mapsto> enc_outs outs)) = (coin_dec nout m)(h \<mapsto> outs)"
  by (auto simp: coin_dec_def fun_eq_iff slot_enc_outs intro!: nth_equalityI)

lemma coin_dec_del: "coin_dec nout (m(h := None)) = (coin_dec nout m)(h := None)"
  by (auto simp: coin_dec_def fun_eq_iff)

lemma coin_dec_None [simp]: "coin_dec nout m h = None \<longleftrightarrow> m h = None"
  by (simp add: coin_dec_def)

lemma outs_in_dec: "k = nout h \<Longrightarrow> outs_in (coin_dec nout m) h k = spenders k (m h)"
  by (simp add: outs_in_def coin_dec_def spenders_def split: option.splits)

lemma coins_view: "coins_state e nm n m bc w \<Longrightarrow> coin_view e nm nout (bc, w) = coin_dec nout m"
  by (simp add: coins_state_def coin_view_def)

lemma coin_stateI: "os_ok e \<Longrightarrow> coins_state e nm n m bc w \<Longrightarrow> sized nout m \<Longrightarrow> coin_state e nm nout n (bc, w)"
  by (auto simp: coin_state_def)

lemma sized_upd: "sized nout m \<Longrightarrow> length outs = nout h \<Longrightarrow> sized nout (m(h \<mapsto> enc_outs outs))"
  by (simp add: sized_def)

interpretation coins: refined_machine "coin_state e nm nout" "coin_view e nm nout" "coin_exec e E" "coin_spec E" coin_cost
    "coin_valid E nout" for e nm nout E
proof
  fix n s r
  assume ok: "coin_state e nm nout n s" and v: "coin_valid E nout r" and c: "coin_cost r (coin_view e nm nout s) \<le> n"
  obtain bc w m where s: "s = (bc, w)" and os: "os_ok e" and st: "coins_state e nm n m bc w" and sz: "sized nout m"
    using ok by (cases s) (auto simp: coin_state_def)
  note view = coins_view [OF st, of nout]
  have goalI: "\<exists>s'. coin_exec e E r s = Some (fst (coin_spec E r (coin_view e nm nout s)), s') \<and>
      coin_state e nm nout (n - coin_cost r (coin_view e nm nout s)) s' \<and>
      coin_view e nm nout s' = snd (coin_spec E r (coin_view e nm nout s))"
    if "coin_exec e E r s = Some (fst (coin_spec E r (coin_dec nout m)), bc', w')"
      "coins_state e nm k m' bc' w'" "n - coin_cost r (coin_view e nm nout s) \<le> k" "sized nout m'"
      "coin_dec nout m' = snd (coin_spec E r (coin_dec nout m))" for bc' w' k m'
    using that coin_stateI [OF os coins_state_mono [OF that(2,3)] that(4)] coins_view [OF that(2), of nout]
    by (intro exI [of _ "(bc', w')"]) (simp add: s view)
  show "\<exists>s'. coin_exec e E r s = Some (fst (coin_spec E r (coin_view e nm nout s)), s') \<and>
      coin_state e nm nout (n - coin_cost r (coin_view e nm nout s)) s' \<and>
      coin_view e nm nout s' = snd (coin_spec E r (coin_view e nm nout s))"
  proof (cases r)
    case (PutCoins h outs)
    have len: "length d = 32 * length outs" if "m h = Some d" for d using sz that v by (simp add: PutCoins sized_def)
    have "64 + 32 * length outs \<le> n" using c by (simp add: PutCoins)
    from WriteTxCoins_ok [OF os st this len] obtain bc' w' where
      wr: "WriteTxCoins e bc h outs w = Some (True, bc', w')" and
      st': "coins_state e nm (n - (64 + 32 * length outs))
         (if m h = None \<and> set outs \<subseteq> {0} then m else m(h \<mapsto> enc_outs outs)) bc' w'" by blast
    show ?thesis
      by (rule goalI [OF _ st']) (use v sz wr in \<open>auto simp: PutCoins s coin_dec_upd sized_upd\<close>)
  next
    case (SpendCoin tx k hs)
    let ?h = "Tx.GetHash E tx"
    have len: "length d = 32 * length (vout tx)" if "m ?h = Some d" for d using sz that v by (simp add: SpendCoin sized_def)
    have n: "64 + 32 * length (vout tx) \<le> n" and k: "k < length (vout tx)" using c v by (simp_all add: SpendCoin)
    from WriteCoins_out_ok [OF os st n len k, where hs = hs] obtain bc' w' where
      wr: "WriteCoins_out e bc E tx (int k) hs w = Some (True, bc', w')" and
      st': "coins_state e nm (n - (64 + 32 * length (vout tx)))
         (if m ?h = None \<and> hs = 0 then m else m(?h \<mapsto> enc_outs ((spenders (length (vout tx)) (m ?h))[k := hs]))) bc' w'"
      by blast
    show ?thesis
      by (rule goalI [OF _ st']) (use v sz wr in \<open>auto simp: SpendCoin s coin_dec_upd sized_upd outs_in_dec Let_def\<close>)
  next
    case (QueryCoins tx)
    have "32 * length (vout tx) \<le> length d" if "m (Tx.GetHash E tx) = Some d" for d
      using sz that v by (simp add: QueryCoins sized_def)
    from ReadCoins_ok [OF os st this] obtain bc' w' where
      rd: "ReadCoins e bc E tx w = Some (Some (spenders (length (vout tx)) (m (Tx.GetHash E tx))), bc', w')" and
      st': "coins_state e nm n m bc' w'" by blast
    show ?thesis by (rule goalI [OF _ st']) (use v sz rd in \<open>auto simp: QueryCoins s outs_in_dec\<close>)
  next
    case (HasCoins h)
    from HasTxCoins_ok [OF os st, of h] obtain bc' w' where
      hs: "HasTxCoins e bc h w = Some (m h \<noteq> None, bc', w')" and st': "coins_state e nm n m bc' w'" by blast
    show ?thesis by (rule goalI [OF _ st']) (use sz hs in \<open>auto simp: HasCoins s\<close>)
  next
    case (DropCoins h)
    have "128 \<le> n" using c by (simp add: DropCoins)
    from EraseTxCoins_ok [OF os st this, of h] obtain bc' w' where
      er: "EraseTxCoins e bc h w = Some (True, bc', w')" and st': "coins_state e nm (n - 64) (m(h := None)) bc' w'" by blast
    show ?thesis by (rule goalI [OF _ st']) (use sz er in \<open>auto simp: DropCoins s coin_dec_del sized_def\<close>)
  qed
qed

text \<open>
  C6: the coin database is a map from transactions to the spenders of their outputs.  Any sequence of
  \<open>WriteTxCoins\<close>, \<open>WriteCoins\<close>, \<open>ReadCoins\<close>, \<open>HasTxCoins\<close> and \<open>EraseTxCoins\<close>, on a database whose
  files have room for it, returns, answers as the map does and leaves the database in the state of
  the map, provided every call for a transaction has its number of outputs.
\<close>

theorem coins_refine_map:
  assumes "coin_state e nm nout n s" and "\<forall>r\<in>set rs. coin_valid E nout r"
    and "cost_all (coin_spec E) coin_cost rs (coin_view e nm nout s) \<le> n"
  shows "\<exists>s'. run_all (coin_exec e E) rs s = Some (fst (spec_all (coin_spec E) rs (coin_view e nm nout s)), s') \<and>
    coin_view e nm nout s' = snd (spec_all (coin_spec E) rs (coin_view e nm nout s)) \<and>
    (\<exists>n'. coin_state e nm nout n' s')"
  using coins.runs_ok [OF assms] by blast

lemma coin_state0: "coin_state env0 (bc_name bc0) nout 1000000000 (bc0, world0)"
  by (rule coin_stateI [OF os_ok0, where m = Map.empty])
    (simp_all add: coins_state_def db_ok0 chain0 coins_unique_Nil sized_def)

text \<open>Concrete instance: the second output of a transaction is spent, and the record is erased.\<close>

theorem coins_refine_map_witness:
  "\<exists>s. run_all (coin_exec env0 ref_env) [HasCoins 7, PutCoins 7 [0, 9], HasCoins 7, DropCoins 7, HasCoins 7] (bc0, world0) =
     Some ([Flag False, Flag True, Flag True, Flag True, Flag False], s)"
proof -
  have v: "coin_view env0 (bc_name bc0) (\<lambda>_. 2) (bc0, world0) = Map.empty"
    by (simp add: coin_view_def chain0 coins_unique_Nil coin_dec_def fun_eq_iff)
  show ?thesis
    using coins_refine_map [OF coin_state0 [of "\<lambda>_. 2"],
        of "[HasCoins 7, PutCoins 7 [0, 9], HasCoins 7, DropCoins 7, HasCoins 7]" ref_env]
    by (auto simp: v)
qed

end
