(* ===== verification/Connect.thy ===== *)
theory Connect
  imports Coins "HOL-Library.AList"
begin

text \<open>
  Connecting a block to the chain, and disconnecting a transaction (\<^verbatim>\<open>server/coin.cpp\<close>, in the build
  without \<open>USE_LEVELDB_COINDB\<close>), with \<open>VerifySignature\<close> of \<^verbatim>\<open>server/script.cpp\<close>.  The coin database
  is the one of the theory of coins.  What the functions look up elsewhere is in the record
  \<open>cenv\<close>: the transactions of the chain with the block they are in (\<open>GetTransaction\<close>), those of the
  memory pool, the heights of the known blocks, the limits of the coin, the environment of the
  script interpreter for each input, the block reward (\<open>GetBlockValue\<close>), and the
  calls \<open>WriteBlock\<close> and \<open>EraseTx\<close>, which work on the databases of blocks and transactions.  The
  wallet and the hooks of the extensions have no effect on the coins and are left out.  A
  transaction whose input is not found has no outputs, so it is refused with and without
  \<open>fRequireInputs\<close>.

  The results: \<^term>\<open>None\<close> is an undefined execution; \<^term>\<open>Some (None, s)\<close> the return of
  \<open>false\<close>.  The variable \<open>nSigOps\<close> is a word of 32 bits, amounts have 64.
\<close>

record cenv =
  get_tx :: "u256 \<rightharpoonup> CTransaction \<times> u256"
  pool :: "u256 \<rightharpoonup> CTransaction"
  blk_height :: "u256 \<rightharpoonup> int"
  limits :: coin_limits
  max_sigops :: u64
  hash_env :: senv
  input_env :: "CTransaction \<Rightarrow> nat \<Rightarrow> senv"
  GetBlockValue :: "int \<Rightarrow> i64 \<Rightarrow> i64"
  write_block :: "int \<Rightarrow> world \<Rightarrow> (bool \<times> world) option"
  erase_tx :: "CTransaction \<Rightarrow> world \<Rightarrow> (bool \<times> world) option"

section \<open>Verifying one input\<close>

definition VerifySignature :: "cenv \<Rightarrow> CTransaction \<Rightarrow> CTransaction \<Rightarrow> nat \<Rightarrow> bool \<Rightarrow> unit outcome" where
  "VerifySignature C txFrom txTo nIn p2sh =
     (if nIn \<ge> length (vin txTo) then Undef
      else let txin = vin txTo ! nIn in
        if unat (prev_n (prevout txin)) \<ge> length (vout txFrom) then Fail
        else if prev_hash (prevout txin) \<noteq> Tx.GetHash (hash_env C) txFrom then Fail
        else VerifyScript (input_env C txTo nIn) (scriptSig txin) []
               (scriptPubKey (vout txFrom ! unat (prev_n (prevout txin)))) p2sh 0)"

definition verify_redeem :: "valtype list \<Rightarrow> int \<Rightarrow> int option" where
  "verify_redeem stk nArgsExpected =
     (if stk = [] then None
      else case Solver (hd stk) of None \<Rightarrow> None
      | Some (whichType2, vSolutions2) \<Rightarrow>
          if whichType2 = TX_SCRIPTHASH then None
          else let tmpExpected = ScriptSigArgsExpected whichType2 vSolutions2 in
            if tmpExpected < 0 then None else Some (nArgsExpected + tmpExpected))"

definition core_VerifyCoinInputs :: "cenv \<Rightarrow> CTransaction \<Rightarrow> nat \<Rightarrow> CTxOut \<Rightarrow> unit outcome" where
  "core_VerifyCoinInputs C tx nIn prev =
     (case Solver (scriptPubKey prev) of None \<Rightarrow> Fail
      | Some (whichType, vSolutions) \<Rightarrow>
          let nArgsExpected = ScriptSigArgsExpected whichType vSolutions in
          if nArgsExpected < 0 then Fail
          else case EvalScript (input_env C tx nIn) [] (scriptSig (vin tx ! nIn)) 0 0 of
            Undef \<Rightarrow> Undef
          | Fail \<Rightarrow> Fail
          | Ok stk \<Rightarrow>
              (case (if whichType = TX_SCRIPTHASH then verify_redeem stk nArgsExpected else Some nArgsExpected) of
                 None \<Rightarrow> Fail
               | Some nArgsExpected \<Rightarrow> if int (length stk) \<noteq> nArgsExpected then Fail else Ok ()))"

section \<open>Connecting the inputs of a transaction\<close>

record cstate =
  mapOutput :: "(u256 \<times> u256 list) list"
  mapTx :: "(u256 \<times> CTransaction) list"
  nSigOps :: u32
  nFees :: i64

definition block_GetTx :: "cenv \<Rightarrow> CTransaction list \<Rightarrow> u256 \<Rightarrow> CTransaction option" where
  "block_GetTx C vtx h = List.find (\<lambda>t. Tx.GetHash (hash_env C) t = h) vtx"

text \<open>The transaction an input spends, with the hash of its block or 0.\<close>

definition find_prev :: "cenv \<Rightarrow> CTransaction list option \<Rightarrow> u256 \<Rightarrow> (CTransaction \<times> u256) option" where
  "find_prev C pBlock h =
     (case get_tx C h of
        Some r \<Rightarrow> Some r
      | None \<Rightarrow>
          (case pool C h of
             Some t \<Rightarrow> Some (t, 0)
           | None \<Rightarrow>
               (case pBlock of None \<Rightarrow> None
                | Some vtx \<Rightarrow> map_option (\<lambda>t. (t, 0)) (block_GetTx C vtx h))))"

text \<open>The difference of the heights is compared as an unsigned number.\<close>

definition mature :: "cenv \<Rightarrow> int \<Rightarrow> CTransaction \<Rightarrow> u256 \<Rightarrow> bool" where
  "mature C nHeight prevtx prevblockhash =
     (if \<not> IsCoinBase prevtx then True
      else if prevblockhash = 0 then False
      else case blk_height C prevblockhash of None \<Rightarrow> False
      | Some h \<Rightarrow> \<not> (of_int (nHeight - h) :: u64) < coinbase_maturity (limits C))"

definition verified :: "cenv \<Rightarrow> bool \<Rightarrow> bool \<Rightarrow> CTransaction \<Rightarrow> CTransaction \<Rightarrow> nat \<Rightarrow> unit outcome" where
  "verified C fVerifySig fVerifyInputs prevtx tx i =
     (case (if fVerifySig then VerifySignature C prevtx tx i True else Ok ()) of
        Undef \<Rightarrow> Undef | Fail \<Rightarrow> Fail
      | Ok _ \<Rightarrow>
          if fVerifyInputs then core_VerifyCoinInputs C tx i (vout prevtx ! unat (prev_n (prevout (vin tx ! i))))
          else Ok ())"

text \<open>The spenders of the outputs of the previous transaction: of this block, or from the database.\<close>

definition prev_outs :: "env \<Rightarrow> cenv \<Rightarrow> cstate \<Rightarrow> u256 \<Rightarrow> CTransaction \<Rightarrow> bc_t \<Rightarrow> world \<Rightarrow>
    (u256 list option \<times> bc_t \<times> world) option" where
  "prev_outs e C st h prevtx bc w =
     (case map_of (mapOutput st) h of
        Some outs \<Rightarrow> Some (Some outs, bc, w)
      | None \<Rightarrow> ReadCoins e bc (hash_env C) prevtx w)"

definition spent_state :: "cenv \<Rightarrow> CTransaction \<Rightarrow> CTxIn \<Rightarrow> CTransaction \<Rightarrow> u256 list \<Rightarrow> cstate \<Rightarrow> cstate" where
  "spent_state C tx i prevtx outs st =
     (let h = prev_hash (prevout i); k = unat (prev_n (prevout i)); out = vout prevtx ! k in
      st\<lparr>mapTx := AList.update h prevtx (mapTx st),
         mapOutput := AList.update h (outs[k := Tx.GetHash (hash_env C) tx]) (mapOutput st),
         nSigOps := (if IsPayToScriptHash (scriptPubKey out)
                     then nSigOps st + GetSigOpCount_for (scriptPubKey out) (scriptSig i) else nSigOps st)\<rparr>)"

text \<open>One round of the loop.  The value of the output is added twice.\<close>

definition connect_input :: "env \<Rightarrow> cenv \<Rightarrow> CTransaction \<Rightarrow> int \<Rightarrow> bool \<Rightarrow> bool \<Rightarrow> CTransaction list option \<Rightarrow> nat \<Rightarrow>
    i64 \<times> cstate \<Rightarrow> bc_t \<Rightarrow> world \<Rightarrow> ((i64 \<times> cstate) option \<times> bc_t \<times> world) option" where
  "connect_input e C tx nHeight fVerifySig fVerifyInputs pBlock i vs bc w =
     (let p = prevout (vin tx ! i); k = unat (prev_n p); (nValueIn, st) = vs in
      case find_prev C pBlock (prev_hash p) of
        None \<Rightarrow> Some (None, bc, w)
      | Some (prevtx, prevblockhash) \<Rightarrow>
          if k \<ge> length (vout prevtx) then Some (None, bc, w)
          else if \<not> MoneyRange (limits C) (nValue (vout prevtx ! k)) then Some (None, bc, w)
          else if \<not> mature C nHeight prevtx prevblockhash then Some (None, bc, w)
          else do {
            (r, bc, w) \<leftarrow> prev_outs e C st (prev_hash p) prevtx bc w;
            case r of None \<Rightarrow> Some (None, bc, w)
            | Some outs \<Rightarrow>
                if length outs \<noteq> length (vout prevtx) then Some (None, bc, w)
                else if outs ! k \<noteq> 0 \<and> outs ! k \<noteq> Tx.GetHash (hash_env C) tx then Some (None, bc, w)
                else let nValueIn = nValueIn + nValue (vout prevtx ! k) in
                  (case verified C fVerifySig fVerifyInputs prevtx tx i of
                     Undef \<Rightarrow> None
                   | Fail \<Rightarrow> Some (None, bc, w)
                   | Ok _ \<Rightarrow>
                       Some (Some (nValueIn + nValue (vout prevtx ! k),
                                   spent_state C tx (vin tx ! i) prevtx outs st), bc, w)) })"

fun connect_inputs :: "env \<Rightarrow> cenv \<Rightarrow> CTransaction \<Rightarrow> int \<Rightarrow> bool \<Rightarrow> bool \<Rightarrow> CTransaction list option \<Rightarrow> nat list \<Rightarrow>
    i64 \<times> cstate \<Rightarrow> bc_t \<Rightarrow> world \<Rightarrow> ((i64 \<times> cstate) option \<times> bc_t \<times> world) option" where
  "connect_inputs e C tx nHeight fVerifySig fVerifyInputs pBlock [] vs bc w = Some (Some vs, bc, w)"
| "connect_inputs e C tx nHeight fVerifySig fVerifyInputs pBlock (i # is) vs bc w = do {
     (r, bc, w) \<leftarrow> connect_input e C tx nHeight fVerifySig fVerifyInputs pBlock i vs bc w;
     case r of None \<Rightarrow> Some (None, bc, w)
     | Some vs \<Rightarrow> connect_inputs e C tx nHeight fVerifySig fVerifyInputs pBlock is vs bc w }"

definition fees_ok :: "cenv \<Rightarrow> CTransaction \<Rightarrow> i64 \<Rightarrow> bool" where
  "fees_ok C tx nValueIn \<longleftrightarrow>
     MoneyRange (limits C) (nValueIn - GetValueOut tx) \<and> MoneyRange (limits C) nValueIn \<and>
     \<not> sint nValueIn < sint (GetValueOut tx)"

definition core_ConnectCoinInputs :: "env \<Rightarrow> cenv \<Rightarrow> CTransaction \<Rightarrow> int \<Rightarrow> bool \<Rightarrow> bool \<Rightarrow> CTransaction list option \<Rightarrow>
    cstate \<Rightarrow> bc_t \<Rightarrow> world \<Rightarrow> (cstate option \<times> bc_t \<times> world) option" where
  "core_ConnectCoinInputs e C tx nHeight fVerifySig fVerifyInputs pBlock st bc w =
     (if IsCoinBase tx then Some (Some st, bc, w)
      else do {
        (r, bc, w) \<leftarrow> connect_inputs e C tx nHeight fVerifySig fVerifyInputs pBlock [0..<length (vin tx)]
          (0, st\<lparr>nSigOps := nSigOps st + GetLegacySigOpCount tx\<rparr>) bc w;
        case r of None \<Rightarrow> Some (None, bc, w)
        | Some (nValueIn, st) \<Rightarrow>
            if \<not> fees_ok C tx nValueIn then Some (None, bc, w)
            else Some (Some (st\<lparr>nFees := nFees st + (nValueIn - GetValueOut tx)\<rparr>), bc, w) })"

section \<open>Connecting a block\<close>

fun connect_txs :: "env \<Rightarrow> cenv \<Rightarrow> int \<Rightarrow> CTransaction list \<Rightarrow> CTransaction list \<Rightarrow> cstate \<Rightarrow> bc_t \<Rightarrow> world \<Rightarrow>
    (cstate option \<times> bc_t \<times> world) option" where
  "connect_txs e C nHeight vtx [] st bc w = Some (Some st, bc, w)"
| "connect_txs e C nHeight vtx (tx # txs) st bc w = do {
     (r, bc, w) \<leftarrow> core_ConnectCoinInputs e C tx nHeight True False (Some vtx) st bc w;
     case r of None \<Rightarrow> Some (None, bc, w)
     | Some st \<Rightarrow> connect_txs e C nHeight vtx txs st bc w }"

text \<open>The queued spends are written in the order of the hashes, which is that of \<open>std::map\<close>.\<close>

fun commit_spends :: "env \<Rightarrow> cenv \<Rightarrow> (u256 \<times> CTransaction) list \<Rightarrow> (u256 \<times> u256 list) list \<Rightarrow> bc_t \<Rightarrow> world \<Rightarrow>
    (bool \<times> bc_t \<times> world) option" where
  "commit_spends e C txs [] bc w = Some (True, bc, w)"
| "commit_spends e C txs ((h, outs) # ms) bc w = do {
     (ok, bc, w) \<leftarrow> WriteCoins e bc (hash_env C) (case map_of txs h of None \<Rightarrow> SetNull | Some t \<Rightarrow> t) outs w;
     if \<not> ok then Some (False, bc, w) else commit_spends e C txs ms bc w }"

definition cstate0 :: cstate where
  "cstate0 = \<lparr>mapOutput = [], mapTx = [], nSigOps = 0, nFees = 0\<rparr>"

definition block_value_ok :: "cenv \<Rightarrow> int \<Rightarrow> CTransaction list \<Rightarrow> cstate \<Rightarrow> bool" where
  "block_value_ok C nHeight vtx st \<longleftrightarrow>
     \<not> scast (nSigOps st) > max_sigops C \<and>
     \<not> sint (GetValueOut (vtx ! 0)) > sint (GetBlockValue C nHeight (nFees st))"

text \<open>\<open>pprev\<close> is the height of the block before, when there is one.\<close>

definition core_ConnectBlock :: "env \<Rightarrow> cenv \<Rightarrow> CTransaction list \<Rightarrow> int \<Rightarrow> int option \<Rightarrow> bc_t \<Rightarrow> world \<Rightarrow>
    (bool \<times> bc_t \<times> world) option" where
  "core_ConnectBlock e C vtx nHeight pprev bc w = do {
     (r, bc, w) \<leftarrow> connect_txs e C nHeight vtx vtx cstate0 bc w;
     case r of None \<Rightarrow> Some (False, bc, w)
     | Some st \<Rightarrow>
         if vtx = [] then None
         else if \<not> block_value_ok C nHeight vtx st then Some (False, bc, w)
         else do {
           (ok, bc, w) \<leftarrow> commit_spends e C (mapTx st) (sort_key fst (mapOutput st)) bc w;
           if \<not> ok then Some (False, bc, w)
           else case pprev of None \<Rightarrow> Some (True, bc, w)
           | Some h \<Rightarrow> do {
               (ok, w) \<leftarrow> write_block C (h + 1) w;
               Some (ok, bc, w) } } }"

section \<open>Disconnecting a transaction\<close>

fun release_inputs :: "env \<Rightarrow> cenv \<Rightarrow> CTxIn list \<Rightarrow> bc_t \<Rightarrow> world \<Rightarrow> (bc_t \<times> world) option" where
  "release_inputs e C [] bc w = Some (bc, w)"
| "release_inputs e C (i # is) bc w =
     (case get_tx C (prev_hash (prevout i)) of
        None \<Rightarrow> release_inputs e C is bc w
      | Some (prevtx, _) \<Rightarrow> do {
          (_, bc, w) \<leftarrow> WriteCoins_out e bc (hash_env C) prevtx (sint (prev_n (prevout i))) 0 w;
          release_inputs e C is bc w })"

definition core_DisconnectInputs :: "env \<Rightarrow> cenv \<Rightarrow> CTransaction \<Rightarrow> bc_t \<Rightarrow> world \<Rightarrow> (bool \<times> bc_t \<times> world) option" where
  "core_DisconnectInputs e C tx bc w = do {
     (bc, w) \<leftarrow> (if IsCoinBase tx then Some (bc, w) else release_inputs e C (vin tx) bc w);
     (_, bc, w) \<leftarrow> EraseTxCoins e bc (Tx.GetHash (hash_env C) tx) w;
     (_, w) \<leftarrow> erase_tx C tx w;
     Some (True, bc, w) }"

section \<open>What a connected input has passed\<close>

abbreviation tx_id :: "cenv \<Rightarrow> CTransaction \<Rightarrow> u256" where
  "tx_id C tx \<equiv> Tx.GetHash (hash_env C) tx"

lemma connect_inputD:
  assumes "connect_input e C tx nHeight fs fi pBlock i (v, st) bc w = Some (Some (v', st'), bc', w')"
    and "p = prevout (vin tx ! i)" and "k = unat (prev_n p)"
  obtains prevtx pbh outs where "find_prev C pBlock (prev_hash p) = Some (prevtx, pbh)"
    and "k < length (vout prevtx)" and "length outs = length (vout prevtx)"
    and "MoneyRange (limits C) (nValue (vout prevtx ! k))" and "mature C nHeight prevtx pbh"
    and "prev_outs e C st (prev_hash p) prevtx bc w = Some (Some outs, bc', w')"
    and "outs ! k = 0 \<or> outs ! k = tx_id C tx" and "verified C fs fi prevtx tx i = Ok ()"
    and "v' = v + nValue (vout prevtx ! k) + nValue (vout prevtx ! k)"
    and "st' = spent_state C tx (vin tx ! i) prevtx outs st"
proof -
  note ci = assms(1) [unfolded connect_input_def Let_def split, folded assms(2), folded assms(3)]
  obtain prevtx pbh where f: "find_prev C pBlock (prev_hash p) = Some (prevtx, pbh)"
    using ci by (cases "find_prev C pBlock (prev_hash p)") auto
  note ci1 = ci [unfolded f option.case split]
  have g: "k < length (vout prevtx)" "MoneyRange (limits C) (nValue (vout prevtx ! k))" "mature C nHeight prevtx pbh"
    using ci1 by (auto split: if_splits)
  obtain r bc1 w1 where o: "prev_outs e C st (prev_hash p) prevtx bc w = Some (r, bc1, w1)"
    using ci1 g by (cases "prev_outs e C st (prev_hash p) prevtx bc w") auto
  obtain outs where r: "r = Some outs" using ci1 g o by (cases r) auto
  have h: "length outs = length (vout prevtx)" "outs ! k = 0 \<or> outs ! k = tx_id C tx"
    using ci1 g o r by (auto split: if_splits)
  have "verified C fs fi prevtx tx i = Ok () \<and> bc1 = bc' \<and> w1 = w' \<and>
      v' = v + nValue (vout prevtx ! k) + nValue (vout prevtx ! k) \<and>
      st' = spent_state C tx (vin tx ! i) prevtx outs st"
    using ci1 g o r h by (auto split: outcome.splits)
  with that [OF f g(1) h(1) g(2,3)] o r h(2) show thesis by blast
qed

text \<open>The outputs a list of inputs has claimed for a transaction are recorded under its hash.\<close>

definition claims :: "cenv \<Rightarrow> CTransaction \<Rightarrow> CTxIn set \<Rightarrow> (COutPoint \<times> u256) set" where
  "claims C tx is = (\<lambda>i. (prevout i, tx_id C tx)) ` is"

definition claimed :: "cstate \<Rightarrow> (COutPoint \<times> u256) set \<Rightarrow> bool" where
  "claimed st D \<longleftrightarrow> (\<forall>(p, t)\<in>D. \<exists>outs. map_of (mapOutput st) (prev_hash p) = Some outs \<and>
     unat (prev_n p) < length outs \<and> outs ! unat (prev_n p) = t)"

lemma mapOutput_spent:
  "map_of (mapOutput (spent_state C tx i prevtx outs st)) =
     (map_of (mapOutput st))(prev_hash (prevout i) \<mapsto> outs[unat (prev_n (prevout i)) := tx_id C tx])"
  by (simp add: spent_state_def Let_def update_conv')

lemma claimed_spent:
  assumes D: "claimed st D" and nz: "\<forall>(p, t)\<in>D. t \<noteq> 0"
    and o: "prev_outs e C st (prev_hash (prevout i)) prevtx bc w = Some (Some outs, bc', w')"
    and k: "unat (prev_n (prevout i)) < length outs"
    and u: "outs ! unat (prev_n (prevout i)) = 0 \<or> outs ! unat (prev_n (prevout i)) = tx_id C tx"
  shows "claimed (spent_state C tx i prevtx outs st) (insert (prevout i, tx_id C tx) D)"
  unfolding claimed_def
proof
  fix x
  assume "x \<in> insert (prevout i, tx_id C tx) D"
  then consider "x = (prevout i, tx_id C tx)" | "x \<in> D" by blast
  then show "case x of (p, t) \<Rightarrow> \<exists>os. map_of (mapOutput (spent_state C tx i prevtx outs st)) (prev_hash p) = Some os \<and>
      unat (prev_n p) < length os \<and> os ! unat (prev_n p) = t"
  proof cases
    case 1
    then show ?thesis using k by (simp add: mapOutput_spent)
  next
    case 2
    obtain p t where x: "x = (p, t)" by fastforce
    from 2 D obtain os where os: "map_of (mapOutput st) (prev_hash p) = Some os" "unat (prev_n p) < length os"
      "os ! unat (prev_n p) = t" by (auto simp: claimed_def x)
    have t: "t \<noteq> 0" using nz 2 by (auto simp: x)
    show ?thesis
    proof (cases "prev_hash p = prev_hash (prevout i)")
      case True
      then have "outs = os" using o os(1) by (simp add: prev_outs_def)
      with True os u t k show ?thesis
        by (cases "unat (prev_n p) = unat (prev_n (prevout i))") (auto simp: x mapOutput_spent)
    qed (use os in \<open>simp add: x mapOutput_spent\<close>)
  qed
qed

lemma connect_txD:
  assumes "core_ConnectCoinInputs e C tx nHeight fs fi pBlock st bc w = Some (Some st', bc', w')" and "\<not> IsCoinBase tx"
  obtains v st1 where "connect_inputs e C tx nHeight fs fi pBlock [0..<length (vin tx)]
      (0, st\<lparr>nSigOps := nSigOps st + GetLegacySigOpCount tx\<rparr>) bc w = Some (Some (v, st1), bc', w')"
    and "st' = st1\<lparr>nFees := nFees st1 + (v - GetValueOut tx)\<rparr>" and "fees_ok C tx v"
proof -
  let ?ci = "connect_inputs e C tx nHeight fs fi pBlock [0..<length (vin tx)]
      (0, st\<lparr>nSigOps := nSigOps st + GetLegacySigOpCount tx\<rparr>) bc w"
  obtain r bc1 w1 where ci: "?ci = Some (r, bc1, w1)"
    using assms by (cases ?ci) (auto simp: core_ConnectCoinInputs_def)
  obtain v st1 where r: "r = Some (v, st1)" using assms ci by (cases r) (auto simp: core_ConnectCoinInputs_def)
  with assms ci have "fees_ok C tx v \<and> bc1 = bc' \<and> w1 = w' \<and> st' = st1\<lparr>nFees := nFees st1 + (v - GetValueOut tx)\<rparr>"
    by (auto simp: core_ConnectCoinInputs_def split: if_splits)
  with ci r that show thesis by blast
qed

lemma set_vin: "(!) (vin tx) ` set [0..<length (vin tx)] = set (vin tx)"
  by (auto simp: in_set_conv_nth)

text \<open>What every connected input keeps, a connected block keeps: \<open>D\<close> holds what was claimed so far.\<close>

locale connect_inv =
  fixes e :: env and C :: cenv and nHeight :: int and vtx :: "CTransaction list"
    and P :: "cstate \<Rightarrow> (COutPoint \<times> u256) set \<Rightarrow> bc_t \<Rightarrow> world \<Rightarrow> bool"
  assumes step: "P st D bc w \<Longrightarrow> tx \<in> set vtx \<Longrightarrow>
      connect_input e C tx nHeight True False (Some vtx) i (v, st) bc w = Some (Some (v', st'), bc', w') \<Longrightarrow>
      P st' (insert (prevout (vin tx ! i), tx_id C tx) D) bc' w'"
    and frame: "mapOutput st' = mapOutput st \<Longrightarrow> mapTx st' = mapTx st \<Longrightarrow> P st D bc w \<Longrightarrow> P st' D bc w"
begin

lemma inputs:
  assumes "connect_inputs e C tx nHeight True False (Some vtx) is (v, st) bc w = Some (Some (v', st'), bc', w')"
    and "P st D bc w" and "tx \<in> set vtx"
  shows "P st' (D \<union> claims C tx ((!) (vin tx) ` set is)) bc' w'"
  using assms(1,2)
proof (induction "is" arbitrary: v st bc w D)
  case (Cons i "is")
  obtain v1 st1 bc1 w1 where
    i: "connect_input e C tx nHeight True False (Some vtx) i (v, st) bc w = Some (Some (v1, st1), bc1, w1)" and
    rest: "connect_inputs e C tx nHeight True False (Some vtx) is (v1, st1) bc1 w1 = Some (Some (v', st'), bc', w')"
    using Cons.prems(1) by (auto simp: bind_eq_Some_conv split: option.splits)
  from Cons.IH [OF rest step [OF Cons.prems(2) assms(3) i]] show ?case by (simp add: claims_def)
qed (simp add: claims_def)

lemma tx:
  assumes "core_ConnectCoinInputs e C tx nHeight True False (Some vtx) st bc w = Some (Some st', bc', w')"
    and "P st D bc w" and "tx \<in> set vtx"
  shows "P st' (D \<union> (if IsCoinBase tx then {} else claims C tx (set (vin tx)))) bc' w'"
proof (cases "IsCoinBase tx")
  case True
  then show ?thesis using assms by (simp add: core_ConnectCoinInputs_def)
next
  case False
  let ?st = "st\<lparr>nSigOps := nSigOps st + GetLegacySigOpCount tx\<rparr>"
  obtain v st1 where
    ci: "connect_inputs e C tx nHeight True False (Some vtx) [0..<length (vin tx)] (0, ?st) bc w = Some (Some (v, st1), bc', w')"
    and st': "st' = st1\<lparr>nFees := nFees st1 + (v - GetValueOut tx)\<rparr>"
    by (rule connect_txD [OF assms(1) False])
  have "P ?st D bc w" by (rule frame [OF _ _ assms(2)]) simp_all
  from inputs [OF ci this assms(3)] have "P st1 (D \<union> claims C tx (set (vin tx))) bc' w'" unfolding set_vin .
  then show ?thesis using False by (auto simp: st' intro: frame [rotated 2])
qed

lemma txs:
  assumes "connect_txs e C nHeight vtx txs st bc w = Some (Some st', bc', w')" and "P st D bc w" and "set txs \<subseteq> set vtx"
  shows "P st' (D \<union> (\<Union>tx\<in>{tx \<in> set txs. \<not> IsCoinBase tx}. claims C tx (set (vin tx)))) bc' w'"
  using assms
proof (induction txs arbitrary: st bc w D)
  case (Cons tx txs)
  obtain st1 bc1 w1 where
    c: "core_ConnectCoinInputs e C tx nHeight True False (Some vtx) st bc w = Some (Some st1, bc1, w1)" and
    rest: "connect_txs e C nHeight vtx txs st1 bc1 w1 = Some (Some st', bc', w')"
    using Cons.prems(1) by (auto simp: bind_eq_Some_conv split: option.splits)
  let ?D = "D \<union> (if IsCoinBase tx then {} else claims C tx (set (vin tx)))"
  have "P st1 ?D bc1 w1" by (rule local.tx [OF c Cons.prems(2)]) (use Cons.prems(3) in simp)
  then have "P st' (?D \<union> (\<Union>tx\<in>{tx \<in> set txs. \<not> IsCoinBase tx}. claims C tx (set (vin tx)))) bc' w'"
    by (rule Cons.IH [OF rest]) (use Cons.prems(3) in simp)
  moreover have "D \<union> (\<Union>t\<in>{t \<in> set (tx # txs). \<not> IsCoinBase t}. claims C t (set (vin t))) =
      ?D \<union> (\<Union>tx\<in>{tx \<in> set txs. \<not> IsCoinBase tx}. claims C tx (set (vin tx)))" by auto
  ultimately show ?case by simp
qed simp

end

definition block_claims :: "cenv \<Rightarrow> CTransaction list \<Rightarrow> (COutPoint \<times> u256) set" where
  "block_claims C vtx = (\<Union>tx\<in>{tx \<in> set vtx. \<not> IsCoinBase tx}. claims C tx (set (vin tx)))"

definition claim_inv :: "cenv \<Rightarrow> CTransaction list \<Rightarrow> cstate \<Rightarrow> (COutPoint \<times> u256) set \<Rightarrow> bool" where
  "claim_inv C vtx st D \<longleftrightarrow> (\<forall>tx\<in>set vtx. tx_id C tx \<noteq> 0) \<and> claimed st D \<and> (\<forall>(p, t)\<in>D. t \<noteq> 0)"

interpretation claiming: connect_inv e C nHeight vtx "\<lambda>st D bc w. claim_inv C vtx st D" for e C nHeight vtx
proof
  fix st D and bc :: bc_t and w :: world and tx i v v' st' and bc' :: bc_t and w' :: world
  assume inv: "claim_inv C vtx st D" and tx: "tx \<in> set vtx"
    and i: "connect_input e C tx nHeight True False (Some vtx) i (v, st) bc w = Some (Some (v', st'), bc', w')"
  let ?p = "prevout (vin tx ! i)"
  obtain prevtx pbh outs where
    k: "unat (prev_n ?p) < length (vout prevtx)" "length outs = length (vout prevtx)" and
    o: "prev_outs e C st (prev_hash ?p) prevtx bc w = Some (Some outs, bc', w')" and
    u: "outs ! unat (prev_n ?p) = 0 \<or> outs ! unat (prev_n ?p) = tx_id C tx" and
    st': "st' = spent_state C tx (vin tx ! i) prevtx outs st"
    by (rule connect_inputD [OF i refl refl])
  have "claimed st' (insert (?p, tx_id C tx) D)"
    unfolding st' by (rule claimed_spent [OF _ _ o _ u]) (use inv k in \<open>auto simp: claim_inv_def\<close>)
  then show "claim_inv C vtx st' (insert (?p, tx_id C tx) D)" using inv tx by (auto simp: claim_inv_def)
qed (simp add: claim_inv_def claimed_def)

lemma connect_block_txs:
  assumes "core_ConnectBlock e C vtx nHeight pprev bc w = Some (True, bc', w')"
  obtains st bc1 w1 where "connect_txs e C nHeight vtx vtx cstate0 bc w = Some (Some st, bc1, w1)"
    and "block_value_ok C nHeight vtx st"
proof -
  obtain r bc1 w1 where r: "connect_txs e C nHeight vtx vtx cstate0 bc w = Some (r, bc1, w1)"
    using assms by (cases "connect_txs e C nHeight vtx vtx cstate0 bc w") (auto simp: core_ConnectBlock_def)
  obtain st where "r = Some st" using assms r by (cases r) (auto simp: core_ConnectBlock_def)
  with assms r that show thesis by (auto simp: core_ConnectBlock_def split: if_splits)
qed

section \<open>Amounts\<close>

definition input_value :: "cenv \<Rightarrow> CTransaction list option \<Rightarrow> CTxIn \<Rightarrow> i64" where
  "input_value C pBlock i = (case find_prev C pBlock (prev_hash (prevout i)) of None \<Rightarrow> 0
     | Some (prevtx, _) \<Rightarrow> nValue (vout prevtx ! unat (prev_n (prevout i))))"

lemma connect_inputs_value:
  assumes "connect_inputs e C tx nHeight fs fi pBlock is (v, st) bc w = Some (Some (v', st'), bc', w')"
  shows "v' = v + 2 * (\<Sum>i\<leftarrow>is. input_value C pBlock (vin tx ! i)) \<and> nFees st' = nFees st"
  using assms
proof (induction "is" arbitrary: v st bc w)
  case (Cons i "is")
  let ?p = "prevout (vin tx ! i)"
  obtain v1 st1 bc1 w1 where
    i: "connect_input e C tx nHeight fs fi pBlock i (v, st) bc w = Some (Some (v1, st1), bc1, w1)" and
    rest: "connect_inputs e C tx nHeight fs fi pBlock is (v1, st1) bc1 w1 = Some (Some (v', st'), bc', w')"
    using Cons.prems by (auto simp: bind_eq_Some_conv split: option.splits)
  obtain prevtx pbh outs where f: "find_prev C pBlock (prev_hash ?p) = Some (prevtx, pbh)" and
    v1: "v1 = v + nValue (vout prevtx ! unat (prev_n ?p)) + nValue (vout prevtx ! unat (prev_n ?p))" and
    st1: "st1 = spent_state C tx (vin tx ! i) prevtx outs st"
    by (rule connect_inputD [OF i refl refl])
  have "nFees st1 = nFees st" by (simp add: st1 spent_state_def Let_def)
  moreover have "v1 = v + 2 * input_value C pBlock (vin tx ! i)" by (simp add: v1 input_value_def f)
  ultimately show ?case using Cons.IH [OF rest] by (simp add: algebra_simps)
qed simp

lemma sum_vin: "(\<Sum>i\<leftarrow>[0..<length (vin tx)]. f (vin tx ! i)) = (\<Sum>i\<leftarrow>vin tx. f i)"
proof -
  have "map (\<lambda>i. f (vin tx ! i)) [0..<length (vin tx)] = map f (vin tx)" by (rule nth_equalityI) simp_all
  then show ?thesis by (rule arg_cong)
qed

lemma connect_tx_fees:
  assumes "core_ConnectCoinInputs e C tx nHeight fs fi pBlock st bc w = Some (Some st', bc', w')" and "\<not> IsCoinBase tx"
    and "v = (\<Sum>i\<leftarrow>vin tx. input_value C pBlock i)"
  shows "nFees st' = nFees st + (2 * v - GetValueOut tx)" and "fees_ok C tx (2 * v)"
proof -
  obtain v1 st1 where
    ci: "connect_inputs e C tx nHeight fs fi pBlock [0..<length (vin tx)]
      (0, st\<lparr>nSigOps := nSigOps st + GetLegacySigOpCount tx\<rparr>) bc w = Some (Some (v1, st1), bc', w')"
    and st': "st' = st1\<lparr>nFees := nFees st1 + (v1 - GetValueOut tx)\<rparr>" "fees_ok C tx v1"
    by (rule connect_txD [OF assms(1,2)])
  from connect_inputs_value [OF ci] have "v1 = 2 * v" "nFees st1 = nFees st"
    by (simp_all add: assms(3) sum_vin)
  with st' show "nFees st' = nFees st + (2 * v - GetValueOut tx)" "fees_ok C tx (2 * v)" by simp_all
qed

section \<open>A concrete block\<close>

text \<open>A transaction with one output of 5 to a witness program, a block that spends it without a
  witness, and an empty coin database.\<close>

definition prev5 :: CTransaction where
  "prev5 = SetNull\<lparr>vin := [\<lparr>prevout = \<lparr>prev_hash = 1, prev_n = 0\<rparr>, scriptSig = [], nSequence = -1\<rparr>],
     vout := [\<lparr>nValue = 5, scriptPubKey = wit_script (replicate 20 1)\<rparr>]\<rparr>"

definition spend5 :: "i64 \<Rightarrow> CTransaction" where
  "spend5 v = SetNull\<lparr>vin := [\<lparr>prevout = \<lparr>prev_hash = Tx.GetHash ref_env prev5, prev_n = 0\<rparr>, scriptSig = [], nSequence = -1\<rparr>],
     vout := [\<lparr>nValue = v, scriptPubKey = [0x51]\<rparr>]\<rparr>"

definition coinbase0 :: CTransaction where
  "coinbase0 = SetNull\<lparr>vin := [\<lparr>prevout = \<lparr>prev_hash = 0, prev_n = -1\<rparr>, scriptSig = [0, 0], nSequence = -1\<rparr>],
     vout := [\<lparr>nValue = 50, scriptPubKey = [0x51]\<rparr>]\<rparr>"

definition cenv0 :: cenv where
  "cenv0 = \<lparr>get_tx = [Tx.GetHash ref_env prev5 \<mapsto> (prev5, 3)], pool = Map.empty, blk_height = Map.empty,
     limits = lims1, max_sigops = 20, hash_env = ref_env, input_env = (\<lambda>_ _. ref_env),
     GetBlockValue = (\<lambda>_ f. 50 + f), write_block = (\<lambda>_ w. Some (True, w)), erase_tx = (\<lambda>_ w. Some (True, w))\<rparr>"

lemma odd_of_nat_u256: "odd k \<Longrightarrow> (of_nat k :: u256) \<noteq> 0"
proof
  assume "odd k" and z: "(of_nat k :: u256) = 0"
  have "unat (of_nat k :: u256) = k mod 2 ^ 256" by (simp add: unat_of_nat take_bit_eq_mod)
  with z have "k mod 2 ^ 256 = 0" by simp
  then have "2 ^ 256 dvd k" by (simp add: mod_eq_0_iff_dvd)
  then have "even k" by (rule dvd_trans [rotated]) simp
  with \<open>odd k\<close> show False by simp
qed

lemma ref_hash_nonzero:
  assumes "nFlag tx = 1"
  shows "Tx.GetHash ref_env tx \<noteq> 0"
proof -
  have "ser_int 4 (1 :: u32) = [1, 0, 0, 0]" by code_simp
  then obtain r where r: "ser_core SERIALIZE_TRANSACTION_NO_WITNESS tx @ payload tx = 1 # r"
    by (simp add: ser_core_def assms)
  have "SHA256 ref_env (1 # s) = 1 # take 31 (s @ replicate 32 0)" for s by (simp add: ref_env_def take_Cons')
  then obtain r' where "Script_Eval.Hash ref_env (1 # r) = 1 # r'" by (simp add: Script_Eval.Hash_def)
  then have "Tx.GetHash ref_env tx = of_nat (le_dec (1 # r'))" by (simp add: Tx.GetHash_def SerializeHash_def r)
  moreover have "odd (le_dec (1 # r'))" by simp
  ultimately show ?thesis using odd_of_nat_u256 by metis
qed

lemma coins_state0: "coins_state env0 (bc_name bc0) 1000000000 Map.empty bc0 world0"
  by (simp add: coins_state_def db_ok0 chain0 coins_unique_Nil)

lemma example_txs:
  "IsCoinBase coinbase0" "\<not> IsCoinBase (spend5 v)" "\<not> IsCoinBase prev5" "tx_id cenv0 (spend5 v) \<noteq> 0" "tx_id cenv0 coinbase0 \<noteq> 0"
  using ref_hash_nonzero [of prev5] ref_hash_nonzero [of "spend5 v"] ref_hash_nonzero [of coinbase0]
  by (simp_all add: IsCoinBase_def outpoint_IsNull_def coinbase0_def spend5_def prev5_def SetNull_def TXF_VERSION_def cenv0_def)

text \<open>An output to a witness program passes without any witness, whatever its version and length.\<close>

lemma IsWitnessProgram_shape:
  assumes "IsWitnessProgram s = Some (version, program)"
  shows "s = s ! 0 # push_vch program" "length program \<le> 40" "s ! 0 = 0 \<or> 0x51 \<le> unat (s ! 0) \<and> unat (s ! 0) \<le> 0x60"
proof -
  have p: "4 \<le> length s" "length s \<le> 42" "unat (s ! 1) + 2 = length s" "program = drop 2 s"
    "unat (s ! 0) = 0 \<or> 0x51 \<le> unat (s ! 0) \<and> unat (s ! 0) \<le> 0x60"
    using assms by (auto simp: IsWitnessProgram_def Let_def split: if_splits option.splits)
  have l: "length program = unat (s ! 1)" using p(3,4) by simp
  have "s = s ! 0 # s ! 1 # drop 2 s" using p(1)
    by (metis Cons_nth_drop_Suc One_nat_def Suc_1 drop0 less_le_trans numeral_2_eq_2 zero_less_numeral numeral_le_iff
      semiring_norm(68,69,71) Suc_le_eq not_less)
  moreover have "push_vch program = s ! 1 # program"
    using p(2,3) l by (simp add: push_vch_def)
  ultimately show "s = s ! 0 # push_vch program" using p(4) by simp
  show "length program \<le> 40" using p(2-4) by simp
  show "s ! 0 = 0 \<or> 0x51 \<le> unat (s ! 0) \<and> unat (s ! 0) \<le> 0x60" using p(5) by (simp add: unat_eq_0)
qed

lemma eval_witness_program:
  assumes "IsWitnessProgram s = Some (version, program)"
  shows "\<exists>v. EvalScript E [] s SIGVERSION_BASE 0 = Ok [program, v]"
proof -
  note sh = IsWitnessProgram_shape [OF assms]
  let ?st = "\<lambda>stk. \<lparr>stack = stk, altstack = [], vfExec = [], nOpCount = 0, pbegincodehash = s\<rparr>"
  have len: "length (push_vch program) \<le> 41" "length s \<le> 10000"
    using sh(2) arg_cong [OF sh(1), of length] by (auto simp: push_vch_def)
  have push: "run_script E SIGVERSION_BASE 0 (push_vch program @ []) (?st [v]) = Ok (?st [program, v])" for v
    using len(1) sh(2) by (subst run_push) (simp_all add: run_script.simps)
  have "\<exists>v. run_script E SIGVERSION_BASE 0 (s ! 0 # push_vch program) (?st []) =
      run_script E SIGVERSION_BASE 0 (push_vch program) (?st [v])"
  proof (cases "s ! 0 = 0")
    case True
    then show ?thesis
      using run_push [of "[]" "push_vch program" "?st []" E SIGVERSION_BASE 0] len(1)
      by (intro exI [of _ "[]"]) (simp add: push_vch_def [of "[]"])
  next
    case False
    then have op: "0x51 \<le> unat (s ! 0)" "unat (s ! 0) \<le> 0x60" using sh(3) by auto
    then show ?thesis
      using run_small [OF op, of "?st []" E SIGVERSION_BASE 0 "push_vch program"]
      by (intro exI [of _ "getvch (bn E) (int (unat (s ! 0)) - 0x50)"]) simp
  qed
  then obtain v where "run_script E SIGVERSION_BASE 0 s (?st []) = Ok (?st [program, v])"
    using push sh(1) by fastforce
  then show ?thesis using len(2) by (simp add: EvalScript_def)
qed

lemma witness_program_not_p2sh: "IsWitnessProgram s = Some (version, program) \<Longrightarrow> \<not> IsPayToScriptHash s"
  using IsWitnessProgram_shape(3) [of s version program] by (auto simp: IsPayToScriptHash_def)

lemma verify_witness_program_0:
  assumes "IsWitnessProgram s = Some (version, program)"
  shows "VerifyScript E [] [] s True 0 = (if CastToBool program then Ok () else Fail)"
  using eval_witness_program [OF assms, of E] witness_program_not_p2sh [OF assms]
  by (auto simp: VerifyScript_def verify_bare_witness_def)

lemma verify_wit_script_0:
  assumes "length program = 20 \<or> length program = 32" and "CastToBool program"
  shows "VerifyScript E [] [] (wit_script program) True 0 = Ok ()"
  using verify_witness_program_0 [OF IsWitnessProgram_wit_script [OF assms(1)], of E] assms(2) by simp

lemma example_read:
  "\<exists>bc1 w1. ReadCoins env0 bc0 ref_env prev5 world0 = Some (Some [0], bc1, w1) \<and>
     coins_state env0 (bc_name bc0) 1000000000 Map.empty bc1 w1"
  using ReadCoins_ok [OF os_ok0 coins_state0, where E = ref_env and tx = prev5] by (simp add: spenders_def prev5_def)

lemma example_verified: "verified cenv0 True False prev5 (spend5 v) 0 = Ok ()"
proof -
  have "CastToBool (replicate 20 1)" by (simp add: numeral_eq_Suc)
  then show ?thesis
    by (simp add: verified_def VerifySignature_def spend5_def cenv0_def SetNull_def) (simp add: prev5_def verify_wit_script_0)
qed

lemma example_input:
  assumes "ReadCoins env0 bc0 ref_env prev5 world0 = Some (Some [0], bc1, w1)" and "mapOutput st = []"
  shows "connect_input env0 cenv0 (spend5 v) 1 True False pBlock 0 (0, st) bc0 world0 =
    Some (Some (10, spent_state cenv0 (spend5 v) (vin (spend5 v) ! 0) prev5 [0] st), bc1, w1)"
proof -
  have vi: "vin (spend5 v) ! 0 = \<lparr>prevout = \<lparr>prev_hash = Tx.GetHash ref_env prev5, prev_n = 0\<rparr>, scriptSig = [], nSequence = -1\<rparr>"
    by (simp add: spend5_def)
  have f: "find_prev cenv0 pBlock (Tx.GetHash ref_env prev5) = Some (prev5, 3)" by (simp add: find_prev_def cenv0_def)
  have p: "vout prev5 = [\<lparr>nValue = 5, scriptPubKey = wit_script (replicate 20 1)\<rparr>]" by (simp add: prev5_def)
  have o: "prev_outs env0 cenv0 st (Tx.GetHash ref_env prev5) prev5 bc0 world0 = Some (Some [0], bc1, w1)"
    using assms by (simp add: prev_outs_def cenv0_def)
  have mr: "MoneyRange (limits cenv0) 5" by (simp add: MoneyRange_def cenv0_def lims1_def)
  have "mature cenv0 1 prev5 3" using example_txs(3) by (simp add: mature_def)
  then show ?thesis using example_verified by (simp add: connect_input_def vi f p o mr)
qed

lemma example_tx:
  "\<exists>bc1 w1. core_ConnectCoinInputs env0 cenv0 (spend5 10) 1 True False pBlock cstate0 bc0 world0 =
      Some (Some (spent_state cenv0 (spend5 10) (vin (spend5 10) ! 0) prev5 [0] cstate0), bc1, w1) \<and>
     coins_state env0 (bc_name bc0) 1000000000 Map.empty bc1 w1"
proof -
  obtain bc1 w1 where r: "ReadCoins env0 bc0 ref_env prev5 world0 = Some (Some [0], bc1, w1)"
    and st: "coins_state env0 (bc_name bc0) 1000000000 Map.empty bc1 w1" using example_read by blast
  have s1: "sigop_loop f [0x51] op c = c" for f op c
    by (subst sigop_loop.simps) (simp add: sigop_loop_Nil)
  have sg: "GetLegacySigOpCount (spend5 10) = 0"
    by (simp add: GetLegacySigOpCount_def spend5_def SetNull_def GetSigOpCount_def sigop_loop_Nil s1)
  have l: "[0..<length (vin (spend5 10))] = [0]" by (simp add: spend5_def)
  have o: "GetValueOut (spend5 10) = 10" by (simp add: GetValueOut_def spend5_def)
  have f: "fees_ok cenv0 (spend5 10) 10" by (simp add: fees_ok_def o MoneyRange_def cenv0_def lims1_def)
  have m: "mapOutput cstate0 = []" by (simp add: cstate0_def)
  from st show ?thesis
    using example_txs(2) [of 10] example_input [OF r m, of 10 pBlock] f
    by (intro exI [of _ bc1] exI [of _ w1]) (simp add: core_ConnectCoinInputs_def l sg o cstate0_def)
qed

lemma example_block:
  "\<exists>bc' w'. core_ConnectBlock env0 cenv0 [coinbase0, spend5 10] 1 None bc0 world0 = Some (True, bc', w') \<and>
     coins_state env0 (bc_name bc0) 999999904
       [tx_id cenv0 prev5 \<mapsto> enc_outs [tx_id cenv0 (spend5 10)]] bc' w'"
proof -
  let ?vtx = "[coinbase0, spend5 10]" and ?st = "spent_state cenv0 (spend5 10) (vin (spend5 10) ! 0) prev5 [0] cstate0"
  obtain bc1 w1 where c: "core_ConnectCoinInputs env0 cenv0 (spend5 10) 1 True False (Some ?vtx) cstate0 bc0 world0 =
      Some (Some ?st, bc1, w1)" and st: "coins_state env0 (bc_name bc0) 1000000000 Map.empty bc1 w1"
    using example_tx [of "Some ?vtx"] by blast
  have cb: "core_ConnectCoinInputs env0 cenv0 coinbase0 1 True False (Some ?vtx) cstate0 bc0 world0 = Some (Some cstate0, bc0, world0)"
    using example_txs(1) by (simp add: core_ConnectCoinInputs_def)
  have mo: "mapOutput ?st = [(tx_id cenv0 prev5, [tx_id cenv0 (spend5 10)])]" "map_of (mapTx ?st) (tx_id cenv0 prev5) = Some prev5"
    "nSigOps ?st = 0" "nFees ?st = 0"
    by (simp_all add: spent_state_def Let_def cstate0_def spend5_def cenv0_def)
      (simp_all add: prev5_def wit_script_not_p2sh)
  have bv: "block_value_ok cenv0 1 ?vtx ?st"
    by (simp add: block_value_ok_def mo) (simp add: coinbase0_def GetValueOut_def cenv0_def)
  obtain bc2 w2 where w: "WriteTxCoins env0 bc1 (tx_id cenv0 prev5) [tx_id cenv0 (spend5 10)] w1 = Some (True, bc2, w2)"
    "coins_state env0 (bc_name bc0) 999999904 [tx_id cenv0 prev5 \<mapsto> enc_outs [tx_id cenv0 (spend5 10)]] bc2 w2"
    using WriteTxCoins_ok [OF os_ok0 st, of "[tx_id cenv0 (spend5 10)]" "tx_id cenv0 prev5"] example_txs(4) [of 10] by auto
  have "length (vout prev5) = 1" by (simp add: prev5_def)
  with w(1) have wc: "WriteCoins env0 bc1 (hash_env cenv0) prev5 [tx_id cenv0 (spend5 10)] w1 = Some (True, bc2, w2)"
    by (simp add: WriteCoins_def)
  from w(2) show ?thesis
    by (intro exI [of _ bc2] exI [of _ w2]) (simp add: core_ConnectBlock_def cb c bv mo wc)
qed

section \<open>The effect on the coin database\<close>

definition spender :: "(u256 \<rightharpoonup> u8 list) \<Rightarrow> u256 \<Rightarrow> nat \<Rightarrow> u256" where
  "spender m h k = (case m h of None \<Rightarrow> 0 | Some d \<Rightarrow> slot d k)"

text \<open>Transactions are looked up by their hash, and a hash has one number of outputs.\<close>

definition known :: "cenv \<Rightarrow> CTransaction list \<Rightarrow> (u256 \<Rightarrow> nat) \<Rightarrow> bool" where
  "known C vtx nout \<longleftrightarrow> (\<forall>h t b. find_prev C (Some vtx) h = Some (t, b) \<longrightarrow> tx_id C t = h \<and> length (vout t) = nout h)"

text \<open>The queued spends: for each transaction, the database's spenders where nothing was claimed.\<close>

definition queued :: "cenv \<Rightarrow> (u256 \<Rightarrow> nat) \<Rightarrow> (u256 \<rightharpoonup> u8 list) \<Rightarrow> cstate \<Rightarrow> (COutPoint \<times> u256) set \<Rightarrow> bool" where
  "queued C nout m st D \<longleftrightarrow> distinct (map fst (mapOutput st)) \<and>
     (\<forall>h outs. map_of (mapOutput st) h = Some outs \<longrightarrow> length outs = nout h \<and>
        (\<exists>t. map_of (mapTx st) h = Some t \<and> tx_id C t = h \<and> length (vout t) = nout h) \<and>
        (\<forall>k<nout h. (\<forall>(p, t)\<in>D. prev_hash p = h \<longrightarrow> unat (prev_n p) \<noteq> k) \<longrightarrow> outs ! k = spender m h k))"

lemma spender_spenders: "k < n \<Longrightarrow> spenders n (m h) ! k = spender m h k"
  by (simp add: spenders_def spender_def split: option.splits)

lemma mapTx_spent:
  "map_of (mapTx (spent_state C tx i prevtx outs st)) = (map_of (mapTx st))(prev_hash (prevout i) \<mapsto> prevtx)"
  by (simp add: spent_state_def Let_def update_conv')

lemma fst_mapOutput_spent:
  "distinct (map fst (mapOutput st)) \<Longrightarrow> distinct (map fst (mapOutput (spent_state C tx i prevtx outs st)))"
  "length (mapOutput (spent_state C tx i prevtx outs st)) \<le> Suc (length (mapOutput st))"
proof -
  show "distinct (map fst (mapOutput st)) \<Longrightarrow> distinct (map fst (mapOutput (spent_state C tx i prevtx outs st)))"
    by (simp add: spent_state_def Let_def distinct_update)
  have "length (AList.update k v xs) \<le> Suc (length xs)" for k v and xs :: "('a \<times> 'b) list" by (induction xs) auto
  then show "length (mapOutput (spent_state C tx i prevtx outs st)) \<le> Suc (length (mapOutput st))"
    by (simp add: spent_state_def Let_def)
qed

lemma prev_outs_ok:
  assumes os: "os_ok e" and cs: "coins_state e nm n m bc w" and sz: "sized nout m" and q: "queued C nout m st D"
    and t: "tx_id C t = h" "length (vout t) = nout h"
    and o: "prev_outs e C st h t bc w = Some (Some outs, bc', w')"
  shows "coins_state e nm n m bc' w'" and "length outs = nout h"
    and "\<And>k. k < nout h \<Longrightarrow> (\<forall>(p, t)\<in>D. prev_hash p = h \<longrightarrow> unat (prev_n p) \<noteq> k) \<Longrightarrow> outs ! k = spender m h k"
proof -
  have "coins_state e nm n m bc' w' \<and> length outs = nout h \<and>
      (\<forall>k<nout h. (\<forall>(p, t)\<in>D. prev_hash p = h \<longrightarrow> unat (prev_n p) \<noteq> k) \<longrightarrow> outs ! k = spender m h k)"
  proof (cases "map_of (mapOutput st) h")
    case (Some os)
    then show ?thesis using o q cs by (auto simp: prev_outs_def queued_def)
  next
    case None
    have l: "32 * length (vout t) \<le> length d" if "m (tx_id C t) = Some d" for d
      using sz that t by (simp add: sized_def)
    obtain bc2 w2 where "ReadCoins e bc (hash_env C) t w = Some (Some (spenders (nout h) (m h)), bc2, w2)"
      "coins_state e nm n m bc2 w2" using ReadCoins_ok [where tx = t and E = "hash_env C", OF os cs l] t by auto
    with None o show ?thesis
      by (auto simp: prev_outs_def spender_spenders)
  qed
  then show "coins_state e nm n m bc' w'" "length outs = nout h"
    "\<And>k. k < nout h \<Longrightarrow> (\<forall>(p, t)\<in>D. prev_hash p = h \<longrightarrow> unat (prev_n p) \<noteq> k) \<Longrightarrow> outs ! k = spender m h k" by blast+
qed

lemma queued_spent:
  assumes q: "queued C nout m st D" and t: "tx_id C t = prev_hash (prevout i)" "length (vout t) = nout (prev_hash (prevout i))"
    and l: "length outs = nout (prev_hash (prevout i))"
    and o: "\<And>k. k < nout (prev_hash (prevout i)) \<Longrightarrow>
      (\<forall>(p, t)\<in>D. prev_hash p = prev_hash (prevout i) \<longrightarrow> unat (prev_n p) \<noteq> k) \<Longrightarrow>
      outs ! k = spender m (prev_hash (prevout i)) k"
  shows "queued C nout m (spent_state C tx i t outs st) (insert (prevout i, tx_id C tx) D)"
  unfolding queued_def mapOutput_spent mapTx_spent
proof (intro conjI allI impI)
  show "distinct (map fst (mapOutput (spent_state C tx i t outs st)))"
    using q fst_mapOutput_spent(1) by (simp add: queued_def)
next
  fix h outs'
  assume a: "((map_of (mapOutput st))(prev_hash (prevout i) \<mapsto> outs[unat (prev_n (prevout i)) := tx_id C tx])) h = Some outs'"
  show "length outs' = nout h" using a q l by (auto simp: queued_def split: if_splits)
  show "\<exists>t'. ((map_of (mapTx st))(prev_hash (prevout i) \<mapsto> t)) h = Some t' \<and> tx_id C t' = h \<and> length (vout t') = nout h"
    using a q t by (auto simp: queued_def split: if_splits)
  fix k
  assume k: "k < nout h"
    and no: "\<forall>(p, t)\<in>insert (prevout i, tx_id C tx) D. prev_hash p = h \<longrightarrow> unat (prev_n p) \<noteq> k"
  have noD: "\<forall>(p, t)\<in>D. prev_hash p = h \<longrightarrow> unat (prev_n p) \<noteq> k" using no by blast
  show "outs' ! k = spender m h k"
  proof (cases "h = prev_hash (prevout i)")
    case True
    then have "unat (prev_n (prevout i)) \<noteq> k" using no by auto
    with True a o [of k] k noD show ?thesis by auto
  next
    case False
    then show ?thesis using a q k noD by (auto simp: queued_def)
  qed
qed

definition coins_inv :: "env \<Rightarrow> string \<Rightarrow> nat \<Rightarrow> (u256 \<rightharpoonup> u8 list) \<Rightarrow> (u256 \<Rightarrow> nat) \<Rightarrow> cenv \<Rightarrow> CTransaction list \<Rightarrow>
    cstate \<Rightarrow> (COutPoint \<times> u256) set \<Rightarrow> bc_t \<Rightarrow> world \<Rightarrow> bool" where
  "coins_inv e nm n m nout C vtx st D bc w \<longleftrightarrow> os_ok e \<and> sized nout m \<and> known C vtx nout \<and>
     coins_state e nm n m bc w \<and> claim_inv C vtx st D \<and> queued C nout m st D \<and>
     (\<forall>(p, t)\<in>D. unat (prev_n p) < nout (prev_hash p) \<and>
        (spender m (prev_hash p) (unat (prev_n p)) = 0 \<or> spender m (prev_hash p) (unat (prev_n p)) = t))"

interpretation database: connect_inv e C nHeight vtx "coins_inv e nm n m nout C vtx" for e C nHeight vtx nm n m nout
proof
  fix st D bc w tx i v v' st' bc' w'
  assume inv: "coins_inv e nm n m nout C vtx st D bc w" and tx: "tx \<in> set vtx"
    and i: "connect_input e C tx nHeight True False (Some vtx) i (v, st) bc w = Some (Some (v', st'), bc', w')"
  let ?i = "vin tx ! i"
  let ?p = "prevout ?i"
  obtain prevtx pbh outs where f: "find_prev C (Some vtx) (prev_hash ?p) = Some (prevtx, pbh)" and
    k: "unat (prev_n ?p) < length (vout prevtx)" and
    o: "prev_outs e C st (prev_hash ?p) prevtx bc w = Some (Some outs, bc', w')" and
    u: "outs ! unat (prev_n ?p) = 0 \<or> outs ! unat (prev_n ?p) = tx_id C tx" and
    st': "st' = spent_state C tx ?i prevtx outs st"
    by (rule connect_inputD [OF i refl refl])
  have pre: "os_ok e" "coins_state e nm n m bc w" "sized nout m" "queued C nout m st D" "claim_inv C vtx st D"
    using inv by (simp_all add: coins_inv_def)
  have t: "tx_id C prevtx = prev_hash ?p" "length (vout prevtx) = nout (prev_hash ?p)"
    using inv f by (auto simp: coins_inv_def known_def)
  note po = prev_outs_ok [OF pre(1-4) t o]
  have "claim_inv C vtx st' (insert (?p, tx_id C tx) D)" by (rule claiming.step [OF pre(5) tx i])
  moreover have "queued C nout m st' (insert (?p, tx_id C tx) D)"
    unfolding st' by (rule queued_spent [OF pre(4) t po(2,3)])
  moreover have "spender m (prev_hash ?p) (unat (prev_n ?p)) \<in> {0, tx_id C tx}"
  proof (cases "\<exists>t. (?p, t) \<in> D")
    case True
    then obtain t where D: "(?p, t) \<in> D" by blast
    then obtain os where "map_of (mapOutput st) (prev_hash ?p) = Some os" "os ! unat (prev_n ?p) = t" "t \<noteq> 0"
      using pre(5) unfolding claim_inv_def claimed_def by (fastforce dest!: bspec)
    with o u have "t = tx_id C tx" by (auto simp: prev_outs_def)
    with D inv show ?thesis by (auto simp: coins_inv_def)
  next
    case False
    have "prev_hash p = prev_hash ?p \<Longrightarrow> unat (prev_n p) \<noteq> unat (prev_n ?p)" if "(p, t) \<in> D" for p t
    proof
      assume "prev_hash p = prev_hash ?p" "unat (prev_n p) = unat (prev_n ?p)"
      then have "p = ?p" by (cases p; cases ?p) (simp add: word_unat_eq_iff)
      with that False show False by blast
    qed
    then have "\<forall>(p, t)\<in>D. prev_hash p = prev_hash ?p \<longrightarrow> unat (prev_n p) \<noteq> unat (prev_n ?p)" by blast
    from po(3) [OF _ this] k t(2) u show ?thesis by auto
  qed
  ultimately show "coins_inv e nm n m nout C vtx st' (insert (?p, tx_id C tx) D) bc' w'"
    using inv po(1) k t(2) by (auto simp: coins_inv_def)
qed (auto simp: coins_inv_def claim_inv_def claimed_def queued_def)

text \<open>Writing the queued spends.\<close>

lemma commit_spends_ok:
  assumes os: "os_ok e" and "coins_state e nm n m bc w" and "sized nout m" and "distinct (map fst ms)"
    and "\<forall>(h, outs)\<in>set ms. length outs = nout h \<and> nout h \<le> N \<and>
      (\<exists>t. map_of txs h = Some t \<and> tx_id C t = h \<and> length (vout t) = nout h)"
    and "length ms * (64 + 32 * N) \<le> n"
  shows "\<exists>bc' w' m'. commit_spends e C txs ms bc w = Some (True, bc', w') \<and>
    coins_state e nm (n - length ms * (64 + 32 * N)) m' bc' w' \<and> sized nout m' \<and>
    (\<forall>h k. k < nout h \<longrightarrow> spender m' h k = (case map_of ms h of None \<Rightarrow> spender m h k | Some outs \<Rightarrow> outs ! k))"
  using assms(2-)
proof (induction ms arbitrary: n m bc w)
  case (Cons ho ms)
  obtain h outs where ho: "ho = (h, outs)" by fastforce
  obtain t where t: "map_of txs h = Some t" "tx_id C t = h" "length (vout t) = nout h" and l: "length outs = nout h" "nout h \<le> N"
    using Cons.prems(4) by (auto simp: ho)
  let ?m = "if m h = None \<and> set outs \<subseteq> {0} then m else m(h \<mapsto> enc_outs outs)"
  have room: "64 + 32 * length outs \<le> n" "n - (64 + 32 * N) \<le> n - (64 + 32 * length outs)"
    using Cons.prems(5) l by auto
  have len: "length d = 32 * length outs" if "m h = Some d" for d using Cons.prems(2) that l by (simp add: sized_def)
  obtain bc1 w1 where wr: "WriteTxCoins e bc h outs w = Some (True, bc1, w1)"
    and st: "coins_state e nm (n - (64 + 32 * length outs)) ?m bc1 w1"
    using WriteTxCoins_ok [OF os Cons.prems(1) room(1) len] by blast
  have wc: "WriteCoins e bc (hash_env C) t outs w = Some (True, bc1, w1)" using wr t l by (simp add: WriteCoins_def)
  have sz: "sized nout ?m" using Cons.prems(2) l by (auto simp: sized_upd)
  have sp: "spender ?m g k = (if g = h then outs ! k else spender m g k)" if "k < nout g" for g k
  proof (cases "m h = None \<and> set outs \<subseteq> {0}")
    case True
    then have "outs ! k = 0" if "k < length outs" using that by (metis nth_mem singletonD subsetD)
    with True \<open>k < nout g\<close> l show ?thesis by (auto simp: spender_def)
  qed (use that l in \<open>auto simp: spender_def slot_enc_outs\<close>)
  have "length ms * (64 + 32 * N) \<le> n - (64 + 32 * N)" using Cons.prems(5) by simp
  from Cons.IH [OF coins_state_mono [OF st room(2)] sz _ _ this] Cons.prems(3,4) obtain bc' w' m' where
    IH: "commit_spends e C txs ms bc1 w1 = Some (True, bc', w')"
    "coins_state e nm (n - (64 + 32 * N) - length ms * (64 + 32 * N)) m' bc' w'" "sized nout m'"
    "\<forall>g k. k < nout g \<longrightarrow> spender m' g k = (case map_of ms g of None \<Rightarrow> spender ?m g k | Some outs \<Rightarrow> outs ! k)"
    by auto
  have h: "map_of ms h = None" using Cons.prems(3) by (simp add: ho map_of_eq_None_iff)
  have "spender m' g k = (case map_of (ho # ms) g of None \<Rightarrow> spender m g k | Some outs \<Rightarrow> outs ! k)" if k: "k < nout g" for g k
  proof -
    have "spender m' g k = (case map_of ms g of None \<Rightarrow> if g = h then outs ! k else spender m g k | Some outs \<Rightarrow> outs ! k)"
      unfolding IH(4) [rule_format, OF k] sp [OF k] ..
    then show ?thesis using h by (cases "g = h") (simp_all add: ho split: option.splits)
  qed
  with IH(1-3) wc t(1) show ?case
    by (intro exI [of _ bc'] exI [of _ w'] exI [of _ m']) (simp add: ho diff_diff_left)
qed auto


section \<open>What connecting a block guarantees\<close>

lemma claimed_unique:
  assumes "claimed st D" and "(p, t) \<in> D" and "(p, t') \<in> D"
  shows "t = t'"
  using bspec [OF assms(1) [unfolded claimed_def] assms(2)] bspec [OF assms(1) [unfolded claimed_def] assms(3)] by auto

lemma block_claimsI:
  "tx \<in> set vtx \<Longrightarrow> \<not> IsCoinBase tx \<Longrightarrow> i \<in> set (vin tx) \<Longrightarrow> (prevout i, tx_id C tx) \<in> block_claims C vtx"
  unfolding block_claims_def claims_def by blast

text \<open>
  C4: in a block that is connected no output is spent by two transactions: two transactions
  of the block, neither a coinbase, that both spend an output have the same hash.
\<close>

theorem no_double_spend:
  assumes con: "core_ConnectBlock e C vtx nHeight pprev bc w = Some (True, bc', w')"
    and ids: "\<forall>tx\<in>set vtx. tx_id C tx \<noteq> 0"
    and a: "a \<in> set vtx" "\<not> IsCoinBase a" "i \<in> set (vin a)" and b: "b \<in> set vtx" "\<not> IsCoinBase b" "j \<in> set (vin b)"
    and same: "prevout i = prevout j"
  shows "tx_id C a = tx_id C b"
proof -
  obtain st bc1 w1 where "connect_txs e C nHeight vtx vtx cstate0 bc w = Some (Some st, bc1, w1)"
    by (rule connect_block_txs [OF con])
  from claiming.txs [OF this, of "{}"] ids have "claim_inv C vtx st (block_claims C vtx)"
    by (simp add: block_claims_def claim_inv_def claimed_def)
  then have cl: "claimed st (block_claims C vtx)" by (simp add: claim_inv_def)
  have "(prevout i, tx_id C a) \<in> block_claims C vtx" "(prevout i, tx_id C b) \<in> block_claims C vtx"
    using block_claimsI [OF a] block_claimsI [OF b] same by simp_all
  with cl show ?thesis by (rule claimed_unique)
qed

theorem no_double_spend_witness:
  "\<exists>bc' w'. core_ConnectBlock env0 cenv0 [coinbase0, spend5 10] 1 None bc0 world0 = Some (True, bc', w') \<and>
     (\<forall>b\<in>set [coinbase0, spend5 10]. \<not> IsCoinBase b \<longrightarrow> (\<forall>j\<in>set (vin b). prevout j = prevout (vin (spend5 10) ! 0) \<longrightarrow>
        tx_id cenv0 b = tx_id cenv0 (spend5 10)))"
proof -
  obtain bc' w' where con: "core_ConnectBlock env0 cenv0 [coinbase0, spend5 10] 1 None bc0 world0 = Some (True, bc', w')"
    using example_block by blast
  have "tx_id cenv0 b = tx_id cenv0 (spend5 10)"
    if "b \<in> set [coinbase0, spend5 10]" "\<not> IsCoinBase b" "j \<in> set (vin b)" "prevout j = prevout (vin (spend5 10) ! 0)" for b j
    by (rule no_double_spend [OF con _ that(1-3) _ _ _ that(4)])
      (use example_txs in \<open>auto simp: spend5_def\<close>)
  with con show ?thesis by blast
qed

text \<open>
  C29: What connecting a transaction adds to the fees is twice the sum of its inputs less
  its outputs, and twice the sum is what has to cover the outputs: each input is added before and after
  its signature is verified.
\<close>

theorem inputs_counted_twice:
  assumes "core_ConnectCoinInputs e C tx nHeight fVerifySig fVerifyInputs pBlock st bc w = Some (Some st', bc', w')"
    and "\<not> IsCoinBase tx"
  shows "nFees st' = nFees st + (2 * (\<Sum>i\<leftarrow>vin tx. input_value C pBlock i) - GetValueOut tx) \<and>
    \<not> sint (2 * (\<Sum>i\<leftarrow>vin tx. input_value C pBlock i)) < sint (GetValueOut tx)"
  using connect_tx_fees [OF assms refl] by (simp add: fees_ok_def)

theorem inputs_counted_twice_witness:
  "\<exists>st' bc' w'. core_ConnectCoinInputs env0 cenv0 (spend5 10) 1 True False None cstate0 bc0 world0 = Some (Some st', bc', w') \<and>
     (\<Sum>i\<leftarrow>vin (spend5 10). input_value cenv0 None i) = 5 \<and> GetValueOut (spend5 10) = 10 \<and> nFees st' = 0"
proof -
  obtain bc1 w1 st' where c: "core_ConnectCoinInputs env0 cenv0 (spend5 10) 1 True False None cstate0 bc0 world0 = Some (Some st', bc1, w1)"
    using example_tx [of None] by blast
  have v: "(\<Sum>i\<leftarrow>vin (spend5 10). input_value cenv0 None i) = 5"
    by (simp add: input_value_def spend5_def find_prev_def cenv0_def) (simp add: prev5_def)
  have o: "GetValueOut (spend5 10) = 10" by (simp add: GetValueOut_def spend5_def)
  have "nFees st' = 0" using inputs_counted_twice [OF c example_txs(2)] by (simp add: v o) (simp add: cstate0_def)
  with c v o show ?thesis by blast
qed

text \<open>
  C30: the signature check made for a block being connected does not look at witnesses. For an output
  to any witness program, of version 0 to 16 and with 2 to 40 bytes, and an input with an empty
  signature script, it succeeds exactly when the program is not zero: no flags and no witness are
  passed on, so the hash of the key or script of the owner is never compared and everyone can spend
  the output.
\<close>

theorem witness_outputs_unprotected:
  assumes "nIn < length (vin txTo)" and "scriptSig (vin txTo ! nIn) = []"
    and "prev_hash (prevout (vin txTo ! nIn)) = tx_id C txFrom"
    and "unat (prev_n (prevout (vin txTo ! nIn))) < length (vout txFrom)"
    and "IsWitnessProgram (scriptPubKey (vout txFrom ! unat (prev_n (prevout (vin txTo ! nIn))))) = Some (version, program)"
  shows "VerifySignature C txFrom txTo nIn True = (if CastToBool program then Ok () else Fail)"
  using assms(1-4) verify_witness_program_0 [OF assms(5)] by (simp add: VerifySignature_def)

theorem witness_outputs_unprotected_witness:
  "VerifySignature cenv0 prev5 (spend5 3) 0 True = Ok () \<and>
   VerifySignature cenv0 (prev5\<lparr>vout := [\<lparr>nValue = 5, scriptPubKey = [0x51, 2, 7, 7]\<rparr>]\<rparr>)
     (SetNull\<lparr>vin := [\<lparr>prevout = \<lparr>prev_hash = tx_id cenv0 (prev5\<lparr>vout := [\<lparr>nValue = 5, scriptPubKey = [0x51, 2, 7, 7]\<rparr>]\<rparr>),
        prev_n = 0\<rparr>, scriptSig = [], nSequence = -1\<rparr>]\<rparr>) 0 True = Ok ()"
proof
  have "CastToBool (replicate 20 1)" by (simp add: numeral_eq_Suc)
  moreover have "IsWitnessProgram (wit_script (replicate 20 1)) = Some (0, replicate 20 1)"
    by (rule IsWitnessProgram_wit_script) simp
  ultimately show "VerifySignature cenv0 prev5 (spend5 3) 0 True = Ok ()"
    using witness_outputs_unprotected [of 0 "spend5 3" cenv0 prev5 0 "replicate 20 1"]
    by (simp add: spend5_def cenv0_def) (simp add: prev5_def)
  have "IsWitnessProgram [0x51, 2, 7, 7] = Some (1, [7, 7])" by (simp add: IsWitnessProgram_def DecodeOP_N_def)
  then show "VerifySignature cenv0 (prev5\<lparr>vout := [\<lparr>nValue = 5, scriptPubKey = [0x51, 2, 7, 7]\<rparr>]\<rparr>)
     (SetNull\<lparr>vin := [\<lparr>prevout = \<lparr>prev_hash = tx_id cenv0 (prev5\<lparr>vout := [\<lparr>nValue = 5, scriptPubKey = [0x51, 2, 7, 7]\<rparr>]\<rparr>),
        prev_n = 0\<rparr>, scriptSig = [], nSequence = -1\<rparr>]\<rparr>) 0 True = Ok ()"
    using witness_outputs_unprotected [where version = 1 and program = "[7, 7]" and nIn = 0 and C = cenv0]
    by simp
qed

section \<open>The coin database after a block\<close>

text \<open>Only transactions an input names have queued spends.\<close>

interpretation recorded: connect_inv e C nHeight vtx
    "\<lambda>st D bc w. fst ` set (mapOutput st) \<subseteq> (prev_hash \<circ> fst) ` D" for e C nHeight vtx
proof
  fix st and D :: "(COutPoint \<times> u256) set" and bc :: bc_t and w :: world and tx i v v' st' and bc' :: bc_t and w' :: world
  assume inv: "fst ` set (mapOutput st) \<subseteq> (prev_hash \<circ> fst) ` D"
    and i: "connect_input e C tx nHeight True False (Some vtx) i (v, st) bc w = Some (Some (v', st'), bc', w')"
  obtain prevtx outs where st': "st' = spent_state C tx (vin tx ! i) prevtx outs st" by (rule connect_inputD [OF i refl refl])
  show "fst ` set (mapOutput st') \<subseteq> (prev_hash \<circ> fst) ` insert (prevout (vin tx ! i), tx_id C tx) D"
    using inv by (auto simp: st' spent_state_def Let_def dom_update)
qed simp

definition touched :: "cenv \<Rightarrow> CTransaction list \<Rightarrow> u256 set" where
  "touched C vtx = (prev_hash \<circ> fst) ` block_claims C vtx"

lemma finite_touched: "finite (touched C vtx)"
  by (simp add: touched_def block_claims_def claims_def)

lemma connect_block_commits:
  assumes "core_ConnectBlock e C vtx nHeight pprev bc w = Some (True, bc', w')"
  obtains st bc1 w1 w2 where "connect_txs e C nHeight vtx vtx cstate0 bc w = Some (Some st, bc1, w1)"
    and "commit_spends e C (mapTx st) (sort_key fst (mapOutput st)) bc1 w1 = Some (True, bc', w2)"
    and "case pprev of None \<Rightarrow> w' = w2 | Some h \<Rightarrow> write_block C (h + 1) w2 = Some (True, w')"
proof -
  obtain st bc1 w1 where c: "connect_txs e C nHeight vtx vtx cstate0 bc w = Some (Some st, bc1, w1)"
    and v: "block_value_ok C nHeight vtx st" by (rule connect_block_txs [OF assms])
  obtain ok bc2 w2 where k: "commit_spends e C (mapTx st) (sort_key fst (mapOutput st)) bc1 w1 = Some (ok, bc2, w2)"
    using assms c v by (cases "commit_spends e C (mapTx st) (sort_key fst (mapOutput st)) bc1 w1")
      (auto simp: core_ConnectBlock_def split: if_splits)
  have "ok \<and> bc2 = bc' \<and> (case pprev of None \<Rightarrow> w' = w2 | Some h \<Rightarrow> write_block C (h + 1) w2 = Some (True, w'))"
    using assms c v k by (auto simp: core_ConnectBlock_def bind_eq_Some_conv split: if_splits option.splits)
  with c k that show thesis by simp
qed

lemma sorted_outputs:
  assumes "distinct (map fst ms)"
  shows "distinct (map fst (sort_key fst ms))" and "map_of (sort_key fst ms) = map_of ms"
proof -
  show d: "distinct (map fst (sort_key fst ms))" using assms by (simp add: distinct_map)
  show "map_of (sort_key fst ms) = map_of ms" using map_of_inject_set [OF d assms] by simp
qed

lemma queued_ready:
  assumes "queued C nout m st D" and "\<forall>h. nout h \<le> N"
  shows "\<forall>(h, outs)\<in>set (sort_key fst (mapOutput st)). length outs = nout h \<and> nout h \<le> N \<and>
    (\<exists>t. map_of (mapTx st) h = Some t \<and> tx_id C t = h \<and> length (vout t) = nout h)"
  using assms by (auto simp: queued_def map_of_eq_Some_iff)

lemma coins_inv0:
  assumes "os_ok e" and "coins_state e nm n m bc w" and "sized nout m" and "known C vtx nout" and "\<forall>tx\<in>set vtx. tx_id C tx \<noteq> 0"
  shows "coins_inv e nm n m nout C vtx cstate0 {} bc w"
  using assms by (simp add: coins_inv_def claim_inv_def claimed_def queued_def cstate0_def)

text \<open>What a connected block has found in the database, and what it leaves there.\<close>

definition spends :: "cenv \<Rightarrow> CTransaction list \<Rightarrow> (u256 \<Rightarrow> nat) \<Rightarrow> (u256 \<rightharpoonup> u8 list) \<Rightarrow> (u256 \<rightharpoonup> u8 list) \<Rightarrow> bool" where
  "spends C vtx nout m m' \<longleftrightarrow>
     (\<forall>(p, t)\<in>block_claims C vtx. unat (prev_n p) < nout (prev_hash p) \<and>
        spender m (prev_hash p) (unat (prev_n p)) \<in> {0, t} \<and> spender m' (prev_hash p) (unat (prev_n p)) = t) \<and>
     (\<forall>h k. k < nout h \<and> (\<forall>(p, t)\<in>block_claims C vtx. prev_hash p = h \<longrightarrow> unat (prev_n p) \<noteq> k) \<longrightarrow>
        spender m' h k = spender m h k)"

lemma spends_queued:
  assumes inv: "coins_inv e nm n m nout C vtx st (block_claims C vtx) bc w"
    and m': "\<forall>h k. k < nout h \<longrightarrow> spender m' h k = (case map_of (mapOutput st) h of None \<Rightarrow> spender m h k | Some outs \<Rightarrow> outs ! k)"
  shows "spends C vtx nout m m'"
  unfolding spends_def
proof (intro conjI ballI allI impI)
  fix x assume x: "x \<in> block_claims C vtx"
  obtain p t where pt: "x = (p, t)" by fastforce
  have cl: "claimed st (block_claims C vtx)" using inv by (simp add: coins_inv_def claim_inv_def)
  from bspec [OF cl [unfolded claimed_def] x] obtain outs where
    o: "map_of (mapOutput st) (prev_hash p) = Some outs" "outs ! unat (prev_n p) = t" by (auto simp: pt)
  have "\<forall>(p, t)\<in>block_claims C vtx. unat (prev_n p) < nout (prev_hash p) \<and>
      (spender m (prev_hash p) (unat (prev_n p)) = 0 \<or> spender m (prev_hash p) (unat (prev_n p)) = t)"
    using inv by (simp add: coins_inv_def)
  from bspec [OF this x] o m' show "case x of (p, t) \<Rightarrow> unat (prev_n p) < nout (prev_hash p) \<and>
      spender m (prev_hash p) (unat (prev_n p)) \<in> {0, t} \<and> spender m' (prev_hash p) (unat (prev_n p)) = t"
    by (simp add: pt)
next
  fix h k assume "k < nout h \<and> (\<forall>(p, t)\<in>block_claims C vtx. prev_hash p = h \<longrightarrow> unat (prev_n p) \<noteq> k)"
  then show "spender m' h k = spender m h k"
    using inv m' by (auto simp: coins_inv_def queued_def split: option.splits)
qed

text \<open>
  C1: connecting a block changes the coin database to exactly the outputs its transactions
  spend: each of them was unspent before (or spent by the same transaction), is spent by that
  transaction after, and every other output keeps its spender.
\<close>

theorem connect_block_effect:
  assumes os: "os_ok e" and st: "coins_state e nm n m bc w" and sz: "sized nout m" and kn: "known C vtx nout"
    and ids: "\<forall>tx\<in>set vtx. tx_id C tx \<noteq> 0" and N: "\<forall>h. nout h \<le> N" and room: "card (touched C vtx) * (64 + 32 * N) \<le> n"
    and wb: "\<And>h n m bc w w'. write_block C h w = Some (True, w') \<Longrightarrow> coins_state e nm n m bc w \<Longrightarrow> coins_state e nm n m bc w'"
    and con: "core_ConnectBlock e C vtx nHeight pprev bc w = Some (True, bc', w')"
  shows "\<exists>m'. coins_state e nm (n - card (touched C vtx) * (64 + 32 * N)) m' bc' w' \<and> sized nout m' \<and> spends C vtx nout m m'"
proof -
  obtain s bc1 w1 w2 where t: "connect_txs e C nHeight vtx vtx cstate0 bc w = Some (Some s, bc1, w1)"
    and k: "commit_spends e C (mapTx s) (sort_key fst (mapOutput s)) bc1 w1 = Some (True, bc', w2)"
    and wr: "case pprev of None \<Rightarrow> w' = w2 | Some h \<Rightarrow> write_block C (h + 1) w2 = Some (True, w')"
    by (rule connect_block_commits [OF con])
  have inv: "coins_inv e nm n m nout C vtx s (block_claims C vtx) bc1 w1"
    using database.txs [OF t coins_inv0 [OF os st sz kn ids]] by (simp add: block_claims_def)
  then have st1: "coins_state e nm n m bc1 w1" and q: "queued C nout m s (block_claims C vtx)" by (simp_all add: coins_inv_def)
  from q have d: "distinct (map fst (mapOutput s))" by (simp add: queued_def)
  have "fst ` set (mapOutput s) \<subseteq> touched C vtx"
    using recorded.txs [OF t, of "{}"] by (simp add: touched_def block_claims_def cstate0_def)
  then have "length (mapOutput s) \<le> card (touched C vtx)"
    using card_mono [OF finite_touched] distinct_card [OF d] by simp metis
  then have len: "length (sort_key fst (mapOutput s)) * (64 + 32 * N) \<le> card (touched C vtx) * (64 + 32 * N)" by simp
  obtain m' where st': "coins_state e nm (n - length (sort_key fst (mapOutput s)) * (64 + 32 * N)) m' bc' w2" and sz': "sized nout m'"
    and m': "\<forall>h k. k < nout h \<longrightarrow> spender m' h k = (case map_of (mapOutput s) h of None \<Rightarrow> spender m h k | Some outs \<Rightarrow> outs ! k)"
    using commit_spends_ok [OF os st1 sz sorted_outputs(1) [OF d] queued_ready [OF q N] order_trans [OF len room]] k
    by (auto simp: sorted_outputs(2) [OF d])
  have "coins_state e nm (n - card (touched C vtx) * (64 + 32 * N)) m' bc' w2"
    by (rule coins_state_mono [OF st' diff_le_mono2 [OF len]])
  then have "coins_state e nm (n - card (touched C vtx) * (64 + 32 * N)) m' bc' w'"
    using wr wb by (auto split: option.splits)
  with sz' spends_queued [OF inv m'] show ?thesis by blast
qed


lemma example_known: "known cenv0 [coinbase0, spend5 10] (\<lambda>_. 1)"
proof -
  have "length (vout t) = 1" if "t = prev5 \<or> t = coinbase0 \<or> t = spend5 10" for t
    using that by (auto simp: prev5_def coinbase0_def spend5_def)
  moreover have "tx_id cenv0 t = h \<and> (t = prev5 \<or> t = coinbase0 \<or> t = spend5 10)"
    if "find_prev cenv0 (Some [coinbase0, spend5 10]) h = Some (t, b)" for h t b
    using that by (auto simp: find_prev_def cenv0_def block_GetTx_def split: if_splits option.splits)
  ultimately show ?thesis by (auto simp: known_def)
qed

lemma example_claims: "block_claims cenv0 [coinbase0, spend5 10] = {(prevout (vin (spend5 10) ! 0), tx_id cenv0 (spend5 10))}"
proof -
  have "{t \<in> set [coinbase0, spend5 10]. \<not> IsCoinBase t} = {spend5 10}" using example_txs(1,2) by auto
  then have "block_claims cenv0 [coinbase0, spend5 10] = claims cenv0 (spend5 10) (set (vin (spend5 10)))" by (simp only: block_claims_def) simp
  moreover have "set (vin (spend5 10)) = {vin (spend5 10) ! 0}" by (simp add: spend5_def)
  ultimately show ?thesis by (simp add: claims_def)
qed

theorem connect_block_effect_witness:
  "\<exists>bc' w' m'. core_ConnectBlock env0 cenv0 [coinbase0, spend5 10] 1 None bc0 world0 = Some (True, bc', w') \<and>
     coins_state env0 (bc_name bc0) 999999904 m' bc' w' \<and> spender m' (tx_id cenv0 prev5) 0 = tx_id cenv0 (spend5 10)"
proof -
  let ?vtx = "[coinbase0, spend5 10]"
  obtain bc' w' where con: "core_ConnectBlock env0 cenv0 ?vtx 1 None bc0 world0 = Some (True, bc', w')"
    using example_block by blast
  have t: "touched cenv0 ?vtx = {tx_id cenv0 prev5}" by (simp add: touched_def example_claims) (simp add: spend5_def cenv0_def)
  have wb: "write_block cenv0 h w = Some (True, w2) \<longleftrightarrow> w2 = w" for h w w2 by (auto simp: cenv0_def)
  have "\<exists>m'. coins_state env0 (bc_name bc0) (1000000000 - card (touched cenv0 ?vtx) * (64 + 32 * 1)) m' bc' w' \<and>
      sized (\<lambda>_. 1) m' \<and> spends cenv0 ?vtx (\<lambda>_. 1) Map.empty m'"
    by (rule connect_block_effect [OF os_ok0 coins_state0 _ example_known _ _ _ _ con])
      (use example_txs wb in \<open>auto simp: sized_def t\<close>)
  then obtain m' where "coins_state env0 (bc_name bc0) 999999904 m' bc' w'" "spends cenv0 ?vtx (\<lambda>_. 1) Map.empty m'"
    by (auto simp: t)
  moreover have "prevout (vin (spend5 10) ! 0) = \<lparr>prev_hash = tx_id cenv0 prev5, prev_n = 0\<rparr>" by (simp add: spend5_def cenv0_def)
  ultimately show ?thesis using con by (auto simp: spends_def example_claims)
qed


section \<open>The coin database after a transaction is disconnected\<close>

definition releases :: "cenv \<Rightarrow> CTxIn list \<Rightarrow> u256 \<Rightarrow> nat \<Rightarrow> bool" where
  "releases C is h k \<longleftrightarrow> get_tx C h \<noteq> None \<and> (\<exists>i\<in>set is. prev_hash (prevout i) = h \<and> unat (prev_n (prevout i)) = k)"

definition stored_txs :: "cenv \<Rightarrow> (u256 \<Rightarrow> nat) \<Rightarrow> bool" where
  "stored_txs C nout \<longleftrightarrow> (\<forall>h t b. get_tx C h = Some (t, b) \<longrightarrow> tx_id C t = h \<and> length (vout t) = nout h)"

lemma sint_index: "unat (n :: u32) < N \<Longrightarrow> N < 2147483648 \<Longrightarrow> sint n = int (unat n)"
  using sint_u32_small [of "unat n"] by simp

lemma sint_nonneg_u32:
  assumes "0 \<le> sint (n :: u32)"
  shows "sint n = int (unat n)"
proof -
  have "uint n = sint n mod 4294967296" using uint_sint [of n] by (simp add: take_bit_eq_mod)
  moreover have "sint n < 4294967296" using sint_lt [of n] by simp
  ultimately show ?thesis using assms by simp
qed

lemma spender_released:
  assumes "sized nout m" and "k < nout h" and "j < nout g"
  shows "spender (if m h = None then m else m(h \<mapsto> enc_outs ((spenders (nout h) (m h))[k := 0]))) g j =
    (if g = h \<and> j = k then 0 else spender m g j)"
proof -
  have l: "length (spenders (nout h) (m h)) = nout h" by (simp add: spenders_def split: option.splits)
  show ?thesis
  proof (cases "g = h")
    case True
    then show ?thesis using assms l
      by (cases "m h") (simp_all add: spender_def slot_enc_outs spenders_def nth_list_update)
  qed (simp add: spender_def)
qed

lemma write_index_oob:
  assumes "\<not> unat (n :: u32) < length (vout t)"
  shows "WriteCoins_out e bc E t (sint n) s w = Some (False, bc, w)"
proof -
  have "sint n < 0 \<or> int (length (vout t)) \<le> sint n" using assms sint_nonneg_u32 [of n] by linarith
  then show ?thesis by (simp add: WriteCoins_out_def)
qed

text \<open>One input: what is written is zero, where there is such an output.\<close>

lemma release_input_ok:
  assumes os: "os_ok e" and st: "coins_state e nm n m bc w" and sz: "sized nout m"
    and t: "tx_id C t = h" "length (vout t) = nout h" and N: "nout h \<le> N" "N < 2147483648" and room: "64 + 32 * N \<le> n"
  shows "\<exists>ok bc' w' m'. WriteCoins_out e bc (hash_env C) t (sint (k :: u32)) 0 w = Some (ok, bc', w') \<and>
    coins_state e nm (n - (64 + 32 * N)) m' bc' w' \<and> sized nout m' \<and>
    (\<forall>g j. j < nout g \<longrightarrow> spender m' g j = (if g = h \<and> j = unat k then 0 else spender m g j))"
proof (cases "unat k < nout h")
  case True
  let ?m = "if m h = None then m else m(h \<mapsto> enc_outs ((spenders (nout h) (m h))[unat k := 0]))"
  have k: "sint k = int (unat k)" by (rule sint_index [where N = N]) (use True N in simp_all)
  have r: "64 + 32 * nout h \<le> n" and l: "\<And>d. m h = Some d \<Longrightarrow> length d = 32 * nout h"
    using room N(1) sz by (simp_all add: sized_def)
  have "\<exists>bc' w'. WriteCoins_out e bc (hash_env C) t (int (unat k)) 0 w = Some (True, bc', w') \<and>
      coins_state e nm (n - (64 + 32 * length (vout t))) ?m bc' w'"
    using WriteCoins_out_ok [OF os st, where tx = t and E = "hash_env C" and k = "unat k" and hs = 0, unfolded t, OF r l True]
    by (simp only: simp_thms t)
  moreover have "sized nout ?m" using sz by (auto simp: spenders_def intro!: sized_upd)
  moreover have "n - (64 + 32 * N) \<le> n - (64 + 32 * length (vout t))" using N(1) t by simp
  ultimately show ?thesis using spender_released [OF sz True] coins_state_mono unfolding k by blast
next
  case False
  then have "WriteCoins_out e bc (hash_env C) t (sint k) 0 w = Some (False, bc, w)" by (simp add: write_index_oob t)
  moreover have "j < nout g \<longrightarrow> spender m g j = (if g = h \<and> j = unat k then 0 else spender m g j)" for g j using False by auto
  ultimately show ?thesis using coins_state_mono [OF st] sz diff_le_self by blast
qed

lemma release_inputs_ok:
  assumes os: "os_ok e" and "coins_state e nm n m bc w" and "sized nout m"
    and t: "stored_txs C nout" and N: "\<forall>h. nout h \<le> N" "N < 2147483648" and "length is * (64 + 32 * N) \<le> n"
  shows "\<exists>bc' w' m'. release_inputs e C is bc w = Some (bc', w') \<and>
    coins_state e nm (n - length is * (64 + 32 * N)) m' bc' w' \<and> sized nout m' \<and>
    (\<forall>h k. k < nout h \<longrightarrow> spender m' h k = (if releases C is h k then 0 else spender m h k))"
  using assms(2,3,7)
proof (induction "is" arbitrary: n m bc w)
  case (Cons i "is")
  let ?h = "prev_hash (prevout i)" and ?c = "64 + 32 * N"
  have room: "length is * ?c \<le> n - ?c" "?c \<le> n" using Cons.prems(3) by simp_all
  have eq: "n - ?c - length is * ?c = n - length (i # is) * ?c" by simp
  have step: ?case if r: "release_inputs e C (i # is) bc w = release_inputs e C is bc1 w1"
    and s: "coins_state e nm (n - ?c) m1 bc1 w1" "sized nout m1"
    and m1: "\<forall>g j. j < nout g \<longrightarrow> spender m1 g j = (if releases C [i] g j then 0 else spender m g j)" for bc1 w1 m1
  proof -
    have "releases C (i # is) g j \<longleftrightarrow> releases C [i] g j \<or> releases C is g j" for g j by (auto simp: releases_def)
    with Cons.IH [OF s room(1)] m1 show ?thesis unfolding r eq by (metis (no_types, lifting))
  qed
  show ?case
  proof (cases "get_tx C ?h")
    case None
    then have "\<not> releases C [i] g j" for g j by (auto simp: releases_def)
    with step [OF _ coins_state_mono [OF Cons.prems(1)] Cons.prems(2)] None show ?thesis by simp
  next
    case (Some tb)
    obtain t0 b where tb: "tb = (t0, b)" by fastforce
    have t0: "tx_id C t0 = ?h" "length (vout t0) = nout ?h" using t Some by (auto simp: stored_txs_def tb)
    from release_input_ok [OF os Cons.prems(1,2) t0 N(1) [rule_format] N(2) room(2), of "prev_n (prevout i)"]
    obtain ok bc1 w1 m1 where w: "WriteCoins_out e bc (hash_env C) t0 (sint (prev_n (prevout i))) 0 w = Some (ok, bc1, w1)"
      and s: "coins_state e nm (n - ?c) m1 bc1 w1" "sized nout m1" and
      m1: "\<forall>g j. j < nout g \<longrightarrow> spender m1 g j = (if g = ?h \<and> j = unat (prev_n (prevout i)) then 0 else spender m g j)" by blast
    show ?thesis by (rule step [OF _ s]) (use w m1 Some in \<open>auto simp: tb releases_def\<close>)
  qed
qed (auto simp: releases_def)


text \<open>
  C13: disconnecting a transaction always succeeds; it makes the outputs its inputs name
  unspent again, where their transaction is found, drops the record of its own outputs, and keeps
  the spender of every other output.
\<close>

theorem disconnect_releases:
  assumes os: "os_ok e" and st: "coins_state e nm n m bc w" and sz: "sized nout m" and t: "stored_txs C nout"
    and N: "\<forall>h. nout h \<le> N" "N < 2147483648" and room: "length (vin tx) * (64 + 32 * N) + 128 \<le> n"
    and er: "\<And>n m bc w. coins_state e nm n m bc w \<Longrightarrow> \<exists>ok w'. erase_tx C tx w = Some (ok, w') \<and> coins_state e nm n m bc w'"
  shows "\<exists>bc' w' m'. core_DisconnectInputs e C tx bc w = Some (True, bc', w') \<and>
    coins_state e nm (n - (length (vin tx) * (64 + 32 * N) + 64)) m' bc' w' \<and> m' (tx_id C tx) = None \<and>
    (\<forall>h k. k < nout h \<and> h \<noteq> tx_id C tx \<longrightarrow>
       spender m' h k = (if \<not> IsCoinBase tx \<and> releases C (vin tx) h k then 0 else spender m h k))"
proof -
  let ?c = "length (vin tx) * (64 + 32 * N)"
  have le: "?c \<le> n" "128 \<le> n - ?c" using room by simp_all
  obtain bc1 w1 m1 where r: "(if IsCoinBase tx then Some (bc, w) else release_inputs e C (vin tx) bc w) = Some (bc1, w1)"
    and s1: "coins_state e nm (n - ?c) m1 bc1 w1"
    and m1: "\<forall>h k. k < nout h \<longrightarrow> spender m1 h k = (if \<not> IsCoinBase tx \<and> releases C (vin tx) h k then 0 else spender m h k)"
  proof (cases "IsCoinBase tx")
    case True
    then show thesis using that [of bc w m] coins_state_mono [OF st diff_le_self] by simp
  next
    case False
    then show thesis using that release_inputs_ok [OF os st sz t N le(1)] by auto
  qed
  obtain bc2 w2 where e: "EraseTxCoins e bc1 (tx_id C tx) w1 = Some (True, bc2, w2)"
    and s2: "coins_state e nm (n - ?c - 64) (m1(tx_id C tx := None)) bc2 w2" using EraseTxCoins_ok [OF os s1 le(2)] by blast
  obtain ok w3 where "erase_tx C tx w2 = Some (ok, w3)" "coins_state e nm (n - ?c - 64) (m1(tx_id C tx := None)) bc2 w3"
    using er [OF s2] by blast
  with r e m1 show ?thesis
    by (intro exI [of _ bc2] exI [of _ w3] exI [of _ "m1(tx_id C tx := None)"])
      (auto simp: core_DisconnectInputs_def spender_def diff_diff_left)
qed

theorem disconnect_releases_witness:
  "\<exists>bc' w' bc2 w2 m'. core_ConnectBlock env0 cenv0 [coinbase0, spend5 10] 1 None bc0 world0 = Some (True, bc', w') \<and>
     core_DisconnectInputs env0 cenv0 (spend5 10) bc' w' = Some (True, bc2, w2) \<and>
     coins_state env0 (bc_name bc0) 999999744 m' bc2 w2 \<and> (tx_id cenv0 prev5 \<noteq> tx_id cenv0 (spend5 10) \<longrightarrow> spender m' (tx_id cenv0 prev5) 0 = 0)"
proof -
  obtain bc' w' where con: "core_ConnectBlock env0 cenv0 [coinbase0, spend5 10] 1 None bc0 world0 = Some (True, bc', w')"
    and st: "coins_state env0 (bc_name bc0) 999999904 [tx_id cenv0 prev5 \<mapsto> enc_outs [tx_id cenv0 (spend5 10)]] bc' w'"
    using example_block by blast
  have t: "stored_txs cenv0 (\<lambda>_. 1)" by (simp add: stored_txs_def cenv0_def) (simp add: prev5_def)
  have l: "length (vin (spend5 10)) = 1" by (simp add: spend5_def)
  have er: "erase_tx cenv0 t w = Some (True, w)" for t w by (simp add: cenv0_def)
  have rel: "releases cenv0 (vin (spend5 10)) (tx_id cenv0 prev5) 0" by (simp add: releases_def spend5_def cenv0_def)
  have "\<exists>bc2 w2 m'. core_DisconnectInputs env0 cenv0 (spend5 10) bc' w' = Some (True, bc2, w2) \<and>
      coins_state env0 (bc_name bc0) (999999904 - (length (vin (spend5 10)) * (64 + 32 * 1) + 64)) m' bc2 w2 \<and>
      m' (tx_id cenv0 (spend5 10)) = None \<and>
      (\<forall>h k. k < 1 \<and> h \<noteq> tx_id cenv0 (spend5 10) \<longrightarrow> spender m' h k =
        (if \<not> IsCoinBase (spend5 10) \<and> releases cenv0 (vin (spend5 10)) h k then 0
         else spender [tx_id cenv0 prev5 \<mapsto> enc_outs [tx_id cenv0 (spend5 10)]] h k))"
    by (rule disconnect_releases [OF os_ok0 st _ t]) (auto simp: sized_def l er)
  then show ?thesis using con example_txs(2) [of 10] rel by (fastforce simp: l)
qed

end
