(* ===== verification/Commitment.thy ===== *)
theory Commitment
  imports Tx
begin

text \<open>
  The commitment of a block to its witnesses (\<open>GetWitnessCommitmentIndex\<close>,
  \<open>core_UpdateUncommittedBlockStructures\<close>, \<open>core_GenerateCoinbaseCommitment\<close> and
  \<open>core_CheckBlockWitness\<close> of \<^verbatim>\<open>server/block.cpp\<close>).  A block is the list of its transactions; \<open>enabled\<close>
  is the answer of \<open>IsWitnessEnabled\<close> for the block before.  \<^term>\<open>None\<close> is the access to the first
  transaction of an empty block, or a merkle computation that does not return.
\<close>

definition has_commitment :: "script \<Rightarrow> bool" where
  "has_commitment s \<longleftrightarrow> length s \<ge> 38 \<and> s ! 0 = of_nat OP_RETURN \<and> s ! 1 = 0x24 \<and> s ! 2 = 0xaa \<and>
     s ! 3 = 0x21 \<and> s ! 4 = 0xa9 \<and> s ! 5 = 0xed"

fun commit_loop :: "CTxOut list \<Rightarrow> nat \<Rightarrow> int \<Rightarrow> int" where
  "commit_loop [] k commitpos = commitpos"
| "commit_loop (t # ts) k commitpos =
     commit_loop ts (Suc k) (if has_commitment (scriptPubKey t) then int k else commitpos)"

definition GetWitnessCommitmentIndex :: "CTransaction list \<Rightarrow> int option" where
  "GetWitnessCommitmentIndex vtx =
     (if vtx = [] then None else Some (commit_loop (vout (vtx ! 0)) 0 (-1)))"

definition core_UpdateUncommittedBlockStructures ::
    "bool \<Rightarrow> CTransaction list \<Rightarrow> CTransaction list option" where
  "core_UpdateUncommittedBlockStructures enabled vtx = do {
     commitpos \<leftarrow> GetWitnessCommitmentIndex vtx;
     if commitpos \<noteq> -1 \<and> enabled \<and> wit (vtx ! 0) = []
     then Some (vtx[0 := (vtx ! 0)\<lparr>wit := [[replicate 32 0]]\<rparr>])
     else Some vtx }"

text \<open>The hash of two nodes of the tree and the hash that the coinbase commits to.\<close>

definition hash_nodes :: "senv \<Rightarrow> hash2" where
  "hash_nodes E a b = of_nat (le_dec (Hash E (ser_int 32 a @ ser_int 32 b)))"

definition witness_root :: "senv \<Rightarrow> CTransaction list \<Rightarrow> u256 option" where
  "witness_root E vtx = map_option fst (BlockWitnessMerkleRoot (hash_nodes E) (map (GetWitnessHash E) vtx))"

definition commit_script :: "senv \<Rightarrow> u256 \<Rightarrow> valtype \<Rightarrow> script" where
  "commit_script E root nonce =
     [of_nat OP_RETURN, 0x24, 0xaa, 0x21, 0xa9, 0xed] @ Hash E (ser_int 32 root @ nonce)"

text \<open>\<open>segwit\<close>: the deployment has a timeout.  The function answers \<open>false\<close> in every case.\<close>

definition core_GenerateCoinbaseCommitment ::
    "senv \<Rightarrow> bool \<Rightarrow> bool \<Rightarrow> CTransaction list \<Rightarrow> (bool \<times> CTransaction list) option" where
  "core_GenerateCoinbaseCommitment E segwit enabled vtx = do {
     commitpos \<leftarrow> GetWitnessCommitmentIndex vtx;
     vtx \<leftarrow> (if segwit \<and> commitpos = -1 then do {
               root \<leftarrow> witness_root E vtx;
               let out = \<lparr>nValue = 0, scriptPubKey = commit_script E root (replicate 32 0)\<rparr>;
               Some (vtx[0 := (vtx ! 0)\<lparr>vout := vout (vtx ! 0) @ [out]\<rparr>]) }
             else Some vtx);
     vtx \<leftarrow> core_UpdateUncommittedBlockStructures enabled vtx;
     Some (False, vtx) }"

text \<open>
  A malformed nonce leaves through \<^verbatim>\<open>return (error(...), (int)vtxinwit.size())\<close>: a comma expression
  whose value is the number of witnesses of the coinbase.
\<close>

definition nonce_ok :: "CTransaction \<Rightarrow> bool" where
  "nonce_ok tx \<longleftrightarrow> length (wit tx) = 1 \<and> length (wit tx ! 0) = 1 \<and> length (wit tx ! 0 ! 0) = 32"

definition no_witness_data :: "CTransaction list \<Rightarrow> bool" where
  "no_witness_data vtx \<longleftrightarrow> list_all (\<lambda>tx. wit_IsNull (wit tx)) vtx"

definition core_CheckBlockWitness :: "senv \<Rightarrow> bool \<Rightarrow> CTransaction list \<Rightarrow> bool option" where
  "core_CheckBlockWitness E enabled vtx =
     (if \<not> enabled then Some (no_witness_data vtx)
      else do {
        commitpos \<leftarrow> GetWitnessCommitmentIndex vtx;
        if commitpos = -1 then Some (no_witness_data vtx)
        else if \<not> nonce_ok (vtx ! 0) then Some (length (wit (vtx ! 0)) \<noteq> 0)
        else do {
          root \<leftarrow> witness_root E vtx;
          let h = Hash E (ser_int 32 root @ wit (vtx ! 0) ! 0 ! 0);
          Some (h = take 32 (drop 6 (scriptPubKey (vout (vtx ! 0) ! nat commitpos)))) } })"

section \<open>A generated commitment is accepted\<close>

lemma commit_loop_append:
  "commit_loop (ts @ [t]) k c = (if has_commitment (scriptPubKey t) then int (k + length ts) else commit_loop ts k c)"
  by (induction ts arbitrary: k c) auto

lemma commit_loop_range: "commit_loop ts k c = c \<or> int k \<le> commit_loop ts k c \<and> commit_loop ts k c < int (k + length ts)"
proof (induction ts arbitrary: k c)
  case (Cons t ts)
  show ?case using Cons.IH [of "Suc k" "if has_commitment (scriptPubKey t) then int k else c"] by auto
qed simp

lemma has_commitment_script: "length (Hash E x) = 32 \<Longrightarrow> x = ser_int 32 root @ nonce \<Longrightarrow> has_commitment (commit_script E root nonce)"
  by (simp add: has_commitment_def commit_script_def)

lemma drop_commit_script: "length (Hash E (ser_int 32 root @ nonce)) = 32 \<Longrightarrow>
    take 32 (drop 6 (commit_script E root nonce)) = Hash E (ser_int 32 root @ nonce)"
  by (simp add: commit_script_def)

lemma witness_root_Some:
  assumes "vtx \<noteq> []" and "length vtx \<le> 2 ^ 31"
  shows "witness_root E vtx = Some (mroot (hash_nodes E) (0 # map (GetWitnessHash E) (tl vtx)))"
proof -
  let ?xs = "0 # map (GetWitnessHash E) (tl vtx)"
  have "length ?xs \<le> 2 ^ 31" using assms by (cases vtx) auto
  then obtain bs where "MerkleComputation (hash_nodes E) ?xs (2 ^ 32 - 1) False =
      Some (mroot (hash_nodes E) ?xs, twins (hash_nodes E) ?xs (length ?xs), bs)"
    using MerkleComputation_spec [of ?xs False "2 ^ 32 - 1" "hash_nodes E"] by auto
  then show ?thesis
    using assms(1) by (simp add: witness_root_def BlockWitnessMerkleRoot_def ComputeMerkleRoot_def map_tl)
qed

text \<open>
  C25: a block template for which \<open>core_GenerateCoinbaseCommitment\<close> has written the commitment passes
  \<open>core_CheckBlockWitness\<close>, for every list of transactions (up to $2^{31}$) after a coinbase that has
  no commitment and no witness yet; only the coinbase is changed: it gets one more output, of no
  value, and the nonce.
\<close>

theorem commitment_round_trip:
  assumes "\<And>x. length (SHA256 E x) = 32" and "length rest < 2 ^ 31"
    and "commit_loop (vout cb) 0 (-1) = -1" and "wit cb = []"
  shows "\<exists>out. core_GenerateCoinbaseCommitment E True True (cb # rest) =
      Some (False, cb\<lparr>vout := vout cb @ [out], wit := [[replicate 32 0]]\<rparr> # rest) \<and> nValue out = 0 \<and>
    core_CheckBlockWitness E True (cb\<lparr>vout := vout cb @ [out], wit := [[replicate 32 0]]\<rparr> # rest) = Some True"
proof -
  let ?root = "mroot (hash_nodes E) (0 # map (GetWitnessHash E) rest)"
  let ?out = "\<lparr>nValue = 0, scriptPubKey = commit_script E ?root (replicate 32 0)\<rparr>"
  have root: "witness_root E (t # rest) = Some ?root" for t
    using witness_root_Some [of "t # rest" E] assms(2) by simp
  have h: "length (Hash E x) = 32" for x by (simp add: Hash_def assms(1))
  have c: "has_commitment (commit_script E ?root (replicate 32 0))" by (rule has_commitment_script [OF h refl])
  have "core_GenerateCoinbaseCommitment E True True (cb # rest) =
      Some (False, cb\<lparr>vout := vout cb @ [?out], wit := [[replicate 32 0]]\<rparr> # rest)"
    using assms(3,4) by (simp add: core_GenerateCoinbaseCommitment_def core_UpdateUncommittedBlockStructures_def
        GetWitnessCommitmentIndex_def root commit_loop_append c)
  moreover have "core_CheckBlockWitness E True (cb\<lparr>vout := vout cb @ [?out], wit := [[replicate 32 0]]\<rparr> # rest) = Some True"
    by (simp add: core_CheckBlockWitness_def GetWitnessCommitmentIndex_def commit_loop_append c nonce_ok_def root
        drop_commit_script [OF h])
  ultimately show ?thesis by (intro exI [of _ ?out]) simp
qed

theorem commitment_round_trip_witness:
  "\<exists>out. core_CheckBlockWitness ref_env True [SetNull\<lparr>vout := [out], wit := [[replicate 32 0]]\<rparr>, tx1] = Some True"
proof -
  have sha: "length (SHA256 ref_env x) = 32" for x by (auto simp: ref_env_def min_def)
  have "vout SetNull = []" "wit SetNull = []" "length [tx1] < 2 ^ 31" by (simp_all add: SetNull_def)
  then show ?thesis using commitment_round_trip [of ref_env "[tx1]" SetNull, OF sha] by auto
qed

text \<open>
  A block whose coinbase has a commitment and the witness of the coinbase is not one stack with
  one nonce of 32 bytes, but is not empty either, passes \<open>core_CheckBlockWitness\<close> with any commitment
  and any witnesses: the commitment is not compared.
\<close>

lemma malformed_nonce_accepted:
  assumes "commit_loop (vout cb) 0 (-1) \<noteq> -1" and "wit cb \<noteq> []" and "\<not> nonce_ok cb"
  shows "core_CheckBlockWitness E True (cb # rest) = Some True"
  using assms by (simp add: core_CheckBlockWitness_def GetWitnessCommitmentIndex_def)

text \<open>Concrete instance: a commitment of zeros, a nonce of one byte and a transaction with a witness.\<close>

lemma malformed_nonce_accepted_witness:
  "core_CheckBlockWitness ref_env True
     [SetNull\<lparr>vout := [\<lparr>nValue = 0, scriptPubKey = [0x6a, 0x24, 0xaa, 0x21, 0xa9, 0xed] @ replicate 32 0\<rparr>],
        wit := [[[1]]]\<rparr>, tx1] = Some True"
  by (rule malformed_nonce_accepted) (simp_all add: has_commitment_def nonce_ok_def SetNull_def)

end
