(* ===== verification/Subsidy.thy ===== *)
theory Subsidy
  imports Prelude
begin

text \<open>
  The block rewards of the four coins: \<open>shc_GetBlockValue\<close> (\<^verbatim>\<open>server/shc/shc_block.cpp\<close>),
  \<open>usde_GetBlockValue\<close> (\<^verbatim>\<open>server/usde/usde_block.cpp\<close>), \<open>emc2_GetBlockValue\<close>
  (\<^verbatim>\<open>server/emc2/emc2_block.cpp\<close>) and \<open>test_GetBlockValue\<close> (\<^verbatim>\<open>server/test/test_block.cpp\<close>), with the
  maximum amounts of \<^verbatim>\<open>proto/*_proto.h\<close>, and what the rewards of all blocks add up to.

  Heights are of type \<open>int\<close> and amounts of type \<open>int64\<close> in the code.  Here both are integers, and
  the executions that C++ leaves undefined are \<^term>\<open>None\<close>: a shift by 64 bits or more and the
  overflow of a signed operation.  The random numbers of EMC2 are those of the Boost library,
  which is an argument.
\<close>

definition COIN :: int where "COIN = 100000000"

definition int64_ok :: "int \<Rightarrow> bool" where "int64_ok v \<longleftrightarrow> - (2 ^ 63) \<le> v \<and> v < 2 ^ 63"
definition int_ok :: "int \<Rightarrow> bool" where "int_ok v \<longleftrightarrow> - (2 ^ 31) \<le> v \<and> v < 2 ^ 31"

definition add64 :: "int \<Rightarrow> int \<Rightarrow> int option" where
  "add64 a b = (if int64_ok (a + b) then Some (a + b) else None)"

definition shr64 :: "int \<Rightarrow> int \<Rightarrow> int option" where
  "shr64 v k = (if 0 \<le> k \<and> k < 64 then Some (drop_bit (nat k) v) else None)"

section \<open>The rewards\<close>

definition SHC_MAX_MONEY :: int where "SHC_MAX_MONEY = 1000000000 * COIN"
definition USDE_MAX_MONEY :: int where "USDE_MAX_MONEY = 1600000000 * COIN"
definition EMC2_MAX_MONEY :: int where "EMC2_MAX_MONEY = 298937393 * COIN"

definition shc_GetBlockValue :: "int \<Rightarrow> int \<Rightarrow> int option" where
  "shc_GetBlockValue nHeight nFees =
     (if nHeight = 0 then Some (800 * COIN)
      else do {
        nSubsidy \<leftarrow> shr64 (3334 * COIN) (nHeight sdiv 1499836);
        add64 (nSubsidy sdiv 10000000 * 1000000) nFees })"

definition usde_bonus :: "int \<Rightarrow> int" where
  "usde_bonus nHeight =
     (if nHeight smod 100 = 1 then 100000 * COIN
      else if nHeight smod 50 = 1 then 50000 * COIN
      else if nHeight smod 20 = 1 then 20000 * COIN
      else if nHeight smod 10 = 1 then 10000 * COIN
      else if nHeight smod 5 = 1 then 5000 * COIN
      else 4000 * COIN)"

definition usde_GetInitialBlockValue :: "int \<Rightarrow> int \<Rightarrow> int option" where
  "usde_GetInitialBlockValue nHeight nFees =
     (let nSubsidy = (if nHeight < 2 then 24000000 * COIN
                      else if nHeight < 500 then 100 * COIN
                      else if nHeight < 1000 then 500 * COIN
                      else usde_bonus nHeight)
      in do {
        nSubsidy \<leftarrow> shr64 nSubsidy (nHeight sdiv 139604);
        add64 nSubsidy nFees })"

definition usde_GetBlockValue :: "int \<Rightarrow> int \<Rightarrow> int option" where
  "usde_GetBlockValue nHeight nFees =
     (if nHeight < 107500 then usde_GetInitialBlockValue nHeight nFees
      else do {
        nSubsidy \<leftarrow> shr64 (4000 * COIN) (nHeight sdiv 139604);
        add64 nSubsidy nFees })"

definition emc2_schedule :: "int \<Rightarrow> int" where
  "emc2_schedule nHeight =
     (if nHeight = 1 then 10747 * COIN
      else if nHeight \<le> 72000 then 1024 * COIN
      else if nHeight \<le> 144000 then 512 * COIN
      else if nHeight \<le> 288000 then 256 * COIN
      else if nHeight \<le> 432000 then 128 * COIN
      else if nHeight \<le> 576000 then 64 * COIN
      else if nHeight \<le> 864000 then 32 * COIN
      else if nHeight \<le> 1080000 then 16 * COIN
      else if nHeight \<le> 1584000 then 8 * COIN
      else if nHeight \<le> 2304000 then 4 * COIN
      else if nHeight \<le> 5256000 then 2 * COIN
      else if nHeight \<le> 26280000 then 1 * COIN
      else 0)"

definition emc2_epoch :: "int \<Rightarrow> int" where
  "emc2_epoch nHeight = nHeight sdiv 36000 + (if nHeight smod 36000 \<noteq> 0 then 1 else 0)"

text \<open>\<open>rnd\<close> is \<open>emc2_generateMTRandom\<close>, a number of Boost's generator for a seed, from 1 to the range.\<close>

definition emc2_GetBlockValue :: "(u32 \<Rightarrow> int \<Rightarrow> int) \<Rightarrow> int \<Rightarrow> int \<Rightarrow> int option" where
  "emc2_GetBlockValue rnd nHeight nFees =
     (let epoch = emc2_epoch nHeight in
      if \<not> int_ok (5299860 * epoch) then None
      else
        let StartOffset = rnd (of_int (5299860 * epoch)) 35820;
            WormholeStartBlock = StartOffset + (epoch - 1) * 36000;
            nSubsidy = (if epoch > 1 \<and> epoch < 48 \<and> nHeight \<ge> WormholeStartBlock \<and> nHeight < WormholeStartBlock + 180
                        then 2973 * COIN else emc2_schedule nHeight)
        in add64 nSubsidy nFees)"

definition test_GetBlockValue :: "int \<Rightarrow> int \<Rightarrow> int option" where
  "test_GetBlockValue nHeight nFees = (if int_ok (nHeight + 1) then add64 ((nHeight + 1) * COIN) nFees else None)"

section \<open>Sums over all heights\<close>

lemma sum_div_blocks: "(\<Sum>h<n * P. g (h div P)) = int P * (\<Sum>k<n. g k)" for g :: "nat \<Rightarrow> int"
proof (induction n)
  case (Suc n)
  have "(\<Sum>h<Suc n * P. g (h div P)) = (\<Sum>h<n * P. g (h div P)) + (\<Sum>h=n * P..<n * P + P. g (h div P))"
    using sum.atLeastLessThan_concat [of 0 "n * P" "n * P + P" "\<lambda>h. g (h div P)"] by (simp add: atLeast0LessThan add.commute)
  also have "(\<Sum>h=n * P..<n * P + P. g (h div P)) = (\<Sum>h=n * P..<n * P + P. g n)"
  proof (rule sum.cong [OF refl])
    fix h assume h: "h \<in> {n * P..<n * P + P}"
    then have "h div P = n" by (intro div_nat_eqI) (auto simp: mult.commute)
    then show "g (h div P) = g n" by simp
  qed
  finally show ?case by (simp add: Suc.IH distrib_left)
qed simp

lemma sum_mod_blocks: "(\<Sum>h<n * P. g (h mod P)) = int n * (\<Sum>j<P. g j)" for g :: "nat \<Rightarrow> int"
proof (induction n)
  case (Suc n)
  have "(\<Sum>h<Suc n * P. g (h mod P)) = (\<Sum>h<n * P. g (h mod P)) + (\<Sum>h=0 + n * P..<P + n * P. g (h mod P))"
    using sum.atLeastLessThan_concat [of 0 "n * P" "n * P + P" "\<lambda>h. g (h mod P)"] by (simp add: atLeast0LessThan add.commute)
  also have "(\<Sum>h=0 + n * P..<P + n * P. g (h mod P)) = (\<Sum>j=0..<P. g ((j + n * P) mod P))"
    by (rule sum.shift_bounds_nat_ivl)
  also have "\<dots> = (\<Sum>j<P. g j)" by (rule sum.cong) (auto simp: atLeast0LessThan)
  finally show ?case by (simp add: Suc.IH distrib_right)
qed simp

lemma sum_lessThan_list: "(\<Sum>k<n. g k) = sum_list (map g [0..<n])" for g :: "nat \<Rightarrow> int"
  by (simp add: interv_sum_list_conv_sum_set_nat atLeast0LessThan)

lemma sdiv_nat: "0 < b \<Longrightarrow> int a sdiv int b = int (a div b)"
  by (cases a) (simp_all add: signed_divide_int_def zdiv_int sgn_if)

lemma smod_nat: "0 < b \<Longrightarrow> int a smod int b = int (a mod b)"
  by (cases a) (simp_all add: signed_modulo_int_def zmod_int sgn_if)


section \<open>SHC\<close>

definition shc_period :: "nat \<Rightarrow> int" where
  "shc_period k = drop_bit k (3334 * COIN) div 10000000 * 1000000"

lemma shr64_nat: "shr64 v (int k) = (if k < 64 then Some (drop_bit k v) else None)"
  by (simp add: shr64_def)

lemma drop_bit_range: "0 \<le> v \<Longrightarrow> 0 \<le> drop_bit k v \<and> drop_bit k v \<le> (v :: int)"
  using zdiv_mono2 [of v 1 "2 ^ k"] by (simp add: drop_bit_eq_div pos_imp_zdiv_nonneg_iff)

lemma shc_period_range: "0 \<le> shc_period k \<and> shc_period k \<le> 3334 * COIN"
proof -
  have "0 \<le> drop_bit k (3334 * COIN)" "drop_bit k (3334 * COIN) \<le> 3334 * COIN"
    using drop_bit_range [of "3334 * COIN" k] by (simp_all add: COIN_def)
  then have "0 \<le> drop_bit k (3334 * COIN) div 10000000" "drop_bit k (3334 * COIN) div 10000000 * 10000000 \<le> 3334 * COIN"
    by (simp_all add: pos_imp_zdiv_nonneg_iff)
  then show ?thesis by (simp add: shc_period_def)
qed

lemma shc_value:
  assumes "h \<noteq> 0"
  shows "shc_GetBlockValue (int h) 0 = (if h div 1499836 < 64 then Some (shc_period (h div 1499836)) else None)"
proof -
  have "0 \<le> drop_bit k (3334 * COIN)" for k using drop_bit_range [of "3334 * COIN" k] by (simp add: COIN_def)
  then have "drop_bit k (3334 * COIN) sdiv 10000000 * 1000000 = shc_period k" for k
    by (simp add: shc_period_def signed_divide_int_def sgn_if)
  moreover have "add64 (shc_period k) 0 = Some (shc_period k)" for k
    using shc_period_range [of k] by (simp add: add64_def int64_ok_def COIN_def)
  ultimately show ?thesis
    using assms sdiv_nat [of 1499836 h] by (simp add: shc_GetBlockValue_def shr64_nat)
qed

lemma shc_periods: "(\<Sum>k<64. shc_period k) = 66674000000"
  unfolding sum_lessThan_list shc_period_def COIN_def by code_simp

lemma sum_exception:
  "finite A \<Longrightarrow> x \<in> A \<Longrightarrow> (\<Sum>h\<in>A. if h = x then a else f h) = (\<Sum>h\<in>A. f h) + (a - f x)" for f :: "'a \<Rightarrow> int"
  by (simp add: sum.remove [of A x])

lemma shc_sum: "(\<Sum>h<95989504. if h = 0 then 800 * COIN else shc_period (h div 1499836)) = 100000112124000000"
proof -
  have "(\<Sum>h<95989504::nat. if h = 0 then 800 * COIN else shc_period (h div 1499836)) =
      (\<Sum>h<64 * 1499836. shc_period (h div 1499836)) + (800 * COIN - shc_period 0)"
    using sum_exception [of "{..<95989504 :: nat}" 0 "800 * COIN" "\<lambda>h. shc_period (h div 1499836)"] by simp
  also have "\<dots> = 100000112124000000"
    unfolding sum_div_blocks shc_periods by (simp add: shc_period_def COIN_def)
  finally show ?thesis .
qed


text \<open>
  C28: the rewards of all SHC blocks.  Up to height 95989503 every reward is defined, and together
  they are 1000001121.24 coins, which is more than \<open>SHC_MAX_MONEY\<close>, documented as the maximum
  number of coins generated in the life-time of the currency.  From height 95989504 on the shift
  is by 64 bits or more and the reward is undefined.
\<close>

theorem shc_supply_exceeds_maximum:
  "\<exists>v. (\<forall>h<95989504. shc_GetBlockValue (int h) 0 = Some (v h)) \<and> (\<Sum>h<95989504. v h) = 100000112124000000 \<and>
     SHC_MAX_MONEY < (\<Sum>h<95989504. v h) \<and> (\<forall>h\<ge>95989504. shc_GetBlockValue (int h) nFees = None)"
proof (intro exI [of _ "\<lambda>h. if h = 0 then 800 * COIN else shc_period (h div 1499836)"] conjI allI impI)
  fix h :: nat
  assume "h < 95989504"
  then have "h div 1499836 < 64" by simp
  then show "shc_GetBlockValue (int h) 0 = Some (if h = 0 then 800 * COIN else shc_period (h div 1499836))"
    by (cases "h = 0") (simp_all add: shc_value, simp add: shc_GetBlockValue_def)
next
  fix h :: nat
  assume h: "95989504 \<le> h"
  then have "\<not> h div 1499836 < 64" by (simp add: div_less_iff_less_mult)
  then show "shc_GetBlockValue (int h) nFees = None"
    using h sdiv_nat [of 1499836 h] by (simp add: shc_GetBlockValue_def shr64_nat)
qed (simp_all only: shc_sum, simp add: SHC_MAX_MONEY_def COIN_def)


theorem shc_supply_exceeds_maximum_witness:
  "\<exists>v. shc_GetBlockValue 1 0 = Some (v 1) \<and> v 1 = 33340000000 \<and> SHC_MAX_MONEY < (\<Sum>h<95989504 :: nat. v h) \<and>
     shc_GetBlockValue 95989504 7 = None"
proof -
  obtain v where v: "\<forall>h<95989504. shc_GetBlockValue (int h) 0 = Some (v h)" "SHC_MAX_MONEY < (\<Sum>h<95989504. v h)"
    "\<forall>h\<ge>95989504. shc_GetBlockValue (int h) 7 = None" using shc_supply_exceeds_maximum [of 7] by blast
  have "shc_GetBlockValue 1 0 = Some 33340000000" unfolding shc_GetBlockValue_def by code_simp
  with v show ?thesis using v(1) [rule_format, of 1] v(3) [rule_format, of 95989504] by auto
qed


section \<open>USDE\<close>

definition usde_initial :: "nat \<Rightarrow> int" where
  "usde_initial h = (if h < 2 then 24000000 * COIN else if h < 500 then 100 * COIN
     else if h < 1000 then 500 * COIN else usde_bonus (int (h mod 100)))"

definition usde_reward :: "nat \<Rightarrow> int" where
  "usde_reward h = (if h < 107500 then usde_initial h else drop_bit (h div 139604) (4000 * COIN))"

lemma usde_bonus_mod: "usde_bonus (int h) = usde_bonus (int (h mod 100))"
proof -
  have "int h smod int d = int (h mod 100) smod int d" if "d dvd 100" "0 < d" for d
    using that by (simp add: smod_nat mod_mod_cancel)
  from this [of 100] this [of 50] this [of 20] this [of 10] this [of 5] show ?thesis
    by (simp add: usde_bonus_def)
qed

lemma add64_small: "0 \<le> v \<Longrightarrow> v \<le> 24000000 * COIN \<Longrightarrow> add64 v 0 = Some v"
  by (simp add: add64_def int64_ok_def COIN_def)

lemma usde_bonus_range: "0 \<le> usde_bonus h \<and> usde_bonus h \<le> 100000 * COIN"
  by (simp add: usde_bonus_def COIN_def)

lemma usde_value:
  "usde_GetBlockValue (int h) 0 = (if h div 139604 < 64 then Some (usde_reward h) else None)"
proof (cases "h < 107500")
  case True
  then have "h div 139604 = 0" by simp
  moreover have "0 \<le> usde_initial h \<and> usde_initial h \<le> 24000000 * COIN"
    using usde_bonus_range [of "int (h mod 100)"] by (simp add: usde_initial_def COIN_def)
  then have "add64 (usde_initial h) 0 = Some (usde_initial h)" by (simp add: add64_small)
  moreover have "usde_GetInitialBlockValue (int h) 0 = do { n \<leftarrow> shr64 (usde_initial h) (int h sdiv int 139604); add64 n 0 }"
    using usde_bonus_mod [of h] by (simp add: usde_GetInitialBlockValue_def usde_initial_def Let_def)
  ultimately show ?thesis
    using True sdiv_nat [of 139604 h] by (simp add: usde_GetBlockValue_def usde_reward_def shr64_def)
next
  case False
  have "add64 (drop_bit k (4000 * COIN)) 0 = Some (drop_bit k (4000 * COIN))" for k
    using drop_bit_range [of "4000 * COIN" k] by (intro add64_small) (simp_all add: COIN_def)
  then show ?thesis
    using False sdiv_nat [of 139604 h] by (simp add: usde_GetBlockValue_def usde_reward_def shr64_nat)
qed

lemma sum_split: "a \<le> b \<Longrightarrow> (\<Sum>h<b. f h) = (\<Sum>h<a. f h) + (\<Sum>h=a..<b. f h)" for f :: "nat \<Rightarrow> int"
  using sum.atLeastLessThan_concat [of 0 a b f] by (simp add: atLeast0LessThan)

lemma sum_const_range: "(\<And>h. a \<le> h \<Longrightarrow> h < b \<Longrightarrow> f h = c) \<Longrightarrow> (\<Sum>h=a..<b. f h) = int (b - a) * c" for f :: "nat \<Rightarrow> int"
  using sum.cong [of "{a..<b}" "{a..<b}" f "\<lambda>_. c"] by simp

lemma usde_first: "(\<Sum>h<1000. usde_initial h) = 48299800 * COIN"
proof -
  have "(\<Sum>h=0..<2. usde_initial h) = int (2 - 0) * (24000000 * COIN)" by (rule sum_const_range) (simp add: usde_initial_def)
  moreover have "(\<Sum>h=2..<500. usde_initial h) = int (500 - 2) * (100 * COIN)" by (rule sum_const_range) (simp add: usde_initial_def)
  moreover have "(\<Sum>h=500..<1000. usde_initial h) = int (1000 - 500) * (500 * COIN)" by (rule sum_const_range) (simp add: usde_initial_def)
  ultimately show ?thesis
    using sum_split [of 500 1000 usde_initial] sum_split [of 2 500 usde_initial] by (simp add: atLeast0LessThan)
qed

lemma usde_bonuses: "(\<Sum>h=1000..<107500. usde_bonus (int (h mod 100))) = 681600000 * COIN"
proof -
  have "(\<Sum>j<100. usde_bonus (int j)) = 640000 * COIN"
    unfolding sum_lessThan_list usde_bonus_def COIN_def by code_simp
  then have "(\<Sum>h<n * 100. usde_bonus (int (h mod 100))) = int n * (640000 * COIN)" for n
    using sum_mod_blocks [where n = n and P = 100 and g = "\<lambda>j. usde_bonus (int j)"] by simp
  from this [of 1075] this [of 10] show ?thesis
    using sum_split [of 1000 107500 "\<lambda>h. usde_bonus (int (h mod 100))"] by simp
qed

lemma usde_later: "(\<Sum>h=107500..<8934656. drop_bit (h div 139604) (4000 * COIN)) = 68683199997905940"
proof -
  have "(\<Sum>k<64. drop_bit k (4000 * COIN)) = 799999999985"
    unfolding sum_lessThan_list COIN_def by code_simp
  then have all: "(\<Sum>h<64 * 139604. drop_bit (h div 139604) (4000 * COIN)) = 139604 * 799999999985"
    using sum_div_blocks [where n = 64 and P = 139604 and g = "\<lambda>k. drop_bit k (4000 * COIN)"] by simp
  have "(\<Sum>h=0..<107500. drop_bit (h div 139604) (4000 * COIN)) = int (107500 - 0) * (4000 * COIN)"
    by (rule sum_const_range) simp
  with all show ?thesis
    using sum_split [of 107500 8934656 "\<lambda>h. drop_bit (h div 139604) (4000 * COIN)"] by (simp add: atLeast0LessThan COIN_def)
qed

lemma usde_sum: "(\<Sum>h<8934656. usde_reward h) = 141673179997905940"
proof -
  have "(\<Sum>h<107500. usde_reward h) = (\<Sum>h<107500. usde_initial h)" by (rule sum.cong) (simp_all add: usde_reward_def)
  also have "\<dots> = (\<Sum>h<1000. usde_initial h) + (\<Sum>h=1000..<107500. usde_initial h)" by (rule sum_split) simp
  also have "(\<Sum>h=1000..<107500. usde_initial h) = (\<Sum>h=1000..<107500. usde_bonus (int (h mod 100)))"
    by (rule sum.cong) (simp_all add: usde_initial_def)
  finally have "(\<Sum>h<107500. usde_reward h) = 729899800 * COIN" by (simp add: usde_first usde_bonuses)
  moreover have "(\<Sum>h=107500..<8934656. usde_reward h) = (\<Sum>h=107500..<8934656. drop_bit (h div 139604) (4000 * COIN))"
    by (rule sum.cong) (simp_all add: usde_reward_def)
  ultimately show ?thesis using sum_split [of 107500 8934656 usde_reward] by (simp add: usde_later) (simp add: COIN_def)
qed


section \<open>EMC2\<close>

text \<open>The schedule as a sum of steps, each paid up to its last height.\<close>

definition emc2_steps :: "(int \<times> nat) list" where
  "emc2_steps = [(512, 72000), (256, 144000), (128, 288000), (64, 432000), (32, 576000), (16, 864000), (8, 1080000),
     (4, 1584000), (2, 2304000), (1, 5256000), (1, 26280000)]"

lemma emc2_schedule_steps:
  "emc2_schedule (int h) \<le> (if h = 1 then 9723 * COIN else 0) + (\<Sum>(d, b)\<leftarrow>emc2_steps. if h \<le> b then d * COIN else 0)"
  by (simp add: emc2_schedule_def emc2_steps_def COIN_def)

lemma sum_upto: "0 \<le> c \<Longrightarrow> (\<Sum>h<n. if h \<le> b then c else 0) \<le> int (Suc b) * c" for c :: int
proof -
  assume c: "0 \<le> c"
  have "(\<Sum>h<n. if h \<le> b then c else 0) = (\<Sum>h\<in>{..<n} \<inter> {..b}. c)"
    using sum.inter_restrict [of "{..<n}" "\<lambda>_. c" "{..b}"] by (simp add: Int_commute)
  also have "\<dots> \<le> int (card {..b}) * c"
    using c card_mono [of "{..b}" "{..<n} \<inter> {..b}"] by (simp add: mult_right_mono)
  finally show ?thesis by simp
qed

lemma emc2_schedule_sum: "(\<Sum>h<n. emc2_schedule (int h)) \<le> 221626747 * COIN"
proof -
  have pos: "0 \<le> d * COIN" if "(d, b) \<in> set emc2_steps" for d b using that by (auto simp: emc2_steps_def COIN_def)
  have "(\<Sum>h<n. emc2_schedule (int h)) \<le>
      (\<Sum>h<n. (if h = 1 then 9723 * COIN else 0) + (\<Sum>(d, b)\<leftarrow>emc2_steps. if h \<le> b then d * COIN else 0))"
    by (rule sum_mono) (rule emc2_schedule_steps)
  also have "\<dots> = (\<Sum>h<n. if h = 1 then 9723 * COIN else 0) + (\<Sum>(d, b)\<leftarrow>emc2_steps. \<Sum>h<n. if h \<le> b then d * COIN else 0)"
    by (simp add: sum.distrib emc2_steps_def)
  also have "(\<Sum>h<n. if h = 1 then 9723 * COIN else 0) \<le> 9723 * COIN" by (simp add: COIN_def)
  also have "(\<Sum>(d, b)\<leftarrow>emc2_steps. \<Sum>h<n. if h \<le> b then d * COIN else 0) \<le> (\<Sum>(d, b)\<leftarrow>emc2_steps. int (Suc b) * (d * COIN))"
    by (rule sum_list_mono) (use pos sum_upto in \<open>auto simp del: of_nat_Suc\<close>)
  finally show ?thesis by (simp add: emc2_steps_def)
qed


text \<open>The heights of the wormholes, for a function that gives the offset of each epoch.\<close>

definition wormholes :: "(int \<Rightarrow> int) \<Rightarrow> int set" where
  "wormholes offset = (\<Union>ep\<in>{2..47}. {offset ep + (ep - 1) * 36000 ..< offset ep + (ep - 1) * 36000 + 180})"

lemma finite_wormholes: "finite (wormholes offset)" "card (wormholes offset) \<le> 46 * 180"
proof -
  show "finite (wormholes offset)" by (simp add: wormholes_def)
  have "card (wormholes offset) \<le> (\<Sum>ep\<in>{2..47::int}. card {offset ep + (ep - 1) * 36000 ..< offset ep + (ep - 1) * 36000 + 180})"
    unfolding wormholes_def by (rule card_UN_le) simp
  then show "card (wormholes offset) \<le> 46 * 180" by simp
qed

definition emc2_offset :: "(u32 \<Rightarrow> int \<Rightarrow> int) \<Rightarrow> int \<Rightarrow> int" where
  "emc2_offset rnd ep = rnd (of_int (5299860 * ep)) 35820"

definition emc2_reward :: "(u32 \<Rightarrow> int \<Rightarrow> int) \<Rightarrow> nat \<Rightarrow> int" where
  "emc2_reward rnd h = (let ep = emc2_epoch (int h); w = emc2_offset rnd ep + (ep - 1) * 36000 in
     if ep > 1 \<and> ep < 48 \<and> int h \<ge> w \<and> int h < w + 180 then 2973 * COIN else emc2_schedule (int h))"

lemma emc2_schedule_range: "0 \<le> emc2_schedule h \<and> emc2_schedule h \<le> 10747 * COIN"
  by (simp add: emc2_schedule_def COIN_def)

lemma emc2_epoch_nat: "emc2_epoch (int h) = int (h div 36000) + (if h mod 36000 = 0 then 0 else 1)"
  using sdiv_nat [of 36000 h] smod_nat [of 36000 h] by (simp add: emc2_epoch_def)

lemma emc2_epoch_le: "emc2_epoch (int h) \<le> 405 \<longleftrightarrow> h \<le> 14580000"
proof -
  obtain q r where qr: "q = h div 36000" "r = h mod 36000" by blast
  have h: "h = 36000 * q + r" and r: "r < 36000" by (simp_all add: qr)
  have "emc2_epoch (int h) = int q + (if r = 0 then 0 else 1)" by (simp add: emc2_epoch_nat qr)
  then show ?thesis using h r by (cases "r = 0") auto
qed

lemma emc2_value:
  "emc2_GetBlockValue rnd (int h) 0 = (if h \<le> 14580000 then Some (emc2_reward rnd h) else None)"
proof -
  have "int_ok (5299860 * emc2_epoch (int h)) \<longleftrightarrow> h \<le> 14580000"
    using emc2_epoch_le [of h] emc2_epoch_nat [of h] by (auto simp: int_ok_def)
  moreover have "0 \<le> emc2_reward rnd h \<and> emc2_reward rnd h \<le> 10747 * COIN"
    using emc2_schedule_range [of "int h"] by (simp add: emc2_reward_def Let_def COIN_def)
  then have "add64 (emc2_reward rnd h) 0 = Some (emc2_reward rnd h)" by (intro add64_small) (simp_all add: COIN_def)
  ultimately show ?thesis
    by (simp add: emc2_GetBlockValue_def emc2_reward_def emc2_offset_def Let_def)
qed

lemma emc2_sum: "(\<Sum>h<n. emc2_reward rnd h) \<le> 246243187 * COIN"
proof -
  let ?W = "wormholes (emc2_offset rnd)"
  have "emc2_reward rnd h \<le> emc2_schedule (int h) + (if int h \<in> ?W then 2973 * COIN else 0)" for h
    using emc2_schedule_range [of "int h"] by (auto simp: emc2_reward_def Let_def wormholes_def COIN_def)
  then have "(\<Sum>h<n. emc2_reward rnd h) \<le> (\<Sum>h<n. emc2_schedule (int h)) + (\<Sum>h<n. if int h \<in> ?W then 2973 * COIN else 0)"
    by (simp add: sum_mono flip: sum.distrib)
  also have "(\<Sum>h<n. if int h \<in> ?W then 2973 * COIN else 0) = int (card {h \<in> {..<n}. int h \<in> ?W}) * (2973 * COIN)"
    by (simp add: sum.If_cases Int_def)
  also have "card {h \<in> {..<n}. int h \<in> ?W} \<le> 46 * 180"
  proof -
    have "card {h \<in> {..<n}. int h \<in> ?W} = card (int ` {h \<in> {..<n}. int h \<in> ?W})" by (simp add: card_image)
    also have "\<dots> \<le> card ?W" by (rule card_mono [OF finite_wormholes(1)]) auto
    finally show ?thesis using finite_wormholes(2) [of "emc2_offset rnd"] by simp
  qed
  then have "int (card {h \<in> {..<n}. int h \<in> ?W}) * (2973 * COIN) \<le> 8280 * (2973 * COIN)"
    by (intro mult_right_mono) (simp_all add: COIN_def)
  finally show ?thesis using emc2_schedule_sum [of n] by simp
qed


text \<open>
  C17: the rewards of USDE and EMC2.  The USDE rewards are defined up to height 8934655, about 17
  years of blocks, and add up to 1416731799.97905940 coins, within \<open>USDE_MAX_MONEY\<close>; from then on the
  shift is undefined.  The EMC2 rewards, with whatever random numbers for the wormholes, are
  defined up to height 14580000 and add up to no more than \<open>EMC2_MAX_MONEY\<close>; from then on the seed
  overflows.
\<close>

theorem usde_emc2_supply_within_maximum:
  "(\<exists>v. (\<forall>h<8934656. usde_GetBlockValue (int h) 0 = Some (v h)) \<and> (\<Sum>h<8934656. v h) = 141673179997905940 \<and>
       (\<Sum>h<8934656. v h) \<le> USDE_MAX_MONEY) \<and>
   (\<forall>h\<ge>8934656. usde_GetBlockValue (int h) 0 = None) \<and>
   (\<exists>v. (\<forall>h\<le>14580000. emc2_GetBlockValue rnd (int h) 0 = Some (v h)) \<and> (\<Sum>h\<le>14580000. v h) \<le> EMC2_MAX_MONEY) \<and>
   (\<forall>h>14580000. emc2_GetBlockValue rnd (int h) 0 = None)"
proof (intro conjI)
  have div: "h div 139604 < 64 \<longleftrightarrow> h < 8934656" for h :: nat by (simp add: div_less_iff_less_mult)
  show "\<exists>v. (\<forall>h<8934656. usde_GetBlockValue (int h) 0 = Some (v h)) \<and> (\<Sum>h<8934656. v h) = 141673179997905940 \<and>
       (\<Sum>h<8934656. v h) \<le> USDE_MAX_MONEY"
    by (intro exI [of _ usde_reward]) (simp add: usde_value div usde_sum USDE_MAX_MONEY_def COIN_def)
  show "\<forall>h\<ge>8934656. usde_GetBlockValue (int h) 0 = None" by (simp add: usde_value div)
  show "\<exists>v. (\<forall>h\<le>14580000. emc2_GetBlockValue rnd (int h) 0 = Some (v h)) \<and> (\<Sum>h\<le>14580000. v h) \<le> EMC2_MAX_MONEY"
    using emc2_sum [of rnd "Suc 14580000", unfolded lessThan_Suc_atMost]
    by (intro exI [of _ "emc2_reward rnd"]) (simp add: emc2_value EMC2_MAX_MONEY_def COIN_def)
qed (simp add: emc2_value)

theorem usde_emc2_supply_within_maximum_witness:
  "(\<exists>v. usde_GetBlockValue 107500 0 = Some (v 107500) \<and> v 107500 = 4000 * COIN \<and> (\<Sum>h<8934656 :: nat. v h) \<le> USDE_MAX_MONEY) \<and>
   usde_GetBlockValue 8934656 0 = None \<and> emc2_GetBlockValue (\<lambda>_ _. 1) 36001 0 = Some (2973 * COIN)"
proof -
  have u: "usde_GetBlockValue 107500 0 = Some (4000 * COIN)" unfolding usde_GetBlockValue_def COIN_def by code_simp
  have e: "emc2_GetBlockValue (\<lambda>_ _. 1) 36001 0 = Some (2973 * COIN)"
    unfolding emc2_GetBlockValue_def Let_def COIN_def by code_simp
  obtain v where "\<forall>h<8934656. usde_GetBlockValue (int h) 0 = Some (v h)" "(\<Sum>h<8934656. v h) \<le> USDE_MAX_MONEY"
    and n: "\<forall>h\<ge>8934656. usde_GetBlockValue (int h) 0 = None"
    using usde_emc2_supply_within_maximum [of "\<lambda>_ _. 1"] by blast
  then have "\<exists>v. usde_GetBlockValue 107500 0 = Some (v 107500) \<and> v 107500 = 4000 * COIN \<and> (\<Sum>h<8934656 :: nat. v h) \<le> USDE_MAX_MONEY"
    using u by (intro exI [of _ v]) (auto dest: spec [of _ 107500])
  with e n [rule_format, of 8934656] show ?thesis by simp
qed

end
