(* ===== verification/Difficulty.thy ===== *)
theory Difficulty
  imports Chain_Index Bignum
begin

text \<open>
  The difficulty of the coins: compact numbers (\<open>GetCompact\<close> and \<open>getuint256\<close> of \<^verbatim>\<open>server/bignum.h\<close>;
  \<open>SetCompact\<close> stands with the block index), the rules that compute the target of the next block
  (\<open>GetNextWorkRequired\<close> with \<open>KimotoGravityWell\<close> and \<open>DigiShield\<close> of \<^verbatim>\<open>server/shc/shc_block.cpp\<close>,
  \<^verbatim>\<open>server/usde/usde_block.cpp\<close>, \<^verbatim>\<open>server/emc2/emc2_block.cpp\<close> and \<^verbatim>\<open>server/test/test_block.cpp\<close>) and
  the check of the proof of work.

  The chain is the index of blocks, a node is named by its hash.  \<^term>\<open>None\<close> is a null pointer that
  is followed or a failed assertion.  The well of Kimoto decides in floating point whether the
  rate of the past blocks has left its horizon; this decision is the argument \<open>horizon\<close> of the
  number of blocks and the intended and the actual seconds, and the theorems hold for every such
  function.  The constants computed in floating point are those of IEEE double precision:
  \<open>86400 * 2.8\<close> is less than 241920, so that \<open>PastBlocksMax\<close> is 4031.
\<close>

section \<open>Compact numbers\<close>

definition GetCompact :: "bnlib \<Rightarrow> int \<Rightarrow> u32" where
  "GetCompact lib a =
     (let nSize = mpi_size lib a - 4; vch = bn2mpi lib a;
          nCompact = push_bit 24 (of_nat nSize);
          nCompact = (if nSize \<ge> 1 then nCompact OR push_bit 16 (ucast (vch ! 4)) else nCompact);
          nCompact = (if nSize \<ge> 2 then nCompact OR push_bit 8 (ucast (vch ! 5)) else nCompact)
      in if nSize \<ge> 3 then nCompact OR ucast (vch ! 6) else nCompact)"

definition getuint256 :: "bnlib \<Rightarrow> int \<Rightarrow> u256" where
  "getuint256 lib a =
     (let vch = bn2mpi lib a;
          vch = (if length vch > 4 then vch[4 := vch ! 4 AND 0x7f] else vch)
      in of_nat (le_dec (take 32 (rev (drop 4 vch)))))"

abbreviation target :: "bnlib \<Rightarrow> u32 \<Rightarrow> int" where
  "target lib \<equiv> SetCompact (BN_mpi2bn lib)"

definition SHC_bnProofOfWorkLimit :: int where "SHC_bnProofOfWorkLimit = (2 ^ 256 - 1) div 2 ^ 21"
definition USDE_bnProofOfWorkLimit :: int where "USDE_bnProofOfWorkLimit = (2 ^ 256 - 1) div 2 ^ 20"
definition emc2_bnProofOfWorkLimit :: int where "emc2_bnProofOfWorkLimit = (2 ^ 256 - 1) div 2 ^ 20"
definition TEST_bnProofOfWorkLimit :: int where "TEST_bnProofOfWorkLimit = (2 ^ 256 - 1) div 2 ^ 9"

section \<open>Proof of work\<close>

definition CheckProofOfWork :: "int \<Rightarrow> bnlib \<Rightarrow> u256 \<Rightarrow> u32 \<Rightarrow> bool" where
  "CheckProofOfWork limit lib hash bits =
     (let bnTarget = target lib bits in
      if bnTarget \<le> 0 \<or> bnTarget > limit then False
      else if hash > getuint256 lib bnTarget then False
      else True)"

definition shc_CheckProofOfWork where "shc_CheckProofOfWork = CheckProofOfWork SHC_bnProofOfWorkLimit"
definition usde_CheckProofOfWork where "usde_CheckProofOfWork = CheckProofOfWork USDE_bnProofOfWorkLimit"
definition emc2_CheckProofOfWork where "emc2_CheckProofOfWork = CheckProofOfWork emc2_bnProofOfWorkLimit"
definition test_CheckProofOfWork where "test_CheckProofOfWork = CheckProofOfWork TEST_bnProofOfWorkLimit"

section \<open>The well of Kimoto\<close>

abbreviation block_time :: "CBlockIndex \<Rightarrow> int" where "block_time node \<equiv> uint (nTime node)"

text \<open>
  What the three versions do differently: the latest time seen and the seconds between it and the
  block that is read.
\<close>

definition shc_seconds :: "int \<Rightarrow> CBlockIndex \<Rightarrow> int \<times> int" where
  "shc_seconds LatestBlockTime node =
     (let LatestBlockTime = (if LatestBlockTime < block_time node then block_time node else LatestBlockTime);
          PastRateActualSeconds = LatestBlockTime - block_time node
      in (LatestBlockTime, if PastRateActualSeconds < 1 then 1 else PastRateActualSeconds))"

definition usde_seconds :: "int \<Rightarrow> CBlockIndex \<Rightarrow> int \<times> int" where
  "usde_seconds LatestBlockTime node =
     (let LatestBlockTime =
            (if LatestBlockTime < block_time node \<and> nHeight node > 144000 then block_time node else LatestBlockTime);
          PastRateActualSeconds = LatestBlockTime - block_time node
      in (LatestBlockTime,
          if nHeight node > 144000 \<and> PastRateActualSeconds < 1 then 1
          else if PastRateActualSeconds < 0 then 0 else PastRateActualSeconds))"

definition emc2_seconds :: "int \<Rightarrow> CBlockIndex \<Rightarrow> int \<times> int" where
  "emc2_seconds LatestBlockTime node =
     (let PastRateActualSeconds = LatestBlockTime - block_time node
      in (LatestBlockTime, if PastRateActualSeconds < 0 then 0 else PastRateActualSeconds))"

definition next_average :: "bnlib \<Rightarrow> nat \<Rightarrow> int \<Rightarrow> CBlockIndex \<Rightarrow> int" where
  "next_average lib i PastDifficultyAveragePrev node =
     (if i = 1 then target lib (nBits node)
      else (target lib (nBits node) - PastDifficultyAveragePrev) sdiv int i + PastDifficultyAveragePrev)"

text \<open>
  The loop, with the rounds that \<open>PastBlocksMax\<close> still allows, the counter \<open>i\<close>, the latest time, the
  average and the actual and intended seconds.  \<open>PastBlocksMass\<close> is \<open>i\<close> after its increment.
\<close>

fun kgw_loop :: "bnlib \<Rightarrow> (int \<Rightarrow> CBlockIndex \<Rightarrow> int \<times> int) \<Rightarrow> (nat \<Rightarrow> int \<Rightarrow> int \<Rightarrow> bool) \<Rightarrow> int \<Rightarrow> nat \<Rightarrow> blkidx_t \<Rightarrow>
    nat \<Rightarrow> nat \<Rightarrow> u256 \<Rightarrow> int \<Rightarrow> int \<times> int \<times> int \<Rightarrow> (int \<times> int \<times> int) option" where
  "kgw_loop lib seconds horizon spacing PastBlocksMin T 0 i p latest s = Some s"
| "kgw_loop lib seconds horizon spacing PastBlocksMin T (Suc n) i p latest s = do {
     node \<leftarrow> T p;
     if \<not> nHeight node > 0 then Some s
     else
       let avg = next_average lib i (fst s) node;
           (latest, actual) = seconds latest node;
           tgt = spacing * int i;
           s = (avg, actual, tgt)
       in if i \<ge> PastBlocksMin \<and> horizon i tgt actual then Some s
          else case pprev node of
            None \<Rightarrow> Some s
          | Some q \<Rightarrow> kgw_loop lib seconds horizon spacing PastBlocksMin T n (Suc i) q latest s }"

definition scale_target :: "int \<Rightarrow> int \<Rightarrow> int \<Rightarrow> int \<Rightarrow> int" where
  "scale_target limit bn actual tgt =
     (let bnNew = (if actual \<noteq> 0 \<and> tgt \<noteq> 0 then (bn * actual) sdiv tgt else bn)
      in if bnNew > limit then limit else bnNew)"

definition KimotoGravityWell :: "int \<Rightarrow> bnlib \<Rightarrow> (int \<Rightarrow> CBlockIndex \<Rightarrow> int \<times> int) \<Rightarrow> (nat \<Rightarrow> int \<Rightarrow> int \<Rightarrow> bool) \<Rightarrow>
    blkidx_t \<Rightarrow> u256 option \<Rightarrow> int \<Rightarrow> nat \<Rightarrow> nat \<Rightarrow> u32 option" where
  "KimotoGravityWell limit lib seconds horizon T pindexLast spacing PastBlocksMin PastBlocksMax =
     (case pindexLast of None \<Rightarrow> Some (GetCompact lib limit)
      | Some p \<Rightarrow> do {
          last \<leftarrow> T p;
          if nHeight last = 0 \<or> 0 \<le> nHeight last \<and> nHeight last < int PastBlocksMin then Some (GetCompact lib limit)
          else do {
            (avg, actual, tgt) \<leftarrow> kgw_loop lib seconds horizon spacing PastBlocksMin T PastBlocksMax 1 p (block_time last) (0, 0, 0);
            Some (GetCompact lib (scale_target limit avg actual tgt)) } })"

section \<open>The target of the next block\<close>

text \<open>SHC reads the height of \<open>pindexLast\<close> before it tests the pointer.\<close>

definition shc_GetNextWorkRequired :: "bnlib \<Rightarrow> (nat \<Rightarrow> int \<Rightarrow> int \<Rightarrow> bool) \<Rightarrow> blkidx_t \<Rightarrow> u256 option \<Rightarrow> u32 option" where
  "shc_GetNextWorkRequired lib horizon T pindexLast = do {
     p \<leftarrow> pindexLast;
     last \<leftarrow> T p;
     KimotoGravityWell SHC_bnProofOfWorkLimit lib shc_seconds horizon T pindexLast 60 144 4031 }"

fun go_back :: "blkidx_t \<Rightarrow> nat \<Rightarrow> u256 \<Rightarrow> u256 option" where
  "go_back T 0 p = Some p"
| "go_back T (Suc n) p = do { node \<leftarrow> T p; q \<leftarrow> pprev node; go_back T n q }"

definition emc2_DigiShield :: "bnlib \<Rightarrow> blkidx_t \<Rightarrow> u256 \<Rightarrow> u32 option" where
  "emc2_DigiShield lib T p = do {
     last \<leftarrow> T p;
     let retargetTimespan = 60;
     let retargetInterval = 1;
     if (nHeight last + 1) smod retargetInterval \<noteq> 0 then Some (nBits last)
     else do {
       let blockstogoback = (if nHeight last + 1 \<noteq> retargetInterval then 1 else 0);
       q \<leftarrow> go_back T blockstogoback p;
       first \<leftarrow> T q;
       let nActualTimespan = block_time last - block_time first;
       let nActualTimespan = retargetTimespan + (nActualTimespan - retargetTimespan) sdiv 8;
       let nActualTimespan = (if nActualTimespan < 45 then 45 else nActualTimespan);
       let nActualTimespan = (if nActualTimespan > 90 then 90 else nActualTimespan);
       let bnNew = (target lib (nBits last) * nActualTimespan) sdiv retargetTimespan;
       Some (GetCompact lib (if bnNew > emc2_bnProofOfWorkLimit then emc2_bnProofOfWorkLimit else bnNew)) } }"

definition emc2_GetNextWorkRequired :: "bnlib \<Rightarrow> (nat \<Rightarrow> int \<Rightarrow> int \<Rightarrow> bool) \<Rightarrow> blkidx_t \<Rightarrow> u256 option \<Rightarrow> u32 option" where
  "emc2_GetNextWorkRequired lib horizon T pindexLast = do {
     p \<leftarrow> pindexLast;
     last \<leftarrow> T p;
     if nHeight last + 1 \<ge> 56000 then emc2_DigiShield lib T p
     else KimotoGravityWell emc2_bnProofOfWorkLimit lib emc2_seconds horizon T pindexLast 60 360 10080 }"

text \<open>The rule of USDE before its hard fork: the last block of the network that was not special.\<close>

fun last_regular :: "blkidx_t \<Rightarrow> int \<Rightarrow> u32 \<Rightarrow> nat \<Rightarrow> u256 \<Rightarrow> u32 option" where
  "last_regular T nInterval limit 0 p = None"
| "last_regular T nInterval limit (Suc n) p = do {
     node \<leftarrow> T p;
     case pprev node of
       Some q \<Rightarrow> if nHeight node smod nInterval \<noteq> 0 \<and> nBits node = limit then last_regular T nInterval limit n q
                 else Some (nBits node)
     | None \<Rightarrow> Some (nBits node) }"

definition usde_timespan :: "int \<Rightarrow> int \<Rightarrow> int" where
  "usde_timespan height nActualTimespan =
     (if height > 27000
      then let a = (if nActualTimespan < 5760 then 5760 else nActualTimespan) in if a > 14400 then 14400 else a
      else let a = (if nActualTimespan > 144000 then 144000 else nActualTimespan) in if a < 9000 then 9000 else a)"

definition usde_GetNextWorkRequired :: "bnlib \<Rightarrow> (nat \<Rightarrow> int \<Rightarrow> int \<Rightarrow> bool) \<Rightarrow> bool \<Rightarrow> u32 \<Rightarrow> blkidx_t \<Rightarrow> u256 option \<Rightarrow>
    u32 option" where
  "usde_GetNextWorkRequired lib horizon fTestNet time T pindexLast = do {
     p \<leftarrow> pindexLast;
     last \<leftarrow> T p;
     let height = nHeight last + 1;
     if height > 91000 then KimotoGravityWell USDE_bnProofOfWorkLimit lib usde_seconds horizon T pindexLast 60 144 4031
     else do {
       let nInterval = (if height > 27000 then 120 else 1200);
       let nTargetTimespan = (if height > 27000 then 7200 else 36000);
       let limit = GetCompact lib USDE_bnProofOfWorkLimit;
       if height smod nInterval \<noteq> 0 then
         (if fTestNet then
            (if uint time > block_time last + 60 * 2 then Some limit
             else last_regular T nInterval limit (Suc (nat (nHeight last))) p)
          else Some (nBits last))
       else do {
         let blockstogoback = (if height \<noteq> nInterval then nInterval else nInterval - 1);
         q \<leftarrow> go_back T (nat blockstogoback) p;
         first \<leftarrow> T q;
         let nActualTimespan = usde_timespan height (block_time last - block_time first);
         let bnNew = (target lib (nBits last) * nActualTimespan) sdiv nTargetTimespan;
         Some (GetCompact lib (if bnNew > USDE_bnProofOfWorkLimit then USDE_bnProofOfWorkLimit else bnNew)) } } }"

definition test_GetNextWorkRequired :: "bnlib \<Rightarrow> u32" where
  "test_GetNextWorkRequired lib = GetCompact lib TEST_bnProofOfWorkLimit"


section \<open>Compact numbers are truncated numbers\<close>

definition compact_word :: "u8 \<Rightarrow> u8 \<Rightarrow> u8 \<Rightarrow> u8 \<Rightarrow> u32" where
  "compact_word s a b c = push_bit 24 (ucast s) OR push_bit 16 (ucast a) OR push_bit 8 (ucast b) OR ucast c"

lemma bit_u8: "bit (x :: u8) n \<Longrightarrow> n < 8"
  using bit_imp_le_length [of x n] by simp

lemma compact_word_bytes:
  "drop_bit 24 (compact_word s a b c) = ucast s" "ucast (drop_bit 16 (compact_word s a b c)) = a"
  "ucast (drop_bit 8 (compact_word s a b c)) = b" "ucast (drop_bit 0 (compact_word s a b c)) = c"
  by (rule bit_word_eqI, auto simp: compact_word_def bit_simps dest: bit_u8)+

lemma unat_u8_less: "unat (s :: u8) < 256"
  using unsigned_less [of s, where 'a = nat] by simp

lemma SetCompact_word:
  "SetCompact mpi2bn (compact_word s a b c) =
     mpi2bn ([0, 0, 0, s] @ take (unat s) [a, b, c] @ replicate (unat s - 3) 0)"
proof -
  have "unat (ucast s :: u32) = unat s"
    by (simp add: unsigned_ucast_eq take_bit_nat_eq_self order_less_trans [OF unat_u8_less])
  moreover have "unat s - min (Suc (Suc (Suc 0))) (unat s) = unat s - 3" by simp
  ultimately show ?thesis
    using compact_word_bytes [of s a b c] by (simp add: SetCompact_def Let_def)
qed

lemma bn2mpi_pos:
  assumes "bn_lib_ok lib" and "0 < n"
  obtains b bs where "bn2mpi lib n = be_enc 4 (length (b # bs)) @ b # bs" and "mpi_size lib n = length (b # bs) + 4"
    and "unat b < 128" and "be_dec (b # bs) = nat n" and "length (b # bs) = BN_num_bits lib n div 8 + 1"
proof -
  obtain b bs where r: "replicate (mpi_ext lib n) 0 @ BN_bn2bin lib n = b # bs" "unat b < 128"
    "be_dec (b # bs) = nat \<bar>n\<bar>" "length (b # bs) = BN_num_bits lib n div 8 + 1"
    by (rule mpi_body [OF assms(1), of n]) (use assms(2) in auto)
  have "length (BN_bn2bin lib n) = (BN_num_bits lib n + 7) div 8" using assms(1) by (simp add: bn_lib_ok_def)
  then have "(BN_num_bits lib n + 7) div 8 + mpi_ext lib n = length (b # bs)" using arg_cong [OF r(1), of length] by simp
  with r assms(2) show thesis by (intro that [of b bs]) (simp_all add: bn2mpi_def mpi_size_def Let_def)
qed

text \<open>The bytes \<open>GetCompact\<close> keeps: the first three, or all when there are fewer.\<close>

definition pad3 :: "u8 list \<Rightarrow> u8 list" where "pad3 bs = take 3 (bs @ [0, 0, 0])"

lemma u8_u32: "k < 256 \<Longrightarrow> (ucast (of_nat k :: u8) :: u32) = of_nat k"
  by (simp add: word_unat_eq_iff unsigned_ucast_eq unat_of_nat take_bit_nat_eq_self)

lemma unat_of_nat_u8: "k < 256 \<Longrightarrow> unat (of_nat k :: u8) = k"
  by (simp add: unat_of_nat take_bit_nat_eq_self)

lemma GetCompact_word:
  assumes "bn_lib_ok lib" and "0 < n" and "BN_num_bits lib n div 8 < 255"
    and "bn2mpi lib n = be_enc 4 (length bs) @ bs" and "mpi_size lib n = length bs + 4" and "length bs = BN_num_bits lib n div 8 + 1"
  shows "GetCompact lib n = compact_word (of_nat (length bs)) (pad3 bs ! 0) (pad3 bs ! 1) (pad3 bs ! 2)"
proof -
  have u: "(ucast (of_nat (length bs) :: u8) :: u32) = of_nat (length bs)" and ne: "bs \<noteq> []"
    using u8_u32 [of "length bs"] assms(3,6) by auto
  show ?thesis
    using ne u unfolding GetCompact_def assms(4,5) Let_def
    by (cases bs rule: list.exhaust; cases "tl bs" rule: list.exhaust; cases "tl (tl bs)" rule: list.exhaust)
      (auto simp: compact_word_def pad3_def nth_append or.assoc)
qed

lemma be_dec_append: "be_dec (xs @ ys) = be_dec xs * 256 ^ length ys + be_dec ys"
  by (induction xs) (simp_all add: be_dec_Cons power_add algebra_simps)

lemma be_dec_zeros: "be_dec (replicate k 0) = 0"
  by (induction k) (simp_all add: be_dec_Cons)

text \<open>What is left of a positive number: its three (or fewer) leading bytes.\<close>

definition trunc3 :: "nat \<Rightarrow> int \<Rightarrow> int" where
  "trunc3 s n = n div 256 ^ (s - 3) * 256 ^ (s - 3)"

lemma take3_value:
  assumes "be_dec bs = nat n" and "0 < n"
  shows "int (be_dec (take 3 bs @ replicate (length bs - 3) 0)) = trunc3 (length bs) n"
proof -
  have "be_dec bs = be_dec (take 3 bs) * 256 ^ (length bs - 3) + be_dec (drop 3 bs)"
    using be_dec_append [of "take 3 bs" "drop 3 bs"] by simp
  moreover have "be_dec (drop 3 bs) < 256 ^ (length bs - 3)" using be_dec_bound [of "drop 3 bs"] by simp
  ultimately have "be_dec bs div 256 ^ (length bs - 3) = be_dec (take 3 bs)" by simp
  then have "int (be_dec (take 3 bs)) = n div 256 ^ (length bs - 3)"
    using assms by (metis int_nat_eq of_nat_numeral of_nat_power order_less_imp_le zdiv_int)
  then show ?thesis by (simp add: be_dec_append be_dec_zeros trunc3_def)
qed

lemma mpi2bn_ok: "bn_lib_ok lib \<Longrightarrow> be_dec l = length body \<Longrightarrow> length l = 4 \<Longrightarrow> BN_mpi2bn lib (l @ body) = mpi_val body"
  by (simp add: bn_lib_ok_def)

lemma target_GetCompact:
  assumes lib: "bn_lib_ok lib" and n: "0 < n" and s: "BN_num_bits lib n div 8 < 255"
  shows "target lib (GetCompact lib n) = trunc3 (BN_num_bits lib n div 8 + 1) n"
proof -
  obtain b bs where m: "bn2mpi lib n = be_enc 4 (length (b # bs)) @ b # bs" "mpi_size lib n = length (b # bs) + 4"
    "unat b < 128" "be_dec (b # bs) = nat n" "length (b # bs) = BN_num_bits lib n div 8 + 1"
    by (rule bn2mpi_pos [OF lib n])
  let ?l = "of_nat (length (b # bs)) :: u8" and ?v = "pad3 (b # bs)"
  have l: "unat ?l = length (b # bs)" by (rule unat_of_nat_u8) (use m(5) s in simp)
  have "take (length (b # bs)) [?v ! 0, ?v ! 1, ?v ! 2] = take 3 (b # bs)"
    by (cases bs rule: list.exhaust; cases "tl bs" rule: list.exhaust) (auto simp: pad3_def)
  then have "target lib (GetCompact lib n) =
      BN_mpi2bn lib ([0, 0, 0, ?l] @ take 3 (b # bs) @ replicate (length (b # bs) - 3) 0)"
    unfolding GetCompact_word [OF lib n s m(1,2,5)] SetCompact_word l by simp
  also have "\<dots> = mpi_val (take 3 (b # bs) @ replicate (length (b # bs) - 3) 0)"
  proof (rule mpi2bn_ok [OF lib])
    show "be_dec [0, 0, 0, ?l] = length (take 3 (b # bs) @ replicate (length (b # bs) - 3) 0)"
      using l by (simp add: be_dec_Cons del: length_Cons)
  qed simp
  also have "\<dots> = int (be_dec (take 3 (b # bs) @ replicate (length (b # bs) - 3) 0))"
    using mpi_val_sign(1) [OF m(3)] by simp
  also have "\<dots> = trunc3 (length (b # bs)) n" by (rule take3_value [OF m(4) n])
  finally show ?thesis unfolding m(5) .
qed


lemma num_bits:
  assumes "bn_lib_ok lib" and "0 < n"
  shows "n < 2 ^ BN_num_bits lib n" and "0 < BN_num_bits lib n" and "2 ^ (BN_num_bits lib n - 1) \<le> n"
proof -
  have lt: "nat \<bar>n\<bar> < 2 ^ BN_num_bits lib n" and le: "0 < BN_num_bits lib n \<longrightarrow> 2 ^ (BN_num_bits lib n - 1) \<le> nat \<bar>n\<bar>"
    using assms(1) unfolding bn_lib_ok_def by auto
  show "n < 2 ^ BN_num_bits lib n" using lt assms(2) by (simp add: nat_less_iff)
  show pos: "0 < BN_num_bits lib n" using lt assms(2) by (cases "BN_num_bits lib n") auto
  show "2 ^ (BN_num_bits lib n - 1) \<le> n" using le pos assms(2) by (simp add: le_nat_iff)
qed

lemma num_bits_unique:
  assumes "bn_lib_ok lib" and "0 < k" and "2 ^ (k - 1) \<le> n" and "n < 2 ^ k"
  shows "BN_num_bits lib n = k"
proof -
  have n: "0 < n" using assms(3) by (smt (verit) zero_less_power)
  note b = num_bits [OF assms(1) n]
  have "\<not> BN_num_bits lib n < k"
  proof
    assume "BN_num_bits lib n < k"
    then have "(2 :: int) ^ BN_num_bits lib n \<le> 2 ^ (k - 1)" by (intro power_increasing) auto
    with b(1) assms(3) show False by linarith
  qed
  moreover have "\<not> k < BN_num_bits lib n"
  proof
    assume "k < BN_num_bits lib n"
    then have "(2 :: int) ^ k \<le> 2 ^ (BN_num_bits lib n - 1)" by (intro power_increasing) auto
    with b(3) assms(4) show False by linarith
  qed
  ultimately show ?thesis by simp
qed

lemma small_bits:
  assumes "bn_lib_ok lib" and "0 < n" and "n < 2 ^ 256"
  shows "BN_num_bits lib n div 8 < 255"
proof -
  have "(2 :: int) ^ (BN_num_bits lib n - 1) < 2 ^ 256" using num_bits(3) [OF assms(1,2)] assms(3) by simp
  then have "BN_num_bits lib n - 1 < 256" by (rule power_less_imp_less_exp [rotated]) simp
  then show ?thesis by simp
qed

text \<open>Truncation keeps the length of the number and loses less than its 32768th part.\<close>

lemma trunc3_props:
  assumes lib: "bn_lib_ok lib" and n: "0 < n"
  defines "k \<equiv> BN_num_bits lib n" and "t \<equiv> trunc3 (BN_num_bits lib n div 8 + 1) n"
  shows "t \<le> n" and "2 ^ (k - 1) \<le> t" and "0 < t" and "32768 * (n - t) \<le> n" and "trunc3 (k div 8 + 1) t = t"
proof -
  let ?u = "256 ^ (k div 8 - 2) :: int"
  have t: "t = n div ?u * ?u" by (simp add: t_def trunc3_def k_def)
  note b = num_bits [OF lib n, folded k_def]
  have u: "0 < ?u" by simp
  have nt: "n - t = n mod ?u" by (simp add: t minus_div_mult_eq_mod)
  then show le: "t \<le> n" using pos_mod_sign [OF u, of n] by linarith
  have "n - t < ?u" unfolding nt by (rule pos_mod_bound [OF u])
  have pw: "?u = 2 ^ (8 * (k div 8 - 2))" by (simp add: power_mult)
  have "8 * (k div 8 - 2) \<le> k - 1" using b(2) by linarith
  then obtain j where j: "k - 1 = 8 * (k div 8 - 2) + j" using le_Suc_ex by blast
  then have m: "2 ^ (k - 1) = 2 ^ j * ?u" by (simp add: pw power_add)
  have "2 ^ j * ?u div ?u \<le> n div ?u" using b(3) m u by (intro zdiv_mono1) simp_all
  then have "2 ^ j \<le> n div ?u" by simp
  then show ge: "2 ^ (k - 1) \<le> t" unfolding m t by (intro mult_right_mono) simp_all
  then show "0 < t" by (smt (verit) zero_less_power)
  show "trunc3 (k div 8 + 1) t = t" by (simp add: trunc3_def t)
  show "32768 * (n - t) \<le> n"
  proof (cases "k div 8 < 3")
    case True
    then have "?u = 1" by simp
    then show ?thesis using n by (simp add: t)
  next
    case False
    then have "8 * (k div 8 - 2) + 15 \<le> k - 1" by linarith
    then have "(2 :: int) ^ (8 * (k div 8 - 2) + 15) \<le> 2 ^ (k - 1)" by (intro power_increasing) simp_all
    then have "32768 * ?u \<le> n" using b(3) by (simp add: pw power_add)
    with \<open>n - t < ?u\<close> show ?thesis by simp
  qed
qed


text \<open>
  C16: compact targets.  With a library that behaves as documented, the compact form of a positive
  number below \<open>2^256\<close> stands for a positive number that is not above it and is less by at most
  its 32768th part, and the compact form of that number is the same.
\<close>

theorem compact_round_trip:
  assumes "bn_lib_ok lib" and "0 < n" and "n < 2 ^ 256"
  shows "0 < target lib (GetCompact lib n) \<and> target lib (GetCompact lib n) \<le> n \<and>
    32768 * (n - target lib (GetCompact lib n)) \<le> n \<and>
    target lib (GetCompact lib (target lib (GetCompact lib n))) = target lib (GetCompact lib n)"
proof -
  let ?k = "BN_num_bits lib n" and ?t = "target lib (GetCompact lib n)"
  have t: "?t = trunc3 (?k div 8 + 1) n" by (rule target_GetCompact [OF assms(1,2) small_bits [OF assms]])
  note p = trunc3_props [OF assms(1,2), folded t]
  have "?t < 2 ^ ?k" using p(1) num_bits(1) [OF assms(1,2)] by linarith
  then have "BN_num_bits lib ?t = ?k" using num_bits_unique [OF assms(1) num_bits(2) [OF assms(1,2)] p(2)] by simp
  then have "target lib (GetCompact lib ?t) = ?t"
    using target_GetCompact [OF assms(1) p(3)] p(5) small_bits [OF assms] by simp
  with p show ?thesis by blast
qed


theorem compact_round_trip_witness:
  "0 < target bn_ref (GetCompact bn_ref SHC_bnProofOfWorkLimit) \<and>
   target bn_ref (GetCompact bn_ref SHC_bnProofOfWorkLimit) \<le> SHC_bnProofOfWorkLimit"
  using compact_round_trip [OF bn_ref_ok, of SHC_bnProofOfWorkLimit] by (simp add: SHC_bnProofOfWorkLimit_def)


section \<open>The check of the proof of work\<close>

lemma le_dec_take: "le_dec (take k xs) = le_dec xs mod 256 ^ k"
proof (cases "k \<le> length xs")
  case True
  have "le_dec xs = le_dec (take k xs) + 256 ^ k * le_dec (drop k xs)"
    using le_dec_append [of "take k xs" "drop k xs"] True by simp
  moreover have "le_dec (take k xs) < 256 ^ k" using le_dec_bound [of "take k xs"] True by simp
  ultimately show ?thesis by simp
next
  case False
  have "le_dec xs < 256 ^ length xs" by (rule le_dec_bound)
  also have "\<dots> \<le> 256 ^ k" by (rule power_increasing) (use False in auto)
  finally show ?thesis using False by simp
qed

lemma getuint256_pos:
  assumes "bn_lib_ok lib" and "0 < n"
  shows "getuint256 lib n = of_int n"
proof -
  obtain b bs where m: "bn2mpi lib n = be_enc 4 (length (b # bs)) @ b # bs" "unat b < 128" "be_dec (b # bs) = nat n"
    by (rule bn2mpi_pos [OF assms])
  have b: "b AND 0x7f = b" by (rule and_7f_small [OF m(2)])
  have "getuint256 lib n = of_nat (le_dec (take 32 (rev (b # bs))))"
    by (simp add: getuint256_def m(1) Let_def nth_append list_update_append b)
  also have "\<dots> = of_nat (nat n mod 2 ^ 256)" using m(3) by (simp only: le_dec_take be_dec_def) simp
  also have "\<dots> = of_nat (nat n)" by (simp add: word_unat_eq_iff unat_of_nat take_bit_eq_mod)
  finally show ?thesis using assms(2) by simp
qed


lemma CheckProofOfWork_iff:
  assumes "bn_lib_ok lib" and "limit < 2 ^ 256"
  shows "CheckProofOfWork limit lib hash bits \<longleftrightarrow> 0 < target lib bits \<and> target lib bits \<le> limit \<and> uint hash \<le> target lib bits"
proof (cases "0 < target lib bits \<and> target lib bits \<le> limit")
  case True
  with assms(2) have "uint (of_int (target lib bits) :: u256) = target lib bits"
    by (simp add: unsigned_of_int take_bit_int_eq_self)
  with True getuint256_pos [OF assms(1)] show ?thesis by (auto simp: CheckProofOfWork_def word_less_def)
qed (auto simp: CheckProofOfWork_def)

text \<open>
  C40: the proof of work.  A block passes exactly when its target is positive and not above the limit
  of the coin and the hash, as a number, is not above the target: nothing is lost when the target
  is converted to 256 bits.
\<close>

theorem proof_of_work_exact:
  assumes "bn_lib_ok lib"
  shows "(shc_CheckProofOfWork lib hash bits \<longleftrightarrow>
      0 < target lib bits \<and> target lib bits \<le> 2 ^ 235 - 1 \<and> uint hash \<le> target lib bits) \<and>
    (usde_CheckProofOfWork lib hash bits \<longleftrightarrow>
      0 < target lib bits \<and> target lib bits \<le> 2 ^ 236 - 1 \<and> uint hash \<le> target lib bits) \<and>
    emc2_CheckProofOfWork lib hash bits = usde_CheckProofOfWork lib hash bits \<and>
    (test_CheckProofOfWork lib hash bits \<longleftrightarrow>
      0 < target lib bits \<and> target lib bits \<le> 2 ^ 247 - 1 \<and> uint hash \<le> target lib bits)"
proof -
  note c = CheckProofOfWork_iff [OF assms]
  show ?thesis
    by (simp add: shc_CheckProofOfWork_def usde_CheckProofOfWork_def emc2_CheckProofOfWork_def test_CheckProofOfWork_def
        c SHC_bnProofOfWorkLimit_def USDE_bnProofOfWorkLimit_def emc2_bnProofOfWorkLimit_def TEST_bnProofOfWorkLimit_def)
qed

lemma target_1d00ffff: "target bn_ref 0x1d00ffff = 65535 * 256 ^ 26"
proof -
  have c: "(0x1d00ffff :: u32) = compact_word 29 0 255 255" unfolding compact_word_def by code_simp
  have "be_dec ([0, 255, 255] @ replicate 26 0) = 65535 * 256 ^ 26"
    unfolding be_dec_append be_dec_zeros by (simp add: be_dec_Cons)
  then have "mpi_val ([0, 255, 255] @ replicate 26 0) = 65535 * 256 ^ 26"
    using mpi_val_sign(1) [of 0 "[255, 255] @ replicate 26 0"] by simp
  then show ?thesis unfolding c SetCompact_word by (simp add: bn_ref_def)
qed

theorem proof_of_work_exact_witness:
  "shc_CheckProofOfWork bn_ref 7 0x1d00ffff \<and> \<not> shc_CheckProofOfWork bn_ref (2 ^ 230) 0x1d00ffff"
  using proof_of_work_exact [OF bn_ref_ok, of 7 "0x1d00ffff"] proof_of_work_exact [OF bn_ref_ok, of "2 ^ 230" "0x1d00ffff"]
  by (simp add: target_1d00ffff)


section \<open>The average and the next target\<close>

lemma sdiv_step:
  fixes i a x lo hi :: int
  assumes "1 \<le> i" and "lo \<le> a" and "a \<le> hi" and "lo \<le> x" and "x \<le> hi"
  shows "lo \<le> (x - a) sdiv i + a \<and> (x - a) sdiv i + a \<le> hi"
proof (cases "a \<le> x")
  case True
  then have "(x - a) sdiv i = (x - a) div i" using assms(1) by (simp add: signed_divide_int_def sgn_if)
  moreover have "0 \<le> (x - a) div i" "(x - a) div i \<le> x - a"
    using True assms(1) zdiv_mono2 [of "x - a" 1 i] by (simp_all add: pos_imp_zdiv_nonneg_iff)
  ultimately show ?thesis using assms by linarith
next
  case False
  then have "(x - a) sdiv i = - ((a - x) div i)" using assms(1) by (simp add: signed_divide_int_def sgn_if)
  moreover have "0 \<le> (a - x) div i" "(a - x) div i \<le> a - x"
    using False assms(1) zdiv_mono2 [of "a - x" 1 i] by (simp_all add: pos_imp_zdiv_nonneg_iff)
  ultimately show ?thesis using assms by linarith
qed

definition targets_in :: "bnlib \<Rightarrow> blkidx_t \<Rightarrow> int \<Rightarrow> int \<Rightarrow> bool" where
  "targets_in lib T lo hi \<longleftrightarrow> (\<forall>p node. T p = Some node \<longrightarrow> lo \<le> target lib (nBits node) \<and> target lib (nBits node) \<le> hi)"

text \<open>
  A way to measure the past seconds, of which only that it never gives a negative number matters.
\<close>

locale past_seconds =
  fixes seconds :: "int \<Rightarrow> CBlockIndex \<Rightarrow> int \<times> int"
  assumes nonneg: "0 \<le> snd (seconds latest node)"
begin

lemma loop:
  assumes "tree_ok T" and "targets_in lib T lo hi" and "T p = Some node" and "0 < nHeight node" and "1 \<le> i" and "0 < spacing"
    and "1 < i \<Longrightarrow> lo \<le> fst s \<and> fst s \<le> hi"
  shows "\<exists>avg actual k. kgw_loop lib seconds horizon spacing mn T (Suc n) i p latest s = Some (avg, actual, spacing * int k) \<and>
    lo \<le> avg \<and> avg \<le> hi \<and> 0 \<le> actual \<and> i \<le> k \<and> k \<le> i + n"
  using assms(3-)
proof (induction n arbitrary: i p node latest s)
  case (0 i p node latest s)
  let ?avg = "next_average lib i (fst s) node"
  obtain l a where la: "seconds latest node = (l, a)" "0 \<le> a" using nonneg [of latest node] by (cases "seconds latest node") auto
  have t: "lo \<le> target lib (nBits node)" "target lib (nBits node) \<le> hi" using assms(2) "0.prems"(1) by (auto simp: targets_in_def)
  have "lo \<le> ?avg \<and> ?avg \<le> hi"
    using "0.prems" t sdiv_step [of "int i" lo "fst s" hi "target lib (nBits node)"] by (simp add: next_average_def)
  with "0.prems" la show ?case
    by (rule_tac x = ?avg in exI, rule_tac x = a in exI, rule_tac x = i in exI) (simp add: Let_def split: option.splits)
next
  case (Suc n i p node latest s)
  let ?avg = "next_average lib i (fst s) node"
  obtain l a where la: "seconds latest node = (l, a)" "0 \<le> a" using nonneg [of latest node] by (cases "seconds latest node") auto
  have t: "lo \<le> target lib (nBits node)" "target lib (nBits node) \<le> hi" using assms(2) Suc.prems(1) by (auto simp: targets_in_def)
  have avg: "lo \<le> ?avg \<and> ?avg \<le> hi"
    using Suc.prems t sdiv_step [of "int i" lo "fst s" hi "target lib (nBits node)"] by (simp add: next_average_def)
  obtain q prev where q: "pprev node = Some q" "T q = Some prev" by (rule tree_ok_parent [OF assms(1) Suc.prems(1,2)])
  let ?s = "(?avg, a, spacing * int i)"
  show ?case
  proof (cases "i \<ge> mn \<and> horizon i (spacing * int i) a")
    case True
    with Suc.prems la avg show ?thesis
      by (rule_tac x = ?avg in exI, rule_tac x = a in exI, rule_tac x = i in exI) (simp add: Let_def)
  next
    case False
    then have step: "kgw_loop lib seconds horizon spacing mn T (Suc (Suc n)) i p latest s =
        kgw_loop lib seconds horizon spacing mn T (Suc n) (Suc i) q l ?s"
      using Suc.prems la q by (auto simp: Let_def)
    show ?thesis
    proof (cases "0 < nHeight prev")
      case True
      from Suc.IH [OF q(2) True, of "Suc i" ?s l] Suc.prems(3,4) avg show ?thesis
        unfolding step by (fastforce simp del: kgw_loop.simps)
    next
      case False
      with q(2) have "kgw_loop lib seconds horizon spacing mn T (Suc n) (Suc i) q l ?s = Some ?s" by simp
      with avg la show ?thesis unfolding step by auto
    qed
  qed
qed

end


lemma scale_target_pos:
  assumes "0 \<le> actual" and "0 < tgt" and "tgt \<le> avg" and "0 < limit"
  shows "0 < scale_target limit avg actual tgt" and "scale_target limit avg actual tgt \<le> limit \<or> scale_target limit avg actual tgt = avg"
proof -
  have "0 < (if actual \<noteq> 0 \<and> tgt \<noteq> 0 then (avg * actual) sdiv tgt else avg)"
  proof (cases "actual = 0")
    case False
    with assms have "1 \<le> actual" by simp
    then have le: "avg * 1 \<le> avg * actual" by (rule mult_left_mono) (use assms in simp)
    have "1 \<le> avg div tgt" using assms by (simp add: pos_imp_zdiv_pos_iff int_one_le_iff_zero_less)
    also have "\<dots> \<le> (avg * actual) div tgt" using le assms(2) by (simp add: zdiv_mono1)
    finally have "0 < (avg * actual) div tgt" by simp
    moreover have "(avg * actual) sdiv tgt = (avg * actual) div tgt"
      using le assms by (simp add: signed_divide_int_def sgn_if)
    ultimately show ?thesis using False assms(2) by simp
  qed (use assms in simp)
  then show "0 < scale_target limit avg actual tgt" using assms(4) by (simp add: scale_target_def Let_def)
  show "scale_target limit avg actual tgt \<le> limit \<or> scale_target limit avg actual tgt = avg"
    by (simp add: scale_target_def Let_def)
qed

definition valid_bits :: "bnlib \<Rightarrow> int \<Rightarrow> u32 option \<Rightarrow> bool" where
  "valid_bits lib limit r \<longleftrightarrow> (\<exists>bits. r = Some bits \<and> 0 < target lib bits \<and> target lib bits \<le> limit)"

lemma valid_GetCompact:
  "bn_lib_ok lib \<Longrightarrow> 0 < n \<Longrightarrow> n \<le> limit \<Longrightarrow> limit < 2 ^ 256 \<Longrightarrow> valid_bits lib limit (Some (GetCompact lib n))"
  using small_bits [of lib n] target_GetCompact [of lib n] trunc3_props(1,3) [of lib n] by (auto simp: valid_bits_def)

context past_seconds
begin

lemma well:
  assumes lib: "bn_lib_ok lib" and tree: "tree_ok T" and p: "T p = Some node" and sp: "0 < spacing" "0 < mx"
    and t: "targets_in lib T (spacing * int mx) limit" and lim: "limit < 2 ^ 256"
  shows "valid_bits lib limit (KimotoGravityWell limit lib seconds horizon T (Some p) spacing mn mx)"
proof -
  have pos: "0 < spacing * int mx" using sp by simp
  have lo: "spacing * int mx \<le> limit" using t p unfolding targets_in_def by (meson order_trans)
  show ?thesis
  proof (cases "nHeight node = 0 \<or> 0 \<le> nHeight node \<and> nHeight node < int mn")
    case True
    with p valid_GetCompact [OF lib _ order_refl lim] pos lo show ?thesis by (auto simp: KimotoGravityWell_def)
  next
    case False
    have h: "0 < nHeight node" using False tree_ok_height [OF tree p] by simp
    obtain n where n: "mx = Suc n" using sp(2) by (cases mx) auto
    obtain avg actual k where
      l: "kgw_loop lib seconds horizon spacing mn T mx 1 p (block_time node) (0, 0, 0) = Some (avg, actual, spacing * int k)"
      and b: "spacing * int mx \<le> avg" "avg \<le> limit" "0 \<le> actual" "1 \<le> k" "k \<le> mx"
      using loop [OF tree t p h _ sp(1), of 1 "(0, 0, 0)" horizon mn n "block_time node"] n by auto
    have "spacing * int k \<le> spacing * int mx" by (rule mult_left_mono) (use sp b(5) in simp_all)
    then have k: "0 < spacing * int k" "spacing * int k \<le> avg" using sp b(1,4) order_trans by (simp, blast)
    have "0 < scale_target limit avg actual (spacing * int k)" "scale_target limit avg actual (spacing * int k) \<le> limit"
      using scale_target_pos [OF b(3) k, of limit] pos lo b(2) by auto
    with False p l valid_GetCompact [OF lib _ _ lim] show ?thesis by (simp add: KimotoGravityWell_def)
  qed
qed

end

interpretation shc_well: past_seconds shc_seconds
  by standard (simp add: shc_seconds_def Let_def)

interpretation usde_well: past_seconds usde_seconds
  by standard (simp add: usde_seconds_def Let_def)

interpretation emc2_well: past_seconds emc2_seconds
  by standard (simp add: emc2_seconds_def Let_def)


lemma go_back_ok:
  assumes "tree_ok T" and "T p = Some node" and "int n \<le> nHeight node"
  shows "\<exists>q first. go_back T n p = Some q \<and> T q = Some first"
  using assms(2,3)
proof (induction n arbitrary: p node)
  case (Suc n)
  obtain q prev where q: "pprev node = Some q" "T q = Some prev" "nHeight prev = nHeight node - 1"
    by (rule tree_ok_parent [OF assms(1) Suc.prems(1)]) (use Suc.prems(2) in auto)
  from Suc.IH [OF q(2)] q Suc.prems show ?case by auto
qed simp

lemma clamped_target:
  fixes t a b limit :: int
  assumes "b \<le> t" and "1 \<le> a" and "1 \<le> b" and "0 < limit"
  shows "0 < (if (t * a) sdiv b > limit then limit else (t * a) sdiv b)"
    and "(if (t * a) sdiv b > limit then limit else (t * a) sdiv b) \<le> limit"
  using scale_target_pos(1) [of a b t limit] assms by (auto simp: scale_target_def Let_def split: if_splits)

lemma digishield_valid:
  assumes lib: "bn_lib_ok lib" and tree: "tree_ok T" and p: "T p = Some node" and t: "targets_in lib T 60 emc2_bnProofOfWorkLimit"
  shows "valid_bits lib emc2_bnProofOfWorkLimit (emc2_DigiShield lib T p)"
proof -
  let ?n = "if nHeight node + 1 \<noteq> 1 then 1 else 0 :: nat"
  have "int ?n \<le> nHeight node" using tree_ok_height [OF tree p] by auto
  from go_back_ok [OF tree p this] obtain q first where q: "go_back T ?n p = Some q" "T q = Some first" by blast
  have b: "60 \<le> target lib (nBits node)" using t p by (auto simp: targets_in_def)
  have "(nHeight node + 1) smod 1 = 0" by (simp add: signed_modulo_int_def)
  moreover have "valid_bits lib emc2_bnProofOfWorkLimit
      (Some (GetCompact lib (if (target lib (nBits node) * a) sdiv 60 > emc2_bnProofOfWorkLimit then emc2_bnProofOfWorkLimit
        else (target lib (nBits node) * a) sdiv 60)))" if "45 \<le> a" for a
    by (rule valid_GetCompact [OF lib clamped_target]) (use b that in \<open>simp_all add: emc2_bnProofOfWorkLimit_def\<close>)
  ultimately show ?thesis using p q by (simp add: emc2_DigiShield_def Let_def cong: if_cong)
qed


lemma usde_timespan_pos: "1 \<le> usde_timespan height a"
  by (simp add: usde_timespan_def Let_def)

lemma smod_0_multiple:
  fixes h i :: int
  assumes "h smod i = 0" and "0 < h" and "0 < i"
  shows "i \<le> h" and "h \<noteq> i \<Longrightarrow> 2 * i \<le> h"
proof -
  have "h mod i = 0" using assms by (simp add: signed_modulo_int_def sgn_if)
  then obtain k where k: "h = i * k" by (auto simp: mod_eq_0_iff_dvd dvd_def)
  then have "0 < k" using assms by (simp add: zero_less_mult_iff)
  then show "i \<le> h" using k assms(3) mult_left_mono [of 1 k i] by simp
  assume "h \<noteq> i"
  then have "2 \<le> k" using k \<open>0 < k\<close> by (cases "k = 1") auto
  then show "2 * i \<le> h" using k assms(3) mult_left_mono [of 2 k i] by simp
qed

lemma last_regular_ok:
  assumes "tree_ok T" and "T p = Some node" and "nHeight node < int n"
  shows "\<exists>q first. last_regular T i limit n p = Some (nBits first) \<and> T q = Some first"
  using assms(2,3)
proof (induction n arbitrary: p node)
  case 0
  then show ?case using tree_ok_height [OF assms(1)] by fastforce
next
  case (Suc n)
  show ?case
  proof (cases "\<exists>q. pprev node = Some q \<and> nHeight node smod i \<noteq> 0 \<and> nBits node = limit")
    case True
    then obtain q where q: "pprev node = Some q" "nHeight node smod i \<noteq> 0" "nBits node = limit" by blast
    obtain prev where prev: "T q = Some prev" "nHeight node = nHeight prev + 1"
      using tree_okD [OF assms(1) Suc.prems(1)] q(1) by (auto simp: node_ok_def)
    from Suc.IH [OF prev(1)] prev(2) Suc.prems q show ?thesis by auto
  qed (use Suc.prems in \<open>auto split: option.splits\<close>)
qed

text \<open>The rule of USDE before its hard fork, with the interval and the time span of the height.\<close>

lemma usde_early:
  assumes "T p = Some node" "\<not> nHeight node + 1 > 91000" "i = (if nHeight node + 1 > 27000 then 120 else 1200)"
    "ts = (if nHeight node + 1 > 27000 then 7200 else 36000)"
  shows "usde_GetNextWorkRequired lib horizon fTestNet time T (Some p) =
      (if (nHeight node + 1) smod i \<noteq> 0 then
         (if fTestNet then
            (if uint time > block_time node + 60 * 2 then Some (GetCompact lib USDE_bnProofOfWorkLimit)
             else last_regular T i (GetCompact lib USDE_bnProofOfWorkLimit) (Suc (nat (nHeight node))) p)
          else Some (nBits node))
       else do {
         q \<leftarrow> go_back T (nat (if nHeight node + 1 \<noteq> i then i else i - 1)) p;
         first \<leftarrow> T q;
         Some (GetCompact lib
           (if (target lib (nBits node) * usde_timespan (nHeight node + 1) (block_time node - block_time first)) sdiv ts > USDE_bnProofOfWorkLimit
            then USDE_bnProofOfWorkLimit
            else (target lib (nBits node) * usde_timespan (nHeight node + 1) (block_time node - block_time first)) sdiv ts)) })"
  unfolding usde_GetNextWorkRequired_def Let_def assms(3,4) using assms(2) by (simp only: assms(1) bind.bind_lunit if_False)

lemma usde_valid:
  assumes lib: "bn_lib_ok lib" and tree: "tree_ok T" and p: "T p = Some node" and t: "targets_in lib T 241860 USDE_bnProofOfWorkLimit"
  shows "valid_bits lib USDE_bnProofOfWorkLimit (usde_GetNextWorkRequired lib horizon fTestNet time T (Some p))"
proof (cases "nHeight node + 1 > 91000")
  case True
  have "valid_bits lib USDE_bnProofOfWorkLimit (KimotoGravityWell USDE_bnProofOfWorkLimit lib usde_seconds horizon T (Some p) 60 144 4031)"
    by (rule usde_well.well [OF lib tree p]) (use t in \<open>simp_all add: USDE_bnProofOfWorkLimit_def\<close>)
  with True p show ?thesis by (simp add: usde_GetNextWorkRequired_def Let_def)
next
  case False
  let ?h = "nHeight node + 1" and ?lim = "GetCompact lib USDE_bnProofOfWorkLimit"
  define i where "i = (if ?h > 27000 then 120 else 1200 :: int)"
  define ts where "ts = (if ?h > 27000 then 7200 else 36000 :: int)"
  have h0: "0 \<le> nHeight node" by (rule tree_ok_height [OF tree p])
  have node: "valid_bits lib USDE_bnProofOfWorkLimit (Some (nBits nd))" if "T q = Some nd" for q nd
    using t that by (force simp: targets_in_def valid_bits_def)
  have lim: "valid_bits lib USDE_bnProofOfWorkLimit (Some ?lim)"
    by (rule valid_GetCompact [OF lib _ order_refl]) (simp_all add: USDE_bnProofOfWorkLimit_def)
  note unfold = usde_early [where lib = lib and horizon = horizon and time = time and T = T and p = p, OF p False i_def ts_def]
  show ?thesis
  proof (cases "?h smod i = 0")
    case True
    let ?b = "if ?h \<noteq> i then i else i - 1"
    have i: "0 < i" by (simp add: i_def)
    have "?b \<le> nHeight node" using smod_0_multiple [OF True _ i] h0 i by auto
    then have "int (nat ?b) \<le> nHeight node" using i by auto
    from go_back_ok [OF tree p this] obtain q first where q: "go_back T (nat ?b) p = Some q" "T q = Some first" by blast
    define a where "a = usde_timespan ?h (block_time node - block_time first)"
    have b: "ts \<le> target lib (nBits node)" "1 \<le> ts" using t p by (force simp: targets_in_def ts_def)+
    have "usde_GetNextWorkRequired lib horizon fTestNet time T (Some p) = Some (GetCompact lib
        (if (target lib (nBits node) * a) sdiv ts > USDE_bnProofOfWorkLimit then USDE_bnProofOfWorkLimit
         else (target lib (nBits node) * a) sdiv ts))"
      unfolding unfold using True q by (simp add: a_def)
    moreover have "valid_bits lib USDE_bnProofOfWorkLimit (Some (GetCompact lib
        (if (target lib (nBits node) * a) sdiv ts > USDE_bnProofOfWorkLimit then USDE_bnProofOfWorkLimit
         else (target lib (nBits node) * a) sdiv ts)))"
      by (rule valid_GetCompact [OF lib clamped_target])
        (use b usde_timespan_pos in \<open>simp_all add: a_def USDE_bnProofOfWorkLimit_def\<close>)
    ultimately show ?thesis by (simp only:)
  next
    case n: False
    obtain q first where "last_regular T i ?lim (Suc (nat (nHeight node))) p = Some (nBits first)" "T q = Some first"
      using last_regular_ok [OF tree p, of "Suc (nat (nHeight node))" i ?lim] h0 by (auto simp del: last_regular.simps)
    with n node [OF p] node lim show ?thesis by (simp add: unfold del: last_regular.simps)
  qed
qed


text \<open>
  C10: the target of the next block.  On an index of blocks whose own targets are positive, not below
  604800 and not above the limit of the coin, the rules of SHC, USDE (on both networks) and EMC2
  return, and the bits they return stand for a positive target within the limit: a block that a
  node builds with them passes the range check of the proof of work, whatever the times of the
  blocks are and whatever the floating-point decision about the horizon is.
\<close>

theorem next_work_valid:
  assumes "bn_lib_ok lib" and "tree_ok T" and "T p = Some node"
  shows "(targets_in lib T 604800 SHC_bnProofOfWorkLimit \<longrightarrow>
      (\<exists>bits. shc_GetNextWorkRequired lib horizon T (Some p) = Some bits \<and> shc_CheckProofOfWork lib 0 bits)) \<and>
    (targets_in lib T 604800 USDE_bnProofOfWorkLimit \<longrightarrow>
      (\<exists>bits. usde_GetNextWorkRequired lib horizon fTestNet time T (Some p) = Some bits \<and> usde_CheckProofOfWork lib 0 bits)) \<and>
    (targets_in lib T 604800 emc2_bnProofOfWorkLimit \<longrightarrow>
      (\<exists>bits. emc2_GetNextWorkRequired lib horizon T (Some p) = Some bits \<and> emc2_CheckProofOfWork lib 0 bits))"
proof -
  have weak: "targets_in lib T lo limit" if "targets_in lib T 604800 limit" "lo \<le> 604800" for lo limit
    using that unfolding targets_in_def by (meson order_trans)
  have check: "\<exists>bits. r = Some bits \<and> CheckProofOfWork limit lib 0 bits" if v: "valid_bits lib limit r" for r limit
  proof -
    obtain bits where "r = Some bits" "0 < target lib bits" "target lib bits \<le> limit" using v by (auto simp: valid_bits_def)
    then show ?thesis by (simp add: CheckProofOfWork_def Let_def)
  qed
  have shc: "valid_bits lib SHC_bnProofOfWorkLimit (shc_GetNextWorkRequired lib horizon T (Some p))"
    if t: "targets_in lib T 604800 SHC_bnProofOfWorkLimit"
    using shc_well.well [OF assms, of 60 4031 SHC_bnProofOfWorkLimit horizon 144] weak [OF t, of 241860] assms(3)
    by (simp add: shc_GetNextWorkRequired_def SHC_bnProofOfWorkLimit_def)
  have usde: "valid_bits lib USDE_bnProofOfWorkLimit (usde_GetNextWorkRequired lib horizon fTestNet time T (Some p))"
    if t: "targets_in lib T 604800 USDE_bnProofOfWorkLimit"
    by (rule usde_valid [OF assms weak [OF t]]) simp
  have emc2: "valid_bits lib emc2_bnProofOfWorkLimit (emc2_GetNextWorkRequired lib horizon T (Some p))"
    if t: "targets_in lib T 604800 emc2_bnProofOfWorkLimit"
    using emc2_well.well [OF assms, of 60 10080 emc2_bnProofOfWorkLimit horizon 360] weak [OF t, of 60] t assms(3)
      digishield_valid [OF assms]
    by (simp add: emc2_GetNextWorkRequired_def) (simp add: emc2_bnProofOfWorkLimit_def)
  show ?thesis
    unfolding shc_CheckProofOfWork_def usde_CheckProofOfWork_def emc2_CheckProofOfWork_def
    using check shc usde emc2 by blast
qed


definition index1 :: blkidx_t where
  "index1 = [7 \<mapsto> new_CBlockIndex\<lparr>nBits := 0x1d00ffff, nTime := 5\<rparr>,
     8 \<mapsto> new_CBlockIndex\<lparr>pprev := Some 7, nHeight := 1, nBits := 0x1d00ffff, nTime := 3\<rparr>]"

theorem next_work_valid_witness:
  "(\<exists>bits. shc_GetNextWorkRequired bn_ref (\<lambda>_ _ _. True) index1 (Some 8) = Some bits \<and> shc_CheckProofOfWork bn_ref 0 bits) \<and>
   (\<exists>bits. emc2_GetNextWorkRequired bn_ref (\<lambda>_ _ _. False) index1 (Some 8) = Some bits \<and> emc2_CheckProofOfWork bn_ref 0 bits)"
proof -
  have tree: "tree_ok index1" by (auto simp: tree_ok_def node_ok_def index1_def new_CBlockIndex_def split: if_splits)
  have p: "index1 8 = Some (new_CBlockIndex\<lparr>pprev := Some 7, nHeight := 1, nBits := 0x1d00ffff, nTime := 3\<rparr>)"
    by (simp add: index1_def)
  have t: "targets_in bn_ref index1 604800 SHC_bnProofOfWorkLimit" "targets_in bn_ref index1 604800 emc2_bnProofOfWorkLimit"
    by (auto simp: targets_in_def index1_def target_1d00ffff SHC_bnProofOfWorkLimit_def emc2_bnProofOfWorkLimit_def split: if_splits)
  show ?thesis
    using next_work_valid [OF bn_ref_ok tree p, of "\<lambda>_ _ _. True" False 0] next_work_valid [OF bn_ref_ok tree p, of "\<lambda>_ _ _. False" False 0] t
    by blast
qed

end
