(* ===== verification/Block_Check.thy ===== *)
theory Block_Check
  imports Difficulty Commitment Version_Bits Tx_Check
begin

text \<open>
  The checks of a block that stand on their own: the classes \<open>CBlockHeader\<close> and \<open>CBlock\<close> of
  \<^verbatim>\<open>server/block.h\<close>, the weight of a block and \<open>CheckBlock\<close> of the four coins
  (\<^verbatim>\<open>server/shc/shc_block.cpp\<close>, \<^verbatim>\<open>server/usde/usde_block.cpp\<close>, \<^verbatim>\<open>server/emc2/emc2_block.cpp\<close>,
  \<^verbatim>\<open>server/test/test_block.cpp\<close>).

  A check that fails leaves through \<open>error\<close>, or through \<open>CBlock::trust\<close>, which lowers the standing of
  the peer that sent the block; the degree is part of the verdict.  \<^term>\<open>None\<close> is an undefined
  execution.  The functions of the cryptographic libraries, among them the hash of the proof of
  work (\<open>scrypt_1024_1_1_256\<close>), the clock and the numbers of the coin's interface are the fields of
  \<open>benv\<close>.
\<close>

section \<open>Blocks\<close>

record CBlock = CBlockHeader +
  blk_vtx :: "CTransaction list"

definition ser_header :: "'a CBlockHeader_scheme \<Rightarrow> u8 list" where
  "ser_header b = ser_int 4 (blk_nVersion b) @ ser_int 32 (blk_hashPrevBlock b) @ ser_int 32 (blk_hashMerkleRoot b) @
     ser_int 4 (blk_nTime b) @ ser_int 4 (blk_nBits b) @ ser_int 4 (blk_nNonce b)"

definition block_GetHash :: "senv \<Rightarrow> 'a CBlockHeader_scheme \<Rightarrow> u256" where
  "block_GetHash E b = of_nat (le_dec (Hash E (ser_header b)))"

definition GetBlockTime :: "'a CBlockHeader_scheme \<Rightarrow> int" where
  "GetBlockTime b = uint (blk_nTime b)"

text \<open>The bytes of a block and their number, which the code computes with 32 bits.\<close>

definition ser_block :: "u32 \<Rightarrow> CBlock \<Rightarrow> u8 list" where
  "ser_block ver b = ser_header b @ ser_vec (\<lambda>tx. ser_core ver tx @ payload tx) (blk_vtx b)"

definition block_size :: "u32 \<Rightarrow> CBlock \<Rightarrow> u32" where
  "block_size ver b = 80 + size_vec (GetSerializeSize ver) (blk_vtx b)"

definition SHC_PROTOCOL_VERSION :: u32 where "SHC_PROTOCOL_VERSION = 2000000"
definition USDE_PROTOCOL_VERSION :: u32 where "USDE_PROTOCOL_VERSION = 1000400"
definition EMC2_PROTOCOL_VERSION :: u32 where "EMC2_PROTOCOL_VERSION = 70015"
definition TEST_PROTOCOL_VERSION :: u32 where "TEST_PROTOCOL_VERSION = 1000000"
definition USDE_MAX_BLOCK_SIZE :: nat where "USDE_MAX_BLOCK_SIZE = 1000000"

text \<open>
  The weight: the product of a size with the scale factor is a product of 32 bits in the version for
  witnesses and one of 64 bits in that of USDE.
\<close>

definition witness_weight :: "u32 \<Rightarrow> CBlock \<Rightarrow> u64" where
  "witness_weight ver b =
     ucast (block_size (ver OR SERIALIZE_TRANSACTION_NO_WITNESS) b * (SCALE_FACTOR - 1)) + ucast (block_size ver b)"

definition shc_GetBlockWeight :: "CBlock \<Rightarrow> u64" where "shc_GetBlockWeight = witness_weight SHC_PROTOCOL_VERSION"
definition emc2_GetBlockWeight :: "CBlock \<Rightarrow> u64" where "emc2_GetBlockWeight = witness_weight EMC2_PROTOCOL_VERSION"
definition test_GetBlockWeight :: "CBlock \<Rightarrow> u64" where "test_GetBlockWeight = witness_weight TEST_PROTOCOL_VERSION"

definition usde_GetBlockWeight :: "CBlock \<Rightarrow> u64" where
  "usde_GetBlockWeight b = ucast (block_size USDE_PROTOCOL_VERSION b) * ucast SCALE_FACTOR"

section \<open>The environment and the verdict\<close>

record benv =
  b_hash :: senv
  b_lib :: bnlib
  b_scrypt :: "u8 list \<Rightarrow> u256"
  b_now :: int
  b_limits :: coin_limits
  b_max_sigops :: u64
  b_params :: vb_params

datatype verdict = Accepted | Error | Trust int

definition GetPoWHash :: "benv \<Rightarrow> CBlock \<Rightarrow> u256" where
  "GetPoWHash e b = b_scrypt e (ser_header b)"

definition MAX_BLOCK_WEIGHT :: "benv \<Rightarrow> u64" where
  "MAX_BLOCK_WEIGHT e = max_block_size (b_limits e) * 4"

text \<open>
  \<open>IsWitnessEnabled\<close> for a coin with a cache of its own: the cache changes no answer, so the query is
  asked with an empty one.
\<close>

definition witness_enabled :: "benv \<Rightarrow> blkidx_t \<Rightarrow> u256 option \<Rightarrow> bool option" where
  "witness_enabled e T p = map_option fst (IsWitnessEnabled T (b_params e) (Some (\<lambda>_. Map.empty)) p)"

section \<open>\<open>CheckBlock\<close>\<close>

definition tx_hashes :: "benv \<Rightarrow> CBlock \<Rightarrow> u256 list" where
  "tx_hashes e b = map (Tx.GetHash (b_hash e)) (blk_vtx b)"

definition too_many_sigops :: "benv \<Rightarrow> CBlock \<Rightarrow> bool" where
  "too_many_sigops e b \<longleftrightarrow> ucast (foldl (\<lambda>n tx. n + GetLegacySigOpCount tx) 0 (blk_vtx b)) > b_max_sigops e"

definition check_witness :: "benv \<Rightarrow> blkidx_t \<Rightarrow> CBlock \<Rightarrow> verdict option" where
  "check_witness e T b =
     (case T (blk_hashPrevBlock b) of
        None \<Rightarrow> Some Accepted
      | Some pindexPrev \<Rightarrow> do {
          enabled \<leftarrow> witness_enabled e T (Some (blk_hashPrevBlock b));
          ok \<leftarrow> core_CheckBlockWitness (b_hash e) enabled (blk_vtx b);
          Some (if ok then Accepted else Trust (-10)) })"

definition shc_CheckBlock :: "benv \<Rightarrow> blkidx_t \<Rightarrow> CBlock \<Rightarrow> verdict option" where
  "shc_CheckBlock e T b =
     (if blk_vtx b = [] then Some (Trust (-80))
      else if shc_GetBlockWeight b > MAX_BLOCK_WEIGHT e then Some (Trust (-80))
      else if blk_vtx b = [] \<or> \<not> IsCoinBase (blk_vtx b ! 0) then Some Error
      else if \<not> shc_CheckProofOfWork (b_lib e) (GetPoWHash e b) (blk_nBits b) then Some Error
      else if GetBlockTime b > b_now e + 2 * 60 * 60 then Some Error
      else if list_ex IsCoinBase (drop 1 (blk_vtx b)) then Some Error
      else if \<not> list_all (CheckTransaction (b_limits e) SHC_PROTOCOL_VERSION) (blk_vtx b) then Some Error
      else if card (set (tx_hashes e b)) \<noteq> length (blk_vtx b) then Some Error
      else if too_many_sigops e b then Some Error
      else if blk_hashMerkleRoot b \<noteq> fst (BuildMerkleTree (hash_nodes (b_hash e)) (tx_hashes e b)) then Some Error
      else check_witness e T b)"

definition usde_CheckBlock :: "benv \<Rightarrow> CBlock \<Rightarrow> verdict option" where
  "usde_CheckBlock e b =
     (if blk_vtx b = [] then Some (Trust (-100))
      else if length (blk_vtx b) > USDE_MAX_BLOCK_SIZE then Some (Trust (-100))
      else if usde_GetBlockWeight b > MAX_BLOCK_WEIGHT e then Some (Trust (-100))
      else if \<not> IsCoinBase (blk_vtx b ! 0) then Some (Trust (-100))
      else if \<not> usde_CheckProofOfWork (b_lib e) (GetPoWHash e b) (blk_nBits b) then Some (Trust (-50))
      else if GetBlockTime b > b_now e + 2 * 60 * 60 then Some Error
      else if list_ex IsCoinBase (drop 1 (blk_vtx b)) then Some (Trust (-100))
      else if \<not> list_all (CheckTransaction (b_limits e) USDE_PROTOCOL_VERSION) (blk_vtx b) then Some (Trust (-1))
      else if card (set (tx_hashes e b)) \<noteq> length (blk_vtx b) then Some (Trust (-100))
      else if too_many_sigops e b then Some (Trust (-100))
      else if blk_hashMerkleRoot b \<noteq> fst (BuildMerkleTree (hash_nodes (b_hash e)) (tx_hashes e b)) then Some (Trust (-100))
      else Some Accepted)"

definition emc2_CheckBlock :: "benv \<Rightarrow> blkidx_t \<Rightarrow> CBlock \<Rightarrow> verdict option" where
  "emc2_CheckBlock e T b =
     (if blk_vtx b = [] then Some (Trust (-100))
      else if emc2_GetBlockWeight b > MAX_BLOCK_WEIGHT e then Some (Trust (-100))
      else if \<not> IsCoinBase (blk_vtx b ! 0) then Some (Trust (-100))
      else if \<not> emc2_CheckProofOfWork (b_lib e) (GetPoWHash e b) (blk_nBits b) then Some (Trust (-50))
      else if GetBlockTime b > b_now e + 2 * 60 * 60 then Some Error
      else if list_ex IsCoinBase (drop 1 (blk_vtx b)) then Some (Trust (-100))
      else if \<not> list_all (CheckTransaction (b_limits e) EMC2_PROTOCOL_VERSION) (blk_vtx b) then Some (Trust (-1))
      else if card (set (tx_hashes e b)) \<noteq> length (blk_vtx b) then Some (Trust (-100))
      else if too_many_sigops e b then Some (Trust (-100))
      else if blk_hashMerkleRoot b \<noteq> fst (BuildMerkleTree (hash_nodes (b_hash e)) (tx_hashes e b)) then Some (Trust (-100))
      else check_witness e T b)"

definition test_CheckBlock :: "benv \<Rightarrow> blkidx_t \<Rightarrow> CBlock \<Rightarrow> verdict option" where
  "test_CheckBlock e T b =
     (if blk_vtx b = [] then Some (Trust (-100))
      else if test_GetBlockWeight b > MAX_BLOCK_WEIGHT e then Some (Trust (-100))
      else if \<not> IsCoinBase (blk_vtx b ! 0) then Some (Trust (-100))
      else if \<not> test_CheckProofOfWork (b_lib e) (GetPoWHash e b) (blk_nBits b) then Some Error
      else if GetBlockTime b > b_now e + 2 * 60 * 60 then Some Error
      else if list_ex IsCoinBase (drop 1 (blk_vtx b)) then Some Error
      else if \<not> list_all (CheckTransaction (b_limits e) TEST_PROTOCOL_VERSION) (blk_vtx b) then Some Error
      else if card (set (tx_hashes e b)) \<noteq> length (blk_vtx b) then Some Error
      else if too_many_sigops e b then Some Error
      else if blk_hashMerkleRoot b \<noteq> fst (BuildMerkleTree (hash_nodes (b_hash e)) (tx_hashes e b)) then Some Error
      else check_witness e T b)"

section \<open>What an accepted block is\<close>

lemma block_size_bytes:
  assumes "list_all tx_ok (blk_vtx b)"
  shows "block_size ver b = of_nat (length (ser_block ver b))"
proof -
  have "sum_list (map (GetSerializeSize ver) xs) = of_nat (length (concat (map (\<lambda>tx. ser_core ver tx @ payload tx) xs)))"
    if "list_all tx_ok xs" for xs
    using that by (induction xs) (simp_all add: GetSerializeSize_def size_core_bytes)
  with assms show ?thesis
    by (simp add: block_size_def ser_block_def ser_header_def size_vec_def ser_vec_def compact_size_size)
qed

text \<open>The weight and its parts as numbers.\<close>

definition block_weight :: "u32 \<Rightarrow> CBlock \<Rightarrow> nat" where
  "block_weight ver b = 3 * length (ser_block (ver OR SERIALIZE_TRANSACTION_NO_WITNESS) b) + length (ser_block ver b)"

lemma witness_weight_bytes:
  assumes "list_all tx_ok (blk_vtx b)" "length (ser_block ver b) < 2 ^ 30"
    "length (ser_block (ver OR SERIALIZE_TRANSACTION_NO_WITNESS) b) < 2 ^ 30"
  shows "unat (witness_weight ver b) = block_weight ver b"
proof -
  define x y where "x = (of_nat (length (ser_block (ver OR SERIALIZE_TRANSACTION_NO_WITNESS) b)) * 3 :: u32)"
    and "y = (of_nat (length (ser_block ver b)) :: u32)"
  have x: "unat x = 3 * length (ser_block (ver OR SERIALIZE_TRANSACTION_NO_WITNESS) b)"
    using assms(3) by (simp add: x_def unat_word_ariths unat_of_nat take_bit_eq_mod)
  have y: "unat y = length (ser_block ver b)" using assms(2) by (simp add: y_def unat_of_nat take_bit_eq_mod)
  have "unat (ucast x + ucast y :: u64) = unat x + unat y"
    using assms(2,3) x y by (simp add: unat_word_ariths unsigned_ucast_eq take_bit_eq_mod)
  then show ?thesis
    by (simp add: witness_weight_def block_size_bytes [OF assms(1)] block_weight_def SCALE_FACTOR_def x_def [symmetric]
      y_def [symmetric] x y)
qed

lemma usde_weight_bytes:
  assumes "list_all tx_ok (blk_vtx b)" "length (ser_block USDE_PROTOCOL_VERSION b) < 2 ^ 30"
  shows "unat (usde_GetBlockWeight b) = 4 * length (ser_block USDE_PROTOCOL_VERSION b)"
proof -
  define y where "y = (of_nat (length (ser_block USDE_PROTOCOL_VERSION b)) :: u32)"
  have y: "unat y = length (ser_block USDE_PROTOCOL_VERSION b)"
    using assms(2) by (simp add: y_def unat_of_nat take_bit_eq_mod)
  have "unat (ucast y * 4 :: u64) = 4 * unat y"
    using assms(2) y by (simp add: unat_word_ariths unsigned_ucast_eq take_bit_eq_mod)
  then show ?thesis
    by (simp add: usde_GetBlockWeight_def block_size_bytes [OF assms(1)] SCALE_FACTOR_def y_def [symmetric] y)
qed

text \<open>What the four coins agree on: \<open>limit\<close> is the easiest target, \<open>ver\<close> the version of the protocol.\<close>

definition sound_block :: "int \<Rightarrow> u32 \<Rightarrow> benv \<Rightarrow> CBlock \<Rightarrow> bool" where
  "sound_block limit ver e b \<longleftrightarrow>
     blk_vtx b \<noteq> [] \<and> IsCoinBase (hd (blk_vtx b)) \<and> (\<forall>tx\<in>set (tl (blk_vtx b)). \<not> IsCoinBase tx) \<and>
     0 < target (b_lib e) (blk_nBits b) \<and> target (b_lib e) (blk_nBits b) \<le> limit \<and>
     uint (GetPoWHash e b) \<le> target (b_lib e) (blk_nBits b) \<and> GetBlockTime b \<le> b_now e + 7200 \<and>
     (\<forall>tx\<in>set (blk_vtx b). CheckTransaction (b_limits e) ver tx) \<and> distinct (tx_hashes e b) \<and>
     \<not> too_many_sigops e b \<and> blk_hashMerkleRoot b = mroot (hash_nodes (b_hash e)) (tx_hashes e b)"

lemma check_witness_iff:
  "check_witness e T b = Some Accepted \<longleftrightarrow>
     (T (blk_hashPrevBlock b) \<noteq> None \<longrightarrow>
      (\<exists>enabled. witness_enabled e T (Some (blk_hashPrevBlock b)) = Some enabled \<and>
         core_CheckBlockWitness (b_hash e) enabled (blk_vtx b) = Some True))"
  by (auto simp: check_witness_def split: option.splits bind_splits)

lemma coinbases_iff: "list_ex IsCoinBase (drop (Suc 0) xs) \<longleftrightarrow> \<not> (\<forall>tx\<in>set (tl xs). \<not> IsCoinBase tx)"
  by (cases xs) (auto simp: list_ex_iff)

lemma distinct_hashes: "card (set (tx_hashes e b)) = length (blk_vtx b) \<longleftrightarrow> distinct (tx_hashes e b)"
  using distinct_card [of "tx_hashes e b"] card_distinct [of "tx_hashes e b"] by (auto simp: tx_hashes_def)

lemmas check_block_simps = sound_block_def check_witness_iff [symmetric] coinbases_iff distinct_hashes BuildMerkleTree_table
  hd_conv_nth list_all_iff not_less [symmetric]

lemma max_weight:
  assumes "unat (max_block_size (b_limits e)) < 2 ^ 62"
  shows "w > MAX_BLOCK_WEIGHT e \<longleftrightarrow> 4 * unat (max_block_size (b_limits e)) < unat w"
  using assms by (simp add: MAX_BLOCK_WEIGHT_def word_less_nat_alt unat_word_ariths mult.commute)

text \<open>
  C8: which blocks \<open>CheckBlock\<close> accepts. With a block of less than $2^{30}$ bytes whose parts fit the
  format, each coin accepts exactly the blocks with one coinbase, at the front, a proof of work, a
  time not more than two hours ahead, transactions that pass \<open>CheckTransaction\<close> and have different
  hashes, few enough signature operations and the right merkle root, whose weight, computed without
  any wrap-around, is within the limit; all but USDE also demand that the commitment to the
  witnesses is right, but only when the parent of the block is known.
\<close>

theorem check_block_exact:
  assumes "bn_lib_ok (b_lib e)" and "list_all tx_ok (blk_vtx b)" and "\<And>ver. length (ser_block ver b) < 2 ^ 30"
    and "unat (max_block_size (b_limits e)) < 2 ^ 62"
  shows "(shc_CheckBlock e T b = Some Accepted \<longleftrightarrow>
      sound_block SHC_bnProofOfWorkLimit SHC_PROTOCOL_VERSION e b \<and>
      block_weight SHC_PROTOCOL_VERSION b \<le> 4 * unat (max_block_size (b_limits e)) \<and>
      (T (blk_hashPrevBlock b) \<noteq> None \<longrightarrow>
       (\<exists>enabled. witness_enabled e T (Some (blk_hashPrevBlock b)) = Some enabled \<and>
          core_CheckBlockWitness (b_hash e) enabled (blk_vtx b) = Some True))) \<and>
    (usde_CheckBlock e b = Some Accepted \<longleftrightarrow>
      sound_block USDE_bnProofOfWorkLimit USDE_PROTOCOL_VERSION e b \<and> length (blk_vtx b) \<le> 1000000 \<and>
      length (ser_block USDE_PROTOCOL_VERSION b) \<le> unat (max_block_size (b_limits e))) \<and>
    (emc2_CheckBlock e T b = Some Accepted \<longleftrightarrow>
      sound_block emc2_bnProofOfWorkLimit EMC2_PROTOCOL_VERSION e b \<and>
      block_weight EMC2_PROTOCOL_VERSION b \<le> 4 * unat (max_block_size (b_limits e)) \<and>
      (T (blk_hashPrevBlock b) \<noteq> None \<longrightarrow>
       (\<exists>enabled. witness_enabled e T (Some (blk_hashPrevBlock b)) = Some enabled \<and>
          core_CheckBlockWitness (b_hash e) enabled (blk_vtx b) = Some True))) \<and>
    (test_CheckBlock e T b = Some Accepted \<longleftrightarrow>
      sound_block TEST_bnProofOfWorkLimit TEST_PROTOCOL_VERSION e b \<and>
      block_weight TEST_PROTOCOL_VERSION b \<le> 4 * unat (max_block_size (b_limits e)) \<and>
      (T (blk_hashPrevBlock b) \<noteq> None \<longrightarrow>
       (\<exists>enabled. witness_enabled e T (Some (blk_hashPrevBlock b)) = Some enabled \<and>
          core_CheckBlockWitness (b_hash e) enabled (blk_vtx b) = Some True)))"
proof -
  note pow = CheckProofOfWork_iff [OF assms(1)] and big = max_weight [OF assms(4)]
  note ww = witness_weight_bytes [OF assms(2,3,3)] and uw = usde_weight_bytes [OF assms(2,3)]
  have limits: "SHC_bnProofOfWorkLimit < 2 ^ 256" "USDE_bnProofOfWorkLimit < 2 ^ 256" "emc2_bnProofOfWorkLimit < 2 ^ 256"
    "TEST_bnProofOfWorkLimit < 2 ^ 256"
    by (simp_all add: SHC_bnProofOfWorkLimit_def USDE_bnProofOfWorkLimit_def emc2_bnProofOfWorkLimit_def
      TEST_bnProofOfWorkLimit_def)
  have "shc_CheckBlock e T b = Some Accepted \<longleftrightarrow> sound_block SHC_bnProofOfWorkLimit SHC_PROTOCOL_VERSION e b \<and>
      block_weight SHC_PROTOCOL_VERSION b \<le> 4 * unat (max_block_size (b_limits e)) \<and> check_witness e T b = Some Accepted"
    unfolding shc_CheckBlock_def shc_CheckProofOfWork_def pow [OF limits(1)] big shc_GetBlockWeight_def ww
    by (auto simp: check_block_simps)
  moreover have "usde_CheckBlock e b = Some Accepted \<longleftrightarrow>
      sound_block USDE_bnProofOfWorkLimit USDE_PROTOCOL_VERSION e b \<and> length (blk_vtx b) \<le> 1000000 \<and>
      length (ser_block USDE_PROTOCOL_VERSION b) \<le> unat (max_block_size (b_limits e))"
    unfolding usde_CheckBlock_def usde_CheckProofOfWork_def pow [OF limits(2)] big uw USDE_MAX_BLOCK_SIZE_def
    by (auto simp: check_block_simps)
  moreover have "emc2_CheckBlock e T b = Some Accepted \<longleftrightarrow> sound_block emc2_bnProofOfWorkLimit EMC2_PROTOCOL_VERSION e b \<and>
      block_weight EMC2_PROTOCOL_VERSION b \<le> 4 * unat (max_block_size (b_limits e)) \<and> check_witness e T b = Some Accepted"
    unfolding emc2_CheckBlock_def emc2_CheckProofOfWork_def pow [OF limits(3)] big emc2_GetBlockWeight_def ww
    by (auto simp: check_block_simps)
  moreover have "test_CheckBlock e T b = Some Accepted \<longleftrightarrow> sound_block TEST_bnProofOfWorkLimit TEST_PROTOCOL_VERSION e b \<and>
      block_weight TEST_PROTOCOL_VERSION b \<le> 4 * unat (max_block_size (b_limits e)) \<and> check_witness e T b = Some Accepted"
    unfolding test_CheckBlock_def test_CheckProofOfWork_def pow [OF limits(4)] big test_GetBlockWeight_def ww
    by (auto simp: check_block_simps)
  ultimately show ?thesis by (simp only: check_witness_iff)
qed

section \<open>A concrete block\<close>

text \<open>A block with only a coinbase, in an environment in which every header has the proof of work 7.\<close>

definition coinbase1 :: CTransaction where
  "coinbase1 = SetNull\<lparr>vin := [\<lparr>prevout = \<lparr>prev_hash = 0, prev_n = -1\<rparr>, scriptSig = [0x51, 0x51], nSequence = -1\<rparr>],
     vout := [\<lparr>nValue = 5, scriptPubKey = [0x51]\<rparr>]\<rparr>"

definition mined :: "u32 \<Rightarrow> u32 \<Rightarrow> u256 \<Rightarrow> CBlock" where
  "mined bits time prev = \<lparr>blk_nVersion = 1, blk_hashPrevBlock = prev, blk_hashMerkleRoot = Tx.GetHash ref_env coinbase1,
     blk_nTime = time, blk_nBits = bits, blk_nNonce = 0, blk_vtx = [coinbase1]\<rparr>"

definition benv1 :: benv where
  "benv1 = \<lparr>b_hash = ref_env, b_lib = bn_ref, b_scrypt = (\<lambda>_. 7), b_now = 1000, b_limits = lims1, b_max_sigops = 20,
     b_params = \<lparr>nRuleChangeActivationThreshold = 9, nMinerConfirmationWindow = 10,
       vDeployments = (\<lambda>_. \<lparr>dep_bit = 1, nStartTime = 500000, nTimeout = 900000\<rparr>)\<rparr>\<rparr>"

lemma coinbase1_ok: "tx_ok coinbase1" "IsCoinBase coinbase1" "wit coinbase1 = []"
  by (simp_all add: coinbase1_def SetNull_def tx_ok_def vec_ok_def txin_ok_def txout_ok_def MAX_SIZE_def IsCoinBase_def
    outpoint_IsNull_def)

lemma coinbase1_core: "length (ser_core ver coinbase1 @ payload coinbase1) = 63"
  by (simp add: coinbase1_def SetNull_def ser_core_def write_flag_def written_def wit_IsNull_def
    ser_vec_def ser_txin_def ser_txout_def ser_bytes_def ser_outpoint_def WriteCompactSize_def)

lemma mined_bytes: "length (ser_block ver (mined bits time prev)) = 144"
  using coinbase1_core [of ver]
  by (simp add: ser_block_def ser_header_def ser_vec_def mined_def WriteCompactSize_def)

lemma coinbase1_check: "CheckTransaction lims1 ver coinbase1"
proof -
  have s: "GetSerializeSize ver coinbase1 = 63"
    using coinbase1_core [of ver] by (simp add: GetSerializeSize_def size_core_bytes [OF coinbase1_ok(1)] flip: of_nat_add)
  show ?thesis
    unfolding CheckTransaction_def s
    using coinbase1_ok(2)
    by (simp add: lims1_def coinbase1_def SetNull_def MoneyRange_def outpoint_count_def)
qed

lemma coinbase1_sigops: "GetLegacySigOpCount coinbase1 = 0"
proof -
  have s1: "sigop_loop f [0x51] op c = c" for f op c by (subst sigop_loop.simps) (simp add: sigop_loop_Nil)
  have s2: "sigop_loop f [0x51, 0x51] op c = c" for f op c by (subst sigop_loop.simps) (simp add: s1)
  show ?thesis by (simp add: GetLegacySigOpCount_def coinbase1_def SetNull_def GetSigOpCount_def s1 s2)
qed

lemma mined_sound:
  assumes "0 < target bn_ref bits" "target bn_ref bits \<le> limit" "7 \<le> target bn_ref bits" "uint time \<le> 8200"
  shows "sound_block limit ver benv1 (mined bits time prev)"
proof -
  have so: "\<not> too_many_sigops benv1 (mined bits time prev)"
    by (simp add: too_many_sigops_def mined_def benv1_def coinbase1_sigops)
  show ?thesis
    using assms so coinbase1_ok(2) coinbase1_check [of ver]
    by (simp add: sound_block_def GetPoWHash_def GetBlockTime_def tx_hashes_def mroot_single)
      (simp add: mined_def benv1_def mroot_single)
qed

text \<open>Concrete instance: every coin accepts the block, whose parent it does not know; late, no coin does.\<close>

theorem check_block_exact_witness:
  "shc_CheckBlock benv1 Map.empty (mined 0x1d00ffff 1000 9) = Some Accepted \<and>
   usde_CheckBlock benv1 (mined 0x1d00ffff 1000 9) = Some Accepted \<and>
   emc2_CheckBlock benv1 Map.empty (mined 0x1d00ffff 1000 9) = Some Accepted \<and>
   test_CheckBlock benv1 Map.empty (mined 0x1d00ffff 1000 9) = Some Accepted \<and>
   shc_CheckBlock benv1 Map.empty (mined 0x1d00ffff 8201 9) \<noteq> Some Accepted"
proof -
  have lib: "bn_lib_ok (b_lib benv1)" by (simp add: benv1_def bn_ref_ok)
  have m: "unat (max_block_size (b_limits benv1)) < 2 ^ 62" by (simp add: benv1_def lims1_def)
  have tx: "list_all tx_ok (blk_vtx (mined bits time prev))" for bits time prev by (simp add: mined_def coinbase1_ok)
  have len: "\<And>ver. length (ser_block ver (mined bits time prev)) < 2 ^ 30" for bits time prev by (simp add: mined_bytes)
  have s: "sound_block limit ver benv1 (mined 0x1d00ffff 1000 9)" if "2 ^ 235 - 1 \<le> limit" for limit ver
    by (rule mined_sound) (use that in \<open>simp_all add: target_1d00ffff\<close>)
  have l: "\<not> sound_block limit ver benv1 (mined 0x1d00ffff 8201 9)" for limit ver
    by (simp add: sound_block_def GetBlockTime_def mined_def benv1_def)
  note exact = check_block_exact [OF lib tx len m, of Map.empty]
  show ?thesis
    using exact [of "0x1d00ffff" 1000 9] exact [of "0x1d00ffff" 8201 9] s l
    by (simp add: mined_bytes block_weight_def lims1_def benv1_def SHC_bnProofOfWorkLimit_def
      USDE_bnProofOfWorkLimit_def emc2_bnProofOfWorkLimit_def TEST_bnProofOfWorkLimit_def) (simp add: mined_def)
qed

end
