(* ===== verification/Block_Accept.thy ===== *)
theory Block_Accept
  imports Block_Check Reorg
begin

text \<open>
  What happens to a block that arrives: \<open>ProcessBlock\<close> with the blocks that wait for their parents,
  \<open>AcceptBlock\<close>, \<open>AddToBlockIndex\<close> and \<open>SetBestChain\<close> of the four coins, \<open>core_AcceptBlock\<close> of
  \<^verbatim>\<open>server/block.cpp\<close> and the checkpoints, in the build without \<open>USE_LEVELDB_COINDB\<close>.

  The state is the index of the blocks, the best block, its work, the pointer to the genesis block
  and the databases behind \<open>cdb\<close>; around it stand the two maps of orphans.  The degrees with which
  peers are blamed and the requests for missing blocks are kept in lists.  Writing to the databases,
  connecting and disconnecting blocks and the wallet are fields of \<open>coin\<close>; the relay to the peers
  and the tables of the extensions, which change nothing of the state here, are left out.  A result
  of \<^term>\<open>None\<close> is an undefined execution or a loop that does not end.
\<close>

section \<open>Checkpoints\<close>

definition SHC_mapCheckpoints :: "(int \<times> u256) list" where
  "SHC_mapCheckpoints =
     [(0, 0xf4319e4e89b35b5f26ec0363a09d29703402f120cf1bf8e6f535548d5ec3c5cc),
      (29011, 0x860e1b1ed3ebb78822d9e1c99dfa34ac1066c6eee17753f95b4ae0d354e61e5d),
      (29012, 0x82fe60a87c9f3a71e3edd897871a03d2f7ffb8d3eb8f2526a79f5630a50f9411),
      (29013, 0x7e2a6b592d7316bf137d7591298ae597057b16616d7df3ca4407d0ace6d8855e),
      (29014, 0x9c9e871541ced1c418e1ec483e0827bf812274e55596d5585f525410fee74b42),
      (49123, 0x685651fb79d40cb8f53378e424bd4b3bc865de1554590c930d04801b8a7ecdfe),
      (49124, 0xda1e2aefb75b5c218e1e86abc89a913347cdf1e1dd81dd210a5fd33f09808009),
      (49125, 0x5e4a101dae9f04d9a28d54d0bfc742ac8c2c6887c53fd7063a3c3b73087a9c53),
      (49126, 0xe1e089319ca2bbdb036a462361560e130009f17bb7fdb030d5056069e96b92f1),
      (49127, 0x31cd03e68bc0ff6cc0ab98eef2574dfcc30f8815501f9ccdf02accc41598352c),
      (49128, 0x20ef53261360002ad1eddd2c5bf7c2166aecedad236be0efd636085cd8111440)]"

definition USDE_mapCheckpoints :: "(int \<times> u256) list" where
  "USDE_mapCheckpoints =
     [(0, 0x33abc26f9a026f1279cb49600efdd63f42e7c2d3a15463ad8090505d3e967752),
      (1, 0xec9c4d88a04ede4cd777234ac504084c36cb25080c45b4741e2cfc0d5994359a),
      (50, 0x253e145aae6b516ac47b9f6855675bea6f589922b74195cee77b31df1ebbc8c7),
      (1000, 0xa59b03d739edd29c98cf563a1f7b57e7da8306abcae4e18397bd1e320fa79007),
      (3000, 0xb0bf45beaad4446c666158baee04488267e622fabc49e6686b798ccd122018fe),
      (8000, 0xde808d01865606385726824fd9f1466aacb94f233cd9713dc989333bcea15312),
      (10000, 0xb5bab4cfa3e92985302a95afeb1b42755d6c240e73af61deb2599cb72aba991e),
      (20000, 0x2f35019fbf04de7287aaa18b4010d2317779aac0a875183ff52934b8a3fee685),
      (100000, 0x9376d399b8b3f34549d05b6858f4cba534e78cba2306c414117dcaa057c23081),
      (135798, 0xbd8423b7e21e1422953008db6ab7197b71b4cfabb9d9e69cc0cbcdcd7dd86b30),
      (250000, 0x7e86b4d451fcfdf4c59e7f0a8081b33366a50a82b276073c55b758d7769333bf),
      (444444, 0xd4b76e38fe481aef65e4dcc52703f34187aff8dcd037b1ab7abe7b7429af7d95),
      (500000, 0x17a3060325e40e311b42763d44574b3f63a3525f1f7644588fe00ca824c7b21e),
      (750000, 0xa3b1c4f90225299fef3a43851be960b49ca70e8500d1891612e2836cfbeed188),
      (888888, 0x96d7bf79871c8d6d887e098c444071cfda4548e502d1965e255b1b0e71c93c7a),
      (1000000, 0xd444bebec6a7f1345e6bee094d913bdfff0b7ae833c3e3f17b90c98fdc899aa4),
      (1047382, 0x7489d8515228bc90bf43ca09af944e5b3e13f43f1a15f80ae5f211533a26e791),
      (1084324, 0x59e7296adef10db8f517c1e05cc10b1d83925ebe53d81608a5f929ca3b98d94b),
      (1087716, 0xfd322ca21f75bb01a92d903fd435a48a70fc416b2f439d3eadfbd4385138b5b7),
      (1087717, 0x23fad9f5b12079dea9362a51d77e70f49a4d484ad93ca3b0e97fac38fd0addc5),
      (1087718, 0xa5c0965a380a1a5f99065472da29f5a3f1fc4c9713072597e63e402f87f1812e),
      (1387912, 0xb64a82f874dc048cf85d0058949561f679b6e21720e29d309949cbb60fd2345a),
      (1387913, 0x672b6e14296aafd712bfcb40bd58bc7f267b91a9af5bb5516e023629b8f14c96),
      (1500011, 0xc64be1f5f3fc10e70436282448af92412bb0085107b9e0fd587484f73951571f),
      (1500012, 0x559ddd79cc6b2448e8f9b349f672a674181c251216b1d53c21aec74dd231ae19),
      (1500013, 0xf6b327bffa001480d5c9fe6cf1ff52f3f6169ea3b2fb3dfd7bee317d46673142),
      (1500014, 0xe112576e56fd471a4dd9aea6fed40888dfc2d6f4fdeb5c6bedb6d808c9a5c92d),
      (1512101, 0x0b350aa230e612a7f2fd8c45a9f39063c1b99cdde344ee571a19cdccc097c7f6),
      (1512102, 0x393998ccc586374862d45f2f6effa67b27d89acab6eed8034c7d159ee3eb1a26),
      (1512103, 0x19750648e7d11b345f74d466af91da58f19a8d3026793e27568a7b7544f68764),
      (1512104, 0x94194d4819e6b47ff380c86056c50ff738b43e483e0439d5b0192296fb5f63bc)]"

definition EMC2_mapCheckpoints :: "(int \<times> u256) list" where
  "EMC2_mapCheckpoints =
     [(0, 0x4e56204bb7b8ac06f860ff1c845f03f984303b5b97eb7b42868f714611aed94b),
      (14871, 0x5dedc3dd860f008c717d69b8b00f0476de8bc6bdac8d543fb58c946f32f982fa),
      (36032, 0xff37468190b2801f2e72eb1762ca4e53cda6c075af48343f28a32b649512e9a8),
      (51365, 0x702b407c68091f3c97a587a8d92684666bb622f6821944424b850964b366e42c),
      (621000, 0xe2bf6d219cff9d6d7661b7964a05bfea3128265275c3673616ae71fed7072981),
      (1290011, 0xb71db4ec1e17678c3f9bd18b04b1fada4134ee0fc84ac21d1fbab02f2ffc181a),
      (1290012, 0xa19aba9e1adb9e9aefff386ec32416394bfc38fc7ff98cc5d7c2f1ab4e001775),
      (1290013, 0x273e013035bf614996f97cf173b0ea5b581a731cb6872fd1f8eda0b2035bf905),
      (1290014, 0x72aa3d5e2cee606343b9c80b89c2fcb3384131236a0aba8e2c22a9118f4f2beb),
      (1315701, 0xd4e1fc80f5d483c12ed9b7358ef3e8b38ad4c89407469108670a3590db2417b1),
      (1315702, 0x1c69f83bcf2e113b7477c4e6f7b2545731db1c43d4d2790d37004348e7dc095a),
      (1315703, 0x8dc088b551c042a92c6b52e14ff83bbe8a39f2a15a66108fc66a5aac12e5721b),
      (1315704, 0x4ffe997b4ab52d56c04a015b0f5f81f7cb0e1aadff63c6d83a5331e06b90804d),
      (1410100, 0xf6736ff2a7743014ab1902e442328f5c9928ce7f4edb2b4fd0130010cb4cebc4)]"

definition Checkpoints_CheckBlock :: "bool \<Rightarrow> (int \<times> u256) list \<Rightarrow> int \<Rightarrow> u256 \<Rightarrow> bool" where
  "Checkpoints_CheckBlock fTestNet mapCheckpoints height hash =
     (if fTestNet then True
      else case map_of mapCheckpoints height of None \<Rightarrow> True | Some h \<Rightarrow> hash = h)"

definition GetLastCheckpoint :: "bool \<Rightarrow> (int \<times> u256) list \<Rightarrow> blkidx_t \<Rightarrow> u256 option" where
  "GetLastCheckpoint fTestNet mapCheckpoints T =
     (if fTestNet then None
      else map_option snd (find (\<lambda>(height, hash). T hash \<noteq> None) (rev mapCheckpoints)))"

section \<open>State\<close>

record 's chain =
  blockIndex :: blkidx_t
  besthash :: u256
  bestWork :: int
  pindexGenesis :: "u256 option"
  trusts :: "int list"
  cdb :: 's

record 's coin =
  k_env :: benv
  k_testnet :: bool
  k_checkpoints :: "(int \<times> u256) list"
  k_genesis :: u256
  k_horizon :: "nat \<Rightarrow> int \<Rightarrow> int \<Rightarrow> bool"
  k_timespan :: int
  k_junk :: "u256 option"
  k_commit :: "(CBlock, 's) commit_ops"
  k_write_arch :: "CBlock \<Rightarrow> 's \<Rightarrow> bool \<times> 's"
  k_new_best :: "u256 \<Rightarrow> 's \<Rightarrow> 's"
  k_matrix_ok :: "CTransaction \<Rightarrow> 's \<Rightarrow> bool"
  k_known_tx :: "'s \<Rightarrow> u256 \<Rightarrow> bool"

abbreviation bhash :: "'s coin \<Rightarrow> CBlock \<Rightarrow> u256" where
  "bhash k b \<equiv> block_GetHash (b_hash (k_env k)) b"

definition GetBestBlockIndex :: "'s chain \<Rightarrow> u256 option" where
  "GetBestBlockIndex c = (if blockIndex c (besthash c) = None then None else Some (besthash c))"

definition GetBestHeight :: "'s chain \<Rightarrow> int" where
  "GetBestHeight c = (case blockIndex c (besthash c) of None \<Rightarrow> -1 | Some node \<Rightarrow> nHeight node)"

text \<open>\<open>error\<close> and \<open>trust\<close> with a negative degree return \<open>false\<close>.\<close>

fun judge :: "verdict \<Rightarrow> 's chain \<Rightarrow> bool \<times> 's chain" where
  "judge Accepted c = (True, c)"
| "judge Error c = (False, c)"
| "judge (Trust deg) c = (False, c\<lparr>trusts := trusts c @ [deg]\<rparr>)"

section \<open>The best chain\<close>

definition SetBestChain :: "'s coin \<Rightarrow> CBlock \<Rightarrow> u256 \<Rightarrow> 's chain \<Rightarrow> (bool \<times> 's chain) option" where
  "SetBestChain k b pindexNew c = do {
     (ret, c) \<leftarrow>
       (if pindexGenesis c = None \<and> bhash k b = k_genesis k then Some (True, c\<lparr>pindexGenesis := Some pindexNew\<rparr>)
        else do {
          (ret, T, s) \<leftarrow> core_CommitBlock (k_commit k) (GetBestBlockIndex c) b (blk_hashPrevBlock b) pindexNew
                            (blockIndex c) (cdb c);
          Some (ret, c\<lparr>blockIndex := T, cdb := s\<rparr>) });
     if \<not> ret then Some (False, c)
     else do {
       node \<leftarrow> blockIndex c pindexNew;
       Some (True, c\<lparr>cdb := k_new_best k pindexNew (cdb c), besthash := pindexNew, bestWork := bnChainWork node\<rparr>) } }"

text \<open>Only the coins with a deployment of witnesses mark the node (\<open>BIS_OPT_WITNESS\<close>).\<close>

definition add_to_index :: "bool \<Rightarrow> 's coin \<Rightarrow> CBlock \<Rightarrow> 's chain \<Rightarrow> (bool \<times> 's chain) option" where
  "add_to_index segwit k b c = do {
     let hash = bhash k b;
     r \<leftarrow> link_block (BN_mpi2bn (b_lib (k_env k))) (k_junk k) hash (CBlockHeader.truncate b) (blockIndex c);
     case r of
       Inl _ \<Rightarrow> Some (False, c)
     | Inr T \<Rightarrow> do {
         node \<leftarrow> T hash;
         enabled \<leftarrow> (if segwit then witness_enabled (k_env k) T (pprev node) else Some False);
         let T = (if enabled then T(hash \<mapsto> node\<lparr>nStatus := nStatus node OR 128\<rparr>) else T);
         let c = c\<lparr>blockIndex := T\<rparr>;
         if bnChainWork node > bestWork c then SetBestChain k b hash c
         else let (ok, s) = k_write_arch k b (cdb c) in Some (ok, c\<lparr>cdb := s\<rparr>) } }"

definition shc_AddToBlockIndex :: "'s coin \<Rightarrow> CBlock \<Rightarrow> 's chain \<Rightarrow> (bool \<times> 's chain) option" where
  "shc_AddToBlockIndex = add_to_index True"
definition usde_AddToBlockIndex :: "'s coin \<Rightarrow> CBlock \<Rightarrow> 's chain \<Rightarrow> (bool \<times> 's chain) option" where
  "usde_AddToBlockIndex = add_to_index False"
definition emc2_AddToBlockIndex :: "'s coin \<Rightarrow> CBlock \<Rightarrow> 's chain \<Rightarrow> (bool \<times> 's chain) option" where
  "emc2_AddToBlockIndex = add_to_index True"
definition test_AddToBlockIndex :: "'s coin \<Rightarrow> CBlock \<Rightarrow> 's chain \<Rightarrow> (bool \<times> 's chain) option" where
  "test_AddToBlockIndex = add_to_index True"

section \<open>\<open>AcceptBlock\<close>\<close>

text \<open>\<open>GetNextWorkRequired\<close> and \<open>AddToBlockIndex\<close> are virtual; they are the first arguments.\<close>

definition core_AcceptBlock :: "(blkidx_t \<Rightarrow> u256 option \<Rightarrow> u32 option) \<Rightarrow> (CBlock \<Rightarrow> 's chain \<Rightarrow> (bool \<times> 's chain) option) \<Rightarrow>
    's coin \<Rightarrow> CBlock \<Rightarrow> u256 \<Rightarrow> 's chain \<Rightarrow> (bool \<times> 's chain) option" where
  "core_AcceptBlock next_work add k b pindexPrev c = do {
     let hash = bhash k b;
     if blockIndex c hash \<noteq> None then Some (judge Error c)
     else do {
       prev \<leftarrow> blockIndex c pindexPrev;
       let height = nHeight prev + 1;
       bits \<leftarrow> next_work (blockIndex c) (Some pindexPrev);
       if blk_nBits b \<noteq> bits then Some (judge (Trust (-100)) c)
       else if \<not> list_all (\<lambda>tx. IsFinal (GetBestHeight c) (b_now (k_env k)) tx height (GetBlockTime b)) (blk_vtx b)
       then Some (judge (Trust (-10)) c)
       else if \<not> Checkpoints_CheckBlock (k_testnet k) (k_checkpoints k) height hash then Some (judge (Trust (-100)) c)
       else do {
         (ret, c) \<leftarrow> add b c;
         Some (judge (if ret then Accepted else Error) c) } } }"

definition SHC_MAX_DRIFT_TIME :: int where "SHC_MAX_DRIFT_TIME = 1440"
definition EMC2_MAX_DRIFT_TIME :: int where "EMC2_MAX_DRIFT_TIME = 900"
definition TEST_MAX_DRIFT_TIME :: int where "TEST_MAX_DRIFT_TIME = 1440"

definition shc_AcceptBlock :: "'s coin \<Rightarrow> CBlock \<Rightarrow> 's chain \<Rightarrow> (bool \<times> 's chain) option" where
  "shc_AcceptBlock k b c =
     (case blockIndex c (blk_hashPrevBlock b) of
        None \<Rightarrow> Some (judge Error c)
      | Some prev \<Rightarrow>
          if GetBlockTime b > b_now (k_env k) + SHC_MAX_DRIFT_TIME then Some (judge Error c)
          else if GetBlockTime b \<le> block_time prev - SHC_MAX_DRIFT_TIME then Some (judge Error c)
          else if blk_vtx b \<noteq> [] \<and> \<not> k_matrix_ok k (blk_vtx b ! 0) (cdb c) then Some (judge Error c)
          else core_AcceptBlock (shc_GetNextWorkRequired (b_lib (k_env k)) (k_horizon k)) (shc_AddToBlockIndex k)
                 k b (blk_hashPrevBlock b) c)"

definition usde_AcceptBlock :: "'s coin \<Rightarrow> CBlock \<Rightarrow> 's chain \<Rightarrow> (bool \<times> 's chain) option" where
  "usde_AcceptBlock k b c =
     (case blockIndex c (blk_hashPrevBlock b) of
        None \<Rightarrow> Some (judge Error c)
      | Some prev \<Rightarrow>
          if GetBlockTime b \<le> GetMedianTimePast (blockIndex c) (blk_hashPrevBlock b) then Some (judge Error c)
          else core_AcceptBlock (usde_GetNextWorkRequired (b_lib (k_env k)) (k_horizon k) (k_testnet k) (blk_nTime b))
                 (usde_AddToBlockIndex k) k b (blk_hashPrevBlock b) c)"

definition emc2_AcceptBlock :: "'s coin \<Rightarrow> CBlock \<Rightarrow> 's chain \<Rightarrow> (bool \<times> 's chain) option" where
  "emc2_AcceptBlock k b c =
     (case blockIndex c (blk_hashPrevBlock b) of
        None \<Rightarrow> Some (judge Error c)
      | Some prev \<Rightarrow>
          if GetBlockTime b > b_now (k_env k) + EMC2_MAX_DRIFT_TIME then Some (judge Error c)
          else if GetBlockTime b \<le> block_time prev - EMC2_MAX_DRIFT_TIME then Some (judge Error c)
          else core_AcceptBlock (emc2_GetNextWorkRequired (b_lib (k_env k)) (k_horizon k)) (emc2_AddToBlockIndex k)
                 k b (blk_hashPrevBlock b) c)"

definition test_AcceptBlock :: "'s coin \<Rightarrow> CBlock \<Rightarrow> 's chain \<Rightarrow> (bool \<times> 's chain) option" where
  "test_AcceptBlock k b c =
     (case blockIndex c (blk_hashPrevBlock b) of
        None \<Rightarrow> Some (judge Error c)
      | Some prev \<Rightarrow>
          if GetBlockTime b > b_now (k_env k) + TEST_MAX_DRIFT_TIME then Some (judge Error c)
          else if GetBlockTime b \<le> block_time prev - TEST_MAX_DRIFT_TIME then Some (judge Error c)
          else if blk_vtx b \<noteq> [] \<and> \<not> k_matrix_ok k (blk_vtx b ! 0) (cdb c) then Some (judge Error c)
          else core_AcceptBlock (\<lambda>T p. Some (test_GetNextWorkRequired (b_lib (k_env k)))) (test_AddToBlockIndex k)
                 k b (blk_hashPrevBlock b) c)"

section \<open>The least work after a checkpoint\<close>

text \<open>The loop of \<open>ComputeMinWork\<close>; \<open>step\<close>, the seconds of a round, is positive.\<close>

function min_work_loop :: "int \<Rightarrow> (int \<Rightarrow> int) \<Rightarrow> int \<Rightarrow> int \<Rightarrow> int \<Rightarrow> int" where
  "min_work_loop limit grow step bnResult time =
     (if time > 0 \<and> bnResult < limit \<and> 0 < step then min_work_loop limit grow step (grow bnResult) (time - step) else bnResult)"
  by pat_completeness auto
termination by (relation "measure (\<lambda>(limit, grow, step, bnResult, time). nat time)") auto

declare min_work_loop.simps [simp del]

definition compute_min_work :: "int \<Rightarrow> (int \<Rightarrow> int) \<Rightarrow> int \<Rightarrow> bnlib \<Rightarrow> u32 \<Rightarrow> int \<Rightarrow> u32" where
  "compute_min_work limit grow step lib nBase time =
     (let bnResult = min_work_loop limit grow step (target lib nBase) time
      in GetCompact lib (if bnResult > limit then limit else bnResult))"

definition shc_ComputeMinWork :: "bnlib \<Rightarrow> u32 \<Rightarrow> int \<Rightarrow> u32" where
  "shc_ComputeMinWork = compute_min_work SHC_bnProofOfWorkLimit (\<lambda>bn. bn * 75 sdiv 55) (2 * 60 * 60 * 4)"

definition usde_ComputeMinWork :: "int \<Rightarrow> bnlib \<Rightarrow> u32 \<Rightarrow> int \<Rightarrow> u32" where
  "usde_ComputeMinWork nTargetTimespan =
     compute_min_work USDE_bnProofOfWorkLimit (\<lambda>bn. bn * 75 sdiv 55) (nTargetTimespan * 4)"

definition emc2_ComputeMinWork :: "int \<Rightarrow> bnlib \<Rightarrow> u32 \<Rightarrow> int \<Rightarrow> u32" where
  "emc2_ComputeMinWork bestHeight =
     (if bestHeight + 1 < 56000 then compute_min_work emc2_bnProofOfWorkLimit (\<lambda>bn. bn * 4) (302400 * 4)
      else compute_min_work emc2_bnProofOfWorkLimit (\<lambda>bn. bn * 110 sdiv 100) (60 * 4))"

definition test_ComputeMinWork :: "int \<Rightarrow> bnlib \<Rightarrow> u32 \<Rightarrow> int \<Rightarrow> u32" where
  "test_ComputeMinWork nTargetTimespan =
     compute_min_work TEST_bnProofOfWorkLimit (\<lambda>bn. bn * 75 sdiv 55) (nTargetTimespan * 4)"

section \<open>Orphans\<close>

record 's bnode =
  nd_chain :: "'s chain"
  mapOrphanBlocks :: "u256 \<rightharpoonup> CBlock"
  mapOrphanBlocksByPrev :: "(u256 \<times> CBlock) list"
  requests :: "(u256 option \<times> u256) list"
  net_invalid :: bool

text \<open>\<open>GetOrphanRoot\<close>: a cycle of orphans would make it run forever.\<close>

partial_function (option) GetOrphanRoot :: "senv \<Rightarrow> (u256 \<rightharpoonup> CBlock) \<Rightarrow> CBlock \<Rightarrow> u256 option" where
  "GetOrphanRoot E M b =
     (case M (blk_hashPrevBlock b) of None \<Rightarrow> Some (block_GetHash E b) | Some b' \<Rightarrow> GetOrphanRoot E M b')"

definition keep_orphan :: "'s coin \<Rightarrow> CBlock \<Rightarrow> 's bnode \<Rightarrow> 's bnode" where
  "keep_orphan k b n = n\<lparr>mapOrphanBlocks := (mapOrphanBlocks n)(bhash k b \<mapsto> b),
     mapOrphanBlocksByPrev := mapOrphanBlocksByPrev n @ [(blk_hashPrevBlock b, b)]\<rparr>"

definition PushGetBlocks :: "'s coin \<Rightarrow> CBlock \<Rightarrow> 's bnode \<Rightarrow> 's bnode option" where
  "PushGetBlocks k b n = do {
     root \<leftarrow> GetOrphanRoot (b_hash (k_env k)) (mapOrphanBlocks n) b;
     Some (n\<lparr>requests := requests n @ [(GetBestBlockIndex (nd_chain n), root)]\<rparr>) }"

text \<open>
  The orphans of one parent, in the order in which they came; then the queue of the blocks that
  were accepted.
\<close>

fun try_orphans :: "(CBlock \<Rightarrow> 's chain \<Rightarrow> (bool \<times> 's chain) option) \<Rightarrow> (CBlock \<Rightarrow> u256) \<Rightarrow> CBlock list \<Rightarrow>
    u256 list \<Rightarrow> (u256 \<rightharpoonup> CBlock) \<Rightarrow> 's chain \<Rightarrow> (u256 list \<times> (u256 \<rightharpoonup> CBlock) \<times> 's chain) option" where
  "try_orphans accept hash [] queue M c = Some (queue, M, c)"
| "try_orphans accept hash (b # bs) queue M c = do {
     (ok, c) \<leftarrow> accept b c;
     try_orphans accept hash bs (if ok then queue @ [hash b] else queue) (M(hash b := None)) c }"

lemma try_orphans_length:
  "try_orphans accept hash bs queue M c = Some (queue', M', c') \<Longrightarrow> length queue' \<le> length queue + length bs"
proof (induction bs arbitrary: queue M c)
  case (Cons b bs)
  then obtain ok c1 where "accept b c = Some (ok, c1)"
    "try_orphans accept hash bs (if ok then queue @ [hash b] else queue) (M(hash b := None)) c1 = Some (queue', M', c')"
    by (auto split: bind_splits)
  from Cons.IH [OF this(2)] show ?case by (auto split: if_splits)
qed simp

function work_queue :: "(CBlock \<Rightarrow> 's chain \<Rightarrow> (bool \<times> 's chain) option) \<Rightarrow> (CBlock \<Rightarrow> u256) \<Rightarrow> u256 list \<Rightarrow>
    (u256 \<rightharpoonup> CBlock) \<Rightarrow> (u256 \<times> CBlock) list \<Rightarrow> 's chain \<Rightarrow> ((u256 \<rightharpoonup> CBlock) \<times> (u256 \<times> CBlock) list \<times> 's chain) option" where
  "work_queue accept hash [] M P c = Some (M, P, c)"
| "work_queue accept hash (h # queue) M P c =
     (case try_orphans accept hash (map snd (filter (\<lambda>e. fst e = h) P)) [] M c of
        None \<Rightarrow> None
      | Some (queue', M, c) \<Rightarrow> work_queue accept hash (queue @ queue') M (filter (\<lambda>e. fst e \<noteq> h) P) c)"
  by pat_completeness auto
termination
proof (relation "measure (\<lambda>(accept, hash, queue, M, P, c). length queue + length P)", goal_cases)
  case (2 accept hash h queue M P c r queue' s M' c')
  then have "length queue' \<le> length (filter (\<lambda>e. fst e = h) P)" using try_orphans_length by fastforce
  with sum_length_filter_compl [of "\<lambda>e. fst e = h" P] show ?case by simp
qed simp

definition accept_all :: "('s coin \<Rightarrow> CBlock \<Rightarrow> 's chain \<Rightarrow> (bool \<times> 's chain) option) \<Rightarrow> 's coin \<Rightarrow> CBlock \<Rightarrow> 's bnode \<Rightarrow>
    (bool \<times> 's bnode) option" where
  "accept_all accept k b n = do {
     (ok, c) \<leftarrow> accept k b (nd_chain n);
     if \<not> ok then Some (False, n\<lparr>nd_chain := c, net_invalid := True\<rparr>)
     else do {
       (M, P, c) \<leftarrow> work_queue (accept k) (bhash k) [bhash k b] (mapOrphanBlocks n) (mapOrphanBlocksByPrev n) c;
       Some (True, n\<lparr>nd_chain := c, mapOrphanBlocks := M, mapOrphanBlocksByPrev := P\<rparr>) } }"

section \<open>\<open>ProcessBlock\<close>\<close>

text \<open>
  The checks against a flood of worthless blocks, made when the block does not extend the best
  chain; \<open>min_work\<close> is \<open>ComputeMinWork\<close> of the coin.
\<close>

definition worth_keeping :: "(u32 \<Rightarrow> int \<Rightarrow> u32) \<Rightarrow> 's coin \<Rightarrow> CBlock \<Rightarrow> 's chain \<Rightarrow> bool option" where
  "worth_keeping min_work k b c =
     (case GetLastCheckpoint (k_testnet k) (k_checkpoints k) (blockIndex c) of
        None \<Rightarrow> Some True
      | Some p \<Rightarrow>
          if blk_hashPrevBlock b = besthash c then Some True
          else do {
            pcheckpoint \<leftarrow> blockIndex c p;
            let deltaTime = GetBlockTime b - block_time pcheckpoint;
            let lib = b_lib (k_env k);
            Some (\<not> deltaTime < 0 \<and> \<not> target lib (blk_nBits b) > target lib (min_work (nBits pcheckpoint) deltaTime)) })"

definition blame :: "bool \<Rightarrow> int \<Rightarrow> 's bnode \<Rightarrow> 's bnode" where
  "blame pfrom howmuch n =
     (if pfrom then n\<lparr>nd_chain := (nd_chain n)\<lparr>trusts := trusts (nd_chain n) @ [- howmuch]\<rparr>\<rparr> else n)"

abbreviation known :: "'s coin \<Rightarrow> CBlock \<Rightarrow> 's bnode \<Rightarrow> bool" where
  "known k b n \<equiv> blockIndex (nd_chain n) (bhash k b) \<noteq> None \<or> mapOrphanBlocks n (bhash k b) \<noteq> None"

text \<open>A known block leaves through \<^verbatim>\<open>return Debug(...)\<close>, whose value is the length of the message.\<close>

definition shc_ProcessBlock :: "'s coin \<Rightarrow> bool \<Rightarrow> CBlock \<Rightarrow> 's bnode \<Rightarrow> (bool \<times> 's bnode) option" where
  "shc_ProcessBlock k pfrom b n =
     (if known k b n then Some (True, n)
      else do {
        v \<leftarrow> shc_CheckBlock (k_env k) (blockIndex (nd_chain n)) b;
        let (ok, c) = judge v (nd_chain n);
        let n = n\<lparr>nd_chain := c\<rparr>;
        if \<not> ok then Some (False, n)
        else do {
          worth \<leftarrow> worth_keeping (shc_ComputeMinWork (b_lib (k_env k))) k b (nd_chain n);
          if \<not> worth then Some (False, blame pfrom 100 n)
          else if blk_hashPrevBlock b \<noteq> 0 \<and> blockIndex (nd_chain n) (blk_hashPrevBlock b) = None then
            (if pfrom then do {
               let n = keep_orphan k b n;
               n \<leftarrow> (if GetBestBlockIndex (nd_chain n) \<noteq> None then PushGetBlocks k b n else Some n);
               Some (True, n) }
             else Some (True, n))
          else if \<not> block_CheckTransactionInputs (b_hash (k_env k)) (k_known_tx k (cdb (nd_chain n))) (blk_vtx b)
          then Some (True, n)
          else accept_all shc_AcceptBlock k b n } })"

definition usde_ProcessBlock :: "'s coin \<Rightarrow> bool \<Rightarrow> CBlock \<Rightarrow> 's bnode \<Rightarrow> (bool \<times> 's bnode) option" where
  "usde_ProcessBlock k pfrom b n =
     (if known k b n then Some (True, n)
      else do {
        v \<leftarrow> usde_CheckBlock (k_env k) b;
        let (ok, c) = judge v (nd_chain n);
        let n = n\<lparr>nd_chain := c\<rparr>;
        if \<not> ok then Some (False, n)
        else do {
          worth \<leftarrow> worth_keeping (usde_ComputeMinWork (k_timespan k) (b_lib (k_env k))) k b (nd_chain n);
          if \<not> worth then Some (False, blame pfrom 100 n)
          else if blockIndex (nd_chain n) (blk_hashPrevBlock b) = None then do {
            let n = keep_orphan k b n;
            n \<leftarrow> (if pfrom \<and> GetBestBlockIndex (nd_chain n) \<noteq> None then PushGetBlocks k b n else Some n);
            Some (True, n) }
          else accept_all usde_AcceptBlock k b n } })"

text \<open>
  EMC2 gives a block that commits to witnesses but comes without the nonce an empty nonce, when
  witnesses are enabled after the best block.
\<close>

definition add_nonce :: "'s coin \<Rightarrow> CBlock \<Rightarrow> 's chain \<Rightarrow> CBlock option" where
  "add_nonce k b c =
     (if blk_vtx b \<noteq> [] \<and> wit_IsNull (wit (blk_vtx b ! 0)) then
        (case GetBestBlockIndex c of
           None \<Rightarrow> Some b
         | Some p \<Rightarrow> do {
             enabled \<leftarrow> witness_enabled (k_env k) (blockIndex c) (Some p);
             commitpos \<leftarrow> GetWitnessCommitmentIndex (blk_vtx b);
             if enabled \<and> -1 \<noteq> commitpos then do {
               vtx \<leftarrow> core_UpdateUncommittedBlockStructures enabled (blk_vtx b);
               Some (b\<lparr>blk_vtx := vtx\<rparr>) }
             else Some b })
      else Some b)"

definition emc2_ProcessBlock :: "'s coin \<Rightarrow> bool \<Rightarrow> CBlock \<Rightarrow> 's bnode \<Rightarrow> (bool \<times> 's bnode) option" where
  "emc2_ProcessBlock k pfrom b n =
     (if known k b n then Some (True, n)
      else do {
        b \<leftarrow> add_nonce k b (nd_chain n);
        v \<leftarrow> emc2_CheckBlock (k_env k) (blockIndex (nd_chain n)) b;
        let (ok, c) = judge v (nd_chain n);
        let n = n\<lparr>nd_chain := c\<rparr>;
        if \<not> ok then Some (False, n)
        else do {
          worth \<leftarrow> worth_keeping (emc2_ComputeMinWork (GetBestHeight (nd_chain n)) (b_lib (k_env k))) k b (nd_chain n);
          if \<not> worth then Some (False, blame pfrom 100 n)
          else if blk_hashPrevBlock b \<noteq> 0 \<and> blockIndex (nd_chain n) (blk_hashPrevBlock b) = None then
            (if pfrom then do { n \<leftarrow> PushGetBlocks k b (keep_orphan k b n); Some (True, n) } else Some (True, n))
          else accept_all emc2_AcceptBlock k b n } })"

definition test_ProcessBlock :: "'s coin \<Rightarrow> bool \<Rightarrow> CBlock \<Rightarrow> 's bnode \<Rightarrow> (bool \<times> 's bnode) option" where
  "test_ProcessBlock k pfrom b n =
     (if known k b n then Some (True, n)
      else do {
        v \<leftarrow> test_CheckBlock (k_env k) (blockIndex (nd_chain n)) b;
        let (ok, c) = judge v (nd_chain n);
        let n = n\<lparr>nd_chain := c\<rparr>;
        if \<not> ok then Some (False, n\<lparr>net_invalid := True\<rparr>)
        else do {
          worth \<leftarrow> worth_keeping (test_ComputeMinWork (k_timespan k) (b_lib (k_env k))) k b (nd_chain n);
          if \<not> worth then Some (False, blame pfrom 100 n)
          else if blk_hashPrevBlock b \<noteq> 0 \<and> blockIndex (nd_chain n) (blk_hashPrevBlock b) = None then do {
            let n = keep_orphan k b n;
            n \<leftarrow> (if pfrom then PushGetBlocks k b n else Some n);
            Some (True, n\<lparr>net_invalid := True\<rparr>) }
          else if \<not> block_CheckTransactionInputs (b_hash (k_env k)) (k_known_tx k (cdb (nd_chain n))) (blk_vtx b)
          then Some (True, n)
          else accept_all test_AcceptBlock k b n } })"

section \<open>The index keeps its shape\<close>

definition shape :: "CBlockIndex \<Rightarrow> u256 option \<times> u256 option \<times> int \<times> int" where
  "shape node = (pprev node, pskip node, nHeight node, bnChainWork node)"

definition same_tree :: "blkidx_t \<Rightarrow> blkidx_t \<Rightarrow> bool" where
  "same_tree T T' \<longleftrightarrow> (\<forall>p. map_option shape (T' p) = map_option shape (T p))"

lemma same_tree_refl [simp]: "same_tree T T"
  by (simp add: same_tree_def)

lemma same_tree_sym: "same_tree T T' \<Longrightarrow> same_tree T' T"
  by (simp add: same_tree_def)

lemma same_tree_trans: "same_tree T T1 \<Longrightarrow> same_tree T1 T2 \<Longrightarrow> same_tree T T2"
  by (simp add: same_tree_def)

lemma same_tree_None: "same_tree T T' \<Longrightarrow> T' p = None \<longleftrightarrow> T p = None"
  unfolding same_tree_def by (metis option.map_disc_iff)

lemma same_tree_dom: "same_tree T T' \<Longrightarrow> dom T' = dom T"
  by (rule set_eqI) (simp only: domIff same_tree_None)

lemma same_treeE:
  assumes "same_tree T T'" "T' p = Some node'"
  obtains node where "T p = Some node" "pprev node' = pprev node" "pskip node' = pskip node" "nHeight node' = nHeight node"
    "bnChainWork node' = bnChainWork node"
proof -
  have e: "map_option shape (T' p) = map_option shape (T p)" using assms(1) by (simp add: same_tree_def)
  obtain node where n: "T p = Some node" using same_tree_None [OF assms(1), of p] assms(2) by auto
  from e n assms(2) that show ?thesis by (simp add: shape_def)
qed

lemma same_tree_parent:
  assumes "same_tree T T'"
  shows "parent T' n p = parent T n p"
proof (induction n arbitrary: p)
  case (Suc n)
  show ?case
  proof (cases "T' p")
    case None
    then show ?thesis using same_tree_None [OF assms, of p] by simp
  next
    case (Some node')
    obtain node where "T p = Some node" "pprev node' = pprev node" by (rule same_treeE [OF assms Some])
    with Some Suc show ?thesis by (cases "pprev node") simp_all
  qed
qed simp

lemma same_tree_node_ok:
  assumes "same_tree T T'" "node_ok T node" "pprev node' = pprev node" "pskip node' = pskip node" "nHeight node' = nHeight node"
  shows "node_ok T' node'"
proof -
  have up: "\<exists>n'. T' q = Some n' \<and> nHeight n' = nHeight n" if q: "T q = Some n" for q n
    by (rule same_treeE [OF same_tree_sym [OF assms(1)] q]) auto
  show ?thesis
  proof (cases "pprev node")
    case None
    then show ?thesis using assms(2,3,5) by (simp add: node_ok_def)
  next
    case (Some q)
    then obtain prev where "T q = Some prev" "0 \<le> nHeight prev" "nHeight node = nHeight prev + 1"
      using assms(2) by (auto simp: node_ok_def)
    with up obtain prev' where "T' q = Some prev'" "0 \<le> nHeight prev'" "nHeight node = nHeight prev' + 1" by fastforce
    with Some assms(2-5) show ?thesis by (simp add: node_ok_def same_tree_parent [OF assms(1)])
  qed
qed

lemma same_tree_keeps:
  assumes "same_tree T T'"
  shows "tree_ok T \<Longrightarrow> tree_ok T'" "work_ok T \<Longrightarrow> work_ok T'" "anc T' p g \<longleftrightarrow> anc T p g"
proof -
  show "anc T' p g \<longleftrightarrow> anc T p g" by (simp add: anc_def same_tree_parent [OF assms])
  show "tree_ok T'" if t: "tree_ok T"
    unfolding tree_ok_def
  proof (intro allI impI)
    fix p node' assume p: "T' p = Some node'"
    obtain node where n: "T p = Some node" "pprev node' = pprev node" "pskip node' = pskip node" "nHeight node' = nHeight node"
      by (rule same_treeE [OF assms p])
    show "node_ok T' node'" by (rule same_tree_node_ok [OF assms tree_okD [OF t n(1)] n(2-4)])
  qed
  show "work_ok T'" if w: "work_ok T"
    unfolding work_ok_def
  proof (intro allI impI)
    fix p node' q assume p: "T' p = Some node'" "pprev node' = Some q"
    obtain node where "T p = Some node" "pprev node' = pprev node" "bnChainWork node' = bnChainWork node"
      by (rule same_treeE [OF assms p(1)])
    then obtain prev where q: "T q = Some prev" "bnChainWork prev \<le> bnChainWork node'"
      using w p(2) unfolding work_ok_def by metis
    obtain prev' where "T' q = Some prev'" "bnChainWork prev = bnChainWork prev'"
      by (rule same_treeE [OF same_tree_sym [OF assms] q(1)])
    with q(2) show "\<exists>prev. T' q = Some prev \<and> bnChainWork prev \<le> bnChainWork node'" by simp
  qed
qed

lemma same_tree_next:
  assumes "same_but_next T T'"
  shows "same_tree T T'"
proof -
  have e: "map_option (pnext_update (\<lambda>_. None)) (T' p) = map_option (pnext_update (\<lambda>_. None)) (T p)" for p
    using assms by (simp add: same_but_next_def)
  have "shape = shape \<circ> pnext_update (\<lambda>_. None)" by (simp add: shape_def fun_eq_iff)
  then have "map_option shape x = map_option shape (map_option (pnext_update (\<lambda>_. None)) x)" for x
    by (metis option.map_comp)
  then show ?thesis unfolding same_tree_def by (metis e)
qed

lemma same_tree_status: "T p = Some node \<Longrightarrow> same_tree T (T(p \<mapsto> node\<lparr>nStatus := s\<rparr>))"
  by (simp add: same_tree_def shape_def)

section \<open>The invariant of the chain\<close>

text \<open>
  The index is well-formed and a tree above one root, and the best block is in it with its work.
\<close>

definition chain_inv :: "'s chain \<Rightarrow> bool" where
  "chain_inv c \<longleftrightarrow> tree_ok (blockIndex c) \<and> work_ok (blockIndex c) \<and>
     (\<exists>g. \<forall>p\<in>dom (blockIndex c). anc (blockIndex c) p g) \<and>
     (\<exists>node. blockIndex c (besthash c) = Some node \<and> bnChainWork node = bestWork c)"

text \<open>What is needed of the coin: rule changes are voted on in periods of some length.\<close>

definition coin_ok :: "'s coin \<Rightarrow> bool" where
  "coin_ok k \<longleftrightarrow> 0 < sint (nMinerConfirmationWindow (b_params (k_env k)))"

lemma core_CommitBlock_total:
  assumes "tree_ok T" "T b = Some bnd" "T p = Some pn" "anc T b g" "anc T p g"
  obtains ok T' s' where "core_CommitBlock ops (Some b) blk prev p T s = Some (ok, T', s')" "same_tree T T'"
proof -
  obtain i j g' where br: "GetCommitBranches T (Some b) p = Some (Some (rev (path T p j), path T b i))"
    by (rule GetCommitBranches_spec [OF assms])
  have s: "same_tree T (link_next xs (unlink_next ys T))" for xs ys
    by (intro same_tree_next same_but_next_trans [OF unlink_next_same link_next_same])
  have "\<exists>ok T' s'. core_CommitBlock ops (Some b) blk prev p T s = Some (ok, T', s') \<and> same_tree T T'"
    by (auto simp: core_CommitBlock_def br commit_fail_def Let_def s split: option.split prod.split)
  with that show ?thesis by blast
qed

lemma chain_inv_tree:
  assumes "chain_inv c" "same_tree (blockIndex c) T" "bestWork c' = bestWork c" "besthash c' = besthash c" "blockIndex c' = T"
  shows "chain_inv c'"
proof -
  obtain node where n: "blockIndex c (besthash c) = Some node" "bnChainWork node = bestWork c"
    using assms(1) by (auto simp: chain_inv_def)
  obtain node' where "T (besthash c) = Some node'" "bnChainWork node = bnChainWork node'"
    by (rule same_treeE [OF same_tree_sym [OF assms(2)] n(1)])
  with assms n show ?thesis
    by (simp add: chain_inv_def same_tree_keeps same_tree_dom)
qed

lemma SetBestChain_ok:
  assumes "chain_inv c" "blockIndex c p = Some node"
  shows "\<exists>ok c'. SetBestChain k b p c = Some (ok, c') \<and> chain_inv c' \<and> same_tree (blockIndex c) (blockIndex c') \<and>
    trusts c' = trusts c \<and> (ok \<longrightarrow> besthash c' = p \<and> bestWork c' = bnChainWork node) \<and>
    (\<not> ok \<longrightarrow> besthash c' = besthash c \<and> bestWork c' = bestWork c)"
proof -
  obtain bnd g where inv: "tree_ok (blockIndex c)" "blockIndex c (besthash c) = Some bnd"
    "\<forall>q\<in>dom (blockIndex c). anc (blockIndex c) q g" using assms(1) by (auto simp: chain_inv_def)
  have best: "GetBestBlockIndex c = Some (besthash c)" by (simp add: GetBestBlockIndex_def inv(2))
  have a: "anc (blockIndex c) (besthash c) g" "anc (blockIndex c) p g" using inv(2,3) assms(2) by auto
  obtain ok T' s' where cm: "core_CommitBlock (k_commit k) (Some (besthash c)) b (blk_hashPrevBlock b) p (blockIndex c) (cdb c) =
      Some (ok, T', s')" and st: "same_tree (blockIndex c) T'"
    by (rule core_CommitBlock_total [OF inv(1,2) assms(2) a])
  obtain ok c1 where first: "(if pindexGenesis c = None \<and> bhash k b = k_genesis k then Some (True, c\<lparr>pindexGenesis := Some p\<rparr>)
        else do { (ret, T, s) \<leftarrow> core_CommitBlock (k_commit k) (GetBestBlockIndex c) b (blk_hashPrevBlock b) p
                            (blockIndex c) (cdb c);
          Some (ret, c\<lparr>blockIndex := T, cdb := s\<rparr>) }) = Some (ok, c1)"
    and c1: "same_tree (blockIndex c) (blockIndex c1)" "bestWork c1 = bestWork c" "besthash c1 = besthash c" "trusts c1 = trusts c"
    using st by (cases "pindexGenesis c = None \<and> bhash k b = k_genesis k") (auto simp: cm best)
  have i1: "chain_inv c1" by (rule chain_inv_tree [OF assms(1) c1(1-3) refl])
  obtain node1 where n1: "blockIndex c1 p = Some node1" "bnChainWork node = bnChainWork node1"
    by (rule same_treeE [OF same_tree_sym [OF c1(1)] assms(2)])
  let ?c = "c1\<lparr>cdb := k_new_best k p (cdb c1), besthash := p, bestWork := bnChainWork node1\<rparr>"
  have "chain_inv ?c" using i1 n1 by (simp add: chain_inv_def)
  moreover have "SetBestChain k b p c = (if \<not> ok then Some (False, c1) else Some (True, ?c))"
    by (simp add: SetBestChain_def first n1)
  ultimately show ?thesis using i1 c1 n1 by (cases ok) auto
qed

lemma witness_enabled_total:
  assumes "coin_ok k" "tree_ok T" "\<forall>p. b = Some p \<longrightarrow> p \<in> dom T"
  shows "\<exists>w. witness_enabled (k_env k) T b = Some w"
proof -
  let ?ck = "VersionBitsConditionChecker (b_params (k_env k)) DEPLOYMENT_SEGWIT"
  have p: "0 < Period ?ck" using assms(1) by (simp add: coin_ok_def VersionBitsConditionChecker_def)
  have c: "vb_cache_ok T ?ck Map.empty" by (simp add: vb_cache_ok_def)
  obtain s cache' where "GetStateFor T ?ck b Map.empty = Some (s, cache')"
    by (rule GetStateFor_spec [OF assms(2) p c assms(3)])
  then show ?thesis by (simp add: witness_enabled_def IsWitnessEnabled_def VersionBitsState_def)
qed

lemma anc_new:
  assumes "tree_ok T" "h \<notin> dom T" "pprev node = Some q" "q \<in> dom T"
  shows "p \<in> dom T \<Longrightarrow> anc (T(h \<mapsto> node)) p g \<longleftrightarrow> anc T p g" "anc T q g \<Longrightarrow> anc (T(h \<mapsto> node)) h g"
proof -
  note up = parent_update [OF assms(1) _ assms(2)]
  show "p \<in> dom T \<Longrightarrow> anc (T(h \<mapsto> node)) p g \<longleftrightarrow> anc T p g" by (simp add: anc_def up)
  assume "anc T q g"
  then obtain n where "parent T n q = Some g" by (auto simp: anc_def)
  then have "parent (T(h \<mapsto> node)) (Suc n) h = Some g" using assms(3) up [OF assms(4)] by simp
  then show "anc (T(h \<mapsto> node)) h g" unfolding anc_def by blast
qed

definition heaviest :: "'s chain \<Rightarrow> bool" where
  "heaviest c \<longleftrightarrow> (\<forall>p node. blockIndex c p = Some node \<longrightarrow> bnChainWork node \<le> bestWork c)"

lemma heaviest_tree:
  assumes "same_tree (blockIndex c) (blockIndex c')" "\<forall>p node. blockIndex c p = Some node \<longrightarrow> bnChainWork node \<le> bestWork c'"
  shows "heaviest c'"
  unfolding heaviest_def
proof (intro allI impI)
  fix p node assume p: "blockIndex c' p = Some node"
  obtain node0 where "blockIndex c p = Some node0" "bnChainWork node = bnChainWork node0" by (rule same_treeE [OF assms(1) p])
  with assms(2) show "bnChainWork node \<le> bestWork c'" by simp
qed

lemma chain_inv_link:
  assumes "chain_inv c" "blockIndex c (blk_hashPrevBlock b) = Some prev" "blockIndex c h = None"
  obtains node where "link_block f junk h b (blockIndex c) = Some (Inr ((blockIndex c)(h \<mapsto> node)))"
    "pprev node = Some (blk_hashPrevBlock b)" "chain_inv (c\<lparr>blockIndex := (blockIndex c)(h \<mapsto> node)\<rparr>)"
proof -
  let ?T = "blockIndex c" and ?q = "blk_hashPrevBlock b"
  have t: "tree_ok ?T" "work_ok ?T" using assms(1) by (auto simp: chain_inv_def)
  have ne: "?q \<noteq> h" using assms(2,3) by auto
  obtain node where n: "link_block f junk h b ?T = Some (Inr (?T(h \<mapsto> node)))" "node_ok ?T node"
    "pprev node = (if ?T ?q = None then None else Some ?q)"
    by (rule link_block_new [OF t(1) assms(3) ne])
  obtain r where r: "link_block f junk h b ?T = Some r" "tree_ok (case r of Inl _ \<Rightarrow> ?T | Inr T' \<Rightarrow> T')"
    "work_ok (case r of Inl _ \<Rightarrow> ?T | Inr T' \<Rightarrow> T')" by (rule link_block_ok [OF t ne])
  have t': "tree_ok (?T(h \<mapsto> node))" "work_ok (?T(h \<mapsto> node))" using r n(1) by auto
  have q: "?q \<in> dom ?T" "h \<notin> dom ?T" using assms(2,3) by auto
  have pp: "pprev node = Some ?q" using n(3) assms(2) by simp
  obtain g where "\<forall>p\<in>dom ?T. anc ?T p g" using assms(1) by (auto simp: chain_inv_def)
  then have "\<forall>p\<in>dom (?T(h \<mapsto> node)). anc (?T(h \<mapsto> node)) p g"
    using anc_new [OF t(1) q(2) pp q(1)] q(1) by (metis dom_fun_upd insert_iff option.distinct(1))
  moreover have "(?T(h \<mapsto> node)) (besthash c) = ?T (besthash c)" using assms(1,3) by (auto simp: chain_inv_def)
  ultimately have "chain_inv (c\<lparr>blockIndex := ?T(h \<mapsto> node)\<rparr>)"
    using t' assms(1) by (auto simp: chain_inv_def simp del: fun_upd_apply)
  with n(1) pp that show ?thesis by blast
qed

text \<open>A coin whose blocks can all be read, disconnected and connected.\<close>

definition commits :: "('blk, 's) commit_ops \<Rightarrow> bool" where
  "commits ops \<longleftrightarrow> (\<forall>s h. commit_read ops s h \<noteq> None) \<and> (\<forall>h b s. fst (op_disconnect ops h b s)) \<and> (\<forall>h b s. fst (op_connect ops h b s))"

lemma commit_load_total: "(\<And>p. read p \<noteq> None) \<Longrightarrow> \<exists>rs. commit_load read ps = Some rs"
proof (induction ps)
  case (Cons p ps)
  obtain b where b: "read p = Some b" using Cons.prems [of p] by blast
  obtain rs where "commit_load read ps = Some rs" using Cons by blast
  with b show ?case by simp
qed simp

lemma commit_each_total: "(\<And>h b s. fst (f h b s)) \<Longrightarrow> fst (commit_each f rs s)"
proof (induction f rs s rule: commit_each.induct)
  case (2 f p b rs s)
  obtain s1 where "f p b s = (True, s1)" using "2.prems" [of p b s] by (cases "f p b s") auto
  with 2 show ?case by simp
qed simp

lemma core_CommitBlock_commits:
  assumes "commits ops" "core_CommitBlock ops (Some b) blk prev p T s = Some (ok, T', s')"
    "GetCommitBranches T (Some b) p = Some (Some br)"
  shows ok
proof -
  obtain vC vD where br: "br = (vC, vD)" by (cases br)
  have rd: "\<And>s h. commit_read ops s h \<noteq> None" "\<And>s h. (if h = p then Some blk else commit_read ops s h) \<noteq> None"
    and dc: "\<And>h b s. fst (op_disconnect ops h b s)" "\<And>h b s. fst (op_connect ops h b s)"
    using assms(1) by (auto simp: commits_def)
  define s0 where "s0 = (if prev \<noteq> b then op_write_arch ops blk s else s)"
  obtain m1 where m1: "commit_load (commit_read ops s0) vD = Some m1" using commit_load_total [of "commit_read ops s0" vD, OF rd(1)] by blast
  obtain m2 where m2: "commit_load (\<lambda>h. if h = p then Some blk else commit_read ops s0 h) vC = Some m2"
    using commit_load_total [of "\<lambda>h. if h = p then Some blk else commit_read ops s0 h" vC, OF rd(2)] by blast
  obtain s1 where d: "commit_each (op_disconnect ops) (by_address ops m1) s0 = (True, s1)"
    using commit_each_total [of "op_disconnect ops", OF dc(1), of "by_address ops m1" s0] by (metis eq_fst_iff)
  obtain s2 where e: "commit_each (op_connect ops) (by_address ops m2) s1 = (True, s2)"
    using commit_each_total [of "op_connect ops", OF dc(2), of "by_address ops m2" s1] by (metis eq_fst_iff)
  have "core_CommitBlock ops (Some b) blk prev p T s = Some (True, link_next vC (unlink_next vD T),
      fold (\<lambda>(p, b). op_pool_commit ops b) (by_address ops m2)
        (fold (\<lambda>(p, b). op_pool_add ops b) (by_address ops m1) (op_write_best ops p s2)))"
    using assms(3) unfolding core_CommitBlock_def br by (simp only: bind.bind_lunit option.case prod.case Let_def
      s0_def [symmetric] m1 m2 d e not_True_eq_False if_False)
  with assms(2) show ?thesis by simp
qed

lemma SetBestChain_commits:
  assumes "chain_inv c" "blockIndex c p = Some node" "commits (k_commit k)" "SetBestChain k b p c = Some (ok, c')"
  shows ok
proof (cases "pindexGenesis c = None \<and> bhash k b = k_genesis k")
  case True
  then show ?thesis using assms(4) by (auto simp: SetBestChain_def split: bind_splits)
next
  case False
  obtain bnd g where inv: "tree_ok (blockIndex c)" "blockIndex c (besthash c) = Some bnd"
    "\<forall>q\<in>dom (blockIndex c). anc (blockIndex c) q g" using assms(1) by (auto simp: chain_inv_def)
  have a: "anc (blockIndex c) (besthash c) g" "anc (blockIndex c) p g" using inv(2,3) assms(2) by auto
  obtain i j g' where br: "GetCommitBranches (blockIndex c) (Some (besthash c)) p =
      Some (Some (rev (path (blockIndex c) p j), path (blockIndex c) (besthash c) i))"
    by (rule GetCommitBranches_spec [OF inv(1,2) assms(2) a])
  have best: "GetBestBlockIndex c = Some (besthash c)" by (simp add: GetBestBlockIndex_def inv(2))
  obtain ret T' s' where cm: "core_CommitBlock (k_commit k) (Some (besthash c)) b (blk_hashPrevBlock b) p (blockIndex c) (cdb c) =
      Some (ret, T', s')" by (rule core_CommitBlock_total [OF inv(1,2) assms(2) a])
  have ret using core_CommitBlock_commits [OF assms(3) cm br] by simp
  then show ?thesis using assms(4) False cm best by (auto simp: SetBestChain_def split: bind_splits)
qed

text \<open>Nothing fails: every commit succeeds and every block can be written.\<close>

definition reliable :: "'s coin \<Rightarrow> bool" where
  "reliable k \<longleftrightarrow> commits (k_commit k) \<and> (\<forall>b s. fst (k_write_arch k b s))"

lemma add_to_index_ok:
  assumes "chain_inv c" "coin_ok k" "blockIndex c (blk_hashPrevBlock b) = Some prev" "blockIndex c (bhash k b) = None"
  shows "\<exists>ok c'. add_to_index segwit k b c = Some (ok, c') \<and> chain_inv c' \<and> trusts c' = trusts c \<and>
    dom (blockIndex c') = insert (bhash k b) (dom (blockIndex c)) \<and>
    (ok \<or> commits (k_commit k) \<longrightarrow> heaviest c \<longrightarrow> heaviest c') \<and> (reliable k \<longrightarrow> ok)"
proof -
  let ?h = "bhash k b" and ?H = "CBlockHeader.truncate b"
  have pv: "blockIndex c (blk_hashPrevBlock ?H) = Some prev" using assms(3) by (simp add: CBlockHeader.truncate_def)
  obtain node where n: "link_block (BN_mpi2bn (b_lib (k_env k))) (k_junk k) ?h ?H (blockIndex c) =
      Some (Inr ((blockIndex c)(?h \<mapsto> node)))" "pprev node = Some (blk_hashPrevBlock ?H)"
    "chain_inv (c\<lparr>blockIndex := (blockIndex c)(?h \<mapsto> node)\<rparr>)"
    by (rule chain_inv_link [OF assms(1) pv assms(4)])
  define T where "T = (blockIndex c)(?h \<mapsto> node)"
  have T: "tree_ok T" "T ?h = Some node" using n(3) by (simp_all add: chain_inv_def T_def)
  have "\<forall>p. pprev node = Some p \<longrightarrow> p \<in> dom T" using n(2) pv by (auto simp: T_def)
  from witness_enabled_total [OF assms(2) T(1) this] obtain w where
    w: "(if segwit then witness_enabled (k_env k) T (pprev node) else Some False) = Some w" by (cases segwit) auto
  define T1 where "T1 = (if w then T(?h \<mapsto> node\<lparr>nStatus := nStatus node OR 128\<rparr>) else T)"
  have st: "same_tree T T1" using same_tree_status [of T ?h node, OF T(2)] by (simp add: T1_def)
  have dom: "dom T1 = insert ?h (dom (blockIndex c))" using same_tree_dom [OF st] by (simp add: T_def)
  let ?c = "c\<lparr>blockIndex := T1\<rparr>"
  have i1: "chain_inv ?c" by (rule chain_inv_tree [OF n(3)]) (use st in \<open>simp_all add: T_def\<close>)
  obtain node1 where n1: "T1 ?h = Some node1" "bnChainWork node = bnChainWork node1"
    by (rule same_treeE [OF same_tree_sym [OF st] T(2)])
  have run: "add_to_index segwit k b c = (if bnChainWork node > bestWork c then SetBestChain k b ?h ?c
      else let (ok, s) = k_write_arch k b (cdb c) in Some (ok, ?c\<lparr>cdb := s\<rparr>))"
    by (simp add: add_to_index_def n(1) T_def [symmetric] T(2) w T1_def Let_def)
  have old: "\<forall>p m. T1 p = Some m \<longrightarrow> bnChainWork m \<le> max (bestWork c) (bnChainWork node)" if hv: "heaviest c"
  proof (intro allI impI)
    fix p m assume p: "T1 p = Some m"
    obtain m0 where "T p = Some m0" "bnChainWork m = bnChainWork m0" by (rule same_treeE [OF st p])
    with hv show "bnChainWork m \<le> max (bestWork c) (bnChainWork node)" by (fastforce simp: T_def heaviest_def le_max_iff_disj split: if_splits)
  qed
  show ?thesis
  proof (cases "bnChainWork node > bestWork c")
    case True
    have p: "blockIndex ?c ?h = Some node1" by (simp add: n1)
    obtain ok c' where s: "SetBestChain k b ?h ?c = Some (ok, c')" "chain_inv c'" "same_tree T1 (blockIndex c')"
      "trusts c' = trusts c" "ok \<longrightarrow> bestWork c' = bnChainWork node1" using SetBestChain_ok [OF i1 p, of k b] by auto
    have ok: "ok" if "commits (k_commit k)" by (rule SetBestChain_commits [OF i1 p that s(1)])
    then have "ok \<or> commits (k_commit k) \<longrightarrow> heaviest c \<longrightarrow> heaviest c'"
      using heaviest_tree [of ?c c'] s(3,5) old True n1(2) by auto
    with s True same_tree_dom [OF s(3)] dom ok show ?thesis by (simp add: run reliable_def)
  next
    case False
    obtain ok s where a: "k_write_arch k b (cdb c) = (ok, s)" by (cases "k_write_arch k b (cdb c)")
    have "heaviest c \<longrightarrow> heaviest (?c\<lparr>cdb := s\<rparr>)" using old False by (auto simp: heaviest_def)
    moreover have "chain_inv (?c\<lparr>cdb := s\<rparr>)" using i1 by (simp add: chain_inv_def)
    moreover have "reliable k \<longrightarrow> ok" using a by (metis fst_conv reliable_def)
    ultimately show ?thesis using False dom by (simp add: run a)
  qed
qed

section \<open>Accepting a block\<close>

lemma kgw_loop_total:
  assumes "tree_ok T"
  shows "T p = Some node \<Longrightarrow> \<exists>s'. kgw_loop lib seconds horizon spacing least T n i p latest s = Some s'"
proof (induction n arbitrary: i p node latest s)
  case (Suc n)
  show ?case
  proof (cases "nHeight node > 0")
    case True
    then obtain q prev where "pprev node = Some q" "T q = Some prev" by (rule tree_ok_parent [OF assms Suc.prems])
    with Suc.IH [of q prev] Suc.prems True show ?thesis by (simp add: Let_def case_prod_beta del: split_paired_Ex)
  qed (use Suc.prems in \<open>auto simp del: split_paired_Ex\<close>)
qed auto

lemma well_total:
  assumes "tree_ok T" "T p = Some node"
  shows "\<exists>bits. KimotoGravityWell limit lib seconds horizon T (Some p) spacing least most = Some bits"
proof -
  obtain avg actual tgt where
    "kgw_loop lib seconds horizon spacing least T most 1 p (block_time node) (0, 0, 0) = Some (avg, actual, tgt)"
    using kgw_loop_total [OF assms] by (metis prod_cases3)
  then show ?thesis by (simp add: KimotoGravityWell_def assms(2))
qed

lemma next_work_total:
  assumes "tree_ok T" "T p = Some node"
  shows "\<exists>bits. shc_GetNextWorkRequired lib horizon T (Some p) = Some bits"
    "\<exists>bits. usde_GetNextWorkRequired lib horizon fTestNet time T (Some p) = Some bits"
    "\<exists>bits. emc2_GetNextWorkRequired lib horizon T (Some p) = Some bits"
proof -
  note well = well_total [OF assms] and h0 = tree_ok_height [OF assms]
  show "\<exists>bits. shc_GetNextWorkRequired lib horizon T (Some p) = Some bits"
    using well by (simp add: shc_GetNextWorkRequired_def assms(2))
  have "int (if nHeight node + 1 \<noteq> 1 then 1 else 0) \<le> nHeight node" using h0 by simp
  from go_back_ok [OF assms this] obtain q first where
    g: "go_back T (if nHeight node + 1 \<noteq> 1 then 1 else 0) p = Some q" "T q = Some first" by blast
  have "\<exists>bits. emc2_DigiShield lib T p = Some bits"
    using g unfolding emc2_DigiShield_def Let_def by (simp only: assms(2) bind.bind_lunit) simp
  then show "\<exists>bits. emc2_GetNextWorkRequired lib horizon T (Some p) = Some bits"
    using well by (simp add: emc2_GetNextWorkRequired_def assms(2))
  let ?h = "nHeight node + 1"
  define i where "i = (if ?h > 27000 then 120 else 1200 :: int)"
  have last: "\<exists>bits. last_regular T i limit (Suc (nat (nHeight node))) p = Some bits" for limit
    using last_regular_ok [OF assms, of "Suc (nat (nHeight node))" i limit] h0 by (auto simp del: last_regular.simps)
  show "\<exists>bits. usde_GetNextWorkRequired lib horizon fTestNet time T (Some p) = Some bits"
  proof (cases "?h > 91000")
    case True
    then show ?thesis using well by (simp add: usde_GetNextWorkRequired_def assms(2))
  next
    case False
    show ?thesis
    proof (cases "?h smod i = 0")
      case True
      have i: "0 < i" by (simp add: i_def)
      let ?b = "if ?h \<noteq> i then i else i - 1"
      have "?b \<le> nHeight node" using smod_0_multiple [OF True _ i] h0 i by auto
      then have "int (nat ?b) \<le> nHeight node" using i by auto
      from go_back_ok [OF assms this] obtain q first where "go_back T (nat ?b) p = Some q" "T q = Some first" by blast
      with True False show ?thesis
        by (simp only: usde_early [where T = T and p = p, OF assms(2) False i_def refl]) simp
    next
      case no: False
      with False last show ?thesis
        by (simp only: usde_early [where T = T and p = p, OF assms(2) False i_def refl]) (simp del: last_regular.simps)
    qed
  qed
qed

text \<open>
  What accepting a block promises to those that call it: it returns, keeps the invariant, adds at
  most the block to the index, does add it when it returns \<open>true\<close>, and, when no commit fails, leaves
  the best chain the one with the most work; when nothing fails at all, it adds nothing when it
  returns \<open>false\<close>.
\<close>

definition accepts :: "'s coin \<Rightarrow> CBlock \<Rightarrow> 's chain \<Rightarrow> (bool \<times> 's chain) option \<Rightarrow> bool" where
  "accepts k b c r \<longleftrightarrow> (\<exists>ok c'. r = Some (ok, c') \<and> chain_inv c' \<and>
     dom (blockIndex c) \<subseteq> dom (blockIndex c') \<and> dom (blockIndex c') \<subseteq> insert (bhash k b) (dom (blockIndex c)) \<and>
     (ok \<longrightarrow> bhash k b \<in> dom (blockIndex c')) \<and> (commits (k_commit k) \<longrightarrow> heaviest c \<longrightarrow> heaviest c') \<and>
     (reliable k \<longrightarrow> \<not> ok \<longrightarrow> dom (blockIndex c') = dom (blockIndex c)))"

lemma judge_keeps [simp]:
  "blockIndex (snd (judge v c)) = blockIndex c" "besthash (snd (judge v c)) = besthash c"
  "bestWork (snd (judge v c)) = bestWork c" "cdb (snd (judge v c)) = cdb c" "fst (judge v c) \<longleftrightarrow> v = Accepted"
  "chain_inv (snd (judge v c)) \<longleftrightarrow> chain_inv c" "heaviest (snd (judge v c)) \<longleftrightarrow> heaviest c"
  by (cases v; simp add: chain_inv_def heaviest_def)+

lemma accepts_judge:
  assumes "chain_inv c" "v \<noteq> Accepted"
  shows "accepts k b c (Some (judge v c))"
  using assms by (cases v) (auto simp: accepts_def chain_inv_def heaviest_def)

lemma core_AcceptBlock_ok:
  assumes "chain_inv c" "coin_ok k" "blockIndex c (blk_hashPrevBlock b) = Some prev"
    and "\<exists>bits. next_work (blockIndex c) (Some (blk_hashPrevBlock b)) = Some bits"
  shows "accepts k b c (core_AcceptBlock next_work (add_to_index segwit k) k b (blk_hashPrevBlock b) c)"
proof (cases "blockIndex c (bhash k b) = None")
  case False
  then show ?thesis using accepts_judge [OF assms(1), of Error] by (simp add: core_AcceptBlock_def)
next
  case True
  obtain bits where bits: "next_work (blockIndex c) (Some (blk_hashPrevBlock b)) = Some bits" using assms(4) by blast
  obtain ok c' where a: "add_to_index segwit k b c = Some (ok, c')" "chain_inv c'"
    "dom (blockIndex c') = insert (bhash k b) (dom (blockIndex c))"
    "ok \<or> commits (k_commit k) \<longrightarrow> heaviest c \<longrightarrow> heaviest c'" "reliable k \<longrightarrow> ok"
    using add_to_index_ok [OF assms(1-3) True] by blast
  have "accepts k b c (Some (judge (if ok then Accepted else Error) c'))"
    using a by (cases ok) (auto simp: accepts_def)
  moreover have "accepts k b c (Some (judge (Trust x) c))" for x by (rule accepts_judge [OF assms(1)]) simp
  ultimately show ?thesis
    unfolding core_AcceptBlock_def Let_def by (simp only: True assms(3) bits a(1) bind.bind_lunit prod.case) simp
qed

lemma coins_accept:
  assumes "chain_inv c" "coin_ok k"
  shows "accepts k b c (shc_AcceptBlock k b c)" "accepts k b c (usde_AcceptBlock k b c)"
    "accepts k b c (emc2_AcceptBlock k b c)" "accepts k b c (test_AcceptBlock k b c)"
proof -
  have t: "tree_ok (blockIndex c)" using assms(1) by (simp add: chain_inv_def)
  have e: "accepts k b c (Some (judge Error c))" by (rule accepts_judge [OF assms(1)]) simp
  let ?q = "blk_hashPrevBlock b" and ?lib = "b_lib (k_env k)"
  have "accepts k b c (shc_AcceptBlock k b c) \<and> accepts k b c (usde_AcceptBlock k b c) \<and>
      accepts k b c (emc2_AcceptBlock k b c) \<and> accepts k b c (test_AcceptBlock k b c)"
  proof (cases "blockIndex c ?q")
    case None
    then show ?thesis
      using e by (simp add: shc_AcceptBlock_def usde_AcceptBlock_def emc2_AcceptBlock_def test_AcceptBlock_def)
  next
    case (Some prev)
    note total = next_work_total [where T = "blockIndex c" and p = ?q and node = prev and lib = ?lib and horizon = "k_horizon k",
        OF t Some]
    note core = core_AcceptBlock_ok [where segwit = s and b = b and prev = prev for s, OF assms Some]
    have "accepts k b c (shc_AcceptBlock k b c)"
      using e core [of "shc_GetNextWorkRequired ?lib (k_horizon k)", OF total(1)] by (simp add: shc_AcceptBlock_def shc_AddToBlockIndex_def Some del: judge.simps)
    moreover have "accepts k b c (usde_AcceptBlock k b c)"
      using e core [of "usde_GetNextWorkRequired ?lib (k_horizon k) (k_testnet k) (blk_nTime b)", OF total(2)] by (simp add: usde_AcceptBlock_def usde_AddToBlockIndex_def Some del: judge.simps)
    moreover have "accepts k b c (emc2_AcceptBlock k b c)"
      using e core [of "emc2_GetNextWorkRequired ?lib (k_horizon k)", OF total(3)] by (simp add: emc2_AcceptBlock_def emc2_AddToBlockIndex_def Some del: judge.simps)
    moreover have "accepts k b c (test_AcceptBlock k b c)"
      using e core [of "\<lambda>T p. Some (test_GetNextWorkRequired ?lib)"]
      by (simp add: test_AcceptBlock_def test_AddToBlockIndex_def Some del: judge.simps)
    ultimately show ?thesis by blast
  qed
  then show "accepts k b c (shc_AcceptBlock k b c)" "accepts k b c (usde_AcceptBlock k b c)"
    "accepts k b c (emc2_AcceptBlock k b c)" "accepts k b c (test_AcceptBlock k b c)" by blast+
qed

section \<open>The orphans\<close>

text \<open>The two maps hold the same blocks, one under their hashes, the other under their parents.\<close>

definition orphans_ok :: "(CBlock \<Rightarrow> u256) \<Rightarrow> (u256 \<rightharpoonup> CBlock) \<Rightarrow> (u256 \<times> CBlock) list \<Rightarrow> bool" where
  "orphans_ok hash M P \<longleftrightarrow> M = map_of (map (\<lambda>e. (hash (snd e), snd e)) P) \<and> distinct (map (\<lambda>e. hash (snd e)) P) \<and>
     (\<forall>e\<in>set P. fst e = blk_hashPrevBlock (snd e))"

lemma orphans_ok_ran: "orphans_ok hash M P \<Longrightarrow> ran M = snd ` set P"
  by (simp add: orphans_ok_def ran_map_of_zip ran_distinct image_image comp_def)

lemma orphans_ok_dom: "orphans_ok hash M P \<Longrightarrow> dom M = (\<lambda>e. hash (snd e)) ` set P"
  by (auto simp: orphans_ok_def dom_map_of_conv_image_fst image_image)

lemma orphans_ok_add:
  assumes "orphans_ok hash M P" "M (hash b) = None"
  shows "orphans_ok hash (M(hash b \<mapsto> b)) (P @ [(blk_hashPrevBlock b, b)])"
proof -
  have n: "hash b \<notin> (\<lambda>e. hash (snd e)) ` set P" using assms(2) orphans_ok_dom [OF assms(1)] by auto
  then have "map_of (map (\<lambda>e. (hash (snd e), snd e)) (P @ [(blk_hashPrevBlock b, b)])) = M(hash b \<mapsto> b)"
    using assms by (auto simp: orphans_ok_def map_add_def fun_eq_iff split: option.split)
  with assms n show ?thesis by (auto simp: orphans_ok_def)
qed

lemma option_eq_SomeI: "(\<And>x. a = Some x \<longleftrightarrow> b = Some x) \<Longrightarrow> a = b"
  by (cases a; cases b) auto

lemma orphans_ok_filter:
  assumes "orphans_ok hash M P"
  shows "orphans_ok hash (M |` (- ((\<lambda>e. hash (snd e)) ` set (filter R P)))) (filter (\<lambda>e. \<not> R e) P)"
proof -
  let ?k = "\<lambda>e :: u256 \<times> CBlock. (hash (snd e), snd e)" and ?K = "(\<lambda>e. hash (snd e)) ` set (filter R P)"
  let ?Q = "filter (\<lambda>e. \<not> R e) P"
  have d: "distinct (map (\<lambda>e. hash (snd e)) P)" and M: "M = map_of (map ?k P)" using assms by (auto simp: orphans_ok_def)
  have dQ: "distinct (map (\<lambda>e. hash (snd e)) ?Q)" using d by (rule distinct_map_filter)
  have key: "map_of (map ?k Q) h = Some x \<longleftrightarrow> (\<exists>e\<in>set Q. hash (snd e) = h \<and> snd e = x)"
    if "distinct (map (\<lambda>e. hash (snd e)) Q)" for Q h x
    using map_of_eq_Some_iff [of "map ?k Q" h x] that by (auto simp: comp_def)
  have inj: "inj_on (\<lambda>e. hash (snd e)) (set P)" using d by (simp add: distinct_map)
  have "map_of (map ?k ?Q) h = Some x \<longleftrightarrow> (M |` (- ?K)) h = Some x" for h x
  proof -
    have "(M |` (- ?K)) h = Some x \<longleftrightarrow> h \<notin> ?K \<and> (\<exists>e\<in>set P. hash (snd e) = h \<and> snd e = x)"
      by (simp add: restrict_map_def M key [OF d])
    also have "\<dots> \<longleftrightarrow> (\<exists>e\<in>set P. \<not> R e \<and> hash (snd e) = h \<and> snd e = x)"
    proof (intro iffI)
      assume "\<exists>e\<in>set P. \<not> R e \<and> hash (snd e) = h \<and> snd e = x"
      then obtain e where e: "e \<in> set P" "\<not> R e" "hash (snd e) = h" "snd e = x" by blast
      have "h \<notin> ?K"
      proof
        assume "h \<in> ?K"
        then obtain e' where "e' \<in> set P" "R e'" "hash (snd e') = h" by auto
        with e inj_onD [OF inj, of e e'] show False by simp
      qed
      with e show "h \<notin> ?K \<and> (\<exists>e\<in>set P. hash (snd e) = h \<and> snd e = x)" by blast
    next
      assume "h \<notin> ?K \<and> (\<exists>e\<in>set P. hash (snd e) = h \<and> snd e = x)"
      then obtain e where "h \<notin> ?K" "e \<in> set P" "hash (snd e) = h" "snd e = x" by blast
      then show "\<exists>e\<in>set P. \<not> R e \<and> hash (snd e) = h \<and> snd e = x" by auto
    qed
    finally show ?thesis unfolding key [OF dQ] by auto
  qed
  then have "map_of (map ?k ?Q) = M |` (- ?K)" by (intro ext option_eq_SomeI)
  moreover have "\<forall>e\<in>set ?Q. fst e = blk_hashPrevBlock (snd e)" using assms by (simp add: orphans_ok_def)
  ultimately show ?thesis unfolding orphans_ok_def using dQ by (intro conjI) (simp_all only:)
qed

text \<open>
  Trying the orphans relies on this of \<open>AcceptBlock\<close>: \<open>sure\<close> says that no commit fails, \<open>writes\<close> that
  nothing fails.
\<close>

locale block_acceptor =
  fixes accept :: "CBlock \<Rightarrow> 's chain \<Rightarrow> (bool \<times> 's chain) option" and hash :: "CBlock \<Rightarrow> u256"
    and inv :: "'s chain \<Rightarrow> bool" and sure writes :: bool
  assumes accept_ok: "inv c \<Longrightarrow> \<exists>ok c'. accept b c = Some (ok, c') \<and> inv c' \<and>
     dom (blockIndex c) \<subseteq> dom (blockIndex c') \<and> dom (blockIndex c') \<subseteq> insert (hash b) (dom (blockIndex c)) \<and>
     (ok \<longrightarrow> hash b \<in> dom (blockIndex c')) \<and> (sure \<longrightarrow> heaviest c \<longrightarrow> heaviest c') \<and>
     (writes \<longrightarrow> \<not> ok \<longrightarrow> dom (blockIndex c') = dom (blockIndex c))"
begin

lemma try_orphans_ok:
  "inv c \<Longrightarrow> \<exists>queue' c'. try_orphans accept hash bs queue M c = Some (queue', M |` (- hash ` set bs), c') \<and> inv c' \<and>
     dom (blockIndex c) \<subseteq> dom (blockIndex c') \<and> dom (blockIndex c') \<subseteq> dom (blockIndex c) \<union> hash ` set bs \<and>
     (sure \<longrightarrow> heaviest c \<longrightarrow> heaviest c') \<and> set queue \<subseteq> set queue' \<and>
     (writes \<longrightarrow> dom (blockIndex c') \<subseteq> dom (blockIndex c) \<union> set queue')"
proof (induction bs arbitrary: queue M c)
  case Nil
  then show ?case by (simp add: restrict_map_def)
next
  case (Cons b bs)
  obtain ok c1 where a: "accept b c = Some (ok, c1)" "inv c1" "dom (blockIndex c) \<subseteq> dom (blockIndex c1)"
    "dom (blockIndex c1) \<subseteq> insert (hash b) (dom (blockIndex c))" "sure \<longrightarrow> heaviest c \<longrightarrow> heaviest c1"
    "writes \<longrightarrow> \<not> ok \<longrightarrow> dom (blockIndex c1) = dom (blockIndex c)"
    using accept_ok [OF Cons.prems, of b] by blast
  let ?q = "if ok then queue @ [hash b] else queue"
  obtain queue' c' where r: "try_orphans accept hash bs ?q (M(hash b := None)) c1 =
      Some (queue', (M(hash b := None)) |` (- hash ` set bs), c')" "inv c'" "dom (blockIndex c1) \<subseteq> dom (blockIndex c')"
    "dom (blockIndex c') \<subseteq> dom (blockIndex c1) \<union> hash ` set bs" "sure \<longrightarrow> heaviest c1 \<longrightarrow> heaviest c'"
    "set ?q \<subseteq> set queue'" "writes \<longrightarrow> dom (blockIndex c') \<subseteq> dom (blockIndex c1) \<union> set queue'"
    using Cons.IH [OF a(2), of ?q "M(hash b := None)"] by blast
  have m: "(M(hash b := None)) |` (- hash ` set bs) = M |` (- hash ` set (b # bs))"
    by (auto simp: restrict_map_def fun_eq_iff)
  have "dom (blockIndex c) \<subseteq> dom (blockIndex c')" using a(3) r(3) by blast
  moreover have "dom (blockIndex c') \<subseteq> dom (blockIndex c) \<union> hash ` set (b # bs)" using a(4) r(4) by (simp add: image_Un) blast
  moreover have "sure \<longrightarrow> heaviest c \<longrightarrow> heaviest c'" using a(5) r(5) by blast
  moreover have "set queue \<subseteq> set queue'" using r(6) by (cases ok) auto
  moreover have "writes \<longrightarrow> dom (blockIndex c') \<subseteq> dom (blockIndex c) \<union> set queue'"
  proof (cases ok)
    case True
    then have "hash b \<in> set queue'" using r(6) by simp
    with a(4) r(7) show ?thesis by blast
  qed (use a(6) r(7) in simp)
  moreover have "try_orphans accept hash (b # bs) queue M c = Some (queue', M |` (- hash ` set (b # bs)), c')"
    using a(1) r(1) m by simp
  ultimately show ?case using r(2) by blast
qed

text \<open>
  The queue ends; what is left of the orphans is still in both maps and not in the index.  When
  nothing fails and the queue names every block of the index that has orphans, in the end no orphan
  has a parent in the index.
\<close>

lemma work_queue_ok:
  "inv c \<Longrightarrow> orphans_ok hash M P \<Longrightarrow> dom M \<inter> dom (blockIndex c) = {} \<Longrightarrow>
   \<exists>M' P' c'. work_queue accept hash queue M P c = Some (M', P', c') \<and> inv c' \<and> orphans_ok hash M' P' \<and>
     dom M' \<inter> dom (blockIndex c') = {} \<and> set P' \<subseteq> set P \<and> dom (blockIndex c) \<subseteq> dom (blockIndex c') \<and>
     (sure \<longrightarrow> heaviest c \<longrightarrow> heaviest c') \<and>
     (writes \<longrightarrow> fst ` set P \<inter> dom (blockIndex c) \<subseteq> set queue \<longrightarrow> fst ` set P' \<inter> dom (blockIndex c') = {})"
proof (induction "length queue + length P" arbitrary: queue M P c rule: less_induct)
  case less
  show ?case
  proof (cases queue)
    case Nil
    with less.prems show ?thesis by simp
  next
    case (Cons h queue1)
    let ?bs = "map snd (filter (\<lambda>e. fst e = h) P)" and ?P = "filter (\<lambda>e. fst e \<noteq> h) P"
    obtain queue2 c1 where t: "try_orphans accept hash ?bs [] M c = Some (queue2, M |` (- hash ` set ?bs), c1)" "inv c1"
      "dom (blockIndex c) \<subseteq> dom (blockIndex c1)" "dom (blockIndex c1) \<subseteq> dom (blockIndex c) \<union> hash ` set ?bs"
      "sure \<longrightarrow> heaviest c \<longrightarrow> heaviest c1" "writes \<longrightarrow> dom (blockIndex c1) \<subseteq> dom (blockIndex c) \<union> set queue2"
      using try_orphans_ok [OF less.prems(1), of ?bs "[]" M] by blast
    let ?M = "M |` (- hash ` set ?bs)"
    have o: "orphans_ok hash ?M ?P"
      using orphans_ok_filter [OF less.prems(2), of "\<lambda>e. fst e = h"] by (simp add: image_image)
    have d: "dom ?M \<inter> dom (blockIndex c1) = {}" using t(4) less.prems(3) by (auto simp: dom_restrict)
    have "length queue2 \<le> length (filter (\<lambda>e. fst e = h) P)" using try_orphans_length [OF t(1)] by simp
    then have "length (queue1 @ queue2) + length ?P < length queue + length P"
      using sum_length_filter_compl [of "\<lambda>e. fst e = h" P] by (simp add: Cons)
    from less.hyps [OF this t(2) o d] obtain M' P' c' where
      r: "work_queue accept hash (queue1 @ queue2) ?M ?P c1 = Some (M', P', c')" "inv c'" "orphans_ok hash M' P'"
        "dom M' \<inter> dom (blockIndex c') = {}" "set P' \<subseteq> set ?P" "dom (blockIndex c1) \<subseteq> dom (blockIndex c')"
        "sure \<longrightarrow> heaviest c1 \<longrightarrow> heaviest c'"
        "writes \<longrightarrow> fst ` set ?P \<inter> dom (blockIndex c1) \<subseteq> set (queue1 @ queue2) \<longrightarrow> fst ` set P' \<inter> dom (blockIndex c') = {}"
      by (elim exE conjE) (rule that, assumption+)
    have "fst ` set ?P \<inter> dom (blockIndex c1) \<subseteq> set (queue1 @ queue2)"
      if "writes" "fst ` set P \<inter> dom (blockIndex c) \<subseteq> set queue"
    proof
      fix x assume "x \<in> fst ` set ?P \<inter> dom (blockIndex c1)"
      then have x: "x \<in> fst ` set P" "x \<noteq> h" "x \<in> dom (blockIndex c1)" by auto
      then have "x \<in> dom (blockIndex c) \<or> x \<in> set queue2" using t(6) that(1) by blast
      with x that(2) show "x \<in> set (queue1 @ queue2)" unfolding Cons by fastforce
    qed
    with r(8) have w: "writes \<longrightarrow> fst ` set P \<inter> dom (blockIndex c) \<subseteq> set queue \<longrightarrow> fst ` set P' \<inter> dom (blockIndex c') = {}"
      by (iprover)
    have "work_queue accept hash queue M P c = Some (M', P', c')" using r(1) by (simp add: Cons t(1))
    moreover have "set P' \<subseteq> set P" using r(5) by auto
    moreover have "dom (blockIndex c) \<subseteq> dom (blockIndex c')" using t(3) r(6) by blast
    moreover have "sure \<longrightarrow> heaviest c \<longrightarrow> heaviest c'" using t(5) r(7) by blast
    ultimately show ?thesis using r(2-4) w by (intro exI conjI)
  qed
qed

end

interpretation shc_acceptor: block_acceptor "shc_AcceptBlock k" "bhash k" "\<lambda>c. coin_ok k \<and> chain_inv c"
  "commits (k_commit k)" "reliable k" for k :: "'s coin"
  using coins_accept(1) by unfold_locales (auto simp: accepts_def)

interpretation usde_acceptor: block_acceptor "usde_AcceptBlock k" "bhash k" "\<lambda>c. coin_ok k \<and> chain_inv c"
  "commits (k_commit k)" "reliable k" for k :: "'s coin"
  using coins_accept(2) by unfold_locales (auto simp: accepts_def)

interpretation emc2_acceptor: block_acceptor "emc2_AcceptBlock k" "bhash k" "\<lambda>c. coin_ok k \<and> chain_inv c"
  "commits (k_commit k)" "reliable k" for k :: "'s coin"
  using coins_accept(3) by unfold_locales (auto simp: accepts_def)

interpretation test_acceptor: block_acceptor "test_AcceptBlock k" "bhash k" "\<lambda>c. coin_ok k \<and> chain_inv c"
  "commits (k_commit k)" "reliable k" for k :: "'s coin"
  using coins_accept(4) by unfold_locales (auto simp: accepts_def)

end
