(* ===== verification/Block_Process.thy ===== *)
theory Block_Process
  imports Block_Accept
begin

text \<open>
  \<open>ProcessBlock\<close> over time: what holds of the index, the best chain and the orphans after any
  sequence of blocks, from peers or from the own miner, in any order.
\<close>

section \<open>The invariant of the node\<close>

text \<open>
  The index is a tree with the best block in it, the two maps of orphans agree, no orphan is in the
  index, and no chain of orphans leads back to itself: \<open>rank\<close> orders hashes, the hash of a block
  after that of its parent.
\<close>

definition bnode_ok :: "(u256 \<Rightarrow> nat) \<Rightarrow> 's coin \<Rightarrow> 's bnode \<Rightarrow> bool" where
  "bnode_ok rank k n \<longleftrightarrow> chain_inv (nd_chain n) \<and> orphans_ok (bhash k) (mapOrphanBlocks n) (mapOrphanBlocksByPrev n) \<and>
     dom (mapOrphanBlocks n) \<inter> dom (blockIndex (nd_chain n)) = {} \<and>
     (\<forall>b\<in>ran (mapOrphanBlocks n). rank (blk_hashPrevBlock b) < rank (bhash k b))"

text \<open>Every orphan waits for a block that is not in the index.\<close>

definition waiting :: "'s bnode \<Rightarrow> bool" where
  "waiting n \<longleftrightarrow> (\<forall>e\<in>set (mapOrphanBlocksByPrev n). blockIndex (nd_chain n) (fst e) = None)"

definition handled :: "(u256 \<Rightarrow> nat) \<Rightarrow> 's coin \<Rightarrow> 's bnode \<Rightarrow> 's bnode \<Rightarrow> bool" where
  "handled rank k n n' \<longleftrightarrow> bnode_ok rank k n' \<and> dom (blockIndex (nd_chain n)) \<subseteq> dom (blockIndex (nd_chain n')) \<and>
     (commits (k_commit k) \<longrightarrow> heaviest (nd_chain n) \<longrightarrow> heaviest (nd_chain n')) \<and>
     (reliable k \<longrightarrow> waiting n \<longrightarrow> waiting n')"

definition handles :: "(u256 \<Rightarrow> nat) \<Rightarrow> 's coin \<Rightarrow> 's bnode \<Rightarrow> (bool \<times> 's bnode) option \<Rightarrow> bool" where
  "handles rank k n r \<longleftrightarrow> (\<exists>ok n'. r = Some (ok, n') \<and> handled rank k n n')"

lemma handled_refl: "bnode_ok rank k n \<Longrightarrow> handled rank k n n"
  by (simp add: handled_def)

lemma handled_trans [trans]:
  assumes "handled rank k n m" "handled rank k m n'"
  shows "handled rank k n n'"
proof -
  note a = assms(1) [unfolded handled_def] and b = assms(2) [unfolded handled_def]
  have "dom (blockIndex (nd_chain n)) \<subseteq> dom (blockIndex (nd_chain n'))"
    by (rule subset_trans [OF conjunct1 [OF conjunct2 [OF a]] conjunct1 [OF conjunct2 [OF b]]])
  then show ?thesis using a b unfolding handled_def by (simp del: subset_iff)
qed

lemma handles_trans: "handled rank k n m \<Longrightarrow> handles rank k m r \<Longrightarrow> handles rank k n r"
  using handled_trans [of rank k n m] by (auto simp: handles_def)

lemma handles_Some [simp]: "handles rank k n (Some (ok, n')) \<longleftrightarrow> handled rank k n n'"
  by (simp add: handles_def)

text \<open>Blame, requests and the notice of an invalid block touch nothing of it.\<close>

lemma handled_frame:
  assumes "bnode_ok rank k n" "mapOrphanBlocks n' = mapOrphanBlocks n" "mapOrphanBlocksByPrev n' = mapOrphanBlocksByPrev n"
    and "blockIndex (nd_chain n') = blockIndex (nd_chain n)" "besthash (nd_chain n') = besthash (nd_chain n)"
      "bestWork (nd_chain n') = bestWork (nd_chain n)"
  shows "handled rank k n n'"
  using assms by (simp add: handled_def bnode_ok_def chain_inv_def heaviest_def waiting_def)

lemma handled_judge: "bnode_ok rank k n \<Longrightarrow> handled rank k n (n\<lparr>nd_chain := snd (judge v (nd_chain n))\<rparr>)"
  by (rule handled_frame) simp_all

lemma handled_blame: "bnode_ok rank k n \<Longrightarrow> handled rank k n (blame pfrom d n)"
  by (rule handled_frame) (simp_all add: blame_def)

lemma handled_invalid: "handled rank k n m \<Longrightarrow> handled rank k n (m\<lparr>net_invalid := f\<rparr>)"
  by (rule handled_trans, assumption) (rule handled_frame, simp_all add: handled_def)

section \<open>Orphans are kept and found again\<close>

lemma orphans_ok_hash: "orphans_ok hash M P \<Longrightarrow> M h = Some b \<Longrightarrow> hash b = h"
  by (auto simp: orphans_ok_def dest: map_of_SomeD)

lemma handled_orphan:
  assumes "bnode_ok rank k n" "\<not> known k b n" "blockIndex (nd_chain n) (blk_hashPrevBlock b) = None"
    "rank (blk_hashPrevBlock b) < rank (bhash k b)"
  shows "handled rank k n (keep_orphan k b n)"
proof -
  let ?M = "mapOrphanBlocks n" and ?P = "mapOrphanBlocksByPrev n"
  have o: "orphans_ok (bhash k) ?M ?P" and no: "?M (bhash k b) = None" using assms(1,2) by (auto simp: bnode_ok_def)
  have "ran (?M(bhash k b \<mapsto> b)) = insert b (ran ?M)" using no by (simp add: ran_map_upd)
  moreover have "orphans_ok (bhash k) (?M(bhash k b \<mapsto> b)) (?P @ [(blk_hashPrevBlock b, b)])" by (rule orphans_ok_add [OF o no])
  ultimately show ?thesis
    using assms by (auto simp: handled_def bnode_ok_def keep_orphan_def waiting_def)
qed

text \<open>\<open>GetOrphanRoot\<close> ends, since the ranks of the parents decrease.\<close>

lemma GetOrphanRoot_total:
  fixes rank :: "u256 \<Rightarrow> nat"
  assumes "orphans_ok (block_GetHash E) M P" "\<forall>b\<in>ran M. rank (blk_hashPrevBlock b) < rank (block_GetHash E b)"
  shows "\<exists>h. GetOrphanRoot E M b = Some h"
proof (induction "rank (blk_hashPrevBlock b)" arbitrary: b rule: less_induct)
  case less
  show ?case
  proof (cases "M (blk_hashPrevBlock b)")
    case None
    then show ?thesis by (subst GetOrphanRoot.simps) simp
  next
    case (Some b')
    then have "rank (blk_hashPrevBlock b') < rank (blk_hashPrevBlock b)"
      using assms(2) orphans_ok_hash [OF assms(1) Some] by (auto simp: ran_def)
    from less [OF this] Some show ?thesis by (subst GetOrphanRoot.simps) simp
  qed
qed

lemma PushGetBlocks_ok:
  assumes "bnode_ok rank k n"
  shows "\<exists>n'. PushGetBlocks k b n = Some n' \<and> handled rank k n n'"
proof -
  obtain h where "GetOrphanRoot (b_hash (k_env k)) (mapOrphanBlocks n) b = Some h"
    using GetOrphanRoot_total [of "b_hash (k_env k)" "mapOrphanBlocks n" "mapOrphanBlocksByPrev n" rank b] assms
    by (auto simp: bnode_ok_def)
  then show ?thesis using handled_frame [OF assms] by (simp add: PushGetBlocks_def)
qed

lemma waiting_iff: "waiting n \<longleftrightarrow> fst ` set (mapOrphanBlocksByPrev n) \<inter> dom (blockIndex (nd_chain n)) = {}"
  by (auto simp: waiting_def disjoint_iff domIff)

lemma accept_all_ok:
  assumes acc: "block_acceptor (accept k) (bhash k) (\<lambda>c. coin_ok k \<and> chain_inv c) (commits (k_commit k)) (reliable k)"
    and "coin_ok k" "bnode_ok rank k n" "\<not> known k b n"
  shows "handles rank k n (accept_all accept k b n)"
proof -
  let ?M = "mapOrphanBlocks n" and ?P = "mapOrphanBlocksByPrev n" and ?c = "nd_chain n"
  have i: "coin_ok k \<and> chain_inv ?c" and o: "orphans_ok (bhash k) ?M ?P" and d: "dom ?M \<inter> dom (blockIndex ?c) = {}"
    and rk: "\<forall>b\<in>ran ?M. rank (blk_hashPrevBlock b) < rank (bhash k b)" using assms(2,3) by (simp_all add: bnode_ok_def)
  from block_acceptor.accept_ok [OF acc i, of b] obtain ok c where a: "accept k b ?c = Some (ok, c)" "coin_ok k \<and> chain_inv c"
    "dom (blockIndex ?c) \<subseteq> dom (blockIndex c)" "dom (blockIndex c) \<subseteq> insert (bhash k b) (dom (blockIndex ?c))"
    "commits (k_commit k) \<longrightarrow> heaviest ?c \<longrightarrow> heaviest c"
    "reliable k \<longrightarrow> \<not> ok \<longrightarrow> dom (blockIndex c) = dom (blockIndex ?c)" by (elim exE conjE) (rule that, assumption, rule conjI, assumption+)
  have d1: "dom ?M \<inter> dom (blockIndex c) = {}" using d a(4) assms(4) by blast
  show ?thesis
  proof (cases ok)
    case False
    then show ?thesis
      using a d1 o rk by (simp add: accept_all_def handled_def bnode_ok_def waiting_iff)
  next
    case True
    from block_acceptor.work_queue_ok [OF acc a(2) o d1, of "[bhash k b]"] obtain M P c' where
      q: "work_queue (accept k) (bhash k) [bhash k b] ?M ?P c = Some (M, P, c')" "coin_ok k \<and> chain_inv c'"
        "orphans_ok (bhash k) M P" "dom M \<inter> dom (blockIndex c') = {}" "set P \<subseteq> set ?P"
        "dom (blockIndex c) \<subseteq> dom (blockIndex c')" "commits (k_commit k) \<longrightarrow> heaviest c \<longrightarrow> heaviest c'"
        "reliable k \<longrightarrow> fst ` set ?P \<inter> dom (blockIndex c) \<subseteq> set [bhash k b] \<longrightarrow> fst ` set P \<inter> dom (blockIndex c') = {}"
      by (elim exE conjE) (rule that, assumption, rule conjI, assumption+)
    have "ran M \<subseteq> ran ?M" using orphans_ok_ran [OF q(3)] orphans_ok_ran [OF o] q(5) by blast
    then have rk': "\<forall>b\<in>ran M. rank (blk_hashPrevBlock b) < rank (bhash k b)" using rk by blast
    have "fst ` set ?P \<inter> dom (blockIndex c) \<subseteq> set [bhash k b]" if "waiting n"
      using that a(4) unfolding waiting_iff list.set by blast
    then have w: "reliable k \<longrightarrow> waiting n \<longrightarrow> fst ` set P \<inter> dom (blockIndex c') = {}" using q(8) by iprover
    have "dom (blockIndex ?c) \<subseteq> dom (blockIndex c')" by (rule subset_trans [OF a(3) q(6)])
    with q(2-4,7) rk' w a(5) show ?thesis
      by (simp add: accept_all_def a(1) True q(1) handled_def bnode_ok_def waiting_iff del: work_queue.simps)
  qed
qed

section \<open>Every check comes to an end\<close>

lemma check_witness_total:
  assumes "coin_ok k" "tree_ok T" "blk_vtx b \<noteq> []" "length (blk_vtx b) \<le> 2 ^ 31"
  shows "\<exists>v. check_witness (k_env k) T b = Some v"
proof (cases "T (blk_hashPrevBlock b)")
  case (Some prev)
  then obtain w where w: "witness_enabled (k_env k) T (Some (blk_hashPrevBlock b)) = Some w"
    using witness_enabled_total [OF assms(1,2), of "Some (blk_hashPrevBlock b)"] by auto
  have "\<exists>ok. core_CheckBlockWitness (b_hash (k_env k)) w (blk_vtx b) = Some ok"
    by (simp add: core_CheckBlockWitness_def GetWitnessCommitmentIndex_def assms(3) witness_root_Some [OF assms(3,4)])
  then show ?thesis using w Some by (auto simp: check_witness_def)
qed (simp add: check_witness_def)

lemma CheckBlock_total:
  assumes "coin_ok k" "tree_ok T" "length (blk_vtx b) \<le> 2 ^ 31"
  shows "\<exists>v. shc_CheckBlock (k_env k) T b = Some v" "\<exists>v. usde_CheckBlock (k_env k) b = Some v"
    "\<exists>v. emc2_CheckBlock (k_env k) T b = Some v" "\<exists>v. test_CheckBlock (k_env k) T b = Some v"
  using check_witness_total [OF assms(1,2) _ assms(3)]
  by (auto simp: shc_CheckBlock_def usde_CheckBlock_def emc2_CheckBlock_def test_CheckBlock_def)

lemma worth_keeping_total: "\<exists>w. worth_keeping min_work k b c = Some w"
proof (cases "GetLastCheckpoint (k_testnet k) (k_checkpoints k) (blockIndex c)")
  case (Some p)
  then obtain node where "blockIndex c p = Some node"
    by (auto simp: GetLastCheckpoint_def find_Some_iff split: if_splits)
  with Some show ?thesis by (auto simp: worth_keeping_def Let_def)
qed (auto simp: worth_keeping_def)

lemma add_nonce_total:
  assumes "coin_ok k" "chain_inv c"
  shows "\<exists>b'. add_nonce k b c = Some b' \<and> CBlockHeader.truncate b' = CBlockHeader.truncate b \<and> length (blk_vtx b') = length (blk_vtx b)"
proof -
  obtain node where "tree_ok (blockIndex c)" "blockIndex c (besthash c) = Some node" using assms(2) by (auto simp: chain_inv_def)
  then obtain w where "witness_enabled (k_env k) (blockIndex c) (Some (besthash c)) = Some w"
    "GetBestBlockIndex c = Some (besthash c)"
    using witness_enabled_total [OF assms(1), of "blockIndex c" "Some (besthash c)"] by (auto simp: GetBestBlockIndex_def)
  then show ?thesis
    by (auto simp: add_nonce_def GetWitnessCommitmentIndex_def core_UpdateUncommittedBlockStructures_def
      CBlockHeader.truncate_def)
qed

lemma truncate_hash: "CBlockHeader.truncate b' = CBlockHeader.truncate b \<Longrightarrow>
    block_GetHash E b' = block_GetHash E b \<and> blk_hashPrevBlock b' = blk_hashPrevBlock b"
  by (simp add: CBlockHeader.truncate_def block_GetHash_def ser_header_def)

section \<open>\<open>ProcessBlock\<close> returns and keeps the invariant\<close>

text \<open>What the four versions do with the block after a good verdict.\<close>

lemma outcomes:
  assumes "bnode_ok rank k n" "\<not> known k b n" "rank (blk_hashPrevBlock b) < rank (bhash k b)"
  shows "handled rank k n n" "handled rank k n (blame pfrom d n)"
    "blockIndex (nd_chain n) (blk_hashPrevBlock b) = None \<Longrightarrow> handled rank k n (keep_orphan k b n)"
    "blockIndex (nd_chain n) (blk_hashPrevBlock b) = None \<Longrightarrow>
       \<exists>n'. PushGetBlocks k b (keep_orphan k b n) = Some n' \<and> handled rank k n n'"
proof -
  show "handled rank k n n" "handled rank k n (blame pfrom d n)"
    by (rule handled_refl [OF assms(1)], rule handled_blame [OF assms(1)])
  assume "blockIndex (nd_chain n) (blk_hashPrevBlock b) = None"
  then show o: "handled rank k n (keep_orphan k b n)" using handled_orphan [OF assms(1,2) _ assms(3)] by simp
  then have "bnode_ok rank k (keep_orphan k b n)" by (simp add: handled_def)
  from PushGetBlocks_ok [OF this, of b] obtain n' where
    "PushGetBlocks k b (keep_orphan k b n) = Some n'" "handled rank k (keep_orphan k b n) n'" by blast
  with handled_trans [OF o] show "\<exists>n'. PushGetBlocks k b (keep_orphan k b n) = Some n' \<and> handled rank k n n'" by blast
qed

lemma shc_handles:
  assumes "coin_ok k" "bnode_ok rank k n" "length (blk_vtx b) \<le> 2 ^ 31" "rank (blk_hashPrevBlock b) < rank (bhash k b)"
  shows "handles rank k n (shc_ProcessBlock k pfrom b n)"
proof (cases "known k b n")
  case True
  then show ?thesis using handled_refl [OF assms(2)] by (simp add: shc_ProcessBlock_def)
next
  case False
  have t: "tree_ok (blockIndex (nd_chain n))" using assms(2) by (simp add: bnode_ok_def chain_inv_def)
  obtain v where v: "shc_CheckBlock (k_env k) (blockIndex (nd_chain n)) b = Some v"
    using CheckBlock_total(1) [OF assms(1) t assms(3)] by blast
  obtain w where w: "worth_keeping (shc_ComputeMinWork (b_lib (k_env k))) k b (nd_chain n) = Some w"
    using worth_keeping_total by blast
  note out = outcomes [OF assms(2) False assms(4)]
    and all = accept_all_ok [where accept = shc_AcceptBlock and k = k, OF shc_acceptor.block_acceptor_axioms assms(1,2) False]
  show ?thesis
  proof (cases "v = Accepted")
    case True
    then show ?thesis using out all False by (auto simp: shc_ProcessBlock_def v Let_def w handled_invalid)
  next
    case bad: False
    then show ?thesis
      using handled_judge [OF assms(2), of v] False
      by (auto simp: shc_ProcessBlock_def v Let_def case_prod_unfold handled_invalid)
  qed
qed

lemma usde_handles:
  assumes "coin_ok k" "bnode_ok rank k n" "length (blk_vtx b) \<le> 2 ^ 31" "rank (blk_hashPrevBlock b) < rank (bhash k b)"
  shows "handles rank k n (usde_ProcessBlock k pfrom b n)"
proof (cases "known k b n")
  case True
  then show ?thesis using handled_refl [OF assms(2)] by (simp add: usde_ProcessBlock_def)
next
  case False
  have t: "tree_ok (blockIndex (nd_chain n))" using assms(2) by (simp add: bnode_ok_def chain_inv_def)
  obtain v where v: "usde_CheckBlock (k_env k) b = Some v"
    using CheckBlock_total(2) [OF assms(1) t assms(3)] by blast
  obtain w where w: "worth_keeping (usde_ComputeMinWork (k_timespan k) (b_lib (k_env k))) k b (nd_chain n) = Some w"
    using worth_keeping_total by blast
  note out = outcomes [OF assms(2) False assms(4)]
    and all = accept_all_ok [where accept = usde_AcceptBlock and k = k, OF usde_acceptor.block_acceptor_axioms assms(1,2) False]
  show ?thesis
  proof (cases "v = Accepted")
    case True
    then show ?thesis using out all False by (auto simp: usde_ProcessBlock_def v Let_def w handled_invalid)
  next
    case bad: False
    then show ?thesis
      using handled_judge [OF assms(2), of v] False
      by (auto simp: usde_ProcessBlock_def v Let_def case_prod_unfold handled_invalid)
  qed
qed

lemma test_handles:
  assumes "coin_ok k" "bnode_ok rank k n" "length (blk_vtx b) \<le> 2 ^ 31" "rank (blk_hashPrevBlock b) < rank (bhash k b)"
  shows "handles rank k n (test_ProcessBlock k pfrom b n)"
proof (cases "known k b n")
  case True
  then show ?thesis using handled_refl [OF assms(2)] by (simp add: test_ProcessBlock_def)
next
  case False
  have t: "tree_ok (blockIndex (nd_chain n))" using assms(2) by (simp add: bnode_ok_def chain_inv_def)
  obtain v where v: "test_CheckBlock (k_env k) (blockIndex (nd_chain n)) b = Some v"
    using CheckBlock_total(4) [OF assms(1) t assms(3)] by blast
  obtain w where w: "worth_keeping (test_ComputeMinWork (k_timespan k) (b_lib (k_env k))) k b (nd_chain n) = Some w"
    using worth_keeping_total by blast
  note out = outcomes [OF assms(2) False assms(4)]
    and all = accept_all_ok [where accept = test_AcceptBlock and k = k, OF test_acceptor.block_acceptor_axioms assms(1,2) False]
  show ?thesis
  proof (cases "v = Accepted")
    case True
    then show ?thesis using out all False by (auto simp: test_ProcessBlock_def v Let_def w handled_invalid)
  next
    case bad: False
    then show ?thesis
      using handled_judge [OF assms(2), of v] False
      by (auto simp: test_ProcessBlock_def v Let_def case_prod_unfold handled_invalid)
  qed
qed

lemma emc2_handles:
  assumes "coin_ok k" "bnode_ok rank k n" "length (blk_vtx b) \<le> 2 ^ 31" "rank (blk_hashPrevBlock b) < rank (bhash k b)"
  shows "handles rank k n (emc2_ProcessBlock k pfrom b n)"
proof (cases "known k b n")
  case True
  then show ?thesis using handled_refl [OF assms(2)] by (simp add: emc2_ProcessBlock_def)
next
  case False
  have t: "tree_ok (blockIndex (nd_chain n))" using assms(2) by (simp add: bnode_ok_def chain_inv_def)
  have "chain_inv (nd_chain n)" using assms(2) by (simp add: bnode_ok_def)
  from add_nonce_total [OF assms(1) this, of b] obtain b' where b': "add_nonce k b (nd_chain n) = Some b'"
    "CBlockHeader.truncate b' = CBlockHeader.truncate b" "length (blk_vtx b') \<le> 2 ^ 31" using assms(3) by auto
  have u: "\<not> known k b' n" "rank (blk_hashPrevBlock b') < rank (bhash k b')"
    using False assms(4) truncate_hash [OF b'(2)] by simp_all
  obtain v where v: "emc2_CheckBlock (k_env k) (blockIndex (nd_chain n)) b' = Some v"
    using CheckBlock_total(3) [OF assms(1) t b'(3)] by blast
  obtain w where w: "worth_keeping (emc2_ComputeMinWork (GetBestHeight (nd_chain n)) (b_lib (k_env k))) k b' (nd_chain n) = Some w"
    using worth_keeping_total by blast
  note out = outcomes [OF assms(2) u]
    and all = accept_all_ok [where accept = emc2_AcceptBlock and k = k, OF emc2_acceptor.block_acceptor_axioms assms(1,2) u(1)]
  show ?thesis
  proof (cases "v = Accepted")
    case True
    then show ?thesis using out all False by (auto simp: emc2_ProcessBlock_def b'(1) v Let_def w handled_invalid)
  next
    case bad: False
    then show ?thesis
      using handled_judge [OF assms(2), of v] False
      by (auto simp: emc2_ProcessBlock_def b'(1) v Let_def case_prod_unfold handled_invalid)
  qed
qed

section \<open>Sequences of blocks\<close>

text \<open>Blocks that arrive one after the other, each with whether a peer sent it.\<close>

fun process_all :: "(bool \<Rightarrow> CBlock \<Rightarrow> 's bnode \<Rightarrow> (bool \<times> 's bnode) option) \<Rightarrow> (bool \<times> CBlock) list \<Rightarrow> 's bnode \<Rightarrow>
    's bnode option" where
  "process_all process [] n = Some n"
| "process_all process ((pfrom, b) # ms) n = do { (ok, n) \<leftarrow> process pfrom b n; process_all process ms n }"

lemma process_all_handled:
  assumes "\<And>pfrom b n. P b \<Longrightarrow> bnode_ok rank k n \<Longrightarrow> handles rank k n (process pfrom b n)"
  shows "bnode_ok rank k n \<Longrightarrow> \<forall>(pfrom, b)\<in>set ms. P b \<Longrightarrow> \<exists>n'. process_all process ms n = Some n' \<and> handled rank k n n'"
proof (induction ms arbitrary: n)
  case Nil
  then show ?case by (simp add: handled_refl)
next
  case (Cons m ms)
  obtain pfrom b where m: "m = (pfrom, b)" by (cases m)
  have "P b" using Cons.prems(2) m by simp
  from assms [OF this Cons.prems(1), of pfrom] obtain ok n1 where n1: "process pfrom b n = Some (ok, n1)" "handled rank k n n1"
    by (auto simp: handles_def)
  then have "bnode_ok rank k n1" by (simp add: handled_def)
  from Cons.IH [OF this] Cons.prems(2) obtain n' where "process_all process ms n1 = Some n'" "handled rank k n1 n'" by auto
  with n1 handled_trans [OF n1(2)] show ?case by (auto simp: m)
qed

text \<open>
  C5: any sequence of blocks, from peers or from the own miner and in any order, is processed to the
  end by every coin. Afterwards the index is still a tree with the best block in it, no block of the
  index is forgotten, the two maps of orphans agree and share no block with the index. When no
  commit fails, the best block still has the most work of all; when nothing fails, no orphan is left
  behind whose parent is in the index. This needs that the hashes of the blocks have no cycle, up to
  $2^{31}$ transactions in a block and that the votes of a rule change have a period.
\<close>

theorem process_blocks:
  assumes "coin_ok k" and "bnode_ok rank k n"
    and "\<forall>(pfrom, b)\<in>set ms. length (blk_vtx b) \<le> 2 ^ 31 \<and> rank (blk_hashPrevBlock b) < rank (bhash k b)"
    and "process \<in> {shc_ProcessBlock k, usde_ProcessBlock k, emc2_ProcessBlock k, test_ProcessBlock k}"
  shows "\<exists>n'. process_all process ms n = Some n' \<and> bnode_ok rank k n' \<and>
    dom (blockIndex (nd_chain n)) \<subseteq> dom (blockIndex (nd_chain n')) \<and>
    (commits (k_commit k) \<longrightarrow> heaviest (nd_chain n) \<longrightarrow> heaviest (nd_chain n')) \<and>
    (reliable k \<longrightarrow> waiting n \<longrightarrow> waiting n')"
proof -
  let ?P = "\<lambda>b. length (blk_vtx b) \<le> 2 ^ 31 \<and> rank (blk_hashPrevBlock b) < rank (bhash k b)"
  have "handles rank k n (process pfrom b n)" if "?P b" "bnode_ok rank k n" for pfrom b n
    using assms(1,4) that shc_handles usde_handles emc2_handles test_handles by blast
  from process_all_handled [where P = ?P, OF this assms(2,3)] show ?thesis by (simp only: handled_def)
qed

section \<open>A concrete node\<close>

text \<open>A node that knows the genesis block 5, of a coin whose database is the list of its best blocks.\<close>

definition coin1 :: "u256 list coin" where
  "coin1 = \<lparr>k_env = benv1, k_testnet = False, k_checkpoints = SHC_mapCheckpoints, k_genesis = 5,
     k_horizon = (\<lambda>_ _ _. False), k_timespan = 7200, k_junk = None,
     k_commit = \<lparr>op_block = (\<lambda>s h. Some (mined 0x1d00ffff 1000 h)), op_arch_block = (\<lambda>_ _. None), op_write_arch = (\<lambda>_ s. s),
       op_disconnect = (\<lambda>_ _ s. (True, tl s)), op_connect = (\<lambda>h _ s. (True, h # s)), op_write_best = (\<lambda>_ s. s),
       op_pool_add = (\<lambda>_ s. s), op_pool_commit = (\<lambda>_ s. s), op_invalid = (\<lambda>_ s. s), op_addr = unat\<rparr>,
     k_write_arch = (\<lambda>_ s. (True, s)), k_new_best = (\<lambda>_ s. s), k_matrix_ok = (\<lambda>_ _. True), k_known_tx = (\<lambda>_ _. True)\<rparr>"

definition bnode1 :: "u256 list bnode" where
  "bnode1 = \<lparr>nd_chain = \<lparr>blockIndex = [5 \<mapsto> \<lparr>pprev = None, pnext = None, pskip = None, nHeight = 0, nStatus = 0, bnChainWork = 1,
       nVersion = 1, hashMerkleRoot = 0, nTime = 900, nBits = 0x1d00ffff, nNonce = 0\<rparr>],
       besthash = 5, bestWork = 1, pindexGenesis = Some 5, trusts = [], cdb = [5]\<rparr>,
     mapOrphanBlocks = Map.empty, mapOrphanBlocksByPrev = [], requests = [], net_invalid = False\<rparr>"

lemma coin1_ok: "coin_ok coin1" "reliable coin1" "commits (k_commit coin1)"
  by (simp_all add: coin_ok_def reliable_def commits_def commit_read_def coin1_def benv1_def)

lemma bnode1_ok: "bnode_ok rank coin1 bnode1" "heaviest (nd_chain bnode1)" "waiting bnode1"
proof -
  have "chain_inv (nd_chain bnode1)"
    by (auto simp: bnode1_def chain_inv_def tree_ok_def node_ok_def work_ok_def) (rule exI, rule anc_refl)
  then show "bnode_ok rank coin1 bnode1" by (simp add: bnode_ok_def orphans_ok_def bnode1_def)
qed (simp_all add: bnode1_def heaviest_def waiting_def)

lemma take_le_enc: "take m (le_enc n x) = le_enc (min m n) x"
proof (induction n arbitrary: m x)
  case (Suc n)
  then show ?case by (cases m) simp_all
qed simp

lemma mined_hash:
  assumes "unat prev < 2 ^ 224"
  shows "unat (bhash coin1 (mined bits time prev)) = 1 + 2 ^ 32 * unat prev"
proof -
  have h: "Hash ref_env (ser_header (mined bits time prev)) = le_enc 4 1 @ le_enc 28 (unat prev)"
    by (simp add: Hash_def ref_env_def ser_header_def mined_def ser_int_def take_le_enc)
  have "le_dec (le_enc 4 1 @ le_enc 28 (unat prev)) = 1 + 2 ^ 32 * unat prev"
    using assms by (simp add: le_dec_append le_dec_enc)
  with h have "bhash coin1 (mined bits time prev) = of_nat (1 + 2 ^ 32 * unat prev)"
    by (simp only: block_GetHash_def coin1_def benv1_def coin.select_convs benv.select_convs)
  then show ?thesis using assms unfolding unat_of_nat by (simp only: unat_of_nat) (simp add: take_bit_nat_eq_self_iff)
qed

text \<open>Concrete instance: a block that arrives before its parent.\<close>

theorem process_blocks_witness:
  "\<exists>n'. process_all (shc_ProcessBlock coin1)
      [(True, mined 0x1d00ffff 1000 0x500000001), (True, mined 0x1d00ffff 1000 5)] bnode1 = Some n' \<and>
    bnode_ok unat coin1 n' \<and> heaviest (nd_chain n') \<and> waiting n'"
proof -
  have "\<forall>(pfrom, b)\<in>set [(True, mined 0x1d00ffff 1000 0x500000001), (True, mined 0x1d00ffff 1000 5)].
      length (blk_vtx b) \<le> 2 ^ 31 \<and> unat (blk_hashPrevBlock b) < unat (bhash coin1 b)"
    by (simp add: mined_hash) (simp add: mined_def)
  from process_blocks [OF coin1_ok(1) bnode1_ok(1) this, of "shc_ProcessBlock coin1"] coin1_ok bnode1_ok(2,3)
  show ?thesis by auto
qed

end
