(* ===== verification/Tx_Ext.thy ===== *)
theory Tx_Ext
  imports Tx
begin

text \<open>
  The objects that a transaction carries for the extensions and their serialization: \<open>CSign\<close> and
  \<open>CExtCore\<close> (\<^verbatim>\<open>server/ext/txext.h\<close>), \<open>CIdent\<close> and \<open>CCert\<close> (\<^verbatim>\<open>server/ext/certificate.h\<close>), \<open>CAlias\<close>
  (\<^verbatim>\<open>server/ext/alias.h\<close>), \<open>COfferAccept\<close> and \<open>COffer\<close> (\<^verbatim>\<open>server/ext/offer.h\<close>), \<open>CTxMatrix\<close>
  (\<^verbatim>\<open>server/matrix.h\<close>), \<open>CChannelKey\<close> and \<open>CChannel\<close> (\<^verbatim>\<open>server/ext/channel.h\<close>), and the serialization of a
  whole \<open>CTransaction\<close> (\<^verbatim>\<open>server/block.h\<close>), which writes after the core the objects that \<open>nFlag\<close> selects.

  A class that extends another has the object of its base class as its first field.  A time of
  libshare is an integer of 64 bits.  A place (\<open>shgeo_t\<close>) is a structure of libshare that is copied as
  it lies in memory: it is the list of its bytes, and its size \<open>g\<close> is a parameter.
\<close>

section \<open>Data\<close>

record CSign =
  nAlg :: u32
  vPubKey :: "u8 list"
  vAddrKey :: "u8 list"
  vSig :: "u8 list list"

record CExtCore =
  ext_nVersion :: u32
  tExpire :: u64
  vchLabel :: "u8 list"

record CIdent =
  ident_core :: CExtCore
  geo :: "u8 list"
  vAddr :: "u8 list"
  ident_nType :: u32

record CCert =
  cert_ident :: CIdent
  hashIssuer :: "160 word"
  signature :: CSign
  vContext :: "u8 list"
  nFee :: i64
  cert_nFlag :: u32

record COfferAccept =
  accept_core :: CExtCore
  vPayAddr :: "u8 list"
  vXferAddr :: "u8 list"
  nPayValue :: i64
  nXferValue :: i64
  hashOffer :: "160 word"
  hXferTx :: u256
  hChain :: u256

record COffer =
  offer_accept :: COfferAccept
  nPayCoin :: u32
  nXferCoin :: u32
  offer_nType :: u32
  accepts :: "COfferAccept list"

text \<open>The nine cells of a matrix are in the order in which they lie in memory, by rows.\<close>

record CTxMatrix =
  matrix_nType :: u32
  matrix_nHeight :: u32
  hRef :: "160 word"
  vData :: "u32 list"

record CChannelKey =
  chan_addr :: "160 word"
  pubkey :: "u8 list"
  mpubkey :: "u8 list"
  mchain :: "u8 list"
  hdpubkey :: "u8 list"
  chan_nValue :: i64

record CChannel =
  chan_origin :: CChannelKey
  chan_peer :: CChannelKey
  hRedeem :: "160 word"
  nSeq :: u32

text \<open>The members that \<open>CTransaction\<close> adds to \<open>CTransactionCore\<close>; \<open>CAlias\<close> adds nothing to \<open>CIdent\<close>.\<close>

record tx_ext =
  certificate :: CCert
  tx_alias :: CIdent
  offer :: COffer
  matrix :: CTxMatrix
  channel :: CChannel

section \<open>Serialization\<close>

definition ser_sign :: "CSign \<Rightarrow> u8 list" where
  "ser_sign x = ser_int 4 (nAlg x) @ ser_bytes (vPubKey x) @ ser_bytes (vAddrKey x) @ ser_vec ser_bytes (vSig x)"

definition de_sign :: "CSign reader" where
  "de_sign s = do {
     (a, s) \<leftarrow> de_int 4 s;
     (p, s) \<leftarrow> de_bytes s;
     (k, s) \<leftarrow> de_bytes s;
     (v, s) \<leftarrow> de_vec de_bytes s;
     Some (\<lparr>nAlg = a, vPubKey = p, vAddrKey = k, vSig = v\<rparr>, s) }"

definition size_sign :: "CSign \<Rightarrow> u32" where
  "size_sign x = 4 + size_bytes (vPubKey x) + size_bytes (vAddrKey x) + size_vec size_bytes (vSig x)"

definition ser_extcore :: "CExtCore \<Rightarrow> u8 list" where
  "ser_extcore x = ser_int 4 (ext_nVersion x) @ ser_int 8 (tExpire x) @ ser_bytes (vchLabel x)"

definition de_extcore :: "CExtCore reader" where
  "de_extcore s = do {
     (v, s) \<leftarrow> de_int 4 s;
     (t, s) \<leftarrow> de_int 8 s;
     (l, s) \<leftarrow> de_bytes s;
     Some (\<lparr>ext_nVersion = v, tExpire = t, vchLabel = l\<rparr>, s) }"

definition size_extcore :: "CExtCore \<Rightarrow> u32" where
  "size_extcore x = 4 + 8 + size_bytes (vchLabel x)"

definition ser_ident :: "CIdent \<Rightarrow> u8 list" where
  "ser_ident x = ser_extcore (ident_core x) @ geo x @ ser_bytes (vAddr x) @ ser_int 4 (ident_nType x)"

definition de_ident :: "nat \<Rightarrow> CIdent reader" where
  "de_ident g s = do {
     (c, s) \<leftarrow> de_extcore s;
     (l, s) \<leftarrow> read_data g s;
     (a, s) \<leftarrow> de_bytes s;
     (t, s) \<leftarrow> de_int 4 s;
     Some (\<lparr>ident_core = c, geo = l, vAddr = a, ident_nType = t\<rparr>, s) }"

definition size_ident :: "nat \<Rightarrow> CIdent \<Rightarrow> u32" where
  "size_ident g x = size_extcore (ident_core x) + of_nat g + size_bytes (vAddr x) + 4"

definition ser_cert :: "CCert \<Rightarrow> u8 list" where
  "ser_cert x = ser_ident (cert_ident x) @ ser_int 20 (hashIssuer x) @ ser_sign (signature x) @
     ser_bytes (vContext x) @ ser_int 8 (nFee x) @ ser_int 4 (cert_nFlag x)"

definition de_cert :: "nat \<Rightarrow> CCert reader" where
  "de_cert g s = do {
     (i, s) \<leftarrow> de_ident g s;
     (h, s) \<leftarrow> de_int 20 s;
     (n, s) \<leftarrow> de_sign s;
     (c, s) \<leftarrow> de_bytes s;
     (e, s) \<leftarrow> de_int 8 s;
     (f, s) \<leftarrow> de_int 4 s;
     Some (\<lparr>cert_ident = i, hashIssuer = h, signature = n, vContext = c, nFee = e, cert_nFlag = f\<rparr>, s) }"

definition size_cert :: "nat \<Rightarrow> CCert \<Rightarrow> u32" where
  "size_cert g x = size_ident g (cert_ident x) + 20 + size_sign (signature x) + size_bytes (vContext x) + 8 + 4"

definition ser_accept :: "COfferAccept \<Rightarrow> u8 list" where
  "ser_accept x = ser_extcore (accept_core x) @ ser_bytes (vPayAddr x) @ ser_bytes (vXferAddr x) @
     ser_int 8 (nPayValue x) @ ser_int 8 (nXferValue x) @ ser_int 20 (hashOffer x) @ ser_int 32 (hXferTx x) @ ser_int 32 (hChain x)"

definition de_accept :: "COfferAccept reader" where
  "de_accept s = do {
     (c, s) \<leftarrow> de_extcore s;
     (p, s) \<leftarrow> de_bytes s;
     (x, s) \<leftarrow> de_bytes s;
     (pv, s) \<leftarrow> de_int 8 s;
     (xv, s) \<leftarrow> de_int 8 s;
     (h, s) \<leftarrow> de_int 20 s;
     (t, s) \<leftarrow> de_int 32 s;
     (n, s) \<leftarrow> de_int 32 s;
     Some (\<lparr>accept_core = c, vPayAddr = p, vXferAddr = x, nPayValue = pv, nXferValue = xv,
            hashOffer = h, hXferTx = t, hChain = n\<rparr>, s) }"

definition size_accept :: "COfferAccept \<Rightarrow> u32" where
  "size_accept x = size_extcore (accept_core x) + size_bytes (vPayAddr x) + size_bytes (vXferAddr x) + 8 + 8 + 20 + 32 + 32"

definition ser_offer :: "COffer \<Rightarrow> u8 list" where
  "ser_offer x = ser_accept (offer_accept x) @ ser_int 4 (nPayCoin x) @ ser_int 4 (nXferCoin x) @
     ser_int 4 (offer_nType x) @ ser_vec ser_accept (accepts x)"

definition de_offer :: "COffer reader" where
  "de_offer s = do {
     (a, s) \<leftarrow> de_accept s;
     (p, s) \<leftarrow> de_int 4 s;
     (x, s) \<leftarrow> de_int 4 s;
     (t, s) \<leftarrow> de_int 4 s;
     (v, s) \<leftarrow> de_vec de_accept s;
     Some (\<lparr>offer_accept = a, nPayCoin = p, nXferCoin = x, offer_nType = t, accepts = v\<rparr>, s) }"

definition size_offer :: "COffer \<Rightarrow> u32" where
  "size_offer x = size_accept (offer_accept x) + 4 + 4 + 4 + size_vec size_accept (accepts x)"

text \<open>The height is written before the type.\<close>

definition ser_matrix :: "CTxMatrix \<Rightarrow> u8 list" where
  "ser_matrix x = ser_int 4 (matrix_nHeight x) @ ser_int 4 (matrix_nType x) @ ser_int 20 (hRef x) @
     concat (map (ser_int 4) (vData x))"

definition de_matrix :: "CTxMatrix reader" where
  "de_matrix s = do {
     (h, s) \<leftarrow> de_int 4 s;
     (t, s) \<leftarrow> de_int 4 s;
     (r, s) \<leftarrow> de_int 20 s;
     (d, s) \<leftarrow> read_list (de_int 4) (3 * 3) s;
     Some (\<lparr>matrix_nType = t, matrix_nHeight = h, hRef = r, vData = d\<rparr>, s) }"

definition size_matrix :: "CTxMatrix \<Rightarrow> u32" where
  "size_matrix x = 4 + 4 + 20 + 3 * 3 * 4"

definition ser_chankey :: "CChannelKey \<Rightarrow> u8 list" where
  "ser_chankey x = ser_int 20 (chan_addr x) @ ser_bytes (pubkey x) @ ser_bytes (mpubkey x) @ ser_bytes (mchain x) @
     ser_bytes (hdpubkey x) @ ser_int 8 (chan_nValue x)"

definition de_chankey :: "CChannelKey reader" where
  "de_chankey s = do {
     (a, s) \<leftarrow> de_int 20 s;
     (p, s) \<leftarrow> de_bytes s;
     (m, s) \<leftarrow> de_bytes s;
     (c, s) \<leftarrow> de_bytes s;
     (h, s) \<leftarrow> de_bytes s;
     (v, s) \<leftarrow> de_int 8 s;
     Some (\<lparr>chan_addr = a, pubkey = p, mpubkey = m, mchain = c, hdpubkey = h, chan_nValue = v\<rparr>, s) }"

definition size_chankey :: "CChannelKey \<Rightarrow> u32" where
  "size_chankey x = 20 + size_bytes (pubkey x) + size_bytes (mpubkey x) + size_bytes (mchain x) + size_bytes (hdpubkey x) + 8"

definition ser_channel :: "CChannel \<Rightarrow> u8 list" where
  "ser_channel x = ser_chankey (chan_origin x) @ ser_chankey (chan_peer x) @ ser_int 20 (hRedeem x) @ ser_int 4 (nSeq x)"

definition de_channel :: "CChannel reader" where
  "de_channel s = do {
     (a, s) \<leftarrow> de_chankey s;
     (b, s) \<leftarrow> de_chankey s;
     (h, s) \<leftarrow> de_int 20 s;
     (n, s) \<leftarrow> de_int 4 s;
     Some (\<lparr>chan_origin = a, chan_peer = b, hRedeem = h, nSeq = n\<rparr>, s) }"

definition size_channel :: "CChannel \<Rightarrow> u32" where
  "size_channel x = size_chankey (chan_origin x) + size_chankey (chan_peer x) + 20 + 4"

section \<open>Whole transactions\<close>

definition TXF_CERTIFICATE :: u32 where "TXF_CERTIFICATE = push_bit 4 1"
definition TXF_LICENSE :: u32 where "TXF_LICENSE = push_bit 5 1"
definition TXF_ALIAS :: u32 where "TXF_ALIAS = push_bit 6 1"
definition TXF_OFFER :: u32 where "TXF_OFFER = push_bit 7 1"
definition TXF_OFFER_ACCEPT :: u32 where "TXF_OFFER_ACCEPT = push_bit 8 1"
definition TXF_ASSET :: u32 where "TXF_ASSET = push_bit 9 1"
definition TXF_IDENT :: u32 where "TXF_IDENT = push_bit 10 1"
definition TXF_MATRIX :: u32 where "TXF_MATRIX = push_bit 11 1"
definition TXF_CHANNEL :: u32 where "TXF_CHANNEL = push_bit 12 1"
definition TXF_EXEC :: u32 where "TXF_EXEC = push_bit 13 1"
definition TXF_CONTEXT :: u32 where "TXF_CONTEXT = push_bit 14 1"

definition with_certificate :: "u32 \<Rightarrow> bool" where
  "with_certificate f \<longleftrightarrow> f AND TXF_CERTIFICATE \<noteq> 0 \<or> f AND TXF_LICENSE \<noteq> 0 \<or> f AND TXF_ASSET \<noteq> 0 \<or>
     f AND TXF_IDENT \<noteq> 0 \<or> f AND TXF_EXEC \<noteq> 0 \<or> f AND TXF_CONTEXT \<noteq> 0"

definition with_alias :: "u32 \<Rightarrow> bool" where
  "with_alias f \<longleftrightarrow> f AND TXF_ALIAS \<noteq> 0"

definition with_offer :: "u32 \<Rightarrow> bool" where
  "with_offer f \<longleftrightarrow> f AND TXF_OFFER \<noteq> 0 \<or> f AND TXF_OFFER_ACCEPT \<noteq> 0"

definition with_matrix :: "u32 \<Rightarrow> bool" where
  "with_matrix f \<longleftrightarrow> f AND TXF_MATRIX \<noteq> 0"

definition with_channel :: "u32 \<Rightarrow> bool" where
  "with_channel f \<longleftrightarrow> f AND TXF_CHANNEL \<noteq> 0"

definition ser_ext :: "u32 \<Rightarrow> tx_ext \<Rightarrow> u8 list" where
  "ser_ext f x =
     (if with_certificate f then ser_cert (certificate x) else []) @
     (if with_alias f then ser_ident (tx_alias x) else []) @
     (if with_offer f then ser_offer (offer x) else []) @
     (if with_matrix f then ser_matrix (matrix x) else []) @
     (if with_channel f then ser_channel (channel x) else [])"

definition size_ext :: "nat \<Rightarrow> u32 \<Rightarrow> tx_ext \<Rightarrow> u32" where
  "size_ext g f x =
     (if with_certificate f then size_cert g (certificate x) else 0) +
     (if with_alias f then size_ident g (tx_alias x) else 0) +
     (if with_offer f then size_offer (offer x) else 0) +
     (if with_matrix f then size_matrix (matrix x) else 0) +
     (if with_channel f then size_channel (channel x) else 0)"

definition de_ext :: "nat \<Rightarrow> u32 \<Rightarrow> tx_ext \<Rightarrow> tx_ext reader" where
  "de_ext g f old s = do {
     (c, s) \<leftarrow> (if with_certificate f then de_cert g s else Some (certificate old, s));
     (a, s) \<leftarrow> (if with_alias f then de_ident g s else Some (tx_alias old, s));
     (r, s) \<leftarrow> (if with_offer f then de_offer s else Some (offer old, s));
     (m, s) \<leftarrow> (if with_matrix f then de_matrix s else Some (matrix old, s));
     (h, s) \<leftarrow> (if with_channel f then de_channel s else Some (channel old, s));
     Some (\<lparr>certificate = c, tx_alias = a, offer = r, matrix = m, channel = h\<rparr>, s) }"

text \<open>
  A transaction is a pair of its core and its extension objects; the field \<open>payload\<close> of the core
  holds the bytes of the objects that \<open>nFlag\<close> selects.
\<close>

definition with_ext :: "CTransaction \<Rightarrow> tx_ext \<Rightarrow> CTransaction" where
  "with_ext tx x = tx\<lparr>payload := ser_ext (nFlag tx) x\<rparr>"

definition ser_tx :: "u32 \<Rightarrow> CTransaction \<Rightarrow> tx_ext \<Rightarrow> u8 list" where
  "ser_tx nVersion tx x = ser_core nVersion tx @ ser_ext (nFlag tx) x"

definition size_tx :: "nat \<Rightarrow> u32 \<Rightarrow> CTransaction \<Rightarrow> tx_ext \<Rightarrow> u32" where
  "size_tx g nVersion tx x = size_core nVersion tx + size_ext g (nFlag tx) x"

definition de_tx :: "nat \<Rightarrow> u32 \<Rightarrow> CTransaction \<Rightarrow> tx_ext \<Rightarrow> (CTransaction \<times> tx_ext) reader" where
  "de_tx g nVersion old oldx s = do {
     (tx, s) \<leftarrow> de_core nVersion old s;
     (x, s) \<leftarrow> de_ext g (nFlag tx) oldx s;
     Some ((with_ext tx x, x), s) }"

section \<open>The codecs of the objects\<close>

abbreviation short :: "u8 list \<Rightarrow> bool" where
  "short v \<equiv> length v \<le> MAX_SIZE"

definition sign_ok :: "CSign \<Rightarrow> bool" where
  "sign_ok x \<longleftrightarrow> short (vPubKey x) \<and> short (vAddrKey x) \<and> vec_ok short (vSig x)"

definition extcore_ok :: "CExtCore \<Rightarrow> bool" where
  "extcore_ok x \<longleftrightarrow> short (vchLabel x)"

definition ident_ok :: "nat \<Rightarrow> CIdent \<Rightarrow> bool" where
  "ident_ok g x \<longleftrightarrow> extcore_ok (ident_core x) \<and> length (geo x) = g \<and> short (vAddr x)"

definition cert_ok :: "nat \<Rightarrow> CCert \<Rightarrow> bool" where
  "cert_ok g x \<longleftrightarrow> ident_ok g (cert_ident x) \<and> sign_ok (signature x) \<and> short (vContext x)"

definition accept_ok :: "COfferAccept \<Rightarrow> bool" where
  "accept_ok x \<longleftrightarrow> extcore_ok (accept_core x) \<and> short (vPayAddr x) \<and> short (vXferAddr x)"

definition offer_ok :: "COffer \<Rightarrow> bool" where
  "offer_ok x \<longleftrightarrow> accept_ok (offer_accept x) \<and> vec_ok accept_ok (accepts x)"

definition matrix_ok :: "CTxMatrix \<Rightarrow> bool" where
  "matrix_ok x \<longleftrightarrow> length (vData x) = 3 * 3"

definition chankey_ok :: "CChannelKey \<Rightarrow> bool" where
  "chankey_ok x \<longleftrightarrow> short (pubkey x) \<and> short (mpubkey x) \<and> short (mchain x) \<and> short (hdpubkey x)"

definition channel_ok :: "CChannel \<Rightarrow> bool" where
  "channel_ok x \<longleftrightarrow> chankey_ok (chan_origin x) \<and> chankey_ok (chan_peer x)"

interpretation int20: codec "ser_int 20 :: 160 word \<Rightarrow> u8 list" "de_int 20" "\<lambda>_. of_nat 20" "\<lambda>_. True"
  by (rule int_codec) simp

lemmas prim_round_trip = int4.round_trip int8.round_trip int20.round_trip int32.round_trip bytes.round_trip stack.round_trip
lemmas prim_size = bytes.size stack.size
lemmas prim_consumes = int4.consumes int8.consumes int20.consumes int32.consumes bytes.consumes stack.consumes

interpretation sign: codec ser_sign de_sign size_sign sign_ok
proof
  show "de_sign (ser_sign x @ s) = Some (x, s)" if "sign_ok x" for x s
    using that by (simp add: ser_sign_def de_sign_def sign_ok_def prim_round_trip)
  show "size_sign x = of_nat (length (ser_sign x))" if "sign_ok x" for x
    using that by (simp add: ser_sign_def size_sign_def sign_ok_def prim_size)
  show "length (ser_sign x) + length t \<le> length s" if "de_sign s = Some (x, t)" for x s t
    using that by (auto simp: de_sign_def ser_sign_def split: bind_splits dest!: prim_consumes)
qed

interpretation extcore: codec ser_extcore de_extcore size_extcore extcore_ok
proof
  show "de_extcore (ser_extcore x @ s) = Some (x, s)" if "extcore_ok x" for x s
    using that by (simp add: ser_extcore_def de_extcore_def extcore_ok_def prim_round_trip)
  show "size_extcore x = of_nat (length (ser_extcore x))" if "extcore_ok x" for x
    using that by (simp add: ser_extcore_def size_extcore_def extcore_ok_def prim_size)
  show "length (ser_extcore x) + length t \<le> length s" if "de_extcore s = Some (x, t)" for x s t
    using that by (auto simp: de_extcore_def ser_extcore_def split: bind_splits dest!: prim_consumes)
qed

interpretation ident: codec ser_ident "de_ident g" "size_ident g" "ident_ok g" for g
proof
  show "de_ident g (ser_ident x @ s) = Some (x, s)" if "ident_ok g x" for x s
    using that by (simp add: ser_ident_def de_ident_def ident_ok_def prim_round_trip extcore.round_trip)
  show "size_ident g x = of_nat (length (ser_ident x))" if "ident_ok g x" for x
    using that by (auto simp: ser_ident_def size_ident_def ident_ok_def prim_size extcore.size)
  show "length (ser_ident x) + length t \<le> length s" if "de_ident g s = Some (x, t)" for x s t
    using that by (auto simp: de_ident_def ser_ident_def split: bind_splits dest!: prim_consumes extcore.consumes read_data_consumes)
qed

interpretation cert: codec ser_cert "de_cert g" "size_cert g" "cert_ok g" for g
proof
  show "de_cert g (ser_cert x @ s) = Some (x, s)" if "cert_ok g x" for x s
    using that by (simp add: ser_cert_def de_cert_def cert_ok_def prim_round_trip ident.round_trip sign.round_trip)
  show "size_cert g x = of_nat (length (ser_cert x))" if "cert_ok g x" for x
    using that by (simp add: ser_cert_def size_cert_def cert_ok_def prim_size ident.size sign.size)
  show "length (ser_cert x) + length t \<le> length s" if "de_cert g s = Some (x, t)" for x s t
    using that by (auto simp: de_cert_def ser_cert_def split: bind_splits dest!: prim_consumes ident.consumes sign.consumes)
qed

interpretation accept: codec ser_accept de_accept size_accept accept_ok
proof
  show "de_accept (ser_accept x @ s) = Some (x, s)" if "accept_ok x" for x s
    using that by (simp add: ser_accept_def de_accept_def accept_ok_def prim_round_trip extcore.round_trip)
  show "size_accept x = of_nat (length (ser_accept x))" if "accept_ok x" for x
    using that by (simp add: ser_accept_def size_accept_def accept_ok_def prim_size extcore.size)
  show "length (ser_accept x) + length t \<le> length s" if "de_accept s = Some (x, t)" for x s t
    using that by (auto simp: de_accept_def ser_accept_def split: bind_splits dest!: prim_consumes extcore.consumes)
qed

interpretation accepts: codec "ser_vec ser_accept" "de_vec de_accept" "size_vec size_accept" "vec_ok accept_ok"
  by (rule accept.vec_codec)

interpretation offer: codec ser_offer de_offer size_offer offer_ok
proof
  show "de_offer (ser_offer x @ s) = Some (x, s)" if "offer_ok x" for x s
    using that by (simp add: ser_offer_def de_offer_def offer_ok_def prim_round_trip accept.round_trip accepts.round_trip)
  show "size_offer x = of_nat (length (ser_offer x))" if "offer_ok x" for x
    using that by (simp add: ser_offer_def size_offer_def offer_ok_def prim_size accept.size accepts.size)
  show "length (ser_offer x) + length t \<le> length s" if "de_offer s = Some (x, t)" for x s t
    using that by (auto simp: de_offer_def ser_offer_def split: bind_splits dest!: prim_consumes accept.consumes accepts.consumes)
qed

interpretation matrix: codec ser_matrix de_matrix size_matrix matrix_ok
proof
  have l: "read_list (de_int 4) 9 (concat (map (ser_int 4) xs) @ s) = Some (xs, s)" if "length xs = 9" for xs :: "u32 list" and s
    using int4.list_round_trip [of xs s] that by (simp add: list_all_iff)
  have n: "length (concat (map (ser_int 4) xs)) = 4 * length xs" for xs :: "u32 list" by (induction xs) simp_all
  show "de_matrix (ser_matrix x @ s) = Some (x, s)" if "matrix_ok x" for x s
    using that by (simp add: ser_matrix_def de_matrix_def matrix_ok_def prim_round_trip l)
  show "size_matrix x = of_nat (length (ser_matrix x))" if "matrix_ok x" for x
    using that by (simp add: ser_matrix_def size_matrix_def matrix_ok_def n)
  show "length (ser_matrix x) + length t \<le> length s" if "de_matrix s = Some (x, t)" for x s t
    using that by (auto simp: de_matrix_def ser_matrix_def split: bind_splits dest!: prim_consumes int4.list_consumes)
qed

interpretation chankey: codec ser_chankey de_chankey size_chankey chankey_ok
proof
  show "de_chankey (ser_chankey x @ s) = Some (x, s)" if "chankey_ok x" for x s
    using that by (simp add: ser_chankey_def de_chankey_def chankey_ok_def prim_round_trip)
  show "size_chankey x = of_nat (length (ser_chankey x))" if "chankey_ok x" for x
    using that by (simp add: ser_chankey_def size_chankey_def chankey_ok_def prim_size)
  show "length (ser_chankey x) + length t \<le> length s" if "de_chankey s = Some (x, t)" for x s t
    using that by (auto simp: de_chankey_def ser_chankey_def split: bind_splits dest!: prim_consumes)
qed

interpretation channel: codec ser_channel de_channel size_channel channel_ok
proof
  show "de_channel (ser_channel x @ s) = Some (x, s)" if "channel_ok x" for x s
    using that by (simp add: ser_channel_def de_channel_def channel_ok_def prim_round_trip chankey.round_trip)
  show "size_channel x = of_nat (length (ser_channel x))" if "channel_ok x" for x
    using that by (simp add: ser_channel_def size_channel_def channel_ok_def chankey.size)
  show "length (ser_channel x) + length t \<le> length s" if "de_channel s = Some (x, t)" for x s t
    using that by (auto simp: de_channel_def ser_channel_def split: bind_splits dest!: prim_consumes chankey.consumes)
qed

section \<open>The selected objects\<close>

definition ext_ok :: "nat \<Rightarrow> u32 \<Rightarrow> tx_ext \<Rightarrow> bool" where
  "ext_ok g f x \<longleftrightarrow> (with_certificate f \<longrightarrow> cert_ok g (certificate x)) \<and> (with_alias f \<longrightarrow> ident_ok g (tx_alias x)) \<and>
     (with_offer f \<longrightarrow> offer_ok (offer x)) \<and> (with_matrix f \<longrightarrow> matrix_ok (matrix x)) \<and> (with_channel f \<longrightarrow> channel_ok (channel x))"

text \<open>The objects of \<open>x\<close> that the flags select, and of \<open>old\<close> the others.\<close>

definition select_ext :: "u32 \<Rightarrow> tx_ext \<Rightarrow> tx_ext \<Rightarrow> tx_ext" where
  "select_ext f old x =
     \<lparr>certificate = (if with_certificate f then certificate x else certificate old),
      tx_alias = (if with_alias f then tx_alias x else tx_alias old),
      offer = (if with_offer f then offer x else offer old),
      matrix = (if with_matrix f then matrix x else matrix old),
      channel = (if with_channel f then channel x else channel old)\<rparr>"

lemma ser_select_ext [simp]: "ser_ext f (select_ext f old x) = ser_ext f x"
  by (simp add: ser_ext_def select_ext_def)

lemma select_ext_self [simp]: "select_ext f x x = x"
  by (simp add: select_ext_def)

lemma de_ser_ext:
  assumes "ext_ok g f x"
  shows "de_ext g f old (ser_ext f x @ s) = Some (select_ext f old x, s)"
proof -
  have opt: "(if c then de (ser z @ t) else Some (z', t)) = Some (if c then z else z', t)"
    if "codec ser de sz ok" "c \<longrightarrow> ok z" for c ser de sz ok z z' t
    using that by (simp add: codec.round_trip)
  have pre: "(if c then de ((if c then ser z else []) @ t) else Some (z', (if c then ser z else []) @ t)) =
      (if c then de (ser z @ t) else Some (z', t))" for c and de :: "'x reader" and ser z z' t by simp
  show ?thesis
    using assms unfolding ext_ok_def
    by (simp add: de_ext_def ser_ext_def pre select_ext_def opt [OF cert.codec_axioms] opt [OF ident.codec_axioms]
      opt [OF offer.codec_axioms] opt [OF matrix.codec_axioms] opt [OF channel.codec_axioms])
qed

lemma size_ext_bytes: "ext_ok g f x \<Longrightarrow> size_ext g f x = of_nat (length (ser_ext f x))"
  by (simp add: size_ext_def ser_ext_def ext_ok_def cert.size ident.size offer.size matrix.size channel.size)

lemma ext_consumes:
  assumes "de_ext g f old s = Some (x, t)"
  shows "length (ser_ext f x) + length t \<le> length s"
proof -
  have opt: "length (if c then ser z else []) + length t \<le> length s"
    if "codec ser de sz ok" "(if c then de s else Some (z', s)) = Some (z, t)" for c ser de sz ok z z' t s
    using that codec.consumes [OF that(1)] by (auto split: if_splits)
  obtain a s1 b s2 c s3 d s4 e where r:
    "(if with_certificate f then de_cert g s else Some (certificate old, s)) = Some (a, s1)"
    "(if with_alias f then de_ident g s1 else Some (tx_alias old, s1)) = Some (b, s2)"
    "(if with_offer f then de_offer s2 else Some (offer old, s2)) = Some (c, s3)"
    "(if with_matrix f then de_matrix s3 else Some (matrix old, s3)) = Some (d, s4)"
    "(if with_channel f then de_channel s4 else Some (channel old, s4)) = Some (e, t)"
    "x = \<lparr>certificate = a, tx_alias = b, offer = c, matrix = d, channel = e\<rparr>"
    using assms by (auto simp: de_ext_def split: bind_splits)
  from opt [OF cert.codec_axioms r(1)] opt [OF ident.codec_axioms r(2)] opt [OF offer.codec_axioms r(3)]
    opt [OF matrix.codec_axioms r(4)] opt [OF channel.codec_axioms r(5)] r(6)
  show ?thesis by (simp only: ser_ext_def tx_ext.simps length_append)
qed

section \<open>Transactions without inputs\<close>

text \<open>
  In the format with room for a witness an empty vector of inputs is also the marker of a witness.
  When no witness is written, the byte after it is the first of the number of outputs: a zero says that
  there is nothing more to read but the lock time, anything else is taken for the flags of a witness.
\<close>

definition empty_form :: "u32 \<Rightarrow> CTransaction \<Rightarrow> bool" where
  "empty_form v tx \<longleftrightarrow> vin tx = [] \<and> \<not> no_witness v \<and> wit_IsNull (wit tx)"

lemma compact_size_first: "0 < k \<Longrightarrow> k \<le> MAX_SIZE \<Longrightarrow> \<exists>c r. WriteCompactSize k = c # r \<and> c \<noteq> 0"
proof -
  assume "0 < k" "k \<le> MAX_SIZE"
  moreover have "(of_nat k :: u8) \<noteq> 0" if "0 < k" "k < 253"
    using that by (auto simp: word_of_nat_eq_0_iff dest: dvd_imp_le)
  ultimately show ?thesis by (auto simp: WriteCompactSize_def)
qed

lemma ser_core_empty:
  assumes "empty_form v tx"
  shows "ser_core v tx @ s = ser_int 4 (nFlag tx) @ ser_vec ser_txin [] @ ser_vec ser_txout (vout tx) @ ser_int 4 (nLockTime tx) @ s"
  using assms ser_core_plain [of v tx s] by (simp add: empty_form_def write_flag_def)

lemma de_ser_core_empty:
  assumes "empty_form v tx" and "vout tx = []"
  shows "de_core v old (ser_core v tx @ s) = Some (tx\<lparr>vout := vout old, wit := wit old, payload := payload old\<rparr>, s)"
proof -
  have n: "\<not> no_witness v" "vin tx = []" using assms(1) by (simp_all add: empty_form_def)
  have z: "(de_int 1 :: u8 reader) (0 # r) = Some (0, r)" for r by (simp add: de_int_def read_data_def)
  have "ser_vec ser_txout [] @ r = 0 # r" for r by (simp add: ser_vec_def WriteCompactSize_def)
  then show ?thesis
    unfolding ser_core_empty [OF assms(1)] de_core_def
    by (simp add: int4.round_trip inputs.round_trip n assms(2) z [simplified])
qed

lemma core_misread:
  assumes "empty_form v tx" "tx_ok tx" "vout tx \<noteq> []"
    and "de_core v old (ser_core v tx @ s) = Some (t, s')" "vin t = []" "vout t = vout tx"
  shows "length s' + 2 \<le> length s"
proof -
  have n: "\<not> no_witness v" using assms(1) by (simp add: empty_form_def)
  have "0 < length (vout tx)" "length (vout tx) \<le> MAX_SIZE" using assms(2,3) by (auto simp: tx_ok_def vec_ok_def)
  then obtain c r0 where "WriteCompactSize (length (vout tx)) = c # r0" and c: "c \<noteq> 0" using compact_size_first by blast
  then obtain r where r: "ser_vec ser_txout (vout tx) = c # r" by (simp add: ser_vec_def)
  have z: "(de_int 1 :: u8 reader) (c # q) = Some (c, q)" for q by (simp add: de_int_def read_data_def)
  define s0 where "s0 = r @ ser_int 4 (nLockTime tx) @ s"
  obtain ins s1 outs s2 ws s3 lt where
    d: "de_vec de_txin s0 = Some (ins, s1)" "de_vec de_txout s1 = Some (outs, s2)"
      "(if c AND 1 \<noteq> 0 then read_list (de_vec de_bytes) (length ins) s2 else Some (wit old, s2)) = Some (ws, s3)"
      "(de_int 4 :: u32 reader) s3 = Some (lt, s')"
    and t: "t = old\<lparr>nFlag := nFlag tx, vin := ins, vout := outs, wit := ws, nLockTime := lt\<rparr>"
    using assms(4) unfolding ser_core_empty [OF assms(1)] de_core_def s0_def
    by (simp add: int4.round_trip inputs.round_trip n r z [simplified] c) (auto split: bind_splits)
  have io: "ins = []" "outs = vout tx" using t assms(5,6) by simp_all
  have "s3 = s2" using d(3) io(1) by (simp split: if_splits)
  moreover have "length (ser_vec ser_txin []) = 1" by (simp add: ser_vec_def WriteCompactSize_def)
  ultimately have "1 + (length (ser_vec ser_txout (vout tx)) + (4 + length s')) \<le> length s0"
    using inputs.consumes [OF d(1)] outputs.consumes [OF d(2)] int4.consumes [OF d(4)] io by simp
  then show ?thesis by (simp add: s0_def r)
qed

lemma tx_misread:
  assumes "empty_form v tx" "tx_ok tx" "vout tx \<noteq> []"
    and "de_tx g v old oldx (ser_tx v tx x @ s) = Some ((t, y), s)" "vin t = []" "vout t = vout tx"
  shows "ser_ext (nFlag t) y \<noteq> ser_ext (nFlag tx) x"
proof
  assume e: "ser_ext (nFlag t) y = ser_ext (nFlag tx) x"
  from assms(4) obtain u s' where u: "de_core v old (ser_core v tx @ ser_ext (nFlag tx) x @ s) = Some (u, s')"
    "de_ext g (nFlag u) oldx s' = Some (y, s)" "t = with_ext u y"
    by (auto simp: de_tx_def ser_tx_def split: bind_splits)
  have f: "vin u = []" "vout u = vout tx" "nFlag t = nFlag u" using assms(5,6) u(3) by (simp_all add: with_ext_def)
  from core_misread [OF assms(1-3) u(1) f(1,2)] ext_consumes [OF u(2)] e f(3) show False by simp
qed

lemma de_ser_core:
  assumes "tx_ok tx" "\<not> (empty_form v tx \<and> vout tx \<noteq> [])"
  shows "de_core v old (ser_core v tx @ s) =
    Some (tx\<lparr>vout := (if empty_form v tx then vout old else vout tx),
      wit := (if write_flag v tx then resize (length (vin tx)) [] (wit tx) else wit old), payload := payload old\<rparr>, s)"
proof (cases "write_flag v tx")
  case True
  then have "\<not> empty_form v tx" by (simp add: empty_form_def write_flag_def)
  then show ?thesis using de_ser_core_flag [OF assms(1) True] True by (simp add: written_def)
next
  case False
  show ?thesis
  proof (cases "empty_form v tx")
    case True
    then show ?thesis using de_ser_core_empty [OF True] assms(2) False by simp
  next
    case ne: False
    then have "vin tx \<noteq> [] \<or> no_witness v" using False by (auto simp: empty_form_def write_flag_def)
    from de_ser_core_plain [OF assms(1) False this] ne False show ?thesis by simp
  qed
qed

section \<open>Properties\<close>

text \<open>
  C12: the round trip of a whole transaction, core and extension objects, for every object the
  transaction is read into (\<open>old\<close>, \<open>oldx\<close>) and whatever follows in the stream (\<open>s\<close>); the vectors are
  within \<open>MAX_SIZE\<close>. The reader returns the flags, inputs, outputs and lock time, every extension object
  that the flags select, and the witness with one stack for each input when a witness was written. What
  was not written stays as it was in the object read into: the objects that are not selected, the
  witness when none was written, and, for a transaction without inputs, outputs and witness in the
  format with room for a witness, the outputs. The one form that is not read back is a transaction
  with outputs but without inputs and witness, in the format with room for a witness: no result of
  the reader has its inputs, outputs and extension objects and leaves the rest of the stream. The computed
  size is the number of bytes modulo $2^{32}$.
\<close>

theorem tx_round_trip:
  assumes "tx_ok tx" and "ext_ok g (nFlag tx) x"
  shows "size_tx g v tx x = of_nat (length (ser_tx v tx x)) \<and>
    (if empty_form v tx \<and> vout tx \<noteq> []
     then \<nexists>t y. de_tx g v old oldx (ser_tx v tx x @ s) = Some ((t, y), s) \<and>
       nFlag t = nFlag tx \<and> vin t = vin tx \<and> vout t = vout tx \<and> select_ext (nFlag tx) x y = x
     else de_tx g v old oldx (ser_tx v tx x @ s) =
       Some ((with_ext (tx\<lparr>vout := (if empty_form v tx then vout old else vout tx),
           wit := (if no_witness v \<or> wit_IsNull (wit tx) then wit old else resize (length (vin tx)) [] (wit tx))\<rparr>) x,
         select_ext (nFlag tx) oldx x), s))"
proof (intro conjI)
  show "size_tx g v tx x = of_nat (length (ser_tx v tx x))"
    by (simp add: size_tx_def ser_tx_def size_core_bytes [OF assms(1)] size_ext_bytes [OF assms(2)])
  show "if empty_form v tx \<and> vout tx \<noteq> []
     then \<nexists>t y. de_tx g v old oldx (ser_tx v tx x @ s) = Some ((t, y), s) \<and>
       nFlag t = nFlag tx \<and> vin t = vin tx \<and> vout t = vout tx \<and> select_ext (nFlag tx) x y = x
     else de_tx g v old oldx (ser_tx v tx x @ s) =
       Some ((with_ext (tx\<lparr>vout := (if empty_form v tx then vout old else vout tx),
           wit := (if no_witness v \<or> wit_IsNull (wit tx) then wit old else resize (length (vin tx)) [] (wit tx))\<rparr>) x,
         select_ext (nFlag tx) oldx x), s)"
  proof (cases "empty_form v tx \<and> vout tx \<noteq> []")
    case True
    have "vin tx = []" using True by (simp add: empty_form_def)
    then show ?thesis using True tx_misread [OF _ assms(1), of v g old oldx x s] by (metis ser_select_ext)
  next
    case False
    have w: "write_flag v tx \<longleftrightarrow> \<not> (no_witness v \<or> wit_IsNull (wit tx))" by (simp add: write_flag_def)
    show ?thesis
      unfolding if_not_P [OF False] ser_tx_def de_tx_def append_assoc de_ser_core [OF assms(1) False]
      by (simp add: de_ser_ext [OF assms(2)] with_ext_def w)
  qed
qed

text \<open>A transaction with a matrix, and one with outputs but without inputs.\<close>

definition key0 :: CChannelKey where
  "key0 = \<lparr>chan_addr = 0, pubkey = [], mpubkey = [], mchain = [], hdpubkey = [], chan_nValue = 0\<rparr>"

definition ext1 :: tx_ext where
  "ext1 = (let c = \<lparr>ext_nVersion = 1, tExpire = 0, vchLabel = []\<rparr>; i = \<lparr>ident_core = c, geo = [], vAddr = [], ident_nType = 0\<rparr>;
      o1 = \<lparr>accept_core = c, vPayAddr = [], vXferAddr = [], nPayValue = 0, nXferValue = 0, hashOffer = 0, hXferTx = 0, hChain = 0\<rparr>
    in \<lparr>certificate = \<lparr>cert_ident = i, hashIssuer = 0, signature = \<lparr>nAlg = 0, vPubKey = [], vAddrKey = [], vSig = []\<rparr>,
          vContext = [], nFee = 0, cert_nFlag = 0\<rparr>,
        tx_alias = i, offer = \<lparr>offer_accept = o1, nPayCoin = -1, nXferCoin = -1, offer_nType = 16, accepts = []\<rparr>,
        matrix = \<lparr>matrix_nType = 1, matrix_nHeight = 5, hRef = 7, vData = [1, 2, 3, 4, 5, 6, 7, 8, 9]\<rparr>,
        channel = \<lparr>chan_origin = key0, chan_peer = key0, hRedeem = 0, nSeq = 1\<rparr>\<rparr>)"

definition tx2 :: CTransaction where
  "tx2 = tx1\<lparr>nFlag := TXF_VERSION OR TXF_MATRIX\<rparr>"

lemmas TXF_defs = TXF_VERSION_def TXF_CERTIFICATE_def TXF_LICENSE_def TXF_ALIAS_def TXF_OFFER_def TXF_OFFER_ACCEPT_def
  TXF_ASSET_def TXF_IDENT_def TXF_MATRIX_def TXF_CHANNEL_def TXF_EXEC_def TXF_CONTEXT_def

lemma tx2_flags:
  "with_matrix (nFlag tx2)" "\<not> with_certificate (nFlag tx2)" "\<not> with_alias (nFlag tx2)" "\<not> with_offer (nFlag tx2)"
  "\<not> with_channel (nFlag tx2)"
  by (simp_all add: tx2_def TXF_defs with_matrix_def with_certificate_def with_alias_def with_offer_def with_channel_def)

lemma tx2_ok: "tx_ok tx2" "ext_ok 0 (nFlag tx2) ext1"
  using tx1_ok(1) by (simp_all add: ext_ok_def tx2_flags) (simp_all add: tx2_def tx_ok_def ext1_def Let_def matrix_ok_def)

theorem tx_round_trip_witness:
  "de_tx 0 1 SetNull (ext1\<lparr>matrix := matrix ext1\<lparr>vData := replicate 9 0\<rparr>\<rparr>) (ser_tx 1 tx2 ext1) = Some ((with_ext tx2 ext1, ext1), [])"
proof -
  have "\<not> empty_form 1 tx2" "\<not> wit_IsNull (wit tx2)" "\<not> no_witness 1" "resize (length (vin tx2)) [] (wit tx2) = wit tx2"
    by (simp_all add: empty_form_def tx2_def tx1_def SetNull_def wit_IsNull_def no_witness_def
      SERIALIZE_TRANSACTION_NO_WITNESS_def resize_def)
  moreover have "select_ext (nFlag tx2) (ext1\<lparr>matrix := matrix ext1\<lparr>vData := replicate 9 0\<rparr>\<rparr>) ext1 = ext1"
    by (simp add: select_ext_def tx2_flags)
  ultimately show ?thesis
    using tx_round_trip [OF tx2_ok, of 1 SetNull "ext1\<lparr>matrix := matrix ext1\<lparr>vData := replicate 9 0\<rparr>\<rparr>" "[]"] by simp
qed

text \<open>What the identifier covers: everything but the witness and the objects that are not selected.\<close>

definition same_content :: "CTransaction \<Rightarrow> tx_ext \<Rightarrow> CTransaction \<Rightarrow> tx_ext \<Rightarrow> bool" where
  "same_content a x b y \<longleftrightarrow> nFlag a = nFlag b \<and> vin a = vin b \<and> vout a = vout b \<and> nLockTime a = nLockTime b \<and>
     select_ext (nFlag a) x y = x"

lemma GetHash_ser_tx: "Tx.GetHash E (with_ext a x) = of_nat (le_dec (Hash E (ser_tx SERIALIZE_TRANSACTION_NO_WITNESS a x)))"
proof -
  have "ser_core v (with_ext a x) = ser_core v a" for v
    by (simp add: ser_core_def with_ext_def write_flag_def written_def)
  then show ?thesis by (simp add: GetHash_def SerializeHash_def ser_tx_def with_ext_def)
qed

lemma ser_tx_eq_iff:
  assumes "tx_ok a" "tx_ok b" "ext_ok g (nFlag a) x" "ext_ok g (nFlag b) y"
  shows "ser_tx SERIALIZE_TRANSACTION_NO_WITNESS a x = ser_tx SERIALIZE_TRANSACTION_NO_WITNESS b y \<longleftrightarrow> same_content a x b y"
proof
  let ?v = SERIALIZE_TRANSACTION_NO_WITNESS
  have w: "\<not> write_flag ?v t" for t by (simp add: write_flag_def no_witness_flag)
  note r = de_ser_core_plain [OF _ w, of _ SetNull]
  assume e: "ser_tx ?v a x = ser_tx ?v b y"
  have "a\<lparr>wit := wit SetNull, payload := payload SetNull\<rparr> = b\<lparr>wit := wit SetNull, payload := payload SetNull\<rparr> \<and>
      ser_ext (nFlag a) x = ser_ext (nFlag b) y"
    using r [OF assms(1), of "ser_ext (nFlag a) x"] r [OF assms(2), of "ser_ext (nFlag b) y"] e
    by (simp add: ser_tx_def no_witness_flag)
  then have c: "nFlag a = nFlag b" "vin a = vin b" "vout a = vout b" "nLockTime a = nLockTime b"
    and d: "ser_ext (nFlag a) x = ser_ext (nFlag a) y"
    by (cases a; cases b; simp)+
  have "select_ext (nFlag a) x x = select_ext (nFlag a) x y"
    using de_ser_ext [OF assms(3), of x "[]"] de_ser_ext [OF assms(4), of x "[]"] c(1) d by simp
  with c show "same_content a x b y" by (simp add: same_content_def)
next
  assume s: "same_content a x b y"
  then have "ser_ext (nFlag b) y = ser_ext (nFlag a) x" by (metis same_content_def ser_select_ext)
  with s show "ser_tx SERIALIZE_TRANSACTION_NO_WITNESS a x = ser_tx SERIALIZE_TRANSACTION_NO_WITNESS b y"
    by (simp add: same_content_def ser_tx_def ser_core_def write_flag_def no_witness_flag)
qed

text \<open>
  C23: what the identifier of a transaction covers. The bytes that \<open>GetHash\<close> hashes are those of the
  core without the witness and of the extension objects. For two transactions within the size limits
  these bytes are the same exactly when the transactions agree in flags, inputs, outputs, lock time and
  in the extension objects that the flags select; then the identifiers agree, and when the hash
  function has no collision on the two byte strings they agree only then. A change of the witness never
  changes the identifier.
\<close>

theorem txid_covers:
  assumes "tx_ok a" and "tx_ok b" and "ext_ok g (nFlag a) x" and "ext_ok g (nFlag b) y"
  shows "(ser_tx SERIALIZE_TRANSACTION_NO_WITNESS a x = ser_tx SERIALIZE_TRANSACTION_NO_WITNESS b y \<longleftrightarrow> same_content a x b y) \<and>
    (same_content a x b y \<longrightarrow> Tx.GetHash E (with_ext a x) = Tx.GetHash E (with_ext b y)) \<and>
    (inj_on (\<lambda>bs. of_nat (le_dec (Hash E bs)) :: u256)
        {ser_tx SERIALIZE_TRANSACTION_NO_WITNESS a x, ser_tx SERIALIZE_TRANSACTION_NO_WITNESS b y} \<longrightarrow>
      (Tx.GetHash E (with_ext a x) = Tx.GetHash E (with_ext b y) \<longleftrightarrow> same_content a x b y)) \<and>
    Tx.GetHash E (with_ext (a\<lparr>wit := w\<rparr>) x) = Tx.GetHash E (with_ext a x)"
proof (intro conjI)
  let ?h = "\<lambda>bs. of_nat (le_dec (Hash E bs)) :: u256"
  note b = ser_tx_eq_iff [OF assms]
  show "ser_tx SERIALIZE_TRANSACTION_NO_WITNESS a x = ser_tx SERIALIZE_TRANSACTION_NO_WITNESS b y \<longleftrightarrow> same_content a x b y"
    by (rule b)
  show "same_content a x b y \<longrightarrow> Tx.GetHash E (with_ext a x) = Tx.GetHash E (with_ext b y)"
    by (simp add: GetHash_ser_tx b [symmetric])
  show "inj_on ?h {ser_tx SERIALIZE_TRANSACTION_NO_WITNESS a x, ser_tx SERIALIZE_TRANSACTION_NO_WITNESS b y} \<longrightarrow>
      (Tx.GetHash E (with_ext a x) = Tx.GetHash E (with_ext b y) \<longleftrightarrow> same_content a x b y)"
    unfolding GetHash_ser_tx b [symmetric] by (auto dest: inj_onD)
  show "Tx.GetHash E (with_ext (a\<lparr>wit := w\<rparr>) x) = Tx.GetHash E (with_ext a x)"
    by (simp add: GetHash_ser_tx ser_tx_def ser_core_def write_flag_def no_witness_flag)
qed

text \<open>
  Changing the matrix changes the hashed bytes. A hash function that keeps the first byte has no
  collision between a transaction with version flag and one without.
\<close>

lemma of_nat_parity:
  assumes "(of_nat m :: u256) = of_nat n"
  shows "even m \<longleftrightarrow> even n"
proof -
  have "take_bit 256 m = take_bit 256 n" using assms by (simp add: word_of_nat_eq_iff)
  then have "even (take_bit 256 m) \<longleftrightarrow> even (take_bit 256 n)" by (rule arg_cong)
  then show ?thesis by (simp add: even_take_bit_eq)
qed

lemma ref_hash_parity: "even (le_dec (Script_Eval.Hash ref_env (c # r))) \<longleftrightarrow> even (unat c)"
proof -
  have "SHA256 ref_env (c # s) = c # take 31 (s @ replicate 32 0)" for s by (simp add: ref_env_def take_Cons')
  then show ?thesis by (simp add: Script_Eval.Hash_def)
qed

lemma ser_tx2:
  obtains r r' where "ser_tx SERIALIZE_TRANSACTION_NO_WITNESS tx2 ext1 = 1 # r"
    "ser_tx SERIALIZE_TRANSACTION_NO_WITNESS (tx2\<lparr>nFlag := TXF_MATRIX\<rparr>) ext1 = 0 # r'"
proof -
  have "ser_int 4 (TXF_VERSION OR TXF_MATRIX) = [1, 8, 0, 0]" "ser_int 4 TXF_MATRIX = [0, 8, 0, 0]" by code_simp+
  then have "\<exists>r. ser_tx SERIALIZE_TRANSACTION_NO_WITNESS tx2 ext1 = 1 # r"
    "\<exists>r'. ser_tx SERIALIZE_TRANSACTION_NO_WITNESS (tx2\<lparr>nFlag := TXF_MATRIX\<rparr>) ext1 = 0 # r'"
    by (simp_all add: ser_tx_def ser_core_def tx2_def)
  with that show ?thesis by blast
qed

theorem txid_covers_witness:
  "ser_tx SERIALIZE_TRANSACTION_NO_WITNESS tx2 ext1 \<noteq>
     ser_tx SERIALIZE_TRANSACTION_NO_WITNESS tx2 (ext1\<lparr>matrix := matrix ext1\<lparr>vData := [0, 0, 0, 0, 0, 0, 0, 0, 0]\<rparr>\<rparr>) \<and>
   Tx.GetHash ref_env (with_ext tx2 ext1) \<noteq> Tx.GetHash ref_env (with_ext (tx2\<lparr>nFlag := TXF_MATRIX\<rparr>) ext1) \<and>
   Tx.GetHash ref_env (with_ext (tx2\<lparr>wit := []\<rparr>) ext1) = Tx.GetHash ref_env (with_ext tx2 ext1)"
proof -
  let ?y = "ext1\<lparr>matrix := matrix ext1\<lparr>vData := [0, 0, 0, 0, 0, 0, 0, 0, 0]\<rparr>\<rparr>" and ?b = "tx2\<lparr>nFlag := TXF_MATRIX\<rparr>"
  have y: "ext_ok 0 (nFlag tx2) ?y" by (simp add: ext_ok_def tx2_flags matrix_ok_def)
  have "\<not> same_content tx2 ext1 tx2 ?y"
    by (simp add: same_content_def select_ext_def tx2_flags) (simp add: ext1_def Let_def)
  note m = txid_covers [OF tx2_ok(1) tx2_ok(1) tx2_ok(2) y, of ref_env "[]"] this
  have b: "tx_ok ?b" "ext_ok 0 (nFlag ?b) ext1"
    using tx2_ok(1) by (simp_all add: tx_ok_def TXF_defs ext_ok_def with_certificate_def with_alias_def with_offer_def
      with_channel_def) (simp add: ext1_def Let_def matrix_ok_def)
  obtain r r' where "ser_tx SERIALIZE_TRANSACTION_NO_WITNESS tx2 ext1 = 1 # r"
    "ser_tx SERIALIZE_TRANSACTION_NO_WITNESS ?b ext1 = 0 # r'" by (rule ser_tx2)
  then have "inj_on (\<lambda>bs. of_nat (le_dec (Script_Eval.Hash ref_env bs)) :: u256)
      {ser_tx SERIALIZE_TRANSACTION_NO_WITNESS tx2 ext1, ser_tx SERIALIZE_TRANSACTION_NO_WITNESS ?b ext1}"
    using ref_hash_parity [of 1 r] ref_hash_parity [of 0 r'] by (auto simp: inj_on_def dest: of_nat_parity)
  moreover have "\<not> same_content tx2 ext1 ?b ext1" by (simp add: same_content_def tx2_def TXF_defs)
  ultimately show ?thesis using txid_covers [OF tx2_ok(1) b(1) tx2_ok(2) b(2), of ref_env "[]"] m by blast
qed

end
