(* ===== verification/Spec2Isabelle.thy ===== *)
theory Spec2Isabelle
  imports Coin_Proto Unet_Cycle Merkle Version_Bits Reorg Connect Commitment Subsidy Block_Process Tx_Ext
begin

text \<open>
  A verification library for the coin daemon of \<^verbatim>\<open>src/src/share-coin\<close>: the block-chain database, the
  table of descriptors, the socket engine and the table of coin interfaces, and of the C++ server the
  scripts, transactions, blocks, coins, rewards, difficulty and the processing of blocks of the coins
  SHC, USDE, EMC2 and TEST, with the theorems that make them correct.

  \<^bold>\<open>The program.\<close> \<^verbatim>\<open>shcoind\<close> keeps, for each of its coins, databases of blocks, transactions and coins
  in memory-mapped files (\<^verbatim>\<open>blockchain/\<close>), talks to peers and miners over sockets that one loop
  drives (\<^verbatim>\<open>unet/\<close>), and holds every open file and socket in one table of descriptors
  (\<^verbatim>\<open>shcoind_descriptor.c\<close>). The database claims its files in that table, the loop its sockets. The
  server (\<^verbatim>\<open>server/\<close>) keeps an index of all blocks in memory. A block that arrives is checked
  (\<open>CheckBlock\<close>), kept as an orphan or accepted (\<open>AcceptBlock\<close>), put into the index, and, when it gives
  a chain with more work, made the best block: blocks are disconnected and connected, and connecting
  a block runs the scripts of its inputs and marks outputs as spent in the coin database.

  \<^bold>\<open>Theories of the C core.\<close>
  \<^item> \<^verbatim>\<open>Prelude\<close>: byte memory, little-endian numbers, error codes of libshare, and two contracts
    stated as locales: \<^verbatim>\<open>append_log\<close> (a log that only grows) and \<^verbatim>\<open>refined_machine\<close> (a program that
    answers as a specification does, as long as a budget lasts).
  \<^item> \<^verbatim>\<open>Os_Model\<close>: files, descriptors and what the system and libshare decide (\<^typ>\<open>env\<close>).
  \<^item> \<^verbatim>\<open>Descriptor\<close>: \<^verbatim>\<open>shcoind_descriptor.c\<close>; the state \<^typ>\<open>world\<close> extends the system's by the table.
  \<^item> \<^verbatim>\<open>Bc_Fmap\<close>, \<^verbatim>\<open>Bc_State\<close>, \<^verbatim>\<open>Bc_Table\<close>, \<^verbatim>\<open>Bc_Index\<close>, \<^verbatim>\<open>Bc_Arch\<close>, \<^verbatim>\<open>Bc_Block\<close>: \<^verbatim>\<open>bc_fmap.c\<close>,
    the handle of \<^verbatim>\<open>bc.h\<close>, \<^verbatim>\<open>bc_table.c\<close>, \<^verbatim>\<open>bc_index.c\<close>, \<^verbatim>\<open>bc_arch.c\<close> and \<^verbatim>\<open>bc_block.c\<close>, one definition
    per function and under its name; the helpers with a leading underscore are the \<open>_body\<close>
    definitions. The table is interpreted as a \<^verbatim>\<open>pos_cache\<close>: a bound on the positions of the records of
    a bucket that may be forgotten but is never wrong.
  \<^item> \<^verbatim>\<open>Bc_Life\<close>, \<^verbatim>\<open>Bc_Ops\<close>, \<^verbatim>\<open>Bc_Example\<close>: opening, closing and idling; the database as an abstract data
    type, interpreted as \<^verbatim>\<open>append_log\<close> and \<^verbatim>\<open>refined_machine\<close>; a concrete database.
  \<^item> \<^verbatim>\<open>Coin_Proto\<close>: the lookups of \<^verbatim>\<open>proto/coin_proto.c\<close>.
  \<^item> \<^verbatim>\<open>Unet_State\<close>, \<^verbatim>\<open>Unet_Conn\<close>, \<^verbatim>\<open>Unet_Event\<close>, \<^verbatim>\<open>Unet_Cycle\<close>: the files of \<^verbatim>\<open>unet/\<close>. The loops over
    the descriptor table are interpreted as a \<^verbatim>\<open>slot_sweep\<close>.

  \<^bold>\<open>Theories of the server.\<close>
  \<^item> \<^verbatim>\<open>Bignum\<close>, \<^verbatim>\<open>Script\<close>, \<^verbatim>\<open>Script_Eval\<close>, \<^verbatim>\<open>Script_Std\<close>, \<^verbatim>\<open>Solver\<close>: the numbers of scripts (\<^verbatim>\<open>bignum.h\<close>),
    reading and counting opcodes (\<^verbatim>\<open>script.h\<close>), the interpreter \<open>EvalScript\<close> with \<open>VerifyScript\<close>, the
    standard ways to spend, and which scripts are standard or belong to the wallet (\<^verbatim>\<open>script.cpp\<close>).
  \<^item> \<^verbatim>\<open>Serialize\<close>, \<^verbatim>\<open>Tx\<close>, \<^verbatim>\<open>Tx_Ext\<close>, \<^verbatim>\<open>Tx_Check\<close>: serialization (\<^verbatim>\<open>serialize.h\<close>), transactions and their
    hashes, the objects of the extensions that a transaction carries and the serialization of whole
    transactions (\<^verbatim>\<open>ext/\<close>, \<^verbatim>\<open>matrix.h\<close>), and the checks that need no chain (\<^verbatim>\<open>coin.cpp\<close>, \<^verbatim>\<open>block.cpp\<close>,
    \<^verbatim>\<open>block.h\<close>). Each type that is serialized is interpreted as a \<^verbatim>\<open>codec\<close>: the size is that of the bytes,
    reading gives back what was written and the rest of the input, and no reader takes fewer bytes
    than are written for its result.
  \<^item> \<^verbatim>\<open>Merkle\<close>, \<^verbatim>\<open>Commitment\<close>: the merkle trees of \<^verbatim>\<open>block_merkle.cpp\<close> and \<^verbatim>\<open>wit_merkle.cpp\<close>, with the row of
    pairs above a row (\<open>up\<close>) as the reference; the commitment of a block to its witnesses.
  \<^item> \<^verbatim>\<open>Coins\<close>, \<^verbatim>\<open>Connect\<close>: the coin database of \<^verbatim>\<open>coin.cpp\<close> over the block database, interpreted as a
    \<^verbatim>\<open>refined_machine\<close> that implements a map; connecting a block and disconnecting a transaction. What
    every input of a block keeps is the locale \<^verbatim>\<open>connect_inv\<close>, interpreted for three invariants.
  \<^item> \<^verbatim>\<open>Chain_Index\<close>: \<^verbatim>\<open>CBlockIndex\<close> with its far pointers (\<^verbatim>\<open>block.h\<close>, \<^verbatim>\<open>block.cpp\<close>), the insertion of a block
    and the filling of the index of each coin (\<^verbatim>\<open>shc_txidx.cpp\<close>, \<^verbatim>\<open>usde_txidx.cpp\<close>, \<^verbatim>\<open>emc2_txidx.cpp\<close>). The
    invariant is \<^term>\<open>tree_ok\<close>, the reference the walk from parent to parent.
  \<^item> \<^verbatim>\<open>Version_Bits\<close>: \<^verbatim>\<open>versionbits.cpp\<close>; the states as a step relation \<^term>\<open>vb_step\<close>.
  \<^item> \<^verbatim>\<open>Subsidy\<close>, \<^verbatim>\<open>Difficulty\<close>: the rewards of the coins; compact targets, the proof of work and
    \<open>GetNextWorkRequired\<close>. How a coin reads the time between two blocks is the locale \<^verbatim>\<open>past_seconds\<close>.
  \<^item> \<^verbatim>\<open>Reorg\<close>: \<^verbatim>\<open>GetCommitBranches\<close> and \<^verbatim>\<open>core_CommitBlock\<close> of \<^verbatim>\<open>block.cpp\<close>; the forward pointers mark the
    best chain (\<^term>\<open>main_chain\<close>). The addresses of the nodes, by which the code orders its calls, are
    an argument of which nothing is assumed.
  \<^item> \<^verbatim>\<open>Block_Check\<close>, \<^verbatim>\<open>Block_Accept\<close>, \<^verbatim>\<open>Block_Process\<close>: \<open>CheckBlock\<close>, \<open>AcceptBlock\<close>, \<open>AddToBlockIndex\<close>,
    \<open>SetBestChain\<close>, \<open>ComputeMinWork\<close> and \<open>ProcessBlock\<close> of the four coins (\<^verbatim>\<open>shc_block.cpp\<close>,
    \<^verbatim>\<open>usde_block.cpp\<close>, \<^verbatim>\<open>emc2_block.cpp\<close>, \<^verbatim>\<open>test_block.cpp\<close>, \<^verbatim>\<open>block.cpp\<close>) with checkpoints and orphans. What the
    queue of orphans needs of \<open>AcceptBlock\<close> is the locale \<^verbatim>\<open>block_acceptor\<close>, interpreted for each coin.

  \<^bold>\<open>Conventions.\<close> An operation takes the environment and the state and returns an option: \<^term>\<open>None\<close> is an
  access outside an array, a dereferenced null pointer, another undefined operation or a loop that
  does not end; otherwise a code, a result and the new state. Machine integers of the files are
  words. The predicates \<^term>\<open>os_ok\<close> (no system call fails), \<^term>\<open>db_ok\<close> (the files of a database are
  consistent and have room for so many bytes), \<^term>\<open>eng_inv\<close> (the tables of the socket engine),
  \<^term>\<open>ne_ok\<close> (the callbacks of the engine return, leave the descriptor table in place and change the table of
  events only through its functions, and an accepted socket has an address), \<^term>\<open>chain_inv\<close> and \<^term>\<open>bnode_ok\<close> (the index, the best chain and the orphans) are
  the invariants. A node of the block index is named by its hash, so that a pointer to it is the
  hash. Hash functions, the check of a signature, OpenSSL's big numbers (\<^term>\<open>bn_lib_ok\<close> states what is
  documented of them), the clock and random numbers are arguments. Whether the address of the first
  byte of an empty vector can be taken, which C++ leaves undefined and the hash opcodes do, is the
  argument \<^term>\<open>front_of_empty\<close>; the size of libshare's \<open>shgeo_t\<close> is an argument of the readers. Build
  options are those without LevelDB (\<open>USE_LEVELDB_COINDB\<close>).

  \<^bold>\<open>Bounds.\<close> A file's end is kept below 1000000000 bytes and its size below 2300000000 (\<^term>\<open>capacity\<close>):
  growing by a tenth then stays below 3900000000, where the 32-bit computation of sizes is exact.
  The socket engine takes descriptors below 4096; a cycle is undefined exactly when it marks a service
  socket from 1024, the size of an \<open>fd_set\<close>, on. The merkle computation in constant space is exact up
  to 2147483648 leaves, where its 32-bit count wraps; the indices of the table of rows and the
  heights of blocks are unbounded in the model, which agrees with the code up to $2^{30}$ leaves and
  $2^{31}$ blocks. The weight of a block does not wrap below $2^{30}$ bytes. The averages of the difficulty run over at most
  4031 (SHC, USDE) or 10080 (EMC2) blocks, which is the fuel of their loop. The rewards are defined
  up to the heights 95989503 (SHC), 8934655 (USDE) and 14580000 (EMC2); after them a shift exceeds
  the width of its type or the computation is undefined otherwise. Following orphans to their root ends when the hashes of the blocks have no cycle, stated
  as a rank.

  \<^bold>\<open>What the lemmas show.\<close> Of each operation of the database: that it returns, with which code, what it
  does to the chain and the archive, and that the files stay consistent; of sequences of operations:
  that they answer as a specification on lists; of the socket engine: that a cycle never leaves its
  tables but in one way, which sockets it closes, refuses and watches, and that bytes keep their order; of scripts:
  what spends the standard outputs, the limits of the interpreter and when it is defined; of
  transactions and blocks: that reading inverts writing, what hashes cover and exactly what the
  checks accept; of the coin database: that it is a map, that a connected block spends exactly its
  inputs, that none is spent twice and that disconnecting releases them; of the merkle trees: that the
  two computations agree and that branches prove membership; of the index: that far pointers never
  change an answer, however blocks come in; of the deployments: that the cache never changes an
  answer, which states are final and under which condition; of rewards and difficulty: the total
  supply, and that the required target is always valid; of the best chain: that the branches meet
  at the fork and the forward pointers mark exactly the best chain, and, for any sequence of blocks, that
  the best block has the most work and no orphan is left whose parent is known. Where the code does
  something else than it means to, the theorem states what it does and its text says so.

  \<^bold>\<open>Not modelled.\<close> Log and debug output. The discovery of the local address over the network
  (\<^verbatim>\<open>unet_local.c\<close>), which is input and output through libshare. Of the C++ server the wallet and its
  keys, the memory pool, block templates, the messages between nodes, RPC and what the
  extensions do (aliases, certificates, licenses, matrices and the like, which \<open>AcceptBlock\<close> sees as an
  argument; only their data and serialization are modelled); the
  build with LevelDB; the stratum server's JSON messages, the fractal images (floating point), the
  console client, the vendored curve library and the tests. Concurrency: the daemon is one thread.
\<close>

section \<open>A second environment\<close>

text \<open>The same environment with another checksum, in which every record of before is corrupt.\<close>

definition env1 :: env where
  "env1 = env0\<lparr>e_crc32 := (\<lambda>_. 999)\<rparr>"

lemma os_ok1: "os_ok env1"
  using os_ok0 by (simp add: os_ok_def env1_def)

lemma env1_paths: "ext_path env1 = ext_path env0" "bc_map_path env1 = bc_map_path env0" "jrnl_path env1 = jrnl_path env0"
  by (simp_all add: ext_path_def bc_map_path_def bc_path_base_def jrnl_path_def env1_def fun_eq_iff)

lemma env1_same:
  "rec_at env1 = rec_at env0" "rec_count env1 = rec_count env0" "extent env1 = extent env0"
  "jrnl_path env1 = jrnl_path env0" "db_open env1 = db_open env0"
proof -
  show "rec_at env1 = rec_at env0" "rec_count env1 = rec_count env0" "extent env1 = extent env0"
    "jrnl_path env1 = jrnl_path env0"
    by (simp_all add: rec_at_def rec_count_def extent_def env1_paths fun_eq_iff)
  have "file_ok env1 = file_ok env0" by (simp add: file_ok_def env1_def fun_eq_iff)
  then show "db_open env1 = db_open env0"
    by (simp add: db_open_def bc_ok_def slot_ok_def map_ok_def world_ok_def db_room_def env1_paths fun_eq_iff)
qed

section \<open>Properties of the block database\<close>

text \<open>
  C2: appending any sequence of non-empty records that fits the files succeeds, and then \<open>bc_get\<close>
  returns each record's bytes at the position at which it was appended, and at every earlier
  position what was there before.
\<close>

theorem appends_then_get:
  assumes "os_ok e" and "db_ok e bc w n"
    and "\<forall>r\<in>set rs. length (fst r) = 8 \<and> snd r \<noteq> []" and "sum_list (map req_cost rs) \<le> n"
  shows "\<exists>bc' w'. add_all (append_req e) rs (bc, w) = Some (bc', w') \<and>
     (\<forall>j < length rs. \<exists>s. bc_get e bc' (of_nat (length (chain e (bc_name bc) w) + j)) w' =
        Some ((0, Some (snd (rs ! j))), s)) \<and>
     (\<forall>i < length (chain e (bc_name bc) w). \<exists>s. bc_get e bc' (of_nat i) w' =
        Some (case chain e (bc_name bc) w ! i of None \<Rightarrow> (SHERR_NOENT, None) | Some (h, d) \<Rightarrow> (0, Some d), s))"
proof -
  let ?nm = "bc_name bc" and ?xs = "chain e (bc_name bc) w"
  have st: "db_state e ?nm n (bc, w)" using assms by (simp add: db_state_def)
  have valid: "\<forall>r\<in>set rs. req_valid r" using assms(3) by (simp add: req_valid_def)
  obtain bc' w' where run: "add_all (append_req e) rs (bc, w) = Some (bc', w')"
    and db: "db_ok e bc' w' (n - sum_list (map req_cost rs))" and nm: "bc_name bc' = ?nm"
    and ch: "chain e ?nm w' = ?xs @ map req_block rs"
    using blk.adds_ok [OF st valid assms(4)] by (auto simp: db_state_def)
  have get: "\<exists>s. bc_get e bc' (of_nat i) w' =
      Some (case chain e ?nm w' ! i of None \<Rightarrow> (SHERR_NOENT, None) | Some (h, d) \<Rightarrow> (0, Some d), s)"
    if "i < length (chain e ?nm w')" for i
  proof -
    have "unat (of_nat i :: u32) = i"
      using that idx_count_less [of e ?nm w'] by (intro unat_of_nat_u32) simp
    then show ?thesis
      using bc_get_ok [OF assms(1) db, of "of_nat i"] that by (auto simp: returns_def nm lookup_def)
  qed
  have "\<exists>s. bc_get e bc' (of_nat (length ?xs + j)) w' = Some ((0, Some (snd (rs ! j))), s)"
    if "j < length rs" for j
  proof -
    have "chain e ?nm w' ! (length ?xs + j) = Some (fst (rs ! j), snd (rs ! j))"
      using assms(3) that by (auto simp: ch req_block_def block_def nth_append)
    with get [of "length ?xs + j"] that show ?thesis unfolding ch by (simp add: case_prod_beta)
  qed
  moreover have "\<exists>s. bc_get e bc' (of_nat i) w' =
      Some (case ?xs ! i of None \<Rightarrow> (SHERR_NOENT, None) | Some (h, d) \<Rightarrow> (0, Some d), s)"
    if "i < length ?xs" for i
  proof -
    have "chain e ?nm w' ! i = ?xs ! i" unfolding ch using that by (rule nth_append_left)
    with get [of i] that show ?thesis unfolding ch by simp
  qed
  ultimately show ?thesis using run by blast
qed

theorem appends_then_get_witness:
  "\<exists>bc' w'. add_all (append_req env0) [(hash1, [5, 6]), (rev hash1, [7])] (bc0, world0) = Some (bc', w') \<and>
     (\<exists>s. bc_get env0 bc' 1 w' = Some ((0, Some [7]), s))"
proof -
  have "\<exists>bc' w'. add_all (append_req env0) [(hash1, [5, 6]), (rev hash1, [7])] (bc0, world0) = Some (bc', w') \<and>
     (\<forall>j < length [(hash1, [5, 6 :: u8]), (rev hash1, [7])].
        \<exists>s. bc_get env0 bc' (of_nat (length (chain env0 (bc_name bc0) world0) + j)) w' =
        Some ((0, Some (snd ([(hash1, [5, 6]), (rev hash1, [7])] ! j))), s))"
    using appends_then_get [OF os_ok0 db_ok0 [of 1000000], of "[(hash1, [5, 6]), (rev hash1, [7])]"]
    by (simp only: chain0) (simp add: req_cost_def)
  then show ?thesis using chain0 by (force dest: spec [of _ 1])
qed

text \<open>
  C3: the block database implements its specification on two lists. Any sequence of calls of
  \<open>bc_append\<close>, \<open>bc_get\<close>, \<open>bc_get_hash\<close>, \<open>bc_find\<close>, \<open>bc_clear\<close>, \<open>bc_purge\<close>, \<open>bc_arch\<close> and
  \<open>bc_arch_write\<close> that fits the files (and purges from a position other than 0) returns, answers as
  the specification answers, keeps the invariant of the files and ends with the specification's lists.
\<close>

theorem database_refines_lists:
  assumes "os_ok e" and "db_ok e bc w n" and "\<forall>r\<in>set rs. bc_valid r"
    and "cost_all bc_spec bc_cost rs (chain e (bc_name bc) w, archive e (bc_name bc) w) \<le> n"
  shows "\<exists>bc' w'. run_all (bc_exec e) rs (bc, w) =
      Some (fst (spec_all bc_spec rs (chain e (bc_name bc) w, archive e (bc_name bc) w)), bc', w') \<and>
    (chain e (bc_name bc) w', archive e (bc_name bc) w') =
      snd (spec_all bc_spec rs (chain e (bc_name bc) w, archive e (bc_name bc) w)) \<and>
    bc_name bc' = bc_name bc \<and> (\<exists>m. db_ok e bc' w' m)"
proof -
  have "db_state e (bc_name bc) n (bc, w)" using assms(1,2) by (simp add: db_state_def)
  from db.runs_ok [OF this assms(3)] assms(4) show ?thesis
    by (auto simp: bc_view_def db_state_def)
qed

theorem database_refines_lists_witness:
  "\<exists>s. run_all (bc_exec env0) [Append hash1 [5, 6], Find hash1, Clear 0, Get 0, Arch 0] (bc0, world0) =
     Some ([Code 0, Pos 0 (Some 0), Code 0, Bytes SHERR_NOENT None, Bytes 0 (Some [5, 6])], s)"
proof -
  let ?rs = "[Append hash1 [5, 6], Find hash1, Clear 0, Get 0, Arch 0]"
  have "cost_all bc_spec bc_cost ?rs (chain env0 (bc_name bc0) world0, archive env0 (bc_name bc0) world0) \<le> 1000"
    by (simp add: chain0 block_def lookup_def chain_find_def has_hash_def)
  from database_refines_lists [OF os_ok0 db_ok0 [of 1000] _ this] show ?thesis
    by (auto simp: chain0 block_def lookup_def chain_find_def has_hash_def bytes_at_def)
qed

text \<open>
  C33: nothing is lost by closing. \<open>bc_close\<close> followed by \<open>bc_open\<close> under the same name succeeds and
  gives a handle on the same chain and the same archive, with the invariant and the capacity kept.
\<close>

theorem close_open_keeps:
  assumes "os_ok e" and "db_ok e bc w n" and "bc_name (new_bc e name) = bc_name bc"
  shows "\<exists>w1 bc' w'. bc_close e bc w = Some w1 \<and> bc_open e name w1 = Some (0, Some bc', w') \<and>
    db_ok e bc' w' n \<and> chain e (bc_name bc) w' = chain e (bc_name bc) w \<and>
    archive e (bc_name bc) w' = archive e (bc_name bc) w"
  using close_open_ok [OF assms] by blast

theorem close_open_keeps_witness:
  "\<exists>bc w w1 bc' w'. chain env0 (bc_name bc0) w = [Some (hash1, [5, 6])] \<and> bc_close env0 bc w = Some w1 \<and>
     bc_open env0 ''shc_block'' w1 = Some (0, Some bc', w') \<and>
     chain env0 (bc_name bc0) w' = [Some (hash1, [5, 6])]"
proof (rule one_record)
  fix bc w
  assume db: "db_ok env0 bc w 999999934" and nm: "bc_name bc = bc_name bc0"
    and ch: "chain env0 (bc_name bc0) w = [Some (hash1, [5, 6])]"
  have "bc_name (new_bc env0 ''shc_block'') = bc_name bc" by (simp add: nm bc0_def)
  from close_open_keeps [OF os_ok0 db this] nm ch show ?thesis by fastforce
qed

text \<open>
  \<open>bc_find\<close> returns the newest position of a hash. After \<open>bc_append\<close> it finds the new record
  under its hash, and every other hash at the position where it was found before.
\<close>

lemma append_then_find:
  assumes "os_ok e" and "db_ok e bc w n" and "length hash = 8" and "length key = 8" and "data \<noteq> []"
    and "64 + length data \<le> n"
  shows "\<exists>bc' w'. bc_append e bc hash data w = Some (int (length (chain e (bc_name bc) w)), bc', w') \<and>
    (\<exists>s. bc_find e bc' key w' =
       Some (if key = hash then (0, Some (length (chain e (bc_name bc) w)))
             else case chain_find (chain e (bc_name bc) w) key of
               None \<Rightarrow> (SHERR_NOENT, None) | Some i \<Rightarrow> (0, Some i), s))"
proof -
  obtain bc' w' where ap: "bc_append e bc hash data w = Some (int (length (chain e (bc_name bc) w)), bc', w')"
    and db: "db_ok e bc' w' (n - 64 - length data)" and nm: "bc_name bc' = bc_name bc"
    and ch: "chain e (bc_name bc) w' = chain e (bc_name bc) w @ [block hash data]"
    using bc_append_ok [OF assms(1,2,3,6)] by (auto simp: returns_def)
  have "has_hash key (block hash data) \<longleftrightarrow> key = hash"
    using assms(5) by (auto simp: has_hash_def block_def)
  with bc_find_ok [OF assms(1) db assms(4)] ap show ?thesis
    by (auto simp: returns_def nm ch chain_find_append)
qed

lemma append_then_find_witness:
  "\<exists>bc' w' s. bc_append env0 bc0 hash1 [5, 6] world0 = Some (0, bc', w') \<and>
     bc_find env0 bc' hash1 w' = Some ((0, Some 0), s)"
  using append_then_find [OF os_ok0 db_ok0 [of 100] length_hash1 length_hash1, of "[5, 6]"]
  by (auto simp: chain0)

text \<open>
  The index table is a cache. Clearing it with \<open>bc_table_clear\<close> changes no answer of \<open>bc_find\<close>:
  the search falls back to the index and returns the newest position of the hash.
\<close>

lemma table_clear_keeps_find:
  assumes "os_ok e" and "db_ok e bc w n" and "length hash = 8"
  shows "\<exists>bc1 w1 r s1 s2. bc_table_clear e bc w = Some (0, bc1, w1) \<and>
    bc_find e bc1 hash w1 = Some (r, s1) \<and> bc_find e bc hash w = Some (r, s2)"
  using table_clear_find [OF assms] bc_find_ok [OF assms] by (auto simp: returns_def)

lemma table_clear_keeps_find_witness:
  "\<exists>bc w bc1 w1 s1. bc_table_clear env0 bc w = Some (0, bc1, w1) \<and> bc_find env0 bc1 hash1 w1 = Some ((0, Some 0), s1)"
proof (rule one_record)
  fix bc w
  assume db: "db_ok env0 bc w 999999934" and nm: "bc_name bc = bc_name bc0"
    and ch: "chain env0 (bc_name bc0) w = [Some (hash1, [5, 6])]"
  have "\<exists>s. bc_find env0 bc hash1 w = Some ((0, Some 0), s)"
    using bc_find_ok [OF os_ok0 db length_hash1]
    by (auto simp: returns_def nm ch chain_find_def has_hash_def)
  with table_clear_keeps_find [OF os_ok0 db length_hash1] show ?thesis by fastforce
qed

text \<open>
  \<open>bc_clear\<close> moves a record to the archive: it succeeds on a record, the position is empty
  afterwards, the record's bytes are the last of the archive, and every other position is unchanged.
\<close>

lemma clear_moves_to_archive:
  assumes "os_ok e" and "db_ok e bc w n" and "128 \<le> n"
    and "lookup (chain e (bc_name bc) w) (unat pos) = Some (h, d)"
  shows "\<exists>bc' w'. bc_clear e bc pos w = Some (0, bc', w') \<and> db_ok e bc' w' (n - 64) \<and>
    (\<exists>s. bc_get e bc' pos w' = Some ((SHERR_NOENT, None), s)) \<and>
    (\<forall>i. i \<noteq> unat pos \<longrightarrow> lookup (chain e (bc_name bc) w') i = lookup (chain e (bc_name bc) w) i) \<and>
    (\<exists>s. bc_arch e bc' (of_nat (length (archive e (bc_name bc) w))) w' = Some ((0, Some d), s))"
proof -
  let ?nm = "bc_name bc" and ?ar = "archive e (bc_name bc) w"
  have live: "live e ?nm w (unat pos)" using assms(4) by (simp add: live_lookup)
  obtain bc' w' where cl: "bc_clear e bc pos w = Some (0, bc', w')" and nm: "bc_name bc' = ?nm"
    and db: "db_ok e bc' w' (n - 64)" and ch: "chain e ?nm w' = (chain e ?nm w)[unat pos := None]"
    and ar: "archive e ?nm w' = ?ar @ [chain e ?nm w ! unat pos]"
    using bc_clear_ok [OF assms(1,2) live assms(3)] by (auto simp: returns_def db_cleared_def)
  have "\<exists>s. bc_get e bc' pos w' = Some ((SHERR_NOENT, None), s)"
    using bc_get_ok [OF assms(1) db, of pos] by (auto simp: returns_def nm ch lookup_def split: if_splits)
  moreover have "unat (of_nat (length ?ar) :: u32) = length ?ar"
    using rec_count_less [of e ?nm "''arch''" w] by (intro unat_of_nat_u32) simp
  then have "\<exists>s. bc_arch e bc' (of_nat (length ?ar)) w' = Some ((0, Some d), s)"
    using bc_arch_ok [OF assms(1) db, of "of_nat (length ?ar)"] assms(4)
    by (auto simp: returns_def nm ar lookup_def nth_append split: if_splits)
  ultimately show ?thesis using cl db by (auto simp: ch lookup_update)
qed

lemma clear_moves_to_archive_witness:
  "\<exists>bc w bc' w' s. bc_clear env0 bc 0 w = Some (0, bc', w') \<and> bc_arch env0 bc' 0 w' = Some ((0, Some [5, 6]), s)"
proof (rule one_record)
  fix bc w
  assume db: "db_ok env0 bc w 999999934" and nm: "bc_name bc = bc_name bc0"
    and ch: "chain env0 (bc_name bc0) w = [Some (hash1, [5, 6])]" and ar: "archive env0 (bc_name bc0) w = []"
  have "lookup (chain env0 (bc_name bc) w) (unat 0) = Some (hash1, [5, 6])" by (simp add: nm ch lookup_def)
  from clear_moves_to_archive [OF os_ok0 db _ this] show ?thesis by (simp add: nm ar) blast
qed

text \<open>
  C35: \<open>bc_purge\<close> from a position other than 0 that holds a record returns, leaves every position
  below it as it was, empties every position from it on, and appends the emptied records to the
  archive, the newest first.
\<close>

theorem purge_archives_tail:
  assumes "os_ok e" and "db_ok e bc w (n + 64 * (length (chain e (bc_name bc) w) - unat pos))" and "64 \<le> n"
    and "pos \<noteq> 0" and "lookup (chain e (bc_name bc) w) (unat pos) \<noteq> None"
  shows "\<exists>bc' w'. bc_purge e bc pos w = Some (0, bc', w') \<and> db_ok e bc' w' n \<and>
    (\<forall>i < unat pos. lookup (chain e (bc_name bc) w') i = lookup (chain e (bc_name bc) w) i) \<and>
    (\<forall>i \<ge> unat pos. lookup (chain e (bc_name bc) w') i = None) \<and>
    archive e (bc_name bc) w' = archive e (bc_name bc) w @
      filter (\<lambda>r. r \<noteq> None) (rev (drop (unat pos) (chain e (bc_name bc) w)))"
proof -
  let ?xs = "chain e (bc_name bc) w" and ?p = "unat pos"
  have p: "?p < length ?xs" using assms(5) by (auto simp: lookup_def split: if_splits)
  have "lookup (take ?p ?xs @ replicate (length ?xs - ?p) None) i = (if i < ?p then lookup ?xs i else None)" for i
    using p by (auto simp: lookup_def nth_append)
  with bc_purge_ok [OF assms] show ?thesis by (auto simp: returns_def)
qed

theorem purge_archives_tail_witness:
  "\<exists>bc w bc' w'. bc_purge env0 bc 1 w = Some (0, bc', w') \<and> archive env0 (bc_name bc0) w' = [Some (rev hash1, [7, 8])]"
proof (rule two_records)
  fix bc w
  assume db: "db_ok env0 bc w 999999868" and nm: "bc_name bc = bc_name bc0"
    and ch: "chain env0 (bc_name bc0) w = [Some (hash1, [5, 6]), Some (rev hash1, [7, 8])]"
    and ar: "archive env0 (bc_name bc0) w = []"
  have "db_ok env0 bc w (64 + 64 * (length (chain env0 (bc_name bc) w) - unat (1 :: u32)))"
    using db by (rule db_ok_mono) (simp only: nm ch, simp)
  from purge_archives_tail [OF os_ok0 this] show ?thesis
    unfolding nm ch ar by (simp add: lookup_def) blast
qed

text \<open>
  C36: \<open>bc_purge\<close> from position 0 never returns when there is a record: its loop compares the signed
  counter with the unsigned position, so that the condition \<open>i >= 0\<close> holds for ever.
\<close>

theorem purge_from_zero_diverges:
  assumes "os_ok e" and "db_ok e bc w n" and "lookup (chain e (bc_name bc) w) 0 \<noteq> None"
  shows "bc_purge e bc 0 w = None"
  using assms by (rule bc_purge_zero)

theorem purge_from_zero_diverges_witness: "\<exists>bc w. bc_purge env0 bc 0 w = None"
proof (rule one_record)
  fix bc w
  assume db: "db_ok env0 bc w 999999934" and nm: "bc_name bc = bc_name bc0"
    and ch: "chain env0 (bc_name bc0) w = [Some (hash1, [5, 6])]"
  have "lookup (chain env0 (bc_name bc) w) 0 \<noteq> None" unfolding nm ch by (simp add: lookup_def)
  from purge_from_zero_diverges [OF os_ok0 db this] show ?thesis by blast
qed

text \<open>
  Writing over a record with data of the same size replaces the bytes, keeps the old hash (the
  new one is not stored) and no other record changes; the journal grows by the data all the same.
\<close>

lemma write_over_keeps_hash:
  assumes "os_ok e" and "db_ok e bc w n" and "64 + length data \<le> n"
    and "lookup (chain e (bc_name bc) w) (unat pos) = Some (h, d)" and "length d = length data"
  shows "\<exists>bc' w'. bc_write e bc pos hash data w = Some (0, bc', w') \<and> db_ok e bc' w' (n - length data) \<and>
    (\<exists>s. bc_get e bc' pos w' = Some ((0, Some data), s)) \<and>
    (\<exists>s. bc_get_hash e bc' pos w' = Some ((0, Some h), s)) \<and>
    (\<forall>i. i \<noteq> unat pos \<longrightarrow> lookup (chain e (bc_name bc) w') i = lookup (chain e (bc_name bc) w) i) \<and>
    archive e (bc_name bc) w' = archive e (bc_name bc) w"
proof -
  let ?nm = "bc_name bc"
  have p: "unat pos < length (chain e ?nm w)" using assms(4) by (auto simp: lookup_def split: if_splits)
  obtain bc' w' where wr: "bc_write e bc pos hash data w = Some (0, bc', w')" and nm: "bc_name bc' = ?nm"
    and db: "db_ok e bc' w' (n - length data)" and ch: "chain e ?nm w' = (chain e ?nm w)[unat pos := Some (h, data)]"
    and ar: "archive e ?nm w' = archive e ?nm w"
    using bc_write_exist [OF assms, of hash] by (auto simp: returns_def)
  have "lookup (chain e ?nm w') (unat pos) = Some (h, data)" unfolding ch lookup_def using p by simp
  with bc_get_ok [OF assms(1) db, of pos] bc_get_hash_ok [OF assms(1) db, of pos]
  have "\<exists>s. bc_get e bc' pos w' = Some ((0, Some data), s)" "\<exists>s. bc_get_hash e bc' pos w' = Some ((0, Some h), s)"
    by (auto simp: returns_def nm)
  with wr db ar show ?thesis by (auto simp: ch lookup_update)
qed

lemma write_over_keeps_hash_witness:
  "\<exists>bc w bc' w' s. bc_write env0 bc 0 (rev hash1) [9, 9] w = Some (0, bc', w') \<and>
     bc_get_hash env0 bc' 0 w' = Some ((0, Some hash1), s)"
proof (rule one_record)
  fix bc w
  assume db: "db_ok env0 bc w 999999934" and nm: "bc_name bc = bc_name bc0"
    and ch: "chain env0 (bc_name bc0) w = [Some (hash1, [5, 6])]"
  have "lookup (chain env0 (bc_name bc) w) (unat 0) = Some (hash1, [5, 6])" unfolding nm ch by (simp add: lookup_def)
  from write_over_keeps_hash [OF os_ok0 db _ this, of "[9, 9]" "rev hash1"] obtain bc' w' s where
    "bc_write env0 bc 0 (rev hash1) [9, 9] w = Some (0, bc', w')" "bc_get_hash env0 bc' 0 w' = Some ((0, Some hash1), s)"
    by auto
  then show ?thesis by blast
qed

text \<open>
  \<open>bc_rewrite\<close> refuses a position without a record (\<open>SHERR_NOENT\<close>) and data of another size
  (\<open>SHERR_EXIST\<close>), and neither the chain nor the archive changes.
\<close>

lemma rewrite_refuses:
  assumes "os_ok e" and "db_ok e bc w n" and "unat pos < 2147483648" and "length data < 2147483648"
    and "case lookup (chain e (bc_name bc) w) (unat pos) of None \<Rightarrow> True | Some (h, d) \<Rightarrow> length d \<noteq> length data"
  shows "\<exists>bc' w'. bc_rewrite e bc pos hash data w =
      Some (if lookup (chain e (bc_name bc) w) (unat pos) = None then SHERR_NOENT else SHERR_EXIST, bc', w') \<and>
    db_ok e bc' w' n \<and> chain e (bc_name bc) w' = chain e (bc_name bc) w \<and>
    archive e (bc_name bc) w' = archive e (bc_name bc) w"
proof -
  have r: "length d \<noteq> length data" if "lookup (chain e (bc_name bc) w) (unat pos) = Some (h, d)" for h d
    using assms(5) that by simp
  have "returns (if lookup (chain e (bc_name bc) w) (unat pos) = None then SHERR_NOENT else SHERR_EXIST)
      (bc_rewrite e bc pos hash data w) (\<lambda>(bc', w'). db_keep e bc w bc' w')"
    by (rule bc_rewrite_refused [OF assms(1-4) refl]) (use r in blast)
  then obtain bc' w' where rw: "bc_rewrite e bc pos hash data w =
      Some (if lookup (chain e (bc_name bc) w) (unat pos) = None then SHERR_NOENT else SHERR_EXIST, bc', w')"
    and k: "db_keep e bc w bc' w'" by (auto simp: returns_def)
  show ?thesis using rw db_keepD(2,3) [OF k] db_keepD(5) [OF k assms(2)] by blast
qed

lemma rewrite_refuses_witness:
  "\<exists>bc w s. bc_rewrite env0 bc 0 hash1 [9] w = Some (SHERR_EXIST, s)"
proof (rule one_record)
  fix bc w
  assume db: "db_ok env0 bc w 999999934" and nm: "bc_name bc = bc_name bc0"
    and ch: "chain env0 (bc_name bc0) w = [Some (hash1, [5, 6])]"
  have "lookup (chain env0 (bc_name bc) w) (unat 0) = Some (hash1, [5, 6])" unfolding nm ch by (simp add: lookup_def)
  with rewrite_refuses [OF os_ok0 db, of 0 "[9]" hash1] show ?thesis
    by (intro exI [of _ bc] exI [of _ w]) auto
qed

text \<open>
  C37: a record whose bytes no longer have the checksum of its index entry is not returned:
  \<open>bc_read\<close> answers \<open>SHERR_ILSEQ\<close> with a buffer of zeros, and the files stay as they are.
\<close>

theorem corrupt_record_refused:
  assumes "os_ok e" and "db_open e bc w n" and "x = idx_at e (bc_name bc) w (unat pos)"
    and "unat pos < idx_count e (bc_name bc) w" and "i_size x \<noteq> 0" and "i_jrnl x + 1 \<noteq> 0"
    and "unat (i_of x) + unat (i_size x) \<le> unat (fof w (jrnl_path e (bc_name bc) (i_jrnl x)))"
    and "e_crc32 e (extent e (bc_name bc) w x) \<noteq> i_crc x"
  shows "\<exists>bc' w'. bc_read e bc pos len w = Some ((SHERR_ILSEQ, Some (replicate (unat len) 0)), bc', w') \<and>
    chain e (bc_name bc) w' = chain e (bc_name bc) w"
proof -
  have "live e (bc_name bc) w (unat pos)" using assms by (simp add: live_def)
  from read_ilseq [OF assms(1,2) this, of len] assms(3,6-8) show ?thesis
    by (auto simp: returns_def dest: db_keepD(2))
qed

theorem corrupt_record_refused_witness:
  "\<exists>bc w s. bc_read env1 bc 0 2 w = Some ((SHERR_ILSEQ, Some [0, 0]), s)"
proof (rule one_record)
  fix bc w
  assume db: "db_ok env0 bc w 999999934" and nm: "bc_name bc = bc_name bc0"
    and ch: "chain env0 (bc_name bc0) w = [Some (hash1, [5, 6])]"
  let ?x = "idx_at env0 (bc_name bc) w (unat (0 :: u32))"
  have n: "0 < idx_count env0 (bc_name bc) w" using arg_cong [OF ch, of length] by (simp add: nm)
  have "lookup (chain env0 (bc_name bc) w) 0 = Some (hash1, [5, 6])" unfolding nm ch by (simp add: lookup_def)
  then have lv: "live env0 (bc_name bc) w (unat (0 :: u32))" and ex: "extent env0 (bc_name bc) w ?x = [5, 6]"
    by (auto simp: lookup_chain split: if_splits)
  note ok = db_inv_live(1) [OF db_okD(3) [OF db] lv, unfolded extent_ok_def]
  have "i_crc ?x = 1541" using ok ex by (simp add: env0_def)
  then have "e_crc32 env1 (extent env1 (bc_name bc) w ?x) \<noteq> i_crc ?x" by (simp add: env1_def)
  moreover have "i_size ?x \<noteq> 0" using lv by (simp add: live_def)
  ultimately have "\<exists>bc' w'. bc_read env1 bc 0 2 w = Some ((SHERR_ILSEQ, Some (replicate (unat (2 :: u32)) 0)), bc', w') \<and>
      chain env1 (bc_name bc) w' = chain env1 (bc_name bc) w"
    using ok n db_okD(1) [OF db]
    by (intro corrupt_record_refused [of env1 bc w 999999934 ?x 0 2]) (simp_all add: env1_same os_ok1)
  moreover have "replicate (unat (2 :: u32)) (0 :: u8) = [0, 0]"
    by (rule nth_equalityI) (auto simp: less_2_cases_iff)
  ultimately show ?thesis by (metis (no_types))
qed

text \<open>
  The archive is an append-only log. Writing any sequence of non-empty records with
  \<open>bc_arch_write\<close> succeeds when it fits the files; \<open>bc_arch\<close> returns each at its position, in the
  order of writing, and the chain is not touched.
\<close>

lemma arch_writes_then_arch:
  assumes "os_ok e" and "db_ok e bc w n"
    and "\<forall>r\<in>set rs. length (fst r) = 8 \<and> snd r \<noteq> []" and "sum_list (map req_cost rs) \<le> n"
  shows "\<exists>bc' w'. add_all (arch_req e) rs (bc, w) = Some (bc', w') \<and>
    (\<forall>j < length rs. \<exists>s. bc_arch e bc' (of_nat (length (archive e (bc_name bc) w) + j)) w' =
       Some ((0, Some (snd (rs ! j))), s))"
proof -
  let ?nm = "bc_name bc" and ?xs = "archive e (bc_name bc) w"
  have st: "db_state e ?nm n (bc, w)" using assms by (simp add: db_state_def)
  have valid: "\<forall>r\<in>set rs. req_valid r" using assms(3) by (simp add: req_valid_def)
  obtain bc' w' where run: "add_all (arch_req e) rs (bc, w) = Some (bc', w')"
    and db: "db_ok e bc' w' (n - sum_list (map req_cost rs))" and nm: "bc_name bc' = ?nm"
    and ar: "archive e ?nm w' = ?xs @ map req_block rs"
    using arc.adds_ok [OF st valid assms(4)] by (auto simp: db_state_def)
  have "\<exists>s. bc_arch e bc' (of_nat (length ?xs + j)) w' = Some ((0, Some (snd (rs ! j))), s)" if j: "j < length rs" for j
  proof -
    have len: "length ?xs + j < length (archive e ?nm w')" unfolding ar using j by simp
    then have "unat (of_nat (length ?xs + j) :: u32) = length ?xs + j"
      using rec_count_less [of e ?nm "''arch''" w'] by (intro unat_of_nat_u32) simp
    moreover have "archive e ?nm w' ! (length ?xs + j) = Some (fst (rs ! j), snd (rs ! j))"
      using assms(3) j by (auto simp: ar req_block_def block_def nth_append)
    ultimately have "lookup (archive e ?nm w') (unat (of_nat (length ?xs + j) :: u32)) = Some (fst (rs ! j), snd (rs ! j))"
      using len by (simp only: lookup_def if_True)
    with bc_arch_ok [OF assms(1) db, of "of_nat (length ?xs + j)"] show ?thesis
      by (cases "rs ! j") (auto simp: returns_def nm)
  qed
  with run show ?thesis by blast
qed

lemma arch_writes_then_arch_witness:
  "\<exists>bc' w'. add_all (arch_req env0) [(hash1, [5, 6])] (bc0, world0) = Some (bc', w') \<and>
     (\<exists>s. bc_arch env0 bc' 0 w' = Some ((0, Some [5, 6]), s))"
proof -
  have "\<exists>bc' w'. add_all (arch_req env0) [(hash1, [5, 6])] (bc0, world0) = Some (bc', w') \<and>
     (\<forall>j < length [(hash1, [5, 6 :: u8])]. \<exists>s. bc_arch env0 bc' (of_nat (length (archive env0 (bc_name bc0) world0) + j)) w' =
        Some ((0, Some (snd ([(hash1, [5, 6])] ! j))), s))"
    using arch_writes_then_arch [OF os_ok0 db_ok0 [of 1000000], of "[(hash1, [5, 6])]"]
    by (simp only: chain0) (simp add: req_cost_def)
  then show ?thesis by (simp add: chain0(2))
qed

text \<open>
  \<open>bc_close\<close> gives back the descriptors of the index, of the table and of every journal, and no
  other: the descriptor of the archive's map stays open.
\<close>

lemma close_leaks_archive:
  assumes "os_ok e" and "bc_ok e bc w"
  shows "\<exists>w'. bc_close e bc w = Some w' \<and> w_file w' = w_file w \<and>
    (\<forall>fd. fd_get w' fd =
       (if \<exists>m \<in> {idx_map bc, tab_map bc} \<union> set (data_map bc). m_fd m = fd \<and> 0 < fd \<and> fd < 4096
        then None else fd_get w fd)) \<and>
    (m_fd (arch_map bc) \<noteq> 0 \<longrightarrow> fd_get w' (m_fd (arch_map bc)) \<noteq> None)"
proof -
  obtain w' where w': "bc_close e bc w = Some w'" "closes (idx_map bc # tab_map bc # data_map bc) w w'"
    using bc_close_ok [OF assms] by blast
  note fds = bc_ok_fds [OF assms(2)]
  have rel: "released (idx_map bc # tab_map bc # data_map bc) fd \<longleftrightarrow>
      (\<exists>m \<in> {idx_map bc, tab_map bc} \<union> set (data_map bc). m_fd m = fd \<and> 0 < fd \<and> fd < 4096)" for fd
    using fds by (auto simp: released_def less_le)
  have "fd_get w' (m_fd (arch_map bc)) \<noteq> None" if "m_fd (arch_map bc) \<noteq> 0"
    using w'(2) arch_not_released [OF assms(2) that] by (simp add: closes_def)
  then show ?thesis using w' by (auto simp: closes_def rel)
qed

lemma close_leaks_archive_witness:
  "\<exists>bc w w'. bc_ok env0 bc w \<and> chain env0 (bc_name bc0) w = [Some (hash1, [5, 6])] \<and>
     bc_close env0 bc w = Some w' \<and> w_file w' = w_file w"
proof (rule one_record)
  fix bc w
  assume db: "db_ok env0 bc w 999999934" and ch: "chain env0 (bc_name bc0) w = [Some (hash1, [5, 6])]"
  from close_leaks_archive [OF os_ok0 db_okD(2) [OF db]] db_okD(2) [OF db] ch show ?thesis by blast
qed

text \<open>
  The size \<open>bc_map_alloc\<close> grows a file to. Up to 3.9 GB the 32-bit computation is exact: a
  multiple of 16384, larger than what is needed, and at most a tenth and a block above it.
\<close>

lemma grow_size_bounds:
  assumes "s + unat len \<le> 3900000000"
  shows "unat (bc_map_grow_size s len) = ((s + unat len + (s + unat len) div 10) div 16384 + 1) * 16384 \<and>
    s + unat len < unat (bc_map_grow_size s len) \<and> unat (bc_map_grow_size s len) mod 16384 = 0 \<and>
    unat (bc_map_grow_size s len) \<le> s + unat len + (s + unat len) div 10 + 16384"
  using bc_map_grow_size_ok [of s len] assms by (simp add: MAP_LIMIT_def)

lemma grow_size_bounds_witness: "unat (bc_map_grow_size 16384 100) = 32768"
  using grow_size_bounds [of 16384 100] by simp

text \<open>
  When the lock cannot be taken, every writing call answers \<open>SHERR_NOLCK\<close> and leaves handle and
  files as they were; \<open>bc_map_read\<close> answers success without data.
\<close>

lemma no_lock_no_change:
  assumes "\<not> lock_ok e"
  shows "bc_write e bc pos hash data w = Some (SHERR_NOLCK, bc, w) \<and>
    bc_rewrite e bc pos hash data w = Some (SHERR_NOLCK, bc, w) \<and>
    bc_purge e bc pos w = Some (SHERR_NOLCK, bc, w) \<and>
    bc_arch_write e bc hash data w = Some (SHERR_NOLCK, bc, w) \<and>
    bc_read e bc pos len w = Some ((SHERR_NOLCK, None), bc, w) \<and>
    bc_map_write e nm m off data w = Some (SHERR_NOLCK, m, w) \<and>
    bc_map_append e nm m data w = Some (SHERR_NOLCK, m, w) \<and>
    bc_map_read e m off len w = Some (0, None, m)"
  using assms
  by (simp add: bc_write_def bc_rewrite_def bc_purge_def bc_arch_write_def bc_read_def bc_map_write_def
      bc_map_append_def bc_map_read_def)

lemma no_lock_no_change_witness:
  "bc_write (env0\<lparr>lock_ok := False\<rparr>) bc0 0 hash1 [1] world0 = Some (SHERR_NOLCK, bc0, world0)"
  using no_lock_no_change [of "env0\<lparr>lock_ok := False\<rparr>" bc0 0 hash1 "[1]" world0 0 "[]" zero_map 0] by simp

section \<open>A concrete engine\<close>

text \<open>
  The environment of the socket engine at which its properties are instantiated: buffers are byte
  lists, callbacks change nothing, every socket call gives descriptor 9, a write takes at most two
  bytes. The state has a table with a connected service socket 5 of mode 1, and mode 1 bound at
  descriptor 3.
\<close>

definition addr0 :: addr where "addr0 = [2, 0, 0, 0, 1, 2, 3, 4]"

definition nenv0 :: nenv where
  "nenv0 = \<lparr>n_env = env0\<lparr>e_shaddr := (\<lambda>_. Some addr0)\<rparr>, n_clock = (\<lambda>t. of_nat (100 + t)),
     n_adj = (\<lambda>t d. t + of_int \<lfloor>d\<rfloor>), n_after = (\<lambda>a b. a > b), n_before = (\<lambda>a b. a < b),
     n_timef = (\<lambda>t. of_nat (unat t)), n_rnd = (\<lambda>x. x), n_sk = (\<lambda>_. 9), n_bindsk = (\<lambda>_ _ _. 0),
     n_acc = (\<lambda>_ _. 9), n_conn = (\<lambda>_ _ _. SHERR_INPROGRESS), n_selw = (\<lambda>_ _. 0), n_errno = (\<lambda>_. 0),
     n_peername = (\<lambda>_. addr0), n_ntop = (\<lambda>fam bs. if fam = AF_INET then ''1.2.3.4'' else ''::1''),
     n_pton = (\<lambda>_ _. []), n_print = (\<lambda>_. ''1.2.3.4''), n_peer = (\<lambda>_ _. []), n_peeraddr = (\<lambda>_. addr0),
     n_mark = (\<lambda>_ _ _. 0), n_verify = (\<lambda>_ _ _. (0, 0)), n_scan = (\<lambda>_ _. None), n_list = (\<lambda>_ _. None),
     n_count = (\<lambda>_ _. 0), n_seed = False, n_junk = 0, n_time = (\<lambda>_. 1000),
     n_sel = (\<lambda>_ rs ws _. (int (length rs), rs, [])), n_read = (\<lambda>_ _ _. Inr [65]),
     n_write = (\<lambda>_ _ _ b. int (min 2 (length b))), n_cat = (@), n_trim = (\<lambda>b n. drop n b),
     n_size = (\<lambda>b. length (buf b)), n_call = (\<lambda>_ s. Some s)\<rparr>"

definition sock5 :: desc_t where
  "sock5 = zero_desc\<lparr>d_mode := 1, d_flag := DF_SERVICE OR DF_SOCK\<rparr>"

definition net0 :: net where
  "net0 = \<lparr>nw = world0\<lparr>w_fd := [Some FOther, None, None, Some FSock, None, Some FSock],
       w_desc := Some ((\<lambda>_. zero_desc)(5 := sock5))\<rparr>,
     n_bind = (\<lambda>m. if m = 1 then zero_bind\<lparr>b_fd := 3\<rparr> else zero_bind), n_ev = (\<lambda>_. zero_uevent),
     n_evnew = 0, n_evcur = 0, n_ip = [], n_primary = [], n_track = [], n_tick = 0, n_next_t = 0,
     n_idle_t = 1 / 10, n_start_t = 0\<rparr>"

lemma socks0: "has_table net0" "socks net0 = (\<lambda>_. zero_desc)(5 := sock5)"
  by (simp_all add: net0_def desc_table_def)

lemma sock_flags [simp]:
  "d_flag zero_desc = 0" "d_flag sock5 = 6" "d_mode sock5 = 1" "DF_SERVICE = 4" "DF_SOCK = 2" "d_wbuff sock5 = None"
  by (simp_all add: zero_desc_def sock5_def df_defs)

lemma closers_ok0: "closers_ok nenv0"
  by (simp add: closers_ok_def nenv0_def)

lemma closing0: "closing nenv0 net0"
  by (simp add: closing_def closers_ok0 socks0)

lemma ne_ok0: "ne_ok nenv0"
  by (auto simp: ne_ok_def nenv0_def intro: outside.other)

lemma eng_inv0: "eng_inv net0"
  unfolding eng_inv_def socks0 by (auto simp: socks0 net0_def zero_uevent_def)

lemma shbuf_ok0: "shbuf_ok nenv0"
  by (simp add: shbuf_ok_def nenv0_def)

section \<open>Properties of the socket engine\<close>



text \<open>
  A service socket with a number from 1024 on breaks the cycle: marking it for \<open>select\<close> writes
  outside the descriptor set, although the engine accepts sockets up to 4095.
\<close>

lemma mark_overflows:
  assumes "closing ne s" and "1024 \<le> sk" and "sk < 4096" and "pollable ne (socks s sk)"
  shows "cycle_mark ne s = None"
  using assms by (rule cycle_mark_overflow)

lemma mark_overflows_witness:
  "cycle_mark nenv0 (net0\<lparr>nw := (nw net0)\<lparr>w_desc := Some ((\<lambda>_. zero_desc)(1024 := sock5))\<rparr>\<rparr>) = None"
  by (rule mark_overflows [where sk = 1024])
    (simp_all add: closing_def closers_ok0 desc_table_def pollable_def shut_def df_defs)

text \<open>
  What the cycle asks \<open>select\<close> about. Sockets that are shut down with nothing left to write are
  closed; of the others exactly the service sockets are watched for input, and those of them with
  something to write for output.
\<close>

lemma mark_selects_services:
  assumes "closing ne s" and "\<forall>sk < 4096. pollable ne (socks s sk) \<longrightarrow> sk < 1024"
  shows "\<exists>k s'. cycle_mark ne s = Some (k, s') \<and>
    set (m_r k) = {sk. 1 \<le> sk \<and> sk < 4096 \<and> \<not> shut ne (socks s sk) \<and> d_flag (socks s sk) AND DF_SERVICE \<noteq> 0} \<and>
    set (m_w k) = {sk \<in> set (m_r k). n_size ne (d_wbuff (socks s sk)) \<noteq> 0} \<and> (\<forall>sk \<in> set (m_r k). sk \<le> m_max k) \<and>
    socks s' = (\<lambda>j. if 1 \<le> j \<and> j < 4096 \<and> shut ne (socks s j) then zero_desc else socks s j)"
  using cycle_mark_ok [OF assms] by (auto simp: pollable_def)

lemma mark_selects_services_witness: "\<exists>k s'. cycle_mark nenv0 net0 = Some (k, s') \<and> set (m_r k) = {5}"
proof -
  have "\<forall>sk < 4096. pollable nenv0 (socks net0 sk) \<longrightarrow> sk < 1024" by (auto simp: socks0 pollable_def)
  from mark_selects_services [OF closing0 this] show ?thesis
    by (auto simp: socks0 shut_def df_defs)
qed

text \<open>
  C38: one connection per peer. A connection to a coin service from an address that already has a
  service socket of that service, or from a local address, is answered with \<open>SHERR_NOTUNIQ\<close>: its
  descriptor is closed and the table is as before.
\<close>

theorem accept_refuses_duplicate:
  assumes "incoming ne mode s fd a" and "mode < MAX_UNET_COIN_MODES"
    and "(\<exists>sk. peer_sock ne mode (unet_netaddr_str ne a) s sk) \<or> unet_hostname ne (n_peername ne fd) \<in> set (n_ip s)"
  shows "\<exists>s'. unet_accept ne mode s = Some ((SHERR_NOTUNIQ, None), s') \<and> socks s' = socks s \<and>
    n_bind s' = n_bind s \<and> fd_get (nw s') fd = None"
  using unet_accept_refused [OF assms(1)] assms(2,3) by (auto simp: refused_def)

lemma incoming0: "incoming nenv0 1 net0 9 addr0"
  by (simp add: incoming_def socks0) (simp add: nenv0_def net0_def zero_bind_def MAX_UNET_MODES_def env0_def)

theorem accept_refuses_duplicate_witness: "\<exists>s'. unet_accept nenv0 1 net0 = Some ((SHERR_NOTUNIQ, None), s')"
proof -
  have "peer_sock nenv0 1 (unet_netaddr_str nenv0 addr0) net0 5"
    by (simp add: peer_sock_def socks0 service_of_def) (simp add: nenv0_def)
  with accept_refuses_duplicate [OF incoming0] show ?thesis by (auto simp: MAX_UNET_COIN_MODES_def)
qed

text \<open>
  A connection that is not refused gets its slot: flags service, socket and inbound, the mode of
  the service, no other slot changed, and the service's accept callback runs on that state.
\<close>

lemma accept_registers:
  assumes "incoming ne mode s fd a" and "\<not> refused ne mode s fd a"
  shows "\<exists>s1. unet_accept ne mode s = map_option (Pair (0, Some fd)) (run_accept ne (Some (nat mode)) fd a s1) \<and>
    d_mode (socks s1 (nat fd)) = mode \<and> d_flag (socks s1 (nat fd)) = DF_SERVICE OR DF_SOCK OR DF_INBOUND \<and>
    (\<forall>j. j \<noteq> nat fd \<longrightarrow> socks s1 j = socks s j) \<and> fd_get (nw s1) fd = Some FSock \<and> n_bind s1 = n_bind s"
proof -
  from unet_accept_ok [OF assms] obtain s1 where
    "unet_accept ne mode s = map_option (Pair (0, Some fd)) (run_accept ne (Some (nat mode)) fd a s1)"
    "n_bind s1 = n_bind s" "fd_get (nw s1) fd = Some FSock"
    "socks s1 = (socks s)(nat fd := (new_sock ne (tick s) fd mode (socks s (nat fd)))
      \<lparr>d_flag := DF_SERVICE OR DF_SOCK OR DF_INBOUND\<rparr>)" by blast
  then show ?thesis by (intro exI [of _ s1]) simp
qed

lemma incoming_stratum: "incoming nenv0 8 (net0\<lparr>n_bind := (\<lambda>_. zero_bind\<lparr>b_fd := 3\<rparr>)\<rparr>) 9 addr0"
  by (simp add: incoming_def) (simp add: nenv0_def net0_def zero_bind_def MAX_UNET_MODES_def env0_def)

lemma accept_registers_witness:
  "\<exists>s1. unet_accept nenv0 8 (net0\<lparr>n_bind := (\<lambda>_. zero_bind\<lparr>b_fd := 3\<rparr>)\<rparr>) = Some ((0, Some 9), s1)"
proof -
  have "\<not> refused nenv0 8 (net0\<lparr>n_bind := (\<lambda>_. zero_bind\<lparr>b_fd := 3\<rparr>)\<rparr>) 9 addr0"
    by (simp add: refused_def MAX_UNET_COIN_MODES_def)
  from accept_registers [OF incoming_stratum this] show ?thesis
    by (auto simp: run_accept_def zero_bind_def)
qed

text \<open>
  \<open>unet_unbind\<close> closes every service socket of the mode and the listening socket, frees their
  slots, leaves all other slots alone, and the mode is unbound afterwards.
\<close>

lemma unbind_closes_services:
  assumes "closing ne s" and "0 \<le> mode" and "mode < MAX_UNET_MODES"
    and "fd = b_fd (n_bind s (nat mode))" and "0 < fd" and "fd < 4096"
  shows "\<exists>s'. unet_unbind ne mode s = Some (None, s') \<and> b_fd (n_bind s' (nat mode)) = 0 \<and>
    (\<forall>m. m \<noteq> nat mode \<longrightarrow> n_bind s' m = n_bind s m) \<and>
    (\<forall>sk. socks s' sk = (if sk = nat fd \<or> 1 \<le> sk \<and> sk < 4096 \<and> d_mode (socks s sk) = mode \<and>
       d_flag (socks s sk) AND DF_SERVICE \<noteq> 0 then zero_desc else socks s sk))"
proof -
  have "fd \<noteq> 0" "slot_fd fd" using assms by (auto simp: slot_fd_def)
  from unet_unbind_ok [OF assms(1-4) this] show ?thesis by (auto simp: service_of_def)
qed

lemma unbind_closes_services_witness:
  "\<exists>s'. unet_unbind nenv0 1 net0 = Some (None, s') \<and> socks s' 5 = zero_desc"
proof -
  have "b_fd (n_bind net0 (nat 1)) = 3" by (simp add: net0_def)
  with unbind_closes_services [OF closing0, of 1 3] show ?thesis by (force simp: socks0 MAX_UNET_MODES_def)
qed

text \<open>
  \<open>unet_close_idle\<close> closes exactly the sockets it is meant to: connected ones with no activity
  for 45 seconds after the connect, stratum ones idle for an hour, and ones whose buffers overflowed;
  never a listening socket.
\<close>

lemma close_idle_exact:
  assumes "closing ne s"
  shows "\<exists>s'. unet_close_idle ne s = Some s' \<and>
    (\<forall>sk. socks s' sk = (if 1 \<le> sk \<and> sk < 4096 \<and> idle_socket ne (now ne s) (socks s sk) then zero_desc else socks s sk)) \<and>
    (\<forall>sk. d_flag (socks s sk) AND DF_LISTEN \<noteq> 0 \<longrightarrow> socks s' sk = socks s sk)"
  using unet_close_idle_ok [OF assms] by (auto simp: idle_socket_def)

lemma close_idle_exact_witness: "\<exists>s'. unet_close_idle nenv0 net0 = Some s' \<and> socks s' 5 = zero_desc"
proof -
  have "idle_socket nenv0 (now nenv0 net0) sock5"
    by (simp add: idle_socket_def df_defs) (simp add: nenv0_def now_def net0_def sock5_def zero_desc_def env0_def MAX_CONNECT_IDLE_TIME_def)
  with close_idle_exact [OF closing0] show ?thesis by (auto simp: socks0)
qed

text \<open>
  C39: the output of a socket is a queue of bytes. Whatever sequence of \<open>unet_write\<close> calls and write
  passes of the cycle runs on a service socket, and whatever the writes of the system return (some
  bytes, none, \<open>SHERR_AGAIN\<close> or another error), what the socket took followed by what is still
  buffered is what was buffered at first followed by the written data in their order: no byte is
  lost, repeated or overtaken. Only an error other than \<open>SHERR_AGAIN\<close> ends this: it closes the socket
  and drops what was left of the data written until then. No other socket's buffer changes. The close
  callbacks are assumed to leave the descriptors alone.
\<close>

theorem output_in_order:
  assumes "shbuf_ok ne" and "closing ne s" and "0 \<le> fd" and "fd < 4096"
    and "d_flag (socks s (nat fd)) AND DF_SERVICE \<noteq> 0"
  shows "\<exists>s' out closed left n. run_output ne fd ops (s, []) = Some (s', out, closed) \<and>
    out @ left = buf (d_wbuff (socks s (nat fd))) @ concat (map buf (take n ops)) \<and>
    (if closed then n < length ops \<and> ops ! n = None else n = length ops) \<and>
    buf (d_wbuff (socks s' (nat fd))) = (if closed then [] else left) \<and>
    (\<forall>j. j \<noteq> nat fd \<longrightarrow> d_wbuff (socks s' j) = d_wbuff (socks s j))"
  using run_output_ok [OF assms(1,2) _ assms(5), of ops "[]"] assms(3,4) by (simp add: slot_fd_def)

text \<open>Concrete instance: a socket whose writes take two bytes, and one whose writes always would block.\<close>

theorem output_in_order_witness:
  "(\<exists>s' out closed left n. run_output nenv0 5 [Some [1, 2, 3], None, Some [4], None] (net0, []) = Some (s', out, closed) \<and>
      out @ left = concat (map buf (take n [Some [1, 2, 3], None, Some [4], None]))) \<and>
   (\<exists>s' out closed left n. run_output (nenv0\<lparr>n_write := \<lambda>_ _ _ _. SHERR_AGAIN\<rparr>) 5 [Some [1, 2], None] (net0, []) =
      Some (s', out, closed) \<and> out @ left = concat (map buf (take n [Some [1, 2], None])))"
proof -
  have ok: "shbuf_ok (nenv0\<lparr>n_write := \<lambda>_ _ _ _. SHERR_AGAIN\<rparr>)" "closing (nenv0\<lparr>n_write := \<lambda>_ _ _ _. SHERR_AGAIN\<rparr>) net0"
    using shbuf_ok0 closing0 by (simp_all add: shbuf_ok_def closing_def closers_ok_def)
  show ?thesis
    using output_in_order [OF shbuf_ok0 closing0, of 5 "[Some [1, 2, 3], None, Some [4], None]"]
      output_in_order [OF ok, of 5 "[Some [1, 2], None]"] by (force simp: socks0)
qed

text \<open>
  A connect that fails or is not finished after the wait of three seconds returns the error,
  closes its descriptor and leaves the table and the services as they were.
\<close>

lemma connect_failure_cleans_up:
  assumes "n_sk ne (n_tick s) = fd" and "0 \<le> fd" and "fd < 4096"
    and "err = n_conn ne (Suc (n_tick s)) fd a" and "err \<noteq> 0"
    and "err = SHERR_INPROGRESS \<longrightarrow> n_selw ne (Suc (Suc (n_tick s))) fd = 0"
  shows "\<exists>s'. unet_connect ne mode a s =
      Some ((if err = SHERR_INPROGRESS then SHERR_TIMEDOUT else err, None), s') \<and>
    socks s' = socks s \<and> n_bind s' = n_bind s \<and> fd_get (nw s') fd = None"
proof -
  have "conn_result ne fd a (Suc (n_tick s)) = (if err = SHERR_INPROGRESS then SHERR_TIMEDOUT else err)"
    using assms(4-6) by (auto simp: conn_result_def Let_def)
  moreover have "conn_result ne fd a (Suc (n_tick s)) \<noteq> 0"
    using assms(5) unfolding calculation by (simp add: sherr_defs)
  ultimately show ?thesis using unet_connect_failed [OF assms(1-3), of a mode] by auto
qed

lemma connect_failure_cleans_up_witness:
  "\<exists>s'. unet_connect nenv0 1 addr0 net0 = Some ((SHERR_TIMEDOUT, None), s') \<and> fd_get (nw s') 9 = None"
  using connect_failure_cleans_up [of nenv0 net0 9 SHERR_INPROGRESS addr0 1]
  by (auto simp: nenv0_def sherr_defs)

text \<open>
  \<open>unet_local_add\<close>, which calls itself for the IPv6 form of an IPv4 address, always returns: it
  keeps the addresses of before, adds at most two and never more than the table holds; and while
  there is room the address is known afterwards.
\<close>

lemma local_add_returns:
  assumes "\<forall>x. n_ntop ne AF_INET6 x = [] \<or> CHR '':'' \<in> set (n_ntop ne AF_INET6 x)"
  shows "\<exists>s'. unet_local_add ne a s = Some s' \<and>
    (\<exists>xs. n_ip s' = n_ip s @ xs \<and> length xs \<le> 2 \<and> (xs \<noteq> [] \<longrightarrow> length (n_ip s') < MAX_IPADDR_TABLE_SIZE)) \<and>
    (a \<noteq> [] \<and> local_canon ne a \<noteq> [] \<and> length (n_ip s) < 511 \<longrightarrow> unet_local_verify (local_canon ne a) s')"
proof -
  have "ntop_ok ne" using assms by (simp add: ntop_ok_def)
  from unet_local_add_ok [OF this, of a s] show ?thesis by (force simp: MAX_IPADDR_TABLE_SIZE_def)
qed

lemma local_add_returns_witness:
  "\<exists>s'. unet_local_add nenv0 ''127.0.0.1'' net0 = Some s' \<and> unet_local_verify ''1.2.3.4'' s'"
proof -
  have "\<forall>x. n_ntop nenv0 AF_INET6 x = [] \<or> CHR '':'' \<in> set (n_ntop nenv0 AF_INET6 x)"
    by (simp add: nenv0_def AF_INET_def AF_INET6_def)
  moreover have "local_canon nenv0 ''127.0.0.1'' = ''1.2.3.4''" by (simp add: local_canon_def nenv0_def)
  moreover have "n_ip net0 = []" by (simp add: net0_def)
  ultimately show ?thesis using local_add_returns [of nenv0 "''127.0.0.1''" net0] by auto
qed

section \<open>Properties of the coin interfaces\<close>

text \<open>
  \<open>GetCoin\<close> finds exactly the interfaces of the table, whatever the case of the name, and
  \<open>GetCoinIndex\<close> inverts \<open>GetCoinByIndex\<close>; the test interface at index 0 is never returned.
\<close>

lemma coin_lookups_agree:
  "(GetCoin (Some name) = Some k \<longleftrightarrow> (\<exists>nm. GetCoinByIndex (int k) = Some nm \<and> strcasecmp_eq nm name)) \<and>
   (\<forall>i nm. GetCoinByIndex i = Some nm \<longrightarrow> GetCoinIndex (Some nm) = i) \<and> GetCoin (Some name) \<noteq> Some 0"
  by (simp add: GetCoin_iff GetCoinIndex_inverse GetCoinByIndex_def)

lemma coin_lookups_agree_witness: "GetCoin (Some ''USDE'') = Some 2 \<and> GetCoinIndex (Some ''usde'') = 2"
proof -
  have "GetCoinByIndex 2 = Some ''usde''" by (simp add: GetCoinByIndex_def iface_table_def MAX_COIN_IFACE_def)
  moreover have "strcasecmp_eq ''usde'' ''USDE''" by code_simp
  ultimately show ?thesis using coin_lookups_agree [of "''USDE''" 2] by force
qed

text \<open>
  \<open>GetCoinAttr\<close> returns an \<open>int\<close>: an attribute below 2147483648 is returned as it is, but the
  SHC maximum of 100000000000000000 comes back as 1569325056.
\<close>

lemma coin_attr_narrowed:
  "(GetCoin (Some name) = Some k \<and> unat (max_money (lims k)) < 2147483648 \<longrightarrow>
      GetCoinAttr lims (Some name) (Some ''max-money'') = int (unat (max_money (lims k)))) \<and>
   (max_money (lims 1) = 100000000000000000 \<longrightarrow>
      GetCoinAttr lims (Some ''shc'') (Some ''max-money'') = 1569325056)"
proof -
  have attr: "\<not> strcasecmp_eq ''max-money'' ''max-block-size''" "\<not> strcasecmp_eq ''max-money'' ''min-tx-fee''"
    "strcasecmp_eq ''max-money'' ''max-money''" by (simp_all add: strcasecmp_eq_def lower_def)
  have "GetCoin (Some ''shc'') = Some 1" by (simp add: GetCoin_cases strcasecmp_eq_def)
  moreover have "narrow 100000000000000000 = 1569325056" by (simp add: narrow_def)
  ultimately show ?thesis by (simp add: GetCoinAttr_def attr narrow_small)
qed

lemma coin_attr_narrowed_witness:
  "GetCoinAttr (\<lambda>_. \<lparr>max_block_size = 0, min_tx_fee = 0, max_money = 100000000000000000, coinbase_maturity = 0\<rparr>)
     (Some ''shc'') (Some ''max-money'') = 1569325056"
  using coin_attr_narrowed [of "''shc''" 1 "\<lambda>_. \<lparr>max_block_size = 0, min_tx_fee = 0, max_money = 100000000000000000, coinbase_maturity = 0\<rparr>"]
  by simp

end
